(* ===== verification/Ovpn_Prelude.thy ===== *)
theory Ovpn_Prelude
  imports Main "HOL-Library.Word" "HOL-Library.Monad_Syntax"
begin

text \<open>
  Shared vocabulary of the development: the machine types of the C code, aborts as
  \<open>None\<close>, memory blocks with bounds-checked access, and network byte order.

  Every \<open>ASSERT\<close>, every \<open>msg(M_FATAL, ...)\<close> and every access outside an
  allocated block (undefined behaviour in C) ends in \<open>None\<close>: a function of type
  \<open>'a option\<close> returns \<open>Some\<close> exactly when the C function returns to its caller.
  Log output is not modelled.
\<close>

section \<open>Machine types\<close>

type_synonym byte = "8 word"
type_synonym u16 = "16 word"
type_synonym u32 = "32 word"
type_synonym u64 = "64 word"

text \<open>C's signed \<open>int\<close>, \<open>ssize_t\<close> and \<open>time_t\<close> are \<open>int\<close>; the invariants keep
  them in range, so that signed overflow (undefined in C) does not occur.\<close>

type_synonym c_time = int

section \<open>Aborts\<close>

text \<open>The values of a C \<open>int\<close>; a sum or product that leaves them is undefined behaviour.\<close>

definition c_int_ok :: "int \<Rightarrow> bool" where
  "c_int_ok x = (- (2 ^ 31) \<le> x \<and> x < 2 ^ 31)"

definition cassert :: "bool \<Rightarrow> unit option" where
  "cassert P = (if P then Some () else None)"

lemma cassert_simps [simp]:
  "cassert True = Some ()" "cassert False = None"
  by (simp_all add: cassert_def)

lemma cassert_eq_Some [simp]: "cassert P = Some u \<longleftrightarrow> P"
  by (simp add: cassert_def)

lemma bind_cassert [simp]: "(cassert P \<bind> f) = (if P then f () else None)"
  by (simp add: cassert_def)

lemma bind_eq_Some_iff: "(m \<bind> f = Some y) \<longleftrightarrow> (\<exists>x. m = Some x \<and> f x = Some y)"
  for m :: "'a option"
  by (cases m) simp_all

section \<open>Memory blocks\<close>

text \<open>\<open>memcpy\<close> out of and into an allocated block; \<open>None\<close> when it leaves the block.\<close>

definition mem_read :: "byte list \<Rightarrow> int \<Rightarrow> int \<Rightarrow> byte list option" where
  "mem_read d i n =
     (if 0 \<le> i \<and> 0 \<le> n \<and> i + n \<le> int (length d)
      then Some (take (nat n) (drop (nat i) d)) else None)"

definition mem_write :: "byte list \<Rightarrow> int \<Rightarrow> byte list \<Rightarrow> byte list option" where
  "mem_write d i bs =
     (if 0 \<le> i \<and> i + int (length bs) \<le> int (length d)
      then Some (take (nat i) d @ bs @ drop (nat i + length bs) d) else None)"

lemma length_mem_write: "mem_write d i bs = Some d' \<Longrightarrow> length d' = length d"
  by (auto simp: mem_write_def split: if_splits)

lemma mem_read_length: "mem_read d i n = Some bs \<Longrightarrow> length bs = nat n"
  by (auto simp: mem_read_def split: if_splits)

lemma mem_read_write_same:
  "mem_write d i bs = Some d' \<Longrightarrow> mem_read d' i (int (length bs)) = Some bs"
  by (auto simp: mem_write_def mem_read_def split: if_splits)

lemma mem_read_nil [simp]: "0 \<le> i \<Longrightarrow> i \<le> int (length d) \<Longrightarrow> mem_read d i 0 = Some []"
  by (simp add: mem_read_def)

lemma mem_write_nth:
  assumes "mem_write d i bs = Some d'"
  shows "k < length d \<Longrightarrow>
    d' ! k = (if nat i \<le> k \<and> k < nat i + length bs then bs ! (k - nat i) else d ! k)"
  using assms by (auto simp: mem_write_def nth_append min_def split: if_splits)

section \<open>Network byte order\<close>

text \<open>
  \<open>htons\<close>, \<open>htonl\<close> and \<open>htonll\<close> followed by a copy to memory put the most significant
  byte first; \<open>ntohs\<close>, \<open>ntohl\<close> and \<open>ntohll\<close> after a copy from memory invert this.
\<close>

fun be_nat :: "nat \<Rightarrow> nat \<Rightarrow> byte list" where
  "be_nat 0 x = []"
| "be_nat (Suc n) x = be_nat n (x div 256) @ [word_of_nat x]"

definition nat_be :: "byte list \<Rightarrow> nat" where
  "nat_be bs = foldl (\<lambda>a b. 256 * a + unat b) 0 bs"

lemma nat_be_Nil [simp]: "nat_be [] = 0"
  by (simp add: nat_be_def)

lemma nat_be_snoc [simp]: "nat_be (bs @ [b]) = 256 * nat_be bs + unat b"
  by (simp add: nat_be_def)

lemma length_be_nat [simp]: "length (be_nat n x) = n"
  by (induction n arbitrary: x) auto

lemma nat_be_be_nat: "nat_be (be_nat n x) = x mod 256 ^ n"
proof (induction n arbitrary: x)
  case 0
  then show ?case by simp
next
  case (Suc n)
  have "nat_be (be_nat (Suc n) x) = 256 * (x div 256 mod 256 ^ n) + x mod 256"
    by (simp add: Suc unat_of_nat)
  also have "\<dots> = x mod 256 ^ Suc n"
    by (metis (no_types, lifting) add.commute mod_mult2_eq power_Suc)
  finally show ?case .
qed

lemma be_nat_nat_be: "length bs = n \<Longrightarrow> be_nat n (nat_be bs) = bs"
proof (induction n arbitrary: bs)
  case 0
  then show ?case by simp
next
  case (Suc n)
  then obtain cs c where bs: "bs = cs @ [c]" "length cs = n"
    by (metis append_butlast_last_id length_0_conv length_butlast nat.distinct(1) diff_Suc_1)
  have "unat c < 256"
    using unsigned_less[of c] by simp
  then have "(256 * nat_be cs + unat c) div 256 = nat_be cs"
    by simp
  moreover have "word_of_nat (256 * nat_be cs + unat c) = c"
  proof -
    have "unat (word_of_nat (256 * nat_be cs + unat c) :: byte) = unat c"
      using \<open>unat c < 256\<close> by (simp only: unat_of_nat) (simp add: mod_mult_self1)
    then show ?thesis by (rule word_unat_eq_iff[THEN iffD2])
  qed
  ultimately show ?case
    using Suc.IH[of cs] bs by simp
qed

lemma nat_be_bound: "nat_be bs < 256 ^ length bs"
proof -
  have "nat_be bs = nat_be (be_nat (length bs) (nat_be bs))"
    by (simp add: be_nat_nat_be)
  also have "\<dots> < 256 ^ length bs"
    by (simp add: nat_be_be_nat)
  finally show ?thesis .
qed

definition be16 :: "u16 \<Rightarrow> byte list" where "be16 w = be_nat 2 (unat w)"
definition be32 :: "u32 \<Rightarrow> byte list" where "be32 w = be_nat 4 (unat w)"
definition be64 :: "u64 \<Rightarrow> byte list" where "be64 w = be_nat 8 (unat w)"

definition de16 :: "byte list \<Rightarrow> u16" where "de16 bs = word_of_nat (nat_be bs)"
definition de32 :: "byte list \<Rightarrow> u32" where "de32 bs = word_of_nat (nat_be bs)"
definition de64 :: "byte list \<Rightarrow> u64" where "de64 bs = word_of_nat (nat_be bs)"

lemma length_be [simp]: "length (be16 a) = 2" "length (be32 b) = 4" "length (be64 c) = 8"
  by (simp_all add: be16_def be32_def be64_def)

lemma unat_less_2p: "unat (w :: 'a::len word) < 2 ^ LENGTH('a)"
  by (rule unsigned_less)

lemma de16_be16 [simp]: "de16 (be16 w) = w"
  using unat_less_2p[of w] by (simp add: de16_def be16_def nat_be_be_nat)

lemma de32_be32 [simp]: "de32 (be32 w) = w"
  using unat_less_2p[of w] by (simp add: de32_def be32_def nat_be_be_nat)

lemma de64_be64 [simp]: "de64 (be64 w) = w"
  using unat_less_2p[of w] by (simp add: de64_def be64_def nat_be_be_nat)

lemma be32_de32: "length bs = 4 \<Longrightarrow> be32 (de32 bs) = bs"
  using nat_be_bound[of bs] by (simp add: be32_def de32_def unat_of_nat be_nat_nat_be)

lemma unat_succ_less: "i < t \<Longrightarrow> unat (i + 1) = unat i + 1" for i t :: "'a::len word"
proof -
  assume "i < t"
  then have "unat i + 1 < 2 ^ LENGTH('a)"
    using unat_less_2p[of t] by (auto simp only: word_less_nat_alt)
  then show ?thesis by (simp only: unat_word_ariths unat_1 mod_less)
qed

end
