(* ===== verification/Ovpn_Integer.thy ===== *)
theory Ovpn_Integer
  imports Ovpn_Prelude "HOL-Library.While_Combinator"
begin

text \<open>
  The integer helpers of \<open>integer.h\<close>: minimum, clamping, arithmetic on a circle (used by the
  circular list and by the fragment window) and rounding up to a power of two (used by the hash
  table).  The lemmas give each helper its meaning in \<open>mod\<close> and \<open>min\<close>.
\<close>

definition clamp_size_to_int :: "nat \<Rightarrow> int option" where
  "clamp_size_to_int sz = do { cassert (sz \<le> 2147483647); Some (int sz) }"

definition max_int :: "int \<Rightarrow> int \<Rightarrow> int" where
  "max_int x y = (if x > y then x else y)"

definition min_int :: "int \<Rightarrow> int \<Rightarrow> int" where
  "min_int x y = (if x < y then x else y)"

definition min_uint :: "u32 \<Rightarrow> u32 \<Rightarrow> u32" where
  "min_uint x y = (if x < y then x else y)"

definition max_uint :: "u32 \<Rightarrow> u32 \<Rightarrow> u32" where
  "max_uint x y = (if x > y then x else y)"

definition constrain_int :: "int \<Rightarrow> int \<Rightarrow> int \<Rightarrow> int" where
  "constrain_int x lo hi =
     (if lo > hi then lo else if x < lo then lo else if x > hi then hi else x)"

lemma min_int_min [simp]: "min_int x y = min x y"
  by (simp add: min_int_def min_def)

lemma max_int_max [simp]: "max_int x y = max x y"
  by (simp add: max_int_def max_def)

lemma constrain_int_range: "lo \<le> hi \<Longrightarrow> lo \<le> constrain_int x lo hi \<and> constrain_int x lo hi \<le> hi"
  by (simp add: constrain_int_def)

section \<open>Arithmetic on a circle\<close>

definition modulo_subtract :: "int \<Rightarrow> int \<Rightarrow> int \<Rightarrow> int option" where
  "modulo_subtract x y m =
     (let d1 = x - y; d2 = (if x > y then - m else m) + d1
      in do { cassert (0 \<le> x \<and> x < m \<and> 0 \<le> y \<and> y < m);
              Some (if \<bar>d1\<bar> > \<bar>d2\<bar> then d2 else d1) })"

definition modulo_add :: "int \<Rightarrow> int \<Rightarrow> int \<Rightarrow> int option" where
  "modulo_add x y m =
     (let sum = x + y
      in do { cassert (0 \<le> x \<and> x < m \<and> - m \<le> y \<and> y \<le> m);
              let sum = (if sum \<ge> m then sum - m else sum);
              let sum = (if sum < 0 then sum + m else sum);
              Some sum })"

lemma modulo_add_mod:
  assumes "0 \<le> x" "x < m" "- m \<le> y" "y \<le> m"
  shows "modulo_add x y m = Some ((x + y) mod m)"
proof -
  consider "x + y \<ge> m" | "0 \<le> x + y" "x + y < m" | "x + y < 0" by linarith
  then show ?thesis
  proof cases
    case 1
    have "(x + y) mod m = (x + y - m) mod m" by simp
    also have "\<dots> = x + y - m" using 1 assms by (intro mod_pos_pos_trivial) auto
    finally show ?thesis using 1 assms by (simp add: modulo_add_def)
  next
    case 2
    then show ?thesis using assms by (simp add: modulo_add_def)
  next
    case 3
    have "(x + y) mod m = (x + y + m) mod m" by simp
    also have "\<dots> = x + y + m" using 3 assms by (intro mod_pos_pos_trivial) auto
    finally show ?thesis using 3 assms by (simp add: modulo_add_def)
  qed
qed

lemma modulo_add_Some_iff:
  "modulo_add x y m \<noteq> None \<longleftrightarrow> 0 \<le> x \<and> x < m \<and> - m \<le> y \<and> y \<le> m"
  by (simp add: modulo_add_def Let_def)

lemma modulo_subtract_shortest:
  assumes "0 \<le> x" "x < m" "0 \<le> y" "y < m"
  obtains d where "modulo_subtract x y m = Some d" "(y + d) mod m = x"
    "2 * \<bar>d\<bar> \<le> m"
proof -
  let ?d1 = "x - y" let ?d2 = "(if x > y then - m else m) + ?d1"
  have "modulo_subtract x y m = Some (if \<bar>?d1\<bar> > \<bar>?d2\<bar> then ?d2 else ?d1)"
    using assms by (simp add: modulo_subtract_def Let_def)
  moreover have "(y + (if \<bar>?d1\<bar> > \<bar>?d2\<bar> then ?d2 else ?d1)) mod m = x"
  proof -
    have "(y + ?d1) mod m = x" using assms by simp
    moreover have "(y + ?d2) mod m = x"
      using assms by (auto simp: mod_add_self1 algebra_simps)
    ultimately show ?thesis by auto
  qed
  moreover have "2 * \<bar>if \<bar>?d1\<bar> > \<bar>?d2\<bar> then ?d2 else ?d1\<bar> \<le> m"
    using assms by auto
  ultimately show ?thesis using that by blast
qed

section \<open>Powers of two and array bounds\<close>

text \<open>
  The loop of \<open>adjust_power_of_2\<close>, its guard and its body; the state is \<open>None\<close> once the
  assertion \<open>ret > 0\<close> has failed.
\<close>

definition adjust_guard :: "u64 \<Rightarrow> u64 option \<Rightarrow> bool" where
  "adjust_guard u s = (case s of None \<Rightarrow> False | Some r \<Rightarrow> r < u)"

definition adjust_step :: "u64 option \<Rightarrow> u64 option" where
  "adjust_step s = do { r \<leftarrow> s; let r = push_bit 1 r; cassert (r > 0); Some r }"

definition adjust_power_of_2 :: "u64 \<Rightarrow> u64 option" where
  "adjust_power_of_2 u =
     (case while_option (adjust_guard u) adjust_step (Some 1)
      of None \<Rightarrow> None | Some s \<Rightarrow> s)"

definition index_verify :: "int \<Rightarrow> int \<Rightarrow> int option" where
  "index_verify index sz = (if index < 0 \<or> index \<ge> sz then None else Some index)"

definition round_down_size :: "nat \<Rightarrow> nat \<Rightarrow> nat" where
  "round_down_size num multiple = (num div multiple) * multiple"

lemma index_verify_ok [simp]: "0 \<le> i \<Longrightarrow> i < n \<Longrightarrow> index_verify i n = Some i"
  by (simp add: index_verify_def)

lemma unat_2p_u64: "k \<le> 63 \<Longrightarrow> unat (2 ^ k :: u64) = 2 ^ k"
proof -
  assume "k \<le> 63"
  then have "(2::nat) ^ k < 2 ^ 64" by (intro power_strict_increasing) auto
  then have "unat (word_of_nat (2 ^ k) :: u64) = 2 ^ k"
    by (simp only: unat_of_nat) simp
  then show ?thesis by simp
qed

lemma adjust_step_2p: "k < 63 \<Longrightarrow> adjust_step (Some (2 ^ k)) = Some (2 ^ Suc k)"
  using unat_2p_u64[of "Suc k"]
  by (simp add: adjust_step_def push_bit_eq_mult word_less_nat_alt mult.commute)

lemma adjust_loop:
  assumes "k \<le> 63" and "\<forall>j<k. (2::nat) ^ j < unat u" and "unat u \<le> 2 ^ 63"
  shows "\<exists>n. n \<le> 63 \<and> unat u \<le> 2 ^ n \<and> (\<forall>j<n. 2 ^ j < unat u) \<and>
    while_option (adjust_guard u) adjust_step (Some (2 ^ k)) = Some (Some (2 ^ n))"
  using assms
proof (induction "63 - k" arbitrary: k)
  case 0
  then have "k = 63" by simp
  with "0.prems" show ?case
    by (intro exI[of _ 63])
      (simp add: while_option_unfold adjust_guard_def word_less_nat_alt)
next
  case (Suc d)
  then have k: "k < 63" by simp
  have d: "d = 63 - Suc k" using Suc.hyps(2) by simp
  show ?case
  proof (cases "2 ^ k < unat u")
    case False
    then show ?thesis
      using Suc.prems k
      by (intro exI[of _ k])
        (simp add: while_option_unfold adjust_guard_def word_less_nat_alt unat_2p_u64)
  next
    case True
    then have "\<forall>j<Suc k. (2::nat) ^ j < unat u"
      using Suc.prems(2) less_Suc_eq by blast
    then obtain n where n: "n \<le> 63" "unat u \<le> 2 ^ n" "\<forall>j<n. 2 ^ j < unat u"
      "while_option (adjust_guard u) adjust_step (Some (2 ^ Suc k)) = Some (Some (2 ^ n))"
      using Suc.hyps(1)[OF d] Suc.prems(3) k by auto
    moreover have "adjust_guard u (Some (2 ^ k))"
      using True k by (simp add: adjust_guard_def word_less_nat_alt unat_2p_u64)
    ultimately show ?thesis
      using adjust_step_2p[OF k] by (intro exI[of _ n]) (subst while_option_unfold, simp)
  qed
qed

lemma adjust_power_of_2_least:
  assumes "unat u \<le> 2 ^ 63"
  obtains n where "n \<le> 63" "adjust_power_of_2 u = Some (2 ^ n)" "unat u \<le> 2 ^ n"
    "\<forall>j<n. 2 ^ j < unat u"
  using adjust_loop[of 0 u] assms that by (auto simp: adjust_power_of_2_def)

end
