(* ===== verification/Ovpn_Buffer.thy ===== *)
theory Ovpn_Buffer
  imports Ovpn_Integer
begin

text \<open>
  The packet buffer of \<open>buffer.h\<close> and \<open>buffer.c\<close>: a heap block with an offset and a
  length, so that headers can be prepended and payload appended without moving data.

  The block a buffer points to is the field \<open>b_data\<close> (\<open>None\<close> for a NULL pointer); pointers into
  it are indices.  Two buffers of one call never share a block, except for \<open>buf_sub\<close>, whose
  result is a window of its parent; \<open>buf_sub_commit\<close> writes the window back.
\<close>

section \<open>State\<close>

record buffer =
  b_capacity :: int
  b_offset :: int
  b_len :: int
  b_data :: "byte list option"

definition BUF_SIZE_MAX :: int where
  "BUF_SIZE_MAX = 1000000"

definition clear_buf :: buffer where
  "clear_buf = \<lparr>b_capacity = 0, b_offset = 0, b_len = 0, b_data = None\<rparr>"

text \<open>Conversion of a signed argument to \<open>size_t\<close>.\<close>

definition to_size_t :: "int \<Rightarrow> nat" where
  "to_size_t i = nat (i mod 2 ^ 64)"

section \<open>Observers\<close>

definition buf_defined :: "buffer \<Rightarrow> bool" where
  "buf_defined b = (b_data b \<noteq> None)"

definition buf_valid :: "buffer \<Rightarrow> bool" where
  "buf_valid b = (b_data b \<noteq> None \<and> b_len b \<ge> 0)"

definition buf_bptr :: "buffer \<Rightarrow> int option" where
  "buf_bptr b = (if buf_valid b then Some (b_offset b) else None)"

definition buf_len :: "buffer \<Rightarrow> int" where
  "buf_len b = (if buf_valid b then b_len b else 0)"

definition buf_bend :: "buffer \<Rightarrow> int option" where
  "buf_bend b = map_option (\<lambda>p. p + buf_len b) (buf_bptr b)"

definition buf_blast :: "buffer \<Rightarrow> int option" where
  "buf_blast b = (if buf_len b > 0 then map_option (\<lambda>p. p + buf_len b - 1) (buf_bptr b) else None)"

definition buf_size_valid :: "nat \<Rightarrow> bool" where
  "buf_size_valid sz = (int sz < BUF_SIZE_MAX)"

definition buf_size_valid_signed :: "int \<Rightarrow> bool" where
  "buf_size_valid_signed sz = (sz \<ge> - BUF_SIZE_MAX \<and> sz < BUF_SIZE_MAX)"

definition buf_safe :: "buffer \<Rightarrow> nat \<Rightarrow> bool" where
  "buf_safe b n = (buf_valid b \<and> buf_size_valid n \<and> b_offset b + b_len b + int n \<le> b_capacity b)"

definition buf_safe_bidir :: "buffer \<Rightarrow> int \<Rightarrow> bool" where
  "buf_safe_bidir b n =
     (if buf_valid b \<and> buf_size_valid_signed n
      then (let newlen = b_len b + n in newlen \<ge> 0 \<and> b_offset b + newlen \<le> b_capacity b)
      else False)"

definition buf_forward_capacity :: "buffer \<Rightarrow> int" where
  "buf_forward_capacity b =
     (if buf_valid b
      then (let ret = b_capacity b - (b_offset b + b_len b) in if ret < 0 then 0 else ret)
      else 0)"

definition buf_forward_capacity_total :: "buffer \<Rightarrow> int" where
  "buf_forward_capacity_total b =
     (if buf_valid b
      then (let ret = b_capacity b - b_offset b in if ret < 0 then 0 else ret)
      else 0)"

definition buf_reverse_capacity :: "buffer \<Rightarrow> int" where
  "buf_reverse_capacity b = (if buf_valid b then b_offset b else 0)"

section \<open>Access to the block\<close>

definition buf_load :: "buffer \<Rightarrow> int \<Rightarrow> int \<Rightarrow> byte list option" where
  "buf_load b p n = do { d \<leftarrow> b_data b; mem_read d p n }"

definition buf_store :: "buffer \<Rightarrow> int \<Rightarrow> byte list \<Rightarrow> buffer option" where
  "buf_store b p bs = do { d \<leftarrow> b_data b; d' \<leftarrow> mem_write d p bs; Some (b\<lparr>b_data := Some d'\<rparr>) }"

text \<open>The bytes a callee reads from \<open>BPTR(b)\<close> with length \<open>BLENZ(b)\<close>.\<close>

definition buf_bytes :: "buffer \<Rightarrow> byte list option" where
  "buf_bytes b = (case buf_bptr b of None \<Rightarrow> Some [] | Some p \<Rightarrow> buf_load b p (buf_len b))"

section \<open>Allocation and reset\<close>

text \<open>\<open>malloc\<close> leaves a block's bytes unspecified; where the code does not clear them they are
  the parameter \<open>junk\<close>.\<close>

definition alloc_buf :: "nat \<Rightarrow> buffer option" where
  "alloc_buf sz = do {
     cassert (buf_size_valid sz);
     Some \<lparr>b_capacity = int sz, b_offset = 0, b_len = 0, b_data = Some (replicate sz 0)\<rparr> }"

definition alloc_buf_gc :: "(nat \<Rightarrow> byte) \<Rightarrow> nat \<Rightarrow> buffer option" where
  "alloc_buf_gc junk sz = do {
     cassert (buf_size_valid sz);
     let d = map junk [0..<sz];
     Some \<lparr>b_capacity = int sz, b_offset = 0, b_len = 0,
           b_data = Some (if sz \<noteq> 0 then d[0 := 0] else d)\<rparr> }"

definition clone_buf :: "(nat \<Rightarrow> byte) \<Rightarrow> buffer \<Rightarrow> buffer option" where
  "clone_buf junk b = do {
     let r = b\<lparr>b_data := Some (map junk [0..<nat (b_capacity b)])\<rparr>;
     src \<leftarrow> buf_bytes b;
     case buf_bptr r of
       None \<Rightarrow> Some r
     | Some p \<Rightarrow> buf_store r p src }"

definition buf_reset :: "buffer \<Rightarrow> buffer" where
  "buf_reset b = b\<lparr>b_capacity := 0, b_offset := 0, b_len := 0, b_data := None\<rparr>"

definition buf_reset_len :: "buffer \<Rightarrow> buffer" where
  "buf_reset_len b = b\<lparr>b_len := 0, b_offset := 0\<rparr>"

definition buf_init :: "buffer \<Rightarrow> int \<Rightarrow> buffer \<times> bool" where
  "buf_init b off =
     (if off < 0 \<or> off > b_capacity b \<or> b_data b = None then (b, False)
      else (b\<lparr>b_len := 0, b_offset := off\<rparr>, True))"

definition buf_set_write :: "byte list option \<Rightarrow> int \<Rightarrow> buffer option" where
  "buf_set_write dat sz = do {
     cassert (buf_size_valid (to_size_t sz));
     let b = \<lparr>b_capacity = sz, b_offset = 0, b_len = 0, b_data = dat\<rparr>;
     if sz > 0 \<and> dat \<noteq> None then buf_store b 0 [0] else Some b }"

definition buf_set_read :: "byte list option \<Rightarrow> nat \<Rightarrow> buffer option" where
  "buf_set_read dat sz = do {
     cassert (buf_size_valid sz);
     Some \<lparr>b_capacity = int sz, b_offset = 0, b_len = int sz, b_data = dat\<rparr> }"

definition buf_clear :: "buffer \<Rightarrow> buffer option" where
  "buf_clear b = do {
     b' \<leftarrow> (if b_capacity b > 0 then buf_store b 0 (replicate (nat (b_capacity b)) 0) else Some b);
     Some (b'\<lparr>b_len := 0, b_offset := 0\<rparr>) }"

definition free_buf :: "buffer \<Rightarrow> buffer" where
  "free_buf b = clear_buf"

section \<open>Moving the ends of the content\<close>

definition buf_inc_len :: "buffer \<Rightarrow> int \<Rightarrow> buffer \<times> bool" where
  "buf_inc_len b inc =
     (if \<not> buf_safe_bidir b inc then (b, False) else (b\<lparr>b_len := b_len b + inc\<rparr>, True))"

definition buf_prepend :: "buffer \<Rightarrow> int \<Rightarrow> buffer \<times> int option" where
  "buf_prepend b sz =
     (if \<not> buf_valid b \<or> sz < 0 \<or> sz > b_offset b then (b, None)
      else (let b' = b\<lparr>b_offset := b_offset b - sz, b_len := b_len b + sz\<rparr> in (b', buf_bptr b')))"

definition buf_advance :: "buffer \<Rightarrow> int \<Rightarrow> buffer \<times> bool" where
  "buf_advance b sz =
     (if \<not> buf_valid b \<or> sz < 0 \<or> b_len b < sz then (b, False)
      else (b\<lparr>b_offset := b_offset b + sz, b_len := b_len b - sz\<rparr>, True))"

definition buf_write_alloc :: "buffer \<Rightarrow> nat \<Rightarrow> buffer \<times> int option" where
  "buf_write_alloc b sz =
     (if \<not> buf_safe b sz then (b, None)
      else (b\<lparr>b_len := b_len b + int sz\<rparr>, map_option (\<lambda>p. p + b_len b) (buf_bptr b)))"

definition buf_read_alloc :: "buffer \<Rightarrow> int \<Rightarrow> buffer \<times> int option" where
  "buf_read_alloc b sz =
     (if sz < 0 \<or> b_len b < sz then (b, None)
      else (b\<lparr>b_offset := b_offset b + sz, b_len := b_len b - sz\<rparr>, buf_bptr b))"

section \<open>Writing\<close>

definition buf_write :: "buffer \<Rightarrow> byte list \<Rightarrow> (buffer \<times> bool) option" where
  "buf_write b src =
     (case buf_write_alloc b (length src) of
        (b', None) \<Rightarrow> Some (b', False)
      | (b', Some cp) \<Rightarrow> do { b'' \<leftarrow> buf_store b' cp src; Some (b'', True) })"

definition buf_write_prepend :: "buffer \<Rightarrow> byte list \<Rightarrow> (buffer \<times> bool) option" where
  "buf_write_prepend b src =
     (case buf_prepend b (int (length src)) of
        (b', None) \<Rightarrow> Some (b', False)
      | (b', Some cp) \<Rightarrow> do { b'' \<leftarrow> buf_store b' cp src; Some (b'', True) })"

definition buf_write_u8 :: "buffer \<Rightarrow> byte \<Rightarrow> (buffer \<times> bool) option" where
  "buf_write_u8 b x = buf_write b [x]"

definition buf_write_u16 :: "buffer \<Rightarrow> u16 \<Rightarrow> (buffer \<times> bool) option" where
  "buf_write_u16 b x = buf_write b (be16 x)"

definition buf_write_u32 :: "buffer \<Rightarrow> u32 \<Rightarrow> (buffer \<times> bool) option" where
  "buf_write_u32 b x = buf_write b (be32 x)"

definition buf_copy :: "buffer \<Rightarrow> buffer \<Rightarrow> (buffer \<times> bool) option" where
  "buf_copy dest src = do { bs \<leftarrow> buf_bytes src; buf_write dest bs }"

definition buf_assign :: "buffer \<Rightarrow> buffer \<Rightarrow> (buffer \<times> bool) option" where
  "buf_assign dest src =
     (case buf_init dest (b_offset src) of
        (d, False) \<Rightarrow> Some (d, False)
      | (d, True) \<Rightarrow> do { bs \<leftarrow> buf_bytes src; buf_write d bs })"

section \<open>Reading\<close>

text \<open>\<open>buf_read\<close> returns the bytes copied to the caller, or \<open>None\<close> when it reports failure.\<close>

definition buf_read :: "buffer \<Rightarrow> int \<Rightarrow> (buffer \<times> byte list option) option" where
  "buf_read b sz =
     (case buf_read_alloc b sz of
        (b', None) \<Rightarrow> Some (b', None)
      | (b', Some cp) \<Rightarrow> do { bs \<leftarrow> buf_load b cp sz; Some (b', Some bs) })"

definition buf_peek_u8 :: "buffer \<Rightarrow> int option" where
  "buf_peek_u8 b =
     (if buf_len b < 1 then Some (- 1)
      else do { p \<leftarrow> buf_bptr b; bs \<leftarrow> buf_load b p 1; Some (uint (hd bs)) })"

definition buf_read_u8 :: "buffer \<Rightarrow> (buffer \<times> int) option" where
  "buf_read_u8 b = do {
     ret \<leftarrow> buf_peek_u8 b;
     Some (if ret \<ge> 0 then fst (buf_advance b 1) else b, ret) }"

definition buf_read_u16 :: "buffer \<Rightarrow> (buffer \<times> int) option" where
  "buf_read_u16 b = do {
     (b', r) \<leftarrow> buf_read b 2;
     Some (b', case r of None \<Rightarrow> - 1 | Some bs \<Rightarrow> uint (de16 bs)) }"

definition buf_read_u32 :: "buffer \<Rightarrow> (buffer \<times> u32 \<times> bool) option" where
  "buf_read_u32 b = do {
     (b', r) \<leftarrow> buf_read b 4;
     Some (b', case r of None \<Rightarrow> (0, False) | Some bs \<Rightarrow> (de32 bs, True)) }"

definition buf_copy_n :: "buffer \<Rightarrow> buffer \<Rightarrow> int \<Rightarrow> (buffer \<times> buffer \<times> bool) option" where
  "buf_copy_n dest src n =
     (case buf_read_alloc src n of
        (src', None) \<Rightarrow> Some (dest, src', False)
      | (src', Some cp) \<Rightarrow> do {
          bs \<leftarrow> buf_load src cp n;
          (dest', ok) \<leftarrow> buf_write dest bs;
          Some (dest', src', ok) })"

text \<open>The sums in the checks of \<open>buf_copy_range\<close> are of type \<open>int\<close> and are not guarded themselves.\<close>

definition buf_copy_range ::
  "buffer \<Rightarrow> int \<Rightarrow> buffer \<Rightarrow> int \<Rightarrow> int \<Rightarrow> (buffer \<times> bool) option" where
  "buf_copy_range dest di src si sl =
     (if si < 0 \<or> sl < 0 then Some (dest, False)
      else do {
        cassert (c_int_ok (si + sl));
        if si + sl > b_len src \<or> di < 0 then Some (dest, False)
        else do {
          cassert (c_int_ok (b_offset dest + di) \<and> c_int_ok (b_offset dest + di + sl));
          if b_offset dest + di + sl > b_capacity dest then Some (dest, False)
          else do {
            bs \<leftarrow> buf_load src (b_offset src + si) sl;
            dest' \<leftarrow> buf_store dest (b_offset dest + di) bs;
            Some (if di + sl > b_len dest' then dest'\<lparr>b_len := di + sl\<rparr> else dest', True) } } })"

definition buf_copy_excess :: "buffer \<Rightarrow> buffer \<Rightarrow> int \<Rightarrow> (buffer \<times> buffer \<times> bool) option" where
  "buf_copy_excess dest src n =
     (if n < 0 then Some (dest, src, False)
      else if b_len src > n
      then (let src' = src\<lparr>b_len := n\<rparr>
            in case buf_advance src n of
                 (b, False) \<Rightarrow> Some (dest, src', False)
               | (b, True) \<Rightarrow> do { (dest', ok) \<leftarrow> buf_copy dest b; Some (dest', src', ok) })
      else Some (dest, src, True))"

definition buf_equal :: "buffer \<Rightarrow> buffer \<Rightarrow> bool option" where
  "buf_equal a b =
     (if buf_len a = buf_len b
      then do { x \<leftarrow> buf_bytes a; y \<leftarrow> buf_bytes b; Some (x = y) }
      else Some False)"

definition buf_string_match :: "buffer \<Rightarrow> byte list \<Rightarrow> bool option" where
  "buf_string_match b m =
     (if int (length m) \<noteq> b_len b then Some False
      else do { x \<leftarrow> buf_bytes b; Some (x = m) })"

definition buf_string_match_head :: "buffer \<Rightarrow> byte list \<Rightarrow> bool option" where
  "buf_string_match_head b m =
     (if int (length m) > b_len b then Some False
      else do { p \<leftarrow> buf_bptr b; x \<leftarrow> buf_load b p (int (length m)); Some (x = m) })"

section \<open>Windows\<close>

definition buf_sub :: "buffer \<Rightarrow> int \<Rightarrow> bool \<Rightarrow> (buffer \<times> int \<times> buffer) option" where
  "buf_sub b sz prepend =
     (case (if prepend then buf_prepend b sz else buf_write_alloc b (to_size_t sz)) of
        (b', None) \<Rightarrow> Some (b', 0, clear_buf)
      | (b', Some p) \<Rightarrow> do {
          w \<leftarrow> buf_load b' p sz;
          Some (b', p, \<lparr>b_capacity = sz, b_offset = 0, b_len = 0, b_data = Some w\<rparr>) })"

definition buf_sub_commit :: "buffer \<Rightarrow> int \<Rightarrow> buffer \<Rightarrow> buffer option" where
  "buf_sub_commit parent p sub = do { w \<leftarrow> b_data sub; buf_store parent p w }"

section \<open>Invariant and abstraction\<close>

text \<open>
  A well-formed buffer is either the cleared one or a block split into headroom, content and
  tailroom.  \<open>buf_of p c q\<close> is that concrete state; each operation has one equation over it.
\<close>

definition buf_of :: "byte list \<Rightarrow> byte list \<Rightarrow> byte list \<Rightarrow> buffer" where
  "buf_of p c q = \<lparr>b_capacity = int (length p + length c + length q), b_offset = int (length p),
                   b_len = int (length c), b_data = Some (p @ c @ q)\<rparr>"

definition buf_fits :: "byte list \<Rightarrow> byte list \<Rightarrow> byte list \<Rightarrow> bool" where
  "buf_fits p c q = (int (length p + length c + length q) < BUF_SIZE_MAX)"

definition buf_ok :: "buffer \<Rightarrow> bool" where
  "buf_ok b = (case b_data b of
      None \<Rightarrow> b = clear_buf
    | Some d \<Rightarrow> int (length d) = b_capacity b \<and> 0 \<le> b_offset b \<and> 0 \<le> b_len b \<and>
                b_offset b + b_len b \<le> b_capacity b \<and> b_capacity b < BUF_SIZE_MAX)"

definition buf_head :: "buffer \<Rightarrow> byte list" where
  "buf_head b = (case b_data b of None \<Rightarrow> [] | Some d \<Rightarrow> take (nat (b_offset b)) d)"

definition buf_content :: "buffer \<Rightarrow> byte list" where
  "buf_content b = (case b_data b of None \<Rightarrow> []
     | Some d \<Rightarrow> take (nat (b_len b)) (drop (nat (b_offset b)) d))"

definition buf_tail :: "buffer \<Rightarrow> byte list" where
  "buf_tail b = (case b_data b of None \<Rightarrow> []
     | Some d \<Rightarrow> drop (nat (b_offset b) + nat (b_len b)) d)"

lemma buf_of_sel [simp]:
  "b_capacity (buf_of p c q) = int (length p + length c + length q)"
  "b_offset (buf_of p c q) = int (length p)"
  "b_len (buf_of p c q) = int (length c)"
  "b_data (buf_of p c q) = Some (p @ c @ q)"
  "buf_head (buf_of p c q) = p" "buf_content (buf_of p c q) = c" "buf_tail (buf_of p c q) = q"
  by (simp_all add: buf_of_def buf_head_def buf_content_def buf_tail_def)

lemma buf_ok_of [simp]: "buf_ok (buf_of p c q) \<longleftrightarrow> buf_fits p c q"
  by (simp add: buf_ok_def buf_fits_def)

lemma buf_ok_clear [simp]: "buf_ok clear_buf"
  by (simp add: buf_ok_def clear_buf_def)

lemma buf_ok_repr:
  assumes "buf_ok b" "buf_defined b"
  shows "b = buf_of (buf_head b) (buf_content b) (buf_tail b)"
    "buf_fits (buf_head b) (buf_content b) (buf_tail b)"
proof -
  obtain d where d: "b_data b = Some d" using assms(2) by (auto simp: buf_defined_def)
  let ?o = "nat (b_offset b)" and ?l = "nat (b_len b)"
  have ok: "int (length d) = b_capacity b" "0 \<le> b_offset b" "0 \<le> b_len b"
    "b_offset b + b_len b \<le> b_capacity b" "b_capacity b < BUF_SIZE_MAX"
    using assms(1) d by (auto simp: buf_ok_def)
  have parts: "buf_head b = take ?o d" "buf_content b = take ?l (drop ?o d)"
    "buf_tail b = drop ?l (drop ?o d)"
    using d by (simp_all add: buf_head_def buf_content_def buf_tail_def add.commute)
  have len: "length (buf_head b) = ?o" "length (buf_content b) = ?l"
    "length (buf_head b) + length (buf_content b) + length (buf_tail b) = length d"
    using ok parts by auto
  have "buf_head b @ buf_content b @ buf_tail b = d"
    unfolding parts by (metis append_take_drop_id)
  then show "b = buf_of (buf_head b) (buf_content b) (buf_tail b)"
    using ok d len by (intro buffer.equality) (simp_all add: buf_of_def)
  show "buf_fits (buf_head b) (buf_content b) (buf_tail b)"
    using ok len by (simp add: buf_fits_def)
qed

lemma buf_ok_cases [consumes 1, case_names cleared block]:
  assumes "buf_ok b"
  obtains "b = clear_buf" | p c q where "b = buf_of p c q" "buf_fits p c q"
proof (cases "buf_defined b")
  case True
  with assms buf_ok_repr show ?thesis using that(2) by blast
next
  case False
  with assms show ?thesis using that(1) by (auto simp: buf_ok_def buf_defined_def)
qed

section \<open>The operations on well-formed buffers\<close>

named_theorems buf_eqs "equations of the buffer operations over headroom, content and tailroom"

lemma buf_of_obs [simp]:
  "buf_defined (buf_of p c q)" "buf_valid (buf_of p c q)"
  "buf_bptr (buf_of p c q) = Some (int (length p))"
  "buf_len (buf_of p c q) = int (length c)"
  "buf_forward_capacity (buf_of p c q) = int (length q)"
  "buf_forward_capacity_total (buf_of p c q) = int (length c + length q)"
  "buf_reverse_capacity (buf_of p c q) = int (length p)"
  by (simp_all add: buf_defined_def buf_valid_def buf_bptr_def buf_len_def
      buf_forward_capacity_def buf_forward_capacity_total_def buf_reverse_capacity_def)

lemma buf_clear_obs [simp]:
  "\<not> buf_defined clear_buf" "\<not> buf_valid clear_buf" "buf_bptr clear_buf = None"
  "buf_len clear_buf = 0" "buf_forward_capacity clear_buf = 0" "buf_content clear_buf = []"
  "b_data clear_buf = None" "b_len clear_buf = 0" "b_offset clear_buf = 0"
  by (simp_all add: clear_buf_def buf_defined_def buf_valid_def buf_bptr_def buf_len_def
      buf_forward_capacity_def buf_content_def)

lemma buf_bytes_of [buf_eqs]: "buf_bytes (buf_of p c q) = Some c"
  by (simp add: buf_bytes_def buf_load_def mem_read_def)

lemma buf_bytes_ok: "buf_ok b \<Longrightarrow> buf_bytes b = Some (buf_content b)"
  by (cases rule: buf_ok_cases) (auto simp: buf_bytes_of, simp add: buf_bytes_def)

lemma buf_load_content [buf_eqs]:
  "0 \<le> i \<Longrightarrow> 0 \<le> n \<Longrightarrow> i + n \<le> int (length c) \<Longrightarrow>
   buf_load (buf_of p c q) (int (length p) + i) n = Some (take (nat n) (drop (nat i) c))"
  by (auto simp: buf_load_def mem_read_def nat_add_distrib)

lemma buf_write_of [buf_eqs]:
  "buf_fits p c q \<Longrightarrow> buf_write (buf_of p c q) bs =
     (if length bs \<le> length q then Some (buf_of p (c @ bs) (drop (length bs) q), True)
      else Some (buf_of p c q, False))"
  by (auto simp: buf_write_def buf_write_alloc_def buf_safe_def buf_size_valid_def buf_fits_def
      buf_of_def buf_store_def mem_write_def buf_bptr_def buf_valid_def nat_add_distrib)

lemma buf_write_clear [buf_eqs]: "buf_write clear_buf bs = Some (clear_buf, False)"
  by (simp add: buf_write_def buf_write_alloc_def buf_safe_def)

lemma buf_write_prepend_of [buf_eqs]:
  "buf_write_prepend (buf_of p c q) bs =
     (if length bs \<le> length p then Some (buf_of (take (length p - length bs) p) (bs @ c) q, True)
      else Some (buf_of p c q, False))"
  by (auto simp: buf_write_prepend_def buf_prepend_def buf_of_def buf_store_def mem_write_def
      buf_bptr_def buf_valid_def nat_diff_distrib)

lemma buf_read_of [buf_eqs]:
  "buf_read (buf_of p c q) n =
     (if 0 \<le> n \<and> n \<le> int (length c)
      then Some (buf_of (p @ take (nat n) c) (drop (nat n) c) q, Some (take (nat n) c))
      else Some (buf_of p c q, None))"
  by (auto simp: buf_read_def buf_read_alloc_def buf_of_def buf_load_def mem_read_def
      buf_bptr_def buf_valid_def)

lemma buf_advance_of [buf_eqs]:
  "buf_advance (buf_of p c q) n =
     (if 0 \<le> n \<and> n \<le> int (length c) then (buf_of (p @ take (nat n) c) (drop (nat n) c) q, True)
      else (buf_of p c q, False))"
  by (auto simp: buf_advance_def buf_of_def buf_valid_def)

lemma buf_of_move:
  assumes "0 \<le> n" "n \<le> m" "m \<le> int (length (p @ c @ q))"
  shows "(buf_of p c q)\<lparr>b_offset := n, b_len := m - n\<rparr> =
    buf_of (take (nat n) (p @ c @ q)) (take (nat (m - n)) (drop (nat n) (p @ c @ q)))
      (drop (nat m) (p @ c @ q))"
proof -
  define d where "d = p @ c @ q"
  have "drop (nat m) d = drop (nat (m - n)) (drop (nat n) d)"
    using assms by (simp add: nat_diff_distrib)
  then have d: "take (nat n) d @ take (nat (m - n)) (drop (nat n) d) @ drop (nat m) d = d"
    by (metis append_take_drop_id)
  have "b_capacity (buf_of p c q) = int (length d)" "b_data (buf_of p c q) = Some d"
    by (simp_all add: d_def)
  then show ?thesis
    using assms d unfolding d_def[symmetric]
    by (simp add: buf_of_def del: append_assoc)
qed

lemma buf_init_of [buf_eqs]:
  "buf_init (buf_of p c q) n =
     (if 0 \<le> n \<and> n \<le> int (length p + length c + length q)
      then (buf_of (take (nat n) (p @ c @ q)) [] (drop (nat n) (p @ c @ q)), True)
      else (buf_of p c q, False))"
  using buf_of_move[of n n p c q]
  by (auto simp: buf_init_def simp del: take_append drop_append)

lemma buf_inc_len_of [buf_eqs]:
  assumes "buf_fits p c q" "- int (length c) \<le> n" "n \<le> int (length q)"
  shows "buf_inc_len (buf_of p c q) n =
     (buf_of p (take (nat (int (length c) + n)) (c @ q))
       (drop (nat (int (length c) + n)) (c @ q)), True)"
proof -
  let ?k = "int (length c) + n"
  have "buf_safe_bidir (buf_of p c q) n"
    using assms by (simp add: buf_safe_bidir_def buf_size_valid_signed_def buf_fits_def Let_def)
  then have "buf_inc_len (buf_of p c q) n = ((buf_of p c q)\<lparr>b_len := ?k\<rparr>, True)"
    by (simp add: buf_inc_len_def)
  also have "(buf_of p c q)\<lparr>b_len := ?k\<rparr> =
      (buf_of p c q)\<lparr>b_offset := int (length p), b_len := ?k\<rparr>"
    by (simp add: buf_of_def)
  finally show ?thesis
    using assms buf_of_move[of "int (length p)" "int (length p) + ?k" p c q]
    by (simp add: nat_add_distrib)
qed

lemma alloc_buf_ok [buf_eqs]:
  "int n < BUF_SIZE_MAX \<Longrightarrow> alloc_buf n = Some (buf_of [] [] (replicate n 0))"
  by (simp add: alloc_buf_def buf_size_valid_def buf_of_def)

lemma mem_write_mid:
  "length y = length bs \<Longrightarrow> i = int (length x) \<Longrightarrow> mem_write (x @ y @ z) i bs = Some (x @ bs @ z)"
  by (simp add: mem_write_def)

lemma mem_read_mid:
  "i = int (length x) \<Longrightarrow> n = int (length y) \<Longrightarrow> mem_read (x @ y @ z) i n = Some y"
  by (simp add: mem_read_def)

lemma buf_prepend_of [buf_eqs]:
  "buf_prepend (buf_of p c q) n =
     (if 0 \<le> n \<and> n \<le> int (length p)
      then (buf_of (take (length p - nat n) p) (drop (length p - nat n) p @ c) q,
            Some (int (length p) - n))
      else (buf_of p c q, None))"
proof (cases "0 \<le> n \<and> n \<le> int (length p)")
  case True
  define p1 where "p1 = take (length p - nat n) p"
  define p2 where "p2 = drop (length p - nat n) p"
  have "p = p1 @ p2" "n = int (length p2)" using True by (auto simp: p1_def p2_def)
  moreover have "buf_prepend (buf_of (p1 @ p2) c q) (int (length p2)) =
      (buf_of p1 (p2 @ c) q, Some (int (length p1)))"
    by (simp add: buf_prepend_def buf_of_def buf_bptr_def buf_valid_def)
  ultimately show ?thesis using True by simp
next
  case False
  then show ?thesis by (auto simp: buf_prepend_def)
qed

lemma buf_copy_of [buf_eqs]:
  "buf_ok src \<Longrightarrow> buf_fits p c q \<Longrightarrow> buf_copy (buf_of p c q) src =
     (if length (buf_content src) \<le> length q
      then Some (buf_of p (c @ buf_content src) (drop (length (buf_content src)) q), True)
      else Some (buf_of p c q, False))"
  by (simp add: buf_copy_def buf_bytes_ok buf_write_of)

lemma buf_copy_n_of [buf_eqs]:
  assumes "buf_fits p c q" "0 \<le> n" "n \<le> int (length c')"
  shows "buf_copy_n (buf_of p c q) (buf_of p' c' q') n =
     (let s = buf_of (p' @ take (nat n) c') (drop (nat n) c') q'
      in if nat n \<le> length q
         then Some (buf_of p (c @ take (nat n) c') (drop (nat n) q), s, True)
         else Some (buf_of p c q, s, False))"
proof -
  define c1 where "c1 = take (nat n) c'"
  define c2 where "c2 = drop (nat n) c'"
  have c': "c' = c1 @ c2" "n = int (length c1)" using assms by (auto simp: c1_def c2_def)
  have "buf_read_alloc (buf_of p' (c1 @ c2) q') (int (length c1)) =
      (buf_of (p' @ c1) c2 q', Some (int (length p')))"
    by (simp add: buf_read_alloc_def buf_of_def buf_bptr_def buf_valid_def)
  moreover have "buf_load (buf_of p' (c1 @ c2) q') (int (length p')) (int (length c1)) = Some c1"
    by (simp add: buf_load_def mem_read_mid)
  ultimately show ?thesis
    using assms unfolding c' by (simp add: buf_copy_n_def buf_write_of Let_def)
qed

text \<open>Content and tailroom as one region \<open>d\<close> with the length \<open>n\<close> of the content in it.\<close>

definition buf_at :: "byte list \<Rightarrow> byte list \<Rightarrow> nat \<Rightarrow> buffer" where
  "buf_at p d n = \<lparr>b_capacity = int (length p + length d), b_offset = int (length p),
                   b_len = int n, b_data = Some (p @ d)\<rparr>"

lemma buf_of_at: "buf_of p c q = buf_at p (c @ q) (length c)"
  by (simp add: buf_of_def buf_at_def)

lemma buf_at_of: "n \<le> length d \<Longrightarrow> buf_at p d n = buf_of p (take n d) (drop n d)"
  by (simp add: buf_of_def buf_at_def flip: append_assoc)

lemma buf_store_at:
  assumes "0 \<le> i" "i + int (length bs) \<le> int (length d)"
  shows "buf_store (buf_at p d n) (int (length p) + i) bs =
    Some (buf_at p (take (nat i) d @ bs @ drop (nat i + length bs) d) n)"
proof -
  define x where "x = take (nat i) d"
  define y where "y = take (length bs) (drop (nat i) d)"
  define z where "z = drop (nat i + length bs) d"
  have d: "d = x @ y @ z"
    unfolding x_def y_def z_def by (metis add.commute append_take_drop_id drop_drop)
  have len: "length x = nat i" "length y = length bs"
    using assms by (auto simp: x_def y_def)
  have "mem_write ((p @ x) @ y @ z) (int (length p) + i) bs = Some ((p @ x) @ bs @ z)"
    using len assms by (intro mem_write_mid) auto
  then show ?thesis
    unfolding x_def[symmetric] z_def[symmetric]
    by (simp add: buf_store_def buf_at_def d len)
qed

lemma buf_copy_range_at:
  assumes "buf_fits p c q" "0 \<le> di" "di + int (length s) \<le> int (length c + length q)"
    "src = buf_of sp s sq"
  shows "buf_copy_range (buf_of p c q) di src 0 (int (length s)) =
    Some (buf_at p (take (nat di) (c @ q) @ s @ drop (nat di + length s) (c @ q))
      (max (length c) (nat di + length s)), True)"
proof -
  obtain k where k: "di = int k" using assms(2) nonneg_int_cases by blast
  define D where "D = take k (c @ q) @ s @ drop (k + length s) (c @ q)"
  have ld: "buf_load src (int (length sp)) (int (length s)) = Some s"
    using buf_load_content[of 0 "int (length s)" s sp sq] assms(4) by simp
  have st: "buf_store (buf_of p c q) (int (length p) + int k) s = Some (buf_at p D (length c))"
    unfolding buf_of_at D_def using assms k
    by (simp add: buf_store_at del: take_append drop_append)
  have "\<not> int (length p) + int k + int (length s) > int (length p + length c + length q)"
    "c_int_ok (int (length s))" "c_int_ok (int (length p) + int k)" "c_int_ok (int (length p) + int k + int (length s))"
    using assms(1,2,3) k by (auto simp: c_int_ok_def buf_fits_def BUF_SIZE_MAX_def)
  then show ?thesis
    using assms(4) ld st unfolding k nat_int D_def[symmetric]
    by (auto simp add: buf_copy_range_def buf_at_def max_def)
qed

lemma buf_peek_u8_of [buf_eqs]:
  "buf_peek_u8 (buf_of p c q) = (case c of [] \<Rightarrow> Some (- 1) | x # _ \<Rightarrow> Some (uint x))"
  by (cases c) (auto simp: buf_peek_u8_def buf_load_def mem_read_def)

lemma buf_read_u8_of [buf_eqs]:
  "buf_read_u8 (buf_of p c q) =
     (case c of [] \<Rightarrow> Some (buf_of p c q, - 1)
      | x # xs \<Rightarrow> Some (buf_of (p @ [x]) xs q, uint x))"
  by (cases c) (auto simp: buf_read_u8_def buf_peek_u8_of buf_advance_of)

lemma buf_read_u32_of [buf_eqs]:
  "buf_read_u32 (buf_of p c q) =
     (if 4 \<le> length c then Some (buf_of (p @ take 4 c) (drop 4 c) q, de32 (take 4 c), True)
      else Some (buf_of p c q, 0, False))"
  by (simp add: buf_read_u32_def buf_read_of)

section \<open>Windows, copies and totality\<close>

lemma buf_sub_of [buf_eqs]:
  assumes "buf_fits p c q" "0 \<le> n" "n \<le> int (length q)"
  shows "buf_sub (buf_of p c q) n False =
    Some (buf_of p (c @ take (nat n) q) (drop (nat n) q), int (length p + length c),
          buf_of [] [] (take (nat n) q))"
proof -
  define q1 where "q1 = take (nat n) q"
  define q2 where "q2 = drop (nat n) q"
  have q: "q = q1 @ q2" "n = int (length q1)" using assms by (auto simp: q1_def q2_def)
  have "to_size_t n = length q1"
    using assms q unfolding to_size_t_def buf_fits_def BUF_SIZE_MAX_def by simp
  moreover have "buf_write_alloc (buf_of p c (q1 @ q2)) (length q1) =
      (buf_of p (c @ q1) q2, Some (int (length p) + int (length c)))"
    using assms(1) q unfolding buf_write_alloc_def buf_safe_def buf_size_valid_def buf_fits_def
    by (simp add: buf_of_def buf_bptr_def buf_valid_def)
  moreover have "buf_load (buf_of p (c @ q1) q2) (int (length p) + int (length c)) (int (length q1))
      = Some q1"
    using mem_read_mid[of _ "p @ c" "int (length q1)" q1 q2] by (simp add: buf_load_def)
  ultimately show ?thesis
    unfolding q by (simp add: buf_sub_def buf_of_def[of "[]"])
qed

lemma buf_sub_prepend_of [buf_eqs]:
  assumes "0 \<le> n" "n \<le> int (length p)"
  shows "buf_sub (buf_of p c q) n True =
    Some (buf_of (take (length p - nat n) p) (drop (length p - nat n) p @ c) q, int (length p) - n,
          buf_of [] [] (drop (length p - nat n) p))"
proof -
  define p1 where "p1 = take (length p - nat n) p"
  define p2 where "p2 = drop (length p - nat n) p"
  have p: "p = p1 @ p2" "n = int (length p2)" using assms by (auto simp: p1_def p2_def)
  have "buf_load (buf_of p1 (p2 @ c) q) (int (length p1)) (int (length p2)) = Some p2"
    by (simp add: buf_load_def mem_read_mid)
  then show ?thesis
    unfolding p by (simp add: buf_sub_def buf_prepend_of buf_of_def[of "[]"])
qed

lemma buf_sub_commit_tail [buf_eqs]:
  assumes "length (p' @ c' @ q') = length w"
  shows "buf_sub_commit (buf_of p (c @ w) q) (int (length p + length c)) (buf_of p' c' q') =
    Some (buf_of p (c @ p' @ c' @ q') q)"
  using mem_write_mid[of w "p' @ c' @ q'" "int (length p + length c)" "p @ c" q] assms
  by (simp add: buf_sub_commit_def buf_store_def buf_of_def)

lemma buf_sub_commit_head [buf_eqs]:
  assumes "length (p' @ c' @ q') = length w"
  shows "buf_sub_commit (buf_of p (w @ c) q) (int (length p)) (buf_of p' c' q') =
    Some (buf_of p (p' @ c' @ q' @ c) q)"
  using mem_write_mid[of w "p' @ c' @ q'" "int (length p)" p "c @ q"] assms
  by (simp add: buf_sub_commit_def buf_store_def buf_of_def)

lemma buf_clear_of [buf_eqs]:
  "buf_clear (buf_of p c q) = Some (buf_of [] [] (replicate (length p + length c + length q) 0))"
  by (cases "length p + length c + length q = 0")
    (auto simp: buf_clear_def buf_of_def buf_store_def mem_write_def nat_add_distrib
      simp flip: of_nat_add)

lemma clone_buf_of [buf_eqs]:
  assumes "buf_fits p c q"
  shows "\<exists>p' q'. clone_buf junk (buf_of p c q) = Some (buf_of p' c q') \<and>
    length p' = length p \<and> length q' = length q"
proof -
  define d where "d = map junk [0..<length p + length c + length q]"
  define p' where "p' = take (length p) d"
  define c' where "c' = take (length c) (drop (length p) d)"
  define q' where "q' = drop (length p + length c) d"
  have d: "d = p' @ c' @ q'"
    unfolding p'_def c'_def q'_def by (metis add.commute append_take_drop_id drop_drop)
  have len: "length p' = length p" "length c' = length c" "length q' = length q"
    by (auto simp: p'_def c'_def q'_def d_def)
  have r: "(buf_of p c q)\<lparr>b_data := Some d\<rparr> = buf_of p' c' q'"
    using len d by (simp add: buf_of_def)
  have "clone_buf junk (buf_of p c q) = buf_store (buf_of p' c' q') (int (length p')) c"
    unfolding clone_buf_def Let_def using r[unfolded d_def]
    by (simp add: buf_bytes_of nat_int_add flip: of_nat_add)
  also have "\<dots> = Some (buf_of p' c q')"
    using len mem_write_mid[of c' c _ p' q'] by (simp add: buf_store_def buf_of_def)
  finally show ?thesis using len by blast
qed

lemma buf_copy_excess_of [buf_eqs]:
  assumes "buf_fits p c q" "0 \<le> n" "n < int (length c')" "buf_fits p' c' q'"
    "length c' - nat n \<le> length q"
  shows "buf_copy_excess (buf_of p c q) (buf_of p' c' q') n =
    Some (buf_of p (c @ drop (nat n) c') (drop (length c' - nat n) q),
          (buf_of p' c' q')\<lparr>b_len := n\<rparr>, True)"
proof -
  have "buf_ok (buf_of (p' @ take (nat n) c') (drop (nat n) c') q')"
    using assms(3,4) by (auto simp: buf_fits_def)
  then show ?thesis
    using assms by (simp add: buf_copy_excess_def buf_advance_of buf_copy_of Let_def)
qed

lemma buf_fits_split: "buf_fits p c q \<Longrightarrow> length p' + length c' + length q' = length p + length c + length q
  \<Longrightarrow> buf_fits p' c' q'"
  by (simp add: buf_fits_def flip: of_nat_add)

named_theorems buf_total "every operation returns and keeps the invariant"

lemma buf_write_total [buf_total]: "buf_ok b \<Longrightarrow> \<exists>b' r. buf_write b bs = Some (b', r) \<and> buf_ok b'"
  by (cases rule: buf_ok_cases)
    (auto simp: buf_write_clear buf_write_of elim!: buf_fits_split)

lemma buf_clear_ops [buf_eqs]:
  "buf_write_prepend clear_buf bs = Some (clear_buf, False)"
  "buf_advance clear_buf n = (clear_buf, False)"
  "buf_init clear_buf n = (clear_buf, False)"
  by (simp_all add: buf_write_prepend_def buf_prepend_def buf_advance_def buf_init_def)

lemma buf_write_prepend_total [buf_total]:
  "buf_ok b \<Longrightarrow> \<exists>b' r. buf_write_prepend b bs = Some (b', r) \<and> buf_ok b'"
  by (cases rule: buf_ok_cases)
    (auto simp: buf_write_prepend_of buf_clear_ops elim!: buf_fits_split)

lemma buf_read_total [buf_total]:
  assumes "buf_ok b"
  shows "\<exists>b' r. buf_read b n = Some (b', r) \<and> buf_ok b'"
  using assms
proof (cases rule: buf_ok_cases)
  case cleared
  then show ?thesis
    by (auto simp: buf_read_def buf_read_alloc_def buf_bptr_def buf_valid_def clear_buf_def buf_ok_def)
next
  case (block p c q)
  then show ?thesis by (auto simp: buf_read_of elim!: buf_fits_split)
qed

lemma buf_copy_total [buf_total]:
  "buf_ok b \<Longrightarrow> buf_ok src \<Longrightarrow> \<exists>b' r. buf_copy b src = Some (b', r) \<and> buf_ok b'"
  using buf_write_total by (auto simp: buf_copy_def buf_bytes_ok)

lemma buf_advance_total [buf_total]: "buf_ok b \<Longrightarrow> buf_ok (fst (buf_advance b n))"
  by (cases rule: buf_ok_cases)
    (auto simp: buf_advance_of buf_clear_ops elim!: buf_fits_split)

lemma buf_init_total [buf_total]: "buf_ok b \<Longrightarrow> buf_ok (fst (buf_init b n))"
  by (cases "b_data b") (auto simp: buf_ok_def buf_init_def)

lemma buf_inc_len_total [buf_total]: "buf_ok b \<Longrightarrow> buf_ok (fst (buf_inc_len b n))"
  by (cases "b_data b")
    (auto simp: buf_ok_def buf_inc_len_def buf_safe_bidir_def Let_def buf_valid_def)

lemma buf_copy_range_total [buf_total]:
  assumes "buf_ok b" "buf_ok src" "buf_defined b" "buf_defined src"
    and "si + sl < 2 ^ 31" "b_offset b + di + sl < 2 ^ 31"
  shows "\<exists>b' r. buf_copy_range b di src si sl = Some (b', r) \<and> buf_ok b'"
proof (cases "si < 0 \<or> sl < 0 \<or> si + sl > b_len src \<or> di < 0 \<or> b_offset b + di + sl > b_capacity b")
  case True
  have "0 \<le> b_offset b" using assms(1) by (auto simp: buf_ok_def clear_buf_def split: option.splits)
  then show ?thesis using True assms(1,5,6) by (auto simp: buf_copy_range_def cassert_def c_int_ok_def)
next
  case False
  obtain ds d where d: "b_data src = Some ds" "b_data b = Some d"
    using assms by (auto simp: buf_defined_def)
  obtain bs where bs: "buf_load src (b_offset src + si) sl = Some bs" "int (length bs) = sl"
    using False assms(2) d by (auto simp: buf_ok_def buf_load_def mem_read_def)
  obtain d' where d': "mem_write d (b_offset b + di) bs = Some d'"
    using False assms(1) d bs by (auto simp: buf_ok_def mem_write_def)
  then have "buf_copy_range b di src si sl =
      Some (if di + sl > b_len b then b\<lparr>b_data := Some d', b_len := di + sl\<rparr>
            else b\<lparr>b_data := Some d'\<rparr>, True)"
    using False d bs assms(1,5,6) by (simp add: buf_copy_range_def buf_store_def cassert_def c_int_ok_def buf_ok_def)
  moreover have "length d' = length d" using d' by (rule length_mem_write)
  ultimately show ?thesis
    using False assms(1) d by (auto simp: buf_ok_def)
qed

text \<open>The first sum can overflow before the check it is part of refuses the copy.\<close>

lemma buf_copy_range_overflow:
  "0 \<le> si \<Longrightarrow> 2 ^ 31 \<le> si + sl \<Longrightarrow> 0 \<le> sl \<Longrightarrow> buf_copy_range dest di src si sl = None"
  by (simp add: buf_copy_range_def cassert_def c_int_ok_def)

lemma buf_read_alloc_ok:
  assumes "buf_ok b"
  shows "buf_ok (fst (buf_read_alloc b n)) \<and>
    (\<forall>p. snd (buf_read_alloc b n) = Some p \<longrightarrow> (\<exists>bs. buf_load b p n = Some bs))"
  using assms by (cases "b_data b")
    (auto simp: buf_read_alloc_def buf_ok_def buf_bptr_def buf_valid_def clear_buf_def buf_load_def mem_read_def)

lemma buf_copy_n_total [buf_total]:
  assumes "buf_ok b" "buf_ok src"
  shows "\<exists>b' src' r. buf_copy_n b src n = Some (b', src', r) \<and> buf_ok b' \<and> buf_ok src'"
proof -
  obtain s' r where a: "buf_read_alloc src n = (s', r)" by fastforce
  note ok = buf_read_alloc_ok[OF assms(2), of n, unfolded a fst_conv snd_conv]
  show ?thesis
  proof (cases r)
    case None
    then show ?thesis using a ok assms(1) by (simp add: buf_copy_n_def) blast
  next
    case (Some p)
    then obtain bs where "buf_load src p n = Some bs" using ok by blast
    moreover obtain b' ok where "buf_write b bs = Some (b', ok)" "buf_ok b'" using buf_write_total[OF assms(1)] by blast
    ultimately show ?thesis using a ok Some by (simp add: buf_copy_n_def)
  qed
qed

lemma buf_copy_excess_total [buf_total]:
  assumes "buf_ok b" "buf_ok src"
  shows "\<exists>b' src' r. buf_copy_excess b src n = Some (b', src', r) \<and> buf_ok b' \<and> buf_ok src'"
proof (cases "0 \<le> n \<and> n < b_len src")
  case False
  then show ?thesis using assms by (auto simp: buf_copy_excess_def)
next
  case True
  obtain x ok where a: "buf_advance src n = (x, ok)" by fastforce
  have x: "buf_ok x" using buf_advance_total[OF assms(2), of n] by (simp add: a)
  have s: "buf_ok (src\<lparr>b_len := n\<rparr>)"
    using True assms(2) by (auto simp: buf_ok_def clear_buf_def split: option.splits)
  obtain b' r where "buf_copy b x = Some (b', r)" "buf_ok b'" using buf_copy_total[OF assms(1) x] by blast
  then show ?thesis using True a s assms(1) by (cases ok) (simp_all add: buf_copy_excess_def Let_def, blast)
qed

lemma buf_assign_total [buf_total]:
  assumes "buf_ok b" "buf_ok src"
  shows "\<exists>b' r. buf_assign b src = Some (b', r) \<and> buf_ok b'"
proof -
  obtain d ok where i: "buf_init b (b_offset src) = (d, ok)" by fastforce
  have d: "buf_ok d" using buf_init_total[OF assms(1), of "b_offset src"] by (simp add: i)
  then show ?thesis using i buf_write_total[OF d] assms(2)
    by (cases ok) (auto simp: buf_assign_def buf_bytes_ok)
qed

lemma buf_clear_total [buf_total]: "buf_ok b \<Longrightarrow> \<exists>b'. buf_clear b = Some b' \<and> buf_ok b'"
  by (cases rule: buf_ok_cases)
    (auto simp: buf_clear_of buf_fits_def, simp add: buf_clear_def clear_buf_def buf_ok_def)

lemma buf_sub_total [buf_total]:
  assumes "buf_ok b" "c_int_ok n"
  shows "\<exists>b' p w. buf_sub b n prepend = Some (b', p, w) \<and> buf_ok b' \<and> buf_ok w"
  using assms(1)
proof (cases rule: buf_ok_cases)
  case cleared
  then show ?thesis
    by (simp add: buf_sub_def buf_prepend_def buf_write_alloc_def buf_safe_def buf_valid_def clear_buf_def buf_ok_def)
next
  case (block p c q)
  show ?thesis
  proof (cases "0 \<le> n \<and> n \<le> int (length (if prepend then p else q))")
    case True
    then show ?thesis using block
      by (cases prepend) (auto simp: buf_sub_of buf_sub_prepend_of buf_fits_def)
  next
    case False
    have "to_size_t n = nat n" if "0 \<le> n" using that assms(2) by (simp add: to_size_t_def c_int_ok_def)
    moreover have "int (to_size_t n) = n + 2 ^ 64" if "n < 0"
    proof -
      have "n mod 2 ^ 64 = (n + 2 ^ 64) mod 2 ^ 64" by simp
      also have "\<dots> = n + 2 ^ 64" using that assms(2) by (intro mod_pos_pos_trivial) (simp_all add: c_int_ok_def)
      finally show ?thesis using that assms(2) by (simp add: to_size_t_def c_int_ok_def)
    qed
    ultimately have "\<not> prepend \<Longrightarrow> buf_write_alloc (buf_of p c q) (to_size_t n) = (buf_of p c q, None)"
      using False assms(2)
      by (auto simp: buf_write_alloc_def buf_safe_def buf_size_valid_def BUF_SIZE_MAX_def c_int_ok_def not_le)
    moreover have "prepend \<Longrightarrow> buf_prepend (buf_of p c q) n = (buf_of p c q, None)"
      using False by (auto simp: buf_prepend_def)
    ultimately show ?thesis using block by (cases prepend) (simp_all add: buf_sub_def)
  qed
qed

section \<open>The interface the protocol code relies on\<close>

text \<open>
  The protocol modules append to a buffer and consume its content from the front; they depend on
  nothing else.  \<open>byte_fifo\<close> states that contract: \<open>put\<close> appends all bytes or reports failure
  and changes nothing, \<open>get\<close> removes exactly the bytes it returns.
\<close>

locale byte_fifo =
  fixes put :: "'b \<Rightarrow> byte list \<Rightarrow> ('b \<times> bool) option"
    and get :: "'b \<Rightarrow> int \<Rightarrow> ('b \<times> byte list option) option"
    and content :: "'b \<Rightarrow> byte list"
    and room :: "'b \<Rightarrow> int"
    and inv :: "'b \<Rightarrow> bool"
  assumes put_fits: "inv b \<Longrightarrow> int (length bs) \<le> room b \<Longrightarrow>
      \<exists>b'. put b bs = Some (b', True) \<and> inv b' \<and> content b' = content b @ bs \<and>
           room b' = room b - int (length bs)"
    and put_full: "inv b \<Longrightarrow> room b < int (length bs) \<Longrightarrow> put b bs = Some (b, False)"
    and get_fits: "inv b \<Longrightarrow> 0 \<le> n \<Longrightarrow> n \<le> int (length (content b)) \<Longrightarrow>
      \<exists>b'. get b n = Some (b', Some (take (nat n) (content b))) \<and> inv b' \<and>
           content b' = drop (nat n) (content b) \<and> room b' = room b"
    and get_short: "inv b \<Longrightarrow> int (length (content b)) < n \<Longrightarrow> get b n = Some (b, None)"
begin

fun put_all :: "'b \<Rightarrow> byte list list \<Rightarrow> ('b \<times> bool) option" where
  "put_all b [] = Some (b, True)"
| "put_all b (x # xs) =
     (case put b x of None \<Rightarrow> None
      | Some (b', False) \<Rightarrow> Some (b', False)
      | Some (b', True) \<Rightarrow> put_all b' xs)"

fun get_all :: "'b \<Rightarrow> int list \<Rightarrow> ('b \<times> byte list list option) option" where
  "get_all b [] = Some (b, Some [])"
| "get_all b (n # ns) =
     (case get b n of None \<Rightarrow> None
      | Some (b', None) \<Rightarrow> Some (b', None)
      | Some (b', Some x) \<Rightarrow>
          (case get_all b' ns of None \<Rightarrow> None
           | Some (b'', r) \<Rightarrow> Some (b'', map_option (\<lambda>xs. x # xs) r)))"

lemma put_all_fits:
  "inv b \<Longrightarrow> int (length (concat xs)) \<le> room b \<Longrightarrow>
   \<exists>b'. put_all b xs = Some (b', True) \<and> inv b' \<and> content b' = content b @ concat xs \<and>
        room b' = room b - int (length (concat xs))"
proof (induction xs arbitrary: b)
  case Nil
  then show ?case by simp
next
  case (Cons x xs)
  then obtain b1 where b1: "put b x = Some (b1, True)" "inv b1" "content b1 = content b @ x"
    "room b1 = room b - int (length x)"
    using put_fits[of b x] by auto
  with Cons.IH[of b1] Cons.prems show ?case by auto
qed

lemma get_all_concat:
  "inv b \<Longrightarrow> content b = concat xs @ rest \<Longrightarrow>
   \<exists>b'. get_all b (map (int \<circ> length) xs) = Some (b', Some xs) \<and> inv b' \<and> content b' = rest \<and>
        room b' = room b"
proof (induction xs arbitrary: b)
  case Nil
  then show ?case by simp
next
  case (Cons x xs)
  then obtain b1 where b1: "get b (int (length x)) = Some (b1, Some x)" "inv b1"
    "content b1 = concat xs @ rest" "room b1 = room b"
    using get_fits[of b "int (length x)"] by auto
  with Cons.IH[of b1] show ?case by auto
qed

text \<open>What was appended to an empty channel comes out again, cut as it was put in.\<close>

lemma put_get_all:
  assumes "inv b" "content b = []" "int (length (concat xs)) \<le> room b"
  obtains b1 b2 where "put_all b xs = Some (b1, True)"
    "get_all b1 (map (int \<circ> length) xs) = Some (b2, Some xs)" "inv b2" "content b2 = []"
proof -
  obtain b1 where b1: "put_all b xs = Some (b1, True)" "inv b1" "content b1 = concat xs"
    using put_all_fits[OF assms(1,3)] assms(2) by auto
  then show ?thesis
    using get_all_concat[of b1 xs "[]"] that by auto
qed

end

definition buf_live :: "buffer \<Rightarrow> bool" where
  "buf_live b = (buf_ok b \<and> buf_defined b)"

lemma buf_live_repr: "buf_live b \<longleftrightarrow> (\<exists>p c q. b = buf_of p c q \<and> buf_fits p c q)"
  unfolding buf_live_def by (metis buf_ok_repr buf_ok_of buf_of_obs(1))

interpretation wire: byte_fifo buf_write buf_read buf_content buf_forward_capacity buf_live
proof
  fix b :: buffer and bs :: "byte list"
  assume "buf_live b" "int (length bs) \<le> buf_forward_capacity b"
  then obtain p c q where b: "b = buf_of p c q" "buf_fits p c q" "length bs \<le> length q"
    by (auto simp: buf_live_repr)
  then have "buf_fits p (c @ bs) (drop (length bs) q)" by (auto elim!: buf_fits_split)
  with b show "\<exists>b'. buf_write b bs = Some (b', True) \<and> buf_live b' \<and>
      buf_content b' = buf_content b @ bs \<and>
      buf_forward_capacity b' = buf_forward_capacity b - int (length bs)"
    by (auto simp: buf_write_of buf_live_def)
next
  fix b :: buffer and bs :: "byte list"
  assume "buf_live b" "buf_forward_capacity b < int (length bs)"
  then show "buf_write b bs = Some (b, False)" by (auto simp: buf_live_repr buf_write_of)
next
  fix b n assume "buf_live b" "0 \<le> n" "n \<le> int (length (buf_content b))"
  moreover from this obtain p c q where b: "b = buf_of p c q" "buf_fits p c q"
    by (auto simp: buf_live_repr)
  moreover have "buf_fits (p @ take (nat n) c) (drop (nat n) c) q"
    using b calculation by (auto elim!: buf_fits_split)
  ultimately show "\<exists>b'. buf_read b n = Some (b', Some (take (nat n) (buf_content b))) \<and> buf_live b' \<and>
      buf_content b' = drop (nat n) (buf_content b) \<and>
      buf_forward_capacity b' = buf_forward_capacity b"
    by (auto simp: buf_read_of buf_live_def)
next
  fix b n assume "buf_live b" "int (length (buf_content b)) < n"
  then show "buf_read b n = Some (b, None)" by (auto simp: buf_live_repr buf_read_of)
qed

section \<open>Properties\<close>

text \<open>C23: Memory safety of the packet buffer: on a well-formed buffer (a cleared one, or a block with
  offset and length inside its capacity) the operations that append, prepend, read, copy, move the
  ends, reset or take a window return, stay inside the block, and leave the buffers well formed,
  whatever sizes and data they are called with, negative ones included.  \<open>buf_sub\<close> needs an argument of
  type \<open>int\<close>.  \<open>buf_copy_range\<close> needs defined buffers and arguments whose sums do not overflow an
  \<open>int\<close>; with others its own checks are undefined.\<close>

theorem buffer_operations_safe:
  assumes "buf_ok b" "buf_ok src"
  shows "(\<exists>b' r. buf_write b bs = Some (b', r) \<and> buf_ok b') \<and>
    (\<exists>b' r. buf_write_prepend b bs = Some (b', r) \<and> buf_ok b') \<and>
    (\<exists>b' r. buf_read b n = Some (b', r) \<and> buf_ok b') \<and>
    (\<exists>b' r. buf_copy b src = Some (b', r) \<and> buf_ok b') \<and>
    buf_ok (fst (buf_advance b n)) \<and> buf_ok (fst (buf_init b n)) \<and> buf_ok (fst (buf_inc_len b n)) \<and>
    (\<exists>b' src' r. buf_copy_n b src n = Some (b', src', r) \<and> buf_ok b' \<and> buf_ok src') \<and>
    (\<exists>b' src' r. buf_copy_excess b src n = Some (b', src', r) \<and> buf_ok b' \<and> buf_ok src') \<and>
    (\<exists>b' r. buf_assign b src = Some (b', r) \<and> buf_ok b') \<and>
    (\<exists>b'. buf_clear b = Some b' \<and> buf_ok b') \<and>
    (c_int_ok n \<longrightarrow> (\<exists>b' p w. buf_sub b n prepend = Some (b', p, w) \<and> buf_ok b' \<and> buf_ok w)) \<and>
    (buf_defined b \<and> buf_defined src \<and> si + sl < 2 ^ 31 \<and> b_offset b + di + sl < 2 ^ 31 \<longrightarrow>
      (\<exists>b' r. buf_copy_range b di src si sl = Some (b', r) \<and> buf_ok b'))"
proof (intro conjI impI)
  assume "c_int_ok n"
  then show "\<exists>b' p w. buf_sub b n prepend = Some (b', p, w) \<and> buf_ok b' \<and> buf_ok w"
    by (rule buf_sub_total[OF assms(1)])
next
  assume "buf_defined b \<and> buf_defined src \<and> si + sl < 2 ^ 31 \<and> b_offset b + di + sl < 2 ^ 31"
  then show "\<exists>b' r. buf_copy_range b di src si sl = Some (b', r) \<and> buf_ok b'"
    using buf_copy_range_total[OF assms] by blast
qed (simp_all only: buf_total assms)

theorem buffer_operations_safe_witness:
  "let b = buf_of [1, 2] [3, 4, 5] [6] in
   (\<exists>b' r. buf_write b [7, 8] = Some (b', r) \<and> buf_ok b') \<and>
    (\<exists>b' r. buf_write_prepend b [7, 8] = Some (b', r) \<and> buf_ok b') \<and>
    (\<exists>b' r. buf_read b (- 3) = Some (b', r) \<and> buf_ok b') \<and>
    (\<exists>b' r. buf_copy b b = Some (b', r) \<and> buf_ok b') \<and>
    buf_ok (fst (buf_advance b (- 3))) \<and> buf_ok (fst (buf_init b (- 3))) \<and> buf_ok (fst (buf_inc_len b (- 3))) \<and>
    (\<exists>b' src' r. buf_copy_n b b (- 3) = Some (b', src', r) \<and> buf_ok b' \<and> buf_ok src') \<and>
    (\<exists>b' src' r. buf_copy_excess b b (- 3) = Some (b', src', r) \<and> buf_ok b' \<and> buf_ok src') \<and>
    (\<exists>b' p w. buf_sub b (- 3) False = Some (b', p, w) \<and> buf_ok b' \<and> buf_ok w) \<and>
    (\<exists>b' r. buf_copy_range b 1 b 0 2 = Some (b', r) \<and> buf_ok b')"
proof -
  have "buf_fits [1, 2] [3, 4, 5] [6 :: byte]" by (simp add: buf_fits_def BUF_SIZE_MAX_def)
  then have ok: "buf_ok (buf_of [1, 2] [3, 4, 5] [6])" by simp
  have d: "buf_defined (buf_of [1, 2] [3, 4, 5] [6])" "c_int_ok (- 3)"
    "(0 :: int) + 2 < 2 ^ 31" "b_offset (buf_of [1, 2] [3, 4, 5] [6]) + 1 + 2 < 2 ^ 31"
    by (simp_all add: c_int_ok_def)
  from buffer_operations_safe[OF ok ok, of "[7, 8]" "- 3" False 0 2 1] d show ?thesis
    unfolding Let_def by blast
qed

text \<open>The buffer as a channel: any list of byte strings that fits, written one after the other into
  a buffer without content, is read back in the same pieces, and the content is empty again.\<close>

theorem buffer_write_read_roundtrip:
  assumes "buf_live b" "buf_content b = []" "int (length (concat xs)) \<le> buf_forward_capacity b"
  shows "\<exists>b1 b2. wire.put_all b xs = Some (b1, True) \<and>
    wire.get_all b1 (map (int \<circ> length) xs) = Some (b2, Some xs) \<and> buf_live b2 \<and> buf_content b2 = []"
  using wire.put_get_all[OF assms] by metis

theorem buffer_write_read_roundtrip_witness:
  "\<exists>b1 b2. wire.put_all (buf_of [9] [] [0, 0, 0, 0]) [[1, 2], [], [3]] = Some (b1, True) \<and>
    wire.get_all b1 (map (int \<circ> length) [[1, 2], [], [3 :: byte]]) = Some (b2, Some [[1, 2], [], [3]]) \<and>
    buf_live b2 \<and> buf_content b2 = []"
proof -
  have f: "buf_fits [9] [] [0, 0, 0, 0 :: byte]" by (simp add: buf_fits_def BUF_SIZE_MAX_def)
  show ?thesis
    using buffer_write_read_roundtrip[of "buf_of [9] [] [0, 0, 0, 0]" "[[1, 2], [], [3]]"] f
    by (auto simp: buf_live_repr)
qed

end
