(* ===== verification/Ovpn_Text.thy ===== *)
theory Ovpn_Text
  imports Ovpn_Buffer
begin

unbundle bit_operations_syntax

text \<open>
  The text side of \<open>buffer.c\<close>: character classes, filtering of strings received from the
  network, line parsing and string output into buffers.  A C string is the list of its bytes
  before the terminating NUL.
\<close>

section \<open>Character classes\<close>

text \<open>The \<open>ctype.h\<close> predicates in the C locale.\<close>

definition c_isdigit :: "byte \<Rightarrow> bool" where
  "c_isdigit c = (48 \<le> c \<and> c \<le> 57)"
definition c_isalpha :: "byte \<Rightarrow> bool" where
  "c_isalpha c = ((65 \<le> c \<and> c \<le> 90) \<or> (97 \<le> c \<and> c \<le> 122))"
definition c_isalnum :: "byte \<Rightarrow> bool" where
  "c_isalnum c = (c_isalpha c \<or> c_isdigit c)"
definition c_isascii :: "byte \<Rightarrow> bool" where
  "c_isascii c = (c \<le> 127)"
definition c_iscntrl :: "byte \<Rightarrow> bool" where
  "c_iscntrl c = (c < 32 \<or> c = 127)"
definition c_ispunct :: "byte \<Rightarrow> bool" where
  "c_ispunct c = (32 < c \<and> c < 127 \<and> \<not> c_isalnum c)"
definition c_isspace :: "byte \<Rightarrow> bool" where
  "c_isspace c = (c = 32 \<or> (9 \<le> c \<and> c \<le> 13))"
definition c_isxdigit :: "byte \<Rightarrow> bool" where
  "c_isxdigit c = (c_isdigit c \<or> (65 \<le> c \<and> c \<le> 70) \<or> (97 \<le> c \<and> c \<le> 102))"

text \<open>
  The flag bits \<open>CC_ANY = 1 << 0\<close> to \<open>CC_ASTERISK = 1 << 30\<close>, each with the test
  \<open>char_class\<close> makes for it, in the order of the code.
\<close>

definition cc_tests :: "(nat \<times> (byte \<Rightarrow> bool)) list" where
  "cc_tests =
    [(0, \<lambda>c. True), (1, \<lambda>c. c = 0), (2, c_isalnum), (3, c_isalpha), (4, c_isascii),
     (5, c_iscntrl), (6, c_isdigit), (7, \<lambda>c. c \<ge> 32 \<and> c \<noteq> 127), (8, c_ispunct),
     (9, c_isspace), (10, c_isxdigit), (11, \<lambda>c. c = 32 \<or> c = 9), (12, \<lambda>c. c = 10),
     (13, \<lambda>c. c = 13), (14, \<lambda>c. c = 92), (15, \<lambda>c. c = 95), (16, \<lambda>c. c = 45),
     (17, \<lambda>c. c = 46), (18, \<lambda>c. c = 44), (19, \<lambda>c. c = 58), (20, \<lambda>c. c = 47),
     (21, \<lambda>c. c = 39), (22, \<lambda>c. c = 34), (23, \<lambda>c. c = 96), (24, \<lambda>c. c = 64),
     (25, \<lambda>c. c = 61), (26, \<lambda>c. c = 60), (27, \<lambda>c. c = 62), (28, \<lambda>c. c = 124),
     (29, \<lambda>c. c = 63), (30, \<lambda>c. c = 42)]"

definition char_class :: "byte \<Rightarrow> u32 \<Rightarrow> bool" where
  "char_class c flags =
     (if flags = 0 then False else list_ex (\<lambda>(k, P). bit flags k \<and> P c) cc_tests)"

definition CC_NULL :: u32 where "CC_NULL = push_bit 1 1"
definition CC_PRINT :: u32 where "CC_PRINT = push_bit 7 1"
definition CC_NEWLINE :: u32 where "CC_NEWLINE = push_bit 12 1"
definition CC_CR :: u32 where "CC_CR = push_bit 13 1"
definition CC_CRLF :: u32 where "CC_CRLF = CC_CR OR CC_NEWLINE"

definition char_inc_exc :: "byte \<Rightarrow> u32 \<Rightarrow> u32 \<Rightarrow> bool" where
  "char_inc_exc c incl excl = (char_class c incl \<and> \<not> char_class c excl)"

fun string_class :: "byte list \<Rightarrow> u32 \<Rightarrow> u32 \<Rightarrow> bool" where
  "string_class [] incl excl = True"
| "string_class (c # cs) incl excl =
     (if \<not> char_inc_exc c incl excl then False else string_class cs incl excl)"

text \<open>\<open>string_mod\<close> rewrites the string in place and returns whether it was left unchanged.\<close>

fun string_mod :: "byte list \<Rightarrow> u32 \<Rightarrow> u32 \<Rightarrow> byte \<Rightarrow> byte list \<times> bool" where
  "string_mod [] incl excl repl = ([], True)"
| "string_mod (c # cs) incl excl repl =
     (let bad = \<not> char_inc_exc c incl excl;
          c' = (if bad then repl else c);
          (out, ret) = string_mod cs incl excl repl
      in (if c' \<noteq> 0 then c' # out else out, (if bad then False else ret)))"

definition string_check_buf :: "buffer \<Rightarrow> u32 \<Rightarrow> u32 \<Rightarrow> bool option" where
  "string_check_buf b incl excl = do {
     bs \<leftarrow> buf_bytes b;
     Some (list_all (\<lambda>c. char_inc_exc c incl excl) bs) }"

fun string_replace_leading :: "byte list \<Rightarrow> byte \<Rightarrow> byte \<Rightarrow> byte list" where
  "string_replace_leading [] m r = []"
| "string_replace_leading (c # cs) m r =
     (if c = m then r # string_replace_leading cs m r else c # cs)"

fun skip_leading_whitespace :: "byte list \<Rightarrow> byte list" where
  "skip_leading_whitespace [] = []"
| "skip_leading_whitespace (c # cs) =
     (if \<not> (c = 32 \<or> c = 9) then c # cs else skip_leading_whitespace cs)"

function rm_trailing_chars :: "byte list \<Rightarrow> byte list \<Rightarrow> byte list" where
  "rm_trailing_chars str del =
     (if length str > 0 \<and> last str \<in> set del then rm_trailing_chars (butlast str) del else str)"
  by pat_completeness auto
termination
  by (relation "measure (\<lambda>(str, del). length str)") auto

definition chomp :: "byte list \<Rightarrow> byte list" where
  "chomp str = rm_trailing_chars str [13, 10]"

fun has_digit :: "byte list \<Rightarrow> bool" where
  "has_digit [] = False"
| "has_digit (c # cs) = (if c_isdigit c then True else has_digit cs)"

declare rm_trailing_chars.simps [simp del]

section \<open>Strings in buffers\<close>

definition c_str :: "byte list \<Rightarrow> byte list" where
  "c_str bs = takeWhile (\<lambda>c. c \<noteq> 0) bs"

text \<open>The \<open>maxlen\<close> bytes \<open>strncpynt\<close> stores: \<open>strncpy\<close> pads with NULs, the last byte is NUL.\<close>

definition strncpynt_bytes :: "byte list \<Rightarrow> nat \<Rightarrow> byte list" where
  "strncpynt_bytes s maxlen =
     (if maxlen > 0
      then take (maxlen - 1) s @ replicate (maxlen - 1 - length s) 0 @ [0] else [])"

definition buf_puts :: "buffer \<Rightarrow> byte list \<Rightarrow> (buffer \<times> bool) option" where
  "buf_puts b str =
     (let cap = buf_forward_capacity b
      in if cap > 0
         then do {
           p \<leftarrow> buf_bend b;
           b1 \<leftarrow> buf_store b p (strncpynt_bytes str (nat cap));
           b2 \<leftarrow> buf_store b1 (b_capacity b1 - 1) [0];
           bs \<leftarrow> buf_load b2 p cap;
           Some (b2\<lparr>b_len := b_len b2 + int (length (c_str bs))\<rparr>, True) }
         else Some (b, False))"

definition buf_catrunc :: "buffer \<Rightarrow> byte list \<Rightarrow> buffer option" where
  "buf_catrunc b str =
     (if buf_forward_capacity b \<le> 1
      then (let n = length str + 1
            in if buf_size_valid n \<and> int n < buf_forward_capacity_total b
               then buf_store b (b_capacity b - int n) (str @ [0])
               else Some b)
      else Some b)"

definition buf_rmtail :: "buffer \<Rightarrow> byte \<Rightarrow> buffer option" where
  "buf_rmtail b x =
     (case buf_blast b of
        None \<Rightarrow> Some b
      | Some p \<Rightarrow> do {
          bs \<leftarrow> buf_load b p 1;
          if hd bs = x
          then do { b' \<leftarrow> buf_store b p [0]; Some (b'\<lparr>b_len := b_len b' - 1\<rparr>) }
          else Some b })"

definition buf_null_terminate :: "buffer \<Rightarrow> buffer option" where
  "buf_null_terminate b = do {
     last0 \<leftarrow> (case buf_blast b of
        None \<Rightarrow> Some False
      | Some p \<Rightarrow> do { bs \<leftarrow> buf_load b p 1; Some (hd bs = 0) });
     if last0 then Some b
     else do {
       let b' = (if \<not> buf_safe b 1 then fst (buf_inc_len b (- 1)) else b);
       (b'', ok) \<leftarrow> buf_write_u8 b' 0;
       Some b'' } }"

function buf_chomp_loop :: "buffer \<Rightarrow> buffer option" where
  "buf_chomp_loop b =
     (case buf_blast b of
        None \<Rightarrow> Some b
      | Some p \<Rightarrow>
          (case buf_load b p 1 of
             None \<Rightarrow> None
           | Some bs \<Rightarrow>
               if char_class (hd bs) (CC_CRLF OR CC_NULL)
               then (if snd (buf_inc_len b (- 1)) then buf_chomp_loop (fst (buf_inc_len b (- 1)))
                     else Some b)
               else Some b))"
  by pat_completeness auto
termination
  by (relation "measure (\<lambda>b. nat (b_len b))")
    (auto simp: buf_blast_def buf_len_def buf_inc_len_def split: if_splits)

declare buf_chomp_loop.simps [simp del]

definition buf_chomp :: "buffer \<Rightarrow> buffer option" where
  "buf_chomp b = do { b' \<leftarrow> buf_chomp_loop b; buf_null_terminate b' }"

definition string_null_terminate :: "byte list \<Rightarrow> int \<Rightarrow> int \<Rightarrow> byte list option" where
  "string_null_terminate str n cap = do {
     cassert (n \<ge> 0 \<and> n \<le> cap \<and> cap > 0);
     if n < cap then mem_write str n [0]
     else if n = cap then mem_write str (n - 1) [0]
     else Some str }"

definition string_alloc_buf :: "byte list \<Rightarrow> buffer option" where
  "string_alloc_buf str = do {
     b \<leftarrow> buf_set_read (Some (str @ [0])) (length str + 1);
     Some (if b_len b > 0 then b\<lparr>b_len := b_len b - 1\<rparr> else b) }"

definition buf_string_match_head_str :: "buffer \<Rightarrow> byte list \<Rightarrow> bool option" where
  "buf_string_match_head_str b m =
     (if \<not> buf_size_valid (length m) \<or> int (length m) > b_len b then Some False
      else do { p \<leftarrow> buf_bptr b; bs \<leftarrow> buf_load b p (int (length m)); Some (bs = m) })"

definition buf_string_compare_advance :: "buffer \<Rightarrow> byte list \<Rightarrow> (buffer \<times> bool) option" where
  "buf_string_compare_advance b m = do {
     r \<leftarrow> buf_string_match_head_str b m;
     Some (if r then (fst (buf_advance b (int (length m))), True) else (b, False)) }"

text \<open>The loop of \<open>buf_substring_len\<close> over the remaining content, with its counter.\<close>

function buf_substring_len_from :: "buffer \<Rightarrow> int \<Rightarrow> int \<Rightarrow> int option" where
  "buf_substring_len_from tmp delim i =
     (case buf_read_u8 tmp of
        None \<Rightarrow> None
      | Some (tmp', c) \<Rightarrow>
          if c \<ge> 0
          then (if c = delim then Some (i + 1) else buf_substring_len_from tmp' delim (i + 1))
          else Some (- 1))"
  by pat_completeness auto
termination
  by (relation "measure (\<lambda>(b, d, i). nat (b_len b))")
    (auto simp: buf_read_u8_def buf_peek_u8_def buf_len_def buf_advance_def bind_eq_Some_iff
      split: if_splits)

declare buf_substring_len_from.simps [simp del]

definition buf_substring_len :: "buffer \<Rightarrow> int \<Rightarrow> int option" where
  "buf_substring_len b delim = buf_substring_len_from b delim 0"

text \<open>
  The loop of \<open>buf_parse\<close>: \<open>acc\<close> is \<open>line[0..n-1]\<close>.  The result is the advanced buffer, the
  C string left in \<open>line\<close> and the end-of-input flag.
\<close>

function buf_parse_loop :: "buffer \<Rightarrow> int \<Rightarrow> int \<Rightarrow> byte list \<Rightarrow> (buffer \<times> byte list \<times> bool) option"
where
  "buf_parse_loop b delim sz acc =
     (case buf_peek_u8 b of
        None \<Rightarrow> None
      | Some c \<Rightarrow>
          if c < 0 then Some (b, acc, True)
          else if c = delim then Some (fst (buf_advance b 1), acc, False)
          else if int (length acc) \<ge> sz - 1 then Some (b, acc, False)
          else if c \<noteq> 0 then buf_parse_loop (fst (buf_advance b 1)) delim sz (acc @ [word_of_int c])
          else Some (fst (buf_advance b 1), acc, False))"
  by pat_completeness auto
termination
  by (relation "measure (\<lambda>(b, d, s, a). nat (b_len b))")
    (auto simp: buf_peek_u8_def buf_len_def buf_advance_def split: if_splits)

declare buf_parse_loop.simps [simp del]

definition buf_parse :: "buffer \<Rightarrow> int \<Rightarrow> int \<Rightarrow> (buffer \<times> byte list \<times> bool) option" where
  "buf_parse b delim sz = do {
     cassert (sz > 0);
     (b', line, eol) \<leftarrow> buf_parse_loop b delim sz [];
     Some (b', line, \<not> (eol \<and> line = [])) }"

section \<open>Properties of the string functions\<close>

lemma char_class_crlf_null: "char_class c (CC_CRLF OR CC_NULL) \<longleftrightarrow> c = 0 \<or> c = 10 \<or> c = 13"
  by (auto simp: char_class_def CC_CRLF_def CC_CR_def CC_NEWLINE_def CC_NULL_def cc_tests_def)

lemma string_class_iff: "string_class s i e \<longleftrightarrow> (\<forall>c \<in> set s. char_inc_exc c i e)"
  by (induction s) auto

lemma string_mod_result:
  "string_mod s i e r =
     (filter (\<lambda>c. c \<noteq> 0) (map (\<lambda>c. if char_inc_exc c i e then c else r) s), string_class s i e)"
  by (induction s) (auto simp: Let_def)

lemma rm_trailing_chars_rev:
  "rm_trailing_chars str del = rev (dropWhile (\<lambda>c. c \<in> set del) (rev str))"
proof (induction str del rule: rm_trailing_chars.induct)
  case (1 str del)
  show ?case
  proof (cases str rule: rev_cases)
    case Nil
    then show ?thesis by (simp add: rm_trailing_chars.simps)
  next
    case (snoc xs x)
    with 1 show ?thesis by (subst rm_trailing_chars.simps) auto
  qed
qed

lemma skip_leading_whitespace_dropWhile:
  "skip_leading_whitespace s = dropWhile (\<lambda>c. c = 32 \<or> c = 9) s"
  by (induction s) auto

lemma buf_blast_of:
  "buf_blast (buf_of p c q) = (if c = [] then None else Some (int (length p + length c) - 1))"
  by (auto simp: buf_blast_def)

lemma buf_load_last:
  assumes "c \<noteq> []"
  shows "buf_load (buf_of p c q) (int (length p + length c) - 1) 1 = Some [last c]"
proof -
  obtain xs x where "c = xs @ [x]" using assms by (metis rev_exhaust)
  then show ?thesis
    using mem_read_mid[of "int (length p + length c) - 1" "p @ xs" 1 "[x]" q]
    by (simp add: buf_load_def)
qed

lemma buf_dec_len_of:
  assumes "buf_fits p c q" "c \<noteq> []"
  shows "buf_inc_len (buf_of p c q) (- 1) = (buf_of p (butlast c) (last c # q), True)"
proof -
  obtain xs x where "c = xs @ [x]" using assms by (metis rev_exhaust)
  then show ?thesis
    using buf_inc_len_of[OF assms(1), of "- 1"] by (simp add: nat_diff_distrib)
qed

lemma buf_chomp_loop_of:
  "buf_fits p c q \<Longrightarrow> \<exists>q'. buf_chomp_loop (buf_of p c q) =
     Some (buf_of p (rm_trailing_chars c [0, 10, 13]) (q' @ q)) \<and>
     length (rm_trailing_chars c [0, 10, 13]) + length q' = length c"
proof (induction c arbitrary: q rule: rev_induct)
  case Nil
  then show ?case
    by (subst buf_chomp_loop.simps) (simp add: buf_blast_of rm_trailing_chars.simps)
next
  case (snoc x xs)
  have last: "buf_load (buf_of p (xs @ [x]) q) (int (length p + length (xs @ [x])) - 1) 1 = Some [x]"
    using buf_load_last[of "xs @ [x]" p q] by simp
  have step: "buf_chomp_loop (buf_of p (xs @ [x]) q) =
      (if x = 0 \<or> x = 10 \<or> x = 13 then buf_chomp_loop (buf_of p xs (x # q))
       else Some (buf_of p (xs @ [x]) q))"
    using last buf_dec_len_of[OF snoc.prems]
    by (subst buf_chomp_loop.simps) (simp add: buf_blast_of char_class_crlf_null)
  show ?case
  proof (cases "x = 0 \<or> x = 10 \<or> x = 13")
    case True
    have "buf_fits p xs (x # q)" using snoc.prems by (auto elim!: buf_fits_split)
    from snoc.IH[OF this] obtain q' where
      "buf_chomp_loop (buf_of p xs (x # q)) = Some (buf_of p (rm_trailing_chars xs [0, 10, 13]) (q' @ x # q))"
      "length (rm_trailing_chars xs [0, 10, 13]) + length q' = length xs"
      by blast
    moreover have "rm_trailing_chars (xs @ [x]) [0, 10, 13] = rm_trailing_chars xs [0, 10, 13]"
      using True by (subst rm_trailing_chars.simps) auto
    ultimately show ?thesis using True step by (intro exI[of _ "q' @ [x]"]) auto
  next
    case False
    moreover have "rm_trailing_chars (xs @ [x]) [0, 10, 13] = xs @ [x]"
      using False by (subst rm_trailing_chars.simps) auto
    ultimately show ?thesis using step by (intro exI[of _ "[]"]) auto
  qed
qed

lemma buf_null_terminate_of:
  assumes "buf_fits p c q"
  shows "buf_null_terminate (buf_of p c q) = Some
    (if c \<noteq> [] \<and> last c = 0 then buf_of p c q
     else if q \<noteq> [] then buf_of p (c @ [0]) (tl q)
     else if c \<noteq> [] then buf_of p (butlast c @ [0]) []
     else buf_of p c q)"
proof -
  have safe: "buf_safe (buf_of p c q) 1 \<longleftrightarrow> q \<noteq> []"
    using assms by (cases q) (auto simp: buf_safe_def buf_size_valid_def BUF_SIZE_MAX_def)
  have w: "buf_write_u8 (buf_of p c q) 0 =
      (if q = [] then Some (buf_of p c q, False) else Some (buf_of p (c @ [0]) (tl q), True))"
    using assms by (cases q) (auto simp: buf_write_u8_def buf_write_of)
  show ?thesis
  proof (cases "c = []")
    case True
    then show ?thesis
      using safe w by (auto simp: buf_null_terminate_def buf_blast_of buf_inc_len_def
          buf_safe_bidir_def buf_size_valid_signed_def Let_def)
  next
    case False
    have "buf_fits p (butlast c) [last c]" if "q = []"
      using assms that False by (auto elim!: buf_fits_split)
    then have "buf_write_u8 (buf_of p (butlast c) [last c]) 0 = Some (buf_of p (butlast c @ [0]) [], True)"
      if "q = []" using that by (simp add: buf_write_u8_def buf_write_of)
    then show ?thesis
      using False safe w buf_load_last[OF False, of p q] buf_dec_len_of[OF assms False]
      by (auto simp: buf_null_terminate_def buf_blast_of)
  qed
qed

lemma rm_trailing_chars_last: "rm_trailing_chars c del \<noteq> [] \<Longrightarrow> last (rm_trailing_chars c del) \<notin> set del"
  by (induction c del rule: rm_trailing_chars.induct)
    (metis length_greater_0_conv rm_trailing_chars.simps)

lemma rm_trailing_chars_length:
  "rm_trailing_chars c del = c \<or> length (rm_trailing_chars c del) < length c"
proof (induction c del rule: rm_trailing_chars.induct)
  case (1 c del)
  then show ?case
    by (subst (1 2) rm_trailing_chars.simps) (auto simp: rm_trailing_chars.simps[of c])
qed

text \<open>\<open>buf_chomp\<close> strips trailing CR, LF and NUL bytes and leaves a NUL-terminated string.\<close>

lemma buf_chomp_of:
  assumes "buf_fits p c q" "q \<noteq> [] \<or> rm_trailing_chars c [0, 10, 13] \<noteq> c"
  shows "\<exists>q'. buf_chomp (buf_of p c q) = Some (buf_of p (rm_trailing_chars c [0, 10, 13] @ [0]) q')"
proof -
  let ?c = "rm_trailing_chars c [0, 10, 13]"
  obtain q' where q': "buf_chomp_loop (buf_of p c q) = Some (buf_of p ?c (q' @ q))"
    "length ?c + length q' = length c"
    using buf_chomp_loop_of[OF assms(1)] by blast
  have "q' = [] \<Longrightarrow> ?c = c"
    using q'(2) rm_trailing_chars_length[of c "[0, 10, 13]"] by auto
  then have "q' @ q \<noteq> []" using assms(2) by auto
  moreover have "buf_fits p ?c (q' @ q)" using assms(1) q'(2) by (auto elim!: buf_fits_split)
  ultimately show ?thesis
    using q' buf_null_terminate_of[of p ?c "q' @ q"] rm_trailing_chars_last[of c "[0, 10, 13]"]
    by (auto simp: buf_chomp_def)
qed

section \<open>Line parsing\<close>

lemma buf_parse_loop_of:
  assumes "d \<notin> set l" "0 \<notin> set l" "int (length acc + length l) < sz"
  shows "buf_parse_loop (buf_of p (l @ d # rest) q) (uint d) sz acc =
    Some (buf_of (p @ l @ [d]) rest q, acc @ l, False)"
  using assms
proof (induction l arbitrary: p acc)
  case Nil
  then show ?case
    by (subst buf_parse_loop.simps) (simp add: buf_peek_u8_of buf_advance_of)
next
  case (Cons x xs)
  have "uint x \<noteq> uint d" "uint x \<noteq> uint (0 :: byte)"
    using Cons.prems by (simp_all only: word_uint_eq_iff[symmetric]) auto
  moreover have "(word_of_int (uint x) :: byte) = x" by simp
  ultimately show ?case
    using Cons by (subst buf_parse_loop.simps) (simp add: buf_peek_u8_of buf_advance_of)
qed

lemma buf_parse_line:
  assumes "d \<notin> set l" "0 \<notin> set l" "int (length l) < sz"
  shows "buf_parse (buf_of p (l @ d # rest) q) (uint d) sz = Some (buf_of (p @ l @ [d]) rest q, l, True)"
  using buf_parse_loop_of[of d l "[]" sz p rest q] assms by (simp add: buf_parse_def)

lemma buf_parse_end: "sz > 0 \<Longrightarrow> buf_parse (buf_of p [] q) d sz = Some (buf_of p [] q, [], False)"
  by (simp add: buf_parse_def buf_parse_loop.simps buf_peek_u8_of)

text \<open>The callers' loop \<open>while (buf_parse(...))\<close> collects the lines.\<close>

fun parse_lines :: "nat \<Rightarrow> buffer \<Rightarrow> int \<Rightarrow> int \<Rightarrow> byte list list option" where
  "parse_lines 0 b d sz = None"
| "parse_lines (Suc n) b d sz =
     (case buf_parse b d sz of
        None \<Rightarrow> None
      | Some (b', l, False) \<Rightarrow> Some []
      | Some (b', l, True) \<Rightarrow> map_option (\<lambda>ls. l # ls) (parse_lines n b' d sz))"

lemma parse_lines_join:
  "\<forall>l \<in> set ls. d \<notin> set l \<and> 0 \<notin> set l \<and> int (length l) < sz \<Longrightarrow> sz > 0 \<Longrightarrow> length ls < n \<Longrightarrow>
   parse_lines n (buf_of p (concat (map (\<lambda>l. l @ [d]) ls)) q) (uint d) sz = Some ls"
proof (induction ls arbitrary: p n)
  case Nil
  then show ?case by (cases n) (auto simp: buf_parse_end)
next
  case (Cons l ls)
  then obtain m where n: "n = Suc m" by (cases n) auto
  have "buf_parse (buf_of p (l @ d # concat (map (\<lambda>l. l @ [d]) ls)) q) (uint d) sz =
      Some (buf_of (p @ l @ [d]) (concat (map (\<lambda>l. l @ [d]) ls)) q, l, True)"
    using Cons.prems by (intro buf_parse_line) auto
  then show ?case using Cons n by simp
qed

section \<open>String output\<close>

lemma c_str_append: "0 \<notin> set s \<Longrightarrow> c_str (s @ 0 # r) = s"
  unfolding c_str_def by (induction s) auto

lemma buf_puts_of:
  assumes "0 \<notin> set str"
  shows "buf_puts (buf_of p c q) str =
    (if q = [] then Some (buf_of p c q, False)
     else Some (buf_of p (c @ take (length q - 1) str)
                  (replicate (length q - length (take (length q - 1) str)) 0), True))"
proof (cases "q = []")
  case False
  let ?n = "length q" let ?s = "take (?n - 1) str"
  let ?w = "strncpynt_bytes str ?n"
  have n: "?n > 0" using False by simp
  have w: "?w = ?s @ replicate (?n - length ?s) 0"
    using n by (cases "?n") (auto simp: strncpynt_bytes_def replicate_append_same min_def
        Suc_diff_le simp flip: replicate_Suc)
  have lw: "length ?w = ?n" using n by (auto simp: w)
  then have st1: "buf_store (buf_of p c q) (int (length p + length c)) ?w = Some (buf_of p c ?w)"
    using mem_write_mid[of q ?w "int (length p + length c)" "p @ c" "[]"]
    by (simp add: buf_store_def buf_of_def)
  have w0: "?w = butlast ?w @ [0]"
    using n by (simp add: strncpynt_bytes_def butlast_append)
  have st2: "buf_store (buf_of p c ?w) (b_capacity (buf_of p c ?w) - 1) [0] = Some (buf_of p c ?w)"
    using mem_write_mid[of "[0]" "[0]" "b_capacity (buf_of p c ?w) - 1" "p @ c @ butlast ?w" "[]"] w0 lw n
    by (simp add: buf_store_def buf_of_def)
  have ld: "buf_load (buf_of p c ?w) (int (length p + length c)) (int ?n) = Some ?w"
    using mem_read_mid[of "int (length p + length c)" "p @ c" "int ?n" ?w "[]"] lw
    by (simp add: buf_load_def)
  have "c_str ?w = ?s"
    using n assms by (subst w) (auto simp: Suc_diff_le intro!: c_str_append dest!: in_set_takeD
        simp: min_def gr0_conv_Suc replicate_app_Cons_same)
  then have "buf_puts (buf_of p c q) str =
      Some ((buf_of p c ?w)\<lparr>b_len := int (length c) + int (length ?s)\<rparr>, True)"
    using False st1 st2 ld by (simp add: buf_puts_def buf_bend_def Let_def)
  then show ?thesis using False w by (simp add: buf_of_def)
qed (simp add: buf_puts_def)

section \<open>Properties\<close>

text \<open>Splitting a buffer at a delimiter with \<open>buf_parse\<close> inverts joining lines with it: every line
  that fits the line buffer and contains neither the delimiter nor a NUL is returned, in order.\<close>

theorem parse_lines_roundtrip:
  assumes "\<forall>l \<in> set ls. d \<notin> set l \<and> 0 \<notin> set l \<and> int (length l) < sz" "sz > 0" "length ls < n"
  shows "parse_lines n (buf_of p (concat (map (\<lambda>l. l @ [d]) ls)) q) (uint d) sz = Some ls"
  using assms by (rule parse_lines_join)

theorem parse_lines_roundtrip_witness:
  "parse_lines 3 (buf_of [] (concat (map (\<lambda>l. l @ [10]) [[65, 66], []])) []) (uint (10 :: byte)) 80 =
     Some [[65, 66], []]"
  by (rule parse_lines_roundtrip) auto

text \<open>\<open>string_mod\<close> with a replacement character of the allowed class leaves only allowed
  characters, keeps an already allowed string, and reports exactly whether it was allowed.\<close>

theorem string_mod_sanitises:
  assumes "0 \<notin> set s" "r \<noteq> 0" "char_inc_exc r i e"
  shows "string_class (fst (string_mod s i e r)) i e \<and>
    (snd (string_mod s i e r) \<longleftrightarrow> string_class s i e) \<and>
    (string_class s i e \<longrightarrow> fst (string_mod s i e r) = s) \<and>
    length (fst (string_mod s i e r)) = length s"
proof -
  have f: "filter (\<lambda>c. c \<noteq> 0) (map (\<lambda>c. if char_inc_exc c i e then c else r) s) =
      map (\<lambda>c. if char_inc_exc c i e then c else r) s"
    using assms(1,2) by (auto simp: filter_id_conv)
  show ?thesis
    using assms(3) unfolding string_mod_result f by (auto simp: string_class_iff intro: map_idI)
qed

theorem string_mod_sanitises_witness:
  "string_class (fst (string_mod [65, 10, 66] CC_PRINT 0 95)) CC_PRINT 0 \<and>
    (snd (string_mod [65, 10, 66] CC_PRINT 0 95) \<longleftrightarrow> string_class [65, 10, 66] CC_PRINT 0) \<and>
    length (fst (string_mod [65, 10, 66] CC_PRINT 0 95)) = length [65, 10, 66 :: byte]"
proof -
  have "char_inc_exc 95 CC_PRINT 0" by code_simp
  then show ?thesis using string_mod_sanitises[of "[65, 10, 66]" 95 CC_PRINT 0] by simp
qed

text \<open>\<open>buf_chomp\<close> strips all trailing CR, LF and NUL bytes and leaves a NUL-terminated string: the
  result ends in exactly one NUL after a byte that is none of the three.\<close>

theorem buf_chomp_strips:
  assumes "buf_fits p c q" "q \<noteq> [] \<or> rm_trailing_chars c [0, 10, 13] \<noteq> c"
  shows "\<exists>q' rest. buf_chomp (buf_of p c q) = Some (buf_of p (rm_trailing_chars c [0, 10, 13] @ [0]) q') \<and>
    c = rm_trailing_chars c [0, 10, 13] @ rest \<and> set rest \<subseteq> {0, 10, 13} \<and>
    (rm_trailing_chars c [0, 10, 13] = [] \<or> last (rm_trailing_chars c [0, 10, 13]) \<notin> {0, 10, 13})"
proof -
  obtain q' where q': "buf_chomp (buf_of p c q) = Some (buf_of p (rm_trailing_chars c [0, 10, 13] @ [0]) q')"
    using buf_chomp_of[OF assms] by blast
  let ?P = "\<lambda>c. c \<in> set [0, 10, 13 :: byte]"
  have "rev c = takeWhile ?P (rev c) @ dropWhile ?P (rev c)" by simp
  then have "c = rm_trailing_chars c [0, 10, 13] @ rev (takeWhile ?P (rev c))"
    unfolding rm_trailing_chars_rev by (metis rev_append rev_rev_ident)
  moreover have "set (rev (takeWhile ?P (rev c))) \<subseteq> {0, 10, 13}"
    by (auto dest: set_takeWhileD)
  moreover have "rm_trailing_chars c [0, 10, 13] = [] \<or> last (rm_trailing_chars c [0, 10, 13]) \<notin> {0, 10, 13}"
    using rm_trailing_chars_last[of c "[0, 10, 13]"] by auto
  ultimately show ?thesis using q' by blast
qed

theorem buf_chomp_strips_witness:
  "\<exists>q'. buf_chomp (buf_of [] [65, 13, 10] []) = Some (buf_of [] [65, 0] q')"
proof -
  have r: "rm_trailing_chars [65, 13, 10 :: byte] [0, 10, 13] = [65]"
    by (simp add: rm_trailing_chars_rev)
  have "buf_fits [] [65, 13, 10 :: byte] []" by (simp add: buf_fits_def BUF_SIZE_MAX_def)
  from buf_chomp_strips[OF this] show ?thesis by (auto simp: r)
qed

end
