(* ===== verification/Ovpn_Fifo.thy ===== *)
theory Ovpn_Fifo
  imports Ovpn_Prelude
begin

text \<open>
  The contract of a first-in first-out queue, as the senders of the program use it: \<open>push\<close> adds at
  the back when \<open>accepts\<close> holds, \<open>pop\<close> takes the front element or reports an empty queue.  The
  output buffer list (\<open>buffer.c\<close>) and the client packet queue (\<open>mbuf.c\<close>) both provide it.
\<close>

locale fifo =
  fixes push :: "'q \<Rightarrow> 'a \<Rightarrow> 'q option"
    and pop :: "'q \<Rightarrow> ('q \<times> 'a option) option"
    and items :: "'q \<Rightarrow> 'a list"
    and accepts :: "'q \<Rightarrow> 'a list \<Rightarrow> bool"
    and inv :: "'q \<Rightarrow> bool"
  assumes accepts_Cons: "inv q \<Longrightarrow> accepts q (x # xs) \<Longrightarrow>
      \<exists>q'. push q x = Some q' \<and> inv q' \<and> items q' = items q @ [x] \<and> accepts q' xs"
    and pop_empty: "inv q \<Longrightarrow> items q = [] \<Longrightarrow> \<exists>q'. pop q = Some (q', None) \<and> inv q' \<and> items q' = []"
    and pop_front: "inv q \<Longrightarrow> items q = x # xs \<Longrightarrow>
      \<exists>q'. pop q = Some (q', Some x) \<and> inv q' \<and> items q' = xs"
begin

fun push_all :: "'q \<Rightarrow> 'a list \<Rightarrow> 'q option" where
  "push_all q [] = Some q"
| "push_all q (x # xs) = do { q' \<leftarrow> push q x; push_all q' xs }"

fun drain :: "nat \<Rightarrow> 'q \<Rightarrow> ('q \<times> 'a list) option" where
  "drain 0 q = Some (q, [])"
| "drain (Suc n) q =
     (case pop q of None \<Rightarrow> None
      | Some (q', None) \<Rightarrow> Some (q', [])
      | Some (q', Some x) \<Rightarrow> map_option (\<lambda>(q'', xs). (q'', x # xs)) (drain n q'))"

lemma push_all_items:
  "inv q \<Longrightarrow> accepts q xs \<Longrightarrow> \<exists>q'. push_all q xs = Some q' \<and> inv q' \<and> items q' = items q @ xs"
proof (induction xs arbitrary: q)
  case Nil
  then show ?case by simp
next
  case (Cons x xs)
  from accepts_Cons[OF Cons.prems] Cons.IH show ?case by fastforce
qed

lemma drain_items:
  "inv q \<Longrightarrow> length (items q) < n \<Longrightarrow> \<exists>q'. drain n q = Some (q', items q) \<and> inv q' \<and> items q' = []"
proof (induction n arbitrary: q)
  case 0
  then show ?case by simp
next
  case (Suc n)
  show ?case
  proof (cases "items q")
    case Nil
    with pop_empty[OF Suc.prems(1)] show ?thesis by auto
  next
    case (Cons x xs)
    then obtain q1 where q1: "pop q = Some (q1, Some x)" "inv q1" "items q1 = xs"
      using pop_front[OF Suc.prems(1)] by blast
    then show ?thesis using Suc.IH[of q1] Suc.prems(2) Cons by auto
  qed
qed

text \<open>A burst that the queue accepts is delivered completely and in order.\<close>

lemma burst_in_order:
  assumes "inv q" "items q = []" "accepts q xs" "length xs < n"
  shows "\<exists>q1 q2. push_all q xs = Some q1 \<and> drain n q1 = Some (q2, xs) \<and> inv q2 \<and> items q2 = []"
proof -
  obtain q1 where "push_all q xs = Some q1" "inv q1" "items q1 = xs"
    using push_all_items[OF assms(1,3)] assms(2) by auto
  with drain_items[of q1 n] assms(4) show ?thesis by auto
qed

end

end
