(* ===== verification/Ovpn_Buffer_List.thy ===== *)
theory Ovpn_Buffer_List
  imports Ovpn_Buffer Ovpn_Fifo
begin

text \<open>
  \<open>struct buffer_list\<close> of \<open>buffer.c\<close>: the queue of output lines.  The linked entries from
  \<open>head\<close> to \<open>tail\<close> are the list \<open>bl_entries\<close>; the separate counter \<open>size\<close> is kept as in the code.
\<close>

record buffer_list =
  bl_entries :: "buffer list"
  bl_size :: nat

definition buffer_list_new :: buffer_list where
  "buffer_list_new = \<lparr>bl_entries = [], bl_size = 0\<rparr>"

definition buffer_list_defined :: "buffer_list option \<Rightarrow> bool" where
  "buffer_list_defined ol =
     (case ol of None \<Rightarrow> False | Some l \<Rightarrow> bl_entries l \<noteq> [] \<and> bl_size l > 0)"

definition buffer_list_reset :: "buffer_list \<Rightarrow> buffer_list" where
  "buffer_list_reset ol = ol\<lparr>bl_entries := [], bl_size := 0\<rparr>"

definition buffer_list_push_data :: "buffer_list \<Rightarrow> byte list option \<Rightarrow> buffer_list option" where
  "buffer_list_push_data ol dat =
     (case dat of
        None \<Rightarrow> Some ol
      | Some bs \<Rightarrow> do {
          b \<leftarrow> alloc_buf (length bs);
          b' \<leftarrow> buf_store b 0 bs;
          Some (ol\<lparr>bl_size := bl_size ol + 1,
                  bl_entries := bl_entries ol @ [b'\<lparr>b_len := int (length bs)\<rparr>]\<rparr>) })"

text \<open>\<open>buffer_list_push\<close> copies the string with its NUL and then shortens the new last entry.\<close>

definition buffer_list_push :: "buffer_list \<Rightarrow> byte list option \<Rightarrow> buffer_list option" where
  "buffer_list_push ol str =
     (case str of
        None \<Rightarrow> Some ol
      | Some s \<Rightarrow> do {
          ol' \<leftarrow> buffer_list_push_data ol (Some (s @ [0]));
          let e = last (bl_entries ol');
          Some (ol'\<lparr>bl_entries := butlast (bl_entries ol') @ [e\<lparr>b_len := b_len e - 1\<rparr>]\<rparr>) })"

definition buffer_list_peek :: "buffer_list option \<Rightarrow> buffer option" where
  "buffer_list_peek ol =
     (case ol of None \<Rightarrow> None
      | Some l \<Rightarrow> (case bl_entries l of [] \<Rightarrow> None | e # es \<Rightarrow> Some e))"

text \<open>The counting loop of the aggregation: the number and the total size of the entries that fit.\<close>

fun aggregate_scan :: "buffer list \<Rightarrow> nat \<Rightarrow> nat \<Rightarrow> nat \<Rightarrow> nat \<Rightarrow> nat \<times> nat" where
  "aggregate_scan [] sep_len max_len sz count = (count, sz)"
| "aggregate_scan (e # es) sep_len max_len sz count =
     (let extra_len = nat (buf_len e) + sep_len
      in if sz + extra_len > max_len then (count, sz)
         else aggregate_scan es sep_len max_len (sz + extra_len) (count + 1))"

fun aggregate_copy :: "buffer \<Rightarrow> buffer list \<Rightarrow> byte list \<Rightarrow> buffer option" where
  "aggregate_copy f [] sep = Some f"
| "aggregate_copy f (e # es) sep = do {
     (f1, _) \<leftarrow> buf_copy f e;
     (f2, _) \<leftarrow> buf_write f1 sep;
     aggregate_copy f2 es sep }"

definition buffer_list_aggregate_separator ::
  "buffer_list \<Rightarrow> nat \<Rightarrow> byte list \<Rightarrow> buffer_list option" where
  "buffer_list_aggregate_separator bl max_len sep =
     (let (count, sz) = aggregate_scan (bl_entries bl) (length sep) max_len 0 0
      in if count \<ge> 2
         then do {
           f0 \<leftarrow> alloc_buf (sz + 1);
           f \<leftarrow> aggregate_copy f0 (take count (bl_entries bl)) sep;
           Some (bl\<lparr>bl_entries := f # drop count (bl_entries bl),
                   bl_size := bl_size bl - (count - 1)\<rparr>) }
         else Some bl)"

definition buffer_list_aggregate :: "buffer_list \<Rightarrow> nat \<Rightarrow> buffer_list option" where
  "buffer_list_aggregate bl mx = buffer_list_aggregate_separator bl mx []"

definition buffer_list_pop :: "buffer_list \<Rightarrow> buffer_list" where
  "buffer_list_pop ol =
     (if buffer_list_defined (Some ol)
      then ol\<lparr>bl_entries := tl (bl_entries ol), bl_size := bl_size ol - 1\<rparr> else ol)"

definition buffer_list_advance :: "buffer_list \<Rightarrow> int \<Rightarrow> buffer_list option" where
  "buffer_list_advance ol n =
     (case bl_entries ol of
        [] \<Rightarrow> Some ol
      | e # es \<Rightarrow> do {
          let (e', ok) = buf_advance e n;
          cassert ok;
          let ol' = ol\<lparr>bl_entries := e' # es\<rparr>;
          Some (if buf_len e' = 0 then buffer_list_pop ol' else ol') })"

section \<open>Invariant\<close>

definition buffer_list_ok :: "buffer_list \<Rightarrow> bool" where
  "buffer_list_ok bl = (bl_size bl = length (bl_entries bl) \<and> (\<forall>e \<in> set (bl_entries bl). buf_live e))"

definition buffer_list_stream :: "buffer_list \<Rightarrow> byte list list" where
  "buffer_list_stream bl = map buf_content (bl_entries bl)"

lemma buffer_list_new_ok [simp]: "buffer_list_ok buffer_list_new" "buffer_list_stream buffer_list_new = []"
  by (simp_all add: buffer_list_ok_def buffer_list_new_def buffer_list_stream_def)

lemma push_entry:
  assumes "int (length bs) < BUF_SIZE_MAX"
  shows "do { b \<leftarrow> alloc_buf (length bs); buf_store b 0 bs } = Some (buf_of [] [] bs)"
  using assms mem_write_mid[of "replicate (length bs) 0" bs 0 "[]" "[]"]
  by (simp add: alloc_buf_ok buf_store_def buf_of_def)

lemma buffer_list_push_data_stream:
  assumes "buffer_list_ok bl" "int (length bs) < BUF_SIZE_MAX"
  shows "\<exists>bl'. buffer_list_push_data bl (Some bs) = Some bl' \<and> buffer_list_ok bl' \<and>
    buffer_list_stream bl' = buffer_list_stream bl @ [bs]"
proof -
  let ?e = "(buf_of [] [] bs)\<lparr>b_len := int (length bs)\<rparr>"
  have e: "?e = buf_of [] bs []" by (simp add: buf_of_def)
  have "buffer_list_push_data bl (Some bs) =
      Some (bl\<lparr>bl_size := bl_size bl + 1, bl_entries := bl_entries bl @ [?e]\<rparr>)"
    using push_entry[OF assms(2)]
    by (auto simp: buffer_list_push_data_def bind_eq_Some_iff)
  then show ?thesis
    using assms unfolding e
    by (auto simp: buffer_list_ok_def buffer_list_stream_def buf_live_def buf_fits_def)
qed

text \<open>A pushed string is one entry holding its bytes without the NUL.\<close>

lemma buffer_list_push_stream:
  assumes "buffer_list_ok bl" "int (length s) + 1 < BUF_SIZE_MAX"
  shows "\<exists>bl'. buffer_list_push bl (Some s) = Some bl' \<and> buffer_list_ok bl' \<and>
    buffer_list_stream bl' = buffer_list_stream bl @ [s]"
proof -
  have sz: "int (length (s @ [0])) < BUF_SIZE_MAX" using assms(2) by simp
  let ?e = "(buf_of [] [] (s @ [0]))\<lparr>b_len := int (length (s @ [0]))\<rparr>"
  have push: "buffer_list_push_data bl (Some (s @ [0])) =
      Some (bl\<lparr>bl_size := bl_size bl + 1, bl_entries := bl_entries bl @ [?e]\<rparr>)"
    using push_entry[OF sz] by (auto simp: buffer_list_push_data_def bind_eq_Some_iff)
  have e: "?e\<lparr>b_len := b_len ?e - 1\<rparr> = buf_of [] s [0]" by (simp add: buf_of_def)
  have "buffer_list_push bl (Some s) =
      Some (bl\<lparr>bl_size := bl_size bl + 1, bl_entries := bl_entries bl @ [?e\<lparr>b_len := b_len ?e - 1\<rparr>]\<rparr>)"
    unfolding buffer_list_push_def using push by (simp add: Let_def)
  then show ?thesis
    using assms unfolding e
    by (auto simp: buffer_list_ok_def buffer_list_stream_def buf_live_def buf_fits_def)
qed

lemma buffer_list_pop_ok:
  "buffer_list_ok bl \<Longrightarrow> buffer_list_ok (buffer_list_pop bl) \<and>
     buffer_list_stream (buffer_list_pop bl) = tl (buffer_list_stream bl)"
  by (cases "bl_entries bl")
    (auto simp: buffer_list_ok_def buffer_list_pop_def buffer_list_defined_def buffer_list_stream_def)

text \<open>Reading the front entry and removing it, as the output loops do.\<close>

definition buffer_list_take :: "buffer_list \<Rightarrow> (buffer_list \<times> byte list option) option" where
  "buffer_list_take ol =
     (case buffer_list_peek (Some ol) of
        None \<Rightarrow> Some (ol, None)
      | Some e \<Rightarrow> do { bs \<leftarrow> buf_bytes e; Some (buffer_list_pop ol, Some bs) })"

interpretation outq: fifo "\<lambda>bl s. buffer_list_push bl (Some s)" buffer_list_take buffer_list_stream
  "\<lambda>bl ss. \<forall>s \<in> set ss. int (length s) + 1 < BUF_SIZE_MAX" buffer_list_ok
proof
  fix bl :: buffer_list and s :: "byte list" and ss
  assume "buffer_list_ok bl" "\<forall>s \<in> set (s # ss). int (length s) + 1 < BUF_SIZE_MAX"
  then show "\<exists>bl'. buffer_list_push bl (Some s) = Some bl' \<and> buffer_list_ok bl' \<and>
      buffer_list_stream bl' = buffer_list_stream bl @ [s] \<and>
      (\<forall>s \<in> set ss. int (length s) + 1 < BUF_SIZE_MAX)"
    using buffer_list_push_stream[of bl s] by auto
next
  fix bl :: buffer_list
  assume "buffer_list_ok bl" "buffer_list_stream bl = []"
  then show "\<exists>bl'. buffer_list_take bl = Some (bl', None) \<and> buffer_list_ok bl' \<and> buffer_list_stream bl' = []"
    by (auto simp: buffer_list_take_def buffer_list_peek_def buffer_list_stream_def)
next
  fix bl :: buffer_list and s ss
  assume "buffer_list_ok bl" "buffer_list_stream bl = s # ss"
  then show "\<exists>bl'. buffer_list_take bl = Some (bl', Some s) \<and> buffer_list_ok bl' \<and> buffer_list_stream bl' = ss"
    using buffer_list_pop_ok[of bl]
    by (auto simp: buffer_list_take_def buffer_list_peek_def buffer_list_stream_def buffer_list_ok_def
        buf_live_def buf_bytes_ok)
qed

section \<open>Aggregation\<close>

lemma aggregate_scan_result:
  assumes "\<forall>e \<in> set es. buf_live e" "aggregate_scan es k mx sz count = (count', sz')"
  shows "\<exists>n \<le> length es. count' = count + n \<and>
    sz' = sz + length (concat (map (\<lambda>e. buf_content e) (take n es))) + n * k \<and> (n > 0 \<longrightarrow> sz' \<le> mx)"
  using assms
proof (induction es arbitrary: sz count)
  case Nil
  then show ?case by simp
next
  case (Cons e es)
  obtain p c q where e: "e = buf_of p c q" using Cons.prems by (auto simp: buf_live_repr)
  show ?case
  proof (cases "sz + (length c + k) > mx")
    case True
    then show ?thesis using Cons.prems e by (auto simp: Let_def)
  next
    case False
    then have "aggregate_scan es k mx (sz + (length c + k)) (count + 1) = (count', sz')"
      using Cons.prems e by (simp add: Let_def)
    then obtain n where "n \<le> length es" "count' = count + 1 + n"
      "sz' = sz + (length c + k) + length (concat (map (\<lambda>e. buf_content e) (take n es))) + n * k"
      "n > 0 \<longrightarrow> sz' \<le> mx"
      using Cons.IH[of "sz + (length c + k)" "count + 1"] Cons.prems by auto
    then show ?thesis
      using e False by (intro exI[of _ "Suc n"]) (auto simp: algebra_simps)
  qed
qed

lemma aggregate_copy_result:
  assumes "\<forall>e \<in> set es. buf_live e" "buf_fits p c q"
    "length (concat (map (\<lambda>e. buf_content e @ sep) es)) \<le> length q"
  shows "\<exists>q'. aggregate_copy (buf_of p c q) es sep =
      Some (buf_of p (c @ concat (map (\<lambda>e. buf_content e @ sep) es)) q') \<and>
      buf_fits p (c @ concat (map (\<lambda>e. buf_content e @ sep) es)) q'"
  using assms
proof (induction es arbitrary: c q)
  case Nil
  then show ?case by auto
next
  case (Cons e es)
  let ?d = "buf_content e"
  have ok: "buf_ok e" using Cons.prems by (auto simp: buf_live_def)
  have f1: "buf_fits p (c @ ?d) (drop (length ?d) q)"
    using Cons.prems by (auto elim!: buf_fits_split)
  have f2: "buf_fits p (c @ ?d @ sep) (drop (length sep) (drop (length ?d) q))"
    using Cons.prems by (auto elim!: buf_fits_split)
  have len: "length ?d \<le> length q" "length sep \<le> length q - length ?d"
    using Cons.prems by auto
  have "aggregate_copy (buf_of p c q) (e # es) sep =
      aggregate_copy (buf_of p (c @ ?d @ sep) (drop (length sep) (drop (length ?d) q))) es sep"
    using Cons.prems(2) ok f1 len by (simp add: buf_copy_of buf_write_of)
  then show ?case
    using Cons.IH[OF _ f2] Cons.prems by auto
qed

text \<open>
  Aggregation replaces the longest prefix that fits by one entry of at most \<open>max_len\<close> bytes and
  keeps the byte stream: every aggregated entry is followed by the separator.
\<close>

lemma buffer_list_aggregate_separator_stream:
  assumes ok: "buffer_list_ok bl" and mx: "int max_len + 1 < BUF_SIZE_MAX"
  shows "\<exists>bl' n. buffer_list_aggregate_separator bl max_len sep = Some bl' \<and> buffer_list_ok bl' \<and>
    (bl' = bl \<or> 2 \<le> n \<and> n \<le> length (buffer_list_stream bl) \<and>
      buffer_list_stream bl' =
        concat (map (\<lambda>s. s @ sep) (take n (buffer_list_stream bl))) # drop n (buffer_list_stream bl) \<and>
      length (hd (buffer_list_stream bl')) \<le> max_len)"
proof -
  let ?es = "bl_entries bl"
  have live: "\<forall>e \<in> set ?es. buf_live e" using ok by (simp add: buffer_list_ok_def)
  obtain count sz where scan: "aggregate_scan ?es (length sep) max_len 0 0 = (count, sz)"
    by fastforce
  from aggregate_scan_result[OF live scan] have cs: "count \<le> length ?es"
    "sz = length (concat (map (\<lambda>e. buf_content e) (take count ?es))) + count * length sep"
    "count > 0 \<longrightarrow> sz \<le> max_len" by auto
  have sz: "sz = length (concat (map (\<lambda>e. buf_content e @ sep) (take count ?es)))"
    unfolding cs(2) using cs(1)
    by (simp add: length_concat o_def sum_list_addf sum_list_triv min_absorb2)
  show ?thesis
  proof (cases "count \<ge> 2")
    case False
    then show ?thesis
      using scan ok by (intro exI[of _ bl]) (simp add: buffer_list_aggregate_separator_def)
  next
    case True
    then have sm: "int (sz + 1) < BUF_SIZE_MAX" using cs(3) mx by simp
    let ?out = "concat (map (\<lambda>e. buf_content e @ sep) (take count ?es))"
    have "buf_fits [] [] (replicate (sz + 1) 0)" using sm by (simp add: buf_fits_def)
    then obtain q' where q': "aggregate_copy (buf_of [] [] (replicate (sz + 1) 0)) (take count ?es) sep =
        Some (buf_of [] ?out q')" "buf_fits [] ?out q'"
      using aggregate_copy_result[of "take count ?es" "[]" "[]" "replicate (sz + 1) 0" sep] live sz
      by (auto dest: in_set_takeD)
    let ?bl = "bl\<lparr>bl_entries := buf_of [] ?out q' # drop count ?es, bl_size := bl_size bl - (count - 1)\<rparr>"
    have "buffer_list_aggregate_separator bl max_len sep = Some ?bl"
      using scan True sm q'(1) by (simp add: buffer_list_aggregate_separator_def alloc_buf_ok)
    moreover have "buffer_list_ok ?bl"
      using ok q'(2) True cs(1) by (auto simp: buffer_list_ok_def buf_live_def dest: in_set_dropD)
    moreover have "?out = concat (map (\<lambda>s. s @ sep) (take count (buffer_list_stream bl)))"
      by (simp add: buffer_list_stream_def take_map o_def)
    ultimately show ?thesis
      using True cs sz
      by (intro exI[of _ ?bl] exI[of _ count]) (auto simp: buffer_list_stream_def drop_map)
  qed
qed

section \<open>Properties\<close>

text \<open>The output queue is a FIFO of byte strings: a burst of strings pushed on an empty queue comes
  out complete, unchanged (without the terminating NUL) and in order, and the queue is empty again.\<close>

theorem output_queue_in_order:
  assumes "\<forall>s \<in> set ss. int (length s) + 1 < BUF_SIZE_MAX" "length ss < n"
  shows "\<exists>q1 q2. outq.push_all buffer_list_new ss = Some q1 \<and> outq.drain n q1 = Some (q2, ss) \<and>
    buffer_list_ok q2 \<and> buffer_list_stream q2 = []"
  using outq.burst_in_order[of buffer_list_new ss n] assms by simp

theorem output_queue_in_order_witness:
  "\<exists>q1 q2. outq.push_all buffer_list_new [[1, 2], [3]] = Some q1 \<and> outq.drain 3 q1 = Some (q2, [[1, 2], [3]]) \<and>
    buffer_list_ok q2 \<and> buffer_list_stream q2 = []"
  by (rule output_queue_in_order) (simp_all add: BUF_SIZE_MAX_def)

text \<open>Aggregation of the output queue keeps the byte stream: it either changes nothing or replaces
  at least two leading entries by one of at most \<open>max_len\<close> bytes, their contents joined with the
  separator, and leaves the entries behind them as they were.\<close>

theorem aggregation_keeps_stream:
  assumes "buffer_list_ok bl" "int max_len + 1 < BUF_SIZE_MAX"
  shows "\<exists>bl' n. buffer_list_aggregate_separator bl max_len sep = Some bl' \<and> buffer_list_ok bl' \<and>
    (bl' = bl \<or> 2 \<le> n \<and> n \<le> length (buffer_list_stream bl) \<and>
      buffer_list_stream bl' =
        concat (map (\<lambda>s. s @ sep) (take n (buffer_list_stream bl))) # drop n (buffer_list_stream bl) \<and>
      length (hd (buffer_list_stream bl')) \<le> max_len)"
  using assms by (rule buffer_list_aggregate_separator_stream)

theorem aggregation_keeps_stream_witness:
  "\<exists>bl' n. buffer_list_aggregate_separator
       \<lparr>bl_entries = [buf_of [] [1, 2] [], buf_of [] [3] [], buf_of [] [4] []], bl_size = 3\<rparr> 5 [10] = Some bl' \<and>
    buffer_list_ok bl' \<and>
    (bl' = \<lparr>bl_entries = [buf_of [] [1, 2] [], buf_of [] [3] [], buf_of [] [4] []], bl_size = 3\<rparr> \<or>
      2 \<le> n \<and> n \<le> length (buffer_list_stream \<lparr>bl_entries = [buf_of [] [1, 2] [], buf_of [] [3] [], buf_of [] [4] []], bl_size = 3\<rparr>) \<and>
      buffer_list_stream bl' =
        concat (map (\<lambda>s. s @ [10]) (take n (buffer_list_stream \<lparr>bl_entries = [buf_of [] [1, 2] [], buf_of [] [3] [], buf_of [] [4] []], bl_size = 3\<rparr>))) #
          drop n (buffer_list_stream \<lparr>bl_entries = [buf_of [] [1, 2] [], buf_of [] [3] [], buf_of [] [4] []], bl_size = 3\<rparr>) \<and>
      length (hd (buffer_list_stream bl')) \<le> 5)"
  by (rule aggregation_keeps_stream)
    (simp_all add: buffer_list_ok_def buf_live_def buf_fits_def BUF_SIZE_MAX_def)

end
