(* ===== verification/Ovpn_Ring.thy ===== *)
theory Ovpn_Ring
  imports Ovpn_Prelude
begin

text \<open>
  Ring buffers over a fixed array, shared by the client packet queue (\<open>mbuf.c\<close>, which grows at
  the back) and the replay window (\<open>circ_list.h\<close>, which grows at the front): \<open>ring h n c xs\<close> is
  the sequence of the \<open>n\<close> entries that start at index \<open>h\<close> of an array of \<open>c\<close> slots.
\<close>

definition ring :: "nat \<Rightarrow> nat \<Rightarrow> nat \<Rightarrow> 'a list \<Rightarrow> 'a list" where
  "ring h n c xs = map (\<lambda>i. xs ! ((h + i) mod c)) [0..<n]"

lemma length_ring [simp]: "length (ring h n c xs) = n"
  by (simp add: ring_def)

lemma ring_0 [simp]: "ring h 0 c xs = []"
  by (simp add: ring_def)

lemma nth_ring [simp]: "i < n \<Longrightarrow> ring h n c xs ! i = xs ! ((h + i) mod c)"
  by (simp add: ring_def)

lemma mod_shift_le: "i \<le> j \<Longrightarrow> j < c \<Longrightarrow> (h + i) mod c = (h + j) mod c \<Longrightarrow> i = j"
  for h i j c :: nat
  using mod_eq_dvd_iff_nat[of "h + i" "h + j" c] by (auto dest: dvd_imp_le)

lemma mod_shift_inj: "i < c \<Longrightarrow> j < c \<Longrightarrow> (h + i) mod c = (h + j) mod c \<Longrightarrow> i = j"
  for h i j c :: nat
  using mod_shift_le[of i j c h] mod_shift_le[of j i c h] by (cases "i \<le> j") auto

lemma ring_update:
  assumes "i < n" "n \<le> c" "length xs = c"
  shows "ring h n c (xs[(h + i) mod c := x]) = (ring h n c xs)[i := x]"
proof (rule nth_equalityI)
  fix j assume "j < length (ring h n c (xs[(h + i) mod c := x]))"
  then have j: "j < n" by simp
  have "(h + j) mod c < length xs" using assms by simp
  then show "ring h n c (xs[(h + i) mod c := x]) ! j = (ring h n c xs)[i := x] ! j"
    using j assms mod_shift_inj[of i c j h] by (auto simp: nth_list_update)
qed simp

lemma ring_update_other:
  assumes "n \<le> i" "i < c" "length xs = c"
  shows "ring h n c (xs[(h + i) mod c := x]) = ring h n c xs"
proof (rule nth_equalityI)
  fix j assume "j < length (ring h n c (xs[(h + i) mod c := x]))"
  then have j: "j < n" by simp
  then show "ring h n c (xs[(h + i) mod c := x]) ! j = ring h n c xs ! j"
    using assms mod_shift_inj[of i c j h] by (auto simp: nth_list_update)
qed simp

lemma ring_Suc: "ring h (Suc n) c xs = ring h n c xs @ [xs ! ((h + n) mod c)]"
  by (simp add: ring_def)

lemma ring_push_back:
  assumes "n < c" "length xs = c"
  shows "ring h (Suc n) c (xs[(h + n) mod c := x]) = ring h n c xs @ [x]"
  using assms by (simp add: ring_Suc ring_update_other)

lemma ring_pop_front: "0 < c \<Longrightarrow> ring h (Suc n) c xs = xs ! (h mod c) # ring ((h + 1) mod c) n c xs"
  unfolding ring_def by (simp add: upt_conv_Cons map_Suc_upt[symmetric] mod_simps del: upt_Suc)

lemma ring_push_front:
  assumes "n \<le> c" "0 < c" "length xs = c" "h < c"
    and h': "h' = (h + c - 1) mod c"
  shows "ring h' (min (n + 1) c) c (xs[h' := x]) = x # take (c - 1) (ring h n c xs)"
proof (rule nth_equalityI)
  show "length (ring h' (min (n + 1) c) c (xs[h' := x])) = length (x # take (c - 1) (ring h n c xs))"
    using assms by auto
  fix j assume "j < length (ring h' (min (n + 1) c) c (xs[h' := x]))"
  then have j: "j \<le> n" "j < c" by auto
  have h'c: "h' < c" using assms by simp
  show "ring h' (min (n + 1) c) c (xs[h' := x]) ! j = (x # take (c - 1) (ring h n c xs)) ! j"
  proof (cases j)
    case 0
    then show ?thesis using assms h'c by simp
  next
    case (Suc k)
    have "(h' + Suc k) mod c = (h + c + k) mod c"
      unfolding h' using assms(2) mod_add_left_eq[of "h + c - 1" c "Suc k"] by simp
    then have idx: "(h' + Suc k) mod c = (h + k) mod c"
      by (metis add.commute add.left_commute mod_add_self1)
    have "(h' + Suc k) mod c \<noteq> (h' + 0) mod c"
      using mod_shift_inj[of "Suc k" c 0 h'] j Suc assms by auto
    then have "(h + k) mod c \<noteq> h'" using idx h'c by simp
    then show ?thesis using Suc j assms idx by simp
  qed
qed

end
