(* ===== verification/Ovpn_Mbuf.thy ===== *)
theory Ovpn_Mbuf
  imports Ovpn_Buffer Ovpn_Ring Ovpn_Fifo "HOL-Library.Multiset"
begin

text \<open>
  The queue of packets waiting for client instances (\<open>mbuf.c\<close>, \<open>mbuf.h\<close>).

  One packet buffer may be queued for many clients, so its storage is an object on an explicit
  heap (\<open>mbuf_heap\<close>, from addresses to objects) with a reference count.  The queue \<open>mbuf_set\<close>
  is a power-of-two ring of items, each an address and a client; a client that goes away is
  taken out of the items by nulling them.  \<open>struct multi_instance\<close> is opaque to this code: an
  instance is its address, a \<open>nat\<close>.  Slots of the array that were never written hold \<open>None\<close>.
\<close>

unbundle bit_operations_syntax

section \<open>State\<close>

type_synonym mbuf_addr = nat
type_synonym multi_instance = nat

record mbuf_buffer =
  mb_buf :: buffer
  mb_refcount :: int
  mb_flags :: u32

record mbuf_item =
  mi_buffer :: "mbuf_addr option"
  mi_instance :: "multi_instance option"

record mbuf_set =
  ms_head :: u32
  ms_len :: u32
  ms_capacity :: u32
  ms_max_queued :: u32
  ms_array :: "mbuf_item option list"

type_synonym mbuf_heap = "mbuf_addr \<Rightarrow> mbuf_buffer option"

definition ALLOC_SIZE_MAX :: nat where "ALLOC_SIZE_MAX = 2 ^ 32"
definition MBUF_ITEM_SIZE :: nat where "MBUF_ITEM_SIZE = 16"
definition MBUF_SIZE_MAX :: nat where "MBUF_SIZE_MAX = ALLOC_SIZE_MAX div MBUF_ITEM_SIZE"

text \<open>\<open>array_mult_safe\<close> of \<open>buffer.c\<close>: the size of an array allocation on \<open>size_t\<close>.\<close>

definition array_mult_safe :: "u64 \<Rightarrow> u64 \<Rightarrow> u64 \<Rightarrow> u64 option" where
  "array_mult_safe m1 m2 extra =
     (let limit = of_nat ALLOC_SIZE_MAX; res = m1 * m2 + extra
      in if m1 > limit \<or> m2 > limit \<or> extra > limit \<or> res > limit then None else Some res)"

definition MBUF_INDEX :: "u32 \<Rightarrow> u32 \<Rightarrow> u32 \<Rightarrow> u32" where
  "MBUF_INDEX h offset sz = (h + offset) AND (sz - 1)"

section \<open>Operations\<close>

definition mbuf_init :: "u32 \<Rightarrow> mbuf_set option" where
  "mbuf_init sz = do {
     cassert (unat sz \<le> MBUF_SIZE_MAX);
     c \<leftarrow> adjust_power_of_2 (ucast sz);
     let cap = (ucast c :: u32);
     _ \<leftarrow> array_mult_safe (of_nat MBUF_ITEM_SIZE) (ucast cap) 0;
     Some \<lparr>ms_head = 0, ms_len = 0, ms_capacity = cap, ms_max_queued = 0,
           ms_array = replicate (unat cap) None\<rparr> }"

definition mbuf_alloc_buf ::
  "(nat \<Rightarrow> byte) \<Rightarrow> mbuf_heap \<Rightarrow> mbuf_addr \<Rightarrow> buffer \<Rightarrow> mbuf_heap option" where
  "mbuf_alloc_buf junk h a b = do {
     cassert (h a = None);
     c \<leftarrow> clone_buf junk b;
     Some (h(a \<mapsto> \<lparr>mb_buf = c, mb_refcount = 1, mb_flags = 0\<rparr>)) }"

definition mbuf_free_buf :: "mbuf_heap \<Rightarrow> mbuf_addr option \<Rightarrow> mbuf_heap option" where
  "mbuf_free_buf h mb =
     (case mb of
        None \<Rightarrow> Some h
      | Some a \<Rightarrow> do {
          m \<leftarrow> h a;
          let m = m\<lparr>mb_refcount := mb_refcount m - 1\<rparr>;
          Some (if mb_refcount m \<le> 0 then h(a := None) else h(a \<mapsto> m)) })"

text \<open>Access to the slot at \<open>MBUF_INDEX(head, i, capacity)\<close>.\<close>

definition ms_slot :: "mbuf_set \<Rightarrow> u32 \<Rightarrow> nat" where
  "ms_slot ms i = unat (MBUF_INDEX (ms_head ms) i (ms_capacity ms))"

definition ms_load :: "mbuf_set \<Rightarrow> nat \<Rightarrow> mbuf_item option" where
  "ms_load ms k = (if k < length (ms_array ms) then ms_array ms ! k else None)"

definition ms_store :: "mbuf_set \<Rightarrow> nat \<Rightarrow> mbuf_item \<Rightarrow> mbuf_set option" where
  "ms_store ms k it =
     (if k < length (ms_array ms) then Some (ms\<lparr>ms_array := (ms_array ms)[k := Some it]\<rparr>) else None)"

fun mbuf_free_loop :: "mbuf_heap \<Rightarrow> mbuf_set \<Rightarrow> nat list \<Rightarrow> mbuf_heap option" where
  "mbuf_free_loop h ms [] = Some h"
| "mbuf_free_loop h ms (i # is) = do {
     it \<leftarrow> ms_load ms (ms_slot ms (of_nat i));
     h' \<leftarrow> mbuf_free_buf h (mi_buffer it);
     mbuf_free_loop h' ms is }"

definition mbuf_free :: "mbuf_heap \<Rightarrow> mbuf_set option \<Rightarrow> mbuf_heap option" where
  "mbuf_free h ms =
     (case ms of None \<Rightarrow> Some h | Some m \<Rightarrow> mbuf_free_loop h m [0..<unat (ms_len m)])"

text \<open>
  \<open>mbuf_extract_item\<close>: the loop skips the items whose client is gone.  The result is the queue
  and the item, \<open>None\<close> for a false return.
\<close>

function (sequential) mbuf_extract_loop :: "mbuf_set \<Rightarrow> (mbuf_set \<times> mbuf_item option) option" where
  "mbuf_extract_loop ms =
     (if ms_len ms = 0 then Some (ms, None)
      else (case ms_load ms (unat (ms_head ms)) of
              None \<Rightarrow> None
            | Some it \<Rightarrow>
                (let ms' = ms\<lparr>ms_head := MBUF_INDEX (ms_head ms) 1 (ms_capacity ms),
                              ms_len := ms_len ms - 1\<rparr>
                 in if mi_instance it \<noteq> None then Some (ms', Some it) else mbuf_extract_loop ms')))"
  by pat_completeness auto
termination
  by (relation "measure (\<lambda>ms. unat (ms_len ms))") (auto simp: unat_minus_one unat_gt_0)

declare mbuf_extract_loop.simps [simp del]

definition mbuf_extract_item :: "mbuf_set option \<Rightarrow> (mbuf_set option \<times> mbuf_item option) option" where
  "mbuf_extract_item ms =
     (case ms of None \<Rightarrow> Some (None, None)
      | Some m \<Rightarrow> map_option (\<lambda>(m', it). (Some m', it)) (mbuf_extract_loop m))"

definition mbuf_add_item :: "mbuf_heap \<Rightarrow> mbuf_set \<Rightarrow> mbuf_item \<Rightarrow> (mbuf_heap \<times> mbuf_set) option" where
  "mbuf_add_item h ms it = do {
     (h, ms) \<leftarrow>
       (if ms_len ms = ms_capacity ms
        then do {
          (ms', rm) \<leftarrow> mbuf_extract_loop ms;
          rm \<leftarrow> rm;
          h' \<leftarrow> mbuf_free_buf h (mi_buffer rm);
          Some (h', ms') }
        else Some (h, ms));
     cassert (ms_len ms < ms_capacity ms);
     ms \<leftarrow> ms_store ms (ms_slot ms (ms_len ms)) it;
     let ms = ms\<lparr>ms_len := ms_len ms + 1\<rparr>;
     let ms = (if ms_len ms > ms_max_queued ms then ms\<lparr>ms_max_queued := ms_len ms\<rparr> else ms);
     a \<leftarrow> mi_buffer it;
     m \<leftarrow> h a;
     Some (h(a \<mapsto> m\<lparr>mb_refcount := mb_refcount m + 1\<rparr>), ms) }"

fun mbuf_peek_loop :: "mbuf_set \<Rightarrow> nat list \<Rightarrow> multi_instance option option" where
  "mbuf_peek_loop ms [] = Some None"
| "mbuf_peek_loop ms (i # is) = do {
     it \<leftarrow> ms_load ms (ms_slot ms (of_nat i));
     if mi_instance it \<noteq> None then Some (mi_instance it) else mbuf_peek_loop ms is }"

definition mbuf_peek_dowork :: "mbuf_set option \<Rightarrow> multi_instance option option" where
  "mbuf_peek_dowork ms =
     (case ms of None \<Rightarrow> Some None | Some m \<Rightarrow> mbuf_peek_loop m [0..<unat (ms_len m)])"

fun mbuf_dereference_loop ::
  "mbuf_heap \<Rightarrow> mbuf_set \<Rightarrow> multi_instance option \<Rightarrow> nat list \<Rightarrow> (mbuf_heap \<times> mbuf_set) option" where
  "mbuf_dereference_loop h ms mi [] = Some (h, ms)"
| "mbuf_dereference_loop h ms mi (i # is) = do {
     it \<leftarrow> ms_load ms (ms_slot ms (of_nat i));
     if mi_instance it = mi
     then do {
       h' \<leftarrow> mbuf_free_buf h (mi_buffer it);
       ms' \<leftarrow> ms_store ms (ms_slot ms (of_nat i)) (it\<lparr>mi_buffer := None, mi_instance := None\<rparr>);
       mbuf_dereference_loop h' ms' mi is }
     else mbuf_dereference_loop h ms mi is }"

definition mbuf_dereference_instance ::
  "mbuf_heap \<Rightarrow> mbuf_set option \<Rightarrow> multi_instance option \<Rightarrow> (mbuf_heap \<times> mbuf_set option) option" where
  "mbuf_dereference_instance h ms mi =
     (case ms of None \<Rightarrow> Some (h, None)
      | Some m \<Rightarrow> map_option (\<lambda>(h', m'). (h', Some m')) (mbuf_dereference_loop h m mi [0..<unat (ms_len m)]))"

definition mbuf_defined :: "mbuf_set option \<Rightarrow> bool" where
  "mbuf_defined ms = (case ms of None \<Rightarrow> False | Some m \<Rightarrow> ms_len m \<noteq> 0)"

definition mbuf_len :: "mbuf_set \<Rightarrow> u32" where
  "mbuf_len ms = ms_len ms"

definition mbuf_maximum_queued :: "mbuf_set \<Rightarrow> int" where
  "mbuf_maximum_queued ms = sint (ms_max_queued ms)"

definition mbuf_peek :: "mbuf_set option \<Rightarrow> multi_instance option option" where
  "mbuf_peek ms = (if mbuf_defined ms then mbuf_peek_dowork ms else Some None)"

section \<open>Shape of a queue\<close>

definition ms_shape :: "mbuf_set \<Rightarrow> bool" where
  "ms_shape ms \<longleftrightarrow> (\<exists>k \<le> 28. unat (ms_capacity ms) = 2 ^ k) \<and>
     length (ms_array ms) = unat (ms_capacity ms) \<and> unat (ms_head ms) < unat (ms_capacity ms) \<and>
     unat (ms_len ms) \<le> unat (ms_capacity ms) \<and> ms_len ms \<le> ms_max_queued ms"

definition ms_queue :: "mbuf_set \<Rightarrow> mbuf_item option list" where
  "ms_queue ms = ring (unat (ms_head ms)) (unat (ms_len ms)) (unat (ms_capacity ms)) (ms_array ms)"

text \<open>\<open>ms_repr ms its\<close>: the queue is well formed and holds the items \<open>its\<close>.\<close>

definition ms_repr :: "mbuf_set \<Rightarrow> mbuf_item list \<Rightarrow> bool" where
  "ms_repr ms its \<longleftrightarrow> ms_shape ms \<and> ms_queue ms = map Some its"

lemma unat_MBUF_INDEX:
  assumes "unat s = 2 ^ k" "k \<le> 28"
  shows "unat (MBUF_INDEX h i s) = (unat h + unat i) mod unat s"
proof -
  have "unat (word_of_nat (2 ^ k) :: u32) = 2 ^ k"
    using assms(2) power_increasing[of k 28 "2::nat"] by (simp only: unat_of_nat) simp
  then have "s = 2 ^ k" using assms(1) by (intro word_unat_eq_iff[THEN iffD2]) simp
  then have "MBUF_INDEX h i s = take_bit k (h + i)"
    by (simp add: MBUF_INDEX_def take_bit_eq_mask mask_eq_exp_minus_1)
  then have "unat (MBUF_INDEX h i s) = take_bit k (unat (h + i))"
    by (simp only: unsigned_take_bit_eq)
  then have "unat (MBUF_INDEX h i s) = unat (h + i) mod 2 ^ k"
    by (simp only: take_bit_eq_mod)
  also have "unat (h + i) mod 2 ^ k = (unat h + unat i) mod 2 ^ k"
    using assms(2) mod_mod_cancel[of "2 ^ k" "2 ^ 32 :: nat" "unat h + unat i"]
      le_imp_power_dvd[of k 32 "2 :: nat"] by (simp add: unat_word_ariths)
  finally show ?thesis using assms(1) by simp
qed

lemma ms_slot_ring: "ms_shape ms \<Longrightarrow>
    ms_slot ms i = (unat (ms_head ms) + unat i) mod unat (ms_capacity ms)"
  by (auto simp: ms_shape_def ms_slot_def unat_MBUF_INDEX)

lemma ms_slot_bound: "ms_shape ms \<Longrightarrow> ms_slot ms i < length (ms_array ms)"
  by (auto simp: ms_slot_ring) (auto simp: ms_shape_def)

lemma ms_shape_cap: "ms_shape ms \<Longrightarrow> 0 < unat (ms_capacity ms) \<and> unat (ms_capacity ms) \<le> 2 ^ 28"
  unfolding ms_shape_def using power_increasing[of _ 28 "2::nat"] by fastforce

lemma ms_repr_len: "ms_repr ms its \<Longrightarrow> unat (ms_len ms) = length its"
  by (metis length_map length_ring ms_queue_def ms_repr_def)

lemma ms_repr_cap: "ms_repr ms its \<Longrightarrow> length its \<le> unat (ms_capacity ms)"
  by (metis ms_repr_def ms_repr_len ms_shape_def)

lemma ms_load_repr:
  assumes "ms_repr ms its" "i < length its"
  shows "ms_load ms (ms_slot ms (of_nat i)) = Some (its ! i)"
proof -
  have sh: "ms_shape ms" using assms(1) by (simp add: ms_repr_def)
  have i: "unat (of_nat i :: u32) = i"
    using assms ms_repr_cap[OF assms(1)] ms_shape_cap[OF sh] by (simp add: unat_of_nat)
  have "ms_queue ms ! i = Some (its ! i)" using assms by (simp add: ms_repr_def)
  then have "ms_array ms ! ((unat (ms_head ms) + i) mod unat (ms_capacity ms)) = Some (its ! i)"
    using assms ms_repr_len[OF assms(1)] by (simp add: ms_queue_def)
  then show ?thesis using ms_slot_bound[OF sh, of "of_nat i"] sh i
    by (simp add: ms_load_def ms_slot_ring)
qed

lemma ms_store_repr:
  assumes "ms_repr ms its" "i < length its"
  shows "\<exists>ms'. ms_store ms (ms_slot ms (of_nat i)) x = Some ms' \<and> ms_repr ms' (its[i := x]) \<and>
     ms_len ms' = ms_len ms"
proof -
  have sh: "ms_shape ms" using assms(1) by (simp add: ms_repr_def)
  have i: "unat (of_nat i :: u32) = i"
    using assms ms_repr_cap[OF assms(1)] ms_shape_cap[OF sh] by (simp add: unat_of_nat)
  let ?ms = "ms\<lparr>ms_array := (ms_array ms)[ms_slot ms (of_nat i) := Some x]\<rparr>"
  have "ms_queue ?ms = (ms_queue ms)[i := Some x]"
    using assms ms_repr_len[OF assms(1)] sh i
    by (simp add: ms_queue_def ms_slot_ring ring_update) (simp add: ms_shape_def ring_update)
  then have "ms_repr ?ms (its[i := x])"
    using assms sh by (simp add: ms_repr_def map_update) (simp add: ms_shape_def)
  then show ?thesis using ms_slot_bound[OF sh] by (simp add: ms_store_def)
qed

lemma unat_ucast_u32_u64: "unat (ucast (x :: u32) :: u64) = unat x"
  by (simp add: unsigned_ucast_eq take_bit_nat_eq_self order_less_trans[OF unat_less_2p])

lemma mbuf_init_repr:
  assumes "unat sz \<le> MBUF_SIZE_MAX"
  shows "\<exists>ms. mbuf_init sz = Some ms \<and> ms_repr ms [] \<and> unat sz \<le> unat (ms_capacity ms)"
proof -
  have m: "MBUF_SIZE_MAX = 2 ^ 28"
    by (simp add: MBUF_SIZE_MAX_def ALLOC_SIZE_MAX_def MBUF_ITEM_SIZE_def)
  let ?u = "ucast sz :: u64"
  have u: "unat ?u = unat sz" by (simp add: unat_ucast_u32_u64)
  have "unat ?u \<le> 2 ^ 63" using assms m u by simp
  then obtain n where n: "n \<le> 63" "adjust_power_of_2 ?u = Some (2 ^ n)" "unat sz \<le> 2 ^ n"
    "\<forall>j<n. 2 ^ j < unat sz"
    using adjust_power_of_2_least[of ?u] u by metis
  have n28: "n \<le> 28" using n(4) assms m by (metis leD linorder_not_le)
  have p: "(2::nat) ^ n \<le> 2 ^ 28" using n28 by (intro power_increasing) auto
  have c: "unat (ucast (2 ^ n :: u64) :: u32) = 2 ^ n"
    using p unat_2p_u64[OF n(1)] by (simp add: unsigned_ucast_eq take_bit_eq_mod)
  have c64: "unat (ucast (ucast (2 ^ n :: u64) :: u32) :: u64) = 2 ^ n"
    using c by (simp add: unat_ucast_u32_u64)
  have "unat (16 * ucast (ucast (2 ^ n :: u64) :: u32) :: u64) = 16 * 2 ^ n"
    using p c64 by (simp add: unat_word_ariths)
  then have "array_mult_safe (of_nat MBUF_ITEM_SIZE) (ucast (ucast (2 ^ n :: u64) :: u32)) 0 \<noteq> None"
    using p c64
    by (simp add: array_mult_safe_def Let_def ALLOC_SIZE_MAX_def MBUF_ITEM_SIZE_def word_less_nat_alt)
  then show ?thesis
    using assms n(2,3) c n28
    by (auto simp: mbuf_init_def Let_def ms_repr_def ms_shape_def ms_queue_def)
qed

section \<open>Extraction\<close>

lemma ms_pop:
  assumes "ms_repr ms (it # its)"
  defines "ms' \<equiv> ms\<lparr>ms_head := MBUF_INDEX (ms_head ms) 1 (ms_capacity ms), ms_len := ms_len ms - 1\<rparr>"
  shows "ms_len ms \<noteq> 0" "ms_load ms (unat (ms_head ms)) = Some it" "ms_repr ms' its"
proof -
  have sh: "ms_shape ms" using assms(1) by (simp add: ms_repr_def)
  have len: "unat (ms_len ms) = Suc (length its)" using ms_repr_len[OF assms(1)] by simp
  show nz: "ms_len ms \<noteq> 0" using len by auto
  then have len': "unat (ms_len ms - 1) = length its" using len by (simp add: unat_minus_one)
  obtain k where k: "k \<le> 28" "unat (ms_capacity ms) = 2 ^ k" using sh by (auto simp: ms_shape_def)
  have hd': "unat (MBUF_INDEX (ms_head ms) 1 (ms_capacity ms)) = (unat (ms_head ms) + 1) mod unat (ms_capacity ms)"
    using unat_MBUF_INDEX[OF k(2,1), of "ms_head ms" 1] by simp
  have hlt: "unat (ms_head ms) < unat (ms_capacity ms)" using sh by (simp add: ms_shape_def)
  have q: "Some it # map Some its = ms_array ms ! unat (ms_head ms) #
      ring ((unat (ms_head ms) + 1) mod unat (ms_capacity ms)) (length its) (unat (ms_capacity ms)) (ms_array ms)"
    using assms(1) hlt ring_pop_front[of "unat (ms_capacity ms)" "unat (ms_head ms)" "length its" "ms_array ms"]
    by (simp add: ms_repr_def ms_queue_def len)
  then show "ms_load ms (unat (ms_head ms)) = Some it"
    using sh by (auto simp: ms_load_def ms_shape_def)
  have "ms_queue ms' = map Some its"
    using q hd' len' by (simp add: ms'_def ms_queue_def)
  moreover have "ms_shape ms'"
  proof -
    have "ms_len ms - 1 \<le> ms_len ms" using len len' by (simp add: word_le_nat_alt)
    then show ?thesis using sh hd' len len' ms_shape_cap[OF sh]
      by (auto simp: ms_shape_def ms'_def)
  qed
  ultimately show "ms_repr ms' its" by (simp add: ms_repr_def)
qed

lemma mbuf_extract_loop_repr:
  "ms_repr ms its \<Longrightarrow> ms_capacity ms = c \<Longrightarrow>
    (case dropWhile (\<lambda>it. mi_instance it = None) its of
       [] \<Rightarrow> \<exists>ms'. mbuf_extract_loop ms = Some (ms', None) \<and> ms_repr ms' [] \<and> ms_capacity ms' = c
     | it # its' \<Rightarrow> \<exists>ms'. mbuf_extract_loop ms = Some (ms', Some it) \<and> ms_repr ms' its' \<and>
         ms_capacity ms' = c)"
proof (induction its arbitrary: ms)
  case Nil
  then show ?case using ms_repr_len[OF Nil(1)] unat_gt_0[of "ms_len ms"]
    by (subst mbuf_extract_loop.simps) simp
next
  case (Cons it its)
  let ?ms = "ms\<lparr>ms_head := MBUF_INDEX (ms_head ms) 1 (ms_capacity ms), ms_len := ms_len ms - 1\<rparr>"
  note p = ms_pop[OF Cons.prems(1)]
  show ?case
  proof (cases "mi_instance it")
    case None
    then have e: "mbuf_extract_loop ms = mbuf_extract_loop ?ms"
      using p by (subst mbuf_extract_loop.simps) (simp add: Let_def)
    have d: "dropWhile (\<lambda>it. mi_instance it = None) (it # its) =
        dropWhile (\<lambda>it. mi_instance it = None) its"
      using None by simp
    have "ms_capacity ?ms = c" using Cons.prems(2) by simp
    then show ?thesis unfolding e d by (rule Cons.IH[OF p(3)])
  next
    case (Some i)
    then have "mbuf_extract_loop ms = Some (?ms, Some it)"
      using p by (subst mbuf_extract_loop.simps) (simp add: Let_def)
    then show ?thesis using p(3) Some Cons.prems(2) by simp
  qed
qed

section \<open>Reference counts\<close>

text \<open>
  \<open>mbuf_refs_ok h its ext\<close>: an object is on the heap exactly when it is referenced, its count is
  the number of its queue entries plus the references \<open>ext a\<close> the callers hold, and a nulled
  entry is nulled in both fields.
\<close>

definition queue_refs :: "mbuf_item list \<Rightarrow> mbuf_addr \<Rightarrow> nat" where
  "queue_refs its a = count_list (map mi_buffer its) (Some a)"

definition count_ok :: "mbuf_buffer option \<Rightarrow> nat \<Rightarrow> bool" where
  "count_ok mo n =
     (case mo of None \<Rightarrow> n = 0 | Some m \<Rightarrow> 0 < n \<and> mb_refcount m = int n)"

definition mbuf_refs_ok :: "mbuf_heap \<Rightarrow> mbuf_item list \<Rightarrow> (mbuf_addr \<Rightarrow> nat) \<Rightarrow> bool" where
  "mbuf_refs_ok h its ext \<longleftrightarrow>
     (\<forall>a. count_ok (h a) (queue_refs its a + ext a)) \<and>
     (\<forall>it \<in> set its. mi_instance it = None \<longleftrightarrow> mi_buffer it = None)"

lemma count_ok_simps [simp]:
  "count_ok None n \<longleftrightarrow> n = 0"
  "count_ok (Some m) n \<longleftrightarrow> 0 < n \<and> mb_refcount m = int n"
  by (simp_all add: count_ok_def)

lemma count_ok_pos: "count_ok mo n \<Longrightarrow> 0 < n \<Longrightarrow> \<exists>m. mo = Some m \<and> mb_refcount m = int n"
  by (cases mo) auto

lemma queue_refs_simps [simp]:
  "queue_refs [] a = 0"
  "queue_refs (it # its) a = (if mi_buffer it = Some a then 1 else 0) + queue_refs its a"
  "queue_refs (xs @ ys) a = queue_refs xs a + queue_refs ys a"
  by (auto simp: queue_refs_def)

lemma mbuf_refs_live:
  "mbuf_refs_ok h its ext \<Longrightarrow> 0 < queue_refs its a + ext a \<Longrightarrow>
     \<exists>m. h a = Some m \<and> mb_refcount m = int (queue_refs its a + ext a)"
  by (intro count_ok_pos) (simp_all add: mbuf_refs_ok_def)

text \<open>Giving up one reference; the object goes with its last one.\<close>

lemma mbuf_refs_ok_upd:
  assumes "mbuf_refs_ok h its ext" "count_ok mo (queue_refs its a + n)"
  shows "mbuf_refs_ok (h(a := mo)) its (ext(a := n))"
  using assms by (simp add: mbuf_refs_ok_def del: count_ok_simps)

lemma mbuf_free_buf_refs:
  assumes ok: "mbuf_refs_ok h its ext" and pos: "0 < ext a"
  shows "\<exists>h'. mbuf_free_buf h (Some a) = Some h' \<and> mbuf_refs_ok h' its (ext(a := ext a - 1)) \<and>
     (h' a = None \<longleftrightarrow> queue_refs its a = 0 \<and> ext a = 1)"
proof -
  define n where "n = queue_refs its a + ext a"
  obtain m where m: "h a = Some m" "mb_refcount m = int n"
    using mbuf_refs_live[OF ok, of a] pos by (auto simp: n_def)
  have n: "queue_refs its a + (ext a - 1) = n - 1" "0 < n" using pos by (simp_all add: n_def)
  show ?thesis
  proof (cases "n = 1")
    case True
    then have "mbuf_free_buf h (Some a) = Some (h(a := None))"
      using m by (simp add: mbuf_free_buf_def Let_def)
    moreover have "mbuf_refs_ok (h(a := None)) its (ext(a := ext a - 1))"
      using mbuf_refs_ok_upd[OF ok, of None a "ext a - 1"] n True by simp
    moreover have "queue_refs its a = 0 \<and> ext a = 1" using True pos by (simp add: n_def)
    ultimately show ?thesis by simp
  next
    case False
    let ?m = "m\<lparr>mb_refcount := mb_refcount m - 1\<rparr>"
    have "mbuf_free_buf h (Some a) = Some (h(a \<mapsto> ?m))"
      using m n(2) False by (simp add: mbuf_free_buf_def Let_def)
    moreover have "count_ok (Some ?m) (queue_refs its a + (ext a - 1))"
      unfolding n(1) using n(2) False m by (simp add: of_nat_diff)
    from mbuf_refs_ok_upd[OF ok this] have "mbuf_refs_ok (h(a \<mapsto> ?m)) its (ext(a := ext a - 1))" .
    moreover have "\<not> (queue_refs its a = 0 \<and> ext a = 1)" using False by (auto simp: n_def)
    ultimately show ?thesis by simp
  qed
qed

text \<open>Taking an entry out of the queue hands its reference to the caller.\<close>

lemma mbuf_refs_split:
  assumes "mbuf_refs_ok h (it # its) ext" "mi_buffer it = Some a"
  shows "mbuf_refs_ok h its (ext(a := ext a + 1))"
proof -
  have "queue_refs its x + (ext(a := ext a + 1)) x = queue_refs (it # its) x + ext x" for x
    using assms(2) by simp
  then have "\<forall>x. count_ok (h x) (queue_refs its x + (ext(a := ext a + 1)) x)"
    using assms(1) unfolding mbuf_refs_ok_def by (simp only:) blast
  then show ?thesis using assms(1) unfolding mbuf_refs_ok_def by (simp only: list.set) blast
qed

lemma mbuf_refs_null:
  "mbuf_refs_ok h (it # its) ext \<Longrightarrow> mi_buffer it = None \<Longrightarrow> mbuf_refs_ok h its ext"
  by (simp add: mbuf_refs_ok_def)

lemma mbuf_refs_dropWhile:
  "mbuf_refs_ok h its ext \<Longrightarrow> mbuf_refs_ok h (dropWhile (\<lambda>it. mi_instance it = None) its) ext"
proof (induction its)
  case Nil
  then show ?case by simp
next
  case (Cons it its)
  show ?case
  proof (cases "mi_instance it")
    case None
    then have "mi_buffer it = None" using Cons.prems by (simp add: mbuf_refs_ok_def)
    then show ?thesis using Cons.IH mbuf_refs_null[OF Cons.prems] None by simp
  next
    case (Some i)
    then show ?thesis using Cons.prems by simp
  qed
qed

lemma mbuf_alloc_buf_refs:
  assumes ok: "mbuf_refs_ok h its ext" and fresh: "h a = None" and b: "buf_live b"
  shows "\<exists>h' m. mbuf_alloc_buf junk h a b = Some h' \<and> h' a = Some m \<and> buf_content (mb_buf m) = buf_content b \<and>
    mbuf_refs_ok h' its (ext(a := 1))"
proof -
  obtain p c q where "b = buf_of p c q" "buf_fits p c q" using b by (auto simp: buf_live_repr)
  then obtain c' where c': "clone_buf junk b = Some c'" "buf_content c' = buf_content b"
    using clone_buf_of[of p c q junk] by auto
  have "queue_refs its a = 0" "ext a = 0"
    using ok fresh unfolding mbuf_refs_ok_def by (metis add_is_0 count_ok_simps(1))+
  then have "mbuf_refs_ok (h(a \<mapsto> \<lparr>mb_buf = c', mb_refcount = 1, mb_flags = 0\<rparr>)) its (ext(a := 1))"
    using ok by (auto simp: mbuf_refs_ok_def)
  then show ?thesis using c' fresh by (auto simp: mbuf_alloc_buf_def)
qed

text \<open>Enqueueing while there is room.\<close>

lemma mbuf_store_back:
  fixes it :: mbuf_item
  assumes "ms_repr ms its" "length its < unat (ms_capacity ms)"
  defines "ms1 \<equiv> ms\<lparr>ms_array := (ms_array ms)[ms_slot ms (ms_len ms) := Some it]\<rparr>"
  defines "ms2 \<equiv> ms1\<lparr>ms_len := ms_len ms + 1\<rparr>"
  defines "ms3 \<equiv> (if ms_len ms2 > ms_max_queued ms2 then ms2\<lparr>ms_max_queued := ms_len ms2\<rparr> else ms2)"
  shows "ms_store ms (ms_slot ms (ms_len ms)) it = Some ms1" "ms_repr ms3 (its @ [it])"
proof -
  have sh: "ms_shape ms" using assms(1) by (simp add: ms_repr_def)
  have len: "unat (ms_len ms) = length its" using ms_repr_len[OF assms(1)] .
  have len': "unat (ms_len ms + 1) = Suc (length its)"
    using len assms(2) ms_shape_cap[OF sh] by (simp add: unat_word_ariths)
  have al: "length (ms_array ms) = unat (ms_capacity ms)" using sh by (simp add: ms_shape_def)
  show "ms_store ms (ms_slot ms (ms_len ms)) it = Some ms1"
    using ms_slot_bound[OF sh] by (simp add: ms_store_def ms1_def)
  have "ring (unat (ms_head ms)) (Suc (length its)) (unat (ms_capacity ms)) (ms_array ms1) = map Some its @ [Some it]"
    using ring_push_back[OF assms(2) al, of "unat (ms_head ms)" "Some it"] assms(1)
    by (simp add: ms1_def ms_slot_ring[OF sh] len ms_repr_def ms_queue_def)
  then have "ms_queue ms3 = map Some (its @ [it])"
    using len' by (simp add: ms3_def ms2_def ms_queue_def ms1_def)
  moreover have "ms_shape ms3"
    using sh len' assms(2) by (auto simp: ms_shape_def ms3_def ms2_def ms1_def)
  ultimately show "ms_repr ms3 (its @ [it])" by (simp add: ms_repr_def)
qed

lemma mbuf_refs_push:
  assumes "mbuf_refs_ok h its ext" "mi_buffer it = Some a" "mi_instance it \<noteq> None"
    "h a = Some m" "0 < mb_refcount m"
  shows "mbuf_refs_ok (h(a \<mapsto> m\<lparr>mb_refcount := mb_refcount m + 1\<rparr>)) (its @ [it]) ext"
proof -
  have "count_ok (Some m) (queue_refs its a + ext a)"
    using assms(1,4) unfolding mbuf_refs_ok_def by metis
  then have "count_ok (Some (m\<lparr>mb_refcount := mb_refcount m + 1\<rparr>)) (queue_refs (its @ [it]) a + ext a)"
    using assms(2) by simp
  moreover have "queue_refs (its @ [it]) x = queue_refs its x" if "x \<noteq> a" for x
    using that assms(2) by simp
  ultimately show ?thesis
    using assms(1,2,3) by (simp add: mbuf_refs_ok_def del: count_ok_simps queue_refs_simps)
qed

text \<open>The part of \<open>mbuf_add_item\<close> after the queue has room.\<close>

lemma mbuf_add_item_room:
  assumes rep: "ms_repr ms its" and room: "length its < unat (ms_capacity ms)"
    and it: "mi_buffer it = Some a" "h a = Some m"
  shows "\<exists>ms'. mbuf_add_item h ms it = Some (h(a \<mapsto> m\<lparr>mb_refcount := mb_refcount m + 1\<rparr>), ms') \<and>
     ms_repr ms' (its @ [it]) \<and> ms_capacity ms' = ms_capacity ms"
proof -
  have lt: "ms_len ms < ms_capacity ms"
    using room ms_repr_len[OF rep] by (simp add: word_less_nat_alt)
  note st = mbuf_store_back[OF rep room, of it]
  show ?thesis
    using lt st it by (auto simp: mbuf_add_item_def Let_def)
qed

text \<open>A full queue with a live item drops its oldest live item (and the dead ones before it).\<close>

lemma mbuf_add_item_full:
  assumes rep: "ms_repr ms its" and full: "length its = unat (ms_capacity ms)"
    and live: "dropWhile (\<lambda>x. mi_instance x = None) its = rm # rest"
    and free: "mbuf_free_buf h (mi_buffer rm) = Some h'"
    and it: "mi_buffer it = Some a" "h' a = Some m"
  shows "\<exists>ms'. mbuf_add_item h ms it = Some (h'(a \<mapsto> m\<lparr>mb_refcount := mb_refcount m + 1\<rparr>), ms') \<and>
     ms_repr ms' (rest @ [it]) \<and> ms_capacity ms' = ms_capacity ms"
proof -
  have eq: "ms_len ms = ms_capacity ms"
    using full ms_repr_len[OF rep] by (intro word_unat_eq_iff[THEN iffD2]) simp
  obtain ms1 where ms1: "mbuf_extract_loop ms = Some (ms1, Some rm)" "ms_repr ms1 rest"
    "ms_capacity ms1 = ms_capacity ms"
    using mbuf_extract_loop_repr[OF rep refl] live by auto
  have "length rest < length its"
    using length_dropWhile_le[of "\<lambda>x. mi_instance x = None" its] live by simp
  then have room: "length rest < unat (ms_capacity ms1)" using full ms1(3) by simp
  have "ms_len ms1 \<noteq> ms_capacity ms1"
    using room ms_repr_len[OF ms1(2)] by auto
  then have "mbuf_add_item h ms it = mbuf_add_item h' ms1 it"
    unfolding mbuf_add_item_def using eq ms1(1) free by simp
  then show ?thesis using mbuf_add_item_room[OF ms1(2) room, of it a h' m] it ms1(3) by simp
qed

text \<open>A full queue whose clients have all gone: the assertion on the extraction fails.\<close>

lemma mbuf_add_item_dead:
  assumes rep: "ms_repr ms its" and full: "length its = unat (ms_capacity ms)"
    and dead: "\<forall>x \<in> set its. mi_instance x = None"
  shows "mbuf_add_item h ms it = None"
proof -
  have "ms_len ms = ms_capacity ms"
    using full ms_repr_len[OF rep] by (intro word_unat_eq_iff[THEN iffD2]) simp
  moreover have d: "dropWhile (\<lambda>x. mi_instance x = None) its = []" using dead by simp
  then obtain ms1 where "mbuf_extract_loop ms = Some (ms1, None)"
    using mbuf_extract_loop_repr[OF rep refl] unfolding d by auto
  ultimately show ?thesis by (simp add: mbuf_add_item_def)
qed

section \<open>Scanning the queue\<close>

lemma mbuf_peek_loop_repr:
  assumes "ms_repr ms its" "j + n = length its"
  shows "mbuf_peek_loop ms [j..<length its] =
    Some (case dropWhile (\<lambda>it. mi_instance it = None) (drop j its) of [] \<Rightarrow> None | it # _ \<Rightarrow> mi_instance it)"
  using assms(2)
proof (induction n arbitrary: j)
  case 0
  then show ?case by simp
next
  case (Suc n)
  then have j: "j < length its" by simp
  then show ?case
    using Suc.IH[of "Suc j"] Suc.prems ms_load_repr[OF assms(1) j]
    by (simp add: upt_conv_Cons Cons_nth_drop_Suc[symmetric])
qed

lemma mbuf_peek_repr:
  "ms_repr ms its \<Longrightarrow> mbuf_peek (Some ms) =
    Some (case dropWhile (\<lambda>it. mi_instance it = None) its of [] \<Rightarrow> None | it # _ \<Rightarrow> mi_instance it)"
  using mbuf_peek_loop_repr[of ms its 0] ms_repr_len[of ms its]
  by (auto simp: mbuf_peek_def mbuf_peek_dowork_def mbuf_defined_def)

definition null_instance :: "multi_instance \<Rightarrow> mbuf_item \<Rightarrow> mbuf_item" where
  "null_instance mi it =
     (if mi_instance it = Some mi then it\<lparr>mi_buffer := None, mi_instance := None\<rparr> else it)"

lemma mbuf_refs_perm:
  "mbuf_refs_ok h its ext \<Longrightarrow> mset its = mset its' \<Longrightarrow> mbuf_refs_ok h its' ext"
  unfolding mbuf_refs_ok_def queue_refs_def
  by (metis count_mset mset_map set_mset_mset)

lemma mbuf_dereference_step:
  assumes ok: "mbuf_refs_ok h (xs @ it # ys) ext"
  shows "\<exists>h'. (if mi_instance it = Some mi then mbuf_free_buf h (mi_buffer it) else Some h) = Some h' \<and>
    mbuf_refs_ok h' (xs @ null_instance mi it # ys) ext"
proof (cases "mi_instance it = Some mi")
  case False
  then show ?thesis using ok by (simp add: null_instance_def)
next
  case True
  then obtain a where a: "mi_buffer it = Some a" using ok by (auto simp: mbuf_refs_ok_def)
  have "mbuf_refs_ok h (it # xs @ ys) ext" using ok by (rule mbuf_refs_perm) simp
  then have "mbuf_refs_ok h (xs @ ys) (ext(a := ext a + 1))"
    using mbuf_refs_split a by blast
  then obtain h' where h': "mbuf_free_buf h (Some a) = Some h'" "mbuf_refs_ok h' (xs @ ys) ext"
    using mbuf_free_buf_refs[of h "xs @ ys" "ext(a := ext a + 1)" a] by auto
  then have "mbuf_refs_ok h' (null_instance mi it # xs @ ys) ext"
    using True by (simp add: mbuf_refs_ok_def null_instance_def)
  then have "mbuf_refs_ok h' (xs @ null_instance mi it # ys) ext"
    by (rule mbuf_refs_perm) simp
  then show ?thesis using h'(1) True a by simp
qed

lemma mbuf_dereference_loop_repr:
  assumes "ms_repr ms (map (null_instance mi) xs @ ys)" "mbuf_refs_ok h (map (null_instance mi) xs @ ys) ext"
  shows "\<exists>h' ms'. mbuf_dereference_loop h ms (Some mi) [length xs..<length xs + length ys] = Some (h', ms') \<and>
    ms_repr ms' (map (null_instance mi) (xs @ ys)) \<and>
    mbuf_refs_ok h' (map (null_instance mi) (xs @ ys)) ext"
  using assms
proof (induction ys arbitrary: xs h ms)
  case Nil
  then show ?case by simp
next
  case (Cons y ys)
  let ?its = "map (null_instance mi) xs @ y # ys"
  have j: "length xs < length ?its" by simp
  obtain h1 where h1: "(if mi_instance y = Some mi then mbuf_free_buf h (mi_buffer y) else Some h) = Some h1"
    "mbuf_refs_ok h1 (map (null_instance mi) xs @ null_instance mi y # ys) ext"
    using mbuf_dereference_step[OF Cons.prems(2)] by blast
  obtain ms1 where ms1: "(if mi_instance y = Some mi
      then ms_store ms (ms_slot ms (of_nat (length xs))) (y\<lparr>mi_buffer := None, mi_instance := None\<rparr>)
      else Some ms) = Some ms1"
    "ms_repr ms1 (map (null_instance mi) xs @ null_instance mi y # ys)"
    using ms_store_repr[OF Cons.prems(1) j, of "y\<lparr>mi_buffer := None, mi_instance := None\<rparr>"] Cons.prems(1)
    by (cases "mi_instance y = Some mi") (auto simp: null_instance_def list_update_append)
  have "ms_load ms (ms_slot ms (of_nat (length xs))) = Some y"
    using ms_load_repr[OF Cons.prems(1) j] by (simp add: nth_append)
  moreover have "[length xs..<length xs + length (y # ys)] =
      length xs # [length (xs @ [y])..<length (xs @ [y]) + length ys]"
    by (subst upt_conv_Cons) simp_all
  ultimately have "mbuf_dereference_loop h ms (Some mi) [length xs..<length xs + length (y # ys)] =
      mbuf_dereference_loop h1 ms1 (Some mi) [length (xs @ [y])..<length (xs @ [y]) + length ys]"
    using h1(1) ms1(1) by (cases "mi_instance y = Some mi") (auto simp del: upt_Suc)
  then show ?case using Cons.IH[where xs = "xs @ [y]" and ms = ms1 and h = h1] h1(2) ms1(2) by simp
qed

lemma mbuf_free_loop_refs:
  assumes "ms_repr ms its" "j + n = length its" "mbuf_refs_ok h (drop j its) ext"
  shows "\<exists>h'. mbuf_free_loop h ms [j..<length its] = Some h' \<and> mbuf_refs_ok h' [] ext"
  using assms(2,3)
proof (induction n arbitrary: j h)
  case 0
  then show ?case by simp
next
  case (Suc n)
  then have j: "j < length its" by simp
  let ?it = "its ! j"
  have d: "drop j its = ?it # drop (Suc j) its" using j by (rule Cons_nth_drop_Suc[symmetric])
  have "\<exists>h1. mbuf_free_buf h (mi_buffer ?it) = Some h1 \<and> mbuf_refs_ok h1 (drop (Suc j) its) ext"
  proof (cases "mi_buffer ?it")
    case None
    then show ?thesis using mbuf_refs_null[of h ?it "drop (Suc j) its" ext] Suc.prems(2) d
      by (simp add: mbuf_free_buf_def)
  next
    case (Some a)
    then have "mbuf_refs_ok h (drop (Suc j) its) (ext(a := ext a + 1))"
      using mbuf_refs_split[of h ?it "drop (Suc j) its" ext a] Suc.prems(2) d by simp
    then show ?thesis
      using mbuf_free_buf_refs[of h "drop (Suc j) its" "ext(a := ext a + 1)" a] Some by auto
  qed
  then obtain h1 where h1: "mbuf_free_buf h (mi_buffer ?it) = Some h1"
    "mbuf_refs_ok h1 (drop (Suc j) its) ext" by blast
  then show ?case
    using Suc.IH[of "Suc j" h1] Suc.prems(1) ms_load_repr[OF assms(1) j] j
    by (simp add: upt_conv_Cons)
qed

section \<open>The queue as a whole\<close>

text \<open>
  \<open>mq_ok (h, ms) ext\<close>: the queue is well formed and every object on the heap has the reference
  count its entries and the callers' references \<open>ext\<close> add up to.  \<open>mq_items\<close> are its live items.
\<close>

definition mq_ok :: "mbuf_heap \<times> mbuf_set \<Rightarrow> (mbuf_addr \<Rightarrow> nat) \<Rightarrow> bool" where
  "mq_ok q ext \<longleftrightarrow> (\<exists>its. ms_repr (snd q) its \<and> mbuf_refs_ok (fst q) its ext)"

definition mq_items :: "mbuf_heap \<times> mbuf_set \<Rightarrow> mbuf_item list" where
  "mq_items q = filter (\<lambda>it. mi_instance it \<noteq> None) (map the (ms_queue (snd q)))"

lemma mq_items_repr: "ms_repr ms its \<Longrightarrow> mq_items (h, ms) = filter (\<lambda>it. mi_instance it \<noteq> None) its"
  by (simp add: mq_items_def ms_repr_def o_def)

text \<open>Skipping the dead front entries leads to the first live item, if there is one.\<close>

lemma skip_dead_Nil:
  "dropWhile (\<lambda>x. mi_instance x = None) its = [] \<Longrightarrow> filter (\<lambda>x. mi_instance x \<noteq> None) its = []"
  by (simp add: filter_empty_conv)

lemma skip_dead_Cons:
  "dropWhile (\<lambda>x. mi_instance x = None) its = it # rest \<Longrightarrow>
     mi_instance it \<noteq> None \<and>
     filter (\<lambda>x. mi_instance x \<noteq> None) its = it # filter (\<lambda>x. mi_instance x \<noteq> None) rest"
  by (induction its) (auto split: if_splits)

lemma mbuf_refs_heap:
  assumes "mbuf_refs_ok h its ext" "h a = Some m"
  shows "0 < mb_refcount m"
proof -
  have "count_ok (h a) (queue_refs its a + ext a)" using assms(1) by (simp add: mbuf_refs_ok_def)
  then show ?thesis using assms(2) by auto
qed

text \<open>Adding to a queue with room; the caller keeps its own reference to the buffer.\<close>

lemma mq_add_room:
  assumes ok: "mq_ok (h, ms) ext" and room: "unat (ms_len ms) < unat (ms_capacity ms)"
    and it: "mi_buffer it = Some a" "mi_instance it \<noteq> None" "h a \<noteq> None"
  shows "\<exists>h' ms'. mbuf_add_item h ms it = Some (h', ms') \<and> mq_ok (h', ms') ext \<and>
     mq_items (h', ms') = mq_items (h, ms) @ [it] \<and> dom h' = dom h \<and>
     unat (ms_len ms') = unat (ms_len ms) + 1 \<and> ms_capacity ms' = ms_capacity ms"
proof -
  from ok obtain its where rep: "ms_repr ms its" and refs: "mbuf_refs_ok h its ext"
    by (auto simp: mq_ok_def)
  obtain m where m: "h a = Some m" "0 < mb_refcount m"
    using mbuf_refs_heap[OF refs] it(3) by auto
  have room': "length its < unat (ms_capacity ms)" using room ms_repr_len[OF rep] by simp
  let ?h = "h(a \<mapsto> m\<lparr>mb_refcount := mb_refcount m + 1\<rparr>)"
  obtain ms' where ms': "mbuf_add_item h ms it = Some (?h, ms')" "ms_repr ms' (its @ [it])"
    "ms_capacity ms' = ms_capacity ms"
    using mbuf_add_item_room[OF rep room', of it a h m] it(1) m(1) by blast
  moreover have "mq_ok (?h, ms') ext"
    using ms'(2) mbuf_refs_push[OF refs it(1,2) m] by (auto simp: mq_ok_def)
  ultimately show ?thesis
    using it(2) m(1) ms_repr_len[OF ms'(2)] ms_repr_len[OF rep]
    by (auto simp: mq_items_repr[OF rep] mq_items_repr[OF ms'(2)])
qed

text \<open>Adding to a full queue drops the oldest live packet and releases its buffer.\<close>

lemma mq_add_full:
  assumes ok: "mq_ok (h, ms) ext" and full: "ms_len ms = ms_capacity ms"
    and live: "mq_items (h, ms) \<noteq> []"
    and it: "mi_buffer it = Some a" "mi_instance it \<noteq> None" "0 < ext a"
  shows "\<exists>h' ms'. mbuf_add_item h ms it = Some (h', ms') \<and> mq_ok (h', ms') ext \<and>
     mq_items (h', ms') = tl (mq_items (h, ms)) @ [it]"
proof -
  from ok obtain its where rep: "ms_repr ms its" and refs: "mbuf_refs_ok h its ext"
    by (auto simp: mq_ok_def)
  have full': "length its = unat (ms_capacity ms)" using full ms_repr_len[OF rep] by simp
  let ?P = "\<lambda>x. mi_instance x = None"
  obtain rm rest where d: "dropWhile ?P its = rm # rest"
    using live skip_dead_Nil[of its] unfolding mq_items_repr[OF rep]
    by (cases "dropWhile ?P its") blast+
  note sk = skip_dead_Cons[OF d]
  then have rm: "mi_instance rm \<noteq> None" by simp
  have refs1: "mbuf_refs_ok h (rm # rest) ext" using mbuf_refs_dropWhile[OF refs] d by simp
  obtain b where b: "mi_buffer rm = Some b" using refs1 rm by (auto simp: mbuf_refs_ok_def)
  obtain h1 where h1: "mbuf_free_buf h (Some b) = Some h1" "mbuf_refs_ok h1 rest ext"
    using mbuf_free_buf_refs[OF mbuf_refs_split[OF refs1 b], of b] by auto
  obtain m where m: "h1 a = Some m" "0 < mb_refcount m"
    using mbuf_refs_live[OF h1(2), of a] it(3) by auto
  have free: "mbuf_free_buf h (mi_buffer rm) = Some h1" using b h1(1) by simp
  let ?h = "h1(a \<mapsto> m\<lparr>mb_refcount := mb_refcount m + 1\<rparr>)"
  obtain ms' where ms': "mbuf_add_item h ms it = Some (?h, ms')" "ms_repr ms' (rest @ [it])"
    using mbuf_add_item_full[OF rep full' d free, of it a m] it(1) m(1) by blast
have "mq_items (?h, ms') = tl (mq_items (h, ms)) @ [it]"
    using it(2) sk by (simp add: mq_items_repr[OF rep] mq_items_repr[OF ms'(2)])
  moreover have "mq_ok (?h, ms') ext"
    using ms'(2) mbuf_refs_push[OF h1(2) it(1,2) m] by (auto simp: mq_ok_def)
  ultimately show ?thesis using ms'(1) by blast
qed

text \<open>Extraction hands the entry's reference to the caller.\<close>

lemma mq_extract:
  assumes ok: "mq_ok (h, ms) ext"
  shows "\<exists>ms'. mbuf_extract_item (Some ms) =
       Some (Some ms', case mq_items (h, ms) of [] \<Rightarrow> None | it # _ \<Rightarrow> Some it) \<and>
     mq_items (h, ms') = tl (mq_items (h, ms)) \<and> ms_capacity ms' = ms_capacity ms \<and>
     mq_ok (h, ms') (case mq_items (h, ms) of [] \<Rightarrow> ext
       | it # _ \<Rightarrow> ext(the (mi_buffer it) := ext (the (mi_buffer it)) + 1))"
proof -
  from ok obtain its where rep: "ms_repr ms its" and refs: "mbuf_refs_ok h its ext"
    by (auto simp: mq_ok_def)
  let ?P = "\<lambda>x. mi_instance x = None"
  note ex = mbuf_extract_loop_repr[OF rep refl] and refs1 = mbuf_refs_dropWhile[OF refs]
  show ?thesis
  proof (cases "dropWhile ?P its")
    case Nil
    obtain ms' where ms': "mbuf_extract_loop ms = Some (ms', None)" "ms_repr ms' []"
      "ms_capacity ms' = ms_capacity ms" using ex unfolding Nil by auto
    have "mq_items (h, ms) = []" "mq_items (h, ms') = []"
      using skip_dead_Nil[OF Nil] by (simp_all add: mq_items_repr[OF rep] mq_items_repr[OF ms'(2)])
    moreover have "mbuf_refs_ok h [] ext" using refs1 unfolding Nil .
    ultimately show ?thesis using ms' by (auto simp: mbuf_extract_item_def mq_ok_def)
  next
    case (Cons it rest)
    obtain ms' where ms': "mbuf_extract_loop ms = Some (ms', Some it)" "ms_repr ms' rest"
      "ms_capacity ms' = ms_capacity ms" using ex unfolding Cons by auto
    note sk = skip_dead_Cons[OF Cons]
    have refs2: "mbuf_refs_ok h (it # rest) ext" using refs1 unfolding Cons .
    obtain a where a: "mi_buffer it = Some a" using refs2 sk by (auto simp: mbuf_refs_ok_def)
    have "mq_items (h, ms) = it # mq_items (h, ms')"
      using sk by (simp add: mq_items_repr[OF rep] mq_items_repr[OF ms'(2)])
    then show ?thesis using ms' mbuf_refs_split[OF refs2 a] a
      by (auto simp: mbuf_extract_item_def mq_ok_def)
  qed
qed

lemma mq_peek:
  assumes "mq_ok (h, ms) ext"
  shows "mbuf_peek (Some ms) =
    Some (case mq_items (h, ms) of [] \<Rightarrow> None | it # _ \<Rightarrow> mi_instance it)"
proof -
  from assms obtain its where rep: "ms_repr ms its" by (auto simp: mq_ok_def)
  show ?thesis
  proof (cases "dropWhile (\<lambda>x. mi_instance x = None) its")
    case Nil
    then show ?thesis
      unfolding mbuf_peek_repr[OF rep] mq_items_repr[OF rep] Nil skip_dead_Nil[OF Nil] by simp
  next
    case (Cons it rest)
    note sk = skip_dead_Cons[OF Cons]
    show ?thesis
      unfolding mbuf_peek_repr[OF rep] mq_items_repr[OF rep] Cons conjunct2[OF sk] by simp
  qed
qed

text \<open>A client that goes away loses its packets and only those; the others keep their order.\<close>

lemma mq_dereference:
  assumes ok: "mq_ok (h, ms) ext"
  shows "\<exists>h' ms'. mbuf_dereference_instance h (Some ms) (Some mi) = Some (h', Some ms') \<and>
     mq_ok (h', ms') ext \<and>
     mq_items (h', ms') = filter (\<lambda>it. mi_instance it \<noteq> Some mi) (mq_items (h, ms))"
proof -
  from ok obtain its where rep: "ms_repr ms its" and refs: "mbuf_refs_ok h its ext"
    by (auto simp: mq_ok_def)
  obtain h' ms' where r: "mbuf_dereference_loop h ms (Some mi) [0..<length its] = Some (h', ms')"
    "ms_repr ms' (map (null_instance mi) its)" "mbuf_refs_ok h' (map (null_instance mi) its) ext"
    using mbuf_dereference_loop_repr[of ms mi "[]" its h ext] rep refs by auto
  have "filter (\<lambda>x. mi_instance x \<noteq> None) (map (null_instance mi) its) =
      filter (\<lambda>it. mi_instance it \<noteq> Some mi) (filter (\<lambda>x. mi_instance x \<noteq> None) its)"
    by (induction its) (auto simp: null_instance_def)
  then show ?thesis
    using r ms_repr_len[OF rep]
    by (auto simp: mbuf_dereference_instance_def mq_ok_def mq_items_repr[OF rep] mq_items_repr[OF r(2)])
qed

text \<open>When the queue is freed and no caller holds a reference, the heap is empty: no packet leaks
  and none is freed twice.\<close>

lemma mq_free:
  assumes ok: "mq_ok (h, ms) ext"
  shows "\<exists>h'. mbuf_free h (Some ms) = Some h' \<and> (\<forall>a. h' a = None \<longleftrightarrow> ext a = 0)"
proof -
  from ok obtain its where rep: "ms_repr ms its" and refs: "mbuf_refs_ok h its ext"
    by (auto simp: mq_ok_def)
  obtain h' where h': "mbuf_free_loop h ms [0..<length its] = Some h'" "mbuf_refs_ok h' [] ext"
    using mbuf_free_loop_refs[OF rep, of 0 "length its" h ext] refs by auto
  have "h' a = None \<longleftrightarrow> ext a = 0" for a
    using h'(2) by (cases "h' a") (auto simp: mbuf_refs_ok_def, metis count_ok_simps(1), metis count_ok_simps(2) less_numeral_extra(3))
  then show ?thesis using h'(1) ms_repr_len[OF rep] by (auto simp: mbuf_free_def)
qed

section \<open>The queue is a FIFO\<close>

definition mq_push :: "mbuf_heap \<times> mbuf_set \<Rightarrow> mbuf_item \<Rightarrow> (mbuf_heap \<times> mbuf_set) option" where
  "mq_push q it = mbuf_add_item (fst q) (snd q) it"

definition mq_pop :: "mbuf_heap \<times> mbuf_set \<Rightarrow> ((mbuf_heap \<times> mbuf_set) \<times> mbuf_item option) option" where
  "mq_pop q = do {
     (ms', it) \<leftarrow> mbuf_extract_item (Some (snd q));
     ms' \<leftarrow> ms';
     Some ((fst q, ms'), it) }"

definition mq_accepts :: "mbuf_heap \<times> mbuf_set \<Rightarrow> mbuf_item list \<Rightarrow> bool" where
  "mq_accepts q its \<longleftrightarrow>
     unat (ms_len (snd q)) + length its \<le> unat (ms_capacity (snd q)) \<and>
     (\<forall>it \<in> set its. mi_instance it \<noteq> None \<and> (\<exists>a \<in> dom (fst q). mi_buffer it = Some a))"

interpretation mq: fifo mq_push mq_pop mq_items mq_accepts "\<lambda>q. \<exists>ext. mq_ok q ext"
proof
  fix q :: "mbuf_heap \<times> mbuf_set" and it its
  assume ok: "\<exists>ext. mq_ok q ext" and acc: "mq_accepts q (it # its)"
  obtain h ms where q: "q = (h, ms)" by fastforce
  obtain ext where ext: "mq_ok (h, ms) ext" using ok q by auto
  obtain a where a: "mi_buffer it = Some a" "mi_instance it \<noteq> None" "h a \<noteq> None"
    using acc q by (auto simp: mq_accepts_def)
  have room: "unat (ms_len ms) < unat (ms_capacity ms)" using acc q by (simp add: mq_accepts_def)
  from mq_add_room[OF ext room a] obtain h' ms' where r: "mbuf_add_item h ms it = Some (h', ms')"
    "mq_ok (h', ms') ext" "mq_items (h', ms') = mq_items (h, ms) @ [it]" "dom h' = dom h"
    "unat (ms_len ms') = unat (ms_len ms) + 1" "ms_capacity ms' = ms_capacity ms" by blast
  have "mq_accepts (h', ms') its"
    using acc r(4-6) by (simp add: mq_accepts_def q)
  then show "\<exists>q'. mq_push q it = Some q' \<and> (\<exists>ext. mq_ok q' ext) \<and> mq_items q' = mq_items q @ [it] \<and>
      mq_accepts q' its"
    using r by (auto simp: mq_push_def q)
next
  fix q :: "mbuf_heap \<times> mbuf_set"
  assume ok: "\<exists>ext. mq_ok q ext" and e: "mq_items q = []"
  obtain h ms where q: "q = (h, ms)" by fastforce
  obtain ext where "mq_ok (h, ms) ext" using ok q by auto
  from mq_extract[OF this] e q
  show "\<exists>q'. mq_pop q = Some (q', None) \<and> (\<exists>ext. mq_ok q' ext) \<and> mq_items q' = []"
    by (auto simp: mq_pop_def)
next
  fix q :: "mbuf_heap \<times> mbuf_set" and it its
  assume ok: "\<exists>ext. mq_ok q ext" and e: "mq_items q = it # its"
  obtain h ms where q: "q = (h, ms)" by fastforce
  obtain ext where "mq_ok (h, ms) ext" using ok q by auto
  from mq_extract[OF this] e q
  show "\<exists>q'. mq_pop q = Some (q', Some it) \<and> (\<exists>ext. mq_ok q' ext) \<and> mq_items q' = its"
    by (auto simp: mq_pop_def)
qed

lemma mbuf_init_mq:
  assumes "unat sz \<le> MBUF_SIZE_MAX"
  shows "\<exists>ms. mbuf_init sz = Some ms \<and> mq_ok (Map.empty, ms) (\<lambda>_. 0) \<and>
    mq_items (Map.empty, ms) = [] \<and> unat sz \<le> unat (ms_capacity ms)"
proof -
  obtain ms where ms: "mbuf_init sz = Some ms" "ms_repr ms []" "unat sz \<le> unat (ms_capacity ms)"
    using mbuf_init_repr[OF assms] by blast
  moreover have "mbuf_refs_ok Map.empty [] (\<lambda>_. 0)" by (simp add: mbuf_refs_ok_def)
  ultimately show ?thesis by (auto simp: mq_ok_def mq_items_repr[OF ms(2)])
qed

section \<open>Properties\<close>

text \<open>The packet queue built by \<open>mbuf_init\<close> is a FIFO: a burst of packets no longer than the
  configured size, whose buffers are alive, comes out complete and in order.\<close>

theorem mbuf_burst_in_order:
  assumes "unat sz \<le> MBUF_SIZE_MAX" "mbuf_init sz = Some ms"
    and "mq_ok (h, ms) ext" "mq_items (h, ms) = []" "ms_len ms = 0"
    and "length its \<le> unat sz" "\<forall>it \<in> set its. mi_instance it \<noteq> None \<and> (\<exists>a \<in> dom h. mi_buffer it = Some a)"
  shows "\<exists>q1 q2. mq.push_all (h, ms) its = Some q1 \<and>
    mq.drain (Suc (length its)) q1 = Some (q2, its) \<and> mq_items q2 = []"
proof -
  have "unat sz \<le> unat (ms_capacity ms)" using mbuf_init_mq[OF assms(1)] assms(2) by auto
  then have "mq_accepts (h, ms) its" using assms(5-7) by (simp add: mq_accepts_def)
  from mq.burst_in_order[OF _ assms(4) this, of "Suc (length its)"] assms(3) show ?thesis by auto
qed

theorem mbuf_burst_in_order_witness:
  "\<exists>q1 q2. mq.push_all ([7 \<mapsto> \<lparr>mb_buf = buf_of [] [1] [], mb_refcount = 1, mb_flags = 0\<rparr>], the (mbuf_init 2))
       [\<lparr>mi_buffer = Some 7, mi_instance = Some 1\<rparr>, \<lparr>mi_buffer = Some 7, mi_instance = Some 2\<rparr>] = Some q1 \<and>
    mq.drain (Suc (length [\<lparr>mi_buffer = Some 7, mi_instance = Some 1\<rparr>, \<lparr>mi_buffer = Some 7, mi_instance = Some 2\<rparr>])) q1 =
      Some (q2, [\<lparr>mi_buffer = Some 7, mi_instance = Some 1\<rparr>, \<lparr>mi_buffer = Some 7, mi_instance = Some 2\<rparr>]) \<and>
    mq_items q2 = []"
proof -
  have sz: "unat (2 :: u32) \<le> MBUF_SIZE_MAX"
    by (simp add: MBUF_SIZE_MAX_def ALLOC_SIZE_MAX_def MBUF_ITEM_SIZE_def)
  obtain ms where ms: "mbuf_init 2 = Some ms" "ms_repr ms []" using mbuf_init_repr[OF sz] by blast
  let ?h = "[7 \<mapsto> \<lparr>mb_buf = buf_of [] [1] [], mb_refcount = 1, mb_flags = 0\<rparr>] :: mbuf_heap"
  have ok: "mq_ok (?h, ms) ((\<lambda>_. 0)(7 := 1))"
    using ms(2) by (auto simp: mq_ok_def mbuf_refs_ok_def)
  have e: "mq_items (?h, ms) = []" "ms_len ms = 0"
    using ms(2) ms_repr_len[OF ms(2)] by (simp_all add: mq_items_repr[OF ms(2)] unat_eq_0)
  show ?thesis unfolding ms(1) option.sel
    by (rule mbuf_burst_in_order[OF sz ms(1) ok e]) auto
qed

text \<open>Enqueueing into a full queue drops the oldest live packet, releases its buffer and appends the
  new one; no reference count goes wrong.\<close>

theorem mbuf_full_drops_oldest:
  assumes "mq_ok (h, ms) ext" "ms_len ms = ms_capacity ms" "mq_items (h, ms) \<noteq> []"
    and "mi_buffer it = Some a" "mi_instance it \<noteq> None" "0 < ext a"
  shows "\<exists>h' ms'. mbuf_add_item h ms it = Some (h', ms') \<and> mq_ok (h', ms') ext \<and>
     mq_items (h', ms') = tl (mq_items (h, ms)) @ [it]"
  using assms by (rule mq_add_full)

theorem mbuf_full_drops_oldest_witness:
  "\<exists>h' ms'. mbuf_add_item [7 \<mapsto> \<lparr>mb_buf = buf_of [] [1] [], mb_refcount = 2, mb_flags = 0\<rparr>]
       \<lparr>ms_head = 0, ms_len = 1, ms_capacity = 1, ms_max_queued = 1,
        ms_array = [Some \<lparr>mi_buffer = Some 7, mi_instance = Some 3\<rparr>]\<rparr>
       \<lparr>mi_buffer = Some 7, mi_instance = Some 4\<rparr> = Some (h', ms') \<and>
     mq_ok (h', ms') ((\<lambda>_. 0)(7 := 1)) \<and>
     mq_items (h', ms') = [\<lparr>mi_buffer = Some 7, mi_instance = Some 4\<rparr>]"
proof -
  let ?h = "[7 \<mapsto> \<lparr>mb_buf = buf_of [] [1] [], mb_refcount = 2, mb_flags = 0\<rparr>] :: mbuf_heap"
  let ?ms = "\<lparr>ms_head = 0, ms_len = 1, ms_capacity = 1, ms_max_queued = 1,
        ms_array = [Some \<lparr>mi_buffer = Some 7, mi_instance = Some 3\<rparr>]\<rparr>"
  have rep: "ms_repr ?ms [\<lparr>mi_buffer = Some 7, mi_instance = Some 3\<rparr>]"
    by (auto simp: ms_repr_def ms_shape_def ms_queue_def ring_def intro: exI[of _ 0])
  have ok: "mq_ok (?h, ?ms) ((\<lambda>_. 0)(7 := 1))"
    using rep by (force simp: mq_ok_def mbuf_refs_ok_def)
  from mbuf_full_drops_oldest[OF ok, of "\<lparr>mi_buffer = Some 7, mi_instance = Some 4\<rparr>" 7]
  show ?thesis by (simp add: mq_items_repr[OF rep])
qed

text \<open>C24: No packet buffer leaks and none is freed twice: once the queue is freed, exactly the buffers
  to which a caller still holds a reference are on the heap.\<close>

theorem mbuf_no_leak:
  assumes "mq_ok (h, ms) ext"
  shows "\<exists>h'. mbuf_free h (Some ms) = Some h' \<and> (\<forall>a. h' a = None \<longleftrightarrow> ext a = 0)"
  using assms by (rule mq_free)

theorem mbuf_no_leak_witness:
  "\<exists>h'. mbuf_free [7 \<mapsto> \<lparr>mb_buf = buf_of [] [1] [], mb_refcount = 1, mb_flags = 0\<rparr>]
     (Some \<lparr>ms_head = 0, ms_len = 1, ms_capacity = 1, ms_max_queued = 1,
        ms_array = [Some \<lparr>mi_buffer = Some 7, mi_instance = Some 3\<rparr>]\<rparr>) = Some h' \<and> h' = Map.empty"
proof -
  let ?h = "[7 \<mapsto> \<lparr>mb_buf = buf_of [] [1] [], mb_refcount = 1, mb_flags = 0\<rparr>] :: mbuf_heap"
  let ?ms = "\<lparr>ms_head = 0, ms_len = 1, ms_capacity = 1, ms_max_queued = 1,
        ms_array = [Some \<lparr>mi_buffer = Some 7, mi_instance = Some 3\<rparr>]\<rparr>"
  have rep: "ms_repr ?ms [\<lparr>mi_buffer = Some 7, mi_instance = Some 3\<rparr>]"
    by (auto simp: ms_repr_def ms_shape_def ms_queue_def ring_def intro: exI[of _ 0])
  have ok: "mq_ok (?h, ?ms) (\<lambda>_. 0)"
    using rep by (force simp: mq_ok_def mbuf_refs_ok_def)
  from mbuf_no_leak[OF ok] show ?thesis by (auto simp: fun_eq_iff)
qed

text \<open>When a client goes away, its queued packets disappear and their buffers are released; the
  packets of the other clients stay, in order.\<close>

theorem mbuf_dereference_removes_client:
  assumes "mq_ok (h, ms) ext"
  shows "\<exists>h' ms'. mbuf_dereference_instance h (Some ms) (Some mi) = Some (h', Some ms') \<and>
     mq_ok (h', ms') ext \<and>
     mq_items (h', ms') = filter (\<lambda>it. mi_instance it \<noteq> Some mi) (mq_items (h, ms))"
  using assms by (rule mq_dereference)

theorem mbuf_dereference_removes_client_witness:
  "\<exists>h' ms'. mbuf_dereference_instance [7 \<mapsto> \<lparr>mb_buf = buf_of [] [1] [], mb_refcount = 1, mb_flags = 0\<rparr>]
     (Some \<lparr>ms_head = 0, ms_len = 1, ms_capacity = 1, ms_max_queued = 1,
        ms_array = [Some \<lparr>mi_buffer = Some 7, mi_instance = Some 3\<rparr>]\<rparr>) (Some 3) = Some (h', Some ms') \<and>
     mq_ok (h', ms') (\<lambda>_. 0) \<and> mq_items (h', ms') = []"
proof -
  let ?h = "[7 \<mapsto> \<lparr>mb_buf = buf_of [] [1] [], mb_refcount = 1, mb_flags = 0\<rparr>] :: mbuf_heap"
  let ?ms = "\<lparr>ms_head = 0, ms_len = 1, ms_capacity = 1, ms_max_queued = 1,
        ms_array = [Some \<lparr>mi_buffer = Some 7, mi_instance = Some 3\<rparr>]\<rparr>"
  have rep: "ms_repr ?ms [\<lparr>mi_buffer = Some 7, mi_instance = Some 3\<rparr>]"
    by (auto simp: ms_repr_def ms_shape_def ms_queue_def ring_def intro: exI[of _ 0])
  have ok: "mq_ok (?h, ?ms) (\<lambda>_. 0)"
    using rep by (force simp: mq_ok_def mbuf_refs_ok_def)
  from mbuf_dereference_removes_client[OF ok, of 3] show ?thesis by (simp add: mq_items_repr[OF rep])
qed

text \<open>A queue that is full of packets whose clients have all gone makes \<open>mbuf_add_item\<close> abort the
  process: the extraction that should make room finds no live item, and its result is asserted.\<close>

theorem mbuf_add_to_dead_queue_aborts:
  assumes "ms_repr ms its" "length its = unat (ms_capacity ms)" "\<forall>x \<in> set its. mi_instance x = None"
  shows "mbuf_add_item h ms it = None"
  using assms by (rule mbuf_add_item_dead)

theorem mbuf_add_to_dead_queue_aborts_witness:
  "do { (h, ms) \<leftarrow> mbuf_dereference_instance [7 \<mapsto> \<lparr>mb_buf = buf_of [] [1] [], mb_refcount = 1, mb_flags = 0\<rparr>]
          (Some \<lparr>ms_head = 0, ms_len = 1, ms_capacity = 1, ms_max_queued = 1,
             ms_array = [Some \<lparr>mi_buffer = Some 7, mi_instance = Some 3\<rparr>]\<rparr>) (Some 3);
        Some ms } =
     Some (Some \<lparr>ms_head = 0, ms_len = 1, ms_capacity = 1, ms_max_queued = 1,
             ms_array = [Some \<lparr>mi_buffer = None, mi_instance = None\<rparr>]\<rparr>) \<and>
   mbuf_add_item [9 \<mapsto> \<lparr>mb_buf = buf_of [] [1] [], mb_refcount = 1, mb_flags = 0\<rparr>]
     \<lparr>ms_head = 0, ms_len = 1, ms_capacity = 1, ms_max_queued = 1,
      ms_array = [Some \<lparr>mi_buffer = None, mi_instance = None\<rparr>]\<rparr>
     \<lparr>mi_buffer = Some 9, mi_instance = Some 4\<rparr> = None"
proof -
  let ?ms = "\<lparr>ms_head = 0, ms_len = 1, ms_capacity = 1, ms_max_queued = 1,
             ms_array = [Some \<lparr>mi_buffer = None, mi_instance = None\<rparr>]\<rparr>"
  have rep: "ms_repr ?ms [\<lparr>mi_buffer = None, mi_instance = None\<rparr>]"
    by (auto simp: ms_repr_def ms_shape_def ms_queue_def ring_def intro: exI[of _ 0])
  have "mbuf_add_item [9 \<mapsto> \<lparr>mb_buf = buf_of [] [1] [], mb_refcount = 1, mb_flags = 0\<rparr>] ?ms
      \<lparr>mi_buffer = Some 9, mi_instance = Some 4\<rparr> = None"
    by (rule mbuf_add_to_dead_queue_aborts[OF rep]) simp_all
  then show ?thesis
    by (simp add: mbuf_dereference_instance_def ms_load_def ms_store_def ms_slot_def MBUF_INDEX_def mbuf_free_buf_def)
qed

end
