(* ===== verification/Ovpn_Circ_List.thy ===== *)
theory Ovpn_Circ_List
  imports Ovpn_Integer Ovpn_Ring
begin

text \<open>
  The macros of \<open>circ_list.h\<close>: a list of bounded size that grows at the front and forgets its
  oldest entries.  \<open>cl_view\<close> is the sequence of entries, the newest first.
\<close>

record 'a circ_list =
  x_head :: int
  x_size :: int
  x_cap :: int
  x_sizeof :: int
  x_list :: "'a list"

text \<open>\<open>hdr\<close> and \<open>item\<close> are the sizes of the list header and of one item, \<open>zero\<close> an item whose
  memory is all zero.\<close>

definition CIRC_LIST_ALLOC :: "int \<Rightarrow> int \<Rightarrow> 'a \<Rightarrow> int \<Rightarrow> 'a circ_list" where
  "CIRC_LIST_ALLOC hdr item zero sz =
     \<lparr>x_head = 0, x_size = 0, x_cap = sz, x_sizeof = hdr + item * sz, x_list = replicate (nat sz) zero\<rparr>"

definition x_list_set :: "'a circ_list \<Rightarrow> int \<Rightarrow> 'a \<Rightarrow> 'a circ_list option" where
  "x_list_set obj i x =
     (if 0 \<le> i \<and> i < int (length (x_list obj))
      then Some (obj\<lparr>x_list := (x_list obj)[nat i := x]\<rparr>) else None)"

definition CIRC_LIST_PUSH :: "'a circ_list \<Rightarrow> 'a \<Rightarrow> 'a circ_list option" where
  "CIRC_LIST_PUSH obj x = do {
     h \<leftarrow> modulo_add (x_head obj) (- 1) (x_cap obj);
     obj \<leftarrow> x_list_set (obj\<lparr>x_head := h\<rparr>) h x;
     Some (obj\<lparr>x_size := min_int (x_size obj + 1) (x_cap obj)\<rparr>) }"

definition CIRC_LIST_SIZE :: "'a circ_list \<Rightarrow> int" where
  "CIRC_LIST_SIZE obj = x_size obj"

definition CIRC_LIST_INDEX :: "'a circ_list \<Rightarrow> int \<Rightarrow> int option" where
  "CIRC_LIST_INDEX obj index = do {
     i \<leftarrow> index_verify index (x_size obj);
     modulo_add (x_head obj) i (x_cap obj) }"

definition CIRC_LIST_ITEM :: "'a circ_list \<Rightarrow> int \<Rightarrow> 'a option" where
  "CIRC_LIST_ITEM obj index = do {
     i \<leftarrow> CIRC_LIST_INDEX obj index;
     if 0 \<le> i \<and> i < int (length (x_list obj)) then Some (x_list obj ! nat i) else None }"

text \<open>\<open>CIRC_LIST_ITEM\<close> on the left of an assignment.\<close>

definition CIRC_LIST_ASSIGN :: "'a circ_list \<Rightarrow> int \<Rightarrow> 'a \<Rightarrow> 'a circ_list option" where
  "CIRC_LIST_ASSIGN obj index x = do {
     i \<leftarrow> CIRC_LIST_INDEX obj index;
     x_list_set obj i x }"

definition CIRC_LIST_RESET :: "'a circ_list \<Rightarrow> 'a circ_list" where
  "CIRC_LIST_RESET obj = obj\<lparr>x_head := 0, x_size := 0\<rparr>"

section \<open>Invariant and view\<close>

definition cl_ok :: "'a circ_list \<Rightarrow> bool" where
  "cl_ok c \<longleftrightarrow> 0 \<le> x_head c \<and> x_head c < x_cap c \<and> 0 \<le> x_size c \<and> x_size c \<le> x_cap c \<and>
     length (x_list c) = nat (x_cap c)"

definition cl_view :: "'a circ_list \<Rightarrow> 'a list" where
  "cl_view c = ring (nat (x_head c)) (nat (x_size c)) (nat (x_cap c)) (x_list c)"

lemma cl_alloc [simp]:
  "0 < n \<Longrightarrow> cl_ok (CIRC_LIST_ALLOC a b z n)"
  "cl_view (CIRC_LIST_ALLOC a b z n) = []"
  "x_cap (CIRC_LIST_ALLOC a b z n) = n"
  by (simp_all add: cl_ok_def cl_view_def CIRC_LIST_ALLOC_def)

lemma cl_reset [simp]:
  "cl_ok c \<Longrightarrow> cl_ok (CIRC_LIST_RESET c)"
  "cl_view (CIRC_LIST_RESET c) = []"
  "x_cap (CIRC_LIST_RESET c) = x_cap c"
  by (auto simp: cl_ok_def cl_view_def CIRC_LIST_RESET_def)

lemma cl_size [simp]: "cl_ok c \<Longrightarrow> CIRC_LIST_SIZE c = int (length (cl_view c))"
  by (simp add: cl_ok_def cl_view_def CIRC_LIST_SIZE_def)

lemma cl_length: "cl_ok c \<Longrightarrow> length (cl_view c) \<le> nat (x_cap c)"
  by (auto simp: cl_ok_def cl_view_def)

lemma cl_index:
  assumes "cl_ok c" "i < length (cl_view c)"
  shows "CIRC_LIST_INDEX c (int i) = Some (int ((nat (x_head c) + i) mod nat (x_cap c)))"
    "(nat (x_head c) + i) mod nat (x_cap c) < length (x_list c)"
proof -
  have i: "int i < x_size c" using assms by (auto simp: cl_ok_def cl_view_def)
  have c: "0 \<le> x_head c" "x_head c < x_cap c" "int i \<le> x_cap c" "0 \<le> x_cap c"
    "length (x_list c) = nat (x_cap c)" using assms i by (auto simp: cl_ok_def)
  have "int ((nat (x_head c) + i) mod nat (x_cap c)) = (x_head c + int i) mod x_cap c"
    using c by (simp add: zmod_int)
  then show "CIRC_LIST_INDEX c (int i) = Some (int ((nat (x_head c) + i) mod nat (x_cap c)))"
    using c i by (simp add: CIRC_LIST_INDEX_def modulo_add_mod)
  show "(nat (x_head c) + i) mod nat (x_cap c) < length (x_list c)" using c by simp
qed

lemma cl_item: "cl_ok c \<Longrightarrow> i < length (cl_view c) \<Longrightarrow> CIRC_LIST_ITEM c (int i) = Some (cl_view c ! i)"
  using cl_index[of c i] by (simp add: CIRC_LIST_ITEM_def) (simp add: cl_view_def)

lemma cl_assign:
  assumes "cl_ok c" "i < length (cl_view c)"
  shows "\<exists>c'. CIRC_LIST_ASSIGN c (int i) x = Some c' \<and> cl_ok c' \<and> cl_view c' = (cl_view c)[i := x] \<and>
    x_cap c' = x_cap c"
proof -
  let ?k = "(nat (x_head c) + i) mod nat (x_cap c)"
  let ?c = "c\<lparr>x_list := (x_list c)[?k := x]\<rparr>"
  have "CIRC_LIST_ASSIGN c (int i) x = Some ?c"
    using cl_index[OF assms] by (simp add: CIRC_LIST_ASSIGN_def x_list_set_def)
  moreover have "cl_view ?c = (cl_view c)[i := x]"
    using assms by (auto simp: cl_view_def cl_ok_def intro!: ring_update)
  ultimately show ?thesis using assms by (auto simp: cl_ok_def)
qed

lemma cl_push:
  assumes ok: "cl_ok c"
  shows "\<exists>c'. CIRC_LIST_PUSH c x = Some c' \<and> cl_ok c' \<and>
    cl_view c' = take (nat (x_cap c)) (x # cl_view c) \<and> x_cap c' = x_cap c"
proof -
  let ?n = "nat (x_cap c)" and ?h = "nat (x_head c)"
  define h' where "h' = (?h + ?n - 1) mod ?n"
  have c: "0 \<le> x_head c" "x_head c < x_cap c" "0 < ?n" "length (x_list c) = ?n"
    "0 \<le> x_size c" "x_size c \<le> x_cap c"
    using ok by (auto simp: cl_ok_def)
  have "(x_head c - 1) mod x_cap c = (x_head c + x_cap c - 1) mod x_cap c"
    by (metis add_diff_eq diff_add_eq mod_add_self2)
  also have "\<dots> = int h'" using c by (simp add: h'_def zmod_int of_nat_diff)
  finally have m: "modulo_add (x_head c) (- 1) (x_cap c) = Some (int h')"
    using c modulo_add_mod[of "x_head c" "x_cap c" "- 1"] by simp
  have h': "h' < ?n" using c by (simp add: h'_def)
  let ?c = "c\<lparr>x_head := int h', x_list := (x_list c)[h' := x], x_size := min (x_size c + 1) (x_cap c)\<rparr>"
  have "CIRC_LIST_PUSH c x = Some ?c"
    using m h' c by (simp add: CIRC_LIST_PUSH_def x_list_set_def)
  moreover have "cl_ok ?c" using c h' by (auto simp: cl_ok_def)
  moreover have "nat (min (x_size c + 1) (x_cap c)) = min (nat (x_size c) + 1) ?n"
    using c by (auto simp: min_def)
  then have "cl_view ?c = x # take (?n - 1) (cl_view c)"
    using ring_push_front[of "nat (x_size c)" ?n "x_list c" ?h h' x] c
    by (simp add: cl_view_def h'_def)
  moreover have "x # take (?n - 1) (cl_view c) = take ?n (x # cl_view c)"
    using c(3) by (cases ?n) simp_all
  ultimately show ?thesis by auto
qed

end
