(* ===== verification/Ovpn_Packet_Id.thy ===== *)
theory Ovpn_Packet_Id
  imports Ovpn_Circ_List Ovpn_Buffer
begin

text \<open>
  Packet identifiers and replay protection (\<open>packet_id.c\<close>, \<open>packet_id.h\<close>).  The global clock
  \<open>now\<close> is an argument of every operation that reads it.  Debug output is not modelled.
\<close>

unbundle bit_operations_syntax

section \<open>State\<close>

definition PACKET_ID_MAX :: u64 where "PACKET_ID_MAX = 0xFFFFFFFF"
definition PACKET_ID_EPOCH_MAX :: u64 where "PACKET_ID_EPOCH_MAX = 0xFFFFFFFFFFFF"
definition PACKET_ID_MASK :: u64 where "PACKET_ID_MASK = 0xFFFFFFFFFFFF"
definition PACKET_ID_WRAP_TRIGGER :: u64 where "PACKET_ID_WRAP_TRIGGER = 0xFF000000"
definition MIN_SEQ_BACKTRACK :: int where "MIN_SEQ_BACKTRACK = 0"
definition MAX_SEQ_BACKTRACK :: int where "MAX_SEQ_BACKTRACK = 65536"
definition MIN_TIME_BACKTRACK :: int where "MIN_TIME_BACKTRACK = 0"
definition MAX_TIME_BACKTRACK :: int where "MAX_TIME_BACKTRACK = 600"
definition SEQ_REAP_INTERVAL :: int where "SEQ_REAP_INTERVAL = 5"
definition SEQ_UNSEEN :: c_time where "SEQ_UNSEEN = 0"
definition SEQ_EXPIRED :: c_time where "SEQ_EXPIRED = 1"

type_synonym seq_list = "c_time circ_list"

record packet_id_rec =
  pr_last_reap :: c_time
  pr_time :: c_time
  pr_id :: u64
  pr_seq_backtrack :: u64
  pr_time_backtrack :: int
  pr_max_backtrack_stat :: u64
  pr_initialized :: bool
  pr_seq_list :: "seq_list option"
  pr_name :: "string option"
  pr_unit :: int

record packet_id_send =
  ps_id :: u64
  ps_time :: c_time

record packet_id_net =
  pn_id :: u64
  pn_time :: c_time

record packet_id =
  pi_send :: packet_id_send
  pi_rec :: packet_id_rec

record packet_id_persist =
  pp_filename :: "string option"
  pp_fd :: int
  pp_time :: c_time
  pp_id :: u32
  pp_time_last_written :: c_time
  pp_id_last_written :: u32

text \<open>The value of \<open>CLEAR\<close> on the structures.\<close>

definition clear_rec :: packet_id_rec where
  "clear_rec = \<lparr>pr_last_reap = 0, pr_time = 0, pr_id = 0, pr_seq_backtrack = 0, pr_time_backtrack = 0,
     pr_max_backtrack_stat = 0, pr_initialized = False, pr_seq_list = None, pr_name = None, pr_unit = 0\<rparr>"

definition clear_send :: packet_id_send where
  "clear_send = \<lparr>ps_id = 0, ps_time = 0\<rparr>"

section \<open>Initialisation\<close>

definition packet_id_init_recv ::
  "packet_id_rec \<Rightarrow> int \<Rightarrow> int \<Rightarrow> string option \<Rightarrow> int \<Rightarrow> packet_id_rec option" where
  "packet_id_init_recv rec seq_backtrack time_backtrack name unit = do {
     let rec = rec\<lparr>pr_name := name, pr_unit := unit\<rparr>;
     rec \<leftarrow>
       (if seq_backtrack \<noteq> 0
        then do {
          cassert (MIN_SEQ_BACKTRACK \<le> seq_backtrack \<and> seq_backtrack \<le> MAX_SEQ_BACKTRACK);
          cassert (MIN_TIME_BACKTRACK \<le> time_backtrack \<and> time_backtrack \<le> MAX_TIME_BACKTRACK);
          Some (rec\<lparr>pr_seq_list := Some (CIRC_LIST_ALLOC 16 8 SEQ_UNSEEN seq_backtrack),
                    pr_seq_backtrack := word_of_int seq_backtrack,
                    pr_time_backtrack := time_backtrack\<rparr>) }
        else Some rec);
     Some (rec\<lparr>pr_initialized := True\<rparr>) }"

definition packet_id_init :: "int \<Rightarrow> int \<Rightarrow> string option \<Rightarrow> int \<Rightarrow> packet_id option" where
  "packet_id_init seq_backtrack time_backtrack name unit = do {
     rec \<leftarrow> packet_id_init_recv clear_rec seq_backtrack time_backtrack name unit;
     Some \<lparr>pi_send = clear_send, pi_rec = rec\<rparr> }"

text \<open>\<open>packet_id_move_recv\<close>: the new \<open>dest\<close> and the reinitialised \<open>src\<close>.\<close>

definition packet_id_move_recv ::
  "packet_id_rec \<Rightarrow> packet_id_rec \<Rightarrow> (packet_id_rec \<times> packet_id_rec) option" where
  "packet_id_move_recv dest src = do {
     let dest = src;
     src \<leftarrow> packet_id_init_recv clear_rec (sint (ucast (pr_seq_backtrack dest) :: u32))
              (pr_time_backtrack dest) (pr_name dest) (pr_unit dest);
     Some (dest, src) }"

definition packet_id_free :: "packet_id option \<Rightarrow> packet_id option" where
  "packet_id_free p = map_option (\<lambda>p. \<lparr>pi_send = clear_send, pi_rec = clear_rec\<rparr>) p"

section \<open>The receiving side\<close>

text \<open>An \<open>int64_t\<close> argument in the place of an \<open>int\<close>.\<close>

definition int64_to_int :: "int \<Rightarrow> int" where
  "int64_to_int i = sint (word_of_int i :: u32)"

function (sequential) seq_advance :: "seq_list \<Rightarrow> u64 \<Rightarrow> u64 \<Rightarrow> (seq_list \<times> u64) option" where
  "seq_advance sl i target =
     (if i < target
      then (case CIRC_LIST_PUSH sl SEQ_UNSEEN of
              None \<Rightarrow> None | Some sl' \<Rightarrow> seq_advance sl' (i + 1) target)
      else Some (sl, i))"
  by pat_completeness auto
termination
proof (relation "measure (\<lambda>(sl, i, target). unat target - unat i)", simp)
  fix i target :: u64
  assume lt: "i < target"
  then have "unat (i + 1) = unat i + 1"
    by (rule unat_succ_less)
  with lt have "unat target - unat (i + 1) < unat target - unat i"
    by (simp add: word_less_nat_alt)
  then show "\<And>sl sl'. ((sl', i + 1, target), sl, i, target) \<in> measure (\<lambda>(sl, i, target). unat target - unat i)"
    by simp
qed

declare seq_advance.simps [simp del]

definition packet_id_add :: "c_time \<Rightarrow> packet_id_rec \<Rightarrow> packet_id_net \<Rightarrow> packet_id_rec option" where
  "packet_id_add now p pin =
     (case pr_seq_list p of
        None \<Rightarrow> Some (p\<lparr>pr_time := pn_time pin, pr_id := pn_id pin\<rparr>)
      | Some sl \<Rightarrow> do {
          let reset = (CIRC_LIST_SIZE sl = 0 \<or> pn_time pin > pr_time p \<or>
                       pn_id pin \<ge> pr_seq_backtrack p \<and> pn_id pin - pr_seq_backtrack p > pr_id p);
          let p1 = (if reset
                    then p\<lparr>pr_time := pn_time pin,
                           pr_id := (if pn_id pin > pr_seq_backtrack p
                                     then pn_id pin - pr_seq_backtrack p else 0)\<rparr>
                    else p);
          let sl1 = (if reset then CIRC_LIST_RESET sl else sl);
          (sl2, i) \<leftarrow> seq_advance sl1 (pr_id p1) (pn_id pin);
          let diff = sint (i - pn_id pin);
          sl3 \<leftarrow> (if diff < CIRC_LIST_SIZE sl2 \<and> now > SEQ_EXPIRED
                  then CIRC_LIST_ASSIGN sl2 (int64_to_int diff) now else Some sl2);
          Some (p1\<lparr>pr_id := i, pr_seq_list := Some sl3\<rparr>) })"

fun reap_loop :: "c_time \<Rightarrow> int \<Rightarrow> bool \<Rightarrow> seq_list \<Rightarrow> nat list \<Rightarrow> seq_list option" where
  "reap_loop now time_backtrack expire sl [] = Some sl"
| "reap_loop now time_backtrack expire sl (i # is) = do {
     t \<leftarrow> CIRC_LIST_ITEM sl (int i);
     if t = SEQ_EXPIRED then Some sl
     else do {
       let expire = (expire \<or> t \<noteq> 0 \<and> t + time_backtrack < now);
       sl \<leftarrow> (if expire then CIRC_LIST_ASSIGN sl (int i) SEQ_EXPIRED else Some sl);
       reap_loop now time_backtrack expire sl is } }"

definition packet_id_reap :: "c_time \<Rightarrow> packet_id_rec \<Rightarrow> packet_id_rec option" where
  "packet_id_reap now p = do {
     p \<leftarrow> (if pr_time_backtrack p \<noteq> 0
           then do {
             sl \<leftarrow> pr_seq_list p;
             sl \<leftarrow> reap_loop now (pr_time_backtrack p) False sl [0..<nat (CIRC_LIST_SIZE sl)];
             Some (p\<lparr>pr_seq_list := Some sl\<rparr>) }
           else Some p);
     Some (p\<lparr>pr_last_reap := now\<rparr>) }"

definition packet_id_reap_test :: "c_time \<Rightarrow> packet_id_rec \<Rightarrow> packet_id_rec option" where
  "packet_id_reap_test now p =
     (if pr_last_reap p + SEQ_REAP_INTERVAL \<le> now then packet_id_reap now p else Some p)"

definition packet_id_test :: "packet_id_rec \<Rightarrow> packet_id_net \<Rightarrow> (packet_id_rec \<times> bool) option" where
  "packet_id_test p pin = do {
     cassert (pr_initialized p);
     if pn_id pin = 0 then Some (p, False)
     else if pr_seq_backtrack p \<noteq> 0
     then
       (if pn_time pin = pr_time p
        then
          (if pn_id pin > pr_id p then Some (p, True)
           else do {
             let diff = pr_id p - pn_id pin;
             let p = (if diff > pr_max_backtrack_stat p then p\<lparr>pr_max_backtrack_stat := diff\<rparr> else p);
             sl \<leftarrow> pr_seq_list p;
             if diff \<ge> ucast (word_of_int (CIRC_LIST_SIZE sl) :: u32) then Some (p, False)
             else do {
               v \<leftarrow> CIRC_LIST_ITEM sl (int64_to_int (uint diff));
               Some (p, v = 0) } })
        else if pn_time pin < pr_time p then Some (p, False)
        else Some (p, True))
     else
       (if pn_time pin = pr_time p then Some (p, pr_id p = 0 \<or> pn_id pin = pr_id p + 1)
        else if pn_time pin < pr_time p then Some (p, False)
        else Some (p, pn_id pin = 1)) }"

text \<open>
  The receive path of \<open>crypto_check_replay\<close> on one receive record: reap, test, and record the
  packet if it is accepted.
\<close>

definition replay_check :: "c_time \<Rightarrow> packet_id_rec \<Rightarrow> packet_id_net \<Rightarrow> (packet_id_rec \<times> bool) option" where
  "replay_check now recv pin = do {
     recv \<leftarrow> packet_id_reap_test now recv;
     (recv, ok) \<leftarrow> packet_id_test recv pin;
     if ok then do { recv \<leftarrow> packet_id_add now recv pin; Some (recv, True) }
     else Some (recv, False) }"

section \<open>The sending side and the wire format\<close>

text \<open>\<open>htontime\<close>, \<open>ntohtime\<close>: 32-bit times on the wire.\<close>

definition time_to_net :: "c_time \<Rightarrow> u32" where "time_to_net t = word_of_int t"
definition net_to_time :: "u32 \<Rightarrow> c_time" where "net_to_time w = uint w"

definition packet_id_read ::
  "buffer \<Rightarrow> bool \<Rightarrow> (packet_id_net \<times> buffer \<times> bool) option" where
  "packet_id_read b long_form = do {
     let pin = \<lparr>pn_id = 0, pn_time = 0\<rparr>;
     (b, r) \<leftarrow> buf_read b 4;
     case r of
       None \<Rightarrow> Some (pin, b, False)
     | Some net_id \<Rightarrow> do {
         let pin = pin\<lparr>pn_id := ucast (de32 net_id)\<rparr>;
         if long_form
         then do {
           (b, r) \<leftarrow> buf_read b 4;
           case r of
             None \<Rightarrow> Some (pin, b, False)
           | Some net_time \<Rightarrow> Some (pin\<lparr>pn_time := net_to_time (de32 net_time)\<rparr>, b, True) }
         else Some (pin, b, True) } }"

definition packet_id_send_update :: "c_time \<Rightarrow> packet_id_send \<Rightarrow> bool \<Rightarrow> packet_id_send \<times> bool" where
  "packet_id_send_update now p long_form =
     (let p = (if ps_time p = 0 then p\<lparr>ps_time := now\<rparr> else p)
      in if ps_id p = PACKET_ID_MAX
         then (if \<not> long_form \<or> now \<le> ps_time p then (p, False)
               else (p\<lparr>ps_time := now, ps_id := 0 + 1\<rparr>, True))
         else (p\<lparr>ps_id := ps_id p + 1\<rparr>, True))"

definition packet_id_send_update_epoch :: "c_time \<Rightarrow> packet_id_send \<Rightarrow> packet_id_send \<times> bool" where
  "packet_id_send_update_epoch now p =
     (let p = (if ps_time p = 0 then p\<lparr>ps_time := now\<rparr> else p)
      in if ps_id p = PACKET_ID_EPOCH_MAX then (p, False)
         else (p\<lparr>ps_id := ps_id p + 1\<rparr>, True))"

definition packet_id_write ::
  "c_time \<Rightarrow> packet_id_send \<Rightarrow> buffer \<Rightarrow> bool \<Rightarrow> bool \<Rightarrow> (packet_id_send \<times> buffer \<times> bool) option" where
  "packet_id_write now p b long_form prepend =
     (case packet_id_send_update now p long_form of
        (p, False) \<Rightarrow> Some (p, b, False)
      | (p, True) \<Rightarrow>
          (let net_id = be32 (ucast (ps_id p)); net_time = be32 (time_to_net (ps_time p))
           in if prepend
              then do {
                (b, ok) \<leftarrow> (if long_form then buf_write_prepend b net_time else Some (b, True));
                if \<not> ok then Some (p, b, False)
                else do {
                  (b, ok) \<leftarrow> buf_write_prepend b net_id;
                  Some (p, b, ok) } }
              else do {
                (b, ok) \<leftarrow> buf_write b net_id;
                if \<not> ok then Some (p, b, False)
                else if long_form
                then do {
                  (b, ok) \<leftarrow> buf_write b net_time;
                  Some (p, b, ok) }
                else Some (p, b, True) }))"

definition packet_id_read_epoch ::
  "packet_id_net \<Rightarrow> buffer \<Rightarrow> (packet_id_net \<times> buffer \<times> u16) option" where
  "packet_id_read_epoch pin b = do {
     (b, r) \<leftarrow> buf_read b 8;
     case r of
       None \<Rightarrow> Some (pin, b, 0)
     | Some bs \<Rightarrow>
         (let i = de64 bs
          in Some (pin\<lparr>pn_id := i AND PACKET_ID_MASK\<rparr>, b, ucast (drop_bit 48 i))) }"

definition packet_id_write_epoch ::
  "c_time \<Rightarrow> packet_id_send \<Rightarrow> u16 \<Rightarrow> buffer \<Rightarrow> (packet_id_send \<times> buffer \<times> bool) option" where
  "packet_id_write_epoch now p epoch b =
     (case packet_id_send_update_epoch now p of
        (p, False) \<Rightarrow> Some (p, b, False)
      | (p, True) \<Rightarrow> do {
          (b, ok) \<leftarrow> buf_write b (be64 (push_bit 48 (ucast epoch) OR ps_id p));
          Some (p, b, ok) })"

definition packet_id_initialized :: "packet_id \<Rightarrow> bool" where
  "packet_id_initialized p = pr_initialized (pi_rec p)"

definition reset_packet_id_send :: "packet_id_send \<Rightarrow> packet_id_send" where
  "reset_packet_id_send p = p\<lparr>ps_time := 0, ps_id := 0\<rparr>"

definition packet_id_size :: "bool \<Rightarrow> int" where
  "packet_id_size long_form = 4 + (if long_form then 4 else 0)"

definition packet_id_close_to_wrapping :: "packet_id_send \<Rightarrow> bool" where
  "packet_id_close_to_wrapping p = (ps_id p \<ge> PACKET_ID_WRAP_TRIGGER)"

section \<open>Persistence\<close>

text \<open>
  The file system is a parameter: \<open>packet_id_persist_load\<close> receives the descriptor \<open>open\<close>
  returned (\<open>-1\<close> for a failure), whether the lock was obtained, and the image that was read if
  the whole image was; \<open>packet_id_persist_save\<close> receives whether the seek and the write succeed
  and returns the image it wrote.
\<close>

definition packet_id_persist_enabled :: "packet_id_persist \<Rightarrow> bool" where
  "packet_id_persist_enabled p = (pp_fd p \<ge> 0)"

definition packet_id_persist_init :: packet_id_persist where
  "packet_id_persist_init = \<lparr>pp_filename = None, pp_fd = - 1, pp_time = 0, pp_id = 0,
     pp_time_last_written = 0, pp_id_last_written = 0\<rparr>"

definition packet_id_persist_close :: "packet_id_persist \<Rightarrow> packet_id_persist" where
  "packet_id_persist_close p =
     (if packet_id_persist_enabled p then packet_id_persist_init else p)"

definition packet_id_persist_load ::
  "packet_id_persist \<Rightarrow> string \<Rightarrow> int \<Rightarrow> bool \<Rightarrow> (c_time \<times> u32) option \<Rightarrow> packet_id_persist option" where
  "packet_id_persist_load p filename fd locked img =
     (if \<not> packet_id_persist_enabled p
      then (let p = p\<lparr>pp_fd := fd\<rparr>
            in if fd = - 1 then Some p
               else do {
                 cassert locked;
                 let p = p\<lparr>pp_filename := Some filename\<rparr>;
                 Some (case img of
                         None \<Rightarrow> p
                       | Some (t, i) \<Rightarrow> p\<lparr>pp_time := t, pp_time_last_written := t,
                                         pp_id := i, pp_id_last_written := i\<rparr>) })
      else Some p)"

definition packet_id_persist_save ::
  "packet_id_persist \<Rightarrow> bool \<Rightarrow> bool \<Rightarrow> packet_id_persist \<times> (c_time \<times> u32) option" where
  "packet_id_persist_save p seek_ok write_ok =
     (if packet_id_persist_enabled p \<and> pp_time p \<noteq> 0 \<and>
         (pp_time p \<noteq> pp_time_last_written p \<or> pp_id p \<noteq> pp_id_last_written p)
      then
        (if seek_ok
         then (if write_ok
               then (p\<lparr>pp_time_last_written := pp_time p, pp_id_last_written := pp_id p\<rparr>,
                     Some (pp_time p, pp_id p))
               else (p, None))
         else (p, None))
      else (p, None))"

definition packet_id_persist_load_obj ::
  "packet_id_persist option \<Rightarrow> packet_id option \<Rightarrow> packet_id option" where
  "packet_id_persist_load_obj p pid =
     (case (p, pid) of
        (Some p', Some pid') \<Rightarrow>
          (if packet_id_persist_enabled p' \<and> pp_time p' \<noteq> 0
           then Some (pid'\<lparr>pi_rec := (pi_rec pid')\<lparr>pr_time := pp_time p', pr_id := ucast (pp_id p')\<rparr>\<rparr>)
           else pid)
      | _ \<Rightarrow> pid)"

definition packet_id_persist_save_obj :: "packet_id_persist \<Rightarrow> packet_id \<Rightarrow> packet_id_persist" where
  "packet_id_persist_save_obj p pid =
     (if packet_id_persist_enabled p \<and> pr_time (pi_rec pid) \<noteq> 0
      then p\<lparr>pp_time := pr_time (pi_rec pid), pp_id := ucast (pr_id (pi_rec pid))\<rparr>
      else p)"

section \<open>The replay window against its specification\<close>

text \<open>
  The specification remembers every number it has seen: the latest time \<open>T\<close>, the highest number
  \<open>M\<close> at that time, and the set \<open>S\<close> of the numbers seen (or expired) at that time.  \<open>w\<close> is the
  width of the window.
\<close>

type_synonym replay_spec = "c_time \<times> nat \<times> nat set"

definition spec_test :: "nat \<Rightarrow> replay_spec \<Rightarrow> c_time \<times> nat \<Rightarrow> bool" where
  "spec_test w s x = (case (s, x) of ((T, M, S), (t, n)) \<Rightarrow>
     n \<noteq> 0 \<and> (t > T \<or> t = T \<and> (n > M \<or> n \<notin> S \<and> M < n + w)))"

definition spec_add :: "replay_spec \<Rightarrow> c_time \<times> nat \<Rightarrow> replay_spec" where
  "spec_add s x = (case (s, x) of ((T, M, S), (t, n)) \<Rightarrow>
     if t > T then (t, n, {n}) else (T, max M n, insert n S))"

definition pid_pair :: "packet_id_net \<Rightarrow> c_time \<times> nat" where
  "pid_pair pin = (pn_time pin, unat (pn_id pin))"

text \<open>The invariant of a receive record in backtrack mode with window \<open>w\<close>, and the abstraction.\<close>

definition rec_ok :: "nat \<Rightarrow> packet_id_rec \<Rightarrow> seq_list \<Rightarrow> bool" where
  "rec_ok w p sl \<longleftrightarrow> pr_initialized p \<and> pr_seq_list p = Some sl \<and> cl_ok sl \<and> x_cap sl = int w \<and>
     0 < w \<and> w \<le> 65536 \<and> unat (pr_seq_backtrack p) = w \<and>
     length (cl_view sl) = min (unat (pr_id p)) w"

definition window_rel :: "nat \<Rightarrow> packet_id_rec \<Rightarrow> replay_spec \<Rightarrow> bool" where
  "window_rel w p s = (case s of (T, M, S) \<Rightarrow>
     \<exists>sl. rec_ok w p sl \<and> T = pr_time p \<and> M = unat (pr_id p) \<and> S \<subseteq> {1..M} \<and>
       (\<forall>i < length (cl_view sl). cl_view sl ! i \<noteq> 0 \<longleftrightarrow> M - i \<in> S))"

lemma window_relI:
  assumes "rec_ok w p sl" "pr_time p = T" "unat (pr_id p) = M" "S \<subseteq> {1..M}"
    "\<And>i. i < length (cl_view sl) \<Longrightarrow> cl_view sl ! i \<noteq> 0 \<longleftrightarrow> M - i \<in> S"
  shows "window_rel w p (T, M, S)"
  using assms unfolding window_rel_def by blast

lemma int64_to_int_small: "0 \<le> i \<Longrightarrow> i < 2 ^ 31 \<Longrightarrow> int64_to_int i = i"
  by (simp add: int64_to_int_def int_word_sint)

lemma seq_advance_view:
  assumes "cl_ok sl" "0 < x_cap sl" "i \<le> target"
  shows "\<exists>sl'. seq_advance sl i target = Some (sl', target) \<and> cl_ok sl' \<and> x_cap sl' = x_cap sl \<and>
    cl_view sl' = take (nat (x_cap sl)) (replicate (unat target - unat i) 0 @ cl_view sl)"
  using assms
proof (induction sl i target rule: seq_advance.induct)
  case (1 sl i target)
  show ?case
  proof (cases "i < target")
    case False
    then have "i = target" using 1(4) by simp
    then show ?thesis using 1(2) cl_length[OF 1(2)] by (simp add: seq_advance.simps)
  next
    case True
    obtain sl1 where sl1: "CIRC_LIST_PUSH sl SEQ_UNSEEN = Some sl1" "cl_ok sl1" "x_cap sl1 = x_cap sl"
      "cl_view sl1 = take (nat (x_cap sl)) (SEQ_UNSEEN # cl_view sl)"
      using cl_push[OF 1(2), of SEQ_UNSEEN] by auto
    have le: "i + 1 \<le> target" using True by (simp add: inc_le)
    have u: "unat (i + 1) = unat i + 1"
      using True by (rule unat_succ_less)
    have d: "unat target - unat i = Suc (unat target - unat (i + 1))"
      using True u by (simp add: word_less_nat_alt)
    obtain sl2 where sl2: "seq_advance sl1 (i + 1) target = Some (sl2, target)" "cl_ok sl2"
      "x_cap sl2 = x_cap sl"
      "cl_view sl2 = take (nat (x_cap sl)) (replicate (unat target - unat (i + 1)) 0 @ cl_view sl1)"
      using 1(1)[OF True sl1(1) sl1(2) _ le] 1(3) sl1(3) by auto
    have tk: "take c (xs @ take c ys) = take c (xs @ ys)" for c and xs ys :: "c_time list"
      by (simp add: min_def)
    have "replicate (unat target - unat i) 0 @ cl_view sl =
        replicate (unat target - unat (i + 1)) 0 @ 0 # cl_view sl"
      unfolding d by (simp add: replicate_app_Cons_same)
    then have "cl_view sl2 = take (nat (x_cap sl)) (replicate (unat target - unat i) 0 @ cl_view sl)"
      unfolding sl2(4) sl1(4) SEQ_UNSEEN_def tk by simp
    then show ?thesis using True sl1(1) sl2 by (simp add: seq_advance.simps[of sl])
  qed
qed

lemma packet_id_test_rel:
  assumes rel: "window_rel w p s"
  shows "\<exists>p'. packet_id_test p pin = Some (p', spec_test w s (pid_pair pin)) \<and> window_rel w p' s \<and>
    pr_time_backtrack p' = pr_time_backtrack p"
proof -
  obtain T M S where s: "s = (T, M, S)" by (cases s) auto
  obtain sl where ok: "rec_ok w p sl" and T: "T = pr_time p" and M: "M = unat (pr_id p)"
    and S: "S \<subseteq> {1..M}" and v: "\<And>i. i < length (cl_view sl) \<Longrightarrow> cl_view sl ! i \<noteq> 0 \<longleftrightarrow> M - i \<in> S"
    using rel by (auto simp: window_rel_def s)
  have sl: "pr_initialized p" "pr_seq_list p = Some sl" "cl_ok sl" "x_cap sl = int w" "0 < w" "w \<le> 65536"
    "unat (pr_seq_backtrack p) = w" "length (cl_view sl) = min M w"
    using ok M by (auto simp: rec_ok_def)
  have nz: "pr_seq_backtrack p \<noteq> 0" using sl(5,7) by auto
  let ?n = "unat (pn_id pin)" and ?d = "pr_id p - pn_id pin"
  let ?p = "if ?d > pr_max_backtrack_stat p then p\<lparr>pr_max_backtrack_stat := ?d\<rparr> else p"
  have rel': "window_rel w ?p s" and tb: "pr_time_backtrack ?p = pr_time_backtrack p"
    using rel by (auto simp: window_rel_def s rec_ok_def)
  show ?thesis
  proof (cases "pn_id pin = 0 \<or> pn_time pin \<noteq> T \<or> pn_id pin > pr_id p")
    case True
    then show ?thesis using rel sl(1) nz T M
      by (auto simp: packet_id_test_def spec_test_def s pid_pair_def word_less_nat_alt unat_gt_0)
  next
    case False
    then have n: "?n \<noteq> 0" "?n \<le> M" "pn_id pin \<le> pr_id p"
      using M by (auto simp: word_le_nat_alt word_less_nat_alt unat_eq_0)
    have d: "unat ?d = M - ?n" using n(3) M by (simp add: unat_sub)
    have sz: "unat (ucast (word_of_int (CIRC_LIST_SIZE sl) :: u32) :: u64) = min M w"
      using sl(3,6,8) by (simp add: unsigned_ucast_eq take_bit_nat_eq_self unat_of_nat)
    have big: "?d \<ge> ucast (word_of_int (CIRC_LIST_SIZE sl) :: u32) \<longleftrightarrow> \<not> M < ?n + w"
      using n sz d by (auto simp: word_le_nat_alt)
    show ?thesis
    proof (cases "M < ?n + w")
      case False
      then show ?thesis using big rel' tb sl(1,2) nz T n \<open>\<not> (_ \<or> _)\<close>
        by (auto simp: packet_id_test_def spec_test_def s pid_pair_def Let_def word_less_nat_alt M[symmetric])
    next
      case True
      then have i: "M - ?n < length (cl_view sl)" using n sl(8) by simp
      then have "int64_to_int (uint ?d) = int (M - ?n)"
        using d sl(6,8) by (simp add: int64_to_int_small uint_nat)
      then have it: "CIRC_LIST_ITEM sl (int64_to_int (uint ?d)) = Some (cl_view sl ! (M - ?n))"
        using cl_item[OF sl(3) i] by simp
      have "cl_view sl ! (M - ?n) = 0 \<longleftrightarrow> ?n \<notin> S" using v[OF i] n by auto
      then show ?thesis using True big it rel' tb sl(1,2) nz T n \<open>\<not> (_ \<or> _)\<close>
        by (auto simp: packet_id_test_def spec_test_def s pid_pair_def Let_def word_less_nat_alt M[symmetric])
    qed
  qed
qed
text \<open>The case in which the window starts afresh below the new number.\<close>

lemma packet_id_add_reset:
  assumes ok: "rec_ok w p sl" and now: "now > 1" and n: "unat (pn_id pin) = n" "0 < n"
    and reset: "CIRC_LIST_SIZE sl = 0 \<or> pn_time pin > pr_time p \<or>
      pn_id pin \<ge> pr_seq_backtrack p \<and> pn_id pin - pr_seq_backtrack p > pr_id p"
  shows "\<exists>p' sl'. packet_id_add now p pin = Some p' \<and> rec_ok w p' sl' \<and> pr_time p' = pn_time pin \<and>
    pr_id p' = pn_id pin \<and> cl_view sl' = now # replicate (min n w - 1) 0 \<and>
    pr_time_backtrack p' = pr_time_backtrack p"
proof -
  have sl: "pr_initialized p" "pr_seq_list p = Some sl" "cl_ok sl" "x_cap sl = int w" "0 < w" "w \<le> 65536"
    "unat (pr_seq_backtrack p) = w"
    using ok by (auto simp: rec_ok_def)
  define i0 where "i0 = (if pn_id pin > pr_seq_backtrack p then pn_id pin - pr_seq_backtrack p else 0)"
  have i0: "unat i0 = n - w" "i0 \<le> pn_id pin"
    using sl(7) n by (auto simp: i0_def word_less_nat_alt word_le_nat_alt unat_sub)
  obtain sl2 where sl2: "seq_advance (CIRC_LIST_RESET sl) i0 (pn_id pin) = Some (sl2, pn_id pin)"
    "cl_ok sl2" "x_cap sl2 = int w" "cl_view sl2 = take w (replicate (n - (n - w)) 0)"
    using seq_advance_view[of "CIRC_LIST_RESET sl" i0 "pn_id pin"] sl i0 n by auto
  have v2: "cl_view sl2 = replicate (min n w) 0" using sl2(4) by (simp add: min_def)
  then have l2: "0 < length (cl_view sl2)" using n sl(5) by simp
  obtain sl3 where sl3: "CIRC_LIST_ASSIGN sl2 0 now = Some sl3" "cl_ok sl3" "x_cap sl3 = int w"
    "cl_view sl3 = (cl_view sl2)[0 := now]"
    using cl_assign[OF sl2(2) l2, of now] sl2(3) by auto
  have v3: "cl_view sl3 = now # replicate (min n w - 1) 0"
    using v2 l2 unfolding sl3(4) by (cases "min n w") simp_all
  have i0': "int64_to_int 0 = 0" by (simp add: int64_to_int_small)
  let ?p = "p\<lparr>pr_time := pn_time pin, pr_id := pn_id pin, pr_seq_list := Some sl3\<rparr>"
  have "packet_id_add now p pin = Some ?p"
    using reset sl2(1,2) l2 sl3(1) now sl(2) i0'
    by (simp add: packet_id_add_def Let_def i0_def SEQ_EXPIRED_def)
  moreover have "rec_ok w ?p sl3"
    using sl sl3(2,3) v3 n by (simp add: rec_ok_def)
  ultimately show ?thesis using v3 by (intro exI[of _ ?p] exI[of _ sl3]) simp
qed

text \<open>The case in which the window moves up to the new number, or the number is inside it.\<close>

lemma packet_id_add_slide:
  assumes ok: "rec_ok w p sl" and now: "now > 1" and n: "unat (pn_id pin) = n" "0 < n"
    and M: "unat (pr_id p) = M" "0 < M"
    and stay: "pn_time pin = pr_time p" "n \<le> M + w" "M < n + w"
  shows "\<exists>p' sl'. packet_id_add now p pin = Some p' \<and> rec_ok w p' sl' \<and> pr_time p' = pr_time p \<and>
    unat (pr_id p') = max M n \<and>
    cl_view sl' = (take w (replicate (n - M) 0 @ cl_view sl))[M - n := now] \<and>
    pr_time_backtrack p' = pr_time_backtrack p"
proof -
  have sl: "pr_initialized p" "pr_seq_list p = Some sl" "cl_ok sl" "x_cap sl = int w" "0 < w" "w \<le> 65536"
    "unat (pr_seq_backtrack p) = w" "length (cl_view sl) = min M w"
    using ok M by (auto simp: rec_ok_def)
  have noreset: "(CIRC_LIST_SIZE sl = 0 \<or> pn_time pin > pr_time p \<or>
      pn_id pin \<ge> pr_seq_backtrack p \<and> pn_id pin - pr_seq_backtrack p > pr_id p) = False"
    using sl M n stay by (auto simp: word_le_nat_alt word_less_nat_alt unat_sub)
  define i1 where "i1 = max (pr_id p) (pn_id pin)"
  have i1: "unat i1 = max M n" using M n by (auto simp: i1_def max_def word_le_nat_alt)
  have "\<exists>sl2. seq_advance sl (pr_id p) (pn_id pin) = Some (sl2, i1) \<and> cl_ok sl2 \<and> x_cap sl2 = int w \<and>
      cl_view sl2 = take w (replicate (n - M) 0 @ cl_view sl)"
  proof (cases "pr_id p \<le> pn_id pin")
    case True
    then show ?thesis using seq_advance_view[OF sl(3) _ True] sl(4,5) M n by (auto simp: i1_def max_def)
  next
    case False
    then have "n \<le> M" using M n by (simp add: word_le_nat_alt)
    then show ?thesis using False sl(3,4,8)
      by (auto simp: seq_advance.simps[of sl] i1_def max_def)
  qed
  then obtain sl2 where sl2: "seq_advance sl (pr_id p) (pn_id pin) = Some (sl2, i1)" "cl_ok sl2"
    "x_cap sl2 = int w" "cl_view sl2 = take w (replicate (n - M) 0 @ cl_view sl)" by blast
  have len2: "length (cl_view sl2) = min (max M n) w" using sl2(4) sl(8) by (auto simp: min_def max_def)
  have d: "unat (i1 - pn_id pin) = M - n"
    using i1 n by (subst unat_sub) (auto simp: i1_def max_def)
  have lt: "M - n < length (cl_view sl2)" using len2 stay(3) sl(5) n(2) by auto
  have small: "M - n < 2 ^ 16" using stay(3) sl(6) by simp
  then have sd: "sint (i1 - pn_id pin) = int (M - n)"
    using d by (simp add: sint_uint signed_take_bit_int_eq_self uint_nat)
  obtain sl3 where sl3: "CIRC_LIST_ASSIGN sl2 (int (M - n)) now = Some sl3" "cl_ok sl3" "x_cap sl3 = int w"
    "cl_view sl3 = (cl_view sl2)[M - n := now]"
    using cl_assign[OF sl2(2) lt, of now] sl2(3) by auto
  have i64: "int64_to_int (int (M - n)) = int (M - n)" using small by (simp add: int64_to_int_small)
  let ?p = "p\<lparr>pr_id := i1, pr_seq_list := Some sl3\<rparr>"
  have "packet_id_add now p pin = Some ?p"
    unfolding packet_id_add_def sl(2) option.case Let_def noreset if_False
    using sl2(1,2) lt sl3(1) now i64 by (simp add: sd SEQ_EXPIRED_def)
  moreover have "rec_ok w ?p sl3"
    using sl sl3 len2 i1 by (simp add: rec_ok_def)
  ultimately show ?thesis using i1 sl2(4) sl3(4) by (intro exI[of _ ?p] exI[of _ sl3]) simp
qed

lemma packet_id_add_rel:
  assumes rel: "window_rel w p s" and now: "now > 1" and acc: "spec_test w s (pid_pair pin)"
  shows "\<exists>p'. packet_id_add now p pin = Some p' \<and> window_rel w p' (spec_add s (pid_pair pin)) \<and>
    pr_time_backtrack p' = pr_time_backtrack p"
proof -
  obtain T M S where s: "s = (T, M, S)" by (cases s) auto
  obtain sl where ok: "rec_ok w p sl" and T: "T = pr_time p" and M: "M = unat (pr_id p)"
    and S: "S \<subseteq> {1..M}" and v: "\<And>i. i < length (cl_view sl) \<Longrightarrow> cl_view sl ! i \<noteq> 0 \<longleftrightarrow> M - i \<in> S"
    using rel by (auto simp: window_rel_def s)
  have sl: "cl_ok sl" "0 < w" "length (cl_view sl) = min M w" "unat (pr_seq_backtrack p) = w"
    using ok M by (auto simp: rec_ok_def)
  let ?n = "unat (pn_id pin)" and ?t = "pn_time pin"
  have a: "0 < ?n" "?t > T \<or> ?t = T \<and> (?n > M \<or> ?n \<notin> S \<and> M < ?n + w)"
    using acc by (auto simp: spec_test_def s pid_pair_def)
  show ?thesis
  proof (cases "M = 0 \<or> ?t > T \<or> M + w < ?n")
    case True
    then have reset: "CIRC_LIST_SIZE sl = 0 \<or> pn_time pin > pr_time p \<or>
        pn_id pin \<ge> pr_seq_backtrack p \<and> pn_id pin - pr_seq_backtrack p > pr_id p"
      using sl T M by (auto simp: word_le_nat_alt word_less_nat_alt unat_sub)
    obtain p' sl' where p': "packet_id_add now p pin = Some p'" "rec_ok w p' sl'"
      "pr_time p' = ?t" "pr_id p' = pn_id pin" "cl_view sl' = now # replicate (min ?n w - 1) 0"
      "pr_time_backtrack p' = pr_time_backtrack p"
      using packet_id_add_reset[OF ok now refl a(1) reset] by blast
    define S' where "S' = (if ?t > T then {?n} else insert ?n S)"
    have S'_sub: "S' \<subseteq> {1..?n}" using True S a by (auto simp: S'_def)
    have "spec_add s (pid_pair pin) = (?t, ?n, S')"
      using True a by (auto simp: spec_add_def s pid_pair_def S'_def max_def)
    moreover have "cl_view sl' ! i \<noteq> 0 \<longleftrightarrow> ?n - i \<in> S'" if i: "i < length (cl_view sl')" for i
    proof (cases i)
      case 0
      then show ?thesis using p'(5) now by (simp add: S'_def)
    next
      case (Suc j)
      have "?n - i \<notin> S'"
      proof
        assume "?n - i \<in> S'"
        then have "?n - i \<in> S" "\<not> ?t > T" using Suc i p'(5) by (auto simp: S'_def split: if_splits)
        moreover from this have "?n - i \<le> M" using S by auto
        ultimately show False using True S i p'(5) sl(2) by auto
      qed
      then show ?thesis using i p'(5) Suc by simp
    qed
    moreover from this have "window_rel w p' (?t, ?n, S')"
      using p'(4) S'_sub by (intro window_relI[OF p'(2,3)]) simp_all
    ultimately show ?thesis using p'(1,6) by simp
  next
    case False
    then have b: "?t = T" "0 < M" "?n \<le> M + w" "M < ?n + w" using a by auto
    obtain p' sl' where p': "packet_id_add now p pin = Some p'" "rec_ok w p' sl'"
      "pr_time p' = pr_time p" "unat (pr_id p') = max M ?n"
      "cl_view sl' = (take w (replicate (?n - M) 0 @ cl_view sl))[M - ?n := now]"
      "pr_time_backtrack p' = pr_time_backtrack p"
      using packet_id_add_slide[OF ok now refl a(1) M[symmetric] b(2)] b T by blast
    have "spec_add s (pid_pair pin) = (T, max M ?n, insert ?n S)"
      using b(1) by (simp add: spec_add_def s pid_pair_def)
    moreover have sub: "insert ?n S \<subseteq> {1..max M ?n}" using a(1) by (auto dest!: subsetD[OF S])
    moreover have "cl_view sl' ! i \<noteq> 0 \<longleftrightarrow> max M ?n - i \<in> insert ?n S" if i: "i < length (cl_view sl')" for i
    proof -
      have len: "length (cl_view sl') = min (max M ?n) w" using p'(2,4) by (simp add: rec_ok_def)
      consider "i = M - ?n" | "i \<noteq> M - ?n" "i < ?n - M" | "i \<noteq> M - ?n" "?n - M \<le> i" by linarith
      then show ?thesis
      proof cases
        case 1
        then show ?thesis using i p'(5) now by (auto simp: max_def)
      next
        case 2
        then have "max M ?n - i \<notin> insert ?n S" by (auto simp: max_def dest!: subsetD[OF S])
        moreover have "i < w" using i len by simp
        ultimately show ?thesis using 2 i p'(5) by (simp add: nth_append)
      next
        case 3
        then have j: "i - (?n - M) < length (cl_view sl)" using i len sl(3)
          by (auto simp: max_def split: if_splits)
        have e: "M - (i - (?n - M)) = max M ?n - i" "max M ?n - i \<noteq> ?n"
          using 3 i len by (auto simp: max_def split: if_splits)
        have "cl_view sl' ! i = cl_view sl ! (i - (?n - M))"
          unfolding p'(5) using 3 nth_take[of i w "replicate (?n - M) 0 @ cl_view sl"] i len
          by (simp add: nth_append del: take_append)
        then show ?thesis using v[OF j] e by simp
      qed
    qed
    moreover from this have "window_rel w p' (T, max M ?n, insert ?n S)"
      using p'(3) T by (intro window_relI[OF p'(2) _ p'(4) sub]) simp_all
    ultimately show ?thesis using p'(1,6) by simp
  qed
qed
section \<open>Expiry\<close>

text \<open>
  What a reap pass makes of the window: from the first entry that is too old on, the entries up to
  the first already expired one are expired.
\<close>

definition too_old :: "c_time \<Rightarrow> int \<Rightarrow> c_time \<Rightarrow> bool" where
  "too_old now tb t \<longleftrightarrow> t \<noteq> 0 \<and> t + tb < now"

fun reap_view :: "c_time \<Rightarrow> int \<Rightarrow> bool \<Rightarrow> c_time list \<Rightarrow> c_time list" where
  "reap_view now tb e [] = []"
| "reap_view now tb e (t # ts) =
     (if t = SEQ_EXPIRED then t # ts
      else if e \<or> too_old now tb t then SEQ_EXPIRED # reap_view now tb True ts
      else t # reap_view now tb False ts)"

lemma length_reap_view [simp]: "length (reap_view now tb e v) = length v"
  by (induction now tb e v rule: reap_view.induct) auto

lemma reap_view_seen: "i < length v \<Longrightarrow> v ! i \<noteq> 0 \<Longrightarrow> reap_view now tb e v ! i \<noteq> 0"
  by (induction now tb e v arbitrary: i rule: reap_view.induct)
    (auto simp: nth_Cons SEQ_EXPIRED_def split: nat.splits)

lemma reap_loop_view:
  assumes "cl_ok sl" "length (cl_view sl) = j + n"
  shows "\<exists>sl'. reap_loop now tb e sl [j..<j + n] = Some sl' \<and> cl_ok sl' \<and> x_cap sl' = x_cap sl \<and>
    cl_view sl' = take j (cl_view sl) @ reap_view now tb e (drop j (cl_view sl))"
  using assms
proof (induction n arbitrary: j e sl)
  case 0
  then show ?case by simp
next
  case (Suc n)
  let ?v = "cl_view sl"
  have j: "j < length ?v" using Suc.prems by simp
  have d: "drop j ?v = ?v ! j # drop (Suc j) ?v" using j by (rule Cons_nth_drop_Suc[symmetric])
  have tk: "take (Suc j) ?v = take j ?v @ [?v ! j]" using j by (rule take_Suc_conv_app_nth)
  have u: "[j..<j + Suc n] = j # [Suc j..<Suc j + n]" by (subst upt_conv_Cons) simp_all
  have it: "CIRC_LIST_ITEM sl (int j) = Some (?v ! j)" using cl_item[OF Suc.prems(1) j] .
  consider "?v ! j = SEQ_EXPIRED" | "?v ! j \<noteq> SEQ_EXPIRED" "e \<or> too_old now tb (?v ! j)"
    | "?v ! j \<noteq> SEQ_EXPIRED" "\<not> (e \<or> too_old now tb (?v ! j))" by blast
  then show ?case
  proof cases
    case 1
    then have "reap_view now tb e (drop j ?v) = drop j ?v" by (simp add: d)
    then show ?thesis using Suc.prems(1) unfolding u by (simp add: it 1)
  next
    case 2
    obtain sl1 where sl1: "CIRC_LIST_ASSIGN sl (int j) SEQ_EXPIRED = Some sl1" "cl_ok sl1"
      "cl_view sl1 = ?v[j := SEQ_EXPIRED]" "x_cap sl1 = x_cap sl"
      using cl_assign[OF Suc.prems(1) j] by blast
    obtain sl2 where sl2: "reap_loop now tb True sl1 [Suc j..<Suc j + n] = Some sl2" "cl_ok sl2"
      "x_cap sl2 = x_cap sl"
      "cl_view sl2 = take (Suc j) (cl_view sl1) @ reap_view now tb True (drop (Suc j) (cl_view sl1))"
      using Suc.IH[of sl1 "Suc j" True] sl1(2-4) Suc.prems(2) by auto
    have "reap_loop now tb e sl [j..<j + Suc n] = Some sl2"
      unfolding u using 2 it sl1(1) sl2(1) by (auto simp: too_old_def Let_def)
    moreover have "cl_view sl2 = take j ?v @ reap_view now tb e (drop j ?v)"
      using 2 j unfolding sl2(4) sl1(3) d by (auto simp: take_Suc_conv_app_nth)
    ultimately show ?thesis using sl2(2,3) by blast
  next
    case 3
    obtain sl2 where sl2: "reap_loop now tb False sl [Suc j..<Suc j + n] = Some sl2" "cl_ok sl2"
      "x_cap sl2 = x_cap sl"
      "cl_view sl2 = take (Suc j) ?v @ reap_view now tb False (drop (Suc j) ?v)"
      using Suc.IH[of sl "Suc j" False] Suc.prems by auto
    have "reap_loop now tb e sl [j..<j + Suc n] = Some sl2"
      unfolding u using 3 it sl2(1) by (auto simp: too_old_def Let_def)
    moreover have "cl_view sl2 = take j ?v @ reap_view now tb e (drop j ?v)"
      using 3 unfolding sl2(4) d tk by simp
    ultimately show ?thesis using sl2(2,3) by blast
  qed
qed

lemma packet_id_reap_rel:
  assumes rel: "window_rel w p (T, M, S)"
  shows "\<exists>p' S'. packet_id_reap now p = Some p' \<and> window_rel w p' (T, M, S') \<and> S \<subseteq> S' \<and>
    (pr_time_backtrack p = 0 \<longrightarrow> S' = S) \<and> pr_time_backtrack p' = pr_time_backtrack p"
proof (cases "pr_time_backtrack p = 0")
  case True
  then show ?thesis using rel by (auto simp: packet_id_reap_def window_rel_def rec_ok_def)
next
  case False
  obtain sl where ok: "rec_ok w p sl" and T: "T = pr_time p" and M: "M = unat (pr_id p)"
    and S: "S \<subseteq> {1..M}" and v: "\<And>i. i < length (cl_view sl) \<Longrightarrow> cl_view sl ! i \<noteq> 0 \<longleftrightarrow> M - i \<in> S"
    using rel by (auto simp: window_rel_def)
  have sl: "pr_seq_list p = Some sl" "cl_ok sl" "length (cl_view sl) = min M w"
    using ok M by (auto simp: rec_ok_def)
  let ?v = "reap_view now (pr_time_backtrack p) False (cl_view sl)"
  obtain sl' where sl': "reap_loop now (pr_time_backtrack p) False sl [0..<length (cl_view sl)] = Some sl'"
    "cl_ok sl'" "x_cap sl' = x_cap sl" "cl_view sl' = ?v"
    using reap_loop_view[OF sl(2), of 0 "length (cl_view sl)" now "pr_time_backtrack p" False] by auto
  let ?p = "p\<lparr>pr_seq_list := Some sl', pr_last_reap := now\<rparr>"
  define S' where "S' = S \<union> {M - i | i. i < length (cl_view sl) \<and> ?v ! i \<noteq> 0}"
  have "packet_id_reap now p = Some ?p"
    using False sl sl'(1) by (simp add: packet_id_reap_def)
  moreover have "window_rel w ?p (T, M, S')"
  proof (rule window_relI[where sl = sl'])
    show "rec_ok w ?p sl'" using ok sl'(2-4) by (simp add: rec_ok_def)
    show "S' \<subseteq> {1..M}" using S sl(3) by (auto simp: S'_def)
    fix i assume "i < length (cl_view sl')"
    then have i: "i < length (cl_view sl)" using sl'(4) by simp
    have "?v ! i \<noteq> 0" if "M - i \<in> S'"
    proof -
      from that consider "M - i \<in> S" | j where "j < length (cl_view sl)" "?v ! j \<noteq> 0" "M - i = M - j"
        by (auto simp: S'_def)
      then show ?thesis
      proof cases
        case 1
        then show ?thesis using v[OF i] reap_view_seen[OF i] by simp
      next
        case 2
        then have "j = i" using i sl(3) by auto
        then show ?thesis using 2 by simp
      qed
    qed
    then show "cl_view sl' ! i \<noteq> 0 \<longleftrightarrow> M - i \<in> S'"
      using i sl'(4) by (auto simp: S'_def)
  qed (simp_all add: T M)
  ultimately show ?thesis using False by (intro exI[of _ ?p] exI[of _ S']) (simp add: S'_def)
qed

section \<open>Runs of the receive path\<close>

text \<open>The packets a sequence of arrivals (clock and packet number) gets accepted, in order.\<close>

fun replay_run ::
  "packet_id_rec \<Rightarrow> (c_time \<times> packet_id_net) list \<Rightarrow> (packet_id_rec \<times> packet_id_net list) option" where
  "replay_run p [] = Some (p, [])"
| "replay_run p ((now, pin) # xs) = do {
     (p, ok) \<leftarrow> replay_check now p pin;
     (p, acc) \<leftarrow> replay_run p xs;
     Some (p, if ok then pin # acc else acc) }"

fun spec_run :: "nat \<Rightarrow> replay_spec \<Rightarrow> packet_id_net list \<Rightarrow> packet_id_net list" where
  "spec_run w s [] = []"
| "spec_run w s (x # xs) =
     (if spec_test w s (pid_pair x) then x # spec_run w (spec_add s (pid_pair x)) xs
      else spec_run w s xs)"

lemma replay_check_rel:
  assumes rel: "window_rel w p (T, M, S)" and now: "now > 1"
  shows "\<exists>p' S' ok. replay_check now p pin = Some (p', ok) \<and> S \<subseteq> S' \<and>
    S' \<subseteq> {1..M} \<and> (pr_time_backtrack p = 0 \<longrightarrow> S' = S) \<and>
    ok = spec_test w (T, M, S') (pid_pair pin) \<and>
    window_rel w p' (if ok then spec_add (T, M, S') (pid_pair pin) else (T, M, S')) \<and>
    pr_time_backtrack p' = pr_time_backtrack p"
proof -
  have "\<exists>p1 S'. packet_id_reap_test now p = Some p1 \<and> window_rel w p1 (T, M, S') \<and> S \<subseteq> S' \<and>
    (pr_time_backtrack p = 0 \<longrightarrow> S' = S) \<and> pr_time_backtrack p1 = pr_time_backtrack p"
  proof (cases "pr_last_reap p + SEQ_REAP_INTERVAL \<le> now")
    case True
    then show ?thesis using packet_id_reap_rel[OF rel, of now] by (simp add: packet_id_reap_test_def)
  next
    case False
    then show ?thesis using rel by (intro exI[of _ p] exI[of _ S]) (simp add: packet_id_reap_test_def)
  qed
  then obtain p1 S' where p1: "packet_id_reap_test now p = Some p1" "window_rel w p1 (T, M, S')" "S \<subseteq> S'"
    "pr_time_backtrack p = 0 \<longrightarrow> S' = S" "pr_time_backtrack p1 = pr_time_backtrack p" by blast
  have sub: "S' \<subseteq> {1..M}" using p1(2) by (auto simp: window_rel_def)
  obtain p2 where p2: "packet_id_test p1 pin = Some (p2, spec_test w (T, M, S') (pid_pair pin))"
    "window_rel w p2 (T, M, S')" "pr_time_backtrack p2 = pr_time_backtrack p"
    using packet_id_test_rel[OF p1(2), of pin] p1(5) by auto
  show ?thesis
  proof (cases "spec_test w (T, M, S') (pid_pair pin)")
    case False
    then show ?thesis using p1 p2 sub by (intro exI[of _ p2] exI[of _ S'] exI[of _ False]) (simp add: replay_check_def)
  next
    case True
    then obtain p3 where "packet_id_add now p2 pin = Some p3"
      "window_rel w p3 (spec_add (T, M, S') (pid_pair pin))" "pr_time_backtrack p3 = pr_time_backtrack p2"
      using packet_id_add_rel[OF p2(2) now True] by blast
    then show ?thesis using p1 p2 sub True
      by (intro exI[of _ p3] exI[of _ S'] exI[of _ True]) (simp add: replay_check_def)
  qed
qed

text \<open>Which numbers a specification state can still accept.\<close>

definition spec_fresh :: "replay_spec \<Rightarrow> c_time \<times> nat \<Rightarrow> bool" where
  "spec_fresh s x = (case (s, x) of ((T, M, S), (t, n)) \<Rightarrow> t > T \<or> t = T \<and> n \<notin> S)"

lemma spec_add_fresh:
  "spec_test w s x \<Longrightarrow> \<not> spec_fresh (spec_add s x) x"
  by (auto simp: spec_test_def spec_add_def spec_fresh_def split: prod.splits)

lemma spec_add_stale:
  "\<not> spec_fresh s y \<Longrightarrow> spec_test w s x \<Longrightarrow> \<not> spec_fresh (spec_add s x) y"
  by (auto simp: spec_test_def spec_add_def spec_fresh_def split: prod.splits if_splits)

lemma spec_fresh_mono: "S \<subseteq> S' \<Longrightarrow> \<not> spec_fresh (T, M, S) y \<Longrightarrow> \<not> spec_fresh (T, M, S') y"
  by (auto simp: spec_fresh_def split: prod.splits)

lemma spec_test_fresh: "S \<subseteq> {1..M} \<Longrightarrow> spec_test w (T, M, S) x \<Longrightarrow> spec_fresh (T, M, S) x"
  by (auto simp: spec_test_def spec_fresh_def split: prod.splits dest!: subsetD)

lemma replay_run_fresh:
  assumes "window_rel w p s" "\<forall>(now, pin) \<in> set xs. now > 1"
  shows "\<exists>p' s' acc. replay_run p xs = Some (p', acc) \<and> window_rel w p' s' \<and>
    distinct (map pid_pair acc) \<and> (\<forall>y \<in> set acc. spec_fresh s (pid_pair y))"
  using assms
proof (induction xs arbitrary: p s)
  case Nil
  then show ?case by (cases s) auto
next
  case (Cons x xs)
  obtain now pin where x: "x = (now, pin)" by fastforce
  obtain T M S where s: "s = (T, M, S)" by (cases s) auto
  obtain p1 S' ok where p1: "replay_check now p pin = Some (p1, ok)" "S \<subseteq> S'"
    "ok = spec_test w (T, M, S') (pid_pair pin)"
    "window_rel w p1 (if ok then spec_add (T, M, S') (pid_pair pin) else (T, M, S'))" "S' \<subseteq> {1..M}"
    using replay_check_rel[of w p T M S now pin] Cons.prems x s by auto
  let ?s = "if ok then spec_add (T, M, S') (pid_pair pin) else (T, M, S')"
  obtain p2 s2 acc where r: "replay_run p1 xs = Some (p2, acc)" "window_rel w p2 s2"
    "distinct (map pid_pair acc)" "\<forall>y \<in> set acc. spec_fresh ?s (pid_pair y)"
    using Cons.IH[OF p1(4)] Cons.prems(2) by auto
  have old: "spec_fresh s (pid_pair y)" if "spec_fresh ?s (pid_pair y)" for y
  proof (rule ccontr)
    assume "\<not> spec_fresh s (pid_pair y)"
    then have "\<not> spec_fresh (T, M, S') (pid_pair y)" using spec_fresh_mono[OF p1(2)] s by blast
    then show False using that spec_add_stale p1(3) by (auto split: if_splits)
  qed
  show ?case
  proof (cases ok)
    case False
    then show ?thesis using r old p1(1) x by (auto simp del: split_paired_Ex)
  next
    case True
    then have t: "spec_test w (T, M, S') (pid_pair pin)" using p1(3) by simp
    have "pid_pair pin \<notin> pid_pair ` set acc"
    proof
      assume "pid_pair pin \<in> pid_pair ` set acc"
      then obtain y where "y \<in> set acc" "pid_pair pin = pid_pair y" by auto
      then show False using r(4) spec_add_fresh[OF t] True by auto
    qed
    moreover have "spec_fresh s (pid_pair pin)"
      using spec_fresh_mono[OF p1(2)] spec_test_fresh[OF p1(5) t] s by blast
    ultimately show ?thesis using r old p1(1) x True by (auto simp del: split_paired_Ex)
  qed
qed

text \<open>Without a time limit the code accepts exactly what the specification accepts.\<close>

lemma replay_run_spec:
  assumes "window_rel w p s" "pr_time_backtrack p = 0" "\<forall>(now, pin) \<in> set xs. now > 1"
  shows "\<exists>p'. replay_run p xs = Some (p', spec_run w s (map snd xs))"
  using assms
proof (induction xs arbitrary: p s)
  case Nil
  then show ?case by simp
next
  case (Cons x xs)
  obtain now pin where x: "x = (now, pin)" by fastforce
  obtain T M S where s: "s = (T, M, S)" by (cases s) auto
  obtain p1 ok where p1: "replay_check now p pin = Some (p1, ok)" "ok = spec_test w s (pid_pair pin)"
    "window_rel w p1 (if ok then spec_add s (pid_pair pin) else s)" "pr_time_backtrack p1 = 0"
    using replay_check_rel[of w p T M S now pin] Cons.prems x s by auto
  from Cons.IH[OF p1(3,4)] Cons.prems(3) p1(1,2) x show ?case by auto
qed

lemma packet_id_init_rel:
  assumes "0 < w" "w \<le> 65536" "0 \<le> tb" "tb \<le> 600"
  shows "\<exists>p. packet_id_init (int w) tb name unit = Some p \<and> window_rel w (pi_rec p) (0, 0, {}) \<and>
    pr_time_backtrack (pi_rec p) = tb \<and> pi_send p = clear_send"
proof -
  let ?p = "clear_rec\<lparr>pr_name := name, pr_unit := unit,
     pr_seq_list := Some (CIRC_LIST_ALLOC 16 8 SEQ_UNSEEN (int w)),
     pr_seq_backtrack := word_of_int (int w), pr_time_backtrack := tb, pr_initialized := True\<rparr>"
  have "unat (word_of_int (int w) :: u64) = w" using assms(2) by (simp add: unat_of_nat)
  then have "window_rel w ?p (0, 0, {})"
    using assms by (intro window_relI[where sl = "CIRC_LIST_ALLOC 16 8 SEQ_UNSEEN (int w)"])
      (simp_all add: rec_ok_def clear_rec_def)
  moreover have "packet_id_init (int w) tb name unit = Some \<lparr>pi_send = clear_send, pi_rec = ?p\<rparr>"
    using assms by (simp add: packet_id_init_def packet_id_init_recv_def MIN_SEQ_BACKTRACK_def
        MAX_SEQ_BACKTRACK_def MIN_TIME_BACKTRACK_def MAX_TIME_BACKTRACK_def clear_rec_def)
  ultimately show ?thesis by simp
qed

section \<open>The replay window with its time limit\<close>

text \<open>
  The specification with the time limit \<open>tb\<close>: it remembers when each number was accepted, and a
  floor, below which every number is refused.  At most every five seconds the floor rises to the
  highest number of the window that was accepted more than \<open>tb\<close> seconds ago.
\<close>

record timed_spec =
  ts_time :: c_time
  ts_max :: nat
  ts_seen :: "nat \<rightharpoonup> c_time"
  ts_floor :: nat
  ts_reaped :: c_time

definition timed_init :: timed_spec where
  "timed_init = \<lparr>ts_time = 0, ts_max = 0, ts_seen = Map.empty, ts_floor = 0, ts_reaped = 0\<rparr>"

definition timed_old :: "int \<Rightarrow> c_time \<Rightarrow> timed_spec \<Rightarrow> nat \<Rightarrow> bool" where
  "timed_old tb now s n = (case ts_seen s n of None \<Rightarrow> False | Some t \<Rightarrow> t + tb < now)"

definition timed_reap :: "nat \<Rightarrow> int \<Rightarrow> c_time \<Rightarrow> timed_spec \<Rightarrow> timed_spec" where
  "timed_reap w tb now s =
     (if ts_reaped s + 5 \<le> now
      then s\<lparr>ts_reaped := now,
             ts_floor := (if tb = 0 then ts_floor s
                          else Max (set (ts_floor s # filter (timed_old tb now s) [ts_max s + 1 - w..<ts_max s + 1])))\<rparr>
      else s)"

definition timed_test :: "nat \<Rightarrow> timed_spec \<Rightarrow> c_time \<times> nat \<Rightarrow> bool" where
  "timed_test w s x = (case x of (t, n) \<Rightarrow>
     n \<noteq> 0 \<and> (t > ts_time s \<or> t = ts_time s \<and>
       (n > ts_max s \<or> ts_max s < n + w \<and> ts_floor s < n \<and> ts_seen s n = None)))"

definition timed_add :: "c_time \<Rightarrow> timed_spec \<Rightarrow> c_time \<times> nat \<Rightarrow> timed_spec" where
  "timed_add now s x = (case x of (t, n) \<Rightarrow>
     if t > ts_time s then s\<lparr>ts_time := t, ts_max := n, ts_seen := [n \<mapsto> now], ts_floor := 0\<rparr>
     else s\<lparr>ts_max := max (ts_max s) n, ts_seen := (ts_seen s)(n \<mapsto> now)\<rparr>)"

fun timed_run :: "nat \<Rightarrow> int \<Rightarrow> timed_spec \<Rightarrow> (c_time \<times> packet_id_net) list \<Rightarrow> packet_id_net list" where
  "timed_run w tb s [] = []"
| "timed_run w tb s ((now, pin) # xs) =
     (let s = timed_reap w tb now s in
      if timed_test w s (pid_pair pin) then pin # timed_run w tb (timed_add now s (pid_pair pin)) xs
      else timed_run w tb s xs)"

text \<open>The entry of the code's window for number \<open>n\<close>.\<close>

definition timed_entry :: "timed_spec \<Rightarrow> nat \<Rightarrow> c_time" where
  "timed_entry s n = (if n \<le> ts_floor s then SEQ_EXPIRED else case ts_seen s n of None \<Rightarrow> SEQ_UNSEEN | Some t \<Rightarrow> t)"

definition timed_rel :: "nat \<Rightarrow> int \<Rightarrow> packet_id_rec \<Rightarrow> timed_spec \<Rightarrow> bool" where
  "timed_rel w tb p s \<longleftrightarrow> (\<exists>sl. rec_ok w p sl \<and> ts_time s = pr_time p \<and> ts_max s = unat (pr_id p) \<and>
     ts_reaped s = pr_last_reap p \<and> pr_time_backtrack p = tb \<and> ts_floor s \<le> ts_max s \<and>
     dom (ts_seen s) \<subseteq> {1..ts_max s} \<and> (\<forall>t \<in> ran (ts_seen s). t > 1) \<and>
     (\<forall>i < length (cl_view sl). cl_view sl ! i = timed_entry s (ts_max s - i)))"

definition timed_seen :: "timed_spec \<Rightarrow> nat set" where
  "timed_seen s = {n \<in> {1..ts_max s}. n \<le> ts_floor s \<or> ts_seen s n \<noteq> None}"

lemma timed_rel_window:
  assumes "timed_rel w tb p s"
  shows "window_rel w p (ts_time s, ts_max s, timed_seen s)"
proof -
  obtain sl where sl: "rec_ok w p sl" "ts_time s = pr_time p" "ts_max s = unat (pr_id p)"
    "\<forall>t \<in> ran (ts_seen s). t > 1" "\<forall>i < length (cl_view sl). cl_view sl ! i = timed_entry s (ts_max s - i)"
    using assms by (auto simp: timed_rel_def)
  have len: "length (cl_view sl) \<le> ts_max s" using sl(1,3) by (simp add: rec_ok_def)
  show ?thesis
  proof (rule window_relI[OF sl(1)])
    fix i assume i: "i < length (cl_view sl)"
    then have "1 \<le> ts_max s - i" "ts_max s - i \<le> ts_max s" using len by auto
    then show "cl_view sl ! i \<noteq> 0 \<longleftrightarrow> ts_max s - i \<in> timed_seen s"
      using sl(4,5) i by (auto simp: timed_entry_def timed_seen_def SEQ_EXPIRED_def SEQ_UNSEEN_def ran_def split: option.splits)
  qed (use sl(2,3) in \<open>auto simp: timed_seen_def\<close>)
qed

lemma timed_test_spec:
  "timed_test w s x = spec_test w (ts_time s, ts_max s, timed_seen s) x"
  by (cases x) (auto simp: timed_test_def spec_test_def timed_seen_def)

lemma packet_id_test_keeps:
  assumes "packet_id_test p pin = Some (p', ok)"
  shows "\<exists>x. p' = p\<lparr>pr_max_backtrack_stat := x\<rparr>"
proof -
  have e: "\<exists>x. p = p\<lparr>pr_max_backtrack_stat := x\<rparr>" by (rule exI[of _ "pr_max_backtrack_stat p"]) simp
  show ?thesis using assms e
    by (auto simp: packet_id_test_def Let_def bind_eq_Some_conv split: if_splits option.splits)
qed

lemma timed_rel_test:
  assumes "timed_rel w tb p s"
  shows "\<exists>p'. packet_id_test p pin = Some (p', timed_test w s (pid_pair pin)) \<and> timed_rel w tb p' s"
proof -
  obtain p' where p': "packet_id_test p pin = Some (p', timed_test w s (pid_pair pin))"
    using packet_id_test_rel[OF timed_rel_window[OF assms], of pin] by (auto simp: timed_test_spec)
  obtain x where "p' = p\<lparr>pr_max_backtrack_stat := x\<rparr>" using packet_id_test_keeps[OF p'] by blast
  then have "timed_rel w tb p' s" using assms by (simp add: timed_rel_def rec_ok_def)
  then show ?thesis using p' by blast
qed

text \<open>A reap pass stops at the first expired entry, below which all are expired.\<close>

lemma reap_view_expired: "reap_view now tb e (replicate k SEQ_EXPIRED) = replicate k SEQ_EXPIRED"
  by (cases k) simp_all

lemma reap_view_on: "SEQ_EXPIRED \<notin> set xs \<Longrightarrow>
  reap_view now tb True (xs @ replicate k SEQ_EXPIRED) = replicate (length xs + k) SEQ_EXPIRED"
  by (induction xs) (auto simp: reap_view_expired)

lemma reap_view_split: "SEQ_EXPIRED \<notin> set xs \<Longrightarrow>
  reap_view now tb False (xs @ replicate k SEQ_EXPIRED) =
    takeWhile (\<lambda>t. \<not> too_old now tb t) xs @
    replicate (length (dropWhile (\<lambda>t. \<not> too_old now tb t) xs) + k) SEQ_EXPIRED"
  by (induction xs) (auto simp: reap_view_expired reap_view_on)

lemma timed_view_split:
  assumes "timed_rel w tb p s" "rec_ok w p sl" "\<forall>i < length (cl_view sl). cl_view sl ! i = timed_entry s (ts_max s - i)"
  defines "xs \<equiv> map (\<lambda>i. timed_entry s (ts_max s - i)) [0..<min (length (cl_view sl)) (ts_max s - ts_floor s)]"
  shows "cl_view sl = xs @ replicate (length (cl_view sl) - length xs) SEQ_EXPIRED \<and> SEQ_EXPIRED \<notin> set xs"
proof
  have s: "ts_floor s \<le> ts_max s" "\<forall>t \<in> ran (ts_seen s). t > 1" using assms(1) by (auto simp: timed_rel_def)
  show "cl_view sl = xs @ replicate (length (cl_view sl) - length xs) SEQ_EXPIRED"
    by (rule nth_equalityI) (use s(1) assms(3) in \<open>auto simp: xs_def nth_append timed_entry_def\<close>)
  have no: "timed_entry s n \<noteq> SEQ_EXPIRED" if "ts_floor s < n" for n
    using that s(2) by (auto simp: timed_entry_def SEQ_EXPIRED_def SEQ_UNSEEN_def ran_def split: option.splits)
  show "SEQ_EXPIRED \<notin> set xs"
  proof
    assume "SEQ_EXPIRED \<in> set xs"
    then obtain i where i: "SEQ_EXPIRED = timed_entry s (ts_max s - i)" "i < ts_max s - ts_floor s"
      by (auto simp: xs_def)
    then have "ts_floor s < ts_max s - i" by linarith
    then show False using i(1) no by metis
  qed
qed

lemma timed_reap_floor:
  fixes now :: c_time
  assumes rel: "timed_rel w tb p s" and ok: "rec_ok w p sl"
    and v: "\<forall>i < length (cl_view sl). cl_view sl ! i = timed_entry s (ts_max s - i)" and i: "i < length (cl_view sl)"
  defines "F \<equiv> Max (set (ts_floor s # filter (timed_old tb now s) [ts_max s + 1 - w..<ts_max s + 1]))"
  shows "reap_view now tb False (cl_view sl) ! i = timed_entry (s\<lparr>ts_floor := F\<rparr>) (ts_max s - i)"
proof -
  let ?M = "ts_max s" and ?O = "set (ts_floor s # filter (timed_old tb now s) [ts_max s + 1 - w..<ts_max s + 1])"
  define xs where "xs = map (\<lambda>i. timed_entry s (?M - i)) [0..<min (length (cl_view sl)) (?M - ts_floor s)]"
  define j where "j = length (takeWhile (\<lambda>t. \<not> too_old now tb t) xs)"
  have s: "ts_max s = unat (pr_id p)" "\<forall>t \<in> ran (ts_seen s). t > 1" using rel by (auto simp: timed_rel_def)
  have len: "length (cl_view sl) = min ?M w" using ok s(1) by (simp add: rec_ok_def)
  obtain k where sp: "cl_view sl = xs @ replicate k SEQ_EXPIRED" "SEQ_EXPIRED \<notin> set xs"
    using timed_view_split[OF rel ok v] unfolding xs_def by blast
  have lx: "length xs = min (length (cl_view sl)) (?M - ts_floor s)" by (simp add: xs_def)
  have x: "xs ! k = timed_entry s (?M - k)" if "k < length xs" for k using that by (simp add: xs_def)
  have jl: "j \<le> length xs" unfolding j_def by (rule length_takeWhile_le)
  have old: "timed_old tb now s (?M - k) = too_old now tb (xs ! k)" if "k < length xs" for k
  proof -
    have "k < ?M - ts_floor s" using that lx by simp
    then have "ts_floor s < ?M - k" by linarith
    then show ?thesis using s(2) x[OF that]
      by (auto simp: timed_old_def too_old_def timed_entry_def SEQ_UNSEEN_def ran_def split: option.splits)
  qed
  have floor: "i < j \<longleftrightarrow> \<not> ?M - i \<le> F"
  proof
    assume ij: "i < j"
    have "n < ?M - i" if n: "n \<in> ?O" for n
    proof (rule ccontr)
      assume ge: "\<not> n < ?M - i"
      have il: "i < length xs" using ij jl by simp
      then have "i < ?M - ts_floor s" using lx by simp
      then have "ts_floor s < ?M - i" by linarith
      then have n': "timed_old tb now s n" "n \<le> ?M" using n ge by auto
      then have k: "?M - (?M - n) = n" "?M - n < j" using ge ij by simp_all
      then have "too_old now tb (xs ! (?M - n))" using old[of "?M - n"] n'(1) jl by simp
      moreover have "\<not> too_old now tb (xs ! (?M - n))"
        using k(2) set_takeWhileD[of "xs ! (?M - n)" "\<lambda>t. \<not> too_old now tb t" xs] nth_mem[of "?M - n" "takeWhile (\<lambda>t. \<not> too_old now tb t) xs"]
        unfolding j_def by (simp add: takeWhile_nth)
      ultimately show False by simp
    qed
    moreover have "F \<in> ?O" unfolding F_def by (rule Max_in) simp_all
    ultimately show "\<not> ?M - i \<le> F" by fastforce
  next
    assume le: "\<not> ?M - i \<le> F"
    show "i < j"
    proof (rule ccontr)
      assume ij: "\<not> i < j"
      have top: "n \<le> F" if "n \<in> ?O" for n unfolding F_def using that by (intro Max_ge) simp_all
      show False
      proof (cases "j = length xs")
        case True
        then have "?M - i \<le> ts_floor s" using ij i lx by auto
        then show False using le top[of "ts_floor s"] by simp
      next
        case False
        then have jx: "j < length xs" using jl by simp
        then have "too_old now tb (xs ! j)" unfolding j_def using nth_length_takeWhile by blast
        then have "timed_old tb now s (?M - j)" using old[OF jx] by simp
        moreover have "?M - j \<in> set [?M + 1 - w..<?M + 1]" using jx lx len by auto
        ultimately have "?M - j \<in> ?O" unfolding set_simps set_filter by blast
        then have "?M - j \<le> F" by (rule top)
        then show False using le ij by simp
      qed
    qed
  qed
  have "reap_view now tb False (cl_view sl) ! i = (if i < j then xs ! i else SEQ_EXPIRED)"
  proof -
    have l: "length (takeWhile (\<lambda>t. \<not> too_old now tb t) xs) + length (dropWhile (\<lambda>t. \<not> too_old now tb t) xs) = length xs"
      by (metis length_append takeWhile_dropWhile_id)
    have "i < length xs + k" using i unfolding sp(1) by simp
    then show ?thesis unfolding sp(1) reap_view_split[OF sp(2)]
      using l by (auto simp: nth_append takeWhile_nth j_def)
  qed
  then show ?thesis using floor x[of i] jl lx i by (auto simp: timed_entry_def split: if_splits)
qed

lemma timed_rel_reap:
  assumes rel: "timed_rel w tb p s"
  shows "\<exists>p'. packet_id_reap_test now p = Some p' \<and> timed_rel w tb p' (timed_reap w tb now s)"
proof (cases "pr_last_reap p + SEQ_REAP_INTERVAL \<le> now \<and> tb \<noteq> 0")
  case False
  then show ?thesis using rel
    by (auto simp: timed_rel_def packet_id_reap_test_def packet_id_reap_def timed_reap_def SEQ_REAP_INTERVAL_def rec_ok_def
        timed_entry_def)
next
  case True
  obtain sl where sl: "rec_ok w p sl" "ts_time s = pr_time p" "ts_max s = unat (pr_id p)" "ts_reaped s = pr_last_reap p"
    "pr_time_backtrack p = tb" "ts_floor s \<le> ts_max s" "dom (ts_seen s) \<subseteq> {1..ts_max s}" "\<forall>t \<in> ran (ts_seen s). t > 1"
    and v: "\<forall>i < length (cl_view sl). cl_view sl ! i = timed_entry s (ts_max s - i)"
    using rel by (auto simp: timed_rel_def)
  have cl: "cl_ok sl" "pr_seq_list p = Some sl" using sl(1) by (simp_all add: rec_ok_def)
  define F where "F = Max (set (ts_floor s # filter (timed_old tb now s) [ts_max s + 1 - w..<ts_max s + 1]))"
  obtain sl' where sl': "reap_loop now tb False sl [0..<length (cl_view sl)] = Some sl'" "cl_ok sl'" "x_cap sl' = x_cap sl"
    "cl_view sl' = reap_view now tb False (cl_view sl)"
    using reap_loop_view[OF cl(1), of 0 "length (cl_view sl)" now tb False] by auto
  let ?p = "p\<lparr>pr_seq_list := Some sl', pr_last_reap := now\<rparr>"
  have r: "packet_id_reap_test now p = Some ?p"
    using True cl sl(5) sl'(1) by (simp add: packet_id_reap_test_def packet_id_reap_def)
  have s': "timed_reap w tb now s = s\<lparr>ts_reaped := now, ts_floor := F\<rparr>"
    using True sl(4) by (simp add: timed_reap_def F_def SEQ_REAP_INTERVAL_def)
  have "F \<in> set (ts_floor s # filter (timed_old tb now s) [ts_max s + 1 - w..<ts_max s + 1])"
    unfolding F_def by (rule Max_in) simp_all
  then have "F \<le> ts_max s" using sl(6) by auto
  moreover have "rec_ok w ?p sl'" using sl(1) sl'(2-4) by (simp add: rec_ok_def)
  moreover have "cl_view sl' ! i = timed_entry (s\<lparr>ts_reaped := now, ts_floor := F\<rparr>) (ts_max s - i)"
    if "i < length (cl_view sl')" for i
  proof -
    have "i < length (cl_view sl)" using that sl'(4) by simp
    from timed_reap_floor[OF rel sl(1) v this, of now] show ?thesis unfolding sl'(4) F_def by (simp add: timed_entry_def)
  qed
  ultimately have "timed_rel w tb ?p (timed_reap w tb now s)"
    unfolding s' timed_rel_def using sl by (intro exI[of _ sl']) simp
  then show ?thesis using r by blast
qed

lemma packet_id_add_keeps:
  assumes "packet_id_add now p pin = Some p'"
  shows "pr_last_reap p' = pr_last_reap p"
  using assms by (auto simp: packet_id_add_def Let_def bind_eq_Some_conv split: option.splits if_splits)

lemma timed_rel_add:
  assumes rel: "timed_rel w tb p s" and now: "now > 1" and acc: "timed_test w s (pid_pair pin)"
  shows "\<exists>p'. packet_id_add now p pin = Some p' \<and> timed_rel w tb p' (timed_add now s (pid_pair pin))"
proof -
  obtain sl where ok: "rec_ok w p sl" and T: "ts_time s = pr_time p" and M: "ts_max s = unat (pr_id p)"
    and L: "ts_reaped s = pr_last_reap p" and tb: "pr_time_backtrack p = tb" and F: "ts_floor s \<le> ts_max s"
    and dom: "dom (ts_seen s) \<subseteq> {1..ts_max s}" and ran: "\<forall>t \<in> ran (ts_seen s). t > 1"
    and v: "\<forall>i < length (cl_view sl). cl_view sl ! i = timed_entry s (ts_max s - i)"
    using rel by (auto simp: timed_rel_def)
  have sl: "cl_ok sl" "0 < w" "length (cl_view sl) = min (ts_max s) w" "unat (pr_seq_backtrack p) = w"
    using ok M by (auto simp: rec_ok_def)
  let ?n = "unat (pn_id pin)" and ?t = "pn_time pin" and ?M = "ts_max s" and ?s = "timed_add now s (pid_pair pin)"
  have a: "0 < ?n" "?t > ts_time s \<or> ?t = ts_time s \<and> (?n > ?M \<or> ?M < ?n + w \<and> ts_floor s < ?n)"
    using acc by (auto simp: timed_test_def pid_pair_def)
  have unseen: "ts_seen s k = None" if "?M < k" for k using dom that by (auto simp: subset_iff domIff)
  have ran': "\<forall>t \<in> ran (ts_seen ?s). t > 1" and L': "ts_reaped ?s = ts_reaped s"
    using ran now by (auto simp: timed_add_def pid_pair_def ran_def split: if_splits)
  show ?thesis
  proof (cases "?M = 0 \<or> ?t > ts_time s \<or> ?M + w < ?n")
    case True
    then have reset: "CIRC_LIST_SIZE sl = 0 \<or> pn_time pin > pr_time p \<or>
        pn_id pin \<ge> pr_seq_backtrack p \<and> pn_id pin - pr_seq_backtrack p > pr_id p"
      using sl T M by (auto simp: word_le_nat_alt word_less_nat_alt unat_sub)
    obtain p' sl' where p': "packet_id_add now p pin = Some p'" "rec_ok w p' sl'"
      "pr_time p' = ?t" "pr_id p' = pn_id pin" "cl_view sl' = now # replicate (min ?n w - 1) 0"
      "pr_time_backtrack p' = pr_time_backtrack p"
      using packet_id_add_reset[OF ok now refl a(1) reset] by blast
    have s': "ts_time ?s = ?t" "ts_max ?s = ?n" using True a by (auto simp: timed_add_def pid_pair_def max_def)
    have F': "ts_floor ?s < ?n" using True a F by (auto simp: timed_add_def pid_pair_def)
    have dom': "dom (ts_seen ?s) \<subseteq> {1..?n}"
      using True a dom by (auto simp: timed_add_def pid_pair_def split: if_splits)
    have "cl_view sl' ! i = timed_entry ?s (?n - i)" if i: "i < length (cl_view sl')" for i
    proof (cases i)
      case 0
      then show ?thesis using p'(5) F' by (simp add: timed_entry_def timed_add_def pid_pair_def)
    next
      case (Suc j)
      have b: "i < ?n" "i < w" using i p'(5) Suc by auto
      then have "?t > ts_time s \<or> ?M < ?n - i" using True by auto
      then have "ts_seen ?s (?n - i) = None" "ts_floor ?s < ?n - i"
        using Suc b F unseen[of "?n - i"] a by (auto simp: timed_add_def pid_pair_def)
      then show ?thesis using i p'(5) Suc by (simp add: timed_entry_def SEQ_UNSEEN_def)
    qed
    then have "timed_rel w tb p' ?s"
      unfolding timed_rel_def using p' s' F' dom' ran' L L' tb packet_id_add_keeps[OF p'(1)]
      by (intro exI[of _ sl']) simp
    then show ?thesis using p'(1) by blast
  next
    case False
    then have b: "?t = ts_time s" "0 < ?M" "?n \<le> ?M + w" "?M < ?n + w" "ts_floor s < ?n" using a F by auto
    obtain p' sl' where p': "packet_id_add now p pin = Some p'" "rec_ok w p' sl'"
      "pr_time p' = pr_time p" "unat (pr_id p') = max ?M ?n"
      "cl_view sl' = (take w (replicate (?n - ?M) 0 @ cl_view sl))[?M - ?n := now]"
      "pr_time_backtrack p' = pr_time_backtrack p"
      using packet_id_add_slide[OF ok now refl a(1) M[symmetric] b(2)] b T by metis
    have s': "?s = s\<lparr>ts_max := max ?M ?n, ts_seen := (ts_seen s)(?n \<mapsto> now)\<rparr>"
      using b(1) by (simp add: timed_add_def pid_pair_def)
    have len: "length (cl_view sl') = min (max ?M ?n) w" using p'(2,4) by (simp add: rec_ok_def)
    have "cl_view sl' ! i = timed_entry ?s (max ?M ?n - i)" if i: "i < length (cl_view sl')" for i
    proof -
      consider "i = ?M - ?n" | "i \<noteq> ?M - ?n" "i < ?n - ?M" | "i \<noteq> ?M - ?n" "?n - ?M \<le> i" by linarith
      then show ?thesis
      proof cases
        case 1
        then have "max ?M ?n - i = ?n" by (auto simp: max_def)
        then show ?thesis using 1 i p'(5) b(5) by (simp add: s' timed_entry_def)
      next
        case 2
        then have "ts_seen s (max ?M ?n - i) = None" "ts_floor s < max ?M ?n - i" "max ?M ?n - i \<noteq> ?n"
          using unseen[of "max ?M ?n - i"] F by (auto simp: max_def)
        moreover have "i < w" using i len by simp
        ultimately show ?thesis using 2 i p'(5) by (simp add: s' nth_append timed_entry_def SEQ_UNSEEN_def)
      next
        case 3
        then have j: "i - (?n - ?M) < length (cl_view sl)" using i len sl(3)
          by (auto simp: max_def split: if_splits)
        have e: "?M - (i - (?n - ?M)) = max ?M ?n - i" "max ?M ?n - i \<noteq> ?n"
          using 3 i len by (auto simp: max_def split: if_splits)
        have "cl_view sl' ! i = cl_view sl ! (i - (?n - ?M))"
          unfolding p'(5) using 3 nth_take[of i w "replicate (?n - ?M) 0 @ cl_view sl"] i len
          by (simp add: nth_append del: take_append)
        also have "\<dots> = timed_entry s (max ?M ?n - i)" using v j e(1) by simp
        finally show ?thesis using e(2) by (simp add: s' timed_entry_def)
      qed
    qed
    moreover have "dom (ts_seen ?s) \<subseteq> {1..max ?M ?n}" 
    proof -
      have "dom (ts_seen ?s) = insert ?n (dom (ts_seen s))" by (simp add: s')
      moreover have "{1..?M} \<subseteq> {1..max ?M ?n}" "?n \<in> {1..max ?M ?n}" using a(1) by auto
      ultimately show ?thesis using dom by (metis insert_subset subset_trans)
    qed
    ultimately have "timed_rel w tb p' ?s"
      unfolding timed_rel_def using p' s' F ran' L L' tb T packet_id_add_keeps[OF p'(1)]
      by (intro exI[of _ sl']) simp
    then show ?thesis using p'(1) by blast
  qed
qed

lemma replay_run_timed:
  assumes "timed_rel w tb p s" "\<forall>(now, pin) \<in> set xs. now > 1"
  shows "\<exists>p'. replay_run p xs = Some (p', timed_run w tb s xs)"
  using assms
proof (induction xs arbitrary: p s)
  case Nil
  then show ?case by simp
next
  case (Cons x xs)
  obtain now pin where x: "x = (now, pin)" by fastforce
  let ?s = "timed_reap w tb now s"
  obtain p1 where p1: "packet_id_reap_test now p = Some p1" "timed_rel w tb p1 ?s"
    using timed_rel_reap[OF Cons.prems(1)] by blast
  obtain p2 where p2: "packet_id_test p1 pin = Some (p2, timed_test w ?s (pid_pair pin))" "timed_rel w tb p2 ?s"
    using timed_rel_test[OF p1(2)] by blast
  show ?case
  proof (cases "timed_test w ?s (pid_pair pin)")
    case False
    then obtain p' where "replay_run p2 xs = Some (p', timed_run w tb ?s xs)" using Cons.IH[OF p2(2)] Cons.prems(2) by auto
    then show ?thesis using False p1(1) p2(1) x by (simp add: replay_check_def Let_def)
  next
    case True
    obtain p3 where p3: "packet_id_add now p2 pin = Some p3" "timed_rel w tb p3 (timed_add now ?s (pid_pair pin))"
      using timed_rel_add[OF p2(2) _ True] Cons.prems(2) x by auto
    then obtain p' where "replay_run p3 xs = Some (p', timed_run w tb (timed_add now ?s (pid_pair pin)) xs)"
      using Cons.IH[OF p3(2)] Cons.prems(2) by auto
    then show ?thesis using True p1(1) p2(1) p3(1) x by (simp add: replay_check_def Let_def)
  qed
qed

lemma packet_id_init_timed:
  assumes "0 < w" "w \<le> 65536" "0 \<le> tb" "tb \<le> 600" "packet_id_init (int w) tb name unit = Some p"
  shows "timed_rel w tb (pi_rec p) timed_init"
proof -
  have p: "window_rel w (pi_rec p) (0, 0, {})" "pr_time_backtrack (pi_rec p) = tb"
    using packet_id_init_rel[OF assms(1-4), of name unit] assms(5) by auto
  have "pr_last_reap (pi_rec p) = 0"
    using assms(5) by (auto simp: packet_id_init_def packet_id_init_recv_def clear_rec_def bind_eq_Some_conv Let_def split: if_splits)
  then show ?thesis using p by (auto simp: window_rel_def timed_rel_def timed_init_def rec_ok_def)
qed

section \<open>Streams with increasing numbers\<close>

definition pid_less :: "c_time \<times> nat \<Rightarrow> c_time \<times> nat \<Rightarrow> bool" where
  "pid_less x y \<longleftrightarrow> fst x < fst y \<or> fst x = fst y \<and> snd x < snd y"

lemma pid_less_trans: "pid_less x y \<Longrightarrow> pid_less y z \<Longrightarrow> pid_less x z"
  by (auto simp: pid_less_def)

text \<open>A number above everything seen is accepted whatever the window holds.\<close>

lemma replay_run_increasing:
  assumes "window_rel w p (T, M, S)" "\<forall>(now, pin) \<in> set xs. now > 1 \<and> pn_id pin \<noteq> 0"
    "sorted_wrt pid_less ((T, M) # map (pid_pair \<circ> snd) xs)"
  shows "\<exists>p'. replay_run p xs = Some (p', map snd xs)"
  using assms
proof (induction xs arbitrary: p T M S)
  case Nil
  then show ?case by simp
next
  case (Cons x xs)
  obtain now pin where x: "x = (now, pin)" by fastforce
  obtain p1 S' ok where p1: "replay_check now p pin = Some (p1, ok)" "S' \<subseteq> {1..M}"
    "ok = spec_test w (T, M, S') (pid_pair pin)"
    "window_rel w p1 (if ok then spec_add (T, M, S') (pid_pair pin) else (T, M, S'))"
    using replay_check_rel[of w p T M S now pin] Cons.prems(1,2) x by auto
  have lt: "pid_less (T, M) (pid_pair pin)" using Cons.prems(3) x by simp
  then have ok: ok using Cons.prems(2) x p1(3)
    by (auto simp: spec_test_def pid_less_def pid_pair_def unat_gt_0)
  obtain S'' where "spec_add (T, M, S') (pid_pair pin) = (fst (pid_pair pin), snd (pid_pair pin), S'')"
    using lt by (auto simp: spec_add_def pid_less_def pid_pair_def max_def)
  then have rel1: "window_rel w p1 (fst (pid_pair pin), snd (pid_pair pin), S'')"
    using p1(4) ok by simp
  have "sorted_wrt pid_less ((fst (pid_pair pin), snd (pid_pair pin)) # map (pid_pair \<circ> snd) xs)"
    using Cons.prems(3) x by (simp add: o_def)
  from Cons.IH[OF rel1 _ this] Cons.prems(2) show ?case using p1(1) ok x by auto
qed

section \<open>Non-backtrack mode\<close>

definition linear_ok :: "packet_id_rec \<Rightarrow> bool" where
  "linear_ok p \<longleftrightarrow> pr_initialized p \<and> pr_seq_backtrack p = 0 \<and> pr_time_backtrack p = 0 \<and> pr_seq_list p = None"

text \<open>The successors a linear record admits.\<close>

definition linear_next :: "c_time \<times> nat \<Rightarrow> c_time \<times> nat \<Rightarrow> bool" where
  "linear_next x y = (case (x, y) of ((T, M), (t, n)) \<Rightarrow>
     t = T \<and> (n = M + 1 \<or> M = 0 \<and> 0 < n) \<or> t > T \<and> n = 1)"

fun linear_chain :: "c_time \<times> nat \<Rightarrow> packet_id_net list \<Rightarrow> bool" where
  "linear_chain x [] = True"
| "linear_chain x (y # ys) = (linear_next x (pid_pair y) \<and> linear_chain (pid_pair y) ys)"

lemma linear_check:
  assumes "linear_ok p"
  shows "\<exists>p' ok. replay_check now p pin = Some (p', ok) \<and> linear_ok p' \<and>
    (ok \<longleftrightarrow> linear_next (pr_time p, unat (pr_id p)) (pid_pair pin)) \<and>
    (pr_time p', unat (pr_id p')) = (if ok then pid_pair pin else (pr_time p, unat (pr_id p)))"
proof -
  have "\<exists>p1. packet_id_reap_test now p = Some p1 \<and> linear_ok p1 \<and> pr_time p1 = pr_time p \<and> pr_id p1 = pr_id p"
    using assms by (auto simp: packet_id_reap_test_def packet_id_reap_def linear_ok_def)
  then obtain p1 where p1: "packet_id_reap_test now p = Some p1" "linear_ok p1" "pr_time p1 = pr_time p"
    "pr_id p1 = pr_id p" by blast
  have one: "pn_id pin = 1 \<longleftrightarrow> unat (pn_id pin) = 1"
    by (metis unat_1 word_unat_eq_iff)
  have suc: "pn_id pin = pr_id p + 1 \<longleftrightarrow> unat (pn_id pin) = unat (pr_id p) + 1" if "pn_id pin \<noteq> 0"
  proof
    assume "pn_id pin = pr_id p + 1"
    then show "unat (pn_id pin) = unat (pr_id p) + 1" using that unatSuc[of "pr_id p"] by (simp add: add.commute)
  next
    assume "unat (pn_id pin) = unat (pr_id p) + 1"
    from arg_cong[OF this, of "word_of_nat :: nat \<Rightarrow> u64"] show "pn_id pin = pr_id p + 1"
      by (simp add: add.commute)
  qed
  have zero: "pr_id p = 0 \<longleftrightarrow> unat (pr_id p) = 0" "pn_id pin = 0 \<longleftrightarrow> unat (pn_id pin) = 0"
    by (simp_all add: unat_eq_0)
  have test: "packet_id_test p1 pin = Some (p1, linear_next (pr_time p, unat (pr_id p)) (pid_pair pin))"
    using p1(2-4) one suc zero
    by (cases "pn_id pin = 0") (auto simp: packet_id_test_def linear_ok_def linear_next_def pid_pair_def)
  show ?thesis
    using test p1 by (auto simp: replay_check_def packet_id_add_def linear_ok_def pid_pair_def)
qed

lemma linear_run:
  assumes "linear_ok p"
  shows "\<exists>p' acc. replay_run p xs = Some (p', acc) \<and> linear_chain (pr_time p, unat (pr_id p)) acc"
  using assms
proof (induction xs arbitrary: p)
  case Nil
  then show ?case by simp
next
  case (Cons x xs)
  obtain now pin where x: "x = (now, pin)" by fastforce
  obtain p1 ok where p1: "replay_check now p pin = Some (p1, ok)" "linear_ok p1"
    "ok \<longleftrightarrow> linear_next (pr_time p, unat (pr_id p)) (pid_pair pin)"
    "(pr_time p1, unat (pr_id p1)) = (if ok then pid_pair pin else (pr_time p, unat (pr_id p)))"
    using linear_check[OF Cons.prems, of now pin] by blast
  obtain p2 acc where r: "replay_run p1 xs = Some (p2, acc)"
    "linear_chain (pr_time p1, unat (pr_id p1)) acc"
    using Cons.IH[OF p1(2)] by blast
  show ?case using p1 r x by (cases ok) auto
qed

lemma linear_chain_sorted: "linear_chain x acc \<Longrightarrow> sorted_wrt pid_less (x # map pid_pair acc)"
proof (induction acc arbitrary: x)
  case Nil
  then show ?case by simp
next
  case (Cons y ys)
  have "pid_less x (pid_pair y)"
    using Cons.prems by (auto simp: linear_next_def pid_less_def split: prod.splits)
  then show ?case using Cons.IH[of "pid_pair y"] Cons.prems pid_less_trans by auto
qed

section \<open>The sender\<close>

text \<open>The numbers a sender assigns when it is asked at the given clock values.\<close>

fun send_run :: "packet_id_send \<Rightarrow> bool \<Rightarrow> c_time list \<Rightarrow> (c_time \<times> nat) list" where
  "send_run p long_form [] = []"
| "send_run p long_form (now # ns) =
     (case packet_id_send_update now p long_form of
        (p', True) \<Rightarrow> (ps_time p', unat (ps_id p')) # send_run p' long_form ns
      | (p', False) \<Rightarrow> send_run p' long_form ns)"

definition send_ok :: "packet_id_send \<Rightarrow> bool" where
  "send_ok p \<longleftrightarrow> unat (ps_id p) < 2 ^ 32 \<and> (ps_time p = 0 \<longrightarrow> ps_id p = 0) \<and> 0 \<le> ps_time p"

lemma send_update_ok:
  assumes ok: "send_ok p" and now: "0 < now"
  shows "send_ok (fst (packet_id_send_update now p lf)) \<and>
    0 < ps_time (fst (packet_id_send_update now p lf)) \<and>
    (if snd (packet_id_send_update now p lf)
     then pid_less (ps_time p, unat (ps_id p))
            (ps_time (fst (packet_id_send_update now p lf)), unat (ps_id (fst (packet_id_send_update now p lf)))) \<and>
          0 < unat (ps_id (fst (packet_id_send_update now p lf)))
     else \<not> pid_less (ps_time (fst (packet_id_send_update now p lf)),
              unat (ps_id (fst (packet_id_send_update now p lf)))) (ps_time p, unat (ps_id p)))"
proof -
  have m: "ps_id p = PACKET_ID_MAX \<longleftrightarrow> unat (ps_id p) = 2 ^ 32 - 1"
    by (auto simp: PACKET_ID_MAX_def word_unat_eq_iff)
  have suc: "unat (ps_id p + 1) = unat (ps_id p) + 1"
    using ok by (simp add: send_ok_def unat_word_ariths)
  show ?thesis
    using ok now m suc by (auto simp: packet_id_send_update_def send_ok_def pid_less_def Let_def)
qed

lemma send_run_sorted:
  assumes "send_ok p" "\<forall>n \<in> set ns. 0 < n"
  shows "sorted_wrt pid_less ((ps_time p, unat (ps_id p)) # send_run p lf ns) \<and>
    (\<forall>(t, n) \<in> set (send_run p lf ns). 0 < t \<and> 0 < n \<and> n < 2 ^ 32)"
  using assms
proof (induction ns arbitrary: p)
  case Nil
  then show ?case by simp
next
  case (Cons now ns)
  obtain p' ok where u: "packet_id_send_update now p lf = (p', ok)" by fastforce
  have s: "send_ok p'" "0 < ps_time p'"
    "if ok then pid_less (ps_time p, unat (ps_id p)) (ps_time p', unat (ps_id p')) \<and> 0 < unat (ps_id p')
     else \<not> pid_less (ps_time p', unat (ps_id p')) (ps_time p, unat (ps_id p))"
    using send_update_ok[of p now lf] Cons.prems u by auto
  note ih = Cons.IH[OF s(1)]
  have lt: "pid_less (ps_time p, unat (ps_id p)) y" if "y \<in> set (send_run p' lf ns)" for y
  proof -
    have "pid_less (ps_time p', unat (ps_id p')) y" using ih Cons.prems(2) that by auto
    then show ?thesis using s(3) by (cases ok) (auto simp: pid_less_def)
  qed
  show ?case
  proof (cases ok)
    case False
    then show ?thesis using u ih Cons.prems(2) lt by auto
  next
    case True
    then show ?thesis using u ih Cons.prems(2) lt s by (auto simp: send_ok_def)
  qed
qed

section \<open>The wire format\<close>

lemma packet_id_write_prepend:
  assumes "buf_fits h c q" "(if lf then 8 else 4) \<le> length h"
    "packet_id_send_update now p lf = (p', True)"
  shows "packet_id_write now p (buf_of h c q) lf True =
    (let hdr = be32 (ucast (ps_id p')) @ (if lf then be32 (time_to_net (ps_time p')) else [])
     in Some (p', buf_of (take (length h - length hdr) h) (hdr @ c) q, True))"
  using assms by (cases lf) (simp_all add: packet_id_write_def buf_write_prepend_of Let_def min_absorb2)

lemma packet_id_write_append:
  assumes "buf_fits h c q" "(if lf then 8 else 4) \<le> length q"
    "packet_id_send_update now p lf = (p', True)"
  shows "packet_id_write now p (buf_of h c q) lf False =
    (let hdr = be32 (ucast (ps_id p')) @ (if lf then be32 (time_to_net (ps_time p')) else [])
     in Some (p', buf_of h (c @ hdr) (drop (length hdr) q), True))"
proof -
  have "buf_fits h (c @ be32 x) (drop 4 q)" if "4 \<le> length q" for x
    using assms(1) that by (auto elim!: buf_fits_split)
  then show ?thesis using assms by (auto simp: packet_id_write_def buf_write_of Let_def)
qed

lemma packet_id_read_wire:
  "packet_id_read (buf_of h (be32 i @ (if lf then be32 t else []) @ c) q) lf =
     Some (\<lparr>pn_id = ucast i, pn_time = (if lf then net_to_time t else 0)\<rparr>,
           buf_of (h @ be32 i @ (if lf then be32 t else [])) c q, True)"
  by (simp add: packet_id_read_def buf_read_of)

lemma net_to_time_to_net: "0 \<le> t \<Longrightarrow> t < 2 ^ 32 \<Longrightarrow> net_to_time (time_to_net t) = t"
  by (simp add: net_to_time_def time_to_net_def uint_word_of_int)

lemma ucast_u32_u64: "unat i < 2 ^ 32 \<Longrightarrow> ucast (ucast (i :: u64) :: u32) = i"
  by (rule word_unat_eq_iff[THEN iffD2]) (simp add: unsigned_ucast_eq unsigned_take_bit_eq take_bit_nat_eq_self)

lemma epoch_pack:
  fixes e :: u16 and i :: u64
  assumes "i \<le> PACKET_ID_EPOCH_MAX"
  shows "ucast (drop_bit 48 (push_bit 48 (ucast e) OR i)) = e"
    "(push_bit 48 (ucast e) OR i) AND PACKET_ID_MASK = i"
proof -
  have "unat i < 2 ^ 48" using assms by (simp add: PACKET_ID_EPOCH_MAX_def word_le_nat_alt)
  then have "unat (take_bit 48 i) = unat i" by (simp add: unsigned_take_bit_eq take_bit_nat_eq_self)
  then have i: "take_bit 48 i = i" by (simp add: word_unat_eq_iff)
  have m: "PACKET_ID_MASK = mask 48" by (simp add: PACKET_ID_MASK_def mask_eq_exp_minus_1)
  have hi: "\<not> bit i n" if "48 \<le> n" for n using that by (subst i[symmetric]) (simp add: bit_take_bit_iff)
  show "ucast (drop_bit 48 (push_bit 48 (ucast e) OR i)) = e"
    by (rule bit_word_eqI) (auto simp: bit_simps hi)
  show "(push_bit 48 (ucast e) OR i) AND PACKET_ID_MASK = i"
    unfolding m by (rule bit_word_eqI) (use hi in \<open>auto simp: bit_simps, meson not_le\<close>)
qed

section \<open>Properties\<close>

text \<open>C16: From a fresh receive record in backtrack mode, whatever packets arrive in whatever order,
  the receive path never aborts and never accepts the same (time, number) pair twice; the reaping
  of old entries never reopens the window.\<close>

theorem replay_at_most_once:
  assumes "0 < w" "w \<le> 65536" "0 \<le> tb" "tb \<le> 600" "\<forall>(now, pin) \<in> set xs. now > 1"
  shows "\<exists>p p' acc. packet_id_init (int w) tb name unit = Some p \<and>
    replay_run (pi_rec p) xs = Some (p', acc) \<and> distinct (map pid_pair acc)"
proof -
  obtain p where "packet_id_init (int w) tb name unit = Some p" "window_rel w (pi_rec p) (0, 0, {})"
    using packet_id_init_rel[OF assms(1-4)] by blast
  with replay_run_fresh[OF this(2) assms(5)] show ?thesis by blast
qed

theorem replay_at_most_once_witness:
  "\<exists>p p' acc. packet_id_init 64 15 None 0 = Some p \<and>
    replay_run (pi_rec p) [(100, \<lparr>pn_id = 5, pn_time = 90\<rparr>), (101, \<lparr>pn_id = 5, pn_time = 90\<rparr>),
      (120, \<lparr>pn_id = 3, pn_time = 90\<rparr>)] = Some (p', acc) \<and> distinct (map pid_pair acc)"
  using replay_at_most_once[of 64 15 "[(100, \<lparr>pn_id = 5, pn_time = 90\<rparr>), (101, \<lparr>pn_id = 5, pn_time = 90\<rparr>),
      (120, \<lparr>pn_id = 3, pn_time = 90\<rparr>)]" None 0] by simp

text \<open>C17: The circular bitmap of the code accepts exactly the packets that its specification accepts, a
  receiver that remembers when it accepted each number: newer than everything seen, or inside the
  window, not seen before and above the floor.  The floor rises, at most every five seconds, to the
  highest number of the window that was accepted longer ago than the time limit; with the limit 0 it
  stays at zero, and what is accepted is what a receiver with unbounded memory accepts.\<close>

theorem replay_window_exact:
  assumes "0 < w" "w \<le> 65536" "0 \<le> tb" "tb \<le> 600" "\<forall>(now, pin) \<in> set xs. now > 1"
  shows "\<exists>p p'. packet_id_init (int w) tb name unit = Some p \<and>
    replay_run (pi_rec p) xs = Some (p', timed_run w tb timed_init xs) \<and>
    (tb = 0 \<longrightarrow> timed_run w tb timed_init xs = spec_run w (0, 0, {}) (map snd xs))"
proof -
  obtain p where p: "packet_id_init (int w) tb name unit = Some p" "window_rel w (pi_rec p) (0, 0, {})"
    "pr_time_backtrack (pi_rec p) = tb"
    using packet_id_init_rel[OF assms(1-4), of name unit] by auto
  obtain p' where "replay_run (pi_rec p) xs = Some (p', timed_run w tb timed_init xs)"
    using replay_run_timed[OF packet_id_init_timed[OF assms(1-4) p(1)] assms(5)] by blast
  moreover have "\<exists>p'. replay_run (pi_rec p) xs = Some (p', spec_run w (0, 0, {}) (map snd xs))" if "tb = 0"
    using replay_run_spec[OF p(2) _ assms(5)] p(3) that by blast
  ultimately show ?thesis using p(1) by fastforce
qed

text \<open>The witness rests on the floor: the number 5 arrives for the first time and inside the window,
  but 7 was accepted 16 seconds before.\<close>

theorem replay_window_exact_witness:
  "\<exists>p p'. packet_id_init 4 15 None 0 = Some p \<and>
    replay_run (pi_rec p) [(9, \<lparr>pn_id = 7, pn_time = 1\<rparr>), (10, \<lparr>pn_id = 6, pn_time = 1\<rparr>),
      (25, \<lparr>pn_id = 5, pn_time = 1\<rparr>), (25, \<lparr>pn_id = 8, pn_time = 1\<rparr>)] =
      Some (p', [\<lparr>pn_id = 7, pn_time = 1\<rparr>, \<lparr>pn_id = 6, pn_time = 1\<rparr>, \<lparr>pn_id = 8, pn_time = 1\<rparr>])"
proof -
  have "timed_run 4 15 timed_init [(9, \<lparr>pn_id = 7, pn_time = 1\<rparr>), (10, \<lparr>pn_id = 6, pn_time = 1\<rparr>),
      (25, \<lparr>pn_id = 5, pn_time = 1\<rparr>), (25, \<lparr>pn_id = 8, pn_time = 1\<rparr>)] =
    [\<lparr>pn_id = 7, pn_time = 1\<rparr>, \<lparr>pn_id = 6, pn_time = 1\<rparr>, \<lparr>pn_id = 8, pn_time = 1\<rparr>]"
    by code_simp
  then show ?thesis
    using replay_window_exact[of 4 15 "[(9, \<lparr>pn_id = 7, pn_time = 1\<rparr>), (10, \<lparr>pn_id = 6, pn_time = 1\<rparr>),
      (25, \<lparr>pn_id = 5, pn_time = 1\<rparr>), (25, \<lparr>pn_id = 8, pn_time = 1\<rparr>)]" None 0] by simp
qed

text \<open>In non-backtrack mode (TCP) the accepted packets form one linear series: each is the
  successor of the one before it at the same time, or number 1 at a later time, so none is accepted
  twice.\<close>

theorem replay_linear_mode:
  "\<exists>p p' acc. packet_id_init 0 tb name unit = Some p \<and> replay_run (pi_rec p) xs = Some (p', acc) \<and>
     linear_chain (0, 0) acc \<and> sorted_wrt pid_less (map pid_pair acc)"
proof -
  let ?r = "clear_rec\<lparr>pr_name := name, pr_unit := unit, pr_initialized := True\<rparr>"
  have "packet_id_init 0 tb name unit = Some \<lparr>pi_send = clear_send, pi_rec = ?r\<rparr>"
    by (simp add: packet_id_init_def packet_id_init_recv_def)
  moreover have "linear_ok ?r" by (simp add: linear_ok_def clear_rec_def)
  from linear_run[OF this, of xs] obtain p' acc where
    "replay_run ?r xs = Some (p', acc)" "linear_chain (0, 0) acc" by (auto simp: clear_rec_def)
  ultimately show ?thesis using linear_chain_sorted[of "(0, 0)" acc] by auto
qed

text \<open>The numbers a sender assigns strictly increase in (time, number), are never zero and fit the
  32 bits they have on the wire, whatever its clock does as long as it is positive; the number only
  wraps together with a step forward of the time.\<close>

theorem sender_numbers_increase:
  assumes "\<forall>n \<in> set clocks. 0 < n"
  shows "sorted_wrt pid_less (send_run clear_send long_form clocks) \<and>
    (\<forall>(t, n) \<in> set (send_run clear_send long_form clocks). 0 < t \<and> 0 < n \<and> n < 2 ^ 32)"
proof -
  have "send_ok clear_send" by (simp add: send_ok_def clear_send_def)
  from send_run_sorted[OF this assms] show ?thesis by simp
qed

theorem sender_numbers_increase_witness:
  "sorted_wrt pid_less (send_run clear_send True [5, 5, 4])"
  using sender_numbers_increase[of "[5, 5, 4]" True] by simp

text \<open>C18: A stream numbered by the sender and delivered in order is accepted completely by a receiver in
  backtrack mode, at any window width and time limit.\<close>

theorem sender_stream_accepted:
  assumes "0 < w" "w \<le> 65536" "0 \<le> tb" "tb \<le> 600"
    and "\<forall>n \<in> set clocks. 0 < n" "\<forall>(now, pin) \<in> set xs. now > 1"
    and "map (pid_pair \<circ> snd) xs = send_run clear_send long_form clocks"
  shows "\<exists>p p'. packet_id_init (int w) tb name unit = Some p \<and>
    replay_run (pi_rec p) xs = Some (p', map snd xs)"
proof -
  obtain p where p: "packet_id_init (int w) tb name unit = Some p" "window_rel w (pi_rec p) (0, 0, {})"
    using packet_id_init_rel[OF assms(1-4)] by blast
  have "send_ok clear_send" by (simp add: send_ok_def clear_send_def)
  from send_run_sorted[OF this assms(5), of long_form]
  have s: "sorted_wrt pid_less ((0, 0) # map (pid_pair \<circ> snd) xs)"
    "\<forall>(t, n) \<in> set (map (pid_pair \<circ> snd) xs). 0 < n"
    unfolding assms(7) by (auto simp: clear_send_def)
  from s(2) assms(6) have "\<forall>(now, pin) \<in> set xs. now > 1 \<and> pn_id pin \<noteq> 0"
    by (fastforce simp: pid_pair_def)
  from replay_run_increasing[OF p(2) this s(1)] p(1) show ?thesis by blast
qed

theorem sender_stream_accepted_witness:
  "\<exists>p p'. packet_id_init 64 15 None 0 = Some p \<and>
    replay_run (pi_rec p) [(8, \<lparr>pn_id = 1, pn_time = 5\<rparr>), (9, \<lparr>pn_id = 2, pn_time = 5\<rparr>)] =
      Some (p', [\<lparr>pn_id = 1, pn_time = 5\<rparr>, \<lparr>pn_id = 2, pn_time = 5\<rparr>])"
  using sender_stream_accepted[of 64 15 "[5, 7]" "[(8, \<lparr>pn_id = 1, pn_time = 5\<rparr>), (9, \<lparr>pn_id = 2, pn_time = 5\<rparr>)]"
      True None 0]
  by (simp add: packet_id_send_update_def clear_send_def PACKET_ID_MAX_def pid_pair_def)

text \<open>A packet number written in front of a packet (or behind it) is read back exactly, and the
  packet is left as it was.\<close>

theorem packet_id_roundtrip:
  assumes "buf_fits h c q" "packet_id_send_update now p lf = (p', True)"
    and "unat (ps_id p') < 2 ^ 32" "0 \<le> ps_time p'" "ps_time p' < 2 ^ 32"
    and "(if lf then 8 else 4) \<le> length (if prepend then h else q)" "prepend \<or> c = []"
  shows "\<exists>b1 b2. packet_id_write now p (buf_of h c q) lf prepend = Some (p', b1, True) \<and>
    packet_id_read b1 lf =
      Some (\<lparr>pn_id = ps_id p', pn_time = (if lf then ps_time p' else 0)\<rparr>, b2, True) \<and>
    buf_content b2 = c"
proof (cases prepend)
  case True
  then show ?thesis
    using packet_id_write_prepend[OF assms(1) _ assms(2)] assms
      packet_id_read_wire[where i = "ucast (ps_id p')" and t = "time_to_net (ps_time p')" and lf = lf and c = c and q = q]
    by (auto simp: Let_def net_to_time_to_net ucast_u32_u64)
next
  case False
  then show ?thesis
    using packet_id_write_append[OF assms(1) _ assms(2)] assms
      packet_id_read_wire[where i = "ucast (ps_id p')" and t = "time_to_net (ps_time p')" and lf = lf and c = "[]" and h = h]
    by (auto simp: Let_def net_to_time_to_net ucast_u32_u64)
qed

theorem packet_id_roundtrip_witness:
  "\<exists>b1 b2. packet_id_write 9 \<lparr>ps_id = 4, ps_time = 8\<rparr> (buf_of (replicate 10 0) [1, 2] []) True True =
      Some (\<lparr>ps_id = 5, ps_time = 8\<rparr>, b1, True) \<and>
    packet_id_read b1 True = Some (\<lparr>pn_id = 5, pn_time = 8\<rparr>, b2, True) \<and> buf_content b2 = [1, 2]"
  using packet_id_roundtrip[of "replicate 10 0" "[1, 2]" "[]" 9 "\<lparr>ps_id = 4, ps_time = 8\<rparr>" True
      "\<lparr>ps_id = 5, ps_time = 8\<rparr>" True]
  by (simp add: packet_id_send_update_def PACKET_ID_MAX_def buf_fits_def BUF_SIZE_MAX_def)

text \<open>The epoch format packs a 16-bit epoch and a 48-bit counter so that both are read back, as
  long as the counter has not run out; at the limit the write is refused instead of wrapping.\<close>

theorem packet_id_epoch_roundtrip:
  assumes "buf_fits h [] q" "8 \<le> length q" "ps_id p \<le> PACKET_ID_EPOCH_MAX"
  shows "if ps_id p = PACKET_ID_EPOCH_MAX
    then \<exists>p'. packet_id_write_epoch now p e (buf_of h [] q) = Some (p', buf_of h [] q, False)
    else \<exists>p' b1 b2. packet_id_write_epoch now p e (buf_of h [] q) = Some (p', b1, True) \<and>
      ps_id p' = ps_id p + 1 \<and>
      packet_id_read_epoch pin b1 = Some (pin\<lparr>pn_id := ps_id p + 1\<rparr>, b2, e) \<and> buf_content b2 = []"
proof (cases "ps_id p = PACKET_ID_EPOCH_MAX")
  case True
  then show ?thesis
    by (auto simp: packet_id_write_epoch_def packet_id_send_update_epoch_def Let_def)
next
  case False
  then have "ps_id p < PACKET_ID_EPOCH_MAX" using assms(3) by simp
  then have le: "ps_id p + 1 \<le> PACKET_ID_EPOCH_MAX" by (rule inc_le)
  let ?w = "push_bit 48 (ucast e) OR (ps_id p + 1) :: u64"
  have "\<exists>p'. packet_id_write_epoch now p e (buf_of h [] q) = Some (p', buf_of h (be64 ?w) (drop 8 q), True) \<and>
      ps_id p' = ps_id p + 1"
    using False assms(1,2)
    by (simp add: packet_id_write_epoch_def packet_id_send_update_epoch_def Let_def buf_write_of)
  then obtain p' where p': "packet_id_write_epoch now p e (buf_of h [] q) =
      Some (p', buf_of h (be64 ?w) (drop 8 q), True)" "ps_id p' = ps_id p + 1" by blast
  have "packet_id_read_epoch pin (buf_of h (be64 ?w) (drop 8 q)) =
      Some (pin\<lparr>pn_id := ps_id p + 1\<rparr>, buf_of (h @ be64 ?w) [] (drop 8 q), e)"
    using epoch_pack[OF le, of e] by (simp add: packet_id_read_epoch_def buf_read_of)
  then show ?thesis using False p' by (auto simp del: split_paired_Ex)
qed

theorem packet_id_epoch_roundtrip_witness:
  "\<exists>p' b1 b2. packet_id_write_epoch 9 \<lparr>ps_id = 4, ps_time = 8\<rparr> 3 (buf_of [] [] (replicate 8 0)) = Some (p', b1, True) \<and>
      ps_id p' = 5 \<and>
      packet_id_read_epoch \<lparr>pn_id = 0, pn_time = 0\<rparr> b1 = Some (\<lparr>pn_id = 5, pn_time = 0\<rparr>, b2, 3) \<and> buf_content b2 = []"
  using packet_id_epoch_roundtrip[of "[]" "replicate 8 0" "\<lparr>ps_id = 4, ps_time = 8\<rparr>" 9 3 "\<lparr>pn_id = 0, pn_time = 0\<rparr>"]
  by (simp add: PACKET_ID_EPOCH_MAX_def buf_fits_def BUF_SIZE_MAX_def)

text \<open>The state restored by \<open>--replay-persist\<close> protects only until the next new packet: after a
  restart with the persisted pair (100, 50), the number 50 is refused, then 51 is accepted, and then
  50, which the previous session had already accepted, is accepted again.  The first
  \<open>packet_id_add\<close> finds an empty window and opens all of it as unseen.\<close>

theorem persist_reopens_window:
  "do { p \<leftarrow> packet_id_init 8 15 None 0;
        let pp = packet_id_persist_init\<lparr>pp_fd := 3, pp_time := 100, pp_id := 50\<rparr>;
        p \<leftarrow> packet_id_persist_load_obj (Some pp) (Some p);
        (_, acc) \<leftarrow> replay_run (pi_rec p)
          [(200, \<lparr>pn_id = 50, pn_time = 100\<rparr>), (200, \<lparr>pn_id = 51, pn_time = 100\<rparr>),
           (200, \<lparr>pn_id = 50, pn_time = 100\<rparr>)];
        Some acc } =
   Some [\<lparr>pn_id = 51, pn_time = 100\<rparr>, \<lparr>pn_id = 50, pn_time = 100\<rparr>]"
  by code_simp

end
