(* ===== verification/Ovpn_Ack.thy ===== *)
theory Ovpn_Ack
  imports Ovpn_Buffer
begin

text \<open>
  Session identifiers (\<open>session_id.h\<close>) and the acknowledgment records of the control channel
  (first half of \<open>reliable.c\<close>): the list of packet ids to acknowledge, the list of the most
  recently acknowledged ids, and their wire format.
\<close>

section \<open>Session identifiers\<close>

type_synonym session_id = "byte list"

definition SID_SIZE :: nat where "SID_SIZE = 8"

definition x_session_id_zero :: session_id where
  "x_session_id_zero = replicate SID_SIZE 0"

definition session_id_equal :: "session_id \<Rightarrow> session_id \<Rightarrow> bool" where
  "session_id_equal s1 s2 = (take SID_SIZE s1 = take SID_SIZE s2)"

definition session_id_defined :: "session_id \<Rightarrow> bool" where
  "session_id_defined s = (take SID_SIZE s \<noteq> x_session_id_zero)"

definition session_id_read :: "buffer \<Rightarrow> (buffer \<times> session_id option) option" where
  "session_id_read b = buf_read b (int SID_SIZE)"

definition session_id_write_prepend :: "session_id \<Rightarrow> buffer \<Rightarrow> (buffer \<times> bool) option" where
  "session_id_write_prepend s b = buf_write_prepend b (take SID_SIZE s)"

definition session_id_write :: "session_id \<Rightarrow> buffer \<Rightarrow> (buffer \<times> bool) option" where
  "session_id_write s b = buf_write b (take SID_SIZE s)"

section \<open>Acknowledgment lists\<close>

definition RELIABLE_ACK_SIZE :: int where "RELIABLE_ACK_SIZE = 8"

record reliable_ack =
  ra_len :: int
  ra_packet_id :: "u32 list"

text \<open>Access to \<open>packet_id[i]\<close>.\<close>

definition ack_get :: "reliable_ack \<Rightarrow> int \<Rightarrow> u32 option" where
  "ack_get a i =
     (if 0 \<le> i \<and> i < int (length (ra_packet_id a)) then Some (ra_packet_id a ! nat i) else None)"

definition ack_set :: "reliable_ack \<Rightarrow> int \<Rightarrow> u32 \<Rightarrow> reliable_ack option" where
  "ack_set a i x =
     (if 0 \<le> i \<and> i < int (length (ra_packet_id a))
      then Some (a\<lparr>ra_packet_id := (ra_packet_id a)[nat i := x]\<rparr>) else None)"

definition reliable_ack_empty :: "reliable_ack \<Rightarrow> bool" where
  "reliable_ack_empty a = (ra_len a = 0)"

definition reliable_ack_outstanding :: "reliable_ack \<Rightarrow> int" where
  "reliable_ack_outstanding a = ra_len a"

fun ack_present_loop :: "reliable_ack \<Rightarrow> u32 \<Rightarrow> nat list \<Rightarrow> bool option" where
  "ack_present_loop a pid [] = Some False"
| "ack_present_loop a pid (i # is) = do {
     x \<leftarrow> ack_get a (int i);
     if x = pid then Some True else ack_present_loop a pid is }"

definition reliable_ack_packet_id_present :: "reliable_ack \<Rightarrow> u32 \<Rightarrow> bool option" where
  "reliable_ack_packet_id_present a pid = ack_present_loop a pid [0..<nat (ra_len a)]"

definition reliable_ack_read_packet_id :: "buffer \<Rightarrow> (buffer \<times> u32 option) option" where
  "reliable_ack_read_packet_id b = do {
     (b, r) \<leftarrow> buf_read b 4;
     Some (b, map_option de32 r) }"

definition reliable_ack_acknowledge_packet_id ::
  "reliable_ack \<Rightarrow> u32 \<Rightarrow> (reliable_ack \<times> bool) option" where
  "reliable_ack_acknowledge_packet_id a pid = do {
     present \<leftarrow> reliable_ack_packet_id_present a pid;
     if \<not> present \<and> ra_len a < RELIABLE_ACK_SIZE
     then do {
       a \<leftarrow> ack_set a (ra_len a) pid;
       Some (a\<lparr>ra_len := ra_len a + 1\<rparr>, True) }
     else Some (a, False) }"

section \<open>Reading a record\<close>

fun ack_parse_loop :: "nat \<Rightarrow> buffer \<Rightarrow> reliable_ack \<Rightarrow> (buffer \<times> reliable_ack \<times> bool) option" where
  "ack_parse_loop 0 b a = Some (b, a, True)"
| "ack_parse_loop (Suc n) b a = do {
     (b, r) \<leftarrow> buf_read b 4;
     case r of
       None \<Rightarrow> Some (b, a, False)
     | Some net_pid \<Rightarrow>
         (if ra_len a \<ge> RELIABLE_ACK_SIZE then Some (b, a, False)
          else do {
            a \<leftarrow> ack_set a (ra_len a) (de32 net_pid);
            ack_parse_loop n b (a\<lparr>ra_len := ra_len a + 1\<rparr>) }) }"

text \<open>The session id is \<open>None\<close> when the record carries none.\<close>

definition reliable_ack_parse ::
  "buffer \<Rightarrow> reliable_ack \<Rightarrow> (buffer \<times> reliable_ack \<times> session_id option \<times> bool) option" where
  "reliable_ack_parse b a = do {
     let a = a\<lparr>ra_len := 0\<rparr>;
     (b, r) \<leftarrow> buf_read b 1;
     case r of
       None \<Rightarrow> Some (b, a, None, False)
     | Some count \<Rightarrow> do {
         (b, a, ok) \<leftarrow> ack_parse_loop (unat (hd count)) b a;
         if \<not> ok then Some (b, a, None, False)
         else if hd count \<noteq> 0
         then do {
           (b, sid) \<leftarrow> session_id_read b;
           Some (b, a, sid, sid \<noteq> None) }
         else Some (b, a, None, True) } }"

definition reliable_ack_read ::
  "reliable_ack \<Rightarrow> buffer \<Rightarrow> session_id \<Rightarrow> (reliable_ack \<times> buffer \<times> bool) option" where
  "reliable_ack_read a b sid = do {
     (b, a, remote, ok) \<leftarrow> reliable_ack_parse b a;
     if \<not> ok then Some (a, b, False)
     else if ra_len a \<ge> 1
     then do {
       r \<leftarrow> remote;
       if \<not> session_id_defined r \<or> \<not> session_id_equal r sid then Some (a, b, False)
       else Some (a, b, True) }
     else Some (a, b, True) }"

section \<open>Writing a record\<close>

text \<open>The inner loop of \<open>copy_acks_to_mru\<close>: shift the entries right until \<open>pid\<close> falls out.\<close>

fun mru_shift ::
  "u32 \<Rightarrow> reliable_ack \<Rightarrow> u32 \<Rightarrow> nat list \<Rightarrow> (reliable_ack \<times> u32 \<times> bool) option" where
  "mru_shift pid m move [] = Some (m, move, False)"
| "mru_shift pid m move (j # js) = do {
     tmp \<leftarrow> ack_get m (int j);
     m \<leftarrow> ack_set m (int j) move;
     if tmp = pid then Some (m, tmp, True) else mru_shift pid m tmp js }"

definition mru_insert :: "reliable_ack \<Rightarrow> u32 \<Rightarrow> reliable_ack option" where
  "mru_insert m pid = do {
     m \<leftarrow> (if ra_len m = 0 then ack_set (m\<lparr>ra_len := 1\<rparr>) 0 pid else Some m);
     (m, move, idfound) \<leftarrow> mru_shift pid m pid [0..<nat (ra_len m)];
     if \<not> idfound \<and> ra_len m < RELIABLE_ACK_SIZE
     then do {
       m \<leftarrow> ack_set m (ra_len m) move;
       Some (m\<lparr>ra_len := ra_len m + 1\<rparr>) }
     else Some m }"

fun copy_acks_loop :: "reliable_ack \<Rightarrow> reliable_ack \<Rightarrow> nat list \<Rightarrow> reliable_ack option" where
  "copy_acks_loop a m [] = Some m"
| "copy_acks_loop a m (i # is) = do {
     pid \<leftarrow> ack_get a (int i);
     m \<leftarrow> mru_insert m pid;
     copy_acks_loop a m is }"

definition copy_acks_to_mru :: "reliable_ack \<Rightarrow> reliable_ack \<Rightarrow> int \<Rightarrow> reliable_ack option" where
  "copy_acks_to_mru a m n = do {
     cassert (ra_len a \<ge> n);
     copy_acks_loop a m (rev [0..<nat n]) }"

definition ACK_SIZE :: "nat \<Rightarrow> nat" where
  "ACK_SIZE n = 1 + (if n \<noteq> 0 then SID_SIZE else 0) + 4 * n"

fun ack_write_loop :: "reliable_ack \<Rightarrow> buffer \<Rightarrow> nat list \<Rightarrow> buffer option" where
  "ack_write_loop m sub [] = Some sub"
| "ack_write_loop m sub (i # is) = do {
     pid \<leftarrow> ack_get m (int i);
     (sub, ok) \<leftarrow> buf_write sub (be32 pid);
     cassert ok;
     ack_write_loop m sub is }"

text \<open>Moving the ids from index \<open>n\<close> on to the front.\<close>

fun ack_shift_loop :: "reliable_ack \<Rightarrow> int \<Rightarrow> int \<Rightarrow> nat \<Rightarrow> (reliable_ack \<times> int) option" where
  "ack_shift_loop a i j 0 = Some (a, i)"
| "ack_shift_loop a i j (Suc k) =
     (if j < ra_len a
      then do {
        x \<leftarrow> ack_get a j;
        a \<leftarrow> ack_set a i x;
        ack_shift_loop a (i + 1) (j + 1) k }
      else Some (a, i))"

definition reliable_ack_write ::
  "reliable_ack \<Rightarrow> reliable_ack \<Rightarrow> buffer \<Rightarrow> session_id \<Rightarrow> int \<Rightarrow> bool \<Rightarrow>
     (reliable_ack \<times> reliable_ack \<times> buffer \<times> bool) option" where
  "reliable_ack_write a m b sid mx prepend = do {
     let n = (if ra_len a > mx then mx else ra_len a);
     m \<leftarrow> copy_acks_to_mru a m n;
     let total_acks = unat (word_of_int (min_int mx (ra_len m)) :: byte);
     (b, pos, sub) \<leftarrow> buf_sub b (int (ACK_SIZE total_acks)) prepend;
     if \<not> buf_defined sub then Some (a, m, b, False)
     else do {
       (sub, ok) \<leftarrow> buf_write_u8 sub (of_nat total_acks);
       cassert ok;
       sub \<leftarrow> ack_write_loop m sub [0..<total_acks];
       sub \<leftarrow> (if total_acks \<noteq> 0
              then do {
                cassert (session_id_defined sid);
                (sub, ok) \<leftarrow> session_id_write sid sub;
                cassert ok;
                Some sub }
              else Some sub);
       b \<leftarrow> buf_sub_commit b pos sub;
       a \<leftarrow> (if n \<noteq> 0
            then do {
              (a, i) \<leftarrow> ack_shift_loop a 0 n (nat (ra_len a - n));
              Some (a\<lparr>ra_len := i\<rparr>) }
            else Some a);
       Some (a, m, b, True) } }"

section \<open>Lists of ids\<close>

definition ack_ok :: "reliable_ack \<Rightarrow> bool" where
  "ack_ok a \<longleftrightarrow> 0 \<le> ra_len a \<and> ra_len a \<le> 8 \<and> length (ra_packet_id a) = 8"

definition ack_ids :: "reliable_ack \<Rightarrow> u32 list" where
  "ack_ids a = take (nat (ra_len a)) (ra_packet_id a)"

text \<open>\<open>ack_of xs r\<close>: the list with the ids \<open>xs\<close> in front of the unused entries \<open>r\<close>.\<close>

definition ack_of :: "u32 list \<Rightarrow> u32 list \<Rightarrow> reliable_ack" where
  "ack_of xs r = \<lparr>ra_len = int (length xs), ra_packet_id = xs @ r\<rparr>"

lemma ack_of_simps [simp]:
  "ra_len (ack_of xs r) = int (length xs)"
  "ra_packet_id (ack_of xs r) = xs @ r"
  "ack_ids (ack_of xs r) = xs"
  "ack_ok (ack_of xs r) \<longleftrightarrow> length xs + length r = 8"
  by (auto simp: ack_of_def ack_ids_def ack_ok_def)

lemma ack_ok_repr:
  assumes "ack_ok a"
  obtains r where "a = ack_of (ack_ids a) r" "length (ack_ids a) + length r = 8"
proof -
  have "a = ack_of (take (nat (ra_len a)) (ra_packet_id a)) (drop (nat (ra_len a)) (ra_packet_id a))"
    using assms by (cases a) (auto simp: ack_of_def ack_ok_def)
  moreover have "length (take (nat (ra_len a)) (ra_packet_id a)) +
      length (drop (nat (ra_len a)) (ra_packet_id a)) = 8"
    using assms by (auto simp: ack_ok_def)
  ultimately show ?thesis using that unfolding ack_ids_def by blast
qed

lemma ack_get_of [simp]: "i < length xs \<Longrightarrow> ack_get (ack_of xs r) (int i) = Some (xs ! i)"
  by (simp add: ack_get_def nth_append)

lemma ack_present_loop_of:
  "i + n = length xs \<Longrightarrow> ack_present_loop (ack_of xs r) pid [i..<length xs] = Some (pid \<in> set (drop i xs))"
proof (induction n arbitrary: i)
  case 0
  then show ?case by simp
next
  case (Suc n)
  then have i: "i < length xs" by simp
  then have "drop i xs = xs ! i # drop (Suc i) xs" by (rule Cons_nth_drop_Suc[symmetric])
  then show ?case using Suc.IH[of "Suc i"] Suc.prems i by (auto simp: upt_conv_Cons)
qed

lemma reliable_ack_packet_id_present_of [simp]:
  "reliable_ack_packet_id_present (ack_of xs r) pid = Some (pid \<in> set xs)"
  using ack_present_loop_of[of 0 "length xs" xs r pid] by (simp add: reliable_ack_packet_id_present_def)

lemma ack_set_next: "ack_set (ack_of xs (y # r)) (int (length xs)) x = Some ((ack_of xs (x # r)))"
  by (simp add: ack_set_def ack_of_def)

lemma ack_of_grow: "(ack_of xs (x # r))\<lparr>ra_len := int (length xs) + 1\<rparr> = ack_of (xs @ [x]) r"
  by (simp add: ack_of_def)

lemma reliable_ack_acknowledge_of:
  assumes "length xs + length r = 8"
  shows "\<exists>r'. reliable_ack_acknowledge_packet_id (ack_of xs r) pid =
    (if pid \<notin> set xs \<and> length xs < 8 then Some (ack_of (xs @ [pid]) r', True)
     else Some (ack_of xs r, False)) \<and> (length xs < 8 \<longrightarrow> length xs + 1 + length r' = 8)"
proof (cases r)
  case Nil
  then show ?thesis using assms
    by (simp add: reliable_ack_acknowledge_packet_id_def RELIABLE_ACK_SIZE_def)
next
  case (Cons y r')
  then show ?thesis using assms
    by (intro exI[of _ r'])
      (simp add: reliable_ack_acknowledge_packet_id_def RELIABLE_ACK_SIZE_def ack_set_next ack_of_grow)
qed

section \<open>The most recently used list\<close>

text \<open>What inserting an id makes of the list.\<close>

definition mru_touch :: "u32 \<Rightarrow> u32 list \<Rightarrow> u32 list" where
  "mru_touch x xs = take 8 (x # remove1 x xs)"

lemma mru_shift_of:
  "length zs = length r \<Longrightarrow> mru_shift pid (\<lparr>ra_len = l, ra_packet_id = ys @ xs @ r\<rparr>) move [length ys..<length ys + length xs] =
    Some (if pid \<in> set xs
          then (\<lparr>ra_len = l, ra_packet_id = ys @ move # remove1 pid xs @ r\<rparr>, pid, True)
          else (\<lparr>ra_len = l, ra_packet_id = ys @ butlast (move # xs) @ r\<rparr>, last (move # xs), False))"
proof (induction xs arbitrary: ys move)
  case Nil
  then show ?case by simp
next
  case (Cons x xs)
  have u: "[length ys..<length ys + length (x # xs)] =
      length ys # [length (ys @ [move])..<length (ys @ [move]) + length xs]"
    by (subst upt_conv_Cons) simp_all
  show ?case
    using Cons.IH[of "ys @ [move]" x] Cons.prems unfolding u
    by (auto simp: ack_get_def ack_set_def nth_append list_update_append)
qed

lemma mru_insert_of:
  assumes "length xs + length r = 8"
  shows "\<exists>r'. mru_insert (ack_of xs r) pid = Some (ack_of (mru_touch pid xs) r') \<and>
    length (mru_touch pid xs) + length r' = 8"
proof (cases "xs = []")
  case True
  then obtain y r' where r: "r = y # r'" using assms by (cases r) auto
  have "ack_set (\<lparr>ra_len = 1, ra_packet_id = y # r'\<rparr>) 0 pid = Some \<lparr>ra_len = 1, ra_packet_id = pid # r'\<rparr>"
    by (simp add: ack_set_def)
  moreover have "mru_shift pid \<lparr>ra_len = 1, ra_packet_id = pid # r'\<rparr> pid [0..<1] =
      Some (\<lparr>ra_len = 1, ra_packet_id = pid # r'\<rparr>, pid, True)"
    using mru_shift_of[of r' r' pid 1 "[]" "[pid]" pid] by simp
  ultimately have "mru_insert (ack_of xs r) pid = Some (ack_of [pid] r')"
    using True by (simp add: mru_insert_def r ack_of_def)
  then show ?thesis using assms True r by (intro exI[of _ r']) (simp add: mru_touch_def)
next
  case False
  then have a: "ack_of (pid # remove1 pid xs) r =
      \<lparr>ra_len = int (length xs), ra_packet_id = pid # remove1 pid xs @ r\<rparr>" if "pid \<in> set xs"
    using that length_pos_if_in_set[OF that] by (simp add: ack_of_def length_remove1)
  have b: "ack_of (butlast (pid # xs)) r =
      \<lparr>ra_len = int (length xs), ra_packet_id = butlast (pid # xs) @ r\<rparr>"
    by (simp add: ack_of_def)
  have c: "ack_of xs r = \<lparr>ra_len = int (length xs), ra_packet_id = xs @ r\<rparr>"
    by (simp add: ack_of_def)
  have sh: "mru_shift pid (ack_of xs r) pid [0..<length xs] =
    Some (if pid \<in> set xs
          then (ack_of (pid # remove1 pid xs) r, pid, True)
          else (ack_of (butlast (pid # xs)) r, last (pid # xs), False))"
    using mru_shift_of[of r r pid "int (length xs)" "[]" xs pid]
    by (simp add: a b c del: butlast.simps last.simps)
  show ?thesis
  proof (cases "pid \<in> set xs")
    case True
    then have l: "length (pid # remove1 pid xs) = length xs"
      using length_pos_if_in_set[OF True] by (simp add: length_remove1)
    then show ?thesis using sh True assms False
      by (auto simp: mru_insert_def mru_touch_def)
  next
    case notin: False
    let ?zs = "butlast (pid # xs)" and ?z = "last (pid # xs)"
    have zs: "?zs @ [?z] = pid # xs" by (rule append_butlast_last_id) simp
    show ?thesis
    proof (cases "length xs < 8")
      case True
      then obtain y r' where r: "r = y # r'" using assms by (cases r) auto
      have "mru_insert (ack_of xs r) pid = Some (ack_of (?zs @ [?z]) r')"
        using sh notin True False ack_set_next[of ?zs y r' ?z] ack_of_grow[of ?zs ?z r']
        by (simp add: mru_insert_def r RELIABLE_ACK_SIZE_def)
      then show ?thesis unfolding zs using True assms r notin
        by (intro exI[of _ r']) (simp add: mru_touch_def remove1_idem)
    next
      case False
      then have "length xs = 8" "length r = 0" using assms by linarith+
      then have "length xs = 8" "r = []" by simp_all
      then have "mru_insert (ack_of xs r) pid = Some (ack_of ?zs r)"
        using sh notin \<open>xs \<noteq> []\<close> by (simp add: mru_insert_def RELIABLE_ACK_SIZE_def)
      moreover have t: "?zs = mru_touch pid xs"
        using notin \<open>length xs = 8\<close> \<open>xs \<noteq> []\<close>
        by (simp add: mru_touch_def remove1_idem butlast_conv_take)
      moreover have "length ?zs = 8" using \<open>length xs = 8\<close> \<open>xs \<noteq> []\<close> by simp
      ultimately show ?thesis using \<open>r = []\<close> by (metis list.size(3) Nat.add_0_right)
    qed
  qed
qed

lemma mru_touch_length: "length (mru_touch x xs) \<le> 8"
  by (simp add: mru_touch_def)

lemma mru_touch_distinct: "distinct xs \<Longrightarrow> distinct (mru_touch x xs)"
  unfolding mru_touch_def by (intro distinct_take) simp

lemma copy_acks_loop_of:
  assumes "length ys + length r = 8" "set is \<subseteq> {..<length xs}"
  shows "\<exists>r'. copy_acks_loop (ack_of xs s) (ack_of ys r) is =
      Some (ack_of (fold (\<lambda>i. mru_touch (xs ! i)) is ys) r') \<and>
    length (fold (\<lambda>i. mru_touch (xs ! i)) is ys) + length r' = 8"
  using assms
proof (induction "is" arbitrary: ys r)
  case Nil
  then show ?case by auto
next
  case (Cons i "is")
  obtain r1 where "mru_insert (ack_of ys r) (xs ! i) = Some (ack_of (mru_touch (xs ! i) ys) r1)"
    "length (mru_touch (xs ! i) ys) + length r1 = 8"
    using mru_insert_of[OF Cons.prems(1)] by blast
  then show ?case using Cons.IH[of "mru_touch (xs ! i) ys" r1] Cons.prems(2) by auto
qed

text \<open>The ids are touched from the last to the first, so the first ends up in front.\<close>

definition mru_touch_all :: "u32 list \<Rightarrow> u32 list \<Rightarrow> u32 list" where
  "mru_touch_all xs ys = foldr mru_touch xs ys"

lemma copy_acks_to_mru_of:
  assumes "length ys + length r = 8" "n \<le> length xs"
  shows "\<exists>r'. copy_acks_to_mru (ack_of xs s) (ack_of ys r) (int n) =
      Some (ack_of (mru_touch_all (take n xs) ys) r') \<and>
    length (mru_touch_all (take n xs) ys) + length r' = 8"
proof -
  have "map (\<lambda>i. xs ! i) [0..<n] = take n xs"
    using assms(2) by (simp add: list_eq_iff_nth_eq)
  then have t: "take n xs = map (\<lambda>i. xs ! i) [0..<n]" by simp
  have "fold (\<lambda>i. mru_touch (xs ! i)) (rev [0..<n]) ys = mru_touch_all (take n xs) ys"
    unfolding mru_touch_all_def foldr_conv_fold t rev_map fold_map by (simp only: o_def)
  moreover have "set (rev [0..<n]) \<subseteq> {..<length xs}" using assms(2) by auto
  ultimately show ?thesis
    using copy_acks_loop_of[OF assms(1), of "rev [0..<n]" xs s] assms(2)
    by (simp add: copy_acks_to_mru_def)
qed

section \<open>The wire format\<close>

definition ack_record :: "u32 list \<Rightarrow> session_id \<Rightarrow> byte list" where
  "ack_record ids sid = [of_nat (length ids)] @ concat (map be32 ids) @ (if ids = [] then [] else sid)"

lemma length_concat_be32 [simp]: "length (concat (map be32 xs)) = 4 * length xs"
  by (induction xs) simp_all

lemma ack_parse_loop_of:
  assumes "length xs + length ids \<le> 8" "length xs + length r = 8"
  shows "\<exists>r'. ack_parse_loop (length ids) (buf_of p (concat (map be32 ids) @ rest) q) (ack_of xs r) =
      Some (buf_of (p @ concat (map be32 ids)) rest q, ack_of (xs @ ids) r', True) \<and>
    length (xs @ ids) + length r' = 8"
  using assms
proof (induction ids arbitrary: p xs r)
  case Nil
  then show ?case by auto
next
  case (Cons i ids)
  then obtain y r' where r: "r = y # r'" by (cases r) auto
  have "ack_parse_loop (length (i # ids)) (buf_of p (concat (map be32 (i # ids)) @ rest) q) (ack_of xs r) =
      ack_parse_loop (length ids) (buf_of (p @ be32 i) (concat (map be32 ids) @ rest) q) (ack_of (xs @ [i]) r')"
    using Cons.prems by (simp add: buf_read_of RELIABLE_ACK_SIZE_def r ack_set_next ack_of_grow)
  then show ?case using Cons.IH[of "xs @ [i]" r' "p @ be32 i"] Cons.prems r by simp
qed

lemma unat_of_nat_byte: "n \<le> 255 \<Longrightarrow> unat (of_nat n :: byte) = n"
  by (simp add: unat_of_nat)

lemma reliable_ack_parse_of:
  assumes "length ids \<le> 8" "length sid = 8" "ack_ok a"
  shows "\<exists>r'. reliable_ack_parse (buf_of p (ack_record ids sid @ rest) q) a =
      Some (buf_of (p @ ack_record ids sid) rest q, ack_of ids r', if ids = [] then None else Some sid, True) \<and>
    length ids + length r' = 8"
proof -
  have a0: "a\<lparr>ra_len := 0\<rparr> = ack_of [] (ra_packet_id a)" by (simp add: ack_of_def)
  have l: "length (ra_packet_id a) = 8" using assms(3) by (simp add: ack_ok_def)
  have u: "unat (of_nat (length ids) :: byte) = length ids"
    using assms(1) by (intro unat_of_nat_byte) simp
  then have z: "(of_nat (length ids) :: byte) = 0 \<longleftrightarrow> ids = []" by (metis length_0_conv unat_eq_0)
  let ?rest = "(if ids = [] then [] else sid) @ rest" and ?p = "p @ [of_nat (length ids)]"
  obtain r' where r': "ack_parse_loop (length ids) (buf_of ?p (concat (map be32 ids) @ ?rest) q) (ack_of [] (ra_packet_id a)) =
      Some (buf_of (?p @ concat (map be32 ids)) ?rest q, ack_of ids r', True)" "length ids + length r' = 8"
    using ack_parse_loop_of[of "[]" ids "ra_packet_id a" ?p ?rest q] assms(1) l by auto
  have rd: "buf_read (buf_of p (ack_record ids sid @ rest) q) 1 =
      Some (buf_of ?p (concat (map be32 ids) @ ?rest) q, Some [of_nat (length ids)])"
    by (simp add: buf_read_of ack_record_def)
  show ?thesis
    using r' rd u z assms(2) unfolding reliable_ack_parse_def Let_def a0
    by (intro exI[of _ r']) (simp add: session_id_read_def SID_SIZE_def buf_read_of ack_record_def)
qed

lemma ack_write_loop_sub:
  assumes "buf_fits [] acc q" "t \<le> length xs" "i + n = t" "4 * n \<le> length q"
  shows "ack_write_loop (ack_of xs s) (buf_of [] acc q) [i..<t] =
    Some (buf_of [] (acc @ concat (map be32 (take n (drop i xs)))) (drop (4 * n) q))"
  using assms
proof (induction n arbitrary: i acc q)
  case 0
  then show ?case by simp
next
  case (Suc n)
  then have i: "i < length xs" by simp
  have d: "drop i xs = xs ! i # drop (Suc i) xs" using i by (rule Cons_nth_drop_Suc[symmetric])
  have f: "buf_fits [] (acc @ be32 (xs ! i)) (drop 4 q)"
    using Suc.prems by (auto elim!: buf_fits_split)
  have u: "[i..<t] = i # [Suc i..<t]" using Suc.prems by (subst upt_conv_Cons) simp_all
  show ?case
    using Suc.IH[OF f, of "Suc i"] Suc.prems i unfolding u d
    by (simp add: buf_write_of add.commute)
qed

lemma ack_shift_loop_of:
  "length ys = i \<Longrightarrow> j + k = length ys + length zs \<Longrightarrow> i \<le> j \<Longrightarrow>
   \<exists>r. ack_shift_loop \<lparr>ra_len = int (length ys + length zs), ra_packet_id = ys @ zs @ s\<rparr> (int i) (int j) k =
     Some (\<lparr>ra_len = int (length ys + length zs),
            ra_packet_id = ys @ drop (j - i) zs @ r\<rparr>, int (i + k)) \<and>
     length r + k = length zs + length s"
proof (induction k arbitrary: i j ys zs)
  case 0
  then show ?case by (intro exI[of _ "zs @ s"]) auto
next
  case (Suc k)
  then obtain z zs' where zs: "zs = z # zs'" by (cases zs) auto
  let ?x = "zs ! (j - i)"
  have j: "j - i < length zs" using Suc.prems by simp
  have get: "ack_get \<lparr>ra_len = int (length ys + length zs), ra_packet_id = ys @ zs @ s\<rparr> (int j) = Some ?x"
    using Suc.prems j by (simp add: ack_get_def nth_append)
  have set: "ack_set \<lparr>ra_len = int (length ys + length zs), ra_packet_id = ys @ zs @ s\<rparr> (int i) ?x =
      Some \<lparr>ra_len = int (length (ys @ [?x]) + length zs'), ra_packet_id = (ys @ [?x]) @ zs' @ s\<rparr>"
    using Suc.prems(1) zs by (auto simp: ack_set_def list_update_append)
  have e: "ys @ drop (j - i) zs = (ys @ [?x]) @ drop (Suc j - Suc i) zs'"
    using j zs by (simp add: Cons_nth_drop_Suc[symmetric])
  obtain r where r: "ack_shift_loop \<lparr>ra_len = int (length (ys @ [?x]) + length zs'), ra_packet_id = (ys @ [?x]) @ zs' @ s\<rparr>
        (int (Suc i)) (int (Suc j)) k =
      Some (\<lparr>ra_len = int (length (ys @ [?x]) + length zs'),
            ra_packet_id = (ys @ [?x]) @ drop (Suc j - Suc i) zs' @ r\<rparr>, int (Suc i + k))"
    "length r + k = length zs' + length s"
    using Suc.IH[of "ys @ [?x]" "Suc i" "Suc j" zs'] Suc.prems zs by auto
  have lt: "int j < int (length ys + length zs)" using Suc.prems by simp
  show ?case
    using r get set lt zs e
    by (intro exI[of _ r]) (simp add: add.commute)
qed

lemma length_ack_record: "length sid = 8 \<Longrightarrow> length (ack_record ids sid) = ACK_SIZE (length ids)"
  by (simp add: ack_record_def ACK_SIZE_def SID_SIZE_def)

text \<open>The writes into the window reserved for the record fill it exactly.\<close>

lemma ack_record_written:
  assumes "length w = ACK_SIZE t" "t \<le> length xs" "t \<le> 8" "length sid = 8"
    "int (ACK_SIZE t) < BUF_SIZE_MAX"
  shows "\<exists>sub1 sub2. buf_write_u8 (buf_of [] [] w) (of_nat t) = Some (sub1, True) \<and>
    ack_write_loop (ack_of xs s) sub1 [0..<t] = Some sub2 \<and>
    (if t = 0 then sub2 = buf_of [] (ack_record (take t xs) sid) []
     else session_id_write sid sub2 = Some (buf_of [] (ack_record (take t xs) sid) [], True))"
proof -
  let ?q = "drop 1 w"
  have w: "length w = 1 + (if t \<noteq> 0 then 8 else 0) + 4 * t" using assms(1) by (simp add: ACK_SIZE_def SID_SIZE_def)
  have f0: "buf_fits [] [] w" using assms(1,5) by (simp add: buf_fits_def)
  have f1: "buf_fits [] [of_nat t] ?q" using f0 w by (auto elim!: buf_fits_split)
  have w1: "buf_write_u8 (buf_of [] [] w) (of_nat t) = Some (buf_of [] [of_nat t] ?q, True)"
    using w f0 by (simp add: buf_write_u8_def buf_write_of)
  let ?acc = "of_nat t # concat (map be32 (take t xs))" and ?q2 = "drop (4 * t) ?q"
  have w2: "ack_write_loop (ack_of xs s) (buf_of [] [of_nat t] ?q) [0..<t] = Some (buf_of [] ?acc ?q2)"
    using ack_write_loop_sub[OF f1 assms(2), of 0 t s] w by simp
  have f2: "buf_fits [] ?acc ?q2" using f1 w assms(2) by (auto elim!: buf_fits_split simp: min_absorb2)
  show ?thesis
  proof (cases "t = 0")
    case True
    then show ?thesis using w1 w2 w by (simp add: ack_record_def)
  next
    case False
    have "length ?q2 = 8" using False w by simp
    then have "session_id_write sid (buf_of [] ?acc ?q2) = Some (buf_of [] (?acc @ sid) [], True)"
      using f2 assms(4) by (simp add: session_id_write_def SID_SIZE_def buf_write_of)
    moreover have "ack_record (take t xs) sid = ?acc @ sid"
      using False assms(2) by (auto simp: ack_record_def min_absorb2)
    ultimately show ?thesis using False w1 w2 by simp
  qed
qed

lemma ack_remove_of:
  assumes "n \<le> length xs" "length xs + length r = 8"
  shows "\<exists>r'. (if int n \<noteq> 0
      then do { (a, i) \<leftarrow> ack_shift_loop (ack_of xs r) 0 (int n) (nat (ra_len (ack_of xs r) - int n));
                Some (a\<lparr>ra_len := i\<rparr>) }
      else Some (ack_of xs r)) = Some (ack_of (drop n xs) r') \<and> length (drop n xs) + length r' = 8"
proof (cases "n = 0")
  case True
  then show ?thesis using assms by auto
next
  case False
  obtain r' where r': "ack_shift_loop \<lparr>ra_len = int (length xs), ra_packet_id = xs @ r\<rparr> 0 (int n) (length xs - n) =
     Some (\<lparr>ra_len = int (length xs), ra_packet_id = drop n xs @ r'\<rparr>, int (length xs - n))"
    "length r' + (length xs - n) = length xs + length r"
    using ack_shift_loop_of[of "[]" 0 n "length xs - n" xs r] assms(1) by auto
  have e: "ack_of xs r = \<lparr>ra_len = int (length xs), ra_packet_id = xs @ r\<rparr>" by (simp add: ack_of_def)
  have "nat (int (length xs) - int n) = length xs - n" using assms(1) by simp
  then show ?thesis
    using False r' assms unfolding e
    by (intro exI[of _ r']) (simp add: ack_of_def)
qed

text \<open>The effect of \<open>reliable_ack_write\<close> when the record fits.\<close>

lemma reliable_ack_write_of:
  fixes mx :: nat and prepend :: bool
  assumes xs: "length xs + length r = 8" and ys: "length ys + length s = 8"
    and fits: "buf_fits p c q" and sid: "length sid = 8" "session_id_defined sid"
  defines "n \<equiv> min (length xs) mx"
  defines "ys' \<equiv> mru_touch_all (take n xs) ys"
  defines "t \<equiv> min mx (length ys')"
  assumes room: "ACK_SIZE t \<le> length (if prepend then p else q)"
  shows "\<exists>r' s'. reliable_ack_write (ack_of xs r) (ack_of ys s) (buf_of p c q) sid (int mx) prepend =
      Some (ack_of (drop n xs) r', ack_of ys' s',
        (if prepend then buf_of (take (length p - ACK_SIZE t) p) (ack_record (take t ys') sid @ c) q
         else buf_of p (c @ ack_record (take t ys') sid) (drop (ACK_SIZE t) q)), True) \<and>
      length (drop n xs) + length r' = 8 \<and> length ys' + length s' = 8"
proof -
  have n: "n \<le> length xs" by (simp add: n_def)
  obtain s' where s': "copy_acks_to_mru (ack_of xs r) (ack_of ys s) (int n) = Some (ack_of ys' s')"
    "length ys' + length s' = 8"
    using copy_acks_to_mru_of[OF ys n, of r] by (auto simp: ys'_def)
  obtain r' where r': "(if int n \<noteq> 0
      then do { (a, i) \<leftarrow> ack_shift_loop (ack_of xs r) 0 (int n) (nat (ra_len (ack_of xs r) - int n));
                Some (a\<lparr>ra_len := i\<rparr>) }
      else Some (ack_of xs r)) = Some (ack_of (drop n xs) r')" "length (drop n xs) + length r' = 8"
    using ack_remove_of[OF n xs] by blast
  have nn: "(if ra_len (ack_of xs r) > int mx then int mx else ra_len (ack_of xs r)) = int n"
    by (simp add: n_def)
  have t8: "t \<le> 8" "t \<le> length ys'" using s'(2) by (simp_all add: t_def)
  have "unat (word_of_int (int t) :: byte) = t" using t8 by (simp add: unat_of_nat)
  then have tt: "unat (word_of_int (min_int (int mx) (ra_len (ack_of ys' s'))) :: byte) = t"
    by (simp add: t_def flip: of_nat_min)
  have small: "int (ACK_SIZE t) < BUF_SIZE_MAX"
    using t8 by (simp add: ACK_SIZE_def SID_SIZE_def BUF_SIZE_MAX_def)
  have lt: "length (take t ys') = t" using t8 by simp
  note W = ack_record_written[OF _ t8(2,1) sid(1) small, where s = s']
  have rec: "length (ack_record (take t ys') sid) = ACK_SIZE t"
    using length_ack_record[OF sid(1), of "take t ys'"] lt by simp
  show ?thesis
  proof (cases prepend)
    case False
    define w where "w = take (ACK_SIZE t) q"
    have w: "length w = ACK_SIZE t" using room False by (simp add: w_def)
    have sub: "buf_sub (buf_of p c q) (int (ACK_SIZE t)) prepend =
        Some (buf_of p (c @ w) (drop (ACK_SIZE t) q), int (length p + length c), buf_of [] [] w)"
      using buf_sub_of[OF fits, of "int (ACK_SIZE t)"] room False by (simp add: w_def)
    have com: "buf_sub_commit (buf_of p (c @ w) (drop (ACK_SIZE t) q)) (int (length p + length c))
        (buf_of [] (ack_record (take t ys') sid) []) =
        Some (buf_of p (c @ ack_record (take t ys') sid) (drop (ACK_SIZE t) q))"
      using buf_sub_commit_tail[of "[]" "ack_record (take t ys') sid" "[]" w p c] rec w by simp
    obtain sub1 sub2 where sub12: "buf_write_u8 (buf_of [] [] w) (of_nat t) = Some (sub1, True)"
      "ack_write_loop (ack_of ys' s') sub1 [0..<t] = Some sub2"
      "if t = 0 then sub2 = buf_of [] (ack_record (take t ys') sid) []
       else session_id_write sid sub2 = Some (buf_of [] (ack_record (take t ys') sid) [], True)"
      using W[OF w] by blast
    show ?thesis
      unfolding reliable_ack_write_def nn Let_def s'(1) bind.simps tt sub
      using r' com sub12 s'(2) sid(2) False
      by (intro exI[of _ r'] exI[of _ s']) (simp del: ack_of_simps split: if_splits)
  next
    case True
    define w where "w = drop (length p - ACK_SIZE t) p"
    have w: "length w = ACK_SIZE t" using room True by (simp add: w_def)
    have sub: "buf_sub (buf_of p c q) (int (ACK_SIZE t)) prepend =
        Some (buf_of (take (length p - ACK_SIZE t) p) (w @ c) q, int (length p) - int (ACK_SIZE t), buf_of [] [] w)"
      using buf_sub_prepend_of[of "int (ACK_SIZE t)" p c q] room True by (simp add: w_def)
    have pos: "int (length p) - int (ACK_SIZE t) = int (length (take (length p - ACK_SIZE t) p))"
      using room True by simp
    have com: "buf_sub_commit (buf_of (take (length p - ACK_SIZE t) p) (w @ c) q) (int (length p) - int (ACK_SIZE t))
        (buf_of [] (ack_record (take t ys') sid) []) =
        Some (buf_of (take (length p - ACK_SIZE t) p) (ack_record (take t ys') sid @ c) q)"
      unfolding pos
      using buf_sub_commit_head[of "[]" "ack_record (take t ys') sid" "[]" w "take (length p - ACK_SIZE t) p" c q] rec w
      by simp
    obtain sub1 sub2 where sub12: "buf_write_u8 (buf_of [] [] w) (of_nat t) = Some (sub1, True)"
      "ack_write_loop (ack_of ys' s') sub1 [0..<t] = Some sub2"
      "if t = 0 then sub2 = buf_of [] (ack_record (take t ys') sid) []
       else session_id_write sid sub2 = Some (buf_of [] (ack_record (take t ys') sid) [], True)"
      using W[OF w] by blast
    show ?thesis
      unfolding reliable_ack_write_def nn Let_def s'(1) bind.simps tt sub
      using r' com sub12 s'(2) sid(2) True
      by (intro exI[of _ r'] exI[of _ s']) (simp del: ack_of_simps split: if_splits)
  qed
qed

text \<open>Touching distinct ids in order puts them in front, followed by the older ones.\<close>

lemma take_remove1_distinct:
  "distinct zs \<Longrightarrow> take m (remove1 x (take (Suc m) zs)) = take m (filter (\<lambda>y. y \<noteq> x) zs)"
proof (induction zs arbitrary: m)
  case Nil
  then show ?case by simp
next
  case (Cons z zs)
  show ?case
  proof (cases "z = x")
    case True
    then have "filter (\<lambda>y. y \<noteq> x) zs = zs" using Cons.prems by (auto simp: filter_id_conv)
    then show ?thesis using True by simp
  next
    case False
    then show ?thesis using Cons.IH Cons.prems by (cases m) simp_all
  qed
qed

lemma mru_touch_all_distinct:
  assumes "distinct xs" "distinct ys" "length xs \<le> 8" "length ys \<le> 8"
  shows "mru_touch_all xs ys = take 8 (xs @ filter (\<lambda>y. y \<notin> set xs) ys)"
  using assms
proof (induction xs)
  case Nil
  then show ?case by (simp add: mru_touch_all_def)
next
  case (Cons x xs)
  let ?f = "filter (\<lambda>y. y \<notin> set xs) ys" and ?m = "7 - length xs"
  have ih: "mru_touch_all xs ys = take 8 (xs @ ?f)" using Cons by simp
  have m: "8 - length xs = Suc ?m" using Cons.prems(3) by simp
  have "remove1 x (take 8 (xs @ ?f)) = xs @ remove1 x (take (Suc ?m) ?f)"
    using Cons.prems(1,3) m by (simp add: remove1_append)
  moreover have "take 7 (xs @ remove1 x (take (Suc ?m) ?f)) = xs @ take ?m (filter (\<lambda>y. y \<noteq> x) ?f)"
    using Cons.prems(2,3) take_remove1_distinct[of ?f ?m x] by simp
  moreover have "filter (\<lambda>y. y \<noteq> x) ?f = filter (\<lambda>y. y \<notin> set (x # xs)) ys"
    by (simp add: conj_commute)
  moreover have "mru_touch_all (x # xs) ys = x # take 7 (remove1 x (mru_touch_all xs ys))"
    by (simp add: mru_touch_all_def mru_touch_def)
  ultimately show ?case using ih Cons.prems(3) by simp
qed

text \<open>Reading any bytes whatever is safe.\<close>

lemma ack_set_ok: "ack_ok a \<Longrightarrow> ra_len a < 8 \<Longrightarrow>
    \<exists>a'. ack_set a (ra_len a) x = Some a' \<and> ack_ok (a'\<lparr>ra_len := ra_len a' + 1\<rparr>)"
  by (auto simp: ack_set_def ack_ok_def)

lemma ack_parse_loop_total:
  "buf_ok b \<Longrightarrow> ack_ok a \<Longrightarrow>
    \<exists>b' a' ok. ack_parse_loop n b a = Some (b', a', ok) \<and> buf_ok b' \<and> ack_ok a' \<and>
      (ok \<longrightarrow> ra_len a' = ra_len a + int n)"
proof (induction n arbitrary: b a)
  case 0
  then show ?case by (intro exI[of _ b] exI[of _ a] exI[of _ True]) simp
next
  case (Suc n)
  obtain b1 r where r: "buf_read b 4 = Some (b1, r)" "buf_ok b1"
    using buf_read_total[OF Suc.prems(1)] by blast
  show ?case
  proof (cases "r = None \<or> ra_len a \<ge> 8")
    case True
    then show ?thesis using r Suc.prems
      by (cases r) (auto simp: RELIABLE_ACK_SIZE_def)
  next
    case False
    then obtain bs where bs: "r = Some bs" by auto
    obtain a1 where a1: "ack_set a (ra_len a) (de32 bs) = Some a1" "ack_ok (a1\<lparr>ra_len := ra_len a1 + 1\<rparr>)"
      using ack_set_ok[OF Suc.prems(2)] False by force
    have "ra_len a1 = ra_len a" using a1(1) by (auto simp: ack_set_def split: if_splits)
    then show ?thesis
      using Suc.IH[OF r(2) a1(2)] r(1) bs a1(1) False by (auto simp: RELIABLE_ACK_SIZE_def)
  qed
qed

lemma reliable_ack_parse_total:
  assumes "buf_ok b" "ack_ok a"
  shows "\<exists>b' a' sid ok. reliable_ack_parse b a = Some (b', a', sid, ok) \<and> buf_ok b' \<and> ack_ok a' \<and>
    (ok \<longrightarrow> ra_len a' \<ge> 1 \<longrightarrow> sid \<noteq> None)"
proof -
  have a0: "ack_ok (a\<lparr>ra_len := 0\<rparr>)" using assms(2) by (simp add: ack_ok_def)
  obtain b1 r where r: "buf_read b 1 = Some (b1, r)" "buf_ok b1"
    using buf_read_total[OF assms(1)] by blast
  show ?thesis
  proof (cases r)
    case None
    then show ?thesis using r a0
      by (intro exI[of _ b1] exI[of _ "a\<lparr>ra_len := 0\<rparr>"] exI[of _ None] exI[of _ False])
        (simp add: reliable_ack_parse_def)
  next
    case (Some c)
    obtain b2 a2 ok where l: "ack_parse_loop (unat (hd c)) b1 (a\<lparr>ra_len := 0\<rparr>) = Some (b2, a2, ok)"
      "buf_ok b2" "ack_ok a2" "ok \<longrightarrow> ra_len a2 = int (unat (hd c))"
      using ack_parse_loop_total[OF r(2) a0, of "unat (hd c)"] by auto
    obtain b3 s where s: "buf_read b2 8 = Some (b3, s)" "buf_ok b3"
      using buf_read_total[OF l(2)] by blast
    show ?thesis
      using r Some l s
      by (cases "ok \<and> hd c \<noteq> 0") (auto simp: reliable_ack_parse_def session_id_read_def SID_SIZE_def)
  qed
qed

lemma reliable_ack_read_total:
  assumes "buf_ok b" "ack_ok a"
  shows "\<exists>a' b' ok. reliable_ack_read a b sid = Some (a', b', ok) \<and> buf_ok b' \<and> ack_ok a'"
proof -
  obtain b' a' r ok where p: "reliable_ack_parse b a = Some (b', a', r, ok)" "buf_ok b'" "ack_ok a'"
    "ok \<longrightarrow> ra_len a' \<ge> 1 \<longrightarrow> r \<noteq> None"
    using reliable_ack_parse_total[OF assms] by blast
  then show ?thesis by (cases r) (auto simp: reliable_ack_read_def)
qed

section \<open>Properties\<close>

text \<open>An acknowledgment record that one peer writes (in front of a packet) is accepted by the other
  peer, who reads exactly: first the ids not yet acknowledged, then the most recently acknowledged
  ones again, as many as asked for; the written ids leave the pending list, and the packet behind
  the record is untouched.\<close>

theorem ack_record_roundtrip:
  fixes mx :: nat
  assumes "length xs + length r = 8" "length ys + length s = 8" "distinct xs" "distinct ys"
    and "buf_fits p c q" "length sid = 8" "session_id_defined sid" "69 \<le> length p" "ack_ok a0"
  shows "\<exists>ack mru b1 a b2.
    reliable_ack_write (ack_of xs r) (ack_of ys s) (buf_of p c q) sid (int mx) True = Some (ack, mru, b1, True) \<and>
    ack_ids ack = drop mx xs \<and>
    reliable_ack_read a0 b1 sid = Some (a, b2, True) \<and> buf_content b2 = c \<and>
    ack_ids a = take mx (take 8 (take mx xs @ filter (\<lambda>y. y \<notin> set (take mx xs)) ys))"
proof -
  let ?n = "min (length xs) mx"
  have tn: "take ?n xs = take mx xs" "drop ?n xs = drop mx xs" by (simp_all add: min_def)
  define ys' where "ys' = mru_touch_all (take ?n xs) ys"
  have y: "ys' = take 8 (take mx xs @ filter (\<lambda>y. y \<notin> set (take mx xs)) ys)"
    unfolding ys'_def tn using assms(1-4) by (intro mru_touch_all_distinct) auto
  then have y8: "length ys' \<le> 8" by simp
  define t where "t = min mx (length ys')"
  have t8: "t \<le> 8" using y8 by (simp add: t_def)
  then have sz: "ACK_SIZE t \<le> length p" using assms(8) by (simp add: ACK_SIZE_def SID_SIZE_def)
  obtain r' s' where w: "reliable_ack_write (ack_of xs r) (ack_of ys s) (buf_of p c q) sid (int mx) True =
      Some (ack_of (drop ?n xs) r', ack_of ys' s',
        buf_of (take (length p - ACK_SIZE t) p) (ack_record (take t ys') sid @ c) q, True)"
    using reliable_ack_write_of[OF assms(1,2,5,6,7), of mx True] sz
    by (auto simp: ys'_def[symmetric] t_def[symmetric])
  have tk: "take t ys' = take mx ys'" by (simp add: t_def min_def)
  have "length (take t ys') \<le> 8" using t8 by simp
  from reliable_ack_parse_of[OF this assms(6,9)] obtain r'' where
    "reliable_ack_parse (buf_of (take (length p - ACK_SIZE t) p) (ack_record (take t ys') sid @ c) q) a0 =
      Some (buf_of (take (length p - ACK_SIZE t) p @ ack_record (take t ys') sid) c q, ack_of (take t ys') r'',
        if take t ys' = [] then None else Some sid, True)" by blast
  then have "reliable_ack_read a0 (buf_of (take (length p - ACK_SIZE t) p) (ack_record (take t ys') sid @ c) q) sid =
      Some (ack_of (take t ys') r'', buf_of (take (length p - ACK_SIZE t) p @ ack_record (take t ys') sid) c q, True)"
    using assms(7)
    by (cases "take t ys'") (simp_all add: reliable_ack_read_def session_id_equal_def del: take_eq_Nil)
  moreover have "ack_ids (ack_of (take t ys') r'') = take mx ys'"
    by (simp only: ack_of_simps tk)
  moreover have "ack_ids (ack_of (drop mx xs) r') = drop mx xs" by (simp only: ack_of_simps)
  moreover have "buf_content (buf_of (take (length p - ACK_SIZE t) p @ ack_record (take t ys') sid) c q) = c"
    by simp
  ultimately show ?thesis using w unfolding tn y[symmetric] by blast
qed

theorem ack_record_roundtrip_witness:
  "\<exists>ack mru b1 a b2.
    reliable_ack_write (ack_of [5, 6] [0, 0, 0, 0, 0, 0]) (ack_of [3, 5] [0, 0, 0, 0, 0, 0])
      (buf_of (replicate 80 0) [7] []) [1, 2, 3, 4, 5, 6, 7, 8] 4 True = Some (ack, mru, b1, True) \<and>
    ack_ids ack = [] \<and>
    reliable_ack_read (ack_of [] [0, 0, 0, 0, 0, 0, 0, 0]) b1 [1, 2, 3, 4, 5, 6, 7, 8] = Some (a, b2, True) \<and>
    buf_content b2 = [7] \<and> ack_ids a = [5, 6, 3]"
proof -
  have "session_id_defined [1, 2, 3, 4, 5, 6, 7, 8]" by code_simp
  then show ?thesis
    using ack_record_roundtrip[of "[5, 6]" "[0, 0, 0, 0, 0, 0]" "[3, 5]" "[0, 0, 0, 0, 0, 0]" "replicate 80 0" "[7]" "[]"
        "[1, 2, 3, 4, 5, 6, 7, 8]" "ack_of [] [0, 0, 0, 0, 0, 0, 0, 0]" 4]
    by (simp add: buf_fits_def BUF_SIZE_MAX_def)
qed

text \<open>Reading an acknowledgment record is safe on any input: whatever bytes arrive, the reader
  returns, never writes outside the eight ids of the list, and keeps buffer and list well formed.\<close>

theorem ack_read_safe:
  assumes "buf_ok b" "ack_ok a"
  shows "\<exists>a' b' ok. reliable_ack_read a b sid = Some (a', b', ok) \<and> buf_ok b' \<and> ack_ok a'"
  using assms by (rule reliable_ack_read_total)

theorem ack_read_safe_witness:
  "\<exists>a' b' ok. reliable_ack_read (ack_of [] [0, 0, 0, 0, 0, 0, 0, 0]) (buf_of [] [255, 1, 2] []) [] = Some (a', b', ok) \<and>
     buf_ok b' \<and> ack_ok a'"
  by (rule ack_read_safe) (simp_all add: buf_fits_def BUF_SIZE_MAX_def)

text \<open>The pending list never holds an id twice and never overflows: a new id is appended exactly when
  it is not there yet and a place is free.\<close>

theorem ack_pending_list:
  assumes "ack_ok a" "distinct (ack_ids a)"
  shows "\<exists>a' ok. reliable_ack_acknowledge_packet_id a pid = Some (a', ok) \<and> ack_ok a' \<and> distinct (ack_ids a') \<and>
    ok = (pid \<notin> set (ack_ids a) \<and> length (ack_ids a) < 8) \<and>
    ack_ids a' = (if ok then ack_ids a @ [pid] else ack_ids a)"
proof -
  obtain r where a: "a = ack_of (ack_ids a) r" "length (ack_ids a) + length r = 8"
    using ack_ok_repr[OF assms(1)] by blast
  obtain r' where r': "reliable_ack_acknowledge_packet_id (ack_of (ack_ids a) r) pid =
    (if pid \<notin> set (ack_ids a) \<and> length (ack_ids a) < 8 then Some (ack_of (ack_ids a @ [pid]) r', True)
     else Some (ack_of (ack_ids a) r, False))" "length (ack_ids a) < 8 \<longrightarrow> length (ack_ids a) + 1 + length r' = 8"
    using reliable_ack_acknowledge_of[OF a(2), of pid] by blast
  show ?thesis
  proof (cases "pid \<notin> set (ack_ids a) \<and> length (ack_ids a) < 8")
    case True
    then show ?thesis using r' a(1) assms(2) by (intro exI[of _ "ack_of (ack_ids a @ [pid]) r'"] exI[of _ True]) simp
  next
    case False
    then show ?thesis using r'(1) a assms by (intro exI[of _ a] exI[of _ False]) simp
  qed
qed

theorem ack_pending_list_witness:
  "\<exists>a' ok. reliable_ack_acknowledge_packet_id (ack_of [5] [0, 0, 0, 0, 0, 0, 0]) 6 = Some (a', ok) \<and>
    ack_ok a' \<and> distinct (ack_ids a') \<and> ok \<and> ack_ids a' = [5, 6]"
  using ack_pending_list[of "ack_of [5] [0, 0, 0, 0, 0, 0, 0]" 6] by auto

end
