(* ===== verification/Ovpn_Reliable.thy ===== *)
theory Ovpn_Reliable
  imports Ovpn_Ack
begin

text \<open>
  The reliability layer of the control channel (second half of \<open>reliable.c\<close>): a fixed array of
  packet entries used either to send (ids are assigned, packets are retransmitted with exponential
  backoff until acknowledged) or to receive (packets are stored until their turn comes).  The code
  hands out pointers to the buffers inside the array; here a buffer is the index of its entry.  The
  clock \<open>now\<close> is an argument.
\<close>

section \<open>State\<close>

definition RELIABLE_CAPACITY :: nat where "RELIABLE_CAPACITY = 12"
definition N_ACK_RETRANSMIT :: nat where "N_ACK_RETRANSMIT = 3"
definition BIG_TIMEOUT :: int where "BIG_TIMEOUT = 60 * 60 * 24 * 7"

record reliable_entry =
  re_active :: bool
  re_timeout :: int
  re_next_try :: c_time
  re_packet_id :: u32
  re_n_acks :: nat
  re_opcode :: int
  re_buf :: buffer

record reliable =
  rel_size :: nat
  rel_initial_timeout :: int
  rel_packet_id :: u32
  rel_offset :: int
  rel_hold :: bool
  rel_array :: "reliable_entry list"

text \<open>The entries in use, \<open>array[0]\<close> to \<open>array[size - 1]\<close>.\<close>

definition rel_entries :: "reliable \<Rightarrow> reliable_entry list" where
  "rel_entries rel = take (rel_size rel) (rel_array rel)"

text \<open>An entry is updated in place.\<close>

definition rel_update :: "reliable \<Rightarrow> nat \<Rightarrow> (reliable_entry \<Rightarrow> reliable_entry) \<Rightarrow> reliable" where
  "rel_update rel i f = rel\<lparr>rel_array := (rel_array rel)[i := f (rel_array rel ! i)]\<rparr>"

section \<open>Packet id arithmetic\<close>

definition subtract_pid :: "u32 \<Rightarrow> u32 \<Rightarrow> u32" where
  "subtract_pid test base = test - base"

definition reliable_pid_in_range1 :: "u32 \<Rightarrow> u32 \<Rightarrow> u32 \<Rightarrow> bool" where
  "reliable_pid_in_range1 test base extent = (subtract_pid test base < extent)"

definition reliable_pid_in_range2 :: "u32 \<Rightarrow> u32 \<Rightarrow> u32 \<Rightarrow> bool" where
  "reliable_pid_in_range2 test base extent =
     (if base + extent \<ge> base then test < base + extent
      else test + 0x80000000 < (base + 0x80000000) + extent)"

definition reliable_pid_min :: "u32 \<Rightarrow> u32 \<Rightarrow> bool" where
  "reliable_pid_min p1 p2 = (\<not> reliable_pid_in_range1 p1 p2 0x80000000)"

section \<open>Life cycle\<close>

text \<open>The value of \<open>CLEAR\<close> on an entry.\<close>

definition clear_entry :: reliable_entry where
  "clear_entry = \<lparr>re_active = False, re_timeout = 0, re_next_try = 0, re_packet_id = 0, re_n_acks = 0,
     re_opcode = 0, re_buf = clear_buf\<rparr>"

fun rel_init_entries :: "nat \<Rightarrow> int \<Rightarrow> int \<Rightarrow> reliable_entry list option" where
  "rel_init_entries 0 buf_size offset = Some []"
| "rel_init_entries (Suc n) buf_size offset = do {
     b \<leftarrow> alloc_buf (to_size_t buf_size);
     let (b, ok) = buf_init b offset;
     cassert ok;
     es \<leftarrow> rel_init_entries n buf_size offset;
     Some (clear_entry\<lparr>re_buf := b\<rparr> # es) }"

definition reliable_init :: "int \<Rightarrow> int \<Rightarrow> int \<Rightarrow> bool \<Rightarrow> reliable option" where
  "reliable_init buf_size offset array_size hold = do {
     cassert (array_size > 0 \<and> array_size \<le> int RELIABLE_CAPACITY);
     let n = nat array_size;
     es \<leftarrow> rel_init_entries n buf_size offset;
     Some \<lparr>rel_size = n, rel_initial_timeout = 0, rel_packet_id = 0, rel_offset = offset, rel_hold = hold,
           rel_array = es @ replicate (RELIABLE_CAPACITY - n) clear_entry\<rparr> }"

definition reliable_set_timeout :: "reliable \<Rightarrow> int \<Rightarrow> reliable" where
  "reliable_set_timeout rel timeout = rel\<lparr>rel_initial_timeout := timeout\<rparr>"

section \<open>Queries\<close>

definition reliable_empty :: "reliable \<Rightarrow> bool" where
  "reliable_empty rel = list_all (\<lambda>e. \<not> re_active e) (rel_entries rel)"

definition reliable_can_get :: "reliable \<Rightarrow> bool" where
  "reliable_can_get rel = list_ex (\<lambda>e. \<not> re_active e) (rel_entries rel)"

definition reliable_not_replay :: "reliable \<Rightarrow> u32 \<Rightarrow> bool" where
  "reliable_not_replay rel pid =
     (if reliable_pid_min pid (rel_packet_id rel) then False
      else \<not> list_ex (\<lambda>e. re_active e \<and> re_packet_id e = pid) (rel_entries rel))"

definition reliable_wont_break_sequentiality :: "reliable \<Rightarrow> u32 \<Rightarrow> bool" where
  "reliable_wont_break_sequentiality rel pid =
     reliable_pid_in_range2 pid (rel_packet_id rel) (of_nat (rel_size rel))"

text \<open>The index of the first entry with a property.\<close>

fun first_index :: "('a \<Rightarrow> bool) \<Rightarrow> 'a list \<Rightarrow> nat option" where
  "first_index P [] = None"
| "first_index P (x # xs) = (if P x then Some 0 else map_option Suc (first_index P xs))"

text \<open>The minimum of the active ids, on the circle; \<open>None\<close> when \<open>min_id_defined\<close> is false.\<close>

definition rel_min_step :: "reliable_entry \<Rightarrow> u32 option \<Rightarrow> u32 option" where
  "rel_min_step e m =
     (if re_active e
      then (case m of
              None \<Rightarrow> Some (re_packet_id e)
            | Some min_id \<Rightarrow> if reliable_pid_min (re_packet_id e) min_id then Some (re_packet_id e) else m)
      else m)"

definition rel_min_id :: "reliable \<Rightarrow> u32 option" where
  "rel_min_id rel = fold rel_min_step (rel_entries rel) None"

definition reliable_get_num_output_sequenced_available :: "reliable \<Rightarrow> int" where
  "reliable_get_num_output_sequenced_available rel =
     (case rel_min_id rel of
        None \<Rightarrow> int (rel_size rel)
      | Some min_id \<Rightarrow> sint (of_nat (rel_size rel) - subtract_pid (rel_packet_id rel) min_id))"

definition reliable_get_entry_sequenced :: "reliable \<Rightarrow> nat option" where
  "reliable_get_entry_sequenced rel =
     first_index (\<lambda>e. re_active e \<and> re_packet_id e = rel_packet_id rel) (rel_entries rel)"

definition entry_due :: "c_time \<Rightarrow> reliable_entry \<Rightarrow> bool" where
  "entry_due now e \<longleftrightarrow> re_active e \<and> (re_n_acks e \<ge> N_ACK_RETRANSMIT \<or> now \<ge> re_next_try e)"

definition reliable_can_send :: "c_time \<Rightarrow> reliable \<Rightarrow> bool" where
  "reliable_can_send now rel =
     (let n_current = length (filter (entry_due now) (rel_entries rel)) in n_current > 0 \<and> \<not> rel_hold rel)"

fun send_timeout_loop :: "c_time \<Rightarrow> reliable_entry list \<Rightarrow> int \<Rightarrow> int" where
  "send_timeout_loop now [] ret = ret"
| "send_timeout_loop now (e # es) ret =
     (if re_active e
      then (if re_next_try e \<le> now then 0 else send_timeout_loop now es (min_int ret (re_next_try e - now)))
      else send_timeout_loop now es ret)"

definition reliable_send_timeout :: "c_time \<Rightarrow> reliable \<Rightarrow> int" where
  "reliable_send_timeout now rel = send_timeout_loop now (rel_entries rel) BIG_TIMEOUT"

section \<open>Operations\<close>

definition reliable_get_buf :: "reliable \<Rightarrow> (reliable \<times> nat option) option" where
  "reliable_get_buf rel =
     (case first_index (\<lambda>e. \<not> re_active e) (rel_entries rel) of
        None \<Rightarrow> Some (rel, None)
      | Some i \<Rightarrow> do {
          let (b, ok) = buf_init (re_buf (rel_array rel ! i)) (rel_offset rel);
          cassert ok;
          Some (rel_update rel i (\<lambda>e. e\<lparr>re_buf := b\<rparr>), Some i) })"

definition reliable_get_buf_output_sequenced :: "reliable \<Rightarrow> (reliable \<times> nat option) option" where
  "reliable_get_buf_output_sequenced rel =
     (if (case rel_min_id rel of None \<Rightarrow> True
          | Some min_id \<Rightarrow> reliable_pid_in_range1 (rel_packet_id rel) min_id (of_nat (rel_size rel)))
      then reliable_get_buf rel else Some (rel, None))"

definition purge_entry :: "u32 \<Rightarrow> reliable_entry \<Rightarrow> reliable_entry" where
  "purge_entry pid e =
     (if re_active e \<and> re_packet_id e = pid then e\<lparr>re_active := False\<rparr>
      else if re_active e \<and> re_packet_id e < pid then e\<lparr>re_n_acks := re_n_acks e + 1\<rparr>
      else e)"

definition rel_map :: "(reliable_entry \<Rightarrow> reliable_entry) \<Rightarrow> reliable \<Rightarrow> reliable" where
  "rel_map f rel = rel\<lparr>rel_array := map f (rel_entries rel) @ drop (rel_size rel) (rel_array rel)\<rparr>"

fun send_purge_loop :: "reliable \<Rightarrow> reliable_ack \<Rightarrow> nat list \<Rightarrow> reliable option" where
  "send_purge_loop rel ack [] = Some rel"
| "send_purge_loop rel ack (i # is) = do {
     pid \<leftarrow> ack_get ack (int i);
     send_purge_loop (rel_map (purge_entry pid) rel) ack is }"

definition reliable_send_purge :: "reliable \<Rightarrow> reliable_ack \<Rightarrow> reliable option" where
  "reliable_send_purge rel ack = send_purge_loop rel ack [0..<nat (ra_len ack)]"

text \<open>The index of the due entry with the smallest id.\<close>

definition send_best_step :: "c_time \<Rightarrow> reliable_entry list \<Rightarrow> nat \<Rightarrow> nat option \<Rightarrow> nat option" where
  "send_best_step now es i best =
     (if entry_due now (es ! i)
      then (case best of
              None \<Rightarrow> Some i
            | Some b \<Rightarrow> if reliable_pid_min (re_packet_id (es ! i)) (re_packet_id (es ! b)) then Some i else best)
      else best)"

definition send_best :: "c_time \<Rightarrow> reliable \<Rightarrow> nat option" where
  "send_best now rel =
     fold (send_best_step now (rel_entries rel)) [0..<length (rel_entries rel)] None"

text \<open>
  The result is the entry to send and its opcode.  The doubling is arithmetic on a C \<open>int\<close>: the
  outer \<open>None\<close> is the overflow, which is undefined behaviour.
\<close>

definition reliable_send :: "c_time \<Rightarrow> reliable \<Rightarrow> (reliable \<times> (nat \<times> int) option) option" where
  "reliable_send now rel =
     (case send_best now rel of
        None \<Rightarrow> Some (rel, None)
      | Some b \<Rightarrow> do {
          cassert (re_timeout (rel_array rel ! b) * 2 < 2 ^ 31);
          Some (rel_update rel b (\<lambda>e. e\<lparr>re_next_try := now + re_timeout e, re_timeout := re_timeout e * 2, re_n_acks := 0\<rparr>),
            Some (b, re_opcode (rel_array rel ! b))) })"

definition reliable_schedule_now :: "c_time \<Rightarrow> reliable \<Rightarrow> reliable" where
  "reliable_schedule_now now rel =
     rel_map (\<lambda>e. if re_active e then e\<lparr>re_next_try := now, re_timeout := rel_initial_timeout rel\<rparr> else e)
       (rel\<lparr>rel_hold := False\<rparr>)"

definition reliable_mark_active_incoming :: "reliable \<Rightarrow> nat \<Rightarrow> u32 \<Rightarrow> int \<Rightarrow> reliable option" where
  "reliable_mark_active_incoming rel i pid opcode = do {
     cassert (i < rel_size rel);
     cassert (\<not> reliable_pid_min pid (rel_packet_id rel));
     Some (rel_update rel i (\<lambda>e. e\<lparr>re_active := True, re_packet_id := pid, re_opcode := opcode,
       re_next_try := 0, re_timeout := 0, re_n_acks := 0\<rparr>)) }"

definition reliable_mark_active_outgoing :: "reliable \<Rightarrow> nat \<Rightarrow> int \<Rightarrow> reliable option" where
  "reliable_mark_active_outgoing rel i opcode = do {
     cassert (i < rel_size rel);
     let pid = rel_packet_id rel;
     (b, ok) \<leftarrow> buf_write_prepend (re_buf (rel_array rel ! i)) (be32 pid);
     cassert ok;
     Some (rel_update (rel\<lparr>rel_packet_id := pid + 1\<rparr>) i
       (\<lambda>e. e\<lparr>re_packet_id := pid, re_buf := b, re_active := True, re_opcode := opcode,
              re_next_try := 0, re_timeout := rel_initial_timeout rel\<rparr>)) }"

definition reliable_mark_deleted :: "reliable \<Rightarrow> nat \<Rightarrow> reliable option" where
  "reliable_mark_deleted rel i = do {
     cassert (i < rel_size rel);
     Some (rel_update (rel\<lparr>rel_packet_id := re_packet_id (rel_array rel ! i) + 1\<rparr>) i
       (\<lambda>e. e\<lparr>re_active := False\<rparr>)) }"

text \<open>\<open>reliable_free\<close> releases the buffer of every entry before the structure itself.\<close>

definition reliable_free :: "reliable option \<Rightarrow> reliable option" where
  "reliable_free rel = map_option (rel_map (\<lambda>e. e\<lparr>re_buf := free_buf (re_buf e)\<rparr>)) rel"

section \<open>The receive path\<close>

text \<open>
  The handling of an incoming control packet by \<open>tls_pre_decrypt\<close> once its session and
  acknowledgments have been dealt with: the packet id is read, the payload is stored if the id is
  new and in the window, and the id is queued for acknowledgment even if it is a replay.  The result
  is \<open>False\<close> where the code jumps to its error label.
\<close>

definition control_receive ::
  "reliable \<Rightarrow> reliable_ack \<Rightarrow> buffer \<Rightarrow> int \<Rightarrow> (reliable \<times> reliable_ack \<times> buffer \<times> bool) option" where
  "control_receive rel rec_ack b opcode =
     (if \<not> reliable_can_get rel then Some (rel, rec_ack, b, True)
      else do {
        (b, r) \<leftarrow> reliable_ack_read_packet_id b;
        case r of
          None \<Rightarrow> Some (rel, rec_ack, b, True)
        | Some pid \<Rightarrow>
            (if reliable_wont_break_sequentiality rel pid
             then do {
               (rel, ok) \<leftarrow>
                 (if reliable_not_replay rel pid
                  then do {
                    (rel, i) \<leftarrow> reliable_get_buf rel;
                    i \<leftarrow> i;
                    (e, ok) \<leftarrow> buf_copy (re_buf (rel_array rel ! i)) b;
                    let rel = rel_update rel i (\<lambda>x. x\<lparr>re_buf := e\<rparr>);
                    if \<not> ok then Some (rel, False)
                    else do {
                      rel \<leftarrow> reliable_mark_active_incoming rel i pid opcode;
                      Some (rel, True) } }
                  else Some (rel, True));
               if \<not> ok then Some (rel, rec_ack, b, False)
               else do {
                 (rec_ack, _) \<leftarrow> reliable_ack_acknowledge_packet_id rec_ack pid;
                 Some (rel, rec_ack, b, True) } }
             else Some (rel, rec_ack, b, True)) })"

text \<open>
  The consumer of the received packets, \<open>read_incoming_tls_ciphertext\<close> on the entry that
  \<open>tls_process_state\<close> finds: the next packet in sequence, if it is there, is offered to the TLS
  object.  \<open>write_ct\<close> is the status \<open>key_state_write_ciphertext\<close> returns: on 1 the packet is consumed,
  on 0 it stays for a later attempt, on -1 the session fails.  An empty packet counts as consumed.
\<close>

definition control_deliver ::
  "(byte list \<Rightarrow> int) \<Rightarrow> reliable \<Rightarrow> (reliable \<times> byte list option \<times> bool) option" where
  "control_deliver write_ct rel =
     (case reliable_get_entry_sequenced rel of
        None \<Rightarrow> Some (rel, None, True)
      | Some i \<Rightarrow> do {
          bs \<leftarrow> buf_bytes (re_buf (rel_array rel ! i));
          let status = (if b_len (re_buf (rel_array rel ! i)) \<noteq> 0 then write_ct bs else 1);
          if status = -1 then Some (rel, None, False)
          else if status = 1
          then do {
            rel \<leftarrow> reliable_mark_deleted rel i;
            Some (rel, Some bs, True) }
          else Some (rel, None, True) })"

section \<open>The send path\<close>

text \<open>
  Handing one packet to the layer, as the loop of \<open>write_outgoing_tls_ciphertext\<close> does: get a
  buffer if the window allows it, move \<open>len\<close> bytes of the TLS record into it, and activate it.
\<close>

definition control_submit :: "reliable \<Rightarrow> buffer \<Rightarrow> int \<Rightarrow> int \<Rightarrow> (reliable \<times> buffer \<times> bool) option" where
  "control_submit rel tmp len opcode = do {
     (rel, i) \<leftarrow> reliable_get_buf_output_sequenced rel;
     case i of
       None \<Rightarrow> Some (rel, tmp, False)
     | Some i \<Rightarrow> do {
         (b, tmp, _) \<leftarrow> buf_copy_n (re_buf (rel_array rel ! i)) tmp len;
         let rel = rel_update rel i (\<lambda>e. e\<lparr>re_buf := b\<rparr>);
         rel \<leftarrow> reliable_mark_active_outgoing rel i opcode;
         Some (rel, tmp, True) } }"

text \<open>The retransmission step of \<open>tls_process_state\<close>: the bytes to send and their opcode.\<close>

definition control_transmit :: "c_time \<Rightarrow> reliable \<Rightarrow> (reliable \<times> (byte list \<times> int) option) option" where
  "control_transmit now rel =
     (if reliable_can_send now rel
      then do {
        (rel, r) \<leftarrow> reliable_send now rel;
        (i, opcode) \<leftarrow> r;
        bs \<leftarrow> buf_bytes (re_buf (rel_array rel ! i));
        Some (rel, Some (bs, opcode)) }
      else Some (rel, None))"

section \<open>Ids on the circle\<close>

text \<open>In the first half of the id space the two checks of the receiver select exactly the window.\<close>

lemma pid_min_less:
  assumes "unat p1 < 2 ^ 31" "unat p2 < 2 ^ 31"
  shows "reliable_pid_min p1 p2 \<longleftrightarrow> unat p1 < unat p2"
proof (cases "unat p1 < unat p2")
  case True
  then have "unat (p1 - p2) = 2 ^ 32 + unat p1 - unat p2"
    by (simp add: unat_sub_if' word_le_nat_alt)
  then have "unat (p1 - p2) \<ge> 2 ^ 31" using assms True by simp
  then show ?thesis using True
    by (simp add: reliable_pid_min_def reliable_pid_in_range1_def subtract_pid_def word_less_nat_alt)
next
  case False
  then have "unat (p1 - p2) = unat p1 - unat p2" by (intro unat_sub) (simp add: word_le_nat_alt)
  then show ?thesis using assms False
    by (simp add: reliable_pid_min_def reliable_pid_in_range1_def subtract_pid_def word_less_nat_alt)
qed

lemma pid_window:
  assumes "unat base + n \<le> 2 ^ 31"
  shows "reliable_pid_in_range2 pid base (of_nat n) \<and> \<not> reliable_pid_min pid base \<longleftrightarrow>
    unat base \<le> unat pid \<and> unat pid < unat base + n"
proof -
  have n: "unat (of_nat n :: u32) = n" using assms by (simp add: unat_of_nat)
  then have s: "unat (base + of_nat n) = unat base + n"
    using assms by (simp add: unat_word_ariths)
  then have r2: "reliable_pid_in_range2 pid base (of_nat n) \<longleftrightarrow> unat pid < unat base + n"
    by (simp add: reliable_pid_in_range2_def word_le_nat_alt word_less_nat_alt)
  show ?thesis
  proof (cases "unat pid < unat base + n")
    case False
    then show ?thesis using r2 by simp
  next
    case True
    show ?thesis
    proof (cases "n = 0")
      case True
      then show ?thesis using r2 \<open>unat pid < unat base + n\<close> assms
        by (cases "unat base = 2 ^ 31") (auto simp: pid_min_less word_le_nat_alt
          reliable_pid_min_def reliable_pid_in_range1_def subtract_pid_def word_less_nat_alt unat_sub_if')
    next
      case False
      then have "unat base < 2 ^ 31" "unat pid < 2 ^ 31" using True assms by auto
      then show ?thesis using r2 True pid_min_less[of pid base] by auto
    qed
  qed
qed

lemma pid_in_range1_iff:
  assumes "unat base \<le> unat test" "n < 2 ^ 32"
  shows "reliable_pid_in_range1 test base (of_nat n) \<longleftrightarrow> unat test < unat base + n"
proof -
  have "unat (of_nat n :: u32) = n" using assms(2) by (simp add: unat_of_nat)
  moreover have "unat (test - base) = unat test - unat base"
    using assms(1) by (intro unat_sub) (simp add: word_le_nat_alt)
  ultimately show ?thesis using assms(1)
    by (auto simp: reliable_pid_in_range1_def subtract_pid_def word_less_nat_alt)
qed

section \<open>Entries\<close>

lemma first_index_Some: "first_index P xs = Some i \<Longrightarrow> i < length xs \<and> P (xs ! i) \<and> (\<forall>j<i. \<not> P (xs ! j))"
  by (induction xs arbitrary: i) (auto split: if_splits simp: nth_Cons split: nat.splits)

lemma first_index_None: "first_index P xs = None \<longleftrightarrow> (\<forall>x \<in> set xs. \<not> P x)"
  by (induction xs) auto

lemma first_index_ex: "list_ex P xs \<Longrightarrow> \<exists>i. first_index P xs = Some i"
  using first_index_None[of P xs] by (cases "first_index P xs") (auto simp: list_ex_iff)

definition act :: "reliable_entry list \<Rightarrow> reliable_entry list" where
  "act es = filter re_active es"

lemma act_activate:
  assumes "i < length es" "\<not> re_active (es ! i)" "re_active e"
  shows "\<exists>A B. act es = A @ B \<and> act (es[i := e]) = A @ e # B"
  using assms by (subst id_take_nth_drop[OF assms(1)])
    (auto simp: act_def upd_conv_take_nth_drop[OF assms(1)])

lemma act_deactivate:
  assumes "i < length es" "re_active (es ! i)" "\<not> re_active e"
  shows "\<exists>A B. act es = A @ es ! i # B \<and> act (es[i := e]) = A @ B"
  using assms by (subst id_take_nth_drop[OF assms(1)])
    (auto simp: act_def upd_conv_take_nth_drop[OF assms(1)])

lemma act_update:
  assumes "i < length es" "re_active (es ! i)" "re_active e"
  shows "\<exists>A B. act es = A @ es ! i # B \<and> act (es[i := e]) = A @ e # B"
  using assms by (subst id_take_nth_drop[OF assms(1)])
    (auto simp: act_def upd_conv_take_nth_drop[OF assms(1)])

lemma act_inactive:
  assumes "i < length es" "\<not> re_active (es ! i)" "\<not> re_active e"
  shows "act (es[i := e]) = act es"
  using assms by (subst (2) id_take_nth_drop[OF assms(1)])
    (auto simp: act_def upd_conv_take_nth_drop[OF assms(1)])

text \<open>The invariant of the array: its size, and buffers into which a packet of any kind can start
  at the offset.\<close>

definition rel_ok :: "int \<Rightarrow> reliable \<Rightarrow> bool" where
  "rel_ok cap rel \<longleftrightarrow> 0 < rel_size rel \<and> rel_size rel \<le> RELIABLE_CAPACITY \<and>
     length (rel_array rel) = RELIABLE_CAPACITY \<and> 0 \<le> rel_offset rel \<and> rel_offset rel \<le> cap \<and>
     (\<forall>e \<in> set (rel_entries rel). buf_live (re_buf e) \<and> b_capacity (re_buf e) = cap)"

lemma length_rel_entries: "rel_ok cap rel \<Longrightarrow> length (rel_entries rel) = rel_size rel"
  by (simp add: rel_ok_def rel_entries_def)

lemma rel_entries_nth: "i < rel_size rel \<Longrightarrow> rel_entries rel ! i = rel_array rel ! i"
  by (simp add: rel_entries_def)

lemma rel_update_simps [simp]:
  "rel_size (rel_update rel i f) = rel_size rel"
  "rel_initial_timeout (rel_update rel i f) = rel_initial_timeout rel"
  "rel_packet_id (rel_update rel i f) = rel_packet_id rel"
  "rel_offset (rel_update rel i f) = rel_offset rel"
  "rel_hold (rel_update rel i f) = rel_hold rel"
  by (simp_all add: rel_update_def)

lemma rel_entries_update:
  "rel_ok cap rel \<Longrightarrow> i < rel_size rel \<Longrightarrow>
    rel_entries (rel_update rel i f) = (rel_entries rel)[i := f (rel_entries rel ! i)]"
  by (simp add: rel_entries_def rel_update_def take_update_swap)

lemma rel_ok_update:
  assumes "rel_ok cap rel" "i < rel_size rel"
    "buf_live (re_buf (f (rel_entries rel ! i)))" "b_capacity (re_buf (f (rel_entries rel ! i))) = cap"
  shows "rel_ok cap (rel_update rel i f)"
proof -
  have "set (rel_entries (rel_update rel i f)) \<subseteq> insert (f (rel_entries rel ! i)) (set (rel_entries rel))"
    unfolding rel_entries_update[OF assms(1,2)] by (rule set_update_subset_insert)
  then show ?thesis using assms unfolding rel_ok_def
    by (auto simp: rel_update_def)
qed

lemma rel_ok_entry: "rel_ok cap rel \<Longrightarrow> i < rel_size rel \<Longrightarrow>
    buf_live (re_buf (rel_entries rel ! i)) \<and> b_capacity (re_buf (rel_entries rel ! i)) = cap"
  using nth_mem[of i "rel_entries rel"] by (simp add: rel_ok_def rel_entries_def)

lemma rel_init_entries_ok:
  assumes "0 \<le> sz" "sz < BUF_SIZE_MAX" "0 \<le> off" "off \<le> sz"
  shows "\<exists>es. rel_init_entries n sz off = Some es \<and> length es = n \<and>
    (\<forall>e \<in> set es. \<not> re_active e \<and> buf_live (re_buf e) \<and> b_capacity (re_buf e) = sz)"
proof (induction n)
  case 0
  then show ?case by simp
next
  case (Suc n)
  let ?d = "replicate (nat sz) 0 :: byte list"
  have "to_size_t sz = nat sz" using assms by (simp add: to_size_t_def BUF_SIZE_MAX_def)
  then have a: "alloc_buf (to_size_t sz) = Some (buf_of [] [] ?d)" using assms by (simp add: alloc_buf_ok)
  have i: "buf_init (buf_of [] [] ?d) off = (buf_of (take (nat off) ?d) [] (drop (nat off) ?d), True)"
    using assms by (simp add: buf_init_of)
  have "buf_live (buf_of (take (nat off) ?d) [] (drop (nat off) ?d))"
    using assms by (auto simp: buf_live_def buf_fits_def nat_le_iff of_nat_diff)
  moreover have "b_capacity (buf_of (take (nat off) ?d) [] (drop (nat off) ?d)) = sz"
    using assms by (simp add: buf_of_def)
  ultimately show ?case using Suc a i by (auto simp: clear_entry_def)
qed
lemma reliable_init_ok:
  assumes "0 \<le> sz" "sz < BUF_SIZE_MAX" "0 \<le> off" "off \<le> sz" "0 < n" "n \<le> 12"
  shows "\<exists>rel. reliable_init sz off n hold = Some rel \<and> rel_ok sz rel \<and> act (rel_entries rel) = [] \<and>
    rel_packet_id rel = 0 \<and> rel_size rel = nat n \<and> rel_hold rel = hold \<and> rel_offset rel = off"
proof -
  obtain es where es: "rel_init_entries (nat n) sz off = Some es" "length es = nat n"
    "\<forall>e \<in> set es. \<not> re_active e \<and> buf_live (re_buf e) \<and> b_capacity (re_buf e) = sz"
    using rel_init_entries_ok[OF assms(1-4), of "nat n"] by blast
  have "filter re_active es = []" using es(3) by (simp add: filter_empty_conv)
  then show ?thesis using assms es
    by (auto simp: reliable_init_def RELIABLE_CAPACITY_def rel_ok_def rel_entries_def act_def Let_def)
qed

section \<open>The receive window\<close>

text \<open>
  \<open>rcv_inv\<close>: the stored packets have distinct ids inside the window that starts at the id expected
  next, and each holds the payload \<open>f\<close> assigns to its id.  The hypothesis on the id (fewer than
  2^31 packets) keeps the window away from the wrap-around.
\<close>

definition act_ids :: "reliable \<Rightarrow> nat list" where
  "act_ids rel = map (\<lambda>e. unat (re_packet_id e)) (act (rel_entries rel))"

definition rcv_inv :: "int \<Rightarrow> (nat \<Rightarrow> byte list) \<Rightarrow> reliable \<Rightarrow> bool" where
  "rcv_inv cap f rel \<longleftrightarrow> rel_ok cap rel \<and> distinct (act_ids rel) \<and>
     set (act_ids rel) \<subseteq> {unat (rel_packet_id rel)..<unat (rel_packet_id rel) + rel_size rel} \<and>
     (\<forall>e \<in> set (act (rel_entries rel)). buf_content (re_buf e) = f (unat (re_packet_id e)))"

lemma rcv_invI:
  assumes "rel_ok cap rel" "act (rel_entries rel) = L"
    "distinct (map (\<lambda>e. unat (re_packet_id e)) L)"
    "set (act_ids rel) \<subseteq> {unat (rel_packet_id rel)..<unat (rel_packet_id rel) + rel_size rel}"
    "\<forall>e \<in> set L. buf_content (re_buf e) = f (unat (re_packet_id e))"
  shows "rcv_inv cap f rel"
  using assms by (simp add: rcv_inv_def act_ids_def)

lemma act_full: "(\<forall>e \<in> set es. re_active e) \<longleftrightarrow> act es = es"
  by (simp add: act_def filter_id_conv)

text \<open>A packet of the window that is not stored yet always finds a free entry.\<close>

lemma window_has_room:
  assumes "rcv_inv cap f rel" "unat (rel_packet_id rel) \<le> k" "k < unat (rel_packet_id rel) + rel_size rel"
    "k \<notin> set (act_ids rel)"
  shows "reliable_can_get rel"
proof (rule ccontr)
  assume "\<not> reliable_can_get rel"
  then have "\<forall>e \<in> set (rel_entries rel). re_active e" by (auto simp: reliable_can_get_def list_ex_iff)
  then have "act (rel_entries rel) = rel_entries rel" by (simp add: act_full)
  then have "length (act_ids rel) = rel_size rel"
    using assms(1) length_rel_entries by (auto simp: act_ids_def rcv_inv_def)
  then have "card (set (act_ids rel)) = rel_size rel"
    using assms(1) by (simp add: rcv_inv_def distinct_card)
  moreover have "set (act_ids rel) \<subseteq> {unat (rel_packet_id rel)..<unat (rel_packet_id rel) + rel_size rel} - {k}"
    using assms by (auto simp: rcv_inv_def)
  then have "card (set (act_ids rel)) \<le> card ({unat (rel_packet_id rel)..<unat (rel_packet_id rel) + rel_size rel} - {k})"
    by (intro card_mono) auto
  moreover have "card ({unat (rel_packet_id rel)..<unat (rel_packet_id rel) + rel_size rel} - {k}) < rel_size rel"
    using assms(2,3) by simp
  ultimately show False by simp
qed

lemma reliable_get_buf_ok:
  assumes ok: "rel_ok cap rel" and get: "reliable_can_get rel"
  shows "\<exists>i b. reliable_get_buf rel = Some (rel_update rel i (\<lambda>e. e\<lparr>re_buf := b\<rparr>), Some i) \<and>
    i < rel_size rel \<and> \<not> re_active (rel_entries rel ! i) \<and> buf_live b \<and> b_capacity b = cap \<and>
    buf_content b = [] \<and> buf_forward_capacity b = cap - rel_offset rel \<and> buf_reverse_capacity b = rel_offset rel"
proof -
  obtain i where i: "first_index (\<lambda>e. \<not> re_active e) (rel_entries rel) = Some i"
    using first_index_ex get unfolding reliable_can_get_def by blast
  then have il: "i < rel_size rel" "\<not> re_active (rel_entries rel ! i)"
    using first_index_Some[OF i] length_rel_entries[OF ok] by auto
  obtain p c q where b: "re_buf (rel_entries rel ! i) = buf_of p c q" "buf_fits p c q"
    using rel_ok_entry[OF ok il(1)] by (auto simp: buf_live_repr)
  have cap: "int (length p + length c + length q) = cap"
    using rel_ok_entry[OF ok il(1)] b(1) by (simp add: buf_of_def)
  let ?o = "nat (rel_offset rel)" and ?d = "p @ c @ q"
  have off: "0 \<le> rel_offset rel" "rel_offset rel \<le> cap" using ok by (auto simp: rel_ok_def)
  then have o: "?o \<le> length ?d" using cap by simp
  have init: "buf_init (re_buf (rel_array rel ! i)) (rel_offset rel) = (buf_of (take ?o ?d) [] (drop ?o ?d), True)"
    using b(1) off cap rel_entries_nth[OF il(1)] by (simp add: buf_init_of del: take_append drop_append)
  have "buf_fits (take ?o ?d) [] (drop ?o ?d)" using b(2) o by (auto elim!: buf_fits_split simp del: take_append drop_append)
  moreover have "reliable_get_buf rel = Some (rel_update rel i (\<lambda>e. e\<lparr>re_buf := buf_of (take ?o ?d) [] (drop ?o ?d)\<rparr>), Some i)"
    using i init by (simp add: reliable_get_buf_def del: take_append drop_append)
  moreover have "b_capacity (buf_of (take ?o ?d) [] (drop ?o ?d)) = cap"
    using cap o by (simp add: buf_of_def del: take_append drop_append)
  moreover have "int (length (drop ?o ?d)) = cap - rel_offset rel" "int (length (take ?o ?d)) = rel_offset rel"
    using cap off o by (simp_all add: of_nat_diff del: take_append drop_append)
  ultimately show ?thesis using il
    by (intro exI[of _ i] exI[of _ "buf_of (take ?o ?d) [] (drop ?o ?d)"])
      (simp add: buf_live_def del: take_append drop_append)
qed

lemma not_replay_iff:
  "reliable_not_replay rel pid \<longleftrightarrow>
     \<not> reliable_pid_min pid (rel_packet_id rel) \<and> unat pid \<notin> set (act_ids rel)"
  by (auto simp: reliable_not_replay_def list_ex_iff act_ids_def act_def word_unat_eq_iff image_iff)

text \<open>Storing a packet in a free entry.\<close>

lemma rcv_store:
  assumes inv: "rcv_inv cap f rel" and i: "i < rel_size rel" "\<not> re_active (rel_entries rel ! i)"
    and e: "re_active e" "buf_live (re_buf e)" "b_capacity (re_buf e) = cap"
      "buf_content (re_buf e) = f (unat (re_packet_id e))"
    and win: "unat (rel_packet_id rel) \<le> unat (re_packet_id e)"
      "unat (re_packet_id e) < unat (rel_packet_id rel) + rel_size rel"
      "unat (re_packet_id e) \<notin> set (act_ids rel)"
  shows "rcv_inv cap f (rel_update rel i (\<lambda>_. e)) \<and>
    set (act_ids (rel_update rel i (\<lambda>_. e))) = insert (unat (re_packet_id e)) (set (act_ids rel))"
proof -
  have ok: "rel_ok cap rel" using inv by (simp add: rcv_inv_def)
  obtain A B where AB: "act (rel_entries rel) = A @ B" "act ((rel_entries rel)[i := e]) = A @ e # B"
    using act_activate[of i "rel_entries rel" e] i e(1) length_rel_entries[OF ok] by auto
  have "act (rel_entries (rel_update rel i (\<lambda>_. e))) = A @ e # B"
    using rel_entries_update[OF ok i(1), of "\<lambda>_. e"] AB(2) by simp
  then have new: "act (rel_entries (rel_update rel i (\<lambda>_. e))) = A @ e # B" .
  let ?k = "unat (re_packet_id e)" and ?ids = "map (\<lambda>e. unat (re_packet_id e))"
  have ids: "act_ids rel = ?ids A @ ?ids B" "act_ids (rel_update rel i (\<lambda>_. e)) = ?ids A @ ?k # ?ids B"
    unfolding act_ids_def new AB(1) by simp_all
  have s: "set (act_ids (rel_update rel i (\<lambda>_. e))) = insert ?k (set (act_ids rel))"
    unfolding ids by simp
  have "rcv_inv cap f (rel_update rel i (\<lambda>_. e))"
  proof (rule rcv_invI[OF _ new])
    show "rel_ok cap (rel_update rel i (\<lambda>_. e))" using rel_ok_update[OF ok i(1), of "\<lambda>_. e"] e(2,3) by simp
    have "distinct (act_ids rel)" using inv by (simp add: rcv_inv_def)
    with win(3) have "distinct (?ids A @ ?ids B)" "?k \<notin> set (?ids A @ ?ids B)"
      unfolding ids(1) by simp_all
    then show "distinct (?ids (A @ e # B))" by simp
    show "\<forall>x \<in> set (A @ e # B). buf_content (re_buf x) = f (unat (re_packet_id x))"
      using inv e(4) unfolding rcv_inv_def AB(1) by simp
    show "set (act_ids (rel_update rel i (\<lambda>_. e))) \<subseteq> {unat (rel_packet_id (rel_update rel i (\<lambda>_. e)))..<
        unat (rel_packet_id (rel_update rel i (\<lambda>_. e))) + rel_size (rel_update rel i (\<lambda>_. e))}"
      using inv win(1,2) unfolding s rcv_inv_def by simp
  qed
  then show ?thesis using s by blast
qed

lemma rcv_remove:
  assumes inv: "rcv_inv cap f rel" and i: "reliable_get_entry_sequenced rel = Some i"
    and small: "unat (rel_packet_id rel) + 1 < 2 ^ 32"
  shows "\<exists>rel'. reliable_mark_deleted rel i = Some rel' \<and> rcv_inv cap f rel' \<and>
    unat (rel_packet_id rel') = unat (rel_packet_id rel) + 1 \<and>
    set (act_ids rel') = set (act_ids rel) - {unat (rel_packet_id rel)} \<and>
    rel_size rel' = rel_size rel \<and> rel_offset rel' = rel_offset rel \<and>
    buf_live (re_buf (rel_array rel ! i)) \<and> buf_content (re_buf (rel_array rel ! i)) = f (unat (rel_packet_id rel))"
proof -
  have ok: "rel_ok cap rel" using inv by (simp add: rcv_inv_def)
  let ?e = "rel_entries rel ! i" and ?N = "unat (rel_packet_id rel)"
  have il: "i < rel_size rel" "re_active ?e" "re_packet_id ?e = rel_packet_id rel"
    using first_index_Some[OF i[unfolded reliable_get_entry_sequenced_def]] length_rel_entries[OF ok] by auto
  let ?e' = "?e\<lparr>re_active := False\<rparr>"
  obtain A B where AB: "act (rel_entries rel) = A @ ?e # B" "act ((rel_entries rel)[i := ?e']) = A @ B"
    using act_deactivate[of i "rel_entries rel" ?e'] il length_rel_entries[OF ok] by auto
  let ?r = "rel\<lparr>rel_packet_id := rel_packet_id rel + 1\<rparr>"
  let ?rel = "rel_update ?r i (\<lambda>e. e\<lparr>re_active := False\<rparr>)"
  have okr: "rel_ok cap ?r" using ok by (simp add: rel_ok_def rel_entries_def)
  have er: "rel_entries ?r = rel_entries rel" by (simp add: rel_entries_def)
  have new: "act (rel_entries ?rel) = A @ B"
    using rel_entries_update[OF okr, of i "\<lambda>e. e\<lparr>re_active := False\<rparr>"] il(1) AB(2) er by simp
  let ?ids = "map (\<lambda>e. unat (re_packet_id e))"
  have ids: "act_ids rel = ?ids A @ ?N # ?ids B" "act_ids ?rel = ?ids A @ ?ids B"
    unfolding act_ids_def new AB(1) using il(3) by simp_all
  have N1: "unat (rel_packet_id rel + 1) = ?N + 1" using small by (simp add: unat_word_ariths)
  have del: "reliable_mark_deleted rel i = Some ?rel"
    using il rel_entries_nth[OF il(1)] by (simp add: reliable_mark_deleted_def)
  have d: "distinct (?ids A @ ?N # ?ids B)" using inv ids(1) by (simp add: rcv_inv_def)
  then have s: "set (act_ids ?rel) = set (act_ids rel) - {?N}" unfolding ids by auto
  have N: "unat (rel_packet_id ?rel) = ?N + 1" using N1 by simp
  have all: "\<forall>x \<in> set (A @ ?e # B). buf_content (re_buf x) = f (unat (re_packet_id x))"
    using inv unfolding rcv_inv_def AB(1) by blast
  have "rcv_inv cap f ?rel"
  proof (rule rcv_invI[OF _ new])
    show "rel_ok cap ?rel"
      using rel_ok_update[OF okr, of i "\<lambda>e. e\<lparr>re_active := False\<rparr>"] il(1) rel_ok_entry[OF ok il(1)] er by simp
    show "distinct (?ids (A @ B))" using d by simp
    show "\<forall>x \<in> set (A @ B). buf_content (re_buf x) = f (unat (re_packet_id x))" using all by simp
    show "set (act_ids ?rel) \<subseteq> {unat (rel_packet_id ?rel)..<unat (rel_packet_id ?rel) + rel_size ?rel}"
      using inv unfolding s N rcv_inv_def by auto
  qed
  moreover have "buf_content (re_buf (rel_array rel ! i)) = f ?N"
    using all il(3) rel_entries_nth[OF il(1)] by simp
  moreover have "buf_live (re_buf (rel_array rel ! i))"
    using rel_ok_entry[OF ok il(1)] rel_entries_nth[OF il(1)] by simp
  ultimately show ?thesis using del N s by (intro exI[of _ ?rel]) simp
qed

lemma get_entry_sequenced_iff:
  "reliable_get_entry_sequenced rel = None \<longleftrightarrow> unat (rel_packet_id rel) \<notin> set (act_ids rel)"
  by (auto simp: reliable_get_entry_sequenced_def first_index_None act_ids_def act_def word_unat_eq_iff image_iff)

text \<open>Delivery hands out exactly the payload of the expected id, if it is there.\<close>

lemma buf_live_len: "buf_live b \<Longrightarrow> b_len b = int (length (buf_content b))"
  by (auto simp: buf_live_repr)

lemma control_deliver_effect:
  assumes inv: "rcv_inv cap f rel" and small: "unat (rel_packet_id rel) + 1 < 2 ^ 32"
  shows "\<exists>rel' r ok. control_deliver write_ct rel = Some (rel', r, ok) \<and> rcv_inv cap f rel' \<and>
    rel_size rel' = rel_size rel \<and> rel_offset rel' = rel_offset rel \<and>
    (if unat (rel_packet_id rel) \<in> set (act_ids rel) \<and>
        (f (unat (rel_packet_id rel)) = [] \<or> write_ct (f (unat (rel_packet_id rel))) = 1)
     then r = Some (f (unat (rel_packet_id rel))) \<and> unat (rel_packet_id rel') = unat (rel_packet_id rel) + 1 \<and>
       set (act_ids rel') = set (act_ids rel) - {unat (rel_packet_id rel)} \<and> ok
     else r = None \<and> rel' = rel)"
proof (cases "reliable_get_entry_sequenced rel")
  case None
  then show ?thesis using inv get_entry_sequenced_iff[of rel] by (auto simp: control_deliver_def)
next
  case (Some i)
  have mem: "unat (rel_packet_id rel) \<in> set (act_ids rel)" using Some get_entry_sequenced_iff[of rel] by auto
  obtain rel' where r: "reliable_mark_deleted rel i = Some rel'" "rcv_inv cap f rel'"
    "unat (rel_packet_id rel') = unat (rel_packet_id rel) + 1"
    "set (act_ids rel') = set (act_ids rel) - {unat (rel_packet_id rel)}"
    "rel_size rel' = rel_size rel" "rel_offset rel' = rel_offset rel"
    "buf_live (re_buf (rel_array rel ! i))" "buf_content (re_buf (rel_array rel ! i)) = f (unat (rel_packet_id rel))"
    using rcv_remove[OF inv Some small] by blast
  have "buf_bytes (re_buf (rel_array rel ! i)) = Some (f (unat (rel_packet_id rel)))"
    using r(7,8) by (simp add: buf_live_def buf_bytes_ok)
  moreover have "b_len (re_buf (rel_array rel ! i)) = int (length (f (unat (rel_packet_id rel))))"
    using buf_live_len[OF r(7)] r(8) by simp
  ultimately show ?thesis using Some r(1-6) mem inv by (auto simp: control_deliver_def Let_def)
qed

lemma rel_update_twice: "i < length (rel_array rel) \<Longrightarrow> rel_update (rel_update rel i f) i g = rel_update rel i (\<lambda>e. g (f e))"
  by (simp add: rel_update_def)

lemma rel_update_const: "rel_update rel i f = rel_update rel i (\<lambda>_. f (rel_array rel ! i))"
  by (simp add: rel_update_def)

lemma rel_array_update: "i < length (rel_array rel) \<Longrightarrow> rel_array (rel_update rel i f) ! i = f (rel_array rel ! i)"
  by (simp add: rel_update_def)

text \<open>Replacing the buffer of a free entry changes nothing that is stored.\<close>

lemma rcv_inactive_update:
  assumes inv: "rcv_inv cap f rel" and i: "i < rel_size rel" "\<not> re_active (rel_entries rel ! i)"
    and b: "buf_live b" "b_capacity b = cap"
  shows "rcv_inv cap f (rel_update rel i (\<lambda>e. e\<lparr>re_buf := b\<rparr>)) \<and>
    act_ids (rel_update rel i (\<lambda>e. e\<lparr>re_buf := b\<rparr>)) = act_ids rel"
proof -
  have ok: "rel_ok cap rel" using inv by (simp add: rcv_inv_def)
  let ?rel = "rel_update rel i (\<lambda>e. e\<lparr>re_buf := b\<rparr>)"
  have "act (rel_entries ?rel) = act (rel_entries rel)"
    unfolding rel_entries_update[OF ok i(1)]
    by (rule act_inactive) (use i length_rel_entries[OF ok] in simp_all)
  moreover have "rel_ok cap ?rel" using rel_ok_update[OF ok i(1)] b by simp
  ultimately show ?thesis using inv by (simp add: rcv_inv_def act_ids_def)
qed

text \<open>The effect of \<open>control_receive\<close> on a packet with id \<open>pid\<close> and payload \<open>f pid\<close>.\<close>

definition in_window :: "reliable \<Rightarrow> nat \<Rightarrow> bool" where
  "in_window rel k \<longleftrightarrow> unat (rel_packet_id rel) \<le> k \<and> k < unat (rel_packet_id rel) + rel_size rel"

definition same_params :: "reliable \<Rightarrow> reliable \<Rightarrow> bool" where
  "same_params r r' \<longleftrightarrow> rel_packet_id r' = rel_packet_id r \<and> rel_size r' = rel_size r \<and> rel_offset r' = rel_offset r"

lemma ack_acknowledge_effect:
  assumes "ack_ok a"
  shows "\<exists>a' r. reliable_ack_acknowledge_packet_id a pid = Some (a', r) \<and> ack_ok a' \<and>
    set (ack_ids a') \<subseteq> insert pid (set (ack_ids a))"
proof -
  obtain r where a: "a = ack_of (ack_ids a) r" "length (ack_ids a) + length r = 8"
    using ack_ok_repr[OF assms] by blast
  obtain r' where r': "reliable_ack_acknowledge_packet_id (ack_of (ack_ids a) r) pid =
    (if pid \<notin> set (ack_ids a) \<and> length (ack_ids a) < 8 then Some (ack_of (ack_ids a @ [pid]) r', True)
     else Some (ack_of (ack_ids a) r, False))" "length (ack_ids a) < 8 \<longrightarrow> length (ack_ids a) + 1 + length r' = 8"
    using reliable_ack_acknowledge_of[OF a(2), of pid] by blast
  show ?thesis
  proof (cases "pid \<notin> set (ack_ids a) \<and> length (ack_ids a) < 8")
    case True
    then show ?thesis using r' a(1) by (intro exI[of _ "ack_of (ack_ids a @ [pid]) r'"] exI[of _ True]) simp
  next
    case False
    then show ?thesis using r'(1) a assms by (intro exI[of _ a] exI[of _ False]) auto
  qed
qed

lemma control_store_effect:
  assumes inv: "rcv_inv cap f rel" and get: "reliable_can_get rel" and win: "in_window rel (unat pid)"
    and new: "unat pid \<notin> set (act_ids rel)" "\<not> reliable_pid_min pid (rel_packet_id rel)"
    and b: "buf_ok b" "buf_content b = f (unat pid)"
  shows "\<exists>rel' ok. do {
      (rel, i) \<leftarrow> reliable_get_buf rel;
      i \<leftarrow> i;
      (e, ok) \<leftarrow> buf_copy (re_buf (rel_array rel ! i)) b;
      let rel = rel_update rel i (\<lambda>x. x\<lparr>re_buf := e\<rparr>);
      if \<not> ok then Some (rel, False)
      else do { rel \<leftarrow> reliable_mark_active_incoming rel i pid opcode; Some (rel, True) } } = Some (rel', ok) \<and>
    rcv_inv cap f rel' \<and> same_params rel rel' \<and>
    ok = (int (length (f (unat pid))) \<le> cap - rel_offset rel) \<and>
    set (act_ids rel') = (if ok then insert (unat pid) (set (act_ids rel)) else set (act_ids rel))"
proof -
  have ok: "rel_ok cap rel" using inv by (simp add: rcv_inv_def)
  obtain i b0 where g: "reliable_get_buf rel = Some (rel_update rel i (\<lambda>e. e\<lparr>re_buf := b0\<rparr>), Some i)"
    "i < rel_size rel" "\<not> re_active (rel_entries rel ! i)" "buf_live b0" "b_capacity b0 = cap"
    "buf_content b0 = []" "buf_forward_capacity b0 = cap - rel_offset rel"
    using reliable_get_buf_ok[OF ok get] by blast
  obtain p q where b0: "b0 = buf_of p [] q" "buf_fits p [] q" using g(4,6) by (auto simp: buf_live_repr)
  let ?d = "f (unat pid)"
  have cap1: "cap = int (length p + length q)" using g(5) b0(1) by (simp add: buf_of_def)
  have cap2: "int (length q) = cap - rel_offset rel" using g(7) b0(1) by simp
  note cap = cap1 cap2
  have il: "i < length (rel_array rel)" using g(2) ok by (simp add: rel_ok_def)
  have arr: "re_buf (rel_array (rel_update rel i (\<lambda>e. e\<lparr>re_buf := b0\<rparr>)) ! i) = b0"
    using rel_array_update[OF il] by simp
  show ?thesis
  proof (cases "length ?d \<le> length q")
    case False
    then have "buf_copy b0 b = Some (b0, False)" using b0 b by (simp add: buf_copy_of)
    then show ?thesis
      using g(1) arr False cap(2) rcv_inactive_update[OF inv g(2,3,4,5)] rel_update_twice[OF il]
      by (intro exI[of _ "rel_update rel i (\<lambda>e. e\<lparr>re_buf := b0\<rparr>)"] exI[of _ False])
        (simp add: same_params_def)
  next
    case True
    let ?b = "buf_of p ?d (drop (length ?d) q)"
    have copy: "buf_copy b0 b = Some (?b, True)" using True b0 b by (simp add: buf_copy_of)
    have "b_capacity ?b = cap" using True cap1 by (simp add: buf_of_def)
    moreover have "buf_live ?b" "buf_content ?b = ?d"
      using b0(2) True by (auto simp: buf_live_def elim!: buf_fits_split)
    ultimately have bl: "buf_live ?b" "b_capacity ?b = cap" "buf_content ?b = ?d" by blast+
    let ?e = "(rel_array rel ! i)\<lparr>re_buf := ?b, re_active := True, re_packet_id := pid, re_opcode := opcode,
       re_next_try := 0, re_timeout := 0, re_n_acks := 0\<rparr>"
    have mark: "reliable_mark_active_incoming
        (rel_update (rel_update rel i (\<lambda>e. e\<lparr>re_buf := b0\<rparr>)) i (\<lambda>x. x\<lparr>re_buf := ?b\<rparr>)) i pid opcode =
        Some (rel_update rel i (\<lambda>_. ?e))"
      using g(2) new(2) il
      by (simp add: reliable_mark_active_incoming_def rel_update_twice)
        (simp add: rel_update_def)
    have e: "unat (re_packet_id ?e) = unat pid" by simp
    have "rcv_inv cap f (rel_update rel i (\<lambda>_. ?e)) \<and>
        set (act_ids (rel_update rel i (\<lambda>_. ?e))) = insert (unat (re_packet_id ?e)) (set (act_ids rel))"
      by (rule rcv_store[OF inv g(2,3)]) (use bl win new in \<open>simp_all add: in_window_def\<close>)
    then show ?thesis
      using g(1) arr copy mark True cap(2)
      by (intro exI[of _ "rel_update rel i (\<lambda>_. ?e)"] exI[of _ True]) (simp add: same_params_def)
  qed
qed

lemma control_receive_effect:
  assumes inv: "rcv_inv cap f rel" and ack: "ack_ok a"
    and small: "unat (rel_packet_id rel) + rel_size rel \<le> 2 ^ 31"
    and fits: "buf_fits p (be32 pid @ f (unat pid)) q"
  shows "\<exists>rel' a' b' ok. control_receive rel a (buf_of p (be32 pid @ f (unat pid)) q) opcode = Some (rel', a', b', ok) \<and>
    rcv_inv cap f rel' \<and> ack_ok a' \<and> same_params rel rel' \<and>
    set (act_ids rel) \<subseteq> set (act_ids rel') \<and>
    set (act_ids rel') \<subseteq> insert (unat pid) (set (act_ids rel)) \<and>
    (in_window rel (unat pid) \<and> int (length (f (unat pid))) \<le> cap - rel_offset rel \<longrightarrow> unat pid \<in> set (act_ids rel')) \<and>
    (\<forall>x \<in> set (ack_ids a'). x \<in> set (ack_ids a) \<or>
       x = pid \<and> (unat pid < unat (rel_packet_id rel) \<or> unat pid \<in> set (act_ids rel')))"
proof -
  have ok: "rel_ok cap rel" using inv by (simp add: rcv_inv_def)
  let ?d = "f (unat pid)" and ?b1 = "buf_of (p @ be32 pid) (f (unat pid)) q"
  have rd: "reliable_ack_read_packet_id (buf_of p (be32 pid @ ?d) q) = Some (?b1, Some pid)"
    by (simp add: reliable_ack_read_packet_id_def buf_read_of)
  have b1: "buf_ok ?b1" "buf_content ?b1 = ?d" using fits by (auto elim!: buf_fits_split)
  let ?win = "reliable_wont_break_sequentiality rel pid"
  have w: "?win \<and> \<not> reliable_pid_min pid (rel_packet_id rel) \<longleftrightarrow> in_window rel (unat pid)"
    using pid_window[OF small, of pid] by (simp add: reliable_wont_break_sequentiality_def in_window_def)
  obtain a1 r1 where a1: "reliable_ack_acknowledge_packet_id a pid = Some (a1, r1)" "ack_ok a1"
    "set (ack_ids a1) \<subseteq> insert pid (set (ack_ids a))"
    using ack_acknowledge_effect[OF ack] by blast
  have room: "in_window rel (unat pid) \<Longrightarrow> unat pid \<notin> set (act_ids rel) \<Longrightarrow> reliable_can_get rel"
    using window_has_room[OF inv, of "unat pid"] by (simp add: in_window_def)
  consider "\<not> reliable_can_get rel" | "reliable_can_get rel" "\<not> ?win"
    | "reliable_can_get rel" ?win "\<not> reliable_not_replay rel pid"
    | "reliable_can_get rel" ?win "reliable_not_replay rel pid" by blast
  then show ?thesis
  proof cases
    case 1
    then show ?thesis using inv ack room
      by (intro exI[of _ rel] exI[of _ a] exI[of _ "buf_of p (be32 pid @ ?d) q"] exI[of _ True])
        (auto simp: control_receive_def same_params_def)
  next
    case 2
    then show ?thesis using inv ack rd w
      by (intro exI[of _ rel] exI[of _ a] exI[of _ ?b1] exI[of _ True])
        (auto simp: control_receive_def same_params_def)
  next
    case 3
    have "unat pid < unat (rel_packet_id rel) \<or> unat pid \<in> set (act_ids rel)"
    proof (rule ccontr)
      assume n: "\<not> ?thesis"
      then have "reliable_pid_min pid (rel_packet_id rel)" using 3(3) by (simp add: not_replay_iff)
      moreover have "in_window rel (unat pid)"
        using n pid_window[OF small, of pid] 3(2) small
        by (auto simp: reliable_wont_break_sequentiality_def in_window_def reliable_pid_in_range2_def
            word_less_nat_alt word_le_nat_alt unat_word_ariths unat_of_nat split: if_splits)
      ultimately show False using w by blast
    qed
    moreover have "in_window rel (unat pid) \<longrightarrow> unat pid \<in> set (act_ids rel)"
      using 3(3) w by (auto simp: not_replay_iff)
    ultimately show ?thesis using 3 inv rd a1
      by (intro exI[of _ rel] exI[of _ a1] exI[of _ ?b1] exI[of _ True])
        (auto simp: control_receive_def same_params_def)
  next
    case 4
    then have win: "in_window rel (unat pid)" and new: "unat pid \<notin> set (act_ids rel)"
        "\<not> reliable_pid_min pid (rel_packet_id rel)"
      using w by (auto simp: not_replay_iff)
    note st = control_store_effect[OF inv 4(1) win new b1, of opcode]
    then obtain rel' ok' where st': "do {
      (rel, i) \<leftarrow> reliable_get_buf rel;
      i \<leftarrow> i;
      (e, ok) \<leftarrow> buf_copy (re_buf (rel_array rel ! i)) ?b1;
      let rel = rel_update rel i (\<lambda>x. x\<lparr>re_buf := e\<rparr>);
      if \<not> ok then Some (rel, False)
      else do { rel \<leftarrow> reliable_mark_active_incoming rel i pid opcode; Some (rel, True) } } = Some (rel', ok')"
      "rcv_inv cap f rel'" "same_params rel rel'" "ok' = (int (length ?d) \<le> cap - rel_offset rel)"
      "set (act_ids rel') = (if ok' then insert (unat pid) (set (act_ids rel)) else set (act_ids rel))"
      by blast
    show ?thesis
    proof (cases ok')
      case True
      have "control_receive rel a (buf_of p (be32 pid @ ?d) q) opcode = Some (rel', a1, ?b1, True)"
        unfolding control_receive_def using 4 rd st'(1) a1(1) True by simp
      then show ?thesis using st' a1 True by (intro exI[of _ rel'] exI[of _ a1] exI[of _ ?b1] exI[of _ True]) auto
    next
      case False
      have "control_receive rel a (buf_of p (be32 pid @ ?d) q) opcode = Some (rel', a, ?b1, False)"
        unfolding control_receive_def using 4 rd st'(1) False by simp
      then show ?thesis using st' ack False by (intro exI[of _ rel'] exI[of _ a] exI[of _ ?b1] exI[of _ False]) auto
    qed
  qed
qed

section \<open>The send window\<close>

text \<open>The packets waiting for acknowledgment: their ids and contents.\<close>

definition act_pkts :: "reliable \<Rightarrow> (nat \<times> byte list) list" where
  "act_pkts rel = map (\<lambda>e. (unat (re_packet_id e), buf_content (re_buf e))) (act (rel_entries rel))"

lemma act_ids_pkts: "act_ids rel = map fst (act_pkts rel)"
  by (simp add: act_ids_def act_pkts_def)

text \<open>
  \<open>snd_inv\<close>: the ids are distinct, at most \<open>size\<close> behind the next id, and each packet is its id
  followed by the payload \<open>f\<close> of that id.
\<close>

definition snd_inv :: "int \<Rightarrow> (nat \<Rightarrow> byte list) \<Rightarrow> reliable \<Rightarrow> bool" where
  "snd_inv cap f rel \<longleftrightarrow> rel_ok cap rel \<and> 4 \<le> rel_offset rel \<and> unat (rel_packet_id rel) \<le> 2 ^ 31 \<and>
     distinct (map fst (act_pkts rel)) \<and>
     (\<forall>(k, c) \<in> set (act_pkts rel). k < unat (rel_packet_id rel) \<and> unat (rel_packet_id rel) \<le> k + rel_size rel \<and>
        c = be32 (of_nat k) @ f k)"

lemma rel_min_fold:
  assumes "\<forall>e \<in> set es. re_active e \<longrightarrow> unat (re_packet_id e) < 2 ^ 31" "\<forall>x. m = Some x \<longrightarrow> unat x < 2 ^ 31"
  shows "case fold rel_min_step es m of
      None \<Rightarrow> m = None \<and> act es = []
    | Some r \<Rightarrow> (m = Some r \<or> (\<exists>e \<in> set (act es). re_packet_id e = r)) \<and>
        (\<forall>x. m = Some x \<longrightarrow> unat r \<le> unat x) \<and> (\<forall>e \<in> set (act es). unat r \<le> unat (re_packet_id e))"
  using assms
proof (induction es arbitrary: m)
  case Nil
  then show ?case by (auto simp: act_def split: option.splits)
next
  case (Cons e es)
  have 1: "\<forall>x. rel_min_step e m = Some x \<longrightarrow> unat x < 2 ^ 31"
    using Cons.prems by (auto simp: rel_min_step_def split: option.splits if_splits)
  have 2: "re_active e \<Longrightarrow> m = Some x \<Longrightarrow> reliable_pid_min (re_packet_id e) x \<longleftrightarrow> unat (re_packet_id e) < unat x" for x
    using Cons.prems by (intro pid_min_less) auto
  have ih: "case fold rel_min_step es (rel_min_step e m) of
      None \<Rightarrow> rel_min_step e m = None \<and> act es = []
    | Some r \<Rightarrow> (rel_min_step e m = Some r \<or> (\<exists>e \<in> set (act es). re_packet_id e = r)) \<and>
        (\<forall>x. rel_min_step e m = Some x \<longrightarrow> unat r \<le> unat x) \<and> (\<forall>e \<in> set (act es). unat r \<le> unat (re_packet_id e))"
    using Cons.IH[OF _ 1] Cons.prems(1) by simp
  show ?case
  proof (cases "re_active e")
    case False
    then have "rel_min_step e m = m" "act (e # es) = act es" by (simp_all add: rel_min_step_def act_def)
    then show ?thesis using ih by (auto split: option.splits)
  next
    case True
    then have a: "act (e # es) = e # act es" by (simp add: act_def)
    show ?thesis
    proof (cases m)
      case None
      then have "rel_min_step e m = Some (re_packet_id e)" using True by (simp add: rel_min_step_def)
      then show ?thesis using ih a None by (auto split: option.splits)
    next
      case (Some x)
      then have "rel_min_step e m = (if unat (re_packet_id e) < unat x then Some (re_packet_id e) else Some x)"
        using True 2[OF True Some] by (simp add: rel_min_step_def)
      then show ?thesis using ih a Some by (auto split: option.splits if_splits)
    qed
  qed
qed

lemma rel_min_id_pkts:
  assumes "snd_inv cap f rel"
  shows "case rel_min_id rel of
      None \<Rightarrow> act_pkts rel = []
    | Some r \<Rightarrow> unat r \<in> set (act_ids rel) \<and> (\<forall>k \<in> set (act_ids rel). unat r \<le> k)"
proof -
  have "\<forall>e \<in> set (rel_entries rel). re_active e \<longrightarrow> unat (re_packet_id e) < 2 ^ 31"
  proof (intro ballI impI)
    fix e assume e: "e \<in> set (rel_entries rel)" "re_active e"
    then have "(unat (re_packet_id e), buf_content (re_buf e)) \<in> set (act_pkts rel)"
      by (auto simp: act_pkts_def act_def)
    then show "unat (re_packet_id e) < 2 ^ 31" using assms by (auto simp: snd_inv_def)
  qed
  from rel_min_fold[OF this, of None] show ?thesis
    by (auto simp: rel_min_id_def act_pkts_def act_ids_def split: option.splits)
qed

text \<open>The check before a buffer is handed out keeps the ids within the window.\<close>

lemma output_sequenced_iff:
  assumes "snd_inv cap f rel"
  shows "(case rel_min_id rel of None \<Rightarrow> True
      | Some m \<Rightarrow> reliable_pid_in_range1 (rel_packet_id rel) m (of_nat (rel_size rel))) \<longleftrightarrow>
    (\<forall>k \<in> set (act_ids rel). unat (rel_packet_id rel) < k + rel_size rel)"
proof -
  have sz: "rel_size rel < 2 ^ 32" using assms by (simp add: snd_inv_def rel_ok_def RELIABLE_CAPACITY_def)
  show ?thesis
  proof (cases "rel_min_id rel")
    case None
    then show ?thesis using rel_min_id_pkts[OF assms] by (simp add: act_ids_pkts)
  next
    case (Some m)
    have m: "unat m \<in> set (act_ids rel)" "\<forall>k \<in> set (act_ids rel). unat m \<le> k"
      using rel_min_id_pkts[OF assms] Some by auto
    then have "unat m < unat (rel_packet_id rel)" using assms by (auto simp: snd_inv_def act_ids_pkts)
    then have "reliable_pid_in_range1 (rel_packet_id rel) m (of_nat (rel_size rel)) \<longleftrightarrow>
        unat (rel_packet_id rel) < unat m + rel_size rel"
      using pid_in_range1_iff[of m "rel_packet_id rel" "rel_size rel"] sz by simp
    then show ?thesis using Some m by auto
  qed
qed

text \<open>When it says yes there is a free entry.\<close>

lemma output_sequenced_room:
  assumes inv: "snd_inv cap f rel" and seq: "\<forall>k \<in> set (act_ids rel). unat (rel_packet_id rel) < k + rel_size rel"
  shows "reliable_can_get rel"
proof (rule ccontr)
  assume "\<not> reliable_can_get rel"
  then have "\<forall>e \<in> set (rel_entries rel). re_active e" by (auto simp: reliable_can_get_def list_ex_iff)
  then have "act (rel_entries rel) = rel_entries rel" by (simp add: act_full)
  then have "length (act_ids rel) = rel_size rel"
    using inv length_rel_entries by (auto simp: act_ids_def snd_inv_def)
  moreover have "distinct (act_ids rel)" using inv by (simp add: snd_inv_def act_ids_pkts)
  ultimately have "card (set (act_ids rel)) = rel_size rel" using distinct_card by metis
  moreover have "set (act_ids rel) \<subseteq> {unat (rel_packet_id rel) - (rel_size rel - 1)..<unat (rel_packet_id rel)}"
    using inv seq by (fastforce simp: snd_inv_def act_ids_pkts)
  then have "card (set (act_ids rel)) \<le> card {unat (rel_packet_id rel) - (rel_size rel - 1)..<unat (rel_packet_id rel)}"
    by (intro card_mono) auto
  moreover have "0 < rel_size rel" using inv by (simp add: snd_inv_def rel_ok_def)
  ultimately show False by simp
qed

lemma control_submit_effect:
  assumes inv: "snd_inv cap f rel" and small: "unat (rel_packet_id rel) < 2 ^ 31"
    and d: "f (unat (rel_packet_id rel)) = d" "int (length d) \<le> cap - rel_offset rel"
  shows "\<exists>rel' tmp' ok. control_submit rel (buf_of pt (d @ rest) qt) (int (length d)) opcode = Some (rel', tmp', ok) \<and>
    snd_inv cap f rel' \<and> rel_size rel' = rel_size rel \<and> rel_offset rel' = rel_offset rel \<and>
    rel_initial_timeout rel' = rel_initial_timeout rel \<and>
    ok = (\<forall>k \<in> set (act_ids rel). unat (rel_packet_id rel) < k + rel_size rel) \<and>
    (if ok
     then tmp' = buf_of (pt @ d) rest qt \<and> unat (rel_packet_id rel') = unat (rel_packet_id rel) + 1 \<and>
       set (act_pkts rel') = insert (unat (rel_packet_id rel), be32 (rel_packet_id rel) @ d) (set (act_pkts rel))
     else rel' = rel \<and> tmp' = buf_of pt (d @ rest) qt)"
proof (cases "\<forall>k \<in> set (act_ids rel). unat (rel_packet_id rel) < k + rel_size rel")
  case False
  have "reliable_get_buf_output_sequenced rel = Some (rel, None)"
    unfolding reliable_get_buf_output_sequenced_def output_sequenced_iff[OF inv] using False by (rule if_not_P)
  then show ?thesis using False inv
    by (intro exI[of _ rel] exI[of _ "buf_of pt (d @ rest) qt"] exI[of _ False]) (simp add: control_submit_def)
next
  case seq: True
  have ok: "rel_ok cap rel" using inv by (simp add: snd_inv_def)
  obtain i b0 where g: "reliable_get_buf rel = Some (rel_update rel i (\<lambda>e. e\<lparr>re_buf := b0\<rparr>), Some i)"
    "i < rel_size rel" "\<not> re_active (rel_entries rel ! i)" "buf_live b0" "b_capacity b0 = cap"
    "buf_content b0 = []" "buf_forward_capacity b0 = cap - rel_offset rel" "buf_reverse_capacity b0 = rel_offset rel"
    using reliable_get_buf_ok[OF ok output_sequenced_room[OF inv seq]] by blast
  have gs: "reliable_get_buf_output_sequenced rel = reliable_get_buf rel"
    unfolding reliable_get_buf_output_sequenced_def output_sequenced_iff[OF inv] using seq by (rule if_P)
  obtain p q where b0: "b0 = buf_of p [] q" "buf_fits p [] q" using g(4,6) by (auto simp: buf_live_repr)
  have pq: "int (length q) = cap - rel_offset rel" "int (length p) = rel_offset rel" using g(7,8) b0(1) by simp_all
  have p4: "4 \<le> length p" using inv pq(2) by (simp add: snd_inv_def)
  have il: "i < length (rel_array rel)" using g(2) ok by (simp add: rel_ok_def)
  let ?q = "drop (length d) q" and ?P = "rel_packet_id rel" and ?N = "unat (rel_packet_id rel)"
  have copy: "buf_copy_n b0 (buf_of pt (d @ rest) qt) (int (length d)) =
      Some (buf_of p d ?q, buf_of (pt @ d) rest qt, True)"
    using b0 d(2) pq(1) by (simp add: buf_copy_n_of Let_def)
  let ?b = "buf_of (take (length p - 4) p) (be32 ?P @ d) ?q"
  have pre: "buf_write_prepend (buf_of p d ?q) (be32 ?P) = Some (?b, True)"
    using p4 by (simp add: buf_write_prepend_of)
  have "b_capacity ?b = cap" using p4 pq d(2) by (simp add: buf_of_def of_nat_diff)
  moreover have "buf_live ?b" "buf_content ?b = be32 ?P @ d"
    using b0(2) p4 d(2) pq(1) by (auto simp: buf_live_def elim!: buf_fits_split)
  ultimately have b: "buf_live ?b" "b_capacity ?b = cap" "buf_content ?b = be32 ?P @ d" by blast+
  let ?e = "(rel_array rel ! i)\<lparr>re_packet_id := ?P, re_buf := ?b, re_active := True, re_opcode := opcode,
       re_next_try := 0, re_timeout := rel_initial_timeout rel\<rparr>"
  let ?r = "rel\<lparr>rel_packet_id := ?P + 1\<rparr>"
  let ?rel = "rel_update ?r i (\<lambda>_. ?e)"
  have sub: "control_submit rel (buf_of pt (d @ rest) qt) (int (length d)) opcode =
      Some (?rel, buf_of (pt @ d) rest qt, True)"
    using g(1,2) gs copy pre il
    by (simp add: control_submit_def rel_array_update reliable_mark_active_outgoing_def Let_def) (simp add: rel_update_def)
  have okr: "rel_ok cap ?r" "rel_entries ?r = rel_entries rel"
    using ok by (simp_all add: rel_ok_def rel_entries_def)
  have okrel: "rel_ok cap ?rel" using rel_ok_update[OF okr(1), of i "\<lambda>_. ?e"] g(2) b by simp
  obtain A B where AB: "act (rel_entries rel) = A @ B" "act ((rel_entries rel)[i := ?e]) = A @ ?e # B"
    using act_activate[of i "rel_entries rel" ?e] g(2,3) length_rel_entries[OF ok] by auto
  have new: "act (rel_entries ?rel) = A @ ?e # B"
    using rel_entries_update[OF okr(1), of i "\<lambda>_. ?e"] g(2) AB(2) okr(2) by simp
  let ?pk = "map (\<lambda>e. (unat (re_packet_id e), buf_content (re_buf e)))"
  have pk: "act_pkts rel = ?pk A @ ?pk B" "act_pkts ?rel = ?pk A @ (?N, be32 ?P @ d) # ?pk B"
    unfolding act_pkts_def new AB(1) using b(3) by simp_all
  have N1: "unat (rel_packet_id ?rel) = ?N + 1" using small by (simp add: unat_word_ariths)
  have notin: "?N \<notin> set (map fst (act_pkts rel))" using inv by (auto simp: snd_inv_def)
  have "snd_inv cap f ?rel"
    unfolding snd_inv_def N1
  proof (intro conjI)
    show "distinct (map fst (act_pkts ?rel))" using inv notin unfolding snd_inv_def pk by simp
    have "(k < ?N + 1 \<and> ?N + 1 \<le> k + rel_size rel \<and> c = be32 (of_nat k) @ f k)"
      if "(k, c) \<in> set (act_pkts ?rel)" for k c
    proof (cases "k = ?N \<and> c = be32 ?P @ d")
      case True
      then show ?thesis using d(1) ok by (simp add: rel_ok_def)
    next
      case False
      then have "(k, c) \<in> set (act_pkts rel)" using that unfolding pk by auto
      then show ?thesis using inv seq by (force simp: snd_inv_def act_ids_pkts)
    qed
    then show "\<forall>(k, c) \<in> set (act_pkts ?rel). k < ?N + 1 \<and> ?N + 1 \<le> k + rel_size ?rel \<and> c = be32 (of_nat k) @ f k"
      by auto
  qed (use okrel inv small in \<open>simp_all add: snd_inv_def\<close>)
  then show ?thesis using sub N1 seq
    by (intro exI[of _ ?rel] exI[of _ "buf_of (pt @ d) rest qt"] exI[of _ True]) (simp add: pk)
qed

section \<open>Retransmission\<close>

text \<open>\<open>send_best\<close> finds the due entry with the smallest id.\<close>

lemma send_best_fold:
  assumes "\<forall>i < length es. re_active (es ! i) \<longrightarrow> unat (re_packet_id (es ! i)) < 2 ^ 31"
    "set is \<subseteq> {..<length es}" "\<forall>b. best = Some b \<longrightarrow> b < length es \<and> entry_due now (es ! b)"
  shows "case fold (send_best_step now es) is best of
      None \<Rightarrow> best = None \<and> (\<forall>i \<in> set is. \<not> entry_due now (es ! i))
    | Some b \<Rightarrow> b < length es \<and> entry_due now (es ! b) \<and>
        (\<forall>i \<in> set is. entry_due now (es ! i) \<longrightarrow> unat (re_packet_id (es ! b)) \<le> unat (re_packet_id (es ! i))) \<and>
        (\<forall>c. best = Some c \<longrightarrow> unat (re_packet_id (es ! b)) \<le> unat (re_packet_id (es ! c)))"
  using assms(2,3)
proof (induction "is" arbitrary: best)
  case Nil
  then show ?case by (auto split: option.splits)
next
  case (Cons i "is")
  have il: "i < length es" using Cons.prems(1) by simp
  have small: "b < length es \<Longrightarrow> entry_due now (es ! b) \<Longrightarrow> unat (re_packet_id (es ! b)) < 2 ^ 31" for b
    using assms(1) by (simp add: entry_due_def)
  have step: "send_best_step now es i best = (if entry_due now (es ! i)
      then (case best of None \<Rightarrow> Some i
            | Some b \<Rightarrow> if unat (re_packet_id (es ! i)) < unat (re_packet_id (es ! b)) then Some i else Some b)
      else best)"
    using Cons.prems(2) small il by (auto simp: send_best_step_def pid_min_less split: option.splits)
  have "\<forall>b. send_best_step now es i best = Some b \<longrightarrow> b < length es \<and> entry_due now (es ! b)"
    unfolding step using Cons.prems(2) il by (auto split: option.splits if_splits)
  from Cons.IH[OF _ this] Cons.prems(1) step show ?case
    by (auto split: option.splits if_splits)
qed

lemma send_best_spec:
  assumes "snd_inv cap f rel"
  shows "case send_best now rel of
      None \<Rightarrow> (\<forall>e \<in> set (rel_entries rel). \<not> entry_due now e)
    | Some b \<Rightarrow> b < rel_size rel \<and> entry_due now (rel_entries rel ! b) \<and>
        (\<forall>e \<in> set (rel_entries rel). entry_due now e \<longrightarrow>
           unat (re_packet_id (rel_entries rel ! b)) \<le> unat (re_packet_id e))"
proof -
  let ?es = "rel_entries rel"
  have l: "length ?es = rel_size rel" using assms length_rel_entries by (auto simp: snd_inv_def)
  have "unat (re_packet_id (?es ! i)) < 2 ^ 31" if "i < length ?es" "re_active (?es ! i)" for i
  proof -
    have "?es ! i \<in> set (act ?es)" using that by (simp add: act_def)
    then have "(unat (re_packet_id (?es ! i)), buf_content (re_buf (?es ! i))) \<in> set (act_pkts rel)"
      by (auto simp: act_pkts_def)
    then show ?thesis using assms by (auto simp: snd_inv_def)
  qed
  then have "\<forall>i < length ?es. re_active (?es ! i) \<longrightarrow> unat (re_packet_id (?es ! i)) < 2 ^ 31" by blast
  moreover have "set [0..<length ?es] \<subseteq> {..<length ?es}" by auto
  ultimately show ?thesis using send_best_fold[of ?es "[0..<length ?es]" None now]
    unfolding all_set_conv_all_nth by (auto simp: send_best_def l split: option.splits)
qed

text \<open>An update that keeps the activity, the ids and the contents of all entries.\<close>

lemma act_pkts_map:
  assumes "\<And>e. re_active (g e) = re_active e" "\<And>e. re_packet_id (g e) = re_packet_id e"
    "\<And>e. re_buf (g e) = re_buf e"
  shows "map (\<lambda>e. (unat (re_packet_id e), buf_content (re_buf e))) (act (map g es)) =
    map (\<lambda>e. (unat (re_packet_id e), buf_content (re_buf e))) (act es)"
  using assms by (induction es) (simp_all add: act_def)

lemma rel_map_simps [simp]:
  "rel_size (rel_map g rel) = rel_size rel"
  "rel_initial_timeout (rel_map g rel) = rel_initial_timeout rel"
  "rel_packet_id (rel_map g rel) = rel_packet_id rel"
  "rel_offset (rel_map g rel) = rel_offset rel"
  "rel_hold (rel_map g rel) = rel_hold rel"
  by (simp_all add: rel_map_def)

lemma rel_entries_map: "rel_ok cap rel \<Longrightarrow> rel_entries (rel_map g rel) = map g (rel_entries rel)"
  by (simp add: rel_map_def rel_entries_def rel_ok_def)

lemma rel_ok_map:
  assumes "rel_ok cap rel" "\<And>e. re_buf (g e) = re_buf e"
  shows "rel_ok cap (rel_map g rel)"
  using assms rel_entries_map[OF assms(1), of g] length_rel_entries[OF assms(1)]
  by (auto simp: rel_ok_def) (auto simp: rel_map_def)

lemma snd_invI:
  assumes "snd_inv cap f rel" "rel_ok cap rel'" "rel_packet_id rel' = rel_packet_id rel"
    "rel_size rel' = rel_size rel" "rel_offset rel' = rel_offset rel"
    "set (act_pkts rel') \<subseteq> set (act_pkts rel)" "distinct (map fst (act_pkts rel'))"
  shows "snd_inv cap f rel'"
  using assms unfolding snd_inv_def by (auto dest!: subsetD)

lemma schedule_now_effect:
  assumes "snd_inv cap f rel"
  shows "snd_inv cap f (reliable_schedule_now now rel) \<and>
    act_pkts (reliable_schedule_now now rel) = act_pkts rel \<and>
    rel_hold (reliable_schedule_now now rel) = False \<and>
    rel_initial_timeout (reliable_schedule_now now rel) = rel_initial_timeout rel \<and>
    same_params rel (reliable_schedule_now now rel) \<and>
    (\<forall>e \<in> set (act (rel_entries (reliable_schedule_now now rel))).
       re_next_try e = now \<and> re_timeout e = rel_initial_timeout rel)"
proof -
  let ?r = "rel\<lparr>rel_hold := False\<rparr>"
  let ?g = "\<lambda>e. if re_active e then e\<lparr>re_next_try := now, re_timeout := rel_initial_timeout rel\<rparr> else e"
  have s: "reliable_schedule_now now rel = rel_map ?g ?r" by (simp add: reliable_schedule_now_def)
  have ok: "rel_ok cap ?r" "rel_entries ?r = rel_entries rel"
    using assms by (simp_all add: snd_inv_def rel_ok_def rel_entries_def)
  have e: "rel_entries (rel_map ?g ?r) = map ?g (rel_entries rel)" using rel_entries_map[OF ok(1)] ok(2) by simp
  have p: "act_pkts (rel_map ?g ?r) = act_pkts rel"
    unfolding act_pkts_def e by (rule act_pkts_map) simp_all
  have ok2: "rel_ok cap (rel_map ?g ?r)" by (rule rel_ok_map[OF ok(1)]) simp
  have "snd_inv cap f (rel_map ?g ?r)"
    by (rule snd_invI[OF assms ok2]) (use p assms in \<open>simp_all add: snd_inv_def\<close>)
  moreover have "\<forall>x \<in> set (act (map ?g (rel_entries rel))).
      re_next_try x = now \<and> re_timeout x = rel_initial_timeout rel" by (auto simp: act_def)
  ultimately show ?thesis using p unfolding s e by (simp add: same_params_def)
qed

text \<open>Sending changes the schedule of one entry and nothing else.\<close>

lemma control_transmit_effect:
  assumes inv: "snd_inv cap f rel" and can: "reliable_can_send now rel"
  shows "\<exists>b. send_best now rel = Some b \<and> b < rel_size rel \<and> entry_due now (rel_entries rel ! b) \<and>
    (\<forall>e \<in> set (rel_entries rel). entry_due now e \<longrightarrow>
       unat (re_packet_id (rel_entries rel ! b)) \<le> unat (re_packet_id e)) \<and>
    control_transmit now rel =
      (let e = rel_entries rel ! b in
       if re_timeout e * 2 < 2 ^ 31
       then Some (rel_update rel b (\<lambda>e. e\<lparr>re_next_try := now + re_timeout e, re_timeout := re_timeout e * 2, re_n_acks := 0\<rparr>),
              Some (buf_content (re_buf e), re_opcode e))
       else None)"
proof -
  have ok: "rel_ok cap rel" using inv by (simp add: snd_inv_def)
  obtain e where e: "e \<in> set (rel_entries rel)" "entry_due now e"
    using can by (auto simp: reliable_can_send_def Let_def filter_empty_conv)
  obtain b where b: "send_best now rel = Some b" "b < rel_size rel" "entry_due now (rel_entries rel ! b)"
    "\<forall>e \<in> set (rel_entries rel). entry_due now e \<longrightarrow>
       unat (re_packet_id (rel_entries rel ! b)) \<le> unat (re_packet_id e)"
    using send_best_spec[OF inv, of now] e by (auto split: option.splits)
  have il: "b < length (rel_array rel)" using b(2) ok by (simp add: rel_ok_def)
  have n: "rel_array rel ! b = rel_entries rel ! b" using rel_entries_nth[OF b(2)] by simp
  have "buf_bytes (re_buf (rel_entries rel ! b)) = Some (buf_content (re_buf (rel_entries rel ! b)))"
    using rel_ok_entry[OF ok b(2)] by (simp add: buf_live_def buf_bytes_ok)
  then have "control_transmit now rel =
      (let e = rel_entries rel ! b in
       if re_timeout e * 2 < 2 ^ 31
       then Some (rel_update rel b (\<lambda>e. e\<lparr>re_next_try := now + re_timeout e, re_timeout := re_timeout e * 2, re_n_acks := 0\<rparr>),
              Some (buf_content (re_buf e), re_opcode e))
       else None)"
    using can b(1) il by (simp add: control_transmit_def reliable_send_def rel_array_update n Let_def)
  then show ?thesis using b by blast
qed

lemma send_update_pkts:
  assumes inv: "snd_inv cap f rel" and b: "b < rel_size rel" "re_active (rel_entries rel ! b)"
    and g: "\<And>e. re_active (g e) = re_active e" "\<And>e. re_packet_id (g e) = re_packet_id e"
      "\<And>e. re_buf (g e) = re_buf e"
  shows "snd_inv cap f (rel_update rel b g) \<and> act_pkts (rel_update rel b g) = act_pkts rel"
proof -
  have ok: "rel_ok cap rel" using inv by (simp add: snd_inv_def)
  let ?e = "rel_entries rel ! b"
  obtain A B where AB: "act (rel_entries rel) = A @ ?e # B" "act ((rel_entries rel)[b := g ?e]) = A @ g ?e # B"
    using act_update[of b "rel_entries rel" "g ?e"] b length_rel_entries[OF ok] by (auto simp: g)
  have p: "act_pkts (rel_update rel b g) = act_pkts rel"
    unfolding act_pkts_def rel_entries_update[OF ok b(1)] AB by (simp add: g)
  moreover have "rel_ok cap (rel_update rel b g)"
    by (rule rel_ok_update[OF ok b(1)]) (use rel_ok_entry[OF ok b(1)] in \<open>simp_all add: g\<close>)
  then have "snd_inv cap f (rel_update rel b g)"
    by (rule snd_invI[OF inv]) (use p inv in \<open>simp_all add: snd_inv_def\<close>)
  ultimately show ?thesis by blast
qed

text \<open>An acknowledged packet is forgotten, every other one is kept.\<close>

lemma purge_entry_effect:
  assumes "snd_inv cap f rel"
  shows "snd_inv cap f (rel_map (purge_entry pid) rel) \<and>
    act_pkts (rel_map (purge_entry pid) rel) = filter (\<lambda>(k, c). k \<noteq> unat pid) (act_pkts rel)"
proof -
  have ok: "rel_ok cap rel" using assms by (simp add: snd_inv_def)
  have "map (\<lambda>e. (unat (re_packet_id e), buf_content (re_buf e))) (act (map (purge_entry pid) es)) =
      filter (\<lambda>(k, c). k \<noteq> unat pid) (map (\<lambda>e. (unat (re_packet_id e), buf_content (re_buf e))) (act es))" for es
    by (induction es) (auto simp: act_def purge_entry_def word_unat_eq_iff)
  then have p: "act_pkts (rel_map (purge_entry pid) rel) = filter (\<lambda>(k, c). k \<noteq> unat pid) (act_pkts rel)"
    unfolding act_pkts_def rel_entries_map[OF ok] by blast
  moreover have "rel_ok cap (rel_map (purge_entry pid) rel)"
    by (rule rel_ok_map[OF ok]) (simp add: purge_entry_def)
  then have "snd_inv cap f (rel_map (purge_entry pid) rel)"
    by (rule snd_invI[OF assms]) (use p assms in \<open>auto simp: snd_inv_def distinct_map_filter\<close>)
  ultimately show ?thesis by blast
qed

lemma send_purge_loop_effect:
  assumes "snd_inv cap f rel" "set is \<subseteq> {..<length xs}"
  shows "\<exists>rel'. send_purge_loop rel (ack_of xs r) is = Some rel' \<and> snd_inv cap f rel' \<and>
    same_params rel rel' \<and> rel_hold rel' = rel_hold rel \<and> rel_initial_timeout rel' = rel_initial_timeout rel \<and>
    act_pkts rel' = filter (\<lambda>(k, c). k \<notin> (\<lambda>i. unat (xs ! i)) ` set is) (act_pkts rel)"
  using assms
proof (induction "is" arbitrary: rel)
  case Nil
  then show ?case by (simp add: same_params_def)
next
  case (Cons i "is")
  let ?rel = "rel_map (purge_entry (xs ! i)) rel"
  note e = purge_entry_effect[OF Cons.prems(1), of "xs ! i"]
  obtain rel' where r: "send_purge_loop ?rel (ack_of xs r) is = Some rel'" "snd_inv cap f rel'"
    "same_params ?rel rel'" "rel_hold rel' = rel_hold ?rel" "rel_initial_timeout rel' = rel_initial_timeout ?rel"
    "act_pkts rel' = filter (\<lambda>(k, c). k \<notin> (\<lambda>i. unat (xs ! i)) ` set is) (act_pkts ?rel)"
    using Cons.IH[of ?rel] e Cons.prems(2) by auto
  have "act_pkts rel' = filter (\<lambda>(k, c). k \<notin> (\<lambda>i. unat (xs ! i)) ` set (i # is)) (act_pkts rel)"
    unfolding r(6) conjunct2[OF e] filter_filter by (rule filter_cong) auto
  then show ?case using r(1-5) Cons.prems(2)
    by (intro exI[of _ rel']) (simp add: same_params_def)
qed

lemma reliable_send_purge_effect:
  assumes "snd_inv cap f rel" "ack_ok a"
  shows "\<exists>rel'. reliable_send_purge rel a = Some rel' \<and> snd_inv cap f rel' \<and>
    same_params rel rel' \<and> rel_hold rel' = rel_hold rel \<and> rel_initial_timeout rel' = rel_initial_timeout rel \<and>
    act_pkts rel' = filter (\<lambda>(k, c). k \<notin> unat ` set (ack_ids a)) (act_pkts rel)"
proof -
  obtain r where a: "a = ack_of (ack_ids a) r" using ack_ok_repr[OF assms(2)] by blast
  let ?xs = "ack_ids a"
  have l: "nat (ra_len a) = length ?xs" by (subst a) simp
  have "(\<lambda>i. unat (?xs ! i)) ` set [0..<length ?xs] = unat ` set ?xs"
    by (force simp: in_set_conv_nth image_iff)
  then show ?thesis
    using send_purge_loop_effect[OF assms(1), of "[0..<length ?xs]" ?xs r] l
    by (simp add: reliable_send_purge_def a[symmetric] atLeast0LessThan)
qed

end
