(* ===== verification/Ovpn_Reliable_Link.thy ===== *)
theory Ovpn_Reliable_Link
  imports Ovpn_Reliable
begin

text \<open>
  The two ends of the control channel and the network between them.  The sender is the \<open>reliable\<close>
  of one peer, the receiver that of the other peer with its list of pending acknowledgments.  The
  network may lose, duplicate, delay and reorder datagrams: a datagram once sent stays in the set
  \<open>lk_wire\<close> and each step may, or may never, let the receiver have a copy.  Every step runs the
  operations of \<open>reliable.c\<close> as \<open>ssl.c\<close> calls them, under their guards there; time only passes.
  \<open>link_step\<close> has the steps that return, \<open>link_abort\<close> the states in which one fails an assertion or is
  undefined.
\<close>

section \<open>The system\<close>

record link =
  lk_snd :: reliable
  lk_rcv :: reliable
  lk_acks :: reliable_ack
  lk_mru :: reliable_ack
  lk_wire :: "byte list set"
  lk_ack_wire :: "byte list set"
  lk_sent :: "byte list list"
  lk_recvd :: "byte list list"
  lk_now :: c_time
  lk_burst :: bool

text \<open>The packets of one key exchange stay in the first half of the id space.\<close>

definition LINK_MAX :: nat where "LINK_MAX = 2 ^ 31 - RELIABLE_CAPACITY"

definition empty_acks :: reliable_ack where
  "empty_acks = \<lparr>ra_len = 0, ra_packet_id = replicate 8 0\<rparr>"

text \<open>The allocation of \<open>key_state_init\<close>: buffers of \<open>sz\<close> bytes with a headroom of \<open>off\<close> bytes.\<close>

definition link_init :: "int \<Rightarrow> int \<Rightarrow> int \<Rightarrow> int \<Rightarrow> bool \<Rightarrow> int \<Rightarrow> link option" where
  "link_init sz off n_send n_rec hold timeout = do {
     snd \<leftarrow> reliable_init sz off n_send hold;
     rcv \<leftarrow> reliable_init sz off n_rec False;
     Some \<lparr>lk_snd = reliable_set_timeout snd timeout, lk_rcv = rcv, lk_acks = empty_acks, lk_mru = empty_acks,
           lk_wire = {}, lk_ack_wire = {}, lk_sent = [], lk_recvd = [], lk_now = 0, lk_burst = False\<rparr> }"

text \<open>
  What \<open>tls_pre_decrypt\<close> does once in a session when the peer's reset packet arrives (\<open>do_burst\<close>): it
  schedules all waiting packets for now and ends the hold.
\<close>

definition control_burst :: "bool \<Rightarrow> bool \<Rightarrow> c_time \<Rightarrow> reliable \<Rightarrow> reliable \<times> bool" where
  "control_burst do_burst session_burst now rel =
     (if do_burst \<and> \<not> session_burst then (reliable_schedule_now now rel, True) else (rel, session_burst))"

inductive link_step :: "int \<Rightarrow> session_id \<Rightarrow> link \<Rightarrow> link \<Rightarrow> bool" for room sid where
  submit: "control_submit (lk_snd l) (buf_of p (d @ rest) q) (int (length d)) opcode = Some (snd', tmp, True) \<Longrightarrow>
    int (length d) \<le> room \<Longrightarrow> length (lk_sent l) < LINK_MAX \<Longrightarrow>
    link_step room sid l (l\<lparr>lk_snd := snd', lk_sent := lk_sent l @ [d]\<rparr>)"
| tick: "lk_now l \<le> t \<Longrightarrow> link_step room sid l (l\<lparr>lk_now := t\<rparr>)"
| burst: "control_burst do_burst (lk_burst l) (lk_now l) (lk_snd l) = (snd', burst') \<Longrightarrow>
    link_step room sid l (l\<lparr>lk_snd := snd', lk_burst := burst'\<rparr>)"
| transmit: "control_transmit (lk_now l) (lk_snd l) = Some (snd', Some (bs, opcode)) \<Longrightarrow>
    link_step room sid l (l\<lparr>lk_snd := snd', lk_wire := insert bs (lk_wire l)\<rparr>)"
| arrive: "bs \<in> lk_wire l \<Longrightarrow> buf_fits p bs q \<Longrightarrow>
    control_receive (lk_rcv l) (lk_acks l) (buf_of p bs q) opcode = Some (rcv', acks', b', ok) \<Longrightarrow>
    link_step room sid l (l\<lparr>lk_rcv := rcv', lk_acks := acks'\<rparr>)"
| deliver: "control_deliver write_ct (lk_rcv l) = Some (rcv', Some d, ok) \<Longrightarrow>
    link_step room sid l (l\<lparr>lk_rcv := rcv', lk_recvd := lk_recvd l @ [d]\<rparr>)"
| ack_send: "buf_fits p [] q \<Longrightarrow> 69 \<le> length q \<Longrightarrow>
    reliable_ack_write (lk_acks l) (lk_mru l) (buf_of p [] q) sid (int mx) False = Some (acks', mru', b', True) \<Longrightarrow>
    link_step room sid l (l\<lparr>lk_acks := acks', lk_mru := mru', lk_ack_wire := insert (buf_content b') (lk_ack_wire l)\<rparr>)"
| ack_arrive: "bs \<in> lk_ack_wire l \<Longrightarrow> ack_ok a0 \<Longrightarrow>
    reliable_ack_read a0 (buf_of p bs q) sid = Some (a, b', True) \<Longrightarrow>
    reliable_send_purge (lk_snd l) a = Some snd' \<Longrightarrow>
    link_step room sid l (l\<lparr>lk_snd := snd'\<rparr>)"

text \<open>The timeouts of the waiting packets can be doubled once more, which a retransmission does.\<close>

definition timeouts_double :: "reliable \<Rightarrow> bool" where
  "timeouts_double rel = list_all (\<lambda>e. re_active e \<longrightarrow> re_timeout e * 2 < 2 ^ 31) (rel_entries rel)"

inductive link_abort :: "int \<Rightarrow> session_id \<Rightarrow> link \<Rightarrow> bool" for room sid where
  submit: "control_submit (lk_snd l) (buf_of p (d @ rest) q) (int (length d)) opcode = None \<Longrightarrow>
    int (length d) \<le> room \<Longrightarrow> length (lk_sent l) < LINK_MAX \<Longrightarrow> link_abort room sid l"
| transmit: "control_transmit (lk_now l) (lk_snd l) = None \<Longrightarrow> link_abort room sid l"
| arrive: "bs \<in> lk_wire l \<Longrightarrow> buf_fits p bs q \<Longrightarrow>
    control_receive (lk_rcv l) (lk_acks l) (buf_of p bs q) opcode = None \<Longrightarrow> link_abort room sid l"
| deliver: "control_deliver write_ct (lk_rcv l) = None \<Longrightarrow> link_abort room sid l"
| ack_send: "buf_fits p [] q \<Longrightarrow> 69 \<le> length q \<Longrightarrow>
    reliable_ack_write (lk_acks l) (lk_mru l) (buf_of p [] q) sid (int mx) False = None \<Longrightarrow> link_abort room sid l"
| ack_read: "bs \<in> lk_ack_wire l \<Longrightarrow> ack_ok a0 \<Longrightarrow>
    reliable_ack_read a0 (buf_of p bs q) sid = None \<Longrightarrow> link_abort room sid l"
| ack_purge: "bs \<in> lk_ack_wire l \<Longrightarrow> ack_ok a0 \<Longrightarrow>
    reliable_ack_read a0 (buf_of p bs q) sid = Some (a, b', True) \<Longrightarrow>
    reliable_send_purge (lk_snd l) a = None \<Longrightarrow> link_abort room sid l"

section \<open>The invariant\<close>

definition link_snd_ok :: "int \<Rightarrow> int \<Rightarrow> int \<Rightarrow> link \<Rightarrow> bool" where
  "link_snd_ok cap off timeout l \<longleftrightarrow>
     snd_inv cap (\<lambda>k. lk_sent l ! k) (lk_snd l) \<and> rel_offset (lk_snd l) = off \<and>
     unat (rel_packet_id (lk_snd l)) = length (lk_sent l) \<and> length (lk_sent l) \<le> LINK_MAX \<and>
     rel_initial_timeout (lk_snd l) = timeout \<and>
     (\<forall>d \<in> set (lk_sent l). int (length d) \<le> cap - off) \<and>
     (\<forall>bs \<in> lk_wire l. \<exists>k < length (lk_sent l). bs = be32 (of_nat k) @ lk_sent l ! k)"

definition link_rcv_ok :: "int \<Rightarrow> int \<Rightarrow> link \<Rightarrow> bool" where
  "link_rcv_ok cap off l \<longleftrightarrow>
     rcv_inv cap (\<lambda>k. lk_sent l ! k) (lk_rcv l) \<and> rel_offset (lk_rcv l) = off \<and>
     unat (rel_packet_id (lk_rcv l)) = length (lk_recvd l) \<and> length (lk_recvd l) \<le> length (lk_sent l) \<and>
     set (act_ids (lk_rcv l)) \<subseteq> {..<length (lk_sent l)} \<and>
     lk_recvd l = take (length (lk_recvd l)) (lk_sent l)"

text \<open>A packet the receiver has delivered or stores.\<close>

definition lk_received :: "link \<Rightarrow> nat \<Rightarrow> bool" where
  "lk_received l k \<longleftrightarrow> k < length (lk_recvd l) \<or> k \<in> set (act_ids (lk_rcv l))"

definition link_ack_ok :: "session_id \<Rightarrow> link \<Rightarrow> bool" where
  "link_ack_ok sid l \<longleftrightarrow> ack_ok (lk_acks l) \<and> ack_ok (lk_mru l) \<and>
     (\<forall>x \<in> set (ack_ids (lk_acks l)) \<union> set (ack_ids (lk_mru l)). lk_received l (unat x)) \<and>
     (\<forall>bs \<in> lk_ack_wire l. \<exists>ids. bs = ack_record ids sid \<and> length ids \<le> 8 \<and> (\<forall>x \<in> set ids. lk_received l (unat x)))"

text \<open>No packet is lost: what the receiver does not have the sender still keeps.\<close>

definition link_kept :: "link \<Rightarrow> bool" where
  "link_kept l \<longleftrightarrow> (\<forall>k < length (lk_sent l). lk_received l k \<or> k \<in> set (act_ids (lk_snd l)))"

definition link_inv :: "int \<Rightarrow> int \<Rightarrow> int \<Rightarrow> session_id \<Rightarrow> link \<Rightarrow> bool" where
  "link_inv cap off timeout sid l \<longleftrightarrow>
     link_snd_ok cap off timeout l \<and> link_rcv_ok cap off l \<and> link_ack_ok sid l \<and> link_kept l"

lemma snd_inv_cong:
  assumes "snd_inv cap f rel" "\<forall>k < unat (rel_packet_id rel). f' k = f k"
  shows "snd_inv cap f' rel"
  using assms unfolding snd_inv_def by fastforce

lemma rcv_inv_cong:
  assumes "rcv_inv cap f rel" "\<forall>k \<in> set (act_ids rel). f' k = f k"
  shows "rcv_inv cap f' rel"
  using assms unfolding rcv_inv_def by (auto simp: act_ids_def)

lemma link_init_inv:
  assumes "0 \<le> sz" "sz < BUF_SIZE_MAX" "4 \<le> off" "off \<le> sz" "0 < ns" "ns \<le> 12" "0 < nr" "nr \<le> 12"
  shows "\<exists>l. link_init sz off ns nr hold timeout = Some l \<and> link_inv sz off timeout sid l"
proof -
  obtain r1 where r1: "reliable_init sz off ns hold = Some r1" "rel_ok sz r1" "act (rel_entries r1) = []"
    "rel_packet_id r1 = 0" "rel_size r1 = nat ns" "rel_offset r1 = off"
    using reliable_init_ok[of sz off ns hold] assms by auto
  obtain r2 where r2: "reliable_init sz off nr False = Some r2" "rel_ok sz r2" "act (rel_entries r2) = []"
    "rel_packet_id r2 = 0" "rel_size r2 = nat nr" "rel_offset r2 = off"
    using reliable_init_ok[of sz off nr False] assms by auto
  have s: "rel_ok sz (reliable_set_timeout r1 timeout)" "act (rel_entries (reliable_set_timeout r1 timeout)) = []"
    using r1(2,3) by (simp_all add: reliable_set_timeout_def rel_ok_def rel_entries_def)
  have e: "ack_ok empty_acks" "ack_ids empty_acks = []" by (simp_all add: empty_acks_def ack_ok_def ack_ids_def)
  show ?thesis using r1 r2 s e assms(3)
    by (simp add: link_init_def link_inv_def link_snd_ok_def link_rcv_ok_def link_ack_ok_def link_kept_def
        snd_inv_def rcv_inv_def act_pkts_def act_ids_def reliable_set_timeout_def)
qed

text \<open>Each step keeps the invariant.\<close>

lemma submit_inv:
  assumes inv: "link_inv cap off timeout sid l"
    and sub: "control_submit (lk_snd l) (buf_of p (d @ rest) q) (int (length d)) opcode = Some (snd', tmp, True)"
    and d: "int (length d) \<le> cap - off" "length (lk_sent l) < LINK_MAX"
  shows "link_inv cap off timeout sid (l\<lparr>lk_snd := snd', lk_sent := lk_sent l @ [d]\<rparr>)"
proof -
  let ?f = "\<lambda>k. (lk_sent l @ [d]) ! k" and ?n = "length (lk_sent l)"
  have so: "link_snd_ok cap off timeout l" and ro: "link_rcv_ok cap off l"
    using inv by (simp_all add: link_inv_def)
  have N: "unat (rel_packet_id (lk_snd l)) = ?n" using so by (simp add: link_snd_ok_def)
  have f: "snd_inv cap ?f (lk_snd l)"
    by (rule snd_inv_cong[of cap "\<lambda>k. lk_sent l ! k"]) (use so N in \<open>simp_all add: link_snd_ok_def nth_append\<close>)
  have "?f ?n = d" by simp
  then have e: "snd_inv cap ?f snd' \<and> rel_offset snd' = rel_offset (lk_snd l) \<and>
      rel_initial_timeout snd' = rel_initial_timeout (lk_snd l) \<and>
      unat (rel_packet_id snd') = ?n + 1 \<and>
      set (act_pkts snd') = insert (?n, be32 (rel_packet_id (lk_snd l)) @ d) (set (act_pkts (lk_snd l)))"
    using control_submit_effect[OF f, of d p rest q opcode] sub N d so
    by (auto simp: link_snd_ok_def LINK_MAX_def RELIABLE_CAPACITY_def)
  have ids: "set (act_ids snd') = insert ?n (set (act_ids (lk_snd l)))" using e by (simp add: act_ids_pkts)
  have w: "\<forall>bs \<in> lk_wire l. \<exists>k < ?n + 1. bs = be32 (of_nat k) @ ?f k"
  proof
    fix bs assume "bs \<in> lk_wire l"
    then obtain k where "k < ?n" "bs = be32 (of_nat k) @ lk_sent l ! k"
      using so by (auto simp: link_snd_ok_def)
    then show "\<exists>k < ?n + 1. bs = be32 (of_nat k) @ ?f k"
      by (intro exI[of _ k]) (simp add: nth_append)
  qed
  then have "link_snd_ok cap off timeout (l\<lparr>lk_snd := snd', lk_sent := lk_sent l @ [d]\<rparr>)"
    using so e d by (simp add: link_snd_ok_def)
  moreover have "rcv_inv cap ?f (lk_rcv l)"
    by (rule rcv_inv_cong[of cap "\<lambda>k. lk_sent l ! k"]) (use ro in \<open>auto simp: link_rcv_ok_def nth_append\<close>)
  then have "link_rcv_ok cap off (l\<lparr>lk_snd := snd', lk_sent := lk_sent l @ [d]\<rparr>)"
    using ro unfolding link_rcv_ok_def by auto
  moreover have "link_ack_ok sid (l\<lparr>lk_snd := snd', lk_sent := lk_sent l @ [d]\<rparr>)"
    using inv by (simp add: link_inv_def link_ack_ok_def lk_received_def)
  moreover have "link_kept (l\<lparr>lk_snd := snd', lk_sent := lk_sent l @ [d]\<rparr>)"
    using inv ids by (auto simp: link_inv_def link_kept_def lk_received_def less_Suc_eq)
  ultimately show ?thesis by (simp add: link_inv_def)
qed

lemma tick_inv: "link_inv cap off timeout sid l \<Longrightarrow> link_inv cap off timeout sid (l\<lparr>lk_now := t\<rparr>)"
  by (simp add: link_inv_def link_snd_ok_def link_rcv_ok_def link_ack_ok_def link_kept_def lk_received_def)

lemma burst_inv:
  assumes "link_inv cap off timeout sid l" "control_burst do_burst (lk_burst l) now (lk_snd l) = (snd', burst')"
  shows "link_inv cap off timeout sid (l\<lparr>lk_snd := snd', lk_burst := burst'\<rparr>)"
proof -
  have "snd_inv cap (\<lambda>k. lk_sent l ! k) (lk_snd l)" using assms by (simp add: link_inv_def link_snd_ok_def)
  from schedule_now_effect[OF this, of now] assms show ?thesis
    by (auto simp: control_burst_def link_inv_def link_snd_ok_def link_rcv_ok_def link_ack_ok_def link_kept_def
        lk_received_def same_params_def act_ids_pkts split: if_splits)
qed

lemma act_pkts_wire:
  assumes "link_snd_ok cap off timeout l" "(k, c) \<in> set (act_pkts (lk_snd l))"
  shows "k < length (lk_sent l) \<and> c = be32 (of_nat k) @ lk_sent l ! k"
  using assms by (auto simp: link_snd_ok_def snd_inv_def)

text \<open>What one transmission does.\<close>

lemma transmit_effect:
  assumes inv: "link_inv cap off timeout sid l" and can: "reliable_can_send now (lk_snd l)"
    and t: "control_transmit now (lk_snd l) = Some (snd', Some (bs, opcode))"
  shows "link_inv cap off timeout sid (l\<lparr>lk_snd := snd', lk_wire := insert bs (lk_wire l)\<rparr>)"
proof -
  have so: "link_snd_ok cap off timeout l" and si: "snd_inv cap (\<lambda>k. lk_sent l ! k) (lk_snd l)"
    using inv by (simp_all add: link_inv_def link_snd_ok_def)
  let ?es = "rel_entries (lk_snd l)"
  obtain b where b: "b < rel_size (lk_snd l)" "entry_due now (?es ! b)"
    "snd' = rel_update (lk_snd l) b (\<lambda>e. e\<lparr>re_next_try := now + re_timeout e, re_timeout := re_timeout e * 2, re_n_acks := 0\<rparr>)"
    "bs = buf_content (re_buf (?es ! b))"
    using control_transmit_effect[OF si can] t by (auto simp: Let_def split: if_splits)
  have a: "re_active (?es ! b)" using b(2) by (simp add: entry_due_def)
  have u: "snd_inv cap (\<lambda>k. lk_sent l ! k) snd' \<and> act_pkts snd' = act_pkts (lk_snd l)"
    unfolding b(3) by (rule send_update_pkts[OF si b(1) a]) simp_all
  have "?es ! b \<in> set (act ?es)"
    using a b(1) si length_rel_entries[of cap "lk_snd l"] by (simp add: act_def snd_inv_def)
  then have "(unat (re_packet_id (?es ! b)), bs) \<in> set (act_pkts (lk_snd l))"
    unfolding b(4) act_pkts_def by force
  from act_pkts_wire[OF so this]
  have "\<exists>k < length (lk_sent l). bs = be32 (of_nat k) @ lk_sent l ! k" by blast
  then show ?thesis using inv u b(3)
    by (simp add: link_inv_def link_snd_ok_def link_rcv_ok_def link_ack_ok_def link_kept_def lk_received_def
        act_ids_pkts)
qed

lemma transmit_inv:
  assumes "link_inv cap off timeout sid l" "control_transmit now (lk_snd l) = Some (snd', Some (bs, opcode))"
  shows "link_inv cap off timeout sid (l\<lparr>lk_snd := snd', lk_wire := insert bs (lk_wire l)\<rparr>)"
proof -
  have "reliable_can_send now (lk_snd l)" using assms(2) by (auto simp: control_transmit_def split: if_splits)
  from transmit_effect[OF assms(1) this assms(2)] show ?thesis .
qed

text \<open>A state in which the receiver has at least what it had before keeps the acknowledgments true.\<close>

lemma link_ack_ok_mono:
  assumes "link_ack_ok sid l" "ack_ok (lk_acks l')" "lk_mru l' = lk_mru l" "lk_ack_wire l' = lk_ack_wire l"
    "\<And>k. lk_received l k \<Longrightarrow> lk_received l' k"
    "\<forall>x \<in> set (ack_ids (lk_acks l')). x \<in> set (ack_ids (lk_acks l)) \<or> lk_received l' (unat x)"
  shows "link_ack_ok sid l'"
  using assms unfolding link_ack_ok_def by (metis Un_iff)

lemma arrive_effect:
  assumes inv: "link_inv cap off timeout sid l" and bs: "k < length (lk_sent l)"
    "bs = be32 (of_nat k) @ lk_sent l ! k" and fits: "buf_fits p bs q"
  shows "\<exists>rcv' acks' b' ok. control_receive (lk_rcv l) (lk_acks l) (buf_of p bs q) opcode = Some (rcv', acks', b', ok) \<and>
    link_inv cap off timeout sid (l\<lparr>lk_rcv := rcv', lk_acks := acks'\<rparr>) \<and>
    (k = length (lk_recvd l) \<longrightarrow> k \<in> set (act_ids rcv'))"
proof -
  have so: "link_snd_ok cap off timeout l" and ro: "link_rcv_ok cap off l" and ao: "link_ack_ok sid l" and ke: "link_kept l"
    using inv by (simp_all add: link_inv_def)
  let ?f = "\<lambda>k. lk_sent l ! k" and ?pid = "of_nat k :: u32"
  have ri: "rcv_inv cap ?f (lk_rcv l)" and a: "ack_ok (lk_acks l)"
    using ro ao by (simp_all add: link_rcv_ok_def link_ack_ok_def)
  have n: "length (lk_sent l) \<le> LINK_MAX" using so by (simp add: link_snd_ok_def)
  have sz: "0 < rel_size (lk_rcv l)" "rel_size (lk_rcv l) \<le> RELIABLE_CAPACITY"
    using ri by (simp_all add: rcv_inv_def rel_ok_def)
  have pid: "unat ?pid = k" using bs(1) n by (simp add: unat_of_nat LINK_MAX_def)
  have small: "unat (rel_packet_id (lk_rcv l)) + rel_size (lk_rcv l) \<le> 2 ^ 31"
    using ro n sz(2) by (simp add: link_rcv_ok_def LINK_MAX_def RELIABLE_CAPACITY_def)
  have fit: "buf_fits p (be32 ?pid @ ?f (unat ?pid)) q" using fits bs(2) pid by simp
  obtain rcv' acks' b' ok where r: "control_receive (lk_rcv l) (lk_acks l) (buf_of p bs q) opcode = Some (rcv', acks', b', ok)"
    "rcv_inv cap ?f rcv'" "ack_ok acks'" "same_params (lk_rcv l) rcv'"
    "set (act_ids (lk_rcv l)) \<subseteq> set (act_ids rcv')" "set (act_ids rcv') \<subseteq> insert k (set (act_ids (lk_rcv l)))"
    "in_window (lk_rcv l) k \<and> int (length (?f k)) \<le> cap - rel_offset (lk_rcv l) \<longrightarrow> k \<in> set (act_ids rcv')"
    "\<forall>x \<in> set (ack_ids acks'). x \<in> set (ack_ids (lk_acks l)) \<or>
       x = ?pid \<and> (k < unat (rel_packet_id (lk_rcv l)) \<or> k \<in> set (act_ids rcv'))"
    using control_receive_effect[OF ri a small fit, of opcode] unfolding pid bs(2) by blast
  let ?l = "l\<lparr>lk_rcv := rcv', lk_acks := acks'\<rparr>"
  have rcv: "lk_received l j \<Longrightarrow> lk_received ?l j" for j using r(5) by (auto simp: lk_received_def)
  have "link_snd_ok cap off timeout ?l" using so by (simp add: link_snd_ok_def)
  moreover have "link_rcv_ok cap off ?l"
    using ro r(2,4,6) bs(1) by (auto simp: link_rcv_ok_def same_params_def)
  moreover have "link_ack_ok sid ?l"
    by (rule link_ack_ok_mono[OF ao]) (use r(3,8) rcv pid ro in \<open>auto simp: lk_received_def link_rcv_ok_def\<close>)
  moreover have "link_kept ?l" using ke rcv by (auto simp: link_kept_def)
  moreover have "k = length (lk_recvd l) \<longrightarrow> k \<in> set (act_ids rcv')"
    using r(7) ro so bs(1) sz(1) by (auto simp: in_window_def link_rcv_ok_def link_snd_ok_def)
  ultimately show ?thesis using r(1) unfolding link_inv_def by blast
qed

lemma arrive_inv:
  assumes "link_inv cap off timeout sid l" "bs \<in> lk_wire l" "buf_fits p bs q"
    "control_receive (lk_rcv l) (lk_acks l) (buf_of p bs q) opcode = Some (rcv', acks', b', ok)"
  shows "link_inv cap off timeout sid (l\<lparr>lk_rcv := rcv', lk_acks := acks'\<rparr>)"
proof -
  obtain k where "k < length (lk_sent l)" "bs = be32 (of_nat k) @ lk_sent l ! k"
    using assms(1,2) by (auto simp: link_inv_def link_snd_ok_def)
  from arrive_effect[OF assms(1) this assms(3), of opcode] assms(4) show ?thesis by auto
qed

lemma deliver_effect:
  assumes inv: "link_inv cap off timeout sid l"
  shows "\<exists>rcv' r ok. control_deliver write_ct (lk_rcv l) = Some (rcv', r, ok) \<and>
    (if length (lk_recvd l) \<in> set (act_ids (lk_rcv l)) \<and>
        (lk_sent l ! length (lk_recvd l) = [] \<or> write_ct (lk_sent l ! length (lk_recvd l)) = 1)
     then r = Some (lk_sent l ! length (lk_recvd l)) \<and>
       link_inv cap off timeout sid (l\<lparr>lk_rcv := rcv', lk_recvd := lk_recvd l @ [lk_sent l ! length (lk_recvd l)]\<rparr>)
     else r = None)"
proof -
  have so: "link_snd_ok cap off timeout l" and ro: "link_rcv_ok cap off l" and ao: "link_ack_ok sid l" and ke: "link_kept l"
    using inv by (simp_all add: link_inv_def)
  let ?f = "\<lambda>k. lk_sent l ! k" and ?n = "length (lk_recvd l)"
  have ri: "rcv_inv cap ?f (lk_rcv l)" and N: "unat (rel_packet_id (lk_rcv l)) = ?n"
    using ro by (simp_all add: link_rcv_ok_def)
  have small: "unat (rel_packet_id (lk_rcv l)) + 1 < 2 ^ 32"
    using ro so unfolding link_rcv_ok_def link_snd_ok_def LINK_MAX_def RELIABLE_CAPACITY_def by simp
  obtain rcv' r ok where r: "control_deliver write_ct (lk_rcv l) = Some (rcv', r, ok)" "rcv_inv cap ?f rcv'"
    "rel_offset rcv' = rel_offset (lk_rcv l)"
    "if ?n \<in> set (act_ids (lk_rcv l)) \<and> (?f ?n = [] \<or> write_ct (?f ?n) = 1)
     then r = Some (?f ?n) \<and> unat (rel_packet_id rcv') = ?n + 1 \<and> set (act_ids rcv') = set (act_ids (lk_rcv l)) - {?n} \<and> ok
     else r = None \<and> rcv' = lk_rcv l"
    using control_deliver_effect[OF ri small, of write_ct] unfolding N by blast
  show ?thesis
  proof (cases "?n \<in> set (act_ids (lk_rcv l)) \<and> (?f ?n = [] \<or> write_ct (?f ?n) = 1)")
    case False
    then show ?thesis using r by auto
  next
    case True
    let ?l = "l\<lparr>lk_rcv := rcv', lk_recvd := lk_recvd l @ [?f ?n]\<rparr>"
    have lt: "?n < length (lk_sent l)" using True ro by (auto simp: link_rcv_ok_def)
    have rcv: "lk_received l j \<longleftrightarrow> lk_received ?l j" for j
      using r(4) True by (auto simp: lk_received_def less_Suc_eq)
    have "lk_recvd l @ [?f ?n] = take (?n + 1) (lk_sent l)"
    proof -
      have "lk_recvd l = take ?n (lk_sent l)" using ro by (simp add: link_rcv_ok_def)
      then show ?thesis using take_Suc_conv_app_nth[OF lt] by simp
    qed
    then have "link_rcv_ok cap off ?l" using ro r True lt by (auto simp: link_rcv_ok_def)
    moreover have "link_snd_ok cap off timeout ?l" using so by (simp add: link_snd_ok_def)
    moreover have "link_ack_ok sid ?l"
      by (rule link_ack_ok_mono[OF ao]) (use ao rcv in \<open>auto simp: link_ack_ok_def\<close>)
    moreover have "link_kept ?l" using ke rcv by (simp add: link_kept_def)
    ultimately show ?thesis using r(1,4) True by (auto simp: link_inv_def)
  qed
qed

lemma deliver_inv:
  assumes "link_inv cap off timeout sid l" "control_deliver write_ct (lk_rcv l) = Some (rcv', Some d, ok)"
  shows "link_inv cap off timeout sid (l\<lparr>lk_rcv := rcv', lk_recvd := lk_recvd l @ [d]\<rparr>)"
  using deliver_effect[OF assms(1), of write_ct] assms(2) by (auto split: if_splits)

lemma mru_touch_all_set: "set (mru_touch_all xs ys) \<subseteq> set xs \<union> set ys"
proof (induction xs)
  case Nil
  then show ?case by (simp add: mru_touch_all_def)
next
  case (Cons x xs)
  have "set (mru_touch x zs) \<subseteq> insert x (set zs)" for zs
    using set_take_subset[of 7 "remove1 x zs"] set_remove1_subset[of x zs] by (auto simp: mru_touch_def)
  then show ?case using Cons by (fastforce simp: mru_touch_all_def)
qed

lemma ack_send_inv:
  assumes inv: "link_inv cap off timeout sid l" and fits: "buf_fits p [] q" "69 \<le> length q"
    and sid: "length sid = 8" "session_id_defined sid"
    and w: "reliable_ack_write (lk_acks l) (lk_mru l) (buf_of p [] q) sid (int mx) False = Some (acks', mru', b', True)"
  shows "link_inv cap off timeout sid
    (l\<lparr>lk_acks := acks', lk_mru := mru', lk_ack_wire := insert (buf_content b') (lk_ack_wire l)\<rparr>)"
proof -
  have ao: "link_ack_ok sid l" using inv by (simp add: link_inv_def)
  obtain r s where r: "lk_acks l = ack_of (ack_ids (lk_acks l)) r" "length (ack_ids (lk_acks l)) + length r = 8"
    and s: "lk_mru l = ack_of (ack_ids (lk_mru l)) s" "length (ack_ids (lk_mru l)) + length s = 8"
    using ao ack_ok_repr unfolding link_ack_ok_def by metis
  let ?xs = "ack_ids (lk_acks l)" and ?ys = "ack_ids (lk_mru l)"
  define n where "n = min (length ?xs) mx"
  define ys' where "ys' = mru_touch_all (take n ?xs) ?ys"
  define t where "t = min mx (length ys')"
  have "n \<le> length ?xs" by (simp add: n_def)
  from copy_acks_to_mru_of[OF s(2) this, of r] obtain s0 :: "u32 list" where "length ys' + length s0 = 8"
    unfolding ys'_def[symmetric] by (elim exE conjE) (rule that)
  then have y8: "length ys' \<le> 8" by simp
  then have "t \<le> 8" by (simp add: t_def min_le_iff_disj)
  then have "ACK_SIZE t \<le> length q" using fits(2) by (simp add: ACK_SIZE_def SID_SIZE_def)
  then obtain r' s' where a: "acks' = ack_of (drop n ?xs) r'" "mru' = ack_of ys' s'"
    "b' = buf_of p ([] @ ack_record (take t ys') sid) (drop (ACK_SIZE t) q)"
    "length (drop n ?xs) + length r' = 8" "length ys' + length s' = 8"
    using reliable_ack_write_of[OF r(2) s(2) fits(1) sid, of mx False] w
    unfolding r(1)[symmetric] s(1)[symmetric] n_def[symmetric] ys'_def[symmetric] t_def[symmetric] by auto
  have "set (drop n ?xs) \<subseteq> set ?xs" "set ys' \<subseteq> set ?xs \<union> set ?ys" "set (take t ys') \<subseteq> set ys'"
    using set_drop_subset set_take_subset mru_touch_all_set[of "take n ?xs" ?ys] unfolding ys'_def
    by (fast dest: in_set_dropD in_set_takeD)+
  then have all: "\<forall>x \<in> set (drop n ?xs) \<union> set ys' \<union> set (take t ys'). lk_received l (unat x)"
    using ao unfolding link_ack_ok_def by blast
  have rec: "buf_content b' = ack_record (take t ys') sid" using a(3) by simp
  have "link_ack_ok sid (l\<lparr>lk_acks := acks', lk_mru := mru', lk_ack_wire := insert (buf_content b') (lk_ack_wire l)\<rparr>)"
    unfolding link_ack_ok_def
  proof (intro conjI)
    let ?l = "l\<lparr>lk_acks := acks', lk_mru := mru', lk_ack_wire := insert (buf_content b') (lk_ack_wire l)\<rparr>"
    have eq: "lk_received ?l j = lk_received l j" for j by (simp add: lk_received_def)
    show "\<forall>x \<in> set (ack_ids (lk_acks ?l)) \<union> set (ack_ids (lk_mru ?l)). lk_received ?l (unat x)"
      unfolding eq using all a(1,2) by simp
    have "\<exists>ids. buf_content b' = ack_record ids sid \<and> length ids \<le> 8 \<and> (\<forall>x \<in> set ids. lk_received l (unat x))"
      using rec all y8 by (intro exI[of _ "take t ys'"]) simp
    then show "\<forall>bs \<in> lk_ack_wire ?l. \<exists>ids. bs = ack_record ids sid \<and> length ids \<le> 8 \<and> (\<forall>x \<in> set ids. lk_received ?l (unat x))"
      unfolding eq using ao by (simp add: link_ack_ok_def)
  qed (use a in simp_all)
  then show ?thesis using inv
    by (simp add: link_inv_def link_snd_ok_def link_rcv_ok_def link_kept_def lk_received_def)
qed

lemma ack_arrive_inv:
  assumes inv: "link_inv cap off timeout sid l" and bs: "bs \<in> lk_ack_wire l" and a0: "ack_ok a0" and sid: "length sid = 8"
    and rd: "reliable_ack_read a0 (buf_of p bs q) sid = Some (a, b', True)"
    and pu: "reliable_send_purge (lk_snd l) a = Some snd'"
  shows "link_inv cap off timeout sid (l\<lparr>lk_snd := snd'\<rparr>)"
proof -
  obtain ids where ids: "bs = ack_record ids sid" "length ids \<le> 8" "\<forall>x \<in> set ids. lk_received l (unat x)"
    using inv bs by (auto simp: link_inv_def link_ack_ok_def)
  obtain r' where "reliable_ack_parse (buf_of p (ack_record ids sid @ []) q) a0 =
      Some (buf_of (p @ ack_record ids sid) [] q, ack_of ids r', if ids = [] then None else Some sid, True)"
    "length ids + length r' = 8"
    using reliable_ack_parse_of[OF ids(2) sid a0] by blast
  then have a: "a = ack_of ids r'" "ack_ok a" "ack_ids a = ids"
    using rd by (auto simp: reliable_ack_read_def ids(1) split: if_splits)
  have si: "snd_inv cap (\<lambda>k. lk_sent l ! k) (lk_snd l)" using inv by (simp add: link_inv_def link_snd_ok_def)
  have e: "snd_inv cap (\<lambda>k. lk_sent l ! k) snd'" "same_params (lk_snd l) snd'"
    "rel_initial_timeout snd' = rel_initial_timeout (lk_snd l)"
    "act_pkts snd' = filter (\<lambda>(k, c). k \<notin> unat ` set ids) (act_pkts (lk_snd l))"
    using reliable_send_purge_effect[OF si a(2)] pu a(3) by auto
  have "k \<in> set (act_ids (lk_snd l)) \<Longrightarrow> k \<notin> unat ` set ids \<Longrightarrow> k \<in> set (act_ids snd')" for k
    unfolding act_ids_pkts e(4) by force
  then have "link_kept (l\<lparr>lk_snd := snd'\<rparr>)"
    using inv ids(3) by (auto simp: link_inv_def link_kept_def lk_received_def)
  then show ?thesis using inv e(1-3)
    by (simp add: link_inv_def link_snd_ok_def link_rcv_ok_def link_ack_ok_def lk_received_def same_params_def)
qed

lemma link_step_inv:
  assumes "link_step (cap - off) sid l l'" "link_inv cap off timeout sid l" "length sid = 8" "session_id_defined sid"
  shows "link_inv cap off timeout sid l'"
  using assms
  by (cases rule: link_step.cases)
    (blast intro: submit_inv tick_inv burst_inv transmit_inv arrive_inv deliver_inv ack_send_inv ack_arrive_inv)+

lemma link_steps_inv:
  assumes "(link_step (cap - off) sid)\<^sup>*\<^sup>* l l'" "link_inv cap off timeout sid l" "length sid = 8" "session_id_defined sid"
  shows "link_inv cap off timeout sid l'"
  using assms by (induction rule: rtranclp_induct) (auto intro: link_step_inv)

section \<open>No step fails an assertion\<close>

lemma submit_returns:
  assumes inv: "link_inv cap off timeout sid l" and d: "int (length d) \<le> cap - off" "length (lk_sent l) < LINK_MAX"
  shows "control_submit (lk_snd l) (buf_of p (d @ rest) q) (int (length d)) opcode \<noteq> None"
proof -
  let ?f = "\<lambda>k. (lk_sent l @ [d]) ! k"
  have so: "link_snd_ok cap off timeout l" using inv by (simp add: link_inv_def)
  have N: "unat (rel_packet_id (lk_snd l)) = length (lk_sent l)" and off: "rel_offset (lk_snd l) = off"
    using so by (simp_all add: link_snd_ok_def)
  have f: "snd_inv cap ?f (lk_snd l)"
    by (rule snd_inv_cong[of cap "\<lambda>k. lk_sent l ! k"]) (use so N in \<open>simp_all add: link_snd_ok_def nth_append\<close>)
  have "unat (rel_packet_id (lk_snd l)) < 2 ^ 31" "?f (unat (rel_packet_id (lk_snd l))) = d"
    "int (length d) \<le> cap - rel_offset (lk_snd l)"
    using d by (simp_all add: N off LINK_MAX_def)
  from control_submit_effect[OF f this, of p rest q opcode] show ?thesis by (elim exE conjE) simp
qed

lemma arrive_returns:
  assumes "link_inv cap off timeout sid l" "bs \<in> lk_wire l" "buf_fits p bs q"
  shows "control_receive (lk_rcv l) (lk_acks l) (buf_of p bs q) opcode \<noteq> None"
proof -
  obtain k where "k < length (lk_sent l)" "bs = be32 (of_nat k) @ lk_sent l ! k"
    using assms(1,2) by (auto simp: link_inv_def link_snd_ok_def)
  from arrive_effect[OF assms(1) this assms(3), of opcode] show ?thesis by auto
qed

lemma mru_touch_all_length: "length (mru_touch_all xs ys) \<le> 8" if "length ys \<le> 8"
  using that by (induction xs) (simp_all add: mru_touch_all_def mru_touch_def)

lemma ack_send_returns:
  assumes inv: "link_inv cap off timeout sid l" and fits: "buf_fits p [] q" "69 \<le> length q"
    and sid: "length sid = 8" "session_id_defined sid"
  shows "reliable_ack_write (lk_acks l) (lk_mru l) (buf_of p [] q) sid (int mx) False \<noteq> None"
proof -
  have "ack_ok (lk_acks l)" "ack_ok (lk_mru l)" using inv by (simp_all add: link_inv_def link_ack_ok_def)
  then obtain r s where r: "lk_acks l = ack_of (ack_ids (lk_acks l)) r" "length (ack_ids (lk_acks l)) + length r = 8"
    and s: "lk_mru l = ack_of (ack_ids (lk_mru l)) s" "length (ack_ids (lk_mru l)) + length s = 8"
    using ack_ok_repr by metis
  have "length (mru_touch_all (take (min (length (ack_ids (lk_acks l))) mx) (ack_ids (lk_acks l))) (ack_ids (lk_mru l))) \<le> 8"
    by (rule mru_touch_all_length) (use s(2) in simp)
  then have "ACK_SIZE (min mx (length (mru_touch_all (take (min (length (ack_ids (lk_acks l))) mx) (ack_ids (lk_acks l)))
      (ack_ids (lk_mru l))))) \<le> length q"
    using fits(2) min.coboundedI2[of _ 8 mx] by (fastforce simp: ACK_SIZE_def SID_SIZE_def)
  then show ?thesis
    using reliable_ack_write_of[OF r(2) s(2) fits(1) sid, of mx False] r(1) s(1) by auto
qed

lemma ack_arrive_returns:
  assumes inv: "link_inv cap off timeout sid l" and bs: "bs \<in> lk_ack_wire l" and a0: "ack_ok a0"
    and sid: "length sid = 8" "session_id_defined sid"
  shows "\<exists>a b'. reliable_ack_read a0 (buf_of p bs q) sid = Some (a, b', True) \<and> reliable_send_purge (lk_snd l) a \<noteq> None"
proof -
  obtain ids where ids: "bs = ack_record ids sid" "length ids \<le> 8" "\<forall>x \<in> set ids. lk_received l (unat x)"
    using inv bs by (auto simp: link_inv_def link_ack_ok_def)
  obtain r' where p: "reliable_ack_parse (buf_of p (ack_record ids sid @ []) q) a0 =
      Some (buf_of (p @ ack_record ids sid) [] q, ack_of ids r', if ids = [] then None else Some sid, True)"
    "length ids + length r' = 8"
    using reliable_ack_parse_of[OF ids(2) sid(1) a0] by blast
  have "ack_ok (ack_of ids r')" using p(2) by simp
  moreover have "snd_inv cap (\<lambda>k. lk_sent l ! k) (lk_snd l)" using inv by (simp add: link_inv_def link_snd_ok_def)
  ultimately have "reliable_send_purge (lk_snd l) (ack_of ids r') \<noteq> None"
    using reliable_send_purge_effect by fastforce
  then show ?thesis using p(1) using sid(2) by (auto simp: reliable_ack_read_def ids(1) session_id_equal_def)
qed

text \<open>The one failure left is the overflow of a timeout that is doubled too often.\<close>

lemma link_abort_only_timeout:
  assumes "link_abort (cap - off) sid l" "link_inv cap off timeout sid l" "length sid = 8" "session_id_defined sid"
  shows "control_transmit (lk_now l) (lk_snd l) = None \<and> \<not> timeouts_double (lk_snd l)"
  using assms(1)
proof cases
  case (submit p d rest q opcode)
  then show ?thesis using submit_returns[OF assms(2)] by blast
next
  case transmit
  have si: "snd_inv cap (\<lambda>k. lk_sent l ! k) (lk_snd l)" using assms(2) by (simp add: link_inv_def link_snd_ok_def)
  then have len: "length (rel_entries (lk_snd l)) = rel_size (lk_snd l)"
    by (intro length_rel_entries[of cap]) (simp add: snd_inv_def)
  have "reliable_can_send (lk_now l) (lk_snd l)"
    using transmit by (auto simp: control_transmit_def split: if_splits)
  from control_transmit_effect[OF si this] transmit obtain b where
    "b < rel_size (lk_snd l)" "entry_due (lk_now l) (rel_entries (lk_snd l) ! b)"
    "\<not> re_timeout (rel_entries (lk_snd l) ! b) * 2 < 2 ^ 31"
    by (auto simp: Let_def split: if_splits)
  then show ?thesis using transmit len
    by (auto simp: timeouts_double_def list_all_length entry_due_def)
next
  case (arrive bs p q opcode)
  then show ?thesis using arrive_returns[OF assms(2)] by blast
next
  case (deliver write_ct)
  then show ?thesis using deliver_effect[OF assms(2), of write_ct] by auto
next
  case (ack_send p q mx)
  then show ?thesis using ack_send_returns[OF assms(2) _ _ assms(3,4)] by blast
next
  case (ack_read bs a0 p q)
  then show ?thesis using ack_arrive_returns[OF assms(2) _ _ assms(3,4), of bs a0 p q] by auto
next
  case (ack_purge bs a0 p q a b')
  then show ?thesis using ack_arrive_returns[OF assms(2) _ _ assms(3,4), of bs a0 p q] by auto
qed

section \<open>Progress\<close>

text \<open>
  Sending at one fixed time reaches every waiting packet: a packet that has been sent is not due any
  more, so the number of due packets falls until the wanted one is the first.
\<close>

definition due_count :: "c_time \<Rightarrow> reliable \<Rightarrow> nat" where
  "due_count now rel = length (filter (entry_due now) (rel_entries rel))"

lemma filter_update_less:
  "i < length xs \<Longrightarrow> P (xs ! i) \<Longrightarrow> \<not> P y \<Longrightarrow> length (filter P (xs[i := y])) < length (filter P xs)"
  by (induction xs arbitrary: i) (auto simp: nth_Cons split: nat.splits)

text \<open>Every packet in use that is due has a timeout which can still be doubled.\<close>

definition timeouts_ok :: "c_time \<Rightarrow> reliable \<Rightarrow> bool" where
  "timeouts_ok now rel \<longleftrightarrow> \<not> rel_hold rel \<and>
     (\<forall>e \<in> set (rel_entries rel). entry_due now e \<longrightarrow> 0 < re_timeout e \<and> re_timeout e * 2 < 2 ^ 31)"

lemma send_progress:
  assumes "link_inv cap off timeout sid l" "lk_now l = now" "timeouts_ok now (lk_snd l)"
    "e \<in> set (rel_entries (lk_snd l))" "entry_due now e" "unat (re_packet_id e) = k"
  shows "\<exists>l'. (link_step room sid)\<^sup>*\<^sup>* l l' \<and> link_inv cap off timeout sid l' \<and>
    lk_rcv l' = lk_rcv l \<and> lk_acks l' = lk_acks l \<and> lk_sent l' = lk_sent l \<and> lk_recvd l' = lk_recvd l \<and> lk_burst l' = lk_burst l \<and>
    be32 (of_nat k) @ lk_sent l ! k \<in> lk_wire l'"
  using assms
proof (induction "due_count now (lk_snd l)" arbitrary: l e rule: less_induct)
  case less
  let ?s = "lk_snd l"
  have so: "link_snd_ok cap off timeout l" and si: "snd_inv cap (\<lambda>k. lk_sent l ! k) ?s"
    using less.prems(1) by (simp_all add: link_inv_def link_snd_ok_def)
  have ok: "rel_ok cap ?s" using si by (simp add: snd_inv_def)
  have "filter (entry_due now) (rel_entries ?s) \<noteq> []" using less.prems(4,5) by (auto simp: filter_empty_conv)
  then have can: "reliable_can_send now ?s"
    using less.prems(3) by (simp add: reliable_can_send_def timeouts_ok_def Let_def)
  let ?es = "rel_entries ?s"
  obtain b where b: "b < rel_size ?s" "entry_due now (?es ! b)"
    "\<forall>e \<in> set ?es. entry_due now e \<longrightarrow> unat (re_packet_id (?es ! b)) \<le> unat (re_packet_id e)"
    and t: "control_transmit now ?s =
      (let e = ?es ! b in if re_timeout e * 2 < 2 ^ 31
       then Some (rel_update ?s b (\<lambda>e. e\<lparr>re_next_try := now + re_timeout e, re_timeout := re_timeout e * 2, re_n_acks := 0\<rparr>),
              Some (buf_content (re_buf e), re_opcode e)) else None)"
    using control_transmit_effect[OF si can] by blast
  let ?g = "\<lambda>e. e\<lparr>re_next_try := now + re_timeout e, re_timeout := re_timeout e * 2, re_n_acks := 0\<rparr>"
  let ?s' = "rel_update ?s b ?g" and ?bs = "buf_content (re_buf (?es ! b))"
  have bl: "b < length ?es" using b(1) length_rel_entries[OF ok] by simp
  have mem: "?es ! b \<in> set ?es" using bl by simp
  have tb: "0 < re_timeout (?es ! b)" "re_timeout (?es ! b) * 2 < 2 ^ 31"
    using less.prems(3) mem b(2) by (simp_all add: timeouts_ok_def)
  have t': "control_transmit now ?s = Some (?s', Some (?bs, re_opcode (?es ! b)))"
    unfolding t Let_def using tb(2) by (rule if_P)
  let ?l = "l\<lparr>lk_snd := ?s', lk_wire := insert ?bs (lk_wire l)\<rparr>"
  have st: "link_step room sid l ?l" using t' less.prems(2) by (intro link_step.transmit) simp
  have inv': "link_inv cap off timeout sid ?l" by (rule transmit_inv[OF less.prems(1) t'])
  have "(unat (re_packet_id (?es ! b)), ?bs) \<in> set (act_pkts ?s)"
    using mem b(2) by (force simp: act_pkts_def act_def entry_due_def)
  from act_pkts_wire[OF so this] have bs: "?bs = be32 (of_nat (unat (re_packet_id (?es ! b)))) @ lk_sent l ! unat (re_packet_id (?es ! b))"
    by blast
  show ?case
  proof (cases "unat (re_packet_id (?es ! b)) = k")
    case True
    have "?bs \<in> lk_wire ?l" by simp
    then have "be32 (of_nat k) @ lk_sent l ! k \<in> lk_wire ?l" unfolding bs True .
    then show ?thesis using st inv'
      by (intro exI[of _ ?l]) (simp add: r_into_rtranclp)
  next
    case False
    have es': "rel_entries ?s' = ?es[b := ?g (?es ! b)]" by (rule rel_entries_update[OF ok b(1)])
    have nd: "\<not> entry_due now (?g (?es ! b))" using tb(1) by (simp add: entry_due_def N_ACK_RETRANSMIT_def)
    have lt: "due_count now ?s' < due_count now ?s"
      unfolding due_count_def es' by (rule filter_update_less[OF bl b(2) nd])
    have "set (?es[b := ?g (?es ! b)]) \<subseteq> insert (?g (?es ! b)) (set ?es)" by (rule set_update_subset_insert)
    then have "timeouts_ok now ?s'"
      using less.prems(3) nd unfolding timeouts_ok_def es' by auto
    moreover obtain j where j: "j < length ?es" "?es ! j = e" using less.prems(4) by (auto simp: in_set_conv_nth)
    then have "j \<noteq> b" using False less.prems(6) by auto
    then have "?es[b := ?g (?es ! b)] ! j = e" "j < length (?es[b := ?g (?es ! b)])" using j by simp_all
    then have "e \<in> set (rel_entries ?s')" unfolding es' using nth_mem by metis
    ultimately obtain l' where l': "(link_step room sid)\<^sup>*\<^sup>* ?l l'" "link_inv cap off timeout sid l'"
      "lk_rcv l' = lk_rcv l" "lk_acks l' = lk_acks l" "lk_sent l' = lk_sent l" "lk_recvd l' = lk_recvd l"
      "lk_burst l' = lk_burst l"
      "be32 (of_nat k) @ lk_sent l ! k \<in> lk_wire l'"
      using less.hyps[of ?l e] lt inv' less.prems(2,5,6) by auto
    then show ?thesis using converse_rtranclp_into_rtranclp[of "link_step room sid", OF st l'(1)] by blast
  qed
qed

text \<open>A waiting packet always has a positive timeout.\<close>

definition pos_timeouts :: "reliable \<Rightarrow> bool" where
  "pos_timeouts rel \<longleftrightarrow> (\<forall>e \<in> set (rel_array rel). re_active e \<longrightarrow> 0 < re_timeout e)"

lemma pos_timeouts_update:
  assumes "pos_timeouts rel" "\<And>e. \<lbrakk>re_active e \<longrightarrow> 0 < re_timeout e; re_active (f e)\<rbrakk> \<Longrightarrow> 0 < re_timeout (f e)"
  shows "pos_timeouts (rel_update rel i f)"
proof (cases "i < length (rel_array rel)")
  case True
  then have "re_active (rel_array rel ! i) \<longrightarrow> 0 < re_timeout (rel_array rel ! i)"
    using assms(1) by (simp add: pos_timeouts_def)
  from assms(2)[OF this] have "re_active (f (rel_array rel ! i)) \<longrightarrow> 0 < re_timeout (f (rel_array rel ! i))" by blast
  then show ?thesis using assms(1) set_update_subset_insert[of "rel_array rel" i]
    unfolding pos_timeouts_def rel_update_def by fastforce
next
  case False
  then show ?thesis using assms(1) by (simp add: pos_timeouts_def rel_update_def list_update_beyond)
qed

lemma pos_timeouts_map:
  assumes "pos_timeouts rel" "\<And>e. \<lbrakk>re_active e \<longrightarrow> 0 < re_timeout e; re_active (f e)\<rbrakk> \<Longrightarrow> 0 < re_timeout (f e)"
  shows "pos_timeouts (rel_map f rel)"
proof -
  have "\<forall>e \<in> set (rel_array rel). re_active (f e) \<longrightarrow> 0 < re_timeout (f e)"
    using assms unfolding pos_timeouts_def by blast
  then show ?thesis using assms(1)
    unfolding pos_timeouts_def rel_map_def rel_entries_def
    by (auto dest: in_set_takeD in_set_dropD)
qed

lemma pos_timeouts_submit:
  assumes "control_submit rel tmp n opcode = Some (rel', tmp', ok)" "pos_timeouts rel" "0 < rel_initial_timeout rel"
  shows "pos_timeouts rel'"
proof -
  have buf: "pos_timeouts r' \<and> rel_initial_timeout r' = rel_initial_timeout rel"
    if "reliable_get_buf_output_sequenced rel = Some (r', i)" for r' i
    using that assms(2)
    by (auto simp: reliable_get_buf_output_sequenced_def reliable_get_buf_def bind_eq_Some_conv
        split: option.splits if_splits prod.splits intro: pos_timeouts_update)
  have mark: "pos_timeouts r'" if "reliable_mark_active_outgoing r i opcode = Some r'" "pos_timeouts r"
    "0 < rel_initial_timeout r" for r i r'
    using that
    by (auto simp: reliable_mark_active_outgoing_def bind_eq_Some_conv Let_def pos_timeouts_def[of "_\<lparr>rel_packet_id := _\<rparr>"]
        pos_timeouts_def[symmetric] split: if_splits prod.splits intro!: pos_timeouts_update)
  from assms(1) obtain r' i where r: "reliable_get_buf_output_sequenced rel = Some (r', i)"
    "(case i of None \<Rightarrow> Some (r', tmp, False)
     | Some i \<Rightarrow> do {
         (b, tmp, _) \<leftarrow> buf_copy_n (re_buf (rel_array r' ! i)) tmp n;
         rel \<leftarrow> reliable_mark_active_outgoing (rel_update r' i (\<lambda>e. e\<lparr>re_buf := b\<rparr>)) i opcode;
         Some (rel, tmp, True) }) = Some (rel', tmp', ok)"
    by (auto simp: control_submit_def bind_eq_Some_conv Let_def)
  show ?thesis
  proof (cases i)
    case None
    then show ?thesis using r buf by simp
  next
    case (Some j)
    then obtain b where m: "reliable_mark_active_outgoing (rel_update r' j (\<lambda>e. e\<lparr>re_buf := b\<rparr>)) j opcode = Some rel'"
      using r(2) by (auto simp: bind_eq_Some_conv Let_def)
    show ?thesis
    proof (rule mark[OF m])
      show "pos_timeouts (rel_update r' j (\<lambda>e. e\<lparr>re_buf := b\<rparr>))"
        by (rule pos_timeouts_update) (use buf[OF r(1)] in simp_all)
      show "0 < rel_initial_timeout (rel_update r' j (\<lambda>e. e\<lparr>re_buf := b\<rparr>))"
        using buf[OF r(1)] assms(3) by (simp add: rel_update_def)
    qed
  qed
qed

lemma pos_timeouts_transmit:
  assumes "control_transmit now rel = Some (rel', r)" "pos_timeouts rel"
  shows "pos_timeouts rel'"
  using assms
  by (auto simp: control_transmit_def reliable_send_def bind_eq_Some_conv split: if_splits option.splits
      intro!: pos_timeouts_update)

lemma pos_timeouts_purge:
  assumes "reliable_send_purge rel a = Some rel'" "pos_timeouts rel"
  shows "pos_timeouts rel'"
proof -
  have "send_purge_loop r a ns = Some r' \<Longrightarrow> pos_timeouts r \<Longrightarrow> pos_timeouts r'" for r ns r'
  proof (induction r a ns rule: send_purge_loop.induct)
    case (2 rel ack i ns)
    then obtain pid where p: "ack_get ack (int i) = Some pid"
      "send_purge_loop (rel_map (purge_entry pid) rel) ack ns = Some r'"
      by (auto simp: bind_eq_Some_conv)
    have "pos_timeouts (rel_map (purge_entry pid) rel)"
      by (rule pos_timeouts_map[OF 2(3)]) (auto simp: purge_entry_def split: if_splits)
    then show ?case using 2(1) p by blast
  qed simp
  then show ?thesis using assms by (simp add: reliable_send_purge_def)
qed

lemma pos_timeouts_schedule:
  assumes "pos_timeouts rel" "0 < rel_initial_timeout rel"
  shows "pos_timeouts (reliable_schedule_now now rel)"
  unfolding reliable_schedule_now_def
  by (rule pos_timeouts_map) (use assms in \<open>auto simp: pos_timeouts_def split: if_splits\<close>)

lemma link_step_pos:
  assumes "link_step room sid l l'" "link_inv cap off timeout sid l" "0 < timeout" "pos_timeouts (lk_snd l)"
  shows "pos_timeouts (lk_snd l')"
proof -
  have "rel_initial_timeout (lk_snd l) = timeout" using assms(2) by (simp add: link_inv_def link_snd_ok_def)
  with assms show ?thesis
    by (cases rule: link_step.cases)
      (auto simp: control_burst_def split: if_splits
        intro: pos_timeouts_submit pos_timeouts_transmit pos_timeouts_purge pos_timeouts_schedule)
qed

lemma link_steps_pos:
  assumes "(link_step (cap - off) sid)\<^sup>*\<^sup>* l l'" "link_inv cap off timeout sid l" "length sid = 8" "session_id_defined sid"
    "0 < timeout" "pos_timeouts (lk_snd l)"
  shows "pos_timeouts (lk_snd l')"
  using assms
proof (induction rule: rtranclp_induct)
  case (step m l')
  then show ?case using link_steps_inv[OF step(1)] link_step_pos[OF step(2)] by blast
qed

lemma rel_init_entries_inactive: "rel_init_entries n sz off = Some es \<Longrightarrow> e \<in> set es \<Longrightarrow> \<not> re_active e"
  by (induction n arbitrary: es) (auto simp: bind_eq_Some_conv clear_entry_def case_prod_unfold Let_def split: if_splits)

lemma link_init_pos:
  assumes "link_init sz off ns nr hold timeout = Some l"
  shows "pos_timeouts (lk_snd l)"
proof -
  obtain snd where s: "reliable_init sz off ns hold = Some snd" "lk_snd l = reliable_set_timeout snd timeout"
    using assms by (auto simp: link_init_def bind_eq_Some_conv)
  have "\<not> re_active e" if "e \<in> set (rel_array snd)" for e
    using s(1) that rel_init_entries_inactive[of "nat ns" sz off _ e]
    by (auto simp: reliable_init_def bind_eq_Some_conv cassert_def Let_def clear_entry_def split: if_splits)
  then show ?thesis by (simp add: s(2) pos_timeouts_def reliable_set_timeout_def)
qed

text \<open>
  From any state of the system the next packet can be delivered.  No step but those of the running
  system is needed: the time passes until the timers of all waiting packets have run out, they are
  sent again, and the copy of the packet the receiver lacks arrives.
\<close>

lemma link_progress:
  assumes inv: "link_inv cap off timeout sid l" and pos: "pos_timeouts (lk_snd l)"
    and t: "\<not> rel_hold (lk_snd l)" "timeouts_double (lk_snd l)"
    and more: "length (lk_recvd l) < length (lk_sent l)"
    and cap: "cap < BUF_SIZE_MAX"
  shows "\<exists>l'. (link_step room sid)\<^sup>*\<^sup>* l l' \<and> lk_recvd l' = lk_recvd l @ [lk_sent l ! length (lk_recvd l)] \<and>
    lk_burst l' = lk_burst l"
proof -
  let ?n = "length (lk_recvd l)"
  have deliver: "\<exists>l'. (link_step room sid)\<^sup>*\<^sup>* m l' \<and> lk_recvd l' = lk_recvd m @ [lk_sent m ! length (lk_recvd m)] \<and>
      lk_burst l' = lk_burst m"
    if m: "link_inv cap off timeout sid m" "length (lk_recvd m) \<in> set (act_ids (lk_rcv m))" for m
  proof -
    obtain rcv' ok where "control_deliver (\<lambda>_. 1) (lk_rcv m) = Some (rcv', Some (lk_sent m ! length (lk_recvd m)), ok)"
      using deliver_effect[OF m(1), of "\<lambda>_. 1"] m(2) by auto
    from link_step.deliver[OF this, of room sid] show ?thesis by (auto intro!: exI r_into_rtranclp)
  qed
  show ?thesis
  proof (cases "?n \<in> set (act_ids (lk_rcv l))")
    case True
    then show ?thesis by (rule deliver[OF inv])
  next
    case False
    then have "?n \<in> set (act_ids (lk_snd l))"
      using inv more by (auto simp: link_inv_def link_kept_def lk_received_def)
    then obtain e where e: "e \<in> set (rel_entries (lk_snd l))" "re_active e" "unat (re_packet_id e) = ?n"
      by (auto simp: act_ids_def act_def)
    define now where "now = Max (insert (lk_now l) (re_next_try ` set (rel_entries (lk_snd l))))"
    let ?l1 = "l\<lparr>lk_now := now\<rparr>"
    have now: "lk_now l \<le> now" "\<And>e. e \<in> set (rel_entries (lk_snd l)) \<Longrightarrow> re_next_try e \<le> now"
      by (simp_all add: now_def)
    have st1: "link_step room sid l ?l1" by (rule link_step.tick[OF now(1)])
    have inv1: "link_inv cap off timeout sid ?l1" by (rule tick_inv[OF inv])
    have due: "entry_due now e" using e now(2) by (simp add: entry_due_def)
    have "timeouts_ok now (lk_snd ?l1)"
      using pos t unfolding timeouts_ok_def timeouts_double_def pos_timeouts_def list_all_iff rel_entries_def entry_due_def
      by (auto dest: in_set_takeD)
    then obtain l2 where l2: "(link_step room sid)\<^sup>*\<^sup>* ?l1 l2" "link_inv cap off timeout sid l2"
      "lk_rcv l2 = lk_rcv l" "lk_acks l2 = lk_acks l" "lk_sent l2 = lk_sent l" "lk_recvd l2 = lk_recvd l"
      "lk_burst l2 = lk_burst l" "be32 (of_nat ?n) @ lk_sent l ! ?n \<in> lk_wire l2"
      using send_progress[OF inv1 _ _ _ due e(3)] e(1) by auto
    let ?bs = "be32 (of_nat ?n) @ lk_sent l ! ?n"
    have "int (length (lk_sent l ! ?n)) \<le> cap - off" "4 \<le> off"
      using inv nth_mem[OF more] by (auto simp: link_inv_def link_snd_ok_def snd_inv_def)
    then have "buf_fits [] ?bs []" using cap by (simp add: buf_fits_def)
    then obtain rcv' acks' b' ok where r: "control_receive (lk_rcv l2) (lk_acks l2) (buf_of [] ?bs []) 0 = Some (rcv', acks', b', ok)"
      "link_inv cap off timeout sid (l2\<lparr>lk_rcv := rcv', lk_acks := acks'\<rparr>)" "?n \<in> set (act_ids rcv')"
      using arrive_effect[OF l2(2), of ?n ?bs "[]" "[]" 0] more l2(5,6) by auto
    let ?l3 = "l2\<lparr>lk_rcv := rcv', lk_acks := acks'\<rparr>"
    have st3: "link_step room sid l2 ?l3" by (rule link_step.arrive[OF l2(8) \<open>buf_fits [] ?bs []\<close> r(1)])
    obtain l4 where "(link_step room sid)\<^sup>*\<^sup>* ?l3 l4" "lk_recvd l4 = lk_recvd l @ [lk_sent l ! ?n]" "lk_burst l4 = lk_burst l"
      using deliver[OF r(2)] r(3) l2(5-7) by auto
    then show ?thesis using st1 l2(1) st3
      by (meson converse_rtranclp_into_rtranclp rtranclp_trans)
  qed
qed

section \<open>Properties\<close>


lemma link_run_one:
  "\<exists>l0 l. link_init 100 20 4 12 False 2 = Some l0 \<and> (link_step (100 - 20) [1, 2, 3, 4, 5, 6, 7, 8])\<^sup>*\<^sup>* l0 l \<and>
    lk_sent l = [[7]] \<and> lk_recvd l = [] \<and> \<not> rel_hold (lk_snd l) \<and> timeouts_double (lk_snd l)"
proof -
  have "(case link_init 100 20 4 12 False 2 of None \<Rightarrow> False
    | Some l \<Rightarrow> lk_sent l = [] \<and> lk_recvd l = [] \<and>
        (case control_submit (lk_snd l) (buf_of [] ([7] @ []) []) (int (length [7 :: byte])) 0 of
           None \<Rightarrow> False
         | Some (snd', tmp, ok) \<Rightarrow> ok \<and> \<not> rel_hold snd' \<and> timeouts_double snd'))"
    by code_simp
  then obtain l0 snd' tmp where l0: "link_init 100 20 4 12 False 2 = Some l0" "lk_sent l0 = []" "lk_recvd l0 = []"
    and sub: "control_submit (lk_snd l0) (buf_of [] ([7] @ []) []) (int (length [7 :: byte])) 0 = Some (snd', tmp, True)"
    and s: "\<not> rel_hold snd'" "timeouts_double snd'"
    by (auto split: option.splits)
  let ?l = "l0\<lparr>lk_snd := snd', lk_sent := lk_sent l0 @ [[7]]\<rparr>"
  have "link_step (100 - 20) [1, 2, 3, 4, 5, 6, 7, 8] l0 ?l"
    by (rule link_step.submit[OF sub]) (simp_all add: l0(2) LINK_MAX_def RELIABLE_CAPACITY_def)
  then show ?thesis using l0 s by (intro exI[of _ l0] exI[of _ ?l]) (simp add: r_into_rtranclp)
qed




text \<open>The receiver's two tests accept exactly the ids that are in its window and not stored yet, as
  long as the window stays in the first half of the id space.\<close>

theorem receive_window_exact:
  assumes "unat (rel_packet_id rel) + rel_size rel \<le> 2 ^ 31"
  shows "reliable_wont_break_sequentiality rel pid \<and> reliable_not_replay rel pid \<longleftrightarrow>
    unat (rel_packet_id rel) \<le> unat pid \<and> unat pid < unat (rel_packet_id rel) + rel_size rel \<and>
    unat pid \<notin> set (act_ids rel)"
  using pid_window[OF assms, of pid]
  by (auto simp: reliable_wont_break_sequentiality_def not_replay_iff)

definition ex_reliable :: "u32 \<Rightarrow> reliable" where
  "ex_reliable pid = \<lparr>rel_size = 8, rel_initial_timeout = 2, rel_packet_id = pid, rel_offset = 4, rel_hold = False,
     rel_array = replicate 12 clear_entry\<rparr>"

lemma ex_reliable_ids: "act_ids (ex_reliable pid) = []"
  by (simp add: ex_reliable_def act_ids_def act_def rel_entries_def clear_entry_def filter_empty_conv)

theorem receive_window_exact_witness:
  "reliable_wont_break_sequentiality (ex_reliable 5) 12 \<and> reliable_not_replay (ex_reliable 5) 12"
proof -
  have "rel_packet_id (ex_reliable 5) = 5" "rel_size (ex_reliable 5) = 8" by (simp_all add: ex_reliable_def)
  then show ?thesis using receive_window_exact[of "ex_reliable 5" 12] ex_reliable_ids[of 5] by simp
qed

text \<open>Near the end of the id space the window test is wrong: with id 0xC0000000 expected next and a
  window of 8, the id 0x10, more than 2^30 ids ahead, is accepted as a new packet of the window.\<close>

theorem receive_window_wrong_near_wrap:
  "reliable_wont_break_sequentiality (ex_reliable 0xC0000000) 0x10 \<and>
   reliable_not_replay (ex_reliable 0xC0000000) 0x10 \<and> unat (0x10 - (0xC0000000 :: u32)) = 2 ^ 30 + 16"
proof (intro conjI)
  let ?r = "ex_reliable 0xC0000000"
  have r: "rel_packet_id ?r = 0xC0000000" "rel_size ?r = 8" by (simp_all add: ex_reliable_def)
  show "reliable_wont_break_sequentiality ?r 0x10"
    by (simp add: reliable_wont_break_sequentiality_def reliable_pid_in_range2_def r)
  show "reliable_not_replay ?r 0x10"
    by (simp add: not_replay_iff ex_reliable_ids r reliable_pid_min_def reliable_pid_in_range1_def subtract_pid_def)
qed simp

text \<open>A packet to send is chosen and rescheduled as documented: the lowest id among the packets whose
  timeout has passed, or behind which three later packets have been acknowledged; its next try is
  one timeout away, the timeout doubles and the count of later acknowledgments restarts.  The step
  is undefined exactly when the doubling overflows an \<open>int\<close>.\<close>

theorem send_lowest_due:
  assumes "snd_inv cap f rel" "reliable_can_send now rel"
  shows "\<exists>b. b < rel_size rel \<and> entry_due now (rel_entries rel ! b) \<and>
    (\<forall>e \<in> set (rel_entries rel). entry_due now e \<longrightarrow>
       unat (re_packet_id (rel_entries rel ! b)) \<le> unat (re_packet_id e)) \<and>
    control_transmit now rel =
      (let e = rel_entries rel ! b in
       if re_timeout e * 2 < 2 ^ 31
       then Some (rel_update rel b (\<lambda>e. e\<lparr>re_next_try := now + re_timeout e, re_timeout := re_timeout e * 2, re_n_acks := 0\<rparr>),
              Some (buf_content (re_buf e), re_opcode e))
       else None)"
  using control_transmit_effect[OF assms] by blast

definition ex_waiting :: reliable where
  "ex_waiting = \<lparr>rel_size = 1, rel_initial_timeout = 2, rel_packet_id = 1, rel_offset = 4, rel_hold = False,
     rel_array = (replicate 12 clear_entry)
       [0 := clear_entry\<lparr>re_active := True, re_timeout := 2, re_buf := buf_of [] [0, 0, 0, 0, 7] []\<rparr>]\<rparr>"

theorem send_lowest_due_witness:
  "\<exists>b. b < rel_size ex_waiting \<and> entry_due 5 (rel_entries ex_waiting ! b) \<and>
    (\<exists>rel'. control_transmit 5 ex_waiting = Some (rel', Some ([0, 0, 0, 0, 7], 0)))"
proof -
  have a: "rel_entries ex_waiting = [clear_entry\<lparr>re_active := True, re_timeout := 2, re_buf := buf_of [] [0, 0, 0, 0, 7] []\<rparr>]"
    by (simp add: ex_waiting_def rel_entries_def numeral_eq_Suc)
  have p: "act_pkts ex_waiting = [(0, [0, 0, 0, 0, 7])]" by (simp add: act_pkts_def a act_def clear_entry_def)
  have z: "be32 0 = [0, 0, 0, 0]" by code_simp
  have "rel_ok 5 ex_waiting" unfolding rel_ok_def a
    by (simp add: ex_waiting_def RELIABLE_CAPACITY_def buf_live_def buf_fits_def BUF_SIZE_MAX_def)
  then have s: "snd_inv 5 (\<lambda>k. [7]) ex_waiting" unfolding snd_inv_def p
    by (simp add: z) (simp add: ex_waiting_def)
  have "reliable_can_send 5 ex_waiting"
    by (simp add: reliable_can_send_def a entry_due_def clear_entry_def) (simp add: ex_waiting_def)
  moreover have "rel_size ex_waiting = 1" by (simp add: ex_waiting_def)
  ultimately show ?thesis using send_lowest_due[OF s, of 5] by (auto simp: a Let_def clear_entry_def)
qed

text \<open>A state with one packet of a 4-packet window waiting, and the peer's reaction to it: one record
  that acknowledges the id 7 three times, after which the packet is sent again at once.\<close>

definition ex_sending :: reliable where
  "ex_sending = (ex_reliable 2)\<lparr>rel_size := 4, rel_array := (replicate 12 clear_entry)
     [0 := clear_entry\<lparr>re_active := True, re_timeout := 2, re_packet_id := 1, re_buf := buf_of [] [0, 0, 0, 1] []\<rparr>]\<rparr>"

fun fast_retransmits :: "nat \<Rightarrow> c_time \<Rightarrow> reliable \<Rightarrow> reliable option" where
  "fast_retransmits 0 now rel = Some rel"
| "fast_retransmits (Suc n) now rel = do {
     rel \<leftarrow> reliable_send_purge rel (ack_of [7, 7, 7] [0, 0, 0, 0, 0]);
     (rel, r) \<leftarrow> control_transmit now rel;
     fast_retransmits n now rel }"

theorem backoff_overflows:
  "fast_retransmits 29 1000 ex_sending \<noteq> None \<and> fast_retransmits 30 1000 ex_sending = None"
  by (intro conjI) code_simp+

end
