(* ===== verification/Ovpn_Tls_Output.thy ===== *)
theory Ovpn_Tls_Output
  imports Ovpn_Reliable_Link
begin

text \<open>
  \<open>write_outgoing_tls_ciphertext\<close> of \<open>ssl.c\<close>: one record is taken from the TLS object, as long as the
  free part of the send window can carry, and split into packets.  The TLS object is a parameter:
  \<open>read_ct m\<close> is the status and the bytes \<open>key_state_read_ciphertext\<close> puts into a buffer of \<open>m\<close> bytes.
  The first packet after the reset may have to leave room for the wrapped client key
  (\<open>CO_RESEND_WKC\<close>), whose length is \<open>wkc_len\<close>.
\<close>

definition TLS_CHANNEL_BUF_SIZE :: int where "TLS_CHANNEL_BUF_SIZE = 2048"
definition P_CONTROL_V1 :: int where "P_CONTROL_V1 = 4"
definition P_CONTROL_WKC_V1 :: int where "P_CONTROL_WKC_V1 = 11"

definition control_packet_needs_wkc :: "bool \<Rightarrow> reliable \<Rightarrow> bool" where
  "control_packet_needs_wkc resend_wkc rel = (resend_wkc \<and> rel_packet_id rel = 1)"

text \<open>The loop that splits the record; \<open>None\<close> is the failure of \<open>ASSERT(buf)\<close>.\<close>

partial_function (option) ciphertext_loop ::
  "bool \<Rightarrow> int \<Rightarrow> int \<Rightarrow> reliable \<Rightarrow> buffer \<Rightarrow> (reliable \<times> buffer) option" where
  "ciphertext_loop resend_wkc wkc_len max_pkt_len rel tmp =
     (if b_len tmp > 0
      then do {
        let wkc = control_packet_needs_wkc resend_wkc rel;
        let opcode = (if wkc then P_CONTROL_WKC_V1 else P_CONTROL_V1);
        let len = (if wkc then max_int 0 (max_pkt_len - wkc_len) else max_pkt_len);
        let len = min_int len (b_len tmp);
        (rel, tmp, ok) \<leftarrow> control_submit rel tmp len opcode;
        cassert ok;
        ciphertext_loop resend_wkc wkc_len max_pkt_len rel tmp }
      else Some (rel, tmp))"

text \<open>The arguments after the TLS object: \<open>tun_mtu\<close> of the frame and the overhead of a control packet.\<close>

definition write_outgoing_tls_ciphertext ::
  "(nat \<Rightarrow> int \<times> byte list) \<Rightarrow> int \<Rightarrow> int \<Rightarrow> bool \<Rightarrow> int \<Rightarrow> reliable \<Rightarrow> (reliable \<times> bool) option" where
  "write_outgoing_tls_ciphertext read_ct tun_mtu overhead resend_wkc wkc_len rel = do {
     let rel_avail = reliable_get_num_output_sequenced_available rel;
     if rel_avail = 0 then Some (rel, True)
     else do {
       let max_pkt_len = min_int TLS_CHANNEL_BUF_SIZE tun_mtu - overhead;
       let maxlen = max_pkt_len * rel_avail;
       let maxlen = (if control_packet_needs_wkc resend_wkc rel then maxlen - wkc_len else maxlen);
       let (maxlen, max_pkt_len) = (if maxlen < 16 then (16, TLS_CHANNEL_BUF_SIZE) else (maxlen, max_pkt_len));
       tmp \<leftarrow> alloc_buf (to_size_t maxlen);
       let (status, ct) = read_ct (nat maxlen);
       (tmp, _) \<leftarrow> buf_write tmp ct;
       if status = -1 then Some (rel, False)
       else if status = 1
       then do {
         (rel, _) \<leftarrow> ciphertext_loop resend_wkc wkc_len max_pkt_len rel tmp;
         Some (rel, True) }
       else Some (rel, True) } }"

section \<open>The loop\<close>

text \<open>\<open>window_free m\<close>: there is room for \<open>m\<close> more packets in the window.\<close>

definition window_free :: "nat \<Rightarrow> reliable \<Rightarrow> bool" where
  "window_free m rel \<longleftrightarrow> m \<le> rel_size rel \<and>
     (\<forall>k \<in> set (act_ids rel). unat (rel_packet_id rel) + m \<le> k + rel_size rel)"

lemma window_free_avail:
  assumes "snd_inv cap f rel"
  shows "\<exists>m. reliable_get_num_output_sequenced_available rel = int m \<and> window_free m rel"
proof (cases "rel_min_id rel")
  case None
  then show ?thesis using rel_min_id_pkts[OF assms]
    by (intro exI[of _ "rel_size rel"])
      (simp add: reliable_get_num_output_sequenced_available_def window_free_def act_ids_pkts)
next
  case (Some r)
  let ?n = "unat (rel_packet_id rel)"
  have r: "unat r \<in> set (act_ids rel)" "\<forall>k \<in> set (act_ids rel). unat r \<le> k"
    using rel_min_id_pkts[OF assms] Some by auto
  then have b: "unat r < ?n" "?n \<le> unat r + rel_size rel" and sz: "rel_size rel \<le> 12"
    using assms by (auto simp: snd_inv_def act_ids_pkts rel_ok_def RELIABLE_CAPACITY_def)
  let ?m = "unat r + rel_size rel - ?n"
  have "unat (rel_packet_id rel - r) = ?n - unat r" using b by (intro unat_sub) (simp add: word_le_nat_alt)
  moreover have s: "unat (of_nat (rel_size rel) :: u32) = rel_size rel" using sz by (simp add: unat_of_nat)
  ultimately have "unat (of_nat (rel_size rel) - (rel_packet_id rel - r) :: u32) = ?m"
    using b by (subst unat_sub) (simp_all add: word_le_nat_alt)
  moreover have "?m < 2 ^ 31" using b(1) sz by simp
  ultimately have "sint (of_nat (rel_size rel) - (rel_packet_id rel - r) :: u32) = int ?m"
    by (simp add: sint_uint uint_nat signed_take_bit_int_eq_self)
  then show ?thesis using r b Some
    by (intro exI[of _ ?m]) (auto simp: reliable_get_num_output_sequenced_available_def window_free_def subtract_pid_def)
qed

text \<open>One round: the next packet gets the next id.\<close>

definition new_pkts :: "(nat \<Rightarrow> byte list) \<Rightarrow> nat \<Rightarrow> nat \<Rightarrow> (nat \<times> byte list) set" where
  "new_pkts f i j = (\<lambda>k. (k, be32 (of_nat k) @ f k)) ` {i..<j}"

lemma new_pkts_split: "i < j \<Longrightarrow> new_pkts f i j = insert (i, be32 (of_nat i) @ f i) (new_pkts f (i + 1) j)"
proof -
  assume "i < j"
  then have "{i..<j} = insert i {i + 1..<j}" by auto
  then show ?thesis by (simp add: new_pkts_def)
qed

lemma new_pkts_empty [simp]: "new_pkts f i i = {}"
  by (simp add: new_pkts_def)

lemma ciphertext_round:
  assumes inv: "snd_inv cap f rel" and small: "unat (rel_packet_id rel) < 2 ^ 31" and free: "window_free (Suc m) rel"
    and d: "int (length d) \<le> cap - rel_offset rel" "d @ rest \<noteq> []"
    and len: "int (length d) = min (if control_packet_needs_wkc resend_wkc rel then max 0 (max_pkt_len - wkc_len) else max_pkt_len)
      (int (length (d @ rest)))"
  shows "\<exists>rel1. ciphertext_loop resend_wkc wkc_len max_pkt_len rel (buf_of p (d @ rest) q) =
      ciphertext_loop resend_wkc wkc_len max_pkt_len rel1 (buf_of (p @ d) rest q) \<and>
    snd_inv cap (f(unat (rel_packet_id rel) := d)) rel1 \<and> rel_size rel1 = rel_size rel \<and> rel_offset rel1 = rel_offset rel \<and>
    unat (rel_packet_id rel1) = unat (rel_packet_id rel) + 1 \<and> window_free m rel1 \<and>
    set (act_pkts rel1) = insert (unat (rel_packet_id rel), be32 (rel_packet_id rel) @ d) (set (act_pkts rel))"
proof -
  let ?N = "unat (rel_packet_id rel)" and ?f = "f(unat (rel_packet_id rel) := d)"
  let ?op = "if control_packet_needs_wkc resend_wkc rel then P_CONTROL_WKC_V1 else P_CONTROL_V1"
  have fi: "snd_inv cap ?f rel" by (rule snd_inv_cong[OF inv]) simp
  have fd: "?f ?N = d" by simp
  obtain rel1 tmp ok where r: "control_submit rel (buf_of p (d @ rest) q) (int (length d)) ?op = Some (rel1, tmp, ok)"
    "snd_inv cap ?f rel1" "rel_size rel1 = rel_size rel" "rel_offset rel1 = rel_offset rel"
    "ok = (\<forall>k \<in> set (act_ids rel). ?N < k + rel_size rel)"
    "if ok then tmp = buf_of (p @ d) rest q \<and> unat (rel_packet_id rel1) = ?N + 1 \<and>
       set (act_pkts rel1) = insert (?N, be32 (rel_packet_id rel) @ d) (set (act_pkts rel))
     else rel1 = rel \<and> tmp = buf_of p (d @ rest) q"
    using control_submit_effect[OF fi small fd d(1), of p rest q ?op] by blast
  have ok using free unfolding r(5) window_free_def by (auto simp: less_eq_Suc_le)
  then have e: "tmp = buf_of (p @ d) rest q" "unat (rel_packet_id rel1) = ?N + 1"
    "set (act_pkts rel1) = insert (?N, be32 (rel_packet_id rel) @ d) (set (act_pkts rel))" using r(6) by simp_all
  have "set (act_ids rel1) = insert ?N (set (act_ids rel))" unfolding act_ids_pkts using e(3) by simp
  then have "window_free m rel1" using free e(2) r(3) by (auto simp: window_free_def)
  moreover have "b_len (buf_of p (d @ rest) q) > 0" using d(2) by (cases d; cases rest) (simp_all add: buf_of_def)
  moreover have "b_len (buf_of p (d @ rest) q) = int (length (d @ rest))" by (simp add: buf_of_def)
  then have "min_int (if control_packet_needs_wkc resend_wkc rel then max_int 0 (max_pkt_len - wkc_len) else max_pkt_len)
      (b_len (buf_of p (d @ rest) q)) = int (length d)"
    unfolding min_int_min max_int_max by (simp only: len[symmetric])
  ultimately have "ciphertext_loop resend_wkc wkc_len max_pkt_len rel (buf_of p (d @ rest) q) =
      ciphertext_loop resend_wkc wkc_len max_pkt_len rel1 (buf_of (p @ d) rest q)"
    using r(1) \<open>ok\<close> e(1) by (subst ciphertext_loop.simps) (simp add: Let_def del: min_int_min max_int_max)
  then show ?thesis using r(2-4) e(2,3) \<open>window_free m rel1\<close> by blast
qed

text \<open>The rounds without a wrapped key.\<close>

lemma ciphertext_loop_plain:
  assumes "snd_inv cap f rel" "unat (rel_packet_id rel) + m \<le> 2 ^ 31" "window_free m rel"
    "0 < max_pkt_len" "max_pkt_len \<le> cap - rel_offset rel" "int (length ct) \<le> int m * max_pkt_len"
    "resend_wkc \<longrightarrow> 2 \<le> unat (rel_packet_id rel)"
  shows "\<exists>rel' p' f' chunks. ciphertext_loop resend_wkc wkc_len max_pkt_len rel (buf_of p ct q) = Some (rel', buf_of p' [] q) \<and>
    concat chunks = ct \<and> (\<forall>c \<in> set chunks. int (length c) \<le> max_pkt_len) \<and> snd_inv cap f' rel' \<and>
    (\<forall>k < unat (rel_packet_id rel). f' k = f k) \<and>
    (\<forall>i < length chunks. f' (unat (rel_packet_id rel) + i) = chunks ! i) \<and>
    unat (rel_packet_id rel') = unat (rel_packet_id rel) + length chunks \<and>
    set (act_pkts rel') = set (act_pkts rel) \<union>
      new_pkts f' (unat (rel_packet_id rel)) (unat (rel_packet_id rel) + length chunks)"
  using assms
proof (induction m arbitrary: f rel p ct)
  case 0
  then have "ct = []" by simp
  then show ?case using 0
    by (subst ciphertext_loop.simps)
      (auto simp: buf_of_def intro!: exI[of _ "[]"] exI[of _ rel] exI[of _ f] exI[of _ p])
next
  case (Suc m)
  let ?N = "unat (rel_packet_id rel)"
  show ?case
  proof (cases "ct = []")
    case True
    then show ?thesis using Suc.prems
      by (subst ciphertext_loop.simps)
        (auto simp: buf_of_def intro!: exI[of _ "[]"] exI[of _ rel] exI[of _ f] exI[of _ p])
  next
    case False
    let ?d = "take (nat max_pkt_len) ct" and ?rest = "drop (nat max_pkt_len) ct"
    have nw: "\<not> control_packet_needs_wkc resend_wkc rel"
      using Suc.prems(7) by (auto simp: control_packet_needs_wkc_def)
    have d1: "int (length ?d) \<le> cap - rel_offset rel" using Suc.prems(4,5) by simp
    have d2: "?d @ ?rest \<noteq> []" using False by simp
    have len: "int (length ?d) = min (if control_packet_needs_wkc resend_wkc rel then max 0 (max_pkt_len - wkc_len) else max_pkt_len)
      (int (length (?d @ ?rest)))" using nw Suc.prems(4) by auto
    have small: "?N < 2 ^ 31" using Suc.prems(2) by simp
    obtain rel1 where r: "ciphertext_loop resend_wkc wkc_len max_pkt_len rel (buf_of p (?d @ ?rest) q) =
        ciphertext_loop resend_wkc wkc_len max_pkt_len rel1 (buf_of (p @ ?d) ?rest q)"
      "snd_inv cap (f(?N := ?d)) rel1" "rel_size rel1 = rel_size rel" "rel_offset rel1 = rel_offset rel"
      "unat (rel_packet_id rel1) = ?N + 1" "window_free m rel1"
      "set (act_pkts rel1) = insert (?N, be32 (rel_packet_id rel) @ ?d) (set (act_pkts rel))"
      using ciphertext_round[OF Suc.prems(1) small Suc.prems(3) d1 d2 len, of p q] by blast
    have "int (length ?rest) \<le> int m * max_pkt_len"
    proof (cases "length ct \<le> nat max_pkt_len")
      case True
      then show ?thesis using Suc.prems(4) by simp
    next
      case False
      then have "int (length ?rest) = int (length ct) - max_pkt_len" using Suc.prems(4) by (simp add: of_nat_diff)
      then show ?thesis using Suc.prems(6) by (simp add: algebra_simps)
    qed
    then obtain rel' p' f' chunks where ih:
      "ciphertext_loop resend_wkc wkc_len max_pkt_len rel1 (buf_of (p @ ?d) ?rest q) = Some (rel', buf_of p' [] q)"
      "concat chunks = ?rest" "\<forall>c \<in> set chunks. int (length c) \<le> max_pkt_len" "snd_inv cap f' rel'"
      "\<forall>k < ?N + 1. f' k = (f(?N := ?d)) k" "\<forall>i < length chunks. f' (?N + 1 + i) = chunks ! i"
      "unat (rel_packet_id rel') = ?N + 1 + length chunks"
      "set (act_pkts rel') = set (act_pkts rel1) \<union> new_pkts f' (?N + 1) (?N + 1 + length chunks)"
      using Suc.IH[OF r(2) _ r(6), of ?rest "p @ ?d"] r(4,5) Suc.prems(2,4,5,7) by auto
    have fd: "f' ?N = ?d" using ih(5) by simp
    show ?thesis
    proof (intro exI conjI)
      show "ciphertext_loop resend_wkc wkc_len max_pkt_len rel (buf_of p ct q) = Some (rel', buf_of p' [] q)"
        using r(1) ih(1) by simp
      show "concat (?d # chunks) = ct" using ih(2) by simp
      show "\<forall>c \<in> set (?d # chunks). int (length c) \<le> max_pkt_len" using ih(3) Suc.prems(4) by simp
      show "\<forall>i < length (?d # chunks). f' (?N + i) = (?d # chunks) ! i"
        using fd ih(6) by (auto simp: nth_Cons split: nat.splits)
      show "set (act_pkts rel') = set (act_pkts rel) \<union> new_pkts f' ?N (?N + length (?d # chunks))"
        unfolding ih(8) r(7) using fd by (subst new_pkts_split) auto
    qed (use ih in auto)
  qed
qed

section \<open>The whole function\<close>

text \<open>The loop on a record that fits the room computed for it.\<close>

lemma ciphertext_loop_fits:
  assumes inv: "snd_inv cap f rel" and small: "unat (rel_packet_id rel) + m \<le> 2 ^ 31" and free: "window_free m rel"
    and pid: "1 \<le> unat (rel_packet_id rel)" and M: "0 < max_pkt_len" "max_pkt_len \<le> cap - rel_offset rel" "0 < m"
    and W: "0 \<le> wkc_len"
    and ct: "int (length ct) \<le> int m * max_pkt_len - (if control_packet_needs_wkc resend_wkc rel then wkc_len else 0)"
  shows "\<exists>rel' p' f' chunks. ciphertext_loop resend_wkc wkc_len max_pkt_len rel (buf_of p ct q) = Some (rel', buf_of p' [] q) \<and>
    concat chunks = ct \<and> (\<forall>c \<in> set chunks. int (length c) \<le> max_pkt_len) \<and> snd_inv cap f' rel' \<and>
    (\<forall>k < unat (rel_packet_id rel). f' k = f k) \<and>
    (\<forall>i < length chunks. f' (unat (rel_packet_id rel) + i) = chunks ! i) \<and>
    unat (rel_packet_id rel') = unat (rel_packet_id rel) + length chunks \<and>
    set (act_pkts rel') = set (act_pkts rel) \<union>
      new_pkts f' (unat (rel_packet_id rel)) (unat (rel_packet_id rel) + length chunks)"
proof (cases "control_packet_needs_wkc resend_wkc rel")
  case False
  then have "resend_wkc \<longrightarrow> 2 \<le> unat (rel_packet_id rel)"
    using pid by (auto simp: control_packet_needs_wkc_def word_unat_eq_iff)
  then show ?thesis using ciphertext_loop_plain[OF inv small free M(1,2)] ct False by simp
next
  case True
  show ?thesis
  proof (cases "ct = []")
    case True
    then show ?thesis using inv
      by (subst ciphertext_loop.simps)
        (auto simp: buf_of_def intro!: exI[of _ "[]"] exI[of _ rel] exI[of _ f] exI[of _ p])
  next
    case ne: False
    obtain m' where m: "m = Suc m'" using M(3) gr0_implies_Suc by blast
    let ?N = "unat (rel_packet_id rel)" and ?n = "nat (max_pkt_len - wkc_len)"
    let ?d = "take ?n ct" and ?rest = "drop ?n ct"
    have d1: "int (length ?d) \<le> cap - rel_offset rel" using M(1,2) W by simp
    have d2: "?d @ ?rest \<noteq> []" using ne by simp
    have len: "int (length ?d) = min (if control_packet_needs_wkc resend_wkc rel then max 0 (max_pkt_len - wkc_len) else max_pkt_len)
      (int (length (?d @ ?rest)))" using True by auto
    have N1: "?N = 1" using True by (simp add: control_packet_needs_wkc_def)
    obtain rel1 where r: "ciphertext_loop resend_wkc wkc_len max_pkt_len rel (buf_of p (?d @ ?rest) q) =
        ciphertext_loop resend_wkc wkc_len max_pkt_len rel1 (buf_of (p @ ?d) ?rest q)"
      "snd_inv cap (f(?N := ?d)) rel1" "rel_size rel1 = rel_size rel" "rel_offset rel1 = rel_offset rel"
      "unat (rel_packet_id rel1) = ?N + 1" "window_free m' rel1"
      "set (act_pkts rel1) = insert (?N, be32 (rel_packet_id rel) @ ?d) (set (act_pkts rel))"
      using ciphertext_round[OF inv _ free[unfolded m] d1 d2 len, of p q] N1 by auto
    have "int (length ?rest) \<le> int m' * max_pkt_len"
    proof -
      have 1: "int (length ct) \<le> max_pkt_len + int m' * max_pkt_len - wkc_len" using ct True m by (simp add: algebra_simps)
      have 2: "0 \<le> int m' * max_pkt_len" using M(1) by simp
      have "int (length ?rest) = max 0 (int (length ct) - max 0 (max_pkt_len - wkc_len))" by simp
      then show ?thesis using 1 2 by linarith
    qed
    then obtain rel' p' f' chunks where ih:
      "ciphertext_loop resend_wkc wkc_len max_pkt_len rel1 (buf_of (p @ ?d) ?rest q) = Some (rel', buf_of p' [] q)"
      "concat chunks = ?rest" "\<forall>c \<in> set chunks. int (length c) \<le> max_pkt_len" "snd_inv cap f' rel'"
      "\<forall>k < ?N + 1. f' k = (f(?N := ?d)) k" "\<forall>i < length chunks. f' (?N + 1 + i) = chunks ! i"
      "unat (rel_packet_id rel') = ?N + 1 + length chunks"
      "set (act_pkts rel') = set (act_pkts rel1) \<union> new_pkts f' (?N + 1) (?N + 1 + length chunks)"
      using ciphertext_loop_plain[OF r(2) _ r(6) M(1), of ?rest resend_wkc wkc_len "p @ ?d" q] r(4,5) small m M(2) N1 by auto
    have fd: "f' ?N = ?d" using ih(5) by simp
    show ?thesis
    proof (intro exI conjI)
      show "ciphertext_loop resend_wkc wkc_len max_pkt_len rel (buf_of p ct q) = Some (rel', buf_of p' [] q)"
        using r(1) ih(1) by simp
      show "concat (?d # chunks) = ct" using ih(2) by simp
      show "\<forall>c \<in> set (?d # chunks). int (length c) \<le> max_pkt_len" using ih(3) M(1) W by simp
      show "\<forall>i < length (?d # chunks). f' (?N + i) = (?d # chunks) ! i"
        using fd ih(6) by (auto simp: nth_Cons split: nat.splits)
      show "set (act_pkts rel') = set (act_pkts rel) \<union> new_pkts f' ?N (?N + length (?d # chunks))"
        unfolding ih(8) r(7) using fd by (subst new_pkts_split) auto
    qed (use ih in auto)
  qed
qed

text \<open>The arithmetic of the room: \<open>m\<close> free places, packets of \<open>m0\<close> bytes, a wrapped key of \<open>w\<close> bytes.\<close>

lemma ciphertext_room:
  fixes m :: nat and m0 w :: int
  assumes m: "0 < m" "m \<le> 12" and m0: "m0 \<le> 2048" and w: "0 \<le> w" "w \<le> 1024"
    and l0: "l0 = (if wkc then m0 * int m - w else m0 * int m)"
    and l: "l = (if l0 < 16 then 16 else l0)" and mx: "mx = (if l0 < 16 then 2048 else m0)"
  shows "0 < mx \<and> mx \<le> 2048 \<and> 16 \<le> l \<and> l < BUF_SIZE_MAX \<and> l \<le> int m * mx - (if wkc then w else 0)"
proof (cases "l0 < 16")
  case True
  have "2048 * 1 \<le> int m * (2048 :: int)" using m(1) by simp
  then show ?thesis using True l mx w by (simp add: BUF_SIZE_MAX_def)
next
  case False
  then have "0 < m0 * int m" using l0 w by (simp split: if_splits)
  then have p: "0 < m0" using m(1) by (simp add: zero_less_mult_iff)
  have "m0 * int m \<le> 2048 * 12" using p m m0 by (intro mult_mono) simp_all
  then show ?thesis using False p l mx l0 m0 w by (simp add: BUF_SIZE_MAX_def mult.commute)
qed

text \<open>The record taken from the TLS library is always sent completely, in order, and the assertion on
  the send buffer never fails: the room computed before the record is read covers every way the
  record is split, also when the first packet carries the wrapped client key, and also when that
  leaves no room for payload.\<close>

theorem outgoing_ciphertext_sent:
  assumes "snd_inv cap f rel" "unat (rel_packet_id rel) + rel_size rel \<le> 2 ^ 31" "1 \<le> unat (rel_packet_id rel)"
    and "\<And>n. length (snd (read_ct n)) \<le> n" "\<And>n. fst (read_ct n) = 1"
    and "TLS_CHANNEL_BUF_SIZE \<le> cap - rel_offset rel" "0 \<le> overhead" "0 \<le> wkc_len" "wkc_len \<le> 1024"
    and "reliable_get_num_output_sequenced_available rel \<noteq> 0"
  shows "\<exists>rel' f' chunks maxlen. 16 \<le> maxlen \<and>
    write_outgoing_tls_ciphertext read_ct tun_mtu overhead resend_wkc wkc_len rel = Some (rel', True) \<and>
    concat chunks = snd (read_ct maxlen) \<and> snd_inv cap f' rel' \<and>
    (\<forall>i < length chunks. f' (unat (rel_packet_id rel) + i) = chunks ! i) \<and>
    set (act_pkts rel') = set (act_pkts rel) \<union>
      new_pkts f' (unat (rel_packet_id rel)) (unat (rel_packet_id rel) + length chunks)"
proof -
  obtain m where m: "reliable_get_num_output_sequenced_available rel = int m" "window_free m rel"
    using window_free_avail[OF assms(1)] by blast
  have m12: "0 < m" "m \<le> 12" and msz: "m \<le> rel_size rel"
    using m assms(1,10) by (auto simp: window_free_def snd_inv_def rel_ok_def RELIABLE_CAPACITY_def)
  define M0 where "M0 = min TLS_CHANNEL_BUF_SIZE tun_mtu - overhead"
  define L0 where "L0 = (if control_packet_needs_wkc resend_wkc rel then M0 * int m - wkc_len else M0 * int m)"
  define M where "M = (if L0 < 16 then 2048 else M0)"
  define L where "L = (if L0 < 16 then 16 else L0)"
  have "M0 \<le> 2048" using assms(7) by (simp add: M0_def TLS_CHANNEL_BUF_SIZE_def)
  from ciphertext_room[OF m12 this assms(8,9) L0_def L_def M_def]
  have L: "0 < M" "M \<le> 2048" "16 \<le> L" "L < BUF_SIZE_MAX"
    "L \<le> int m * M - (if control_packet_needs_wkc resend_wkc rel then wkc_len else 0)" by blast+
  have Mcap: "M \<le> cap - rel_offset rel" using L(2) assms(6) by (simp add: TLS_CHANNEL_BUF_SIZE_def)
  obtain ct where rd: "read_ct (nat L) = (1, ct)" using assms(5)[of "nat L"] by (metis prod.collapse)
  have ctl: "length ct \<le> nat L" using assms(4)[of "nat L"] rd by simp
  let ?q = "replicate (nat L) 0 :: byte list"
  have "to_size_t L = nat L" using L by (simp add: to_size_t_def BUF_SIZE_MAX_def)
  then have al: "alloc_buf (to_size_t L) = Some (buf_of [] [] ?q)" using L by (simp add: alloc_buf_ok)
  have wr: "buf_write (buf_of [] [] ?q) ct = Some (buf_of [] ct (drop (length ct) ?q), True)"
    using ctl L by (simp add: buf_write_of buf_fits_def)
  have len: "int (length ct) \<le> int m * M - (if control_packet_needs_wkc resend_wkc rel then wkc_len else 0)"
    using ctl L by linarith
  have small: "unat (rel_packet_id rel) + m \<le> 2 ^ 31" using assms(2) msz by linarith
  obtain rel' p' f' chunks where r:
    "ciphertext_loop resend_wkc wkc_len M rel (buf_of [] ct (drop (length ct) ?q)) = Some (rel', buf_of p' [] (drop (length ct) ?q))"
    "concat chunks = ct" "snd_inv cap f' rel'"
    "\<forall>i < length chunks. f' (unat (rel_packet_id rel) + i) = chunks ! i"
    "set (act_pkts rel') = set (act_pkts rel) \<union>
      new_pkts f' (unat (rel_packet_id rel)) (unat (rel_packet_id rel) + length chunks)"
    using ciphertext_loop_fits[OF assms(1) small m(2) assms(3) L(1) Mcap m12(1) assms(8) len, of "[]" "drop (length ct) ?q"]
    by blast
  have T: "TLS_CHANNEL_BUF_SIZE = 2048" by (simp add: TLS_CHANNEL_BUF_SIZE_def)
  have nz: "(int m = 0) = False" using m12(1) by simp
  have LM: "(if L0 < 16 then (16, TLS_CHANNEL_BUF_SIZE) else (L0, M0)) = (L, M)"
    by (simp add: L_def M_def T)
  have "write_outgoing_tls_ciphertext read_ct tun_mtu overhead resend_wkc wkc_len rel = Some (rel', True)"
    unfolding write_outgoing_tls_ciphertext_def m(1) nz if_False Let_def min_int_min M0_def[symmetric] L0_def[symmetric] LM
      prod.case al bind.simps rd wr
    using r(1) by simp
  then show ?thesis using r(2-5) L(3) rd
    by (intro exI[of _ rel'] exI[of _ f'] exI[of _ chunks] exI[of _ "nat L"]) simp
qed

definition ex_output :: reliable where
  "ex_output = \<lparr>rel_size = 1, rel_initial_timeout = 2, rel_packet_id = 1, rel_offset = 4, rel_hold = False,
     rel_array = replicate 12 (clear_entry\<lparr>re_buf := buf_of [] [] (replicate 2060 0)\<rparr>)\<rparr>"

theorem outgoing_ciphertext_sent_witness:
  "\<exists>rel' f' chunks. write_outgoing_tls_ciphertext (\<lambda>n. (1, if n = 0 then [] else [7])) 1400 60 True 300 ex_output = Some (rel', True) \<and>
    concat chunks = [7 :: byte] \<and> snd_inv 2060 f' rel' \<and> set (act_pkts rel') = new_pkts f' 1 (1 + length chunks)"
proof -
  have e: "rel_entries ex_output = [clear_entry\<lparr>re_buf := buf_of [] [] (replicate 2060 0)\<rparr>]"
    by (simp add: ex_output_def rel_entries_def numeral_eq_Suc)
  have p: "rel_packet_id ex_output = 1" "rel_size ex_output = 1" "rel_offset ex_output = 4"
    "length (rel_array ex_output) = 12" by (simp_all add: ex_output_def)
  have a: "act_pkts ex_output = []" by (simp add: act_pkts_def e act_def clear_entry_def)
  have "rel_ok 2060 ex_output" unfolding rel_ok_def e p
    by (simp add: RELIABLE_CAPACITY_def buf_live_def buf_fits_def BUF_SIZE_MAX_def)
  then have s: "snd_inv 2060 (\<lambda>k. []) ex_output" unfolding snd_inv_def a p by simp
  have "rel_min_id ex_output = None" by (simp add: rel_min_id_def e rel_min_step_def clear_entry_def)
  then have av: "reliable_get_num_output_sequenced_available ex_output \<noteq> 0"
    by (simp add: reliable_get_num_output_sequenced_available_def p)
  let ?rd = "\<lambda>n :: nat. (1 :: int, if n = 0 then [] else [7 :: byte])"
  have "length (snd (?rd n)) \<le> n" "fst (?rd n) = 1" for n by simp_all
  from outgoing_ciphertext_sent[OF s _ _ this, of 60 300 1400 True] av a
  show ?thesis by (auto simp: p TLS_CHANNEL_BUF_SIZE_def) blast
qed

end
