(* ===== verification/Ovpn_Base64.thy ===== *)
theory Ovpn_Base64
  imports Ovpn_Text
begin

unbundle bit_operations_syntax

text \<open>
  Base64 (\<open>base64.c\<close>).  The input of the encoder and the output of the decoder are memory blocks
  with bounds-checked access; a C string is the list of its bytes before the NUL.
\<close>

section \<open>Encoding\<close>

definition base64_chars :: "byte list" where
  "base64_chars = map of_char ''ABCDEFGHIJKLMNOPQRSTUVWXYZabcdefghijklmnopqrstuvwxyz0123456789+/''"

definition B64_PAD :: byte where "B64_PAD = of_char (CHR ''='')"

text \<open>The four characters for a group of three bytes.\<close>

definition base64_quad :: "u32 \<Rightarrow> byte list" where
  "base64_quad c =
     [base64_chars ! unat (drop_bit 18 (c AND 0x00fc0000)),
      base64_chars ! unat (drop_bit 12 (c AND 0x0003f000)),
      base64_chars ! unat (drop_bit 6 (c AND 0x00000fc0)),
      base64_chars ! unat (drop_bit 0 (c AND 0x0000003f))]"

text \<open>The loop: \<open>i\<close> is the index into the data, \<open>p\<close> the place in the block \<open>d\<close> written to.\<close>

function base64_encode_loop :: "byte list \<Rightarrow> nat \<Rightarrow> byte list \<Rightarrow> int \<Rightarrow> (byte list \<times> int) option" where
  "base64_encode_loop q i d p =
     (if i < length q
      then do {
        let c = (ucast (q ! i) :: u32);
        let i = i + 1;
        let c = push_bit 8 c;
        let c = (if i < length q then c + ucast (q ! i) else c);
        let i = i + 1;
        let c = push_bit 8 c;
        let c = (if i < length q then c + ucast (q ! i) else c);
        let i = i + 1;
        d \<leftarrow> mem_write d p (base64_quad c);
        d \<leftarrow> (if i > length q then mem_write d (p + 3) [B64_PAD] else Some d);
        d \<leftarrow> (if i > length q + 1 then mem_write d (p + 2) [B64_PAD] else Some d);
        base64_encode_loop q i d (p + 4) }
      else Some (d, p))"
  by pat_completeness auto
termination by (relation "measure (\<lambda>(q, i, d, p). length q - i)") auto

text \<open>
  The size argument is the length of the data.  The result is the return value and the string;
  \<open>malloc\<close> succeeds and leaves \<open>junk\<close> in the block.
\<close>

definition openvpn_base64_encode :: "(nat \<Rightarrow> byte) \<Rightarrow> byte list \<Rightarrow> (int \<times> byte list option) option" where
  "openvpn_base64_encode junk q = do {
     let out_size = length q * 4 div 3 + 4;
     if out_size > 2147483647 then Some (-1, None)
     else do {
       (d, p) \<leftarrow> base64_encode_loop q 0 (map junk [0..<out_size]) 0;
       d \<leftarrow> mem_write d p [0];
       Some (int (length (c_str d)), Some (c_str d)) } }"

section \<open>Decoding\<close>

fun pos_loop :: "byte \<Rightarrow> byte list \<Rightarrow> int \<Rightarrow> int" where
  "pos_loop c [] i = -1"
| "pos_loop c (x # xs) i = (if x = c then i else pos_loop c xs (i + 1))"

definition pos :: "byte \<Rightarrow> int" where "pos c = pos_loop c base64_chars 0"

definition DECODE_ERROR :: u32 where "DECODE_ERROR = 0xffffffff"

fun token_decode_loop :: "byte list \<Rightarrow> u32 \<Rightarrow> u32 \<Rightarrow> u32" where
  "token_decode_loop [] val marker = (if marker > 2 then DECODE_ERROR else push_bit 24 marker OR val)"
| "token_decode_loop (t # ts) val marker =
     (let val = push_bit 6 val in
      if t = B64_PAD then token_decode_loop ts val (marker + 1)
      else if marker > 0 then DECODE_ERROR
      else if pos t < 0 then DECODE_ERROR
      else token_decode_loop ts (val + word_of_int (pos t)) marker)"

text \<open>The string from the token on; a NUL among its four bytes is the end of the list.\<close>

definition token_decode :: "byte list \<Rightarrow> u32" where
  "token_decode s = (if length s < 4 then DECODE_ERROR else token_decode_loop (take 4 s) 0 0)"

text \<open>One output byte: \<open>None\<close> is the overflow the code reports, \<open>sz < 0\<close> means no limit.\<close>

definition base64_put :: "byte list \<Rightarrow> int \<Rightarrow> int \<Rightarrow> byte \<Rightarrow> (byte list \<times> int) option option" where
  "base64_put d q sz x =
     (if sz \<ge> 0 \<and> q \<ge> sz then Some None
      else do { d \<leftarrow> mem_write d q [x]; Some (Some (d, q + 1)) })"

function base64_decode_loop :: "byte list \<Rightarrow> byte list \<Rightarrow> int \<Rightarrow> int \<Rightarrow> (byte list \<times> int) option" where
  "base64_decode_loop s d q sz =
     (if s \<noteq> [] \<and> (s ! 0 = B64_PAD \<or> s ! 0 \<in> set base64_chars)
      then (let val = token_decode s; marker = drop_bit 24 val AND 0xff in
        if val = DECODE_ERROR then Some (d, -1)
        else do {
          r \<leftarrow> base64_put d q sz (ucast (drop_bit 16 val AND 0xff));
          case r of None \<Rightarrow> Some (d, -1)
          | Some (d, q) \<Rightarrow> do {
              r \<leftarrow> (if marker < 2 then base64_put d q sz (ucast (drop_bit 8 val AND 0xff)) else Some (Some (d, q)));
              case r of None \<Rightarrow> Some (d, -1)
              | Some (d, q) \<Rightarrow> do {
                  r \<leftarrow> (if marker < 1 then base64_put d q sz (ucast (val AND 0xff)) else Some (Some (d, q)));
                  case r of None \<Rightarrow> Some (d, -1)
                  | Some (d, q) \<Rightarrow> base64_decode_loop (drop 4 s) d q sz } } })
      else Some (d, q))"
  by pat_completeness auto
termination by (relation "measure (\<lambda>(s, d, q, sz). length s)") auto

text \<open>The result is the output block and the return value.\<close>

definition openvpn_base64_decode :: "byte list \<Rightarrow> byte list \<Rightarrow> int \<Rightarrow> (byte list \<times> int) option" where
  "openvpn_base64_decode s d sz = base64_decode_loop s d 0 sz"

declare base64_encode_loop.simps [simp del] base64_decode_loop.simps [simp del]

section \<open>The alphabet\<close>

lemma base64_chars_list: "base64_chars = map word_of_nat ([65..<91] @ [97..<123] @ [48..<58] @ [43, 47])"
  by code_simp

lemma length_base64_chars: "length base64_chars = 64" by code_simp

lemma word_of_nat_byte_inj: "inj_on (word_of_nat :: nat \<Rightarrow> byte) {..<256}"
proof (rule inj_onI)
  fix x y :: nat assume "x \<in> {..<256}" "y \<in> {..<256}" "(word_of_nat x :: byte) = word_of_nat y"
  then have "unat (word_of_nat x :: byte) = unat (word_of_nat y :: byte)" "x < 256" "y < 256" by simp_all
  then show "x = y" by (simp add: unat_of_nat)
qed

lemma base64_chars_distinct: "distinct base64_chars"
proof -
  let ?ns = "[65..<91] @ [97..<123] @ [48..<58] @ [43, 47 :: nat]"
  have "distinct ?ns" by simp
  moreover have "inj_on (word_of_nat :: nat \<Rightarrow> byte) (set ?ns)"
    by (rule inj_on_subset[OF word_of_nat_byte_inj]) auto
  ultimately show ?thesis unfolding base64_chars_list by (simp only: distinct_map)
qed

lemma base64_chars_special: "B64_PAD \<notin> set base64_chars" "0 \<notin> set base64_chars"
proof -
  have B: "B64_PAD = word_of_nat 61" by code_simp
  have "word_of_nat k \<notin> set base64_chars" if "k < 256" "k \<notin> set ([65..<91] @ [97..<123] @ [48..<58] @ [43, 47 :: nat])" for k
  proof
    let ?ns = "[65..<91] @ [97..<123] @ [48..<58] @ [43, 47 :: nat]"
    assume "word_of_nat k \<in> set base64_chars"
    then obtain n where n: "n \<in> set ?ns" "(word_of_nat k :: byte) = word_of_nat n"
      unfolding base64_chars_list set_map by blast
    have "n \<in> {..<256}" using n(1) by auto
    then have "k = n" using inj_onD[OF word_of_nat_byte_inj n(2)] that(1) by simp
    then show False using that(2) n(1) by blast
  qed
  from this[of 61] this[of 0] show "B64_PAD \<notin> set base64_chars" "0 \<notin> set base64_chars" by (simp_all add: B)
qed

lemma pos_loop_nth: "distinct xs \<Longrightarrow> i < length xs \<Longrightarrow> pos_loop (xs ! i) xs k = k + int i"
  by (induction xs arbitrary: i k) (auto simp: nth_Cons split: nat.splits)

lemma pos_loop_range: "pos_loop c xs k = -1 \<or> k \<le> pos_loop c xs k \<and> pos_loop c xs k < k + int (length xs)"
proof (induction xs arbitrary: k)
  case (Cons x xs)
  from Cons.IH[of "k + 1"] show ?case by (cases "x = c") (simp_all, linarith)
qed simp

lemma pos_base64_chars:
  assumes i: "i < 64"
  shows "pos (base64_chars ! i) = int i" "base64_chars ! i \<noteq> B64_PAD" "base64_chars ! i \<noteq> 0"
proof -
  from i have "base64_chars ! i \<in> set base64_chars" by (intro nth_mem) (simp add: length_base64_chars)
  then show "pos (base64_chars ! i) = int i" "base64_chars ! i \<noteq> B64_PAD" "base64_chars ! i \<noteq> 0"
    using i base64_chars_special pos_loop_nth[OF base64_chars_distinct, of i 0] length_base64_chars
    unfolding pos_def by (simp, metis, metis)
qed

section \<open>One token\<close>

text \<open>The four characters of a group of at most three bytes, as an arithmetic function.\<close>

definition b64_char :: "nat \<Rightarrow> nat \<Rightarrow> byte" where
  "b64_char c k = base64_chars ! (c div 64 ^ k mod 64)"

definition b64_value :: "byte list \<Rightarrow> nat" where
  "b64_value bs = unat (bs ! 0) * 65536 + (if length bs > 1 then unat (bs ! 1) else 0) * 256 +
     (if length bs > 2 then unat (bs ! 2) else 0)"

definition b64_token :: "byte list \<Rightarrow> byte list" where
  "b64_token bs = [b64_char (b64_value bs) 3, b64_char (b64_value bs) 2,
     if length bs > 1 then b64_char (b64_value bs) 1 else B64_PAD,
     if length bs > 2 then b64_char (b64_value bs) 0 else B64_PAD]"

lemma sextet: "unat (drop_bit k (c AND push_bit k (mask 6)) :: u32) = unat c div 2 ^ k mod 64"
proof -
  have "drop_bit k (c AND push_bit k (mask 6)) = take_bit 6 (drop_bit k c)"
    by (rule bit_word_eqI) (auto simp: bit_simps dest: bit_imp_le_length)
  then have "unat (drop_bit k (c AND push_bit k (mask 6))) = take_bit 6 (drop_bit k (unat c))"
    using unat_less_2p[of c] by (simp add: unsigned_take_bit_eq unsigned_drop_bit_eq take_bit_nat_eq_self)
  then show ?thesis by (simp add: take_bit_eq_mod drop_bit_eq_div)
qed

lemma unat_24:
  "unat (push_bit 8 (push_bit 8 (ucast (a :: byte)) + ucast b) + ucast c :: u32) = unat a * 65536 + unat b * 256 + unat c"
  for b c :: byte
proof -
  have lt: "unat a < 256" "unat b < 256" "unat c < 256"
    using unat_less_2p[of a] unat_less_2p[of b] unat_less_2p[of c] by simp_all
  have u: "unat (ucast x :: u32) = unat x" for x :: byte
    using unat_less_2p[of x] by (simp add: unsigned_ucast_eq take_bit_nat_eq_self)
  have p: "unat (push_bit 8 x :: u32) = unat x * 256" if "unat x < 2 ^ 24" for x :: u32
    using that by (simp add: push_bit_eq_mult unat_word_ariths)
  have 1: "unat (push_bit 8 (ucast a) + ucast b :: u32) = unat a * 256 + unat b"
    using lt p[of "ucast a"] by (simp add: unat_word_ariths u)
  show ?thesis using lt p[of "push_bit 8 (ucast a) + ucast b"] 1
    by (simp add: unat_word_ariths(1)[of "push_bit 8 (push_bit 8 (ucast a) + ucast b)"] u)
qed

lemma unat_16: "unat (push_bit 8 (push_bit 8 (ucast (a :: byte)) + ucast b) :: u32) = unat a * 65536 + unat b * 256"
  for b :: byte
  using unat_24[of a b 0] by simp

lemma unat_8: "unat (push_bit 8 (push_bit 8 (ucast (a :: byte))) :: u32) = unat a * 65536"
  using unat_24[of a 0 0] by simp

lemma sextet_masks:
  "(0x00fc0000 :: u32) = push_bit 18 (mask 6)" "(0x0003f000 :: u32) = push_bit 12 (mask 6)"
  "(0x00000fc0 :: u32) = push_bit 6 (mask 6)" "(0x0000003f :: u32) = push_bit 0 (mask 6)"
  by (code_simp)+

lemma base64_quad_eq:
  assumes "unat c = v"
  shows "base64_quad c = [b64_char v 3, b64_char v 2, b64_char v 1, b64_char v 0]"
  unfolding base64_quad_def sextet_masks sextet assms b64_char_def by simp

section \<open>The encoder\<close>

fun b64_of :: "byte list \<Rightarrow> byte list" where
  "b64_of [] = []"
| "b64_of [x] = b64_token [x]"
| "b64_of [x, y] = b64_token [x, y]"
| "b64_of (x # y # z # q) = b64_token [x, y, z] @ b64_of q"

lemma b64_of_step: "q \<noteq> [] \<Longrightarrow> b64_of q = b64_token (take 3 q) @ b64_of (drop 3 q)"
  by (cases q rule: b64_of.cases) (simp_all add: numeral_eq_Suc)

lemma length_b64_token [simp]: "length (b64_token bs) = 4"
  by (simp add: b64_token_def)

lemma length_b64_of: "length (b64_of q) = 4 * ((length q + 2) div 3)"
  by (induction q rule: b64_of.induct) (simp_all, presburger)

lemma base64_encode_step:
  assumes "i < length q" "0 \<le> p" "p + 4 \<le> int (length d)"
  shows "base64_encode_loop q i d p =
    base64_encode_loop q (i + 3) (take (nat p) d @ b64_token (take 3 (drop i q)) @ drop (nat p + 4) d) (p + 4)"
proof -
  let ?n = "length q - i"
  obtain a where a: "q ! i = a" by simp
  define t where "t = take 3 (drop i q)"
  have t0: "t ! 0 = q ! i" using assms(1) by (simp add: t_def)
  have wr: "mem_write d p xs = Some (take (nat p) d @ xs @ drop (nat p + 4) d)" if "length xs = 4" for xs
    using that assms by (simp add: mem_write_def)
  have pad: "mem_write (take (nat p) d @ [x0, x1, x2, x3] @ drop (nat p + 4) d) (p + 3) [y] =
      Some (take (nat p) d @ [x0, x1, x2, y] @ drop (nat p + 4) d)" for x0 x1 x2 x3 y
    using mem_write_mid[of "[x3]" "[y]" "p + 3" "take (nat p) d @ [x0, x1, x2]" "drop (nat p + 4) d"] assms by simp
  have pad2: "mem_write (take (nat p) d @ [x0, x1, x2, x3] @ drop (nat p + 4) d) (p + 2) [y] =
      Some (take (nat p) d @ [x0, x1, y, x3] @ drop (nat p + 4) d)" for x0 x1 x2 x3 y
    using mem_write_mid[of "[x2]" "[y]" "p + 2" "take (nat p) d @ [x0, x1]" "[x3] @ drop (nat p + 4) d"] assms by simp
  consider "?n = 1" | "?n = 2" | "?n \<ge> 3" using assms(1) by linarith
  then show ?thesis
  proof cases
    case 1
    then have len: "length t = 1" "\<not> i + 1 < length q" "\<not> i + 1 + 1 < length q" by (auto simp: t_def)
    then have v: "b64_value t = unat (q ! i) * 65536" using t0 by (simp add: b64_value_def)
    show ?thesis unfolding t_def[symmetric]
      by (subst base64_encode_loop.simps)
        (use assms(1) len v 1 in \<open>simp add: Let_def base64_quad_eq[OF unat_8] wr pad[simplified] pad2[simplified] b64_token_def numeral_3_eq_3 del: push_bit_push_bit\<close>)
  next
    case 2
    then have len: "length t = 2" "i + 1 < length q" "\<not> i + 1 + 1 < length q" "t ! 1 = q ! (i + 1)" by (auto simp: t_def)
    then have v: "b64_value t = unat (q ! i) * 65536 + unat (q ! (i + 1)) * 256" using t0 by (simp add: b64_value_def)
    show ?thesis unfolding t_def[symmetric]
      by (subst base64_encode_loop.simps)
        (use assms(1) len v 2 in \<open>simp add: Let_def base64_quad_eq[OF unat_16] wr pad[simplified] b64_token_def numeral_3_eq_3 del: push_bit_push_bit\<close>)
  next
    case 3
    then have len: "length t = 3" "i + 1 < length q" "i + 1 + 1 < length q" "t ! 1 = q ! (i + 1)" "t ! 2 = q ! (i + 1 + 1)"
      by (auto simp: t_def)
    then have v: "b64_value t = unat (q ! i) * 65536 + unat (q ! (i + 1)) * 256 + unat (q ! (i + 1 + 1))"
      using t0 by (simp add: b64_value_def)
    show ?thesis unfolding t_def[symmetric]
      by (subst base64_encode_loop.simps)
        (use assms(1) len v 3 in \<open>simp add: Let_def base64_quad_eq[OF unat_24] wr b64_token_def numeral_3_eq_3 del: push_bit_push_bit\<close>)
  qed
qed

lemma base64_encode_loop_ok:
  assumes "length pre + length (b64_of (drop i q)) \<le> length d" "take (length pre) d = pre"
  shows "\<exists>rest. base64_encode_loop q i d (int (length pre)) =
      Some (pre @ b64_of (drop i q) @ rest, int (length pre + length (b64_of (drop i q)))) \<and>
    length pre + length (b64_of (drop i q)) + length rest = length d"
  using assms
proof (induction "length q - i" arbitrary: i d pre rule: less_induct)
  case less
  show ?case
  proof (cases "i < length q")
    case False
    then have "base64_encode_loop q i d (int (length pre)) = Some (d, int (length pre))" "drop i q = []"
      by (simp_all add: base64_encode_loop.simps)
    then show ?thesis using less.prems by (intro exI[of _ "drop (length pre) d"]) (simp, metis append_take_drop_id)
  next
    case True
    let ?t = "b64_token (take 3 (drop i q))"
    have st: "b64_of (drop i q) = ?t @ b64_of (drop (i + 3) q)"
      using b64_of_step[of "drop i q"] True by (simp add: add.commute)
    have len: "length pre + 4 \<le> length d" using less.prems(1) unfolding st by simp
    let ?d = "(pre @ ?t) @ drop (length pre + 4) d"
    have e: "base64_encode_loop q i d (int (length pre)) = base64_encode_loop q (i + 3) ?d (int (length (pre @ ?t)))"
      using base64_encode_step[OF True, of "int (length pre)" d] len less.prems(2) by simp
    have "length (pre @ ?t) + length (b64_of (drop (i + 3) q)) \<le> length ?d" "take (length (pre @ ?t)) ?d = pre @ ?t"
      using less.prems(1) len unfolding st by simp_all
    moreover have "length q - (i + 3) < length q - i" using True by simp
    ultimately obtain rest where
      "base64_encode_loop q (i + 3) ?d (int (length (pre @ ?t))) =
        Some ((pre @ ?t) @ b64_of (drop (i + 3) q) @ rest, int (length (pre @ ?t) + length (b64_of (drop (i + 3) q))))"
      "length (pre @ ?t) + length (b64_of (drop (i + 3) q)) + length rest = length ?d"
      using less.hyps[of "i + 3" "pre @ ?t" ?d] by blast
    then show ?thesis unfolding e st using len by (intro exI[of _ rest]) simp
  qed
qed

lemma b64_chars_nonzero: "0 \<notin> set (b64_of q)"
proof -
  have "0 \<notin> set (b64_token bs)" for bs
    using pos_base64_chars(3) by (auto simp: b64_token_def b64_char_def) (simp_all add: B64_PAD_def)
  then show ?thesis by (induction q rule: b64_of.induct) auto
qed

lemma openvpn_base64_encode_eq:
  assumes "length q * 4 div 3 + 4 \<le> 2147483647"
  shows "openvpn_base64_encode junk q = Some (int (length (b64_of q)), Some (b64_of q))"
proof -
  let ?n = "length q * 4 div 3 + 4" and ?s = "b64_of q"
  let ?d = "map junk [0..<?n]"
  have len: "length ?s + 1 \<le> ?n" unfolding length_b64_of by presburger
  then obtain rest where r: "base64_encode_loop q 0 ?d 0 = Some (?s @ rest, int (length ?s))" "length ?s + length rest = ?n"
    using base64_encode_loop_ok[of "[]" 0 q ?d] by auto
  then obtain x xs where rest: "rest = x # xs" using len by (cases rest) auto
  have "mem_write (?s @ rest) (int (length ?s)) [0] = Some (?s @ 0 # xs)"
    unfolding rest using mem_write_mid[of "[x]" "[0]" "int (length ?s)" ?s xs] by simp
  then show ?thesis using assms r(1) by (simp add: openvpn_base64_encode_def Let_def c_str_append b64_chars_nonzero)
qed

section \<open>The decoder\<close>

lemma pos_negative: "pos c < 0 \<longleftrightarrow> pos c = -1" and pos_less: "pos c < 64"
  using pos_loop_range[of c base64_chars 0] length_base64_chars by (auto simp: pos_def)

text \<open>The decoded value of a token the encoder produced.\<close>

lemma sextet_add: "unat v < 2 ^ 24 \<Longrightarrow> k < 64 \<Longrightarrow>
    unat (push_bit 6 v + word_of_int (pos (base64_chars ! k)) :: u32) = unat v * 64 + k"
  by (simp add: push_bit_eq_mult unat_word_ariths pos_base64_chars(1) unat_of_nat)

lemma unat_push6: "unat v < 2 ^ 24 \<Longrightarrow> unat (push_bit 6 v :: u32) = unat v * 64"
  by (simp add: push_bit_eq_mult unat_word_ariths)

lemma pos_nonneg: "k < 64 \<Longrightarrow> \<not> pos (base64_chars ! k) < 0"
  by (simp add: pos_base64_chars(1))

definition b64_marker :: "byte list \<Rightarrow> u32" where
  "b64_marker bs = (if length bs > 2 then 0 else if length bs > 1 then 1 else 2)"

lemma b64_value_less: "b64_value bs < 2 ^ 24"
  using unat_less_2p[of "bs ! 0"] unat_less_2p[of "bs ! 1"] unat_less_2p[of "bs ! 2"]
  by (auto simp: b64_value_def)

lemma token_decode_token:
  assumes "0 < length bs" "length bs \<le> 3"
  shows "\<exists>v. token_decode (b64_token bs @ s) = push_bit 24 (b64_marker bs) OR v \<and> unat v = b64_value bs"
proof -
  let ?v = "b64_value bs"
  define a b c e where abce: "a = ?v div 262144 mod 64" "b = ?v div 4096 mod 64" "c = ?v div 64 mod 64" "e = ?v mod 64"
  have lt: "a < 64" "b < 64" "c < 64" "e < 64" by (simp_all add: abce)
  have ch: "b64_char ?v 3 = base64_chars ! a" "b64_char ?v 2 = base64_chars ! b" "b64_char ?v 1 = base64_chars ! c"
    "b64_char ?v 0 = base64_chars ! e" by (simp_all add: b64_char_def abce)
  note st = pos_base64_chars(2)[OF lt(1)] pos_base64_chars(2)[OF lt(2)] pos_base64_chars(2)[OF lt(3)] pos_base64_chars(2)[OF lt(4)]
    pos_nonneg[OF lt(1)] pos_nonneg[OF lt(2)] pos_nonneg[OF lt(3)] pos_nonneg[OF lt(4)]
  define w1 where "w1 = (push_bit 6 0 + word_of_int (pos (base64_chars ! a)) :: u32)"
  define w2 where "w2 = (push_bit 6 w1 + word_of_int (pos (base64_chars ! b)) :: u32)"
  have u1: "unat w1 = a" unfolding w1_def using sextet_add[of 0 a] lt by simp
  have u2: "unat w2 = a * 64 + b" unfolding w2_def using sextet_add[of w1 b] u1 lt by simp
  have v24: "?v < 2 ^ 24" by (rule b64_value_less)
  have u2v: "a * 64 + b = ?v div 4096"
  proof -
    have "?v div 4096 = ?v div 4096 div 64 * 64 + ?v div 4096 mod 64" by simp
    moreover have "?v div 4096 div 64 = ?v div 262144" by (simp add: div_mult2_eq[symmetric])
    moreover have "?v div 262144 < 64" using v24 by (simp add: less_mult_imp_div_less)
    ultimately show ?thesis by (simp add: abce)
  qed
  consider "length bs = 1" | "length bs = 2" | "length bs = 3" using assms by linarith
  then show ?thesis
  proof cases
    case 1
    have "token_decode (b64_token bs @ s) = push_bit 24 2 OR push_bit 6 (push_bit 6 w2)"
      unfolding token_decode_def b64_token_def ch using 1 st by (simp add: Let_def w1_def w2_def del: push_bit_push_bit)
    moreover have "unat (push_bit 6 (push_bit 6 w2)) = ?v"
    proof -
      have "?v div 4096 * 4096 = ?v" using 1 by (simp add: b64_value_def)
      then show ?thesis using u2 u2v v24 unat_push6[of w2] unat_push6[of "push_bit 6 w2"] by simp
    qed
    ultimately show ?thesis using 1 by (auto simp: b64_marker_def)
  next
    case 2
    define w3 where "w3 = (push_bit 6 w2 + word_of_int (pos (base64_chars ! c)) :: u32)"
    have "token_decode (b64_token bs @ s) = push_bit 24 1 OR push_bit 6 w3"
      unfolding token_decode_def b64_token_def ch using 2 st by (simp add: Let_def w1_def w2_def w3_def del: push_bit_push_bit)
    moreover have "unat (push_bit 6 w3) = ?v"
    proof -
      have "?v div 64 = ?v div 64 div 64 * 64 + c" by (simp add: abce)
      moreover have "?v div 64 div 64 = ?v div 4096" by (simp add: div_mult2_eq[symmetric])
      moreover have "?v div 64 * 64 = ?v" using 2 by (simp add: b64_value_def)
      moreover have "unat w3 = ?v div 4096 * 64 + c"
        unfolding w3_def using sextet_add[of w2 c] u2 u2v v24 lt(3) by simp
      ultimately show ?thesis using v24 unat_push6[of w3] by simp
    qed
    ultimately show ?thesis using 2 by (auto simp: b64_marker_def)
  next
    case 3
    define w3 where "w3 = (push_bit 6 w2 + word_of_int (pos (base64_chars ! c)) :: u32)"
    define w4 where "w4 = (push_bit 6 w3 + word_of_int (pos (base64_chars ! e)) :: u32)"
    have "token_decode (b64_token bs @ s) = push_bit 24 0 OR w4"
      unfolding token_decode_def b64_token_def ch using 3 st
      by (simp add: Let_def w1_def w2_def w3_def w4_def del: push_bit_push_bit)
    moreover have "unat w4 = ?v"
    proof -
      have "?v div 64 = ?v div 64 div 64 * 64 + c" "?v = ?v div 64 * 64 + e" by (simp_all add: abce)
      moreover have "?v div 64 div 64 = ?v div 4096" by (simp add: div_mult2_eq[symmetric])
      moreover have "unat w3 = ?v div 4096 * 64 + c"
        unfolding w3_def using sextet_add[of w2 c] u2 u2v v24 lt(3) by simp
      ultimately show ?thesis using v24 unfolding w4_def using sextet_add[of w3 e] lt(4) by simp
    qed
    ultimately show ?thesis using 3 by (auto simp: b64_marker_def)
  qed
qed

lemma token_value:
  assumes "unat v < 2 ^ 24" "unat m < 3"
  shows "unat (push_bit 24 m OR v :: u32) = unat m * 2 ^ 24 + unat v"
proof -
  have "push_bit 24 m AND v = 0"
  proof (rule bit_word_eqI)
    fix n assume "n < LENGTH(32)"
    have "\<not> bit v n" if "24 \<le> n"
    proof -
      have "unat v < 2 ^ n" using assms(1) that by (meson le_trans not_le one_le_numeral power_increasing order.strict_trans2)
      then have "\<not> bit (unat v) n" by (simp add: bit_iff_odd)
      then show ?thesis by (simp add: bit_unsigned_iff)
    qed
    then show "bit (push_bit 24 m AND v) n = bit 0 n" by (auto simp: bit_simps)
  qed
  then have "push_bit 24 m OR v = push_bit 24 m + v" by (simp add: disjunctive_add_eq_or)
  then show ?thesis using assms by (simp add: push_bit_eq_mult unat_word_ariths)
qed

lemma unat_and_ff: "unat (drop_bit k (x :: u32) AND 0xff) = unat x div 2 ^ k mod 256"
proof -
  have ff: "(0xff :: u32) = mask 8" by code_simp
  have "unat (drop_bit k x) = unat x div 2 ^ k"
    using unat_less_2p[of x] by (simp add: unsigned_drop_bit_eq take_bit_nat_eq_self flip: drop_bit_eq_div)
  moreover have "unat (take_bit 8 w) = unat w mod 256" for w :: u32
    unfolding unsigned_take_bit_eq by (simp add: take_bit_eq_mod)
  ultimately show ?thesis unfolding ff take_bit_eq_mask[symmetric] by simp
qed

lemma byte_of_and: "(ucast (drop_bit k x AND 0xff) :: byte) = word_of_nat (unat (x :: u32) div 2 ^ k)"
proof -
  have "unat (ucast w :: byte) = unat w mod 256" for w :: u32
    by (simp add: unsigned_ucast_eq take_bit_eq_mod)
  then have "unat (ucast (drop_bit k x AND 0xff) :: byte) = unat x div 2 ^ k mod 256" by (simp only: unat_and_ff mod_mod_trivial)
  then show ?thesis by (simp add: word_unat_eq_iff unat_of_nat)
qed

lemma marker_of:
  assumes "unat v < 2 ^ 24" "unat m < 3"
  shows "drop_bit 24 (push_bit 24 m OR v :: u32) AND 0xff = m"
proof -
  have "unat (drop_bit 24 (push_bit 24 m OR v :: u32) AND 0xff) = (unat m * 2 ^ 24 + unat v) div 2 ^ 24 mod 256"
    unfolding unat_and_ff token_value[OF assms] ..
  also have "\<dots> = unat m" using assms by simp
  finally show ?thesis by (simp only: word_unat_eq_iff)
qed

lemma byte_digits:
  fixes x y z m :: nat
  assumes "x < 256" "y < 256" "z < 256"
  shows "(m * 16777216 + (x * 65536 + y * 256 + z)) div 65536 mod 256 = x"
    "(m * 16777216 + (x * 65536 + y * 256 + z)) div 256 mod 256 = y"
    "(m * 16777216 + (x * 65536 + y * 256 + z)) mod 256 = z"
proof -
  have "(m * 16777216 + (x * 65536 + y * 256 + z)) div 65536 = m * 256 + x"
    by (rule div_nat_eqI) (use assms in simp_all)
  then show "(m * 16777216 + (x * 65536 + y * 256 + z)) div 65536 mod 256 = x" using assms by simp
  have "(m * 16777216 + (x * 65536 + y * 256 + z)) div 256 = (m * 256 + x) * 256 + y"
    by (rule div_nat_eqI) (use assms in simp_all)
  then show "(m * 16777216 + (x * 65536 + y * 256 + z)) div 256 mod 256 = y" using assms by (simp only: mod_mult_self3 mod_less)
  have "m * 16777216 + (x * 65536 + y * 256 + z) = ((m * 256 + x) * 256 + y) * 256 + z" by simp
  then show "(m * 16777216 + (x * 65536 + y * 256 + z)) mod 256 = z" using assms by (simp only: mod_mult_self3 mod_less)
qed

lemma word_of_nat_mod_byte: "x mod 256 = unat b \<Longrightarrow> (word_of_nat x :: byte) = b"
  by (simp add: word_unat_eq_iff unat_of_nat)

lemma token_bytes:
  assumes "0 < length bs" "length bs \<le> 3" "unat v = b64_value bs"
  defines "val \<equiv> push_bit 24 (b64_marker bs) OR v"
  shows "(ucast (drop_bit 16 val AND 0xff) :: byte) = bs ! 0"
    "1 < length bs \<Longrightarrow> (ucast (drop_bit 8 val AND 0xff) :: byte) = bs ! 1"
    "2 < length bs \<Longrightarrow> (ucast (val AND 0xff) :: byte) = bs ! 2"
    "val \<noteq> DECODE_ERROR" "drop_bit 24 val AND 0xff = b64_marker bs"
proof -
  have v: "unat v < 2 ^ 24" using assms(3) b64_value_less by simp
  have m: "unat (b64_marker bs) < 3" by (simp add: b64_marker_def)
  have val: "unat val = unat (b64_marker bs) * 2 ^ 24 + b64_value bs"
    unfolding val_def token_value[OF v m] assms(3) ..
  have lt: "unat (bs ! 0) < 256" "unat (bs ! 1) < 256" "unat (bs ! 2) < 256"
    using unat_less_2p[of "bs ! 0"] unat_less_2p[of "bs ! 1"] unat_less_2p[of "bs ! 2"] by simp_all
  let ?m = "unat (b64_marker bs)"
  have val3: "unat val = ?m * 16777216 + (unat (bs ! 0) * 65536 + (if 1 < length bs then unat (bs ! 1) else 0) * 256 +
      (if 2 < length bs then unat (bs ! 2) else 0))" unfolding val b64_value_def by simp
  have lt': "(if 1 < length bs then unat (bs ! 1) else 0) < 256" "(if 2 < length bs then unat (bs ! 2) else 0) < 256"
    using lt by simp_all
  note dg = byte_digits[OF lt(1) lt', of ?m, folded val3]
  have "unat val div 65536 mod 256 = unat (bs ! 0)" by (rule dg(1))
  then show "(ucast (drop_bit 16 val AND 0xff) :: byte) = bs ! 0"
    unfolding byte_of_and by (intro word_of_nat_mod_byte) simp
  show "(ucast (drop_bit 8 val AND 0xff) :: byte) = bs ! 1" if "1 < length bs"
  proof -
    have "unat val div 256 mod 256 = unat (bs ! 1)" using dg(2) that by simp
    then show ?thesis unfolding byte_of_and by (intro word_of_nat_mod_byte) simp
  qed
  show "(ucast (val AND 0xff) :: byte) = bs ! 2" if "2 < length bs"
  proof -
    have "unat val mod 256 = unat (bs ! 2)" using dg(3) that by simp
    then have "(word_of_nat (unat val div 2 ^ 0) :: byte) = bs ! 2" by (intro word_of_nat_mod_byte) simp
    then show ?thesis using byte_of_and[of 0 val] by simp
  qed
  have "unat val < 3 * 2 ^ 24" unfolding val using m b64_value_less[of bs] by simp
  then show "val \<noteq> DECODE_ERROR" by (auto simp: DECODE_ERROR_def)
  show "drop_bit 24 val AND 0xff = b64_marker bs" unfolding val_def by (rule marker_of[OF v m])
qed

lemma base64_put_ok:
  assumes "length pre < length d" "sz < 0 \<or> int (length pre) < sz" "take (length pre) d = pre"
  shows "base64_put d (int (length pre)) sz x =
    Some (Some (pre @ [x] @ drop (length pre + 1) d, int (length (pre @ [x]))))"
  using assms by (auto simp: base64_put_def mem_write_def)

lemma base64_decode_step:
  assumes bs: "0 < length bs" "length bs \<le> 3" and room: "length pre + length bs \<le> length d"
    "sz < 0 \<or> int (length pre + length bs) \<le> sz" and pre: "take (length pre) d = pre"
  shows "base64_decode_loop (b64_token bs @ s) d (int (length pre)) sz =
    base64_decode_loop s (pre @ bs @ drop (length pre + length bs) d) (int (length (pre @ bs))) sz"
proof -
  obtain v where v: "token_decode (b64_token bs @ s) = push_bit 24 (b64_marker bs) OR v" "unat v = b64_value bs"
    using token_decode_token[OF bs] by blast
  let ?val = "push_bit 24 (b64_marker bs) OR v"
  note tb = token_bytes[OF bs v(2)]
  have hd: "(b64_token bs @ s) ! 0 \<in> set base64_chars" "b64_token bs @ s \<noteq> []" "drop 4 (b64_token bs @ s) = s"
    by (auto simp: b64_token_def b64_char_def length_base64_chars intro!: nth_mem)
  let ?d1 = "pre @ [bs ! 0] @ drop (length pre + 1) d"
  have p1: "base64_put d (int (length pre)) sz (bs ! 0) = Some (Some (?d1, int (length (pre @ [bs ! 0]))))"
  proof (rule base64_put_ok)
    show "length pre < length d" "sz < 0 \<or> int (length pre) < sz" using room bs by linarith+
  qed (rule pre)
  let ?d2 = "(pre @ [bs ! 0]) @ [bs ! 1] @ drop (length (pre @ [bs ! 0]) + 1) ?d1"
  have p2: "base64_put ?d1 (int (length (pre @ [bs ! 0]))) sz (bs ! 1) =
      Some (Some (?d2, int (length ((pre @ [bs ! 0]) @ [bs ! 1]))))" if "1 < length bs"
    using room that pre by (intro base64_put_ok) auto
  let ?d3 = "((pre @ [bs ! 0]) @ [bs ! 1]) @ [bs ! 2] @ drop (length ((pre @ [bs ! 0]) @ [bs ! 1]) + 1) ?d2"
  have p3: "base64_put ?d2 (int (length ((pre @ [bs ! 0]) @ [bs ! 1]))) sz (bs ! 2) =
      Some (Some (?d3, int (length (((pre @ [bs ! 0]) @ [bs ! 1]) @ [bs ! 2]))))" if "2 < length bs"
    using room that pre by (intro base64_put_ok) auto
  consider "length bs = 1" | "length bs = 2" | "length bs = 3" using bs by linarith
  then show ?thesis
  proof cases
    case 1
    then obtain x where x: "bs = [x]" by (auto simp: length_Suc_conv)
    have m: "b64_marker bs = 2" using 1 by (simp add: b64_marker_def)
    show ?thesis
      apply (subst base64_decode_loop.simps)
      unfolding v(1) Let_def tb(1) tb(5)
      using hd tb(4) p1 x m by simp
  next
    case 2
    then obtain x y where x: "bs = [x, y]" by (auto simp: length_Suc_conv numeral_2_eq_2)
    have m: "b64_marker bs = 1" using 2 by (simp add: b64_marker_def)
    have t2: "1 < length bs" using 2 by simp
    show ?thesis
      apply (subst base64_decode_loop.simps)
      unfolding v(1) Let_def tb(1) tb(5) tb(2)[OF t2]
      using hd tb(4) p1 p2[OF t2] x m by simp
  next
    case 3
    then obtain x y z where x: "bs = [x, y, z]" by (auto simp: length_Suc_conv numeral_3_eq_3)
    have m: "b64_marker bs = 0" using 3 by (simp add: b64_marker_def)
    have t2: "1 < length bs" "2 < length bs" using 3 by simp_all
    show ?thesis
      apply (subst base64_decode_loop.simps)
      unfolding v(1) Let_def tb(1) tb(5) tb(2)[OF t2(1)] tb(3)[OF t2(2)]
      using hd tb(4) p1 p2[OF t2(1)] p3[OF t2(2)] x m by (simp add: numeral_eq_Suc)
  qed
qed

lemma base64_decode_of:
  assumes "length pre + length q \<le> length d" "sz < 0 \<or> int (length pre + length q) \<le> sz" "take (length pre) d = pre"
  shows "base64_decode_loop (b64_of q) d (int (length pre)) sz =
    Some (pre @ q @ drop (length pre + length q) d, int (length pre + length q))"
  using assms
proof (induction q arbitrary: pre d rule: b64_of.induct)
  case 1
  then show ?case by (subst base64_decode_loop.simps) (simp, metis append_take_drop_id)
next
  case (2 x)
  have "base64_decode_loop (b64_token [x] @ []) d (int (length pre)) sz =
      base64_decode_loop [] (pre @ [x] @ drop (length pre + length [x]) d) (int (length (pre @ [x]))) sz"
    by (rule base64_decode_step) (use 2 in simp_all)
  then show ?case by (simp add: base64_decode_loop.simps)
next
  case (3 x y)
  have "base64_decode_loop (b64_token [x, y] @ []) d (int (length pre)) sz =
      base64_decode_loop [] (pre @ [x, y] @ drop (length pre + length [x, y]) d) (int (length (pre @ [x, y]))) sz"
    by (rule base64_decode_step) (use 3 in simp_all)
  then show ?case by (simp add: base64_decode_loop.simps)
next
  case (4 x y z q)
  let ?t = "[x, y, z]"
  have "base64_decode_loop (b64_of (x # y # z # q)) d (int (length pre)) sz =
      base64_decode_loop (b64_of q) (pre @ ?t @ drop (length pre + length ?t) d) (int (length (pre @ ?t))) sz"
    unfolding b64_of.simps by (rule base64_decode_step) (use 4 in auto)
  also have "\<dots> = Some ((pre @ ?t) @ q @ drop (length (pre @ ?t) + length q) (pre @ ?t @ drop (length pre + length ?t) d),
      int (length (pre @ ?t) + length q))"
    by (rule 4) (use 4 in simp_all)
  finally show ?case by (simp add: add.commute add.left_commute numeral_3_eq_3)
qed

text \<open>The decoder on arbitrary input.\<close>

lemma base64_put_total:
  assumes "0 \<le> q" "q \<le> sz" "sz \<le> int (length d)"
  shows "base64_put d q sz x = Some None \<and> q = sz \<or>
    (\<exists>d'. base64_put d q sz x = Some (Some (d', q + 1)) \<and> length d' = length d \<and> q + 1 \<le> sz)"
  using assms by (auto simp: base64_put_def mem_write_def)

lemma base64_decode_loop_total:
  assumes "0 \<le> q" "q \<le> sz" "sz \<le> int (length d)"
  shows "\<exists>d' r. base64_decode_loop s d q sz = Some (d', r) \<and> length d' = length d \<and> (r = -1 \<or> q \<le> r \<and> r \<le> sz)"
  using assms
proof (induction "length s" arbitrary: s d q rule: less_induct)
  case less
  show ?case
  proof (cases "s \<noteq> [] \<and> (s ! 0 = B64_PAD \<or> s ! 0 \<in> set base64_chars)")
    case False
    then show ?thesis using less.prems by (subst base64_decode_loop.simps) auto
  next
    case True
    define val where "val = token_decode s"
    define marker where "marker = drop_bit 24 val AND 0xff"
    let ?b0 = "ucast (drop_bit 16 val AND 0xff) :: byte" and ?b1 = "ucast (drop_bit 8 val AND 0xff) :: byte"
      and ?b2 = "ucast (val AND 0xff) :: byte"
    note unf = base64_decode_loop.simps[of s, unfolded if_P[OF True] Let_def, folded val_def, folded marker_def]
    have short: "length (drop 4 s) < length s" using True by (cases s) auto
    show ?thesis
    proof (cases "val = DECODE_ERROR")
      case True
      then show ?thesis by (subst unf) simp
    next
      case nerr: False
      consider "base64_put d q sz ?b0 = Some None"
        | d1 where "base64_put d q sz ?b0 = Some (Some (d1, q + 1))" "length d1 = length d" "q + 1 \<le> sz"
        using base64_put_total[OF less.prems, of ?b0] by blast
      then show ?thesis
      proof cases
        case 1
        then show ?thesis using nerr by (subst unf) simp
      next
        case d1: 2
        define r1 where "r1 = (if marker < 2 then base64_put d1 (q + 1) sz ?b1 else Some (Some (d1, q + 1)))"
        have "r1 = Some None \<or> (\<exists>d2 q2. r1 = Some (Some (d2, q2)) \<and> length d2 = length d \<and> q \<le> q2 \<and> q2 \<le> sz)"
          using base64_put_total[of "q + 1" sz d1 ?b1] d1 less.prems by (auto simp: r1_def)
        then consider "r1 = Some None" | d2 q2 where "r1 = Some (Some (d2, q2))" "length d2 = length d" "q \<le> q2" "q2 \<le> sz"
          by blast
        then show ?thesis
        proof cases
          case 1
          then show ?thesis using nerr d1 by (subst unf) (simp add: r1_def[symmetric])
        next
          case d2: 2
          define r2 where "r2 = (if marker = 0 then base64_put d2 q2 sz ?b2 else Some (Some (d2, q2)))"
          have "r2 = Some None \<or> (\<exists>d3 q3. r2 = Some (Some (d3, q3)) \<and> length d3 = length d \<and> q \<le> q3 \<and> q3 \<le> sz)"
            using base64_put_total[of q2 sz d2 ?b2] d2 less.prems by (auto simp: r2_def)
          then consider "r2 = Some None" | d3 q3 where "r2 = Some (Some (d3, q3))" "length d3 = length d" "q \<le> q3" "q3 \<le> sz"
            by blast
          then show ?thesis
          proof cases
            case 1
            then show ?thesis using nerr d1 d2 by (subst unf) (simp add: r1_def[symmetric] r2_def[symmetric])
          next
            case d3: 2
            have "base64_decode_loop s d q sz = base64_decode_loop (drop 4 s) d3 q3 sz"
              using nerr d1 d2 d3 by (subst unf) (simp add: r1_def[symmetric] r2_def[symmetric])
            moreover obtain d' r where "base64_decode_loop (drop 4 s) d3 q3 sz = Some (d', r)" "length d' = length d3"
              "r = -1 \<or> q3 \<le> r \<and> r \<le> sz"
              using less.hyps[OF short, of q3 d3] d3 less.prems by auto
            ultimately show ?thesis using d3 by (intro exI[of _ d'] exI[of _ r]) auto
          qed
        qed
      qed
    qed
  qed
qed

section \<open>Properties\<close>

text \<open>C29: Encoding any data succeeds without leaving the allocated block, and decoding the string gives
  the data back, into any buffer at least as long.\<close>

theorem base64_roundtrip:
  assumes "length q * 4 div 3 + 4 \<le> 2147483647" "length q \<le> length d"
  shows "\<exists>n str. openvpn_base64_encode junk q = Some (n, Some str) \<and> n = int (length str) \<and>
    length str = 4 * ((length q + 2) div 3) \<and>
    openvpn_base64_decode str d (int (length d)) = Some (q @ drop (length q) d, int (length q))"
  using openvpn_base64_encode_eq[OF assms(1), of junk] base64_decode_of[of "[]" q d "int (length d)"] assms(2)
  by (simp add: openvpn_base64_decode_def length_b64_of)

theorem base64_roundtrip_witness:
  "\<exists>n str. openvpn_base64_encode (\<lambda>i. 170) [104, 101, 121, 33] = Some (n, Some str) \<and> n = int (length str) \<and>
    length str = 8 \<and> openvpn_base64_decode str [0, 0, 0, 0, 5] 5 = Some ([104, 101, 121, 33, 5], 4)"
  using base64_roundtrip[of "[104, 101, 121, 33]" "[0, 0, 0, 0, 5]" "\<lambda>i. 170"] by simp

text \<open>Decoding is safe on any string: it returns, writes only inside the output block, and reports
  either an error or the number of bytes written, at most the size it was given.\<close>

theorem base64_decode_safe:
  assumes "0 \<le> sz" "sz \<le> int (length d)"
  shows "\<exists>d' r. openvpn_base64_decode s d sz = Some (d', r) \<and> length d' = length d \<and> (r = -1 \<or> 0 \<le> r \<and> r \<le> sz)"
  using base64_decode_loop_total[of 0 sz d s] assms by (simp add: openvpn_base64_decode_def)

theorem base64_decode_safe_witness:
  "\<exists>d' r. openvpn_base64_decode [81, 81, 61, 61, 81] [0, 0] 2 = Some (d', r) \<and> length d' = 2 \<and> r \<in> {-1, 0, 1, 2}"
proof -
  have "\<exists>d' r. openvpn_base64_decode [81, 81, 61, 61, 81] [0, 0] 2 = Some (d', r) \<and> length d' = length [0, 0 :: byte] \<and>
      (r = -1 \<or> 0 \<le> r \<and> r \<le> 2)"
    by (rule base64_decode_safe) simp_all
  then obtain d' r where r: "openvpn_base64_decode [81, 81, 61, 61, 81] [0, 0] 2 = Some (d', r)" "length d' = 2"
    "r = -1 \<or> 0 \<le> r \<and> r \<le> 2" by auto
  then have "r \<in> {-1, 0, 1, 2}" by auto
  then show ?thesis using r(1,2) by blast
qed

end
