(* ===== verification/Ovpn_Time.thy ===== *)
theory Ovpn_Time
  imports Ovpn_Integer
begin

unbundle bit_operations_syntax

text \<open>
  Time: the monotonic clock and the rate limiter of \<open>otime.c\<close>, the \<open>struct timeval\<close> arithmetic of
  \<open>otime.h\<close>, the timers of \<open>interval.h\<close> and \<open>interval.c\<close>, and the delays of the traffic shaper
  (\<open>shaper.h\<close>, \<open>shaper.c\<close>; the conversion of a byte count to a delay is floating point and not
  modelled).  The system clock is an argument of the operations that read it.
\<close>

section \<open>The clock\<close>

record clock =
  ck_now :: c_time
  ck_now_adj :: c_time
  ck_now_usec :: c_time

definition update_now :: "c_time \<Rightarrow> clock \<Rightarrow> clock" where
  "update_now system_time c =
     (let forward_threshold = 86400; backward_trigger = 10;
          real_time = system_time + ck_now_adj c in
      if real_time > ck_now c
      then (let overshoot = real_time - ck_now c - 1 in
        if overshoot > forward_threshold \<and> ck_now_adj c \<ge> overshoot
        then c\<lparr>ck_now_adj := ck_now_adj c - overshoot, ck_now := real_time - overshoot\<rparr>
        else c\<lparr>ck_now := real_time\<rparr>)
      else if real_time < ck_now c - backward_trigger
      then c\<lparr>ck_now_adj := ck_now_adj c + (ck_now c - real_time)\<rparr>
      else c)"

text \<open>\<open>struct timeval\<close>; assignments to a field build the value anew.\<close>

datatype timeval = Timeval (tv_sec: int) (tv_usec: int)

definition update_now_usec :: "timeval \<Rightarrow> clock \<Rightarrow> clock" where
  "update_now_usec tv c =
     (let last = ck_now c; c = update_now (tv_sec tv) c in
      if ck_now c > last \<or> (ck_now c = last \<and> tv_usec tv > ck_now_usec c)
      then c\<lparr>ck_now_usec := tv_usec tv\<rparr> else c)"

text \<open>\<open>gettimeofday\<close> returns \<open>None\<close> when it fails.\<close>

definition openvpn_gettimeofday :: "timeval option \<Rightarrow> clock \<Rightarrow> clock \<times> timeval option" where
  "openvpn_gettimeofday sys c =
     (case sys of None \<Rightarrow> (c, None)
      | Some tv \<Rightarrow> (let c = update_now_usec tv c in (c, Some (Timeval (ck_now c) (ck_now_usec c)))))"

definition update_time :: "c_time \<Rightarrow> clock \<Rightarrow> clock" where
  "update_time t c = (update_now t c)\<lparr>ck_now_usec := 0\<rparr>"

definition openvpn_time :: "c_time \<Rightarrow> clock \<Rightarrow> clock \<times> c_time" where
  "openvpn_time t c = (let c = update_time t c in (c, ck_now c))"

section \<open>The rate limiter\<close>

record frequency_limit =
  fl_max :: int
  fl_per :: int
  fl_n :: int
  fl_reset :: c_time

definition frequency_limit_init :: "int \<Rightarrow> int \<Rightarrow> frequency_limit option" where
  "frequency_limit_init mx per = do {
     cassert (mx \<ge> 0 \<and> per \<ge> 0);
     Some \<lparr>fl_max = mx, fl_per = per, fl_n = 0, fl_reset = 0\<rparr> }"

definition frequency_limit_event_allowed :: "c_time \<Rightarrow> frequency_limit \<Rightarrow> (frequency_limit \<times> bool) option" where
  "frequency_limit_event_allowed now f =
     (if fl_per f \<noteq> 0
      then do {
        let f = (if now \<ge> fl_reset f + fl_per f then f\<lparr>fl_reset := now, fl_n := 0\<rparr> else f);
        cassert (c_int_ok (fl_n f + 1));
        let f = f\<lparr>fl_n := fl_n f + 1\<rparr>;
        Some (f, fl_n f \<le> fl_max f) }
      else Some (f, True))"

section \<open>Arithmetic on times\<close>

text \<open>The conversion to \<open>int\<close> of a 64-bit value.\<close>

definition c_int :: "int \<Rightarrow> int" where
  "c_int x = sint (word_of_int x :: u32)"

definition tv_clear :: timeval where "tv_clear = Timeval 0 0"

definition tv_defined :: "timeval \<Rightarrow> bool" where
  "tv_defined tv = (tv_sec tv > 0 \<and> tv_usec tv > 0)"

definition tv_subtract :: "timeval \<Rightarrow> timeval \<Rightarrow> int \<Rightarrow> int" where
  "tv_subtract tv1 tv2 max_seconds =
     (let max_usec = max_seconds * 1000000; sec_diff = tv_sec tv1 - tv_sec tv2 in
      if sec_diff > max_seconds + 10 then max_usec
      else if sec_diff < - (max_seconds + 10) then - max_usec
      else (let complete_diff = sec_diff * 1000000 + (tv_usec tv1 - tv_usec tv2)
            in constrain_int (c_int complete_diff) (- max_usec) max_usec))"

definition tv_add :: "timeval \<Rightarrow> timeval \<Rightarrow> timeval" where
  "tv_add dest src =
     (let sec = tv_sec dest + tv_sec src; usec = tv_usec dest + tv_usec src;
          sec = sec + drop_bit 20 usec; usec = usec AND 0x000FFFFF in
      if usec \<ge> 1000000 then Timeval (sec + 1) (usec - 1000000) else Timeval sec usec)"

definition tv_lt :: "timeval \<Rightarrow> timeval \<Rightarrow> bool" where
  "tv_lt t1 t2 = (if tv_sec t1 < tv_sec t2 then True else if tv_sec t1 > tv_sec t2 then False
     else tv_usec t1 < tv_usec t2)"

definition tv_le :: "timeval \<Rightarrow> timeval \<Rightarrow> bool" where
  "tv_le t1 t2 = (if tv_sec t1 < tv_sec t2 then True else if tv_sec t1 > tv_sec t2 then False
     else tv_usec t1 \<le> tv_usec t2)"

definition tv_ge :: "timeval \<Rightarrow> timeval \<Rightarrow> bool" where
  "tv_ge t1 t2 = (if tv_sec t1 > tv_sec t2 then True else if tv_sec t1 < tv_sec t2 then False
     else tv_usec t1 \<ge> tv_usec t2)"

definition tv_gt :: "timeval \<Rightarrow> timeval \<Rightarrow> bool" where
  "tv_gt t1 t2 = (if tv_sec t1 > tv_sec t2 then True else if tv_sec t1 < tv_sec t2 then False
     else tv_usec t1 > tv_usec t2)"

definition tv_eq :: "timeval \<Rightarrow> timeval \<Rightarrow> bool" where
  "tv_eq t1 t2 = (tv_sec t1 = tv_sec t2 \<and> tv_usec t1 = tv_usec t2)"

text \<open>The loop of \<open>tv_delta\<close>.\<close>

function tv_delta_loop :: "int \<Rightarrow> int \<Rightarrow> int \<times> int" where
  "tv_delta_loop sec usec = (if usec < 0 then tv_delta_loop (sec - 1) (usec + 1000000) else (sec, usec))"
  by pat_completeness auto
termination by (relation "measure (\<lambda>(sec, usec). nat (- usec))") auto

declare tv_delta_loop.simps [simp del]

definition tv_delta :: "timeval \<Rightarrow> timeval \<Rightarrow> timeval" where
  "tv_delta t1 t2 =
     (let (sec, usec) = tv_delta_loop (tv_sec t2 - tv_sec t1) (tv_usec t2 - tv_usec t1) in
      if sec < 0 then Timeval 0 0 else Timeval sec usec)"

definition TV_WITHIN_SIGMA_MAX_SEC :: int where "TV_WITHIN_SIGMA_MAX_SEC = 600"

definition tv_within_sigma :: "timeval \<Rightarrow> timeval \<Rightarrow> u32 \<Rightarrow> bool" where
  "tv_within_sigma t1 t2 sigma =
     (let delta = tv_subtract t1 t2 TV_WITHIN_SIGMA_MAX_SEC in
      - sint sigma \<le> delta \<and> delta \<le> sint sigma)"

definition interval_earliest_wakeup :: "int \<Rightarrow> c_time \<Rightarrow> c_time \<Rightarrow> int" where
  "interval_earliest_wakeup wakeup at current =
     (if at > current
      then (let delta = c_int (at - current); wakeup = (if delta < wakeup then delta else wakeup) in
            if wakeup < 0 then 0 else wakeup)
      else wakeup)"

section \<open>Timers\<close>

record interval =
  iv_refresh :: int
  iv_horizon :: int
  iv_future_trigger :: c_time
  iv_last_action :: c_time
  iv_last_test_true :: c_time

definition interval_init :: "int \<Rightarrow> int \<Rightarrow> interval" where
  "interval_init horizon refresh =
     \<lparr>iv_refresh = refresh, iv_horizon = horizon, iv_future_trigger = 0, iv_last_action = 0, iv_last_test_true = 0\<rparr>"

definition interval_test :: "c_time \<Rightarrow> interval \<Rightarrow> interval \<times> bool" where
  "interval_test now iv =
     (let trigger = (iv_future_trigger iv \<noteq> 0 \<and> now \<ge> iv_future_trigger iv);
          iv = (if trigger then iv\<lparr>iv_future_trigger := 0\<rparr> else iv) in
      if iv_last_action iv + iv_horizon iv > now \<or> iv_last_test_true iv + iv_refresh iv \<le> now \<or> trigger
      then (iv\<lparr>iv_last_test_true := now\<rparr>, True)
      else (iv, False))"

definition interval_schedule_wakeup :: "c_time \<Rightarrow> interval \<Rightarrow> int \<Rightarrow> int" where
  "interval_schedule_wakeup now iv wakeup =
     (let wakeup = interval_earliest_wakeup wakeup (iv_last_test_true iv + iv_refresh iv) now in
      interval_earliest_wakeup wakeup (iv_future_trigger iv) now)"

definition interval_future_trigger :: "c_time \<Rightarrow> interval \<Rightarrow> int \<Rightarrow> interval" where
  "interval_future_trigger now iv wakeup =
     (if wakeup \<noteq> 0 then iv\<lparr>iv_future_trigger := now + wakeup\<rparr> else iv)"

definition interval_action :: "c_time \<Rightarrow> interval \<Rightarrow> interval" where
  "interval_action now iv = iv\<lparr>iv_last_action := now\<rparr>"

record event_timeout =
  et_defined :: bool
  et_n :: int
  et_last :: c_time

definition event_timeout_clear :: event_timeout where
  "event_timeout_clear = \<lparr>et_defined = False, et_n = 0, et_last = 0\<rparr>"

definition event_timeout_init :: "int \<Rightarrow> c_time \<Rightarrow> event_timeout" where
  "event_timeout_init n lst = \<lparr>et_defined = True, et_n = (if n \<ge> 0 then n else 0), et_last = lst\<rparr>"

definition event_timeout_reset :: "c_time \<Rightarrow> event_timeout \<Rightarrow> event_timeout" where
  "event_timeout_reset now et = (if et_defined et then et\<lparr>et_last := now\<rparr> else et)"

definition event_timeout_modify_wakeup :: "event_timeout \<Rightarrow> int \<Rightarrow> event_timeout" where
  "event_timeout_modify_wakeup et n =
     (if et_defined et then et\<lparr>et_n := (if n \<ge> 0 then n else 0)\<rparr> else et)"

definition event_timeout_remaining :: "c_time \<Rightarrow> event_timeout \<Rightarrow> int" where
  "event_timeout_remaining now et = c_int ((et_last et + et_n et) - now)"

text \<open>\<open>tv\<close> is \<open>None\<close> for a NULL pointer.\<close>

definition event_timeout_trigger ::
  "c_time \<Rightarrow> event_timeout \<Rightarrow> timeval option \<Rightarrow> int \<Rightarrow> event_timeout \<times> timeval option \<times> bool" where
  "event_timeout_trigger now et tv et_const_retry =
     (if \<not> et_defined et then (et, tv, False)
      else (let wakeup = event_timeout_remaining now et;
                (et, wakeup, ret) =
                  (if wakeup \<le> 0
                   then (if et_const_retry < 0 then (et\<lparr>et_last := now\<rparr>, et_n et, True)
                         else (et, et_const_retry, False))
                   else (et, wakeup, False));
                tv = (case tv of None \<Rightarrow> None
                      | Some t \<Rightarrow> if wakeup < tv_sec t then Some (Timeval wakeup 0) else Some t)
            in (et, tv, ret)))"

record usec_timer =
  ut_start :: timeval
  ut_end :: timeval

definition USEC_TIMER_MAX :: int where "USEC_TIMER_MAX = 60"

definition usec_timer_interval_defined :: "usec_timer \<Rightarrow> bool" where
  "usec_timer_interval_defined obj = (tv_sec (ut_start obj) \<noteq> 0 \<and> tv_sec (ut_end obj) \<noteq> 0)"

definition usec_timer_interval :: "usec_timer \<Rightarrow> int" where
  "usec_timer_interval obj = tv_subtract (ut_end obj) (ut_start obj) USEC_TIMER_MAX"

section \<open>The shaper's delays\<close>

definition SHAPER_MAX_TIMEOUT :: int where "SHAPER_MAX_TIMEOUT = 10"

text \<open>The wakeup time of the shaper is the state; \<open>None\<close> is the failure of \<open>ASSERT\<close>.\<close>

definition shaper_delay :: "timeval option \<Rightarrow> clock \<Rightarrow> timeval \<Rightarrow> (clock \<times> int) option" where
  "shaper_delay sys c wakeup =
     (if tv_defined wakeup
      then (case openvpn_gettimeofday sys c of
              (c, None) \<Rightarrow> None
            | (c, Some tv) \<Rightarrow> (let delay = tv_subtract wakeup tv SHAPER_MAX_TIMEOUT
                               in Some (c, if delay > 0 then delay else 0)))
      else Some (c, 0))"

definition shaper_soonest_event :: "timeval \<Rightarrow> int \<Rightarrow> timeval \<times> bool" where
  "shaper_soonest_event tv delay =
     (if delay < 1000000
      then (if tv_sec tv \<noteq> 0 then (Timeval 0 delay, True)
            else if delay < tv_usec tv then (Timeval (tv_sec tv) delay, True)
            else (tv, False))
      else (let sec = delay div 1000000; usec = delay mod 1000000 in
        if sec < tv_sec tv then (Timeval sec usec, True)
        else if sec = tv_sec tv
        then (if usec < tv_usec tv then (Timeval (tv_sec tv) usec, True) else (tv, False))
        else (tv, False)))"

section \<open>The clock never runs backwards\<close>

definition clock_ok :: "clock \<Rightarrow> bool" where
  "clock_ok c \<longleftrightarrow> 0 \<le> ck_now_adj c"

lemma update_now_mono: "clock_ok c \<Longrightarrow> clock_ok (update_now t c) \<and> ck_now c \<le> ck_now (update_now t c)"
  by (auto simp: update_now_def clock_ok_def Let_def)

text \<open>The clock follows the system time plus the adjustment, at most ten seconds behind it and
  never more than one second ahead of a jump it damps.\<close>

lemma update_now_follows:
  assumes "clock_ok c"
  shows "t + ck_now_adj (update_now t c) \<le> ck_now (update_now t c) \<and>
    ck_now (update_now t c) \<le> t + ck_now_adj (update_now t c) + 10"
  using assms by (auto simp: update_now_def Let_def clock_ok_def)

section \<open>Times are linearly ordered\<close>

instantiation timeval :: linorder
begin

definition less_eq_timeval :: "timeval \<Rightarrow> timeval \<Rightarrow> bool" where "less_eq_timeval = tv_le"
definition less_timeval :: "timeval \<Rightarrow> timeval \<Rightarrow> bool" where "less_timeval = tv_lt"

instance
  by standard (auto simp: less_eq_timeval_def less_timeval_def tv_le_def tv_lt_def timeval.expand split: if_splits)

end

lemma tv_compare [simp]: "tv_le a b \<longleftrightarrow> a \<le> b" "tv_lt a b \<longleftrightarrow> a < b" "tv_ge a b \<longleftrightarrow> b \<le> a" "tv_gt a b \<longleftrightarrow> b < a"
  "tv_eq a b \<longleftrightarrow> a = b"
  by (auto simp: less_eq_timeval_def less_timeval_def tv_le_def tv_lt_def tv_ge_def tv_gt_def tv_eq_def timeval.expand)

section \<open>The arithmetic in microseconds\<close>

definition tv_norm :: "timeval \<Rightarrow> bool" where
  "tv_norm t \<longleftrightarrow> 0 \<le> tv_usec t \<and> tv_usec t < 1000000"

definition tv_micros :: "timeval \<Rightarrow> int" where
  "tv_micros t = tv_sec t * 1000000 + tv_usec t"

lemma micros_range:
  fixes s u :: int
  assumes "s \<le> 2010" "- 2010 \<le> s" "- 1000000 < u" "u < 1000000"
  shows "- 2147483648 \<le> s * 1000000 + u \<and> s * 1000000 + u < 2147483648"
  using assms by simp

lemma micros_lex:
  fixes s s' u u' :: int
  assumes "s + 1 \<le> s'" "u < 1000000" "0 \<le> u'"
  shows "s * 1000000 + u < s' * 1000000 + u'"
  using assms by simp

lemma tv_micros_less: "tv_norm a \<Longrightarrow> tv_norm b \<Longrightarrow> a < b \<longleftrightarrow> tv_micros a < tv_micros b"
proof -
  assume n: "tv_norm a" "tv_norm b"
  consider "tv_sec a + 1 \<le> tv_sec b" | "tv_sec a = tv_sec b" | "tv_sec b + 1 \<le> tv_sec a" by linarith
  then show ?thesis
  proof cases
    case 1
    then have "tv_micros a < tv_micros b"
      unfolding tv_micros_def by (rule micros_lex) (use n in \<open>simp_all add: tv_norm_def\<close>)
    then show ?thesis using 1 by (simp add: less_timeval_def tv_lt_def del: tv_compare)
  next
    case 2
    then show ?thesis by (simp add: less_timeval_def tv_lt_def tv_micros_def del: tv_compare)
  next
    case 3
    then have "tv_micros b < tv_micros a"
      unfolding tv_micros_def by (rule micros_lex) (use n in \<open>simp_all add: tv_norm_def\<close>)
    then show ?thesis using 3 by (simp add: less_timeval_def tv_lt_def del: tv_compare)
  qed
qed

lemma tv_norm_micros: "tv_norm t \<Longrightarrow> t = Timeval (tv_micros t div 1000000) (tv_micros t mod 1000000)"
  by (cases t) (simp add: tv_norm_def tv_micros_def)

lemma c_int_id: "- (2 ^ 31) \<le> x \<Longrightarrow> x < 2 ^ 31 \<Longrightarrow> c_int x = x"
  by (simp add: c_int_def signed_of_int signed_take_bit_int_eq_self)

lemma tv_subtract_exact:
  assumes "tv_norm a" "tv_norm b" "0 \<le> m" "m \<le> 2000"
  shows "tv_subtract a b m = max (- (m * 1000000)) (min (m * 1000000) (tv_micros a - tv_micros b))"
proof -
  let ?s = "tv_sec a - tv_sec b" and ?u = "tv_usec a - tv_usec b"
  have u: "\<bar>?u\<bar> < 1000000" using assms(1,2) by (auto simp: tv_norm_def)
  have d: "tv_micros a - tv_micros b = ?s * 1000000 + ?u" by (simp add: tv_micros_def algebra_simps)
  show ?thesis
  proof (cases "?s > m + 10 \<or> ?s < - (m + 10)")
    case True
    then show ?thesis using u assms(3) unfolding d by (auto simp: tv_subtract_def Let_def)
  next
    case False
    then have "?s \<le> 2010" "- 2010 \<le> ?s" using assms(4) by linarith+
    moreover have "- 1000000 < ?u" "?u < 1000000" using u by linarith+
    ultimately have "- 2147483648 \<le> ?s * 1000000 + ?u" "?s * 1000000 + ?u < 2147483648"
      using micros_range[of ?s ?u] by blast+
    then have "- (2 ^ 31) \<le> ?s * 1000000 + ?u" "?s * 1000000 + ?u < 2 ^ 31" unfolding power_numeral by simp_all
    from c_int_id[OF this] show ?thesis
      using False assms(3) unfolding d by (auto simp: tv_subtract_def Let_def constrain_int_def)
  qed
qed

lemma tv_delta_loop_eq: "usec < 1000000 \<Longrightarrow>
    tv_delta_loop sec usec = (sec - (if usec < 0 then (- usec + 999999) div 1000000 else 0),
      usec + (if usec < 0 then (- usec + 999999) div 1000000 else 0) * 1000000)"
proof (induction sec usec rule: tv_delta_loop.induct)
  case (1 sec usec)
  show ?case
  proof (cases "usec < 0")
    case True
    have "(- usec + 999999) div 1000000 = (- (usec + 1000000) + 999999) div 1000000 + 1" by simp
    moreover have "(- (usec + 1000000) + 999999) div 1000000 = 0" if "usec + 1000000 \<ge> 0"
      using that True by (intro div_pos_pos_trivial) auto
    ultimately show ?thesis using 1 True by (subst tv_delta_loop.simps) auto
  qed (simp add: tv_delta_loop.simps)
qed

lemma tv_delta_exact:
  assumes "tv_norm a" "tv_norm b"
  shows "tv_norm (tv_delta a b) \<and> tv_micros (tv_delta a b) = max 0 (tv_micros b - tv_micros a)"
proof (cases "tv_usec b - tv_usec a < 0")
  case True
  then have "tv_delta_loop (tv_sec b - tv_sec a) (tv_usec b - tv_usec a) =
      (tv_sec b - tv_sec a - 1, tv_usec b - tv_usec a + 1000000)"
    using assms by (subst tv_delta_loop.simps) (simp add: tv_norm_def tv_delta_loop.simps)
  then show ?thesis using True assms by (auto simp: tv_delta_def tv_norm_def tv_micros_def max_def)
next
  case False
  then have "tv_delta_loop (tv_sec b - tv_sec a) (tv_usec b - tv_usec a) =
      (tv_sec b - tv_sec a, tv_usec b - tv_usec a)" by (simp add: tv_delta_loop.simps)
  then show ?thesis using False assms by (auto simp: tv_delta_def tv_norm_def tv_micros_def max_def)
qed

text \<open>Each carry of \<open>tv_add\<close> counts 2^20 microseconds as a second.\<close>

lemma tv_add_value:
  assumes "tv_norm a" "tv_norm b"
  shows "tv_norm (tv_add a b) \<and>
    tv_micros (tv_add a b) = tv_micros a + tv_micros b - (if tv_usec a + tv_usec b \<ge> 1048576 then 48576 else 0)"
proof -
  let ?u = "tv_usec a + tv_usec b"
  have u: "0 \<le> ?u" "?u < 2000000" using assms by (auto simp: tv_norm_def)
  have k: "(0xFFFFF :: int) = mask 20" by (simp add: mask_eq_exp_minus_1)
  have m: "?u AND 0xFFFFF = ?u mod 1048576" unfolding k take_bit_eq_mask[symmetric] take_bit_eq_mod by simp
  have d: "drop_bit 20 ?u = ?u div 1048576" unfolding drop_bit_eq_div by simp
  show ?thesis
  proof (cases "?u \<ge> 1048576")
    case True
    have "?u div 1048576 = 1" by (rule int_div_pos_eq[of _ _ _ "?u - 1048576"]) (use True u in linarith)+
    moreover have "?u mod 1048576 = ?u - 1048576" by (rule int_mod_pos_eq[of _ _ 1]) (use True u in linarith)+
    moreover have "\<not> ?u - 1048576 \<ge> 1000000" using u by linarith
    ultimately have "tv_add a b = Timeval (tv_sec a + tv_sec b + 1) (?u - 1048576)"
      unfolding tv_add_def Let_def m d by simp
    then show ?thesis using True u unfolding tv_norm_def tv_micros_def by simp
  next
    case False
    then have "?u div 1048576 = 0" "?u mod 1048576 = ?u" using u by simp_all
    then have "tv_add a b = (if ?u \<ge> 1000000 then Timeval (tv_sec a + tv_sec b + 1) (?u - 1000000)
        else Timeval (tv_sec a + tv_sec b) ?u)"
      unfolding tv_add_def Let_def m d by simp
    then show ?thesis using False u unfolding tv_norm_def tv_micros_def by simp
  qed
qed

lemma shaper_soonest_event_min:
  assumes "tv_norm tv" "0 \<le> tv_sec tv" "0 \<le> delay"
  shows "tv_micros (fst (shaper_soonest_event tv delay)) = min (tv_micros tv) delay \<and>
    snd (shaper_soonest_event tv delay) = (delay < tv_micros tv)"
proof -
  have "delay = delay div 1000000 * 1000000 + delay mod 1000000" by simp
  moreover have "0 \<le> delay mod 1000000" "delay mod 1000000 < 1000000" by simp_all
  ultimately obtain s u where d: "delay div 1000000 = s" "delay mod 1000000 = u" "delay = s * 1000000 + u"
    "0 \<le> u" "u < 1000000" by blast
  have "1000000 \<le> delay \<Longrightarrow> 1 \<le> s" using d by linarith
  then show ?thesis using assms d(3-5)
    unfolding shaper_soonest_event_def d(1,2) Let_def
    by (cases tv) (auto simp: tv_micros_def tv_norm_def min_def)
qed

section \<open>The rate limiter\<close>

text \<open>The number of events allowed in a sequence of event times.\<close>

fun allowed_events :: "c_time list \<Rightarrow> frequency_limit \<Rightarrow> (frequency_limit \<times> nat) option" where
  "allowed_events [] f = Some (f, 0)"
| "allowed_events (t # ts) f = do {
     (f, ok) \<leftarrow> frequency_limit_event_allowed t f;
     (f, n) \<leftarrow> allowed_events ts f;
     Some (f, (if ok then 1 else 0) + n) }"

definition fl_ok :: "frequency_limit \<Rightarrow> bool" where
  "fl_ok f \<longleftrightarrow> 0 \<le> fl_max f \<and> 0 < fl_per f \<and> 0 \<le> fl_n f"

definition fl_left :: "frequency_limit \<Rightarrow> nat" where
  "fl_left f = nat (fl_max f - fl_n f)"

lemma frequency_step:
  assumes "fl_ok f" "fl_n f + 1 < 2 ^ 31"
  shows "\<exists>g ok. frequency_limit_event_allowed t f = Some (g, ok) \<and> fl_ok g \<and> fl_n g \<le> fl_n f + 1 \<and>
    fl_max g = fl_max f \<and> fl_per g = fl_per f \<and>
    (if t \<ge> fl_reset f + fl_per f
     then fl_reset g = t \<and> (if ok then 1 else 0) + fl_left g \<le> nat (fl_max f)
     else fl_reset g = fl_reset f \<and> (if ok then 1 else 0) + fl_left g \<le> fl_left f)"
  using assms by (auto simp: frequency_limit_event_allowed_def fl_ok_def fl_left_def Let_def c_int_ok_def)

text \<open>Inside one window the allowance is used up; outside a new one starts.\<close>

lemma allowed_same_window:
  assumes "fl_ok f" "fl_n f + int (length ts) < 2 ^ 31" "\<forall>t \<in> set ts. t < fl_reset f + fl_per f"
  shows "\<exists>f' n. allowed_events ts f = Some (f', n) \<and> n \<le> fl_left f"
  using assms
proof (induction ts arbitrary: f)
  case (Cons t ts)
  have n: "fl_n f + 1 < 2 ^ 31" using Cons.prems(2) by simp
  have "\<not> t \<ge> fl_reset f + fl_per f" using Cons.prems(3) by simp
  then obtain g ok where g: "frequency_limit_event_allowed t f = Some (g, ok)" "fl_ok g" "fl_n g \<le> fl_n f + 1"
    "fl_per g = fl_per f" "fl_reset g = fl_reset f" "(if ok then 1 else 0) + fl_left g \<le> fl_left f"
    using frequency_step[OF Cons.prems(1) n, of t] by auto
  have "fl_n g + int (length ts) < 2 ^ 31" using Cons.prems(2) g(3) by simp
  then obtain f' k where "allowed_events ts g = Some (f', k)" "k \<le> fl_left g"
    using Cons.IH[OF g(2)] Cons.prems(3) g(4,5) by auto
  then show ?case using g(1,6) by simp
qed simp

lemma allowed_two_windows:
  assumes "fl_ok f" "fl_n f + int (length ts) < 2 ^ 31" "sorted ts" "\<forall>t \<in> set ts. t0 \<le> t \<and> t < t0 + fl_per f"
  shows "\<exists>f' n. allowed_events ts f = Some (f', n) \<and> n \<le> fl_left f + nat (fl_max f)"
  using assms
proof (induction ts arbitrary: f)
  case (Cons t ts)
  have n: "fl_n f + 1 < 2 ^ 31" using Cons.prems(2) by simp
  show ?case
  proof (cases "t \<ge> fl_reset f + fl_per f")
    case True
    then obtain g ok where g: "frequency_limit_event_allowed t f = Some (g, ok)" "fl_ok g" "fl_n g \<le> fl_n f + 1"
      "fl_per g = fl_per f" "fl_reset g = t" "(if ok then 1 else 0) + fl_left g \<le> nat (fl_max f)"
      using frequency_step[OF Cons.prems(1) n, of t] by auto
    have "\<forall>x \<in> set ts. x < fl_reset g + fl_per g" using Cons.prems(4) g(4,5) by fastforce
    moreover have "fl_n g + int (length ts) < 2 ^ 31" using Cons.prems(2) g(3) by simp
    ultimately obtain f' k where "allowed_events ts g = Some (f', k)" "k \<le> fl_left g"
      using allowed_same_window[OF g(2)] by blast
    then show ?thesis using g(1,6) by simp
  next
    case False
    then obtain g ok where g: "frequency_limit_event_allowed t f = Some (g, ok)" "fl_ok g" "fl_n g \<le> fl_n f + 1"
      "fl_per g = fl_per f" "fl_max g = fl_max f" "(if ok then 1 else 0) + fl_left g \<le> fl_left f"
      using frequency_step[OF Cons.prems(1) n, of t] by auto
    have "fl_n g + int (length ts) < 2 ^ 31" using Cons.prems(2) g(3) by simp
    then obtain f' k where "allowed_events ts g = Some (f', k)" "k \<le> fl_left g + nat (fl_max g)"
      using Cons.IH[OF g(2)] Cons.prems(3,4) g(4) by auto
    then show ?thesis using g(1,5,6) by simp
  qed
qed simp

text \<open>Refused events are counted too, so a flood within one period overflows the counter.\<close>

lemma frequency_limit_overflow:
  assumes "fl_per f \<noteq> 0" "t < fl_reset f + fl_per f" "fl_n f = 2 ^ 31 - 1"
  shows "frequency_limit_event_allowed t f = None"
  using assms by (simp add: frequency_limit_event_allowed_def c_int_ok_def)

section \<open>Recurring timers\<close>

definition et_ok :: "c_time \<Rightarrow> event_timeout \<Rightarrow> bool" where
  "et_ok now et \<longleftrightarrow> 0 \<le> et_n et \<and> \<bar>et_last et + et_n et - now\<bar> < 2 ^ 31"

lemma event_timeout_trigger_spec:
  assumes "et_defined et" "et_ok now et"
  shows "event_timeout_trigger now et tv retry =
    (let due = et_last et + et_n et \<le> now;
         w = (if due then if retry < 0 then et_n et else retry else et_last et + et_n et - now) in
     (if due \<and> retry < 0 then et\<lparr>et_last := now\<rparr> else et,
      map_option (\<lambda>t. if w < tv_sec t then Timeval w 0 else t) tv,
      due \<and> retry < 0))"
proof -
  have "event_timeout_remaining now et = et_last et + et_n et - now"
    using assms(2) unfolding event_timeout_remaining_def et_ok_def by (intro c_int_id) linarith+
  then show ?thesis using assms(1) by (cases tv) (auto simp: event_timeout_trigger_def Let_def)
qed

text \<open>The values of \<open>now\<close> over a sequence of readings of the system clock.\<close>

fun clock_readings :: "c_time list \<Rightarrow> clock \<Rightarrow> c_time list" where
  "clock_readings [] c = []"
| "clock_readings (t # ts) c = (let c = update_now t c in ck_now c # clock_readings ts c)"

section \<open>Properties\<close>

text \<open>The process clock never runs backwards, whatever the system clock does: over any sequence of
  readings, with jumps in both directions, \<open>now\<close> does not decrease, and after each reading it is
  the system time plus the accumulated adjustment, or at most ten seconds ahead of that.\<close>

theorem clock_monotone:
  assumes "0 \<le> ck_now_adj c"
  shows "sorted (ck_now c # clock_readings ts c) \<and>
    (let c' = update_now t (fold update_now ts c) in
     t + ck_now_adj c' \<le> ck_now c' \<and> ck_now c' \<le> t + ck_now_adj c' + 10)"
proof
  have ok: "clock_ok c" using assms by (simp add: clock_ok_def)
  then show "sorted (ck_now c # clock_readings ts c)"
  proof (induction ts arbitrary: c)
    case (Cons t ts)
    note m = update_now_mono[OF Cons.prems, of t]
    have "sorted (ck_now (update_now t c) # clock_readings ts (update_now t c))" using Cons.IH m by blast
    then show ?case using m by (auto simp: Let_def)
  qed simp
  have "clock_ok (fold update_now ts c)" using ok
    by (induction ts arbitrary: c) (auto dest: update_now_mono)
  from update_now_follows[OF this] show "let c' = update_now t (fold update_now ts c) in
     t + ck_now_adj c' \<le> ck_now c' \<and> ck_now c' \<le> t + ck_now_adj c' + 10"
    unfolding Let_def .
qed

theorem clock_monotone_witness:
  "sorted [1000, 1005, 1005, 1006 :: int] \<and>
   clock_readings [1005, 900, 901] \<lparr>ck_now = 1000, ck_now_adj = 0, ck_now_usec = 0\<rparr> = [1005, 1005, 1006]"
proof -
  have r: "clock_readings [1005, 900, 901] \<lparr>ck_now = 1000, ck_now_adj = 0, ck_now_usec = 0\<rparr> = [1005, 1005, 1006]"
    by (simp add: update_now_def Let_def)
  have "sorted (ck_now \<lparr>ck_now = 1000, ck_now_adj = 0, ck_now_usec = 0\<rparr> #
      clock_readings [1005, 900, 901] \<lparr>ck_now = 1000, ck_now_adj = 0, ck_now_usec = 0\<rparr>)"
    using clock_monotone[of "\<lparr>ck_now = 1000, ck_now_adj = 0, ck_now_usec = 0\<rparr>" "[1005, 900, 901]"] by simp
  then show ?thesis unfolding r by simp
qed

text \<open>C30: The connection rate limit holds over every stretch of time as long as the period: whatever the
  state of the limiter, among events that all happen within one period at most twice the maximum
  is allowed, and at most the maximum if no new window begins; the limiter returns for every event.
  The counter is an \<open>int\<close> that refused events increment as well, so this holds for stretches of
  fewer than \<open>2 ^ 31\<close> events, those already counted included.\<close>

theorem rate_limit_bound:
  assumes "0 \<le> fl_max f" "0 < fl_per f" "0 \<le> fl_n f" "sorted ts" "\<forall>t \<in> set ts. t0 \<le> t \<and> t < t0 + fl_per f"
    and "fl_n f + int (length ts) < 2 ^ 31"
  shows "\<exists>f' n. allowed_events ts f = Some (f', n) \<and> n \<le> 2 * nat (fl_max f) \<and>
    ((\<forall>t \<in> set ts. t < fl_reset f + fl_per f) \<longrightarrow> n \<le> nat (fl_max f))"
proof -
  have ok: "fl_ok f" using assms(1-3) by (simp add: fl_ok_def)
  have left: "fl_left f \<le> nat (fl_max f)" using assms(3) by (simp add: fl_left_def)
  obtain f' n where n: "allowed_events ts f = Some (f', n)" "n \<le> fl_left f + nat (fl_max f)"
    using allowed_two_windows[OF ok assms(6,4,5)] by blast
  have "n \<le> fl_left f" if "\<forall>t \<in> set ts. t < fl_reset f + fl_per f"
    using allowed_same_window[OF ok assms(6) that] n(1) by auto
  then show ?thesis using n left by fastforce
qed

theorem rate_limit_bound_witness:
  "\<exists>f' n. allowed_events [19, 19, 20, 21, 22] \<lparr>fl_max = 2, fl_per = 10, fl_n = 0, fl_reset = 10\<rparr> = Some (f', n) \<and> n \<le> 4"
  using rate_limit_bound[of "\<lparr>fl_max = 2, fl_per = 10, fl_n = 0, fl_reset = 10\<rparr>" "[19, 19, 20, 21, 22]" 15] by auto

text \<open>Time differences are exact and clamped: for normalised times \<open>tv_subtract\<close> is the difference in
  microseconds limited to the given number of seconds on both sides, and \<open>tv_delta\<close> is the
  difference or zero, normalised again; the comparisons agree with the microseconds.\<close>

theorem time_differences:
  assumes "tv_norm a" "tv_norm b" "0 \<le> m" "m \<le> 2000"
  shows "tv_subtract a b m = max (- (m * 1000000)) (min (m * 1000000) (tv_micros a - tv_micros b)) \<and>
    tv_norm (tv_delta a b) \<and> tv_micros (tv_delta a b) = max 0 (tv_micros b - tv_micros a) \<and>
    tv_lt a b = (tv_micros a < tv_micros b)"
  using tv_subtract_exact[OF assms] tv_delta_exact[OF assms(1,2)] tv_micros_less[OF assms(1,2)] by simp

theorem time_differences_witness:
  "tv_subtract (Timeval 5 100) (Timeval 4 999900) 600 = 200 \<and> tv_delta (Timeval 4 999900) (Timeval 5 100) = Timeval 0 200"
proof -
  have 1: "tv_subtract (Timeval 5 100) (Timeval 4 999900) 600 = 200"
    using time_differences[of "Timeval 5 100" "Timeval 4 999900" 600] by (simp add: tv_norm_def tv_micros_def)
  have "tv_norm (tv_delta (Timeval 4 999900) (Timeval 5 100))" "tv_micros (tv_delta (Timeval 4 999900) (Timeval 5 100)) = 200"
    using time_differences[of "Timeval 4 999900" "Timeval 5 100" 600] by (simp_all add: tv_norm_def tv_micros_def)
  then show ?thesis using 1 tv_norm_micros[of "tv_delta (Timeval 4 999900) (Timeval 5 100)"] by simp
qed

text \<open>Adding times loses up to 48576 microseconds: a carry out of the microseconds is taken at 2^20
  instead of 10^6.\<close>

theorem tv_add_loses_time:
  "tv_add (Timeval 0 999999) (Timeval 0 999999) = Timeval 1 951422"
proof -
  have "tv_norm (tv_add (Timeval 0 999999) (Timeval 0 999999))"
    "tv_micros (tv_add (Timeval 0 999999) (Timeval 0 999999)) = 1951422"
    using tv_add_value[of "Timeval 0 999999" "Timeval 0 999999"] by (simp_all add: tv_norm_def tv_micros_def)
  then show ?thesis using tv_norm_micros[of "tv_add (Timeval 0 999999) (Timeval 0 999999)"] by simp
qed

text \<open>A recurring timer fires exactly when its period has passed since it last fired, rearms itself
  then, and shortens the caller's wait to the time left.\<close>

theorem timer_fires_when_due:
  assumes "et_defined et" "0 \<le> et_n et" "\<bar>et_last et + et_n et - now\<bar> < 2 ^ 31"
  shows "event_timeout_trigger now et (Some t) (-1) =
    (if et_last et + et_n et \<le> now
     then (et\<lparr>et_last := now\<rparr>, Some (if et_n et < tv_sec t then Timeval (et_n et) 0 else t), True)
     else (et, Some (if et_last et + et_n et - now < tv_sec t then Timeval (et_last et + et_n et - now) 0 else t), False))"
  using event_timeout_trigger_spec[OF assms(1), of now "Some t" "-1"] assms(2,3) by (simp add: et_ok_def Let_def)

theorem timer_fires_when_due_witness:
  "snd (snd (event_timeout_trigger 15 \<lparr>et_defined = True, et_n = 5, et_last = 10\<rparr> (Some (Timeval 60 0)) (-1))) \<and>
   event_timeout_trigger 14 \<lparr>et_defined = True, et_n = 5, et_last = 10\<rparr> (Some (Timeval 60 0)) (-1) =
     (\<lparr>et_defined = True, et_n = 5, et_last = 10\<rparr>, Some (Timeval 1 0), False)"
  using timer_fires_when_due[of "\<lparr>et_defined = True, et_n = 5, et_last = 10\<rparr>" 15 "Timeval 60 0"]
    timer_fires_when_due[of "\<lparr>et_defined = True, et_n = 5, et_last = 10\<rparr>" 14 "Timeval 60 0"] by simp

end
