(* ===== verification/Ovpn_Fragment.thy ===== *)
theory Ovpn_Fragment
  imports Ovpn_Time Ovpn_Text
begin

unbundle bit_operations_syntax

text \<open>
  Fragmentation of datagrams (\<open>fragment.c\<close>, \<open>fragment.h\<close>): a packet larger than the maximum is cut
  into parts of one size, each with a header naming the packet (\<open>seq_id\<close>), the part (\<open>frag_id\<close>) and,
  on the last part, the size; the receiver reassembles up to 25 packets at a time in a window over
  the sequence ids.  Where the code copies a buffer structure, both copies point to one block; here
  the block is copied, and the owner's copy is updated with the bytes written through the other.
\<close>

section \<open>State\<close>

text \<open>The fields of \<open>struct frame\<close> that matter here.\<close>

record frame =
  fr_payload_size :: int
  fr_headroom :: int
  fr_tailroom :: int
  fr_max_fragment_size :: int

definition BUF_SIZE :: "frame \<Rightarrow> int" where
  "BUF_SIZE f = fr_headroom f + fr_payload_size f + fr_tailroom f"

definition N_FRAG_BUF :: int where "N_FRAG_BUF = 25"
definition FRAG_TTL_SEC :: int where "FRAG_TTL_SEC = 10"
definition FRAG_WAKEUP_INTERVAL :: int where "FRAG_WAKEUP_INTERVAL = 5"
definition FRAG_MAP_MASK :: u32 where "FRAG_MAP_MASK = 0xFFFFFFFF"
definition MAX_FRAGS :: int where "MAX_FRAGS = 32"
definition N_SEQ_ID :: int where "N_SEQ_ID = 256"

record fragment =
  fg_defined :: bool
  fg_max_frag_size :: int
  fg_map :: u32
  fg_timestamp :: c_time
  fg_buf :: buffer

record fragment_list =
  fl_seq_id :: int
  fl_index :: int
  fl_fragments :: "fragment list"

record fragment_master =
  fm_wakeup :: event_timeout
  fm_outgoing_seq_id :: int
  fm_outgoing_frag_size :: int
  fm_outgoing_frag_id :: int
  fm_outgoing :: buffer
  fm_outgoing_return :: buffer
  fm_incoming :: fragment_list

section \<open>The header\<close>

definition FRAG_TYPE_MASK :: u32 where "FRAG_TYPE_MASK = 0x00000003"
definition FRAG_TYPE_SHIFT :: nat where "FRAG_TYPE_SHIFT = 0"
definition FRAG_WHOLE :: u32 where "FRAG_WHOLE = 0"
definition FRAG_YES_NOTLAST :: u32 where "FRAG_YES_NOTLAST = 1"
definition FRAG_YES_LAST :: u32 where "FRAG_YES_LAST = 2"
definition FRAG_TEST :: u32 where "FRAG_TEST = 3"
definition FRAG_SEQ_ID_MASK :: u32 where "FRAG_SEQ_ID_MASK = 0x000000ff"
definition FRAG_SEQ_ID_SHIFT :: nat where "FRAG_SEQ_ID_SHIFT = 2"
definition FRAG_ID_MASK :: u32 where "FRAG_ID_MASK = 0x0000001f"
definition FRAG_ID_SHIFT :: nat where "FRAG_ID_SHIFT = 10"
definition FRAG_SIZE_MASK :: u32 where "FRAG_SIZE_MASK = 0x00003fff"
definition FRAG_SIZE_SHIFT :: nat where "FRAG_SIZE_SHIFT = 15"
definition FRAG_SIZE_ROUND_SHIFT :: nat where "FRAG_SIZE_ROUND_SHIFT = 2"
definition FRAG_SIZE_ROUND_MASK :: int where "FRAG_SIZE_ROUND_MASK = push_bit FRAG_SIZE_ROUND_SHIFT 1 - 1"

text \<open>The word \<open>fragment_prepend_flags\<close> builds; the arguments are C \<open>int\<close>s.\<close>

definition fragment_flags :: "int \<Rightarrow> int \<Rightarrow> int \<Rightarrow> int \<Rightarrow> u32" where
  "fragment_flags type seq_id frag_id frag_size =
     (let flags = push_bit FRAG_TYPE_SHIFT (word_of_int type AND FRAG_TYPE_MASK)
                  OR push_bit FRAG_SEQ_ID_SHIFT (word_of_int seq_id AND FRAG_SEQ_ID_MASK)
                  OR push_bit FRAG_ID_SHIFT (word_of_int frag_id AND FRAG_ID_MASK) in
      if word_of_int type = FRAG_WHOLE \<or> word_of_int type = FRAG_YES_NOTLAST then flags
      else flags OR push_bit FRAG_SIZE_SHIFT (word_of_int (drop_bit FRAG_SIZE_ROUND_SHIFT frag_size) AND FRAG_SIZE_MASK))"

definition fragment_prepend_flags :: "buffer \<Rightarrow> int \<Rightarrow> int \<Rightarrow> int \<Rightarrow> int \<Rightarrow> buffer option" where
  "fragment_prepend_flags b type seq_id frag_id frag_size = do {
     (b, ok) \<leftarrow> buf_write_prepend b (be32 (fragment_flags type seq_id frag_id frag_size));
     cassert ok;
     Some b }"

section \<open>Life cycle\<close>

definition clear_fragment :: fragment where
  "clear_fragment = \<lparr>fg_defined = False, fg_max_frag_size = 0, fg_map = 0, fg_timestamp = 0, fg_buf = clear_buf\<rparr>"

fun fragment_bufs_init :: "fragment list \<Rightarrow> frame \<Rightarrow> fragment list option" where
  "fragment_bufs_init [] frame = Some []"
| "fragment_bufs_init (g # gs) frame = do {
     b \<leftarrow> alloc_buf (to_size_t (BUF_SIZE frame));
     gs \<leftarrow> fragment_bufs_init gs frame;
     Some (g\<lparr>fg_buf := b\<rparr> # gs) }"

definition fragment_list_buf_init :: "fragment_list \<Rightarrow> frame \<Rightarrow> fragment_list option" where
  "fragment_list_buf_init l frame = do {
     gs \<leftarrow> fragment_bufs_init (fl_fragments l) frame;
     Some (l\<lparr>fl_fragments := gs\<rparr>) }"

definition fragment_list_buf_free :: "fragment_list \<Rightarrow> fragment_list" where
  "fragment_list_buf_free l = l\<lparr>fl_fragments := map (\<lambda>g. g\<lparr>fg_buf := free_buf (fg_buf g)\<rparr>) (fl_fragments l)\<rparr>"

text \<open>\<open>rnd\<close> is the value of \<open>get_random\<close>.\<close>

definition fragment_init :: "c_time \<Rightarrow> int \<Rightarrow> fragment_master" where
  "fragment_init now rnd =
     \<lparr>fm_wakeup = event_timeout_init FRAG_WAKEUP_INTERVAL now, fm_outgoing_seq_id = rnd AND (N_SEQ_ID - 1),
      fm_outgoing_frag_size = 0, fm_outgoing_frag_id = 0, fm_outgoing = clear_buf, fm_outgoing_return = clear_buf,
      fm_incoming = \<lparr>fl_seq_id = 0, fl_index = 0, fl_fragments = replicate (nat N_FRAG_BUF) clear_fragment\<rparr>\<rparr>"

definition fragment_frame_init :: "fragment_master \<Rightarrow> frame \<Rightarrow> fragment_master option" where
  "fragment_frame_init f frame = do {
     l \<leftarrow> fragment_list_buf_init (fm_incoming f) frame;
     b1 \<leftarrow> alloc_buf (to_size_t (BUF_SIZE frame));
     b2 \<leftarrow> alloc_buf (to_size_t (BUF_SIZE frame));
     Some (f\<lparr>fm_incoming := l, fm_outgoing := b1, fm_outgoing_return := b2\<rparr>) }"

definition fragment_free :: "fragment_master \<Rightarrow> fragment_master" where
  "fragment_free f = f\<lparr>fm_incoming := fragment_list_buf_free (fm_incoming f),
     fm_outgoing := free_buf (fm_outgoing f), fm_outgoing_return := free_buf (fm_outgoing_return f)\<rparr>"

section \<open>The window\<close>

text \<open>Moving the window up to \<open>diff\<close> steps.\<close>

fun window_advance :: "nat \<Rightarrow> fragment_list \<Rightarrow> fragment_list option" where
  "window_advance 0 l = Some l"
| "window_advance (Suc diff) l = do {
     i \<leftarrow> modulo_add (fl_index l) 1 N_FRAG_BUF;
     s \<leftarrow> modulo_add (fl_seq_id l) 1 N_SEQ_ID;
     window_advance diff
       (l\<lparr>fl_index := i, fl_fragments := (fl_fragments l)[nat i := (fl_fragments l ! nat i)\<lparr>fg_defined := False\<rparr>],
          fl_seq_id := s\<rparr>) }"

text \<open>The result is the list and the index of the buffer.\<close>

definition fragment_list_get_buf :: "fragment_list \<Rightarrow> int \<Rightarrow> (fragment_list \<times> nat) option" where
  "fragment_list_get_buf l seq_id = do {
     diff \<leftarrow> modulo_subtract seq_id (fl_seq_id l) N_SEQ_ID;
     let (l, diff) =
       (if \<bar>diff\<bar> \<ge> N_FRAG_BUF
        then (l\<lparr>fl_fragments := map (\<lambda>g. g\<lparr>fg_defined := False\<rparr>) (fl_fragments l), fl_index := 0, fl_seq_id := seq_id\<rparr>, 0)
        else (l, diff));
     l \<leftarrow> window_advance (nat diff) l;
     i \<leftarrow> modulo_add (fl_index l) (if diff > 0 then 0 else diff) N_FRAG_BUF;
     Some (l, nat i) }"

section \<open>Receiving\<close>

text \<open>The error label: the packet is dropped.\<close>

definition frag_err :: "fragment_master \<Rightarrow> buffer \<Rightarrow> (fragment_master \<times> buffer) option" where
  "frag_err f b = Some (f, b\<lparr>b_len := 0\<rparr>)"

text \<open>
  The part of \<open>fragment_incoming\<close> after the lookup: the slot is reset if needed, the payload is
  stored, and a complete packet is handed out.  The result is the slot and the caller's buffer.
\<close>

definition fragment_store ::
  "c_time \<Rightarrow> fragment \<Rightarrow> buffer \<Rightarrow> u32 \<Rightarrow> int \<Rightarrow> int \<Rightarrow> frame \<Rightarrow> (fragment \<times> buffer) option" where
  "fragment_store now frag b frag_type n sz frame = do {
     frag \<leftarrow> (if \<not> fg_defined frag \<or> fg_max_frag_size frag \<noteq> sz
             then do {
               let (fb, ok) = buf_init (fg_buf frag) (fr_headroom frame);
               cassert ok;
               Some (frag\<lparr>fg_defined := True, fg_max_frag_size := sz, fg_map := 0, fg_buf := fb\<rparr>) }
             else Some frag);
     (fb, ok) \<leftarrow> buf_copy_range (fg_buf frag) (n * sz) b 0 (b_len b);
     let frag = frag\<lparr>fg_buf := fb\<rparr>;
     if \<not> ok
     then Some (frag, b\<lparr>b_len := 0\<rparr>)
     else do {
       let frag = frag\<lparr>fg_map := fg_map frag OR push_bit (nat n) (if frag_type = FRAG_YES_LAST then FRAG_MAP_MASK else 1),
                    fg_timestamp := now\<rparr>;
       Some (if fg_map frag AND FRAG_MAP_MASK = FRAG_MAP_MASK
             then (frag\<lparr>fg_defined := False\<rparr>, fg_buf frag)
             else (frag, b\<lparr>b_len := 0\<rparr>)) } }"

definition fragment_incoming ::
  "c_time \<Rightarrow> fragment_master \<Rightarrow> buffer \<Rightarrow> frame \<Rightarrow> (fragment_master \<times> buffer) option" where
  "fragment_incoming now f b frame =
     (if \<not> b_len b > 0 then Some (f, b)
      else do {
        (b, r) \<leftarrow> buf_read b 4;
        case r of
          None \<Rightarrow> frag_err f b
        | Some h \<Rightarrow> do {
            let flags = de32 h;
            let frag_type = drop_bit FRAG_TYPE_SHIFT flags AND FRAG_TYPE_MASK;
            if frag_type = FRAG_WHOLE
            then (if flags AND (FRAG_SEQ_ID_MASK OR FRAG_ID_MASK) \<noteq> 0 then frag_err f b else Some (f, b))
            else if frag_type = FRAG_YES_NOTLAST \<or> frag_type = FRAG_YES_LAST
            then do {
              let seq_id = uint (drop_bit FRAG_SEQ_ID_SHIFT flags AND FRAG_SEQ_ID_MASK);
              let n = uint (drop_bit FRAG_ID_SHIFT flags AND FRAG_ID_MASK);
              let sz = (if frag_type = FRAG_YES_LAST
                        then uint (push_bit FRAG_SIZE_ROUND_SHIFT (drop_bit FRAG_SIZE_SHIFT flags AND FRAG_SIZE_MASK))
                        else b_len b);
              (l, i) \<leftarrow> fragment_list_get_buf (fm_incoming f) seq_id;
              let f = f\<lparr>fm_incoming := l\<rparr>;
              if sz AND FRAG_SIZE_ROUND_MASK \<noteq> 0 then frag_err f b
              else do {
                (frag, b) \<leftarrow> fragment_store now (fl_fragments l ! i) b frag_type n sz frame;
                Some (f\<lparr>fm_incoming := l\<lparr>fl_fragments := (fl_fragments l)[i := frag]\<rparr>\<rparr>, b) } }
            else frag_err f b } })"

section \<open>Sending\<close>

text \<open>A maximum below 4 makes the division undefined.\<close>

definition optimal_fragment_size :: "int \<Rightarrow> int \<Rightarrow> int option" where
  "optimal_fragment_size len max_frag_size = do {
     let mfs_aligned = max_frag_size AND NOT FRAG_SIZE_ROUND_MASK;
     cassert (mfs_aligned \<noteq> 0);
     let d = len div mfs_aligned;
     let m = len mod mfs_aligned;
     Some (if d > 0 \<and> m > 0 \<and> m < mfs_aligned * 3 div 4
       then min_int mfs_aligned
         ((max_frag_size - ((max_frag_size - m) div (d + 1)) + FRAG_SIZE_ROUND_MASK) AND NOT FRAG_SIZE_ROUND_MASK)
       else mfs_aligned) }"

definition fragment_outgoing_defined :: "fragment_master \<Rightarrow> bool" where
  "fragment_outgoing_defined f = (b_len (fm_outgoing f) > 0)"

definition fragment_ready_to_send ::
  "fragment_master \<Rightarrow> buffer \<Rightarrow> frame \<Rightarrow> (fragment_master \<times> buffer \<times> bool) option" where
  "fragment_ready_to_send f b frame =
     (if fragment_outgoing_defined f
      then do {
        let lst = (b_len (fm_outgoing f) \<le> fm_outgoing_frag_size f);
        let sz = (if lst then b_len (fm_outgoing f) else fm_outgoing_frag_size f);
        let (b, ok) = buf_init (fm_outgoing_return f) (fr_headroom frame);
        cassert ok;
        (b, out, ok) \<leftarrow> buf_copy_n b (fm_outgoing f) sz;
        cassert ok;
        let f = f\<lparr>fm_outgoing := out\<rparr>;
        b \<leftarrow> fragment_prepend_flags b (if lst then 2 else 1) (fm_outgoing_seq_id f)
               (fm_outgoing_frag_id f) (fm_outgoing_frag_size f);
        let f = f\<lparr>fm_outgoing_frag_id := fm_outgoing_frag_id f + 1,
                 fm_outgoing_return := (fm_outgoing_return f)\<lparr>b_data := b_data b\<rparr>\<rparr>;
        cassert (\<not> lst \<or> b_len (fm_outgoing f) = 0);
        Some (f, b, True) }
      else Some (f, b, False))"

definition fragment_outgoing :: "fragment_master \<Rightarrow> buffer \<Rightarrow> frame \<Rightarrow> (fragment_master \<times> buffer) option" where
  "fragment_outgoing f b frame =
     (if \<not> b_len b > 0 then Some (f, b)
      else if b_len b > fr_max_fragment_size frame
      then do {
        sz \<leftarrow> optimal_fragment_size (b_len b) (fr_max_fragment_size frame);
        let f = f\<lparr>fm_outgoing_frag_size := sz\<rparr>;
        if b_len b > fm_outgoing_frag_size f * MAX_FRAGS then frag_err f b
        else do {
          let (out, ok) = buf_init (fm_outgoing f) (fr_headroom frame);
          cassert ok;
          (out, ok) \<leftarrow> buf_copy out b;
          cassert ok;
          s \<leftarrow> modulo_add (fm_outgoing_seq_id f) 1 N_SEQ_ID;
          let f = f\<lparr>fm_outgoing := out, fm_outgoing_seq_id := s, fm_outgoing_frag_id := 0\<rparr>;
          (f, b, ok) \<leftarrow> fragment_ready_to_send f (b\<lparr>b_len := 0\<rparr>) frame;
          cassert ok;
          Some (f, b) } }
      else do {
        b \<leftarrow> fragment_prepend_flags b 0 0 0 0;
        Some (f, b) })"

section \<open>Housekeeping\<close>

definition fragment_ttl_reap :: "c_time \<Rightarrow> fragment_master \<Rightarrow> fragment_master" where
  "fragment_ttl_reap now f = f\<lparr>fm_incoming := (fm_incoming f)\<lparr>fl_fragments :=
     map (\<lambda>g. if fg_defined g \<and> fg_timestamp g + FRAG_TTL_SEC \<le> now then g\<lparr>fg_defined := False\<rparr> else g)
       (fl_fragments (fm_incoming f))\<rparr>\<rparr>"

definition fragment_wakeup :: "c_time \<Rightarrow> fragment_master \<Rightarrow> fragment_master" where
  "fragment_wakeup now f = fragment_ttl_reap now f"

definition fragment_housekeeping ::
  "c_time \<Rightarrow> fragment_master \<Rightarrow> timeval option \<Rightarrow> fragment_master \<times> timeval option" where
  "fragment_housekeeping now f tv =
     (let (et, tv, due) = event_timeout_trigger now (fm_wakeup f) tv (-1); f = f\<lparr>fm_wakeup := et\<rparr> in
      (if due then fragment_wakeup now f else f, tv))"
section \<open>The size of the parts\<close>

lemma round_mask:
  "FRAG_SIZE_ROUND_MASK = 3" "x AND FRAG_SIZE_ROUND_MASK = x mod 4" "x AND NOT FRAG_SIZE_ROUND_MASK = x - x mod 4"
proof -
  show m: "FRAG_SIZE_ROUND_MASK = 3" by (simp add: FRAG_SIZE_ROUND_MASK_def FRAG_SIZE_ROUND_SHIFT_def)
  have k: "FRAG_SIZE_ROUND_MASK = mask 2" unfolding m by (simp add: mask_eq_exp_minus_1)
  show a: "x AND FRAG_SIZE_ROUND_MASK = x mod 4" unfolding k take_bit_eq_mask[symmetric] take_bit_eq_mod by simp
  have "(x AND FRAG_SIZE_ROUND_MASK) AND (x AND NOT FRAG_SIZE_ROUND_MASK) = 0"
    by (rule bit_eqI) (simp add: bit_simps)
  then have "(x AND FRAG_SIZE_ROUND_MASK) + (x AND NOT FRAG_SIZE_ROUND_MASK) =
      (x AND FRAG_SIZE_ROUND_MASK) OR (x AND NOT FRAG_SIZE_ROUND_MASK)" by (rule disjunctive_add_eq_or)
  also have "\<dots> = x" by (rule bit_eqI) (auto simp: bit_simps)
  finally show "x AND NOT FRAG_SIZE_ROUND_MASK = x - x mod 4" unfolding a by linarith
qed

text \<open>The number of parts of one size that a packet needs.\<close>

definition n_parts :: "int \<Rightarrow> int \<Rightarrow> int" where
  "n_parts len sz = (len + sz - 1) div sz"

lemma n_parts_mult: "0 < sz \<Longrightarrow> 0 < r \<Longrightarrow> r \<le> sz \<Longrightarrow> n_parts (sz * k + r) sz = k + 1"
  unfolding n_parts_def by (rule int_div_pos_eq[where r = "r - 1"]) (simp_all add: algebra_simps)

lemma n_parts_le:
  assumes "0 < sz" "len \<le> sz * k"
  shows "n_parts len sz \<le> k"
proof -
  have "n_parts len sz \<le> (sz * k + (sz - 1)) div sz"
    unfolding n_parts_def using assms by (intro zdiv_mono1) simp_all
  also have "\<dots> = k" by (rule int_div_pos_eq[where r = "sz - 1"]) (use assms(1) in simp_all)
  finally show ?thesis .
qed

lemma optimal_fragment_size_spec:
  assumes len: "0 < len" and mx: "4 \<le> mx"
  shows "\<exists>sz. optimal_fragment_size len mx = Some sz \<and> 0 < sz \<and> sz \<le> mx \<and> sz mod 4 = 0 \<and>
    n_parts len sz \<le> n_parts len (mx - mx mod 4)"
proof -
  define a where "a = mx - mx mod 4"
  define d where "d = len div a"
  define m where "m = len mod a"
  have a: "0 < a" "a \<le> mx" "a mod 4 = 0"
    using mx pos_mod_bound[of 4 mx] pos_mod_sign[of 4 mx] by (simp_all add: a_def mod_diff_eq)
  have l: "len = a * d + m" by (simp add: d_def m_def)
  have eq: "optimal_fragment_size len mx =
      Some (if d > 0 \<and> m > 0 \<and> m < a * 3 div 4
        then min a (mx - (mx - m) div (d + 1) + 3 - (mx - (mx - m) div (d + 1) + 3) mod 4) else a)"
    using a(1) unfolding optimal_fragment_size_def round_mask(3) Let_def a_def[symmetric] d_def[symmetric] m_def[symmetric]
    unfolding round_mask(1) by simp
  show ?thesis
  proof (cases "d > 0 \<and> m > 0 \<and> m < a * 3 div 4")
    case False
    have "optimal_fragment_size len mx = Some a" unfolding eq if_not_P[OF False] by simp
    then show ?thesis unfolding a_def[symmetric] by (intro exI[of _ a]) (simp add: a)
  next
    case True
    define v where "v = mx - (mx - m) div (d + 1)"
    define w where "w = v + 3 - (v + 3) mod 4"
    have o: "optimal_fragment_size len mx = Some (min a w)"
      unfolding eq if_P[OF True] v_def w_def by simp
    have m: "m < a" using a(1) by (simp add: m_def)
    have "(mx - m) div (d + 1) * (d + 1) \<le> mx - m"
      using True minus_mod_eq_div_mult[of "mx - m" "d + 1"] pos_mod_sign[of "d + 1" "mx - m"] by linarith
    then have "v * (d + 1) \<ge> mx * (d + 1) - (mx - m)" by (simp add: v_def algebra_simps)
    moreover have "a * d \<le> mx * d" using a(2) True by (intro mult_right_mono) auto
    ultimately have v: "len \<le> v * (d + 1)" using l by (simp add: algebra_simps)
    have v0: "0 < v"
    proof (rule ccontr)
      assume "\<not> 0 < v"
      then have "v * (d + 1) \<le> 0" using True by (intro mult_nonpos_nonneg) auto
      then show False using v len by simp
    qed
    have w: "v \<le> w" "w mod 4 = 0"
      using pos_mod_bound[of 4 "v + 3"] by (simp_all add: w_def mod_diff_eq)
    have "len \<le> min a w * (d + 1)"
    proof -
      have "v * (d + 1) \<le> w * (d + 1)" using w True by (intro mult_right_mono) auto
      moreover have "len \<le> a * (d + 1)" using l m by (simp add: algebra_simps)
      ultimately show ?thesis using v by (cases "a \<le> w") (simp_all add: min_def)
    qed
    then have "n_parts len (min a w) \<le> d + 1" using a w v0 by (intro n_parts_le) (simp_all add: mult.commute)
    also have "d + 1 = n_parts len a" unfolding l by (rule n_parts_mult[symmetric]) (use a True m in simp_all)
    finally have n: "n_parts len (min a w) \<le> n_parts len a" .
    have "0 < min a w" "min a w \<le> mx" "min a w mod 4 = 0" using a w v0 by (auto simp: min_def)
    then show ?thesis unfolding a_def[symmetric] using o n by (intro exI[of _ "min a w"]) simp
  qed
qed

section \<open>The header word\<close>

text \<open>A header packs and unpacks its four fields.\<close>

definition frag_word :: "u32 \<Rightarrow> nat \<Rightarrow> nat \<Rightarrow> nat \<Rightarrow> u32" where
  "frag_word type sq k s4 = of_nat (unat type + 4 * sq + 1024 * k + 32768 * s4)"

lemma unat_field:
  assumes "n < 2 ^ 32"
  shows "unat (drop_bit i (of_nat n :: u32) AND mask j) = n div 2 ^ i mod 2 ^ j"
proof -
  have "unat (of_nat n :: u32) = n" using assms by (simp add: unat_of_nat)
  then show ?thesis unfolding take_bit_eq_mask[symmetric] unsigned_take_bit_eq unat_drop_bit_eq
    by (simp add: take_bit_eq_mod drop_bit_eq_div)
qed

lemma frag_word_fields:
  assumes "sq < 256" "k < 32" "s4 < 16384" "unat type < 4"
  shows "drop_bit FRAG_TYPE_SHIFT (frag_word type sq k s4) AND FRAG_TYPE_MASK = type"
    "drop_bit FRAG_SEQ_ID_SHIFT (frag_word type sq k s4) AND FRAG_SEQ_ID_MASK = of_nat sq"
    "drop_bit FRAG_ID_SHIFT (frag_word type sq k s4) AND FRAG_ID_MASK = of_nat k"
    "drop_bit FRAG_SIZE_SHIFT (frag_word type sq k s4) AND FRAG_SIZE_MASK = of_nat s4"
proof -
  let ?n = "unat type + 4 * sq + 1024 * k + 32768 * s4"
  have n: "?n < 2 ^ 32" using assms by simp
  have fld: "unat (drop_bit i (frag_word type sq k s4) AND mask j) = ?n div 2 ^ i mod 2 ^ j" for i j
    using unat_field[OF n] unfolding frag_word_def by blast
  have m: "FRAG_TYPE_MASK = mask 2" "FRAG_SEQ_ID_MASK = mask 8" "FRAG_ID_MASK = mask 5" "FRAG_SIZE_MASK = mask 14"
    by (simp_all add: FRAG_TYPE_MASK_def FRAG_SEQ_ID_MASK_def FRAG_ID_MASK_def FRAG_SIZE_MASK_def mask_eq_exp_minus_1)
  note sh = FRAG_TYPE_SHIFT_def FRAG_SEQ_ID_SHIFT_def FRAG_ID_SHIFT_def FRAG_SIZE_SHIFT_def
  define t where "t = unat type"
  have t: "t < 4" using assms(4) by (simp add: t_def)
  have f1: "?n mod 4 = t" unfolding t_def[symmetric]
    by (rule mod_nat_eqI) (use t in \<open>simp_all add: dvd_add\<close>)
  have "?n div 4 = sq + 256 * k + 8192 * s4" unfolding t_def[symmetric]
    using t by (intro div_nat_eqI) auto
  then have f2: "?n div 4 mod 256 = sq" using assms(1) by (intro mod_nat_eqI) (simp_all add: dvd_add)
  have "?n div 1024 = k + 32 * s4" unfolding t_def[symmetric] using t assms(1) by (intro div_nat_eqI) auto
  then have f3: "?n div 1024 mod 32 = k" using assms(2) by (intro mod_nat_eqI) (simp_all add: dvd_add)
  have "?n div 32768 = s4" unfolding t_def[symmetric] using t assms(1,2) by (intro div_nat_eqI) auto
  then have f4: "?n div 32768 mod 16384 = s4" using assms(3) by simp
  show "drop_bit FRAG_TYPE_SHIFT (frag_word type sq k s4) AND FRAG_TYPE_MASK = type"
    unfolding m sh by (rule iffD2[OF word_unat_eq_iff]) (use fld[of 0 2] f1 t_def in simp)
  show "drop_bit FRAG_SEQ_ID_SHIFT (frag_word type sq k s4) AND FRAG_SEQ_ID_MASK = of_nat sq"
    unfolding m sh by (rule iffD2[OF word_unat_eq_iff]) (use fld[of 2 8] f2 assms in \<open>simp add: unat_of_nat\<close>)
  show "drop_bit FRAG_ID_SHIFT (frag_word type sq k s4) AND FRAG_ID_MASK = of_nat k"
    unfolding m sh by (rule iffD2[OF word_unat_eq_iff]) (use fld[of 10 5] f3 assms in \<open>simp add: unat_of_nat\<close>)
  show "drop_bit FRAG_SIZE_SHIFT (frag_word type sq k s4) AND FRAG_SIZE_MASK = of_nat s4"
    unfolding m sh by (rule iffD2[OF word_unat_eq_iff]) (use fld[of 15 14] f4 assms in \<open>simp add: unat_of_nat\<close>)
qed

lemma or_push_bit_add:
  fixes a b :: u32
  assumes "unat a < 2 ^ i"
  shows "a OR push_bit i b = a + push_bit i b"
proof -
  have "take_bit i a = a"
    by (rule iffD2[OF word_unat_eq_iff]) (use assms in \<open>simp add: unsigned_take_bit_eq take_bit_nat_eq_self\<close>)
  then have a: "bit a n \<Longrightarrow> n < i" for n by (metis bit_take_bit_iff)
  have "a AND push_bit i b = 0" by (rule bit_eqI) (auto simp: bit_simps dest!: a)
  from disjunctive_add_eq_or[OF this] show ?thesis by simp
qed

lemma unat_frag_sum: "n < 2 ^ 32 \<Longrightarrow> unat (of_nat n :: u32) = n" by (simp add: unat_of_nat)

lemma field_word:
  assumes "0 \<le> x" "x < 2 ^ j" "j \<le> 32"
  shows "(word_of_int x :: u32) AND mask j = of_nat (nat x)"
proof -
  have "(word_of_int x :: u32) = of_nat (nat x)" using assms(1) by simp
  moreover have "nat x < 2 ^ j" using assms(1,2) by (simp add: nat_less_iff)
  moreover from this have "nat x < 2 ^ 32"
    by (rule less_le_trans) (rule power_increasing[OF assms(3)], simp)
  ultimately show ?thesis using unat_field[of "nat x" 0 j]
    by (intro iffD2[OF word_unat_eq_iff]) (simp add: unat_frag_sum)
qed

lemma fragment_flags_word:
  assumes "type \<in> {0, 1, 2}" "0 \<le> sq" "sq < 256" "0 \<le> k" "k < 32" "0 \<le> sz" "sz < 65536"
  shows "fragment_flags type sq k sz =
    frag_word (word_of_int type) (nat sq) (nat k) (if type = 2 then nat (sz div 4) else 0)"
proof -
  define t where "t = nat type"
  have t: "t < 4" "type = int t" using assms(1) by (auto simp: t_def)
  have m: "FRAG_TYPE_MASK = mask 2" "FRAG_SEQ_ID_MASK = mask 8" "FRAG_ID_MASK = mask 5" "FRAG_SIZE_MASK = mask 14"
    by (simp_all add: FRAG_TYPE_MASK_def FRAG_SEQ_ID_MASK_def FRAG_ID_MASK_def FRAG_SIZE_MASK_def mask_eq_exp_minus_1)
  note sh = FRAG_TYPE_SHIFT_def FRAG_SEQ_ID_SHIFT_def FRAG_ID_SHIFT_def FRAG_SIZE_SHIFT_def FRAG_SIZE_ROUND_SHIFT_def
  have w: "(word_of_int type :: u32) AND mask 2 = of_nat t" "(word_of_int sq :: u32) AND mask 8 = of_nat (nat sq)"
    "(word_of_int k :: u32) AND mask 5 = of_nat (nat k)"
    "(word_of_int (drop_bit 2 sz) :: u32) AND mask 14 = of_nat (nat (sz div 4))"
    using field_word[of type 2] field_word[of sq 8] field_word[of k 5] field_word[of "sz div 4" 14] assms t
    by (simp_all add: drop_bit_eq_div)
  have p: "push_bit i (of_nat n :: u32) = of_nat (n * 2 ^ i)" for i n by (simp add: push_bit_eq_mult)
  have b: "nat sq < 256" "nat k < 32" using assms by linarith+
  have 1: "(of_nat t :: u32) OR push_bit 2 (of_nat (nat sq)) = of_nat (t + 4 * nat sq)"
    using t(1) unat_frag_sum[of t] by (subst or_push_bit_add) (simp_all add: p mult.commute)
  have 2: "(of_nat (t + 4 * nat sq) :: u32) OR push_bit 10 (of_nat (nat k)) = of_nat (t + 4 * nat sq + 1024 * nat k)"
    using t(1) b unat_frag_sum[of "t + 4 * nat sq"] by (subst or_push_bit_add) (simp_all add: p mult.commute)
  have 3: "(of_nat (t + 4 * nat sq + 1024 * nat k) :: u32) OR push_bit 15 (of_nat n) =
      of_nat (t + 4 * nat sq + 1024 * nat k + 32768 * n)" for n
    using t(1) b unat_frag_sum[of "t + 4 * nat sq + 1024 * nat k"] by (subst or_push_bit_add) (simp_all add: p mult.commute)
  have ut: "unat (word_of_int type :: u32) = t" using t unat_frag_sum[of t] by simp
  have f: "(of_nat t :: u32) OR push_bit 2 (of_nat (nat sq)) OR push_bit 10 (of_nat (nat k)) =
      of_nat (t + 4 * nat sq + 1024 * nat k)" by (simp only: or.assoc[symmetric] 1 2)
  show ?thesis
  proof (cases "type = 2")
    case True
    then have "\<not> ((word_of_int type :: u32) = FRAG_WHOLE \<or> (word_of_int type :: u32) = FRAG_YES_NOTLAST)"
      by (simp add: FRAG_WHOLE_def FRAG_YES_NOTLAST_def)
    then show ?thesis using True
      unfolding fragment_flags_def m sh w Let_def push_bit_0_id id_apply f frag_word_def ut by (simp only: if_False if_True 3 refl)
  next
    case False
    then have "(word_of_int type :: u32) = FRAG_WHOLE \<or> (word_of_int type :: u32) = FRAG_YES_NOTLAST"
      using assms(1) by (auto simp: FRAG_WHOLE_def FRAG_YES_NOTLAST_def)
    then show ?thesis using False
      unfolding fragment_flags_def m sh w Let_def push_bit_0_id id_apply f frag_word_def ut by simp
  qed
qed

section \<open>Sending the parts\<close>

text \<open>The packet that carries the bytes \<open>x\<close> as part \<open>k\<close>.\<close>

definition frag_packet :: "nat \<Rightarrow> nat \<Rightarrow> nat \<Rightarrow> bool \<Rightarrow> byte list \<Rightarrow> byte list" where
  "frag_packet sq sz k lst x = be32 (frag_word (if lst then 2 else 1) sq k (if lst then sz div 4 else 0)) @ x"

lemma fragment_prepend_flags_of:
  assumes "4 \<le> length p" "type \<in> {0, 1, 2}" "0 \<le> sq" "sq < 256" "0 \<le> k" "k < 32" "0 \<le> sz" "sz < 65536"
  shows "fragment_prepend_flags (buf_of p c q) type sq k sz =
    Some (buf_of (take (length p - 4) p)
      (be32 (frag_word (word_of_int type) (nat sq) (nat k) (if type = 2 then nat (sz div 4) else 0)) @ c) q)"
  using assms(1) fragment_flags_word[OF assms(2-)] by (simp add: fragment_prepend_flags_def buf_write_prepend_of)

definition frame_ok :: "frame \<Rightarrow> bool" where
  "frame_ok fr \<longleftrightarrow> 4 \<le> fr_headroom fr \<and> 0 \<le> fr_tailroom fr \<and> 4 \<le> fr_max_fragment_size fr \<and>
     fr_max_fragment_size fr < 65536 \<and> fr_max_fragment_size fr \<le> fr_payload_size fr \<and>
     fr_headroom fr + fr_payload_size fr + fr_tailroom fr < BUF_SIZE_MAX"

text \<open>A block of the frame's size.\<close>

definition frame_block :: "frame \<Rightarrow> buffer \<Rightarrow> bool" where
  "frame_block fr b \<longleftrightarrow> buf_live b \<and> b_capacity b = BUF_SIZE fr"

lemma frame_block_repr:
  "frame_block fr b \<longleftrightarrow> (\<exists>p c q. b = buf_of p c q \<and> buf_fits p c q \<and> int (length p + length c + length q) = BUF_SIZE fr)"
proof -
  have "b_capacity (buf_of p c q) = int (length p + length c + length q)" for p c q by simp
  then show ?thesis unfolding frame_block_def buf_live_repr by metis
qed

text \<open>Initialised for the headroom, the block has room for a whole packet.\<close>

lemma frame_block_init:
  assumes "frame_ok fr" "frame_block fr b"
  shows "\<exists>p q. buf_init b (fr_headroom fr) = (buf_of p [] q, True) \<and> buf_fits p [] q \<and>
    int (length p) = fr_headroom fr \<and> int (length q) = fr_payload_size fr + fr_tailroom fr"
proof -
  obtain p c q where b: "b = buf_of p c q" "buf_fits p c q" "int (length p + length c + length q) = BUF_SIZE fr"
    using assms(2) frame_block_repr by blast
  define d where "d = p @ c @ q"
  define h where "h = nat (fr_headroom fr)"
  have ld: "length d = length p + length c + length q" by (simp add: d_def)
  have l: "int (length d) = BUF_SIZE fr" using b(3) by (simp add: d_def)
  have h: "int h = fr_headroom fr" using assms(1) by (simp add: h_def frame_ok_def)
  moreover have "fr_headroom fr \<le> int (length d)" using assms(1) l by (simp add: frame_ok_def BUF_SIZE_def)
  ultimately have h: "int h = fr_headroom fr" "h \<le> length d" by simp_all
  have "buf_init b (fr_headroom fr) = (buf_of (take h d) [] (drop h d), True)"
    using h b(3) assms(1) l unfolding b(1) d_def h_def
    by (simp add: buf_init_of frame_ok_def del: take_append drop_append)
  moreover have "buf_fits (take h d) [] (drop h d)" using b(2) by (rule buf_fits_split) (use h(2) ld in simp)
  moreover have "int (length (take h d)) = fr_headroom fr" "int (length (drop h d)) = fr_payload_size fr + fr_tailroom fr"
    using h l by (simp_all add: BUF_SIZE_def of_nat_diff)
  ultimately show ?thesis by blast
qed

lemma buf_live_of: "buf_fits p c q \<Longrightarrow> buf_live (buf_of p c q)"
  by (simp add: buf_live_def)

lemma frame_block_of:
  "buf_fits p c q \<Longrightarrow> int (length p + length c + length q) = BUF_SIZE fr \<Longrightarrow> frame_block fr (buf_of p c q)"
  by (simp add: frame_block_def buf_live_of)

lemma frame_block_data:
  assumes "frame_block fr b" "frame_block fr b'"
  shows "frame_block fr (b\<lparr>b_data := b_data b'\<rparr>)"
  using assms by (cases "b_data b'"; cases "b_data b")
    (auto simp: frame_block_def buf_live_def buf_ok_def buf_defined_def clear_buf_def)

text \<open>One call of \<open>fragment_ready_to_send\<close> while bytes are left.\<close>

lemma fragment_ready_step:
  assumes fr: "frame_ok fr" and ret: "frame_block fr (fm_outgoing_return f)"
    and out: "fm_outgoing f = buf_of p c q" "buf_fits p c q" "c \<noteq> []"
    and sz: "fm_outgoing_frag_size f = int s" "0 < s" "int s \<le> fr_max_fragment_size fr"
    and sq: "fm_outgoing_seq_id f = int sq" "sq < 256" and k: "fm_outgoing_frag_id f = int k" "k < 32"
  shows "\<exists>f' b. fragment_ready_to_send f b0 fr = Some (f', b, True) \<and> buf_live b \<and>
    buf_content b = frag_packet sq s k (length c \<le> s) (take s c) \<and>
    f' = f\<lparr>fm_outgoing := buf_of (p @ take s c) (drop s c) q, fm_outgoing_frag_id := int (Suc k),
           fm_outgoing_return := fm_outgoing_return f'\<rparr> \<and> frame_block fr (fm_outgoing_return f')"
proof -
  obtain h t where i: "buf_init (fm_outgoing_return f) (fr_headroom fr) = (buf_of h [] t, True)" "buf_fits h [] t"
    "int (length h) = fr_headroom fr" "int (length t) = fr_payload_size fr + fr_tailroom fr"
    using frame_block_init[OF fr ret] by blast
  define lst where "lst = (length c \<le> s)"
  define n where "n = (if lst then length c else s)"
  have n: "n \<le> s" "n \<le> length c" "take n c = take s c" "drop n c = drop s c"
    by (auto simp: n_def lst_def)
  have nt: "n \<le> length t" using n(1) sz(3) i(4) fr by (simp add: frame_ok_def)
  have cp: "buf_copy_n (buf_of h [] t) (buf_of p c q) (int n) =
      Some (buf_of h (take s c) (drop n t), buf_of (p @ take s c) (drop s c) q, True)"
    using i(2) n nt by (simp add: buf_copy_n_of Let_def)
  have szs: "int s < 65536" "4 \<le> length h" using sz(3) fr i(3) by (simp_all add: frame_ok_def)
  define w where "w = be32 (frag_word (if lst then 2 else 1) sq k (if lst then s div 4 else 0))"
  have "fragment_prepend_flags (buf_of h (take s c) (drop n t)) (if lst then 2 else 1) (int sq) (int k) (int s) =
      Some (buf_of (take (length h - 4) h) (w @ take s c) (drop n t))"
    using fragment_prepend_flags_of[of h "if lst then 2 else 1" "int sq" "int k" "int s" "take s c" "drop n t"]
      szs sq(2) k(2) by (simp add: w_def nat_div_distrib split: if_splits)
  moreover define b where "b = buf_of (take (length h - 4) h) (w @ take s c) (drop n t)"
  ultimately have pf: "fragment_prepend_flags (buf_of h (take s c) (drop n t)) (if lst then 2 else 1) (int sq) (int k) (int s) = Some b"
    by simp
  define f' where "f' = f\<lparr>fm_outgoing := buf_of (p @ take s c) (drop s c) q, fm_outgoing_frag_id := int (Suc k),
           fm_outgoing_return := (fm_outgoing_return f)\<lparr>b_data := b_data b\<rparr>\<rparr>"
  have lc: "(int (length c) \<le> int s) = lst" "(if lst then int (length c) else int s) = int n"
    by (simp_all add: lst_def n_def)
  have all_sent: "\<not> lst \<or> drop s c = []" by (simp add: lst_def)
  have "fragment_outgoing_defined f" using out by (simp add: fragment_outgoing_defined_def)
  then have r: "fragment_ready_to_send f b0 fr = Some (f', b, True)"
    using all_sent pf cp unfolding fragment_ready_to_send_def out(1) sz(1) buf_of_sel lc Let_def i(1) n(3,4)
    by (cases lst) (simp_all add: f'_def sz(1) sq(1) k(1))
  have lw: "length w = 4" by (simp add: w_def)
  have fit: "buf_fits (take (length h - 4) h) (w @ take s c) (drop n t)"
    using i(2) by (rule buf_fits_split) (use szs(2) n(1,2) nt lw in \<open>auto simp: min_def n_def lst_def split: if_splits\<close>)
  have cap: "int (length (take (length h - 4) h) + length (w @ take s c) + length (drop n t)) = BUF_SIZE fr"
    using szs(2) n(1,2) nt lw i(3,4) by (auto simp: BUF_SIZE_def min_def n_def lst_def of_nat_diff split: if_splits)
  have "frame_block fr b" unfolding b_def using fit cap by (rule frame_block_of)
  then have "frame_block fr (fm_outgoing_return f')" using frame_block_data[OF ret] by (simp add: f'_def)
  moreover have "buf_content b = frag_packet sq s k (length c \<le> s) (take s c)"
    by (simp add: b_def frag_packet_def w_def lst_def)
  moreover have "buf_live b" using fit by (simp add: b_def buf_live_of)
  ultimately show ?thesis using r by (intro exI[of _ f'] exI[of _ b]) (simp add: f'_def)
qed

text \<open>
  The caller's loop: while parts are left, each event loop iteration sends the next one
  (\<open>check_fragment\<close> in \<open>forward.c\<close> calls \<open>fragment_ready_to_send\<close> whenever no packet is waiting).
\<close>

fun send_parts :: "nat \<Rightarrow> frame \<Rightarrow> fragment_master \<Rightarrow> (fragment_master \<times> byte list list) option" where
  "send_parts 0 fr f = Some (f, [])"
| "send_parts (Suc n) fr f = do {
     (f, b, ok) \<leftarrow> fragment_ready_to_send f clear_buf fr;
     if ok then do { (f, ps) \<leftarrow> send_parts n fr f; Some (f, buf_content b # ps) } else Some (f, []) }"

text \<open>The parts of \<open>data\<close> from part \<open>k\<close> on.\<close>

function parts_from :: "nat \<Rightarrow> nat \<Rightarrow> nat \<Rightarrow> byte list \<Rightarrow> byte list list" where
  "parts_from sq s k c = (if c = [] \<or> s = 0 then []
     else frag_packet sq s k (length c \<le> s) (take s c) # parts_from sq s (Suc k) (drop s c))"
  by pat_completeness auto
termination by (relation "measure (\<lambda>(sq, s, k, c). length c)") auto

declare parts_from.simps [simp del]

lemma send_parts_spec:
  assumes "frame_ok fr" "frame_block fr (fm_outgoing_return f)" "fm_outgoing f = buf_of p c q" "buf_fits p c q"
    "fm_outgoing_frag_size f = int s" "0 < s" "int s \<le> fr_max_fragment_size fr"
    "fm_outgoing_seq_id f = int sq" "sq < 256" "fm_outgoing_frag_id f = int k" "length c \<le> s * n" "k + n \<le> 32"
  shows "\<exists>f'. send_parts n fr f = Some (f', parts_from sq s k c) \<and> b_len (fm_outgoing f') = 0 \<and>
    frame_block fr (fm_outgoing_return f') \<and> (\<exists>p' q'. fm_outgoing f' = buf_of p' [] q' \<and> buf_fits p' [] q' \<and>
      length p' + length q' = length p + length c + length q) \<and> fm_outgoing_seq_id f' = int sq \<and> fm_incoming f' = fm_incoming f"
  using assms
proof (induction n arbitrary: f p c k)
  case 0
  then have "c = []" by simp
  then show ?case using 0 by (auto simp: parts_from.simps)
next
  case (Suc n)
  show ?case
  proof (cases "c = []")
    case True
    then show ?thesis using Suc.prems
      by (auto simp: parts_from.simps fragment_ready_to_send_def fragment_outgoing_defined_def)
  next
    case False
    obtain f1 b where r: "fragment_ready_to_send f clear_buf fr = Some (f1, b, True)"
      "buf_content b = frag_packet sq s k (length c \<le> s) (take s c)"
      "f1 = f\<lparr>fm_outgoing := buf_of (p @ take s c) (drop s c) q, fm_outgoing_frag_id := int (Suc k),
           fm_outgoing_return := fm_outgoing_return f1\<rparr>" "frame_block fr (fm_outgoing_return f1)"
      using fragment_ready_step[OF Suc.prems(1-4) False Suc.prems(5-10), of clear_buf] Suc.prems(12) by auto
    define g where "g = fm_outgoing_return f1"
    have f1: "f1 = f\<lparr>fm_outgoing := buf_of (p @ take s c) (drop s c) q, fm_outgoing_frag_id := int (Suc k),
           fm_outgoing_return := g\<rparr>" "frame_block fr g" using r(3,4) by (simp_all add: g_def)
    have fit: "buf_fits (p @ take s c) (drop s c) q"
      using Suc.prems(4) by (rule buf_fits_split) simp
    obtain f2 where f2: "send_parts n fr f1 = Some (f2, parts_from sq s (Suc k) (drop s c))"
      "b_len (fm_outgoing f2) = 0" "frame_block fr (fm_outgoing_return f2)"
      "\<exists>p' q'. fm_outgoing f2 = buf_of p' [] q' \<and> buf_fits p' [] q' \<and>
         length p' + length q' = length (p @ take s c) + length (drop s c) + length q"
      "fm_outgoing_seq_id f2 = int sq" "fm_incoming f2 = fm_incoming f1"
    proof -
      have "length (drop s c) \<le> s * n" using Suc.prems(11) by simp
      then have "\<exists>f'. send_parts n fr f1 = Some (f', parts_from sq s (Suc k) (drop s c)) \<and>
          b_len (fm_outgoing f') = 0 \<and> frame_block fr (fm_outgoing_return f') \<and>
          (\<exists>p' q'. fm_outgoing f' = buf_of p' [] q' \<and> buf_fits p' [] q' \<and>
            length p' + length q' = length (p @ take s c) + length (drop s c) + length q) \<and>
          fm_outgoing_seq_id f' = int sq \<and> fm_incoming f' = fm_incoming f1"
        using Suc.prems fit f1(2) by (intro Suc.IH) (simp_all add: f1(1))
      then show ?thesis using that by blast
    qed
    have "send_parts (Suc n) fr f = Some (f2, parts_from sq s k c)"
      using r(1,2) f2(1) False Suc.prems(6) by (subst parts_from.simps) simp
    then show ?thesis using f2 f1 by (auto simp: min_def split: if_splits)
  qed
qed

section \<open>Reassembly\<close>

definition frag_state_ok :: "frame \<Rightarrow> fragment_list \<Rightarrow> bool" where
  "frag_state_ok fr l \<longleftrightarrow> length (fl_fragments l) = 25 \<and> (\<forall>g \<in> set (fl_fragments l). frame_block fr (fg_buf g)) \<and>
     0 \<le> fl_index l \<and> fl_index l < 25 \<and> 0 \<le> fl_seq_id l \<and> fl_seq_id l < 256"

lemma frag_state_ok_update:
  assumes "frag_state_ok fr l" "frame_block fr (fg_buf g)"
  shows "frag_state_ok fr (l\<lparr>fl_fragments := (fl_fragments l)[i := g]\<rparr>)"
  using assms set_update_subset_insert[of "fl_fragments l" i g] by (auto simp: frag_state_ok_def)

lemma window_advance_ok:
  assumes "frag_state_ok fr l"
  shows "\<exists>l'. window_advance n l = Some l' \<and> frag_state_ok fr l' \<and> fl_seq_id l' = (fl_seq_id l + int n) mod 256 \<and>
    (n > 0 \<or> \<not> fg_defined (fl_fragments l ! nat (fl_index l)) \<longrightarrow> \<not> fg_defined (fl_fragments l' ! nat (fl_index l')))"
  using assms
proof (induction n arbitrary: l)
  case 0
  then show ?case by (simp add: frag_state_ok_def)
next
  case (Suc n)
  let ?i = "(fl_index l + 1) mod 25" and ?s = "(fl_seq_id l + 1) mod 256"
  let ?g = "(fl_fragments l ! nat ?i)\<lparr>fg_defined := False\<rparr>"
  define m where "m = l\<lparr>fl_index := ?i, fl_fragments := (fl_fragments l)[nat ?i := ?g], fl_seq_id := ?s\<rparr>"
  have i: "nat ?i < 25" by (simp add: nat_less_iff)
  have a: "modulo_add (fl_index l) 1 N_FRAG_BUF = Some ?i" "modulo_add (fl_seq_id l) 1 N_SEQ_ID = Some ?s"
    using Suc.prems by (auto simp: frag_state_ok_def N_FRAG_BUF_def N_SEQ_ID_def modulo_add_mod)
  have "frame_block fr (fg_buf ?g)" using Suc.prems i by (simp add: frag_state_ok_def)
  then have "frag_state_ok fr (l\<lparr>fl_fragments := (fl_fragments l)[nat ?i := ?g]\<rparr>)"
    using frag_state_ok_update[OF Suc.prems] by blast
  then have m: "frag_state_ok fr m" by (simp add: frag_state_ok_def m_def)
  have u: "\<not> fg_defined (fl_fragments m ! nat (fl_index m))"
    using i Suc.prems by (simp add: m_def frag_state_ok_def)
  have w: "window_advance (Suc n) l = window_advance n m" by (simp add: a m_def)
  have "fl_seq_id m + int n = ?s + int n" by (simp add: m_def)
  then have "(fl_seq_id m + int n) mod 256 = (fl_seq_id l + int (Suc n)) mod 256" by (simp add: mod_simps add.assoc)
  then show ?case using Suc.IH[OF m] u w by auto
qed

text \<open>Any sequence id of the protocol has a buffer.\<close>

lemma fragment_list_get_buf_ok:
  assumes ok: "frag_state_ok fr l" and sq: "0 \<le> sq" "sq < 256"
  shows "\<exists>l' i. fragment_list_get_buf l sq = Some (l', i) \<and> frag_state_ok fr l' \<and> i < 25"
proof -
  obtain d where d: "modulo_subtract sq (fl_seq_id l) 256 = Some d" "2 * \<bar>d\<bar> \<le> 256"
    using modulo_subtract_shortest[of sq 256 "fl_seq_id l"] ok sq by (auto simp: frag_state_ok_def)
  define r where "r = (\<bar>d\<bar> \<ge> N_FRAG_BUF)"
  define m where "m = (if r
    then l\<lparr>fl_fragments := map (\<lambda>g. g\<lparr>fg_defined := False\<rparr>) (fl_fragments l), fl_index := 0, fl_seq_id := sq\<rparr> else l)"
  define e where "e = (if r then 0 else d)"
  have m: "frag_state_ok fr m" using ok sq by (auto simp: m_def frag_state_ok_def)
  obtain n where n: "window_advance (nat e) m = Some n" "frag_state_ok fr n"
    using window_advance_ok[OF m] by blast
  define j where "j = (if e > 0 then 0 else e)"
  have "- 25 \<le> j" "j \<le> 25" by (auto simp: j_def e_def r_def N_FRAG_BUF_def)
  then have i: "modulo_add (fl_index n) j N_FRAG_BUF = Some ((fl_index n + j) mod 25)"
    using n(2) by (auto simp: frag_state_ok_def N_FRAG_BUF_def modulo_add_mod)
  have "fragment_list_get_buf l sq = Some (n, nat ((fl_index n + j) mod 25))"
    using d(1) n(1) i unfolding fragment_list_get_buf_def N_SEQ_ID_def j_def e_def m_def r_def
    by (auto simp: Let_def)
  moreover have "nat ((fl_index n + j) mod 25) < 25" by (simp add: nat_less_iff)
  ultimately show ?thesis using n(2) by blast
qed

definition fragment_seq_new :: "fragment_list \<Rightarrow> nat \<Rightarrow> bool" where
  "fragment_seq_new l sq \<longleftrightarrow> (\<exists>d. modulo_subtract (int sq) (fl_seq_id l) N_SEQ_ID = Some d \<and> (0 < d \<or> d \<le> - N_FRAG_BUF))"

lemma fragment_list_get_new:
  assumes ok: "frag_state_ok fr l" and sq: "sq < 256" and new: "fragment_seq_new l sq"
  shows "\<exists>l' i. fragment_list_get_buf l (int sq) = Some (l', i) \<and> frag_state_ok fr l' \<and> i < 25 \<and>
    fl_seq_id l' = int sq \<and> fl_index l' = int i \<and> \<not> fg_defined (fl_fragments l' ! i)"
proof -
  obtain d where d: "modulo_subtract (int sq) (fl_seq_id l) 256 = Some d" "0 < d \<or> d \<le> - N_FRAG_BUF"
    using new by (auto simp: fragment_seq_new_def N_SEQ_ID_def)
  have dm: "(fl_seq_id l + d) mod 256 = int sq"
    using modulo_subtract_shortest[of "int sq" 256 "fl_seq_id l"] ok sq d(1) by (auto simp: frag_state_ok_def)
  show ?thesis
  proof (cases "\<bar>d\<bar> \<ge> N_FRAG_BUF")
    case True
    let ?m = "l\<lparr>fl_fragments := map (\<lambda>g. g\<lparr>fg_defined := False\<rparr>) (fl_fragments l), fl_index := 0, fl_seq_id := int sq\<rparr>"
    have "fragment_list_get_buf l (int sq) = Some (?m, 0)"
      using d(1) True unfolding fragment_list_get_buf_def N_SEQ_ID_def
      by (simp add: modulo_add_mod N_FRAG_BUF_def)
    moreover have "frag_state_ok fr ?m" using ok sq by (auto simp: frag_state_ok_def)
    moreover have "\<not> fg_defined (fl_fragments ?m ! 0)" using ok by (simp add: frag_state_ok_def)
    ultimately show ?thesis by (intro exI[of _ ?m] exI[of _ 0]) simp
  next
    case False
    then have d0: "0 < d" "d < 25" using d(2) by (auto simp: N_FRAG_BUF_def)
    obtain n where n: "window_advance (nat d) l = Some n" "frag_state_ok fr n" "fl_seq_id n = int sq"
      "\<not> fg_defined (fl_fragments n ! nat (fl_index n))"
      using window_advance_ok[OF ok, of "nat d"] d0 dm by auto
    have "fragment_list_get_buf l (int sq) = Some (n, nat (fl_index n))"
      using d(1) False n(1,2) d0 unfolding fragment_list_get_buf_def N_SEQ_ID_def
      by (simp add: modulo_add_mod N_FRAG_BUF_def frag_state_ok_def)
    moreover have "nat (fl_index n) < 25" "fl_index n = int (nat (fl_index n))" using n(2) by (auto simp: frag_state_ok_def)
    ultimately show ?thesis using n by blast
  qed
qed

lemma fragment_list_get_current:
  assumes "frag_state_ok fr l" "fl_seq_id l = int sq" "fl_index l = int i"
  shows "fragment_list_get_buf l (int sq) = Some (l, i)"
  using assms unfolding fragment_list_get_buf_def
  by (simp add: modulo_subtract_def N_SEQ_ID_def N_FRAG_BUF_def frag_state_ok_def modulo_add_mod Let_def)

text \<open>The state of a buffer that has received the parts \<open>S\<close> of \<open>n\<close> parts of \<open>data\<close>.\<close>

definition slot_has :: "frame \<Rightarrow> byte list \<Rightarrow> nat \<Rightarrow> nat \<Rightarrow> nat set \<Rightarrow> fragment \<Rightarrow> bool" where
  "slot_has fr data s n S g \<longleftrightarrow> fg_defined g \<and> fg_max_frag_size g = int s \<and>
     (\<forall>k<32. bit (fg_map g) k \<longleftrightarrow> min k (n - 1) \<in> S) \<and>
     (\<exists>p c q. fg_buf g = buf_of p c q \<and> buf_fits p c q \<and> int (length p) = fr_headroom fr \<and>
        int (length p + length c + length q) = BUF_SIZE fr \<and> length c \<le> length data \<and>
        (n - 1 \<in> S \<longrightarrow> length c = length data) \<and>
        (\<forall>x<length data. x div s \<in> S \<longrightarrow> (c @ q) ! x = data ! x))"

lemma frag_map_mask: "FRAG_MAP_MASK = - 1" by (simp add: FRAG_MAP_MASK_def)

lemma map_complete:
  assumes m: "\<forall>k<32. bit (m :: u32) k \<longleftrightarrow> min k (n - 1) \<in> S" and n: "0 < n" "n \<le> 32" and S: "S \<subseteq> {..<n}"
  shows "m AND FRAG_MAP_MASK = FRAG_MAP_MASK \<longleftrightarrow> S = {..<n}"
proof -
  have "m AND FRAG_MAP_MASK = FRAG_MAP_MASK \<longleftrightarrow> m = - 1" by (simp add: frag_map_mask)
  also have "\<dots> \<longleftrightarrow> (\<forall>k<32. bit m k)" by (auto simp: bit_eq_iff)
  also have "\<dots> \<longleftrightarrow> (\<forall>k<32. min k (n - 1) \<in> S)" using m by blast
  also have "\<dots> \<longleftrightarrow> S = {..<n}"
  proof
    assume a: "\<forall>k<32. min k (n - 1) \<in> S"
    have "k \<in> S" if "k < n" for k
    proof -
      have "k < 32" using that n(2) by linarith
      then have "min k (n - 1) \<in> S" by (rule a[rule_format])
      moreover have "min k (n - 1) = k" using that by simp
      ultimately show ?thesis by simp
    qed
    then show "S = {..<n}" using S by auto
  qed (use n(1) in auto)
  finally show ?thesis .
qed

lemma map_add_part:
  assumes "\<forall>j<32. bit (m :: u32) j \<longleftrightarrow> min j (n - 1) \<in> S" "k < n" "n \<le> 32"
  shows "\<forall>j<32. bit (m OR push_bit k (if k = n - 1 then FRAG_MAP_MASK else 1)) j \<longleftrightarrow> min j (n - 1) \<in> insert k S"
proof (intro allI impI)
  fix j :: nat assume j: "j < 32"
  have "bit (push_bit k (if k = n - 1 then FRAG_MAP_MASK else (1 :: u32))) j \<longleftrightarrow> min j (n - 1) = k"
    using j assms(2,3) by (auto simp: bit_simps frag_map_mask min_def)
  then show "bit (m OR push_bit k (if k = n - 1 then FRAG_MAP_MASK else 1)) j \<longleftrightarrow> min j (n - 1) \<in> insert k S"
    using assms(1) j by (simp add: bit_or_iff) blast
qed

text \<open>The length and the place of part \<open>k\<close>.\<close>

lemma part_bounds:
  fixes s n k y len :: nat
  assumes "0 < s" "k < n" "(n - 1) * s < len" "len \<le> n * s"
  shows "k * s < len" "k * s + min s (len - k * s) \<le> len" "k = n - 1 \<Longrightarrow> k * s + min s (len - k * s) = len"
    "y < len \<Longrightarrow> y div s = k \<longleftrightarrow> k * s \<le> y \<and> y < k * s + min s (len - k * s)"
    "k < n - 1 \<Longrightarrow> min s (len - k * s) = s"
proof -
  have ks: "k * s \<le> (n - 1) * s" using assms(2) by (intro mult_le_mono1) simp
  show 1: "k * s < len" using ks assms(3) by linarith
  show "k * s + min s (len - k * s) \<le> len" using 1 by simp
  show "k = n - 1 \<Longrightarrow> k * s + min s (len - k * s) = len"
  proof -
    assume "k = n - 1"
    then have "n * s = k * s + s" using assms(2) by (cases n) simp_all
    then show "k * s + min s (len - k * s) = len" using 1 assms(4) by linarith
  qed
  show "y < len \<Longrightarrow> y div s = k \<longleftrightarrow> k * s \<le> y \<and> y < k * s + min s (len - k * s)"
    using assms(1) div_nat_eqI[of s k y] dividend_less_div_times[of s y] div_times_less_eq_dividend[of y s]
    by (auto simp: mult.commute)
  show "k < n - 1 \<Longrightarrow> min s (len - k * s) = s"
  proof -
    assume "k < n - 1"
    then have "Suc k * s \<le> (n - 1) * s" by (intro mult_le_mono1) simp
    then show "min s (len - k * s) = s" using assms(3) by simp
  qed
qed

text \<open>Copying part \<open>k\<close> into the buffer.\<close>

lemma slot_copy:
  assumes h: "slot_has fr data s n S g" and fr: "int (length data) \<le> fr_payload_size fr + fr_tailroom fr" "n \<le> 32"
    and s: "0 < s" "k < n" "(n - 1) * s < length data" "length data \<le> n * s"
    and x: "x = take s (drop (k * s) data)" "b = buf_of bp x bq"
  shows "\<exists>fb. buf_copy_range (fg_buf g) (int k * int s) b 0 (int (length x)) = Some (fb, True) \<and>
    slot_has fr data s n (insert k S) (g\<lparr>fg_buf := fb, fg_map := fg_map g OR push_bit k (if k = n - 1 then FRAG_MAP_MASK else 1),
      fg_timestamp := now\<rparr>)"
proof -
  obtain p c q where g: "fg_buf g = buf_of p c q" "buf_fits p c q" "int (length p) = fr_headroom fr"
    "int (length p + length c + length q) = BUF_SIZE fr" "length c \<le> length data"
    "n - 1 \<in> S \<longrightarrow> length c = length data" "\<forall>x<length data. x div s \<in> S \<longrightarrow> (c @ q) ! x = data ! x"
    using h unfolding slot_has_def by blast
  note pb = part_bounds[OF s]
  have lx: "length x = min s (length data - k * s)" by (simp add: x(1) min.commute)
  define d where "d = c @ q"
  define m where "m = max (length c) (k * s + length x)"
  define d' where "d' = take (k * s) d @ x @ drop (k * s + length x) d"
  have ld: "length data \<le> length d" using g(3,4) fr(1) by (simp add: d_def BUF_SIZE_def)
  have ks: "k * s + length x \<le> length data" unfolding lx by (rule pb(2))
  have ld': "length d' = length d" using ks ld by (simp add: d'_def)
  have lm: "m \<le> length data" using ks g(5) by (simp add: m_def)
  have fb: "buf_copy_range (fg_buf g) (int k * int s) b 0 (int (length x)) = Some (buf_of p (take m d') (drop m d'), True)"
  proof -
    have "int k * int s + int (length x) \<le> int (length c + length q)" using ks ld by (simp add: d_def flip: of_nat_mult of_nat_add)
    moreover have "nat (int k * int s) = k * s" by (simp flip: of_nat_mult)
    ultimately have "buf_copy_range (fg_buf g) (int k * int s) b 0 (int (length x)) = Some (buf_at p d' m, True)"
      using buf_copy_range_at[OF g(2), of "int k * int s" x b bp bq] x(2) g(1) unfolding d'_def m_def d_def by simp
    moreover have "m \<le> length d'" using lm ld ld' by linarith
    ultimately show ?thesis by (simp add: buf_at_of)
  qed
  have n1: "n - 1 \<in> insert k S \<longrightarrow> m = length data"
    using pb(3) g(5,6) ks lm unfolding m_def lx by (auto simp: max_def)
  have pt: "d' ! y = data ! y" if y: "y < length data" "y div s \<in> insert k S" for y
  proof (cases "y div s = k")
    case True
    then have yk: "k * s \<le> y" "y < k * s + length x" using pb(4)[OF y(1)] lx by auto
    then have "y - k * s < length x" by linarith
    then have "d' ! y = x ! (y - k * s)" using ld ks yk by (simp add: d'_def nth_append)
    then show ?thesis using yk by (simp add: x(1))
  next
    case False
    then have yk: "y < k * s \<or> k * s + length x \<le> y" using pb(4)[OF y(1)] lx by auto
    then have "d' ! y = d ! y" using ld ks y(1) by (auto simp: d'_def nth_append)
    moreover have "y div s \<in> S" using False y(2) by blast
    ultimately show ?thesis using g(7) y(1) by (simp add: d_def)
  qed
  have lens: "length (take m d') + length (drop m d') = length c + length q"
    using ld' lm ld by (simp add: d_def)
  have fit: "buf_fits p (take m d') (drop m d')" using g(2) by (rule buf_fits_split) (use lens in simp)
  have cap: "int (length p + length (take m d') + length (drop m d')) = BUF_SIZE fr" using lens g(4) by linarith
  have lt: "length (take m d') = m" using lm ld ld' by simp
  have ex: "\<exists>pa c qa. buf_of p (take m d') (drop m d') = buf_of pa c qa \<and> buf_fits pa c qa \<and> int (length pa) = fr_headroom fr \<and>
        int (length pa + length c + length qa) = BUF_SIZE fr \<and> length c \<le> length data \<and>
        (n - 1 \<in> insert k S \<longrightarrow> length c = length data) \<and>
        (\<forall>x<length data. x div s \<in> insert k S \<longrightarrow> (c @ qa) ! x = data ! x)"
    using fit cap lm lt n1 pt g(3) by (intro exI[of _ p] exI[of _ "take m d'"] exI[of _ "drop m d'"]) simp
  have mp: "\<forall>j<32. bit (fg_map g OR push_bit k (if k = n - 1 then FRAG_MAP_MASK else 1)) j \<longleftrightarrow> min j (n - 1) \<in> insert k S"
    using map_add_part[of "fg_map g" n S k] h s(2) fr(2) by (simp add: slot_has_def)
  have dm: "fg_defined g" "fg_max_frag_size g = int s" using h by (simp_all add: slot_has_def)
  have "slot_has fr data s n (insert k S) (g\<lparr>fg_buf := buf_of p (take m d') (drop m d'),
      fg_map := fg_map g OR push_bit k (if k = n - 1 then FRAG_MAP_MASK else 1), fg_timestamp := now\<rparr>)"
    unfolding slot_has_def fragment.select_convs fragment.update_convs using dm mp ex by simp
  then show ?thesis using fb by blast
qed

lemma slot_has_all:
  assumes "slot_has fr data s n {..<n} g" "0 < s" "0 < n" "length data \<le> n * s"
  shows "buf_content (fg_buf g) = data \<and> buf_live (fg_buf g)"
proof -
  obtain p c q where g: "fg_buf g = buf_of p c q" "buf_fits p c q" "length c = length data"
    "\<forall>x<length data. x div s \<in> {..<n} \<longrightarrow> (c @ q) ! x = data ! x"
    using assms(1,3) unfolding slot_has_def by auto
  have "c ! x = data ! x" if "x < length data" for x
  proof -
    have "x div s < n" using that assms(2,4) by (simp add: less_mult_imp_div_less)
    then show ?thesis using g(3,4) that by (simp add: nth_append)
  qed
  then have "c = data" using g(3) by (intro nth_equalityI) simp_all
  then show ?thesis using g(1,2) by (simp add: buf_live_of)
qed

text \<open>The buffer the code works on: reset when it is unused or holds parts of another size.\<close>

definition slot_reset :: "frame \<Rightarrow> int \<Rightarrow> fragment \<Rightarrow> fragment" where
  "slot_reset fr s g = (if \<not> fg_defined g \<or> fg_max_frag_size g \<noteq> s
     then g\<lparr>fg_defined := True, fg_max_frag_size := s, fg_map := 0, fg_buf := fst (buf_init (fg_buf g) (fr_headroom fr))\<rparr>
     else g)"

lemma slot_reset_has:
  assumes "frame_ok fr" "frame_block fr (fg_buf g)" "(\<not> fg_defined g \<and> S = {}) \<or> slot_has fr data s n S g"
  shows "slot_has fr data s n S (slot_reset fr (int s) g)"
proof (cases "fg_defined g")
  case True
  then show ?thesis using assms(3) by (auto simp: slot_reset_def slot_has_def)
next
  case False
  obtain p q where i: "buf_init (fg_buf g) (fr_headroom fr) = (buf_of p [] q, True)" "buf_fits p [] q"
    "int (length p) = fr_headroom fr" "int (length q) = fr_payload_size fr + fr_tailroom fr"
    using frame_block_init[OF assms(1,2)] by blast
  have S: "S = {}" using assms(3) False by (auto simp: slot_has_def)
  have "\<exists>pa c qa. buf_of p [] q = buf_of pa c qa \<and> buf_fits pa c qa \<and> int (length pa) = fr_headroom fr \<and>
      int (length pa + length c + length qa) = BUF_SIZE fr \<and> length c \<le> length data \<and>
      (n - 1 \<in> S \<longrightarrow> length c = length data) \<and> (\<forall>x<length data. x div s \<in> S \<longrightarrow> (c @ qa) ! x = data ! x)"
    using i(2,3,4) S by (intro exI[of _ p] exI[of _ "[]"] exI[of _ q]) (simp add: BUF_SIZE_def)
  then show ?thesis using False S
    unfolding slot_has_def slot_reset_def i(1) by simp
qed

lemma frame_block_slot: "slot_has fr data s n S g \<Longrightarrow> frame_block fr (fg_buf g)"
  by (auto simp: slot_has_def intro!: frame_block_of)

text \<open>The header of part \<open>k\<close> as the receiver reads it.\<close>

lemma frag_word_read:
  assumes "sq < 256" "k < 32" "s mod 4 = 0" "s < 65536"
    and w: "w = frag_word (if lst then 2 else 1) sq k (if lst then s div 4 else 0)"
  shows "drop_bit FRAG_TYPE_SHIFT w AND FRAG_TYPE_MASK = (if lst then FRAG_YES_LAST else FRAG_YES_NOTLAST)"
    "uint (drop_bit FRAG_SEQ_ID_SHIFT w AND FRAG_SEQ_ID_MASK) = int sq"
    "uint (drop_bit FRAG_ID_SHIFT w AND FRAG_ID_MASK) = int k"
    "lst \<Longrightarrow> uint (push_bit FRAG_SIZE_ROUND_SHIFT (drop_bit FRAG_SIZE_SHIFT w AND FRAG_SIZE_MASK)) = int s"
proof -
  have b: "(if lst then s div 4 else 0) < 16384" "unat (if lst then 2 else 1 :: u32) < 4" using assms(4) by auto
  note fw = frag_word_fields[OF assms(1,2) b, folded w]
  show "drop_bit FRAG_TYPE_SHIFT w AND FRAG_TYPE_MASK = (if lst then FRAG_YES_LAST else FRAG_YES_NOTLAST)"
    by (simp add: fw FRAG_YES_LAST_def FRAG_YES_NOTLAST_def)
  show "uint (drop_bit FRAG_SEQ_ID_SHIFT w AND FRAG_SEQ_ID_MASK) = int sq"
    unfolding fw using assms(1) by (simp add: uint_nat unat_of_nat)
  show "uint (drop_bit FRAG_ID_SHIFT w AND FRAG_ID_MASK) = int k"
    unfolding fw using assms(2) by (simp add: uint_nat unat_of_nat)
  assume lst
  have p: "push_bit 2 (of_nat m :: u32) = of_nat (m * 4)" for m by (simp add: push_bit_eq_mult)
  have "s div 4 * 4 = s" using assms(3) by (simp add: mod_eq_0_iff_dvd)
  then have "push_bit FRAG_SIZE_ROUND_SHIFT (of_nat (s div 4) :: u32) = of_nat s"
    unfolding FRAG_SIZE_ROUND_SHIFT_def p by (rule arg_cong)
  then show "uint (push_bit FRAG_SIZE_ROUND_SHIFT (drop_bit FRAG_SIZE_SHIFT w AND FRAG_SIZE_MASK)) = int s"
    unfolding fw using assms(4) \<open>lst\<close> by (simp add: uint_nat unat_of_nat)
qed

text \<open>Receiving part \<open>k\<close>.\<close>

lemma incoming_part:
  assumes fr: "frame_ok fr" "int (length data) \<le> fr_payload_size fr + fr_tailroom fr"
    and s: "0 < s" "s mod 4 = 0" "s < 65536" "sq < 256" "n \<le> 32"
    and k: "k < n" "(n - 1) * s < length data" "length data \<le> n * s"
    and l: "fragment_list_get_buf (fm_incoming f) (int sq) = Some (l, i)" "frag_state_ok fr l" "i < 25"
    and g: "(\<not> fg_defined (fl_fragments l ! i) \<and> S = {}) \<or> slot_has fr data s n S (fl_fragments l ! i)" "S \<subseteq> {..<n}"
    and b: "b = buf_of p (frag_packet sq s k (k = n - 1) (take s (drop (k * s) data))) q" "buf_fits p (frag_packet sq s k (k = n - 1) (take s (drop (k * s) data))) q"
  shows "\<exists>g' b'. fragment_incoming now f b fr =
      Some (f\<lparr>fm_incoming := l\<lparr>fl_fragments := (fl_fragments l)[i := g']\<rparr>\<rparr>, b') \<and>
    frame_block fr (fg_buf g') \<and> buf_live b' \<and>
    (if insert k S = {..<n} then \<not> fg_defined g' \<and> buf_content b' = data
     else slot_has fr data s n (insert k S) g' \<and> buf_content b' = [])"
proof -
  define x where "x = take s (drop (k * s) data)"
  define lst where "lst = (k = n - 1)"
  define w where "w = frag_word (if lst then 2 else 1) sq k (if lst then s div 4 else 0)"
  define bx where "bx = buf_of (p @ be32 w) x q"
  note pb = part_bounds[OF s(1) k]
  have lx: "length x = min s (length data - k * s)" by (simp add: x_def min.commute)
  have b1: "b = buf_of p (be32 w @ x) q" using b(1) by (simp add: frag_packet_def w_def lst_def x_def)
  have rd: "buf_read b 4 = Some (bx, Some (be32 w))" by (simp add: b1 buf_read_of bx_def)
  have fw: "drop_bit FRAG_TYPE_SHIFT w AND FRAG_TYPE_MASK = (if lst then FRAG_YES_LAST else FRAG_YES_NOTLAST)"
    "uint (drop_bit FRAG_SEQ_ID_SHIFT w AND FRAG_SEQ_ID_MASK) = int sq"
    "uint (drop_bit FRAG_ID_SHIFT w AND FRAG_ID_MASK) = int k"
    "lst \<Longrightarrow> uint (push_bit FRAG_SIZE_ROUND_SHIFT (drop_bit FRAG_SIZE_SHIFT w AND FRAG_SIZE_MASK)) = int s"
    using frag_word_read[of sq k s w lst] s k(1) w_def by simp_all
  have szl: "\<not> lst \<Longrightarrow> length x = s" using pb(5) k(1) by (simp add: lst_def lx)
  have sz: "(if (if lst then FRAG_YES_LAST else FRAG_YES_NOTLAST) = FRAG_YES_LAST
      then uint (push_bit FRAG_SIZE_ROUND_SHIFT (drop_bit FRAG_SIZE_SHIFT w AND FRAG_SIZE_MASK)) else b_len bx) = int s"
    using fw(4) szl by (simp add: bx_def FRAG_YES_LAST_def FRAG_YES_NOTLAST_def)
  define g0 where "g0 = fl_fragments l ! i"
  define g1 where "g1 = slot_reset fr (int s) g0"
  have fb0: "frame_block fr (fg_buf g0)" using l(2,3) by (simp add: g0_def frag_state_ok_def)
  have h1: "slot_has fr data s n S g1" unfolding g1_def
    by (rule slot_reset_has) (use fr fb0 g(1) in \<open>simp_all add: g0_def\<close>)
  obtain fb where cp: "buf_copy_range (fg_buf g1) (int k * int s) bx 0 (int (length x)) = Some (fb, True)"
    and h2: "slot_has fr data s n (insert k S) (g1\<lparr>fg_buf := fb,
      fg_map := fg_map g1 OR push_bit k (if k = n - 1 then FRAG_MAP_MASK else 1), fg_timestamp := now\<rparr>)"
    using slot_copy[OF h1 fr(2) s(5) s(1) k x_def bx_def, of now] by blast
  define g2 where "g2 = g1\<lparr>fg_buf := fb,
      fg_map := fg_map g1 OR push_bit k (if lst then FRAG_MAP_MASK else 1), fg_timestamp := now\<rparr>"
  have h2: "slot_has fr data s n (insert k S) g2" using h2 unfolding g2_def lst_def .
  have full: "fg_map g2 AND FRAG_MAP_MASK = FRAG_MAP_MASK \<longleftrightarrow> insert k S = {..<n}"
    by (rule map_complete) (use h2 k(1) s(5) g(2) in \<open>auto simp: slot_has_def\<close>)
  define fin where "fin = (if fg_map g2 AND FRAG_MAP_MASK = FRAG_MAP_MASK
     then (g2\<lparr>fg_defined := False\<rparr>, fg_buf g2) else (g2, bx\<lparr>b_len := 0\<rparr>))"
  have inc: "fragment_incoming now f b fr =
      Some (f\<lparr>fm_incoming := l\<lparr>fl_fragments := (fl_fragments l)[i := fst fin]\<rparr>\<rparr>, snd fin)"
  proof -
    have len: "b_len b > 0" by (simp add: b1)
    define T where "T = (if lst then FRAG_YES_LAST else FRAG_YES_NOTLAST)"
    have T: "drop_bit FRAG_TYPE_SHIFT w AND FRAG_TYPE_MASK = T" using fw(1) by (simp add: T_def)
    have ty: "T \<noteq> FRAG_WHOLE" "T = FRAG_YES_NOTLAST \<or> T = FRAG_YES_LAST" "(T = FRAG_YES_LAST) = lst"
      by (simp_all add: T_def FRAG_YES_LAST_def FRAG_YES_NOTLAST_def FRAG_WHOLE_def)
    have mult: "\<not> int s AND FRAG_SIZE_ROUND_MASK \<noteq> 0" 
      using s(2) zmod_int[of s 4] unfolding round_mask(2) by simp
    obtain h t where bi: "buf_init (fg_buf g0) (fr_headroom fr) = (buf_of h [] t, True)"
      using frame_block_init[OF fr(1) fb0] by blast
    have lb: "b_len bx = int (length x)" by (simp add: bx_def)
    have szl: "(if lst then uint (push_bit FRAG_SIZE_ROUND_SHIFT (drop_bit FRAG_SIZE_SHIFT w AND FRAG_SIZE_MASK)) else b_len bx) = int s"
      using fw(4) szl by (simp add: lb)
    have rs: "(if \<not> fg_defined g0 \<or> fg_max_frag_size g0 \<noteq> int s
        then (let (fb, ok) = buf_init (fg_buf g0) (fr_headroom fr) in
          cassert ok \<bind> (\<lambda>_. Some (g0\<lparr>fg_defined := True, fg_max_frag_size := int s, fg_map := 0, fg_buf := fb\<rparr>)))
        else Some g0) = Some g1"
      unfolding g1_def slot_reset_def bi by simp
    have st: "fragment_store now g0 bx T (int k) (int s) fr = Some fin"
      unfolding fragment_store_def rs using cp ty(3) by (simp add: fin_def g2_def Let_def lb split: if_splits)
    show ?thesis unfolding fragment_incoming_def rd bind.simps prod.case option.case de32_be32 Let_def T fw(2,3) ty(3) szl
        if_not_P[OF ty(1)] l(1) if_not_P[OF mult]
      using len st ty(2)[unfolded ty(3)] by (auto simp: g0_def case_prod_beta)
  qed
  show ?thesis
  proof (cases "insert k S = {..<n}")
    case True
    then have "fin = (g2\<lparr>fg_defined := False\<rparr>, fg_buf g2)" using full by (simp add: fin_def)
    moreover have "buf_content (fg_buf g2) = data" "buf_live (fg_buf g2)"
      using slot_has_all[of fr data s n g2] h2 True s(1) k by auto
    ultimately show ?thesis using inc True frame_block_slot[OF h2] by (intro exI[of _ "fst fin"] exI[of _ "snd fin"]) simp
  next
    case False
    then have "fin = (g2, bx\<lparr>b_len := 0\<rparr>)" using full by (simp add: fin_def)
    moreover have "bx\<lparr>b_len := 0\<rparr> = buf_of (p @ be32 w) [] (x @ q)" by (simp add: bx_def buf_of_def)
    moreover have "buf_fits (p @ be32 w) [] (x @ q)"
      using b(2) by (rule buf_fits_split) (simp add: frag_packet_def x_def)
    ultimately show ?thesis using inc False h2 frame_block_slot[OF h2]
      by (intro exI[of _ "fst fin"] exI[of _ "snd fin"]) (simp add: buf_live_of)
  qed
qed
text \<open>A run of the receiver over arriving packets: the contents it hands up.\<close>

fun receive_parts :: "c_time \<Rightarrow> frame \<Rightarrow> fragment_master \<Rightarrow> buffer list \<Rightarrow> (fragment_master \<times> byte list list) option" where
  "receive_parts now fr f [] = Some (f, [])"
| "receive_parts now fr f (b # bs) = do {
     (f, b) \<leftarrow> fragment_incoming now f b fr;
     (f, outs) \<leftarrow> receive_parts now fr f bs;
     Some (f, buf_content b # outs) }"

lemma receive_parts_append:
  "receive_parts now fr f (bs @ cs) = do {
     (f, outs) \<leftarrow> receive_parts now fr f bs;
     (f, outs') \<leftarrow> receive_parts now fr f cs;
     Some (f, outs @ outs') }"
  by (induction bs arbitrary: f) (auto simp: case_prod_beta split: Option.bind_splits)

text \<open>The receiver works on packet \<open>sq\<close> and has its parts \<open>S\<close>.\<close>

definition receiving :: "frame \<Rightarrow> byte list \<Rightarrow> nat \<Rightarrow> nat \<Rightarrow> nat \<Rightarrow> nat set \<Rightarrow> fragment_list \<Rightarrow> bool" where
  "receiving fr data sq s n S l \<longleftrightarrow> frag_state_ok fr l \<and> (\<exists>l' i. fragment_list_get_buf l (int sq) = Some (l', i) \<and>
     frag_state_ok fr l' \<and> i < 25 \<and> fl_seq_id l' = int sq \<and> fl_index l' = int i \<and>
     ((\<not> fg_defined (fl_fragments l' ! i) \<and> S = {}) \<or> slot_has fr data s n S (fl_fragments l' ! i)))"

lemma receive_part:
  assumes fr: "frame_ok fr" "int (length data) \<le> fr_payload_size fr + fr_tailroom fr"
    and s: "0 < s" "s mod 4 = 0" "s < 65536" "sq < 256" "n \<le> 32"
    and k: "k < n" "(n - 1) * s < length data" "length data \<le> n * s"
    and r: "receiving fr data sq s n S (fm_incoming f)" "S \<subseteq> {..<n}"
    and b: "buf_live b" "buf_content b = frag_packet sq s k (k = n - 1) (take s (drop (k * s) data))"
  shows "\<exists>f' b'. fragment_incoming now f b fr = Some (f', b') \<and> buf_live b' \<and>
    (if insert k S = {..<n} then frag_state_ok fr (fm_incoming f') \<and> buf_content b' = data
     else receiving fr data sq s n (insert k S) (fm_incoming f') \<and> buf_content b' = [])"
proof -
  obtain l i where l: "fragment_list_get_buf (fm_incoming f) (int sq) = Some (l, i)" "frag_state_ok fr l" "i < 25"
    "fl_seq_id l = int sq" "fl_index l = int i"
    "(\<not> fg_defined (fl_fragments l ! i) \<and> S = {}) \<or> slot_has fr data s n S (fl_fragments l ! i)"
    using r(1) unfolding receiving_def by blast
  obtain p q where bp: "b = buf_of p (frag_packet sq s k (k = n - 1) (take s (drop (k * s) data))) q"
    "buf_fits p (frag_packet sq s k (k = n - 1) (take s (drop (k * s) data))) q"
    using b unfolding buf_live_repr by auto
  obtain g' b' where g': "fragment_incoming now f b fr =
      Some (f\<lparr>fm_incoming := l\<lparr>fl_fragments := (fl_fragments l)[i := g']\<rparr>\<rparr>, b')"
    "frame_block fr (fg_buf g')" "buf_live b'"
    "if insert k S = {..<n} then \<not> fg_defined g' \<and> buf_content b' = data
     else slot_has fr data s n (insert k S) g' \<and> buf_content b' = []"
    using incoming_part[OF fr s k l(1-3) l(6) r(2) bp, of now] by blast
  define l2 where "l2 = l\<lparr>fl_fragments := (fl_fragments l)[i := g']\<rparr>"
  have ok: "frag_state_ok fr l2" unfolding l2_def by (rule frag_state_ok_update[OF l(2) g'(2)])
  have cur: "fragment_list_get_buf l2 (int sq) = Some (l2, i)"
    by (rule fragment_list_get_current[OF ok]) (simp_all add: l2_def l(4,5))
  have at: "fl_fragments l2 ! i = g'" using l(2,3) by (simp add: l2_def frag_state_ok_def)
  have "receiving fr data sq s n (insert k S) l2" if "slot_has fr data s n (insert k S) g'"
    unfolding receiving_def using ok cur at l(3-5) that
    by (intro conjI exI[of _ l2] exI[of _ i]) (simp_all add: l2_def)
  then show ?thesis using g' ok by (intro exI[of _ "f\<lparr>fm_incoming := l2\<rparr>"] exI[of _ b']) (auto simp: l2_def)
qed

lemma receive_incomplete:
  assumes fr: "frame_ok fr" "int (length data) \<le> fr_payload_size fr + fr_tailroom fr"
    and s: "0 < s" "s mod 4 = 0" "s < 65536" "sq < 256" "n \<le> 32" "(n - 1) * s < length data" "length data \<le> n * s"
    and r: "receiving fr data sq s n S (fm_incoming f)" "S \<subseteq> {..<n}"
    and b: "list_all2 (\<lambda>b k. buf_live b \<and> k < n \<and>
      buf_content b = frag_packet sq s k (k = n - 1) (take s (drop (k * s) data))) bs ks" "S \<union> set ks \<noteq> {..<n}"
  shows "\<exists>f'. receive_parts now fr f bs = Some (f', replicate (length ks) []) \<and>
    receiving fr data sq s n (S \<union> set ks) (fm_incoming f')"
  using r b
proof (induction bs arbitrary: ks f S)
  case Nil
  then show ?case by simp
next
  case (Cons b bs)
  obtain k kr where ks: "ks = k # kr" "buf_live b" "k < n"
    "buf_content b = frag_packet sq s k (k = n - 1) (take s (drop (k * s) data))"
    "list_all2 (\<lambda>b k. buf_live b \<and> k < n \<and>
      buf_content b = frag_packet sq s k (k = n - 1) (take s (drop (k * s) data))) bs kr"
    using Cons.prems(3) by (cases ks) auto
  have all: "list_all (\<lambda>k. k < n) kr" using ks(5) by (auto simp: list_all2_conv_all_nth list_all_length)
  have ne: "insert k S \<noteq> {..<n}" using Cons.prems(2,4) all ks(1,3) by (auto simp: list_all_iff)
  obtain f1 b1 where f1: "fragment_incoming now f b fr = Some (f1, b1)" "buf_content b1 = []"
    "receiving fr data sq s n (insert k S) (fm_incoming f1)"
    using receive_part[OF fr s(1-5) ks(3) s(6,7) Cons.prems(1,2) ks(2,4), of now] ne by auto
  have "\<exists>f'. receive_parts now fr f1 bs = Some (f', replicate (length kr) []) \<and>
      receiving fr data sq s n (insert k S \<union> set kr) (fm_incoming f')"
    using Cons.IH[OF f1(3) _ ks(5)] Cons.prems(2,4) ks(1,3) by simp
  then show ?case using f1 ks(1) by auto
qed

text \<open>All parts, in any order and with repetitions; the last arrival completes the packet.\<close>

lemma receive_complete:
  assumes fr: "frame_ok fr" "int (length data) \<le> fr_payload_size fr + fr_tailroom fr"
    and s: "0 < s" "s mod 4 = 0" "s < 65536" "sq < 256" "n \<le> 32" "(n - 1) * s < length data" "length data \<le> n * s"
    and r: "receiving fr data sq s n {} (fm_incoming f)"
    and b: "list_all2 (\<lambda>b k. buf_live b \<and> k < n \<and>
      buf_content b = frag_packet sq s k (k = n - 1) (take s (drop (k * s) data))) bs (ks @ [k])"
    "k \<notin> set ks" "insert k (set ks) = {..<n}"
  shows "\<exists>f'. receive_parts now fr f bs = Some (f', replicate (length ks) [] @ [data]) \<and>
    frag_state_ok fr (fm_incoming f')"
proof -
  obtain bs' bl where bs: "bs = bs' @ [bl]" "list_all2 (\<lambda>b k. buf_live b \<and> k < n \<and>
      buf_content b = frag_packet sq s k (k = n - 1) (take s (drop (k * s) data))) bs' ks"
    "buf_live bl" "k < n" "buf_content bl = frag_packet sq s k (k = n - 1) (take s (drop (k * s) data))"
    using b(1) by (auto simp: list_all2_append2 list_all2_Cons2)
  have ne: "{} \<union> set ks \<noteq> {..<n}" using b(2) bs(4) by auto
  obtain f1 where f1: "receive_parts now fr f bs' = Some (f1, replicate (length ks) [])"
    "receiving fr data sq s n (set ks) (fm_incoming f1)"
    using receive_incomplete[OF fr s r _ bs(2) ne] by auto
  have sub: "set ks \<subseteq> {..<n}" using b(3) by auto
  obtain f2 b2 where f2: "fragment_incoming now f1 bl fr = Some (f2, b2)" "buf_content b2 = data"
    "frag_state_ok fr (fm_incoming f2)"
    using receive_part[OF fr s(1-5) bs(4) s(6,7) f1(2) sub bs(3,5), of now] b(3) by auto
  show ?thesis using f1(1) f2 by (simp add: bs(1) receive_parts_append)
qed

section \<open>From the sender to the receiver\<close>

lemma parts_from_nth:
  assumes "0 < s" "(n - 1) * s < length data" "length data \<le> n * s" "k \<le> n"
  shows "length (parts_from sq s k (drop (k * s) data)) = n - k \<and>
    (\<forall>j<n - k. parts_from sq s k (drop (k * s) data) ! j =
      frag_packet sq s (k + j) (k + j = n - 1) (take s (drop ((k + j) * s) data)))"
  using assms(4)
proof (induction "n - k" arbitrary: k)
  case 0
  then show ?case using assms(3) by (simp add: parts_from.simps)
next
  case (Suc m)
  then have k: "k < n" by simp
  note pb = part_bounds[OF assms(1) k assms(2,3)]
  have ne: "drop (k * s) data \<noteq> []" using pb(1) by simp
  have lst: "length (drop (k * s) data) \<le> s \<longleftrightarrow> k = n - 1"
  proof (cases "k = n - 1")
    case True
    then show ?thesis using pb(1,3) by (simp add: min_def split: if_splits)
  next
    case False
    then have "Suc k * s \<le> (n - 1) * s" using k by (intro mult_le_mono1) simp
    then show ?thesis using False assms(2) by simp
  qed
  have dr: "drop s (drop (k * s) data) = drop (Suc k * s) data" by (simp add: add.commute)
  have ih: "length (parts_from sq s (Suc k) (drop (Suc k * s) data)) = n - Suc k"
    "\<forall>j<n - Suc k. parts_from sq s (Suc k) (drop (Suc k * s) data) ! j =
      frag_packet sq s (Suc k + j) (Suc k + j = n - 1) (take s (drop ((Suc k + j) * s) data))"
    using Suc.hyps(1)[of "Suc k"] Suc.hyps(2) k by simp_all
  have eq: "parts_from sq s k (drop (k * s) data) =
      frag_packet sq s k (k = n - 1) (take s (drop (k * s) data)) # parts_from sq s (Suc k) (drop (Suc k * s) data)"
    using ne assms(1) lst dr by (subst parts_from.simps) simp
  show ?case unfolding eq using ih k by (auto simp: nth_Cons split: nat.split)
qed

text \<open>A packet that is cut: \<open>n\<close> parts, the first of them sent at once.\<close>

lemma fragment_outgoing_parts:
  assumes fr: "frame_ok fr" and f: "frame_block fr (fm_outgoing f)" "frame_block fr (fm_outgoing_return f)"
    "0 \<le> fm_outgoing_seq_id f" "fm_outgoing_seq_id f < 256"
    and b: "buf_live b" "buf_content b = data" "fr_max_fragment_size fr < int (length data)"
      "int (length data) \<le> fr_payload_size fr + fr_tailroom fr"
    and s: "optimal_fragment_size (int (length data)) (fr_max_fragment_size fr) = Some (int s)"
      "int (length data) \<le> int s * MAX_FRAGS"
    and sq: "sq = nat ((fm_outgoing_seq_id f + 1) mod 256)"
  shows "\<exists>f1 b1 f2 ps. fragment_outgoing f b fr = Some (f1, b1) \<and> send_parts 31 fr f1 = Some (f2, ps) \<and>
    buf_content b1 # ps = parts_from sq s 0 data \<and> buf_live b1 \<and> b_len (fm_outgoing f2) = 0 \<and>
    frame_block fr (fm_outgoing f2) \<and> frame_block fr (fm_outgoing_return f2) \<and>
    fm_outgoing_seq_id f2 = int sq \<and> fm_incoming f2 = fm_incoming f"
proof -
  obtain x where "optimal_fragment_size (int (length data)) (fr_max_fragment_size fr) = Some x"
    "0 < x" "x \<le> fr_max_fragment_size fr"
  proof -
    have "0 < int (length data)" "4 \<le> fr_max_fragment_size fr" using b(3) fr unfolding frame_ok_def by linarith+
    then show ?thesis using optimal_fragment_size_spec[of "int (length data)" "fr_max_fragment_size fr"] that by blast
  qed
  then have sz: "0 < s" "int s \<le> fr_max_fragment_size fr" using s(1) by simp_all
  obtain h t where i: "buf_init (fm_outgoing f) (fr_headroom fr) = (buf_of h [] t, True)" "buf_fits h [] t"
    "int (length h) = fr_headroom fr" "int (length t) = fr_payload_size fr + fr_tailroom fr"
    using frame_block_init[OF fr f(1)] by blast
  have bl: "b_len b = int (length data)" "buf_ok b" using b(1,2) unfolding buf_live_repr by auto
  have lt: "length data \<le> length t" using b(4) i(4) by linarith
  have cp: "buf_copy (buf_of h [] t) b = Some (buf_of h data (drop (length data) t), True)"
    using buf_copy_of[OF bl(2) i(2)] b(2) lt by simp
  have fit: "buf_fits h data (drop (length data) t)" using i(2) by (rule buf_fits_split) (use lt in simp)
  have s32: "\<not> b_len b > int s * MAX_FRAGS" using s(2) bl(1) by simp
  have sqm: "modulo_add (fm_outgoing_seq_id f) 1 N_SEQ_ID = Some (int sq)" "sq < 256"
    using f(3,4) by (simp_all add: sq N_SEQ_ID_def modulo_add_mod nat_less_iff)
  define g where "g = f\<lparr>fm_outgoing_frag_size := int s, fm_outgoing := buf_of h data (drop (length data) t),
    fm_outgoing_seq_id := int sq, fm_outgoing_frag_id := 0\<rparr>"
  have ne: "data \<noteq> []" using b(3) fr by (auto simp: frame_ok_def)
  obtain f1 b1 where r: "fragment_ready_to_send g (b\<lparr>b_len := 0\<rparr>) fr = Some (f1, b1, True)" "buf_live b1"
    "buf_content b1 = frag_packet sq s 0 (length data \<le> s) (take s data)"
    "f1 = g\<lparr>fm_outgoing := buf_of (h @ take s data) (drop s data) (drop (length data) t), fm_outgoing_frag_id := int (Suc 0),
           fm_outgoing_return := fm_outgoing_return f1\<rparr>" "frame_block fr (fm_outgoing_return f1)"
    using fragment_ready_step[of fr g h data "drop (length data) t" s sq 0 "b\<lparr>b_len := 0\<rparr>"] fr f(2) fit ne sz sqm(2)
    by (auto simp: g_def)
  have "fragment_outgoing f b fr = Some (f1, b1)"
    using ne b(3) sz(1) fr s32 unfolding fragment_outgoing_def bl(1)
    by (simp add: frame_ok_def s(1) i(1) cp sqm(1) g_def[symmetric] r(1))
  moreover have "\<exists>f2. send_parts 31 fr f1 = Some (f2, parts_from sq s (Suc 0) (drop s data)) \<and> b_len (fm_outgoing f2) = 0 \<and>
      frame_block fr (fm_outgoing_return f2) \<and> (\<exists>p' q'. fm_outgoing f2 = buf_of p' [] q' \<and> buf_fits p' [] q' \<and>
        length p' + length q' = length (h @ take s data) + length (drop s data) + length (drop (length data) t)) \<and>
      fm_outgoing_seq_id f2 = int sq \<and> fm_incoming f2 = fm_incoming f1"
  proof (rule send_parts_spec)
    show "buf_fits (h @ take s data) (drop s data) (drop (length data) t)" using fit by (rule buf_fits_split) simp
    show "length (drop s data) \<le> s * 31" using s(2) by (simp add: MAX_FRAGS_def)
    show "fm_outgoing f1 = buf_of (h @ take s data) (drop s data) (drop (length data) t)" by (subst r(4)) simp
    show "fm_outgoing_frag_size f1 = int s" "fm_outgoing_seq_id f1 = int sq" "fm_outgoing_frag_id f1 = int (Suc 0)"
      by (subst r(4), simp add: g_def)+
  qed (use fr r(5) sz sqm(2) in simp_all)
  then obtain f2 p' q' where f2: "send_parts 31 fr f1 = Some (f2, parts_from sq s (Suc 0) (drop s data))" "b_len (fm_outgoing f2) = 0"
    "frame_block fr (fm_outgoing_return f2)" "fm_outgoing f2 = buf_of p' [] q'" "buf_fits p' [] q'"
    "length p' + length q' = length (h @ take s data) + length (drop s data) + length (drop (length data) t)"
    "fm_outgoing_seq_id f2 = int sq" "fm_incoming f2 = fm_incoming f1" by blast
  have "frame_block fr (fm_outgoing f2)" unfolding f2(4)
    by (rule frame_block_of[OF f2(5)]) (use f2(6) i(3,4) lt in \<open>simp add: BUF_SIZE_def min_def split: if_splits\<close>)
  moreover have "fm_incoming f1 = fm_incoming f" by (subst r(4)) (simp add: g_def)
  moreover have "buf_content b1 # parts_from sq s (Suc 0) (drop s data) = parts_from sq s 0 data"
    using ne sz(1) r(3) by (subst (2) parts_from.simps) simp
  ultimately show ?thesis using r(2) f2(1-3,7,8) by metis
qed

text \<open>Whatever arrives, the receiver returns and its state stays well formed.\<close>

lemma buf_init_block:
  assumes "frame_ok fr" "frame_block fr b"
  shows "\<exists>b'. buf_init b (fr_headroom fr) = (b', True) \<and> frame_block fr b'"
proof -
  obtain p q where i: "buf_init b (fr_headroom fr) = (buf_of p [] q, True)" "buf_fits p [] q"
    "int (length p) = fr_headroom fr" "int (length q) = fr_payload_size fr + fr_tailroom fr"
    using frame_block_init[OF assms] by blast
  then show ?thesis by (auto intro!: frame_block_of simp: BUF_SIZE_def)
qed

lemma buf_copy_range_block:
  assumes "frame_block fr b" "buf_live src" "si + sl < 2 ^ 31" "b_offset b + di + sl < 2 ^ 31"
  shows "\<exists>b' r. buf_copy_range b di src si sl = Some (b', r) \<and> frame_block fr b'"
proof -
  obtain b' r where r: "buf_copy_range b di src si sl = Some (b', r)" "buf_ok b'"
    using buf_copy_range_total[of b src si sl di] assms by (auto simp: frame_block_def buf_live_def)
  have "b_capacity b' = b_capacity b \<and> b_data b' \<noteq> None"
    using r(1) assms by (auto simp: buf_copy_range_def buf_store_def frame_block_def buf_live_def buf_defined_def
        split: if_splits Option.bind_splits)
  then show ?thesis using r assms by (auto simp: frame_block_def buf_live_def buf_defined_def)
qed

lemma buf_live_len0: "buf_live b \<Longrightarrow> buf_live (b\<lparr>b_len := 0\<rparr>)"
  by (auto simp: buf_live_def buf_ok_def buf_defined_def split: option.splits)

lemma fragment_store_total:
  assumes "frame_ok fr" "frame_block fr (fg_buf g)" "buf_live b"
    and "0 \<le> n" "n < 32" "0 \<le> sz" "sz < BUF_SIZE_MAX"
  shows "\<exists>g' b'. fragment_store now g b ty n sz fr = Some (g', b') \<and> frame_block fr (fg_buf g') \<and> buf_live b'"
proof -
  obtain b0 where b0: "buf_init (fg_buf g) (fr_headroom fr) = (b0, True)" "frame_block fr b0"
    using buf_init_block[OF assms(1,2)] by blast
  define g1 where "g1 = slot_reset fr sz g"
  have rs: "(if \<not> fg_defined g \<or> fg_max_frag_size g \<noteq> sz
        then (let (fb, ok) = buf_init (fg_buf g) (fr_headroom fr) in
          cassert ok \<bind> (\<lambda>_. Some (g\<lparr>fg_defined := True, fg_max_frag_size := sz, fg_map := 0, fg_buf := fb\<rparr>)))
        else Some g) = Some g1"
    unfolding g1_def slot_reset_def b0(1) by simp
  have fb: "frame_block fr (fg_buf g1)" using assms(2) b0 by (simp add: g1_def slot_reset_def)
  obtain c ok where c: "buf_copy_range (fg_buf g1) (n * sz) b 0 (b_len b) = Some (c, ok)" "frame_block fr c"
  proof -
    have "n * sz \<le> 31 * BUF_SIZE_MAX" using assms(4-7) by (intro mult_mono) simp_all
    moreover have "b_len b < BUF_SIZE_MAX" "b_offset (fg_buf g1) < BUF_SIZE_MAX"
      using assms(3) fb by (auto simp: buf_live_repr frame_block_def buf_fits_def)
    ultimately have "0 + b_len b < 2 ^ 31" "b_offset (fg_buf g1) + n * sz + b_len b < 2 ^ 31"
      by (simp_all add: BUF_SIZE_MAX_def)
    from buf_copy_range_block[OF fb assms(3) this] that show ?thesis by blast
  qed
  have "buf_live c" using c(2) by (simp add: frame_block_def)
  then show ?thesis unfolding fragment_store_def rs using c buf_live_len0[OF assms(3)] by (simp add: Let_def)
qed

lemma buf_read_live: "buf_live b \<Longrightarrow> \<exists>b' r. buf_read b n = Some (b', r) \<and> buf_live b'"
proof -
  assume "buf_live b"
  then obtain p c q where b: "b = buf_of p c q" "buf_fits p c q" unfolding buf_live_repr by blast
  show ?thesis
  proof (cases "0 \<le> n \<and> n \<le> int (length c)")
    case True
    have "buf_fits (p @ take (nat n) c) (drop (nat n) c) q" using b(2) by (rule buf_fits_split) simp
    then show ?thesis using True b(1) by (simp add: buf_read_of buf_live_of)
  next
    case False
    then show ?thesis using b by (auto simp: buf_read_of buf_live_of)
  qed
qed

lemma frag_id_bound: "uint (x AND FRAG_ID_MASK) < 32" for x :: u32
proof -
  have "x AND FRAG_ID_MASK = take_bit 5 x"
    by (simp add: FRAG_ID_MASK_def take_bit_eq_mask mask_eq_exp_minus_1)
  then have "uint (x AND FRAG_ID_MASK) = take_bit 5 (uint x)" by (simp add: unsigned_take_bit_eq)
  also have "\<dots> < 2 ^ 5" by (rule take_bit_int_less_exp)
  finally show ?thesis by simp
qed

lemma frag_size_bound: "uint (push_bit FRAG_SIZE_ROUND_SHIFT (x AND FRAG_SIZE_MASK)) < BUF_SIZE_MAX" for x :: u32
proof -
  have "x AND FRAG_SIZE_MASK = take_bit 14 x"
    by (simp add: FRAG_SIZE_MASK_def take_bit_eq_mask mask_eq_exp_minus_1)
  then have "uint (x AND FRAG_SIZE_MASK) = take_bit 14 (uint x)" by (simp add: unsigned_take_bit_eq)
  also have "\<dots> < 2 ^ 14" by (rule take_bit_int_less_exp)
  finally have "uint (x AND FRAG_SIZE_MASK) < 2 ^ 14" .
  then show ?thesis
    by (simp add: FRAG_SIZE_ROUND_SHIFT_def BUF_SIZE_MAX_def push_bit_eq_mult uint_mult_lem uint_word_ariths mod_less)
qed

lemma fragment_incoming_total:
  assumes fr: "frame_ok fr" and ok: "frag_state_ok fr (fm_incoming f)" and b: "buf_live b"
  shows "\<exists>f' b'. fragment_incoming now f b fr = Some (f', b') \<and> frag_state_ok fr (fm_incoming f') \<and> buf_live b' \<and>
    fm_outgoing f' = fm_outgoing f \<and> fm_outgoing_return f' = fm_outgoing_return f"
proof (cases "b_len b > 0")
  case False
  then show ?thesis using assms by (simp add: fragment_incoming_def)
next
  case True
  obtain b1 r where r: "buf_read b 4 = Some (b1, r)" "buf_live b1"
    using buf_read_live[OF b] by blast
  have e: "buf_live (b1\<lparr>b_len := 0\<rparr>)" by (rule buf_live_len0[OF r(2)])
  show ?thesis
  proof (cases r)
    case None
    then show ?thesis using True r(1) e ok by (simp add: fragment_incoming_def frag_err_def)
  next
    case (Some h)
    define w where "w = de32 h"
    define sq where "sq = uint (drop_bit FRAG_SEQ_ID_SHIFT w AND FRAG_SEQ_ID_MASK)"
    have m: "FRAG_SEQ_ID_MASK = mask 8" by (simp add: FRAG_SEQ_ID_MASK_def mask_eq_exp_minus_1)
    have "unat (drop_bit FRAG_SEQ_ID_SHIFT w AND FRAG_SEQ_ID_MASK) =
        take_bit 8 (unat (drop_bit FRAG_SEQ_ID_SHIFT w))"
      unfolding m take_bit_eq_mask[symmetric] unsigned_take_bit_eq ..
    then have "unat (drop_bit FRAG_SEQ_ID_SHIFT w AND FRAG_SEQ_ID_MASK) < 2 ^ 8"
      by (simp only: take_bit_nat_less_exp)
    moreover have "(2 :: nat) ^ 8 = 256" by simp
    ultimately have sq: "0 \<le> sq" "sq < 256" unfolding sq_def uint_nat by linarith+
    obtain l i where l: "fragment_list_get_buf (fm_incoming f) sq = Some (l, i)" "frag_state_ok fr l" "i < 25"
      using fragment_list_get_buf_ok[OF ok sq] by blast
    have gb: "frame_block fr (fg_buf (fl_fragments l ! i))" using l(2,3) by (simp add: frag_state_ok_def)
    show ?thesis
    proof -
      have st: "\<exists>g' b'. fragment_store now (fl_fragments l ! i) b1 ty n sz fr = Some (g', b') \<and>
          frag_state_ok fr (l\<lparr>fl_fragments := (fl_fragments l)[i := g']\<rparr>) \<and> buf_live b'"
        if "0 \<le> n" "n < 32" "0 \<le> sz" "sz < BUF_SIZE_MAX" for ty n sz
        using fragment_store_total[OF fr gb r(2) that] frag_state_ok_update[OF l(2)] by meson
      have id: "0 \<le> uint (x AND FRAG_ID_MASK)" "uint (x AND FRAG_ID_MASK) < 32" for x
        using frag_id_bound[of x] by simp_all
      have size: "0 \<le> uint (push_bit FRAG_SIZE_ROUND_SHIFT (x AND FRAG_SIZE_MASK))"
        "uint (push_bit FRAG_SIZE_ROUND_SHIFT (x AND FRAG_SIZE_MASK)) < BUF_SIZE_MAX" for x
        using frag_size_bound[of x] by simp_all
      have len: "0 \<le> b_len b1" "b_len b1 < BUF_SIZE_MAX"
        using r(2) by (auto simp: buf_live_repr buf_fits_def)
      show ?thesis unfolding fragment_incoming_def r(1) Some bind.simps prod.case option.case Let_def
          w_def[symmetric] sq_def[symmetric] l(1)
        using True e ok l(2) r(2)
        st[OF id[of "drop_bit FRAG_ID_SHIFT w"] size[of "drop_bit FRAG_SIZE_SHIFT w"],
          of "drop_bit FRAG_TYPE_SHIFT w AND FRAG_TYPE_MASK"]
        st[OF id[of "drop_bit FRAG_ID_SHIFT w"] len, of "drop_bit FRAG_TYPE_SHIFT w AND FRAG_TYPE_MASK"]
        by (auto simp: frag_err_def)
    qed
  qed
qed

section \<open>An instance\<close>

text \<open>A small instance: maximum 8, a datagram of 18 bytes, three parts that arrive as last, first,
  last again, middle.\<close>

definition ex_frame :: frame where
  "ex_frame = \<lparr>fr_payload_size = 24, fr_headroom = 8, fr_tailroom = 0, fr_max_fragment_size = 8\<rparr>"

definition ex_master :: fragment_master where
  "ex_master = (case fragment_frame_init (fragment_init 0 4) ex_frame of Some f \<Rightarrow> f)"

definition ex_datagram :: "byte list" where
  "ex_datagram = map of_nat [1..<19]"

lemma ex_master_ok:
  "frame_ok ex_frame" "frame_block ex_frame (fm_outgoing ex_master)" "frame_block ex_frame (fm_outgoing_return ex_master)"
  "fm_outgoing_seq_id ex_master = 4" "frag_state_ok ex_frame (fm_incoming ex_master)"
  by code_simp+

section \<open>Properties\<close>

text \<open>C31: A large datagram survives fragmentation.  It is cut into as few parts as the maximum size allows,
  each within the limit; the parts may arrive in any order and with repetitions: nothing is handed up
  before every part has arrived, and the arrival of the last missing one hands up exactly the datagram.\<close>

theorem fragments_reassemble:
  assumes fr: "frame_ok fr"
    and f: "frame_block fr (fm_outgoing f)" "frame_block fr (fm_outgoing_return f)"
      "0 \<le> fm_outgoing_seq_id f" "fm_outgoing_seq_id f < 256"
    and b: "buf_live b" "buf_content b = data" "fr_max_fragment_size fr < int (length data)"
      "int (length data) \<le> fr_payload_size fr + fr_tailroom fr"
      "length data \<le> 31 * nat (fr_max_fragment_size fr - fr_max_fragment_size fr mod 4)"
    and r: "frag_state_ok fr (fm_incoming r)" "fragment_seq_new (fm_incoming r) (nat ((fm_outgoing_seq_id f + 1) mod 256))"
  shows "\<exists>f1 b1 f2 ps. fragment_outgoing f b fr = Some (f1, b1) \<and> send_parts 31 fr f1 = Some (f2, ps) \<and>
    b_len (fm_outgoing f2) = 0 \<and>
    (let parts = buf_content b1 # ps in
     int (length parts) \<le> n_parts (int (length data)) (fr_max_fragment_size fr - fr_max_fragment_size fr mod 4) \<and>
     (\<forall>p \<in> set parts. int (length p) \<le> 4 + fr_max_fragment_size fr) \<and>
     (\<forall>bs ks k. list_all2 (\<lambda>b j. buf_live b \<and> j < length parts \<and> buf_content b = parts ! j) bs (ks @ [k]) \<and>
        k \<notin> set ks \<and> insert k (set ks) = {..<length parts} \<longrightarrow>
        (\<exists>r'. receive_parts now fr r bs = Some (r', replicate (length ks) [] @ [data]) \<and> frag_state_ok fr (fm_incoming r'))))"
proof -
  define sq where "sq = nat ((fm_outgoing_seq_id f + 1) mod 256)"
  have sq: "sq < 256" by (simp add: sq_def nat_less_iff)
  define a where "a = fr_max_fragment_size fr - fr_max_fragment_size fr mod 4"
  define len where "len = int (length data)"
  have pos: "0 < len" "4 \<le> fr_max_fragment_size fr" using b(3) fr unfolding frame_ok_def len_def by linarith+
  have a0: "0 < a" using pos(2) pos_mod_bound[of 4 "fr_max_fragment_size fr"] by (simp add: a_def)
  obtain x where x: "optimal_fragment_size len (fr_max_fragment_size fr) = Some x"
    "0 < x" "x \<le> fr_max_fragment_size fr" "x mod 4 = 0" "n_parts len x \<le> n_parts len a"
    using optimal_fragment_size_spec[OF pos, folded a_def] by (elim exE conjE) (rule that)
  define s where "s = nat x"
  have s: "int s = x" "0 < s" "s < 65536" using x fr by (auto simp: s_def frame_ok_def)
  have "int (s mod 4) = 0" using x(4) s(1) by (simp add: zmod_int)
  then have s: "int s = x" "0 < s" "s mod 4 = 0" "s < 65536" using s by simp_all
  define n where "n = nat (n_parts len x)"
  have "n_parts len a \<le> 31" using b(5) a0 by (intro n_parts_le) (auto simp: len_def a_def)
  moreover have np: "0 < n_parts len x" unfolding n_parts_def using x(2) pos(1) by (simp add: pos_imp_zdiv_pos_iff)
  ultimately have n: "int n = n_parts len x" "0 < n" "n \<le> 31" using x(5) by (auto simp: n_def)
  have dv: "n_parts len x = (len - 1) div x + 1"
    unfolding n_parts_def using x(2) div_add_self2[of x "len - 1"] by (simp add: algebra_simps)
  have nb: "(n - 1) * s < length data" "length data \<le> n * s"
  proof -
    have q: "int (n - 1) = (len - 1) div x" using n(1,2) dv by (simp add: of_nat_diff)
    define e where "e = (len - 1) div x"
    have "x * e + (len - 1) mod x = len - 1" unfolding e_def by (rule mult_div_mod_eq)
    then have "x * e \<le> len - 1" "len - 1 < x * e + x"
      using pos_mod_sign[of x "len - 1"] pos_mod_bound[of x "len - 1"] x(2) by linarith+
    then have "(len - 1) div x * x \<le> len - 1" "len - 1 < ((len - 1) div x + 1) * x"
      unfolding e_def by (simp_all add: algebra_simps)
    then have "int (n - 1) * int s < len" "len \<le> int n * int s"
      unfolding q s(1) using n(1) dv by simp_all
    then show "(n - 1) * s < length data" "length data \<le> n * s"
      by (simp_all add: len_def flip: of_nat_mult)
  qed
  have s32: "int (length data) \<le> int s * MAX_FRAGS"
  proof -
    have "n * s \<le> 31 * s" using n(3) by (intro mult_le_mono1)
    then have "int (length data) \<le> int (31 * s)" using nb(2) by linarith
    then show ?thesis by (simp add: MAX_FRAGS_def)
  qed
  obtain f1 b1 f2 ps where o: "fragment_outgoing f b fr = Some (f1, b1)" "send_parts 31 fr f1 = Some (f2, ps)"
    "buf_content b1 # ps = parts_from sq s 0 data" "b_len (fm_outgoing f2) = 0"
    using fragment_outgoing_parts[OF fr f b(1-4), of s sq] x(1) s(1) s32 by (auto simp: len_def sq_def)
  have pn: "length (parts_from sq s 0 data) = n"
    "\<And>j. j < n \<Longrightarrow> parts_from sq s 0 data ! j = frag_packet sq s j (j = n - 1) (take s (drop (j * s) data))"
    using parts_from_nth[OF s(2) nb, of 0 sq] by auto
  have sz: "\<forall>p \<in> set (parts_from sq s 0 data). int (length p) \<le> 4 + fr_max_fragment_size fr"
    using x(3) s(1) by (auto simp: in_set_conv_nth pn frag_packet_def)
  obtain l' i where g: "fragment_list_get_buf (fm_incoming r) (int sq) = Some (l', i)" "frag_state_ok fr l'" "i < 25"
    "fl_seq_id l' = int sq" "fl_index l' = int i" "\<not> fg_defined (fl_fragments l' ! i)"
    using fragment_list_get_new[OF r(1) sq] r(2) unfolding sq_def by blast
  have rcv: "receiving fr data sq s n {} (fm_incoming r)" unfolding receiving_def using r(1) g by blast
  have all: "\<forall>bs ks k. list_all2 (\<lambda>b j. buf_live b \<and> j < n \<and> buf_content b = parts_from sq s 0 data ! j) bs (ks @ [k]) \<and>
      k \<notin> set ks \<and> insert k (set ks) = {..<n} \<longrightarrow>
      (\<exists>r'. receive_parts now fr r bs = Some (r', replicate (length ks) [] @ [data]) \<and> frag_state_ok fr (fm_incoming r'))"
  proof (intro allI impI, elim conjE)
    fix bs ks k
    assume l: "list_all2 (\<lambda>b j. buf_live b \<and> j < n \<and> buf_content b = parts_from sq s 0 data ! j) bs (ks @ [k])"
      and k: "k \<notin> set ks" "insert k (set ks) = {..<n}"
    have "list_all2 (\<lambda>b k. buf_live b \<and> k < n \<and>
        buf_content b = frag_packet sq s k (k = n - 1) (take s (drop (k * s) data))) bs (ks @ [k])"
      using l by (rule list_all2_mono) (use pn in auto)
    then show "\<exists>r'. receive_parts now fr r bs = Some (r', replicate (length ks) [] @ [data]) \<and> frag_state_ok fr (fm_incoming r')"
      using receive_complete[OF fr b(4) s(2-4) sq _ nb rcv _ k] n(3) by simp
  qed
  show ?thesis unfolding Let_def
  proof (rule exI[of _ f1], rule exI[of _ b1], rule exI[of _ f2], rule exI[of _ ps], unfold o(3) pn(1), intro conjI)
    show "int n \<le> n_parts (int (length data)) (fr_max_fragment_size fr - fr_max_fragment_size fr mod 4)"
      using n(1) x(5) by (simp add: a_def len_def)
  qed (use o sz all in blast)+
qed

lemma ex_parts: "\<exists>f1 b1 f2 ps. fragment_outgoing ex_master (buf_of [] ex_datagram []) ex_frame = Some (f1, b1) \<and>
    send_parts 31 ex_frame f1 = Some (f2, ps) \<and> length ps = 2"
proof -
  have len: "length ex_datagram = 18" by (simp add: ex_datagram_def)
  have o: "optimal_fragment_size 18 8 = Some (int 8)" by code_simp
  obtain f1 b1 f2 ps where p: "fragment_outgoing ex_master (buf_of [] ex_datagram []) ex_frame = Some (f1, b1)"
    "send_parts 31 ex_frame f1 = Some (f2, ps)" "buf_content b1 # ps = parts_from 5 8 0 ex_datagram"
    using fragment_outgoing_parts[of ex_frame ex_master "buf_of [] ex_datagram []" ex_datagram 8 5] ex_master_ok o len
    by (auto simp: buf_live_of buf_fits_def BUF_SIZE_MAX_def ex_frame_def MAX_FRAGS_def)
  have "length (parts_from 5 8 0 ex_datagram) = 3"
    using parts_from_nth[of 8 3 ex_datagram 0 5] len by simp
  then have "length ps = 2" unfolding p(3)[symmetric] by simp
  then show ?thesis using p(1,2) by blast
qed

theorem fragments_reassemble_witness:
  "\<exists>f1 b1 f2 p1 p2 r. fragment_outgoing ex_master (buf_of [] ex_datagram []) ex_frame = Some (f1, b1) \<and>
    send_parts 31 ex_frame f1 = Some (f2, [p1, p2]) \<and>
    receive_parts 7 ex_frame ex_master (map (\<lambda>p. buf_of [] p []) [p2, buf_content b1, p2, p1]) =
      Some (r, [[], [], [], ex_datagram])"
proof -
  have len: "length ex_datagram = 18" by (simp add: ex_datagram_def)
  have new: "fragment_seq_new (fm_incoming ex_master) (nat ((fm_outgoing_seq_id ex_master + 1) mod 256))"
    unfolding fragment_seq_new_def by (rule exI[of _ 5]) code_simp
  obtain f1 b1 f2 ps where r: "fragment_outgoing ex_master (buf_of [] ex_datagram []) ex_frame = Some (f1, b1)"
    "send_parts 31 ex_frame f1 = Some (f2, ps)" "\<forall>p \<in> set (buf_content b1 # ps). length p \<le> 12"
    "\<forall>bs ks k. list_all2 (\<lambda>b j. buf_live b \<and> j < length (buf_content b1 # ps) \<and> buf_content b = (buf_content b1 # ps) ! j) bs (ks @ [k]) \<and>
        k \<notin> set ks \<and> insert k (set ks) = {..<length (buf_content b1 # ps)} \<longrightarrow>
        (\<exists>r'. receive_parts 7 ex_frame ex_master bs = Some (r', replicate (length ks) [] @ [ex_datagram]) \<and>
          frag_state_ok ex_frame (fm_incoming r'))"
    using fragments_reassemble[of ex_frame ex_master "buf_of [] ex_datagram []" ex_datagram ex_master 7]
      ex_master_ok new len by (auto simp: Let_def buf_live_of buf_fits_def BUF_SIZE_MAX_def ex_frame_def)
  obtain p1 p2 where ps: "ps = [p1, p2]" using ex_parts r(1,2) by (auto simp: length_Suc_conv numeral_2_eq_2)
  have fits: "buf_fits [] p []" if "length p \<le> 12" for p :: "byte list" using that by (simp add: buf_fits_def BUF_SIZE_MAX_def)
  have "\<exists>r'. receive_parts 7 ex_frame ex_master (map (\<lambda>p. buf_of [] p []) [p2, buf_content b1, p2, p1]) =
      Some (r', replicate (length [2, 0, 2 :: nat]) [] @ [ex_datagram])"
    using r(4)[rule_format, of "map (\<lambda>p. buf_of [] p []) [p2, buf_content b1, p2, p1]" "[2, 0, 2]" 1] r(3) ps fits
    by (auto simp: buf_live_of numeral_2_eq_2 numeral_3_eq_3 lessThan_Suc)
  then show ?thesis using r(1,2) ps by auto
qed

text \<open>C32: The receiver of fragments is memory safe: whatever bytes arrive, \<open>fragment_incoming\<close> returns, no
  assertion fails, no write leaves a block, and the reassembly buffers stay well formed.\<close>

theorem fragment_incoming_safe:
  assumes "frame_ok fr" "frag_state_ok fr (fm_incoming f)" "list_all buf_live bs"
  shows "\<exists>f' outs. receive_parts now fr f bs = Some (f', outs) \<and> frag_state_ok fr (fm_incoming f') \<and> length outs = length bs"
  using assms(2,3)
proof (induction bs arbitrary: f)
  case (Cons b bs)
  obtain f1 b1 where "fragment_incoming now f b fr = Some (f1, b1)" "frag_state_ok fr (fm_incoming f1)"
    using fragment_incoming_total[OF assms(1) Cons.prems(1)] Cons.prems(2) by fastforce
  then show ?case using Cons.IH[of f1] Cons.prems(2) by auto
qed simp

theorem fragment_incoming_safe_witness:
  "\<exists>f' outs. receive_parts 7 ex_frame ex_master [buf_of [] [0, 0, 0, 7] [], buf_of [] (replicate 40 255) [], buf_of [] [1] []] =
    Some (f', outs) \<and> length outs = 3"
  using fragment_incoming_safe[of ex_frame ex_master "[buf_of [] [0, 0, 0, 7] [], buf_of [] (replicate 40 255) [], buf_of [] [1] []]" 7]
    ex_master_ok by (auto simp: buf_live_of buf_fits_def BUF_SIZE_MAX_def)

end
