(* ===== verification/Ovpn_Hkdf.thy ===== *)
theory Ovpn_Hkdf
  imports Ovpn_Buffer
begin

text \<open>
  Key derivation for the data channel (\<open>ovpn_hkdf_expand\<close> and \<open>ovpn_expand_label\<close> of
  \<open>crypto_epoch.c\<close>): HKDF-Expand of RFC 5869 over HMAC-SHA256 and the labelled expansion of TLS 1.3
  with the prefix "ovpn ".  HMAC-SHA256 belongs to the TLS library: it is the parameter \<open>hmac\<close>, a
  function of key and message, and the only thing assumed of it is the length of its output.
\<close>

unbundle bit_operations_syntax

definition SHA256_DIGEST_LENGTH :: nat where "SHA256_DIGEST_LENGTH = 32"

type_synonym hmac_fn = "byte list \<Rightarrow> byte list \<Rightarrow> byte list"

definition hmac_sized :: "hmac_fn \<Rightarrow> bool" where
  "hmac_sized hmac \<longleftrightarrow> (\<forall>k m. length (hmac k m) = SHA256_DIGEST_LENGTH)"

section \<open>HKDF-Expand\<close>

text \<open>
  The byte offset of a block: \<open>(block - 1) * digest_size\<close>, an \<open>int\<close> times an \<open>unsigned int\<close>.  The
  loop's counter is an 8-bit integer that wraps; the loop ends when the offset reaches \<open>out_len\<close>
  (\<open>None\<close> also stands for a loop that does not end).
\<close>

definition hkdf_offset :: "byte \<Rightarrow> nat" where
  "hkdf_offset block = unat ((ucast block - 1) * word_of_nat SHA256_DIGEST_LENGTH :: u32)"

partial_function (option) hkdf_loop ::
  "hmac_fn \<Rightarrow> byte list \<Rightarrow> byte list \<Rightarrow> byte \<Rightarrow> byte list \<Rightarrow> byte list \<Rightarrow> nat \<Rightarrow> byte list option" where
  "hkdf_loop hmac secret info block t_prev out out_len =
     (if hkdf_offset block < out_len
      then do {
        let t = hmac secret (t_prev @ info @ [block]);
        out \<leftarrow> mem_write out (int (hkdf_offset block)) (take (min SHA256_DIGEST_LENGTH (out_len - hkdf_offset block)) t);
        hkdf_loop hmac secret info (block + 1) t out out_len }
      else Some out)"

text \<open>\<open>out\<close> is the caller's block.\<close>

definition ovpn_hkdf_expand ::
  "hmac_fn \<Rightarrow> byte list \<Rightarrow> byte list \<Rightarrow> byte list \<Rightarrow> nat \<Rightarrow> byte list option" where
  "ovpn_hkdf_expand hmac secret info out out_len = do {
     cassert (length info \<le> 2147483647);
     hkdf_loop hmac secret info 1 [] out out_len }"

section \<open>Labels\<close>

definition ovpn_label_prefix :: "byte list" where
  "ovpn_label_prefix = map of_char ''ovpn ''"

text \<open>The result is the returned truth value and the caller's block.\<close>

definition ovpn_expand_label ::
  "hmac_fn \<Rightarrow> byte list \<Rightarrow> byte list \<Rightarrow> byte list \<Rightarrow> byte list \<Rightarrow> nat \<Rightarrow> (bool \<times> byte list) option" where
  "ovpn_expand_label hmac secret label context out out_len =
     (if length secret \<noteq> 32 \<or> length label > 250 \<or> length context > 255 \<or> length label < 1
      then Some (False, out)
      else do {
        cassert (out_len \<le> 65535);
        let prefix_len = (5 :: byte);
        let hkdf_label_len = 2 + 5 + 1 + length label + 1 + length context;
        b \<leftarrow> alloc_buf hkdf_label_len;
        (b, _) \<leftarrow> buf_write_u16 b (word_of_nat out_len);
        (b, _) \<leftarrow> buf_write_u8 b (prefix_len + word_of_nat (length label));
        (b, _) \<leftarrow> buf_write b ovpn_label_prefix;
        (b, _) \<leftarrow> buf_write b label;
        (b, _) \<leftarrow> buf_write_u8 b (word_of_nat (length context));
        (b, _) \<leftarrow> (if length context > 0 then buf_write b context else Some (b, True));
        cassert (b_len b = int hkdf_label_len);
        info \<leftarrow> buf_bytes b;
        out \<leftarrow> ovpn_hkdf_expand hmac secret info out out_len;
        Some (True, out) })"

section \<open>The specification of RFC 5869\<close>

fun hkdf_T :: "hmac_fn \<Rightarrow> byte list \<Rightarrow> byte list \<Rightarrow> nat \<Rightarrow> byte list" where
  "hkdf_T hmac secret info 0 = []"
| "hkdf_T hmac secret info (Suc i) = hmac secret (hkdf_T hmac secret info i @ info @ [word_of_nat (Suc i)])"

definition hkdf_okm :: "hmac_fn \<Rightarrow> byte list \<Rightarrow> byte list \<Rightarrow> nat \<Rightarrow> byte list" where
  "hkdf_okm hmac secret info n = concat (map (\<lambda>i. hkdf_T hmac secret info (Suc i)) [0..<n])"

lemma hkdf_T_length: "hmac_sized hmac \<Longrightarrow> 0 < i \<Longrightarrow> length (hkdf_T hmac secret info i) = 32"
  by (cases i) (simp_all add: hmac_sized_def SHA256_DIGEST_LENGTH_def)

lemma hkdf_okm_Suc: "hkdf_okm hmac secret info (Suc n) = hkdf_okm hmac secret info n @ hkdf_T hmac secret info (Suc n)"
  by (simp add: hkdf_okm_def)

lemma hkdf_okm_length: "hmac_sized hmac \<Longrightarrow> length (hkdf_okm hmac secret info n) = 32 * n"
proof (induction n)
  case 0
  then show ?case by (simp add: hkdf_okm_def)
next
  case (Suc n)
  then show ?case using hkdf_T_length[of hmac "Suc n" secret info] by (simp add: hkdf_okm_Suc del: hkdf_T.simps)
qed

text \<open>More blocks only append to the output.\<close>

lemma hkdf_okm_take:
  assumes "hmac_sized hmac" "k \<le> 32 * m" "m \<le> n"
  shows "take k (hkdf_okm hmac secret info n) = take k (hkdf_okm hmac secret info m)"
  using assms(3)
proof (induction n rule: dec_induct)
  case (step n)
  have "k \<le> length (hkdf_okm hmac secret info n)"
    using hkdf_okm_length[OF assms(1)] step(1) assms(2) by (metis mult_le_mono2 order_trans)
  then show ?case using step(3) by (simp add: hkdf_okm_Suc del: hkdf_T.simps)
qed simp

lemma hkdf_offset_val: "i < 255 \<Longrightarrow> hkdf_offset (word_of_nat (Suc i)) = 32 * i"
proof -
  assume i: "i < 255"
  have "(ucast (word_of_nat (Suc i) :: byte) :: u32) = word_of_nat (Suc i)"
    by (rule iffD2[OF word_unat_eq_iff]) (use i in \<open>simp add: unsigned_ucast_eq take_bit_nat_eq_self unat_of_nat del: of_nat_Suc\<close>)
  then have "(ucast (word_of_nat (Suc i) :: byte) - 1) * word_of_nat SHA256_DIGEST_LENGTH = (word_of_nat (32 * i) :: u32)"
    by (simp add: SHA256_DIGEST_LENGTH_def)
  then show ?thesis unfolding hkdf_offset_def using i by (simp only: unat_of_nat) simp
qed

lemma hkdf_offset_wrapped: "hkdf_offset (word_of_nat 256) = 4294967264"
  by (simp add: hkdf_offset_def SHA256_DIGEST_LENGTH_def)

text \<open>The loop from block \<open>i + 1\<close> on, when the first \<open>32 * i\<close> bytes are done.\<close>

lemma hkdf_loop_spec:
  assumes h: "hmac_sized hmac" and n: "n \<le> 255" and i: "i \<le> n" and len: "out_len \<le> length out"
    and stop: "out_len \<le> 32 * n \<or> (n = 255 \<and> out_len \<le> 4294967264)" and more: "0 < n \<Longrightarrow> 32 * (n - 1) < out_len"
  shows "hkdf_loop hmac secret info (word_of_nat (Suc i)) (hkdf_T hmac secret info i)
      (take (min out_len (32 * i)) (hkdf_okm hmac secret info n) @ drop (min out_len (32 * i)) out) out_len =
    Some (take (min out_len (32 * n)) (hkdf_okm hmac secret info n) @ drop (min out_len (32 * n)) out)"
  using i
proof (induction "n - i" arbitrary: i)
  case 0
  then have [simp]: "i = n" by simp
  have "\<not> hkdf_offset (word_of_nat (Suc n)) < out_len"
  proof (cases "n = 255")
    case True
    then show ?thesis using stop hkdf_offset_wrapped by auto
  next
    case False
    then show ?thesis using stop n hkdf_offset_val[of n] by (auto simp del: of_nat_Suc)
  qed
  then show ?case by (subst hkdf_loop.simps) (simp del: of_nat_Suc)
next
  case (Suc d)
  then have i: "i < n" by simp
  have off: "hkdf_offset (word_of_nat (Suc i)) = 32 * i" using i n by (intro hkdf_offset_val) simp
  have "32 * i \<le> 32 * (n - 1)" using i by simp
  then have lt: "32 * i < out_len" using more i by linarith
  define t where "t = hkdf_T hmac secret info (Suc i)"
  define K where "K = hkdf_okm hmac secret info n"
  define m where "m = min 32 (out_len - 32 * i)"
  have lt32: "length t = 32" unfolding t_def by (rule hkdf_T_length[OF h]) simp
  have lK: "length K = 32 * n" by (simp add: K_def hkdf_okm_length[OF h])
  have mm: "m \<le> 32" "32 * i + m = min out_len (32 * Suc i)" using lt by (auto simp: m_def)
  have iK: "32 * i \<le> length K" "32 * i + 32 \<le> length K" using i lK by simp_all
  have pre: "take (32 * i + m) K = take (32 * i) K @ take m t"
  proof -
    have "take (32 * i + 32) K = hkdf_okm hmac secret info (Suc i)"
      using hkdf_okm_take[OF h, of "32 * i + 32" "Suc i" n secret info] i hkdf_okm_length[OF h, of secret info "Suc i"]
      by (simp add: K_def)
    also have "\<dots> = hkdf_okm hmac secret info i @ t" by (simp add: hkdf_okm_Suc t_def del: hkdf_T.simps)
    finally have e: "take (32 * i + 32) K = hkdf_okm hmac secret info i @ t" .
    have li: "length (hkdf_okm hmac secret info i) = 32 * i" by (rule hkdf_okm_length[OF h])
    have "take (32 * i + m) K = take (32 * i + m) (take (32 * i + 32) K)" using mm(1) by (simp add: min_def)
    also have "\<dots> = hkdf_okm hmac secret info i @ take m t" unfolding e using li by simp
    also have "hkdf_okm hmac secret info i = take (32 * i) (take (32 * i + 32) K)" unfolding e using li by simp
    also have "\<dots> = take (32 * i) K" by (simp add: min_def)
    finally show ?thesis .
  qed
  have wr: "mem_write (take (32 * i) K @ drop (32 * i) out) (int (32 * i)) (take m t) =
      Some (take (32 * i + m) K @ drop (32 * i + m) out)"
  proof -
    have "32 * i + m \<le> length out" using mm(2) len by linarith
    then show ?thesis using iK lt32 mm(1) unfolding pre mem_write_def nat_int
      by (simp add: min_def add.commute del: of_nat_mult of_nat_add)
  qed
  have "hkdf_loop hmac secret info (word_of_nat (Suc i)) (hkdf_T hmac secret info i)
      (take (32 * i) K @ drop (32 * i) out) out_len =
    hkdf_loop hmac secret info (word_of_nat (Suc (Suc i))) t (take (32 * i + m) K @ drop (32 * i + m) out) out_len"
  proof -
    have tt: "hmac secret (hkdf_T hmac secret info i @ info @ [word_of_nat (Suc i)]) = t" by (simp add: t_def)
    have n1: "word_of_nat (Suc (Suc i)) = (word_of_nat (Suc i) + 1 :: byte)" by simp
    show ?thesis
      by (subst hkdf_loop.simps, unfold tt Let_def off if_P[OF lt] SHA256_DIGEST_LENGTH_def m_def[symmetric] wr bind.simps n1) (rule refl)
  qed
  moreover have "min out_len (32 * i) = 32 * i" using lt by simp
  ultimately show ?case using Suc.hyps(1)[of "Suc i"] Suc.hyps(2) i mm(2) by (simp only: K_def t_def)
qed

lemma ovpn_hkdf_expand_spec:
  assumes h: "hmac_sized hmac" and info: "length info \<le> 2147483647" and len: "out_len \<le> length out"
    and n: "n \<le> 255" "out_len \<le> 32 * n \<or> (n = 255 \<and> out_len \<le> 4294967264)" "0 < n \<Longrightarrow> 32 * (n - 1) < out_len"
  shows "ovpn_hkdf_expand hmac secret info out out_len =
    Some (take (min out_len (32 * n)) (hkdf_okm hmac secret info n) @ drop (min out_len (32 * n)) out)"
  using hkdf_loop_spec[OF h n(1) _ len n(2,3), of 0 secret info] info by (simp add: ovpn_hkdf_expand_def)

text \<open>The loop has exactly \<open>out_len\<close> bytes to write when they fit in 255 blocks.\<close>

lemma ovpn_hkdf_expand_okm:
  assumes h: "hmac_sized hmac" and info: "length info \<le> 2147483647" and len: "out_len \<le> length out" "out_len \<le> 255 * 32"
  shows "ovpn_hkdf_expand hmac secret info out out_len = Some (take out_len (hkdf_okm hmac secret info 255) @ drop out_len out)"
proof -
  define n where "n = (out_len + 31) div 32"
  have n: "n \<le> 255" "out_len \<le> 32 * n" "0 < n \<Longrightarrow> 32 * (n - 1) < out_len" using len(2) by (auto simp: n_def)
  have "take out_len (hkdf_okm hmac secret info 255) = take out_len (hkdf_okm hmac secret info n)"
    by (rule hkdf_okm_take[OF h n(2,1)])
  then show ?thesis using ovpn_hkdf_expand_spec[OF h info len(1) n(1) _ n(3), of secret] n(2) by simp
qed

section \<open>The info string of a label\<close>

definition label_info :: "byte list \<Rightarrow> byte list \<Rightarrow> nat \<Rightarrow> byte list" where
  "label_info label context out_len = be16 (word_of_nat out_len) @ [word_of_nat (5 + length label)] @ ovpn_label_prefix @ label @
     [word_of_nat (length context)] @ context"

lemma ovpn_label_prefix_length [simp]: "length ovpn_label_prefix = 5" by (simp add: ovpn_label_prefix_def)

lemma ovpn_expand_label_info:
  assumes "length secret = 32" "1 \<le> length label" "length label \<le> 250" "length context \<le> 255" "out_len \<le> 65535"
  shows "ovpn_expand_label hmac secret label context out out_len =
    map_option (\<lambda>out. (True, out)) (ovpn_hkdf_expand hmac secret (label_info label context out_len) out out_len)"
proof -
  define n where "n = 2 + 5 + 1 + length label + 1 + length context"
  have n: "n \<le> 514" "n < 2000000000" using assms by (simp_all add: n_def)
  have al: "alloc_buf n = Some (buf_of [] [] (replicate n 0))" using n by (intro alloc_buf_ok) (simp add: BUF_SIZE_MAX_def)
  define q where "q = replicate n (0 :: byte)"
  have q: "length q = n" by (simp add: q_def)
  have w: "buf_write (buf_of [] c q) bs = Some (buf_of [] (c @ bs) (drop (length bs) q), True)"
    if "length c + length q = n" "length bs \<le> length q" for c bs q
  proof -
    have "buf_fits [] c q" using that n by (simp add: buf_fits_def BUF_SIZE_MAX_def flip: of_nat_add)
    then show ?thesis using that(2) by (simp add: buf_write_of)
  qed
  have l: "label_info label context out_len = (((((be16 (word_of_nat out_len)) @ [5 + word_of_nat (length label)]) @ ovpn_label_prefix) @ label) @
     [word_of_nat (length context)]) @ context" by (simp add: label_info_def)
  define fin where "fin = drop (length context) (drop 1 (drop (length label) (drop 5 (drop 1 (drop 2 q)))))"
  have c: "(if 0 < length context then buf_write (buf_of [] c q) context else Some (buf_of [] c q, True)) =
      Some (buf_of [] (c @ context) (drop (length context) q), True)"
    if "length c + length q = n" "length context \<le> length q" for c q
    using w[OF that] by (cases "context = []") simp_all
  have len: "int (length (label_info label context out_len)) = int n" by (simp add: l n_def)
  have steps: "buf_write (buf_of [] [] q) (be16 (word_of_nat out_len)) = Some (buf_of [] (be16 (word_of_nat out_len)) (drop 2 q), True)"
    using w[of "[]" q "be16 (word_of_nat out_len)"] q by (simp add: n_def)
  have cond: "\<not> (length secret \<noteq> 32 \<or> length label > 250 \<or> length context > 255 \<or> length label < 1)"
    using assms by auto
  show ?thesis
    unfolding ovpn_expand_label_def if_not_P[OF cond] Let_def n_def[symmetric] al q_def[symmetric] buf_write_u16_def
      buf_write_u8_def bind.simps bind_cassert if_P[OF assms(5)] steps prod.case
    by (subst w, simp add: q n_def, simp add: q n_def, unfold bind.simps prod.case)
      (subst w, simp add: q n_def, simp add: q n_def, unfold bind.simps prod.case,
       subst w, simp add: q n_def, simp add: q n_def, unfold bind.simps prod.case,
       subst w, simp add: q n_def, simp add: q n_def, unfold bind.simps prod.case,
       subst c, simp add: q n_def, simp add: q n_def, unfold bind.simps prod.case,
       simp add: buf_bytes_of l[symmetric] map_option_case len del: append_assoc split: option.splits)
qed

text \<open>Different uses never share an info string.\<close>

lemma label_info_inject:
  assumes "length label \<le> 250" "length context \<le> 255" "out_len \<le> 65535"
    "length label' \<le> 250" "length context' \<le> 255" "out_len' \<le> 65535"
    and eq: "label_info label context out_len = label_info label' context' out_len'"
  shows "label = label' \<and> context = context' \<and> out_len = out_len'"
proof -
  have b: "be16 (word_of_nat out_len) = be16 (word_of_nat out_len' :: u16)"
    "(word_of_nat (5 + length label) :: byte) = word_of_nat (5 + length label')"
    "label @ [word_of_nat (length context)] @ context = label' @ [word_of_nat (length context')] @ context'"
    using eq by (simp_all add: label_info_def append_eq_append_conv)
  have "unat (word_of_nat out_len :: u16) = unat (word_of_nat out_len' :: u16)" using b(1) by (metis de16_be16)
  then have o: "out_len = out_len'" using assms(3,6) by (simp add: unat_of_nat)
  have "unat (word_of_nat (5 + length label) :: byte) = unat (word_of_nat (5 + length label') :: byte)"
    using b(2) by simp
  then have "length label = length label'" using assms(1,4) by (simp only: unat_of_nat) simp
  then show ?thesis using b(3) o by (auto simp: append_eq_append_conv)
qed

section \<open>Properties\<close>

text \<open>C35: Key expansion is HKDF-Expand of RFC 5869: for every length the standard allows (255 blocks) the
  loop ends and writes exactly the first bytes of T(1) T(2) ..., and nothing else of the caller's
  block; and the info strings of two expansions agree only if label, context and length agree.\<close>

theorem expand_label_rfc5869:
  assumes h: "hmac_sized hmac"
    and l: "length secret = 32" "1 \<le> length label" "length label \<le> 250" "length context \<le> 255"
    and len: "out_len \<le> length out" "out_len \<le> 255 * 32"
  shows "ovpn_expand_label hmac secret label context out out_len =
      Some (True, take out_len (hkdf_okm hmac secret (label_info label context out_len) 255) @ drop out_len out) \<and>
    (\<forall>label' context' out_len'. length label' \<le> 250 \<and> length context' \<le> 255 \<and> out_len' \<le> 255 * 32 \<and>
       label_info label' context' out_len' = label_info label context out_len \<longrightarrow>
       label' = label \<and> context' = context \<and> out_len' = out_len)"
proof -
  have "length (label_info label context out_len) \<le> 2147483647" using l by (simp add: label_info_def)
  from ovpn_hkdf_expand_okm[OF h this len]
  have "ovpn_expand_label hmac secret label context out out_len =
      Some (True, take out_len (hkdf_okm hmac secret (label_info label context out_len) 255) @ drop out_len out)"
    using ovpn_expand_label_info[OF l, of out_len hmac out] len(2) by simp
  moreover have "label' = label \<and> context' = context \<and> out_len' = out_len"
    if "length label' \<le> 250" "length context' \<le> 255" "out_len' \<le> 255 * 32"
      "label_info label' context' out_len' = label_info label context out_len" for label' context' out_len'
    using label_info_inject[OF that(1,2) _ l(3,4) _ that(4)] that(3) len(2) by simp
  ultimately show ?thesis by blast
qed

text \<open>A keyed function with outputs of 32 bytes, for instances.\<close>

definition toy_hmac :: hmac_fn where
  "toy_hmac k m = map (\<lambda>i. sum_list k + sum_list m + word_of_nat i) [0..<32]"

lemma toy_hmac_sized: "hmac_sized toy_hmac" by (simp add: hmac_sized_def toy_hmac_def SHA256_DIGEST_LENGTH_def)

theorem expand_label_rfc5869_witness:
  "ovpn_expand_label toy_hmac (replicate 32 7) [1, 2] [] (replicate 50 0) 40 =
     Some (True, take 40 (hkdf_okm toy_hmac (replicate 32 7) (label_info [1, 2] [] 40) 255) @ replicate 10 0)"
  using expand_label_rfc5869[of toy_hmac "replicate 32 7" "[1, 2]" "[]" 40 "replicate 50 0"] toy_hmac_sized by simp

text \<open>Beyond 255 blocks the 8-bit counter wraps, the loop ends, and the rest of the block is never written;
  \<open>ovpn_expand_label\<close> admits lengths up to 65535.\<close>

lemma hkdf_expand_stops_early:
  assumes "hmac_sized hmac" "length info \<le> 2147483647" "8160 < out_len" "out_len \<le> 65535" "out_len \<le> length out"
  shows "ovpn_hkdf_expand hmac secret info out out_len = Some (hkdf_okm hmac secret info 255 @ drop 8160 out)"
proof -
  have "length (hkdf_okm hmac secret info 255) = 8160" using hkdf_okm_length[OF assms(1)] by simp
  then show ?thesis
    using ovpn_hkdf_expand_spec[OF assms(1,2,5), of 255 secret] assms(3,4) by (simp add: min_def)
qed

end
