(* ===== verification/Ovpn_Epoch.thy ===== *)
theory Ovpn_Epoch
  imports Ovpn_Hkdf Ovpn_Packet_Id
begin

text \<open>
  Data channel keys by epochs (\<open>crypto_epoch.c\<close>, with the key contexts of \<open>crypto.c\<close>): both peers
  derive a chain of epoch keys from a common first one; each epoch key gives a cipher key and an
  implicit IV.  The receiver holds the key in use, the one retired last and a window of future keys;
  it moves when an authenticated packet of a later epoch arrives.  The cipher library is a parameter
  (\<open>crypto_backend\<close>); a cipher context is represented by the name and the key it was initialised with.
\<close>

unbundle bit_operations_syntax

section \<open>State\<close>

record crypto_backend =
  cb_hmac :: hmac_fn
  cb_key_size :: "string \<Rightarrow> nat"
  cb_iv_size :: "string \<Rightarrow> nat"
  cb_aead :: "string \<Rightarrow> bool"
  cb_md_size :: "string \<Rightarrow> nat"

definition cipher_defined :: "string \<Rightarrow> bool" where "cipher_defined ciphername = (ciphername \<noteq> ''none'')"
definition md_defined :: "string \<Rightarrow> bool" where "md_defined mdname = (mdname \<noteq> ''none'')"

record key_type =
  kt_cipher :: string
  kt_digest :: string

record epoch_key =
  ek_key :: "byte list"
  ek_epoch :: u16

definition MAX_CIPHER_KEY_LENGTH :: nat where "MAX_CIPHER_KEY_LENGTH = 64"
definition MAX_HMAC_KEY_LENGTH :: nat where "MAX_HMAC_KEY_LENGTH = 64"
definition OPENVPN_MAX_IV_LENGTH :: nat where "OPENVPN_MAX_IV_LENGTH = 16"
definition OPENVPN_AEAD_MIN_IV_LEN :: nat where "OPENVPN_AEAD_MIN_IV_LEN = 4 + 8"

record key_parameters =
  kp_cipher :: "byte list"
  kp_cipher_size :: nat
  kp_hmac :: "byte list"
  kp_hmac_size :: nat
  kp_epoch :: u16

definition clear_key_parameters :: key_parameters where
  "clear_key_parameters = \<lparr>kp_cipher = replicate MAX_CIPHER_KEY_LENGTH 0, kp_cipher_size = 0,
     kp_hmac = replicate MAX_HMAC_KEY_LENGTH 0, kp_hmac_size = 0, kp_epoch = 0\<rparr>"

record key_ctx =
  kc_cipher :: "(string \<times> byte list) option"
  kc_hmac :: "(string \<times> byte list) option"
  kc_implicit_iv :: "byte list"
  kc_plaintext_blocks :: u64
  kc_failed_verifications :: u64
  kc_epoch :: u16

definition clear_key_ctx :: key_ctx where
  "clear_key_ctx = \<lparr>kc_cipher = None, kc_hmac = None, kc_implicit_iv = replicate OPENVPN_MAX_IV_LENGTH 0,
     kc_plaintext_blocks = 0, kc_failed_verifications = 0, kc_epoch = 0\<rparr>"

record crypto_options =
  co_encrypt :: key_ctx
  co_decrypt :: key_ctx
  co_initialized :: bool
  co_epoch_key_send :: epoch_key
  co_epoch_key_recv :: epoch_key
  co_epoch_key_type :: key_type
  co_aead_usage_limit :: u64
  co_epoch_data_keys_future :: "key_ctx list"
  co_epoch_data_keys_future_count :: u16
  co_epoch_retiring_data_receive_key :: key_ctx
  co_epoch_retiring_key_pid_recv :: packet_id_rec
  co_packet_id :: packet_id
  co_pid_persist :: "packet_id_persist option"
  co_flags :: u32

section \<open>Key contexts\<close>

definition cipher_ctx_mode_aead :: "crypto_backend \<Rightarrow> key_ctx \<Rightarrow> bool" where
  "cipher_ctx_mode_aead B ctx = (case kc_cipher ctx of None \<Rightarrow> False | Some (name, _) \<Rightarrow> cb_aead B name)"

definition init_key_ctx :: "crypto_backend \<Rightarrow> key_parameters \<Rightarrow> key_type \<Rightarrow> key_ctx option" where
  "init_key_ctx B key kt = do {
     let ctx = clear_key_ctx;
     ctx \<leftarrow> (if cipher_defined (kt_cipher kt)
            then do {
              cassert (kp_cipher_size key \<ge> cb_key_size B (kt_cipher kt));
              k \<leftarrow> mem_read (kp_cipher key) 0 (int (cb_key_size B (kt_cipher kt)));
              Some (ctx\<lparr>kc_cipher := Some (kt_cipher kt, k)\<rparr>) }
            else Some ctx);
     ctx \<leftarrow> (if md_defined (kt_digest kt)
            then do {
              cassert (kp_hmac_size key \<ge> cb_md_size B (kt_digest kt));
              k \<leftarrow> mem_read (kp_hmac key) 0 (int (cb_md_size B (kt_digest kt)));
              Some (ctx\<lparr>kc_hmac := Some (kt_digest kt, k)\<rparr>) }
            else Some ctx);
     Some (ctx\<lparr>kc_epoch := kp_epoch key\<rparr>) }"

definition key_ctx_update_implicit_iv :: "crypto_backend \<Rightarrow> key_ctx \<Rightarrow> key_parameters \<Rightarrow> key_ctx option" where
  "key_ctx_update_implicit_iv B ctx key =
     (case kc_cipher ctx of
        None \<Rightarrow> Some ctx
      | Some (name, _) \<Rightarrow>
          if \<not> cipher_ctx_mode_aead B ctx then Some ctx
          else do {
            cassert (cb_iv_size B name \<ge> OPENVPN_AEAD_MIN_IV_LEN);
            let impl_iv_len = (if kp_epoch key \<noteq> 0 then cb_iv_size B name else cb_iv_size B name - 4);
            let impl_iv_offset = (if kp_epoch key \<noteq> 0 then 0 else 4);
            cassert (impl_iv_offset + impl_iv_len \<le> OPENVPN_MAX_IV_LENGTH);
            cassert (impl_iv_len \<le> MAX_HMAC_KEY_LENGTH);
            cassert (impl_iv_len \<le> kp_hmac_size key);
            h \<leftarrow> mem_read (kp_hmac key) 0 (int impl_iv_len);
            iv \<leftarrow> mem_write (replicate OPENVPN_MAX_IV_LENGTH 0) (int impl_iv_offset) h;
            Some (ctx\<lparr>kc_implicit_iv := iv\<rparr>) })"

definition init_key_bi_ctx_send :: "crypto_backend \<Rightarrow> key_parameters \<Rightarrow> key_type \<Rightarrow> key_ctx option" where
  "init_key_bi_ctx_send B key kt = do {
     ctx \<leftarrow> init_key_ctx B key kt;
     ctx \<leftarrow> key_ctx_update_implicit_iv B ctx key;
     Some (ctx\<lparr>kc_epoch := kp_epoch key\<rparr>) }"

definition init_key_bi_ctx_recv :: "crypto_backend \<Rightarrow> key_parameters \<Rightarrow> key_type \<Rightarrow> key_ctx option" where
  "init_key_bi_ctx_recv B key kt = do {
     ctx \<leftarrow> init_key_ctx B key kt;
     ctx \<leftarrow> key_ctx_update_implicit_iv B ctx key;
     Some (ctx\<lparr>kc_epoch := kp_epoch key\<rparr>) }"

definition free_key_ctx :: "key_ctx \<Rightarrow> key_ctx" where
  "free_key_ctx ctx = ctx\<lparr>kc_cipher := None, kc_hmac := None,
     kc_implicit_iv := replicate OPENVPN_MAX_IV_LENGTH 0, kc_plaintext_blocks := 0, kc_epoch := 0\<rparr>"

section \<open>Usage limits\<close>

definition cipher_decrypt_verify_fail_exceeded :: "key_ctx \<Rightarrow> bool" where
  "cipher_decrypt_verify_fail_exceeded ctx = (kc_failed_verifications ctx > push_bit 36 1)"

definition cipher_decrypt_verify_fail_warn :: "key_ctx \<Rightarrow> bool" where
  "cipher_decrypt_verify_fail_warn ctx = (kc_failed_verifications ctx > push_bit 35 1)"

definition AEAD_LIMIT_BLOCKSIZE :: int where "AEAD_LIMIT_BLOCKSIZE = 16"

definition aead_usage_limit_reached :: "u64 \<Rightarrow> key_ctx \<Rightarrow> u64 \<Rightarrow> bool" where
  "aead_usage_limit_reached limit ctx higest_pid = (limit > 0 \<and> kc_plaintext_blocks ctx + higest_pid > limit)"

text \<open>The names are compared as the library's canonical pointers; \<open>chacha\<close> says whether the cipher is
  ChaCha20-Poly1305.\<close>

definition cipher_get_aead_limits :: "crypto_backend \<Rightarrow> (string \<Rightarrow> bool) \<Rightarrow> string \<Rightarrow> u64" where
  "cipher_get_aead_limits B chacha name =
     (if \<not> cb_aead B name then 0 else if chacha name then 0 else push_bit 36 1 - 1)"

section \<open>Epoch keys\<close>

definition epoch_key_iterate :: "crypto_backend \<Rightarrow> epoch_key \<Rightarrow> epoch_key option" where
  "epoch_key_iterate B ek = do {
     (_, out) \<leftarrow> ovpn_expand_label (cb_hmac B) (ek_key ek) (map of_char ''datakey upd'') []
        (replicate SHA256_DIGEST_LENGTH 0) SHA256_DIGEST_LENGTH;
     Some \<lparr>ek_key = out, ek_epoch = ek_epoch ek + 1\<rparr> }"

definition epoch_data_key_derive :: "crypto_backend \<Rightarrow> key_parameters \<Rightarrow> epoch_key \<Rightarrow> key_type \<Rightarrow> key_parameters option" where
  "epoch_data_key_derive B key ek kt = do {
     let key = key\<lparr>kp_hmac_size := cb_iv_size B (kt_cipher kt), kp_cipher_size := cb_key_size B (kt_cipher kt)\<rparr>;
     (_, c) \<leftarrow> ovpn_expand_label (cb_hmac B) (ek_key ek) (map of_char ''data_key'') [] (kp_cipher key) (kp_cipher_size key);
     let key = key\<lparr>kp_cipher := c\<rparr>;
     (_, h) \<leftarrow> ovpn_expand_label (cb_hmac B) (ek_key ek) (map of_char ''data_iv'') [] (kp_hmac key) (kp_hmac_size key);
     Some (key\<lparr>kp_hmac := h, kp_epoch := ek_epoch ek\<rparr>) }"

definition epoch_init_send_key_ctx :: "crypto_backend \<Rightarrow> crypto_options \<Rightarrow> crypto_options option" where
  "epoch_init_send_key_ctx B co = do {
     cassert (kc_epoch (co_encrypt co) \<noteq> ek_epoch (co_epoch_key_send co));
     key \<leftarrow> epoch_data_key_derive B clear_key_parameters (co_epoch_key_send co) (co_epoch_key_type co);
     ctx \<leftarrow> init_key_bi_ctx_send B key (co_epoch_key_type co);
     Some (co\<lparr>co_encrypt := ctx,
              co_packet_id := (co_packet_id co)\<lparr>pi_send := reset_packet_id_send (pi_send (co_packet_id co))\<rparr>\<rparr>) }"

definition epoch_init_recv_key :: "crypto_backend \<Rightarrow> crypto_options \<Rightarrow> key_ctx option" where
  "epoch_init_recv_key B co = do {
     key \<leftarrow> epoch_data_key_derive B clear_key_parameters (co_epoch_key_recv co) (co_epoch_key_type co);
     init_key_bi_ctx_recv B key (co_epoch_key_type co) }"

text \<open>The loop that fills the array from index \<open>i\<close> on; \<open>n\<close> keys are missing.\<close>

fun generate_keys_loop :: "crypto_backend \<Rightarrow> nat \<Rightarrow> nat \<Rightarrow> crypto_options \<Rightarrow> crypto_options option" where
  "generate_keys_loop B 0 i co = Some co"
| "generate_keys_loop B (Suc n) i co = do {
     cassert (i < length (co_epoch_data_keys_future co));
     ek \<leftarrow> epoch_key_iterate B (co_epoch_key_recv co);
     let co = co\<lparr>co_epoch_key_recv := ek\<rparr>;
     ctx \<leftarrow> epoch_init_recv_key B co;
     generate_keys_loop B n (i + 1) (co\<lparr>co_epoch_data_keys_future := (co_epoch_data_keys_future co)[i := ctx]\<rparr>) }"

definition epoch_generate_future_receive_keys :: "crypto_backend \<Rightarrow> crypto_options \<Rightarrow> crypto_options option" where
  "epoch_generate_future_receive_keys B co = do {
     cassert (co_initialized co);
     let current_decrypt_epoch = kc_epoch (co_decrypt co);
     let count = unat (co_epoch_data_keys_future_count co);
     cassert (count = length (co_epoch_data_keys_future co) \<and> 0 < count);
     let highest_future_key = (\<lambda>co. co_epoch_data_keys_future co ! (count - 1));
     cassert (ek_epoch (co_epoch_key_recv co) = 1 \<or>
       kc_epoch (highest_future_key co) = ek_epoch (co_epoch_key_recv co) \<or>
       current_decrypt_epoch = ek_epoch (co_epoch_key_recv co));
     let co = co\<lparr>co_epoch_data_keys_future := map (\<lambda>k. if kc_epoch k > 0 \<and> kc_epoch k < current_decrypt_epoch
       then free_key_ctx k else k) (co_epoch_data_keys_future co)\<rparr>;
     let current_highest_key = ek_epoch (co_epoch_key_recv co);
     cassert (current_highest_key = kc_epoch (highest_future_key co) \<or> current_highest_key = current_decrypt_epoch);
     let desired_highest_key = current_decrypt_epoch + co_epoch_data_keys_future_count co;
     let num = unat (desired_highest_key - current_highest_key);
     cassert (num \<le> count);
     cassert (\<forall>k \<in> set (take num (co_epoch_data_keys_future co)). kc_epoch k = 0);
     let co = co\<lparr>co_epoch_data_keys_future :=
       drop num (co_epoch_data_keys_future co) @ drop (count - num) (co_epoch_data_keys_future co)\<rparr>;
     co \<leftarrow> generate_keys_loop B num (count - num) co;
     cassert (\<forall>k \<in> set (co_epoch_data_keys_future co). kc_epoch k > 0);
     Some co }"

definition epoch_iterate_send_key :: "crypto_backend \<Rightarrow> crypto_options \<Rightarrow> crypto_options option" where
  "epoch_iterate_send_key B co = do {
     cassert (ek_epoch (co_epoch_key_send co) < 65535);
     ek \<leftarrow> epoch_key_iterate B (co_epoch_key_send co);
     epoch_init_send_key_ctx B (co\<lparr>co_epoch_key_send := ek, co_encrypt := free_key_ctx (co_encrypt co)\<rparr>) }"

text \<open>The loop \<open>while (co->epoch_key_send.epoch < new_epoch)\<close>.\<close>

partial_function (option) send_catch_up :: "crypto_backend \<Rightarrow> u16 \<Rightarrow> epoch_key \<Rightarrow> epoch_key option" where
  "send_catch_up B new_epoch ek =
     (if ek_epoch ek < new_epoch then do { ek \<leftarrow> epoch_key_iterate B ek; send_catch_up B new_epoch ek } else Some ek)"

fun find_future :: "u16 \<Rightarrow> nat \<Rightarrow> key_ctx list \<Rightarrow> nat" where
  "find_future new_epoch i [] = i"
| "find_future new_epoch i (k # ks) = (if kc_epoch k = new_epoch then i else find_future new_epoch (i + 1) ks)"

definition epoch_replace_update_recv_key :: "crypto_backend \<Rightarrow> crypto_options \<Rightarrow> u16 \<Rightarrow> crypto_options option" where
  "epoch_replace_update_recv_key B co new_epoch = do {
     let fki = find_future new_epoch 0 (take (unat (co_epoch_data_keys_future_count co)) (co_epoch_data_keys_future co));
     cassert (fki < unat (co_epoch_data_keys_future_count co) \<and> fki < length (co_epoch_data_keys_future co));
     let new_ctx = co_epoch_data_keys_future co ! fki;
     cassert (kc_epoch new_ctx = new_epoch);
     co \<leftarrow> (if kc_epoch (co_encrypt co) < new_epoch
           then do {
             let co = co\<lparr>co_encrypt := free_key_ctx (co_encrypt co)\<rparr>;
             ek \<leftarrow> send_catch_up B new_epoch (co_epoch_key_send co);
             epoch_init_send_key_ctx B (co\<lparr>co_epoch_key_send := ek\<rparr>) }
           else Some co);
     let co = co\<lparr>co_epoch_retiring_data_receive_key := co_decrypt co\<rparr>;
     (dest, src) \<leftarrow> packet_id_move_recv (co_epoch_retiring_key_pid_recv co) (pi_rec (co_packet_id co));
     let co = co\<lparr>co_epoch_retiring_key_pid_recv := dest, co_packet_id := (co_packet_id co)\<lparr>pi_rec := src\<rparr>\<rparr>;
     let co = co\<lparr>co_decrypt := new_ctx,
       co_epoch_data_keys_future := (co_epoch_data_keys_future co)[fki := clear_key_ctx]\<rparr>;
     epoch_generate_future_receive_keys B co }"

definition free_epoch_key_ctx :: "crypto_options \<Rightarrow> crypto_options" where
  "free_epoch_key_ctx co = co\<lparr>
     co_epoch_data_keys_future := map free_key_ctx (co_epoch_data_keys_future co),
     co_epoch_retiring_data_receive_key := free_key_ctx (co_epoch_retiring_data_receive_key co),
     co_epoch_key_recv := \<lparr>ek_key = replicate SHA256_DIGEST_LENGTH 0, ek_epoch = 0\<rparr>,
     co_epoch_key_send := \<lparr>ek_key = replicate SHA256_DIGEST_LENGTH 0, ek_epoch = 0\<rparr>\<rparr>"

text \<open>\<open>limit\<close> is the value of \<open>cipher_get_aead_limits\<close> for the cipher.\<close>

definition epoch_init_key_ctx ::
  "crypto_backend \<Rightarrow> u64 \<Rightarrow> crypto_options \<Rightarrow> key_type \<Rightarrow> epoch_key \<Rightarrow> epoch_key \<Rightarrow> u16 \<Rightarrow> crypto_options option" where
  "epoch_init_key_ctx B limit co kt e1_send e1_recv future_key_count = do {
     cassert (ek_epoch e1_send = 1 \<and> ek_epoch e1_recv = 1);
     let co = co\<lparr>co_epoch_key_recv := e1_recv, co_epoch_key_send := e1_send, co_epoch_key_type := kt,
       co_aead_usage_limit := limit\<rparr>;
     co \<leftarrow> epoch_init_send_key_ctx B co;
     ctx \<leftarrow> epoch_init_recv_key B co;
     let co = co\<lparr>co_decrypt := ctx, co_initialized := True, co_epoch_data_keys_future_count := future_key_count,
       co_epoch_data_keys_future := replicate (unat future_key_count) clear_key_ctx\<rparr>;
     epoch_generate_future_receive_keys B co }"

text \<open>The place of a key: the code returns a pointer to it.\<close>

datatype key_slot = Slot_Current | Slot_Retiring | Slot_Future nat

definition epoch_lookup_decrypt_key :: "crypto_options \<Rightarrow> u16 \<Rightarrow> key_slot option" where
  "epoch_lookup_decrypt_key opt epoch =
     (if kc_epoch (co_decrypt opt) = epoch then Some Slot_Current
      else if kc_epoch (co_epoch_retiring_data_receive_key opt) \<noteq> 0 \<and>
              kc_epoch (co_epoch_retiring_data_receive_key opt) = epoch then Some Slot_Retiring
      else if epoch > kc_epoch (co_decrypt opt) \<and>
              uint epoch \<le> uint (kc_epoch (co_decrypt opt)) + uint (co_epoch_data_keys_future_count opt)
      then (let index = uint epoch - (uint (kc_epoch (co_decrypt opt)) + 1) in
            if uint epoch > 65535 - uint (co_epoch_data_keys_future_count opt) - 1 then None
            else Some (Slot_Future (nat index)))
      else None)"

definition epoch_check_send_iterate :: "crypto_backend \<Rightarrow> crypto_options \<Rightarrow> crypto_options option" where
  "epoch_check_send_iterate B opt =
     (if ek_epoch (co_epoch_key_send opt) = 65535 then Some opt
      else do {
        opt \<leftarrow> (if co_aead_usage_limit opt \<noteq> 0
               then (if aead_usage_limit_reached (co_aead_usage_limit opt) (co_encrypt opt) (ps_id (pi_send (co_packet_id opt)))
                     then epoch_iterate_send_key B opt
                     else if kc_epoch (co_encrypt opt) = kc_epoch (co_decrypt opt) \<and>
                       (aead_usage_limit_reached (co_aead_usage_limit opt) (co_decrypt opt) (pr_id (pi_rec (co_packet_id opt))) \<or>
                        cipher_decrypt_verify_fail_warn (co_decrypt opt))
                     then epoch_iterate_send_key B opt
                     else Some opt)
               else Some opt);
        if ps_id (pi_send (co_packet_id opt)) = PACKET_ID_EPOCH_MAX then epoch_iterate_send_key B opt else Some opt })"

section \<open>The chain of keys\<close>

definition backend_ok :: "crypto_backend \<Rightarrow> key_type \<Rightarrow> bool" where
  "backend_ok B kt \<longleftrightarrow> hmac_sized (cb_hmac B) \<and> cipher_defined (kt_cipher kt) \<and> cb_aead B (kt_cipher kt) \<and>
     \<not> md_defined (kt_digest kt) \<and> cb_key_size B (kt_cipher kt) \<le> 64 \<and>
     12 \<le> cb_iv_size B (kt_cipher kt) \<and> cb_iv_size B (kt_cipher kt) \<le> 16"

definition epoch_secret :: "crypto_backend \<Rightarrow> epoch_key \<Rightarrow> string \<Rightarrow> nat \<Rightarrow> byte list" where
  "epoch_secret B ek label n = take n (hkdf_okm (cb_hmac B) (ek_key ek) (label_info (map of_char label) [] n) 255)"

definition epoch_next :: "crypto_backend \<Rightarrow> epoch_key \<Rightarrow> epoch_key" where
  "epoch_next B ek = \<lparr>ek_key = epoch_secret B ek ''datakey upd'' 32, ek_epoch = ek_epoch ek + 1\<rparr>"

definition epoch_ctx :: "crypto_backend \<Rightarrow> key_type \<Rightarrow> epoch_key \<Rightarrow> key_ctx" where
  "epoch_ctx B kt ek = (let iv_len = cb_iv_size B (kt_cipher kt) in clear_key_ctx\<lparr>
     kc_cipher := Some (kt_cipher kt, epoch_secret B ek ''data_key'' (cb_key_size B (kt_cipher kt))),
     kc_implicit_iv := epoch_secret B ek ''data_iv'' iv_len @ replicate (16 - iv_len) 0,
     kc_epoch := ek_epoch ek\<rparr>)"

lemma epoch_secret_length: "hmac_sized (cb_hmac B) \<Longrightarrow> n \<le> 8160 \<Longrightarrow> length (epoch_secret B ek label n) = n"
  by (simp add: epoch_secret_def hkdf_okm_length)

lemma expand_epoch_label:
  assumes "hmac_sized (cb_hmac B)" "length (ek_key ek) = 32" "1 \<le> length label" "length label \<le> 250"
    "n \<le> length out" "n \<le> 8160"
  shows "ovpn_expand_label (cb_hmac B) (ek_key ek) (map of_char label) [] out n =
    Some (True, epoch_secret B ek label n @ drop n out)"
proof -
  have "length (label_info (map of_char label) [] n) \<le> 2147483647" using assms(4) by (simp add: label_info_def)
  then show ?thesis
    using ovpn_expand_label_info[of "ek_key ek" "map of_char label" "[]" n "cb_hmac B" out]
      ovpn_hkdf_expand_okm[of "cb_hmac B" "label_info (map of_char label) [] n" n out "ek_key ek"] assms
    by (simp add: epoch_secret_def)
qed

lemma epoch_key_iterate_next:
  assumes "hmac_sized (cb_hmac B)" "length (ek_key ek) = 32"
  shows "epoch_key_iterate B ek = Some (epoch_next B ek)"
  using expand_epoch_label[OF assms, of "''datakey upd''" 32 "replicate 32 0"]
  by (simp add: epoch_key_iterate_def epoch_next_def SHA256_DIGEST_LENGTH_def)

lemma epoch_data_key_derive_ok:
  assumes "backend_ok B kt" "length (ek_key ek) = 32"
  shows "epoch_data_key_derive B clear_key_parameters ek kt = Some
    \<lparr>kp_cipher = epoch_secret B ek ''data_key'' (cb_key_size B (kt_cipher kt)) @ replicate (64 - cb_key_size B (kt_cipher kt)) 0,
     kp_cipher_size = cb_key_size B (kt_cipher kt),
     kp_hmac = epoch_secret B ek ''data_iv'' (cb_iv_size B (kt_cipher kt)) @ replicate (64 - cb_iv_size B (kt_cipher kt)) 0,
     kp_hmac_size = cb_iv_size B (kt_cipher kt), kp_epoch = ek_epoch ek\<rparr>"
  using expand_epoch_label[OF _ assms(2), of B "''data_key''" "cb_key_size B (kt_cipher kt)" "replicate 64 0"]
    expand_epoch_label[OF _ assms(2), of B "''data_iv''" "cb_iv_size B (kt_cipher kt)" "replicate 64 0"] assms(1)
  by (simp add: epoch_data_key_derive_def backend_ok_def clear_key_parameters_def MAX_CIPHER_KEY_LENGTH_def
      MAX_HMAC_KEY_LENGTH_def)

lemma mem_read_prefix: "n = length a \<Longrightarrow> mem_read (a @ b) 0 (int n) = Some a"
  by (simp add: mem_read_def)

lemma init_epoch_ctx:
  assumes B: "backend_ok B kt" and E: "length (ek_key ek) = 32" "ek_epoch ek \<noteq> 0"
    and key: "epoch_data_key_derive B clear_key_parameters ek kt = Some key"
  shows "init_key_bi_ctx_send B key kt = Some (epoch_ctx B kt ek)" "init_key_bi_ctx_recv B key kt = Some (epoch_ctx B kt ek)"
proof -
  let ?c = "cb_key_size B (kt_cipher kt)" and ?i = "cb_iv_size B (kt_cipher kt)"
  have h: "hmac_sized (cb_hmac B)" "?c \<le> 64" "12 \<le> ?i" "?i \<le> 16" using B by (simp_all add: backend_ok_def)
  have l: "length (epoch_secret B ek ''data_key'' ?c) = ?c" "length (epoch_secret B ek ''data_iv'' ?i) = ?i"
    using epoch_secret_length[OF h(1)] h by simp_all
  have r: "mem_read (epoch_secret B ek ''data_key'' ?c @ x) 0 (int ?c) = Some (epoch_secret B ek ''data_key'' ?c)"
    "mem_read (epoch_secret B ek ''data_iv'' ?i @ x) 0 (int ?i) = Some (epoch_secret B ek ''data_iv'' ?i)" for x
    by (rule mem_read_prefix, simp add: l)+
  have w: "mem_write (replicate 16 0) 0 (epoch_secret B ek ''data_iv'' ?i) =
      Some (epoch_secret B ek ''data_iv'' ?i @ replicate (16 - ?i) 0)"
    using l(2) h(4) by (simp add: mem_write_def)
  show "init_key_bi_ctx_send B key kt = Some (epoch_ctx B kt ek)"
    using key B E(2) h unfolding epoch_data_key_derive_ok[OF B E(1)] init_key_bi_ctx_send_def
    by (auto simp: init_key_ctx_def key_ctx_update_implicit_iv_def backend_ok_def epoch_ctx_def r w Let_def
        cipher_ctx_mode_aead_def OPENVPN_AEAD_MIN_IV_LEN_def OPENVPN_MAX_IV_LENGTH_def MAX_HMAC_KEY_LENGTH_def)
  then show "init_key_bi_ctx_recv B key kt = Some (epoch_ctx B kt ek)"
    by (simp add: init_key_bi_ctx_send_def init_key_bi_ctx_recv_def)
qed

text \<open>The \<open>n\<close>-th key after the first one.\<close>

fun ek_chain :: "crypto_backend \<Rightarrow> epoch_key \<Rightarrow> nat \<Rightarrow> epoch_key" where
  "ek_chain B E 0 = E"
| "ek_chain B E (Suc n) = epoch_next B (ek_chain B E n)"

definition first_epoch_key :: "epoch_key \<Rightarrow> bool" where
  "first_epoch_key E \<longleftrightarrow> length (ek_key E) = 32 \<and> ek_epoch E = 1"

lemma ek_chain_length:
  assumes "hmac_sized (cb_hmac B)" "first_epoch_key E"
  shows "length (ek_key (ek_chain B E n)) = 32"
  using assms by (cases n) (simp_all add: first_epoch_key_def epoch_next_def epoch_secret_length)

lemma ek_chain_epoch: "first_epoch_key E \<Longrightarrow> ek_epoch (ek_chain B E n) = word_of_nat (Suc n)"
  by (induction n) (simp_all add: first_epoch_key_def epoch_next_def)

lemma unat_epoch: "n \<le> 65535 \<Longrightarrow> unat (word_of_nat n :: u16) = n"
  by (simp add: unat_of_nat)

lemma ek_chain_unat: "first_epoch_key E \<Longrightarrow> n < 65535 \<Longrightarrow> unat (ek_epoch (ek_chain B E n)) = Suc n"
  by (simp add: ek_chain_epoch unat_epoch del: of_nat_Suc)

lemma epoch_ctx_epoch [simp]: "kc_epoch (epoch_ctx B kt ek) = ek_epoch ek"
  by (simp add: epoch_ctx_def Let_def)

lemma u16_ne0: "0 < n \<Longrightarrow> n \<le> 65535 \<Longrightarrow> (word_of_nat n :: u16) \<noteq> 0"
  using unat_epoch[of n] by auto

lemma epoch_init_recv_key_chain:
  assumes "backend_ok B kt" "co_epoch_key_type co = kt" "length (ek_key (co_epoch_key_recv co)) = 32"
    "ek_epoch (co_epoch_key_recv co) \<noteq> 0"
  shows "epoch_init_recv_key B co = Some (epoch_ctx B kt (co_epoch_key_recv co))"
  using epoch_data_key_derive_ok[OF assms(1,3)] init_epoch_ctx(2)[OF assms(1,3,4)]
  by (simp add: epoch_init_recv_key_def assms(2))

lemma epoch_init_send_key_ctx_chain:
  assumes "backend_ok B kt" "co_epoch_key_type co = kt" "length (ek_key (co_epoch_key_send co)) = 32"
    "ek_epoch (co_epoch_key_send co) \<noteq> 0" "kc_epoch (co_encrypt co) \<noteq> ek_epoch (co_epoch_key_send co)"
  shows "epoch_init_send_key_ctx B co = Some (co\<lparr>co_encrypt := epoch_ctx B kt (co_epoch_key_send co),
    co_packet_id := (co_packet_id co)\<lparr>pi_send := \<lparr>ps_id = 0, ps_time = 0\<rparr>\<rparr>\<rparr>)"
  using epoch_data_key_derive_ok[OF assms(1,3)] init_epoch_ctx(1)[OF assms(1,3,4)] assms(5)
  by (simp add: epoch_init_send_key_ctx_def assms(2) reset_packet_id_send_def)

text \<open>The loop appends the next keys of the chain.\<close>

lemma generate_keys_loop_chain:
  assumes B: "backend_ok B kt" and E: "first_epoch_key E"
  shows "co_epoch_key_type co = kt \<Longrightarrow> co_epoch_key_recv co = ek_chain B E m \<Longrightarrow> m + n < 65535 \<Longrightarrow>
    i + n = length (co_epoch_data_keys_future co) \<Longrightarrow>
    generate_keys_loop B n i co = Some (co\<lparr>co_epoch_key_recv := ek_chain B E (m + n),
      co_epoch_data_keys_future := take i (co_epoch_data_keys_future co) @
        map (\<lambda>j. epoch_ctx B kt (ek_chain B E (m + 1 + j))) [0..<n]\<rparr>)"
proof (induction n arbitrary: i m co)
  case 0
  then show ?case by simp
next
  case (Suc n)
  have h: "hmac_sized (cb_hmac B)" using B by (simp add: backend_ok_def)
  let ?co = "co\<lparr>co_epoch_key_recv := ek_chain B E (Suc m)\<rparr>"
  let ?f = "co_epoch_data_keys_future co" and ?k = "epoch_ctx B kt (ek_chain B E (Suc m))"
  have it: "epoch_key_iterate B (co_epoch_key_recv co) = Some (ek_chain B E (Suc m))"
    using epoch_key_iterate_next[OF h ek_chain_length[OF h E]] Suc.prems(2) by simp
  have "ek_epoch (ek_chain B E (Suc m)) \<noteq> 0"
    unfolding ek_chain_epoch[OF E] by (rule u16_ne0) (use Suc.prems(3) in simp_all)
  then have rk: "epoch_init_recv_key B ?co = Some ?k"
    using epoch_init_recv_key_chain[OF B, of ?co] Suc.prems(1) ek_chain_length[OF h E, of "Suc m"] by simp
  have i: "i < length ?f" using Suc.prems(4) by simp
  have "generate_keys_loop B (Suc n) i co = generate_keys_loop B n (i + 1) (?co\<lparr>co_epoch_data_keys_future := ?f[i := ?k]\<rparr>)"
    using it rk i by (simp del: ek_chain.simps)
  also have "\<dots> = Some (?co\<lparr>co_epoch_key_recv := ek_chain B E (Suc m + n),
      co_epoch_data_keys_future := take (i + 1) (?f[i := ?k]) @ map (\<lambda>j. epoch_ctx B kt (ek_chain B E (Suc m + 1 + j))) [0..<n]\<rparr>)"
    using Suc.IH[of "?co\<lparr>co_epoch_data_keys_future := ?f[i := ?k]\<rparr>" "Suc m" "i + 1"] Suc.prems(1,3,4)
    by (simp del: ek_chain.simps)
  also have "take (i + 1) (?f[i := ?k]) @ map (\<lambda>j. epoch_ctx B kt (ek_chain B E (Suc m + 1 + j))) [0..<n] =
      take i ?f @ map (\<lambda>j. epoch_ctx B kt (ek_chain B E (m + 1 + j))) [0..<Suc n]"
    using i by (simp add: take_Suc_conv_app_nth upt_conv_Cons flip: map_Suc_upt del: ek_chain.simps upt_Suc)
  finally show ?case by (simp del: ek_chain.simps upt_Suc)
qed

lemma word_diff_nat: "unat (word_of_nat a - word_of_nat b :: u16) = a - b" if "b \<le> a" "a \<le> 65535"
proof -
  have "(word_of_nat a - word_of_nat b :: u16) = word_of_nat (a - b)" using that(1) by (simp add: of_nat_diff)
  then show ?thesis using that by (simp only:) (rule unat_epoch, simp)
qed

lemma u16_less: "a \<le> 65535 \<Longrightarrow> b \<le> 65535 \<Longrightarrow> (word_of_nat a :: u16) < word_of_nat b \<longleftrightarrow> a < b"
  by (simp add: word_less_nat_alt unat_epoch)

lemma u16_eq: "a \<le> 65535 \<Longrightarrow> b \<le> 65535 \<Longrightarrow> (word_of_nat a :: u16) = word_of_nat b \<longleftrightarrow> a = b"
  using unat_epoch[of a] unat_epoch[of b] by metis

text \<open>
  Refilling the array: the keys \<open>xs\<close> are used up (empty or older than the current epoch \<open>d\<close>), the
  keys \<open>ys\<close> stay, and the chain is continued until \<open>n\<close> keys follow the current one.
\<close>

lemma epoch_generate_refill:
  assumes B: "backend_ok B kt" and E: "first_epoch_key E"
    and co: "co_initialized co" "co_epoch_key_type co = kt" "co_epoch_data_keys_future_count co = word_of_nat N"
      "co_epoch_data_keys_future co = xs @ ys" "length xs + length ys = N" "0 < N"
      "kc_epoch (co_decrypt co) = word_of_nat d" "co_epoch_key_recv co = ek_chain B E m"
    and d: "1 \<le> d" "d + N \<le> 65534" "m + 1 + length xs = d + N"
    and xs: "\<forall>x \<in> set xs. kc_epoch x = 0 \<or> kc_epoch x < word_of_nat d"
    and ys: "\<forall>y \<in> set ys. 0 < kc_epoch y \<and> word_of_nat d \<le> kc_epoch y"
    and hi: "if ys = [] then d = m + 1 else kc_epoch (last ys) = word_of_nat (m + 1)"
  shows "epoch_generate_future_receive_keys B co = Some (co\<lparr>co_epoch_key_recv := ek_chain B E (m + length xs),
    co_epoch_data_keys_future := ys @ map (\<lambda>j. epoch_ctx B kt (ek_chain B E (m + 1 + j))) [0..<length xs]\<rparr>)"
proof -
  define k where "k = length xs"
  have N: "N \<le> 65534" "unat (word_of_nat N :: u16) = N" using d by (simp_all add: unat_epoch)
  have k: "k \<le> N" "length ys = N - k" using co(5) by (simp_all add: k_def)
  define fr where "fr = (\<lambda>x. if kc_epoch x > 0 \<and> kc_epoch x < (word_of_nat d :: u16) then free_key_ctx x else x)"
  have fys: "map fr ys = ys" using ys by (intro map_idI) (auto simp: fr_def)
  have fxs: "\<forall>x \<in> set (map fr xs). kc_epoch x = 0" using xs by (auto simp: fr_def free_key_ctx_def word_gt_0)
  have re: "ek_epoch (ek_chain B E m) = word_of_nat (m + 1)" using ek_chain_epoch[OF E] by simp
  have la: "(zs @ ys) ! (N - 1) = last ys" if "ys \<noteq> []" "length zs = length xs" for zs
    using last_conv_nth[of "zs @ ys"] that co(5) by simp
  have hf: "kc_epoch ((xs @ ys) ! (N - 1)) = kc_epoch (last ys)" "kc_epoch ((map fr xs @ ys) ! (N - 1)) = kc_epoch (last ys)"
    if "ys \<noteq> []"
    using la[OF that, of xs] la[OF that, of "map fr xs"] by simp_all
  have num: "unat ((word_of_nat d + word_of_nat N) - word_of_nat (m + 1) :: u16) = k"
    using word_diff_nat[of "m + 1" "d + N"] d by (simp add: k_def)
  have a1: "ek_epoch (co_epoch_key_recv co) = 1 \<or> kc_epoch ((xs @ ys) ! (N - 1)) = ek_epoch (co_epoch_key_recv co) \<or>
      word_of_nat d = ek_epoch (co_epoch_key_recv co)"
    using hi hf(1) re co(8) by (auto split: if_splits)
  have a2: "ek_epoch (co_epoch_key_recv co) = kc_epoch ((map fr xs @ ys) ! (N - 1)) \<or> ek_epoch (co_epoch_key_recv co) = word_of_nat d"
    using hi hf(2) re co(8) by (auto split: if_splits)
  define co1 where "co1 = co\<lparr>co_epoch_data_keys_future := ys @ drop (N - k) (map fr xs @ ys)\<rparr>"
  have g: "generate_keys_loop B k (N - k) co1 = Some (co1\<lparr>co_epoch_key_recv := ek_chain B E (m + k),
      co_epoch_data_keys_future := take (N - k) (co_epoch_data_keys_future co1) @
        map (\<lambda>j. epoch_ctx B kt (ek_chain B E (m + 1 + j))) [0..<k]\<rparr>)"
    using co(2,8) d k co(5) by (intro generate_keys_loop_chain[OF B E]) (simp_all add: co1_def k_def)
  have pos: "\<forall>x \<in> set (ys @ map (\<lambda>j. epoch_ctx B kt (ek_chain B E (m + 1 + j))) [0..<k]). kc_epoch x > 0"
  proof -
    have "kc_epoch (epoch_ctx B kt (ek_chain B E (m + 1 + j))) > 0" if "j < k" for j
    proof -
      have "(word_of_nat (Suc (m + 1 + j)) :: u16) \<noteq> 0" using that d(2,3) by (intro u16_ne0) (simp_all add: k_def)
      then show ?thesis by (simp only: epoch_ctx_epoch ek_chain_epoch[OF E] word_neq_0_conv)
    qed
    then show ?thesis using ys by auto
  qed
  have len: "length (xs @ ys) = N" using co(5) by simp
  have tk: "take k (map fr xs @ ys) = map fr xs" "drop k (map fr xs @ ys) = ys" by (simp_all add: k_def)
  have num': "unat (word_of_nat d + word_of_nat N - (1 + word_of_nat m) :: u16) = k" using num by simp
  show ?thesis
    using co(1,6) a1[unfolded co(8) re] a2[unfolded co(8) re] k(1) fxs pos g
    unfolding epoch_generate_future_receive_keys_def N(2) Let_def fr_def[symmetric]
    by (simp add: len num' co(3,4,7,8) N(2) re tk fys co1_def k(2) del: ek_chain.simps flip: k_def fr_def)
qed

section \<open>The invariant of the keys\<close>

definition same_key :: "key_ctx \<Rightarrow> key_ctx \<Rightarrow> bool" where
  "same_key a b \<longleftrightarrow> kc_cipher a = kc_cipher b \<and> kc_hmac a = kc_hmac b \<and> kc_implicit_iv a = kc_implicit_iv b \<and>
     kc_epoch a = kc_epoch b"

lemma same_key_epoch: "same_key a b \<Longrightarrow> kc_epoch a = kc_epoch b" by (simp add: same_key_def)

definition rec_params :: "packet_id_rec \<Rightarrow> bool" where
  "rec_params r \<longleftrightarrow> pr_seq_backtrack r \<le> 65536 \<and> 0 \<le> pr_time_backtrack r \<and> pr_time_backtrack r \<le> 600"

text \<open>
  \<open>d\<close> is the epoch of the receive key in use, \<open>s\<close> that of the send key; \<open>Es\<close> and \<open>Er\<close> are the first
  keys of the two chains and \<open>n\<close> is the size of the window.
\<close>

definition epoch_inv :: "crypto_backend \<Rightarrow> key_type \<Rightarrow> nat \<Rightarrow> epoch_key \<Rightarrow> epoch_key \<Rightarrow> nat \<Rightarrow> nat \<Rightarrow> crypto_options \<Rightarrow> bool" where
  "epoch_inv B kt n Es Er d s co \<longleftrightarrow>
     co_initialized co \<and> co_epoch_key_type co = kt \<and> co_epoch_data_keys_future_count co = word_of_nat n \<and>
     length (co_epoch_data_keys_future co) = n \<and> 0 < n \<and> 1 \<le> d \<and> d + n \<le> 65534 \<and>
     co_epoch_key_recv co = ek_chain B Er (d + n - 1) \<and>
     same_key (co_decrypt co) (epoch_ctx B kt (ek_chain B Er (d - 1))) \<and>
     (\<forall>i<n. same_key (co_epoch_data_keys_future co ! i) (epoch_ctx B kt (ek_chain B Er (d + i)))) \<and>
     (kc_epoch (co_epoch_retiring_data_receive_key co) = 0 \<or>
      (\<exists>r. 1 \<le> r \<and> r < d \<and> same_key (co_epoch_retiring_data_receive_key co) (epoch_ctx B kt (ek_chain B Er (r - 1))))) \<and>
     d \<le> s \<and> s \<le> 65535 \<and> co_epoch_key_send co = ek_chain B Es (s - 1) \<and>
     same_key (co_encrypt co) (epoch_ctx B kt (ek_chain B Es (s - 1))) \<and>
     rec_params (pi_rec (co_packet_id co))"

lemma send_catch_up_chain:
  assumes B: "hmac_sized (cb_hmac B)" and E: "first_epoch_key E" and "b < 65535" "a \<le> b"
  shows "send_catch_up B (word_of_nat (Suc b)) (ek_chain B E a) = Some (ek_chain B E b)"
  using assms(4)
proof (induction "b - a" arbitrary: a)
  case 0
  then have [simp]: "a = b" by simp
  show ?case by (subst send_catch_up.simps) (simp add: ek_chain_epoch[OF E] del: of_nat_Suc)
next
  case (Suc d)
  then have a: "a < b" by simp
  have "(word_of_nat (Suc a) :: u16) < word_of_nat (Suc b)" using a assms(3) by (subst u16_less) simp_all
  then have "send_catch_up B (word_of_nat (Suc b)) (ek_chain B E a) = send_catch_up B (word_of_nat (Suc b)) (ek_chain B E (Suc a))"
    using epoch_key_iterate_next[OF B ek_chain_length[OF B E, of a]]
    by (subst send_catch_up.simps) (simp add: ek_chain_epoch[OF E] del: of_nat_Suc)
  then show ?case using Suc.hyps(1)[of "Suc a"] Suc.hyps(2) a by (simp del: ek_chain.simps)
qed

lemma packet_id_move_recv_ok:
  assumes "rec_params r"
  shows "\<exists>r'. packet_id_move_recv dest r = Some (r, r') \<and> rec_params r'"
proof -
  define x where "x = uint (pr_seq_backtrack r)"
  have x: "0 \<le> x" "x \<le> 65536" using assms by (simp_all add: rec_params_def word_le_def x_def)
  have u: "(ucast (pr_seq_backtrack r) :: u32) = word_of_int x"
    by (simp only: x_def ucast_eq)
  have s: "sint (ucast (pr_seq_backtrack r) :: u32) = x"
    unfolding u using x by (simp add: sint_sbintrunc' signed_take_bit_int_eq_self)
  have w: "(word_of_int x :: u64) \<le> 65536"
  proof -
    have "(word_of_int x :: u64) = pr_seq_backtrack r" unfolding x_def by (rule word_of_int_uint)
    then show ?thesis using assms by (simp add: rec_params_def)
  qed
  show ?thesis using assms x w
    by (auto simp: packet_id_move_recv_def packet_id_init_recv_def s rec_params_def MIN_SEQ_BACKTRACK_def
        MAX_SEQ_BACKTRACK_def MIN_TIME_BACKTRACK_def MAX_TIME_BACKTRACK_def Let_def clear_rec_def)
qed

lemma find_future_at:
  assumes "i < length ks" "kc_epoch (ks ! i) = e" "\<forall>j<i. kc_epoch (ks ! j) \<noteq> e"
  shows "find_future e m ks = m + i"
  using assms
proof (induction ks arbitrary: i m)
  case (Cons k ks)
  show ?case
  proof (cases i)
    case 0
    then show ?thesis using Cons.prems by simp
  next
    case (Suc i')
    have "kc_epoch k \<noteq> e" using Cons.prems(3) Suc by force
    moreover have "find_future e (m + 1) ks = m + 1 + i'"
      using Cons.prems Suc by (intro Cons.IH) auto
    ultimately show ?thesis using Suc by simp
  qed
qed simp

text \<open>Moving to the key at index \<open>i\<close> of the window: the new receive epoch is \<open>d + 1 + i\<close>.\<close>

lemma epoch_replace_inv:
  assumes B: "backend_ok B kt" and E: "first_epoch_key Es" "first_epoch_key Er"
    and inv: "epoch_inv B kt n Es Er d s co" and i: "i < n" "d + 1 + i + n \<le> 65534"
  shows "\<exists>co'. epoch_replace_update_recv_key B co (word_of_nat (d + 1 + i)) = Some co' \<and>
    epoch_inv B kt n Es Er (d + 1 + i) (max s (d + 1 + i)) co' \<and>
    co_epoch_retiring_data_receive_key co' = co_decrypt co \<and>
    co_epoch_retiring_key_pid_recv co' = pi_rec (co_packet_id co) \<and>
    co_decrypt co' = co_epoch_data_keys_future co ! i \<and>
    packet_id_move_recv (co_epoch_retiring_key_pid_recv co) (pi_rec (co_packet_id co)) =
      Some (pi_rec (co_packet_id co), pi_rec (co_packet_id co')) \<and>
    co_flags co' = co_flags co \<and> co_aead_usage_limit co' = co_aead_usage_limit co \<and>
    (if d + 1 + i \<le> s then co_encrypt co' = co_encrypt co \<and> pi_send (co_packet_id co') = pi_send (co_packet_id co)
     else ps_id (pi_send (co_packet_id co')) = 0)"
proof -
  define e where "e = d + 1 + i"
  define f where "f = co_epoch_data_keys_future co"
  have h: "hmac_sized (cb_hmac B)" using B by (simp add: backend_ok_def)
  have n: "unat (word_of_nat n :: u16) = n" "length f = n" "1 \<le> d" "d + n \<le> 65534" "0 < n" "d \<le> s" "s \<le> 65535"
    using inv by (simp_all add: epoch_inv_def unat_epoch f_def)
  have fe: "kc_epoch (f ! j) = word_of_nat (d + 1 + j)" if "j < n" for j
    using inv that ek_chain_epoch[OF E(2), of B "d + j"] by (auto simp: epoch_inv_def same_key_def f_def)
  have find: "find_future (word_of_nat e) 0 (take n f) = i"
  proof -
    have "\<forall>j<i. kc_epoch (take n f ! j) \<noteq> word_of_nat e"
      using fe i n by (auto simp: e_def u16_eq simp del: of_nat_Suc of_nat_add)
    then show ?thesis using find_future_at[of i "take n f" "word_of_nat e" 0] i n fe by (simp add: e_def)
  qed
  define co1 where "co1 = (if s < e then co\<lparr>co_encrypt := epoch_ctx B kt (ek_chain B Es (e - 1)),
      co_epoch_key_send := ek_chain B Es (e - 1),
      co_packet_id := (co_packet_id co)\<lparr>pi_send := \<lparr>ps_id = 0, ps_time = 0\<rparr>\<rparr>\<rparr> else co)"
  have en: "kc_epoch (co_encrypt co) = word_of_nat s"
    using inv ek_chain_epoch[OF E(1), of B "s - 1"] n by (simp add: epoch_inv_def same_key_def)
  have snd: "(if kc_epoch (co_encrypt co) < word_of_nat e
      then do {
        let co = co\<lparr>co_encrypt := free_key_ctx (co_encrypt co)\<rparr>;
        ek \<leftarrow> send_catch_up B (word_of_nat e) (co_epoch_key_send co);
        epoch_init_send_key_ctx B (co\<lparr>co_epoch_key_send := ek\<rparr>) }
      else Some co) = Some co1"
  proof (cases "s < e")
    case True
    have c: "kc_epoch (co_encrypt co) < word_of_nat e" unfolding en using True i n by (subst u16_less) (simp_all add: e_def)
    have cu: "send_catch_up B (word_of_nat e) (co_epoch_key_send co) = Some (ek_chain B Es (e - 1))"
      using send_catch_up_chain[OF h E(1), of "e - 1" "s - 1"] inv True i n by (simp add: epoch_inv_def e_def)
    let ?c = "co\<lparr>co_encrypt := free_key_ctx (co_encrypt co), co_epoch_key_send := ek_chain B Es (e - 1)\<rparr>"
    have ne: "ek_epoch (ek_chain B Es (e - 1)) \<noteq> 0"
      unfolding ek_chain_epoch[OF E(1)] by (rule u16_ne0) (use i n in \<open>simp_all add: e_def\<close>)
    have "epoch_init_send_key_ctx B ?c = Some co1"
      using epoch_init_send_key_ctx_chain[OF B, of ?c] inv ek_chain_length[OF h E(1), of "e - 1"] ne True
      by (simp add: epoch_inv_def free_key_ctx_def co1_def)
    then show ?thesis using c cu by simp
  next
    case False
    have "\<not> kc_epoch (co_encrypt co) < word_of_nat e" unfolding en using False i n by (subst u16_less) (simp_all add: e_def)
    then show ?thesis using False by (simp add: co1_def)
  qed
  have c1: "co_decrypt co1 = co_decrypt co" "co_epoch_data_keys_future co1 = f" "co_epoch_data_keys_future_count co1 = word_of_nat n"
    "pi_rec (co_packet_id co1) = pi_rec (co_packet_id co)" "co_initialized co1" "co_epoch_key_type co1 = kt"
    "co_epoch_key_recv co1 = ek_chain B Er (d + n - 1)" "co_flags co1 = co_flags co"
    "co_aead_usage_limit co1 = co_aead_usage_limit co" "co_epoch_retiring_key_pid_recv co1 = co_epoch_retiring_key_pid_recv co"
    using inv by (auto simp: co1_def f_def epoch_inv_def)
  obtain r' where mv: "packet_id_move_recv (co_epoch_retiring_key_pid_recv co1) (pi_rec (co_packet_id co1)) = Some (pi_rec (co_packet_id co), r')"
    "rec_params r'" using packet_id_move_recv_ok[of "pi_rec (co_packet_id co)"] inv c1(4) by (auto simp: epoch_inv_def)
  define co2 where "co2 = co1\<lparr>co_epoch_retiring_data_receive_key := co_decrypt co1,
      co_epoch_retiring_key_pid_recv := pi_rec (co_packet_id co),
      co_packet_id := (co_packet_id co1)\<lparr>pi_rec := r'\<rparr>, co_decrypt := f ! i, co_epoch_data_keys_future := f[i := clear_key_ctx]\<rparr>"
  have rep: "epoch_replace_update_recv_key B co (word_of_nat e) = epoch_generate_future_receive_keys B co2"
    using find i n fe[of i] snd mv(1) c1(1,2) inv
    unfolding epoch_replace_update_recv_key_def f_def[symmetric]
    by (simp add: epoch_inv_def e_def co2_def Let_def)
  define xs where "xs = (take i f) @ [clear_key_ctx]"
  define ys where "ys = drop (Suc i) f"
  have fx: "f[i := clear_key_ctx] = xs @ ys" "length xs = Suc i" "length ys = n - Suc i"
    using i(1) n(2) by (simp_all add: xs_def ys_def upd_conv_take_nth_drop)
  have yj: "ys ! j = f ! (Suc i + j)" "kc_epoch (ys ! j) = word_of_nat (d + 1 + (Suc i + j))" if "j < n - Suc i" for j
    using that fe[of "Suc i + j"] n(2) by (simp_all add: ys_def)
  have gen: "epoch_generate_future_receive_keys B co2 = Some (co2\<lparr>co_epoch_key_recv := ek_chain B Er (d + n - 1 + length xs),
      co_epoch_data_keys_future := ys @ map (\<lambda>j. epoch_ctx B kt (ek_chain B Er (d + n - 1 + 1 + j))) [0..<length xs]\<rparr>)"
  proof (rule epoch_generate_refill[OF B E(2), where N = n and d = e])
    show "kc_epoch (co_decrypt co2) = word_of_nat e" using fe i by (simp add: co2_def e_def)
    show "\<forall>x \<in> set xs. kc_epoch x = 0 \<or> kc_epoch x < word_of_nat e"
      using fe i n by (auto simp: xs_def in_set_conv_nth clear_key_ctx_def e_def u16_less simp del: of_nat_add of_nat_Suc)
    show "\<forall>y \<in> set ys. 0 < kc_epoch y \<and> word_of_nat e \<le> kc_epoch y"
    proof
      fix y assume "y \<in> set ys"
      then obtain j where j: "j < n - Suc i" "y = ys ! j" using fx(3) by (auto simp: in_set_conv_nth)
      have b: "d + 1 + (Suc i + j) \<le> 65535" using j(1) n by simp
      have "0 < kc_epoch y" unfolding j(2) yj(2)[OF j(1)] word_gt_0 using u16_ne0[OF _ b] by simp
      moreover have "\<not> kc_epoch y < word_of_nat e"
        unfolding j(2) yj(2)[OF j(1)] using b i n by (subst u16_less) (simp_all add: e_def)
      ultimately show "0 < kc_epoch y \<and> word_of_nat e \<le> kc_epoch y" by simp
    qed
    show "if ys = [] then e = d + n - 1 + 1 else kc_epoch (last ys) = word_of_nat (d + n - 1 + 1)"
    proof (cases "ys = []")
      case True
      then have "n = Suc i" using fx(3) i(1) by simp
      then show ?thesis using True by (simp add: e_def)
    next
      case False
      then have l: "0 < n - Suc i" using fx(3) by (metis length_greater_0_conv)
      then have "kc_epoch (last ys) = word_of_nat (d + 1 + (Suc i + (n - Suc i - 1)))"
        using yj(2)[of "n - Suc i - 1"] False fx(3) by (simp add: last_conv_nth)
      moreover have "d + 1 + (Suc i + (n - Suc i - 1)) = d + n - 1 + 1" using l by simp
      ultimately show ?thesis using False by (simp only: if_False)
    qed
  qed (use c1 fx n i in \<open>simp_all add: co2_def e_def\<close>)
  define co3 where "co3 = co2\<lparr>co_epoch_key_recv := ek_chain B Er (e + n - 1),
      co_epoch_data_keys_future := ys @ map (\<lambda>j. epoch_ctx B kt (ek_chain B Er (d + n + j))) [0..<Suc i]\<rparr>"
  have "d + n - 1 + length xs = e + n - 1" "d + n - 1 + 1 = d + n" using n fx(2) by (simp_all add: e_def)
  then have res: "epoch_replace_update_recv_key B co (word_of_nat e) = Some co3"
    unfolding rep gen co3_def fx(2) by (simp only:)
  have fk: "\<forall>j<n. same_key (f ! j) (epoch_ctx B kt (ek_chain B Er (d + j)))"
    using inv unfolding epoch_inv_def f_def by blast
  have fut: "same_key (co_epoch_data_keys_future co3 ! j) (epoch_ctx B kt (ek_chain B Er (e + j)))" if "j < n" for j
  proof (cases "j < n - Suc i")
    case True
    have "same_key (f ! (Suc i + j)) (epoch_ctx B kt (ek_chain B Er (d + (Suc i + j))))"
      using fk[rule_format, of "Suc i + j"] True by linarith
    then show ?thesis using True yj(1)[OF True] fx(3) by (simp add: co3_def nth_append e_def add.assoc del: ek_chain.simps)
  next
    case False
    have "d + n + (j - (n - Suc i)) = e + j" using False that i by (simp add: e_def)
    moreover have "j - (n - Suc i) < Suc i" using that i by linarith
    then have "co_epoch_data_keys_future co3 ! j = epoch_ctx B kt (ek_chain B Er (d + n + (j - (n - Suc i))))"
      using False fx(3) unfolding co3_def by (simp add: nth_append nth_map[of _ "[0..<Suc i]"] nth_upt del: upt_Suc nth_map)
    ultimately show ?thesis by (simp add: same_key_def)
  qed
  have ret: "\<exists>r. 1 \<le> r \<and> r < e \<and> same_key (co_decrypt co) (epoch_ctx B kt (ek_chain B Er (r - 1)))"
    using inv n(3) by (intro exI[of _ d]) (simp add: epoch_inv_def e_def)
  have dec: "same_key (f ! i) (epoch_ctx B kt (ek_chain B Er (e - 1)))"
    using fk i(1) by (simp add: e_def)
  have snd_ok: "co_epoch_key_send co3 = ek_chain B Es (max s e - 1)" "same_key (co_encrypt co3) (epoch_ctx B kt (ek_chain B Es (max s e - 1)))"
    using inv by (auto simp: co3_def co2_def co1_def epoch_inv_def same_key_def max_def)
  have "epoch_inv B kt n Es Er e (max s e) co3"
    unfolding epoch_inv_def
    using c1 mv(2) i n snd_ok fut ret dec fx
    by (auto simp: co3_def co2_def e_def simp del: upt_Suc ek_chain.simps)
  then show ?thesis using res unfolding e_def[symmetric] using mv(1)[unfolded c1]
    by (intro exI[of _ co3]) (auto simp: co3_def co2_def co1_def f_def)
qed

lemma epoch_iterate_send_inv:
  assumes B: "backend_ok B kt" and E: "first_epoch_key Es"
    and inv: "epoch_inv B kt n Es Er d s co" and s: "s < 65535"
  shows "\<exists>co'. epoch_iterate_send_key B co = Some co' \<and> epoch_inv B kt n Es Er d (Suc s) co' \<and>
    ps_id (pi_send (co_packet_id co')) = 0"
proof -
  have h: "hmac_sized (cb_hmac B)" using B by (simp add: backend_ok_def)
  have se: "1 \<le> s" "co_epoch_key_send co = ek_chain B Es (s - 1)" using inv by (auto simp: epoch_inv_def)
  have lt: "ek_epoch (co_epoch_key_send co) < 65535"
    unfolding se(2) ek_chain_epoch[OF E] using u16_less[of s 65535] s se(1) by simp
  have it: "epoch_key_iterate B (co_epoch_key_send co) = Some (ek_chain B Es s)"
    using epoch_key_iterate_next[OF h ek_chain_length[OF h E, of "s - 1"]] se by (cases s) simp_all
  let ?c = "co\<lparr>co_epoch_key_send := ek_chain B Es s, co_encrypt := free_key_ctx (co_encrypt co)\<rparr>"
  have ne: "ek_epoch (ek_chain B Es s) \<noteq> 0" unfolding ek_chain_epoch[OF E] by (rule u16_ne0) (use s in simp_all)
  define co' where "co' = ?c\<lparr>co_encrypt := epoch_ctx B kt (ek_chain B Es s),
    co_packet_id := (co_packet_id co)\<lparr>pi_send := \<lparr>ps_id = 0, ps_time = 0\<rparr>\<rparr>\<rparr>"
  have "epoch_init_send_key_ctx B ?c = Some co'"
    using epoch_init_send_key_ctx_chain[OF B, of ?c] inv ek_chain_length[OF h E, of s] ne
    by (simp add: epoch_inv_def free_key_ctx_def co'_def)
  then have "epoch_iterate_send_key B co = Some co'" using lt it by (simp add: epoch_iterate_send_key_def)
  moreover have "epoch_inv B kt n Es Er d (Suc s) co'"
    using inv s by (auto simp: epoch_inv_def co'_def same_key_def simp del: ek_chain.simps)
  ultimately show ?thesis by (auto simp: co'_def)
qed

text \<open>The state of the sender as a number: the next nonce is larger than it.\<close>

definition nonce_level :: "nat \<Rightarrow> crypto_options \<Rightarrow> nat" where
  "nonce_level s co = s * 2 ^ 48 + unat (ps_id (pi_send (co_packet_id co)))"

definition send_id_ok :: "crypto_options \<Rightarrow> bool" where
  "send_id_ok co \<longleftrightarrow> unat (ps_id (pi_send (co_packet_id co))) < 2 ^ 48"

lemma epoch_check_send_inv:
  assumes B: "backend_ok B kt" and E: "first_epoch_key Es"
    and inv: "epoch_inv B kt n Es Er d s co" and id: "send_id_ok co"
  shows "\<exists>co' s'. epoch_check_send_iterate B co = Some co' \<and> epoch_inv B kt n Es Er d s' co' \<and> send_id_ok co' \<and>
    nonce_level s co \<le> nonce_level s' co' \<and>
    (ps_id (pi_send (co_packet_id co')) = PACKET_ID_EPOCH_MAX \<longrightarrow> co' = co \<and> s = 65535)"
proof -
  have se: "ek_epoch (co_epoch_key_send co) = word_of_nat s" "s \<le> 65535"
    using inv ek_chain_epoch[OF E, of B "s - 1"] by (auto simp: epoch_inv_def)
  show ?thesis
  proof (cases "ek_epoch (co_epoch_key_send co) = 65535")
    case True
    then have "s = 65535" using se u16_eq[of s 65535] by simp
    then show ?thesis using True inv id by (auto simp: epoch_check_send_iterate_def)
  next
    case False
    have s: "s < 65535" using False se by (cases "s = 65535") auto
    obtain co1 where c1: "epoch_iterate_send_key B co = Some co1" "epoch_inv B kt n Es Er d (Suc s) co1"
      "ps_id (pi_send (co_packet_id co1)) = 0" using epoch_iterate_send_inv[OF B E inv s] by blast
    have lv: "nonce_level s co \<le> nonce_level (Suc s) co1" "send_id_ok co1"
      using id c1(3) by (auto simp: nonce_level_def send_id_ok_def)
    have "epoch_check_send_iterate B co = Some co \<and> ps_id (pi_send (co_packet_id co)) \<noteq> PACKET_ID_EPOCH_MAX \<or>
        epoch_check_send_iterate B co = Some co1"
      using False c1(1,3) by (auto simp: epoch_check_send_iterate_def PACKET_ID_EPOCH_MAX_def)
    then show ?thesis using c1 lv inv id by (auto simp: PACKET_ID_EPOCH_MAX_def)
  qed
qed

text \<open>What the operations on the sender's keys and the generation of keys leave alone.\<close>

definition replay_side :: "crypto_options \<Rightarrow> u32 \<times> packet_id_rec \<times> key_ctx \<times> packet_id_rec" where
  "replay_side co = (co_flags co, pi_rec (co_packet_id co), co_epoch_retiring_data_receive_key co, co_epoch_retiring_key_pid_recv co)"

lemma epoch_init_send_keeps:
  "epoch_init_send_key_ctx B co = Some co' \<Longrightarrow> replay_side co' = replay_side co \<and> co_decrypt co' = co_decrypt co"
  by (auto simp: epoch_init_send_key_ctx_def bind_eq_Some_iff replay_side_def split: if_splits)

lemma epoch_iterate_send_keeps:
  "epoch_iterate_send_key B co = Some co' \<Longrightarrow> replay_side co' = replay_side co \<and> co_decrypt co' = co_decrypt co"
  by (auto simp: epoch_iterate_send_key_def bind_eq_Some_iff replay_side_def split: if_splits dest!: epoch_init_send_keeps)

lemma epoch_check_send_keeps:
  "epoch_check_send_iterate B co = Some co' \<Longrightarrow> replay_side co' = replay_side co \<and> co_decrypt co' = co_decrypt co"
  unfolding epoch_check_send_iterate_def
  by (auto simp: bind_eq_Some_iff dest!: epoch_iterate_send_keeps split: if_splits)

lemma generate_keys_keeps:
  "generate_keys_loop B n i co = Some co' \<Longrightarrow> replay_side co' = replay_side co"
proof (induction n arbitrary: i co)
  case (Suc n)
  then show ?case by (fastforce simp: bind_eq_Some_iff Let_def replay_side_def split: if_splits)
qed simp

lemma guard_eq_Some_iff: "(if P then m else None) = Some y \<longleftrightarrow> P \<and> m = Some y" for m :: "'a option"
  by simp

lemma epoch_generate_keeps:
  "epoch_generate_future_receive_keys B co = Some co' \<Longrightarrow> replay_side co' = replay_side co"
  unfolding epoch_generate_future_receive_keys_def Let_def bind_cassert guard_eq_Some_iff bind_eq_Some_iff option.inject
  by (elim conjE exE, hypsubst, drule generate_keys_keeps, erule trans, simp (no_asm) add: replay_side_def)

lemma epoch_init_keeps:
  "epoch_init_key_ctx B limit co kt Es Er n = Some co' \<Longrightarrow> replay_side co' = replay_side co"
  unfolding epoch_init_key_ctx_def Let_def
  by (auto simp: bind_eq_Some_iff replay_side_def split: if_splits dest!: epoch_init_send_keeps epoch_generate_keeps)

text \<open>Nothing changes but the counters.\<close>

definition set_usage :: "u64 \<Rightarrow> u64 \<Rightarrow> u64 \<Rightarrow> crypto_options \<Rightarrow> crypto_options" where
  "set_usage a b c co = co\<lparr>co_encrypt := (co_encrypt co)\<lparr>kc_plaintext_blocks := a\<rparr>,
     co_decrypt := (co_decrypt co)\<lparr>kc_plaintext_blocks := b, kc_failed_verifications := c\<rparr>\<rparr>"

lemma set_usage_inv: "epoch_inv B kt n Es Er d s co \<Longrightarrow> epoch_inv B kt n Es Er d s (set_usage a b c co)"
  by (simp add: epoch_inv_def set_usage_def same_key_def)

lemma nonce_word:
  assumes "unat (i :: u64) < 2 ^ 48" "e \<le> 65535"
  shows "unat (push_bit 48 (ucast (word_of_nat e :: u16)) OR i) = e * 2 ^ 48 + unat i"
proof -
  have u: "unat (ucast (word_of_nat e :: u16) :: u64) = e"
    using assms(2) by (simp add: unsigned_ucast_eq take_bit_nat_eq_self unat_epoch)
  have uw: "(ucast (word_of_nat e :: u16) :: u64) = word_of_nat e"
    by (rule iffD2[OF word_unat_eq_iff]) (use u assms(2) in \<open>simp add: unat_of_nat\<close>)
  have "push_bit 48 (word_of_nat e :: u64) = word_of_nat (e * 2 ^ 48)" by (simp add: push_bit_eq_mult)
  then have p: "unat (push_bit 48 (ucast (word_of_nat e :: u16)) :: u64) = e * 2 ^ 48"
    unfolding uw using assms(2) by (simp only: unat_of_nat) simp
  have "take_bit 48 i = i"
    by (rule iffD2[OF word_unat_eq_iff]) (use assms(1) in \<open>simp add: unsigned_take_bit_eq take_bit_nat_eq_self\<close>)
  then have b: "bit i k \<Longrightarrow> k < 48" for k by (metis bit_take_bit_iff)
  have "push_bit 48 (ucast (word_of_nat e :: u16)) AND i = (0 :: u64)"
    by (rule bit_eqI) (auto simp: bit_simps dest!: b)
  then have "push_bit 48 (ucast (word_of_nat e :: u16)) OR i = push_bit 48 (ucast (word_of_nat e :: u16)) + i"
    by (rule disjunctive_add_eq_or[symmetric])
  moreover have "e * 2 ^ 48 + unat i < 2 ^ 64" using assms by simp
  ultimately show ?thesis using p by (simp add: unat_word_ariths)
qed

section \<open>Runs\<close>

text \<open>
  What happens to the keys of one peer: a packet is sent (\<open>openvpn_encrypt_aead\<close>: the check of the
  limits, then the packet id into the nonce; the 8 bytes written are returned), an authenticated
  packet of some epoch arrives (\<open>crypto_check_replay\<close>: a future key becomes current), or the usage
  counters change in any way.
\<close>

datatype epoch_op = Op_Send c_time | Op_Receive u16 | Op_Usage u64 u64 u64

fun epoch_step :: "crypto_backend \<Rightarrow> crypto_options \<Rightarrow> epoch_op \<Rightarrow> (crypto_options \<times> byte list list) option" where
  "epoch_step B co (Op_Send now) = do {
     co \<leftarrow> epoch_check_send_iterate B co;
     (p, b, ok) \<leftarrow> packet_id_write_epoch now (pi_send (co_packet_id co)) (kc_epoch (co_encrypt co)) (buf_of [] [] (replicate 12 0));
     Some (co\<lparr>co_packet_id := (co_packet_id co)\<lparr>pi_send := p\<rparr>\<rparr>, if ok then [buf_content b] else []) }"
| "epoch_step B co (Op_Receive e) =
     (case epoch_lookup_decrypt_key co e of
        Some (Slot_Future i) \<Rightarrow> do { co \<leftarrow> epoch_replace_update_recv_key B co e; Some (co, []) }
      | _ \<Rightarrow> Some (co, []))"
| "epoch_step B co (Op_Usage a b c) = Some (set_usage a b c co, [])"

fun epoch_run :: "crypto_backend \<Rightarrow> crypto_options \<Rightarrow> epoch_op list \<Rightarrow> (crypto_options \<times> byte list list) option" where
  "epoch_run B co [] = Some (co, [])"
| "epoch_run B co (x # xs) = do {
     (co, ns) \<leftarrow> epoch_step B co x;
     (co, ns') \<leftarrow> epoch_run B co xs;
     Some (co, ns @ ns') }"

definition slot_key :: "crypto_options \<Rightarrow> key_slot \<Rightarrow> key_ctx" where
  "slot_key co sl = (case sl of Slot_Current \<Rightarrow> co_decrypt co | Slot_Retiring \<Rightarrow> co_epoch_retiring_data_receive_key co
     | Slot_Future i \<Rightarrow> co_epoch_data_keys_future co ! i)"

text \<open>Looking up an epoch gives the key of that epoch, and gives one for the whole window.\<close>

lemma epoch_lookup_key:
  assumes inv: "epoch_inv B kt n Es Er d s co" and E: "first_epoch_key Er" and e: "1 \<le> e" "e \<le> 65535"
    and l: "epoch_lookup_decrypt_key co (word_of_nat e) = Some sl"
  shows "same_key (slot_key co sl) (epoch_ctx B kt (ek_chain B Er (e - 1)))"
    "sl = Slot_Future i \<Longrightarrow> i < n \<and> e = d + 1 + i \<and> d + 1 + i + n \<le> 65534"
proof -
  have ce: "kc_epoch (co_decrypt co) = word_of_nat d" "1 \<le> d" "d + n \<le> 65534" "0 < n"
    "co_epoch_data_keys_future_count co = word_of_nat n"
    using inv ek_chain_epoch[OF E, of B "d - 1"] by (auto simp: epoch_inv_def same_key_def)
  have u: "uint (word_of_nat e :: u16) = int e" "uint (word_of_nat d :: u16) = int d" "uint (word_of_nat n :: u16) = int n"
    using e ce by (simp_all add: uint_nat unat_epoch)
  have fut: "i < n \<and> e = d + 1 + i \<and> d + 1 + i + n \<le> 65534" if "sl = Slot_Future i" for i
  proof -
    have f: "(word_of_nat d :: u16) < word_of_nat e" "int e \<le> int d + int n" "\<not> int e > 65535 - int n - 1"
      "i = nat (int e - (int d + 1))"
      using l ce(1,5) that u by (auto simp: epoch_lookup_decrypt_key_def Let_def split: if_splits)
    have "d < e" using f(1) u16_less[of d e] ce e by simp
    then show ?thesis using f(2-4) by auto
  qed
  then show "sl = Slot_Future i \<Longrightarrow> i < n \<and> e = d + 1 + i \<and> d + 1 + i + n \<le> 65534" .
  show "same_key (slot_key co sl) (epoch_ctx B kt (ek_chain B Er (e - 1)))"
  proof (cases sl)
    case Slot_Current
    then have "word_of_nat d = (word_of_nat e :: u16)"
      using l ce(1) by (auto simp: epoch_lookup_decrypt_key_def Let_def split: if_splits)
    then have "d = e" using u16_eq[of d e] ce e by simp
    then show ?thesis using inv Slot_Current by (auto simp: epoch_inv_def slot_key_def)
  next
    case Slot_Retiring
    then have r: "kc_epoch (co_epoch_retiring_data_receive_key co) = word_of_nat e" "kc_epoch (co_epoch_retiring_data_receive_key co) \<noteq> 0"
      using l by (auto simp: epoch_lookup_decrypt_key_def Let_def split: if_splits)
    then obtain q where q: "1 \<le> q" "q < d" "same_key (co_epoch_retiring_data_receive_key co) (epoch_ctx B kt (ek_chain B Er (q - 1)))"
      using inv by (auto simp: epoch_inv_def)
    have "word_of_nat q = (word_of_nat e :: u16)"
      using same_key_epoch[OF q(3)] ek_chain_epoch[OF E, of B "q - 1"] q(1) r(1) by simp
    then have "q = e" using u16_eq[of q e] q ce e by simp
    then show ?thesis using q(3) Slot_Retiring by (simp add: slot_key_def)
  next
    case (Slot_Future i)
    have "i < n" "e - 1 = d + i" using fut[OF Slot_Future] by auto
    then show ?thesis using inv Slot_Future by (auto simp: epoch_inv_def slot_key_def)
  qed
qed

lemma epoch_lookup_found:
  assumes inv: "epoch_inv B kt n Es Er d s co" and E: "first_epoch_key Er" and e: "d \<le> e" "e \<le> d + n" "e + n \<le> 65534"
  shows "epoch_lookup_decrypt_key co (word_of_nat e) \<noteq> None"
proof -
  have ce: "kc_epoch (co_decrypt co) = word_of_nat d" "1 \<le> d" "d + n \<le> 65534" "0 < n"
    "co_epoch_data_keys_future_count co = word_of_nat n"
    using inv ek_chain_epoch[OF E, of B "d - 1"] by (auto simp: epoch_inv_def same_key_def)
  have u: "uint (word_of_nat e :: u16) = int e" "uint (word_of_nat d :: u16) = int d" "uint (word_of_nat n :: u16) = int n"
    using e ce by (simp_all add: uint_nat unat_epoch)
  have "(word_of_nat d :: u16) < word_of_nat e" if "d \<noteq> e" using that e ce by (subst u16_less) simp_all
  then show ?thesis using ce(1,5) u e by (auto simp: epoch_lookup_decrypt_key_def Let_def)
qed

lemma packet_id_write_epoch_nonce:
  assumes "unat (ps_id p) < 2 ^ 48" "s \<le> 65535"
  shows "\<exists>p' b ok. packet_id_write_epoch now p (word_of_nat s) (buf_of [] [] (replicate 12 0)) = Some (p', b, ok) \<and>
    unat (ps_id p') < 2 ^ 48 \<and>
    (if ok then unat (ps_id p') = unat (ps_id p) + 1 \<and> length (buf_content b) = 8 \<and>
        nat_be (buf_content b) = s * 2 ^ 48 + unat (ps_id p')
     else ps_id p' = ps_id p)"
proof (cases "ps_id p = PACKET_ID_EPOCH_MAX")
  case True
  then show ?thesis using assms by (auto simp: packet_id_write_epoch_def packet_id_send_update_epoch_def Let_def)
next
  case False
  have "unat (ps_id p) \<noteq> 2 ^ 48 - 1" using False word_unat_eq_iff[of "ps_id p" PACKET_ID_EPOCH_MAX]
    by (simp add: PACKET_ID_EPOCH_MAX_def)
  then have lt: "unat (ps_id p) + 1 < 2 ^ 48" using assms(1) by linarith
  then have u: "unat (ps_id p + 1) = unat (ps_id p) + 1" by (simp add: unat_word_ariths)
  have "buf_fits [] [] (replicate 12 0)" by (simp add: buf_fits_def BUF_SIZE_MAX_def)
  then have w: "buf_write (buf_of [] [] (replicate 12 0)) (be64 x) = Some (buf_of [] (be64 x) (replicate 4 0), True)" for x
    by (simp add: buf_write_of)
  have nb: "nat_be (be64 x) = unat x" for x :: u64 using unat_less_2p[of x] by (simp add: be64_def nat_be_be_nat)
  show ?thesis using False u lt assms(2) nonce_word[of "ps_id p + 1" s]
    by (auto simp: packet_id_write_epoch_def packet_id_send_update_epoch_def Let_def w nb)
qed

lemma epoch_replace_level:
  assumes id: "send_id_ok co"
    and c: "if e \<le> s then co_encrypt co' = co_encrypt co \<and> pi_send (co_packet_id co') = pi_send (co_packet_id co)
      else ps_id (pi_send (co_packet_id co')) = 0"
  shows "send_id_ok co' \<and> nonce_level s co \<le> nonce_level (max s e) co'"
proof (cases "e \<le> s")
  case True
  then show ?thesis using c id by (simp add: nonce_level_def send_id_ok_def max_def)
next
  case False
  then have "Suc s * 2 ^ 48 \<le> max s e * 2 ^ 48" by (intro mult_le_mono1) simp
  then show ?thesis using id False c by (simp add: nonce_level_def send_id_ok_def)
qed

text \<open>One operation: it never aborts, keeps the invariant, and any nonce is above the old level.\<close>

lemma epoch_step_inv:
  assumes B: "backend_ok B kt" and E: "first_epoch_key Es" "first_epoch_key Er"
    and inv: "epoch_inv B kt n Es Er d s co" and id: "send_id_ok co"
  shows "\<exists>co' ns d' s'. epoch_step B co x = Some (co', ns) \<and> epoch_inv B kt n Es Er d' s' co' \<and> send_id_ok co' \<and>
    nonce_level s co \<le> nonce_level s' co' \<and> length ns \<le> 1 \<and>
    (\<forall>b \<in> set ns. nonce_level s co < nat_be b \<and> nat_be b = nonce_level s' co' \<and> length b = 8)"
proof (cases x)
  case (Op_Send now)
  obtain co1 s1 where c1: "epoch_check_send_iterate B co = Some co1" "epoch_inv B kt n Es Er d s1 co1" "send_id_ok co1"
    "nonce_level s co \<le> nonce_level s1 co1" using epoch_check_send_inv[OF B E(1) inv id] by blast
  have s1: "s1 \<le> 65535" "kc_epoch (co_encrypt co1) = word_of_nat s1"
    using c1(2) ek_chain_epoch[OF E(1), of B "s1 - 1"] by (auto simp: epoch_inv_def same_key_def)
  obtain p b ok where w: "packet_id_write_epoch now (pi_send (co_packet_id co1)) (word_of_nat s1) (buf_of [] [] (replicate 12 0)) = Some (p, b, ok)"
    "unat (ps_id p) < 2 ^ 48"
    "if ok then unat (ps_id p) = unat (ps_id (pi_send (co_packet_id co1))) + 1 \<and> length (buf_content b) = 8 \<and>
        nat_be (buf_content b) = s1 * 2 ^ 48 + unat (ps_id p)
     else ps_id p = ps_id (pi_send (co_packet_id co1))"
    using packet_id_write_epoch_nonce[of "pi_send (co_packet_id co1)" s1 now] c1(3) s1(1) unfolding send_id_ok_def by blast
  define co2 where "co2 = co1\<lparr>co_packet_id := (co_packet_id co1)\<lparr>pi_send := p\<rparr>\<rparr>"
  have st: "epoch_step B co x = Some (co2, if ok then [buf_content b] else [])"
    using c1(1) w(1) s1(2) Op_Send by (simp add: co2_def)
  have i2: "epoch_inv B kt n Es Er d s1 co2" using c1(2) by (simp add: epoch_inv_def co2_def)
  have sid: "send_id_ok co2" using w(2) by (simp add: send_id_ok_def co2_def)
  have lv: "if ok then nonce_level s1 co1 < nat_be (buf_content b) \<and> nat_be (buf_content b) = nonce_level s1 co2 \<and> length (buf_content b) = 8
      else nonce_level s1 co2 = nonce_level s1 co1"
    using w(3) by (simp add: nonce_level_def co2_def)
  show ?thesis using st i2 sid lv c1(4)
    by (intro exI[of _ co2] exI[of _ "if ok then [buf_content b] else []"] exI[of _ d] exI[of _ s1]) (auto split: if_splits)
next
  case (Op_Receive e)
  show ?thesis
  proof (cases "\<exists>i. epoch_lookup_decrypt_key co e = Some (Slot_Future i)")
    case True
    then obtain i where l: "epoch_lookup_decrypt_key co e = Some (Slot_Future i)" by blast
    have e: "e = word_of_nat (unat e)" "unat e \<le> 65535" using unat_less_2p[of e] by auto
    have e1: "1 \<le> unat e"
      using l by (cases "e = 0") (auto simp: epoch_lookup_decrypt_key_def Let_def unat_gt_0 Suc_le_eq split: if_splits)
    have f: "i < n" "unat e = d + 1 + i" "d + 1 + i + n \<le> 65534"
      using epoch_lookup_key(2)[OF inv E(2) e1 e(2), of "Slot_Future i" i] l e(1) by auto
    obtain co' where c': "epoch_replace_update_recv_key B co e = Some co'" "epoch_inv B kt n Es Er (d + 1 + i) (max s (d + 1 + i)) co'"
      "if d + 1 + i \<le> s then co_encrypt co' = co_encrypt co \<and> pi_send (co_packet_id co') = pi_send (co_packet_id co)
       else ps_id (pi_send (co_packet_id co')) = 0"
      using epoch_replace_inv[OF B E inv f(1,3)] e(1) f(2) by metis
    have lv: "send_id_ok co'" "nonce_level s co \<le> nonce_level (max s (d + 1 + i)) co'"
      using epoch_replace_level[OF id c'(3)] by simp_all
    show ?thesis using l c'(1,2) lv Op_Receive by auto
  next
    case False
    then have "epoch_step B co x = Some (co, [])" using Op_Receive by (auto split: option.splits key_slot.splits)
    then show ?thesis using inv id by auto
  qed
next
  case (Op_Usage a b c)
  have "nonce_level s (set_usage a b c co) = nonce_level s co" "send_id_ok (set_usage a b c co)"
    using id by (simp_all add: nonce_level_def set_usage_def send_id_ok_def)
  then show ?thesis using set_usage_inv[OF inv, of a b c] Op_Usage
    by (intro exI[of _ "set_usage a b c co"] exI[of _ "[]"] exI[of _ d] exI[of _ s]) simp
qed

lemma epoch_run_inv:
  assumes B: "backend_ok B kt" and E: "first_epoch_key Es" "first_epoch_key Er"
  shows "epoch_inv B kt n Es Er d s co \<Longrightarrow> send_id_ok co \<Longrightarrow>
    \<exists>co' ns d' s'. epoch_run B co xs = Some (co', ns) \<and> epoch_inv B kt n Es Er d' s' co' \<and> send_id_ok co' \<and>
      nonce_level s co \<le> nonce_level s' co' \<and> sorted_wrt (<) (map nat_be ns) \<and>
      (\<forall>b \<in> set ns. nonce_level s co < nat_be b \<and> length b = 8)"
proof (induction xs arbitrary: co d s)
  case Nil
  then show ?case by auto
next
  case (Cons x xs)
  obtain co1 ns1 d1 s1 where st: "epoch_step B co x = Some (co1, ns1)" "epoch_inv B kt n Es Er d1 s1 co1" "send_id_ok co1"
    "nonce_level s co \<le> nonce_level s1 co1" "length ns1 \<le> 1"
    "\<forall>b \<in> set ns1. nonce_level s co < nat_be b \<and> nat_be b = nonce_level s1 co1 \<and> length b = 8"
    using epoch_step_inv[OF B E Cons.prems] by blast
  obtain co2 ns2 d2 s2 where r: "epoch_run B co1 xs = Some (co2, ns2)" "epoch_inv B kt n Es Er d2 s2 co2" "send_id_ok co2"
    "nonce_level s1 co1 \<le> nonce_level s2 co2" "sorted_wrt (<) (map nat_be ns2)"
    "\<forall>b \<in> set ns2. nonce_level s1 co1 < nat_be b \<and> length b = 8"
    using Cons.IH[OF st(2,3)] by blast
  have "sorted_wrt (<) (map nat_be (ns1 @ ns2))"
    using st(5,6) r(5,6) by (cases ns1) (auto simp: sorted_wrt_append)
  moreover have "\<forall>b \<in> set (ns1 @ ns2). nonce_level s co < nat_be b \<and> length b = 8" using st(4,6) r(6) by force
  ultimately show ?case using st(1,4) r(1-4) by fastforce
qed

text \<open>The state after \<open>epoch_init_key_ctx\<close>.\<close>

definition epoch_fresh :: "crypto_options \<Rightarrow> bool" where
  "epoch_fresh co \<longleftrightarrow> kc_epoch (co_encrypt co) = 0 \<and> kc_epoch (co_epoch_retiring_data_receive_key co) = 0 \<and>
     rec_params (pi_rec (co_packet_id co))"

lemma epoch_init_inv:
  assumes B: "backend_ok B kt" and E: "first_epoch_key Es" "first_epoch_key Er"
    and co: "epoch_fresh co" and n: "0 < n" "n \<le> 65533"
  shows "\<exists>co'. epoch_init_key_ctx B limit co kt Es Er (word_of_nat n) = Some co' \<and>
    epoch_inv B kt n Es Er 1 1 co' \<and> send_id_ok co' \<and> nonce_level 1 co' = 2 ^ 48 \<and> co_decrypt co' = epoch_ctx B kt Er \<and>
    co_aead_usage_limit co' = limit"
proof -
  have h: "hmac_sized (cb_hmac B)" using B by (simp add: backend_ok_def)
  define c0 where "c0 = co\<lparr>co_epoch_key_recv := Er, co_epoch_key_send := Es, co_epoch_key_type := kt, co_aead_usage_limit := limit\<rparr>"
  define c1 where "c1 = c0\<lparr>co_encrypt := epoch_ctx B kt Es, co_packet_id := (co_packet_id co)\<lparr>pi_send := \<lparr>ps_id = 0, ps_time = 0\<rparr>\<rparr>\<rparr>"
  have s: "epoch_init_send_key_ctx B c0 = Some c1"
    using epoch_init_send_key_ctx_chain[OF B, of c0] E(1) co by (simp add: c0_def c1_def first_epoch_key_def epoch_fresh_def)
  have r: "epoch_init_recv_key B c1 = Some (epoch_ctx B kt Er)"
    using epoch_init_recv_key_chain[OF B, of c1] E(2) by (simp add: c0_def c1_def first_epoch_key_def)
  define c2 where "c2 = c1\<lparr>co_decrypt := epoch_ctx B kt Er, co_initialized := True, co_epoch_data_keys_future_count := word_of_nat n,
      co_epoch_data_keys_future := replicate n clear_key_ctx\<rparr>"
  have u: "unat (word_of_nat n :: u16) = n" using n(2) by (simp add: unat_epoch)
  have g: "epoch_generate_future_receive_keys B c2 = Some (c2\<lparr>co_epoch_key_recv := ek_chain B Er (0 + length (replicate n clear_key_ctx)),
    co_epoch_data_keys_future := [] @ map (\<lambda>j. epoch_ctx B kt (ek_chain B Er (0 + 1 + j))) [0..<length (replicate n clear_key_ctx)]\<rparr>)"
  proof -
    have "epoch_generate_future_receive_keys B c2 = Some (c2\<lparr>co_epoch_key_recv := ek_chain B Er (0 + length (replicate n clear_key_ctx)),
      co_epoch_data_keys_future := [] @ map (\<lambda>j. epoch_ctx B kt (ek_chain B Er (0 + 1 + j))) [0..<length (replicate n clear_key_ctx)]\<rparr>)"
      by (rule epoch_generate_refill[OF B E(2), where N = n and d = 1])
        (use n E(2) in \<open>simp_all add: c2_def c1_def c0_def first_epoch_key_def clear_key_ctx_def\<close>)
    then show ?thesis .
  qed
  define c3 where "c3 = c2\<lparr>co_epoch_key_recv := ek_chain B Er n,
    co_epoch_data_keys_future := map (\<lambda>j. epoch_ctx B kt (ek_chain B Er (1 + j))) [0..<n]\<rparr>"
  have "epoch_init_key_ctx B limit co kt Es Er (word_of_nat n) = Some c3"
    using s r g E u unfolding epoch_init_key_ctx_def c0_def[symmetric]
    by (simp add: first_epoch_key_def c3_def flip: c2_def)
  moreover have "epoch_inv B kt n Es Er 1 1 c3"
    using n co by (auto simp: epoch_inv_def c3_def c2_def c1_def c0_def same_key_def epoch_fresh_def simp del: ek_chain.simps(2))
  moreover have "send_id_ok c3" "nonce_level 1 c3 = 2 ^ 48" "co_decrypt c3 = epoch_ctx B kt Er" "co_aead_usage_limit c3 = limit"
    by (simp_all add: send_id_ok_def nonce_level_def c3_def c2_def c1_def c0_def)
  ultimately show ?thesis by blast
qed

text \<open>A backend and states for instances.\<close>

definition toy_backend :: crypto_backend where
  "toy_backend = \<lparr>cb_hmac = toy_hmac, cb_key_size = (\<lambda>_. 32), cb_iv_size = (\<lambda>_. 12),
     cb_aead = (\<lambda>x. x = ''AES-256-GCM''), cb_md_size = (\<lambda>_. 0)\<rparr>"

definition toy_kt :: key_type where "toy_kt = \<lparr>kt_cipher = ''AES-256-GCM'', kt_digest = ''none''\<rparr>"

definition toy_first :: "byte \<Rightarrow> epoch_key" where "toy_first x = \<lparr>ek_key = replicate 32 x, ek_epoch = 1\<rparr>"

definition toy_options :: crypto_options where
  "toy_options = \<lparr>co_encrypt = clear_key_ctx, co_decrypt = clear_key_ctx, co_initialized = False,
     co_epoch_key_send = toy_first 0, co_epoch_key_recv = toy_first 0, co_epoch_key_type = toy_kt, co_aead_usage_limit = 0,
     co_epoch_data_keys_future = [], co_epoch_data_keys_future_count = 0, co_epoch_retiring_data_receive_key = clear_key_ctx,
     co_epoch_retiring_key_pid_recv = clear_rec, co_packet_id = \<lparr>pi_send = clear_send, pi_rec = clear_rec\<rparr>, co_pid_persist = None, co_flags = 0\<rparr>"

lemma toy_ok:
  "backend_ok toy_backend toy_kt" "first_epoch_key (toy_first x)" "epoch_fresh toy_options"
  by (simp_all add: backend_ok_def toy_backend_def toy_kt_def cipher_defined_def md_defined_def toy_hmac_sized first_epoch_key_def toy_first_def epoch_fresh_def
      toy_options_def clear_key_ctx_def rec_params_def clear_rec_def)

section \<open>Properties\<close>

text \<open>C33: No nonce is ever used twice under epoch keys: from the initialisation on, whatever packets are
  sent, whatever authenticated packets arrive and whatever the usage counters say, no operation
  aborts, and the nonces put on the sent packets (epoch and counter, 8 bytes) strictly increase as
  numbers, so they are pairwise different.\<close>

theorem epoch_nonces_never_repeat:
  assumes "backend_ok B kt" "first_epoch_key Es" "first_epoch_key Er" "epoch_fresh co" "0 < n" "n \<le> 65533"
  shows "\<exists>co1 co2 ns. epoch_init_key_ctx B limit co kt Es Er (word_of_nat n) = Some co1 \<and>
    epoch_run B co1 ops = Some (co2, ns) \<and> sorted_wrt (<) (map nat_be ns) \<and> distinct ns \<and> (\<forall>b \<in> set ns. length b = 8)"
proof -
  obtain co1 where c1: "epoch_init_key_ctx B limit co kt Es Er (word_of_nat n) = Some co1"
    "epoch_inv B kt n Es Er 1 1 co1" "send_id_ok co1" using epoch_init_inv[OF assms] by blast
  obtain co2 ns where r: "epoch_run B co1 ops = Some (co2, ns)" "sorted_wrt (<) (map nat_be ns)" "\<forall>b \<in> set ns. length b = 8"
    using epoch_run_inv[OF assms(1-3) c1(2,3), of ops] by blast
  have "distinct (map nat_be ns)" using r(2) by (simp add: strict_sorted_iff)
  then have "distinct ns" by (simp add: distinct_map)
  then show ?thesis using c1(1) r by blast
qed

theorem epoch_nonces_never_repeat_witness:
  "\<exists>co1 co2 ns. epoch_init_key_ctx toy_backend 68719476735 toy_options toy_kt (toy_first 1) (toy_first 2) 16 = Some co1 \<and>
    epoch_run toy_backend co1 [Op_Send 10, Op_Send 11, Op_Receive 3, Op_Send 12, Op_Usage (2 ^ 40) 0 0, Op_Send 13] = Some (co2, ns) \<and>
    distinct ns"
  using epoch_nonces_never_repeat[OF toy_ok(1) toy_ok(2)[of 1] toy_ok(2)[of 2] toy_ok(3), of 16 68719476735
      "[Op_Send 10, Op_Send 11, Op_Receive 3, Op_Send 12, Op_Usage (2 ^ 40) 0 0, Op_Send 13]"]
  by (simp del: epoch_run.simps) blast

text \<open>C34: Peers agree on the keys.  After the initialisation with crossed first keys and any operations on
  both sides, if the receiver finds a key for the epoch the sender is using, it is the sender's cipher
  key and implicit IV; and it finds one whenever that epoch is the current one or within the window
  (up to the guard at the end of the epoch numbers).\<close>

theorem epoch_keys_agree:
  assumes B: "backend_ok B kt" and E: "first_epoch_key E1" "first_epoch_key E2"
    and fresh: "epoch_fresh coa" "epoch_fresh cob" and n: "0 < n" "n \<le> 65533" "0 < m" "m \<le> 65533"
    and a: "epoch_init_key_ctx B la coa kt E1 E2 (word_of_nat m) = Some a0" "epoch_run B a0 ops_a = Some (a, ns_a)"
    and b: "epoch_init_key_ctx B lb cob kt E2 E1 (word_of_nat n) = Some b0" "epoch_run B b0 ops_b = Some (b, ns_b)"
  shows "(\<forall>sl. epoch_lookup_decrypt_key b (kc_epoch (co_encrypt a)) = Some sl \<longrightarrow> same_key (slot_key b sl) (co_encrypt a)) \<and>
    (unat (kc_epoch (co_decrypt b)) \<le> unat (kc_epoch (co_encrypt a)) \<and>
     unat (kc_epoch (co_encrypt a)) \<le> unat (kc_epoch (co_decrypt b)) + n \<and> unat (kc_epoch (co_encrypt a)) + n \<le> 65534 \<longrightarrow>
     epoch_lookup_decrypt_key b (kc_epoch (co_encrypt a)) \<noteq> None)"
proof -
  obtain da sa where ia: "epoch_inv B kt m E1 E2 da sa a"
    using epoch_init_inv[OF B E fresh(1) n(3,4), of la] epoch_run_inv[OF B E, of m 1 1 a0 ops_a] a by auto
  obtain db sb where ib: "epoch_inv B kt n E2 E1 db sb b"
    using epoch_init_inv[OF B E(2,1) fresh(2) n(1,2), of lb] epoch_run_inv[OF B E(2,1), of n 1 1 b0 ops_b] b by auto
  have sa: "1 \<le> sa" "sa \<le> 65535" "same_key (co_encrypt a) (epoch_ctx B kt (ek_chain B E1 (sa - 1)))"
    using ia by (auto simp: epoch_inv_def)
  have ea: "kc_epoch (co_encrypt a) = word_of_nat sa" using same_key_epoch[OF sa(3)] ek_chain_epoch[OF E(1), of B "sa - 1"] sa(1) by simp
  have eb: "kc_epoch (co_decrypt b) = word_of_nat db" "db \<le> 65535"
    using ib ek_chain_epoch[OF E(1), of B "db - 1"] by (auto simp: epoch_inv_def same_key_def)
  have "same_key (slot_key b sl) (co_encrypt a)" if "epoch_lookup_decrypt_key b (word_of_nat sa) = Some sl" for sl
    using epoch_lookup_key(1)[OF ib E(1) sa(1,2) that] sa(3) by (simp add: same_key_def)
  moreover have "epoch_lookup_decrypt_key b (word_of_nat sa) \<noteq> None" if "db \<le> sa" "sa \<le> db + n" "sa + n \<le> 65534"
    using epoch_lookup_found[OF ib E(1) that] .
  ultimately show ?thesis unfolding ea eb using sa(2) eb(2) by (simp add: unat_epoch)
qed

theorem epoch_keys_agree_witness:
  "\<exists>a b. epoch_init_key_ctx toy_backend 0 toy_options toy_kt (toy_first 1) (toy_first 2) 16 = Some a \<and>
    epoch_init_key_ctx toy_backend 0 toy_options toy_kt (toy_first 2) (toy_first 1) 16 = Some b \<and>
    (\<exists>sl. epoch_lookup_decrypt_key b (kc_epoch (co_encrypt a)) = Some sl \<and> same_key (slot_key b sl) (co_encrypt a))"
proof -
  obtain a where a: "epoch_init_key_ctx toy_backend 0 toy_options toy_kt (toy_first 1) (toy_first 2) 16 = Some a"
    "epoch_inv toy_backend toy_kt 16 (toy_first 1) (toy_first 2) 1 1 a"
    using epoch_init_inv[OF toy_ok(1) toy_ok(2)[of 1] toy_ok(2)[of 2] toy_ok(3), of 16 0] by auto
  obtain b where b: "epoch_init_key_ctx toy_backend 0 toy_options toy_kt (toy_first 2) (toy_first 1) 16 = Some b"
    "epoch_inv toy_backend toy_kt 16 (toy_first 2) (toy_first 1) 1 1 b"
    using epoch_init_inv[OF toy_ok(1) toy_ok(2)[of 2] toy_ok(2)[of 1] toy_ok(3), of 16 0] by auto
  have e: "kc_epoch (co_encrypt a) = 1" "kc_epoch (co_decrypt b) = 1"
    using a(2) b(2) by (auto simp: epoch_inv_def same_key_def toy_first_def)
  have "epoch_run toy_backend a [] = Some (a, [])" "epoch_run toy_backend b [] = Some (b, [])" by simp_all
  then show ?thesis using a(1) b(1) e
      epoch_keys_agree[OF toy_ok(1) toy_ok(2)[of 1] toy_ok(2)[of 2] toy_ok(3) toy_ok(3), of 16 16 0 a "[]" a "[]" 0 b "[]" b "[]"]
    by auto
qed


end
