(* ===== verification/Ovpn_Data_Channel.thy ===== *)
theory Ovpn_Data_Channel
  imports Ovpn_Epoch "HOL-Library.Multiset"
begin

text \<open>
  The data channel with AEAD ciphers (\<open>crypto.c\<close>): \<open>openvpn_encrypt_aead\<close> puts a packet id into the
  nonce and the header of a packet and seals it, \<open>openvpn_decrypt_aead\<close> finds the key, opens the packet
  and asks the replay protection.  Both packet formats are covered: the 32-bit counter with the
  tag in front, and the epoch format with the tag at the end.  The cipher library is a parameter.
\<close>

unbundle bit_operations_syntax

section \<open>The cipher library\<close>

text \<open>
  What a library call can depend on: the cipher, its key, the IV of the last \<open>cipher_ctx_reset\<close>, the
  additional data and the data fed so far.  A call that fails is \<open>None\<close> (or \<open>False\<close>); otherwise it
  gives the bytes it writes.
\<close>

record aead_input =
  ai_cipher :: string
  ai_key :: "byte list"
  ai_iv :: "byte list"
  ai_ad :: "byte list"
  ai_data :: "byte list"

record aead_lib =
  al_block_size :: "string \<Rightarrow> nat"
  al_reset :: "aead_input \<Rightarrow> bool"
  al_update_ad :: "aead_input \<Rightarrow> bool"
  al_encrypt :: "aead_input \<Rightarrow> byte list option"
  al_encrypt_final :: "aead_input \<Rightarrow> byte list option"
  al_get_tag :: "aead_input \<Rightarrow> nat \<Rightarrow> byte list option"
  al_decrypt :: "aead_input \<Rightarrow> byte list option"
  al_check_tag :: "aead_input \<Rightarrow> byte list \<Rightarrow> byte list option"

definition OPENVPN_AEAD_TAG_LENGTH :: nat where "OPENVPN_AEAD_TAG_LENGTH = 16"
definition CO_PACKET_ID_LONG_FORM :: u32 where "CO_PACKET_ID_LONG_FORM = push_bit 0 1"
definition CO_EPOCH_DATA_KEY_FORMAT :: u32 where "CO_EPOCH_DATA_KEY_FORMAT = push_bit 8 1"

definition use_epoch_format :: "crypto_options \<Rightarrow> bool" where
  "use_epoch_format opt = (co_flags opt AND CO_EPOCH_DATA_KEY_FORMAT \<noteq> 0)"

text \<open>The loop that combines the packet id with the implicit IV; the library reads \<open>iv_len\<close> bytes.\<close>

definition combine_iv :: "nat \<Rightarrow> byte list \<Rightarrow> byte list \<Rightarrow> byte list option" where
  "combine_iv iv_len iv implicit = do {
     cassert (iv_len \<le> length iv \<and> iv_len \<le> length implicit);
     Some (map (\<lambda>i. iv ! i XOR implicit ! i) [0..<iv_len]) }"

text \<open>Blocks of 16 bytes, rounded up.\<close>

definition aead_blocks :: "int \<Rightarrow> u64" where
  "aead_blocks len = word_of_int ((len + (AEAD_LIMIT_BLOCKSIZE - 1)) div AEAD_LIMIT_BLOCKSIZE)"

text \<open>A call that writes at the end of a buffer, followed by the asserted \<open>buf_inc_len\<close>.\<close>

definition buf_put_end :: "buffer \<Rightarrow> byte list \<Rightarrow> buffer option" where
  "buf_put_end b out = do {
     p \<leftarrow> buf_bend b;
     b \<leftarrow> buf_store b p out;
     let (b, ok) = buf_inc_len b (int (length out));
     cassert ok;
     Some b }"

section \<open>Sealing\<close>

text \<open>From the check of the buffer to the end; \<open>op\<close> holds cipher, key and IV.\<close>

definition aead_seal :: "aead_lib \<Rightarrow> buffer \<Rightarrow> buffer \<Rightarrow> crypto_options \<Rightarrow> aead_input \<Rightarrow> (crypto_options \<times> buffer) option" where
  "aead_seal A buf work opt op =
     (let epoch_format = use_epoch_format opt; mac_len = OPENVPN_AEAD_TAG_LENGTH in
      if \<not> buf_safe work (to_size_t (b_len buf + int mac_len + int (al_block_size A (ai_cipher op)))) then Some (opt, buf\<lparr>b_len := 0\<rparr>)
      else do {
        ad \<leftarrow> buf_bytes work;
        let op = op\<lparr>ai_ad := ad\<rparr>;
        cassert (al_update_ad A op);
        (work, mac_out) \<leftarrow> (if \<not> epoch_format
          then (case buf_write_alloc work mac_len of (w, None) \<Rightarrow> None | (w, Some p) \<Rightarrow> Some (w, p))
          else Some (work, 0));
        plain \<leftarrow> buf_bytes buf;
        let op = op\<lparr>ai_data := plain\<rparr>;
        out \<leftarrow> al_encrypt A op;
        work \<leftarrow> buf_put_end work out;
        out \<leftarrow> al_encrypt_final A op;
        work \<leftarrow> buf_put_end work out;
        let opt = opt\<lparr>co_encrypt := (co_encrypt opt)\<lparr>kc_plaintext_blocks :=
          kc_plaintext_blocks (co_encrypt opt) + aead_blocks (buf_len work)\<rparr>\<rparr>;
        (work, mac_out) \<leftarrow> (if epoch_format
          then (case buf_write_alloc work mac_len of (w, None) \<Rightarrow> None | (w, Some p) \<Rightarrow> Some (w, p))
          else Some (work, mac_out));
        tag \<leftarrow> al_get_tag A op mac_len;
        work \<leftarrow> buf_store work mac_out tag;
        Some (opt, work) })"

definition openvpn_encrypt_aead ::
  "crypto_backend \<Rightarrow> aead_lib \<Rightarrow> c_time \<Rightarrow> buffer \<Rightarrow> buffer \<Rightarrow> crypto_options \<Rightarrow> (crypto_options \<times> buffer) option" where
  "openvpn_encrypt_aead B A now buf work opt = do {
     let epoch_format = use_epoch_format opt;
     opt \<leftarrow> (if epoch_format then epoch_check_send_iterate B opt else Some opt);
     let ctx = co_encrypt opt;
     (name, key) \<leftarrow> kc_cipher ctx;
     cassert (packet_id_initialized (co_packet_id opt));
     let iv_len = cb_iv_size B name;
     cassert (OPENVPN_AEAD_MIN_IV_LEN \<le> iv_len \<and> iv_len \<le> OPENVPN_MAX_IV_LENGTH);
     iv_buffer \<leftarrow> buf_set_write (Some (replicate OPENVPN_MAX_IV_LENGTH 0)) (int iv_len);
     (send, iv_buffer, ok) \<leftarrow>
       (if epoch_format then packet_id_write_epoch now (pi_send (co_packet_id opt)) (kc_epoch ctx) iv_buffer
        else packet_id_write now (pi_send (co_packet_id opt)) iv_buffer False False);
     let opt = opt\<lparr>co_packet_id := (co_packet_id opt)\<lparr>pi_send := send\<rparr>\<rparr>;
     if \<not> ok then Some (opt, buf\<lparr>b_len := 0\<rparr>)
     else do {
       pid \<leftarrow> buf_bytes iv_buffer;
       (work, ok) \<leftarrow> buf_write work pid;
       cassert ok;
       iv \<leftarrow> b_data iv_buffer;
       iv \<leftarrow> combine_iv iv_len iv (kc_implicit_iv ctx);
       let op = \<lparr>ai_cipher = name, ai_key = key, ai_iv = iv, ai_ad = [], ai_data = []\<rparr>;
       cassert (al_reset A op);
       aead_seal A buf work opt op } }"

section \<open>Opening\<close>

text \<open>The key context a pointer leads to, and the count of failures in it.\<close>

definition slot_ctx :: "crypto_options \<Rightarrow> key_slot \<Rightarrow> key_ctx option" where
  "slot_ctx opt sl = (case sl of
       Slot_Current \<Rightarrow> Some (co_decrypt opt)
     | Slot_Retiring \<Rightarrow> Some (co_epoch_retiring_data_receive_key opt)
     | Slot_Future i \<Rightarrow> if i < length (co_epoch_data_keys_future opt) then Some (co_epoch_data_keys_future opt ! i) else None)"

definition count_failure :: "key_ctx \<Rightarrow> key_ctx" where
  "count_failure ctx = ctx\<lparr>kc_failed_verifications := kc_failed_verifications ctx + 1\<rparr>"

definition slot_failed :: "crypto_options \<Rightarrow> key_slot \<Rightarrow> crypto_options" where
  "slot_failed opt sl = (case sl of
       Slot_Current \<Rightarrow> opt\<lparr>co_decrypt := count_failure (co_decrypt opt)\<rparr>
     | Slot_Retiring \<Rightarrow> opt\<lparr>co_epoch_retiring_data_receive_key := count_failure (co_epoch_retiring_data_receive_key opt)\<rparr>
     | Slot_Future i \<Rightarrow> opt\<lparr>co_epoch_data_keys_future :=
         (co_epoch_data_keys_future opt)[i := count_failure (co_epoch_data_keys_future opt ! i)]\<rparr>)"

text \<open>The check on the packet ids of the key in use.\<close>

definition replay_current :: "c_time \<Rightarrow> crypto_options \<Rightarrow> packet_id_net \<Rightarrow> (crypto_options \<times> bool) option" where
  "replay_current now opt pin = do {
     (r, ok) \<leftarrow> replay_check now (pi_rec (co_packet_id opt)) pin;
     Some (opt\<lparr>co_packet_id := (co_packet_id opt)\<lparr>pi_rec := r\<rparr>\<rparr>, ok) }"

definition replay_persist :: "crypto_options \<Rightarrow> crypto_options" where
  "replay_persist opt = (case co_pid_persist opt of
       None \<Rightarrow> opt
     | Some pp \<Rightarrow> if co_flags opt AND CO_PACKET_ID_LONG_FORM \<noteq> 0
                 then opt\<lparr>co_pid_persist := Some (packet_id_persist_save_obj pp (co_packet_id opt))\<rparr> else opt)"

definition crypto_check_replay ::
  "crypto_backend \<Rightarrow> c_time \<Rightarrow> crypto_options \<Rightarrow> packet_id_net \<Rightarrow> u16 \<Rightarrow> (crypto_options \<times> bool) option" where
  "crypto_check_replay B now opt pin epoch = do {
     (opt, ok) \<leftarrow>
       (if epoch = 0 \<or> kc_epoch (co_decrypt opt) = epoch then replay_current now opt pin
        else if epoch = kc_epoch (co_epoch_retiring_data_receive_key opt)
        then do {
          (r, ok) \<leftarrow> replay_check now (co_epoch_retiring_key_pid_recv opt) pin;
          Some (opt\<lparr>co_epoch_retiring_key_pid_recv := r\<rparr>, ok) }
        else do {
          opt \<leftarrow> epoch_replace_update_recv_key B opt epoch;
          replay_current now opt pin });
     Some (if ok then replay_persist opt else opt, ok) }"

text \<open>
  The block that reads the packet id and finds the key: the buffer behind it, and unless the packet
  is dropped the packet id, the epoch, the key's place and the explicit part of the IV.
\<close>

definition aead_packet_key ::
  "buffer \<Rightarrow> crypto_options \<Rightarrow> (buffer \<times> (packet_id_net \<times> u16 \<times> key_slot \<times> byte list) option) option" where
  "aead_packet_key buf opt =
     (let pin = \<lparr>pn_id = 0, pn_time = 0\<rparr> in
      if use_epoch_format opt
      then do {
        p \<leftarrow> buf_bptr buf;
        bs \<leftarrow> buf_load buf p 8;
        (pin, buf, epoch) \<leftarrow> packet_id_read_epoch pin buf;
        if epoch = 0 then Some (buf, None)
        else (case epoch_lookup_decrypt_key opt epoch of
                None \<Rightarrow> Some (buf, None)
              | Some sl \<Rightarrow> do {
                  ctx \<leftarrow> slot_ctx opt sl;
                  if cipher_decrypt_verify_fail_exceeded ctx then Some (buf, None)
                  else Some (buf, Some (pin, epoch, sl, bs @ replicate (OPENVPN_MAX_IV_LENGTH - 8) 0)) }) }
      else do {
        p \<leftarrow> buf_bptr buf;
        bs \<leftarrow> buf_load buf p (packet_id_size False);
        (pin, buf, ok) \<leftarrow> packet_id_read buf False;
        if \<not> ok then Some (buf, None)
        else Some (buf, Some (pin, 0, Slot_Current, bs @ replicate (OPENVPN_MAX_IV_LENGTH - 4) 0)) })"

text \<open>From the combination of the IV to the end; \<open>buf\<close> starts behind the packet id.\<close>

definition aead_open ::
  "crypto_backend \<Rightarrow> aead_lib \<Rightarrow> c_time \<Rightarrow> buffer \<Rightarrow> buffer \<Rightarrow> crypto_options \<Rightarrow> int \<Rightarrow> nat \<Rightarrow>
   packet_id_net \<times> u16 \<times> key_slot \<times> byte list \<Rightarrow> (crypto_options \<times> buffer \<times> bool) option" where
  "aead_open B A now buf work opt ad_start iv_len pk = do {
     let (pin, epoch, sl, iv) = pk;
     let tag_size = int OPENVPN_AEAD_TAG_LENGTH;
     ctx \<leftarrow> slot_ctx opt sl;
     iv \<leftarrow> combine_iv iv_len iv (kc_implicit_iv ctx);
     (name, key) \<leftarrow> kc_cipher ctx;
     let op = \<lparr>ai_cipher = name, ai_key = key, ai_iv = iv, ai_ad = [], ai_data = []\<rparr>;
     if \<not> al_reset A op then Some (opt, buf\<lparr>b_len := 0\<rparr>, False)
     else do {
       bptr \<leftarrow> buf_bptr buf;
       let ad_size = bptr - ad_start;
       (buf, tag_ptr, data_len) \<leftarrow>
         (if use_epoch_format opt then Some (buf, bptr + (buf_len buf - tag_size), buf_len buf - tag_size)
          else do {
            let (b, ok) = buf_advance buf tag_size;
            cassert ok;
            Some (b, bptr, buf_len b) });
       if \<not> buf_safe work (to_size_t (b_len buf + int (al_block_size A name))) then Some (opt, buf\<lparr>b_len := 0\<rparr>, False)
       else do {
         ad \<leftarrow> buf_load buf ad_start ad_size;
         let op = op\<lparr>ai_ad := ad\<rparr>;
         cassert (al_update_ad A op);
         p \<leftarrow> buf_bptr buf;
         src \<leftarrow> buf_load buf p data_len;
         let op = op\<lparr>ai_data := src\<rparr>;
         case al_decrypt A op of
           None \<Rightarrow> Some (opt, buf\<lparr>b_len := 0\<rparr>, False)
         | Some out \<Rightarrow> do {
             work \<leftarrow> buf_put_end work out;
             tag \<leftarrow> buf_load buf tag_ptr tag_size;
             case al_check_tag A op tag of
               None \<Rightarrow> Some (slot_failed opt sl, buf\<lparr>b_len := 0\<rparr>, False)
             | Some out \<Rightarrow> do {
                 work \<leftarrow> buf_put_end work out;
                 (opt, ok) \<leftarrow> crypto_check_replay B now opt pin epoch;
                 if \<not> ok then Some (opt, buf\<lparr>b_len := 0\<rparr>, False)
                 else Some (opt\<lparr>co_decrypt := (co_decrypt opt)\<lparr>kc_plaintext_blocks :=
                        kc_plaintext_blocks (co_decrypt opt) + aead_blocks (buf_len work)\<rparr>\<rparr>, work, True) } } } } }"

text \<open>\<open>headroom\<close> is \<open>frame->buf.headroom\<close>, \<open>ad_start\<close> the index of the first authenticated byte.\<close>

definition openvpn_decrypt_aead ::
  "crypto_backend \<Rightarrow> aead_lib \<Rightarrow> c_time \<Rightarrow> buffer \<Rightarrow> buffer \<Rightarrow> crypto_options \<Rightarrow> int \<Rightarrow> int \<Rightarrow>
   (crypto_options \<times> buffer \<times> bool) option" where
  "openvpn_decrypt_aead B A now buf work opt headroom ad_start =
     (if \<not> use_epoch_format opt \<and> cipher_decrypt_verify_fail_exceeded (co_decrypt opt) then Some (opt, buf\<lparr>b_len := 0\<rparr>, False)
      else do {
        cassert (b_len buf > 0);
        (name, _) \<leftarrow> kc_cipher (co_decrypt opt);
        bptr \<leftarrow> buf_bptr buf;
        cassert (0 \<le> ad_start \<and> ad_start \<le> bptr);
        let (work, ok) = buf_init work headroom;
        cassert ok;
        cassert (packet_id_initialized (co_packet_id opt));
        let min_packet_len = packet_id_size False + int OPENVPN_AEAD_TAG_LENGTH + 1 + (if use_epoch_format opt then 4 else 0);
        if b_len buf < min_packet_len then Some (opt, buf\<lparr>b_len := 0\<rparr>, False)
        else do {
          (buf, pk) \<leftarrow> aead_packet_key buf opt;
          case pk of
            None \<Rightarrow> Some (opt, buf\<lparr>b_len := 0\<rparr>, False)
          | Some pk \<Rightarrow> aead_open B A now buf work opt ad_start (cb_iv_size B name) pk } })"

section \<open>What the library promises\<close>

text \<open>Opening as one step, and the documented behaviour of an AEAD cipher: the calls succeed, no call
  writes more than it was given, and what was sealed opens to the plaintext.\<close>

definition opened :: "aead_lib \<Rightarrow> aead_input \<Rightarrow> byte list \<Rightarrow> byte list option" where
  "opened A op tag = do { a \<leftarrow> al_decrypt A op; b \<leftarrow> al_check_tag A op tag; Some (a @ b) }"

definition sealed :: "aead_lib \<Rightarrow> aead_input \<Rightarrow> (byte list \<times> byte list) option" where
  "sealed A op = do { a \<leftarrow> al_encrypt A op; b \<leftarrow> al_encrypt_final A op; t \<leftarrow> al_get_tag A op OPENVPN_AEAD_TAG_LENGTH;
     Some (a @ b, t) }"

definition aead_laws :: "aead_lib \<Rightarrow> string \<Rightarrow> nat \<Rightarrow> bool" where
  "aead_laws A name iv_len \<longleftrightarrow> al_block_size A name \<le> 64 \<and> (\<forall>op. ai_cipher op = name \<and> length (ai_iv op) = iv_len \<longrightarrow>
     al_reset A op \<and> al_update_ad A op \<and>
     (\<forall>a. al_decrypt A op = Some a \<longrightarrow> length a \<le> length (ai_data op)) \<and>
     (\<forall>t p. opened A op t = Some p \<longrightarrow> length p \<le> length (ai_data op)) \<and>
     (\<exists>c t. sealed A op = Some (c, t) \<and> length c = length (ai_data op) \<and> length t = 16 \<and>
       opened A (op\<lparr>ai_data := c\<rparr>) t = Some (ai_data op)))"

text \<open>The input of the library for a packet of the epoch format: \<open>hdr\<close> is the authenticated header, \<open>pid\<close>
  the 8 bytes of epoch and counter.\<close>

definition pid_epoch :: "byte list \<Rightarrow> nat" where "pid_epoch pid = nat_be pid div 2 ^ 48"
definition pid_counter :: "byte list \<Rightarrow> nat" where "pid_counter pid = nat_be pid mod 2 ^ 48"

definition packet_input :: "crypto_backend \<Rightarrow> key_type \<Rightarrow> epoch_key \<Rightarrow> byte list \<Rightarrow> byte list \<Rightarrow> byte list \<Rightarrow> aead_input" where
  "packet_input B kt E hdr pid data =
     (let ctx = epoch_ctx B kt (ek_chain B E (pid_epoch pid - 1)) in
      \<lparr>ai_cipher = kt_cipher kt, ai_key = snd (the (kc_cipher ctx)),
       ai_iv = map (\<lambda>i. (pid @ replicate 8 0) ! i XOR kc_implicit_iv ctx ! i) [0..<cb_iv_size B (kt_cipher kt)],
       ai_ad = hdr @ pid, ai_data = data\<rparr>)"

lemma packet_input_sel [simp]:
  "ai_cipher (packet_input B kt E hdr pid data) = kt_cipher kt"
  "length (ai_iv (packet_input B kt E hdr pid data)) = cb_iv_size B (kt_cipher kt)"
  "ai_data (packet_input B kt E hdr pid data) = data" "ai_ad (packet_input B kt E hdr pid data) = hdr @ pid"
  "(packet_input B kt E hdr pid data)\<lparr>ai_data := c\<rparr> = packet_input B kt E hdr pid c"
  by (simp_all add: packet_input_def Let_def)

text \<open>What a packet contains according to the format, and what a plaintext becomes.\<close>

definition packet_plain :: "crypto_backend \<Rightarrow> aead_lib \<Rightarrow> key_type \<Rightarrow> epoch_key \<Rightarrow> byte list \<Rightarrow> byte list \<Rightarrow> byte list option" where
  "packet_plain B A kt E hdr c =
     opened A (packet_input B kt E hdr (take 8 c) (take (length c - 24) (drop 8 c))) (drop (length c - 16) c)"

definition packet_of :: "crypto_backend \<Rightarrow> aead_lib \<Rightarrow> key_type \<Rightarrow> epoch_key \<Rightarrow> byte list \<Rightarrow> byte list \<Rightarrow> byte list \<Rightarrow> byte list option" where
  "packet_of B A kt E hdr pid m = map_option (\<lambda>(c, t). pid @ c @ t) (sealed A (packet_input B kt E hdr pid m))"

lemma packet_plain_of:
  assumes A: "aead_laws A (kt_cipher kt) (cb_iv_size B (kt_cipher kt))" and pid: "length pid = 8"
  shows "\<exists>c. packet_of B A kt E hdr pid m = Some c \<and> take 8 c = pid \<and> length c = 24 + length m \<and> packet_plain B A kt E hdr c = Some m"
proof -
  let ?op = "packet_input B kt E hdr pid m"
  obtain c t where s: "sealed A ?op = Some (c, t)" "length c = length m" "length t = 16"
    "opened A (?op\<lparr>ai_data := c\<rparr>) t = Some m"
    using A[unfolded aead_laws_def, THEN conjunct2, rule_format, of ?op] by auto
  show ?thesis using s pid by (auto simp: packet_of_def packet_plain_def)
qed

lemma aead_lawsD:
  assumes "aead_laws A name n" "ai_cipher op = name" "length (ai_iv op) = n"
  shows "al_reset A op" "al_update_ad A op" "al_decrypt A op = Some a \<Longrightarrow> length a \<le> length (ai_data op)"
    "opened A op t = Some p \<Longrightarrow> length p \<le> length (ai_data op)"
    "\<exists>c t. sealed A op = Some (c, t) \<and> length c = length (ai_data op) \<and> length t = 16"
proof -
  note L = assms(1)[unfolded aead_laws_def, THEN conjunct2, rule_format, OF conjI, OF assms(2,3)]
  show "al_reset A op" using L by (rule conjunct1)
  show "al_update_ad A op" using L by (elim conjE)
  show "al_decrypt A op = Some a \<Longrightarrow> length a \<le> length (ai_data op)" using L by (elim conjE) blast
  show "opened A op t = Some p \<Longrightarrow> length p \<le> length (ai_data op)" using L by (elim conjE) blast
  show "\<exists>c t. sealed A op = Some (c, t) \<and> length c = length (ai_data op) \<and> length t = 16"
    using L by (elim conjE exE) blast
qed

section \<open>Packet ids of the epoch format\<close>

lemma packet_id_read_epoch_of:
  assumes "8 \<le> length c"
  shows "\<exists>i e. packet_id_read_epoch \<lparr>pn_id = 0, pn_time = 0\<rparr> (buf_of p c q) =
      Some (\<lparr>pn_id = i, pn_time = 0\<rparr>, buf_of (p @ take 8 c) (drop 8 c) q, e) \<and>
    unat e = pid_epoch (take 8 c) \<and> unat i = pid_counter (take 8 c)"
proof -
  define x where "x = (de64 (take 8 c) :: u64)"
  have b: "nat_be (take 8 c) < 2 ^ 64" using nat_be_bound[of "take 8 c"] assms by simp
  then have x: "unat x = nat_be (take 8 c)" by (simp add: x_def de64_def unat_of_nat)
  have m: "PACKET_ID_MASK = mask 48" by (simp add: PACKET_ID_MASK_def mask_eq_exp_minus_1)
  have "x AND PACKET_ID_MASK = take_bit 48 x" unfolding m by (rule take_bit_eq_mask[symmetric])
  then have "unat (x AND PACKET_ID_MASK) = nat_be (take 8 c) mod 2 ^ 48"
    by (simp only: unsigned_take_bit_eq take_bit_eq_mod[of _ "_ :: nat"] x)
  moreover have "unat (ucast (drop_bit 48 x) :: u16) = nat_be (take 8 c) div 2 ^ 48"
  proof -
    have "nat_be (take 8 c) div 2 ^ 48 < 2 ^ 16" using b by (simp add: less_mult_imp_div_less)
    moreover have "unat (drop_bit 48 x) = nat_be (take 8 c) div 2 ^ 48" by (simp only: unat_drop_bit_eq drop_bit_eq_div[of _ "_ :: nat"] x)
    ultimately show ?thesis by (simp only: unsigned_ucast_eq take_bit_nat_eq_self len_of_numeral_defs)
        (simp add: take_bit_nat_eq_self)
  qed
  ultimately show ?thesis using assms
    by (auto simp: packet_id_read_epoch_def buf_read_of Let_def pid_epoch_def pid_counter_def x_def[symmetric])
qed

lemma pid_unique:
  assumes "length a = 8" "length b = 8" "pid_epoch a = pid_epoch b" "pid_counter a = pid_counter b"
  shows "a = b"
proof -
  have "nat_be a = nat_be a div 2 ^ 48 * 2 ^ 48 + nat_be a mod 2 ^ 48" by (rule div_mult_mod_eq[symmetric])
  also have "\<dots> = nat_be b div 2 ^ 48 * 2 ^ 48 + nat_be b mod 2 ^ 48"
    unfolding assms(3)[unfolded pid_epoch_def] assms(4)[unfolded pid_counter_def] ..
  also have "\<dots> = nat_be b" by (rule div_mult_mod_eq)
  finally have "be_nat 8 (nat_be a) = be_nat 8 (nat_be b)" by (rule arg_cong)
  then show ?thesis unfolding be_nat_nat_be[OF assms(1)] be_nat_nat_be[OF assms(2)] .
qed

section \<open>Buffers\<close>

lemma buf_put_end_of:
  assumes "buf_fits p c q" "length out \<le> length q"
  shows "buf_put_end (buf_of p c q) out = Some (buf_of p (c @ out) (drop (length out) q))"
proof -
  have st: "buf_store (buf_of p c q) (int (length p) + int (length c)) out = Some (buf_of p c (out @ drop (length out) q))"
    using assms(2) mem_write_mid[of "take (length out) q" out "int (length (p @ c))" "p @ c" "drop (length out) q"]
    by (simp add: buf_store_def buf_of_def)
  have "buf_fits p c (out @ drop (length out) q)" using assms by (simp add: buf_fits_def)
  then show ?thesis using st buf_inc_len_of[of p c "out @ drop (length out) q" "int (length out)"]
    by (simp add: buf_put_end_def buf_bend_def nat_add_distrib)
qed

lemma buf_write_alloc_of:
  assumes "buf_fits p c q" "n \<le> length q"
  shows "buf_write_alloc (buf_of p c q) n = (buf_of p (c @ take n q) (drop n q), Some (int (length p + length c)))"
  using assms by (simp add: buf_write_alloc_def buf_safe_def buf_size_valid_def buf_fits_def buf_of_def buf_bptr_def buf_valid_def min_def)

lemma buf_store_mid:
  "length bs = length y \<Longrightarrow> c = x @ y @ z \<Longrightarrow> buf_store (buf_of p c q) (int (length p) + int (length x)) bs = Some (buf_of p (x @ bs @ z) q)"
  using mem_write_mid[of y bs "int (length (p @ x))" "p @ x" "z @ q"] by (simp add: buf_store_def buf_of_def)

lemma buf_safe_of: "buf_fits p c q \<Longrightarrow> buf_safe (buf_of p c q) n \<longleftrightarrow> n \<le> length q \<and> int n < BUF_SIZE_MAX"
  by (auto simp: buf_safe_def buf_size_valid_def)

lemma to_size_t_nat: "n < 2 ^ 64 \<Longrightarrow> to_size_t (int n) = n"
  by (simp add: to_size_t_def)

text \<open>The buffer over the IV array.\<close>

definition iv_buf :: "nat \<Rightarrow> byte list \<Rightarrow> buffer" where
  "iv_buf n bs = \<lparr>b_capacity = int n, b_offset = 0, b_len = int (length bs), b_data = Some (bs @ replicate (16 - length bs) 0)\<rparr>"

lemma iv_buf_init:
  assumes "0 < n" "n \<le> 16"
  shows "buf_set_write (Some (replicate OPENVPN_MAX_IV_LENGTH 0)) (int n) = Some (iv_buf n [])"
proof -
  have "replicate 16 (0 :: byte) = 0 # replicate 15 0" using replicate_Suc[of 15 "0 :: byte"] by simp
  then show ?thesis using assms
    by (simp add: buf_set_write_def buf_size_valid_def BUF_SIZE_MAX_def to_size_t_def OPENVPN_MAX_IV_LENGTH_def buf_store_def
        mem_write_def iv_buf_def)
qed

lemma iv_buf_write: "length bs \<le> n \<Longrightarrow> n \<le> 16 \<Longrightarrow> buf_write (iv_buf n []) bs = Some (iv_buf n bs, True)"
  by (simp add: buf_write_def buf_write_alloc_def buf_safe_def buf_size_valid_def BUF_SIZE_MAX_def iv_buf_def buf_valid_def
      buf_bptr_def buf_store_def mem_write_def)

lemma iv_buf_bytes: "buf_bytes (iv_buf n bs) = Some bs"
  by (simp add: buf_bytes_def buf_bptr_def buf_valid_def buf_len_def buf_load_def mem_read_def iv_buf_def)

lemma iv_buf_data: "b_data (iv_buf n bs) = Some (bs @ replicate (16 - length bs) 0)" by (simp add: iv_buf_def)

lemma write_epoch_iv:
  assumes "unat (ps_id p) < 2 ^ 48" "s \<le> 65535" "8 \<le> n" "n \<le> 16"
  shows "if ps_id p = PACKET_ID_EPOCH_MAX
    then \<exists>p'. packet_id_write_epoch now p (word_of_nat s) (iv_buf n []) = Some (p', iv_buf n [], False) \<and> ps_id p' = ps_id p
    else \<exists>p' pid. packet_id_write_epoch now p (word_of_nat s) (iv_buf n []) = Some (p', iv_buf n pid, True) \<and>
      unat (ps_id p') = unat (ps_id p) + 1 \<and> unat (ps_id p') < 2 ^ 48 \<and> length pid = 8 \<and> nat_be pid = s * 2 ^ 48 + unat (ps_id p')"
proof (cases "ps_id p = PACKET_ID_EPOCH_MAX")
  case True
  then show ?thesis by (auto simp: packet_id_write_epoch_def packet_id_send_update_epoch_def Let_def)
next
  case False
  have "unat (ps_id p) \<noteq> 2 ^ 48 - 1" using False word_unat_eq_iff[of "ps_id p" PACKET_ID_EPOCH_MAX]
    by (simp add: PACKET_ID_EPOCH_MAX_def)
  then have lt: "unat (ps_id p) + 1 < 2 ^ 48" using assms(1) by linarith
  then have u: "unat (ps_id p + 1) = unat (ps_id p) + 1" by (simp add: unat_word_ariths)
  have nb: "nat_be (be64 x) = unat x" for x :: u64 using unat_less_2p[of x] by (simp add: be64_def nat_be_be_nat)
  show ?thesis using False u lt assms(2-4) nonce_word[of "ps_id p + 1" s]
    by (auto simp: packet_id_write_epoch_def packet_id_send_update_epoch_def Let_def iv_buf_write nb)
qed

lemma combine_iv_packet:
  assumes "length pid = 8" "backend_ok B kt" "same_key ctx (epoch_ctx B kt (ek_chain B E (pid_epoch pid - 1)))"
  shows "combine_iv (cb_iv_size B (kt_cipher kt)) (pid @ replicate 8 0) (kc_implicit_iv ctx) = Some (ai_iv (packet_input B kt E hdr pid data))"
    "kc_cipher ctx = Some (kt_cipher kt, ai_key (packet_input B kt E hdr pid data))"
proof -
  let ?n = "cb_iv_size B (kt_cipher kt)"
  have n: "12 \<le> ?n" "?n \<le> 16" "hmac_sized (cb_hmac B)" using assms(2) by (simp_all add: backend_ok_def)
  have c: "kc_cipher ctx = kc_cipher (epoch_ctx B kt (ek_chain B E (pid_epoch pid - 1)))"
    "kc_implicit_iv ctx = kc_implicit_iv (epoch_ctx B kt (ek_chain B E (pid_epoch pid - 1)))"
    using assms(3) by (simp_all add: same_key_def)
  have l: "length (kc_implicit_iv (epoch_ctx B kt (ek_chain B E (pid_epoch pid - 1)))) = 16"
    using n by (simp add: epoch_ctx_def Let_def epoch_secret_length)
  show "combine_iv ?n (pid @ replicate 8 0) (kc_implicit_iv ctx) = Some (ai_iv (packet_input B kt E hdr pid data))"
    unfolding c(2) using l n assms(1) by (simp add: combine_iv_def packet_input_def Let_def)
  show "kc_cipher ctx = Some (kt_cipher kt, ai_key (packet_input B kt E hdr pid data))"
    unfolding c(1) by (simp add: packet_input_def Let_def epoch_ctx_def)
qed

section \<open>One packet sealed\<close>

lemma replay_side_format: "replay_side co' = replay_side co \<Longrightarrow> use_epoch_format co' = use_epoch_format co"
  by (simp add: replay_side_def use_epoch_format_def)

lemma aead_seal_of:
  assumes A: "aead_laws A (ai_cipher op) (length (ai_iv op))" and fmt: "use_epoch_format co"
    and fits: "buf_fits p m q" "buf_fits wp w wq" and room: "length m + al_block_size A (ai_cipher op) + 16 \<le> length wq"
  shows "\<exists>c t b. sealed A (op\<lparr>ai_ad := w, ai_data := m\<rparr>) = Some (c, t) \<and> length c = length m \<and> length t = 16 \<and>
    aead_seal A (buf_of p m q) (buf_of wp w wq) co op =
      Some (co\<lparr>co_encrypt := (co_encrypt co)\<lparr>kc_plaintext_blocks := b\<rparr>\<rparr>, buf_of wp (w @ c @ t) (drop (length m + 16) wq))"
proof -
  let ?op = "op\<lparr>ai_ad := w, ai_data := m\<rparr>"
  obtain c t where s: "sealed A ?op = Some (c, t)" "length c = length m" "length t = 16"
    using aead_lawsD(5)[OF A, of ?op] by auto
  then obtain c1 c2 where c: "al_encrypt A ?op = Some c1" "al_encrypt_final A ?op = Some c2" "c = c1 @ c2"
    "al_get_tag A ?op 16 = Some t"
    by (auto simp: sealed_def bind_eq_Some_iff OPENVPN_AEAD_TAG_LENGTH_def)
  have ad: "al_update_ad A (op\<lparr>ai_ad := w\<rparr>)" by (rule aead_lawsD(2)[OF A]) simp_all
  define r where "r = drop (length m) wq"
  have l: "length c1 + length c2 = length m" using s(2) c(3) by simp
  have r: "16 \<le> length r" using room by (simp add: r_def)
  have small: "length m + 16 + al_block_size A (ai_cipher op) < 1000000"
    using room fits(2) by (simp add: buf_fits_def BUF_SIZE_MAX_def)
  have safe: "buf_safe (buf_of wp w wq) (to_size_t (int (length m) + 16 + int (al_block_size A (ai_cipher op))))"
    using to_size_t_nat[of "length m + 16 + al_block_size A (ai_cipher op)"] small room fits(2)
    by (simp add: buf_safe_of BUF_SIZE_MAX_def)
  have p1: "buf_put_end (buf_of wp w wq) c1 = Some (buf_of wp (w @ c1) (drop (length c1) wq))"
    by (rule buf_put_end_of[OF fits(2)]) (use l room in simp)
  have f1: "buf_fits wp (w @ c1) (drop (length c1) wq)" using fits(2) l room by (simp add: buf_fits_def)
  have p2: "buf_put_end (buf_of wp (w @ c1) (drop (length c1) wq)) c2 = Some (buf_of wp (w @ c) r)"
    using buf_put_end_of[OF f1, of c2] l room by (simp add: r_def c(3) add.commute)
  have f2: "buf_fits wp (w @ c) r" using fits(2) s(2) room by (simp add: buf_fits_def r_def)
  have al: "buf_write_alloc (buf_of wp (w @ c) r) 16 =
      (buf_of wp ((w @ c) @ take 16 r) (drop 16 r), Some (int (length wp + length (w @ c))))"
    by (rule buf_write_alloc_of[OF f2 r])
  have st: "buf_store (buf_of wp ((w @ c) @ take 16 r) (drop 16 r)) (int (length wp) + int (length (w @ c))) t =
      Some (buf_of wp ((w @ c) @ t @ []) (drop 16 r))"
    by (rule buf_store_mid) (use s(3) r in simp_all)
  have "drop 16 r = drop (length m + 16) wq" by (simp add: r_def add.commute)
  then have "aead_seal A (buf_of p m q) (buf_of wp w wq) co op =
      Some (co\<lparr>co_encrypt := (co_encrypt co)\<lparr>kc_plaintext_blocks :=
          kc_plaintext_blocks (co_encrypt co) + aead_blocks (int (length (w @ c)))\<rparr>\<rparr>, buf_of wp (w @ c @ t) (drop (length m + 16) wq))"
    using safe ad c p1 p2 al st fmt
    by (simp add: aead_seal_def OPENVPN_AEAD_TAG_LENGTH_def buf_bytes_of)
  then show ?thesis using s by blast
qed

definition send_ready :: "crypto_options \<Rightarrow> bool" where
  "send_ready co \<longleftrightarrow> use_epoch_format co \<and> pr_initialized (pi_rec (co_packet_id co)) \<and> send_id_ok co"

text \<open>A packet is dropped only when epoch and counter are both at their ends.\<close>

lemma encrypt_aead_step:
  assumes B: "backend_ok B kt" and E: "first_epoch_key Es"
    and inv: "epoch_inv B kt n Es Er d s co" and rdy: "send_ready co"
    and A: "aead_laws A (kt_cipher kt) (cb_iv_size B (kt_cipher kt))"
    and fits: "buf_fits p m q" "buf_fits wp hdr wq" and room: "length m + al_block_size A (kt_cipher kt) + 24 \<le> length wq"
  shows "\<exists>co' s' res. openvpn_encrypt_aead B A now (buf_of p m q) (buf_of wp hdr wq) co = Some (co', res) \<and>
    epoch_inv B kt n Es Er d s' co' \<and> send_ready co' \<and> replay_side co' = replay_side co \<and>
    co_decrypt co' = co_decrypt co \<and> nonce_level s co \<le> nonce_level s' co' \<and>
    (b_len res = 0 \<and> nonce_level s co = 2 ^ 64 - 1 \<or>
     (\<exists>pid c. length pid = 8 \<and> nonce_level s co < nat_be pid \<and> nat_be pid = nonce_level s' co' \<and>
        packet_of B A kt Es hdr pid m = Some c \<and> res = buf_of wp (hdr @ c) (drop (length c) wq))) \<and>
    (co_aead_usage_limit co = 0 \<and> ps_id (pi_send (co_packet_id co)) \<noteq> PACKET_ID_EPOCH_MAX \<longrightarrow> s' = s)"
proof -
  let ?ivn = "cb_iv_size B (kt_cipher kt)"
  have ivn: "12 \<le> ?ivn" "?ivn \<le> 16" using B by (simp_all add: backend_ok_def)
  have fmt: "use_epoch_format co" and id: "send_id_ok co" using rdy by (simp_all add: send_ready_def)
  obtain co1 s1 where c1: "epoch_check_send_iterate B co = Some co1" "epoch_inv B kt n Es Er d s1 co1" "send_id_ok co1"
    "nonce_level s co \<le> nonce_level s1 co1"
    "ps_id (pi_send (co_packet_id co1)) = PACKET_ID_EPOCH_MAX \<longrightarrow> co1 = co \<and> s = 65535"
    using epoch_check_send_inv[OF B E inv id] by blast
  have stay: "s1 = s" if "co_aead_usage_limit co = 0" "ps_id (pi_send (co_packet_id co)) \<noteq> PACKET_ID_EPOCH_MAX"
  proof -
    have "co1 = co" using c1(1) that by (auto simp: epoch_check_send_iterate_def split: if_splits)
    then have "same_key (epoch_ctx B kt (ek_chain B Es (s1 - 1))) (epoch_ctx B kt (ek_chain B Es (s - 1)))"
      using inv c1(2) by (auto simp: epoch_inv_def same_key_def)
    then have "(word_of_nat s1 :: u16) = word_of_nat s"
      using ek_chain_epoch[OF E, of B "s1 - 1"] ek_chain_epoch[OF E, of B "s - 1"] inv c1(2)
      by (auto simp: same_key_def epoch_inv_def epoch_ctx_epoch)
    then show ?thesis using u16_eq[of s1 s] inv c1(2) by (auto simp: epoch_inv_def)
  qed
  have keep: "replay_side co1 = replay_side co" "co_decrypt co1 = co_decrypt co" using epoch_check_send_keeps[OF c1(1)] by auto
  have init: "packet_id_initialized (co_packet_id co1)"
    using rdy keep(1) by (simp add: packet_id_initialized_def send_ready_def replay_side_def)
  have s1: "1 \<le> s1" "s1 \<le> 65535" "same_key (co_encrypt co1) (epoch_ctx B kt (ek_chain B Es (s1 - 1)))"
    using c1(2) by (auto simp: epoch_inv_def)
  have es: "kc_epoch (co_encrypt co1) = word_of_nat s1"
    using s1 ek_chain_epoch[OF E, of B "s1 - 1"] by (simp add: same_key_def)
  obtain key where ck: "kc_cipher (co_encrypt co1) = Some (kt_cipher kt, key)"
    using s1(3) by (simp add: same_key_def epoch_ctx_def Let_def)
  have mn: "OPENVPN_AEAD_MIN_IV_LEN \<le> ?ivn" "?ivn \<le> OPENVPN_MAX_IV_LENGTH"
    using ivn by (simp_all add: OPENVPN_AEAD_MIN_IV_LEN_def OPENVPN_MAX_IV_LENGTH_def)
  let ?p = "pi_send (co_packet_id co1)"
  have w: "if ps_id ?p = PACKET_ID_EPOCH_MAX
    then \<exists>p'. packet_id_write_epoch now ?p (word_of_nat s1) (iv_buf ?ivn []) = Some (p', iv_buf ?ivn [], False) \<and> ps_id p' = ps_id ?p
    else \<exists>p' pid. packet_id_write_epoch now ?p (word_of_nat s1) (iv_buf ?ivn []) = Some (p', iv_buf ?ivn pid, True) \<and>
      unat (ps_id p') = unat (ps_id ?p) + 1 \<and> unat (ps_id p') < 2 ^ 48 \<and> length pid = 8 \<and> nat_be pid = s1 * 2 ^ 48 + unat (ps_id p')"
    by (rule write_epoch_iv) (use c1(3) s1 ivn in \<open>simp_all add: send_id_ok_def\<close>)
  have iv0: "buf_set_write (Some (replicate OPENVPN_MAX_IV_LENGTH 0)) (int ?ivn) = Some (iv_buf ?ivn [])"
    by (rule iv_buf_init) (use ivn in simp_all)
  show ?thesis
  proof (cases "ps_id ?p = PACKET_ID_EPOCH_MAX")
    case True
    then obtain p' where p': "packet_id_write_epoch now ?p (word_of_nat s1) (iv_buf ?ivn []) = Some (p', iv_buf ?ivn [], False)"
      "ps_id p' = ps_id ?p" using w by auto
    have co: "co1 = co" "s = 65535" using c1(5) True by auto
    define co2 where "co2 = co1\<lparr>co_packet_id := (co_packet_id co1)\<lparr>pi_send := p'\<rparr>\<rparr>"
    have "openvpn_encrypt_aead B A now (buf_of p m q) (buf_of wp hdr wq) co = Some (co2, (buf_of p m q)\<lparr>b_len := 0\<rparr>)"
      by (simp add: openvpn_encrypt_aead_def fmt c1(1) ck init mn iv0 p'(1) es co2_def)
    moreover have "epoch_inv B kt n Es Er d s1 co2" using c1(2) by (simp add: epoch_inv_def co2_def)
    moreover have "send_ready co2" "replay_side co2 = replay_side co" "co_decrypt co2 = co_decrypt co"
      using rdy co c1(3) p'(2) by (simp_all add: send_ready_def send_id_ok_def co2_def replay_side_def use_epoch_format_def)
    moreover have "nonce_level s1 co2 = nonce_level s1 co1" using p'(2) by (simp add: nonce_level_def co2_def)
    moreover have "nonce_level s co = 2 ^ 64 - 1" using True co by (simp add: nonce_level_def PACKET_ID_EPOCH_MAX_def)
    ultimately show ?thesis using c1(4) stay
      by (intro exI[of _ co2] exI[of _ s1] exI[of _ "(buf_of p m q)\<lparr>b_len := 0\<rparr>"]) simp
  next
    case False
    then obtain p' pid where p': "packet_id_write_epoch now ?p (word_of_nat s1) (iv_buf ?ivn []) = Some (p', iv_buf ?ivn pid, True)"
      "unat (ps_id p') = unat (ps_id ?p) + 1" "unat (ps_id p') < 2 ^ 48" "length pid = 8" "nat_be pid = s1 * 2 ^ 48 + unat (ps_id p')"
      using w by auto
    have pe: "pid_epoch pid = s1" using p'(3,5) by (simp add: pid_epoch_def)
    define co2 where "co2 = co1\<lparr>co_packet_id := (co_packet_id co1)\<lparr>pi_send := p'\<rparr>\<rparr>"
    have fmt2: "use_epoch_format co2" using fmt replay_side_format[OF keep(1)] by (simp add: co2_def use_epoch_format_def)
    let ?pi = "packet_input B kt Es hdr pid"
    have sk: "same_key (co_encrypt co1) (epoch_ctx B kt (ek_chain B Es (pid_epoch pid - 1)))" unfolding pe by (rule s1(3))
    note iv = combine_iv_packet[OF p'(4) B sk]
    have wr: "buf_write (buf_of wp hdr wq) pid = Some (buf_of wp (hdr @ pid) (drop 8 wq), True)"
      using room p'(4) by (simp add: buf_write_of[OF fits(2)])
    have f2: "buf_fits wp (hdr @ pid) (drop 8 wq)" using fits(2) room p'(4) by (simp add: buf_fits_def)
    define op where "op = \<lparr>ai_cipher = kt_cipher kt, ai_key = ai_key (?pi m), ai_iv = ai_iv (?pi m), ai_ad = [], ai_data = []\<rparr>"
    have opm: "op\<lparr>ai_ad := hdr @ pid, ai_data := m\<rparr> = ?pi m" by (simp add: op_def packet_input_def Let_def)
    have A': "aead_laws A (ai_cipher op) (length (ai_iv op))" using A by (simp add: op_def)
    have room2: "length m + al_block_size A (ai_cipher op) + 16 \<le> length (drop 8 wq)" using room by (simp add: op_def)
    obtain c t b where seal: "sealed A (?pi m) = Some (c, t)" "length c = length m" "length t = 16"
      "aead_seal A (buf_of p m q) (buf_of wp (hdr @ pid) (drop 8 wq)) co2 op =
        Some (co2\<lparr>co_encrypt := (co_encrypt co2)\<lparr>kc_plaintext_blocks := b\<rparr>\<rparr>,
          buf_of wp ((hdr @ pid) @ c @ t) (drop (length m + 16) (drop 8 wq)))"
      using aead_seal_of[OF A' fmt2 fits(1) f2 room2] unfolding opm by blast
    have rs: "al_reset A op" by (rule aead_lawsD(1)[OF A']) simp_all
    define co3 where "co3 = co2\<lparr>co_encrypt := (co_encrypt co2)\<lparr>kc_plaintext_blocks := b\<rparr>\<rparr>"
    define c' where "c' = pid @ c @ t"
    have "openvpn_encrypt_aead B A now (buf_of p m q) (buf_of wp hdr wq) co = aead_seal A (buf_of p m q) (buf_of wp (hdr @ pid) (drop 8 wq)) co2 op"
      by (simp add: openvpn_encrypt_aead_def fmt c1(1) iv[of hdr m] init mn iv0 p'(1,4) es wr rs iv_buf_bytes iv_buf_data
          co2_def[symmetric] op_def[symmetric])
    then have res: "openvpn_encrypt_aead B A now (buf_of p m q) (buf_of wp hdr wq) co = Some (co3, buf_of wp (hdr @ c') (drop (length c') wq))"
      unfolding seal(4) using seal(2,3) p'(4) by (simp add: co3_def c'_def add.commute)
    have "epoch_inv B kt n Es Er d s1 co3" using c1(2) by (simp add: epoch_inv_def co3_def co2_def same_key_def)
    moreover have "send_ready co3"
      using rdy p'(3) fmt2 keep(1) by (simp add: send_ready_def send_id_ok_def co3_def co2_def replay_side_def use_epoch_format_def)
    moreover have "replay_side co3 = replay_side co" "co_decrypt co3 = co_decrypt co"
      using keep by (simp_all add: replay_side_def co3_def co2_def)
    moreover have "nat_be pid = nonce_level s1 co3" "nonce_level s co < nat_be pid"
      using p'(2,5) c1(4) by (simp_all add: nonce_level_def co3_def co2_def)
    moreover have "packet_of B A kt Es hdr pid m = Some c'" using seal(1) by (simp add: packet_of_def c'_def)
    ultimately show ?thesis using res p'(4) stay
      by (intro exI[of _ co3] exI[of _ s1] exI[of _ "buf_of wp (hdr @ c') (drop (length c') wq)"]) auto
  qed
qed

lemma epoch_inv_retiring:
  assumes "epoch_inv B kt n Es Er d s co" "first_epoch_key Er"
  shows "kc_epoch (co_epoch_retiring_data_receive_key co) = 0 \<or> unat (kc_epoch (co_epoch_retiring_data_receive_key co)) < d"
    "kc_epoch (co_decrypt co) = word_of_nat d" "unat (kc_epoch (co_decrypt co)) = d"
proof -
  have d: "1 \<le> d" "d \<le> 65535" using assms(1) by (auto simp: epoch_inv_def)
  show dd: "kc_epoch (co_decrypt co) = word_of_nat d"
    using assms(1) ek_chain_epoch[OF assms(2), of B "d - 1"] d by (auto simp: epoch_inv_def same_key_def)
  show "unat (kc_epoch (co_decrypt co)) = d" unfolding dd using d by (simp add: unat_epoch)
  show "kc_epoch (co_epoch_retiring_data_receive_key co) = 0 \<or> unat (kc_epoch (co_epoch_retiring_data_receive_key co)) < d"
  proof (cases "kc_epoch (co_epoch_retiring_data_receive_key co) = 0")
    case False
    then obtain q where q: "1 \<le> q" "q < d" "same_key (co_epoch_retiring_data_receive_key co) (epoch_ctx B kt (ek_chain B Er (q - 1)))"
      using assms(1) by (auto simp: epoch_inv_def)
    have "kc_epoch (co_epoch_retiring_data_receive_key co) = word_of_nat q"
      using same_key_epoch[OF q(3)] ek_chain_epoch[OF assms(2), of B "q - 1"] q(1) by simp
    then show ?thesis using q d by (simp add: unat_epoch)
  qed simp
qed

section \<open>Replay protection across epochs\<close>

lemma replay_persist_sel [simp]:
  "co_encrypt (replay_persist co) = co_encrypt co" "co_decrypt (replay_persist co) = co_decrypt co"
  "co_packet_id (replay_persist co) = co_packet_id co" "co_flags (replay_persist co) = co_flags co"
  "co_epoch_retiring_data_receive_key (replay_persist co) = co_epoch_retiring_data_receive_key co"
  "co_epoch_retiring_key_pid_recv (replay_persist co) = co_epoch_retiring_key_pid_recv co"
  "epoch_inv B kt n Es Er d s (replay_persist co) = epoch_inv B kt n Es Er d s co"
  by (simp_all add: replay_persist_def epoch_inv_def split: option.splits)

lemma replay_step:
  assumes rel: "window_rel w r S" and par: "rec_params r" and now: "now > 1"
  shows "\<exists>r' ok S'. replay_check now r pin = Some (r', ok) \<and> window_rel w r' S' \<and> rec_params r' \<and>
    (\<forall>y. \<not> spec_fresh S y \<longrightarrow> \<not> spec_fresh S' y) \<and> (ok \<longrightarrow> spec_fresh S (pid_pair pin) \<and> \<not> spec_fresh S' (pid_pair pin)) \<and>
    (pr_time r = 0 \<and> pr_id r < pn_id pin \<and> pn_time pin = 0 \<longrightarrow> ok \<and> pr_time r' = 0 \<and> pr_id r' = pn_id pin)"
proof -
  obtain T M X where S: "S = (T, M, X)" by (cases S) auto
  obtain r' X' ok where c: "replay_check now r pin = Some (r', ok)" "X \<subseteq> X'" "X' \<subseteq> {1..M}"
    "ok = spec_test w (T, M, X') (pid_pair pin)"
    "window_rel w r' (if ok then spec_add (T, M, X') (pid_pair pin) else (T, M, X'))" "pr_time_backtrack r' = pr_time_backtrack r"
    using replay_check_rel[OF rel[unfolded S] now, of pin] by blast
  have par': "rec_params r'"
    using par c(5,6) by (auto simp: rec_params_def window_rel_def rec_ok_def word_le_nat_alt split: prod.splits if_splits)
  have st: "\<not> spec_fresh S y \<Longrightarrow> \<not> spec_fresh (T, M, X') y" for y
    using spec_fresh_mono[OF c(2)] unfolding S by blast
  have TM: "T = pr_time r" "M = unat (pr_id r)" using rel unfolding S window_rel_def by auto
  have top: "pr_time r = 0 \<and> pr_id r < pn_id pin \<and> pn_time pin = 0 \<longrightarrow> ok \<and> pr_time r' = 0 \<and> pr_id r' = pn_id pin"
  proof
    assume t: "pr_time r = 0 \<and> pr_id r < pn_id pin \<and> pn_time pin = 0"
    then have n: "unat (pr_id r) < unat (pn_id pin)" by (simp add: word_less_nat_alt)
    then have ok using c(4) TM t by (auto simp: spec_test_def pid_pair_def)
    moreover have "window_rel w r' (0, unat (pn_id pin), insert (unat (pn_id pin)) X')"
      using c(5) \<open>ok\<close> TM t n by (simp add: spec_add_def pid_pair_def max_def)
    then have "pr_time r' = 0" "unat (pr_id r') = unat (pn_id pin)" by (auto simp: window_rel_def)
    ultimately show "ok \<and> pr_time r' = 0 \<and> pr_id r' = pn_id pin" by (simp add: word_unat_eq_iff)
  qed
  show ?thesis
  proof (cases ok)
    case False
    then show ?thesis using c(1,5) par' st top by auto
  next
    case True
    then have t: "spec_test w (T, M, X') (pid_pair pin)" using c(4) by simp
    have "spec_fresh S (pid_pair pin)" using spec_test_fresh[OF c(3) t] st by blast
    then show ?thesis using c(1,5) par' st top spec_add_stale[OF _ t] spec_add_fresh[OF t] True
      by (intro exI[of _ r'] exI[of _ True] exI[of _ "spec_add (T, M, X') (pid_pair pin)"]) auto
  qed
qed

text \<open>\<open>seen\<close> holds the pairs of epoch and counter accepted so far, \<open>w\<close> is the width of the window.\<close>

definition win_of :: "nat \<Rightarrow> packet_id_rec \<Rightarrow> nat \<Rightarrow> (nat \<times> nat) set \<Rightarrow> bool" where
  "win_of w r e seen \<longleftrightarrow> rec_params r \<and> (\<exists>S. window_rel w r S \<and> (\<forall>i. (e, i) \<in> seen \<longrightarrow> \<not> spec_fresh S (0, i)))"

definition win_inv :: "nat \<Rightarrow> nat \<Rightarrow> crypto_options \<Rightarrow> (nat \<times> nat) set \<Rightarrow> bool" where
  "win_inv w d co seen \<longleftrightarrow> win_of w (pi_rec (co_packet_id co)) d seen \<and>
     (kc_epoch (co_epoch_retiring_data_receive_key co) = 0 \<or>
      win_of w (co_epoch_retiring_key_pid_recv co) (unat (kc_epoch (co_epoch_retiring_data_receive_key co))) seen) \<and>
     (\<forall>(e, i) \<in> seen. e \<le> d)"

text \<open>The highest counter received in the epoch \<open>e\<close> in use is \<open>i\<close>, and no packet failed.\<close>

definition in_line :: "nat \<Rightarrow> nat \<Rightarrow> crypto_options \<Rightarrow> bool" where
  "in_line e i co \<longleftrightarrow> unat (kc_epoch (co_decrypt co)) = e \<and> pr_time (pi_rec (co_packet_id co)) = 0 \<and>
     unat (pr_id (pi_rec (co_packet_id co))) = i \<and> kc_failed_verifications (co_decrypt co) = 0"

lemma in_line_persist [simp]: "in_line e i (replay_persist co) = in_line e i co"
  by (simp add: in_line_def)

lemma win_inv_persist [simp]: "win_inv w d (replay_persist co) seen = win_inv w d co seen"
  by (simp add: win_inv_def)

lemma win_of_insert: "e \<noteq> e' \<Longrightarrow> win_of w r e (insert (e', i) seen) = win_of w r e seen"
  by (simp add: win_of_def)

lemma win_of_check:
  assumes win: "win_of w r e seen" and now: "now > 1"
  shows "\<exists>r' ok. replay_check now r \<lparr>pn_id = i, pn_time = 0\<rparr> = Some (r', ok) \<and>
    win_of w r' e (if ok then insert (e, unat i) seen else seen) \<and> (ok \<longrightarrow> (e, unat i) \<notin> seen) \<and>
    (pr_time r = 0 \<and> pr_id r < i \<longrightarrow> ok \<and> pr_time r' = 0 \<and> pr_id r' = i)"
proof -
  let ?pin = "\<lparr>pn_id = i, pn_time = 0\<rparr>"
  obtain S where S: "window_rel w r S" "\<forall>j. (e, j) \<in> seen \<longrightarrow> \<not> spec_fresh S (0, j)" "rec_params r"
    using win unfolding win_of_def by blast
  obtain r' ok S' where r: "replay_check now r ?pin = Some (r', ok)" "window_rel w r' S'" "rec_params r'"
    "\<forall>y. \<not> spec_fresh S y \<longrightarrow> \<not> spec_fresh S' y" "ok \<longrightarrow> spec_fresh S (pid_pair ?pin) \<and> \<not> spec_fresh S' (pid_pair ?pin)"
    "pr_time r = 0 \<and> pr_id r < i \<longrightarrow> ok \<and> pr_time r' = 0 \<and> pr_id r' = i"
    using replay_step[OF S(1,3) now, of ?pin, unfolded packet_id_net.select_convs] by blast
  have pp: "pid_pair ?pin = (0, unat i)" by (simp add: pid_pair_def)
  have "\<forall>j. (e, j) \<in> (if ok then insert (e, unat i) seen else seen) \<longrightarrow> \<not> spec_fresh S' (0, j)"
    using S(2) r(4,5) unfolding pp by (cases ok) auto
  then have "win_of w r' e (if ok then insert (e, unat i) seen else seen)" unfolding win_of_def using r(2,3) by blast
  moreover have "ok \<longrightarrow> (e, unat i) \<notin> seen" using S(2) r(5) unfolding pp by blast
  ultimately show ?thesis using r(1,6) by blast
qed

lemma move_recv_window:
  assumes rel: "window_rel w r S" and par: "rec_params r" and mv: "packet_id_move_recv dest r = Some (a, b)"
  shows "a = r" "window_rel w b (0, 0, {})"
proof -
  have w: "unat (pr_seq_backtrack r) = w" "0 < w" "w \<le> 65536"
    using rel by (auto simp: window_rel_def rec_ok_def split: prod.splits)
  have sq: "sint (ucast (pr_seq_backtrack r) :: u32) = int w"
  proof -
    have "uint (ucast (pr_seq_backtrack r) :: u32) = int w"
      using w by (simp add: uint_nat unsigned_ucast_eq take_bit_nat_eq_self)
    then show ?thesis using w by (simp add: sint_uint signed_take_bit_int_eq_self)
  qed
  obtain p where p: "packet_id_init (int w) (pr_time_backtrack r) (pr_name r) (pr_unit r) = Some p" "window_rel w (pi_rec p) (0, 0, {})"
    using packet_id_init_rel[OF w(2,3)] par unfolding rec_params_def by blast
  then have "packet_id_init_recv clear_rec (int w) (pr_time_backtrack r) (pr_name r) (pr_unit r) = Some (pi_rec p)"
    by (auto simp: packet_id_init_def bind_eq_Some_iff)
  then have "a = r \<and> b = pi_rec p" using mv by (auto simp: packet_id_move_recv_def sq)
  then show "a = r" "window_rel w b (0, 0, {})" using p(2) by simp_all
qed

lemma replay_current_step:
  assumes E: "first_epoch_key Er" and inv: "epoch_inv B kt n Es Er d s co" and win: "win_inv w d co seen" and now: "now > 1"
  shows "\<exists>co' ok. replay_current now co \<lparr>pn_id = i, pn_time = 0\<rparr> = Some (co', ok) \<and>
    co_flags co' = co_flags co \<and> co_encrypt co' = co_encrypt co \<and> pi_send (co_packet_id co') = pi_send (co_packet_id co) \<and>
    epoch_inv B kt n Es Er d s co' \<and> win_inv w d co' (if ok then insert (d, unat i) seen else seen) \<and>
    (ok \<longrightarrow> (d, unat i) \<notin> seen) \<and> (in_line e j co \<and> j < unat i \<longrightarrow> ok \<and> in_line e (unat i) co')"
proof -
  have wi: "win_of w (pi_rec (co_packet_id co)) d seen" using win by (simp add: win_inv_def)
  obtain r ok where r: "replay_check now (pi_rec (co_packet_id co)) \<lparr>pn_id = i, pn_time = 0\<rparr> = Some (r, ok)"
    "win_of w r d (if ok then insert (d, unat i) seen else seen)" "ok \<longrightarrow> (d, unat i) \<notin> seen"
    "pr_time (pi_rec (co_packet_id co)) = 0 \<and> pr_id (pi_rec (co_packet_id co)) < i \<longrightarrow> ok \<and> pr_time r = 0 \<and> pr_id r = i"
    using win_of_check[OF wi now, of i] by blast
  define co' where "co' = co\<lparr>co_packet_id := (co_packet_id co)\<lparr>pi_rec := r\<rparr>\<rparr>"
  have "rec_params r" using r(2) by (simp add: win_of_def)
  then have "epoch_inv B kt n Es Er d s co'" using inv by (simp add: epoch_inv_def co'_def)
  moreover have "win_inv w d co' (if ok then insert (d, unat i) seen else seen)"
  proof -
    have "win_of w (co_epoch_retiring_key_pid_recv co) (unat (kc_epoch (co_epoch_retiring_data_receive_key co))) seen \<longrightarrow>
        kc_epoch (co_epoch_retiring_data_receive_key co) = 0 \<or>
        win_of w (co_epoch_retiring_key_pid_recv co) (unat (kc_epoch (co_epoch_retiring_data_receive_key co)))
          (if ok then insert (d, unat i) seen else seen)"
      using epoch_inv_retiring(1)[OF inv E] win_of_insert by auto
    then show ?thesis using win r(2) by (auto simp: win_inv_def co'_def)
  qed
  moreover have "in_line e j co \<and> j < unat i \<longrightarrow> ok \<and> in_line e (unat i) co'"
    using r(4) by (auto simp: in_line_def co'_def word_less_nat_alt)
  ultimately show ?thesis using r(1,3) by (intro exI[of _ co'] exI[of _ ok]) (simp add: replay_current_def co'_def)
qed

text \<open>The whole check, for a packet of an epoch for which a key was found.\<close>

lemma crypto_check_replay_step:
  assumes B: "backend_ok B kt" and E: "first_epoch_key Es" "first_epoch_key Er"
    and inv: "epoch_inv B kt n Es Er d s co" and win: "win_inv w d co seen" and now: "now > 1"
    and e: "e \<noteq> 0" and l: "epoch_lookup_decrypt_key co e = Some sl" and id: "send_id_ok co"
  shows "\<exists>co' d' s' ok. crypto_check_replay B now co \<lparr>pn_id = i, pn_time = 0\<rparr> e = Some (co', ok) \<and>
    co_flags co' = co_flags co \<and> send_id_ok co' \<and> nonce_level s co \<le> nonce_level s' co' \<and>
    epoch_inv B kt n Es Er d' s' co' \<and> win_inv w d' co' (if ok then insert (unat e, unat i) seen else seen) \<and>
    (ok \<longrightarrow> (unat e, unat i) \<notin> seen) \<and> (in_line (unat e) j co \<and> j < unat i \<longrightarrow> ok \<and> in_line (unat e) (unat i) co')"
proof -
  have en: "e = word_of_nat (unat e)" "1 \<le> unat e" "unat e \<le> 65535"
    using e unat_less_2p[of e] by (auto simp: unat_gt_0 Suc_le_eq)
  note ret = epoch_inv_retiring[OF inv E(2)]
  let ?pin = "\<lparr>pn_id = i, pn_time = 0\<rparr>"
  show ?thesis
  proof (cases "kc_epoch (co_decrypt co) = e")
    case True
    then have d: "d = unat e" using ret(3) by simp
    obtain co1 ok where c: "replay_current now co ?pin = Some (co1, ok)" "co_flags co1 = co_flags co"
      "co_encrypt co1 = co_encrypt co" "pi_send (co_packet_id co1) = pi_send (co_packet_id co)"
      "epoch_inv B kt n Es Er d s co1" "win_inv w d co1 (if ok then insert (d, unat i) seen else seen)" "ok \<longrightarrow> (d, unat i) \<notin> seen"
      "in_line (unat e) j co \<and> j < unat i \<longrightarrow> ok \<and> in_line (unat e) (unat i) co1"
      using replay_current_step[OF E(2) inv win now, of i "unat e" j] by blast
    define co2 where "co2 = (if ok then replay_persist co1 else co1)"
    have "crypto_check_replay B now co ?pin e = Some (co2, ok)" using True c(1) by (simp add: crypto_check_replay_def co2_def)
    then show ?thesis using c d id
      by (intro exI[of _ co2] exI[of _ d] exI[of _ s] exI[of _ ok]) (auto simp: co2_def send_id_ok_def nonce_level_def win_inv_def)
  next
    case ne: False
    have vac: "\<not> in_line (unat e) k co" for k using ne by (simp add: in_line_def word_unat_eq_iff)
    show ?thesis
    proof (cases "e = kc_epoch (co_epoch_retiring_data_receive_key co)")
      case True
      then have wi: "win_of w (co_epoch_retiring_key_pid_recv co) (unat e) seen" and lt: "unat e < d"
        using win e ret(1) by (auto simp: win_inv_def)
      obtain r ok where r: "replay_check now (co_epoch_retiring_key_pid_recv co) ?pin = Some (r, ok)"
        "win_of w r (unat e) (if ok then insert (unat e, unat i) seen else seen)" "ok \<longrightarrow> (unat e, unat i) \<notin> seen"
        using win_of_check[OF wi now, of i] by blast
      define co1 where "co1 = co\<lparr>co_epoch_retiring_key_pid_recv := r\<rparr>"
      define co2 where "co2 = (if ok then replay_persist co1 else co1)"
      have "crypto_check_replay B now co ?pin e = Some (co2, ok)"
        using ne True e r(1) by (simp add: crypto_check_replay_def co2_def co1_def)
      moreover have "epoch_inv B kt n Es Er d s co1" using inv by (simp add: co1_def epoch_inv_def)
      then have "epoch_inv B kt n Es Er d s co2" by (simp add: co2_def)
      moreover have "win_inv w d co2 (if ok then insert (unat e, unat i) seen else seen)"
        using win r(2) lt True by (auto simp: win_inv_def co2_def co1_def win_of_insert)
      ultimately show ?thesis using r(3) id vac
        by (intro exI[of _ co2] exI[of _ d] exI[of _ s] exI[of _ ok]) (auto simp: co2_def co1_def send_id_ok_def nonce_level_def)
    next
      case False
      then obtain k where sl: "sl = Slot_Future k" using l ne e by (auto simp: epoch_lookup_decrypt_key_def Let_def split: if_splits)
      have k: "k < n" "unat e = d + 1 + k" "d + 1 + k + n \<le> 65534"
        using epoch_lookup_key(2)[OF inv E(2) en(2,3), of sl k] l sl en(1) by auto
      obtain co1 where c1: "epoch_replace_update_recv_key B co e = Some co1"
        "epoch_inv B kt n Es Er (d + 1 + k) (max s (d + 1 + k)) co1"
        "co_epoch_retiring_data_receive_key co1 = co_decrypt co" "co_epoch_retiring_key_pid_recv co1 = pi_rec (co_packet_id co)"
        "packet_id_move_recv (co_epoch_retiring_key_pid_recv co) (pi_rec (co_packet_id co)) = Some (pi_rec (co_packet_id co), pi_rec (co_packet_id co1))"
        "co_flags co1 = co_flags co"
        "if d + 1 + k \<le> s then co_encrypt co1 = co_encrypt co \<and> pi_send (co_packet_id co1) = pi_send (co_packet_id co)
          else ps_id (pi_send (co_packet_id co1)) = 0"
        using epoch_replace_inv[OF B E inv k(1,3)] k(2) en(1) by metis
      have win1: "win_inv w (d + 1 + k) co1 seen"
      proof -
        obtain S where S: "window_rel w (pi_rec (co_packet_id co)) S" "rec_params (pi_rec (co_packet_id co))"
          using win by (auto simp: win_inv_def win_of_def)
        have "window_rel w (pi_rec (co_packet_id co1)) (0, 0, {})" by (rule move_recv_window(2)[OF S c1(5)])
        moreover have "rec_params (pi_rec (co_packet_id co1))" using c1(2) by (simp add: epoch_inv_def)
        moreover have "(d + 1 + k, x) \<notin> seen" for x using win by (auto simp: win_inv_def)
        ultimately have "win_of w (pi_rec (co_packet_id co1)) (d + 1 + k) seen" unfolding win_of_def by blast
        then show ?thesis using win c1(3,4) ret(3) by (auto simp: win_inv_def)
      qed
      have lv: "send_id_ok co1" "nonce_level s co \<le> nonce_level (max s (d + 1 + k)) co1"
        using epoch_replace_level[OF id c1(7)] by simp_all
      obtain co2 ok where c: "replay_current now co1 ?pin = Some (co2, ok)" "co_flags co2 = co_flags co1"
        "co_encrypt co2 = co_encrypt co1" "pi_send (co_packet_id co2) = pi_send (co_packet_id co1)"
        "epoch_inv B kt n Es Er (d + 1 + k) (max s (d + 1 + k)) co2"
        "win_inv w (d + 1 + k) co2 (if ok then insert (d + 1 + k, unat i) seen else seen)" "ok \<longrightarrow> (d + 1 + k, unat i) \<notin> seen"
        using replay_current_step[OF E(2) c1(2) win1 now, of i] by blast
      define co3 where "co3 = (if ok then replay_persist co2 else co2)"
      have "crypto_check_replay B now co ?pin e = Some (co3, ok)"
        using ne False e c1(1) c(1) by (simp add: crypto_check_replay_def co3_def)
      moreover have "send_id_ok co3" "nonce_level s co \<le> nonce_level (max s (d + 1 + k)) co3"
        using lv c(4) by (simp_all add: co3_def send_id_ok_def nonce_level_def)
      moreover have "win_inv w (d + 1 + k) co3 (if ok then insert (d + 1 + k, unat i) seen else seen)"
        using c(6) by (cases ok) (simp_all add: co3_def)
      moreover have "epoch_inv B kt n Es Er (d + 1 + k) (max s (d + 1 + k)) co3" "co_flags co3 = co_flags co"
        using c(2,5) c1(6) by (simp_all add: co3_def)
      ultimately show ?thesis using c(7) vac unfolding k(2)[symmetric] by blast
    qed
  qed
qed

section \<open>One packet opened\<close>

lemma buf_load_at: "i + n \<le> length (p @ c @ q) \<Longrightarrow> buf_load (buf_of p c q) (int i) (int n) = Some (take n (drop i (p @ c @ q)))"
  by (simp add: buf_load_def mem_read_def)

lemma slot_failed_inv:
  assumes inv: "epoch_inv B kt n Es Er d s co" and i: "\<And>i. sl = Slot_Future i \<Longrightarrow> i < n"
  shows "epoch_inv B kt n Es Er d s (slot_failed co sl)" "win_inv w d (slot_failed co sl) seen = win_inv w d co seen"
    "co_flags (slot_failed co sl) = co_flags co" "send_id_ok (slot_failed co sl) = send_id_ok co"
    "nonce_level s (slot_failed co sl) = nonce_level s co"
proof -
  have k: "same_key (count_failure a) b = same_key a b" "kc_epoch (count_failure a) = kc_epoch a" for a b
    by (simp_all add: same_key_def count_failure_def)
  show "epoch_inv B kt n Es Er d s (slot_failed co sl)"
    using inv i unfolding epoch_inv_def by (cases sl) (auto simp: slot_failed_def k nth_list_update)
  show "win_inv w d (slot_failed co sl) seen = win_inv w d co seen" by (cases sl) (simp_all add: slot_failed_def win_inv_def k)
  show "co_flags (slot_failed co sl) = co_flags co" "send_id_ok (slot_failed co sl) = send_id_ok co"
    "nonce_level s (slot_failed co sl) = nonce_level s co"
    by (cases sl; simp add: slot_failed_def send_id_ok_def nonce_level_def)+
qed

lemma blocks_inv:
  "epoch_inv B kt n Es Er d s (co\<lparr>co_decrypt := (co_decrypt co)\<lparr>kc_plaintext_blocks := x\<rparr>\<rparr>) = epoch_inv B kt n Es Er d s co"
  "win_inv w d (co\<lparr>co_decrypt := (co_decrypt co)\<lparr>kc_plaintext_blocks := x\<rparr>\<rparr>) seen = win_inv w d co seen"
  by (simp_all add: epoch_inv_def win_inv_def same_key_def)

text \<open>What the receiver knows after a packet: \<open>res\<close> and \<open>ok\<close> are what the code returns; \<open>must\<close> says that
  it cannot refuse.\<close>

definition received ::
  "crypto_backend \<Rightarrow> aead_lib \<Rightarrow> key_type \<Rightarrow> nat \<Rightarrow> epoch_key \<Rightarrow> epoch_key \<Rightarrow> nat \<Rightarrow> nat \<Rightarrow> crypto_options \<Rightarrow> (nat \<times> nat) set \<Rightarrow>
   byte list \<Rightarrow> byte list \<Rightarrow> bool \<Rightarrow> (crypto_options \<times> buffer \<times> bool) option \<Rightarrow> bool" where
  "received B A kt n Es Er w s co seen hdr c must out \<longleftrightarrow> (\<exists>co' d' s' res ok. out = Some (co', res, ok) \<and>
     co_flags co' = co_flags co \<and> send_id_ok co' \<and> nonce_level s co \<le> nonce_level s' co' \<and> epoch_inv B kt n Es Er d' s' co' \<and>
     win_inv w d' co' (if ok then insert (pid_epoch (take 8 c), pid_counter (take 8 c)) seen else seen) \<and>
     (if ok then 25 \<le> length c \<and> (pid_epoch (take 8 c), pid_counter (take 8 c)) \<notin> seen \<and>
         packet_plain B A kt Er hdr c = Some (buf_content res)
      else b_len res = 0) \<and>
     (must \<longrightarrow> ok \<and> in_line (pid_epoch (take 8 c)) (pid_counter (take 8 c)) co'))"

lemma received_drop:
  assumes "epoch_inv B kt n Es Er d s co" "win_inv w d co seen" "send_id_ok co" "\<not> must"
  shows "received B A kt n Es Er w s co seen hdr c must (Some (co, b\<lparr>b_len := 0\<rparr>, False))"
  using assms unfolding received_def by (intro exI[of _ co] exI[of _ d] exI[of _ s] exI[of _ "b\<lparr>b_len := 0\<rparr>"] exI[of _ False]) simp

text \<open>A packet that is the next one, opens, and has room in the work buffer.\<close>

definition next_packet :: "crypto_backend \<Rightarrow> aead_lib \<Rightarrow> key_type \<Rightarrow> epoch_key \<Rightarrow> crypto_options \<Rightarrow> byte list \<Rightarrow> byte list \<Rightarrow> nat \<Rightarrow> bool" where
  "next_packet B A kt Er co hdr c room \<longleftrightarrow> 25 \<le> length c \<and> packet_plain B A kt Er hdr c \<noteq> None \<and>
     length c + al_block_size A (kt_cipher kt) \<le> room \<and> (\<exists>j. in_line (pid_epoch (take 8 c)) j co \<and> j < pid_counter (take 8 c))"

lemma aead_open_step:
  assumes B: "backend_ok B kt" and E: "first_epoch_key Es" "first_epoch_key Er"
    and inv: "epoch_inv B kt n Es Er d s co" and win: "win_inv w d co seen" and now: "now > 1" and id: "send_id_ok co"
    and A: "aead_laws A (kt_cipher kt) (cb_iv_size B (kt_cipher kt))" and fmt: "use_epoch_format co"
    and c: "25 \<le> length c" and a: "a \<le> length p" and fits: "buf_fits p c q" "buf_fits wp [] wq"
    and l: "epoch_lookup_decrypt_key co e = Some sl" and e: "unat e = pid_epoch (take 8 c)" "e \<noteq> 0"
    and i: "unat i = pid_counter (take 8 c)"
  shows "received B A kt n Es Er w s co seen (drop a p) c (next_packet B A kt Er co (drop a p) c (length wq))
    (aead_open B A now (buf_of (p @ take 8 c) (drop 8 c) q) (buf_of wp [] wq) co (int a) (cb_iv_size B (kt_cipher kt))
      (\<lparr>pn_id = i, pn_time = 0\<rparr>, e, sl, take 8 c @ replicate 8 0))"
proof -
  let ?pid = "take 8 c" and ?buf = "buf_of (p @ take 8 c) (drop 8 c) q" and ?pin = "\<lparr>pn_id = i, pn_time = 0\<rparr>"
  define data where "data = take (length c - 24) (drop 8 c)"
  define tag where "tag = drop (length c - 16) c"
  let ?op = "packet_input B kt Er (drop a p) ?pid data"
  have en: "e = word_of_nat (unat e)" "1 \<le> unat e" "unat e \<le> 65535"
    using e(2) unat_less_2p[of e] by (auto simp: unat_gt_0 Suc_le_eq)
  have sl: "slot_ctx co sl = Some (slot_key co sl)" and fut: "\<And>j. sl = Slot_Future j \<Longrightarrow> j < n"
    "same_key (slot_key co sl) (epoch_ctx B kt (ek_chain B Er (pid_epoch ?pid - 1)))"
  proof -
    show f: "\<And>j. sl = Slot_Future j \<Longrightarrow> j < n" using epoch_lookup_key(2)[OF inv E(2) en(2,3), of sl] l en(1) by simp
    show "same_key (slot_key co sl) (epoch_ctx B kt (ek_chain B Er (pid_epoch ?pid - 1)))"
      using epoch_lookup_key(1)[OF inv E(2) en(2,3), of sl] l en(1) e(1) by simp
    show "slot_ctx co sl = Some (slot_key co sl)"
      using f inv by (cases sl) (auto simp: slot_ctx_def slot_key_def epoch_inv_def)
  qed
  have pid: "length ?pid = 8" using c by simp
  note iv = combine_iv_packet[OF pid B fut(2)]
  have rs: "al_reset A \<lparr>ai_cipher = kt_cipher kt, ai_key = ai_key ?op, ai_iv = ai_iv ?op, ai_ad = [], ai_data = []\<rparr>"
    by (rule aead_lawsD(1)[OF A]) simp_all
  have ua: "al_update_ad A \<lparr>ai_cipher = kt_cipher kt, ai_key = ai_key ?op, ai_iv = ai_iv ?op, ai_ad = drop a p @ ?pid, ai_data = []\<rparr>"
    by (rule aead_lawsD(2)[OF A]) simp_all
  have op: "\<lparr>ai_cipher = kt_cipher kt, ai_key = ai_key ?op, ai_iv = ai_iv ?op, ai_ad = drop a p @ ?pid, ai_data = data\<rparr> = ?op"
    by (simp add: packet_input_def Let_def)
  define P where "P = p @ take 8 c"
  define c' where "c' = drop 8 c"
  have len: "length P = length p + 8" "length c = length c' + 8" "17 \<le> length c'" using c by (simp_all add: P_def c'_def)
  have D: "P @ c' @ q = p @ c @ q" by (simp add: P_def c'_def)
  have ad: "buf_load (buf_of P c' q) (int a) (int (length P) - int a) = Some (drop a p @ ?pid)"
    using buf_load_at[of a "length P - a" P c' q] a c len unfolding D by (simp add: of_nat_diff)
  have dt: "buf_load (buf_of P c' q) (int (length P)) (int (length c') - 16) = Some data"
    using buf_load_at[of "length P" "length c' - 16" P c' q] len unfolding D by (simp add: of_nat_diff data_def)
  have tg: "buf_load (buf_of P c' q) (int (length P) + (int (length c') - 16)) 16 = Some tag"
    using buf_load_at[of "length P + (length c' - 16)" 16 P c' q] len unfolding D
    by (simp add: of_nat_diff tag_def)
  have open_eq: "aead_open B A now (buf_of P c' q) (buf_of wp [] wq) co (int a) (cb_iv_size B (kt_cipher kt)) (?pin, e, sl, ?pid @ replicate 8 0) =
    (if \<not> buf_safe (buf_of wp [] wq) (to_size_t (int (length c') + int (al_block_size A (kt_cipher kt)))) then Some (co, (buf_of P c' q)\<lparr>b_len := 0\<rparr>, False)
     else case al_decrypt A ?op of
        None \<Rightarrow> Some (co, (buf_of P c' q)\<lparr>b_len := 0\<rparr>, False)
      | Some out \<Rightarrow> do {
          work \<leftarrow> buf_put_end (buf_of wp [] wq) out;
          case al_check_tag A ?op tag of
            None \<Rightarrow> Some (slot_failed co sl, (buf_of P c' q)\<lparr>b_len := 0\<rparr>, False)
          | Some out \<Rightarrow> do {
              work \<leftarrow> buf_put_end work out;
              (opt, ok) \<leftarrow> crypto_check_replay B now co ?pin e;
              if \<not> ok then Some (opt, (buf_of P c' q)\<lparr>b_len := 0\<rparr>, False)
              else Some (opt\<lparr>co_decrypt := (co_decrypt opt)\<lparr>kc_plaintext_blocks :=
                     kc_plaintext_blocks (co_decrypt opt) + aead_blocks (buf_len work)\<rparr>\<rparr>, work, True) } })"
    by (simp only: aead_open_def Let_def prod.case sl bind.bind_lunit iv[of "drop a p" data] rs ua op fmt OPENVPN_AEAD_TAG_LENGTH_def
        buf_of_obs buf_of_sel not_True_eq_False if_False if_True of_nat_numeral ad dt tg option.case bind_cassert
        aead_input.update_convs aead_input.select_convs)
  let ?must = "next_packet B A kt Er co (drop a p) c (length wq)"
  note drop_it = received_drop[OF inv win id, of ?must A "drop a p" c "buf_of P c' q"]
  have pl: "packet_plain B A kt Er (drop a p) c = opened A ?op tag" by (simp add: packet_plain_def data_def tag_def)
  have "received B A kt n Es Er w s co seen (drop a p) c ?must
    (aead_open B A now (buf_of P c' q) (buf_of wp [] wq) co (int a) (cb_iv_size B (kt_cipher kt)) (?pin, e, sl, ?pid @ replicate 8 0))"
  proof (cases "buf_safe (buf_of wp [] wq) (to_size_t (int (length c') + int (al_block_size A (kt_cipher kt)))) \<and> al_decrypt A ?op \<noteq> None")
    case False
    have "\<not> ?must"
    proof
      assume m: ?must
      then have "length c' + al_block_size A (kt_cipher kt) \<le> length wq" "opened A ?op tag \<noteq> None"
        using len(2) by (simp_all add: next_packet_def pl)
      moreover from this have "length c' + al_block_size A (kt_cipher kt) < 1000000" using fits(2) by (simp add: buf_fits_def BUF_SIZE_MAX_def)
      ultimately show False using False to_size_t_nat[of "length c' + al_block_size A (kt_cipher kt)"]
        by (auto simp: buf_safe_of[OF fits(2)] BUF_SIZE_MAX_def opened_def)
    qed
    then show ?thesis unfolding open_eq using drop_it False by auto
  next
    case True
    then obtain o1 where o1: "al_decrypt A ?op = Some o1" by blast
    have "length o1 \<le> length data" by (rule aead_lawsD(3)[OF A _ _ o1, simplified])
    moreover have room: "length c' \<le> length wq"
    proof -
      have "length c' + al_block_size A (kt_cipher kt) < 2 ^ 64"
        using fits(1) len A by (simp add: buf_fits_def BUF_SIZE_MAX_def aead_laws_def)
      then show ?thesis using True to_size_t_nat[of "length c' + al_block_size A (kt_cipher kt)"] by (simp add: buf_safe_of[OF fits(2)])
    qed
    moreover have dl: "length data \<le> length c'" by (simp add: data_def c'_def)
    ultimately have p1: "buf_put_end (buf_of wp [] wq) o1 = Some (buf_of wp o1 (drop (length o1) wq))"
      using buf_put_end_of[OF fits(2), of o1] by simp
    have f1: "buf_fits wp o1 (drop (length o1) wq)" using fits(2) \<open>length o1 \<le> length data\<close> room dl by (simp add: buf_fits_def)
    show ?thesis
    proof (cases "al_check_tag A ?op tag")
      case None
      have nm: "\<not> ?must" using None o1 by (simp add: next_packet_def pl opened_def)
      have "received B A kt n Es Er w s co seen (drop a p) c ?must (Some (slot_failed co sl, (buf_of P c' q)\<lparr>b_len := 0\<rparr>, False))"
        using slot_failed_inv[OF inv fut(1)] inv win id nm unfolding received_def
        by (intro exI[of _ "slot_failed co sl"] exI[of _ d] exI[of _ s] exI[of _ "(buf_of P c' q)\<lparr>b_len := 0\<rparr>"] exI[of _ False]) simp
      then show ?thesis unfolding open_eq using True o1 p1 None by simp
    next
      case (Some o2)
      have opn: "opened A ?op tag = Some (o1 @ o2)" using o1 Some by (simp add: opened_def)
      have "length (o1 @ o2) \<le> length data" using aead_lawsD(4)[OF A _ _ opn] by simp
      then have p2: "buf_put_end (buf_of wp o1 (drop (length o1) wq)) o2 = Some (buf_of wp (o1 @ o2) (drop (length (o1 @ o2)) wq))"
        using buf_put_end_of[OF f1, of o2] room dl by (simp add: add.commute)
      have pl: "packet_plain B A kt Er (drop a p) c = Some (o1 @ o2)" using opn pl by simp
      obtain co1 d1 s1 ok where k: "crypto_check_replay B now co ?pin e = Some (co1, ok)" "co_flags co1 = co_flags co" "send_id_ok co1"
        "nonce_level s co \<le> nonce_level s1 co1" "epoch_inv B kt n Es Er d1 s1 co1"
        "win_inv w d1 co1 (if ok then insert (unat e, unat i) seen else seen)" "ok \<longrightarrow> (unat e, unat i) \<notin> seen"
        "?must \<longrightarrow> ok \<and> in_line (unat e) (unat i) co1"
      proof (cases ?must)
        case True
        then obtain j where "in_line (unat e) j co" "j < unat i" unfolding e(1) i next_packet_def by blast
        then show ?thesis using that crypto_check_replay_step[OF B E inv win now e(2) l id, of i j] by blast
      next
        case False
        then show ?thesis using that crypto_check_replay_step[OF B E inv win now e(2) l id, of i] by blast
      qed
      show ?thesis
      proof (cases ok)
        case False
        then have "received B A kt n Es Er w s co seen (drop a p) c ?must (Some (co1, (buf_of P c' q)\<lparr>b_len := 0\<rparr>, False))"
          using k unfolding received_def
          by (intro exI[of _ co1] exI[of _ d1] exI[of _ s1] exI[of _ "(buf_of P c' q)\<lparr>b_len := 0\<rparr>"] exI[of _ False]) simp
        then show ?thesis unfolding open_eq using True o1 p1 Some p2 k(1) False by simp
      next
        case True
        define co2 where "co2 = co1\<lparr>co_decrypt := (co_decrypt co1)\<lparr>kc_plaintext_blocks :=
          kc_plaintext_blocks (co_decrypt co1) + aead_blocks (int (length (o1 @ o2)))\<rparr>\<rparr>"
        have "epoch_inv B kt n Es Er d1 s1 co2" "win_inv w d1 co2 (insert (unat e, unat i) seen)"
          using k(5,6) True unfolding co2_def blocks_inv by simp_all
        moreover have "?must \<longrightarrow> in_line (pid_epoch (take 8 c)) (pid_counter (take 8 c)) co2"
          using k(8) unfolding e(1)[symmetric] i[symmetric] by (simp add: in_line_def co2_def)
        ultimately have "received B A kt n Es Er w s co seen (drop a p) c ?must (Some (co2, buf_of wp (o1 @ o2) (drop (length (o1 @ o2)) wq), True))"
          using k(2-4,7) True c pl e(1) i unfolding received_def
          by (intro exI[of _ co2] exI[of _ d1] exI[of _ s1] exI[of _ "buf_of wp (o1 @ o2) (drop (length (o1 @ o2)) wq)"] exI[of _ True])
            (simp add: co2_def send_id_ok_def nonce_level_def)
        then show ?thesis unfolding open_eq using \<open>_ \<and> al_decrypt A ?op \<noteq> None\<close> o1 p1 Some p2 k(1) True by (simp add: co2_def)
      qed
    qed
  qed
  then show ?thesis by (simp only: P_def c'_def)
qed

lemma decrypt_aead_step:
  assumes B: "backend_ok B kt" and E: "first_epoch_key Es" "first_epoch_key Er"
    and inv: "epoch_inv B kt n Es Er d s co" and win: "win_inv w d co seen" and now: "now > 1" and id: "send_id_ok co"
    and A: "aead_laws A (kt_cipher kt) (cb_iv_size B (kt_cipher kt))" and fmt: "use_epoch_format co"
    and c: "c \<noteq> []" and a: "a \<le> length p" and fits: "buf_fits p c q" "buf_fits wp wc wq"
    and h: "h \<le> length wp + length wc + length wq"
  shows "received B A kt n Es Er w s co seen (drop a p) c
    (next_packet B A kt Er co (drop a p) c (length wp + length wc + length wq - h))
    (openvpn_decrypt_aead B A now (buf_of p c q) (buf_of wp wc wq) co (int h) (int a))"
proof -
  let ?must = "next_packet B A kt Er co (drop a p) c (length wp + length wc + length wq - h)"
  note drop_it = received_drop[OF inv win id, of ?must A "drop a p" c]
  obtain key where ck: "kc_cipher (co_decrypt co) = Some (kt_cipher kt, key)"
    using inv by (auto simp: epoch_inv_def same_key_def epoch_ctx_def Let_def)
  have init: "packet_id_initialized (co_packet_id co)"
    using win by (auto simp: win_inv_def win_of_def window_rel_def rec_ok_def packet_id_initialized_def split: prod.splits)
  define W where "W = wp @ wc @ wq"
  have hW: "h \<le> length W" using h by (simp add: W_def)
  have work: "buf_init (buf_of wp wc wq) (int h) = (buf_of (take h W) [] (drop h W), True)"
    using hW by (simp add: buf_init_of W_def)
  have wf: "buf_fits (take h W) [] (drop h W)" using fits(2) hW by (simp add: buf_fits_def W_def)
  have start: "openvpn_decrypt_aead B A now (buf_of p c q) (buf_of wp wc wq) co (int h) (int a) =
    (if length c < 25 then Some (co, (buf_of p c q)\<lparr>b_len := 0\<rparr>, False)
     else do {
       (buf, pk) \<leftarrow> aead_packet_key (buf_of p c q) co;
       case pk of
         None \<Rightarrow> Some (co, buf\<lparr>b_len := 0\<rparr>, False)
       | Some pk \<Rightarrow> aead_open B A now buf (buf_of (take h W) [] (drop h W)) co (int a) (cb_iv_size B (kt_cipher kt)) pk })"
    using c a by (simp add: openvpn_decrypt_aead_def fmt ck init work packet_id_size_def OPENVPN_AEAD_TAG_LENGTH_def)
  show ?thesis
  proof (cases "length c < 25")
    case True
    then have "\<not> ?must" by (simp add: next_packet_def)
    then show ?thesis unfolding start using drop_it True by simp
  next
    case False
    then have c25: "25 \<le> length c" by simp
    obtain i e where r: "packet_id_read_epoch \<lparr>pn_id = 0, pn_time = 0\<rparr> (buf_of p c q) =
        Some (\<lparr>pn_id = i, pn_time = 0\<rparr>, buf_of (p @ take 8 c) (drop 8 c) q, e)"
      "unat e = pid_epoch (take 8 c)" "unat i = pid_counter (take 8 c)"
      using packet_id_read_epoch_of[of c p q] c25 by auto
    have ld: "buf_load (buf_of p c q) (int (length p)) 8 = Some (take 8 c)"
      using buf_load_at[of "length p" 8 p c q] c25 by simp
    let ?buf = "buf_of (p @ take 8 c) (drop 8 c) q"
    have iv8: "OPENVPN_MAX_IV_LENGTH - 8 = 8" by (simp add: OPENVPN_MAX_IV_LENGTH_def)
    have key: "aead_packet_key (buf_of p c q) co =
      (if e = 0 then Some (?buf, None)
       else (case epoch_lookup_decrypt_key co e of
               None \<Rightarrow> Some (?buf, None)
             | Some sl \<Rightarrow> do {
                 ctx \<leftarrow> slot_ctx co sl;
                 if cipher_decrypt_verify_fail_exceeded ctx then Some (?buf, None)
                 else Some (?buf, Some (\<lparr>pn_id = i, pn_time = 0\<rparr>, e, sl, take 8 c @ replicate 8 0)) }))"
      unfolding aead_packet_key_def Let_def by (simp only: fmt if_True buf_of_obs bind.bind_lunit ld r(1) prod.case iv8)
    show ?thesis
    proof (cases "e \<noteq> 0 \<and> epoch_lookup_decrypt_key co e \<noteq> None")
      case False
      have "\<not> ?must"
      proof
        assume ?must
        then have "unat (kc_epoch (co_decrypt co)) = unat e" unfolding r(2) by (auto simp: next_packet_def in_line_def)
        then have de: "kc_epoch (co_decrypt co) = e" by (simp add: word_unat_eq_iff)
        moreover have "e \<noteq> 0" using epoch_inv_retiring(3)[OF inv E(2)] inv de by (auto simp: epoch_inv_def)
        ultimately show False using False by (simp add: epoch_lookup_decrypt_key_def)
      qed
      then show ?thesis unfolding start key using c25 drop_it False by auto
    next
      case True
      then obtain sl where l: "epoch_lookup_decrypt_key co e = Some sl" by blast
      have e: "e = word_of_nat (unat e)" "1 \<le> unat e" "unat e \<le> 65535"
        using True unat_less_2p[of e] by (auto simp: unat_gt_0 Suc_le_eq)
      have "\<And>j. sl = Slot_Future j \<Longrightarrow> j < n" using epoch_lookup_key(2)[OF inv E(2) e(2,3), of sl] l e(1) by simp
      then obtain ctx where ctx: "slot_ctx co sl = Some ctx"
        using inv by (cases sl) (auto simp: slot_ctx_def epoch_inv_def)
      note step = aead_open_step[OF B E inv win now id A fmt c25 a fits(1) wf l r(2) _ r(3)]
      have W: "length (drop h W) = length wp + length wc + length wq - h" by (simp add: W_def)
      have nex: "\<not> ?must" if "cipher_decrypt_verify_fail_exceeded ctx"
      proof
        assume ?must
        then have d: "unat (kc_epoch (co_decrypt co)) = unat e" "kc_failed_verifications (co_decrypt co) = 0"
          unfolding r(2) by (auto simp: next_packet_def in_line_def)
        then have "sl = Slot_Current" using l by (simp add: epoch_lookup_decrypt_key_def word_unat_eq_iff)
        then show False using that d(2) ctx by (simp add: slot_ctx_def cipher_decrypt_verify_fail_exceeded_def)
      qed
      show ?thesis unfolding start key using True l ctx c25 drop_it step nex unfolding W by simp
    qed
  qed
qed

section \<open>Runs of two peers\<close>

text \<open>
  What one peer does with its data channel: it seals a packet (clock, plaintext, work buffer with
  the header) or opens one (clock, received buffer, work buffer, index of the first authenticated
  byte).  A step also gives the packets sent and the plaintexts delivered, as header, packet behind
  the header and plaintext; \<open>headroom\<close> is that of the frame.
\<close>

datatype channel_op = Ch_Send c_time buffer buffer | Ch_Receive c_time buffer buffer int

type_synonym channel_packet = "byte list \<times> byte list \<times> byte list"

fun channel_step ::
  "crypto_backend \<Rightarrow> aead_lib \<Rightarrow> int \<Rightarrow> crypto_options \<Rightarrow> channel_op \<Rightarrow>
   (crypto_options \<times> channel_packet list \<times> channel_packet list) option" where
  "channel_step B A headroom co (Ch_Send now buf work) = do {
     (co, res) \<leftarrow> openvpn_encrypt_aead B A now buf work co;
     Some (co, if b_len res = 0 then []
       else [(buf_content work, drop (length (buf_content work)) (buf_content res), buf_content buf)], []) }"
| "channel_step B A headroom co (Ch_Receive now buf work a) = do {
     (co, res, ok) \<leftarrow> openvpn_decrypt_aead B A now buf work co headroom a;
     Some (co, [], if ok then [(drop (nat a) (buf_head buf), buf_content buf, buf_content res)] else []) }"

fun channel_run ::
  "crypto_backend \<Rightarrow> aead_lib \<Rightarrow> int \<Rightarrow> crypto_options \<Rightarrow> channel_op list \<Rightarrow>
   (crypto_options \<times> channel_packet list \<times> channel_packet list) option" where
  "channel_run B A headroom co [] = Some (co, [], [])"
| "channel_run B A headroom co (x # xs) = do {
     (co, s1, d1) \<leftarrow> channel_step B A headroom co x;
     (co, s2, d2) \<leftarrow> channel_run B A headroom co xs;
     Some (co, s1 @ s2, d1 @ d2) }"

text \<open>The conditions the callers establish: the buffers are allocated, large enough for the frame, and
  the received packet is not empty.\<close>

definition op_fits :: "aead_lib \<Rightarrow> string \<Rightarrow> int \<Rightarrow> channel_op \<Rightarrow> bool" where
  "op_fits A name headroom op = (case op of
     Ch_Send now buf work \<Rightarrow> buf_live buf \<and> buf_live work \<and>
       int (length (buf_content buf)) + int (al_block_size A name) + 24 \<le> buf_forward_capacity work
   | Ch_Receive now buf work a \<Rightarrow> now > 1 \<and> buf_live buf \<and> buf_live work \<and> buf_content buf \<noteq> [] \<and>
       0 \<le> a \<and> a \<le> b_offset buf \<and> 0 \<le> headroom \<and> headroom \<le> b_capacity work)"

definition arrivals :: "channel_op list \<Rightarrow> (byte list \<times> byte list) set" where
  "arrivals ops = {(drop (nat a) (buf_head buf), buf_content buf) | now buf work a. Ch_Receive now buf work a \<in> set ops}"

definition packet_pid :: "channel_packet \<Rightarrow> nat \<times> nat" where
  "packet_pid x = (case x of (hdr, c, m) \<Rightarrow> (pid_epoch (take 8 c), pid_counter (take 8 c)))"

definition peer_inv ::
  "crypto_backend \<Rightarrow> key_type \<Rightarrow> nat \<Rightarrow> epoch_key \<Rightarrow> epoch_key \<Rightarrow> nat \<Rightarrow> nat \<Rightarrow> crypto_options \<Rightarrow> (nat \<times> nat) set \<Rightarrow> bool" where
  "peer_inv B kt n Es Er w l co seen \<longleftrightarrow> use_epoch_format co \<and> send_id_ok co \<and>
     (\<exists>d s. epoch_inv B kt n Es Er d s co \<and> win_inv w d co seen \<and> nonce_level s co = l)"

lemma win_inv_replay_side:
  "replay_side co' = replay_side co \<Longrightarrow> win_inv w d co' seen = win_inv w d co seen"
  by (simp add: replay_side_def win_inv_def)

lemma channel_send_inv:
  assumes B: "backend_ok B kt" and E: "first_epoch_key Es" "first_epoch_key Er"
    and A: "aead_laws A (kt_cipher kt) (cb_iv_size B (kt_cipher kt))"
    and inv: "peer_inv B kt n Es Er w l co seen" and f: "op_fits A (kt_cipher kt) h (Ch_Send now buf work)"
  shows "\<exists>co' sent l'. channel_step B A h co (Ch_Send now buf work) = Some (co', sent, []) \<and> peer_inv B kt n Es Er w l' co' seen \<and> l \<le> l' \<and>
    (sent = [] \<and> l = 2 ^ 64 - 1 \<or>
     (\<exists>hdr c m. sent = [(hdr, c, m)] \<and> l < nat_be (take 8 c) \<and> nat_be (take 8 c) = l' \<and> packet_plain B A kt Es hdr c = Some m \<and> m = buf_content buf \<and> hdr = buf_content work \<and> length c = 24 + length m))"
proof -
  obtain p m q wp hdr wq where b: "buf = buf_of p m q" "buf_fits p m q" "work = buf_of wp hdr wq" "buf_fits wp hdr wq"
    using f by (auto simp: op_fits_def buf_live_repr)
  have room: "length m + al_block_size A (kt_cipher kt) + 24 \<le> length wq" using f b by (simp add: op_fits_def)
  obtain d s where i: "use_epoch_format co" "send_id_ok co" "epoch_inv B kt n Es Er d s co" "win_inv w d co seen" "nonce_level s co = l"
    using inv by (auto simp: peer_inv_def)
  have rdy: "send_ready co"
    using i by (auto simp: send_ready_def win_inv_def win_of_def window_rel_def rec_ok_def split: prod.splits)
  obtain co' s' res where e: "openvpn_encrypt_aead B A now buf work co = Some (co', res)" "epoch_inv B kt n Es Er d s' co'" "send_ready co'"
    "replay_side co' = replay_side co" "nonce_level s co \<le> nonce_level s' co'"
    "b_len res = 0 \<and> nonce_level s co = 2 ^ 64 - 1 \<or>
     (\<exists>pid c. length pid = 8 \<and> nonce_level s co < nat_be pid \<and> nat_be pid = nonce_level s' co' \<and>
        packet_of B A kt Es hdr pid m = Some c \<and> res = buf_of wp (hdr @ c) (drop (length c) wq))"
    using encrypt_aead_step[OF B E(1) i(3) rdy A b(2,4) room, of now] unfolding b(1,3) by blast
  have inv': "peer_inv B kt n Es Er w (nonce_level s' co') co' seen"
    unfolding peer_inv_def using e(2,3) i(4) win_inv_replay_side[OF e(4), of w d seen]
    by (auto simp: send_ready_def)
  define sent where "sent = (if b_len res = 0 then [] else [(buf_content work, drop (length (buf_content work)) (buf_content res), buf_content buf)])"
  have st: "channel_step B A h co (Ch_Send now buf work) = Some (co', sent, [])" using e(1) by (simp add: sent_def)
  have "sent = [] \<and> l = 2 ^ 64 - 1 \<or>
     (\<exists>hdr c m. sent = [(hdr, c, m)] \<and> l < nat_be (take 8 c) \<and> nat_be (take 8 c) = nonce_level s' co' \<and> packet_plain B A kt Es hdr c = Some m \<and> m = buf_content buf \<and> hdr = buf_content work \<and> length c = 24 + length m)"
    using e(6)
  proof
    assume "b_len res = 0 \<and> nonce_level s co = 2 ^ 64 - 1"
    then show ?thesis using i(5) by (simp add: sent_def)
  next
    assume "\<exists>pid c. length pid = 8 \<and> nonce_level s co < nat_be pid \<and> nat_be pid = nonce_level s' co' \<and>
        packet_of B A kt Es hdr pid m = Some c \<and> res = buf_of wp (hdr @ c) (drop (length c) wq)"
    then obtain pid c where c: "length pid = 8" "nonce_level s co < nat_be pid" "nat_be pid = nonce_level s' co'"
      "packet_of B A kt Es hdr pid m = Some c" "res = buf_of wp (hdr @ c) (drop (length c) wq)" by blast
    have "take 8 c = pid" "length c = 24 + length m" "packet_plain B A kt Es hdr c = Some m"
      using packet_plain_of[OF A c(1), of Es hdr m] c(4) by auto
    then show ?thesis using c i(5) b by (simp add: sent_def)
  qed
  note last_part = this
  show ?thesis
  proof (intro exI conjI)
    show "channel_step B A h co (Ch_Send now buf work) = Some (co', sent, [])" by (rule st)
    show "l \<le> nonce_level s' co'" using e(5) i(5) by simp
  qed (rule inv', rule last_part)
qed

lemma channel_receive_inv:
  assumes B: "backend_ok B kt" and E: "first_epoch_key Es" "first_epoch_key Er"
    and A: "aead_laws A (kt_cipher kt) (cb_iv_size B (kt_cipher kt))"
    and inv: "peer_inv B kt n Es Er w l co seen" and f: "op_fits A (kt_cipher kt) h (Ch_Receive now buf work a)"
  shows "\<exists>co' del l'. channel_step B A h co (Ch_Receive now buf work a) = Some (co', [], del) \<and>
    peer_inv B kt n Es Er w l' co' (seen \<union> set (map packet_pid del)) \<and> l \<le> l' \<and> length del \<le> 1 \<and>
    (\<forall>(hdr, c, m) \<in> set del. packet_pid (hdr, c, m) \<notin> seen \<and> packet_plain B A kt Er hdr c = Some m \<and> 8 \<le> length c \<and>
       hdr = drop (nat a) (buf_head buf) \<and> c = buf_content buf) \<and>
    (next_packet B A kt Er co (drop (nat a) (buf_head buf)) (buf_content buf) (nat (b_capacity work - h)) \<longrightarrow>
       del \<noteq> [] \<and> in_line (pid_epoch (take 8 (buf_content buf))) (pid_counter (take 8 (buf_content buf))) co')"
proof -
  obtain p c q wp wc wq where b: "buf = buf_of p c q" "buf_fits p c q" "work = buf_of wp wc wq" "buf_fits wp wc wq"
    using f by (auto simp: op_fits_def buf_live_repr)
  have now: "now > 1" and c: "c \<noteq> []" and a: "a = int (nat a)" "nat a \<le> length p" and hh: "h = int (nat h)" "nat h \<le> length wp + length wc + length wq"
    using f b by (auto simp: op_fits_def)
  obtain d s where i: "use_epoch_format co" "send_id_ok co" "epoch_inv B kt n Es Er d s co" "win_inv w d co seen" "nonce_level s co = l"
    using inv by (auto simp: peer_inv_def)
  let ?must = "next_packet B A kt Er co (drop (nat a) p) c (length wp + length wc + length wq - nat h)"
  have must: "next_packet B A kt Er co (drop (nat a) (buf_head buf)) (buf_content buf) (nat (b_capacity work - h)) = ?must"
    using hh unfolding b(1,3) by (metis buf_of_sel(1,5,6) nat_int of_nat_diff)
  have "received B A kt n Es Er w s co seen (drop (nat a) p) c ?must (openvpn_decrypt_aead B A now buf work co h a)"
    using decrypt_aead_step[OF B E i(3,4) now i(2) A i(1) c a(2) b(2,4) hh(2)] a(1) hh(1) unfolding b(1,3) by simp
  then obtain co' d' s' res ok where r: "openvpn_decrypt_aead B A now buf work co h a = Some (co', res, ok)" "co_flags co' = co_flags co"
    "send_id_ok co'" "nonce_level s co \<le> nonce_level s' co'" "epoch_inv B kt n Es Er d' s' co'"
    "win_inv w d' co' (if ok then insert (pid_epoch (take 8 c), pid_counter (take 8 c)) seen else seen)"
    "if ok then 25 \<le> length c \<and> (pid_epoch (take 8 c), pid_counter (take 8 c)) \<notin> seen \<and>
         packet_plain B A kt Er (drop (nat a) p) c = Some (buf_content res)
      else b_len res = 0"
    "?must \<longrightarrow> ok \<and> in_line (pid_epoch (take 8 c)) (pid_counter (take 8 c)) co'"
    unfolding received_def by blast
  define del where "del = (if ok then [(drop (nat a) p, c, buf_content res)] else [])"
  have "channel_step B A h co (Ch_Receive now buf work a) = Some (co', [], del)" using r(1) b(1) by (simp add: del_def)
  moreover have "peer_inv B kt n Es Er w (nonce_level s' co') co' (seen \<union> set (map packet_pid del))"
    unfolding peer_inv_def using r(2,3,5,6) i(1)
    by (cases ok) (auto simp: del_def use_epoch_format_def packet_pid_def)
  moreover have "\<forall>(hdr, c, m) \<in> set del. packet_pid (hdr, c, m) \<notin> seen \<and> packet_plain B A kt Er hdr c = Some m \<and> 8 \<le> length c \<and>
       hdr = drop (nat a) (buf_head buf) \<and> c = buf_content buf"
    using r(7) b(1) by (cases ok) (auto simp: del_def packet_pid_def)
  moreover have "l \<le> nonce_level s' co'" "length del \<le> 1" using r(4) i(5) by (simp_all add: del_def)
  moreover have "?must \<longrightarrow> del \<noteq> [] \<and> in_line (pid_epoch (take 8 (buf_content buf))) (pid_counter (take 8 (buf_content buf))) co'"
    using r(8) b(1) by (auto simp: del_def)
  ultimately show ?thesis unfolding must by blast
qed

text \<open>Everything a peer does keeps its invariant; its packet ids increase, what it delivers opens, was
  not delivered before, and is one of the packets that arrived.\<close>

definition packet_nonce :: "channel_packet \<Rightarrow> nat" where
  "packet_nonce x = (case x of (hdr, c, m) \<Rightarrow> nat_be (take 8 c))"

definition sent_ok :: "crypto_backend \<Rightarrow> aead_lib \<Rightarrow> key_type \<Rightarrow> epoch_key \<Rightarrow> nat \<Rightarrow> nat \<Rightarrow> channel_packet list \<Rightarrow> bool" where
  "sent_ok B A kt E l l' xs \<longleftrightarrow> sorted_wrt (<) (map packet_nonce xs) \<and>
     (\<forall>x \<in> set xs. l < packet_nonce x \<and> packet_nonce x \<le> l') \<and>
     (\<forall>(hdr, c, m) \<in> set xs. packet_plain B A kt E hdr c = Some m \<and> length c = 24 + length m)"

definition delivered_ok ::
  "crypto_backend \<Rightarrow> aead_lib \<Rightarrow> key_type \<Rightarrow> epoch_key \<Rightarrow> channel_op list \<Rightarrow> (nat \<times> nat) set \<Rightarrow> channel_packet list \<Rightarrow> bool" where
  "delivered_ok B A kt E ops seen xs \<longleftrightarrow> distinct (map packet_pid xs) \<and> set (map packet_pid xs) \<inter> seen = {} \<and>
     (\<forall>(hdr, c, m) \<in> set xs. (hdr, c) \<in> arrivals ops \<and> packet_plain B A kt E hdr c = Some m)"

lemma sent_ok_append:
  "sent_ok B A kt E l l1 xs \<Longrightarrow> sent_ok B A kt E l1 l2 ys \<Longrightarrow> l \<le> l1 \<Longrightarrow> l1 \<le> l2 \<Longrightarrow> sent_ok B A kt E l l2 (xs @ ys)"
  unfolding sent_ok_def by (fastforce simp: sorted_wrt_append)

lemma arrivals_Cons: "arrivals ops \<subseteq> arrivals (x # ops)"
  by (auto simp: arrivals_def)

lemma delivered_ok_append:
  assumes "delivered_ok B A kt E (x # ops) seen xs" "delivered_ok B A kt E ops (seen \<union> set (map packet_pid xs)) ys"
  shows "delivered_ok B A kt E (x # ops) seen (xs @ ys)"
  using assms arrivals_Cons[of ops x] unfolding delivered_ok_def by fastforce

lemma channel_step_inv:
  assumes B: "backend_ok B kt" and E: "first_epoch_key Es" "first_epoch_key Er"
    and A: "aead_laws A (kt_cipher kt) (cb_iv_size B (kt_cipher kt))"
    and inv: "peer_inv B kt n Es Er w l co seen" and f: "op_fits A (kt_cipher kt) h x"
  shows "\<exists>co' sent del l'. channel_step B A h co x = Some (co', sent, del) \<and>
    peer_inv B kt n Es Er w l' co' (seen \<union> set (map packet_pid del)) \<and> l \<le> l' \<and>
    sent_ok B A kt Es l l' sent \<and> delivered_ok B A kt Er (x # ops) seen del"
proof (cases x)
  case (Ch_Send now buf work)
  obtain co1 s1 l1 where s: "channel_step B A h co x = Some (co1, s1, [])" "peer_inv B kt n Es Er w l1 co1 seen" "l \<le> l1"
    "s1 = [] \<and> l = 2 ^ 64 - 1 \<or> (\<exists>hdr c m. s1 = [(hdr, c, m)] \<and> l < nat_be (take 8 c) \<and> nat_be (take 8 c) = l1 \<and>
       packet_plain B A kt Es hdr c = Some m \<and> m = buf_content buf \<and> hdr = buf_content work \<and> length c = 24 + length m)"
    using channel_send_inv[OF B E A inv f[unfolded Ch_Send]] unfolding Ch_Send by blast
  have "sent_ok B A kt Es l l1 s1" using s(4) by (auto simp: sent_ok_def packet_nonce_def)
  moreover have "delivered_ok B A kt Er (x # ops) seen []" by (simp add: delivered_ok_def)
  ultimately show ?thesis using s(1-3) by (intro exI[of _ co1] exI[of _ s1] exI[of _ "[]"] exI[of _ l1]) simp
next
  case (Ch_Receive now buf work a)
  obtain co1 d1 l1 where r: "channel_step B A h co x = Some (co1, [], d1)"
    "peer_inv B kt n Es Er w l1 co1 (seen \<union> set (map packet_pid d1))" "l \<le> l1" "length d1 \<le> 1"
    "\<forall>(hdr, c, m) \<in> set d1. packet_pid (hdr, c, m) \<notin> seen \<and> packet_plain B A kt Er hdr c = Some m \<and> 8 \<le> length c \<and>
       hdr = drop (nat a) (buf_head buf) \<and> c = buf_content buf"
    using channel_receive_inv[OF B E A inv f[unfolded Ch_Receive]] by (elim exE conjE) (rule that, simp_all only: Ch_Receive)
  have ar: "(drop (nat a) (buf_head buf), buf_content buf) \<in> arrivals (x # ops)"
    unfolding Ch_Receive arrivals_def by (auto simp del: drop_eq_Nil)
  have "(hdr, c) \<in> arrivals (x # ops) \<and> packet_plain B A kt Er hdr c = Some m" if "(hdr, c, m) \<in> set d1" for hdr c m
    using bspec[OF r(5) that] ar unfolding prod.case by (elim conjE) simp
  then have "\<forall>(hdr, c, m) \<in> set d1. (hdr, c) \<in> arrivals (x # ops) \<and> packet_plain B A kt Er hdr c = Some m" by auto
  moreover have "distinct (map packet_pid d1)" using r(4) by (cases d1) auto
  moreover have "set (map packet_pid d1) \<inter> seen = {}" using r(5) by auto
  ultimately have "delivered_ok B A kt Er (x # ops) seen d1" unfolding delivered_ok_def by blast
  moreover have "sent_ok B A kt Es l l1 []" by (simp add: sent_ok_def)
  ultimately show ?thesis using r(1-3) by (intro exI[of _ co1] exI[of _ "[]"] exI[of _ d1] exI[of _ l1]) simp
qed

lemma channel_run_inv:
  assumes B: "backend_ok B kt" and E: "first_epoch_key Es" "first_epoch_key Er"
    and A: "aead_laws A (kt_cipher kt) (cb_iv_size B (kt_cipher kt))"
  shows "peer_inv B kt n Es Er w l co seen \<Longrightarrow> \<forall>x \<in> set ops. op_fits A (kt_cipher kt) h x \<Longrightarrow>
    \<exists>co' sent del l'. channel_run B A h co ops = Some (co', sent, del) \<and>
      peer_inv B kt n Es Er w l' co' (seen \<union> set (map packet_pid del)) \<and> l \<le> l' \<and>
      sent_ok B A kt Es l l' sent \<and> delivered_ok B A kt Er ops seen del"
proof (induction ops arbitrary: co l seen)
  case Nil
  then show ?case by (auto simp: sent_ok_def delivered_ok_def)
next
  case (Cons x ops)
  have f: "op_fits A (kt_cipher kt) h x" "\<forall>x \<in> set ops. op_fits A (kt_cipher kt) h x" using Cons.prems(2) by simp_all
  obtain co1 s1 d1 l1 where st: "channel_step B A h co x = Some (co1, s1, d1)"
    "peer_inv B kt n Es Er w l1 co1 (seen \<union> set (map packet_pid d1))" "l \<le> l1"
    "sent_ok B A kt Es l l1 s1" "delivered_ok B A kt Er (x # ops) seen d1"
    using channel_step_inv[OF B E A Cons.prems(1) f(1), of ops] by blast
  obtain co2 s2 d2 l2 where r: "channel_run B A h co1 ops = Some (co2, s2, d2)"
    "peer_inv B kt n Es Er w l2 co2 (seen \<union> set (map packet_pid d1) \<union> set (map packet_pid d2))" "l1 \<le> l2"
    "sent_ok B A kt Es l1 l2 s2" "delivered_ok B A kt Er ops (seen \<union> set (map packet_pid d1)) d2"
    using Cons.IH[OF st(2) f(2)] by blast
  have "channel_run B A h co (x # ops) = Some (co2, s1 @ s2, d1 @ d2)" using st(1) r(1) by simp
  moreover have "peer_inv B kt n Es Er w l2 co2 (seen \<union> set (map packet_pid (d1 @ d2)))" using r(2) by (simp add: Un_assoc)
  moreover note sent_ok_append[OF st(4) r(4) st(3) r(3)] delivered_ok_append[OF st(5) r(5)] order_trans[OF st(3) r(3)]
  ultimately show ?case by blast
qed

lemma peer_init:
  assumes B: "backend_ok B kt" and E: "first_epoch_key Es" "first_epoch_key Er"
    and fresh: "epoch_fresh co" and fmt: "use_epoch_format co" and n: "0 < n" "n \<le> 65533"
    and win: "window_rel w (pi_rec (co_packet_id co)) (0, 0, {})"
  shows "\<exists>co'. epoch_init_key_ctx B limit co kt Es Er (word_of_nat n) = Some co' \<and> peer_inv B kt n Es Er w (2 ^ 48) co' {} \<and>
    in_line 1 0 co'"
proof -
  obtain co' where c: "epoch_init_key_ctx B limit co kt Es Er (word_of_nat n) = Some co'" "epoch_inv B kt n Es Er 1 1 co'"
    "send_id_ok co'" "nonce_level 1 co' = 2 ^ 48" "co_decrypt co' = epoch_ctx B kt Er" using epoch_init_inv[OF B E fresh n] by blast
  have k: "replay_side co' = replay_side co" by (rule epoch_init_keeps[OF c(1)])
  have "rec_params (pi_rec (co_packet_id co'))" using c(2) by (simp add: epoch_inv_def)
  then have "win_inv w 1 co' {}"
    using k win fresh unfolding win_inv_def win_of_def replay_side_def epoch_fresh_def by auto
  then have "peer_inv B kt n Es Er w (2 ^ 48) co' {}"
    using c(2-4) fmt replay_side_format[OF k] unfolding peer_inv_def by blast
  moreover have "in_line 1 0 co'"
    using c(5) win k E(2) by (auto simp: in_line_def epoch_ctx_def Let_def clear_key_ctx_def first_epoch_key_def replay_side_def window_rel_def)
  ultimately show ?thesis using c(1) by blast
qed

text \<open>The packets \<open>xs\<close> arriving in order, each in a buffer of its own.\<close>

definition receive_all :: "(channel_packet \<Rightarrow> c_time) \<Rightarrow> nat \<Rightarrow> channel_packet list \<Rightarrow> channel_op list" where
  "receive_all clock room xs =
     map (\<lambda>x. case x of (hdr, c, m) \<Rightarrow> Ch_Receive (clock x) (buf_of hdr c []) (buf_of [] [] (replicate room 0)) 0) xs"

lemma receive_all_delivers:
  assumes B: "backend_ok B kt" and E: "first_epoch_key Es" "first_epoch_key Er"
    and A: "aead_laws A (kt_cipher kt) (cb_iv_size B (kt_cipher kt))" and clock: "\<forall>x. clock x > 1" and h: "0 \<le> h"
  shows "peer_inv B kt n Es Er w l co seen \<Longrightarrow> in_line 1 j co \<Longrightarrow> sent_ok B A kt Er (2 ^ 48 + j) l' xs \<Longrightarrow>
    \<forall>(hdr, c, m) \<in> set xs. pid_epoch (take 8 c) = 1 \<and> m \<noteq> [] \<and> length hdr + length c < 1000000 \<and>
      nat h + length c + al_block_size A (kt_cipher kt) \<le> room \<and> room < 1000000 \<Longrightarrow>
    \<exists>co'. channel_run B A h co (receive_all clock room xs) = Some (co', [], xs)"
proof (induction xs arbitrary: co l seen j)
  case Nil
  then show ?case by (simp add: receive_all_def)
next
  case (Cons x xs)
  obtain hdr c m where x: "x = (hdr, c, m)" by (cases x) auto
  let ?buf = "buf_of hdr c []" and ?work = "buf_of [] [] (replicate room 0)"
  have px: "pid_epoch (take 8 c) = 1" "m \<noteq> []" "length hdr + length c < 1000000"
    "nat h + length c + al_block_size A (kt_cipher kt) \<le> room" "room < 1000000"
    using Cons.prems(4) x by auto
  have sx: "packet_plain B A kt Er hdr c = Some m" "length c = 24 + length m" "2 ^ 48 + j < nat_be (take 8 c)"
    "\<forall>y \<in> set xs. nat_be (take 8 c) < packet_nonce y"
    using Cons.prems(3) x by (auto simp: sent_ok_def packet_nonce_def)
  have gen: "y = K + y mod K" if "y div K = 1" for y K :: nat using that by (metis div_mult_mod_eq mult_1)
  have nb: "nat_be (take 8 c) = 2 ^ 48 + pid_counter (take 8 c)"
    unfolding pid_counter_def by (rule gen[OF px(1)[unfolded pid_epoch_def]])
  have c0: "c \<noteq> []" using sx(2) by auto
  have f: "op_fits A (kt_cipher kt) h (Ch_Receive (clock x) ?buf ?work 0)"
  proof -
    have "buf_live ?buf" "buf_live ?work"
      using px by (simp_all add: buf_live_def buf_fits_def BUF_SIZE_MAX_def)
    then show ?thesis using clock[rule_format, of x] h px c0 by (simp add: op_fits_def)
  qed
  have "25 \<le> length c" using sx(2) px(2) by (cases m) auto
  then have nx: "next_packet B A kt Er co (drop (nat 0) (buf_head ?buf)) (buf_content ?buf) (nat (b_capacity ?work - h))"
    using sx px Cons.prems(2) nb h unfolding next_packet_def by auto
  obtain co1 d1 l1 where r: "channel_step B A h co (Ch_Receive (clock x) ?buf ?work 0) = Some (co1, [], d1)"
    "peer_inv B kt n Es Er w l1 co1 (seen \<union> set (map packet_pid d1))" "length d1 \<le> 1"
    "\<forall>(hdr', c', m') \<in> set d1. packet_plain B A kt Er hdr' c' = Some m' \<and> hdr' = hdr \<and> c' = c"
    "d1 \<noteq> []" "in_line 1 (pid_counter (take 8 c)) co1"
    using channel_receive_inv[OF B E A Cons.prems(1) f] nx px(1) by (elim exE conjE) (rule that, auto)
  have d1: "d1 = [x]" using r(3,4,5) sx(1) x by (cases d1) auto
  have "sent_ok B A kt Er (2 ^ 48 + pid_counter (take 8 c)) l' xs"
    using Cons.prems(3) sx(4) nb x by (auto simp: sent_ok_def)
  then obtain co2 where "channel_run B A h co1 (receive_all clock room xs) = Some (co2, [], xs)"
    using Cons.IH[OF r(2,6)] Cons.prems(4) by auto
  then show ?case using r(1) d1 x by (simp add: receive_all_def)
qed

section \<open>Initialised peers\<close>

definition peer_ready :: "nat \<Rightarrow> crypto_options \<Rightarrow> bool" where
  "peer_ready w co \<longleftrightarrow> epoch_fresh co \<and> use_epoch_format co \<and> 0 < w \<and> w \<le> 65536 \<and>
     (\<exists>tb name unit. 0 \<le> tb \<and> tb \<le> 600 \<and> packet_id_init (int w) tb name unit = Some (co_packet_id co))"

lemma peer_start:
  assumes B: "backend_ok B kt" and E: "first_epoch_key Es" "first_epoch_key Er"
    and ready: "peer_ready w co" and n: "0 < n" "n \<le> 65533"
  shows "\<exists>co'. epoch_init_key_ctx B limit co kt Es Er (word_of_nat n) = Some co' \<and> peer_inv B kt n Es Er w (2 ^ 48) co' {} \<and>
    in_line 1 0 co'"
proof -
  obtain tb name unit where t: "0 \<le> tb" "tb \<le> 600" "packet_id_init (int w) tb name unit = Some (co_packet_id co)"
    using ready unfolding peer_ready_def by blast
  have "window_rel w (pi_rec (co_packet_id co)) (0, 0, {})"
    using packet_id_init_rel[of w tb name unit] t ready unfolding peer_ready_def by auto
  then show ?thesis using peer_init[OF B E _ _ n] ready unfolding peer_ready_def by blast
qed

text \<open>A library that copies, and peers for instances.\<close>

definition toy_aead :: aead_lib where
  "toy_aead = \<lparr>al_block_size = (\<lambda>_. 16), al_reset = (\<lambda>_. True), al_update_ad = (\<lambda>_. True), al_encrypt = (\<lambda>op. Some (ai_data op)),
     al_encrypt_final = (\<lambda>_. Some []), al_get_tag = (\<lambda>_ n. Some (replicate n 0)), al_decrypt = (\<lambda>op. Some (ai_data op)),
     al_check_tag = (\<lambda>_ t. if t = replicate 16 0 then Some [] else None)\<rparr>"

lemma toy_aead_laws: "aead_laws toy_aead name n"
  by (auto simp: aead_laws_def toy_aead_def opened_def sealed_def OPENVPN_AEAD_TAG_LENGTH_def)

lemma toy_peer: "\<exists>co. peer_ready 64 co"
proof -
  obtain p where p: "packet_id_init 64 15 None 0 = Some p" using packet_id_init_rel[of 64 15 None 0] by auto
  have par: "rec_params (pi_rec p)"
    using p by (auto simp: packet_id_init_def packet_id_init_recv_def bind_eq_Some_iff rec_params_def split: if_splits)
  have "peer_ready 64 (toy_options\<lparr>co_flags := 256, co_packet_id := p\<rparr>)"
  proof -
    have "\<exists>tb name unit. 0 \<le> tb \<and> tb \<le> 600 \<and> packet_id_init (int 64) tb name unit = Some p"
      by (rule exI[of _ 15], rule exI[of _ None], rule exI[of _ 0]) (simp add: p)
    then show ?thesis using par unfolding peer_ready_def
      by (simp add: epoch_fresh_def toy_options_def clear_key_ctx_def use_epoch_format_def CO_EPOCH_DATA_KEY_FORMAT_def)
  qed
  then show ?thesis by blast
qed

lemma toy_first_packet:
  assumes "peer_ready 64 co"
  shows "\<exists>a0 a1 hdr c m. epoch_init_key_ctx toy_backend 0 co toy_kt (toy_first 1) (toy_first 2) 16 = Some a0 \<and>
    channel_run toy_backend toy_aead 0 a0 [Ch_Send 100 (buf_of [] [1, 2, 3] []) (buf_of [] [72] (replicate 60 0))] = Some (a1, [(hdr, c, m)], []) \<and>
    m = [1, 2, 3] \<and> hdr = [72] \<and> length c = 27 \<and> pid_epoch (take 8 c) = 1"
proof -
  note B = toy_ok(1) and E = toy_ok(2)[of 1] toy_ok(2)[of 2] and A = toy_aead_laws[of "kt_cipher toy_kt" "cb_iv_size toy_backend (kt_cipher toy_kt)"]
  obtain a0 where a0: "epoch_init_key_ctx toy_backend 0 co toy_kt (toy_first 1) (toy_first 2) (word_of_nat 16) = Some a0"
    "peer_inv toy_backend toy_kt 16 (toy_first 1) (toy_first 2) 64 (2 ^ 48) a0 {}"
    using peer_start[OF B E assms, of 16 0] by auto
  have a1: "epoch_inv toy_backend toy_kt 16 (toy_first 1) (toy_first 2) 1 1 a0" "send_id_ok a0" "nonce_level 1 a0 = 2 ^ 48"
    "co_aead_usage_limit a0 = 0"
    using epoch_init_inv[OF B E _, of co 16 0] assms a0(1) by (auto simp: peer_ready_def)
  have rdy: "send_ready a0"
    using a0(2) a1(2) by (auto simp: peer_inv_def send_ready_def win_inv_def win_of_def window_rel_def rec_ok_def split: prod.splits)
  have id: "ps_id (pi_send (co_packet_id a0)) \<noteq> PACKET_ID_EPOCH_MAX" using a1(3) by (auto simp: nonce_level_def PACKET_ID_EPOCH_MAX_def)
  have fits: "buf_fits [] [1, 2, 3] []" "buf_fits [] [72] (replicate 60 0)" by (simp_all add: buf_fits_def BUF_SIZE_MAX_def)
  have room: "length [1 :: byte, 2, 3] + al_block_size toy_aead (kt_cipher toy_kt) + 24 \<le> length (replicate 60 (0 :: byte))"
    by (simp add: toy_aead_def)
  obtain co' s' res where e: "openvpn_encrypt_aead toy_backend toy_aead 100 (buf_of [] [1, 2, 3] []) (buf_of [] [72] (replicate 60 0)) a0 = Some (co', res)"
    "send_ready co'"
    "b_len res = 0 \<and> nonce_level 1 a0 = 2 ^ 64 - 1 \<or>
     (\<exists>pid c. length pid = 8 \<and> nonce_level 1 a0 < nat_be pid \<and> nat_be pid = nonce_level s' co' \<and>
        packet_of toy_backend toy_aead toy_kt (toy_first 1) [72] pid [1, 2, 3] = Some c \<and> res = buf_of [] ([72] @ c) (drop (length c) (replicate 60 0)))"
    "co_aead_usage_limit a0 = 0 \<and> ps_id (pi_send (co_packet_id a0)) \<noteq> PACKET_ID_EPOCH_MAX \<longrightarrow> s' = 1"
    using encrypt_aead_step[OF B E(1) a1(1) rdy A fits room, of 100] by (elim exE conjE) (rule that)
  then obtain pid c where c: "length pid = 8" "nat_be pid = nonce_level 1 co'"
    "packet_of toy_backend toy_aead toy_kt (toy_first 1) [72] pid [1, 2, 3] = Some c" "res = buf_of [] ([72] @ c) (drop (length c) (replicate 60 0))"
    using a1(3,4) id by auto
  have pc: "take 8 c = pid" "length c = 27"
    using packet_plain_of[OF A c(1), of "toy_first 1" "[72]" "[1, 2, 3]"] c(3) by auto
  have "pid_epoch (take 8 c) = 1"
    using e(2) unfolding pc(1) pid_epoch_def c(2)
    by (intro div_nat_eqI) (simp_all add: nonce_level_def send_ready_def send_id_ok_def)
  moreover have "channel_run toy_backend toy_aead 0 a0 [Ch_Send 100 (buf_of [] [1, 2, 3] []) (buf_of [] [72] (replicate 60 0))] =
      Some (co', [([72], c, [1, 2, 3])], [])"
    using e(1) c(4) by simp
  ultimately show ?thesis using a0(1) pc(2) by (intro exI[of _ a0] exI[of _ co'] exI[of _ "[72]"] exI[of _ c] exI[of _ "[1, 2, 3]"]) simp
qed

section \<open>Properties\<close>

text \<open>C1: Injective agreement on the data channel.  Two peers initialise epoch keys from crossed first keys
  and then do anything: send packets, and receive any bytes, in any order and any number of times.
  Neither ever aborts; the packets one peer delivers have pairwise different packet ids; and if every
  arrival that the cipher library verifies was sent by the other peer, the delivered packets with
  their plaintexts are a sub-multiset of the sent ones: nothing is forged, altered or delivered twice,
  also across changes of keys and windows.\<close>

theorem channel_authentic_once:
  assumes B: "backend_ok B kt" and E: "first_epoch_key E1" "first_epoch_key E2"
    and A: "aead_laws A (kt_cipher kt) (cb_iv_size B (kt_cipher kt))"
    and ready: "peer_ready wa coa" "peer_ready wb cob" and n: "0 < m" "m \<le> 65533" "0 < n" "n \<le> 65533"
    and ops: "\<forall>x \<in> set ops_a. op_fits A (kt_cipher kt) ha x" "\<forall>x \<in> set ops_b. op_fits A (kt_cipher kt) hb x"
  shows "\<exists>a0 a1 sa da b0 b1 sb db. epoch_init_key_ctx B la coa kt E1 E2 (word_of_nat m) = Some a0 \<and>
    channel_run B A ha a0 ops_a = Some (a1, sa, da) \<and> epoch_init_key_ctx B lb cob kt E2 E1 (word_of_nat n) = Some b0 \<and>
    channel_run B A hb b0 ops_b = Some (b1, sb, db) \<and> distinct (map packet_pid db) \<and>
    ((\<forall>(hdr, c) \<in> arrivals ops_b. packet_plain B A kt E1 hdr c \<noteq> None \<longrightarrow> (\<exists>p. (hdr, c, p) \<in> set sa)) \<longrightarrow> mset db \<subseteq># mset sa)"
proof -
  obtain a0 where a0: "epoch_init_key_ctx B la coa kt E1 E2 (word_of_nat m) = Some a0" "peer_inv B kt m E1 E2 wa (2 ^ 48) a0 {}"
    using peer_start[OF B E ready(1) n(1,2)] by blast
  obtain b0 where b0: "epoch_init_key_ctx B lb cob kt E2 E1 (word_of_nat n) = Some b0" "peer_inv B kt n E2 E1 wb (2 ^ 48) b0 {}"
    using peer_start[OF B E(2,1) ready(2) n(3,4)] by blast
  obtain a1 sa da l where a: "channel_run B A ha a0 ops_a = Some (a1, sa, da)" "sent_ok B A kt E1 (2 ^ 48) l sa"
    using channel_run_inv[OF B E A a0(2) ops(1)] by blast
  obtain b1 sb db where b: "channel_run B A hb b0 ops_b = Some (b1, sb, db)" "delivered_ok B A kt E1 ops_b {} db"
    using channel_run_inv[OF B E(2,1) A b0(2) ops(2)] by blast
  have d: "distinct (map packet_pid db)" using b(2) by (simp add: delivered_ok_def)
  have "mset db \<subseteq># mset sa" if auth: "\<forall>(hdr, c) \<in> arrivals ops_b. packet_plain B A kt E1 hdr c \<noteq> None \<longrightarrow> (\<exists>p. (hdr, c, p) \<in> set sa)"
  proof -
    have "(hdr, c, p) \<in> set sa" if x: "(hdr, c, p) \<in> set db" for hdr c p
    proof -
      have y: "(hdr, c) \<in> arrivals ops_b" "packet_plain B A kt E1 hdr c = Some p" using b(2) x by (auto simp: delivered_ok_def)
      then obtain p' where p': "(hdr, c, p') \<in> set sa" using auth by force
      then have "packet_plain B A kt E1 hdr c = Some p'" using a(2) by (auto simp: sent_ok_def)
      then show ?thesis using p' y(2) by simp
    qed
    then have "set db \<subseteq> set sa" by auto
    moreover have "distinct db" using d by (simp add: distinct_map)
    ultimately show ?thesis
      by (intro mset_subset_eqI) (auto simp: distinct_count_atmost_1 Suc_le_eq count_greater_zero_iff)
  qed
  then show ?thesis using a0(1) a(1) b0(1) b(1) d by blast
qed

theorem channel_authentic_once_witness:
  "\<exists>coa a0 a1 sa da b0 b1 sb db.
    epoch_init_key_ctx toy_backend 0 coa toy_kt (toy_first 1) (toy_first 2) 16 = Some a0 \<and>
    channel_run toy_backend toy_aead 0 a0 [Ch_Send 100 (buf_of [] [1, 2, 3] []) (buf_of [] [72] (replicate 60 0))] = Some (a1, sa, da) \<and>
    epoch_init_key_ctx toy_backend 0 coa toy_kt (toy_first 2) (toy_first 1) 16 = Some b0 \<and>
    channel_run toy_backend toy_aead 0 b0 (receive_all (\<lambda>_. 101) 200 (sa @ sa)) = Some (b1, sb, db) \<and> sa \<noteq> [] \<and> mset db \<subseteq># mset sa"
proof -
  obtain co where co: "peer_ready 64 co" using toy_peer by blast
  let ?ops = "[Ch_Send 100 (buf_of [] [1, 2, 3] []) (buf_of [] [72] (replicate 60 0))]"
  obtain a0 a1 c where a: "epoch_init_key_ctx toy_backend 0 co toy_kt (toy_first 1) (toy_first 2) 16 = Some a0"
    "channel_run toy_backend toy_aead 0 a0 ?ops = Some (a1, [([72], c, [1, 2, 3])], [])" "length c = 27"
    using toy_first_packet[OF co] by blast
  let ?sa = "[([72], c, [1, 2, 3])]"
  let ?opsb = "receive_all (\<lambda>_. 101) 200 (?sa @ ?sa)"
  have "c \<noteq> []" using a(3) by auto
  then have f: "\<forall>x \<in> set ?ops. op_fits toy_aead (kt_cipher toy_kt) 0 x" "\<forall>x \<in> set ?opsb. op_fits toy_aead (kt_cipher toy_kt) 0 x"
    using a(3) by (simp_all add: receive_all_def op_fits_def buf_live_def buf_fits_def BUF_SIZE_MAX_def toy_aead_def)
  have arr: "arrivals ?opsb = {([72], c)}" by (auto simp: arrivals_def receive_all_def simp del: drop_eq_Nil)
  have n: "0 < (16 :: nat)" "(16 :: nat) \<le> 65533" by simp_all
  define opsa where "opsa = ?ops"
  define opsb where "opsb = ?opsb"
  note a' = a(1,2)[folded opsa_def]
  obtain a0' a1' sa' da' b0 b1 sb db where r: "epoch_init_key_ctx toy_backend 0 co toy_kt (toy_first 1) (toy_first 2) (word_of_nat 16) = Some a0'"
    "channel_run toy_backend toy_aead 0 a0' opsa = Some (a1', sa', da')"
    "epoch_init_key_ctx toy_backend 0 co toy_kt (toy_first 2) (toy_first 1) (word_of_nat 16) = Some b0"
    "channel_run toy_backend toy_aead 0 b0 opsb = Some (b1, sb, db)"
    "(\<forall>(hdr, c) \<in> arrivals opsb. packet_plain toy_backend toy_aead toy_kt (toy_first 1) hdr c \<noteq> None \<longrightarrow> (\<exists>p. (hdr, c, p) \<in> set sa')) \<longrightarrow>
      mset db \<subseteq># mset sa'"
    using channel_authentic_once[OF toy_ok(1) toy_ok(2)[of 1] toy_ok(2)[of 2] toy_aead_laws co co n n f[folded opsa_def opsb_def],
        where la = 0 and lb = 0]
    by (elim exE conjE) (rule that)
  have w: "word_of_nat 16 = (16 :: u16)" by simp
  have "a0' = a0" using r(1) a(1) unfolding w by (metis option.inject)
  then have e: "a1' = a1" "sa' = ?sa" "da' = []" using r(2) a'(2) by simp_all
  have "mset db \<subseteq># mset ?sa" using r(5) unfolding e opsb_def arr by simp
  then show ?thesis
    using a' r(3,4) unfolding w opsb_def by (intro exI conjI) (assumption | simp add: opsa_def del: channel_run.simps)+
qed

text \<open>C2: Delivery.  Whatever a peer has sent in its first epoch, if it arrives in order and the work buffers
  are large enough for the frame, the other peer delivers exactly the plaintexts sent, each with its
  header, and aborts nowhere: sealing and opening invert each other for every packet, and the replay
  protection refuses none.\<close>

theorem channel_delivers:
  assumes B: "backend_ok B kt" and E: "first_epoch_key E1" "first_epoch_key E2"
    and A: "aead_laws A (kt_cipher kt) (cb_iv_size B (kt_cipher kt))"
    and ready: "peer_ready wa coa" "peer_ready wb cob" and n: "0 < m" "m \<le> 65533" "0 < n" "n \<le> 65533"
    and ops: "\<forall>x \<in> set ops_a. op_fits A (kt_cipher kt) ha x"
    and a: "epoch_init_key_ctx B la coa kt E1 E2 (word_of_nat m) = Some a0" "channel_run B A ha a0 ops_a = Some (a1, sa, da)"
    and first: "\<forall>(hdr, c, p) \<in> set sa. pid_epoch (take 8 c) = 1 \<and> p \<noteq> [] \<and> length hdr + length c < 1000000 \<and>
      nat hb + length c + al_block_size A (kt_cipher kt) \<le> room \<and> room < 1000000"
    and hb: "0 \<le> hb" and clock: "\<forall>x. clock x > 1"
  shows "\<exists>b0 b1. epoch_init_key_ctx B lb cob kt E2 E1 (word_of_nat n) = Some b0 \<and>
    channel_run B A hb b0 (receive_all clock room sa) = Some (b1, [], sa)"
proof -
  have a0: "peer_inv B kt m E1 E2 wa (2 ^ 48) a0 {}" using peer_start[OF B E ready(1) n(1,2), of la] a(1) by auto
  obtain l where sent: "sent_ok B A kt E1 (2 ^ 48 + 0) l sa"
    using channel_run_inv[OF B E A a0 ops] a(2) by auto
  obtain b0 where b0: "epoch_init_key_ctx B lb cob kt E2 E1 (word_of_nat n) = Some b0" "peer_inv B kt n E2 E1 wb (2 ^ 48) b0 {}" "in_line 1 0 b0"
    using peer_start[OF B E(2,1) ready(2) n(3,4)] by blast
  show ?thesis using receive_all_delivers[OF B E(2,1) A clock hb b0(2,3) sent first] b0(1) by blast
qed

theorem channel_delivers_witness:
  "\<exists>co a0 a1 sa b0 b1. epoch_init_key_ctx toy_backend 0 co toy_kt (toy_first 1) (toy_first 2) 16 = Some a0 \<and>
    channel_run toy_backend toy_aead 0 a0 [Ch_Send 100 (buf_of [] [1, 2, 3] []) (buf_of [] [72] (replicate 60 0))] = Some (a1, sa, []) \<and>
    sa \<noteq> [] \<and> epoch_init_key_ctx toy_backend 0 co toy_kt (toy_first 2) (toy_first 1) 16 = Some b0 \<and>
    channel_run toy_backend toy_aead 0 b0 (receive_all (\<lambda>_. 101) 200 sa) = Some (b1, [], sa)"
proof -
  obtain co where co: "peer_ready 64 co" using toy_peer by blast
  let ?ops = "[Ch_Send 100 (buf_of [] [1, 2, 3] []) (buf_of [] [72] (replicate 60 0))]"
  obtain a0 a1 c where a: "epoch_init_key_ctx toy_backend 0 co toy_kt (toy_first 1) (toy_first 2) 16 = Some a0"
    "channel_run toy_backend toy_aead 0 a0 ?ops = Some (a1, [([72], c, [1, 2, 3])], [])" "length c = 27" "pid_epoch (take 8 c) = 1"
    using toy_first_packet[OF co] by blast
  have f: "\<forall>x \<in> set ?ops. op_fits toy_aead (kt_cipher toy_kt) 0 x"
    by (simp add: op_fits_def buf_live_def buf_fits_def BUF_SIZE_MAX_def toy_aead_def)
  have a': "epoch_init_key_ctx toy_backend 0 co toy_kt (toy_first 1) (toy_first 2) (word_of_nat 16) = Some a0" using a(1) by simp
  have fst': "\<forall>(hdr, c, p) \<in> set [([72 :: byte], c, [1, 2, 3 :: byte])]. pid_epoch (take 8 c) = 1 \<and> p \<noteq> [] \<and> length hdr + length c < 1000000 \<and>
      nat 0 + length c + al_block_size toy_aead (kt_cipher toy_kt) \<le> 200 \<and> (200 :: nat) < 1000000"
    using a(3,4) by (simp add: toy_aead_def)
  have n: "0 < (16 :: nat)" "(16 :: nat) \<le> 65533" by simp_all
  have clk: "(0 :: int) \<le> 0" "\<forall>x :: channel_packet. (\<lambda>_. 101 :: c_time) x > 1" by simp_all
  obtain b0 b1 where r: "epoch_init_key_ctx toy_backend 0 co toy_kt (toy_first 2) (toy_first 1) (word_of_nat 16) = Some b0"
    "channel_run toy_backend toy_aead 0 b0 (receive_all (\<lambda>_. 101) 200 [([72], c, [1, 2, 3])]) = Some (b1, [], [([72], c, [1, 2, 3])])"
    using channel_delivers[OF toy_ok(1) toy_ok(2)[of 1] toy_ok(2)[of 2] toy_aead_laws co co n n f a' a(2) fst' clk, where lb = 0]
    by (elim exE conjE) (rule that)
  have w: "word_of_nat 16 = (16 :: u16)" by simp
  show ?thesis
    using a(1,2) r unfolding w by (intro exI conjI) (assumption | simp del: channel_run.simps)+
qed

end
