(* ===== verification/Ovpn_Schedule.thy ===== *)
theory Ovpn_Schedule
  imports Ovpn_Time "HOL-Library.Stream" "HOL-Library.Tree" "HOL-Library.Product_Lexorder"
begin

text \<open>
  The scheduler (\<open>schedule.h\<close>, \<open>schedule.c\<close>): the wakeup times of the client instances in a treap of
  entries linked by parent and child pointers.  The entries belong to the callers; they are cells of
  an explicit memory, and \<open>sc_mem\<close> is the part of it that holds allocated entries.
\<close>

section \<open>Entries and scheduler\<close>

type_synonym entry_ref = "nat option"

record schedule_entry =
  se_tv :: timeval
  se_pri :: u32
  se_parent :: entry_ref
  se_lt :: entry_ref
  se_gt :: entry_ref

record schedule =
  sc_earliest_wakeup :: entry_ref
  sc_root :: entry_ref
  sc_mem :: "nat \<rightharpoonup> schedule_entry"

text \<open>Reading and writing through a pointer; \<open>NULL\<close> and dangling pointers are undefined behaviour.\<close>

definition entry_at :: "schedule \<Rightarrow> entry_ref \<Rightarrow> schedule_entry option" where
  "entry_at s p = p \<bind> sc_mem s"

definition entry_write :: "entry_ref \<Rightarrow> (schedule_entry \<Rightarrow> schedule_entry) \<Rightarrow> schedule \<Rightarrow> schedule option" where
  "entry_write p f s = do {
     a \<leftarrow> p;
     e \<leftarrow> sc_mem s a;
     Some (s\<lparr>sc_mem := (sc_mem s)(a \<mapsto> f e)\<rparr>) }"

definition IN_TREE :: "schedule_entry \<Rightarrow> bool" where "IN_TREE e = (se_pri e \<noteq> 0)"

text \<open>\<open>random()\<close> is a stream of values.\<close>

definition random_pri :: "u32 \<Rightarrow> u32" where "random_pri r = (if r < 1 then 1 else r)"

definition schedule_set_pri :: "entry_ref \<Rightarrow> schedule \<times> u32 stream \<Rightarrow> (schedule \<times> u32 stream) option" where
  "schedule_set_pri e = (\<lambda>(s, rs). do {
     s \<leftarrow> entry_write e (\<lambda>x. x\<lparr>se_pri := random_pri (shd rs)\<rparr>) s;
     Some (s, stl rs) })"

definition schedule_entry_compare :: "schedule_entry \<Rightarrow> schedule_entry \<Rightarrow> int" where
  "schedule_entry_compare e1 e2 =
     (if tv_sec (se_tv e1) < tv_sec (se_tv e2) then - 1
      else if tv_sec (se_tv e1) > tv_sec (se_tv e2) then 1
      else if tv_usec (se_tv e1) < tv_usec (se_tv e2) then - 1
      else if tv_usec (se_tv e1) > tv_usec (se_tv e2) then 1
      else if se_pri e1 < se_pri e2 then - 1
      else if se_pri e1 > se_pri e2 then 1
      else 0)"

section \<open>The treap\<close>

definition schedule_detach_parent :: "entry_ref \<Rightarrow> schedule \<Rightarrow> schedule option" where
  "schedule_detach_parent e s =
     (if e = None then Some s
      else do {
        x \<leftarrow> entry_at s e;
        if se_parent x \<noteq> None
        then do {
          p \<leftarrow> entry_at s (se_parent x);
          s \<leftarrow> (if se_lt p = e then entry_write (se_parent x) (\<lambda>y. y\<lparr>se_lt := None\<rparr>) s
                else if se_gt p = e then entry_write (se_parent x) (\<lambda>y. y\<lparr>se_gt := None\<rparr>) s
                else None);
          entry_write e (\<lambda>y. y\<lparr>se_parent := None\<rparr>) s }
        else Some (if sc_root s = e then s\<lparr>sc_root := None\<rparr> else s) })"

definition schedule_rotate_up :: "entry_ref \<Rightarrow> schedule \<Rightarrow> schedule option" where
  "schedule_rotate_up e s =
     (if e = None then Some s
      else do {
        x \<leftarrow> entry_at s e;
        if se_parent x = None then Some s
        else do {
          let lt = se_lt x;
          let gt = se_gt x;
          let p = se_parent x;
          px \<leftarrow> entry_at s p;
          let gp = se_parent px;
          s \<leftarrow> (if gp \<noteq> None
            then do {
              gx \<leftarrow> entry_at s gp;
              if se_gt gx = p then entry_write gp (\<lambda>y. y\<lparr>se_gt := e\<rparr>) s
              else if se_lt gx = p then entry_write gp (\<lambda>y. y\<lparr>se_lt := e\<rparr>) s
              else None }
            else Some (s\<lparr>sc_root := e\<rparr>));
          s \<leftarrow> entry_write e (\<lambda>y. y\<lparr>se_parent := gp\<rparr>) s;
          s \<leftarrow> entry_write p (\<lambda>y. y\<lparr>se_parent := e\<rparr>) s;
          px \<leftarrow> entry_at s p;
          if se_gt px = e
          then do {
            s \<leftarrow> entry_write e (\<lambda>y. y\<lparr>se_lt := p\<rparr>) s;
            s \<leftarrow> entry_write p (\<lambda>y. y\<lparr>se_gt := lt\<rparr>) s;
            if lt \<noteq> None then entry_write lt (\<lambda>y. y\<lparr>se_parent := p\<rparr>) s else Some s }
          else if se_lt px = e
          then do {
            s \<leftarrow> entry_write e (\<lambda>y. y\<lparr>se_gt := p\<rparr>) s;
            s \<leftarrow> entry_write p (\<lambda>y. y\<lparr>se_lt := gt\<rparr>) s;
            if gt \<noteq> None then entry_write gt (\<lambda>y. y\<lparr>se_parent := p\<rparr>) s else Some s }
          else None } })"

text \<open>The child to rotate up.\<close>

definition remove_child :: "schedule \<Rightarrow> schedule_entry \<Rightarrow> entry_ref option" where
  "remove_child s x =
     (if se_lt x \<noteq> None
      then if se_gt x \<noteq> None
        then do {
          l \<leftarrow> entry_at s (se_lt x);
          g \<leftarrow> entry_at s (se_gt x);
          Some (if se_pri l < se_pri g then se_lt x else se_gt x) }
        else Some (se_lt x)
      else Some (se_gt x))"

partial_function (option) remove_loop :: "entry_ref \<Rightarrow> schedule \<Rightarrow> schedule option" where
  "remove_loop e s = do {
     x \<leftarrow> entry_at s e;
     if se_lt x \<noteq> None \<or> se_gt x \<noteq> None
     then do {
       c \<leftarrow> remove_child s x;
       s \<leftarrow> schedule_rotate_up c s;
       remove_loop e s }
     else Some s }"

definition schedule_remove_node :: "entry_ref \<Rightarrow> schedule \<Rightarrow> schedule option" where
  "schedule_remove_node e s = do {
     s \<leftarrow> remove_loop e s;
     s \<leftarrow> schedule_detach_parent e s;
     entry_write e (\<lambda>y. y\<lparr>se_pri := 0\<rparr>) s }"

partial_function (option) insert_loop ::
  "entry_ref \<Rightarrow> entry_ref \<Rightarrow> schedule \<Rightarrow> u32 stream \<Rightarrow> (schedule \<times> u32 stream) option" where
  "insert_loop e c s rs = do {
     x \<leftarrow> entry_at s e;
     cx \<leftarrow> entry_at s c;
     if schedule_entry_compare x cx = - 1
     then if se_lt cx \<noteq> None then insert_loop e (se_lt cx) s rs
       else do {
         s \<leftarrow> entry_write c (\<lambda>y. y\<lparr>se_lt := e\<rparr>) s;
         s \<leftarrow> entry_write e (\<lambda>y. y\<lparr>se_parent := c\<rparr>) s;
         Some (s, rs) }
     else if schedule_entry_compare x cx = 1
     then if se_gt cx \<noteq> None then insert_loop e (se_gt cx) s rs
       else do {
         s \<leftarrow> entry_write c (\<lambda>y. y\<lparr>se_gt := e\<rparr>) s;
         s \<leftarrow> entry_write e (\<lambda>y. y\<lparr>se_parent := c\<rparr>) s;
         Some (s, rs) }
     else do {
       (s, rs) \<leftarrow> schedule_set_pri e (s, rs);
       insert_loop e (sc_root s) s rs } }"

definition schedule_insert :: "entry_ref \<Rightarrow> schedule \<Rightarrow> u32 stream \<Rightarrow> (schedule \<times> u32 stream) option" where
  "schedule_insert e s rs = insert_loop e (sc_root s) s rs"

text \<open>The loop that restores the order of the priorities.\<close>

partial_function (option) rotate_loop :: "entry_ref \<Rightarrow> schedule \<Rightarrow> schedule option" where
  "rotate_loop e s = do {
     x \<leftarrow> entry_at s e;
     if se_parent x = None then Some s
     else do {
       p \<leftarrow> entry_at s (se_parent x);
       if se_pri p > se_pri x
       then do {
         s \<leftarrow> schedule_rotate_up e s;
         rotate_loop e s }
       else Some s } }"

definition schedule_add_modify :: "entry_ref \<Rightarrow> schedule \<Rightarrow> u32 stream \<Rightarrow> (schedule \<times> u32 stream) option" where
  "schedule_add_modify e s rs = do {
     x \<leftarrow> entry_at s e;
     s \<leftarrow> (if IN_TREE x then schedule_remove_node e s else Some s);
     (s, rs) \<leftarrow> schedule_set_pri e (s, rs);
     (s, rs) \<leftarrow> (if sc_root s \<noteq> None then schedule_insert e s rs else Some (s\<lparr>sc_root := e\<rparr>, rs));
     s \<leftarrow> rotate_loop e s;
     Some (s, rs) }"

partial_function (option) least_loop :: "schedule \<Rightarrow> entry_ref \<Rightarrow> entry_ref option" where
  "least_loop s e = do {
     x \<leftarrow> entry_at s e;
     if se_lt x \<noteq> None then least_loop s (se_lt x) else Some e }"

definition schedule_find_least :: "schedule \<Rightarrow> entry_ref \<Rightarrow> entry_ref option" where
  "schedule_find_least s e = (if e \<noteq> None then least_loop s e else Some e)"

section \<open>Public functions\<close>

definition schedule_init :: "(nat \<rightharpoonup> schedule_entry) \<Rightarrow> schedule" where
  "schedule_init m = \<lparr>sc_earliest_wakeup = None, sc_root = None, sc_mem = m\<rparr>"

definition schedule_remove_entry :: "entry_ref \<Rightarrow> schedule \<Rightarrow> schedule option" where
  "schedule_remove_entry e s = schedule_remove_node e (s\<lparr>sc_earliest_wakeup := None\<rparr>)"

definition schedule_add_entry ::
  "entry_ref \<Rightarrow> timeval \<Rightarrow> u32 \<Rightarrow> schedule \<Rightarrow> u32 stream \<Rightarrow> (schedule \<times> u32 stream) option" where
  "schedule_add_entry e tv sigma s rs = do {
     x \<leftarrow> entry_at s e;
     if \<not> IN_TREE x \<or> sigma = 0 \<or> \<not> tv_within_sigma tv (se_tv x) sigma
     then do {
       s \<leftarrow> entry_write e (\<lambda>y. y\<lparr>se_tv := tv\<rparr>) s;
       (s, rs) \<leftarrow> schedule_add_modify e s rs;
       Some (s\<lparr>sc_earliest_wakeup := None\<rparr>, rs) }
     else Some (s, rs) }"

text \<open>The time is only written when there is an entry.\<close>

definition schedule_get_earliest_wakeup :: "schedule \<Rightarrow> (schedule \<times> entry_ref \<times> timeval option) option" where
  "schedule_get_earliest_wakeup s = do {
     s \<leftarrow> (if sc_earliest_wakeup s = None
       then do {
         e \<leftarrow> schedule_find_least s (sc_root s);
         Some (s\<lparr>sc_earliest_wakeup := e\<rparr>) }
       else Some s);
     if sc_earliest_wakeup s \<noteq> None
     then do {
       x \<leftarrow> entry_at s (sc_earliest_wakeup s);
       Some (s, sc_earliest_wakeup s, Some (se_tv x)) }
     else Some (s, None, None) }"

section \<open>Trees in the memory\<close>

text \<open>\<open>tree_at m p par t\<close>: the pointer \<open>p\<close> leads to the entries of \<open>t\<close>, whose root has the parent \<open>par\<close>.
  \<open>plug t C\<close> is \<open>t\<close> at a place of a larger tree, which \<open>ctx_at\<close> describes in the memory.\<close>

fun tree_at :: "(nat \<rightharpoonup> schedule_entry) \<Rightarrow> entry_ref \<Rightarrow> entry_ref \<Rightarrow> nat tree \<Rightarrow> bool" where
  "tree_at m p par Leaf \<longleftrightarrow> p = None"
| "tree_at m p par (Node l a r) \<longleftrightarrow> p = Some a \<and>
     (\<exists>x. m a = Some x \<and> se_parent x = par \<and> tree_at m (se_lt x) (Some a) l \<and> tree_at m (se_gt x) (Some a) r)"

datatype crumb = In_Lt nat "nat tree" | In_Gt "nat tree" nat

fun plug :: "nat tree \<Rightarrow> crumb list \<Rightarrow> nat tree" where
  "plug t [] = t"
| "plug t (In_Lt a r # C) = plug (Node t a r) C"
| "plug t (In_Gt l a # C) = plug (Node l a t) C"

fun ctx_at :: "(nat \<rightharpoonup> schedule_entry) \<Rightarrow> entry_ref \<Rightarrow> entry_ref \<Rightarrow> entry_ref \<Rightarrow> crumb list \<Rightarrow> bool" where
  "ctx_at m root p par [] \<longleftrightarrow> root = p \<and> par = None"
| "ctx_at m root p par (In_Lt a r # C) \<longleftrightarrow> par = Some a \<and>
     (\<exists>x. m a = Some x \<and> se_lt x = p \<and> tree_at m (se_gt x) (Some a) r \<and> ctx_at m root (Some a) (se_parent x) C)"
| "ctx_at m root p par (In_Gt l a # C) \<longleftrightarrow> par = Some a \<and>
     (\<exists>x. m a = Some x \<and> se_gt x = p \<and> tree_at m (se_lt x) (Some a) l \<and> ctx_at m root (Some a) (se_parent x) C)"

lemma tree_at_plug: "tree_at m root None (plug t C) \<longleftrightarrow> (\<exists>p par. tree_at m p par t \<and> ctx_at m root p par C)"
proof (induction t C rule: plug.induct)
  case (2 t a r C)
  show ?case unfolding plug.simps 2 by auto
next
  case (3 t l a C)
  show ?case unfolding plug.simps 3 by auto
qed auto

fun before :: "crumb list \<Rightarrow> nat list" where
  "before [] = []"
| "before (In_Lt a r # C) = before C"
| "before (In_Gt l a # C) = before C @ inorder l @ [a]"

fun behind :: "crumb list \<Rightarrow> nat list" where
  "behind [] = []"
| "behind (In_Lt a r # C) = a # inorder r @ behind C"
| "behind (In_Gt l a # C) = behind C"

lemma inorder_plug [simp]: "inorder (plug t C) = before C @ inorder t @ behind C"
  by (induction t C rule: plug.induct) auto

lemma set_tree_plug [simp]: "set_tree (plug t C) = set (before C) \<union> set_tree t \<union> set (behind C)"
  unfolding set_inorder[symmetric] by auto

lemma tree_at_frame [simp]: "a \<notin> set_tree t \<Longrightarrow> tree_at (m(a := v)) p par t = tree_at m p par t"
  by (induction t arbitrary: p par) auto

lemma ctx_at_frame [simp]: "a \<notin> set (before C) \<Longrightarrow> a \<notin> set (behind C) \<Longrightarrow> ctx_at (m(a := v)) root p par C = ctx_at m root p par C"
  by (induction C arbitrary: p par rule: before.induct) auto

lemma tree_at_cong: "(\<And>a. a \<in> set_tree t \<Longrightarrow> m' a = m a) \<Longrightarrow> tree_at m' p par t = tree_at m p par t"
  by (induction t arbitrary: p par) auto

lemma ctx_at_cong: "(\<And>a. a \<in> set (before C) \<union> set (behind C) \<Longrightarrow> m' a = m a) \<Longrightarrow> ctx_at m' root p par C = ctx_at m root p par C"
  by (induction C arbitrary: p par rule: before.induct) (auto simp: tree_at_cong[of _ m' m])

text \<open>What an operation keeps: the data of all entries and the links of those outside the tree.\<close>

definition entry_key :: "(nat \<rightharpoonup> schedule_entry) \<Rightarrow> nat \<Rightarrow> (timeval \<times> u32) option" where
  "entry_key m a = map_option (\<lambda>x. (se_tv x, se_pri x)) (m a)"

definition shape :: "schedule \<Rightarrow> nat tree \<Rightarrow> bool" where
  "shape s t \<longleftrightarrow> tree_at (sc_mem s) (sc_root s) None t \<and> distinct (inorder t)"

definition keeps :: "schedule \<Rightarrow> schedule \<Rightarrow> nat set \<Rightarrow> bool" where
  "keeps s s' X \<longleftrightarrow> entry_key (sc_mem s') = entry_key (sc_mem s) \<and> (\<forall>a. a \<notin> X \<longrightarrow> sc_mem s' a = sc_mem s a) \<and>
     sc_earliest_wakeup s' = sc_earliest_wakeup s"

lemma keeps_refl [simp]: "keeps s s X" by (simp add: keeps_def)

lemma keeps_trans: "keeps s s1 X \<Longrightarrow> keeps s1 s2 X \<Longrightarrow> keeps s s2 X"
  by (simp add: keeps_def)

lemma entry_key_update: "m a = Some x \<Longrightarrow> se_tv y = se_tv x \<Longrightarrow> se_pri y = se_pri x \<Longrightarrow> entry_key (m(a \<mapsto> y)) = entry_key m"
  by (auto simp: entry_key_def fun_eq_iff)

lemma entry_write_Some: "entry_write (Some a) f s = (case sc_mem s a of None \<Rightarrow> None | Some x \<Rightarrow> Some (s\<lparr>sc_mem := (sc_mem s)(a \<mapsto> f x)\<rparr>))"
  by (simp add: entry_write_def split: option.split)

lemma entry_at_Some [simp]: "entry_at s (Some a) = sc_mem s a" "entry_at s None = None"
  by (simp_all add: entry_at_def)

section \<open>Rotations\<close>

lemma ctx_other_child:
  "ctx_at m root (Some p) par (In_Lt a r # C) \<Longrightarrow> p \<notin> set_tree r \<Longrightarrow> m a = Some x \<Longrightarrow> se_gt x \<noteq> Some p"
  "ctx_at m root (Some p) par (In_Gt r a # C) \<Longrightarrow> p \<notin> set_tree r \<Longrightarrow> m a = Some x \<Longrightarrow> se_lt x \<noteq> Some p"
  by (cases r; auto)+

lemma replace_child:
  assumes "ctx_at (sc_mem s) (sc_root s) (Some p) par C" "distinct (before C @ behind C)" "p \<notin> set (before C) \<union> set (behind C)"
  shows "\<exists>s1. (if par \<noteq> None
      then do {
        gx \<leftarrow> entry_at s par;
        if se_gt gx = Some p then entry_write par (\<lambda>y. y\<lparr>se_gt := e\<rparr>) s
        else if se_lt gx = Some p then entry_write par (\<lambda>y. y\<lparr>se_lt := e\<rparr>) s
        else None }
      else Some (s\<lparr>sc_root := e\<rparr>)) = Some s1 \<and>
    ctx_at (sc_mem s1) (sc_root s1) e par C \<and> keeps s s1 (set (before C) \<union> set (behind C))"
proof (cases C rule: before.cases)
  case 1
  then show ?thesis using assms by (simp add: keeps_def)
next
  case (2 a r D)
  note o = ctx_other_child(1)[OF assms(1)[unfolded 2]]
  obtain x where "par = Some a" "sc_mem s a = Some x" "se_lt x = Some p" using assms(1) 2 by auto
  then show ?thesis using assms 2 o[of x]
    by (simp add: entry_write_Some keeps_def entry_key_update)
next
  case (3 r a D)
  obtain x where "par = Some a" "sc_mem s a = Some x" "se_gt x = Some p" using assms(1) 3 by auto
  then show ?thesis using assms 3
    by (simp add: entry_write_Some keeps_def entry_key_update)
qed

text \<open>The rest of a rotation: the subtree \<open>r\<close> between the two entries changes its parent.\<close>

definition move_subtree :: "(nat \<rightharpoonup> schedule_entry) \<Rightarrow> nat tree \<Rightarrow> entry_ref \<Rightarrow> (nat \<rightharpoonup> schedule_entry)" where
  "move_subtree m r par = (case r of Leaf \<Rightarrow> m | Node _ a _ \<Rightarrow> m(a := map_option (\<lambda>y. y\<lparr>se_parent := par\<rparr>) (m a)))"

lemma move_subtree:
  "tree_at m p par r \<Longrightarrow> distinct (inorder r) \<Longrightarrow> tree_at (move_subtree m r par') p par' r"
  "a \<notin> set_tree r \<Longrightarrow> move_subtree m r par a = m a"
  "entry_key (move_subtree m r par) = entry_key m"
  by (cases r; auto simp: move_subtree_def entry_key_def fun_eq_iff option.map_comp comp_def)+

lemma move_subtree_write:
  assumes "tree_at (sc_mem s) p par0 r"
  shows "(if p \<noteq> None then entry_write p (\<lambda>y. y\<lparr>se_parent := par\<rparr>) s else Some s) = Some (s\<lparr>sc_mem := move_subtree (sc_mem s) r par\<rparr>)"
  using assms by (cases r) (auto simp: move_subtree_def entry_write_Some)

lemma rotate_up_lt:
  assumes "shape s (plug (Node (Node l e r) p g) C)"
  shows "\<exists>s'. schedule_rotate_up (Some e) s = Some s' \<and> shape s' (plug (Node l e (Node r p g)) C) \<and>
    keeps s s' (set_tree (plug (Node (Node l e r) p g) C))"
proof -
  obtain par x px where m: "sc_mem s e = Some x" "se_parent x = Some p" "tree_at (sc_mem s) (se_lt x) (Some e) l"
    "tree_at (sc_mem s) (se_gt x) (Some e) r" "sc_mem s p = Some px" "se_parent px = par" "se_lt px = Some e"
    "tree_at (sc_mem s) (se_gt px) (Some p) g" "ctx_at (sc_mem s) (sc_root s) (Some p) par C" and
    d: "distinct (before C @ inorder l @ e # inorder r @ p # inorder g @ behind C)"
    using assms unfolding shape_def tree_at_plug by auto
  have gt: "se_gt px \<noteq> Some e" using d m(8) by (cases g) auto
  have dC: "distinct (before C @ behind C)" "p \<notin> set (before C) \<union> set (behind C)" using d by auto
  obtain s1 where s1: "(if par \<noteq> None
      then do {
        gx \<leftarrow> entry_at s par;
        if se_gt gx = Some p then entry_write par (\<lambda>y. y\<lparr>se_gt := Some e\<rparr>) s
        else if se_lt gx = Some p then entry_write par (\<lambda>y. y\<lparr>se_lt := Some e\<rparr>) s
        else None }
      else Some (s\<lparr>sc_root := Some e\<rparr>)) = Some s1"
    "ctx_at (sc_mem s1) (sc_root s1) (Some e) par C" "keeps s s1 (set (before C) \<union> set (behind C))"
    using replace_child[OF m(9) dC, of "Some e"] by blast
  have fr: "sc_mem s1 a = sc_mem s a" if "a \<in> insert e (insert p (set_tree l \<union> set_tree r \<union> set_tree g))" for a
    using s1(3) that d by (auto simp: keeps_def)
  have fx: "sc_mem s1 e = Some x" "sc_mem s1 p = Some px" using fr m by simp_all
  have ft: "tree_at (sc_mem s1) (se_lt x) (Some e) l" "tree_at (sc_mem s1) (se_gt x) (Some e) r" "tree_at (sc_mem s1) (se_gt px) (Some p) g"
    using m(3,4,8) tree_at_cong[of l "sc_mem s1" "sc_mem s"] tree_at_cong[of r "sc_mem s1" "sc_mem s"]
      tree_at_cong[of g "sc_mem s1" "sc_mem s"] fr by auto
  define m2 where "m2 = (sc_mem s1)(e \<mapsto> x\<lparr>se_parent := par, se_gt := Some p\<rparr>, p \<mapsto> px\<lparr>se_parent := Some e, se_lt := se_gt x\<rparr>)"
  have ne: "e \<noteq> p" using d by auto
  have tr: "tree_at m2 (se_gt x) (Some e) r" using ft(2) d by (simp add: m2_def)
  have "schedule_rotate_up (Some e) s = Some (s1\<lparr>sc_mem := move_subtree m2 r (Some p)\<rparr>)"
    using m(1,2,5,6,7) s1(1) fx ne gt move_subtree_write[of "s1\<lparr>sc_mem := m2\<rparr>" "se_gt x" "Some e" r "Some p"] tr
    by (simp add: schedule_rotate_up_def entry_write_Some m2_def fun_upd_twist)
      (auto simp: Let_def m2_def split: if_splits)
  moreover have "shape (s1\<lparr>sc_mem := move_subtree m2 r (Some p)\<rparr>) (plug (Node l e (Node r p g)) C)"
  proof -
    let ?m = "move_subtree m2 r (Some p)"
    have "e \<notin> set_tree r" "p \<notin> set_tree r" using d by auto
    then have c: "?m e = m2 e" "?m p = m2 p" by (simp_all add: move_subtree(2))
    have o: "?m a = sc_mem s1 a" if "a \<notin> insert e (insert p (set_tree r))" for a
      using that by (simp add: move_subtree(2) m2_def)
    have "tree_at ?m (se_lt x) (Some e) l" using ft(1) by (rule tree_at_cong[THEN iffD2, OF o, rotated]) (use d in auto)
    moreover have "tree_at ?m (se_gt px) (Some p) g" using ft(3) by (rule tree_at_cong[THEN iffD2, OF o, rotated]) (use d in auto)
    moreover have "tree_at ?m (se_gt x) (Some p) r" using d by (intro move_subtree(1)[OF tr]) auto
    moreover have "ctx_at ?m (sc_root s1) (Some e) par C" using s1(2) by (rule ctx_at_cong[THEN iffD2, OF o, rotated]) (use d in auto)
    ultimately show ?thesis using d c ne unfolding shape_def tree_at_plug by (auto simp: m2_def)
  qed
  moreover have "keeps s (s1\<lparr>sc_mem := move_subtree m2 r (Some p)\<rparr>) (set_tree (plug (Node (Node l e r) p g) C))"
  proof -
    have "entry_key m2 = entry_key (sc_mem s1)" using fx ne unfolding m2_def by (simp add: entry_key_update)
    then show ?thesis using s1(3) unfolding keeps_def
      by (simp add: move_subtree(2,3)) (auto simp: m2_def)
  qed
  ultimately show ?thesis by blast
qed

lemma rotate_up_gt:
  assumes "shape s (plug (Node g p (Node r e l)) C)"
  shows "\<exists>s'. schedule_rotate_up (Some e) s = Some s' \<and> shape s' (plug (Node (Node g p r) e l) C) \<and>
    keeps s s' (set_tree (plug (Node g p (Node r e l)) C))"
proof -
  obtain par x px where m: "sc_mem s e = Some x" "se_parent x = Some p" "tree_at (sc_mem s) (se_gt x) (Some e) l"
    "tree_at (sc_mem s) (se_lt x) (Some e) r" "sc_mem s p = Some px" "se_parent px = par" "se_gt px = Some e"
    "tree_at (sc_mem s) (se_lt px) (Some p) g" "ctx_at (sc_mem s) (sc_root s) (Some p) par C" and
    d: "distinct (before C @ inorder g @ p # inorder r @ e # inorder l @ behind C)"
    using assms unfolding shape_def tree_at_plug by auto
  have dC: "distinct (before C @ behind C)" "p \<notin> set (before C) \<union> set (behind C)" using d by auto
  obtain s1 where s1: "(if par \<noteq> None
      then do {
        gx \<leftarrow> entry_at s par;
        if se_gt gx = Some p then entry_write par (\<lambda>y. y\<lparr>se_gt := Some e\<rparr>) s
        else if se_lt gx = Some p then entry_write par (\<lambda>y. y\<lparr>se_lt := Some e\<rparr>) s
        else None }
      else Some (s\<lparr>sc_root := Some e\<rparr>)) = Some s1"
    "ctx_at (sc_mem s1) (sc_root s1) (Some e) par C" "keeps s s1 (set (before C) \<union> set (behind C))"
    using replace_child[OF m(9) dC, of "Some e"] by blast
  have fr: "sc_mem s1 a = sc_mem s a" if "a \<in> insert e (insert p (set_tree l \<union> set_tree r \<union> set_tree g))" for a
    using s1(3) that d by (auto simp: keeps_def)
  have fx: "sc_mem s1 e = Some x" "sc_mem s1 p = Some px" using fr m by simp_all
  have ft: "tree_at (sc_mem s1) (se_gt x) (Some e) l" "tree_at (sc_mem s1) (se_lt x) (Some e) r" "tree_at (sc_mem s1) (se_lt px) (Some p) g"
    using m(3,4,8) tree_at_cong[of l "sc_mem s1" "sc_mem s"] tree_at_cong[of r "sc_mem s1" "sc_mem s"]
      tree_at_cong[of g "sc_mem s1" "sc_mem s"] fr by auto
  define m2 where "m2 = (sc_mem s1)(e \<mapsto> x\<lparr>se_parent := par, se_lt := Some p\<rparr>, p \<mapsto> px\<lparr>se_parent := Some e, se_gt := se_lt x\<rparr>)"
  have ne: "e \<noteq> p" using d by auto
  have tr: "tree_at m2 (se_lt x) (Some e) r" using ft(2) d by (simp add: m2_def)
  have "schedule_rotate_up (Some e) s = Some (s1\<lparr>sc_mem := move_subtree m2 r (Some p)\<rparr>)"
    using m(1,2,5,6,7) s1(1) fx ne move_subtree_write[of "s1\<lparr>sc_mem := m2\<rparr>" "se_lt x" "Some e" r "Some p"] tr
    by (simp add: schedule_rotate_up_def entry_write_Some m2_def fun_upd_twist)
      (auto simp: Let_def m2_def split: if_splits)
  moreover have "shape (s1\<lparr>sc_mem := move_subtree m2 r (Some p)\<rparr>) (plug (Node (Node g p r) e l) C)"
  proof -
    let ?m = "move_subtree m2 r (Some p)"
    have "e \<notin> set_tree r" "p \<notin> set_tree r" using d by auto
    then have c: "?m e = m2 e" "?m p = m2 p" by (simp_all add: move_subtree(2))
    have o: "?m a = sc_mem s1 a" if "a \<notin> insert e (insert p (set_tree r))" for a
      using that by (simp add: move_subtree(2) m2_def)
    have "tree_at ?m (se_gt x) (Some e) l" using ft(1) by (rule tree_at_cong[THEN iffD2, OF o, rotated]) (use d in auto)
    moreover have "tree_at ?m (se_lt px) (Some p) g" using ft(3) by (rule tree_at_cong[THEN iffD2, OF o, rotated]) (use d in auto)
    moreover have "tree_at ?m (se_lt x) (Some p) r" using d by (intro move_subtree(1)[OF tr]) auto
    moreover have "ctx_at ?m (sc_root s1) (Some e) par C" using s1(2) by (rule ctx_at_cong[THEN iffD2, OF o, rotated]) (use d in auto)
    ultimately show ?thesis using d c ne unfolding shape_def tree_at_plug by (auto simp: m2_def)
  qed
  moreover have "keeps s (s1\<lparr>sc_mem := move_subtree m2 r (Some p)\<rparr>) (set_tree (plug (Node g p (Node r e l)) C))"
  proof -
    have "entry_key m2 = entry_key (sc_mem s1)" using fx ne unfolding m2_def by (simp add: entry_key_update)
    then show ?thesis using s1(3) unfolding keeps_def
      by (simp add: move_subtree(2,3)) (auto simp: m2_def)
  qed
  ultimately show ?thesis by blast
qed

section \<open>Removal\<close>

definition pri_of :: "(nat \<rightharpoonup> schedule_entry) \<Rightarrow> nat \<Rightarrow> u32" where
  "pri_of m a = (case entry_key m a of None \<Rightarrow> 0 | Some k \<Rightarrow> snd k)"

lemma pri_of_Some [simp]: "m a = Some x \<Longrightarrow> pri_of m a = se_pri x"
  by (simp add: pri_of_def entry_key_def)

lemma keeps_pri_of: "keeps s s' X \<Longrightarrow> pri_of (sc_mem s') = pri_of (sc_mem s)"
  by (simp add: keeps_def pri_of_def fun_eq_iff)

text \<open>What is left of a tree without its root: the two subtrees merged by priority.\<close>

fun treap_merge :: "(nat \<Rightarrow> u32) \<Rightarrow> nat tree \<Rightarrow> nat tree \<Rightarrow> nat tree" where
  "treap_merge f Leaf r = r"
| "treap_merge f l Leaf = l"
| "treap_merge f (Node ll a lr) (Node rl b rr) =
     (if f a < f b then Node ll a (treap_merge f lr (Node rl b rr)) else Node (treap_merge f (Node ll a lr) rl) b rr)"

lemma treap_merge_Leaf [simp]: "treap_merge f l Leaf = l"
  by (cases l) auto

lemma inorder_treap_merge [simp]: "inorder (treap_merge f l r) = inorder l @ inorder r"
  by (induction f l r rule: treap_merge.induct) auto

lemma set_tree_treap_merge [simp]: "set_tree (treap_merge f l r) = set_tree l \<union> set_tree r"
  unfolding set_inorder[symmetric] by simp

lemma heap_treap_merge:
  "heap (map_tree f l) \<Longrightarrow> heap (map_tree f r) \<Longrightarrow> heap (map_tree f (treap_merge f l r))"
proof (induction f l r rule: treap_merge.induct)
  case (3 f ll a lr rl b rr)
  note I = "3.IH" and P = "3.prems"[simplified]
  show ?case
  proof (cases "f a < f b")
    case True
    then have "heap (map_tree f (treap_merge f lr (Node rl b rr)))" using I(1) P by simp
    moreover have "f a \<le> f y" if "y \<in> insert b (set_tree rl \<union> set_tree rr)" for y
      using that P(2) True by (auto simp: tree.set_map ball_Un intro: order_trans[of "f a" "f b"])
    ultimately show ?thesis using True P by (auto simp: tree.set_map)
  next
    case False
    then have "heap (map_tree f (treap_merge f (Node ll a lr) rl))" using I(2) P by simp
    moreover have "f b \<le> f y" if "y \<in> insert a (set_tree ll \<union> set_tree lr)" for y
      using that P(1) False by (auto simp: tree.set_map ball_Un intro: order_trans[of "f b" "f a"])
    ultimately show ?thesis using False P by (auto simp: tree.set_map)
  qed
qed auto

fun root_ref :: "nat tree \<Rightarrow> entry_ref" where
  "root_ref Leaf = None" | "root_ref (Node l a r) = Some a"

fun crumb_ref :: "crumb list \<Rightarrow> entry_ref" where
  "crumb_ref [] = None" | "crumb_ref (In_Lt a r # C) = Some a" | "crumb_ref (In_Gt l a # C) = Some a"

lemma tree_at_root_ref: "tree_at m p par t \<Longrightarrow> p = root_ref t"
  by (cases t) auto

lemma ctx_at_crumb_ref: "ctx_at m root p par C \<Longrightarrow> par = crumb_ref C"
  by (cases C rule: before.cases) auto

lemma shape_entry:
  assumes "shape s (plug (Node l e r) C)"
  shows "\<exists>x. sc_mem s e = Some x \<and> se_lt x = root_ref l \<and> se_gt x = root_ref r \<and> se_parent x = crumb_ref C"
  using assms unfolding shape_def tree_at_plug by (auto dest: tree_at_root_ref ctx_at_crumb_ref)

lemma remove_loop_merge:
  "shape s (plug (Node l e r) C) \<Longrightarrow>
   \<exists>s' C'. remove_loop (Some e) s = Some s' \<and> shape s' (plug (Node Leaf e Leaf) C') \<and>
     plug Leaf C' = plug (treap_merge (pri_of (sc_mem s)) l r) C \<and> keeps s s' (set_tree (plug (Node l e r) C))"
proof (induction "size l + size r" arbitrary: l r C s rule: less_induct)
  case less
  obtain x where x: "sc_mem s e = Some x" "se_lt x = root_ref l" "se_gt x = root_ref r"
    using shape_entry[OF less.prems] by blast
  let ?f = "pri_of (sc_mem s)" and ?X = "set_tree (plug (Node l e r) C)"
  have up_lt: "\<exists>s' C'. remove_loop (Some e) s = Some s' \<and> shape s' (plug (Node Leaf e Leaf) C') \<and>
      plug Leaf C' = plug (Node ll a (treap_merge ?f lr r)) C \<and> keeps s s' ?X"
    if l: "l = Node ll a lr" and c: "remove_child s x = Some (Some a)" for ll a lr
  proof -
    obtain s1 where s1: "schedule_rotate_up (Some a) s = Some s1" "shape s1 (plug (Node ll a (Node lr e r)) C)" "keeps s s1 ?X"
      using rotate_up_lt less.prems unfolding l by blast
    have "shape s1 (plug (Node lr e r) (In_Gt ll a # C))" using s1(2) by simp
    then obtain s' C' where s': "remove_loop (Some e) s1 = Some s'" "shape s' (plug (Node Leaf e Leaf) C')"
      "plug Leaf C' = plug (treap_merge (pri_of (sc_mem s1)) lr r) (In_Gt ll a # C)"
      "keeps s1 s' (set_tree (plug (Node lr e r) (In_Gt ll a # C)))"
      using less.hyps[of lr r s1 "In_Gt ll a # C"] l by auto
    have "set_tree (plug (Node lr e r) (In_Gt ll a # C)) = ?X" using l by auto
    then have "keeps s s' ?X" using s1(3) s'(4) keeps_trans by metis
    moreover have "remove_loop (Some e) s = Some s'"
      using x l c s1(1) s'(1) by (subst remove_loop.simps) simp
    ultimately show ?thesis using s'(2,3) keeps_pri_of[OF s1(3)] by auto
  qed
  have up_gt: "\<exists>s' C'. remove_loop (Some e) s = Some s' \<and> shape s' (plug (Node Leaf e Leaf) C') \<and>
      plug Leaf C' = plug (Node (treap_merge ?f l rl) b rr) C \<and> keeps s s' ?X"
    if r: "r = Node rl b rr" and c: "remove_child s x = Some (Some b)" for rl b rr
  proof -
    obtain s1 where s1: "schedule_rotate_up (Some b) s = Some s1" "shape s1 (plug (Node (Node l e rl) b rr) C)" "keeps s s1 ?X"
      using rotate_up_gt less.prems unfolding r by blast
    have "shape s1 (plug (Node l e rl) (In_Lt b rr # C))" using s1(2) by simp
    then obtain s' C' where s': "remove_loop (Some e) s1 = Some s'" "shape s' (plug (Node Leaf e Leaf) C')"
      "plug Leaf C' = plug (treap_merge (pri_of (sc_mem s1)) l rl) (In_Lt b rr # C)"
      "keeps s1 s' (set_tree (plug (Node l e rl) (In_Lt b rr # C)))"
      using less.hyps[of l rl s1 "In_Lt b rr # C"] r by auto
    have "set_tree (plug (Node l e rl) (In_Lt b rr # C)) = ?X" using r by auto
    then have "keeps s s' ?X" using s1(3) s'(4) keeps_trans by metis
    moreover have "remove_loop (Some e) s = Some s'"
      using x r c s1(1) s'(1) by (subst remove_loop.simps) simp
    ultimately show ?thesis using s'(2,3) keeps_pri_of[OF s1(3)] by auto
  qed
  show ?case
  proof (cases l)
    case Leaf
    note l = this
    show ?thesis
    proof (cases r)
      case Leaf
      then show ?thesis using less.prems x l by (intro exI[of _ s] exI[of _ C]) (simp add: remove_loop.simps)
    next
      case (Node rl b rr)
      then show ?thesis using up_gt[OF Node] x l by (simp add: remove_child_def)
    qed
  next
    case (Node ll a lr)
    note l = this
    show ?thesis
    proof (cases r)
      case Leaf
      then show ?thesis using up_lt[OF l] x l by (simp add: remove_child_def)
    next
      case (Node rl b rr)
      obtain xa xb where ab: "sc_mem s a = Some xa" "sc_mem s b = Some xb"
        using shape_entry[of s ll a lr "In_Lt e r # C"] shape_entry[of s rl b rr "In_Gt l e # C"] less.prems l Node by auto
      show ?thesis
      proof (cases "se_pri xa < se_pri xb")
        case True
        then show ?thesis using up_lt[OF l] x l Node ab by (simp add: remove_child_def)
      next
        case False
        then show ?thesis using up_gt[OF Node] x l Node ab by (simp add: remove_child_def)
      qed
    qed
  qed
qed

lemma detach_parent_leaf:
  assumes "shape s (plug (Node Leaf e Leaf) C)"
  shows "\<exists>s' x. schedule_detach_parent (Some e) s = Some s' \<and> shape s' (plug Leaf C) \<and> keeps s s' (set_tree (plug (Node Leaf e Leaf) C)) \<and>
    sc_mem s' e = Some x \<and> se_parent x = None \<and> se_lt x = None \<and> se_gt x = None"
proof -
  obtain par x where m: "sc_mem s e = Some x" "se_parent x = par" "se_lt x = None" "se_gt x = None"
    "ctx_at (sc_mem s) (sc_root s) (Some e) par C" "distinct (before C @ e # behind C)"
    using assms unfolding shape_def tree_at_plug by auto
  show ?thesis
  proof (cases C rule: before.cases)
    case 1
    then show ?thesis using m by (auto simp: schedule_detach_parent_def shape_def keeps_def)
  next
    case (2 a r D)
    obtain y where y: "par = Some a" "sc_mem s a = Some y" "se_lt y = Some e" using m(5) 2 by auto
    then show ?thesis using m 2
      by (auto simp: schedule_detach_parent_def entry_write_Some shape_def tree_at_plug keeps_def entry_key_update)
  next
    case (3 r a D)
    note o = ctx_other_child(2)[OF m(5)[unfolded 3]]
    obtain y where y: "par = Some a" "sc_mem s a = Some y" "se_gt y = Some e" using m(5) 3 by auto
    then have "se_lt y \<noteq> Some e" using o[of y] m(6) 3 by auto
    then show ?thesis using m 3 y
      by (auto simp: schedule_detach_parent_def entry_write_Some shape_def tree_at_plug keeps_def entry_key_update)
  qed
qed

lemma plug_append: "plug t (C @ D) = plug (plug t C) D"
  by (induction t C rule: plug.induct) auto

lemma plug_at: "e \<in> set_tree t \<Longrightarrow> \<exists>l r C. t = plug (Node l e r) C"
proof (induction t)
  case (Node l a r)
  then consider "e = a" | "e \<in> set_tree l" | "e \<in> set_tree r" by auto
  then show ?case
  proof cases
    case 1
    then show ?thesis by (intro exI[of _ l] exI[of _ r] exI[of _ "[]"]) simp
  next
    case 2
    then obtain ll lr C where "l = plug (Node ll e lr) C" using Node.IH by blast
    then have "Node l a r = plug (Node ll e lr) (C @ [In_Lt a r])" by (simp add: plug_append)
    then show ?thesis by blast
  next
    case 3
    then obtain ll lr C where "r = plug (Node ll e lr) C" using Node.IH by blast
    then have "Node l a r = plug (Node ll e lr) (C @ [In_Gt l a])" by (simp add: plug_append)
    then show ?thesis by blast
  qed
qed simp

lemma heap_plugD: "heap (map_tree f (plug t C)) \<Longrightarrow> heap (map_tree f t)"
  by (induction t C rule: plug.induct) auto

lemma heap_plug_ge:
  fixes f :: "nat \<Rightarrow> u32"
  shows "heap (map_tree f (plug t C)) \<Longrightarrow> \<forall>y \<in> set_tree t'. \<exists>z \<in> set_tree t. f z \<le> f y \<Longrightarrow> heap (map_tree f t') \<Longrightarrow>
    heap (map_tree f (plug t' C))"
proof (induction C arbitrary: t t' rule: before.induct)
  case (2 a r C)
  have h: "heap (map_tree f (Node t a r))" using heap_plugD[of f "Node t a r" C] "2.prems"(1) by simp
  have "\<forall>y \<in> set_tree t'. f a \<le> f y" using h "2.prems"(2) by (simp add: tree.set_map ball_Un) (metis order_trans)
  then have "heap (map_tree f (Node t' a r))" using h "2.prems"(3) by (auto simp: tree.set_map)
  moreover have "\<forall>y \<in> set_tree (Node t' a r). \<exists>z \<in> set_tree (Node t a r). f z \<le> f y" using "2.prems"(2) by auto
  ultimately show ?case using "2.IH"[of "Node t a r" "Node t' a r"] "2.prems"(1) by simp
next
  case (3 l a C)
  have h: "heap (map_tree f (Node l a t))" using heap_plugD[of f "Node l a t" C] "3.prems"(1) by simp
  have "\<forall>y \<in> set_tree t'. f a \<le> f y" using h "3.prems"(2) by (simp add: tree.set_map ball_Un) (metis order_trans)
  then have "heap (map_tree f (Node l a t'))" using h "3.prems"(3) by (auto simp: tree.set_map)
  moreover have "\<forall>y \<in> set_tree (Node l a t'). \<exists>z \<in> set_tree (Node l a t). f z \<le> f y" using "3.prems"(2) by auto
  ultimately show ?case using "3.IH"[of "Node l a t" "Node l a t'"] "3.prems"(1) by simp
qed simp

lemma heap_plug:
  fixes f :: "nat \<Rightarrow> u32"
  shows "heap (map_tree f (plug t C)) \<Longrightarrow> set_tree t' \<subseteq> set_tree t \<Longrightarrow> heap (map_tree f t') \<Longrightarrow> heap (map_tree f (plug t' C))"
  by (rule heap_plug_ge) auto

text \<open>Entries outside the tree have no links and the priority 0.\<close>

definition idle :: "schedule_entry \<Rightarrow> bool" where
  "idle x \<longleftrightarrow> se_pri x = 0 \<and> se_parent x = None \<and> se_lt x = None \<and> se_gt x = None"

definition key_of :: "(nat \<rightharpoonup> schedule_entry) \<Rightarrow> nat \<Rightarrow> timeval \<times> u32" where
  "key_of m a = the (entry_key m a)"

lemma key_of_Some [simp]: "m a = Some x \<Longrightarrow> key_of m a = (se_tv x, se_pri x)"
  by (simp add: key_of_def entry_key_def)

lemma keeps_key_of: "keeps s s' X \<Longrightarrow> key_of (sc_mem s') = key_of (sc_mem s)"
  by (simp add: keeps_def key_of_def fun_eq_iff)

lemma entry_compare_key:
  "schedule_entry_compare x y = - 1 \<longleftrightarrow> (se_tv x, se_pri x) < (se_tv y, se_pri y)"
  "schedule_entry_compare x y = 1 \<longleftrightarrow> (se_tv y, se_pri y) < (se_tv x, se_pri x)"
  unfolding less_prod_simp less_timeval_def tv_lt_def less_eq_timeval_def tv_le_def schedule_entry_compare_def
  by (cases "se_pri x" "se_pri y" rule: linorder_cases; cases "tv_sec (se_tv x)" "tv_sec (se_tv y)" rule: linorder_cases;
      cases "tv_usec (se_tv x)" "tv_usec (se_tv y)" rule: linorder_cases; simp)+

lemma remove_node_shape:
  assumes "shape s t" "e \<in> set_tree t" "heap (map_tree (pri_of (sc_mem s)) t)"
  shows "\<exists>s' t' x y. schedule_remove_node (Some e) s = Some s' \<and> shape s' t' \<and> inorder t' = filter (\<lambda>a. a \<noteq> e) (inorder t) \<and>
    heap (map_tree (pri_of (sc_mem s)) t') \<and> sc_mem s e = Some x \<and> sc_mem s' e = Some y \<and> idle y \<and> se_tv y = se_tv x \<and>
    (\<forall>a. a \<noteq> e \<longrightarrow> entry_key (sc_mem s') a = entry_key (sc_mem s) a) \<and> (\<forall>a. a \<notin> set_tree t \<longrightarrow> sc_mem s' a = sc_mem s a) \<and>
    sc_earliest_wakeup s' = sc_earliest_wakeup s"
proof -
  obtain l r C where t: "t = plug (Node l e r) C" using plug_at[OF assms(2)] by blast
  let ?f = "pri_of (sc_mem s)"
  obtain s1 C' where s1: "remove_loop (Some e) s = Some s1" "shape s1 (plug (Node Leaf e Leaf) C')"
    "plug Leaf C' = plug (treap_merge ?f l r) C" "keeps s s1 (set_tree t)"
    using remove_loop_merge assms(1) unfolding t by blast
  obtain s2 x2 where s2: "schedule_detach_parent (Some e) s1 = Some s2" "shape s2 (plug Leaf C')"
    "keeps s1 s2 (set_tree (plug (Node Leaf e Leaf) C'))" "sc_mem s2 e = Some x2" "se_parent x2 = None" "se_lt x2 = None" "se_gt x2 = None"
    using detach_parent_leaf[OF s1(2)] by blast
  let ?t' = "plug (treap_merge ?f l r) C"
  have d: "distinct (inorder t)" using assms(1) by (simp add: shape_def)
  have st: "set_tree (plug (Node Leaf e Leaf) C') = insert e (set_tree (plug Leaf C'))" by auto
  have X: "insert e (set_tree ?t') = set_tree t" using t by auto
  have k: "keeps s s2 (set_tree t)" using keeps_trans[OF s1(4)] s2(3) unfolding st s1(3) X .
  have ne: "e \<notin> set_tree ?t'" using d t by auto
  define y where "y = x2\<lparr>se_pri := 0\<rparr>"
  define s' where "s' = s2\<lparr>sc_mem := (sc_mem s2)(e \<mapsto> y)\<rparr>"
  have "schedule_remove_node (Some e) s = Some s'"
    using s1(1) s2(1,4) by (simp add: schedule_remove_node_def entry_write_Some s'_def y_def)
  moreover have "shape s' ?t'" using s2(2) ne unfolding s1(3) by (simp add: shape_def s'_def)
  moreover have "inorder ?t' = filter (\<lambda>a. a \<noteq> e) (inorder t)"
  proof -
    have "filter (\<lambda>a. a \<noteq> e) xs = xs" if "e \<notin> set xs" for xs using that by (auto intro: filter_True)
    then show ?thesis using d t by auto
  qed
  moreover have "heap (map_tree ?f ?t')"
    using assms(3) heap_plugD[of ?f "Node l e r" C] unfolding t
    by (auto intro!: heap_plug[of ?f "Node l e r" C] heap_treap_merge)
  moreover obtain x where x: "sc_mem s e = Some x" using shape_entry assms(1) unfolding t by blast
  moreover have "sc_mem s' e = Some y" "idle y" using s2(5-7) by (simp_all add: s'_def y_def idle_def)
  moreover have "se_tv y = se_tv x"
    using k x s2(4) unfolding keeps_def entry_key_def y_def by (auto dest!: fun_cong[of _ _ e])
  moreover have "\<forall>a. a \<noteq> e \<longrightarrow> entry_key (sc_mem s') a = entry_key (sc_mem s) a"
    using k by (simp add: keeps_def s'_def entry_key_def fun_eq_iff)
  moreover have "\<forall>a. a \<notin> set_tree t \<longrightarrow> sc_mem s' a = sc_mem s a" "sc_earliest_wakeup s' = sc_earliest_wakeup s"
    using k assms(2) by (auto simp: keeps_def s'_def)
  ultimately show ?thesis by blast
qed

section \<open>Insertion\<close>

definition beside :: "(nat \<rightharpoonup> schedule_entry) \<Rightarrow> timeval \<times> u32 \<Rightarrow> crumb list \<Rightarrow> bool" where
  "beside m k C \<longleftrightarrow> (\<forall>b \<in> set (before C). key_of m b < k) \<and> (\<forall>b \<in> set (behind C). k < key_of m b)"

abbreviation keys_sorted :: "(nat \<rightharpoonup> schedule_entry) \<Rightarrow> nat tree \<Rightarrow> bool" where
  "keys_sorted m t \<equiv> sorted_wrt (\<lambda>a b. key_of m a < key_of m b) (inorder t)"

text \<open>The walk down the tree ends in a collision of keys or in the place of the new entry.\<close>

lemma attach_leaf:
  assumes "shape s (plug Leaf C)" "C \<noteq> []" "e \<notin> set_tree (plug Leaf C)" "sc_mem s e = Some x" "se_lt x = None" "se_gt x = None"
    "s' = s\<lparr>sc_mem := (sc_mem s)(a \<mapsto> f y, e \<mapsto> x\<lparr>se_parent := Some a\<rparr>)\<rparr>" "crumb_ref C = Some a" "sc_mem s a = Some y"
    "case C of In_Lt _ _ # _ \<Rightarrow> f y = y\<lparr>se_lt := Some e\<rparr> | In_Gt _ _ # _ \<Rightarrow> f y = y\<lparr>se_gt := Some e\<rparr> | [] \<Rightarrow> False"
  shows "shape s' (plug (Node Leaf e Leaf) C) \<and> keeps s s' (set_tree (plug (Node Leaf e Leaf) C))"
  using assms
  by (cases C rule: before.cases) (auto simp: shape_def tree_at_plug keeps_def entry_key_update)

lemma insert_walk:
  assumes e: "sc_mem s e = Some x" "se_lt x = None" "se_gt x = None"
  shows "shape s (plug tc C) \<Longrightarrow> tc \<noteq> Leaf \<Longrightarrow> e \<notin> set_tree (plug tc C) \<Longrightarrow> keys_sorted (sc_mem s) tc \<Longrightarrow> beside (sc_mem s) (se_tv x, se_pri x) C \<Longrightarrow>
    (\<exists>b \<in> set_tree tc. key_of (sc_mem s) b = (se_tv x, se_pri x)) \<and>
      insert_loop (Some e) (root_ref tc) s rs =
        (schedule_set_pri (Some e) (s, rs) \<bind> (\<lambda>(s, rs). insert_loop (Some e) (sc_root s) s rs)) \<or>
    (\<exists>s' D. insert_loop (Some e) (root_ref tc) s rs = Some (s', rs) \<and> plug Leaf D = plug tc C \<and> shape s' (plug (Node Leaf e Leaf) D) \<and>
      keeps s s' (insert e (set_tree (plug tc C))) \<and> beside (sc_mem s) (se_tv x, se_pri x) D)"
proof (induction tc arbitrary: C)
  case (Node l c r)
  let ?k = "(se_tv x, se_pri x)" and ?m = "sc_mem s"
  obtain y where y: "sc_mem s c = Some y" "se_lt y = root_ref l" "se_gt y = root_ref r"
    using shape_entry[OF Node.prems(1)] by blast
  have kc: "key_of ?m c = (se_tv y, se_pri y)" using y(1) by simp
  have srt: "keys_sorted ?m l" "keys_sorted ?m r" "\<forall>b \<in> set_tree l. key_of ?m b < key_of ?m c" "\<forall>b \<in> set_tree r. key_of ?m c < key_of ?m b"
    using Node.prems(4) by (auto simp: sorted_wrt_append)
  have ne: "e \<noteq> c" using Node.prems(3) by auto
  consider "?k < key_of ?m c" | "key_of ?m c < ?k" | "key_of ?m c = ?k" by (rule linorder_cases[of ?k "key_of ?m c"]) auto
  then show ?case
  proof cases
    case 1
    have cmp: "schedule_entry_compare x y = - 1" using 1 kc by (simp add: entry_compare_key)
    have bes: "beside ?m ?k (In_Lt c r # C)" using Node.prems(5) 1 srt(4) unfolding beside_def by (auto intro: less_trans)
    have sh: "shape s (plug l (In_Lt c r # C))" using Node.prems(1) by simp
    show ?thesis
    proof (cases l)
      case Leaf
      let ?s' = "s\<lparr>sc_mem := (sc_mem s)(c \<mapsto> y\<lparr>se_lt := Some e\<rparr>, e \<mapsto> x\<lparr>se_parent := Some c\<rparr>)\<rparr>"
      have "insert_loop (Some e) (Some c) s rs = Some (?s', rs)"
        using e y Leaf cmp ne by (subst insert_loop.simps) (simp add: entry_write_Some)
      moreover have "shape ?s' (plug (Node Leaf e Leaf) (In_Lt c r # C)) \<and> keeps s ?s' (set_tree (plug (Node Leaf e Leaf) (In_Lt c r # C)))"
        using sh Leaf e y(1) Node.prems(3)
        by (intro attach_leaf[where a = c and y = y and x = x and f = "\<lambda>y. y\<lparr>se_lt := Some e\<rparr>"]) auto
      moreover have "set_tree (plug (Node Leaf e Leaf) (In_Lt c r # C)) = insert e (set_tree (plug (Node l c r) C))" using Leaf by auto
      ultimately show ?thesis using bes Leaf by (intro disjI2 exI[of _ ?s'] exI[of _ "In_Lt c r # C"]) auto
    next
      case (Node ll a lr)
      have "insert_loop (Some e) (Some c) s rs = insert_loop (Some e) (root_ref l) s rs"
        using e y Node cmp ne by (subst insert_loop.simps) simp
      then show ?thesis using Node.IH(1)[OF sh _ _ srt(1) bes] Node Node.prems(3) by auto
    qed
  next
    case 2
    have cmp: "schedule_entry_compare x y = 1" using 2 kc by (simp add: entry_compare_key)
    have bes: "beside ?m ?k (In_Gt l c # C)" using Node.prems(5) 2 srt(3) unfolding beside_def by (auto intro: less_trans)
    have sh: "shape s (plug r (In_Gt l c # C))" using Node.prems(1) by simp
    show ?thesis
    proof (cases r)
      case Leaf
      let ?s' = "s\<lparr>sc_mem := (sc_mem s)(c \<mapsto> y\<lparr>se_gt := Some e\<rparr>, e \<mapsto> x\<lparr>se_parent := Some c\<rparr>)\<rparr>"
      have "insert_loop (Some e) (Some c) s rs = Some (?s', rs)"
        using e y Leaf cmp ne by (subst insert_loop.simps) (simp add: entry_write_Some)
      moreover have "shape ?s' (plug (Node Leaf e Leaf) (In_Gt l c # C)) \<and> keeps s ?s' (set_tree (plug (Node Leaf e Leaf) (In_Gt l c # C)))"
        using sh Leaf e y(1) Node.prems(3)
        by (intro attach_leaf[where a = c and y = y and x = x and f = "\<lambda>y. y\<lparr>se_gt := Some e\<rparr>"]) auto
      moreover have "set_tree (plug (Node Leaf e Leaf) (In_Gt l c # C)) = insert e (set_tree (plug (Node l c r) C))" using Leaf by auto
      ultimately show ?thesis using bes Leaf by (intro disjI2 exI[of _ ?s'] exI[of _ "In_Gt l c # C"]) auto
    next
      case (Node ll a lr)
      have "insert_loop (Some e) (Some c) s rs = insert_loop (Some e) (root_ref r) s rs"
        using e y Node cmp ne by (subst insert_loop.simps) simp
      then show ?thesis using Node.IH(2)[OF sh _ _ srt(2) bes] Node Node.prems(3) by auto
    qed
  next
    case 3
    have "schedule_entry_compare x y \<noteq> - 1" "schedule_entry_compare x y \<noteq> 1" using 3 kc by (auto simp: entry_compare_key)
    then have "insert_loop (Some e) (Some c) s rs =
        (schedule_set_pri (Some e) (s, rs) \<bind> (\<lambda>(s, rs). insert_loop (Some e) (sc_root s) s rs))"
      using e y by (subst insert_loop.simps) simp
    then show ?thesis using 3 by auto
  qed
qed simp

text \<open>The new entry moves up until its parent has no greater priority.  On the way the tree is a heap
  but for the entry itself.\<close>

lemma rotate_loop_heap:
  fixes s :: schedule
  assumes "shape s (plug (Node l e r) C)" "heap (map_tree (pri_of (sc_mem s)) (plug l C))" "heap (map_tree (pri_of (sc_mem s)) (plug r C))"
    "heap (map_tree (pri_of (sc_mem s)) (Node l e r))"
  shows "\<exists>s' t. rotate_loop (Some e) s = Some s' \<and> shape s' t \<and> heap (map_tree (pri_of (sc_mem s)) t) \<and>
    inorder t = inorder (plug (Node l e r) C) \<and> keeps s s' (set_tree t)"
  using assms
proof (induction C arbitrary: s l r rule: length_induct)
  case (1 C)
  let ?f = "pri_of (sc_mem s)"
  obtain x where x: "sc_mem s e = Some x" "se_parent x = crumb_ref C" using shape_entry[OF "1.prems"(1)] by blast
  have stop: ?case if "rotate_loop (Some e) s = Some s" "heap (map_tree ?f (plug (Node l e r) C))"
    using that "1.prems"(1) by (intro exI[of _ s] exI[of _ "plug (Node l e r) C"]) simp
  have go: ?case if G: "schedule_rotate_up (Some e) s = Some s1" "rotate_loop (Some e) s = rotate_loop (Some e) s1"
    "shape s1 (plug (Node l' e r') C')" "keeps s s1 (set_tree (plug (Node l e r) C))" "length C' < length C"
    "inorder (plug (Node l' e r') C') = inorder (plug (Node l e r) C)"
    "heap (map_tree ?f (plug l' C'))" "heap (map_tree ?f (plug r' C'))" "heap (map_tree ?f (Node l' e r'))" for s1 l' r' C'
  proof -
    note f = keeps_pri_of[OF G(4)]
    obtain s' t where t: "rotate_loop (Some e) s1 = Some s'" "shape s' t" "heap (map_tree (pri_of (sc_mem s1)) t)"
      "inorder t = inorder (plug (Node l' e r') C')" "keeps s1 s' (set_tree t)"
      using "1.IH"[rule_format, OF G(5,3)] G(7-9) unfolding f by blast
    have "set_tree t = set_tree (plug (Node l e r) C)" using t(4) G(6) unfolding set_inorder[symmetric] by simp
    then have "keeps s s' (set_tree t)" using keeps_trans G(4) t(5) by metis
    then show ?thesis using t(1-4) G(2,6) unfolding f by metis
  qed
  show ?case
  proof (cases C rule: before.cases)
    case 1
    then show ?thesis using x "1.prems"(4) by (intro stop) (simp_all add: rotate_loop.simps)
  next
    case (2 p g D)
    obtain y where y: "sc_mem s p = Some y"
      using shape_entry[of s "Node l e r" p g D] "1.prems"(1) 2 by auto
    have h: "heap (map_tree ?f (Node l p g))" "heap (map_tree ?f (Node r p g))"
      using heap_plugD[of ?f "Node l p g" D] heap_plugD[of ?f "Node r p g" D] "1.prems"(2,3) 2 by auto
    show ?thesis
    proof (cases "se_pri y > se_pri x")
      case True
      obtain s1 where s1: "schedule_rotate_up (Some e) s = Some s1" "shape s1 (plug (Node l e (Node r p g)) D)"
        "keeps s s1 (set_tree (plug (Node (Node l e r) p g) D))"
        using rotate_up_lt[of s l e r p g D] "1.prems"(1) 2 by auto
      have "rotate_loop (Some e) s = rotate_loop (Some e) s1" using x y 2 True s1(1) by (subst rotate_loop.simps) simp
      moreover have "heap (map_tree ?f (plug l D))"
        using "1.prems"(2) h(1) by (auto simp: 2 intro: heap_plug[of ?f "Node l p g" D])
      moreover have "heap (map_tree ?f (plug (Node r p g) D))" using "1.prems"(3) by (simp add: 2)
      moreover have "heap (map_tree ?f (Node l e (Node r p g)))"
        using "1.prems"(4) h True x(1) y by (auto simp: tree.set_map ball_Un intro: order_trans[of "se_pri x" "se_pri y"])
      ultimately show ?thesis using s1 by (intro go[of s1 l "Node r p g" D]) (simp_all add: 2)
    next
      case False
      have "se_pri y \<le> se_pri x" using False by simp
      then have ha: "heap (map_tree ?f (Node (Node l e r) p g))"
        using "1.prems"(4) h x(1) y by (auto simp: tree.set_map ball_Un)
      have hb: "\<forall>b \<in> set_tree (Node (Node l e r) p g). \<exists>z \<in> set_tree (Node l p g). ?f z \<le> ?f b"
        using h(2) \<open>se_pri y \<le> se_pri x\<close> x(1) y by (auto simp: tree.set_map ball_Un)
      have hc: "heap (map_tree ?f (plug (Node l p g) D))" using "1.prems"(2) by (simp add: 2)
      have "heap (map_tree ?f (plug (Node (Node l e r) p g) D))" by (rule heap_plug_ge[OF hc hb ha])
      moreover have "rotate_loop (Some e) s = Some s" using x y 2 False by (subst rotate_loop.simps) simp
      ultimately show ?thesis by (intro stop) (simp_all add: 2)
    qed
  next
    case (3 g p D)
    obtain y where y: "sc_mem s p = Some y"
      using shape_entry[of s g p "Node l e r" D] "1.prems"(1) 3 by auto
    have h: "heap (map_tree ?f (Node g p l))" "heap (map_tree ?f (Node g p r))"
      using heap_plugD[of ?f "Node g p l" D] heap_plugD[of ?f "Node g p r" D] "1.prems"(2,3) 3 by auto
    show ?thesis
    proof (cases "se_pri y > se_pri x")
      case True
      obtain s1 where s1: "schedule_rotate_up (Some e) s = Some s1" "shape s1 (plug (Node (Node g p l) e r) D)"
        "keeps s s1 (set_tree (plug (Node g p (Node l e r)) D))"
        using rotate_up_gt[of s g p l e r D] "1.prems"(1) 3 by auto
      have "rotate_loop (Some e) s = rotate_loop (Some e) s1" using x y 3 True s1(1) by (subst rotate_loop.simps) simp
      moreover have "heap (map_tree ?f (plug r D))"
        using "1.prems"(3) h(2) by (auto simp: 3 intro: heap_plug[of ?f "Node g p r" D])
      moreover have "heap (map_tree ?f (plug (Node g p l) D))" using "1.prems"(2) by (simp add: 3)
      moreover have "heap (map_tree ?f (Node (Node g p l) e r))"
        using "1.prems"(4) h True x(1) y by (auto simp: tree.set_map ball_Un intro: order_trans[of "se_pri x" "se_pri y"])
      ultimately show ?thesis using s1 by (intro go[of s1 "Node g p l" r D]) (simp_all add: 3)
    next
      case False
      have "se_pri y \<le> se_pri x" using False by simp
      then have ha: "heap (map_tree ?f (Node g p (Node l e r)))"
        using "1.prems"(4) h x(1) y by (auto simp: tree.set_map ball_Un)
      have hb: "\<forall>b \<in> set_tree (Node g p (Node l e r)). \<exists>z \<in> set_tree (Node g p l). ?f z \<le> ?f b"
        using h(2) \<open>se_pri y \<le> se_pri x\<close> x(1) y by (auto simp: tree.set_map ball_Un)
      have hc: "heap (map_tree ?f (plug (Node g p l) D))" using "1.prems"(2) by (simp add: 3)
      have "heap (map_tree ?f (plug (Node g p (Node l e r)) D))" by (rule heap_plug_ge[OF hc hb ha])
      moreover have "rotate_loop (Some e) s = Some s" using x y 3 False by (subst rotate_loop.simps) simp
      ultimately show ?thesis by (intro stop) (simp_all add: 3)
    qed
  qed
qed

lemma least_loop_hd: "tree_at (sc_mem s) p par t \<Longrightarrow> t \<noteq> Leaf \<Longrightarrow> least_loop s p = Some (Some (List.hd (inorder t)))"
proof (induction t arbitrary: p par)
  case (Node l a r)
  obtain x where x: "p = Some a" "sc_mem s a = Some x" "tree_at (sc_mem s) (se_lt x) (Some a) l" using Node.prems(1) by auto
  show ?case
  proof (cases "l = Leaf")
    case True
    then show ?thesis using x by (subst least_loop.simps) simp
  next
    case False
    then have "se_lt x \<noteq> None" using x(3) by (cases l) auto
    then have "least_loop s p = least_loop s (se_lt x)" using x by (subst least_loop.simps) simp
    then show ?thesis using Node.IH(1)[OF x(3)] False by (cases l) (auto simp: hd_append)
  qed
qed simp

lemma find_least_hd:
  "shape s t \<Longrightarrow> schedule_find_least s (sc_root s) = Some (if t = Leaf then None else Some (List.hd (inorder t)))"
  unfolding schedule_find_least_def shape_def by (cases t) (auto simp: least_loop_hd simp del: inorder.simps)

section \<open>The invariant\<close>

definition sched_inv :: "schedule \<Rightarrow> nat tree \<Rightarrow> bool" where
  "sched_inv s t \<longleftrightarrow> shape s t \<and> keys_sorted (sc_mem s) t \<and> heap (map_tree (pri_of (sc_mem s)) t) \<and>
     (\<forall>a \<in> set_tree t. pri_of (sc_mem s) a \<noteq> 0) \<and> (\<forall>a x. sc_mem s a = Some x \<and> a \<notin> set_tree t \<longrightarrow> idle x)"

text \<open>\<open>random()\<close> keeps returning at least as many different values as there are entries.\<close>

definition enough_random :: "(nat \<rightharpoonup> schedule_entry) \<Rightarrow> u32 stream \<Rightarrow> bool" where
  "enough_random m rs \<longleftrightarrow> finite (dom m) \<and> (\<forall>n. card (dom m) \<le> card (random_pri ` sset (sdrop n rs)))"

lemma enough_random_sdrop: "enough_random m rs \<Longrightarrow> dom m' = dom m \<Longrightarrow> enough_random m' (sdrop n rs)"
  by (simp add: enough_random_def sdrop_add)

lemma random_pri_pos [simp]: "random_pri r \<noteq> 0"
  by (simp add: random_pri_def word_less_1)

definition collides :: "(nat \<rightharpoonup> schedule_entry) \<Rightarrow> nat tree \<Rightarrow> timeval \<Rightarrow> u32 \<Rightarrow> bool" where
  "collides m t tv q \<longleftrightarrow> (\<exists>b \<in> set_tree t. key_of m b = (tv, q))"

lemma tree_at_dom: "tree_at m p par t \<Longrightarrow> set_tree t \<subseteq> dom m"
  by (induction t arbitrary: p par) (simp, fastforce)

lemma enough_random_avoids:
  assumes "enough_random m rs" "set_tree t \<subseteq> dom m" "e \<in> dom m" "e \<notin> set_tree t"
  shows "\<exists>n. \<not> collides m t tv (random_pri (rs !! n))"
proof -
  have f: "finite (dom m)" "card (dom m) \<le> card (random_pri ` sset rs)"
    using assms(1) unfolding enough_random_def by (auto dest: spec[of _ 0])
  have "card (snd ` key_of m ` set_tree t) \<le> card (set_tree t)"
    unfolding image_comp by (rule card_image_le) simp
  also have "card (set_tree t) < card (dom m)" using assms(2-4) f(1) by (intro psubset_card_mono) auto
  finally have "\<not> random_pri ` sset rs \<subseteq> snd ` key_of m ` set_tree t"
    using f(2) card_mono[of "snd ` key_of m ` set_tree t" "random_pri ` sset rs"] by auto
  then obtain r where r: "r \<in> sset rs" "random_pri r \<notin> snd ` key_of m ` set_tree t" by blast
  obtain n where "r = rs !! n" using r(1) by (auto simp: sset_range)
  then show ?thesis using r(2) unfolding collides_def by (intro exI[of _ n]) force
qed

lemma shape_frame: "e \<notin> set_tree t \<Longrightarrow> shape (s\<lparr>sc_mem := (sc_mem s)(e := v)\<rparr>) t = shape s t"
  by (simp add: shape_def)

lemma key_of_frame [simp]: "a \<noteq> e \<Longrightarrow> key_of (m(e := v)) a = key_of m a"
  by (simp add: key_of_def entry_key_def)

lemma keys_sorted_cong: "(\<And>a. a \<in> set_tree t \<Longrightarrow> key_of m' a = key_of m a) \<Longrightarrow> keys_sorted m' t = keys_sorted m t"
  by (auto elim!: sorted_wrt_mono_rel[rotated])

lemma insert_retry:
  assumes "t \<noteq> Leaf"
  shows "shape s t \<Longrightarrow> keys_sorted (sc_mem s) t \<Longrightarrow> e \<notin> set_tree t \<Longrightarrow> sc_mem s e = Some x \<Longrightarrow> se_lt x = None \<Longrightarrow> se_gt x = None \<Longrightarrow>
    se_pri x \<noteq> 0 \<Longrightarrow> (case k of 0 \<Rightarrow> \<not> collides (sc_mem s) t (se_tv x) (se_pri x)
      | Suc n \<Rightarrow> \<not> collides (sc_mem s) t (se_tv x) (random_pri (rs !! n))) \<Longrightarrow>
    \<exists>s' n q D. insert_loop (Some e) (sc_root s) s rs = Some (s', sdrop n rs) \<and> plug Leaf D = t \<and> shape s' (plug (Node Leaf e Leaf) D) \<and>
      keeps (s\<lparr>sc_mem := (sc_mem s)(e \<mapsto> x\<lparr>se_pri := q\<rparr>)\<rparr>) s' (insert e (set_tree t)) \<and> beside (sc_mem s) (se_tv x, q) D \<and> q \<noteq> 0"
proof (induction k arbitrary: s x rs)
  case (0 s x rs)
  have r: "root_ref t = sc_root s" using "0.prems"(1) by (auto simp: shape_def dest: tree_at_root_ref)
  have b: "beside (sc_mem s) (se_tv x, se_pri x) []" by (simp add: beside_def)
  obtain s' D where w: "insert_loop (Some e) (sc_root s) s rs = Some (s', rs)" "plug Leaf D = t" "shape s' (plug (Node Leaf e Leaf) D)"
    "keeps s s' (insert e (set_tree t))" "beside (sc_mem s) (se_tv x, se_pri x) D"
    using insert_walk[of s e x t "[]" rs] "0.prems" assms b unfolding collides_def r by auto
  have "s\<lparr>sc_mem := (sc_mem s)(e \<mapsto> x\<lparr>se_pri := se_pri x\<rparr>)\<rparr> = s" using "0.prems"(4) by (simp add: fun_upd_idem)
  then show ?case using w "0.prems"(7) by (intro exI[of _ s'] exI[of _ "0 :: nat"] exI[of _ "se_pri x"] exI[of _ D]) (simp del: fun_upd_apply)
next
  case (Suc n s x rs)
  have r: "root_ref t = sc_root s" using Suc.prems(1) by (auto simp: shape_def dest: tree_at_root_ref)
  have b: "beside (sc_mem s) (se_tv x, se_pri x) []" by (simp add: beside_def)
  consider (walk) s' D where "insert_loop (Some e) (sc_root s) s rs = Some (s', rs)" "plug Leaf D = t" "shape s' (plug (Node Leaf e Leaf) D)"
    "keeps s s' (insert e (set_tree t))" "beside (sc_mem s) (se_tv x, se_pri x) D"
  | (again) "insert_loop (Some e) (sc_root s) s rs =
        (schedule_set_pri (Some e) (s, rs) \<bind> (\<lambda>(s, rs). insert_loop (Some e) (sc_root s) s rs))"
    using insert_walk[of s e x t "[]" rs] Suc.prems assms b unfolding r by auto
  then show ?case
  proof cases
    case walk
    have "s\<lparr>sc_mem := (sc_mem s)(e \<mapsto> x\<lparr>se_pri := se_pri x\<rparr>)\<rparr> = s" using Suc.prems(4) by (simp add: fun_upd_idem)
    then show ?thesis using walk Suc.prems(7) by (intro exI[of _ s'] exI[of _ "0 :: nat"] exI[of _ "se_pri x"] exI[of _ D]) (simp del: fun_upd_apply)
  next
    case again
    define x1 where "x1 = x\<lparr>se_pri := random_pri (shd rs)\<rparr>"
    define s1 where "s1 = s\<lparr>sc_mem := (sc_mem s)(e \<mapsto> x1)\<rparr>"
    have st: "insert_loop (Some e) (sc_root s) s rs = insert_loop (Some e) (sc_root s1) s1 (stl rs)"
      using again Suc.prems(4) by (simp add: schedule_set_pri_def entry_write_Some s1_def x1_def)
    have ko: "key_of (sc_mem s1) a = key_of (sc_mem s) a" if "a \<in> set_tree t" for a
    proof -
      have "a \<noteq> e" using that Suc.prems(3) by blast
      then show ?thesis by (simp add: s1_def)
    qed
    have c: "collides (sc_mem s1) t tv q = collides (sc_mem s) t tv q" for tv q
      unfolding collides_def using ko by simp
    have p: "shape s1 t" "keys_sorted (sc_mem s1) t" "sc_mem s1 e = Some x1" "se_lt x1 = None" "se_gt x1 = None" "se_pri x1 \<noteq> 0"
      "se_tv x1 = se_tv x"
      using Suc.prems shape_frame[of e t s] keys_sorted_cong[of t "sc_mem s1" "sc_mem s"] ko by (auto simp: s1_def x1_def)
    have "case n of 0 \<Rightarrow> \<not> collides (sc_mem s1) t (se_tv x1) (se_pri x1)
      | Suc n \<Rightarrow> \<not> collides (sc_mem s1) t (se_tv x1) (random_pri (stl rs !! n))"
      using Suc.prems(8) by (cases n) (simp_all add: c x1_def)
    from Suc.IH[OF p(1,2) Suc.prems(3) p(3-6) this] obtain s' k q D where
      "insert_loop (Some e) (sc_root s1) s1 (stl rs) = Some (s', sdrop k (stl rs))" "plug Leaf D = t" "shape s' (plug (Node Leaf e Leaf) D)"
      "keeps (s1\<lparr>sc_mem := (sc_mem s1)(e \<mapsto> x1\<lparr>se_pri := q\<rparr>)\<rparr>) s' (insert e (set_tree t))" "beside (sc_mem s1) (se_tv x1, q) D" "q \<noteq> 0"
      by blast
    moreover have "s1\<lparr>sc_mem := (sc_mem s1)(e \<mapsto> x1\<lparr>se_pri := q\<rparr>)\<rparr> = s\<lparr>sc_mem := (sc_mem s)(e \<mapsto> x\<lparr>se_pri := q\<rparr>)\<rparr>" for q
      by (simp add: s1_def x1_def)
    moreover have "beside (sc_mem s1) k D = beside (sc_mem s) k D" if "plug Leaf D = t" for k D
      using ko that unfolding beside_def by auto
    ultimately show ?thesis unfolding st using p(7) by (intro exI[of _ s'] exI[of _ "Suc k"] exI[of _ q] exI[of _ D]) (simp del: fun_upd_apply)
  qed
qed

lemma pri_of_frame [simp]: "a \<noteq> e \<Longrightarrow> pri_of (m(e := v)) a = pri_of m a"
  by (simp add: pri_of_def entry_key_def)

lemma heap_pri_cong: "(\<And>a. a \<in> set_tree t \<Longrightarrow> pri_of m' a = pri_of m a) \<Longrightarrow> map_tree (pri_of m') t = map_tree (pri_of m) t"
  by (rule tree.map_cong0)

definition wake_times :: "schedule \<Rightarrow> nat \<Rightarrow> timeval option" where
  "wake_times s a = map_option se_tv (sc_mem s a)"

lemma keeps_wake_times: "keeps s s' X \<Longrightarrow> wake_times s' = wake_times s"
proof -
  assume "keeps s s' X"
  then have "entry_key (sc_mem s') a = entry_key (sc_mem s) a" for a by (simp add: keeps_def)
  then have "map_option fst (entry_key (sc_mem s') a) = map_option fst (entry_key (sc_mem s) a)" for a by simp
  then show ?thesis by (simp add: wake_times_def entry_key_def option.map_comp comp_def fun_eq_iff)
qed

text \<open>The middle of \<open>schedule_add_modify\<close>: an entry outside the tree gets a priority and a place.\<close>

lemma place_entry:
  assumes inv: "sched_inv s t" and e: "e \<notin> set_tree t" "sc_mem s e = Some x" and rnd: "enough_random (sc_mem s) rs"
  shows "\<exists>s' n q D. (schedule_set_pri (Some e) (s, rs) \<bind>
      (\<lambda>(s, rs). if sc_root s \<noteq> None then schedule_insert (Some e) s rs else Some (s\<lparr>sc_root := Some e\<rparr>, rs))) = Some (s', sdrop n rs) \<and>
    plug Leaf D = t \<and> shape s' (plug (Node Leaf e Leaf) D) \<and>
    keeps (s\<lparr>sc_mem := (sc_mem s)(e \<mapsto> x\<lparr>se_pri := q\<rparr>)\<rparr>) s' (insert e (set_tree t)) \<and> beside (sc_mem s) (se_tv x, q) D \<and> q \<noteq> 0"
proof -
  define x1 where "x1 = x\<lparr>se_pri := random_pri (shd rs)\<rparr>"
  define s1 where "s1 = s\<lparr>sc_mem := (sc_mem s)(e \<mapsto> x1)\<rparr>"
  have idle: "se_parent x = None" "se_lt x = None" "se_gt x = None" using inv e unfolding sched_inv_def idle_def by blast+
  have sp: "schedule_set_pri (Some e) (s, rs) = Some (s1, stl rs)"
    using e(2) by (simp add: schedule_set_pri_def entry_write_Some s1_def x1_def)
  have ne: "a \<noteq> e" if "a \<in> set_tree t" for a using that e(1) by blast
  have ko: "key_of (sc_mem s1) a = key_of (sc_mem s) a" if "a \<in> set_tree t" for a
    using ne[OF that] by (simp add: s1_def)
  have sh: "shape s1 t" using inv e(1) shape_frame[of e t s] by (simp add: sched_inv_def s1_def del: fun_upd_apply)
  have upd: "s1\<lparr>sc_mem := (sc_mem s1)(e \<mapsto> x1\<lparr>se_pri := q\<rparr>)\<rparr> = s\<lparr>sc_mem := (sc_mem s)(e \<mapsto> x\<lparr>se_pri := q\<rparr>)\<rparr>" for q
    by (simp add: s1_def x1_def)
  show ?thesis
  proof (cases "t = Leaf")
    case True
    let ?s' = "s1\<lparr>sc_root := Some e\<rparr>"
    have "sc_root s1 = None" using sh True by (simp add: shape_def)
    moreover have "shape ?s' (plug (Node Leaf e Leaf) [])" using idle by (simp add: shape_def s1_def x1_def)
    moreover have "keeps (s\<lparr>sc_mem := (sc_mem s)(e \<mapsto> x\<lparr>se_pri := random_pri (shd rs)\<rparr>)\<rparr>) ?s' (insert e (set_tree t))"
      by (simp add: keeps_def s1_def x1_def)
    ultimately show ?thesis using sp True
      by (intro exI[of _ ?s'] exI[of _ "1 :: nat"] exI[of _ "random_pri (shd rs)"] exI[of _ "[]"]) (simp add: beside_def del: fun_upd_apply)
  next
    case False
    then have root: "sc_root s1 \<noteq> None" using sh by (cases t) (auto simp: shape_def)
    have "enough_random (sc_mem s1) (stl rs)"
      using enough_random_sdrop[OF rnd, of "sc_mem s1" 1] e(2) by (simp add: s1_def insert_absorb domI)
    moreover have "set_tree t \<subseteq> dom (sc_mem s1)" using sh by (auto simp: shape_def dest: tree_at_dom)
    moreover have "e \<in> dom (sc_mem s1)" by (simp add: s1_def)
    ultimately obtain n where n: "\<not> collides (sc_mem s1) t (se_tv x1) (random_pri (stl rs !! n))"
      using enough_random_avoids[of "sc_mem s1" "stl rs" t e] e(1) by blast
    have p: "keys_sorted (sc_mem s1) t" "sc_mem s1 e = Some x1" "se_lt x1 = None" "se_gt x1 = None" "se_pri x1 \<noteq> 0" "se_tv x1 = se_tv x"
      using inv idle keys_sorted_cong[of t "sc_mem s1" "sc_mem s"] ko by (auto simp: s1_def x1_def sched_inv_def)
    obtain s' k q D where w: "insert_loop (Some e) (sc_root s1) s1 (stl rs) = Some (s', sdrop k (stl rs))" "plug Leaf D = t"
      "shape s' (plug (Node Leaf e Leaf) D)" "keeps (s1\<lparr>sc_mem := (sc_mem s1)(e \<mapsto> x1\<lparr>se_pri := q\<rparr>)\<rparr>) s' (insert e (set_tree t))"
      "beside (sc_mem s1) (se_tv x1, q) D" "q \<noteq> 0"
      using insert_retry[OF False sh p(1) e(1) p(2-5), where k = "Suc n" and rs = "stl rs"] n by auto
    have "beside (sc_mem s) (se_tv x, q) D" using w(2,5) ko p(6) unfolding beside_def by auto
    then show ?thesis using w(1-4,6) root sp unfolding upd
      by (intro exI[of _ s'] exI[of _ "Suc k"] exI[of _ q] exI[of _ D]) (simp add: schedule_insert_def del: fun_upd_apply)
  qed
qed

lemma place_rotate:
  assumes inv: "sched_inv s t" and e: "e \<notin> set_tree t" "sc_mem s e = Some x" and rnd: "enough_random (sc_mem s) rs"
  shows "\<exists>s' t' n. (do {
      (s, rs) \<leftarrow> schedule_set_pri (Some e) (s, rs);
      (s, rs) \<leftarrow> (if sc_root s \<noteq> None then schedule_insert (Some e) s rs else Some (s\<lparr>sc_root := Some e\<rparr>, rs));
      s \<leftarrow> rotate_loop (Some e) s;
      Some (s, rs) }) = Some (s', sdrop n rs) \<and>
    sched_inv s' t' \<and> set_tree t' = insert e (set_tree t) \<and> wake_times s' = wake_times s \<and>
    sc_earliest_wakeup s' = sc_earliest_wakeup s"
proof -
  obtain s1 n q D where w: "(schedule_set_pri (Some e) (s, rs) \<bind>
      (\<lambda>(s, rs). if sc_root s \<noteq> None then schedule_insert (Some e) s rs else Some (s\<lparr>sc_root := Some e\<rparr>, rs))) = Some (s1, sdrop n rs)"
    "plug Leaf D = t" "shape s1 (plug (Node Leaf e Leaf) D)"
    "keeps (s\<lparr>sc_mem := (sc_mem s)(e \<mapsto> x\<lparr>se_pri := q\<rparr>)\<rparr>) s1 (insert e (set_tree t))" "beside (sc_mem s) (se_tv x, q) D" "q \<noteq> 0"
    using place_entry[OF assms] by blast
  define s0 where "s0 = s\<lparr>sc_mem := (sc_mem s)(e \<mapsto> x\<lparr>se_pri := q\<rparr>)\<rparr>"
  note k1 = w(4)[folded s0_def]
  have ne: "a \<noteq> e" if "a \<in> set_tree t" for a using that e(1) by blast
  have f0: "pri_of (sc_mem s0) a = pri_of (sc_mem s) a" "key_of (sc_mem s0) a = key_of (sc_mem s) a" if "a \<in> set_tree t" for a
    using ne[OF that] by (simp_all add: s0_def)
  have h0: "heap (map_tree (pri_of (sc_mem s1)) t)"
    using inv heap_pri_cong[of t "sc_mem s0" "sc_mem s"] f0(1) unfolding sched_inv_def keeps_pri_of[OF k1] by simp
  obtain s2 t2 where r: "rotate_loop (Some e) s1 = Some s2" "shape s2 t2" "heap (map_tree (pri_of (sc_mem s1)) t2)"
    "inorder t2 = inorder (plug (Node Leaf e Leaf) D)" "keeps s1 s2 (set_tree t2)"
    using rotate_loop_heap[OF w(3)] h0 w(2) by auto
  have st: "set_tree t2 = insert e (set_tree t)" using r(4) unfolding set_inorder[symmetric] w(2)[symmetric] by auto
  note k2 = keeps_trans[OF k1 r(5)[unfolded st]]
  have "keys_sorted (sc_mem s2) t2"
  proof -
    have tD: "set (before D) \<union> set (behind D) = set_tree t" using w(2) by auto
    have "keys_sorted (sc_mem s) (plug Leaf D)" using inv w(2) by (simp add: sched_inv_def)
    then have srt: "sorted_wrt (\<lambda>a b. key_of (sc_mem s0) a < key_of (sc_mem s0) b) (before D @ behind D)"
      using f0(2) tD by (auto elim!: sorted_wrt_mono_rel[rotated])
    have ke: "key_of (sc_mem s0) e = (se_tv x, q)" by (simp add: s0_def)
    have "\<forall>b \<in> set (before D). key_of (sc_mem s0) b < (se_tv x, q)" "\<forall>b \<in> set (behind D). (se_tv x, q) < key_of (sc_mem s0) b"
      using w(5) f0(2)[unfolded tD[symmetric]] unfolding beside_def by auto
    then show ?thesis using srt ke unfolding r(4) keeps_key_of[OF k2] by (auto simp: sorted_wrt_append)
  qed
  moreover have "heap (map_tree (pri_of (sc_mem s2)) t2)" using r(3) keeps_pri_of[OF r(5)] by simp
  moreover have "\<forall>a \<in> set_tree t2. pri_of (sc_mem s2) a \<noteq> 0"
    using inv w(6) f0(1) unfolding keeps_pri_of[OF k2] st sched_inv_def by (auto simp: s0_def)
  moreover have "\<forall>a y. sc_mem s2 a = Some y \<and> a \<notin> set_tree t2 \<longrightarrow> idle y"
    using inv k2 unfolding st sched_inv_def keeps_def by (auto simp: s0_def)
  ultimately have "sched_inv s2 t2" using r(2) by (simp add: sched_inv_def)
  moreover have "wake_times s2 = wake_times s"
    unfolding keeps_wake_times[OF k2] using e(2) by (simp add: wake_times_def s0_def fun_eq_iff)
  moreover have "sc_earliest_wakeup s2 = sc_earliest_wakeup s" using k2 by (simp add: keeps_def s0_def)
  ultimately show ?thesis using w(1) r(1) st
    by (intro exI[of _ s2] exI[of _ t2] exI[of _ n]; cases "schedule_set_pri (Some e) (s, rs)") (auto split: prod.splits)
qed

lemma remove_node_idle:
  assumes "sc_mem s e = Some x" "idle x" "sc_root s \<noteq> Some e"
  shows "schedule_remove_node (Some e) s = Some s"
proof -
  have "remove_loop (Some e) s = Some s" using assms by (subst remove_loop.simps) (simp add: idle_def)
  then have "schedule_remove_node (Some e) s = Some (s\<lparr>sc_mem := (sc_mem s)(e \<mapsto> x\<lparr>se_pri := 0\<rparr>)\<rparr>)"
    using assms by (simp add: schedule_remove_node_def schedule_detach_parent_def entry_write_Some idle_def)
  moreover have "x\<lparr>se_pri := 0\<rparr> = x" using assms(2) by (simp add: idle_def)
  ultimately show ?thesis using assms(1) by (simp add: fun_upd_idem)
qed

lemma shape_root: "shape s t \<Longrightarrow> e \<notin> set_tree t \<Longrightarrow> sc_root s \<noteq> Some e"
  by (cases t) (auto simp: shape_def)

text \<open>Removal establishes the invariant for the rest, even when the time of the entry was changed before.\<close>

lemma remove_node_inv:
  assumes inv: "sched_inv s0 t" and e: "sc_mem s0 e = Some x" "sc_mem s = (sc_mem s0)(e \<mapsto> x\<lparr>se_tv := tv\<rparr>)" "sc_root s = sc_root s0"
  shows "\<exists>s' t'. schedule_remove_node (Some e) s = Some s' \<and> sched_inv s' t' \<and> set_tree t' = set_tree t - {e} \<and>
    wake_times s' = wake_times s \<and> sc_earliest_wakeup s' = sc_earliest_wakeup s"
proof -
  have ent: "sc_mem s e = Some (x\<lparr>se_tv := tv\<rparr>)" using e(2) by simp
  have pf: "pri_of (sc_mem s) = pri_of (sc_mem s0)" using e(1,2) by (auto simp: pri_of_def entry_key_def fun_eq_iff)
  have "tree_at (sc_mem s) p par u = tree_at (sc_mem s0) p par u" for p par u
    by (induction u arbitrary: p par) (use e(1,2) in auto)
  then have sh: "shape s t" using inv e(3) by (simp add: sched_inv_def shape_def)
  show ?thesis
  proof (cases "e \<in> set_tree t")
    case True
    obtain s' t' y where r: "schedule_remove_node (Some e) s = Some s'" "shape s' t'" "inorder t' = filter (\<lambda>a. a \<noteq> e) (inorder t)"
      "heap (map_tree (pri_of (sc_mem s)) t')" "sc_mem s' e = Some y" "idle y" "se_tv y = tv"
      "\<forall>a. a \<noteq> e \<longrightarrow> entry_key (sc_mem s') a = entry_key (sc_mem s) a" "\<forall>a. a \<notin> set_tree t \<longrightarrow> sc_mem s' a = sc_mem s a"
      "sc_earliest_wakeup s' = sc_earliest_wakeup s"
      using remove_node_shape[OF sh True] inv ent unfolding pf sched_inv_def by auto
    have st: "set_tree t' = set_tree t - {e}" using r(3) unfolding set_inorder[symmetric] by auto
    have ek: "entry_key (sc_mem s') a = entry_key (sc_mem s0) a" if "a \<noteq> e" for a using r(8) that e(2) by (simp add: entry_key_def)
    have "sorted_wrt (\<lambda>a b. key_of (sc_mem s0) a < key_of (sc_mem s0) b) (inorder t')"
      using inv unfolding r(3) sched_inv_def by (intro sorted_wrt_filter) blast
    then have "keys_sorted (sc_mem s') t'"
      using ek st by (elim sorted_wrt_mono_rel[rotated]) (auto simp: key_of_def)
    moreover have "heap (map_tree (pri_of (sc_mem s')) t')"
      using r(4) heap_pri_cong[of t' "sc_mem s'" "sc_mem s"] ek st unfolding pf by (auto simp: pri_of_def)
    moreover have "\<forall>a \<in> set_tree t'. pri_of (sc_mem s') a \<noteq> 0"
      using inv ek st unfolding sched_inv_def by (auto simp: pri_of_def)
    moreover have "\<forall>a z. sc_mem s' a = Some z \<and> a \<notin> set_tree t' \<longrightarrow> idle z"
      using inv r(5,6,9) e(2) st True unfolding sched_inv_def by (auto simp: fun_upd_def split: if_splits)
    ultimately have "sched_inv s' t'" using r(2) by (simp add: sched_inv_def)
    moreover have "wake_times s' a = wake_times s a" for a
    proof (cases "a = e")
      case True
      then show ?thesis using r(5,7) ent by (simp add: wake_times_def)
    next
      case False
      then have "map_option fst (entry_key (sc_mem s') a) = map_option fst (entry_key (sc_mem s) a)" using r(8) by simp
      then show ?thesis by (simp add: wake_times_def entry_key_def option.map_comp comp_def)
    qed
    ultimately show ?thesis using r(1,10) st by blast
  next
    case False
    have id: "idle x" using inv e(1) False by (auto simp: sched_inv_def)
    have r: "schedule_remove_node (Some e) s = Some s"
      using id shape_root[OF sh False] by (intro remove_node_idle[OF ent]) (simp_all add: idle_def)
    have ne: "a \<noteq> e" if "a \<in> set_tree t" for a using that False by blast
    have ko: "key_of (sc_mem s) a = key_of (sc_mem s0) a" if "a \<in> set_tree t" for a using ne[OF that] e(2) by simp
    have "sched_inv s t" using inv sh keys_sorted_cong[of t "sc_mem s" "sc_mem s0"] ko e(1,2) unfolding sched_inv_def pf
      by (auto simp: idle_def)
    then show ?thesis using r False by auto
  qed
qed

lemma remove_entry_inv:
  assumes inv: "sched_inv s t" and e: "e \<in> dom (sc_mem s)"
  shows "\<exists>s' t'. schedule_remove_entry (Some e) s = Some s' \<and> sched_inv s' t' \<and> set_tree t' = set_tree t - {e} \<and>
    wake_times s' = wake_times s \<and> sc_earliest_wakeup s' = None"
proof -
  obtain x where x: "sc_mem s e = Some x" using e by blast
  have "sc_mem (s\<lparr>sc_earliest_wakeup := None\<rparr>) = (sc_mem s)(e \<mapsto> x\<lparr>se_tv := se_tv x\<rparr>)" using x by (simp add: fun_upd_idem)
  from remove_node_inv[OF inv x this] show ?thesis
    by (auto simp: schedule_remove_entry_def wake_times_def fun_eq_iff)
qed

lemma add_entry_inv:
  assumes inv: "sched_inv s t" and e: "sc_mem s e = Some x" and rnd: "enough_random (sc_mem s) rs"
    and new: "\<not> IN_TREE x \<or> sigma = 0 \<or> \<not> tv_within_sigma tv (se_tv x) sigma"
  shows "\<exists>s' t' n. schedule_add_entry (Some e) tv sigma s rs = Some (s', sdrop n rs) \<and> sched_inv s' t' \<and> set_tree t' = insert e (set_tree t) \<and>
    wake_times s' = (wake_times s)(e \<mapsto> tv) \<and> sc_earliest_wakeup s' = None"
proof -
  define s1 where "s1 = s\<lparr>sc_mem := (sc_mem s)(e \<mapsto> x\<lparr>se_tv := tv\<rparr>)\<rparr>"
  have w1: "wake_times s1 = (wake_times s)(e \<mapsto> tv)" by (simp add: wake_times_def s1_def fun_eq_iff)
  obtain s2 t2 where r: "schedule_remove_node (Some e) s1 = Some s2" "sched_inv s2 t2" "set_tree t2 = set_tree t - {e}"
    "wake_times s2 = wake_times s1" "sc_earliest_wakeup s2 = sc_earliest_wakeup s1"
    using remove_node_inv[OF inv e, of s1 tv] by (auto simp: s1_def)
  have d: "dom (sc_mem s2) = dom (sc_mem s)"
  proof -
    have "dom (wake_times u) = dom (sc_mem u)" for u by (auto simp: wake_times_def)
    then show ?thesis using r(4) w1 e by (metis dom_fun_upd domI insert_absorb option.distinct(1))
  qed
  obtain s3 t3 where m: "(if IN_TREE (x\<lparr>se_tv := tv\<rparr>) then schedule_remove_node (Some e) s1 else Some s1) = Some s3" "sched_inv s3 t3" "e \<notin> set_tree t3"
    "insert e (set_tree t3) = insert e (set_tree t)" "wake_times s3 = wake_times s1" "dom (sc_mem s3) = dom (sc_mem s)"
  proof (cases "IN_TREE x")
    case True
    show ?thesis by (rule that[of s2 t2]) (use True r d in \<open>auto simp: IN_TREE_def\<close>)
  next
    case False
    have nt: "e \<notin> set_tree t" using inv e False unfolding sched_inv_def IN_TREE_def by auto
    have "idle x" "shape s t" using inv e nt by (auto simp: sched_inv_def)
    then have "schedule_remove_node (Some e) s1 = Some s1"
      using shape_root[OF _ nt] by (intro remove_node_idle[of _ _ "x\<lparr>se_tv := tv\<rparr>"]) (auto simp: s1_def idle_def)
    then show ?thesis using r d False by (intro that[of s2 t2]) (auto simp: IN_TREE_def)
  qed
  obtain x3 where x3: "sc_mem s3 e = Some x3" using m(6) e by blast
  obtain s4 t4 n where p: "(do {
      (s, rs) \<leftarrow> schedule_set_pri (Some e) (s3, rs);
      (s, rs) \<leftarrow> (if sc_root s \<noteq> None then schedule_insert (Some e) s rs else Some (s\<lparr>sc_root := Some e\<rparr>, rs));
      s \<leftarrow> rotate_loop (Some e) s;
      Some (s, rs) }) = Some (s4, sdrop n rs)" "sched_inv s4 t4" "set_tree t4 = insert e (set_tree t3)" "wake_times s4 = wake_times s3"
    using place_rotate[OF m(2,3) x3 rnd[unfolded enough_random_def m(6)[symmetric], folded enough_random_def]]
    by (elim exE conjE) (rule that)
  have "schedule_add_modify (Some e) s1 rs = Some (s4, sdrop n rs)"
  proof -
    have "entry_at s1 (Some e) = Some (x\<lparr>se_tv := tv\<rparr>)" by (simp add: s1_def)
    then show ?thesis by (simp only: schedule_add_modify_def bind.bind_lunit m(1) p(1))
  qed
  moreover have "entry_write (Some e) (\<lambda>y. y\<lparr>se_tv := tv\<rparr>) s = Some s1" using e by (simp add: entry_write_Some s1_def)
  ultimately have "schedule_add_entry (Some e) tv sigma s rs = Some (s4\<lparr>sc_earliest_wakeup := None\<rparr>, sdrop n rs)"
    using new e by (simp add: schedule_add_entry_def)
  moreover have "sched_inv (s4\<lparr>sc_earliest_wakeup := None\<rparr>) t4" using p(2) by (simp add: sched_inv_def shape_def)
  moreover have "wake_times (s4\<lparr>sc_earliest_wakeup := None\<rparr>) = (wake_times s)(e \<mapsto> tv)" using p(4) m(5) w1 by (simp add: wake_times_def fun_eq_iff)
  ultimately show ?thesis using p(3) m(4) by (intro exI[of _ "s4\<lparr>sc_earliest_wakeup := None\<rparr>"] exI[of _ t4] exI[of _ n]) simp
qed

section \<open>What a scheduler promises\<close>

text \<open>The contract: a map from the entries to the times they are waiting for.  An answer is the entry and
  the time.\<close>

type_synonym wake_answer = "entry_ref \<times> timeval option"

definition wake_add :: "nat \<Rightarrow> timeval \<Rightarrow> u32 \<Rightarrow> (nat \<rightharpoonup> timeval) \<Rightarrow> (nat \<rightharpoonup> timeval)" where
  "wake_add e tv sigma v = (case v e of
       Some t \<Rightarrow> if sigma \<noteq> 0 \<and> tv_within_sigma tv t sigma then v else v(e \<mapsto> tv)
     | None \<Rightarrow> v(e \<mapsto> tv))"

definition earliest_ok :: "(nat \<rightharpoonup> timeval) \<Rightarrow> wake_answer \<Rightarrow> bool" where
  "earliest_ok v x = (case x of
       (None, w) \<Rightarrow> v = Map.empty \<and> w = None
     | (Some e, w) \<Rightarrow> w \<noteq> None \<and> w = v e \<and> (\<forall>b t. v b = Some t \<longrightarrow> the w \<le> t))"

datatype wake_op = Wake_Add nat timeval u32 | Wake_Remove nat | Wake_Earliest

fun op_entry :: "wake_op \<Rightarrow> nat set" where
  "op_entry (Wake_Add e tv sigma) = {e}" | "op_entry (Wake_Remove e) = {e}" | "op_entry Wake_Earliest = {}"

fun answers_ok :: "(nat \<rightharpoonup> timeval) \<Rightarrow> wake_op list \<Rightarrow> wake_answer list \<Rightarrow> bool" where
  "answers_ok v [] xs \<longleftrightarrow> xs = []"
| "answers_ok v (Wake_Add e tv sigma # ops) xs \<longleftrightarrow> answers_ok (wake_add e tv sigma v) ops xs"
| "answers_ok v (Wake_Remove e # ops) xs \<longleftrightarrow> answers_ok (v(e := None)) ops xs"
| "answers_ok v (Wake_Earliest # ops) xs \<longleftrightarrow> (case xs of [] \<Rightarrow> False | x # xs \<Rightarrow> earliest_ok v x \<and> answers_ok v ops xs)"

fun wake_view :: "(nat \<rightharpoonup> timeval) \<Rightarrow> wake_op list \<Rightarrow> (nat \<rightharpoonup> timeval)" where
  "wake_view v [] = v"
| "wake_view v (Wake_Add e tv sigma # ops) = wake_view (wake_add e tv sigma v) ops"
| "wake_view v (Wake_Remove e # ops) = wake_view (v(e := None)) ops"
| "wake_view v (Wake_Earliest # ops) = wake_view v ops"

fun wake_run ::
  "(nat \<Rightarrow> timeval \<Rightarrow> u32 \<Rightarrow> 's \<Rightarrow> 's option) \<Rightarrow> (nat \<Rightarrow> 's \<Rightarrow> 's option) \<Rightarrow> ('s \<Rightarrow> ('s \<times> wake_answer) option) \<Rightarrow>
   wake_op list \<Rightarrow> 's \<Rightarrow> ('s \<times> wake_answer list) option" where
  "wake_run add remove earliest [] s = Some (s, [])"
| "wake_run add remove earliest (Wake_Add e tv sigma # ops) s = do {
     s \<leftarrow> add e tv sigma s;
     wake_run add remove earliest ops s }"
| "wake_run add remove earliest (Wake_Remove e # ops) s = do {
     s \<leftarrow> remove e s;
     wake_run add remove earliest ops s }"
| "wake_run add remove earliest (Wake_Earliest # ops) s = do {
     (s, x) \<leftarrow> earliest s;
     (s, xs) \<leftarrow> wake_run add remove earliest ops s;
     Some (s, x # xs) }"

locale wakeup_queue =
  fixes add :: "nat \<Rightarrow> timeval \<Rightarrow> u32 \<Rightarrow> 's \<Rightarrow> 's option"
    and remove :: "nat \<Rightarrow> 's \<Rightarrow> 's option"
    and earliest :: "'s \<Rightarrow> ('s \<times> wake_answer) option"
    and inv :: "nat set \<Rightarrow> 's \<Rightarrow> bool"
    and view :: "'s \<Rightarrow> nat \<rightharpoonup> timeval"
  assumes add_law: "inv E s \<Longrightarrow> e \<in> E \<Longrightarrow> \<exists>s'. add e tv sigma s = Some s' \<and> inv E s' \<and> view s' = wake_add e tv sigma (view s)"
    and remove_law: "inv E s \<Longrightarrow> e \<in> E \<Longrightarrow> \<exists>s'. remove e s = Some s' \<and> inv E s' \<and> view s' = (view s)(e := None)"
    and earliest_law: "inv E s \<Longrightarrow> \<exists>s' x. earliest s = Some (s', x) \<and> inv E s' \<and> view s' = view s \<and> earliest_ok (view s) x"
begin

lemma run_ok:
  "inv E s \<Longrightarrow> \<Union> (op_entry ` set ops) \<subseteq> E \<Longrightarrow>
   \<exists>s' xs. wake_run add remove earliest ops s = Some (s', xs) \<and> inv E s' \<and> view s' = wake_view (view s) ops \<and> answers_ok (view s) ops xs"
proof (induction ops arbitrary: s)
  case (Cons op ops)
  show ?case
  proof (cases op)
    case (Wake_Add e tv sigma)
    then obtain s1 where "add e tv sigma s = Some s1" "inv E s1" "view s1 = wake_add e tv sigma (view s)"
      using add_law[OF Cons.prems(1), of e tv sigma] Cons.prems(2) by auto
    then show ?thesis using Cons.IH[of s1] Cons.prems(2) Wake_Add by auto
  next
    case (Wake_Remove e)
    then obtain s1 where "remove e s = Some s1" "inv E s1" "view s1 = (view s)(e := None)"
      using remove_law[OF Cons.prems(1), of e] Cons.prems(2) by auto
    then show ?thesis using Cons.IH[of s1] Cons.prems(2) Wake_Remove by (auto simp del: fun_upd_apply)
  next
    case Wake_Earliest
    obtain s1 x where "earliest s = Some (s1, x)" "inv E s1" "view s1 = view s" "earliest_ok (view s) x"
      using earliest_law[OF Cons.prems(1)] by blast
    moreover from this obtain s2 xs where "wake_run add remove earliest ops s1 = Some (s2, xs)" "inv E s2"
      "view s2 = wake_view (view s1) ops" "answers_ok (view s1) ops xs"
      using Cons.IH[of s1] Cons.prems(2) by auto
    ultimately show ?thesis using Wake_Earliest by auto
  qed
qed simp

end

section \<open>The treap keeps the promise\<close>

definition pending :: "schedule \<Rightarrow> nat \<rightharpoonup> timeval" where
  "pending s e = (case sc_mem s e of Some x \<Rightarrow> if IN_TREE x then Some (se_tv x) else None | None \<Rightarrow> None)"

definition cache_ok :: "schedule \<Rightarrow> nat tree \<Rightarrow> bool" where
  "cache_ok s t \<longleftrightarrow> (case sc_earliest_wakeup s of None \<Rightarrow> True | Some e \<Rightarrow> t \<noteq> Leaf \<and> e = List.hd (inorder t))"

definition sched_ok :: "nat set \<Rightarrow> schedule \<times> u32 stream \<Rightarrow> bool" where
  "sched_ok E = (\<lambda>(s, rs). (\<exists>t. sched_inv s t \<and> cache_ok s t) \<and> dom (sc_mem s) = E \<and> enough_random (sc_mem s) rs)"

lemma pending_inv:
  assumes "sched_inv s t"
  shows "pending s e = (if e \<in> set_tree t then wake_times s e else None)"
proof (cases "e \<in> set_tree t")
  case True
  then obtain x where "sc_mem s e = Some x" using assms tree_at_dom[of "sc_mem s"] by (fastforce simp: sched_inv_def shape_def)
  then show ?thesis using assms True by (auto simp: pending_def wake_times_def sched_inv_def IN_TREE_def)
next
  case False
  then show ?thesis using assms by (auto simp: pending_def sched_inv_def idle_def IN_TREE_def split: option.split)
qed

lemma dom_wake_times: "dom (wake_times s) = dom (sc_mem s)"
  by (auto simp: wake_times_def)

lemma dom_pending: "sched_inv s t \<Longrightarrow> dom (pending s) = set_tree t"
  using tree_at_dom[of "sc_mem s" _ _ t] by (fastforce simp: pending_inv dom_def wake_times_def sched_inv_def shape_def split: if_splits)

lemma hd_earliest:
  assumes inv: "sched_inv s t" and t: "t \<noteq> Leaf"
  shows "earliest_ok (pending s) (Some (List.hd (inorder t)), wake_times s (List.hd (inorder t)))"
proof -
  obtain h xs where h: "inorder t = h # xs" using t by (cases "inorder t") auto
  have ht: "h \<in> set_tree t" unfolding set_inorder[symmetric] h by simp
  have d: "set_tree t \<subseteq> dom (sc_mem s)" using inv by (auto simp: sched_inv_def shape_def dest: tree_at_dom)
  then obtain x where x: "sc_mem s h = Some x" using ht by blast
  have "se_tv x \<le> tv" if "pending s b = Some tv" for b tv
  proof -
    have b: "b \<in> set_tree t" "wake_times s b = Some tv" using that unfolding pending_inv[OF inv] by (auto split: if_splits)
    then obtain y where y: "sc_mem s b = Some y" "tv = se_tv y" by (auto simp: wake_times_def)
    have "b = h \<or> b \<in> set xs" using b(1) unfolding set_inorder[symmetric] h by auto
    then show ?thesis
    proof
      assume "b \<in> set xs"
      then have "key_of (sc_mem s) h < key_of (sc_mem s) b" using inv h by (simp add: sched_inv_def)
      then show ?thesis using x y by auto
    qed (use x y in simp)
  qed
  then show ?thesis using x ht h by (simp add: earliest_ok_def pending_inv[OF inv] wake_times_def)
qed

definition treap_add :: "nat \<Rightarrow> timeval \<Rightarrow> u32 \<Rightarrow> schedule \<times> u32 stream \<Rightarrow> (schedule \<times> u32 stream) option" where
  "treap_add e tv sigma = (\<lambda>(s, rs). schedule_add_entry (Some e) tv sigma s rs)"

definition treap_remove :: "nat \<Rightarrow> schedule \<times> u32 stream \<Rightarrow> (schedule \<times> u32 stream) option" where
  "treap_remove e = (\<lambda>(s, rs). map_option (\<lambda>s. (s, rs)) (schedule_remove_entry (Some e) s))"

definition treap_earliest :: "schedule \<times> u32 stream \<Rightarrow> ((schedule \<times> u32 stream) \<times> wake_answer) option" where
  "treap_earliest = (\<lambda>(s, rs). map_option (\<lambda>(s, x). ((s, rs), x)) (schedule_get_earliest_wakeup s))"

lemma get_earliest_inv:
  assumes inv: "sched_inv s t" and c: "cache_ok s t"
  shows "\<exists>s' x. schedule_get_earliest_wakeup s = Some (s', x) \<and> sched_inv s' t \<and> cache_ok s' t \<and> sc_mem s' = sc_mem s \<and> earliest_ok (pending s) x"
proof (cases "t = Leaf")
  case True
  have "sc_root s = None" using inv True by (simp add: sched_inv_def shape_def)
  moreover have "sc_earliest_wakeup s = None" using c True by (simp add: cache_ok_def split: option.splits)
  moreover have "pending s = Map.empty" using pending_inv[OF inv] True by auto
  ultimately show ?thesis using inv
    by (auto simp: schedule_get_earliest_wakeup_def schedule_find_least_def earliest_ok_def cache_ok_def sched_inv_def shape_def)
next
  case False
  let ?h = "List.hd (inorder t)" and ?s = "s\<lparr>sc_earliest_wakeup := Some (List.hd (inorder t))\<rparr>"
  have "?h \<in> set_tree t" using False unfolding set_inorder[symmetric] by (intro List.hd_in_set) simp
  then obtain x where x: "sc_mem s ?h = Some x" using inv tree_at_dom[of "sc_mem s"] by (fastforce simp: sched_inv_def shape_def)
  have "schedule_find_least s (sc_root s) = Some (Some ?h)"
    using find_least_hd[of s t] inv False by (simp add: sched_inv_def)
  then have "schedule_get_earliest_wakeup s = Some (?s, (Some ?h, Some (se_tv x)))"
    using x c by (cases "sc_earliest_wakeup s") (auto simp: schedule_get_earliest_wakeup_def cache_ok_def)
  moreover have "sched_inv ?s t" "cache_ok ?s t" using inv False by (simp_all add: sched_inv_def shape_def cache_ok_def)
  moreover have "earliest_ok (pending s) (Some ?h, Some (se_tv x))" using hd_earliest[OF inv False] x by (simp add: wake_times_def)
  ultimately show ?thesis by (intro exI[of _ ?s] exI[of _ "(Some ?h, Some (se_tv x))"]) simp
qed

lemma treap_add_law:
  assumes "sched_ok E st" "e \<in> E"
  shows "\<exists>st'. treap_add e tv sigma st = Some st' \<and> sched_ok E st' \<and> pending (fst st') = wake_add e tv sigma (pending (fst st))"
proof -
  obtain s rs t x where st: "st = (s, rs)" "sched_inv s t" "cache_ok s t" "dom (sc_mem s) = E" "enough_random (sc_mem s) rs" "sc_mem s e = Some x"
    using assms by (auto simp: sched_ok_def dom_def)
  have pe: "pending s e = (if IN_TREE x then Some (se_tv x) else None)" using st(6) by (simp add: pending_def)
  show ?thesis
  proof (cases "\<not> IN_TREE x \<or> sigma = 0 \<or> \<not> tv_within_sigma tv (se_tv x) sigma")
    case True
    obtain s' t' n where r: "schedule_add_entry (Some e) tv sigma s rs = Some (s', sdrop n rs)" "sched_inv s' t'"
      "set_tree t' = insert e (set_tree t)" "wake_times s' = (wake_times s)(e \<mapsto> tv)" "sc_earliest_wakeup s' = None"
      using add_entry_inv[OF st(2,6,5) True] by blast
    have d: "dom (sc_mem s') = E" using r(4) st(4) assms(2) dom_wake_times[of s'] dom_wake_times[of s] by (simp add: insert_absorb)
    have "pending s' = (pending s)(e \<mapsto> tv)"
      using pending_inv[OF r(2)] pending_inv[OF st(2)] r(3,4) by (auto simp: fun_eq_iff)
    also have "\<dots> = wake_add e tv sigma (pending s)" using True pe by (auto simp: wake_add_def)
    finally have "pending s' = wake_add e tv sigma (pending s)" .
    moreover have "sched_ok E (s', sdrop n rs)"
      using r(2,5) d st(4) enough_random_sdrop[OF st(5), of "sc_mem s'" n] by (auto simp: sched_ok_def cache_ok_def)
    ultimately show ?thesis using r(1) st(1) by (simp add: treap_add_def)
  next
    case False
    then have "schedule_add_entry (Some e) tv sigma s rs = Some (s, rs)" using st(6) by (simp add: schedule_add_entry_def)
    moreover have "wake_add e tv sigma (pending s) = pending s" using False pe by (simp add: wake_add_def)
    ultimately show ?thesis using assms(1) st(1) by (simp add: treap_add_def)
  qed
qed

lemma treap_remove_law:
  assumes "sched_ok E st" "e \<in> E"
  shows "\<exists>st'. treap_remove e st = Some st' \<and> sched_ok E st' \<and> pending (fst st') = (pending (fst st))(e := None)"
proof -
  obtain s rs t where st: "st = (s, rs)" "sched_inv s t" "dom (sc_mem s) = E" "enough_random (sc_mem s) rs"
    using assms(1) by (auto simp: sched_ok_def)
  have "e \<in> dom (sc_mem s)" using st(3) assms(2) by simp
  then obtain s' t' where r: "schedule_remove_entry (Some e) s = Some s'" "sched_inv s' t'" "set_tree t' = set_tree t - {e}"
    "wake_times s' = wake_times s" "sc_earliest_wakeup s' = None"
    using remove_entry_inv[OF st(2)] by blast
  have d: "dom (sc_mem s') = E" using r(4) st(3) dom_wake_times[of s'] dom_wake_times[of s] by simp
  have "pending s' = (pending s)(e := None)"
    using pending_inv[OF r(2)] pending_inv[OF st(2)] r(3,4) by (auto simp: fun_eq_iff)
  moreover have "sched_ok E (s', rs)"
    using r(2,5) d st(3) enough_random_sdrop[OF st(4), of "sc_mem s'" 0] by (auto simp: sched_ok_def cache_ok_def)
  ultimately show ?thesis using r(1) st(1) by (simp add: treap_remove_def)
qed

lemma treap_earliest_law:
  assumes "sched_ok E st"
  shows "\<exists>st' x. treap_earliest st = Some (st', x) \<and> sched_ok E st' \<and> pending (fst st') = pending (fst st) \<and> earliest_ok (pending (fst st)) x"
proof -
  obtain s rs t where st: "st = (s, rs)" "sched_inv s t" "cache_ok s t" "dom (sc_mem s) = E" "enough_random (sc_mem s) rs"
    using assms by (auto simp: sched_ok_def)
  obtain s' x where r: "schedule_get_earliest_wakeup s = Some (s', x)" "sched_inv s' t" "cache_ok s' t" "sc_mem s' = sc_mem s" "earliest_ok (pending s) x"
    using get_earliest_inv[OF st(2,3)] by blast
  have "pending s' = pending s" using r(4) by (simp add: pending_def fun_eq_iff)
  moreover have "sched_ok E (s', rs)" using r(2-4) st(4,5) by (auto simp: sched_ok_def)
  ultimately show ?thesis using r(1,5) st(1) by (auto simp: treap_earliest_def)
qed

interpretation treap: wakeup_queue treap_add treap_remove treap_earliest sched_ok "\<lambda>st. pending (fst st)"
  by unfold_locales (fact treap_add_law, fact treap_remove_law, fact treap_earliest_law)

section \<open>The consistency check of the test code\<close>

text \<open>\<open>count\<close> and \<open>least\<close> may be \<open>NULL\<close>; their new values are returned with the depth.\<close>

partial_function (option) schedule_debug_entry ::
  "schedule \<Rightarrow> entry_ref \<Rightarrow> int \<Rightarrow> int option \<Rightarrow> timeval option \<Rightarrow> timeval \<Rightarrow> timeval \<Rightarrow> (int \<times> int option \<times> timeval option) option" where
  "schedule_debug_entry s e depth count least mn mx =
     (if e = None then Some (depth, count, least)
      else do {
        x \<leftarrow> entry_at s e;
        cassert (e \<noteq> se_lt x);
        cassert (e \<noteq> se_gt x);
        cassert (e \<noteq> se_parent x);
        cassert (se_parent x = None \<or> se_parent x \<noteq> se_lt x);
        cassert (se_parent x = None \<or> se_parent x \<noteq> se_gt x);
        cassert (se_lt x = None \<or> se_lt x \<noteq> se_gt x);
        _ \<leftarrow> (if se_lt x \<noteq> None
          then do {
            y \<leftarrow> entry_at s (se_lt x);
            cassert (se_parent y = e \<and> schedule_entry_compare y x = - 1 \<and> se_pri y \<ge> se_pri x) }
          else Some ());
        _ \<leftarrow> (if se_gt x \<noteq> None
          then do {
            y \<leftarrow> entry_at s (se_gt x);
            cassert (se_parent y = e \<and> schedule_entry_compare y x \<noteq> 0 \<and> se_pri y \<ge> se_pri x) }
          else Some ());
        cassert (tv_le mn (se_tv x));
        cassert (tv_le (se_tv x) mx);
        (d1, count, least) \<leftarrow> schedule_debug_entry s (se_lt x) (depth + 1) (map_option (\<lambda>c. c + 1) count)
          (map_option (\<lambda>l. if tv_lt (se_tv x) l then se_tv x else l) least) mn (se_tv x);
        (d2, count, least) \<leftarrow> schedule_debug_entry s (se_gt x) (depth + 1) count least (se_tv x) mx;
        let maxdepth = (if d1 > depth then d1 else depth);
        Some (if d2 > maxdepth then d2 else maxdepth, count, least) })"

definition schedule_debug :: "schedule \<Rightarrow> int option \<Rightarrow> timeval option \<Rightarrow> (int \<times> int option \<times> timeval option) option" where
  "schedule_debug s count least = do {
     _ \<leftarrow> (if sc_root s \<noteq> None
       then do {
         x \<leftarrow> entry_at s (sc_root s);
         cassert (se_parent x = None) }
       else Some ());
     schedule_debug_entry s (sc_root s) 0 count least (Timeval 0 0) (Timeval 0x7FFFFFFF 0x7FFFFFFF) }"

definition time_of :: "schedule \<Rightarrow> nat \<Rightarrow> timeval" where
  "time_of s a = fst (key_of (sc_mem s) a)"

lemma debug_entry_passes:
  "tree_at (sc_mem s) p par t \<Longrightarrow> distinct (inorder t) \<Longrightarrow> (\<forall>a. par = Some a \<longrightarrow> a \<notin> set_tree t) \<Longrightarrow> keys_sorted (sc_mem s) t \<Longrightarrow>
   heap (map_tree (pri_of (sc_mem s)) t) \<Longrightarrow> \<forall>a \<in> set_tree t. mn \<le> time_of s a \<and> time_of s a \<le> mx \<Longrightarrow>
   schedule_debug_entry s p depth count least mn mx = Some (depth + int (height t), map_option (\<lambda>c. c + int (size t)) count,
     map_option (fold (\<lambda>a l. min (time_of s a) l) (preorder t)) least)"
proof (induction t arbitrary: p par depth count least mn mx)
  case Leaf
  then show ?case by (subst schedule_debug_entry.simps) (simp add: option.map_ident option.map_id0)
next
  case (Node l a r)
  obtain x where x: "p = Some a" "sc_mem s a = Some x" "se_parent x = par" "tree_at (sc_mem s) (se_lt x) (Some a) l"
    "tree_at (sc_mem s) (se_gt x) (Some a) r" using Node.prems(1) by auto
  have ref: "se_lt x = root_ref l" "se_gt x = root_ref r" using x(4,5) by (auto dest: tree_at_root_ref)
  have d: "distinct (inorder l)" "distinct (inorder r)" "a \<notin> set_tree l" "a \<notin> set_tree r" "set_tree l \<inter> set_tree r = {}"
    using Node.prems(2) by auto
  have srt: "keys_sorted (sc_mem s) l" "keys_sorted (sc_mem s) r" "\<forall>b \<in> set_tree l. key_of (sc_mem s) b < (se_tv x, se_pri x)"
    "\<forall>b \<in> set_tree r. (se_tv x, se_pri x) < key_of (sc_mem s) b"
    using Node.prems(4) x(2) by (auto simp: sorted_wrt_append)
  have hp: "heap (map_tree (pri_of (sc_mem s)) l)" "heap (map_tree (pri_of (sc_mem s)) r)"
    "\<forall>b \<in> set_tree l \<union> set_tree r. se_pri x \<le> pri_of (sc_mem s) b"
    using Node.prems(5) x(2) by (auto simp: tree.set_map)
  have fst_le: "fst k \<le> fst k'" if "k < k'" for k k' :: "timeval \<times> u32" using that by (cases k; cases k') auto
  have t: "time_of s a = se_tv x" using x(2) by (simp add: time_of_def)
  have tl: "\<forall>b \<in> set_tree l. mn \<le> time_of s b \<and> time_of s b \<le> se_tv x" "\<forall>b \<in> set_tree r. se_tv x \<le> time_of s b \<and> time_of s b \<le> mx"
    using Node.prems(6) srt(3,4) fst_le[of _ "(se_tv x, se_pri x)"] fst_le[of "(se_tv x, se_pri x)"] by (auto simp: time_of_def)
  have par: "par \<noteq> Some a" "par \<noteq> None \<Longrightarrow> par \<noteq> root_ref l" "par \<noteq> None \<Longrightarrow> par \<noteq> root_ref r"
    "root_ref l \<noteq> Some a" "root_ref r \<noteq> Some a" "root_ref l = None \<or> root_ref l \<noteq> root_ref r"
    using Node.prems(3) d by (cases l; cases r; auto)+
  have cl: "\<exists>y. entry_at s (root_ref l) = Some y \<and> se_parent y = Some a \<and> schedule_entry_compare y x = - 1 \<and> se_pri x \<le> se_pri y" if "root_ref l \<noteq> None"
    using that x(4) srt(3) hp(3) by (cases l) (auto simp: entry_compare_key)
  have cr: "\<exists>y. entry_at s (root_ref r) = Some y \<and> se_parent y = Some a \<and> schedule_entry_compare y x \<noteq> 0 \<and> se_pri x \<le> se_pri y" if nr: "root_ref r \<noteq> None"
  proof -
    obtain rl b rr where r: "r = Node rl b rr" using nr by (cases r) auto
    then obtain y where y: "sc_mem s b = Some y" "se_parent y = Some a" using x(5) by auto
    have "schedule_entry_compare y x = 1" using srt(4) y(1) r by (simp add: entry_compare_key)
    then show ?thesis using y r hp(3) by auto
  qed
  note il = Node.IH(1)[OF x(4) d(1) _ srt(1) hp(1) tl(1)] and ir = Node.IH(2)[OF x(5) d(2) _ srt(2) hp(2) tl(2)]
  have chk: "(if root_ref l \<noteq> None then do {
            y \<leftarrow> entry_at s (root_ref l);
            cassert (se_parent y = Some a \<and> schedule_entry_compare y x = - 1 \<and> se_pri y \<ge> se_pri x) }
          else Some ()) = Some ()"
    "(if root_ref r \<noteq> None then do {
            y \<leftarrow> entry_at s (root_ref r);
            cassert (se_parent y = Some a \<and> schedule_entry_compare y x \<noteq> 0 \<and> se_pri y \<ge> se_pri x) }
          else Some ()) = Some ()"
    using cl cr by auto
  have mn: "(if se_tv x < l then se_tv x else l) = min (se_tv x) l" for l by (auto simp: min_def)
  have q: "mn \<le> se_tv x" "se_tv x \<le> mx" using Node.prems(6) t by auto
  have ne: "(Some a = None) = False" by simp
  show ?case unfolding x(1)
    by (subst schedule_debug_entry.simps, simp only: ne if_False entry_at_Some x(2) bind.bind_lunit ref chk)
      (use d par q x(3) il ir t in
        \<open>auto simp: ref mn option.map_comp comp_def fold_append add.assoc add.left_commute\<close>)
qed

section \<open>Properties\<close>

fun op_times :: "wake_op \<Rightarrow> timeval set" where
  "op_times (Wake_Add e tv sigma) = {tv}" | "op_times _ = {}"

lemma ran_wake_view: "ran (wake_view v ops) \<subseteq> ran v \<union> \<Union> (op_times ` set ops)"
proof (induction v ops rule: wake_view.induct)
  case (2 v e tv sigma ops)
  have "ran (wake_add e tv sigma v) \<subseteq> insert tv (ran v)"
    by (auto simp: wake_add_def ran_def split: option.splits if_splits)
  then show ?case using 2 by auto
next
  case (3 v e ops)
  have "ran (v(e := None)) \<subseteq> ran v" by (auto simp: ran_def)
  then show ?case using 3 by (auto simp del: fun_upd_apply)
qed auto

lemma schedule_start:
  assumes "\<forall>x \<in> ran m. idle x" "enough_random m rs"
  shows "sched_ok (dom m) (schedule_init m, rs)" "pending (schedule_init m) = Map.empty"
proof -
  have i: "sched_inv (schedule_init m) Leaf"
    using assms(1) by (auto simp: sched_inv_def shape_def schedule_init_def ran_def)
  then show "sched_ok (dom m) (schedule_init m, rs)" using assms(2) by (auto simp: sched_ok_def schedule_init_def cache_ok_def)
  show "pending (schedule_init m) = Map.empty" using pending_inv[OF i] by auto
qed

lemma fold_min: "fold (\<lambda>a l. min (f a) l) xs l = Min (insert l (f ` set xs))" for l :: "'a :: linorder"
proof (induction xs arbitrary: l)
  case (Cons a xs)
  have "Min (insert (min (f a) l) (f ` set xs)) = Min (insert l (insert (f a) (f ` set xs)))"
    by (cases "f ` set xs = {}") (simp_all add: ac_simps)
  then show ?case using Cons by simp
qed simp

lemma schedule_debug_passes:
  assumes inv: "sched_inv s t" and r: "ran (pending s) \<subseteq> {Timeval 0 0 .. Timeval 0x7FFFFFFF 0x7FFFFFFF}"
  shows "schedule_debug s (Some 0) (Some T) = Some (int (height t), Some (int (card (dom (pending s)))), Some (Min (insert T (ran (pending s)))))"
proof -
  have sh: "shape s t" and tr: "tree_at (sc_mem s) (sc_root s) None t" "distinct (inorder t)" using inv by (auto simp: sched_inv_def shape_def)
  have pt: "pending s a = Some (time_of s a)" if "a \<in> set_tree t" for a
    using tree_at_dom[OF tr(1)] that pending_inv[OF inv, of a] by (auto simp: wake_times_def time_of_def)
  have rp: "ran (pending s) = time_of s ` set_tree t"
  proof
    show "ran (pending s) \<subseteq> time_of s ` set_tree t"
    proof
      fix tv assume "tv \<in> ran (pending s)"
      then obtain a where "pending s a = Some tv" by (auto simp: ran_def)
      moreover from this have "a \<in> set_tree t" using dom_pending[OF inv] by auto
      ultimately show "tv \<in> time_of s ` set_tree t" using pt by auto
    qed
    show "time_of s ` set_tree t \<subseteq> ran (pending s)" using pt by (auto simp: ran_def)
  qed
  have tb: "\<forall>a \<in> set_tree t. Timeval 0 0 \<le> time_of s a \<and> time_of s a \<le> Timeval 0x7FFFFFFF 0x7FFFFFFF" using r unfolding rp by auto
  have "schedule_debug_entry s (sc_root s) 0 (Some 0) (Some T) (Timeval 0 0) (Timeval 0x7FFFFFFF 0x7FFFFFFF) =
      Some (0 + int (height t), map_option (\<lambda>c. c + int (size t)) (Some 0), map_option (fold (\<lambda>a l. min (time_of s a) l) (preorder t)) (Some T))"
    by (rule debug_entry_passes[OF tr _ _ _ tb]) (use inv in \<open>auto simp: sched_inv_def\<close>)
  also have "map_option (fold (\<lambda>a l. min (time_of s a) l) (preorder t)) (Some T) = Some (Min (insert T (ran (pending s))))"
    by (simp add: fold_min rp)
  also have "map_option (\<lambda>c. c + int (size t)) (Some 0) = Some (int (card (dom (pending s))))"
    using distinct_card[OF tr(2)] by (simp add: dom_pending[OF inv])
  finally have e: "schedule_debug_entry s (sc_root s) 0 (Some 0) (Some T) (Timeval 0 0) (Timeval 0x7FFFFFFF 0x7FFFFFFF) =
      Some (0 + int (height t), Some (int (card (dom (pending s)))), Some (Min (insert T (ran (pending s)))))" .
  have "sc_root s = None \<or> (\<exists>x. entry_at s (sc_root s) = Some x \<and> se_parent x = None)" using tr(1) by (cases t) auto
  then show ?thesis using e by (auto simp: schedule_debug_def)
qed

text \<open>C27: The scheduler is a queue of wakeup times: whatever entries are added, moved and removed, in any
  order, no operation aborts, and the entry returned as the earliest is one that is waiting, with its
  time, and no other waits for an earlier time; none is returned only when none is waiting.
  \<open>random()\<close> only has to keep returning different values.\<close>

theorem scheduler_earliest:
  assumes "\<forall>x \<in> ran m. idle x" "enough_random m rs" "\<Union> (op_entry ` set ops) \<subseteq> dom m"
  shows "\<exists>st xs. wake_run treap_add treap_remove treap_earliest ops (schedule_init m, rs) = Some (st, xs) \<and> answers_ok Map.empty ops xs"
  using treap.run_ok[OF schedule_start(1)[OF assms(1,2)] assms(3)] schedule_start(2)[OF assms(1,2)] by auto

text \<open>C28: The treap is well formed in every reachable state: parent and child pointers agree, the search
  tree is ordered by times and priorities and the heap by priorities.  The consistency check in the
  source, \<open>schedule_debug\<close>, then passes, counts exactly the waiting entries and finds their least time.\<close>

theorem schedule_check_passes:
  assumes "\<forall>x \<in> ran m. idle x" "enough_random m rs" "\<Union> (op_entry ` set ops) \<subseteq> dom m"
    and "\<Union> (op_times ` set ops) \<subseteq> {Timeval 0 0 .. Timeval 0x7FFFFFFF 0x7FFFFFFF}"
  shows "\<exists>s rs' xs d. wake_run treap_add treap_remove treap_earliest ops (schedule_init m, rs) = Some ((s, rs'), xs) \<and>
    schedule_debug s (Some 0) (Some tmax) =
      Some (d, Some (int (card (dom (wake_view Map.empty ops)))), Some (Min (insert tmax (ran (wake_view Map.empty ops)))))"
proof -
  obtain s rs' xs where r: "wake_run treap_add treap_remove treap_earliest ops (schedule_init m, rs) = Some ((s, rs'), xs)"
    "sched_ok (dom m) (s, rs')" "pending s = wake_view Map.empty ops"
    using treap.run_ok[OF schedule_start(1)[OF assms(1,2)] assms(3)] schedule_start(2)[OF assms(1,2)] by auto
  obtain t where "sched_inv s t" using r(2) by (auto simp: sched_ok_def)
  from schedule_debug_passes[OF this, of tmax] show ?thesis
    using r(1,3) assms(4) ran_wake_view[of Map.empty ops] by auto
qed

definition two_entries :: "nat \<rightharpoonup> schedule_entry" where
  "two_entries = (let x = \<lparr>se_tv = Timeval 0 0, se_pri = 0, se_parent = None, se_lt = None, se_gt = None\<rparr> in [1 \<mapsto> x, 2 \<mapsto> x])"

lemma two_entries_idle: "\<forall>x \<in> ran two_entries. idle x" "dom two_entries = {1, 2}"
  by (auto simp: two_entries_def Let_def idle_def ran_def split: if_splits)

lemma two_entries_random: "enough_random two_entries (siterate (\<lambda>x. x + 1) 5)"
proof -
  let ?rs = "siterate (\<lambda>x :: u32. x + 1) 5"
  have "2 \<le> card (random_pri ` sset (sdrop n ?rs))" for n
  proof -
    obtain k :: u32 where k: "sdrop n ?rs = siterate (\<lambda>x. x + 1) k" by simp
    have sub: "{random_pri k, random_pri (k + 1), random_pri (k + 2)} \<subseteq> random_pri ` sset (sdrop n ?rs)"
    proof -
      have "siterate (\<lambda>x. x + 1) k !! i \<in> sset (siterate (\<lambda>x. x + 1) k)" for i by (rule snth_sset)
      from this[of 0] this[of 1] this[of 2] show ?thesis unfolding k by (auto simp: numeral_2_eq_2 algebra_simps)
    qed
    have "card {random_pri k, random_pri (k + 1), random_pri (k + 2)} \<ge> 2"
    proof (rule ccontr)
      assume "\<not> ?thesis"
      then have "random_pri k = random_pri (k + 1)" "random_pri (k + 1) = random_pri (k + 2)"
        by (auto simp: card_insert_if split: if_splits)
      then show False by (auto simp: random_pri_def split: if_splits)
    qed
    also have "\<dots> \<le> card (random_pri ` sset (sdrop n ?rs))" by (rule card_mono[OF _ sub]) simp
    finally show ?thesis .
  qed
  moreover have "card (dom two_entries) = 2" "finite (dom two_entries)" by (simp_all add: two_entries_idle(2))
  ultimately show ?thesis unfolding enough_random_def by metis
qed

theorem scheduler_earliest_witness:
  "\<exists>st x. wake_run treap_add treap_remove treap_earliest
      [Wake_Add 1 (Timeval 20 0) 0, Wake_Add 2 (Timeval 10 0) 0, Wake_Earliest] (schedule_init two_entries, siterate (\<lambda>x. x + 1) 5) = Some (st, [x]) \<and>
    x = (Some 2, Some (Timeval 10 0))"
proof -
  let ?ops = "[Wake_Add 1 (Timeval 20 0) 0, Wake_Add 2 (Timeval 10 0) 0, Wake_Earliest]"
  have o: "\<Union> (op_entry ` set ?ops) \<subseteq> dom two_entries" by (simp add: two_entries_idle(2))
  obtain st xs where r: "wake_run treap_add treap_remove treap_earliest ?ops (schedule_init two_entries, siterate (\<lambda>x. x + 1) 5) = Some (st, xs)"
    "answers_ok Map.empty ?ops xs"
    using scheduler_earliest[OF two_entries_idle(1) two_entries_random o] by (elim exE conjE) (rule that)
  obtain x where x: "xs = [x]" "earliest_ok [1 \<mapsto> Timeval 20 0, 2 \<mapsto> Timeval 10 0] x"
    using r(2) by (auto simp: wake_add_def split: list.splits)
  have lt: "Timeval 10 0 < Timeval 20 0" by (simp add: less_timeval_def tv_lt_def del: tv_compare)
  have "x = (Some 2, Some (Timeval 10 0))"
    using x(2) lt unfolding earliest_ok_def
    by (cases x) (auto split: option.splits if_splits dest!: spec[of _ 2] simp: fun_eq_iff)
  then show ?thesis using r(1) unfolding x(1) by (intro exI conjI)
qed

theorem schedule_check_passes_witness:
  "\<exists>s rs' xs d. wake_run treap_add treap_remove treap_earliest
      [Wake_Add 1 (Timeval 20 0) 0, Wake_Add 2 (Timeval 10 0) 0] (schedule_init two_entries, siterate (\<lambda>x. x + 1) 5) = Some ((s, rs'), xs) \<and>
    schedule_debug s (Some 0) (Some (Timeval 99 0)) = Some (d, Some 2, Some (Timeval 10 0))"
proof -
  let ?ops = "[Wake_Add 1 (Timeval 20 0) 0, Wake_Add 2 (Timeval 10 0) 0]"
  let ?v = "[1 \<mapsto> Timeval 20 0, 2 \<mapsto> Timeval 10 0] :: nat \<rightharpoonup> timeval"
  have o: "\<Union> (op_entry ` set ?ops) \<subseteq> dom two_entries" by (simp add: two_entries_idle(2))
  have t: "\<Union> (op_times ` set ?ops) \<subseteq> {Timeval 0 0 .. Timeval 0x7FFFFFFF 0x7FFFFFFF}" by (simp add: less_eq_timeval_def tv_le_def del: tv_compare)
  have v: "wake_view Map.empty ?ops = ?v" by (simp add: wake_add_def)
  have rn: "ran ?v = {Timeval 20 0, Timeval 10 0}" by (simp add: ran_map_upd insert_commute)
  have c: "card (dom ?v) = 2" by simp
  have m: "Min (insert (Timeval 99 0) {Timeval 20 0, Timeval 10 0}) = Timeval 10 0" by (simp add: min_def less_eq_timeval_def tv_le_def del: tv_compare)
  have i: "int 2 = 2" by simp
  from schedule_check_passes[OF two_entries_idle(1) two_entries_random o t, of "Timeval 99 0"]
  show ?thesis unfolding v rn c m i .
qed

end
