(* ===== verification/Ovpn_Inet.thy ===== *)
theory Ovpn_Inet
  imports Ovpn_Buffer
begin

text \<open>
  Packets inside the tunnel (\<open>proto.h\<close>, \<open>proto.c\<close>): the position of the IP header, the internet
  checksum and its incremental update.  Values that the code reads from packets without converting
  them are in the byte order of the host, which is a parameter.
\<close>

unbundle bit_operations_syntax

section \<open>Host byte order\<close>

datatype byte_order = Little_Endian | Big_Endian

definition in_order :: "byte_order \<Rightarrow> byte list \<Rightarrow> byte list" where
  "in_order bo bs = (case bo of Little_Endian \<Rightarrow> rev bs | Big_Endian \<Rightarrow> bs)"

lemma in_order_simps [simp]: "in_order bo (in_order bo bs) = bs" "length (in_order bo bs) = length bs"
  by (cases bo; simp add: in_order_def)+

definition load16 :: "byte_order \<Rightarrow> buffer \<Rightarrow> int \<Rightarrow> u16 option" where
  "load16 bo b p = map_option (\<lambda>bs. de16 (in_order bo bs)) (buf_load b p 2)"

definition store16 :: "byte_order \<Rightarrow> buffer \<Rightarrow> int \<Rightarrow> u16 \<Rightarrow> buffer option" where
  "store16 bo b p w = buf_store b p (in_order bo (be16 w))"

definition load32 :: "byte_order \<Rightarrow> buffer \<Rightarrow> int \<Rightarrow> u32 option" where
  "load32 bo b p = map_option (\<lambda>bs. de32 (in_order bo bs)) (buf_load b p 4)"

definition store32 :: "byte_order \<Rightarrow> buffer \<Rightarrow> int \<Rightarrow> u32 \<Rightarrow> buffer option" where
  "store32 bo b p w = buf_store b p (in_order bo (be32 w))"

definition load8 :: "buffer \<Rightarrow> int \<Rightarrow> byte option" where
  "load8 b p = map_option List.hd (buf_load b p 1)"

definition htons :: "byte_order \<Rightarrow> u16 \<Rightarrow> u16" where "htons bo w = de16 (in_order bo (be16 w))"
definition ntohs :: "byte_order \<Rightarrow> u16 \<Rightarrow> u16" where "ntohs bo w = de16 (in_order bo (be16 w))"

section \<open>Sizes and fields of headers\<close>

definition SIZE_ETHHDR :: int where "SIZE_ETHHDR = 14"
definition SIZE_8021QHDR :: int where "SIZE_8021QHDR = 18"
definition SIZE_IPHDR :: int where "SIZE_IPHDR = 20"
definition SIZE_IPV6HDR :: int where "SIZE_IPV6HDR = 40"
definition SIZE_UDPHDR :: int where "SIZE_UDPHDR = 8"
definition SIZE_TCPHDR :: int where "SIZE_TCPHDR = 20"

definition OPENVPN_ETH_P_IPV4 :: u16 where "OPENVPN_ETH_P_IPV4 = 0x0800"
definition OPENVPN_ETH_P_IPV6 :: u16 where "OPENVPN_ETH_P_IPV6 = 0x86DD"
definition OPENVPN_ETH_P_8021Q :: u16 where "OPENVPN_ETH_P_8021Q = 0x8100"
definition OPENVPN_IPPROTO_TCP :: byte where "OPENVPN_IPPROTO_TCP = 6"
definition OPENVPN_IPPROTO_UDP :: byte where "OPENVPN_IPPROTO_UDP = 17"
definition OPENVPN_IP_OFFMASK :: u16 where "OPENVPN_IP_OFFMASK = 0x1fff"
definition OPENVPN_TCPH_SYN_MASK :: byte where "OPENVPN_TCPH_SYN_MASK = push_bit 1 1"

definition OPENVPN_IPH_GET_VER :: "byte \<Rightarrow> int" where "OPENVPN_IPH_GET_VER v = uint (drop_bit 4 v AND 0x0F)"
definition OPENVPN_IPH_GET_LEN :: "byte \<Rightarrow> int" where "OPENVPN_IPH_GET_LEN v = push_bit 2 (uint (v AND 0x0F))"
definition OPENVPN_TCPH_GET_DOFF :: "byte \<Rightarrow> int" where "OPENVPN_TCPH_GET_DOFF d = drop_bit 2 (uint (d AND 0xF0))"

section \<open>Finding the IP header\<close>

datatype dev_type = DEV_TYPE_UNDEF | DEV_TYPE_TUN | DEV_TYPE_TAP

text \<open>Fields of the Ethernet header at 12, of the 802.1Q header at 16.\<close>

definition is_ipv_X :: "byte_order \<Rightarrow> dev_type \<Rightarrow> buffer \<Rightarrow> int \<Rightarrow> (buffer \<times> bool) option" where
  "is_ipv_X bo tunnel_type buf ip_ver = do {
     off \<leftarrow> (case tunnel_type of
         DEV_TYPE_TUN \<Rightarrow> Some (if buf_len buf < SIZE_IPHDR then None else Some 0)
       | DEV_TYPE_TAP \<Rightarrow>
           (if buf_len buf < SIZE_ETHHDR + SIZE_IPHDR then Some None
            else do {
              eh \<leftarrow> buf_bptr buf;
              proto \<leftarrow> load16 bo buf (eh + 12);
              (proto, offset) \<leftarrow> (if proto = htons bo OPENVPN_ETH_P_8021Q
                then do {
                  proto \<leftarrow> load16 bo buf (eh + 16);
                  Some (proto, SIZE_8021QHDR) }
                else Some (proto, SIZE_ETHHDR));
              Some (if ntohs bo proto \<noteq> (if ip_ver = 6 then OPENVPN_ETH_P_IPV6 else OPENVPN_ETH_P_IPV4) then None else Some offset) })
       | _ \<Rightarrow> Some None);
     case off of
       None \<Rightarrow> Some (buf, False)
     | Some offset \<Rightarrow> do {
         p \<leftarrow> buf_bptr buf;
         v \<leftarrow> load8 buf (p + offset);
         Some (if OPENVPN_IPH_GET_VER v = ip_ver then buf_advance buf offset else (buf, False)) } }"

definition is_ipv4 :: "byte_order \<Rightarrow> dev_type \<Rightarrow> buffer \<Rightarrow> (buffer \<times> bool) option" where
  "is_ipv4 bo tunnel_type buf = is_ipv_X bo tunnel_type buf 4"

definition is_ipv6 :: "byte_order \<Rightarrow> dev_type \<Rightarrow> buffer \<Rightarrow> (buffer \<times> bool) option" where
  "is_ipv6 bo tunnel_type buf = is_ipv_X bo tunnel_type buf 6"

text \<open>The version, or -1, and the offset of the IP header where the code sets it.\<close>

definition get_tun_ip_ver :: "byte_order \<Rightarrow> dev_type \<Rightarrow> buffer \<Rightarrow> (int \<times> int option) option" where
  "get_tun_ip_ver bo tunnel_type buf =
     (case tunnel_type of
        DEV_TYPE_TUN \<Rightarrow>
          (if buf_len buf \<ge> SIZE_IPHDR
           then do {
             p \<leftarrow> buf_bptr buf;
             v \<leftarrow> load8 buf p;
             Some (OPENVPN_IPH_GET_VER v, Some 0) }
           else Some (- 1, Some 0))
      | DEV_TYPE_TAP \<Rightarrow>
          (if buf_len buf \<ge> SIZE_ETHHDR
           then do {
             eh \<leftarrow> buf_bptr buf;
             w \<leftarrow> load16 bo buf (eh + 12);
             let proto = ntohs bo w;
             Some (if proto = OPENVPN_ETH_P_IPV6 then 6 else if proto = OPENVPN_ETH_P_IPV4 then 4 else - 1, Some SIZE_ETHHDR) }
           else Some (- 1, Some SIZE_ETHHDR))
      | _ \<Rightarrow> Some (- 1, None))"

section \<open>Checksums\<close>

definition ADJUST_CHECKSUM :: "int \<Rightarrow> u16 \<Rightarrow> u16" where
  "ADJUST_CHECKSUM acc cksum =
     (let acc = acc + uint cksum in
      if acc < 0
      then (let acc = - acc;
                acc = drop_bit 16 acc + (acc AND 0xffff);
                acc = acc + drop_bit 16 acc in word_of_int (NOT acc))
      else (let acc = drop_bit 16 acc + (acc AND 0xffff);
                acc = acc + drop_bit 16 acc in word_of_int acc))"

definition ADD_CHECKSUM_32 :: "int \<Rightarrow> u32 \<Rightarrow> int" where
  "ADD_CHECKSUM_32 acc u = acc + uint (u AND 0xffff) + uint (drop_bit 16 u)"

definition SUB_CHECKSUM_32 :: "int \<Rightarrow> u32 \<Rightarrow> int" where
  "SUB_CHECKSUM_32 acc u = acc - uint (u AND 0xffff) - uint (drop_bit 16 u)"

text \<open>The loops of \<open>ip_checksum\<close> over pairs of bytes; a missing last byte counts as 0.\<close>

fun sum_words :: "u32 \<Rightarrow> byte list \<Rightarrow> u32" where
  "sum_words s [] = s"
| "sum_words s [a] = s + (push_bit 8 (ucast a) AND 0xFF00)"
| "sum_words s (a # b # r) = sum_words (s + ((push_bit 8 (ucast a) AND 0xFF00) + ucast b)) r"

function fold_carries :: "u32 \<Rightarrow> u32" where
  "fold_carries s = (if drop_bit 16 s \<noteq> 0 then fold_carries ((s AND 0xFFFF) + drop_bit 16 s) else s)"
  by pat_completeness auto

definition ip_checksum :: "bool \<Rightarrow> byte list \<Rightarrow> byte list \<Rightarrow> byte list \<Rightarrow> int \<Rightarrow> u16 option" where
  "ip_checksum af_inet payload src_addr dest_addr proto = do {
     let addr_len = (if af_inet then 4 else 16);
     cassert (addr_len \<le> length src_addr \<and> addr_len \<le> length dest_addr);
     let s = sum_words 0 payload;
     let s = sum_words s (take addr_len src_addr);
     let s = sum_words s (take addr_len dest_addr);
     let s = s + ucast (word_of_nat (length payload) :: u16);
     let s = s + ucast (word_of_int proto :: u16);
     let s = fold_carries s;
     Some (NOT (ucast s)) }"

section \<open>Ones' complement arithmetic\<close>

lemma unat_high_half: "unat (drop_bit 16 s) = unat s div 65536" for s :: u32
  by (simp only: unat_drop_bit_eq drop_bit_eq_div[of _ "_ :: nat"]) simp

lemma carry_step:
  "unat ((s AND 0xFFFF) + drop_bit 16 s) = unat s mod 65536 + unat s div 65536" for s :: u32
proof -
  have a: "unat (s AND 0xFFFF) = unat s mod 65536"
  proof -
    have "(0xFFFF :: u32) = mask 16" by (simp add: mask_eq_exp_minus_1)
    then have "s AND 0xFFFF = take_bit 16 s" by (simp only: take_bit_eq_mask)
    then show ?thesis by (simp only: unsigned_take_bit_eq take_bit_eq_mod[of _ "_ :: nat"]) simp
  qed
  note b = unat_high_half[of s]
  have "unat s < 2 ^ 32" using unat_less_2p[of s] by simp
  then have "unat s div 65536 < 65536" by (simp add: less_mult_imp_div_less)
  then have "unat s mod 65536 + unat s div 65536 < 4294967296"
    using mod_less_divisor[of 65536 "unat s"] by linarith
  then show ?thesis using a b by (simp add: unat_word_ariths)
qed

lemma carry_less: "drop_bit 16 s \<noteq> 0 \<Longrightarrow> unat ((s AND 0xFFFF) + drop_bit 16 s) < unat s" for s :: u32
proof -
  assume "drop_bit 16 s \<noteq> 0"
  then have "unat s div 65536 \<noteq> 0" unfolding unat_high_half[symmetric] by (simp only: unat_eq_0 not_False_eq_True)
  then show ?thesis unfolding carry_step using div_mult_mod_eq[of "unat s" 65536] by linarith
qed

termination fold_carries
  by (relation "measure unat") (auto simp: carry_less)

declare fold_carries.simps [simp del]

text \<open>The sum of the words of a byte string, without a bound, and its value folded to 16 bits.\<close>

fun csum :: "byte list \<Rightarrow> nat" where
  "csum [] = 0"
| "csum [a] = 256 * unat a"
| "csum (a # b # r) = 256 * unat a + unat b + csum r"

definition ones :: "nat \<Rightarrow> nat" where
  "ones s = (if s = 0 then 0 else (s - 1) mod 65535 + 1)"

lemma ones_mod: "ones s mod 65535 = s mod 65535"
proof (cases s)
  case (Suc n)
  then show ?thesis by (simp add: ones_def mod_Suc_eq)
qed (simp add: ones_def)

lemma ones_le: "ones s \<le> 65535"
  using mod_less_divisor[of 65535 "s - 1"] by (simp add: ones_def Suc_le_eq)

lemma ones_eqI: "r \<le> 65535 \<Longrightarrow> r mod 65535 = s mod 65535 \<Longrightarrow> (r = 0 \<longleftrightarrow> s = 0) \<Longrightarrow> r = ones s"
proof (cases s)
  case (Suc n)
  assume r: "r \<le> 65535" "r mod 65535 = s mod 65535" "r = 0 \<longleftrightarrow> s = 0"
  then obtain k where k: "r = Suc k" using Suc by (cases r) auto
  have o: "ones s \<le> 65535" "ones s mod 65535 = r mod 65535" "ones s \<noteq> 0"
    by (rule ones_le, simp only: ones_mod r(2), simp add: ones_def Suc)
  have m: "x mod 65535 = (if x = 65535 then 0 else x)" if "x \<le> 65535" for x :: nat
    using that by (cases "x = 65535") (simp_all add: mod_less)
  show ?thesis using o(2,3) k unfolding m[OF o(1)] m[OF r(1)] by (simp split: if_splits)
qed (simp add: ones_def)

lemma unat_byte: "unat b < 256" for b :: byte
  using unat_less_2p[of b] by simp

lemma csum_bound: "csum bs \<le> 65535 * ((length bs + 1) div 2)"
proof (induction bs rule: csum.induct)
  case (2 a)
  then show ?case using unat_byte[of a] by simp
next
  case (3 a b r)
  have "(length (a # b # r) + 1) div 2 = Suc ((length r + 1) div 2)" by simp
  then show ?case using 3 unat_byte[of a] unat_byte[of b] by simp
qed simp

lemma unat_pair: "unat ((push_bit 8 (ucast a) AND 0xFF00 :: u32) + ucast b) = 256 * unat a + unat b" for a b :: byte
proof -
  have "(0xFF00 :: u32) = push_bit 8 (mask 8)" by (simp add: mask_eq_exp_minus_1 push_bit_eq_mult)
  then have "push_bit 8 (ucast a) AND 0xFF00 = (push_bit 8 (ucast a AND mask 8) :: u32)" by (simp only: push_bit_and)
  also have "(ucast a AND mask 8 :: u32) = ucast a"
    by (rule bit_word_eqI) (auto simp: bit_simps dest: bit_imp_le_length)
  finally have "unat (push_bit 8 (ucast a) AND 0xFF00 :: u32) = unat (push_bit 8 (ucast a :: u32))" by simp
  also have "\<dots> = 256 * unat a"
    using unat_byte[of a] by (simp add: push_bit_eq_mult unat_word_ariths unsigned_ucast_eq take_bit_nat_eq_self)
  finally have h: "unat (push_bit 8 (ucast a) AND 0xFF00 :: u32) = 256 * unat a" .
  have "unat (ucast b :: u32) = unat b" using unat_byte[of b] by (simp add: unsigned_ucast_eq take_bit_nat_eq_self)
  then show ?thesis using h unat_byte[of a] unat_byte[of b] by (simp add: unat_word_ariths)
qed

lemma unat_high: "unat (push_bit 8 (ucast a) AND 0xFF00 :: u32) = 256 * unat a" for a :: byte
  using unat_pair[of a 0] by simp

lemma sum_words_csum: "unat s + csum bs < 2 ^ 32 \<Longrightarrow> unat (sum_words s bs) = unat s + csum bs"
proof (induction s bs rule: sum_words.induct)
  case (2 s a)
  then show ?case using unat_high[of a] by (simp add: unat_word_ariths)
next
  case (3 s a b r)
  have u: "unat (s + ((push_bit 8 (ucast a) AND 0xFF00) + ucast b)) = unat s + (256 * unat a + unat b)"
    using "3.prems" unat_pair[of a b] by (simp only: unat_word_ariths(1)[of s] unat_pair) simp
  then show ?case using 3 by simp
qed simp

lemma fold_carries_ones: "unat (fold_carries s) = ones (unat s)"
proof (induction s rule: fold_carries.induct)
  case (1 s)
  show ?case
  proof (cases "drop_bit 16 s \<noteq> 0")
    case True
    let ?t = "(s AND 0xFFFF) + drop_bit 16 s"
    have t: "unat ?t = unat s mod 65536 + unat s div 65536" by (rule carry_step)
    have "unat ?t mod 65535 = unat s mod 65535"
    proof -
      have "unat s mod 65535 = (65536 * (unat s div 65536) + unat s mod 65536) mod 65535" by (metis mult_div_mod_eq)
      also have "\<dots> = (65535 * (unat s div 65536) + (unat s div 65536 + unat s mod 65536)) mod 65535" by (simp add: algebra_simps)
      also have "\<dots> = unat ?t mod 65535" unfolding t by (simp only: mod_mult_self4 add.commute)
      finally show ?thesis by simp
    qed
    moreover have "unat ?t \<noteq> 0 \<and> unat s \<noteq> 0"
      using True unfolding t unat_high_half[symmetric] by (metis add_is_0 drop_bit_of_0 unat_0 unat_eq_0)
    moreover have "unat (fold_carries s) = ones (unat ?t)" using 1 True by (subst fold_carries.simps) simp
    moreover have "ones (unat ?t) = ones (unat s)" if "unat ?t mod 65535 = unat s mod 65535" "unat ?t \<noteq> 0 \<and> unat s \<noteq> 0"
      using that ones_le[of "unat ?t"] ones_mod[of "unat ?t"] by (intro ones_eqI) (auto simp: ones_def)
    ultimately show ?thesis by metis
  next
    case False
    then have "unat (drop_bit 16 s) = 0" by (simp only: not_not unat_eq_0)
    then have "unat s < 65536" unfolding unat_high_half by (simp add: div_eq_0_iff)
    moreover have "fold_carries s = s" using False by (subst fold_carries.simps) simp
    ultimately show ?thesis by (intro ones_eqI) auto
  qed
qed

lemma unat_not16: "unat (NOT w) = 65535 - unat w" for w :: u16
proof -
  have "NOT w = - 1 - w" by (simp add: not_eq_complement)
  moreover have "unat (- 1 - w) = unat (- 1 :: u16) - unat w" by (rule unat_sub) simp
  moreover have "unat (- 1 :: u16) = 65535" by (simp add: unsigned_minus_1_eq_mask mask_eq_exp_minus_1)
  ultimately show ?thesis by simp
qed

text \<open>What \<open>ip_checksum\<close> computes: the complement of the folded sum of the payload and the pseudo header.\<close>

definition pseudo_sum :: "bool \<Rightarrow> byte list \<Rightarrow> byte list \<Rightarrow> nat \<Rightarrow> int \<Rightarrow> nat" where
  "pseudo_sum af_inet src dst len proto =
     (let n = (if af_inet then 4 else 16) in csum (take n src) + csum (take n dst) + len mod 65536 + nat (proto mod 65536))"

lemma ip_checksum_ones:
  assumes "length payload \<le> 65535" "(if af_inet then 4 else 16) \<le> length src" "(if af_inet then 4 else 16) \<le> length dst"
  shows "\<exists>w. ip_checksum af_inet payload src dst proto = Some w \<and>
    unat w = 65535 - ones (csum payload + pseudo_sum af_inet src dst (length payload) proto)"
proof -
  define n :: nat where "n = (if af_inet then 4 else 16)"
  have n: "n \<le> 16" "n \<le> length src" "n \<le> length dst" using assms by (auto simp: n_def)
  have bp: "csum payload \<le> 65535 * 32768"
    by (rule order_trans[OF csum_bound]) (use assms(1) in simp)
  have bs: "csum (take n src) \<le> 65535 * 8" by (rule order_trans[OF csum_bound]) (use n in simp)
  have bd: "csum (take n dst) \<le> 65535 * 8" by (rule order_trans[OF csum_bound]) (use n in simp)
  define s1 where "s1 = sum_words 0 payload"
  define s2 where "s2 = sum_words s1 (take n src)"
  define s3 where "s3 = sum_words s2 (take n dst)"
  define s4 where "s4 = s3 + ucast (word_of_nat (length payload) :: u16)"
  define s5 where "s5 = s4 + ucast (word_of_int proto :: u16)"
  have e1: "unat s1 = csum payload" using sum_words_csum[of 0 payload] bp by (simp add: s1_def)
  have e2: "unat s2 = csum payload + csum (take n src)" using sum_words_csum[of s1 "take n src"] e1 bp bs by (simp add: s2_def)
  have e3: "unat s3 = csum payload + csum (take n src) + csum (take n dst)"
    using sum_words_csum[of s2 "take n dst"] e2 bp bs bd by (simp add: s3_def)
  have l: "unat (ucast (word_of_nat (length payload) :: u16) :: u32) = length payload mod 65536"
    by (simp add: unsigned_ucast_eq unat_of_nat take_bit_eq_mod)
  have p: "unat (ucast (word_of_int proto :: u16) :: u32) = nat (proto mod 65536)"
    by (simp add: unsigned_ucast_eq unsigned_of_int take_bit_eq_mod)
  have m: "length payload mod 65536 < 65536" "nat (proto mod 65536) < 65536" by simp_all
  have e4: "unat s4 = csum payload + csum (take n src) + csum (take n dst) + length payload mod 65536"
    unfolding s4_def unat_word_ariths l e3 using bp bs bd m by simp
  have e5: "unat s5 = csum payload + pseudo_sum af_inet src dst (length payload) proto"
    unfolding s5_def unat_word_ariths p e4 pseudo_sum_def n_def[symmetric] using bp bs bd m by simp
  have f: "unat (fold_carries s5) = ones (csum payload + pseudo_sum af_inet src dst (length payload) proto)"
    by (simp only: fold_carries_ones e5)
  have "unat (NOT (ucast (fold_carries s5) :: u16)) = 65535 - unat (fold_carries s5)"
  proof -
    have "unat (fold_carries s5) < 2 ^ 16" unfolding f by (rule le_less_trans[OF ones_le]) simp
    then have u: "unat (ucast (fold_carries s5) :: u16) = unat (fold_carries s5)" by (simp add: unsigned_ucast_eq take_bit_nat_eq_self)
    show ?thesis unfolding unat_not16 u ..
  qed
  then show ?thesis using n f
    by (simp add: ip_checksum_def Let_def n_def[symmetric] s1_def s2_def s3_def s4_def s5_def)
qed

lemma csum_append: "even (length xs) \<Longrightarrow> csum (xs @ ys) = csum xs + csum ys"
  by (induction xs rule: csum.induct) auto

lemma ip_checksum_zero:
  assumes "length payload \<le> 65535" "(if af_inet then 4 else 16) \<le> length src" "(if af_inet then 4 else 16) \<le> length dst"
    and "0 < pseudo_sum af_inet src dst (length payload) proto"
  shows "ip_checksum af_inet payload src dst proto = Some 0 \<longleftrightarrow>
    (csum payload + pseudo_sum af_inet src dst (length payload) proto) mod 65535 = 0"
proof -
  let ?S = "csum payload + pseudo_sum af_inet src dst (length payload) proto"
  obtain w where w: "ip_checksum af_inet payload src dst proto = Some w" "unat w = 65535 - ones ?S"
    using ip_checksum_ones[OF assms(1-3)] by blast
  have "w = 0 \<longleftrightarrow> ones ?S = 65535" using w(2) ones_le[of ?S] by (auto simp: unat_eq_0[symmetric])
  also have "\<dots> \<longleftrightarrow> ?S mod 65535 = 0"
  proof
    assume "?S mod 65535 = 0"
    then show "ones ?S = 65535" using assms(4) by (intro ones_eqI[symmetric]) auto
  next
    assume "ones ?S = 65535"
    then show "?S mod 65535 = 0" using ones_mod[of ?S] by simp
  qed
  finally show ?thesis using w(1) by simp
qed

lemma csum_be16: "csum (be16 w) = unat w"
proof -
  have b: "be16 w = [word_of_nat (unat w div 256), word_of_nat (unat w)]" by (simp add: be16_def numeral_2_eq_2)
  have "unat w < 65536" using unat_less_2p[of w] by simp
  then have "unat w div 256 < 256" by (simp add: less_mult_imp_div_less)
  then show ?thesis unfolding b by (simp add: unat_of_nat unsigned_ucast_eq take_bit_eq_mod)
qed

text \<open>The checksum verifies: where the field at an even place is zero, writing the checksum there in
  network order makes the checksum of the whole packet zero.\<close>

theorem checksum_verifies:
  assumes "length (xs @ [0, 0] @ ys) \<le> 65535" "even (length xs)"
    and "(if af_inet then 4 else 16) \<le> length src" "(if af_inet then 4 else 16) \<le> length dst"
    and "0 < proto" "proto < 65536"
  shows "\<exists>w. ip_checksum af_inet (xs @ [0, 0] @ ys) src dst proto = Some w \<and>
    ip_checksum af_inet (xs @ be16 w @ ys) src dst proto = Some 0"
proof -
  let ?P = "pseudo_sum af_inet src dst (length (xs @ [0 :: byte, 0] @ ys)) proto"
  obtain w where w: "ip_checksum af_inet (xs @ [0, 0] @ ys) src dst proto = Some w"
    "unat w = 65535 - ones (csum (xs @ [0, 0] @ ys) + ?P)"
    using ip_checksum_ones[OF assms(1,3,4)] by blast
  have l: "length (xs @ be16 w @ ys) = length (xs @ [0 :: byte, 0] @ ys)" by simp
  have p: "0 < ?P" using assms(5,6) by (simp add: pseudo_sum_def Let_def)
  define S where "S = csum xs + csum ys + ?P"
  have c0: "csum (xs @ [0, 0] @ ys) + ?P = S" using assms(2) by (simp add: csum_append S_def)
  have "csum (xs @ be16 w @ ys) + ?P = S + unat w"
    using assms(2) by (simp add: csum_append csum_be16 S_def)
  also have "\<dots> = S + (65535 - ones S)" using w(2) unfolding c0 by simp
  finally have e: "csum (xs @ be16 w @ ys) + ?P = S + (65535 - ones S)" .
  have "(S + (65535 - ones S)) mod 65535 = 0"
  proof -
    have "(S + (65535 - ones S)) mod 65535 = (ones S + (65535 - ones S)) mod 65535"
      by (metis mod_add_left_eq ones_mod)
    then show ?thesis using ones_le[of S] by simp
  qed
  then have "ip_checksum af_inet (xs @ be16 w @ ys) src dst proto = Some 0"
    using ip_checksum_zero[of "xs @ be16 w @ ys" af_inet src dst proto] assms(1,3,4) p e unfolding l by simp
  then show ?thesis using w(1) by blast
qed

theorem checksum_verifies_witness:
  "\<exists>w. ip_checksum True ([69, 0] @ [0, 0] @ [1]) [10, 8, 0, 1] [10, 8, 0, 2] 17 = Some w \<and>
    ip_checksum True ([69, 0] @ be16 w @ [1]) [10, 8, 0, 1] [10, 8, 0, 2] 17 = Some 0"
  by (rule checksum_verifies) simp_all

section \<open>Incremental updates\<close>

definition fold_once :: "int \<Rightarrow> int" where
  "fold_once x = (let y = x div 65536 + x mod 65536 in y + y div 65536)"

lemma fold_once_bits: "(drop_bit 16 x + (x AND 0xffff)) + drop_bit 16 (drop_bit 16 x + (x AND 0xffff)) = fold_once x" for x :: int
proof -
  have "x AND 0xffff = x mod 65536" using take_bit_eq_mask[of 16 x] by (simp add: mask_eq_exp_minus_1 take_bit_eq_mod)
  then show ?thesis by (simp add: fold_once_def Let_def drop_bit_eq_div)
qed

lemma fold_once_mod:
  assumes "0 \<le> x" "x < 2 ^ 31"
  shows "fold_once x mod 65536 mod 65535 = x mod 65535" "0 \<le> fold_once x mod 65536" "fold_once x mod 65536 \<le> 65535"
proof -
  define y where "y = x div 65536 + x mod 65536"
  have q: "0 \<le> x div 65536" "x div 65536 < 32768" using assms by auto
  have r: "0 \<le> x mod 65536" "x mod 65536 < 65536" by simp_all
  have y: "0 \<le> y" "y < 98304" using q r unfolding y_def by linarith+
  have "x mod 65535 = (65535 * (x div 65536) + y) mod 65535"
    unfolding y_def using mult_div_mod_eq[of 65536 x] by (simp add: algebra_simps)
  then have m: "x mod 65535 = y mod 65535" by simp
  show "fold_once x mod 65536 mod 65535 = x mod 65535"
  proof (cases "y < 65536")
    case True
    then have "fold_once x = y" using y by (simp add: fold_once_def Let_def y_def[symmetric])
    then show ?thesis using m y True by simp
  next
    case False
    have "y div 65536 = 1" using False y by (intro int_div_pos_eq[of _ _ _ "y - 65536"]) auto
    then have e: "fold_once x = (y - 65535) + 65536" by (simp add: fold_once_def Let_def y_def[symmetric])
    have "fold_once x mod 65536 = (y - 65535) mod 65536" unfolding e by (rule mod_add_self2)
    also have "\<dots> = y - 65535" using False y by simp
    finally have "fold_once x mod 65536 mod 65535 = (y - 65535) mod 65535" by simp
    then show ?thesis unfolding m by (metis minus_mod_self2)
  qed
  show "0 \<le> fold_once x mod 65536" "fold_once x mod 65536 \<le> 65535" by (simp, smt (verit) pos_mod_bound)
qed

lemma diff_self_mod: "(K - a) mod K = (0 - a mod K) mod K" for a K :: int
  using mod_diff_eq[of K K a] by simp

lemma ADJUST_CHECKSUM_mod:
  assumes "- (2 ^ 31) < acc + uint ck" "acc + uint ck < 2 ^ 31"
  shows "uint (ADJUST_CHECKSUM acc ck) mod 65535 = (acc + uint ck) mod 65535"
proof -
  define x where "x = acc + uint ck"
  have u: "uint (word_of_int z :: u16) = z mod 65536" for z by (simp add: unsigned_of_int take_bit_eq_mod)
  show ?thesis
  proof (cases "x < 0")
    case True
    have n: "(NOT z) mod 65536 = 65535 - z mod 65536" for z :: int
    proof -
      have "NOT z = (65535 - z mod 65536) + 65536 * (- (z div 65536) - 1)"
        using mult_div_mod_eq[of 65536 z] by (simp add: not_int_def algebra_simps)
      then have "(NOT z) mod 65536 = (65535 - z mod 65536) mod 65536" by (metis mod_mult_self2)
      moreover have "0 \<le> z mod 65536" "z mod 65536 < 65536" by simp_all
      ultimately show ?thesis by simp
    qed
    have "ADJUST_CHECKSUM acc ck = word_of_int (NOT (fold_once (- x)))"
      unfolding ADJUST_CHECKSUM_def Let_def x_def[symmetric] fold_once_bits using True by simp
    then have "uint (ADJUST_CHECKSUM acc ck) mod 65535 = (65535 - fold_once (- x) mod 65536) mod 65535" by (simp only: u n)
    also have "\<dots> = (0 - fold_once (- x) mod 65536 mod 65535) mod 65535" by (rule diff_self_mod)
    also have "\<dots> = (0 - (- x) mod 65535) mod 65535" using fold_once_mod(1)[of "- x"] True assms(1) by (simp add: x_def)
    also have "\<dots> = x mod 65535" using mod_minus_eq[of "- x" 65535] by simp
    finally show ?thesis by (simp add: x_def)
  next
    case False
    have "ADJUST_CHECKSUM acc ck = word_of_int (fold_once x)"
      unfolding ADJUST_CHECKSUM_def Let_def x_def[symmetric] fold_once_bits using False by simp
    then show ?thesis using fold_once_mod(1)[of x] False assms(2) by (simp add: u x_def)
  qed
qed

text \<open>
  In ones' complement arithmetic a swap of the bytes of all words is a multiplication by 256, so the
  update may work on words as the host reads them: modulo 65535, such a word is \<open>byte_factor\<close> times
  the word in network order.
\<close>

definition byte_factor :: "byte_order \<Rightarrow> int" where
  "byte_factor bo = (case bo of Little_Endian \<Rightarrow> 256 | Big_Endian \<Rightarrow> 1)"

lemma byte_factor_square: "(byte_factor bo * (byte_factor bo * x)) mod 65535 = x mod 65535"
proof (cases bo)
  case Little_Endian
  have "byte_factor bo * (byte_factor bo * x) = 65535 * x + x" by (simp add: byte_factor_def Little_Endian)
  then show ?thesis by (simp only: mod_mult_self4)
qed (simp add: byte_factor_def)

lemma host_word:
  assumes "length bs = 2"
  shows "uint (de16 (in_order bo bs)) mod 65535 = (byte_factor bo * int (csum bs)) mod 65535"
proof -
  obtain a b where bs: "bs = [a, b]" using assms by (auto simp: numeral_2_eq_2 length_Suc_conv)
  have d: "uint (de16 [x, y]) = 256 * int (unat x) + int (unat y)" for x y :: byte
  proof -
    have "256 * unat x + unat y < 2 ^ LENGTH(16)" using unat_byte[of x] unat_byte[of y] by simp
    then have "unat (de16 [x, y]) = 256 * unat x + unat y" by (simp only: de16_def nat_be_def foldl.simps unat_of_nat mod_less) simp
    then show ?thesis by (simp only: uint_nat of_nat_add of_nat_mult of_nat_numeral)
  qed
  show ?thesis
  proof (cases bo)
    case Little_Endian
    have "256 * int (csum [a, b]) = 65535 * int (unat a) + (256 * int (unat b) + int (unat a))" by simp
    then have "(256 * int (csum [a, b])) mod 65535 = (256 * int (unat b) + int (unat a)) mod 65535" by (simp only: mod_mult_self4)
    then show ?thesis using d[of b a] by (simp add: bs in_order_def byte_factor_def Little_Endian)
  next
    case Big_Endian
    then show ?thesis using d[of a b] by (simp add: bs in_order_def byte_factor_def)
  qed
qed

lemma host_word_bytes:
  "int (csum (in_order bo (be16 w))) mod 65535 = (byte_factor bo * uint w) mod 65535"
proof -
  have "uint w mod 65535 = (byte_factor bo * int (csum (in_order bo (be16 w)))) mod 65535"
    using host_word[of "in_order bo (be16 w)" bo] by simp
  then have "(byte_factor bo * uint w) mod 65535 = (byte_factor bo * (byte_factor bo * int (csum (in_order bo (be16 w))))) mod 65535"
    by (metis mod_mult_right_eq)
  then show ?thesis by (simp only: byte_factor_square)
qed

text \<open>The stored field accounts for the change \<open>acc\<close>, in host order.\<close>

lemma adjusted_field:
  assumes "length k = 2" "- (2 ^ 31) < acc + uint (de16 (in_order bo k))" "acc + uint (de16 (in_order bo k)) < 2 ^ 31"
  shows "int (csum (in_order bo (be16 (ADJUST_CHECKSUM acc (de16 (in_order bo k)))))) mod 65535 =
    (int (csum k) + byte_factor bo * acc) mod 65535"
proof -
  let ?ck = "de16 (in_order bo k)" and ?f = "byte_factor bo"
  have "int (csum (in_order bo (be16 (ADJUST_CHECKSUM acc ?ck)))) mod 65535 = (?f * (uint (ADJUST_CHECKSUM acc ?ck) mod 65535)) mod 65535"
    by (simp only: host_word_bytes mod_mult_right_eq)
  also have "\<dots> = (?f * ((acc + ?f * int (csum k)) mod 65535)) mod 65535"
    by (simp only: ADJUST_CHECKSUM_mod[OF assms(2,3)] host_word[OF assms(1)] mod_add_right_eq[of acc "uint ?ck" 65535, symmetric] mod_add_right_eq)
  also have "\<dots> = (?f * acc + ?f * (?f * int (csum k))) mod 65535" by (simp only: mod_mult_right_eq distrib_left)
  also have "\<dots> = (?f * acc + int (csum k)) mod 65535" by (metis byte_factor_square mod_add_right_eq)
  finally show ?thesis by (simp add: add.commute)
qed

lemma host_word32:
  assumes "length bs = 4"
  shows "ADD_CHECKSUM_32 0 (de32 (in_order bo bs)) mod 65535 = (byte_factor bo * int (csum bs)) mod 65535"
    "0 \<le> ADD_CHECKSUM_32 0 w" "ADD_CHECKSUM_32 0 w \<le> 131070"
proof -
  obtain a b c d where bs: "bs = [a, b, c, d]" using assms by (auto simp: numeral_eq_Suc length_Suc_conv)
  have m: "uint (v AND 0xffff) = uint v mod 65536" for v :: u32
  proof -
    have "(0xffff :: u32) = mask 16" by (simp add: mask_eq_exp_minus_1)
    then have "v AND 0xffff = take_bit 16 v" by (simp only: take_bit_eq_mask)
    then show ?thesis by (simp only: unsigned_take_bit_eq take_bit_eq_mod[of _ "_ :: int"]) simp
  qed
  have h: "uint (drop_bit 16 v) = uint v div 65536" for v :: u32
    by (simp only: uint_nat unat_high_half zdiv_int of_nat_numeral)
  have v: "0 \<le> uint v" "uint v < 2 ^ 32" for v :: u32 using uint_bounded[of v] by simp_all
  have "unat w < 65536 * 65536" using unat_less_2p[of w] by simp
  then have "int (unat w div 65536) < int 65536" unfolding of_nat_less_iff by (rule less_mult_imp_div_less)
  then have "uint w div 65536 < 65536" by (simp only: uint_nat zdiv_int of_nat_numeral)
  moreover have "0 \<le> uint w div 65536" "0 \<le> uint w mod 65536" "uint w mod 65536 < 65536" by (simp_all add: pos_imp_zdiv_nonneg_iff)
  ultimately show "0 \<le> ADD_CHECKSUM_32 0 w" "ADD_CHECKSUM_32 0 w \<le> 131070" by (simp_all add: ADD_CHECKSUM_32_def m h)
  have s: "ADD_CHECKSUM_32 0 v mod 65535 = uint v mod 65535" for v
  proof -
    have "uint v = 65535 * (uint v div 65536) + (uint v div 65536 + uint v mod 65536)"
      using mult_div_mod_eq[of 65536 "uint v"] by simp
    then have "uint v mod 65535 = (65535 * (uint v div 65536) + (uint v div 65536 + uint v mod 65536)) mod 65535" by (rule arg_cong)
    also have "\<dots> = (uint v div 65536 + uint v mod 65536) mod 65535" by (rule mod_mult_self4)
    finally show ?thesis by (simp add: ADD_CHECKSUM_32_def m h add.commute)
  qed
  have e: "uint (de32 [x, y, z, t]) = 256 * (256 * (256 * int (unat x) + int (unat y)) + int (unat z)) + int (unat t)" for x y z t :: byte
  proof -
    have "nat_be [x, y, z, t] = 256 * (256 * (256 * unat x + unat y) + unat z) + unat t" by (simp add: nat_be_def)
    moreover have "nat_be [x, y, z, t] mod 2 ^ LENGTH(32) = nat_be [x, y, z, t]" using nat_be_bound[of "[x, y, z, t]"] by simp
    ultimately have "unat (de32 [x, y, z, t]) = 256 * (256 * (256 * unat x + unat y) + unat z) + unat t"
      by (simp only: de32_def unat_of_nat)
    then show ?thesis by (simp only: uint_nat of_nat_add of_nat_mult of_nat_numeral)
  qed
  show "ADD_CHECKSUM_32 0 (de32 (in_order bo bs)) mod 65535 = (byte_factor bo * int (csum bs)) mod 65535"
  proof (cases bo)
    case Little_Endian
    have "uint (de32 [d, c, b, a]) = 65535 * (256 * int (unat d) + int (unat c) - int (unat a) - int (unat c)) + 256 * int (csum [a, b, c, d])"
      unfolding e by (simp add: algebra_simps)
    then have "uint (de32 [d, c, b, a]) mod 65535 = (256 * int (csum [a, b, c, d])) mod 65535" by (simp only: mod_mult_self4)
    then show ?thesis by (simp add: s bs in_order_def byte_factor_def Little_Endian)
  next
    case Big_Endian
    have "uint (de32 [a, b, c, d]) = 65535 * (256 * int (unat a) + int (unat b)) + int (csum [a, b, c, d])"
      unfolding e by (simp add: algebra_simps)
    then have "uint (de32 [a, b, c, d]) mod 65535 = int (csum [a, b, c, d]) mod 65535" by (simp only: mod_mult_self4)
    then show ?thesis by (simp add: s bs in_order_def byte_factor_def Big_Endian)
  qed
qed


section \<open>Access to the bytes of a buffer\<close>

lemma load8_of: "i < length c \<Longrightarrow> load8 (buf_of p c q) (int (length p) + int i) = Some (c ! i)"
  using buf_load_content[of "int i" 1 c p q] by (simp add: load8_def take_Suc_conv_app_nth hd_drop_conv_nth)

lemma load16_of:
  "i + 2 \<le> length c \<Longrightarrow> load16 bo (buf_of p c q) (int (length p) + int i) = Some (de16 (in_order bo (take 2 (drop i c))))"
  using buf_load_content[of "int i" 2 c p q] by (simp add: load16_def)

lemma load32_of:
  "i + 4 \<le> length c \<Longrightarrow> load32 bo (buf_of p c q) (int (length p) + int i) = Some (de32 (in_order bo (take 4 (drop i c))))"
  using buf_load_content[of "int i" 4 c p q] by (simp add: load32_def)

lemma buf_store_of:
  assumes "i + length bs \<le> length c"
  shows "buf_store (buf_of p c q) (int (length p) + int i) bs = Some (buf_of p (take i c @ bs @ drop (i + length bs) c) q)"
proof -
  have e: "p @ c @ q = (p @ take i c) @ take (length bs) (drop i c) @ drop (i + length bs) c @ q"
    by (metis append.assoc append_take_drop_id drop_drop add.commute)
  have m: "mem_write ((p @ take i c) @ take (length bs) (drop i c) @ drop (i + length bs) c @ q) (int (length p) + int i) bs =
      Some ((p @ take i c) @ bs @ drop (i + length bs) c @ q)"
    using assms by (intro mem_write_mid) auto
  have "mem_write (p @ c @ q) (int (length p) + int i) bs = Some (p @ (take i c @ bs @ drop (i + length bs) c) @ q)"
    using m[folded e] by simp
  then show ?thesis using assms by (simp add: buf_store_def buf_of_def)
qed

definition put_bytes :: "nat \<Rightarrow> byte list \<Rightarrow> byte list \<Rightarrow> byte list" where
  "put_bytes i bs c = take i c @ bs @ drop (i + length bs) c"

lemma put_bytes_simps [simp]:
  "i + length bs \<le> length c \<Longrightarrow> length (put_bytes i bs c) = length c"
  "i + length bs \<le> length c \<Longrightarrow> j < i \<or> i + length bs \<le> j \<Longrightarrow> put_bytes i bs c ! j = c ! j"
  "i + length bs \<le> length c \<Longrightarrow> k < length bs \<Longrightarrow> put_bytes i bs c ! (i + k) = bs ! k"
proof -
  assume l: "i + length bs \<le> length c"
  have t: "length (take i c) = i" using l by simp
  show "length (put_bytes i bs c) = length c" using l by (simp add: put_bytes_def)
  show "put_bytes i bs c ! j = c ! j" if away: "j < i \<or> i + length bs \<le> j"
  proof (cases "j < i")
    case True
    then show ?thesis using t by (simp add: put_bytes_def nth_append)
  next
    case False
    then have "i + length bs \<le> j" using away by simp
    then obtain d where j: "j = i + (length bs + d)" by (metis add.assoc le_Suc_ex)
    have "put_bytes i bs c ! j = (bs @ drop (i + length bs) c) ! (length bs + d)"
      using nth_append_length_plus[of "take i c" "bs @ drop (i + length bs) c" "length bs + d"] unfolding t put_bytes_def j .
    also have "\<dots> = drop (i + length bs) c ! d" by (rule nth_append_length_plus)
    also have "\<dots> = c ! j" using l by (simp add: j add.assoc)
    finally show ?thesis .
  qed
  show "put_bytes i bs c ! (i + k) = bs ! k" if "k < length bs"
    using that t by (simp add: put_bytes_def nth_append)
qed

lemma csum_put_bytes:
  assumes "i + length bs \<le> length c" "even i" "even (length bs)"
  shows "csum (put_bytes i bs c) + csum (take (length bs) (drop i c)) = csum c + csum bs"
proof -
  let ?n = "length bs"
  have c: "c = take i c @ take ?n (drop i c) @ drop (i + ?n) c" by (metis append_take_drop_id drop_drop add.commute)
  have l: "even (length (take i c))" "even (length (take ?n (drop i c)))" "even (length bs)" using assms by auto
  have "csum c = csum (take i c) + (csum (take ?n (drop i c)) + csum (drop (i + ?n) c))"
    by (subst c) (simp only: csum_append l)
  moreover have "csum (put_bytes i bs c) = csum (take i c) + (csum bs + csum (drop (i + ?n) c))"
    unfolding put_bytes_def by (simp only: csum_append l)
  ultimately show ?thesis by simp
qed

text \<open>The word in network order at an index.\<close>

definition word_at :: "byte list \<Rightarrow> nat \<Rightarrow> nat" where
  "word_at c i = 256 * unat (c ! i) + unat (c ! Suc i)"

lemma word_at_bound: "word_at c i \<le> 65535"
  using unat_byte[of "c ! i"] unat_byte[of "c ! Suc i"] by (simp add: word_at_def)

lemma word_at_put: "i + 2 \<le> length c \<Longrightarrow> word_at (put_bytes i (be16 w) c) i = unat w"
proof -
  assume l: "i + 2 \<le> length c"
  have b: "be16 w = [word_of_nat (unat w div 256), word_of_nat (unat w)]" by (simp add: be16_def numeral_2_eq_2)
  have "csum (be16 w) = unat w" by (rule csum_be16)
  then have e: "256 * unat (be16 w ! 0) + unat (be16 w ! 1) = unat w" unfolding b by simp
  have "put_bytes i (be16 w) c ! i = be16 w ! 0" "put_bytes i (be16 w) c ! Suc i = be16 w ! 1"
    using l put_bytes_simps(3)[of i "be16 w" c 0] put_bytes_simps(3)[of i "be16 w" c 1] by simp_all
  then show ?thesis using e by (simp add: word_at_def)
qed

lemma word_at_cong: "c' ! i = c ! i \<Longrightarrow> c' ! Suc i = c ! Suc i \<Longrightarrow> word_at c' i = word_at c i"
  by (simp add: word_at_def)

lemma csum_word: "i + 2 \<le> length c \<Longrightarrow> csum (take 2 (drop i c)) = word_at c i"
  by (simp add: numeral_2_eq_2 take_Suc_conv_app_nth hd_drop_conv_nth word_at_def Cons_nth_drop_Suc[symmetric])

lemma be16_de16: "length bs = 2 \<Longrightarrow> be16 (de16 bs) = bs"
  using nat_be_bound[of bs] by (simp add: be16_def de16_def unat_of_nat be_nat_nat_be)

lemma ntohs_load:
  assumes "i + 2 \<le> length c"
  obtains w where "load16 bo (buf_of p c q) (int (length p) + int i) = Some w" "unat (ntohs bo w) = word_at c i"
proof -
  let ?k = "take 2 (drop i c)"
  have two: "length ?k = 2" using assms by simp
  have again: "in_order bo (be16 (de16 (in_order bo ?k))) = ?k"
    using two by (simp add: be16_de16)
  have "load16 bo (buf_of p c q) (int (length p) + int i) = Some (de16 (in_order bo ?k))" by (rule load16_of[OF assms])
  moreover have "ntohs bo (de16 (in_order bo ?k)) = de16 ?k" by (simp only: ntohs_def again)
  moreover have "unat (de16 ?k) = word_at c i"
  proof -
    have "csum (be16 (de16 ?k)) = unat (de16 ?k)" by (rule csum_be16)
    then show ?thesis using csum_word[OF assms] two by (simp add: be16_de16)
  qed
  ultimately show ?thesis using that by metis
qed

lemma zero_mod_cong: "a mod 65535 = b mod 65535 \<Longrightarrow> (a + s) mod 65535 = (b + s) mod 65535" for a b s :: int
  by (metis mod_add_left_eq)

section \<open>What the search for the header promises\<close>

lemma net_order_twice: "ntohs bo (htons bo w) = w" "htons bo (ntohs bo w) = w"
  by (simp_all add: ntohs_def htons_def be16_de16)

lemma is_htons: "w = htons bo v \<longleftrightarrow> ntohs bo w = v"
  using net_order_twice by metis

lemma IPH_GET_VER: "OPENVPN_IPH_GET_VER v = int (unat v div 16)"
proof -
  have "(0x0F :: byte) = mask 4" by (simp add: mask_eq_exp_minus_1)
  then have "drop_bit 4 v AND 0x0F = take_bit 4 (drop_bit 4 v)" by (simp only: take_bit_eq_mask)
  also have "\<dots> = drop_bit 4 v" by (rule bit_word_eqI) (auto simp: bit_simps dest: bit_imp_le_length)
  finally have "OPENVPN_IPH_GET_VER v = int (unat (drop_bit 4 v))" by (simp only: OPENVPN_IPH_GET_VER_def uint_nat)
  moreover have "unat (drop_bit 4 v) = unat v div 16" by (simp only: unat_drop_bit_eq drop_bit_eq_div[of _ "_ :: nat"]) simp
  ultimately show ?thesis by simp
qed

definition header_offset :: "dev_type \<Rightarrow> byte list \<Rightarrow> nat" where
  "header_offset tunnel_type c =
     (if tunnel_type = DEV_TYPE_TAP then if word_at c 12 = 0x8100 then 18 else 14 else 0)"

definition header_at :: "dev_type \<Rightarrow> byte list \<Rightarrow> nat \<Rightarrow> bool" where
  "header_at tunnel_type c ip_ver =
     ((case tunnel_type of
         DEV_TYPE_TUN \<Rightarrow> 20 \<le> length c
       | DEV_TYPE_TAP \<Rightarrow> 34 \<le> length c \<and>
           word_at c (header_offset tunnel_type c - 2) = (if ip_ver = 6 then 0x86DD else 0x0800)
       | _ \<Rightarrow> False) \<and> unat (c ! header_offset tunnel_type c) div 16 = ip_ver)"

lemma is_ipv_X_of:
  "is_ipv_X bo tunnel_type (buf_of p c q) (int v) =
     Some (if header_at tunnel_type c v
           then (let k = header_offset tunnel_type c in (buf_of (p @ take k c) (drop k c) q, True))
           else (buf_of p c q, False))"
proof -
  have step: "(load8 (buf_of p c q) (int (length p) + n) \<bind> (\<lambda>x.
      Some (if OPENVPN_IPH_GET_VER x = int v then buf_advance (buf_of p c q) n else (buf_of p c q, False)))) =
      Some (if unat (c ! k) div 16 = v then (buf_of (p @ take k c) (drop k c) q, True) else (buf_of p c q, False))"
    if "k < length c" "n = int k" for k n
  proof -
    have "load8 (buf_of p c q) (int (length p) + n) = Some (c ! k)" using load8_of[OF that(1)] that(2) by simp
    moreover have "OPENVPN_IPH_GET_VER (c ! k) = int v \<longleftrightarrow> unat (c ! k) div 16 = v" by (simp only: IPH_GET_VER of_nat_eq_iff)
    moreover have "buf_advance (buf_of p c q) n = (buf_of (p @ take k c) (drop k c) q, True)" using that by (simp add: buf_eqs)
    ultimately show ?thesis by simp
  qed
  show ?thesis
  proof (cases tunnel_type)
    case DEV_TYPE_TUN
    show ?thesis
    proof (cases "length c < 20")
      case False
      have "0 < length c" using False by linarith
      from load8_of[OF this, of p q] have "load8 (buf_of p c q) (int (length p)) = Some (c ! 0)" by simp
      moreover have "OPENVPN_IPH_GET_VER (c ! 0) = int v \<longleftrightarrow> unat (c ! 0) div 16 = v" by (simp only: IPH_GET_VER of_nat_eq_iff)
      ultimately show ?thesis using False
        by (simp add: is_ipv_X_def DEV_TYPE_TUN header_at_def header_offset_def SIZE_IPHDR_def Let_def buf_advance_of)
    qed (simp add: is_ipv_X_def DEV_TYPE_TUN header_at_def SIZE_IPHDR_def)
  next
    case DEV_TYPE_TAP
    show ?thesis
    proof (cases "length c < 34")
      case False
      have l: "12 + 2 \<le> length c" "16 + 2 \<le> length c" "14 < length c" "18 < length c" using False by linarith+
      obtain w where w: "load16 bo (buf_of p c q) (int (length p) + int 12) = Some w" "unat (ntohs bo w) = word_at c 12"
        using ntohs_load[OF l(1)] by metis
      obtain x where x: "load16 bo (buf_of p c q) (int (length p) + int 16) = Some x" "unat (ntohs bo x) = word_at c 16"
        using ntohs_load[OF l(2)] by metis
      define ty :: u16 where "ty = (if int v = 6 then OPENVPN_ETH_P_IPV6 else OPENVPN_ETH_P_IPV4)"
      have ty: "unat ty = (if v = 6 then 0x86DD else 0x0800)" by (simp add: ty_def OPENVPN_ETH_P_IPV6_def OPENVPN_ETH_P_IPV4_def)
      have q: "w = htons bo OPENVPN_ETH_P_8021Q \<longleftrightarrow> word_at c 12 = 0x8100"
        by (simp only: is_htons word_unat_eq_iff[of "ntohs bo w"] w(2)) (simp add: OPENVPN_ETH_P_8021Q_def)
      have t: "ntohs bo w \<noteq> ty \<longleftrightarrow> word_at c 12 \<noteq> unat ty" "ntohs bo x \<noteq> ty \<longleftrightarrow> word_at c 16 \<noteq> unat ty"
        unfolding word_unat_eq_iff w(2) x(2) by simp_all
      have "is_ipv_X bo tunnel_type (buf_of p c q) (int v) =
          (if word_at c 12 = 0x8100
           then if word_at c 16 \<noteq> unat ty then Some (buf_of p c q, False)
                else load8 (buf_of p c q) (int (length p) + 18) \<bind> (\<lambda>x.
                  Some (if OPENVPN_IPH_GET_VER x = int v then buf_advance (buf_of p c q) 18 else (buf_of p c q, False)))
           else if word_at c 12 \<noteq> unat ty then Some (buf_of p c q, False)
                else load8 (buf_of p c q) (int (length p) + 14) \<bind> (\<lambda>x.
                  Some (if OPENVPN_IPH_GET_VER x = int v then buf_advance (buf_of p c q) 14 else (buf_of p c q, False))))"
        using False w(1) x(1) q t unfolding is_ipv_X_def DEV_TYPE_TAP ty_def[symmetric]
        by (simp add: SIZE_IPHDR_def SIZE_ETHHDR_def SIZE_8021QHDR_def)
      then show ?thesis using False unfolding step[OF l(3), of 14, OF of_nat_numeral[symmetric]] step[OF l(4), of 18, OF of_nat_numeral[symmetric]] ty
        by (simp add: header_at_def header_offset_def DEV_TYPE_TAP Let_def)
    qed (simp add: is_ipv_X_def DEV_TYPE_TAP header_at_def SIZE_IPHDR_def SIZE_ETHHDR_def)
  qed (simp_all add: is_ipv_X_def header_at_def)
qed

text \<open>When an IPv4 header is found, the buffer starts at a byte with version 4, which is at the start of
  a packet of a tun device or behind the Ethernet or the 802.1Q header with the type of IPv4; a whole
  header of 20 bytes is left, but behind an 802.1Q header only 16 bytes may be.\<close>

theorem ipv4_header_found:
  assumes "is_ipv4 bo tunnel_type (buf_of p c q) = Some (b, True)"
  shows "let k = header_offset tunnel_type c in
    b = buf_of (p @ take k c) (drop k c) q \<and> unat (drop k c ! 0) div 16 = 4 \<and>
    (tunnel_type = DEV_TYPE_TUN \<and> k = 0 \<or> tunnel_type = DEV_TYPE_TAP \<and> k \<in> {14, 18} \<and> word_at c (k - 2) = 0x0800) \<and>
    (if k = 18 then 16 else 20) \<le> length (drop k c)"
proof -
  have f: "is_ipv4 bo tunnel_type (buf_of p c q) = Some (if header_at tunnel_type c 4
      then (let k = header_offset tunnel_type c in (buf_of (p @ take k c) (drop k c) q, True)) else (buf_of p c q, False))"
    using is_ipv_X_of[of bo tunnel_type p c q 4] by (simp add: is_ipv4_def)
  then have h: "header_at tunnel_type c 4" using assms by (auto split: if_splits)
  then show ?thesis using assms f
    by (cases tunnel_type) (auto simp: header_at_def header_offset_def Let_def hd_drop_conv_nth split: if_splits)
qed

text \<open>A frame with a VLAN tag behind which 16 bytes of the IPv4 header are left.\<close>

definition vlan_frame :: "byte list" where
  "vlan_frame = [0, 0, 0, 0, 0, 1, 0, 0, 0, 0, 0, 2, 0x81, 0, 0, 1, 8, 0,
     0x45, 0, 0, 16, 0, 0, 0, 0, 64, 17, 0, 0, 10, 8, 0, 2]"

theorem ipv4_header_found_witness:
  "let k = header_offset DEV_TYPE_TAP vlan_frame in
    buf_of (take 18 vlan_frame) (drop 18 vlan_frame) [] = buf_of ([] @ take k vlan_frame) (drop k vlan_frame) [] \<and>
    unat (drop k vlan_frame ! 0) div 16 = 4 \<and> k = 18 \<and> word_at vlan_frame (k - 2) = 0x0800 \<and> length (drop k vlan_frame) = 16"
proof -
  have k: "header_offset DEV_TYPE_TAP vlan_frame = 18" by (simp add: header_offset_def vlan_frame_def word_at_def)
  have "header_at DEV_TYPE_TAP vlan_frame 4" unfolding header_at_def k by (simp add: vlan_frame_def word_at_def)
  then have "is_ipv4 Little_Endian DEV_TYPE_TAP (buf_of [] vlan_frame []) = Some (buf_of (take 18 vlan_frame) (drop 18 vlan_frame) [], True)"
    using is_ipv_X_of[of Little_Endian DEV_TYPE_TAP "[]" vlan_frame "[]" 4] by (simp add: is_ipv4_def k)
  from ipv4_header_found[OF this] show ?thesis
    unfolding Let_def k by (auto simp: vlan_frame_def)
qed

end
