(* ===== verification/Ovpn_Mss.thy ===== *)
theory Ovpn_Mss
  imports Ovpn_Inet
begin

text \<open>
  MSS clamping (\<open>mss.c\<close>): the MSS option of TCP SYN segments inside the tunnel is lowered in place,
  and the TCP checksum is updated with it.
\<close>

unbundle bit_operations_syntax

section \<open>The operations\<close>

definition OPENVPN_TCPOPT_EOL :: byte where "OPENVPN_TCPOPT_EOL = 0"
definition OPENVPN_TCPOPT_NOP :: byte where "OPENVPN_TCPOPT_NOP = 1"
definition OPENVPN_TCPOPT_MAXSEG :: byte where "OPENVPN_TCPOPT_MAXSEG = 2"
definition OPENVPN_TCPOLEN_MAXSEG :: int where "OPENVPN_TCPOLEN_MAXSEG = 4"

text \<open>One MSS option at \<open>opt\<close> of the TCP header at \<open>tc\<close>.\<close>

definition mss_clamp_option :: "byte_order \<Rightarrow> u16 \<Rightarrow> int \<Rightarrow> int \<Rightarrow> buffer \<Rightarrow> buffer option" where
  "mss_clamp_option bo maxmss tc opt buf = do {
     o2 \<leftarrow> load8 buf (opt + 2);
     o3 \<leftarrow> load8 buf (opt + 3);
     let mssval = (ucast (push_bit 8 (ucast o2 :: u32)) :: u16) + ucast o3;
     if mssval > maxmss
     then do {
       buf \<leftarrow> buf_store buf (opt + 2) [ucast (drop_bit 8 maxmss AND 0xff)];
       buf \<leftarrow> buf_store buf (opt + 3) [ucast (maxmss AND 0xff)];
       let accumulate = uint (htons bo mssval);
       let accumulate = accumulate - uint (htons bo maxmss);
       check \<leftarrow> load16 bo buf (tc + 16);
       store16 bo buf (tc + 16) (ADJUST_CHECKSUM accumulate check) }
     else Some buf }"

lemma uint_pos: "uint w \<noteq> 0 \<Longrightarrow> 0 < uint w"
  using uint_ge_0[of w] by linarith

text \<open>The loop over the options.\<close>

function mss_loop :: "byte_order \<Rightarrow> u16 \<Rightarrow> int \<Rightarrow> int \<Rightarrow> int \<Rightarrow> buffer \<Rightarrow> buffer option" where
  "mss_loop bo maxmss tc olen opt buf =
     (if olen > 1
      then do {
        k \<leftarrow> load8 buf opt;
        if k = OPENVPN_TCPOPT_EOL then Some buf
        else if k = OPENVPN_TCPOPT_NOP then mss_loop bo maxmss tc (olen - 1) (opt + 1) buf
        else do {
          l \<leftarrow> load8 buf (opt + 1);
          let optlen = uint l;
          if optlen \<le> 0 \<or> optlen > olen then Some buf
          else do {
            buf \<leftarrow> (if k = OPENVPN_TCPOPT_MAXSEG \<and> optlen = OPENVPN_TCPOLEN_MAXSEG
              then mss_clamp_option bo maxmss tc opt buf else Some buf);
            mss_loop bo maxmss tc (olen - optlen) (opt + optlen) buf } } }
      else Some buf)"
  by pat_completeness auto
termination
  by (relation "measure (\<lambda>(bo, maxmss, tc, olen, opt, buf). nat olen)") (auto intro: uint_pos)

declare mss_loop.simps [simp del]

definition mss_fixup_dowork :: "byte_order \<Rightarrow> u16 \<Rightarrow> buffer \<Rightarrow> buffer option" where
  "mss_fixup_dowork bo maxmss buf =
     (if buf_len buf < SIZE_TCPHDR then Some buf
      else do {
        tc \<leftarrow> buf_bptr buf;
        d \<leftarrow> load8 buf (tc + 12);
        let hlen = OPENVPN_TCPH_GET_DOFF d;
        if hlen \<le> SIZE_TCPHDR \<or> hlen > buf_len buf then Some buf
        else mss_loop bo maxmss tc (hlen - SIZE_TCPHDR) (tc + SIZE_TCPHDR) buf })"

text \<open>\<open>newbuf\<close> is a copy of the buffer that points to the same block.\<close>

definition mss_fixup_ipv4 :: "byte_order \<Rightarrow> u16 \<Rightarrow> buffer \<Rightarrow> buffer option" where
  "mss_fixup_ipv4 bo maxmss buf =
     (if buf_len buf < SIZE_IPHDR then Some buf
      else do {
        pip \<leftarrow> buf_bptr buf;
        v \<leftarrow> load8 buf pip;
        let hlen = OPENVPN_IPH_GET_LEN v;
        protocol \<leftarrow> load8 buf (pip + 9);
        tot_len \<leftarrow> load16 bo buf (pip + 2);
        frag_off \<leftarrow> load16 bo buf (pip + 6);
        if protocol = OPENVPN_IPPROTO_TCP \<and> uint (ntohs bo tot_len) = buf_len buf
           \<and> ntohs bo frag_off AND OPENVPN_IP_OFFMASK = 0 \<and> hlen \<le> buf_len buf
           \<and> buf_len buf - hlen \<ge> SIZE_TCPHDR
        then (case buf_advance buf hlen of
            (newbuf, False) \<Rightarrow> Some buf
          | (newbuf, True) \<Rightarrow> do {
              tc \<leftarrow> buf_bptr newbuf;
              flags \<leftarrow> load8 newbuf (tc + 13);
              if flags AND OPENVPN_TCPH_SYN_MASK \<noteq> 0
              then do {
                newbuf \<leftarrow> mss_fixup_dowork bo maxmss newbuf;
                Some (buf\<lparr>b_data := b_data newbuf\<rparr>) }
              else Some buf })
        else Some buf })"

definition mss_fixup_ipv6 :: "byte_order \<Rightarrow> u16 \<Rightarrow> buffer \<Rightarrow> buffer option" where
  "mss_fixup_ipv6 bo maxmss buf =
     (if buf_len buf < SIZE_IPV6HDR then Some buf
      else do {
        pip6 \<leftarrow> buf_bptr buf;
        payload_len \<leftarrow> load16 bo buf (pip6 + 4);
        nexthdr \<leftarrow> load8 buf (pip6 + 6);
        if buf_len buf \<noteq> uint (ntohs bo payload_len) + 40 then Some buf
        else if nexthdr \<noteq> OPENVPN_IPPROTO_TCP then Some buf
        else (case buf_advance buf 40 of
            (newbuf, False) \<Rightarrow> Some buf
          | (newbuf, True) \<Rightarrow>
              if buf_len newbuf \<ge> SIZE_TCPHDR
              then do {
                tc \<leftarrow> buf_bptr newbuf;
                flags \<leftarrow> load8 newbuf (tc + 13);
                if flags AND OPENVPN_TCPH_SYN_MASK \<noteq> 0
                then do {
                  newbuf \<leftarrow> mss_fixup_dowork bo (maxmss - 20) newbuf;
                  Some (buf\<lparr>b_data := b_data newbuf\<rparr>) }
                else Some buf }
              else Some buf) })"

text \<open>The payload that fits a target with a block cipher in CBC mode.\<close>

definition adjust_payload_max_cbc :: "bool \<Rightarrow> nat \<Rightarrow> nat \<Rightarrow> nat" where
  "adjust_payload_max_cbc mode_cbc block_size target =
     (if \<not> mode_cbc then target else to_size_t (int (round_down_size target block_size) - 1))"

section \<open>The options of a header\<close>

text \<open>The MSS options that the walk over the options meets, and what becomes of one.\<close>

function mss_positions :: "byte list \<Rightarrow> nat \<Rightarrow> nat \<Rightarrow> nat list" where
  "mss_positions c olen off =
     (if olen \<le> 1 \<or> c ! off = 0 then []
      else if c ! off = 1 then mss_positions c (olen - 1) (off + 1)
      else if c ! (off + 1) = 0 \<or> olen < unat (c ! (off + 1)) then []
      else (if c ! off = 2 \<and> c ! (off + 1) = 4 then [off] else []) @
        mss_positions c (olen - unat (c ! (off + 1))) (off + unat (c ! (off + 1))))"
  by pat_completeness auto
termination
  by (relation "measure (\<lambda>(c, olen, off). olen)") (auto simp: unat_eq_0[symmetric])

declare mss_positions.simps [simp del]

definition clamp_at :: "byte_order \<Rightarrow> u16 \<Rightarrow> byte list \<Rightarrow> nat \<Rightarrow> byte list" where
  "clamp_at bo maxmss c i =
     (if word_at c (i + 2) \<le> unat maxmss then c
      else (let c1 = put_bytes (i + 2) (be16 maxmss) c;
                acc = uint (htons bo (word_of_nat (word_at c (i + 2)))) - uint (htons bo maxmss)
            in put_bytes 16 (in_order bo (be16 (ADJUST_CHECKSUM acc (de16 (in_order bo (take 2 (drop 16 c1))))))) c1))"

lemma clamp_at_length [simp]: "20 \<le> i \<Longrightarrow> i + 4 \<le> length c \<Longrightarrow> length (clamp_at bo maxmss c i) = length c"
  by (simp add: clamp_at_def Let_def)

lemma clamp_at_other:
  assumes "20 \<le> i" "i + 4 \<le> length c" "j \<notin> {16, 17, i + 2, i + 3}"
  shows "clamp_at bo maxmss c i ! j = c ! j"
proof (cases "word_at c (i + 2) \<le> unat maxmss")
  case False
  have "j < 16 \<or> 18 \<le> j" "j < i + 2 \<or> i + 4 \<le> j" using assms(3) by auto
  have "put_bytes (i + 2) (be16 maxmss) c ! j = c ! j"
    using \<open>j < i + 2 \<or> i + 4 \<le> j\<close> assms(2) by (intro put_bytes_simps(2)) auto
  then show ?thesis using assms False \<open>j < 16 \<or> 18 \<le> j\<close> by (simp add: clamp_at_def Let_def)
qed (simp add: clamp_at_def)

lemma clamp_at_value:
  assumes "20 \<le> i" "i + 4 \<le> length c"
  shows "word_at (clamp_at bo maxmss c i) (i + 2) = min (word_at c (i + 2)) (unat maxmss)"
proof (cases "word_at c (i + 2) \<le> unat maxmss")
  case False
  let ?c1 = "put_bytes (i + 2) (be16 maxmss) c"
  have "word_at (clamp_at bo maxmss c i) (i + 2) = word_at ?c1 (i + 2)"
    using assms False by (intro word_at_cong) (simp_all add: clamp_at_def Let_def)
  then show ?thesis using assms False word_at_put[of "i + 2" c maxmss] by simp
qed (simp add: clamp_at_def)

text \<open>The update of the checksum accounts for the new value as if it stood at an even place.\<close>

lemma clamp_at_change:
  assumes "20 \<le> i" "i + 4 \<le> length c" "unat maxmss < word_at c (i + 2)"
  shows "int (csum (clamp_at bo maxmss c i)) mod 65535 =
    (int (csum (put_bytes (i + 2) (be16 maxmss) c)) + (int (word_at c (i + 2)) - int (unat maxmss))) mod 65535"
proof -
  let ?f = "byte_factor bo" and ?old = "word_at c (i + 2)"
  define c1 where "c1 = put_bytes (i + 2) (be16 maxmss) c"
  define acc where "acc = uint (htons bo (word_of_nat ?old)) - uint (htons bo maxmss)"
  define k where "k = take 2 (drop 16 c1)"
  define n where "n = in_order bo (be16 (ADJUST_CHECKSUM acc (de16 (in_order bo k))))"
  have lc: "length c1 = length c" "length k = 2" "length n = 2" using assms by (simp_all add: c1_def k_def n_def)
  have cl: "clamp_at bo maxmss c i = put_bytes 16 n c1" using assms(3) by (simp add: clamp_at_def Let_def c1_def acc_def k_def n_def)
  have s2: "csum (put_bytes 16 n c1) + csum k = csum c1 + csum n"
    using csum_put_bytes[of 16 n c1] assms lc by (simp add: k_def)
  have ob: "?old < 65536" using unat_byte[of "c ! (i + 2)"] unat_byte[of "c ! Suc (i + 2)"] by (simp add: word_at_def)
  have h: "uint (htons bo w) mod 65535 = (?f * int (unat w)) mod 65535" for w
    using host_word[of "be16 w" bo] by (simp add: htons_def csum_be16)
  have "acc mod 65535 = (?f * int ?old - ?f * int (unat maxmss)) mod 65535"
    unfolding acc_def by (subst mod_diff_eq[symmetric]) (simp only: h mod_diff_eq unat_of_nat, use ob in simp)
  then have "(?f * acc) mod 65535 = (?f * (?f * int ?old - ?f * int (unat maxmss))) mod 65535" by (metis mod_mult_right_eq)
  also have "\<dots> = (?f * (?f * (int ?old - int (unat maxmss)))) mod 65535" by (simp add: algebra_simps)
  also have "\<dots> = (int ?old - int (unat maxmss)) mod 65535" by (rule byte_factor_square)
  finally have a: "(?f * acc) mod 65535 = (int ?old - int (unat maxmss)) mod 65535" .
  have u: "0 \<le> uint x" "uint x < 65536" for x :: u16 using uint_bounded[of x] by simp_all
  have b: "- 65536 < acc" "acc < 65536"
    using u[of "htons bo (word_of_nat ?old)"] u[of "htons bo maxmss"] unfolding acc_def by linarith+
  have r: "- (2 ^ 31) < acc + uint (de16 (in_order bo k))" "acc + uint (de16 (in_order bo k)) < 2 ^ 31"
  proof -
    have "- 2147483648 < acc + uint (de16 (in_order bo k))" using u[of "de16 (in_order bo k)"] b by linarith
    then show "- (2 ^ 31) < acc + uint (de16 (in_order bo k))" by simp
    have "acc + uint (de16 (in_order bo k)) < 2147483648" using u[of "de16 (in_order bo k)"] b by linarith
    then show "acc + uint (de16 (in_order bo k)) < 2 ^ 31" by simp
  qed
  have "int (csum n) mod 65535 = (int (csum k) + ?f * acc) mod 65535" unfolding n_def by (rule adjusted_field[OF lc(2) r])
  also have "\<dots> = (int (csum k) + (int ?old - int (unat maxmss))) mod 65535" by (metis a mod_add_right_eq)
  finally have m: "int (csum n) mod 65535 = (int (csum k) + (int ?old - int (unat maxmss))) mod 65535" .
  have "int (csum (put_bytes 16 n c1)) = int (csum c1) - int (csum k) + int (csum n)"
    using s2 by linarith
  also have "\<dots> mod 65535 = (int (csum c1) - int (csum k) + (int (csum k) + (int ?old - int (unat maxmss)))) mod 65535"
    by (metis m mod_add_right_eq)
  also have "\<dots> = (int (csum c1) + (int ?old - int (unat maxmss))) mod 65535" by simp
  finally show ?thesis unfolding cl c1_def .
qed

lemma clamp_at_csum:
  assumes "20 \<le> i" "i + 4 \<le> length c" "even i"
  shows "int (csum (clamp_at bo maxmss c i)) mod 65535 = int (csum c) mod 65535"
proof (cases "word_at c (i + 2) \<le> unat maxmss")
  case False
  have "csum (put_bytes (i + 2) (be16 maxmss) c) + word_at c (i + 2) = csum c + unat maxmss"
    using csum_put_bytes[of "i + 2" "be16 maxmss" c] assms csum_word[of "i + 2" c] by (simp add: csum_be16)
  then have "int (csum (put_bytes (i + 2) (be16 maxmss) c)) + (int (word_at c (i + 2)) - int (unat maxmss)) = int (csum c)" by linarith
  then show ?thesis using clamp_at_change[OF assms(1,2), of maxmss bo] False by simp
qed (simp add: clamp_at_def)

section \<open>The loop\<close>

lemma mss_clamp_option_of:
  assumes "20 \<le> i" "i + 4 \<le> length c"
  shows "mss_clamp_option bo maxmss (int (length p)) (int (length p) + int i) (buf_of p c q) = Some (buf_of p (clamp_at bo maxmss c i) q)"
proof -
  define o2 where "o2 = c ! (i + 2)"
  define o3 where "o3 = c ! (i + 3)"
  define v where "v = (ucast (push_bit 8 (ucast o2 :: u32)) :: u16) + ucast o3"
  have w: "word_at c (i + 2) = 256 * unat o2 + unat o3" by (simp add: word_at_def numeral_3_eq_3 o2_def o3_def)
  have wb: "word_at c (i + 2) < 65536" unfolding w using unat_byte[of o2] unat_byte[of o3] by simp
  have v: "unat v = word_at c (i + 2)"
  proof -
    have "unat (push_bit 8 (ucast o2 :: u32)) = 256 * unat o2"
      using unat_byte[of o2] by (simp add: push_bit_eq_mult unat_word_ariths unsigned_ucast_eq take_bit_nat_eq_self)
    then have "unat (ucast (push_bit 8 (ucast o2 :: u32)) :: u16) = 256 * unat o2"
      using unat_byte[of o2] by (simp only: unsigned_ucast_eq) (simp add: take_bit_nat_eq_self)
    moreover have "unat (ucast o3 :: u16) = unat o3" using unat_byte[of o3] by (simp add: unsigned_ucast_eq take_bit_nat_eq_self)
    ultimately show ?thesis unfolding v_def w using unat_byte[of o2] unat_byte[of o3] by (simp add: unat_word_ariths)
  qed
  have vw: "v = word_of_nat (word_at c (i + 2))" unfolding v[symmetric] by simp
  have l: "load8 (buf_of p c q) (int (length p) + int i + 2) = Some o2" "load8 (buf_of p c q) (int (length p) + int i + 3) = Some o3"
    using load8_of[of "i + 2" c p q] load8_of[of "i + 3" c p q] assms unfolding o2_def o3_def by (simp_all add: ac_simps)
  show ?thesis
  proof (cases "maxmss < v")
    case False
    then have "word_at c (i + 2) \<le> unat maxmss" by (simp add: word_less_nat_alt v)
    then show ?thesis using l False by (simp add: mss_clamp_option_def clamp_at_def v_def[symmetric])
  next
    case True
    define h :: byte where "h = ucast (drop_bit 8 maxmss AND 0xff)"
    define lo :: byte where "lo = ucast (maxmss AND 0xff)"
    have be: "[h, lo] = be16 maxmss"
    proof -
      have "(0xff :: u16) = mask 8" by (simp add: mask_eq_exp_minus_1)
      then have hl: "h = ucast (take_bit 8 (drop_bit 8 maxmss))" "lo = ucast (take_bit 8 maxmss)"
        by (simp_all only: h_def lo_def take_bit_eq_mask)
      have "unat h = unat maxmss div 256 mod 256" "unat lo = unat maxmss mod 256"
        by (simp_all only: hl unsigned_ucast_eq unsigned_take_bit_eq unat_drop_bit_eq take_bit_eq_mod[of _ "_ :: nat"] drop_bit_eq_div[of _ "_ :: nat"])
          simp_all
      then have "h = word_of_nat (unat maxmss div 256)" "lo = word_of_nat (unat maxmss)"
        by (simp_all add: word_unat_eq_iff unat_of_nat unsigned_ucast_eq take_bit_eq_mod)
      then show ?thesis by (simp add: be16_def numeral_2_eq_2)
    qed
    define c1 where "c1 = put_bytes (i + 2) (be16 maxmss) c"
    have st1: "buf_store (buf_of p c q) (int (length p) + int i + 2) [h] = Some (buf_of p (put_bytes (i + 2) [h] c) q)"
      using buf_store_of[of "i + 2" "[h]" c p q] assms by (simp add: put_bytes_def ac_simps)
    have st2: "buf_store (buf_of p (put_bytes (i + 2) [h] c) q) (int (length p) + int i + 3) [lo] = Some (buf_of p c1 q)"
    proof -
      let ?d = "put_bytes (i + 2) [h] c"
      have ld: "length ?d = length c" using assms(2) by (intro put_bytes_simps(1)) simp
      have "put_bytes (i + 3) [lo] ?d = c1"
      proof (rule nth_equalityI)
        show "length (put_bytes (i + 3) [lo] ?d) = length c1" using assms(2) ld by (simp add: c1_def)
        fix j assume "j < length (put_bytes (i + 3) [lo] ?d)"
        consider "j = i + 2" | "j = i + 3" | "j < i + 2" | "i + 4 \<le> j" by linarith
        then show "put_bytes (i + 3) [lo] ?d ! j = c1 ! j"
        proof cases
          case 1
          have "put_bytes (i + 3) [lo] ?d ! j = ?d ! j" using 1 assms(2) ld by (intro put_bytes_simps(2)) auto
          also have "\<dots> = h" using put_bytes_simps(3)[of "i + 2" "[h]" c 0] 1 assms(2) by simp
          also have "\<dots> = c1 ! j" using put_bytes_simps(3)[of "i + 2" "[h, lo]" c 0] 1 assms(2) by (simp add: c1_def be[symmetric])
          finally show ?thesis .
        next
          case 2
          have "put_bytes (i + 3) [lo] ?d ! j = lo" using put_bytes_simps(3)[of "i + 3" "[lo]" ?d 0] 2 assms(2) ld by simp
          also have "\<dots> = c1 ! j" using put_bytes_simps(3)[of "i + 2" "[h, lo]" c 1] 2 assms(2) by (simp add: c1_def be[symmetric] numeral_3_eq_3)
          finally show ?thesis .
        next
          case 3
          have "put_bytes (i + 3) [lo] ?d ! j = ?d ! j" using 3 assms(2) ld by (intro put_bytes_simps(2)) auto
          also have "\<dots> = c ! j" using 3 assms(2) by (intro put_bytes_simps(2)) auto
          also have "\<dots> = c1 ! j" using 3 assms(2) unfolding c1_def by (intro put_bytes_simps(2)[symmetric]) auto
          finally show ?thesis .
        next
          case 4
          have "put_bytes (i + 3) [lo] ?d ! j = ?d ! j" using 4 assms(2) ld by (intro put_bytes_simps(2)) auto
          also have "\<dots> = c ! j" using 4 assms(2) by (intro put_bytes_simps(2)) auto
          also have "\<dots> = c1 ! j" using 4 assms(2) unfolding c1_def by (intro put_bytes_simps(2)[symmetric]) auto
          finally show ?thesis .
        qed
      qed
      moreover have "buf_store (buf_of p ?d q) (int (length p) + int i + 3) [lo] = Some (buf_of p (put_bytes (i + 3) [lo] ?d) q)"
        unfolding put_bytes_def[of "i + 3"] using buf_store_of[of "i + 3" "[lo]" ?d p q] assms(2) ld by (simp add: ac_simps)
      ultimately show ?thesis by simp
    qed
    have lc: "length c1 = length c" using assms(2) by (simp add: c1_def)
    have ck: "load16 bo (buf_of p c1 q) (int (length p) + 16) = Some (de16 (in_order bo (take 2 (drop 16 c1))))"
      using load16_of[of 16 c1 bo p q] assms lc by simp
    have wr: "store16 bo (buf_of p c1 q) (int (length p) + 16) w = Some (buf_of p (put_bytes 16 (in_order bo (be16 w)) c1) q)" for w
      using buf_store_of[of 16 "in_order bo (be16 w)" c1 p q] assms lc by (simp add: store16_def put_bytes_def)
    have "\<not> word_at c (i + 2) \<le> unat maxmss" using True by (simp add: word_less_nat_alt v)
    then have "clamp_at bo maxmss c i = put_bytes 16 (in_order bo (be16 (ADJUST_CHECKSUM (uint (htons bo v) - uint (htons bo maxmss))
        (de16 (in_order bo (take 2 (drop 16 c1))))))) c1"
      unfolding vw c1_def by (simp add: clamp_at_def Let_def)
    then show ?thesis using True l st1 st2 ck wr
      by (simp add: mss_clamp_option_def v_def[symmetric] h_def[symmetric] lo_def[symmetric] Let_def)
  qed
qed

lemma mss_positions_cong: "(\<And>j. off \<le> j \<Longrightarrow> c' ! j = c ! j) \<Longrightarrow> mss_positions c' olen off = mss_positions c olen off"
proof (induction olen arbitrary: off rule: less_induct)
  case (less olen)
  show ?case
    using less.IH[of "olen - 1" "off + 1"] less.IH[of "olen - unat (c ! (off + 1))" "off + unat (c ! (off + 1))"] less.prems
    by (subst (1 2) mss_positions.simps) (auto simp: unat_eq_0[symmetric])
qed

lemma mss_loop_of:
  "20 \<le> off \<Longrightarrow> off + olen \<le> length c \<Longrightarrow>
   mss_loop bo maxmss (int (length p)) (int olen) (int (length p) + int off) (buf_of p c q) =
     Some (buf_of p (foldl (clamp_at bo maxmss) c (mss_positions c olen off)) q)"
proof (induction olen arbitrary: off c rule: less_induct)
  case (less olen)
  show ?case
  proof (cases "olen \<le> 1")
    case True
    then show ?thesis by (subst mss_loop.simps, subst mss_positions.simps) simp
  next
    case False
    then have k: "load8 (buf_of p c q) (int (length p) + int off) = Some (c ! off)"
      "load8 (buf_of p c q) (int (length p) + int off + 1) = Some (c ! (off + 1))"
      using load8_of[of off c p q] load8_of[of "off + 1" c p q] less.prems by (simp_all add: ac_simps)
    let ?l = "unat (c ! (off + 1))"
    consider "c ! off = 0" | "c ! off = 1" | "c ! off \<noteq> 0" "c ! off \<noteq> 1" "c ! (off + 1) = 0 \<or> olen < ?l"
      | "c ! off \<noteq> 0" "c ! off \<noteq> 1" "c ! (off + 1) \<noteq> 0" "?l \<le> olen" by linarith
    then show ?thesis
    proof cases
      case 1
      then show ?thesis using False k by (subst mss_loop.simps, subst mss_positions.simps) (simp add: OPENVPN_TCPOPT_EOL_def)
    next
      case 2
      have a: "int olen - 1 = int (olen - 1)" "int (length p) + int off + 1 = int (length p) + int (off + 1)" using False by simp_all
      have "mss_loop bo maxmss (int (length p)) (int olen) (int (length p) + int off) (buf_of p c q) =
          mss_loop bo maxmss (int (length p)) (int (olen - 1)) (int (length p) + int (off + 1)) (buf_of p c q)"
        using 2 False k unfolding a[symmetric] by (subst mss_loop.simps) (simp add: OPENVPN_TCPOPT_EOL_def OPENVPN_TCPOPT_NOP_def)
      moreover have "mss_positions c olen off = mss_positions c (olen - 1) (off + 1)" using 2 False by (subst mss_positions.simps) simp
      moreover have "mss_loop bo maxmss (int (length p)) (int (olen - 1)) (int (length p) + int (off + 1)) (buf_of p c q) =
          Some (buf_of p (foldl (clamp_at bo maxmss) c (mss_positions c (olen - 1) (off + 1))) q)"
        using less.prems False by (intro less.IH) auto
      ultimately show ?thesis by simp
    next
      case 3
      have "uint (c ! (off + 1)) = int ?l" by simp
      then have "uint (c ! (off + 1)) \<le> 0 \<or> uint (c ! (off + 1)) > int olen"
        using 3(3) by (metis of_nat_less_iff order_refl uint_0_eq)
      then show ?thesis using 3 False k
        by (subst mss_loop.simps, subst mss_positions.simps) (auto simp: OPENVPN_TCPOPT_EOL_def OPENVPN_TCPOPT_NOP_def)
    next
      case 4
      have l0: "?l \<noteq> 0" using 4(3) by (simp add: unat_eq_0)
      have u: "uint (c ! (off + 1)) = int ?l" by simp
      have nb: "\<not> (uint (c ! (off + 1)) \<le> 0 \<or> uint (c ! (off + 1)) > int olen)" using l0 4(4) unfolding u by linarith
      have a: "int olen - int ?l = int (olen - ?l)" "int (length p) + int off + int ?l = int (length p) + int (off + ?l)"
        using 4(4) by (simp_all add: of_nat_diff)
      show ?thesis
      proof (cases "c ! off = 2 \<and> c ! (off + 1) = 4")
        case True
        let ?c = "clamp_at bo maxmss c off"
        have l4: "?l = 4" using True by simp
        have lc: "length ?c = length c" using less.prems 4(4) l4 by (intro clamp_at_length) auto
        have "mss_positions ?c (olen - 4) (off + 4) = mss_positions c (olen - 4) (off + 4)"
          using less.prems 4(4) l4 by (intro mss_positions_cong clamp_at_other) auto
        moreover have "mss_loop bo maxmss (int (length p)) (int (olen - 4)) (int (length p) + int (off + 4)) (buf_of p ?c q) =
            Some (buf_of p (foldl (clamp_at bo maxmss) ?c (mss_positions ?c (olen - 4) (off + 4))) q)"
          using less.prems 4(4) l4 lc by (intro less.IH) auto
        moreover have "mss_clamp_option bo maxmss (int (length p)) (int (length p) + int off) (buf_of p c q) = Some (buf_of p ?c q)"
          using less.prems 4(4) l4 by (intro mss_clamp_option_of) auto
        moreover have "mss_loop bo maxmss (int (length p)) (int olen) (int (length p) + int off) (buf_of p c q) =
            (mss_clamp_option bo maxmss (int (length p)) (int (length p) + int off) (buf_of p c q) \<bind>
              mss_loop bo maxmss (int (length p)) (int (olen - 4)) (int (length p) + int (off + 4)))"
        proof -
          have e: "int (olen - 4) = int olen - 4" "int (length p) + int (off + 4) = int (length p) + int off + 4"
            using 4(4) l4 by (simp_all add: of_nat_diff)
          have "c ! off = 2" "c ! (off + 1) = 4" "\<not> int olen < 4" "1 < int olen" using True 4(4) l4 False by auto
          then show ?thesis using k unfolding e
            by (subst mss_loop.simps) (simp add: OPENVPN_TCPOPT_EOL_def OPENVPN_TCPOPT_NOP_def OPENVPN_TCPOPT_MAXSEG_def OPENVPN_TCPOLEN_MAXSEG_def)
        qed
        moreover have "mss_positions c olen off = off # mss_positions c (olen - 4) (off + 4)"
          using False True 4(4) l4 by (subst mss_positions.simps) simp
        ultimately show ?thesis by simp
      next
        case no: False
        have nm: "\<not> (c ! off = OPENVPN_TCPOPT_MAXSEG \<and> uint (c ! (off + 1)) = OPENVPN_TCPOLEN_MAXSEG)"
          using no by (auto simp: OPENVPN_TCPOPT_MAXSEG_def OPENVPN_TCPOLEN_MAXSEG_def word_uint_eq_iff)
        have "mss_loop bo maxmss (int (length p)) (int olen) (int (length p) + int off) (buf_of p c q) =
            mss_loop bo maxmss (int (length p)) (int (olen - ?l)) (int (length p) + int (off + ?l)) (buf_of p c q)"
          using False k 4 nb nm unfolding a[symmetric] u[symmetric]
          by (subst mss_loop.simps) (auto simp: OPENVPN_TCPOPT_EOL_def OPENVPN_TCPOPT_NOP_def Let_def)
        moreover have "mss_positions c olen off = mss_positions c (olen - ?l) (off + ?l)"
          using False no 4 by (subst mss_positions.simps) auto
        moreover have "mss_loop bo maxmss (int (length p)) (int (olen - ?l)) (int (length p) + int (off + ?l)) (buf_of p c q) =
            Some (buf_of p (foldl (clamp_at bo maxmss) c (mss_positions c (olen - ?l) (off + ?l))) q)"
          using less.prems 4(4) l0 by (intro less.IH) auto
        ultimately show ?thesis by simp
      qed
    qed
  qed
qed

section \<open>The positions\<close>

lemma mss_positions_range: "i \<in> set (mss_positions c olen off) \<Longrightarrow> off \<le> i \<and> i + 4 \<le> off + olen"
proof (induction c olen off rule: mss_positions.induct)
  case (1 c olen off)
  show ?case using "1.prems" "1.IH"
    by (subst (asm) mss_positions.simps) (fastforce split: if_splits)
qed

lemma mss_positions_apart: "sorted_wrt (\<lambda>i j. i + 4 \<le> j) (mss_positions c olen off)"
proof (induction c olen off rule: mss_positions.induct)
  case (1 c olen off)
  then show ?case
    by (subst mss_positions.simps) (auto dest: mss_positions_range)
qed

lemma clamp_all:
  assumes "sorted_wrt (\<lambda>i j. i + 4 \<le> j) ps" "\<forall>i\<in>set ps. 20 \<le> i \<and> i + 4 \<le> length c"
  shows "length (foldl (clamp_at bo maxmss) c ps) = length c \<and>
    (\<forall>i\<in>set ps. word_at (foldl (clamp_at bo maxmss) c ps) (i + 2) = min (word_at c (i + 2)) (unat maxmss)) \<and>
    (\<forall>j. j \<notin> {16, 17} \<and> (\<forall>i\<in>set ps. j \<notin> {i + 2, i + 3}) \<longrightarrow> foldl (clamp_at bo maxmss) c ps ! j = c ! j)"
  using assms
proof (induction ps arbitrary: c)
  case (Cons k ps)
  define d where "d = clamp_at bo maxmss c k"
  have k: "20 \<le> k" "k + 4 \<le> length c" using Cons.prems(2) by auto
  have l: "length d = length c" using k by (simp add: d_def)
  have far: "\<forall>i\<in>set ps. k + 4 \<le> i" using Cons.prems(1) by simp
  have keep: "d ! j = c ! j" if "j \<notin> {16, 17, k + 2, k + 3}" for j
    unfolding d_def by (rule clamp_at_other[OF k that])
  have ih: "length (foldl (clamp_at bo maxmss) d ps) = length d"
    "\<And>i. i \<in> set ps \<Longrightarrow> word_at (foldl (clamp_at bo maxmss) d ps) (i + 2) = min (word_at d (i + 2)) (unat maxmss)"
    "\<And>j. j \<notin> {16, 17} \<Longrightarrow> (\<And>i. i \<in> set ps \<Longrightarrow> j \<notin> {i + 2, i + 3}) \<Longrightarrow> foldl (clamp_at bo maxmss) d ps ! j = d ! j"
    using Cons.IH[of d] Cons.prems l by auto
  have later: "word_at d (i + 2) = word_at c (i + 2)" if "i \<in> set ps" for i
    using far that k by (intro word_at_cong keep) auto
  have here: "word_at (foldl (clamp_at bo maxmss) d ps) (k + 2) = word_at d (k + 2)"
    using far k by (intro word_at_cong ih(3)) fastforce+
  show ?case
    using l ih(1) ih(2) later here clamp_at_value[OF k, of bo maxmss] ih(3) keep by (auto simp: d_def[symmetric])
qed simp

section \<open>The header\<close>

definition tcp_header_length :: "byte list \<Rightarrow> nat" where
  "tcp_header_length c = 4 * (unat (c ! 12) div 16)"

definition mss_options :: "byte list \<Rightarrow> nat list" where
  "mss_options c =
     (if length c < 20 \<or> tcp_header_length c \<le> 20 \<or> length c < tcp_header_length c then []
      else mss_positions c (tcp_header_length c - 20) 20)"

definition mss_clamp :: "byte_order \<Rightarrow> u16 \<Rightarrow> byte list \<Rightarrow> byte list" where
  "mss_clamp bo maxmss c = foldl (clamp_at bo maxmss) c (mss_options c)"

lemma TCPH_GET_DOFF: "OPENVPN_TCPH_GET_DOFF d = int (4 * (unat d div 16))"
proof -
  have m: "(0xF0 :: byte) = push_bit 4 (mask 4)" by (simp add: mask_eq_exp_minus_1 push_bit_eq_mult)
  have "d AND 0xF0 = push_bit 4 (drop_bit 4 d)"
    unfolding m by (rule bit_word_eqI) (auto simp: bit_simps)
  then have "unat (d AND 0xF0) = 16 * (unat d div 16)"
    using unat_byte[of d] by (simp add: push_bit_eq_mult unat_word_ariths unat_drop_bit_eq drop_bit_eq_div)
  then have "uint (d AND 0xF0) = int (16 * (unat d div 16))" by (simp only: uint_nat)
  then show ?thesis by (simp add: OPENVPN_TCPH_GET_DOFF_def drop_bit_eq_div)
qed

lemma mss_options_range: "i \<in> set (mss_options c) \<Longrightarrow> 20 \<le> i \<and> i + 4 \<le> length c"
  using mss_positions_range[of i c "tcp_header_length c - 20" 20] by (auto simp: mss_options_def split: if_splits)

lemma mss_options_apart: "sorted_wrt (\<lambda>i j. i + 4 \<le> j) (mss_options c)"
  by (simp add: mss_options_def mss_positions_apart)

lemma mss_fixup_dowork_of: "mss_fixup_dowork bo maxmss (buf_of p c q) = Some (buf_of p (mss_clamp bo maxmss c) q)"
proof (cases "length c < 20")
  case False
  have p: "buf_bptr (buf_of p c q) = Some (int (length p))" by simp
  have d: "load8 (buf_of p c q) (int (length p) + 12) = Some (c ! 12)" using load8_of[of 12 c p q] False by simp
  let ?h = "tcp_header_length c"
  have h: "OPENVPN_TCPH_GET_DOFF (c ! 12) = int ?h" by (simp only: TCPH_GET_DOFF tcp_header_length_def)
  have bl: "buf_len (buf_of p c q) = int (length c)" by (simp add: buf_eqs)
  show ?thesis
  proof (cases "?h \<le> 20 \<or> length c < ?h")
    case True
    then show ?thesis using False p d h bl by (auto simp: mss_fixup_dowork_def mss_clamp_def mss_options_def SIZE_TCPHDR_def)
  next
    case no: False
    have e: "int ?h - 20 = int (?h - 20)" using no by (simp add: of_nat_diff)
    have cl: "mss_clamp bo maxmss c = foldl (clamp_at bo maxmss) c (mss_positions c (?h - 20) 20)"
      using no False by (simp only: mss_clamp_def mss_options_def) simp
    have o: "20 + (?h - 20) \<le> length c" using no by linarith
    have "mss_loop bo maxmss (int (length p)) (int ?h - 20) (int (length p) + 20) (buf_of p c q) = Some (buf_of p (mss_clamp bo maxmss c) q)"
      using mss_loop_of[OF order_refl o, of bo maxmss p q] unfolding e cl by (simp only: of_nat_numeral)
    moreover have "mss_fixup_dowork bo maxmss (buf_of p c q) =
        mss_loop bo maxmss (int (length p)) (int ?h - 20) (int (length p) + 20) (buf_of p c q)"
      using no False p d h bl by (simp add: mss_fixup_dowork_def SIZE_TCPHDR_def)
    ultimately show ?thesis by simp
  qed
qed (simp add: mss_fixup_dowork_def mss_clamp_def mss_options_def SIZE_TCPHDR_def buf_eqs)

section \<open>Whole packets\<close>

definition ip_header_length :: "byte list \<Rightarrow> nat" where
  "ip_header_length c = 4 * (unat (c ! 0) mod 16)"

definition syn_flag :: "byte list \<Rightarrow> bool" where
  "syn_flag t = odd (unat (t ! 13) div 2)"

text \<open>A packet of its full length whose first fragment it is, and that holds a TCP header with SYN.\<close>

definition is_syn4 :: "byte list \<Rightarrow> bool" where
  "is_syn4 c = (20 \<le> length c \<and> c ! 9 = 6 \<and> word_at c 2 = length c \<and> word_at c 6 mod 8192 = 0 \<and>
     ip_header_length c + 20 \<le> length c \<and> syn_flag (drop (ip_header_length c) c))"

definition is_syn6 :: "byte list \<Rightarrow> bool" where
  "is_syn6 c = (60 \<le> length c \<and> c ! 6 = 6 \<and> word_at c 4 + 40 = length c \<and> syn_flag (drop 40 c))"

lemma IPH_GET_LEN: "OPENVPN_IPH_GET_LEN v = int (4 * (unat v mod 16))"
proof -
  have "(0x0F :: byte) = mask 4" by (simp add: mask_eq_exp_minus_1)
  then have "v AND 0x0F = take_bit 4 v" by (simp only: take_bit_eq_mask)
  then have "unat (v AND 0x0F) = unat v mod 16" by (simp only: unsigned_take_bit_eq take_bit_eq_mod[of _ "_ :: nat"]) simp
  then have "uint (v AND 0x0F) = int (unat v mod 16)" by (simp only: uint_nat)
  then show ?thesis by (simp add: OPENVPN_IPH_GET_LEN_def push_bit_eq_mult)
qed

lemma SYN_MASK: "flags AND OPENVPN_TCPH_SYN_MASK \<noteq> 0 \<longleftrightarrow> odd (unat flags div 2)"
proof -
  have "flags AND push_bit 1 1 = push_bit 1 (of_bool (bit flags 1))"
    by (rule bit_word_eqI) (auto simp: bit_simps simp del: push_bit_of_1)
  then have "flags AND OPENVPN_TCPH_SYN_MASK \<noteq> 0 \<longleftrightarrow> bit flags 1"
    unfolding OPENVPN_TCPH_SYN_MASK_def by (cases "bit flags 1") simp_all
  also have "\<dots> \<longleftrightarrow> bit (unat flags) 1" by (simp add: bit_unsigned_iff)
  also have "\<dots> \<longleftrightarrow> odd (unat flags div 2)" by (simp add: bit_iff_odd)
  finally show ?thesis .
qed

lemma mss_fixup_ipv4_of:
  "mss_fixup_ipv4 bo maxmss (buf_of p c q) =
    Some (buf_of p (if is_syn4 c then take (ip_header_length c) c @ mss_clamp bo maxmss (drop (ip_header_length c) c) else c) q)"
proof (cases "length c < 20")
  case False
  let ?h = "ip_header_length c"
  have p: "buf_bptr (buf_of p c q) = Some (int (length p))" for p c q by simp
  have bl: "buf_len (buf_of p c q) = int (length c)" by (simp add: buf_eqs)
  have v: "load8 (buf_of p c q) (int (length p)) = Some (c ! 0)" "load8 (buf_of p c q) (int (length p) + 9) = Some (c ! 9)"
    using load8_of[of 0 c p q] load8_of[of 9 c p q] False by fastforce+
  obtain tl where tl: "load16 bo (buf_of p c q) (int (length p) + 2) = Some tl" "unat (ntohs bo tl) = word_at c 2"
    using ntohs_load[of 2 c bo p q] False by auto
  obtain fo where fo: "load16 bo (buf_of p c q) (int (length p) + 6) = Some fo" "unat (ntohs bo fo) = word_at c 6"
    using ntohs_load[of 6 c bo p q] False by auto
  have off: "ntohs bo fo AND OPENVPN_IP_OFFMASK = 0 \<longleftrightarrow> word_at c 6 mod 8192 = 0"
  proof -
    have "OPENVPN_IP_OFFMASK = mask 13" by (simp add: OPENVPN_IP_OFFMASK_def mask_eq_exp_minus_1)
    then have "ntohs bo fo AND OPENVPN_IP_OFFMASK = take_bit 13 (ntohs bo fo)" by (simp only: take_bit_eq_mask)
    then have "unat (ntohs bo fo AND OPENVPN_IP_OFFMASK) = unat (ntohs bo fo) mod 8192"
      by (simp only: unsigned_take_bit_eq take_bit_eq_mod[of _ "_ :: nat"]) simp
    then show ?thesis unfolding fo(2) by (simp add: unat_eq_0[symmetric])
  qed
  have tot: "uint (ntohs bo tl) = int (length c) \<longleftrightarrow> word_at c 2 = length c" using tl(2) by (simp only: uint_nat of_nat_eq_iff)
  have cond: "(c ! 9 = OPENVPN_IPPROTO_TCP \<and> uint (ntohs bo tl) = buf_len (buf_of p c q) \<and> ntohs bo fo AND OPENVPN_IP_OFFMASK = 0 \<and>
      int ?h \<le> buf_len (buf_of p c q) \<and> buf_len (buf_of p c q) - int ?h \<ge> SIZE_TCPHDR) \<longleftrightarrow>
      (c ! 9 = 6 \<and> word_at c 2 = length c \<and> word_at c 6 mod 8192 = 0 \<and> ?h + 20 \<le> length c)"
    unfolding bl off tot by (auto simp: OPENVPN_IPPROTO_TCP_def SIZE_TCPHDR_def)
  have h: "OPENVPN_IPH_GET_LEN (c ! 0) = int ?h" by (simp only: IPH_GET_LEN ip_header_length_def)
  show ?thesis
  proof (cases "c ! 9 = 6 \<and> word_at c 2 = length c \<and> word_at c 6 mod 8192 = 0 \<and> ?h + 20 \<le> length c")
    case no: False
    then have "\<not> is_syn4 c" by (auto simp: is_syn4_def)
    then show ?thesis using False no cond p bl v tl(1) fo(1) h
      unfolding mss_fixup_ipv4_def by (simp add: SIZE_IPHDR_def del: buf_of_obs(3)) (use no in blast)
  next
    case True
    let ?t = "drop ?h c" and ?p = "p @ take ?h c"
    have adv: "buf_advance (buf_of p c q) (int ?h) = (buf_of ?p ?t q, True)" using True by (simp add: buf_eqs)
    have lp: "length ?p = length p + ?h" using True by simp
    have t13: "13 < length ?t" unfolding length_drop using True by linarith
    have fl: "load8 (buf_of ?p ?t q) (int (length ?p) + 13) = Some (?t ! 13)" using load8_of[OF t13, of ?p q] by simp
    have dw: "mss_fixup_dowork bo maxmss (buf_of ?p ?t q) = Some (buf_of ?p (mss_clamp bo maxmss ?t) q)" by (rule mss_fixup_dowork_of)
    have syn: "is_syn4 c \<longleftrightarrow> odd (unat (?t ! 13) div 2)" using True False by (simp add: is_syn4_def syn_flag_def)
    have len: "length (mss_clamp bo maxmss ?t) = length ?t"
      using clamp_all[OF mss_options_apart[of ?t]] mss_options_range[of _ ?t] by (simp add: mss_clamp_def)
    have upd: "buf_of p c q\<lparr>b_data := b_data (buf_of ?p (mss_clamp bo maxmss ?t) q)\<rparr> = buf_of p (take ?h c @ mss_clamp bo maxmss ?t) q"
      using len True by (simp add: buf_of_def)
    show ?thesis using False cond True p bl v tl(1) fo(1) h adv fl dw syn upd
      unfolding mss_fixup_ipv4_def SYN_MASK by (simp add: SIZE_IPHDR_def)
  qed
qed (simp add: mss_fixup_ipv4_def is_syn4_def SIZE_IPHDR_def buf_eqs)

lemma mss_clamp_length [simp]: "length (mss_clamp bo maxmss c) = length c"
  using clamp_all[OF mss_options_apart[of c]] mss_options_range[of _ c] by (simp add: mss_clamp_def)

lemma mss_fixup_ipv6_of:
  "mss_fixup_ipv6 bo maxmss (buf_of p c q) =
    Some (buf_of p (if is_syn6 c then take 40 c @ mss_clamp bo (maxmss - 20) (drop 40 c) else c) q)"
proof (cases "length c < 40")
  case False
  obtain pl where pl: "load16 bo (buf_of p c q) (int (length p) + 4) = Some pl" "unat (ntohs bo pl) = word_at c 4"
    using ntohs_load[of 4 c bo p q] False by auto
  have six: "6 < length c" using False by linarith
  have nh: "load8 (buf_of p c q) (int (length p) + 6) = Some (c ! 6)" using load8_of[OF six, of p q] by simp
  have tot: "int (length c) \<noteq> uint (ntohs bo pl) + 40 \<longleftrightarrow> word_at c 4 + 40 \<noteq> length c"
  proof -
    have "uint (ntohs bo pl) + 40 = int (word_at c 4 + 40)" using pl(2) by (simp only: uint_nat of_nat_add of_nat_numeral)
    then show ?thesis unfolding \<open>uint (ntohs bo pl) + 40 = int (word_at c 4 + 40)\<close> of_nat_eq_iff by (metis)
  qed
  let ?t = "drop 40 c" and ?p = "p @ take 40 c"
  have adv: "buf_advance (buf_of p c q) 40 = (buf_of ?p ?t q, True)" using False by (simp add: buf_eqs)
  have bt: "buf_len (buf_of ?p ?t q) = int (length c) - 40" using False by simp
  have syn: "is_syn6 c \<longleftrightarrow> word_at c 4 + 40 = length c \<and> c ! 6 = 6 \<and> 60 \<le> length c \<and> odd (unat (?t ! 13) div 2)"
    by (auto simp: is_syn6_def syn_flag_def)
  have start: "mss_fixup_ipv6 bo maxmss (buf_of p c q) =
      (if word_at c 4 + 40 \<noteq> length c \<or> c ! 6 \<noteq> 6 \<or> length c < 60 then Some (buf_of p c q)
       else load8 (buf_of ?p ?t q) (int (length ?p) + 13) \<bind> (\<lambda>flags.
         if odd (unat flags div 2)
         then mss_fixup_dowork bo (maxmss - 20) (buf_of ?p ?t q) \<bind> (\<lambda>newbuf. Some ((buf_of p c q)\<lparr>b_data := b_data newbuf\<rparr>))
         else Some (buf_of p c q)))"
    using False pl(1) nh adv bt tot unfolding mss_fixup_ipv6_def SYN_MASK
    by (auto simp: SIZE_IPV6HDR_def SIZE_TCPHDR_def OPENVPN_IPPROTO_TCP_def)
  show ?thesis
  proof (cases "word_at c 4 + 40 \<noteq> length c \<or> c ! 6 \<noteq> 6 \<or> length c < 60")
    case True
    then show ?thesis unfolding start syn by auto
  next
    case no: False
    have t13: "13 < length ?t" unfolding length_drop using no by linarith
    have fl: "load8 (buf_of ?p ?t q) (int (length ?p) + 13) = Some (?t ! 13)" using load8_of[OF t13, of ?p q] by simp
    have dw: "mss_fixup_dowork bo (maxmss - 20) (buf_of ?p ?t q) = Some (buf_of ?p (mss_clamp bo (maxmss - 20) ?t) q)"
      by (rule mss_fixup_dowork_of)
    have upd: "buf_of p c q\<lparr>b_data := b_data (buf_of ?p (mss_clamp bo (maxmss - 20) ?t) q)\<rparr> =
        buf_of p (take 40 c @ mss_clamp bo (maxmss - 20) ?t) q"
      using False by (simp add: buf_of_def)
    have sy: "is_syn6 c \<longleftrightarrow> odd (unat (?t ! 13) div 2)" using no unfolding syn by (metis not_less)
    have "\<not> (word_at c 4 + 40 \<noteq> length c \<or> c ! 6 \<noteq> 6 \<or> length c < 60)" using no .
    then show ?thesis unfolding start fl dw sy by (simp only: if_False bind.bind_lunit dw upd if_distrib[of Some] simp_thms) (simp add: upd)
  qed
qed (simp add: mss_fixup_ipv6_def is_syn6_def SIZE_IPV6HDR_def buf_eqs)

lemma csum_all:
  assumes "\<forall>i\<in>set ps. 20 \<le> i \<and> i + 4 \<le> length c \<and> even i"
  shows "int (csum (foldl (clamp_at bo maxmss) c ps)) mod 65535 = int (csum c) mod 65535"
  using assms by (induction ps arbitrary: c) (auto simp: clamp_at_csum)

lemma tcp_sum_zero:
  assumes "is_syn4 c" "length t = length c - ip_header_length c" "4 \<le> length src" "4 \<le> length dst"
  shows "ip_checksum True t src dst 6 = Some 0 \<longleftrightarrow>
    (int (csum t) + int (pseudo_sum True src dst (length c - ip_header_length c) 6)) mod 65535 = 0"
proof -
  have l: "length t \<le> 65535" using assms(1,2) word_at_bound[of c 2] by (simp add: is_syn4_def)
  have p: "0 < pseudo_sum True src dst (length t) 6" by (simp add: pseudo_sum_def Let_def)
  have "ip_checksum True t src dst 6 = Some 0 \<longleftrightarrow> (csum t + pseudo_sum True src dst (length t) 6) mod 65535 = 0"
    using ip_checksum_zero[OF l _ _ p] assms(3,4) by simp
  also have "\<dots> \<longleftrightarrow> int ((csum t + pseudo_sum True src dst (length t) 6) mod 65535) = int 0" by (simp only: of_nat_eq_iff)
  finally show ?thesis unfolding assms(2) by (simp add: zmod_int)
qed

text \<open>A SYN segment with an MSS option of 1460, and one with the option after a NOP.\<close>

definition syn_packet :: "byte list" where
  "syn_packet = [69, 0, 0, 44, 0, 0, 64, 0, 64, 6, 38, 186, 10, 8, 0, 2, 10, 8, 0, 1,
     18, 52, 0, 80, 0, 0, 0, 1, 0, 0, 0, 0, 96, 2, 255, 255, 113, 143, 0, 0, 2, 4, 5, 180]"

definition syn_packet_odd :: "byte list" where
  "syn_packet_odd = [69, 0, 0, 48, 0, 0, 64, 0, 64, 6, 38, 182, 10, 8, 0, 2, 10, 8, 0, 1,
     18, 52, 0, 80, 0, 0, 0, 1, 0, 0, 0, 0, 112, 2, 255, 255, 176, 59, 0, 0, 1, 2, 4, 5, 180, 0, 0, 0]"

lemma syn_packet_facts:
  "ip_header_length syn_packet = 20" "is_syn4 syn_packet" "mss_options (drop 20 syn_packet) = [20]"
  "ip_checksum True (drop 20 syn_packet) [10, 8, 0, 2] [10, 8, 0, 1] 6 = Some 0"
proof -
  show h: "ip_header_length syn_packet = 20" by (simp add: ip_header_length_def syn_packet_def)
  show s: "is_syn4 syn_packet" unfolding is_syn4_def h by (simp add: syn_packet_def word_at_def syn_flag_def)
  show "mss_options (drop 20 syn_packet) = [20]"
    by (simp add: mss_options_def syn_packet_def tcp_header_length_def mss_positions.simps)
  show "ip_checksum True (drop 20 syn_packet) [10, 8, 0, 2] [10, 8, 0, 1] 6 = Some 0"
    by (subst tcp_sum_zero[OF s]) (simp_all add: h, simp add: syn_packet_def pseudo_sum_def)
qed

lemma syn_packet_odd_facts:
  "ip_header_length syn_packet_odd = 20" "is_syn4 syn_packet_odd" "mss_options (drop 20 syn_packet_odd) = [21]"
  "word_at (drop 20 syn_packet_odd) 23 = 1460"
  "ip_checksum True (drop 20 syn_packet_odd) [10, 8, 0, 2] [10, 8, 0, 1] 6 = Some 0"
proof -
  show h: "ip_header_length syn_packet_odd = 20" by (simp add: ip_header_length_def syn_packet_odd_def)
  show s: "is_syn4 syn_packet_odd" unfolding is_syn4_def h by (simp add: syn_packet_odd_def word_at_def syn_flag_def)
  show "mss_options (drop 20 syn_packet_odd) = [21]"
    by (simp add: mss_options_def syn_packet_odd_def tcp_header_length_def mss_positions.simps)
  show "word_at (drop 20 syn_packet_odd) 23 = 1460" by (simp add: syn_packet_odd_def word_at_def)
  show "ip_checksum True (drop 20 syn_packet_odd) [10, 8, 0, 2] [10, 8, 0, 1] 6 = Some 0"
    by (subst tcp_sum_zero[OF s]) (simp_all add: h, simp add: syn_packet_odd_def pseudo_sum_def)
qed

section \<open>The properties\<close>

text \<open>C39: MSS clamping never fails and keeps the length.  In a SYN segment that IPv4 carries unfragmented, it
  lowers the value of every MSS option to the maximum and keeps every other byte but the TCP checksum;
  it leaves every other packet as it is.\<close>

theorem mss_clamped:
  "\<exists>c'. mss_fixup_ipv4 bo maxmss (buf_of p c q) = Some (buf_of p c' q) \<and> length c' = length c \<and>
    (let h = ip_header_length c in
     if is_syn4 c
     then (\<forall>i\<in>set (mss_options (drop h c)). word_at c' (h + i + 2) = min (word_at c (h + i + 2)) (unat maxmss)) \<and>
          (\<forall>j. j \<notin> {h + 16, h + 17} \<and> (\<forall>i\<in>set (mss_options (drop h c)). j \<notin> {h + i + 2, h + i + 3}) \<longrightarrow> c' ! j = c ! j)
     else c' = c)"
proof (cases "is_syn4 c")
  case True
  let ?h = "ip_header_length c"
  let ?t = "drop ?h c"
  let ?c = "take ?h c @ mss_clamp bo maxmss ?t"
  have h: "?h \<le> length c" using True by (simp add: is_syn4_def)
  have lh: "length (take ?h c) = ?h" using h by simp
  have beyond: "?c ! (?h + k) = mss_clamp bo maxmss ?t ! k" "c ! (?h + k) = ?t ! k" if "?h + k < length c" for k
    using nth_append_length_plus[of "take ?h c" "mss_clamp bo maxmss ?t" k] h lh by simp_all
  have all: "\<And>i. i \<in> set (mss_options ?t) \<Longrightarrow> word_at (mss_clamp bo maxmss ?t) (i + 2) = min (word_at ?t (i + 2)) (unat maxmss)"
    "\<And>j. j \<notin> {16, 17} \<Longrightarrow> \<forall>i\<in>set (mss_options ?t). j \<notin> {i + 2, i + 3} \<Longrightarrow> mss_clamp bo maxmss ?t ! j = ?t ! j"
    using clamp_all[OF mss_options_apart[of ?t]] mss_options_range[of _ ?t] unfolding mss_clamp_def by auto
  have "word_at ?c (?h + i + 2) = min (word_at c (?h + i + 2)) (unat maxmss)" if i: "i \<in> set (mss_options ?t)" for i
  proof -
    have r: "i + 4 \<le> length ?t" using mss_options_range[OF i] by simp
    have "word_at ?c (?h + i + 2) = word_at (mss_clamp bo maxmss ?t) (i + 2)" "word_at c (?h + i + 2) = word_at ?t (i + 2)"
      unfolding word_at_def using beyond[of "i + 2"] beyond[of "Suc (i + 2)"] r by (simp_all add: add.assoc)
    then show ?thesis using all(1)[OF i] by simp
  qed
  moreover have "?c ! j = c ! j" if j: "j \<notin> {?h + 16, ?h + 17}" "\<forall>i\<in>set (mss_options ?t). j \<notin> {?h + i + 2, ?h + i + 3}" for j
  proof (cases "j < ?h")
    case True
    then show ?thesis using lh by (simp add: nth_append)
  next
    case False
    then obtain k where k: "j = ?h + k" by (metis le_Suc_ex not_less)
    then have "mss_clamp bo maxmss ?t ! k = ?t ! k" using j by (intro all(2)) auto
    then show ?thesis using nth_append_length_plus[of "take ?h c" "mss_clamp bo maxmss ?t" k] h lh by (simp add: k)
  qed
  moreover have "length ?c = length c" using h by simp
  ultimately show ?thesis using True unfolding mss_fixup_ipv4_of Let_def by (intro exI[of _ ?c]) simp
qed (simp add: mss_fixup_ipv4_of Let_def)

theorem mss_clamped_witness:
  "\<exists>c'. mss_fixup_ipv4 Little_Endian 1300 (buf_of [] syn_packet []) = Some (buf_of [] c' []) \<and>
    word_at c' 42 = 1300 \<and> c' ! 41 = 4"
proof -
  obtain c' where c': "mss_fixup_ipv4 Little_Endian 1300 (buf_of [] syn_packet []) = Some (buf_of [] c' [])"
    "\<forall>i\<in>{20}. word_at c' (20 + i + 2) = min (word_at syn_packet (20 + i + 2)) (unat (1300 :: u16))"
    "\<forall>j. j \<notin> {36, 37} \<and> (\<forall>i\<in>{20}. j \<notin> {20 + i + 2, 20 + i + 3}) \<longrightarrow> c' ! j = syn_packet ! j"
    using mss_clamped[of Little_Endian 1300 "[]" syn_packet "[]"] by (auto simp: syn_packet_facts Let_def)
  have "word_at syn_packet 42 = 1460" "syn_packet ! 41 = 4" by (simp_all add: syn_packet_def word_at_def)
  then have "word_at c' 42 = 1300" "c' ! 41 = 4" using c'(2) c'(3)[rule_format, of 41] by simp_all
  then show ?thesis using c'(1) by blast
qed

text \<open>C40: MSS clamping keeps the TCP checksum of a segment valid, and its IP header, where the MSS options
  stand at even offsets, in the byte order of either kind of host.\<close>

theorem mss_checksum_kept:
  assumes "\<forall>i\<in>set (mss_options (drop (ip_header_length c) c)). even i" "4 \<le> length src" "4 \<le> length dst"
    and "ip_checksum True (drop (ip_header_length c) c) src dst 6 = Some 0"
  shows "\<exists>c'. mss_fixup_ipv4 bo maxmss (buf_of p c q) = Some (buf_of p c' q) \<and>
    take (ip_header_length c) c' = take (ip_header_length c) c \<and>
    ip_checksum True (drop (ip_header_length c) c') src dst 6 = Some 0"
proof (cases "is_syn4 c")
  case True
  let ?h = "ip_header_length c"
  let ?t = "drop ?h c"
  have h: "?h \<le> length c" using True by (simp add: is_syn4_def)
  have r: "\<forall>i\<in>set (mss_options ?t). 20 \<le> i \<and> i + 4 \<le> length ?t \<and> even i"
    using assms(1) mss_options_range[of _ ?t] by blast
  have "int (csum (mss_clamp bo maxmss ?t)) mod 65535 = int (csum ?t) mod 65535"
    unfolding mss_clamp_def by (rule csum_all[OF r])
  note m = zero_mod_cong[OF this, of "int (pseudo_sum True src dst (length c - ?h) 6)"]
  have l: "length ?t = length c - ?h" "length (mss_clamp bo maxmss ?t) = length c - ?h" by simp_all
  have "ip_checksum True (mss_clamp bo maxmss ?t) src dst 6 = Some 0"
    using assms(4) m unfolding tcp_sum_zero[OF True l(1) assms(2,3)] tcp_sum_zero[OF True l(2) assms(2,3)] by (rule trans[rotated])
  then show ?thesis using True h
    by (intro exI[of _ "take ?h c @ mss_clamp bo maxmss ?t"]) (simp add: mss_fixup_ipv4_of)
next
  case False
  then show ?thesis using assms(4) by (intro exI[of _ c]) (simp add: mss_fixup_ipv4_of)
qed

theorem mss_checksum_kept_witness:
  "\<exists>c'. mss_fixup_ipv4 Little_Endian 1300 (buf_of [] syn_packet []) = Some (buf_of [] c' []) \<and>
    take (ip_header_length syn_packet) c' = take (ip_header_length syn_packet) syn_packet \<and>
    ip_checksum True (drop (ip_header_length syn_packet) c') [10, 8, 0, 2] [10, 8, 0, 1] 6 = Some 0"
  by (rule mss_checksum_kept) (simp_all add: syn_packet_facts)

section \<open>Options at odd offsets\<close>

lemma csum_put_bytes_odd:
  assumes "i + 2 \<le> length c" "odd i" "length bs = 2"
  shows "(int (csum (put_bytes i bs c)) + 256 * int (csum (take 2 (drop i c)))) mod 65535 = (int (csum c) + 256 * int (csum bs)) mod 65535"
proof -
  have "length (take 2 (drop i c)) = Suc (Suc 0)" using assms(1) by simp
  then obtain a b where ab: "take 2 (drop i c) = [a, b]" unfolding length_Suc_conv by auto
  obtain a' b' where bs: "bs = [a', b']" using assms(3) by (auto simp: numeral_2_eq_2 length_Suc_conv)
  obtain j where j: "i = Suc j" "even j" using assms(2) by (cases i) auto
  have tk: "take i c = take j c @ [c ! j]" using j assms(1) by (simp add: take_Suc_conv_app_nth)
  have c: "c = take j c @ [c ! j, a, b] @ drop (i + 2) c"
  proof -
    have "c = take i c @ take 2 (drop i c) @ drop (i + 2) c" by (metis append_take_drop_id drop_drop add.commute)
    then show ?thesis unfolding ab tk by simp
  qed
  have d: "put_bytes i bs c = take j c @ [c ! j, a', b'] @ drop (i + 2) c" by (simp add: put_bytes_def tk bs)
  have ev: "even (length (take j c))" using j assms(1) by simp
  have s: "int (csum (take j c @ [u, x, y] @ r)) = int (csum (take j c)) + 256 * int (unat u) + int (unat x) + 256 * int (unat y) + int (csum (0 # r))" for u x y r
    unfolding csum_append[OF ev] by (cases r) simp_all
  have "int (csum (put_bytes i bs c)) + 256 * int (csum [a, b]) = int (csum c) + 256 * int (csum bs) + (int (unat a) - int (unat a')) * 65535"
  proof -
    have "int (csum c) = int (csum (take j c)) + 256 * int (unat (c ! j)) + int (unat a) + 256 * int (unat b) + int (csum (0 # drop (i + 2) c))"
      by (subst c) (rule s)
    then show ?thesis unfolding d s by (simp add: bs)
  qed
  then show ?thesis unfolding ab by (metis mod_mult_self1)
qed

text \<open>The update is wrong for an option at an odd offset: of a valid segment with one such option, whose
  value is lowered, the checksum stays valid only if 257 divides the difference of the two values.\<close>

theorem mss_checksum_odd_offset:
  assumes "is_syn4 c" "mss_options (drop (ip_header_length c) c) = [i]" "odd i"
    and "unat maxmss < word_at (drop (ip_header_length c) c) (i + 2)" "4 \<le> length src" "4 \<le> length dst"
    and "ip_checksum True (drop (ip_header_length c) c) src dst 6 = Some 0"
  shows "\<exists>c'. mss_fixup_ipv4 bo maxmss (buf_of p c q) = Some (buf_of p c' q) \<and>
    (ip_checksum True (drop (ip_header_length c) c') src dst 6 = Some 0 \<longleftrightarrow>
     257 dvd word_at (drop (ip_header_length c) c) (i + 2) - unat maxmss)"
proof -
  let ?h = "ip_header_length c"
  let ?t = "drop ?h c"
  define D where "D = int (word_at ?t (i + 2)) - int (unat maxmss)"
  define P where "P = int (pseudo_sum True src dst (length c - ?h) 6)"
  define c1 where "c1 = put_bytes (i + 2) (be16 maxmss) ?t"
  have h: "?h \<le> length c" using assms(1) by (simp add: is_syn4_def)
  have r: "20 \<le> i" "i + 4 \<le> length ?t" using mss_options_range[of i ?t] assms(2) by simp_all
  have cl: "mss_clamp bo maxmss ?t = clamp_at bo maxmss ?t i" by (simp add: mss_clamp_def assms(2))
  have o: "(int (csum c1) + 256 * int (word_at ?t (i + 2))) mod 65535 = (int (csum ?t) + 256 * int (unat maxmss)) mod 65535"
    using csum_put_bytes_odd[of "i + 2" ?t "be16 maxmss"] r assms(3) csum_word[of "i + 2" ?t] by (simp add: c1_def csum_be16)
  have "int (csum (clamp_at bo maxmss ?t i)) mod 65535 = (int (csum c1) + D) mod 65535"
    unfolding c1_def D_def by (rule clamp_at_change[OF r assms(4)])
  also have "\<dots> = ((int (csum c1) + 256 * int (word_at ?t (i + 2))) + (D - 256 * int (word_at ?t (i + 2)))) mod 65535" by simp
  also have "\<dots> = ((int (csum ?t) + 256 * int (unat maxmss)) + (D - 256 * int (word_at ?t (i + 2)))) mod 65535" by (rule zero_mod_cong[OF o])
  also have "\<dots> = (int (csum ?t) - 255 * D) mod 65535" by (simp add: D_def algebra_simps)
  finally have m: "int (csum (clamp_at bo maxmss ?t i)) mod 65535 = (int (csum ?t) - 255 * D) mod 65535" .
  have z: "(int (csum ?t) + P) mod 65535 = 0" using assms(7) tcp_sum_zero[OF assms(1) _ assms(5,6), of ?t] by (simp add: P_def)
  have "ip_checksum True (mss_clamp bo maxmss ?t) src dst 6 = Some 0 \<longleftrightarrow> (int (csum (clamp_at bo maxmss ?t i)) + P) mod 65535 = 0"
    unfolding cl[symmetric] P_def by (rule tcp_sum_zero[OF assms(1) _ assms(5,6)]) simp
  also have "\<dots> \<longleftrightarrow> ((int (csum ?t) + P) + - (255 * D)) mod 65535 = 0" using zero_mod_cong[OF m, of P] by (simp add: algebra_simps)
  also have "\<dots> \<longleftrightarrow> (- (255 * D)) mod 65535 = 0" using mod_add_left_eq[of "int (csum ?t) + P" 65535 "- (255 * D)"] z by simp
  also have "\<dots> \<longleftrightarrow> 255 * 257 dvd 255 * D" by (simp only: dvd_eq_mod_eq_0[symmetric] dvd_minus_iff) simp
  also have "\<dots> \<longleftrightarrow> 257 dvd D" by (simp only: dvd_mult_cancel_left) simp
  also have "\<dots> \<longleftrightarrow> 257 dvd word_at ?t (i + 2) - unat maxmss"
  proof -
    have "D = int (word_at ?t (i + 2) - unat maxmss)" using assms(4) by (simp add: D_def of_nat_diff)
    moreover have "(257 :: int) = int 257" by simp
    ultimately show ?thesis by (metis int_dvd_int_iff)
  qed
  finally show ?thesis using assms(1) h
    by (intro exI[of _ "take ?h c @ mss_clamp bo maxmss ?t"]) (simp add: mss_fixup_ipv4_of)
qed

theorem mss_checksum_odd_offset_witness:
  "\<exists>c'. mss_fixup_ipv4 Little_Endian 1300 (buf_of [] syn_packet_odd []) = Some (buf_of [] c' []) \<and>
    (ip_checksum True (drop (ip_header_length syn_packet_odd) c') [10, 8, 0, 2] [10, 8, 0, 1] 6 = Some 0 \<longleftrightarrow>
     257 dvd word_at (drop (ip_header_length syn_packet_odd) syn_packet_odd) (21 + 2) - unat (1300 :: u16))"
  by (rule mss_checksum_odd_offset) (simp_all add: syn_packet_odd_facts)

end
