(* ===== verification/Ovpn_Client_Nat.thy ===== *)
theory Ovpn_Client_Nat
  imports Ovpn_Mss
begin

text \<open>
  NAT on the client (\<open>clinat.h\<close>, \<open>clinat.c\<close>): the table of rules, and the rewriting of the addresses
  of a packet with its checksums.  Addresses are words in network order as the host reads them.
\<close>

unbundle bit_operations_syntax

section \<open>The table\<close>

definition MAX_CLIENT_NAT :: int where "MAX_CLIENT_NAT = 64"
definition CN_OUTGOING :: int where "CN_OUTGOING = 0"
definition CN_INCOMING :: int where "CN_INCOMING = 1"
definition CN_SNAT :: int where "CN_SNAT = 0"
definition CN_DNAT :: int where "CN_DNAT = 1"

record client_nat_entry =
  cn_type :: int
  cn_network :: u32
  cn_netmask :: u32
  cn_foreign_network :: u32

record client_nat_option_list =
  cn_n :: int
  cn_entries :: "client_nat_entry list"

definition zero_nat_entry :: client_nat_entry where
  "zero_nat_entry = \<lparr>cn_type = 0, cn_network = 0, cn_netmask = 0, cn_foreign_network = 0\<rparr>"

definition new_client_nat_list :: client_nat_option_list where
  "new_client_nat_list = \<lparr>cn_n = 0, cn_entries = replicate (nat MAX_CLIENT_NAT) zero_nat_entry\<rparr>"

definition clone_client_nat_option_list :: "client_nat_option_list \<Rightarrow> client_nat_option_list" where
  "clone_client_nat_option_list src = src"

definition add_entry :: "client_nat_option_list \<Rightarrow> client_nat_entry \<Rightarrow> client_nat_option_list \<times> bool" where
  "add_entry dest e =
     (if cn_n dest \<ge> MAX_CLIENT_NAT then (dest, False)
      else (dest\<lparr>cn_entries := (cn_entries dest)[nat (cn_n dest) := e], cn_n := cn_n dest + 1\<rparr>, True))"

fun copy_entries :: "client_nat_option_list \<Rightarrow> client_nat_entry list \<Rightarrow> client_nat_option_list" where
  "copy_entries dest [] = dest"
| "copy_entries dest (e # es) =
     (case add_entry dest e of (dest, ok) \<Rightarrow> if \<not> ok then dest else copy_entries dest es)"

definition copy_client_nat_option_list :: "client_nat_option_list \<Rightarrow> client_nat_option_list \<Rightarrow> client_nat_option_list" where
  "copy_client_nat_option_list dest src = copy_entries dest (take (nat (cn_n src)) (cn_entries src))"

text \<open>\<open>getaddr\<close> resolves a name or an address and reports whether it could.\<close>

definition add_client_nat_to_option_list ::
  "(string \<Rightarrow> u32 \<times> bool) \<Rightarrow> client_nat_option_list \<Rightarrow> string \<Rightarrow> string \<Rightarrow> string \<Rightarrow> string \<Rightarrow> client_nat_option_list" where
  "add_client_nat_to_option_list getaddr dest type network netmask foreign_network =
     (case (if type = ''snat'' then Some CN_SNAT else if type = ''dnat'' then Some CN_DNAT else None) of
        None \<Rightarrow> dest
      | Some t \<Rightarrow>
          (case getaddr network of (net, ok) \<Rightarrow>
           if \<not> ok then dest
           else case getaddr netmask of (msk, ok) \<Rightarrow>
           if \<not> ok then dest
           else case getaddr foreign_network of (foreign, ok) \<Rightarrow>
           if \<not> ok then dest
           else fst (add_entry dest \<lparr>cn_type = t, cn_network = net, cn_netmask = msk, cn_foreign_network = foreign\<rparr>)))"

section \<open>The transformation\<close>

record nat_state =
  accumulate :: int
  alog :: u32
  nat_buf :: buffer

text \<open>One round of the loop; \<open>h\<close> is the position of the IP header, with the source address at 12 and the
  destination address at 16.\<close>

definition nat_rule :: "byte_order \<Rightarrow> int \<Rightarrow> int \<Rightarrow> client_nat_entry \<Rightarrow> nat_state \<Rightarrow> nat_state option" where
  "nat_rule bo h direction e s = do {
     let (addr_ptr, amask) = (if cn_type e \<noteq> direction then (h + 16, 2) else (h + 12, 1));
     addr \<leftarrow> load32 bo (nat_buf s) addr_ptr;
     let (from, to) = (if direction \<noteq> 0 then (cn_foreign_network e, cn_network e)
                       else (cn_network e, cn_foreign_network e));
     if addr AND cn_netmask e = from \<and> amask AND alog s = 0
     then do {
       let acc = ADD_CHECKSUM_32 (accumulate s) addr;
       let addr = (addr AND NOT (cn_netmask e)) OR to;
       let acc = SUB_CHECKSUM_32 acc addr;
       buf \<leftarrow> store32 bo (nat_buf s) addr_ptr addr;
       Some \<lparr>accumulate = acc, alog = alog s OR amask, nat_buf = buf\<rparr> }
     else Some s }"

fun nat_rules :: "byte_order \<Rightarrow> int \<Rightarrow> int \<Rightarrow> client_nat_entry list \<Rightarrow> nat_state \<Rightarrow> nat_state option" where
  "nat_rules bo h direction [] s = Some s"
| "nat_rules bo h direction (e # es) s = do {
     s \<leftarrow> nat_rule bo h direction e s;
     nat_rules bo h direction es s }"

definition adjust_at :: "byte_order \<Rightarrow> int \<Rightarrow> int \<Rightarrow> buffer \<Rightarrow> buffer option" where
  "adjust_at bo acc ptr buf = do {
     cksum \<leftarrow> load16 bo buf ptr;
     store16 bo buf ptr (ADJUST_CHECKSUM acc cksum) }"

definition client_nat_transform :: "byte_order \<Rightarrow> client_nat_option_list \<Rightarrow> buffer \<Rightarrow> int \<Rightarrow> buffer option" where
  "client_nat_transform bo rules ipbuf direction = do {
     h \<leftarrow> buf_bptr ipbuf;
     s \<leftarrow> nat_rules bo h direction (take (nat (cn_n rules)) (cn_entries rules))
            \<lparr>accumulate = 0, alog = 0, nat_buf = ipbuf\<rparr>;
     let buf = nat_buf s;
     if alog s \<noteq> 0
     then do {
       buf \<leftarrow> adjust_at bo (accumulate s) (h + 10) buf;
       protocol \<leftarrow> load8 buf (h + 9);
       if protocol = OPENVPN_IPPROTO_TCP
       then (if buf_len buf \<ge> SIZE_IPHDR + SIZE_TCPHDR then adjust_at bo (accumulate s) (h + 36) buf else Some buf)
       else if protocol = OPENVPN_IPPROTO_UDP
       then (if buf_len buf \<ge> SIZE_IPHDR + SIZE_UDPHDR then adjust_at bo (accumulate s) (h + 26) buf else Some buf)
       else Some buf }
     else Some buf }"

section \<open>The table keeps its bound\<close>

definition nat_table_ok :: "client_nat_option_list \<Rightarrow> bool" where
  "nat_table_ok l = (0 \<le> cn_n l \<and> cn_n l \<le> MAX_CLIENT_NAT \<and> length (cn_entries l) = nat MAX_CLIENT_NAT)"

definition nat_table :: "client_nat_option_list \<Rightarrow> client_nat_entry list" where
  "nat_table l = take (nat (cn_n l)) (cn_entries l)"

lemma add_entry_table:
  assumes "nat_table_ok l"
  shows "nat_table_ok (fst (add_entry l e)) \<and> snd (add_entry l e) = (length (nat_table l) < 64) \<and>
    nat_table (fst (add_entry l e)) = take 64 (nat_table l @ [e])"
proof -
  have l: "length (nat_table l) = nat (cn_n l)" "nat (cn_n l) \<le> 64" "length (cn_entries l) = 64"
    using assms by (auto simp: nat_table_ok_def nat_table_def MAX_CLIENT_NAT_def)
  show ?thesis
  proof (cases "cn_n l \<ge> MAX_CLIENT_NAT")
    case True
    then have n: "nat (cn_n l) = 64" using assms by (simp add: nat_table_ok_def MAX_CLIENT_NAT_def)
    then show ?thesis using True assms l by (simp add: add_entry_def)
  next
    case False
    then have n: "nat (cn_n l) < 64" "nat (cn_n l + 1) = Suc (nat (cn_n l))"
      using assms by (auto simp: nat_table_ok_def MAX_CLIENT_NAT_def)
    then show ?thesis using False assms l
      by (simp add: add_entry_def nat_table_ok_def nat_table_def MAX_CLIENT_NAT_def take_Suc_conv_app_nth)
  qed
qed

lemma copy_entries_table:
  "nat_table_ok l \<Longrightarrow> nat_table_ok (copy_entries l es) \<and> nat_table (copy_entries l es) = take 64 (nat_table l @ es)"
proof (induction es arbitrary: l)
  case Nil
  then show ?case by (auto simp: nat_table_ok_def nat_table_def MAX_CLIENT_NAT_def)
next
  case (Cons e es)
  obtain l' ok where a: "add_entry l e = (l', ok)" by (cases "add_entry l e")
  have t: "nat_table_ok l'" "ok = (length (nat_table l) < 64)" "nat_table l' = take 64 (nat_table l @ [e])"
    using add_entry_table[OF Cons.prems, of e] by (simp_all add: a)
  have len: "length (nat_table l) \<le> 64" using Cons.prems by (auto simp: nat_table_ok_def nat_table_def MAX_CLIENT_NAT_def)
  show ?case
  proof (cases ok)
    case True
    then show ?thesis using Cons.IH[OF t(1)] t len a by simp
  next
    case False
    then have "length (nat_table l) = 64" using t(2) len by simp
    then show ?thesis using False t a by simp
  qed
qed

text \<open>Copying a table into another keeps the bound of 64 entries: the entries are appended in their order
  until the table is full, and the rest is dropped.\<close>

theorem nat_table_copied:
  assumes "nat_table_ok dest" "nat_table_ok src"
  shows "nat_table_ok (copy_client_nat_option_list dest src) \<and>
    nat_table (copy_client_nat_option_list dest src) = take 64 (nat_table dest @ nat_table src)"
  using copy_entries_table[OF assms(1)] by (simp add: copy_client_nat_option_list_def nat_table_def[of src])

text \<open>The translation of 10.8.0.0/24 to 192.168.5.0/24, as a host with little-endian words reads it.\<close>

definition nat_example_rule :: client_nat_entry where
  "nat_example_rule = \<lparr>cn_type = CN_SNAT, cn_network = 0x0000080A, cn_netmask = 0x00FFFFFF, cn_foreign_network = 0x0005A8C0\<rparr>"

definition nat_example :: client_nat_option_list where
  "nat_example = fst (add_entry new_client_nat_list nat_example_rule)"

lemma nat_table_new: "nat_table_ok new_client_nat_list" "nat_table new_client_nat_list = []"
  by (simp_all add: nat_table_ok_def nat_table_def new_client_nat_list_def MAX_CLIENT_NAT_def)

lemma nat_example_table: "nat_table_ok nat_example" "nat_table nat_example = [nat_example_rule]"
  using add_entry_table[OF nat_table_new(1), of nat_example_rule] by (simp_all add: nat_example_def nat_table_new(2))

theorem nat_table_copied_witness:
  "nat_table_ok (copy_client_nat_option_list new_client_nat_list nat_example) \<and>
   nat_table (copy_client_nat_option_list new_client_nat_list nat_example) = take 64 (nat_table new_client_nat_list @ nat_table nat_example)"
  by (rule nat_table_copied) (simp_all add: nat_table_new nat_example_table)

section \<open>The rules on a packet\<close>

text \<open>The first rule that matches an address translates it.\<close>

definition nat_from :: "int \<Rightarrow> client_nat_entry \<Rightarrow> u32" where
  "nat_from direction e = (if direction \<noteq> 0 then cn_foreign_network e else cn_network e)"

definition nat_to :: "int \<Rightarrow> client_nat_entry \<Rightarrow> u32" where
  "nat_to direction e = (if direction \<noteq> 0 then cn_network e else cn_foreign_network e)"

fun translate :: "int \<Rightarrow> client_nat_entry list \<Rightarrow> u32 \<Rightarrow> u32 option" where
  "translate direction [] w = None"
| "translate direction (e # es) w =
     (if w AND cn_netmask e = nat_from direction e then Some ((w AND NOT (cn_netmask e)) OR nat_to direction e)
      else translate direction es w)"

definition src_rules :: "int \<Rightarrow> client_nat_entry list \<Rightarrow> client_nat_entry list" where
  "src_rules direction = filter (\<lambda>e. cn_type e = direction)"

definition dst_rules :: "int \<Rightarrow> client_nat_entry list \<Rightarrow> client_nat_entry list" where
  "dst_rules direction = filter (\<lambda>e. cn_type e \<noteq> direction)"

definition net_bytes :: "byte_order \<Rightarrow> u32 \<Rightarrow> byte list" where
  "net_bytes bo w = in_order bo (be32 w)"

definition addr_at :: "byte_order \<Rightarrow> byte list \<Rightarrow> nat \<Rightarrow> u32" where
  "addr_at bo c i = de32 (in_order bo (take 4 (drop i c)))"

definition with_addrs :: "byte_order \<Rightarrow> byte list \<Rightarrow> u32 \<Rightarrow> u32 \<Rightarrow> byte list" where
  "with_addrs bo c s d = take 12 c @ net_bytes bo s @ net_bytes bo d @ drop 20 c"

definition flags_of :: "bool \<Rightarrow> bool \<Rightarrow> u32" where
  "flags_of f g = (if f then 1 else 0) OR (if g then 2 else 0)"

lemma flags_of_simps:
  "(1 AND flags_of f g = 0) = (\<not> f)" "(2 AND flags_of f g = 0) = (\<not> g)"
  "flags_of f g OR 1 = flags_of True g" "flags_of f g OR 2 = flags_of f True"
  "(flags_of f g = 0) = (\<not> f \<and> \<not> g)" "flags_of False False = 0"
  by (cases f; cases g; simp add: flags_of_def)+

lemma net_bytes_length [simp]: "length (net_bytes bo w) = 4"
  by (simp add: net_bytes_def)

lemma net_bytes_addr [simp]: "de32 (in_order bo (net_bytes bo w)) = w"
  by (simp add: net_bytes_def)

lemma addr_bytes: "i + 4 \<le> length c \<Longrightarrow> net_bytes bo (addr_at bo c i) = take 4 (drop i c)"
  by (simp add: net_bytes_def addr_at_def be32_de32)

lemma with_addrs_length [simp]: "20 \<le> length c \<Longrightarrow> length (with_addrs bo c s d) = length c"
  by (simp add: with_addrs_def)

lemma with_addrs_same: "20 \<le> length c \<Longrightarrow> with_addrs bo c (addr_at bo c 12) (addr_at bo c 16) = c"
proof -
  assume l: "20 \<le> length c"
  have "drop 12 c = take 4 (drop 12 c) @ drop 16 c" "drop 16 c = take 4 (drop 16 c) @ drop 20 c"
    using append_take_drop_id[of 4 "drop 12 c"] append_take_drop_id[of 4 "drop 16 c"] by simp_all
  then have "take 12 c @ take 4 (drop 12 c) @ take 4 (drop 16 c) @ drop 20 c = c"
    by (metis append_take_drop_id)
  then show ?thesis using l by (simp add: with_addrs_def addr_bytes)
qed

lemma with_addrs_at:
  assumes "20 \<le> length c"
  shows "take 4 (drop 12 (with_addrs bo c s d)) = net_bytes bo s" "take 4 (drop 16 (with_addrs bo c s d)) = net_bytes bo d"
    "put_bytes 12 (net_bytes bo s') (with_addrs bo c s d) = with_addrs bo c s' d"
    "put_bytes 16 (net_bytes bo d') (with_addrs bo c s d) = with_addrs bo c s d'"
  using assms by (simp_all add: with_addrs_def put_bytes_def)

lemma addr_at_with [simp]:
  "20 \<le> length c \<Longrightarrow> addr_at bo (with_addrs bo c s d) 12 = s" "20 \<le> length c \<Longrightarrow> addr_at bo (with_addrs bo c s d) 16 = d"
  by (simp_all add: addr_at_def with_addrs_at)

lemma buf_store_put:
  "i + length bs \<le> length c \<Longrightarrow> buf_store (buf_of p c q) (int (length p) + int i) bs = Some (buf_of p (put_bytes i bs c) q)"
  by (simp add: put_bytes_def buf_store_of)

lemma load_addr:
  assumes "20 \<le> length c"
  shows "load32 bo (buf_of p (with_addrs bo c s d) q) (int (length p) + 12) = Some s"
    "load32 bo (buf_of p (with_addrs bo c s d) q) (int (length p) + 16) = Some d"
  using load32_of[of 12 "with_addrs bo c s d" bo p q] load32_of[of 16 "with_addrs bo c s d" bo p q] assms
  by (simp_all add: with_addrs_at)

lemma store_addr:
  assumes "20 \<le> length c"
  shows "store32 bo (buf_of p (with_addrs bo c s d) q) (int (length p) + 12) s' = Some (buf_of p (with_addrs bo c s' d) q)"
    "store32 bo (buf_of p (with_addrs bo c s d) q) (int (length p) + 16) d' = Some (buf_of p (with_addrs bo c s d') q)"
  using buf_store_put[of 12 "net_bytes bo s'" "with_addrs bo c s d" p q] buf_store_put[of 16 "net_bytes bo d'" "with_addrs bo c s d" p q] assms
  by (simp_all add: store32_def net_bytes_def[symmetric] with_addrs_at)

definition nat_state_of :: "byte_order \<Rightarrow> byte list \<Rightarrow> byte list \<Rightarrow> byte list \<Rightarrow> int \<Rightarrow> bool \<Rightarrow> u32 \<Rightarrow> bool \<Rightarrow> u32 \<Rightarrow> nat_state" where
  "nat_state_of bo p c q acc f s g d =
     \<lparr>accumulate = acc, alog = flags_of f g, nat_buf = buf_of p (with_addrs bo c s d) q\<rparr>"

lemma CHECKSUM_32_shift:
  "ADD_CHECKSUM_32 acc u = acc + ADD_CHECKSUM_32 0 u" "SUB_CHECKSUM_32 acc u = acc - ADD_CHECKSUM_32 0 u"
  by (simp_all add: ADD_CHECKSUM_32_def SUB_CHECKSUM_32_def)

lemma nat_rule_of:
  assumes "20 \<le> length c"
  shows "nat_rule bo (int (length p)) direction e (nat_state_of bo p c q acc f s g d) = Some
    (if cn_type e \<noteq> direction
     then if d AND cn_netmask e = nat_from direction e \<and> \<not> g
          then (let d' = (d AND NOT (cn_netmask e)) OR nat_to direction e
                in nat_state_of bo p c q (acc + (ADD_CHECKSUM_32 0 d - ADD_CHECKSUM_32 0 d')) f s True d')
          else nat_state_of bo p c q acc f s g d
     else if s AND cn_netmask e = nat_from direction e \<and> \<not> f
          then (let s' = (s AND NOT (cn_netmask e)) OR nat_to direction e
                in nat_state_of bo p c q (acc + (ADD_CHECKSUM_32 0 s - ADD_CHECKSUM_32 0 s')) True s' g d)
          else nat_state_of bo p c q acc f s g d)"
  unfolding nat_rule_def nat_state_of_def nat_from_def nat_to_def Let_def
  by (cases "cn_type e \<noteq> direction")
    (simp_all add: load_addr[OF assms] store_addr[OF assms] flags_of_simps CHECKSUM_32_shift[of "acc + _"] CHECKSUM_32_shift[of acc])

text \<open>The effect of the rules on an address that no rule has rewritten yet, or that one has.\<close>

definition rewritten :: "int \<Rightarrow> client_nat_entry list \<Rightarrow> bool \<Rightarrow> u32 \<Rightarrow> u32" where
  "rewritten direction es f w = (if f then w else case translate direction es w of None \<Rightarrow> w | Some x \<Rightarrow> x)"

lemma rewritten_simps [simp]: "rewritten direction es True w = w" "rewritten direction [] f w = w"
  by (simp_all add: rewritten_def)

lemma nat_rules_of:
  assumes "20 \<le> length c"
  shows "nat_rules bo (int (length p)) direction es (nat_state_of bo p c q acc f s g d) =
    (let s' = rewritten direction (src_rules direction es) f s; d' = rewritten direction (dst_rules direction es) g d
     in Some (nat_state_of bo p c q
       (acc + (ADD_CHECKSUM_32 0 s - ADD_CHECKSUM_32 0 s') + (ADD_CHECKSUM_32 0 d - ADD_CHECKSUM_32 0 d'))
       (f \<or> translate direction (src_rules direction es) s \<noteq> None) s' (g \<or> translate direction (dst_rules direction es) d \<noteq> None) d'))"
proof (induction es arbitrary: acc f s g d)
  case Nil
  then show ?case by (simp add: src_rules_def dst_rules_def)
next
  case (Cons e es)
  show ?case
  proof (cases "cn_type e \<noteq> direction")
    case True
    have r: "src_rules direction (e # es) = src_rules direction es" "dst_rules direction (e # es) = e # dst_rules direction es"
      using True by (simp_all add: src_rules_def dst_rules_def)
    show ?thesis using True unfolding nat_rules.simps nat_rule_of[OF assms] r
      by (cases g) (simp_all add: Cons.IH Let_def rewritten_def algebra_simps)
  next
    case False
    have r: "dst_rules direction (e # es) = dst_rules direction es" "src_rules direction (e # es) = e # src_rules direction es"
      using False by (simp_all add: src_rules_def dst_rules_def)
    show ?thesis using False unfolding nat_rules.simps nat_rule_of[OF assms] r
      by (cases f) (simp_all add: Cons.IH Let_def rewritten_def algebra_simps)
  qed
qed

section \<open>The checksums of a packet\<close>

definition adjusted :: "byte_order \<Rightarrow> int \<Rightarrow> nat \<Rightarrow> byte list \<Rightarrow> byte list" where
  "adjusted bo acc i c = put_bytes i (in_order bo (be16 (ADJUST_CHECKSUM acc (de16 (in_order bo (take 2 (drop i c))))))) c"

lemma adjust_at_of:
  "i + 2 \<le> length c \<Longrightarrow> adjust_at bo acc (int (length p) + int i) (buf_of p c q) = Some (buf_of p (adjusted bo acc i c) q)"
  by (simp add: adjust_at_def load16_of store16_def buf_store_put adjusted_def)

lemma adjusted_simps:
  "i + 2 \<le> length c \<Longrightarrow> length (adjusted bo acc i c) = length c"
  "i + 2 \<le> length c \<Longrightarrow> j < i \<or> i + 2 \<le> j \<Longrightarrow> adjusted bo acc i c ! j = c ! j"
  by (simp_all add: adjusted_def)

lemma adjusted_csum:
  assumes "i + 2 \<le> length c" "even i" "- 262140 \<le> acc" "acc \<le> 262140"
  shows "int (csum (adjusted bo acc i c)) mod 65535 = (int (csum c) + byte_factor bo * acc) mod 65535"
proof -
  define k where "k = take 2 (drop i c)"
  define n where "n = in_order bo (be16 (ADJUST_CHECKSUM acc (de16 (in_order bo k))))"
  have l: "length k = 2" "length n = 2" using assms(1) by (simp_all add: k_def n_def)
  have u: "0 \<le> uint (de16 (in_order bo k))" "uint (de16 (in_order bo k)) < 65536" using uint_bounded[of "de16 (in_order bo k)"] by simp_all
  have "- 2147483648 < acc + uint (de16 (in_order bo k))" "acc + uint (de16 (in_order bo k)) < 2147483648"
    using u assms(3,4) by linarith+
  then have "- (2 ^ 31) < acc + uint (de16 (in_order bo k))" "acc + uint (de16 (in_order bo k)) < 2 ^ 31" by simp_all
  from adjusted_field[OF l(1) this] have f: "int (csum n) mod 65535 = (int (csum k) + byte_factor bo * acc) mod 65535" unfolding n_def .
  have "csum (put_bytes i n c) + csum k = csum c + csum n"
    using csum_put_bytes[of i n c] assms(1,2) l by (simp add: k_def)
  then have "int (csum (adjusted bo acc i c)) = int (csum n) + (int (csum c) - int (csum k))"
    unfolding adjusted_def k_def[symmetric] n_def[symmetric] by linarith
  also have "\<dots> mod 65535 = (int (csum k) + byte_factor bo * acc + (int (csum c) - int (csum k))) mod 65535"
    by (rule zero_mod_cong[OF f])
  finally show ?thesis by (simp add: algebra_simps)
qed

lemma put_bytes_take: "i + length bs \<le> n \<Longrightarrow> n \<le> length c \<Longrightarrow> take n (put_bytes i bs c) = put_bytes i bs (take n c)"
proof (cases "bs = []")
  case False
  assume "i + length bs \<le> n" "n \<le> length c"
  then show ?thesis using False unfolding put_bytes_def
    by (simp only: take_append drop_take) (auto simp: min_def dest: le_antisym)
next
  case True
  assume "i + length bs \<le> n" "n \<le> length c"
  then have "take i (take n c) = take i c" using True by (simp add: min_def)
  then show ?thesis using True append_take_drop_id[of i c] append_take_drop_id[of i "take n c"] by (simp add: put_bytes_def)
qed

lemma put_bytes_drop: "n + k + length bs \<le> length c \<Longrightarrow> drop n (put_bytes (n + k) bs c) = put_bytes k bs (drop n c)"
  unfolding put_bytes_def by (simp add: drop_take ac_simps)

lemma adjusted_take:
  "i + 2 \<le> n \<Longrightarrow> n \<le> length c \<Longrightarrow> take n (adjusted bo acc i c) = adjusted bo acc i (take n c)"
proof -
  assume l: "i + 2 \<le> n" "n \<le> length c"
  then have "take 2 (drop i (take n c)) = take 2 (drop i c)" by (simp only: drop_take take_take) (simp add: min_def)
  then show ?thesis using l by (simp only: adjusted_def) (simp add: put_bytes_take)
qed

lemma adjusted_drop:
  "n + k + 2 \<le> length c \<Longrightarrow> drop n (adjusted bo acc (n + k) c) = adjusted bo acc k (drop n c)"
  unfolding adjusted_def by (subst put_bytes_drop) (simp_all add: add.commute)

text \<open>The place of the checksum of the transport that is adjusted.\<close>

definition transport_checksum :: "byte list \<Rightarrow> nat option" where
  "transport_checksum c =
     (if c ! 9 = 6 then if 40 \<le> length c then Some 36 else None
      else if c ! 9 = 17 then if 28 \<le> length c then Some 26 else None
      else None)"

definition nat_packet :: "byte_order \<Rightarrow> client_nat_entry list \<Rightarrow> int \<Rightarrow> byte list \<Rightarrow> byte list" where
  "nat_packet bo es direction c =
     (let s = addr_at bo c 12; d = addr_at bo c 16;
          s' = rewritten direction (src_rules direction es) False s;
          d' = rewritten direction (dst_rules direction es) False d;
          acc = (ADD_CHECKSUM_32 0 s - ADD_CHECKSUM_32 0 s') + (ADD_CHECKSUM_32 0 d - ADD_CHECKSUM_32 0 d')
      in if translate direction (src_rules direction es) s = None \<and> translate direction (dst_rules direction es) d = None then c
         else (let c = adjusted bo acc 10 (with_addrs bo c s' d')
               in case transport_checksum c of None \<Rightarrow> c | Some i \<Rightarrow> adjusted bo acc i c))"

lemma client_nat_transform_of:
  assumes "20 \<le> length c"
  shows "client_nat_transform bo rules (buf_of p c q) direction = Some (buf_of p (nat_packet bo (nat_table rules) direction c) q)"
proof -
  define es where "es = nat_table rules"
  define s where "s = addr_at bo c 12"
  define d where "d = addr_at bo c 16"
  define s' where "s' = rewritten direction (src_rules direction es) False s"
  define d' where "d' = rewritten direction (dst_rules direction es) False d"
  define acc where "acc = (ADD_CHECKSUM_32 0 s - ADD_CHECKSUM_32 0 s') + (ADD_CHECKSUM_32 0 d - ADD_CHECKSUM_32 0 d')"
  define f where "f = (translate direction (src_rules direction es) s \<noteq> None)"
  define g where "g = (translate direction (dst_rules direction es) d \<noteq> None)"
  have start: "\<lparr>accumulate = 0, alog = 0, nat_buf = buf_of p c q\<rparr> = nat_state_of bo p c q 0 False s False d"
    by (simp add: nat_state_of_def flags_of_simps s_def d_def with_addrs_same[OF assms])
  have loop: "nat_rules bo (int (length p)) direction es (nat_state_of bo p c q 0 False s False d) = Some (nat_state_of bo p c q acc f s' g d')"
    by (simp add: nat_rules_of[OF assms] Let_def s'_def d'_def f_def g_def acc_def)
  define c1 where "c1 = with_addrs bo c s' d'"
  have l1: "length c1 = length c" using assms by (simp add: c1_def)
  have same: "c1 = c" if "\<not> f" "\<not> g"
  proof -
    have "s' = s" "d' = d" using that by (simp_all add: s'_def d'_def f_def g_def rewritten_def)
    then show ?thesis using with_addrs_same[OF assms] by (simp add: c1_def s_def d_def)
  qed
  have a10: "10 + 2 \<le> length c1" and n9: "9 < length c1" using assms l1 by linarith+
  define c2 where "c2 = adjusted bo acc 10 c1"
  have l2: "length c2 = length c" using l1 a10 by (simp add: c2_def adjusted_simps)
  have adj10: "adjust_at bo acc (int (length p) + 10) (buf_of p c1 q) = Some (buf_of p c2 q)"
    using adjust_at_of[OF a10, of bo acc p q] by (simp add: c2_def)
  have p9: "load8 (buf_of p c2 q) (int (length p) + 9) = Some (c2 ! 9)" using load8_of[of 9 c2 p q] n9 l1 l2 by simp
  have adj: "adjust_at bo acc (int (length p) + 36) (buf_of p c2 q) = Some (buf_of p (adjusted bo acc 36 c2) q)" if "40 \<le> length c"
    using adjust_at_of[of 36 c2 bo acc p q] that l2 by simp
  have adj': "adjust_at bo acc (int (length p) + 26) (buf_of p c2 q) = Some (buf_of p (adjusted bo acc 26 c2) q)" if "28 \<le> length c"
    using adjust_at_of[of 26 c2 bo acc p q] that l2 by simp
  have run: "client_nat_transform bo rules (buf_of p c q) direction =
      (if f \<or> g
       then Some (buf_of p (case transport_checksum c2 of None \<Rightarrow> c2 | Some i \<Rightarrow> adjusted bo acc i c2) q)
       else Some (buf_of p c1 q))"
    using adj10 p9 adj adj' l2 loop
    unfolding client_nat_transform_def nat_table_def[symmetric] es_def[symmetric]
    by (auto simp: start nat_state_of_def c1_def[symmetric] flags_of_simps transport_checksum_def
        OPENVPN_IPPROTO_TCP_def OPENVPN_IPPROTO_UDP_def SIZE_IPHDR_def SIZE_TCPHDR_def SIZE_UDPHDR_def Let_def)
  have "nat_packet bo es direction c = (if f \<or> g then (case transport_checksum c2 of None \<Rightarrow> c2 | Some i \<Rightarrow> adjusted bo acc i c2) else c)"
    unfolding nat_packet_def Let_def f_def g_def c2_def c1_def acc_def s'_def d'_def s_def d_def by auto
  then show ?thesis unfolding run es_def[symmetric] using same by auto
qed

section \<open>The properties\<close>

lemma acc_bounds:
  "- 262140 \<le> (ADD_CHECKSUM_32 0 s - ADD_CHECKSUM_32 0 s') + (ADD_CHECKSUM_32 0 d - ADD_CHECKSUM_32 0 d')"
  "(ADD_CHECKSUM_32 0 s - ADD_CHECKSUM_32 0 s') + (ADD_CHECKSUM_32 0 d - ADD_CHECKSUM_32 0 d') \<le> 262140"
proof -
  have b: "0 \<le> ADD_CHECKSUM_32 0 w" "ADD_CHECKSUM_32 0 w \<le> 131070" for w :: u32
    using host_word32(2,3)[of "[0, 0, 0, 0]" w] by simp_all
  show "- 262140 \<le> (ADD_CHECKSUM_32 0 s - ADD_CHECKSUM_32 0 s') + (ADD_CHECKSUM_32 0 d - ADD_CHECKSUM_32 0 d')"
    "(ADD_CHECKSUM_32 0 s - ADD_CHECKSUM_32 0 s') + (ADD_CHECKSUM_32 0 d - ADD_CHECKSUM_32 0 d') \<le> 262140"
    using b[of s] b[of s'] b[of d] b[of d'] by linarith+
qed

definition nat_src :: "byte_order \<Rightarrow> client_nat_entry list \<Rightarrow> int \<Rightarrow> byte list \<Rightarrow> u32" where
  "nat_src bo es direction c = rewritten direction (src_rules direction es) False (addr_at bo c 12)"

definition nat_dst :: "byte_order \<Rightarrow> client_nat_entry list \<Rightarrow> int \<Rightarrow> byte list \<Rightarrow> u32" where
  "nat_dst bo es direction c = rewritten direction (dst_rules direction es) False (addr_at bo c 16)"

definition nat_acc :: "byte_order \<Rightarrow> client_nat_entry list \<Rightarrow> int \<Rightarrow> byte list \<Rightarrow> int" where
  "nat_acc bo es direction c =
     (ADD_CHECKSUM_32 0 (addr_at bo c 12) - ADD_CHECKSUM_32 0 (nat_src bo es direction c)) +
     (ADD_CHECKSUM_32 0 (addr_at bo c 16) - ADD_CHECKSUM_32 0 (nat_dst bo es direction c))"

definition nat_applies :: "byte_order \<Rightarrow> client_nat_entry list \<Rightarrow> int \<Rightarrow> byte list \<Rightarrow> bool" where
  "nat_applies bo es direction c =
     (translate direction (src_rules direction es) (addr_at bo c 12) \<noteq> None \<or>
      translate direction (dst_rules direction es) (addr_at bo c 16) \<noteq> None)"

definition nat_header :: "byte_order \<Rightarrow> client_nat_entry list \<Rightarrow> int \<Rightarrow> byte list \<Rightarrow> byte list" where
  "nat_header bo es direction c =
     adjusted bo (nat_acc bo es direction c) 10 (with_addrs bo c (nat_src bo es direction c) (nat_dst bo es direction c))"

lemma nat_packet_eq:
  "nat_packet bo es direction c =
     (if nat_applies bo es direction c
      then (case transport_checksum (nat_header bo es direction c) of
              None \<Rightarrow> nat_header bo es direction c
            | Some i \<Rightarrow> adjusted bo (nat_acc bo es direction c) i (nat_header bo es direction c))
      else c)"
  unfolding nat_packet_def nat_applies_def nat_header_def nat_acc_def nat_src_def nat_dst_def Let_def by auto

text \<open>The change of the sum over the words of both addresses is what the accumulator has.\<close>

lemma nat_acc_sum:
  assumes "20 \<le> length c"
  shows "(byte_factor bo * nat_acc bo es direction c) mod 65535 =
    (int (csum (take 4 (drop 12 c))) + int (csum (take 4 (drop 16 c))) -
     int (csum (net_bytes bo (nat_src bo es direction c))) - int (csum (net_bytes bo (nat_dst bo es direction c)))) mod 65535"
proof -
  let ?f = "byte_factor bo"
  have w: "(?f * ADD_CHECKSUM_32 0 v) mod 65535 = int (csum (net_bytes bo v)) mod 65535" for v
  proof -
    have "ADD_CHECKSUM_32 0 v mod 65535 = (?f * int (csum (net_bytes bo v))) mod 65535"
      using host_word32(1)[of "net_bytes bo v" bo] by simp
    then have "(?f * ADD_CHECKSUM_32 0 v) mod 65535 = (?f * (?f * int (csum (net_bytes bo v)))) mod 65535"
      by (metis mod_mult_right_eq)
    then show ?thesis by (simp only: byte_factor_square)
  qed
  have add: "(x + y) mod 65535 = (x' + y') mod 65535" if "x mod 65535 = x' mod 65535" "y mod 65535 = y' mod 65535" for x y x' y' :: int
    using that by (metis mod_add_eq)
  have sub: "(x - y) mod 65535 = (x' - y') mod 65535" if "x mod 65535 = x' mod 65535" "y mod 65535 = y' mod 65535" for x y x' y' :: int
    using that by (metis mod_diff_eq)
  have s: "net_bytes bo (addr_at bo c 12) = take 4 (drop 12 c)" "net_bytes bo (addr_at bo c 16) = take 4 (drop 16 c)"
    using assms by (simp_all add: addr_bytes)
  have "?f * nat_acc bo es direction c =
      (?f * ADD_CHECKSUM_32 0 (addr_at bo c 12) + ?f * ADD_CHECKSUM_32 0 (addr_at bo c 16)) -
      ?f * ADD_CHECKSUM_32 0 (nat_src bo es direction c) - ?f * ADD_CHECKSUM_32 0 (nat_dst bo es direction c)"
    by (simp add: nat_acc_def algebra_simps)
  then show ?thesis unfolding s[symmetric] by (simp only:) (intro sub add w)
qed

lemma nat_header_facts:
  assumes "20 \<le> length c"
  shows "length (nat_header bo es direction c) = length c" "drop 20 (nat_header bo es direction c) = drop 20 c"
    "take 4 (drop 12 (nat_header bo es direction c)) = net_bytes bo (nat_src bo es direction c)"
    "take 4 (drop 16 (nat_header bo es direction c)) = net_bytes bo (nat_dst bo es direction c)"
    "j < 10 \<Longrightarrow> nat_header bo es direction c ! j = c ! j"
proof -
  let ?c1 = "with_addrs bo c (nat_src bo es direction c) (nat_dst bo es direction c)"
  have l: "length ?c1 = length c" using assms by simp
  have a: "drop 12 (nat_header bo es direction c) = drop 12 ?c1"
    using assms l by (simp add: nat_header_def adjusted_def put_bytes_def)
  show "length (nat_header bo es direction c) = length c" using assms l by (simp add: nat_header_def adjusted_simps)
  show "take 4 (drop 12 (nat_header bo es direction c)) = net_bytes bo (nat_src bo es direction c)"
    unfolding a by (rule with_addrs_at(1)[OF assms])
  have b: "drop (k + 12) (nat_header bo es direction c) = drop (k + 12) ?c1" for k
    using a drop_drop by metis
  show "take 4 (drop 16 (nat_header bo es direction c)) = net_bytes bo (nat_dst bo es direction c)"
    using b[of 4] with_addrs_at(2)[OF assms, of bo] by simp
  show "drop 20 (nat_header bo es direction c) = drop 20 c" using b[of 8] assms by (simp add: with_addrs_def)
  show "j < 10 \<Longrightarrow> nat_header bo es direction c ! j = c ! j"
    using assms l by (simp add: nat_header_def adjusted_simps) (simp add: with_addrs_def nth_append)
qed

lemma put_bytes_take_before: "n \<le> i \<Longrightarrow> i + length bs \<le> length c \<Longrightarrow> take n (put_bytes i bs c) = take n c"
  by (simp add: put_bytes_def min_def)

lemma header_words:
  assumes "20 \<le> length c"
  shows "csum (take 20 c) = csum (take 12 c) + csum (take 4 (drop 12 c)) + csum (take 4 (drop 16 c))"
proof -
  have "take 20 c = take 12 c @ take 8 (drop 12 c)" using take_add[of 12 8 c] by simp
  moreover have "take 8 (drop 12 c) = take 4 (drop 12 c) @ take 4 (drop 16 c)" using take_add[of 4 4 "drop 12 c"] by simp
  ultimately show ?thesis using assms by (simp add: csum_append)
qed

lemma nat_header_sum:
  assumes "20 \<le> length c"
  shows "int (csum (take 20 (nat_header bo es direction c))) mod 65535 = int (csum (take 20 c)) mod 65535"
proof -
  define s' where "s' = nat_src bo es direction c"
  define d' where "d' = nat_dst bo es direction c"
  define acc where "acc = nat_acc bo es direction c"
  let ?c1 = "with_addrs bo c s' d'"
  have l: "length ?c1 = length c" using assms by simp
  have b: "- 262140 \<le> acc" "acc \<le> 262140" unfolding acc_def nat_acc_def by (rule acc_bounds)+
  have "take 20 (nat_header bo es direction c) = adjusted bo acc 10 (take 20 ?c1)"
    unfolding nat_header_def s'_def[symmetric] d'_def[symmetric] acc_def[symmetric] using assms l by (intro adjusted_take) simp_all
  moreover have "int (csum (adjusted bo acc 10 (take 20 ?c1))) mod 65535 = (int (csum (take 20 ?c1)) + byte_factor bo * acc) mod 65535"
    using assms l b by (intro adjusted_csum) simp_all
  moreover have "int (csum (take 20 ?c1)) = int (csum (take 12 c)) + int (csum (net_bytes bo s')) + int (csum (net_bytes bo d'))"
    using header_words[of ?c1] with_addrs_at(1,2)[OF assms, of bo s' d'] assms by (simp add: with_addrs_def)
  moreover have "(int (csum (take 12 c)) + int (csum (net_bytes bo s')) + int (csum (net_bytes bo d')) + byte_factor bo * acc) mod 65535 =
      int (csum (take 20 c)) mod 65535"
  proof -
    have "(byte_factor bo * acc + (int (csum (take 12 c)) + int (csum (net_bytes bo s')) + int (csum (net_bytes bo d')))) mod 65535 =
        (int (csum (take 4 (drop 12 c))) + int (csum (take 4 (drop 16 c))) - int (csum (net_bytes bo s')) - int (csum (net_bytes bo d')) +
         (int (csum (take 12 c)) + int (csum (net_bytes bo s')) + int (csum (net_bytes bo d')))) mod 65535"
      by (rule zero_mod_cong) (use nat_acc_sum[OF assms, of bo es direction] in \<open>simp add: acc_def s'_def d'_def\<close>)
    then show ?thesis using header_words[OF assms] by (simp add: algebra_simps)
  qed
  ultimately show ?thesis by simp
qed

lemma transport_checksum_range: "transport_checksum c = Some i \<Longrightarrow> 26 \<le> i \<and> i + 2 \<le> length c \<and> even i"
  by (auto simp: transport_checksum_def split: if_splits)

lemma nat_packet_header:
  assumes "20 \<le> length c"
  shows "length (nat_packet bo es direction c) = length c"
    "nat_applies bo es direction c \<Longrightarrow> take 20 (nat_packet bo es direction c) = take 20 (nat_header bo es direction c)"
    "\<not> nat_applies bo es direction c \<Longrightarrow> nat_packet bo es direction c = c"
proof -
  have l: "length (nat_header bo es direction c) = length c" using nat_header_facts[OF assms] by simp
  show "length (nat_packet bo es direction c) = length c"
    using l transport_checksum_range[of "nat_header bo es direction c"]
    by (auto simp: nat_packet_eq adjusted_simps split: option.splits)
  show "nat_applies bo es direction c \<Longrightarrow> take 20 (nat_packet bo es direction c) = take 20 (nat_header bo es direction c)"
    using l transport_checksum_range[of "nat_header bo es direction c"]
    by (auto simp: nat_packet_eq adjusted_def put_bytes_take_before split: option.splits)
  show "\<not> nat_applies bo es direction c \<Longrightarrow> nat_packet bo es direction c = c" by (simp add: nat_packet_eq)
qed

lemma addr_at_take: "addr_at bo (take 20 c) 12 = addr_at bo c 12" "addr_at bo (take 20 c) 16 = addr_at bo c 16"
  by (simp_all add: addr_at_def drop_take)

lemma transport_checksum_cong: "c' ! 9 = c ! 9 \<Longrightarrow> length c' = length c \<Longrightarrow> transport_checksum c' = transport_checksum c"
  by (simp add: transport_checksum_def)

lemma nat_packet_addrs:
  assumes "20 \<le> length c"
  shows "addr_at bo (nat_packet bo es direction c) 12 = nat_src bo es direction c"
    "addr_at bo (nat_packet bo es direction c) 16 = nat_dst bo es direction c"
proof -
  have h: "addr_at bo (nat_header bo es direction c) 12 = nat_src bo es direction c"
    "addr_at bo (nat_header bo es direction c) 16 = nat_dst bo es direction c"
    unfolding addr_at_def nat_header_facts(3,4)[OF assms] by simp_all
  have n: "addr_at bo c 12 = nat_src bo es direction c" "addr_at bo c 16 = nat_dst bo es direction c" if "\<not> nat_applies bo es direction c"
    using that by (simp_all add: nat_applies_def nat_src_def nat_dst_def rewritten_def)
  show "addr_at bo (nat_packet bo es direction c) 12 = nat_src bo es direction c"
    "addr_at bo (nat_packet bo es direction c) 16 = nat_dst bo es direction c"
    using h n nat_packet_header(2,3)[OF assms, of bo es direction] addr_at_take[of bo "nat_packet bo es direction c"]
      addr_at_take[of bo "nat_header bo es direction c"]
    by (cases "nat_applies bo es direction c"; metis)+
qed

lemma nat_packet_addr_bytes:
  assumes "20 \<le> length c" "nat_applies bo es direction c"
  shows "take 4 (drop 12 (nat_packet bo es direction c)) = take 4 (drop 12 (nat_header bo es direction c))"
    "take 4 (drop 16 (nat_packet bo es direction c)) = take 4 (drop 16 (nat_header bo es direction c))"
proof -
  have d: "take 4 (drop 12 x) = drop 12 (take 16 (take 20 x))" "take 4 (drop 16 x) = drop 16 (take 20 x)" for x :: "byte list"
    by (simp_all add: drop_take)
  show "take 4 (drop 12 (nat_packet bo es direction c)) = take 4 (drop 12 (nat_header bo es direction c))"
    "take 4 (drop 16 (nat_packet bo es direction c)) = take 4 (drop 16 (nat_header bo es direction c))"
    unfolding d nat_packet_header(2)[OF assms] by (rule refl)+
qed

lemma ones_full: "ones n = 65535 \<longleftrightarrow> n mod 65535 = 0 \<and> 0 < n"
proof
  assume o: "ones n = 65535"
  then show "n mod 65535 = 0 \<and> 0 < n" using ones_mod[of n] by (cases n) (simp_all add: ones_def)
next
  assume "n mod 65535 = 0 \<and> 0 < n"
  then show "ones n = 65535" by (intro ones_eqI[symmetric]) auto
qed

lemma take_two: "2 \<le> length h \<Longrightarrow> \<exists>b r. take 20 h = h ! 0 # b # r" for h :: "byte list"
  by (cases h rule: csum.cases) (simp_all add: take_Cons')

lemma nat_header_checksum:
  assumes "20 \<le> length c" "0 < unat (c ! 0)" "ones (csum (take 20 c)) = 65535"
  shows "ones (csum (take 20 (nat_packet bo es direction c))) = 65535"
proof (cases "nat_applies bo es direction c")
  case True
  let ?h = "nat_header bo es direction c"
  have p: "take 20 (nat_packet bo es direction c) = take 20 ?h" using nat_packet_header(2)[OF assms(1) True] .
  have "?h ! 0 = c ! 0" "length ?h = length c" using nat_header_facts[OF assms(1)] by simp_all
  then obtain b r where h: "take 20 ?h = c ! 0 # b # r"
    using take_two[of ?h] assms(1) by auto
  have "0 < csum (take 20 ?h)" unfolding h using assms(2) by simp
  moreover have "csum (take 20 ?h) mod 65535 = csum (take 20 c) mod 65535"
  proof -
    have "int (csum (take 20 ?h) mod 65535) = int (csum (take 20 c) mod 65535)"
      by (simp only: zmod_int of_nat_numeral nat_header_sum[OF assms(1)])
    then show ?thesis by (simp only: of_nat_eq_iff)
  qed
  ultimately show ?thesis using assms(3) unfolding ones_full p by simp
qed (simp add: nat_packet_eq assms(3))

lemma nat_transport_checksum:
  assumes "20 \<le> length c" "length c \<le> 65535" "transport_checksum c \<noteq> None" "0 < proto" "proto < 256"
    and "ip_checksum True (drop 20 c) (take 4 (drop 12 c)) (take 4 (drop 16 c)) proto = Some 0"
  shows "ip_checksum True (drop 20 (nat_packet bo es direction c)) (take 4 (drop 12 (nat_packet bo es direction c)))
    (take 4 (drop 16 (nat_packet bo es direction c))) proto = Some 0"
proof (cases "nat_applies bo es direction c")
  case True
  let ?h = "nat_header bo es direction c" and ?r = "nat_packet bo es direction c" and ?acc = "nat_acc bo es direction c"
  note hf = nat_header_facts(1-4)[OF assms(1), of bo es direction]
  have "transport_checksum ?h = transport_checksum c" by (rule transport_checksum_cong) (simp_all add: hf nat_header_facts(5)[OF assms(1)])
  then obtain i where i: "transport_checksum ?h = Some i" using assms(3) by auto
  then have ir: "26 \<le> i" "i + 2 \<le> length c" "even i" using transport_checksum_range[OF i] hf(1) by simp_all
  define k where "k = i - 20"
  have k: "i = 20 + k" "even k" "20 + k + 2 \<le> length c" using ir by (simp_all add: k_def)
  have r: "?r = adjusted bo ?acc (20 + k) ?h" using True i k by (simp add: nat_packet_eq)
  have rd: "drop 20 ?r = adjusted bo ?acc k (drop 20 c)" unfolding r using k hf(1,2) by (simp add: adjusted_drop)
  have t: "take 20 ?r = take 20 ?h" using nat_packet_header(2)[OF assms(1) True] .
  note a = nat_packet_addr_bytes[OF assms(1) True]
  have len: "length ?r = length c" using nat_packet_header(1)[OF assms(1)] .
  have b: "- 262140 \<le> ?acc" "?acc \<le> 262140" unfolding nat_acc_def by (rule acc_bounds)+
  define S where "S x t = int (csum t) + int (csum (take 4 (drop 12 x))) + int (csum (take 4 (drop 16 x))) + (int (length c) - 20 + proto)" for x t
  have z: "ip_checksum True t (take 4 (drop 12 x)) (take 4 (drop 16 x)) proto = Some 0 \<longleftrightarrow> S x t mod 65535 = 0"
    if "length x = length c" "length t = length c - 20" for x t
  proof -
    have l: "length t \<le> 65535" using that assms(2) by simp
    have m: "length t mod 65536 = length c - 20" using that assms(2) by simp
    have pm: "nat (proto mod 65536) = nat proto" using assms(4,5) by simp
    have p: "0 < pseudo_sum True (take 4 (drop 12 x)) (take 4 (drop 16 x)) (length t) proto"
      unfolding pseudo_sum_def Let_def pm using assms(4) by simp
    have "ip_checksum True t (take 4 (drop 12 x)) (take 4 (drop 16 x)) proto = Some 0 \<longleftrightarrow>
        (csum t + pseudo_sum True (take 4 (drop 12 x)) (take 4 (drop 16 x)) (length t) proto) mod 65535 = 0"
      using that assms(1) by (intro ip_checksum_zero[OF l _ _ p]) simp_all
    also have "\<dots> \<longleftrightarrow> int ((csum t + pseudo_sum True (take 4 (drop 12 x)) (take 4 (drop 16 x)) (length t) proto) mod 65535) = int 0"
      by (simp only: of_nat_eq_iff)
    also have "\<dots> \<longleftrightarrow> S x t mod 65535 = 0"
    proof -
      have "int (csum t + pseudo_sum True (take 4 (drop 12 x)) (take 4 (drop 16 x)) (length t) proto) = S x t"
        using assms(1,4) that m by (simp add: pseudo_sum_def Let_def pm S_def of_nat_diff)
      then show ?thesis by (simp only: zmod_int of_nat_numeral int_ops(1))
    qed
    finally show ?thesis .
  qed
  have "S ?r (drop 20 ?r) mod 65535 = S c (drop 20 c) mod 65535"
  proof -
    have e: "int (csum (drop 20 ?r)) mod 65535 = (int (csum (drop 20 c)) + byte_factor bo * ?acc) mod 65535"
      unfolding rd using k b by (intro adjusted_csum) simp_all
    let ?o = "int (csum (take 4 (drop 12 c))) + int (csum (take 4 (drop 16 c)))"
    let ?n = "int (csum (take 4 (drop 12 ?r))) + int (csum (take 4 (drop 16 ?r)))"
    have x: "(byte_factor bo * ?acc) mod 65535 = (?o - ?n) mod 65535"
      using nat_acc_sum[OF assms(1), of bo es direction] unfolding a hf(3,4) by (simp add: algebra_simps)
    have "(int (csum (drop 20 ?r)) + (?n + (int (length c) - 20 + proto))) mod 65535 =
        (int (csum (drop 20 c)) + byte_factor bo * ?acc + (?n + (int (length c) - 20 + proto))) mod 65535"
      by (rule zero_mod_cong[OF e])
    also have "\<dots> = (byte_factor bo * ?acc + (int (csum (drop 20 c)) + ?n + (int (length c) - 20 + proto))) mod 65535"
      by (simp add: algebra_simps)
    also have "\<dots> = ((?o - ?n) + (int (csum (drop 20 c)) + ?n + (int (length c) - 20 + proto))) mod 65535"
      by (rule zero_mod_cong[OF x])
    finally show ?thesis by (simp add: S_def algebra_simps)
  qed
  then show ?thesis using z[of c "drop 20 c"] z[of ?r "drop 20 ?r"] assms(6) len by simp
qed (use assms(6) in \<open>simp add: nat_packet_eq\<close>)

text \<open>Where the protocols put the checksum of the transport: behind an IP header of the length its first byte
  gives, and in the first fragment of a datagram only.\<close>

definition ip_header_len :: "byte list \<Rightarrow> nat" where
  "ip_header_len c = 4 * (unat (c ! 0) mod 16)"

definition ip_frag_offset :: "byte list \<Rightarrow> nat" where
  "ip_frag_offset c = (256 * unat (c ! 6) + unat (c ! 7)) mod 8192"

definition transport_field :: "byte list \<Rightarrow> nat option" where
  "transport_field c =
     (if ip_frag_offset c \<noteq> 0 then None
      else if c ! 9 = 6 \<and> ip_header_len c + 20 \<le> length c then Some (ip_header_len c + 16)
      else if c ! 9 = 17 \<and> ip_header_len c + 8 \<le> length c then Some (ip_header_len c + 6)
      else None)"

text \<open>The packets the code is right about: those that are neither TCP nor UDP, and TCP and UDP packets that
  are no later fragments and have no IP options.\<close>

definition nat_plain :: "byte list \<Rightarrow> bool" where
  "nat_plain c \<longleftrightarrow> (c ! 9 = 6 \<or> c ! 9 = 17 \<longrightarrow> ip_header_len c = 20 \<and> ip_frag_offset c = 0)"

lemma nat_plain_field: "nat_plain c \<Longrightarrow> transport_checksum c = transport_field c"
  by (auto simp: nat_plain_def transport_checksum_def transport_field_def)

lemma nat_packet_rest:
  assumes "20 \<le> length c" "j < length c" "j \<notin> {10..<20}" "\<forall>i. transport_checksum c = Some i \<longrightarrow> j \<notin> {i, i + 1}"
  shows "nat_packet bo es direction c ! j = c ! j"
proof -
  let ?h = "nat_header bo es direction c"
  note hf = nat_header_facts(1,2)[OF assms(1), of bo es direction]
  have t: "transport_checksum ?h = transport_checksum c"
    by (rule transport_checksum_cong) (simp_all add: hf nat_header_facts(5)[OF assms(1)])
  have h: "?h ! j = c ! j"
  proof (cases "j < 10")
    case False
    then obtain k where k: "j = 20 + k" using assms(3) by (metis atLeastLessThan_iff le_Suc_ex not_less)
    have "?h ! (20 + k) = drop 20 ?h ! k" "c ! (20 + k) = drop 20 c ! k" using assms(1) hf(1) by simp_all
    then show ?thesis unfolding k hf(2) by simp
  qed (rule nat_header_facts(5)[OF assms(1)])
  show ?thesis
  proof (cases "transport_checksum c")
    case None
    then show ?thesis using h t by (simp add: nat_packet_eq)
  next
    case (Some i)
    then have "i + 2 \<le> length ?h" using transport_checksum_range[of ?h i] t by simp
    moreover have "j < i \<or> i + 2 \<le> j" using assms(4) Some by auto
    ultimately show ?thesis using h t Some by (simp add: nat_packet_eq adjusted_simps)
  qed
qed

text \<open>C37: NAT never fails on a packet with a whole IP header: the first matching rule of each kind rewrites the
  source and the destination address.  If the packet is neither TCP nor UDP, or has an IP header
  without options and is no later fragment, every other byte is kept but the checksum of the IP
  header and the checksum of the TCP or UDP header, where the protocols have it.\<close>

theorem nat_rewrites_addresses:
  assumes "20 \<le> length c"
  shows "\<exists>c'. client_nat_transform bo rules (buf_of p c q) direction = Some (buf_of p c' q) \<and> length c' = length c \<and>
    addr_at bo c' 12 = rewritten direction (src_rules direction (nat_table rules)) False (addr_at bo c 12) \<and>
    addr_at bo c' 16 = rewritten direction (dst_rules direction (nat_table rules)) False (addr_at bo c 16) \<and>
    (nat_plain c \<longrightarrow> (\<forall>j. j < length c \<and> j \<notin> {10..<20} \<and> (\<forall>i. transport_field c = Some i \<longrightarrow> j \<notin> {i, i + 1}) \<longrightarrow>
       c' ! j = c ! j))"
  using client_nat_transform_of[OF assms] nat_packet_header(1)[OF assms] nat_packet_addrs[OF assms]
    nat_packet_rest[OF assms] nat_plain_field[of c]
  unfolding nat_src_def nat_dst_def by (intro exI[of _ "nat_packet bo (nat_table rules) direction c"]) simp

text \<open>The word at the place that the code takes for the checksum changes whenever the sum of the addresses
  does.\<close>

lemma nat_field_changes:
  assumes "20 \<le> length c" "transport_checksum c = Some i"
    and "client_nat_transform bo rules (buf_of p c q) direction = Some (buf_of p c' q)"
    and "csum (take 8 (drop 12 c')) mod 65535 \<noteq> csum (take 8 (drop 12 c)) mod 65535"
  shows "word_at c' i \<noteq> word_at c i"
proof
  assume z: "word_at c' i = word_at c i"
  let ?es = "nat_table rules"
  let ?h = "nat_header bo ?es direction c" and ?acc = "nat_acc bo ?es direction c"
  have eight: "csum (take 8 (drop 12 x)) = csum (take 4 (drop 12 x)) + csum (take 4 (drop 16 x))" if "20 \<le> length x" for x
  proof -
    have "take 8 (drop 12 x) = take 4 (drop 12 x) @ take 4 (drop 16 x)" using take_add[of 4 4 "drop 12 x"] by simp
    then show ?thesis using that by (simp add: csum_append)
  qed
  have "buf_of p (nat_packet bo ?es direction c) q = buf_of p c' q" using assms(3) client_nat_transform_of[OF assms(1)] by simp
  then have c': "nat_packet bo ?es direction c = c'" using nat_packet_header(1)[OF assms(1)] by (simp add: buf_of_def)
  have app: "nat_applies bo ?es direction c" using assms(4) c' nat_packet_header(3)[OF assms(1)] by metis
  note hf = nat_header_facts(1-4)[OF assms(1), of bo ?es direction]
  have t: "transport_checksum ?h = Some i"
    using assms(2) transport_checksum_cong[of ?h c] hf(1) nat_header_facts(5)[OF assms(1)] by simp
  have i: "20 \<le> i" "i + 2 \<le> length c" "even i" using transport_checksum_range[OF assms(2)] by simp_all
  have r: "c' = adjusted bo ?acc i ?h" using app t c' by (simp add: nat_packet_eq)
  define k where "k = take 2 (drop i ?h)"
  define n where "n = in_order bo (be16 (ADJUST_CHECKSUM ?acc (de16 (in_order bo k))))"
  have ln: "length n = 2" by (simp add: n_def)
  have "csum k = word_at c i"
  proof -
    obtain j where j: "i = 20 + j" using i(1) le_Suc_ex by blast
    have "drop i ?h = drop j (drop 20 ?h)" "drop i c = drop j (drop 20 c)" by (simp_all add: j add.commute)
    then have "take 2 (drop i ?h) = take 2 (drop i c)" using hf(2) by simp
    then show ?thesis using csum_word[of i c] i(2) by (simp add: k_def)
  qed
  moreover have "csum n = word_at c' i"
  proof -
    have "take 2 (drop i c') = n" using hf(1) i(2) ln unfolding r adjusted_def k_def[symmetric] n_def[symmetric] by (simp add: put_bytes_def)
    then show ?thesis using csum_word[of i c'] hf(1) i(2) r by (simp add: adjusted_simps)
  qed
  moreover have "csum (put_bytes i n ?h) + csum k = csum ?h + csum n"
    using csum_put_bytes[of i n ?h] hf(1) i ln by (simp add: k_def)
  ultimately have same: "csum c' = csum ?h" using z unfolding r adjusted_def k_def[symmetric] n_def[symmetric] by simp
  have b: "- 262140 \<le> ?acc" "?acc \<le> 262140" unfolding nat_acc_def by (rule acc_bounds)+
  have "int (csum c') mod 65535 = (int (csum ?h) + byte_factor bo * ?acc) mod 65535"
    unfolding r using hf(1) i b by (intro adjusted_csum) simp_all
  then have "(int (csum ?h) + byte_factor bo * ?acc) mod 65535 = (int (csum ?h) + 0) mod 65535" using same by simp
  then have d: "65535 dvd byte_factor bo * ?acc" by (simp only: mod_eq_dvd_iff) simp
  have e: "csum (take 8 (drop 12 c')) = csum (net_bytes bo (nat_src bo ?es direction c)) + csum (net_bytes bo (nat_dst bo ?es direction c))"
    using eight[of c'] nat_packet_addr_bytes[OF assms(1) app] hf(3,4) nat_packet_header(1)[OF assms(1), of bo ?es direction] assms(1)
    unfolding c' by simp
  have "(int (csum (take 8 (drop 12 c))) - int (csum (take 8 (drop 12 c')))) mod 65535 = (byte_factor bo * ?acc) mod 65535"
    unfolding nat_acc_sum[OF assms(1)] eight[OF assms(1)] e by (simp add: algebra_simps)
  then have "(int (csum (take 8 (drop 12 c))) - int (csum (take 8 (drop 12 c')))) mod 65535 = 0" using d by simp
  then have "int (csum (take 8 (drop 12 c))) mod 65535 = int (csum (take 8 (drop 12 c'))) mod 65535"
    by (simp only: mod_eq_dvd_iff dvd_eq_mod_eq_0)
  then have "int (csum (take 8 (drop 12 c)) mod 65535) = int (csum (take 8 (drop 12 c')) mod 65535)" by (simp only: zmod_int of_nat_numeral)
  then show False using assms(4) by (simp only: of_nat_eq_iff)
qed

text \<open>In a packet with IP options and in a later fragment that word is no checksum: the code overwrites
  other fields of the transport header, or data.\<close>

theorem nat_corrupts_options_and_fragments:
  assumes "20 \<le> length c" "transport_checksum c = Some i" "transport_field c \<noteq> Some i"
    and "client_nat_transform bo rules (buf_of p c q) direction = Some (buf_of p c' q)"
    and "csum (take 8 (drop 12 c')) mod 65535 \<noteq> csum (take 8 (drop 12 c)) mod 65535"
  shows "\<not> nat_plain c \<and> word_at c' i \<noteq> word_at c i"
  using nat_field_changes[OF assms(1,2,4,5)] nat_plain_field[of c] assms(2,3) by auto

text \<open>C36: NAT keeps valid checksums valid, in the byte order of either kind of host: that of an IPv4 header
  of 20 bytes, and that of the whole TCP segment or UDP datagram that follows those 20 bytes.  Packets
  with IP options and fragments are not among them: \<open>nat_corrupts_options_and_fragments\<close> shows what
  happens to those.\<close>

theorem nat_checksums_kept:
  assumes "20 \<le> length c" "length c \<le> 65535" "unat (c ! 0) div 16 = 4" "ones (csum (take 20 c)) = 65535"
    and "c ! 9 = 6 \<and> 40 \<le> length c \<or> c ! 9 = 17 \<and> 28 \<le> length c"
    and "ip_checksum True (drop 20 c) (take 4 (drop 12 c)) (take 4 (drop 16 c)) (uint (c ! 9)) = Some 0"
  shows "\<exists>c'. client_nat_transform bo rules (buf_of p c q) direction = Some (buf_of p c' q) \<and>
    ones (csum (take 20 c')) = 65535 \<and>
    ip_checksum True (drop 20 c') (take 4 (drop 12 c')) (take 4 (drop 16 c')) (uint (c ! 9)) = Some 0"
proof -
  have "0 < unat (c ! 0)" using assms(3) by (cases "unat (c ! 0) = 0") auto
  moreover have "transport_checksum c \<noteq> None" "0 < uint (c ! 9)" "uint (c ! 9) < 256"
    using assms(5) by (auto simp: transport_checksum_def)
  ultimately show ?thesis
    using client_nat_transform_of[OF assms(1)] nat_header_checksum[OF assms(1) _ assms(4)] nat_transport_checksum[OF assms(1,2) _ _ _ assms(6)]
    by (intro exI[of _ "nat_packet bo (nat_table rules) direction c"]) simp
qed

text \<open>C38: A UDP datagram without a checksum, whose field is zero, does not keep it: when a rule changes the sum
  of its addresses, the field becomes nonzero, so the receiver will verify a checksum that was never computed.\<close>

theorem nat_udp_without_checksum:
  assumes "28 \<le> length c" "c ! 9 = 17" "word_at c 26 = 0"
    and "client_nat_transform bo rules (buf_of p c q) direction = Some (buf_of p c' q)"
    and "csum (take 8 (drop 12 c')) mod 65535 \<noteq> csum (take 8 (drop 12 c)) mod 65535"
  shows "word_at c' 26 \<noteq> 0"
proof -
  have "transport_checksum c = Some 26" using assms(1,2) by (simp add: transport_checksum_def)
  from nat_field_changes[OF _ this assms(4,5)] show ?thesis using assms(1,3) by simp
qed

section \<open>Replies\<close>

text \<open>The translations of a table have disjoint images: their networks have no bits outside their mask, and
  no address belongs to two foreign networks.\<close>

definition nat_rule_wf :: "client_nat_entry \<Rightarrow> bool" where
  "nat_rule_wf e = (cn_network e AND NOT (cn_netmask e) = 0 \<and> cn_foreign_network e AND NOT (cn_netmask e) = 0)"

definition nat_disjoint :: "client_nat_entry \<Rightarrow> client_nat_entry \<Rightarrow> bool" where
  "nat_disjoint e e' = (cn_foreign_network e AND cn_netmask e' \<noteq> cn_foreign_network e' AND cn_netmask e)"

definition nat_rules_wf :: "client_nat_entry list \<Rightarrow> bool" where
  "nat_rules_wf es = (list_all nat_rule_wf es \<and> sorted_wrt nat_disjoint es)"

lemma masked_back:
  fixes w m a b :: u32
  assumes "w AND m = a" "b AND NOT m = 0"
  shows "((w AND NOT m) OR b) AND m = b" "(((w AND NOT m) OR b) AND NOT m) OR a = w"
proof -
  have b: "\<not> (bit b n \<and> \<not> bit m n)" if "n < 32" for n
  proof
    assume "bit b n \<and> \<not> bit m n"
    then have "bit (b AND NOT m) n" using that by (simp add: bit_simps)
    then show False using assms(2) by simp
  qed
  have a: "bit a n \<longleftrightarrow> bit w n \<and> bit m n" for n using assms(1) by (auto simp: bit_simps)
  show "((w AND NOT m) OR b) AND m = b" by (rule bit_word_eqI) (use b in \<open>auto simp: bit_simps\<close>)
  show "(((w AND NOT m) OR b) AND NOT m) OR a = w" by (rule bit_word_eqI) (use a b in \<open>auto simp: bit_simps\<close>)
qed

lemma translate_range:
  assumes "translate CN_OUTGOING es w = Some x" "list_all nat_rule_wf es"
  shows "\<exists>e\<in>set es. x AND cn_netmask e = cn_foreign_network e"
  using assms by (induction es) (auto simp: nat_from_def nat_to_def CN_OUTGOING_def nat_rule_wf_def masked_back split: if_splits)

lemma translate_reply:
  assumes "nat_rules_wf es" "translate CN_OUTGOING es w = Some x"
  shows "translate CN_INCOMING es x = Some w"
  using assms
proof (induction es)
  case (Cons e es)
  show ?case
  proof (cases "w AND cn_netmask e = cn_network e")
    case True
    have f: "cn_foreign_network e AND NOT (cn_netmask e) = 0" using Cons.prems(1) by (simp add: nat_rules_wf_def nat_rule_wf_def)
    show ?thesis using True Cons.prems(2) masked_back[OF True f]
      by (simp add: nat_from_def nat_to_def CN_OUTGOING_def CN_INCOMING_def)
  next
    case False
    then have t: "translate CN_OUTGOING es w = Some x" using Cons.prems(2) by (simp add: nat_from_def CN_OUTGOING_def)
    have wf: "list_all nat_rule_wf es" "nat_rules_wf es" using Cons.prems(1) by (simp_all add: nat_rules_wf_def)
    obtain e' where e': "e' \<in> set es" "x AND cn_netmask e' = cn_foreign_network e'" using translate_range[OF t wf(1)] by auto
    have d: "nat_disjoint e e'" using Cons.prems(1) e'(1) by (simp add: nat_rules_wf_def)
    have "(x AND cn_netmask e) AND cn_netmask e' = (x AND cn_netmask e') AND cn_netmask e" by (simp only: ac_simps)
    then have "x AND cn_netmask e \<noteq> cn_foreign_network e" using d unfolding nat_disjoint_def e'(2) by auto
    then show ?thesis using Cons.IH[OF wf(2) t] by (simp add: nat_from_def CN_INCOMING_def)
  qed
qed simp

text \<open>Replies find their way back: where the source of an outgoing packet was rewritten, a packet that comes
  in for the rewritten address is delivered to the original one, if the source rules are well-formed with
  disjoint foreign networks.\<close>

theorem nat_reply_returns:
  assumes "20 \<le> length c" "20 \<le> length r"
    and "\<forall>e\<in>set (nat_table rules). cn_type e = CN_SNAT \<or> cn_type e = CN_DNAT"
    and "nat_rules_wf (src_rules CN_OUTGOING (nat_table rules))"
    and "client_nat_transform bo rules (buf_of p c q) CN_OUTGOING = Some (buf_of p c' q)"
    and "translate CN_OUTGOING (src_rules CN_OUTGOING (nat_table rules)) (addr_at bo c 12) \<noteq> None"
    and "addr_at bo r 16 = addr_at bo c' 12"
    and "client_nat_transform bo rules (buf_of p r q) CN_INCOMING = Some (buf_of p r' q)"
  shows "addr_at bo r' 16 = addr_at bo c 12"
proof -
  let ?es = "nat_table rules"
  obtain x where x: "translate CN_OUTGOING (src_rules CN_OUTGOING ?es) (addr_at bo c 12) = Some x" using assms(6) by auto
  have "buf_of p (nat_packet bo ?es CN_OUTGOING c) q = buf_of p c' q" "buf_of p (nat_packet bo ?es CN_INCOMING r) q = buf_of p r' q"
    using assms(5,8) client_nat_transform_of assms(1,2) by simp_all
  then have e: "nat_packet bo ?es CN_OUTGOING c = c'" "nat_packet bo ?es CN_INCOMING r = r'"
    using nat_packet_header(1) assms(1,2) by (simp_all add: buf_of_def)
  have "addr_at bo c' 12 = x"
    using nat_packet_addrs(1)[OF assms(1), of bo ?es CN_OUTGOING] x unfolding e by (simp add: nat_src_def rewritten_def)
  moreover have "dst_rules CN_INCOMING ?es = src_rules CN_OUTGOING ?es"
    using assms(3) unfolding dst_rules_def src_rules_def
    by (intro filter_cong) (auto simp: CN_SNAT_def CN_DNAT_def CN_OUTGOING_def CN_INCOMING_def)
  moreover have "translate CN_INCOMING (src_rules CN_OUTGOING ?es) x = Some (addr_at bo c 12)"
    by (rule translate_reply[OF assms(4) x])
  ultimately show ?thesis
    using nat_packet_addrs(2)[OF assms(2), of bo ?es CN_INCOMING] assms(7) unfolding e by (simp add: nat_dst_def rewritten_def)
qed

section \<open>Packets\<close>

text \<open>A datagram from 10.8.0.2 to 10.8.0.1 without a checksum, and the answer to the translated address.\<close>

definition udp_packet :: "byte list" where
  "udp_packet = [69, 0, 0, 29, 0, 0, 64, 0, 64, 17, 38, 190, 10, 8, 0, 2, 10, 8, 0, 1, 0, 53, 0, 53, 0, 9, 0, 0, 7]"

definition udp_reply :: "byte list" where
  "udp_reply = [69, 0, 0, 29, 0, 0, 64, 0, 64, 17, 106, 32, 10, 8, 0, 1, 192, 168, 5, 2, 0, 53, 0, 53, 0, 9, 0, 0, 7]"

lemma example_addrs:
  "addr_at Little_Endian syn_packet 12 = 0x0200080A" "addr_at Little_Endian udp_packet 12 = 0x0200080A"
  "addr_at Little_Endian udp_packet 16 = 0x0100080A"
  by (simp_all add: addr_at_def syn_packet_def udp_packet_def in_order_def de32_def nat_be_def)

lemma example_rules:
  "src_rules CN_OUTGOING (nat_table nat_example) = [nat_example_rule]" "dst_rules CN_OUTGOING (nat_table nat_example) = []"
  "translate CN_OUTGOING [nat_example_rule] 0x0200080A = Some 0x0205A8C0"
  by (simp_all add: nat_example_table src_rules_def dst_rules_def nat_example_rule_def CN_SNAT_def CN_OUTGOING_def nat_from_def nat_to_def)

theorem nat_rewrites_addresses_witness:
  "\<exists>c'. client_nat_transform Little_Endian nat_example (buf_of [] syn_packet []) CN_OUTGOING = Some (buf_of [] c' []) \<and>
    addr_at Little_Endian c' 12 = 0x0205A8C0 \<and> c' ! 9 = 6 \<and> c' ! 40 = syn_packet ! 40"
proof -
  have l: "20 \<le> length syn_packet" "9 < length syn_packet" "40 < length syn_packet" "syn_packet ! 9 = 6" by (simp_all add: syn_packet_def)
  have f: "nat_plain syn_packet" "transport_field syn_packet = Some 36"
    by (simp_all add: nat_plain_def transport_field_def ip_header_len_def ip_frag_offset_def syn_packet_def)
  obtain c' where c': "client_nat_transform Little_Endian nat_example (buf_of [] syn_packet []) CN_OUTGOING = Some (buf_of [] c' [])"
    "addr_at Little_Endian c' 12 = rewritten CN_OUTGOING (src_rules CN_OUTGOING (nat_table nat_example)) False (addr_at Little_Endian syn_packet 12)"
    "\<forall>j. j < length syn_packet \<and> j \<notin> {10..<20} \<and> (\<forall>i. transport_field syn_packet = Some i \<longrightarrow> j \<notin> {i, i + 1}) \<longrightarrow> c' ! j = syn_packet ! j"
    using nat_rewrites_addresses[OF l(1), of Little_Endian nat_example "[]" "[]" CN_OUTGOING] f(1) by blast
  have "addr_at Little_Endian c' 12 = 0x0205A8C0" unfolding c'(2) example_rules example_addrs rewritten_def by simp
  moreover have "c' ! 9 = 6" "c' ! 40 = syn_packet ! 40" using c'(3)[rule_format, of 9] c'(3)[rule_format, of 40] l f(2) by simp_all
  ultimately show ?thesis using c'(1) by blast
qed

lemma syn_packet_header: "ones (csum (take 20 syn_packet)) = 65535" "unat (syn_packet ! 0) div 16 = 4"
  "take 4 (drop 12 syn_packet) = [10, 8, 0, 2]" "take 4 (drop 16 syn_packet) = [10, 8, 0, 1]" "syn_packet ! 9 = 6" "length syn_packet = 44"
  by (simp_all add: syn_packet_def ones_def)

theorem nat_checksums_kept_witness:
  "\<exists>c'. client_nat_transform Little_Endian nat_example (buf_of [] syn_packet []) CN_OUTGOING = Some (buf_of [] c' []) \<and>
    ones (csum (take 20 c')) = 65535 \<and>
    ip_checksum True (drop 20 c') (take 4 (drop 12 c')) (take 4 (drop 16 c')) (uint (syn_packet ! 9)) = Some 0"
  by (rule nat_checksums_kept) (simp_all add: syn_packet_header syn_packet_facts(4))

text \<open>The translation of an address of 10.8.0.0/24 by the example table changes the sum of the addresses.\<close>

lemma net_bytes_example:
  "net_bytes Little_Endian 0x0205A8C0 = [192, 168, 5, 2]" "net_bytes Little_Endian 0x0200080A = [10, 8, 0, 2]"
  "net_bytes Little_Endian 0x0100080A = [10, 8, 0, 1]"
proof -
  have "(0x0205A8C0 :: u32) = de32 [2, 5, 168, 192]" "(0x0200080A :: u32) = de32 [2, 0, 8, 10]" "(0x0100080A :: u32) = de32 [1, 0, 8, 10]"
    by (simp_all add: de32_def nat_be_def)
  then have "net_bytes Little_Endian 0x0205A8C0 = rev (be32 (de32 [2, 5, 168, 192]))"
    "net_bytes Little_Endian 0x0200080A = rev (be32 (de32 [2, 0, 8, 10]))"
    "net_bytes Little_Endian 0x0100080A = rev (be32 (de32 [1, 0, 8, 10]))" by (simp_all only: net_bytes_def in_order_def byte_order.case)
  moreover have "be32 (de32 [2, 5, 168, 192]) = [2, 5, 168, 192]" "be32 (de32 [2, 0, 8, 10]) = [2, 0, 8, 10]"
    "be32 (de32 [1, 0, 8, 10]) = [1, 0, 8, 10]"
    by (rule be32_de32, simp)+
  ultimately show "net_bytes Little_Endian 0x0205A8C0 = [192, 168, 5, 2]" "net_bytes Little_Endian 0x0200080A = [10, 8, 0, 2]"
    "net_bytes Little_Endian 0x0100080A = [10, 8, 0, 1]" by simp_all
qed

lemma addrs_bytes:
  assumes "20 \<le> length c" "addr_at bo c 12 = s" "addr_at bo c 16 = d"
  shows "take 8 (drop 12 c) = net_bytes bo s @ net_bytes bo d"
proof -
  have "take 8 (drop 12 c) = take 4 (drop 12 c) @ take 4 (drop 16 c)" using take_add[of 4 4 "drop 12 c"] by simp
  then show ?thesis using addr_bytes[of 12 c bo] addr_bytes[of 16 c bo] assms by simp
qed

lemma nat_example_sum:
  assumes "20 \<le> length c" "addr_at Little_Endian c 12 = 0x0200080A" "addr_at Little_Endian c 16 = 0x0100080A"
  shows "csum (take 8 (drop 12 (nat_packet Little_Endian (nat_table nat_example) CN_OUTGOING c))) mod 65535 \<noteq>
    csum (take 8 (drop 12 c)) mod 65535"
proof -
  let ?c = "nat_packet Little_Endian (nat_table nat_example) CN_OUTGOING c"
  have a: "addr_at Little_Endian ?c 12 = 0x0205A8C0" "addr_at Little_Endian ?c 16 = 0x0100080A"
    unfolding nat_packet_addrs[OF assms(1)] nat_src_def nat_dst_def example_rules assms(2,3) rewritten_def
    by (simp_all add: example_rules)
  have "20 \<le> length ?c" using nat_packet_header(1)[OF assms(1)] assms(1) by simp
  note b = addrs_bytes[OF this a]
  show ?thesis unfolding b addrs_bytes[OF assms] net_bytes_example by simp
qed

theorem nat_udp_without_checksum_witness:
  "\<exists>c'. client_nat_transform Little_Endian nat_example (buf_of [] udp_packet []) CN_OUTGOING = Some (buf_of [] c' []) \<and> word_at c' 26 \<noteq> 0"
proof -
  have l: "20 \<le> length udp_packet" "28 \<le> length udp_packet" "udp_packet ! 9 = 17" "word_at udp_packet 26 = 0"
    by (simp_all add: udp_packet_def word_at_def)
  note t = client_nat_transform_of[OF l(1), of Little_Endian nat_example "[]" "[]" CN_OUTGOING]
  show ?thesis using nat_udp_without_checksum[OF l(2,3,4) t nat_example_sum[OF l(1) example_addrs(2,3)]] t by blast
qed

text \<open>A later fragment of a datagram, whose bytes from 20 on are data: two of them are overwritten.\<close>

definition udp_fragment :: "byte list" where
  "udp_fragment = [69, 0, 0, 29, 0, 0, 0, 1, 64, 17, 102, 189, 10, 8, 0, 2, 10, 8, 0, 1, 1, 2, 3, 4, 5, 6, 7, 8, 9]"

theorem nat_corrupts_fragment:
  "\<exists>c'. client_nat_transform Little_Endian nat_example (buf_of [] udp_fragment []) CN_OUTGOING = Some (buf_of [] c' []) \<and>
    transport_field udp_fragment = None \<and> word_at udp_fragment 26 = 0x0708 \<and> word_at c' 26 \<noteq> 0x0708"
proof -
  have l: "20 \<le> length udp_fragment" "transport_checksum udp_fragment = Some 26" "transport_field udp_fragment = None"
    "word_at udp_fragment 26 = 0x0708"
    by (simp_all add: udp_fragment_def word_at_def transport_checksum_def transport_field_def ip_frag_offset_def)
  have a: "addr_at Little_Endian udp_fragment 12 = 0x0200080A" "addr_at Little_Endian udp_fragment 16 = 0x0100080A"
    by (simp_all add: addr_at_def udp_fragment_def in_order_def de32_def nat_be_def)
  note t = client_nat_transform_of[OF l(1), of Little_Endian nat_example "[]" "[]" CN_OUTGOING]
  have "transport_field udp_fragment \<noteq> Some 26" using l(3) by simp
  from nat_corrupts_options_and_fragments[OF l(1,2) this t nat_example_sum[OF l(1) a]] show ?thesis
    using t l(3,4) by metis
qed

theorem nat_reply_returns_witness:
  "\<exists>c' r'. client_nat_transform Little_Endian nat_example (buf_of [] udp_packet []) CN_OUTGOING = Some (buf_of [] c' []) \<and>
    client_nat_transform Little_Endian nat_example (buf_of [] udp_reply []) CN_INCOMING = Some (buf_of [] r' []) \<and>
    addr_at Little_Endian r' 16 = addr_at Little_Endian udp_packet 12"
proof -
  have l: "20 \<le> length udp_packet" "20 \<le> length udp_reply" by (simp_all add: udp_packet_def udp_reply_def)
  let ?c = "nat_packet Little_Endian (nat_table nat_example) CN_OUTGOING udp_packet"
  have a: "addr_at Little_Endian ?c 12 = 0x0205A8C0"
    unfolding nat_packet_addrs[OF l(1)] nat_src_def example_rules example_addrs rewritten_def by simp
  have r: "addr_at Little_Endian udp_reply 16 = 0x0205A8C0" by (simp add: addr_at_def udp_reply_def in_order_def de32_def nat_be_def)
  have wf: "nat_rules_wf (src_rules CN_OUTGOING (nat_table nat_example))"
    by (simp add: example_rules nat_rules_wf_def nat_rule_wf_def nat_example_rule_def)
  have ty: "\<forall>e\<in>set (nat_table nat_example). cn_type e = CN_SNAT \<or> cn_type e = CN_DNAT" by (simp add: nat_example_table nat_example_rule_def)
  note t = client_nat_transform_of[OF l(1), of Little_Endian nat_example "[]" "[]" CN_OUTGOING]
    client_nat_transform_of[OF l(2), of Little_Endian nat_example "[]" "[]" CN_INCOMING]
  have tr: "translate CN_OUTGOING (src_rules CN_OUTGOING (nat_table nat_example)) (addr_at Little_Endian udp_packet 12) \<noteq> None"
    unfolding example_rules example_addrs by simp
  have "addr_at Little_Endian (nat_packet Little_Endian (nat_table nat_example) CN_INCOMING udp_reply) 16 = addr_at Little_Endian udp_packet 12"
    by (rule nat_reply_returns[OF l ty wf t(1) tr _ t(2)]) (simp only: a r)
  then show ?thesis using t by blast
qed

end
