(* ===== verification/Ovpn_Tls_Crypt.thy ===== *)
theory Ovpn_Tls_Crypt
  imports Ovpn_Data_Channel Ovpn_Ack
begin

text \<open>
  Protection of the control channel with tls-crypt (\<open>tls_crypt.c\<close>): a packet carries its header, a packet
  id, a tag over header, id and plaintext, and the ciphertext whose IV is taken from the tag.  Cipher
  and hash are parameters.
\<close>

unbundle bit_operations_syntax

section \<open>The library\<close>

text \<open>A context is a name and a key.  A call gets the IV of the last \<open>cipher_ctx_reset\<close>, the data fed
  before and the data of the call; one that fails is \<open>None\<close> or \<open>False\<close>.\<close>

type_synonym lib_ctx = "string \<times> byte list"

record cipher_lib =
  cl_cipher_valid :: "string \<Rightarrow> bool"
  cl_md_valid :: "string \<Rightarrow> bool"
  cl_block_size :: "string \<Rightarrow> nat"
  cl_reset :: "lib_ctx \<Rightarrow> byte list \<Rightarrow> bool"
  cl_encrypt :: "lib_ctx \<Rightarrow> byte list \<Rightarrow> byte list \<Rightarrow> byte list \<Rightarrow> byte list option"
  cl_encrypt_final :: "lib_ctx \<Rightarrow> byte list \<Rightarrow> byte list \<Rightarrow> byte list option"
  cl_decrypt :: "lib_ctx \<Rightarrow> byte list \<Rightarrow> byte list \<Rightarrow> byte list option"
  cl_decrypt_final :: "lib_ctx \<Rightarrow> byte list \<Rightarrow> byte list \<Rightarrow> byte list option"
  cl_hmac_size :: "string \<Rightarrow> nat"
  cl_hmac :: "lib_ctx \<Rightarrow> byte list \<Rightarrow> byte list"

definition TLS_CRYPT_TAG_SIZE :: nat where "TLS_CRYPT_TAG_SIZE = 256 div 8"
definition TLS_CRYPT_PID_SIZE :: nat where "TLS_CRYPT_PID_SIZE = 4 + 4"
definition TLS_CRYPT_BLOCK_SIZE :: nat where "TLS_CRYPT_BLOCK_SIZE = 128 div 8"
definition TLS_CRYPT_OFF_PID :: nat where "TLS_CRYPT_OFF_PID = 1 + SID_SIZE"
definition TLS_CRYPT_OFF_TAG :: nat where "TLS_CRYPT_OFF_TAG = TLS_CRYPT_OFF_PID + TLS_CRYPT_PID_SIZE"
definition TLS_CRYPT_OFF_CT :: nat where "TLS_CRYPT_OFF_CT = TLS_CRYPT_OFF_TAG + TLS_CRYPT_TAG_SIZE"
definition CO_IGNORE_PACKET_ID :: u32 where "CO_IGNORE_PACKET_ID = push_bit 1 1"

definition tls_crypt_buf_overhead :: int where
  "tls_crypt_buf_overhead = packet_id_size True + int TLS_CRYPT_TAG_SIZE + int TLS_CRYPT_BLOCK_SIZE"

text \<open>A call that writes at the start of a buffer, followed by the asserted \<open>buf_inc_len\<close>.\<close>

definition buf_put_start :: "buffer \<Rightarrow> byte list \<Rightarrow> buffer option" where
  "buf_put_start b out = do {
     p \<leftarrow> buf_bptr b;
     b \<leftarrow> buf_store b p out;
     let (b, ok) = buf_inc_len b (int (length out));
     cassert ok;
     Some b }"

section \<open>Wrapping\<close>

definition tls_crypt_wrap ::
  "crypto_backend \<Rightarrow> cipher_lib \<Rightarrow> c_time \<Rightarrow> buffer \<Rightarrow> buffer \<Rightarrow> crypto_options \<Rightarrow> (crypto_options \<times> buffer \<times> bool) option" where
  "tls_crypt_wrap B L now src dst opt = do {
     let ctx = co_encrypt opt;
     cipher \<leftarrow> kc_cipher ctx;
     hmac \<leftarrow> kc_hmac ctx;
     cassert (packet_id_initialized (co_packet_id opt));
     cassert (cl_hmac_size L (fst hmac) = 256 div 8);
     (send, dst, ok) \<leftarrow> packet_id_write now (pi_send (co_packet_id opt)) dst True False;
     let opt = opt\<lparr>co_packet_id := (co_packet_id opt)\<lparr>pi_send := send\<rparr>\<rparr>;
     if \<not> ok then Some (opt, dst\<lparr>b_len := 0\<rparr>, False)
     else if \<not> buf_safe dst (to_size_t (buf_len src) + TLS_CRYPT_BLOCK_SIZE + TLS_CRYPT_TAG_SIZE)
     then Some (opt, dst\<lparr>b_len := 0\<rparr>, False)
     else do {
       ad \<leftarrow> buf_bytes dst;
       plain \<leftarrow> buf_bytes src;
       (dst, tag) \<leftarrow> (case buf_write_alloc dst TLS_CRYPT_TAG_SIZE of (d, None) \<Rightarrow> None | (d, Some p) \<Rightarrow> Some (d, p));
       dst \<leftarrow> buf_store dst tag (cl_hmac L hmac (ad @ plain));
       iv \<leftarrow> buf_load dst tag (int (cb_iv_size B (fst cipher)));
       cassert (cl_reset L cipher iv);
       out \<leftarrow> cl_encrypt L cipher iv [] plain;
       dst \<leftarrow> buf_put_end dst out;
       out \<leftarrow> cl_encrypt_final L cipher iv plain;
       dst \<leftarrow> buf_put_start dst out;
       Some (opt, dst, True) } }"

section \<open>Unwrapping\<close>

definition tls_crypt_check_pid ::
  "crypto_backend \<Rightarrow> c_time \<Rightarrow> buffer \<Rightarrow> crypto_options \<Rightarrow> (crypto_options \<times> bool) option" where
  "tls_crypt_check_pid B now src opt =
     (if co_flags opt AND CO_IGNORE_PACKET_ID = 0
      then do {
        let (tmp, ok) = buf_advance src (int TLS_CRYPT_OFF_PID);
        cassert ok;
        (pin, tmp, ok) \<leftarrow> packet_id_read tmp True;
        cassert ok;
        crypto_check_replay B now opt pin 0 }
      else Some (opt, True))"

definition tls_crypt_unwrap ::
  "crypto_backend \<Rightarrow> cipher_lib \<Rightarrow> c_time \<Rightarrow> buffer \<Rightarrow> buffer \<Rightarrow> crypto_options \<Rightarrow> (crypto_options \<times> buffer \<times> bool) option" where
  "tls_crypt_unwrap B L now src dst opt = do {
     let ctx = co_decrypt opt;
     cipher \<leftarrow> kc_cipher ctx;
     cassert (packet_id_initialized (co_packet_id opt) \<or> co_flags opt AND CO_IGNORE_PACKET_ID \<noteq> 0);
     if buf_len src < int TLS_CRYPT_OFF_CT then Some (opt, dst\<lparr>b_len := 0\<rparr>, False)
     else if \<not> buf_safe dst (to_size_t (buf_len src) - TLS_CRYPT_OFF_CT + TLS_CRYPT_BLOCK_SIZE)
     then Some (opt, dst\<lparr>b_len := 0\<rparr>, False)
     else do {
       p \<leftarrow> buf_bptr src;
       iv \<leftarrow> buf_load src (p + int TLS_CRYPT_OFF_TAG) (int (cb_iv_size B (fst cipher)));
       if \<not> cl_reset L cipher iv then Some (opt, dst\<lparr>b_len := 0\<rparr>, False)
       else do {
         ct \<leftarrow> buf_load src (p + int TLS_CRYPT_OFF_CT) (buf_len src - int TLS_CRYPT_OFF_CT);
         case cl_decrypt L cipher iv ct of
           None \<Rightarrow> Some (opt, dst\<lparr>b_len := 0\<rparr>, False)
         | Some out \<Rightarrow> do {
             dst \<leftarrow> buf_put_start dst out;
             case cl_decrypt_final L cipher iv ct of
               None \<Rightarrow> Some (opt, dst\<lparr>b_len := 0\<rparr>, False)
             | Some out \<Rightarrow> do {
                 dst \<leftarrow> buf_put_start dst out;
                 tag \<leftarrow> buf_load src (p + int TLS_CRYPT_OFF_TAG) (int TLS_CRYPT_TAG_SIZE);
                 ad \<leftarrow> buf_load src p (int TLS_CRYPT_OFF_TAG);
                 plain \<leftarrow> buf_bytes dst;
                 hmac \<leftarrow> kc_hmac ctx;
                 if tag \<noteq> cl_hmac L hmac (ad @ plain) then Some (opt, dst\<lparr>b_len := 0\<rparr>, False)
                 else do {
                   (opt, ok) \<leftarrow> tls_crypt_check_pid B now src opt;
                   Some (if ok then (opt, dst, True) else (opt, dst\<lparr>b_len := 0\<rparr>, False)) } } } } } }"

section \<open>What the library promises\<close>

text \<open>
  For a cipher in counter mode with IVs of \<open>n\<close> bytes and a hash of 32 bytes: output is as long as
  input, decryption is the inverse of encryption, and the final calls write nothing.
\<close>

definition wrap_laws :: "cipher_lib \<Rightarrow> nat \<Rightarrow> lib_ctx \<Rightarrow> lib_ctx \<Rightarrow> bool" where
  "wrap_laws L n cipher hmac \<longleftrightarrow> n \<le> 32 \<and> cl_hmac_size L (fst hmac) = 32 \<and> (\<forall>d. length (cl_hmac L hmac d) = 32) \<and>
     (\<forall>iv. length iv = n \<longrightarrow> cl_reset L cipher iv) \<and>
     (\<forall>iv d. length iv = n \<longrightarrow> (\<exists>e. cl_encrypt L cipher iv [] d = Some e \<and> length e = length d)) \<and>
     (\<forall>iv d e. length iv = n \<longrightarrow> cl_decrypt L cipher iv e = Some d \<longleftrightarrow> cl_encrypt L cipher iv [] d = Some e) \<and>
     (\<forall>iv d. cl_encrypt_final L cipher iv d = Some [] \<and> cl_decrypt_final L cipher iv d = Some [])"

lemma wrap_lawsD:
  assumes "wrap_laws L n cipher hmac"
  shows "n \<le> 32" "cl_hmac_size L (fst hmac) = 32" "length (cl_hmac L hmac d) = 32"
    "length iv = n \<Longrightarrow> cl_reset L cipher iv"
    "length iv = n \<Longrightarrow> \<exists>e. cl_encrypt L cipher iv [] d = Some e \<and> length e = length d"
    "length iv = n \<Longrightarrow> cl_decrypt L cipher iv e = Some d \<longleftrightarrow> cl_encrypt L cipher iv [] d = Some e"
    "cl_encrypt_final L cipher iv d = Some []" "cl_decrypt_final L cipher iv d = Some []"
  using assms by (auto simp: wrap_laws_def)

text \<open>The tag and the ciphertext of a plaintext under the authenticated bytes \<open>ad\<close>.\<close>

definition wrap_tag :: "cipher_lib \<Rightarrow> lib_ctx \<Rightarrow> byte list \<Rightarrow> byte list \<Rightarrow> byte list" where
  "wrap_tag L hmac ad plain = cl_hmac L hmac (ad @ plain)"

definition wrap_text :: "cipher_lib \<Rightarrow> nat \<Rightarrow> lib_ctx \<Rightarrow> byte list \<Rightarrow> byte list \<Rightarrow> byte list" where
  "wrap_text L n cipher tag plain = (case cl_encrypt L cipher (take n tag) [] plain of Some e \<Rightarrow> e | None \<Rightarrow> [])"

definition wrapped :: "cipher_lib \<Rightarrow> nat \<Rightarrow> lib_ctx \<Rightarrow> lib_ctx \<Rightarrow> byte list \<Rightarrow> byte list \<Rightarrow> byte list" where
  "wrapped L n cipher hmac ad plain =
     (let tag = wrap_tag L hmac ad plain in ad @ tag @ wrap_text L n cipher tag plain)"

definition pid_bytes :: "packet_id_send \<Rightarrow> byte list" where
  "pid_bytes s = be32 (ucast (ps_id s)) @ be32 (time_to_net (ps_time s))"

lemma pid_bytes_length [simp]: "length (pid_bytes s) = 8"
  by (simp add: pid_bytes_def)

lemma wrap_tag_length: "wrap_laws L n cipher hmac \<Longrightarrow> length (wrap_tag L hmac ad plain) = 32"
  by (simp add: wrap_tag_def wrap_lawsD(3))

lemma wrap_text_enc:
  assumes "wrap_laws L n cipher hmac" "length tag = 32"
  shows "cl_encrypt L cipher (take n tag) [] plain = Some (wrap_text L n cipher tag plain)"
    "length (wrap_text L n cipher tag plain) = length plain"
proof -
  have "length (take n tag) = n" using wrap_lawsD(1)[OF assms(1)] assms(2) by simp
  from wrap_lawsD(5)[OF assms(1) this, of plain] obtain e where e: "cl_encrypt L cipher (take n tag) [] plain = Some e" "length e = length plain"
    by blast
  then show "cl_encrypt L cipher (take n tag) [] plain = Some (wrap_text L n cipher tag plain)"
    "length (wrap_text L n cipher tag plain) = length plain" by (simp_all add: wrap_text_def)
qed

lemma buf_put_start_of:
  assumes "buf_fits p [] q" "length out \<le> length q"
  shows "buf_put_start (buf_of p [] q) out = Some (buf_of p out (drop (length out) q))"
proof -
  have st: "buf_store (buf_of p [] q) (int (length p)) out = Some (buf_of p [] (out @ drop (length out) q))"
    using assms(2) mem_write_mid[of "take (length out) q" out "int (length p)" p "drop (length out) q"]
    by (simp add: buf_store_def buf_of_def)
  have "buf_fits p [] (out @ drop (length out) q)" using assms by (simp add: buf_fits_def)
  then show ?thesis using st buf_inc_len_of[of p "[]" "out @ drop (length out) q" "int (length out)"]
    by (simp add: buf_put_start_def nat_add_distrib)
qed

lemma buf_put_start_nothing:
  assumes "buf_fits p c q"
  shows "buf_put_start (buf_of p c q) [] = Some (buf_of p c q)"
proof -
  have "buf_store (buf_of p c q) (int (length p)) [] = Some (buf_of p c q)"
    using mem_write_mid[of "[]" "[]" "int (length p)" p "c @ q"] by (simp add: buf_store_def buf_of_def)
  then show ?thesis using buf_inc_len_of[OF assms, of 0] by (simp add: buf_put_start_def)
qed

section \<open>One packet\<close>

lemma tls_crypt_wrap_of:
  assumes laws: "wrap_laws L (cb_iv_size B (fst cipher)) cipher hmac"
    and ctx: "kc_cipher (co_encrypt opt) = Some cipher" "kc_hmac (co_encrypt opt) = Some hmac"
    and ini: "packet_id_initialized (co_packet_id opt)"
    and upd: "packet_id_send_update now (pi_send (co_packet_id opt)) True = (send, True)"
    and fits: "buf_fits p hdr q" and room: "length plain + 56 \<le> length q" and src: "src = buf_of ps plain qs"
  shows "\<exists>q'. tls_crypt_wrap B L now src (buf_of p hdr q) opt =
    Some (opt\<lparr>co_packet_id := (co_packet_id opt)\<lparr>pi_send := send\<rparr>\<rparr>,
      buf_of p (wrapped L (cb_iv_size B (fst cipher)) cipher hmac (hdr @ pid_bytes send) plain) q', True)"
proof -
  let ?n = "cb_iv_size B (fst cipher)"
  define ad where "ad = hdr @ pid_bytes send"
  define q1 where "q1 = drop 8 q"
  define tag where "tag = wrap_tag L hmac ad plain"
  define ct where "ct = wrap_text L ?n cipher tag plain"
  have lt: "length tag = 32" unfolding tag_def by (rule wrap_tag_length[OF laws])
  have lc: "length ct = length plain" unfolding ct_def by (rule wrap_text_enc(2)[OF laws lt])
  have w: "packet_id_write now (pi_send (co_packet_id opt)) (buf_of p hdr q) True False = Some (send, buf_of p ad q1, True)"
    using packet_id_write_append[OF fits _ upd] room by (simp add: ad_def q1_def pid_bytes_def Let_def)
  have f1: "buf_fits p ad q1" using fits room by (auto simp: ad_def q1_def elim!: buf_fits_split)
  have lq: "length plain + 48 \<le> length q1" using room by (simp add: q1_def)
  have bs: "int (length plain) < BUF_SIZE_MAX" "int (length q1) < BUF_SIZE_MAX" using f1 lq by (auto simp: buf_fits_def)
  have sz: "to_size_t (int (length plain)) = length plain" using bs(1) by (intro to_size_t_nat) (simp add: BUF_SIZE_MAX_def)
  have safe: "buf_safe (buf_of p ad q1) (to_size_t (buf_len src) + TLS_CRYPT_BLOCK_SIZE + TLS_CRYPT_TAG_SIZE)"
    using lq bs(2) by (simp add: src sz buf_safe_of[OF f1] TLS_CRYPT_BLOCK_SIZE_def TLS_CRYPT_TAG_SIZE_def)
  have al: "buf_write_alloc (buf_of p ad q1) TLS_CRYPT_TAG_SIZE = (buf_of p (ad @ take 32 q1) (drop 32 q1), Some (int (length p) + int (length ad)))"
    using buf_write_alloc_of[OF f1, of 32] lq by (simp add: TLS_CRYPT_TAG_SIZE_def)
  have st: "buf_store (buf_of p (ad @ take 32 q1) (drop 32 q1)) (int (length p) + int (length ad)) tag = Some (buf_of p (ad @ tag) (drop 32 q1))"
    using buf_store_mid[of tag "take 32 q1" "ad @ take 32 q1" ad "[]" p "drop 32 q1"] lt lq by simp
  have iv: "buf_load (buf_of p (ad @ tag) (drop 32 q1)) (int (length p) + int (length ad)) (int ?n) = Some (take ?n tag)"
    using buf_load_content[of "int (length ad)" "int ?n" "ad @ tag" p "drop 32 q1"] lt wrap_lawsD(1)[OF laws] by simp
  have f2: "buf_fits p (ad @ tag) (drop 32 q1)" using f1 lt lq by (auto elim!: buf_fits_split)
  have put: "buf_put_end (buf_of p (ad @ tag) (drop 32 q1)) ct = Some (buf_of p ((ad @ tag) @ ct) (drop (length ct) (drop 32 q1)))"
    using buf_put_end_of[OF f2, of ct] lc lq by simp
  have f3: "buf_fits p ((ad @ tag) @ ct) (drop (length ct) (drop 32 q1))" using f2 lc lq by (auto elim!: buf_fits_split)
  have r: "cl_reset L cipher (take ?n tag)" using wrap_lawsD(1)[OF laws] lt by (intro wrap_lawsD(4)[OF laws]) simp
  have e: "cl_encrypt L cipher (take ?n tag) [] plain = Some ct" unfolding ct_def by (rule wrap_text_enc(1)[OF laws lt])
  have res: "wrapped L ?n cipher hmac ad plain = (ad @ tag) @ ct" by (simp add: wrapped_def Let_def tag_def[symmetric] ct_def[symmetric])
  show ?thesis unfolding ad_def[symmetric] res tls_crypt_wrap_def
    using ctx ini w safe al st iv r e put buf_put_start_nothing[OF f3] wrap_lawsD(2)[OF laws] wrap_lawsD(7)[OF laws]
    by (intro exI[of _ "drop (length ct) (drop 32 q1)"]) (simp add: src buf_bytes_of tag_def[unfolded wrap_tag_def, symmetric])
qed

text \<open>The packet id of a packet.\<close>

definition packet_pair :: "byte list \<Rightarrow> c_time \<times> nat" where
  "packet_pair s = (net_to_time (de32 (take 4 (drop 13 s))), unat (de32 (take 4 (drop 9 s))))"

definition newer :: "replay_spec \<Rightarrow> c_time \<times> nat \<Rightarrow> bool" where
  "newer S y \<longleftrightarrow> pid_less (fst S, fst (snd S)) y \<and> 0 < snd y"

text \<open>The receiver's record is in the relation \<open>window_rel\<close> with \<open>S\<close>.\<close>

definition wrap_rec :: "nat \<Rightarrow> crypto_options \<Rightarrow> replay_spec \<Rightarrow> bool" where
  "wrap_rec w opt S \<longleftrightarrow> window_rel w (pi_rec (co_packet_id opt)) S \<and> rec_params (pi_rec (co_packet_id opt)) \<and>
     co_flags opt AND CO_IGNORE_PACKET_ID = 0"

lemma replay_newer:
  assumes "window_rel w r S" "now > 1" "newer S (pid_pair pin)"
  shows "\<exists>r' X. replay_check now r pin = Some (r', True) \<and> window_rel w r' (fst (pid_pair pin), snd (pid_pair pin), X)"
proof -
  obtain T M X where S: "S = (T, M, X)" by (cases S) auto
  obtain r' X' ok where c: "replay_check now r pin = Some (r', ok)" "ok = spec_test w (T, M, X') (pid_pair pin)"
    "window_rel w r' (if ok then spec_add (T, M, X') (pid_pair pin) else (T, M, X'))"
    using replay_check_rel[OF assms(1)[unfolded S] assms(2), of pin] by blast
  have ok using c(2) assms(3) by (auto simp: S newer_def pid_less_def spec_test_def pid_pair_def)
  moreover have "\<exists>Z. spec_add (T, M, X') (pid_pair pin) = (fst (pid_pair pin), snd (pid_pair pin), Z)"
    using assms(3) by (auto simp: S newer_def pid_less_def spec_add_def pid_pair_def max_def)
  ultimately show ?thesis using c(1,3) by auto
qed

lemma check_pid_step:
  assumes rc: "wrap_rec w opt S" and now: "now > 1" and l: "17 \<le> length s"
  shows "\<exists>opt' ok S'. tls_crypt_check_pid B now (buf_of p s q) opt = Some (opt', ok) \<and> wrap_rec w opt' S' \<and>
    co_encrypt opt' = co_encrypt opt \<and> co_decrypt opt' = co_decrypt opt \<and>
    pi_send (co_packet_id opt') = pi_send (co_packet_id opt) \<and>
    (\<forall>y. \<not> spec_fresh S y \<longrightarrow> \<not> spec_fresh S' y) \<and> (ok \<longrightarrow> spec_fresh S (packet_pair s) \<and> \<not> spec_fresh S' (packet_pair s)) \<and>
    (newer S (packet_pair s) \<longrightarrow> ok \<and> (fst S', fst (snd S')) = packet_pair s)"
proof -
  define i where "i = de32 (take 4 (drop 9 s))"
  define t where "t = de32 (take 4 (drop 13 s))"
  define pin where "pin = \<lparr>pn_id = ucast i, pn_time = net_to_time t\<rparr>"
  have ui: "unat (ucast i :: u64) = unat i" using unat_less_2p[of i] by (simp add: unsigned_ucast_eq take_bit_nat_eq_self)
  have pp: "pid_pair pin = packet_pair s" by (simp add: pid_pair_def packet_pair_def pin_def ui[unfolded i_def] i_def t_def)
  have "drop 9 s = take 4 (drop 9 s) @ take 4 (drop 13 s) @ drop 17 s"
    using append_take_drop_id[of 4 "drop 9 s"] append_take_drop_id[of 4 "drop 13 s"] by simp
  then have d: "drop 9 s = be32 i @ be32 t @ drop 17 s" using l by (simp add: i_def t_def be32_de32)
  have rd: "packet_id_read (buf_of (p @ take 9 s) (drop 9 s) q) True = Some (pin, buf_of ((p @ take 9 s) @ be32 i @ be32 t) (drop 17 s) q, True)"
    using packet_id_read_wire[of "p @ take 9 s" i True t "drop 17 s" q] by (simp add: d pin_def)
  have adv: "buf_advance (buf_of p s q) 9 = (buf_of (p @ take 9 s) (drop 9 s) q, True)" using l by (simp add: buf_advance_of)
  have rec: "window_rel w (pi_rec (co_packet_id opt)) S" "rec_params (pi_rec (co_packet_id opt))" "co_flags opt AND CO_IGNORE_PACKET_ID = 0"
    using rc by (simp_all add: wrap_rec_def)
  obtain r ok S0 where r: "replay_check now (pi_rec (co_packet_id opt)) pin = Some (r, ok)" "window_rel w r S0" "rec_params r"
    "\<forall>y. \<not> spec_fresh S y \<longrightarrow> \<not> spec_fresh S0 y" "ok \<longrightarrow> spec_fresh S (packet_pair s) \<and> \<not> spec_fresh S0 (packet_pair s)"
    using replay_step[OF rec(1,2) now, of pin] unfolding pp by blast
  define opt1 where "opt1 = opt\<lparr>co_packet_id := (co_packet_id opt)\<lparr>pi_rec := r\<rparr>\<rparr>"
  define opt2 where "opt2 = (if ok then replay_persist opt1 else opt1)"
  have run: "tls_crypt_check_pid B now (buf_of p s q) opt = Some (opt2, ok)"
    using rec(3) adv rd r(1)
    by (simp add: tls_crypt_check_pid_def TLS_CRYPT_OFF_PID_def SID_SIZE_def crypto_check_replay_def replay_current_def opt1_def opt2_def)
  have same: "co_encrypt opt2 = co_encrypt opt" "co_decrypt opt2 = co_decrypt opt" "pi_send (co_packet_id opt2) = pi_send (co_packet_id opt)"
    "co_flags opt2 = co_flags opt" "pi_rec (co_packet_id opt2) = r" by (simp_all add: opt2_def opt1_def)
  show ?thesis
  proof (cases "newer S (packet_pair s)")
    case False
    then show ?thesis using run same r(2-5) rec(3)
      by (intro exI[of _ opt2] exI[of _ ok] exI[of _ S0]) (simp add: wrap_rec_def)
  next
    case True
    obtain r' X where n: "replay_check now (pi_rec (co_packet_id opt)) pin = Some (r', True)"
      "window_rel w r' (fst (packet_pair s), snd (packet_pair s), X)"
      using replay_newer[OF rec(1) now, of pin] True unfolding pp by blast
    have e: "r' = r" ok using n(1) r(1) by simp_all
    have "S0 = (fst (packet_pair s), snd (packet_pair s), snd (snd S0))"
      using r(2) n(2) unfolding e(1) by (cases S0) (auto simp: window_rel_def)
    then have "(fst S0, fst (snd S0)) = packet_pair s" by (metis fst_conv prod.collapse snd_conv)
    then show ?thesis using run same r(2-5) rec(3) e(2)
      by (intro exI[of _ opt2] exI[of _ ok] exI[of _ S0]) (simp add: wrap_rec_def)
  qed
qed

lemma wrapped_parts:
  assumes laws: "wrap_laws L n cipher hmac" and l: "17 \<le> length s" "49 \<le> length s"
  shows "s = wrapped L n cipher hmac (take 17 s) plain \<longleftrightarrow>
    take 32 (drop 17 s) = wrap_tag L hmac (take 17 s) plain \<and> cl_decrypt L cipher (take n (drop 17 s)) (drop 49 s) = Some plain"
proof -
  define tag where "tag = take 32 (drop 17 s)"
  have s: "s = take 17 s @ tag @ drop 49 s"
    using append_take_drop_id[of 17 s] append_take_drop_id[of 32 "drop 17 s"] by (simp add: tag_def)
  have lt: "length tag = 32" using l by (simp add: tag_def)
  have iv: "take n (drop 17 s) = take n tag" using wrap_lawsD(1)[OF laws] by (simp add: tag_def min_def)
  have ln: "length (take n tag) = n" using lt wrap_lawsD(1)[OF laws] by simp
  have w: "length (wrap_tag L hmac (take 17 s) plain) = 32" by (rule wrap_tag_length[OF laws])
  have eq: "cl_encrypt L cipher (take n tag) [] plain = Some (wrap_text L n cipher tag plain)" by (rule wrap_text_enc(1)[OF laws lt])
  have dec: "cl_decrypt L cipher (take n tag) (drop 49 s) = Some plain \<longleftrightarrow> wrap_text L n cipher tag plain = drop 49 s"
    unfolding wrap_lawsD(6)[OF laws ln] eq by simp
  have split: "s = wrapped L n cipher hmac (take 17 s) plain \<longleftrightarrow>
      tag = wrap_tag L hmac (take 17 s) plain \<and> drop 49 s = wrap_text L n cipher (wrap_tag L hmac (take 17 s) plain) plain"
  proof -
    have "s = wrapped L n cipher hmac (take 17 s) plain \<longleftrightarrow>
        take 17 s @ tag @ drop 49 s = take 17 s @ wrap_tag L hmac (take 17 s) plain @ wrap_text L n cipher (wrap_tag L hmac (take 17 s) plain) plain"
      unfolding wrapped_def Let_def using s by metis
    then show ?thesis using lt w by simp
  qed
  show ?thesis unfolding split tag_def[symmetric] iv dec by auto
qed

lemma tls_crypt_unwrap_step:
  assumes laws: "wrap_laws L (cb_iv_size B (fst cipher)) cipher hmac"
    and ctx: "kc_cipher (co_decrypt opt) = Some cipher" "kc_hmac (co_decrypt opt) = Some hmac"
    and rc: "wrap_rec w opt S" and now: "now > 1" and fits: "buf_fits pd [] qd" "buf_fits p s q"
  shows "\<exists>opt' d ok S'. tls_crypt_unwrap B L now (buf_of p s q) (buf_of pd [] qd) opt = Some (opt', d, ok) \<and> wrap_rec w opt' S' \<and>
    co_encrypt opt' = co_encrypt opt \<and> co_decrypt opt' = co_decrypt opt \<and>
    pi_send (co_packet_id opt') = pi_send (co_packet_id opt) \<and>
    (\<forall>y. \<not> spec_fresh S y \<longrightarrow> \<not> spec_fresh S' y) \<and>
    (if ok then (\<exists>plain q'. d = buf_of pd plain q' \<and> s = wrapped L (cb_iv_size B (fst cipher)) cipher hmac (take 17 s) plain) \<and>
       spec_fresh S (packet_pair s) \<and> \<not> spec_fresh S' (packet_pair s)
     else b_len d = 0) \<and>
    (\<forall>plain. s = wrapped L (cb_iv_size B (fst cipher)) cipher hmac (take 17 s) plain \<and> 17 \<le> length s \<and> length plain + 16 \<le> length qd \<and>
       newer S (packet_pair s) \<longrightarrow> ok \<and> (\<exists>q'. d = buf_of pd plain q') \<and> (fst S', fst (snd S')) = packet_pair s)"
proof -
  let ?n = "cb_iv_size B (fst cipher)"
  have rec: "window_rel w (pi_rec (co_packet_id opt)) S" using rc by (simp add: wrap_rec_def)
  have ini: "packet_id_initialized (co_packet_id opt)"
    using rec by (auto simp: packet_id_initialized_def window_rel_def rec_ok_def split: prod.splits)
  have clr: "(buf_of pd c q')\<lparr>b_len := 0\<rparr> = buf_of pd [] (c @ q')" for c q' by (simp add: buf_of_def)
  have long: "49 \<le> length (wrapped L ?n cipher hmac (take 17 s) plain)" "length (wrapped L ?n cipher hmac (take 17 s) plain) = 49 + length plain"
    if "17 \<le> length s" for plain
    using that wrap_tag_length[OF laws] wrap_text_enc(2)[OF laws wrap_tag_length[OF laws]] by (simp_all add: wrapped_def Let_def)
  have bs: "int (length s) < BUF_SIZE_MAX" "int (length qd) < BUF_SIZE_MAX" using fits by (auto simp: buf_fits_def)
  have sz: "to_size_t (int (length s)) = length s" using bs(1) by (intro to_size_t_nat) (simp add: BUF_SIZE_MAX_def)
  have safe: "buf_safe (buf_of pd [] qd) (length s - 49 + 16) \<longleftrightarrow> length s - 49 + 16 \<le> length qd"
    using buf_safe_of[OF fits(1), of "length s - 49 + 16"] bs(2) by auto
  define drop_it where "drop_it = (\<lambda>d. Some (opt, d\<lparr>b_len := 0\<rparr>, False))"
  have fail: ?thesis if r: "tls_crypt_unwrap B L now (buf_of p s q) (buf_of pd [] qd) opt = Some (opt, d, False)" "b_len d = 0"
    and no: "\<And>plain. s = wrapped L ?n cipher hmac (take 17 s) plain \<Longrightarrow> 17 \<le> length s \<Longrightarrow> length plain + 16 \<le> length qd \<Longrightarrow> False" for d
    using r rc no by (intro exI[of _ opt] exI[of _ d] exI[of _ False] exI[of _ S]) auto
  consider "length s < 49" | "49 \<le> length s" "\<not> length s - 49 + 16 \<le> length qd" | "49 \<le> length s" "length s - 49 + 16 \<le> length qd" by linarith
  then show ?thesis
  proof cases
    case 1
    then have "tls_crypt_unwrap B L now (buf_of p s q) (buf_of pd [] qd) opt = Some (opt, buf_of pd [] qd, False)"
      using ctx ini clr[of "[]" qd] by (simp add: tls_crypt_unwrap_def TLS_CRYPT_OFF_CT_def TLS_CRYPT_OFF_TAG_def TLS_CRYPT_OFF_PID_def
          TLS_CRYPT_PID_SIZE_def TLS_CRYPT_TAG_SIZE_def SID_SIZE_def)
    moreover have False if "s = wrapped L ?n cipher hmac (take 17 s) plain" "17 \<le> length s" for plain
      using 1 long(2)[OF that(2), of plain] that(1) by simp
    ultimately show ?thesis by (intro fail) (auto simp: buf_of_def)
  next
    case 2
    then have "tls_crypt_unwrap B L now (buf_of p s q) (buf_of pd [] qd) opt = Some (opt, buf_of pd [] qd, False)"
      using ctx ini clr[of "[]" qd] safe by (simp add: tls_crypt_unwrap_def TLS_CRYPT_OFF_CT_def TLS_CRYPT_OFF_TAG_def TLS_CRYPT_OFF_PID_def
          TLS_CRYPT_PID_SIZE_def TLS_CRYPT_TAG_SIZE_def SID_SIZE_def TLS_CRYPT_BLOCK_SIZE_def sz)
    moreover have False if "s = wrapped L ?n cipher hmac (take 17 s) plain" "17 \<le> length s" "length plain + 16 \<le> length qd" for plain
      using 2 long(2)[OF that(2), of plain] that(1,3) by simp
    ultimately show ?thesis by (intro fail) (auto simp: buf_of_def)
  next
    case 3
    define iv where "iv = take ?n (drop 17 s)"
    have liv: "length iv = ?n" using 3(1) wrap_lawsD(1)[OF laws] by (simp add: iv_def)
    have ld: "buf_load (buf_of p s q) (int (length p) + 17) (int ?n) = Some iv"
      "buf_load (buf_of p s q) (int (length p) + 49) (int (length s) - 49) = Some (drop 49 s)"
      "buf_load (buf_of p s q) (int (length p) + 17) 32 = Some (take 32 (drop 17 s))"
      "buf_load (buf_of p s q) (int (length p)) 17 = Some (take 17 s)"
      using buf_load_content[of 17 "int ?n" s p q] buf_load_content[of 49 "int (length s) - 49" s p q] buf_load_content[of 17 32 s p q]
        buf_load_content[of 0 17 s p q] 3(1) wrap_lawsD(1)[OF laws] by (simp_all add: iv_def nat_diff_distrib)
    have r: "cl_reset L cipher iv" by (rule wrap_lawsD(4)[OF laws liv])
    have head: "tls_crypt_unwrap B L now (buf_of p s q) (buf_of pd [] qd) opt = (case cl_decrypt L cipher iv (drop 49 s) of
        None \<Rightarrow> Some (opt, (buf_of pd [] qd)\<lparr>b_len := 0\<rparr>, False)
      | Some out \<Rightarrow> buf_put_start (buf_of pd [] qd) out \<bind> (\<lambda>dst. buf_put_start dst [] \<bind> (\<lambda>dst. buf_bytes dst \<bind> (\<lambda>plain.
          if take 32 (drop 17 s) \<noteq> cl_hmac L hmac (take 17 s @ plain) then Some (opt, dst\<lparr>b_len := 0\<rparr>, False)
          else tls_crypt_check_pid B now (buf_of p s q) opt \<bind> (\<lambda>(opt, ok).
            Some (if ok then (opt, dst, True) else (opt, dst\<lparr>b_len := 0\<rparr>, False)))))))"
      using ctx ini safe 3 ld r wrap_lawsD(8)[OF laws]
      unfolding tls_crypt_unwrap_def
      by (simp add: TLS_CRYPT_OFF_CT_def TLS_CRYPT_OFF_TAG_def TLS_CRYPT_OFF_PID_def
          TLS_CRYPT_PID_SIZE_def TLS_CRYPT_TAG_SIZE_def SID_SIZE_def TLS_CRYPT_BLOCK_SIZE_def sz split: option.splits)
    have parts: "s = wrapped L ?n cipher hmac (take 17 s) plain \<longleftrightarrow>
        take 32 (drop 17 s) = cl_hmac L hmac (take 17 s @ plain) \<and> cl_decrypt L cipher iv (drop 49 s) = Some plain" for plain
      using wrapped_parts[OF laws _ 3(1), of plain] 3(1) by (simp add: iv_def wrap_tag_def)
    show ?thesis
    proof (cases "cl_decrypt L cipher iv (drop 49 s)")
      case None
      then have "tls_crypt_unwrap B L now (buf_of p s q) (buf_of pd [] qd) opt = Some (opt, buf_of pd [] qd, False)"
        using head clr[of "[]" qd] by simp
      moreover have False if "s = wrapped L ?n cipher hmac (take 17 s) plain" for plain
        using parts[of plain, THEN iffD1, OF that] None by simp
      ultimately show ?thesis by (intro fail) (auto simp: buf_of_def)
    next
      case (Some out)
      have lo: "length out = length s - 49"
        using Some wrap_lawsD(5)[OF laws liv, of out] unfolding wrap_lawsD(6)[OF laws liv] by auto
      have f: "buf_fits pd out (drop (length out) qd)" using fits(1) 3(2) lo by (auto elim!: buf_fits_split)
      have put: "buf_put_start (buf_of pd [] qd) out = Some (buf_of pd out (drop (length out) qd))"
        using buf_put_start_of[OF fits(1), of out] 3(2) lo by simp
      have run: "tls_crypt_unwrap B L now (buf_of p s q) (buf_of pd [] qd) opt =
          (if take 32 (drop 17 s) \<noteq> cl_hmac L hmac (take 17 s @ out) then Some (opt, (buf_of pd out (drop (length out) qd))\<lparr>b_len := 0\<rparr>, False)
           else tls_crypt_check_pid B now (buf_of p s q) opt \<bind> (\<lambda>(opt, ok).
             Some (if ok then (opt, buf_of pd out (drop (length out) qd), True) else (opt, (buf_of pd out (drop (length out) qd))\<lparr>b_len := 0\<rparr>, False))))"
        unfolding head Some by (simp add: put buf_put_start_nothing[OF f] buf_bytes_of)
      show ?thesis
      proof (cases "take 32 (drop 17 s) = cl_hmac L hmac (take 17 s @ out)")
        case False
        then have "tls_crypt_unwrap B L now (buf_of p s q) (buf_of pd [] qd) opt = Some (opt, buf_of pd [] (out @ drop (length out) qd), False)"
          using run clr[of out "drop (length out) qd"] by simp
        moreover have False if "s = wrapped L ?n cipher hmac (take 17 s) plain" for plain
          using parts[of plain, THEN iffD1, OF that] False Some by simp
        ultimately show ?thesis by (intro fail) (auto simp: buf_of_def)
      next
        case True
        have s17: "17 \<le> length s" using 3(1) by simp
        obtain opt' ok S' where c: "tls_crypt_check_pid B now (buf_of p s q) opt = Some (opt', ok)" "wrap_rec w opt' S'"
          "co_encrypt opt' = co_encrypt opt" "co_decrypt opt' = co_decrypt opt" "pi_send (co_packet_id opt') = pi_send (co_packet_id opt)"
          "\<forall>y. \<not> spec_fresh S y \<longrightarrow> \<not> spec_fresh S' y" "ok \<longrightarrow> spec_fresh S (packet_pair s) \<and> \<not> spec_fresh S' (packet_pair s)"
          "newer S (packet_pair s) \<longrightarrow> ok \<and> (fst S', fst (snd S')) = packet_pair s"
          using check_pid_step[OF rc now s17, of B p q] by blast
        have w: "s = wrapped L ?n cipher hmac (take 17 s) out" unfolding parts using True Some by simp
        define d where "d = (if ok then buf_of pd out (drop (length out) qd) else (buf_of pd out (drop (length out) qd))\<lparr>b_len := 0\<rparr>)"
        have u: "tls_crypt_unwrap B L now (buf_of p s q) (buf_of pd [] qd) opt = Some (opt', d, ok)"
          unfolding run d_def using True c(1) by simp
        have only: "plain = out" if "s = wrapped L ?n cipher hmac (take 17 s) plain" for plain
          using parts[of plain, THEN iffD1, OF that] Some by simp
        have res: "if ok then (\<exists>plain q'. d = buf_of pd plain q' \<and> s = wrapped L ?n cipher hmac (take 17 s) plain) \<and>
            spec_fresh S (packet_pair s) \<and> \<not> spec_fresh S' (packet_pair s) else b_len d = 0"
        proof (cases ok)
          case True
          then have "d = buf_of pd out (drop (length out) qd)" by (simp add: d_def)
          then have "\<exists>plain q'. d = buf_of pd plain q' \<and> s = wrapped L ?n cipher hmac (take 17 s) plain" using w by blast
          then show ?thesis using True c(7) by simp
        qed (simp add: d_def)
        have live: "ok \<and> (\<exists>q'. d = buf_of pd plain q') \<and> (fst S', fst (snd S')) = packet_pair s"
          if "s = wrapped L ?n cipher hmac (take 17 s) plain \<and> 17 \<le> length s \<and> length plain + 16 \<le> length qd \<and> newer S (packet_pair s)" for plain
          using c(8) that only[of plain] by (auto simp: d_def)
        show ?thesis using u c(2-6) res live by blast
      qed
    qed
  qed
qed

section \<open>Runs\<close>

text \<open>A peer unwraps what arrives: the buffers with the packet and for the plaintext, at a time.  The
  packets it accepts are listed with what it delivers.\<close>

fun tls_crypt_run :: "crypto_backend \<Rightarrow> cipher_lib \<Rightarrow> (c_time \<times> buffer \<times> buffer) list \<Rightarrow> crypto_options \<Rightarrow>
    (crypto_options \<times> (byte list \<times> byte list) list) option" where
  "tls_crypt_run B L [] opt = Some (opt, [])"
| "tls_crypt_run B L ((now, src, dst) # xs) opt = do {
     (opt, d, ok) \<leftarrow> tls_crypt_unwrap B L now src dst opt;
     (opt, out) \<leftarrow> tls_crypt_run B L xs opt;
     Some (opt, (if ok then [(buf_content src, buf_content d)] else []) @ out) }"

definition arrival_ok :: "c_time \<times> buffer \<times> buffer \<Rightarrow> bool" where
  "arrival_ok x \<longleftrightarrow> (case x of (now, src, dst) \<Rightarrow> now > 1 \<and>
     (\<exists>p s q. src = buf_of p s q \<and> buf_fits p s q) \<and> (\<exists>pd qd. dst = buf_of pd [] qd \<and> buf_fits pd [] qd))"

definition peer_keys :: "crypto_backend \<Rightarrow> cipher_lib \<Rightarrow> lib_ctx \<Rightarrow> lib_ctx \<Rightarrow> crypto_options \<Rightarrow> bool" where
  "peer_keys B L cipher hmac opt \<longleftrightarrow> wrap_laws L (cb_iv_size B (fst cipher)) cipher hmac \<and>
     kc_cipher (co_decrypt opt) = Some cipher \<and> kc_hmac (co_decrypt opt) = Some hmac"

lemma tls_crypt_run_inv:
  assumes "peer_keys B L cipher hmac opt" "wrap_rec w opt S" "\<forall>x\<in>set xs. arrival_ok x" "\<forall>y\<in>seen. \<not> spec_fresh S y"
  shows "\<exists>opt' out. tls_crypt_run B L xs opt = Some (opt', out) \<and> distinct (map (\<lambda>x. packet_pair (fst x)) out) \<and>
    (\<forall>(s, plain)\<in>set out. packet_pair s \<notin> seen \<and> s = wrapped L (cb_iv_size B (fst cipher)) cipher hmac (take 17 s) plain \<and>
      (\<exists>(now, src, dst)\<in>set xs. s = buf_content src))"
  using assms
proof (induction xs arbitrary: opt S seen)
  case (Cons x xs)
  obtain now p s q pd qd where x: "x = (now, buf_of p s q, buf_of pd [] qd)" "now > 1" "buf_fits p s q" "buf_fits pd [] qd"
    using Cons.prems(3) by (auto simp: arrival_ok_def)
  have pk: "wrap_laws L (cb_iv_size B (fst cipher)) cipher hmac" "kc_cipher (co_decrypt opt) = Some cipher" "kc_hmac (co_decrypt opt) = Some hmac"
    using Cons.prems(1) by (simp_all add: peer_keys_def)
  obtain opt1 d ok S1 where u: "tls_crypt_unwrap B L now (buf_of p s q) (buf_of pd [] qd) opt = Some (opt1, d, ok)" "wrap_rec w opt1 S1"
    "co_decrypt opt1 = co_decrypt opt" "\<forall>y. \<not> spec_fresh S y \<longrightarrow> \<not> spec_fresh S1 y"
    "if ok then (\<exists>plain q'. d = buf_of pd plain q' \<and> s = wrapped L (cb_iv_size B (fst cipher)) cipher hmac (take 17 s) plain) \<and>
       spec_fresh S (packet_pair s) \<and> \<not> spec_fresh S1 (packet_pair s) else b_len d = 0"
    using tls_crypt_unwrap_step[OF pk Cons.prems(2) x(2,4,3)] by blast
  have pk1: "peer_keys B L cipher hmac opt1" using pk u(3) by (simp add: peer_keys_def)
  define seen1 where "seen1 = (if ok then insert (packet_pair s) seen else seen)"
  have s1: "\<forall>y\<in>seen1. \<not> spec_fresh S1 y" using u(4,5) Cons.prems(4) by (auto simp: seen1_def)
  have rest: "\<forall>x\<in>set xs. arrival_ok x" using Cons.prems(3) by simp
  obtain opt' out where r: "tls_crypt_run B L xs opt1 = Some (opt', out)" "distinct (map (\<lambda>x. packet_pair (fst x)) out)"
    "\<forall>(s, plain)\<in>set out. packet_pair s \<notin> seen1 \<and> s = wrapped L (cb_iv_size B (fst cipher)) cipher hmac (take 17 s) plain \<and>
      (\<exists>(now, src, dst)\<in>set xs. s = buf_content src)"
    using Cons.IH[OF pk1 u(2) rest s1] by blast
  show ?case
  proof (cases ok)
    case True
    obtain plain q' where d: "d = buf_of pd plain q'" "s = wrapped L (cb_iv_size B (fst cipher)) cipher hmac (take 17 s) plain"
      "packet_pair s \<notin> seen" using u(5) True Cons.prems(4) by auto
    have n: "packet_pair s \<notin> (\<lambda>x. packet_pair (fst x)) ` set out" using r(3) True by (auto simp: seen1_def)
    have run: "tls_crypt_run B L (x # xs) opt = Some (opt', (s, plain) # out)" using u(1) r(1) True d(1) by (simp add: x(1))
    have "\<forall>(s, plain)\<in>set out. packet_pair s \<notin> seen \<and> s = wrapped L (cb_iv_size B (fst cipher)) cipher hmac (take 17 s) plain \<and>
        (\<exists>(now, src, dst)\<in>set (x # xs). s = buf_content src)" using r(3) True by (fastforce simp: seen1_def)
    moreover have "\<exists>(now, src, dst)\<in>set (x # xs). s = buf_content src" by (simp add: x(1))
    ultimately show ?thesis using d(2,3) n r(2) unfolding run by simp
  next
    case False
    have run: "tls_crypt_run B L (x # xs) opt = Some (opt', out)" using u(1) r(1) False by (simp add: x(1))
    have "\<forall>(s, plain)\<in>set out. packet_pair s \<notin> seen \<and> s = wrapped L (cb_iv_size B (fst cipher)) cipher hmac (take 17 s) plain \<and>
        (\<exists>(now, src, dst)\<in>set (x # xs). s = buf_content src)" using r(3) False by (fastforce simp: seen1_def)
    then show ?thesis using r(2) unfolding run by blast
  qed
qed simp

text \<open>A peer wraps messages, each behind the header in its buffer, at a time.\<close>

fun tls_crypt_wrap_run :: "crypto_backend \<Rightarrow> cipher_lib \<Rightarrow> (c_time \<times> buffer \<times> buffer) list \<Rightarrow> crypto_options \<Rightarrow>
    (crypto_options \<times> (byte list \<times> byte list) list) option" where
  "tls_crypt_wrap_run B L [] opt = Some (opt, [])"
| "tls_crypt_wrap_run B L ((now, src, dst) # xs) opt = do {
     (opt, d, ok) \<leftarrow> tls_crypt_wrap B L now src dst opt;
     (opt, out) \<leftarrow> tls_crypt_wrap_run B L xs opt;
     Some (opt, (if ok then [(buf_content d, buf_content src)] else []) @ out) }"

definition message_ok :: "c_time \<times> buffer \<times> buffer \<Rightarrow> bool" where
  "message_ok x \<longleftrightarrow> (case x of (now, src, dst) \<Rightarrow> 0 < now \<and> now < 2 ^ 32 \<and>
     (\<exists>ps plain qs p hdr q. src = buf_of ps plain qs \<and> dst = buf_of p hdr q \<and> buf_fits p hdr q \<and> length hdr = 9 \<and>
       length plain + 56 \<le> length q))"

definition sender_keys :: "crypto_backend \<Rightarrow> cipher_lib \<Rightarrow> lib_ctx \<Rightarrow> lib_ctx \<Rightarrow> crypto_options \<Rightarrow> bool" where
  "sender_keys B L cipher hmac opt \<longleftrightarrow> wrap_laws L (cb_iv_size B (fst cipher)) cipher hmac \<and>
     kc_cipher (co_encrypt opt) = Some cipher \<and> kc_hmac (co_encrypt opt) = Some hmac \<and> packet_id_initialized (co_packet_id opt)"

definition sender_ok :: "packet_id_send \<Rightarrow> bool" where
  "sender_ok p \<longleftrightarrow> send_ok p \<and> ps_time p < 2 ^ 32"

text \<open>What arrives are the packets in their order, with room for the plaintexts.\<close>

definition arrive_in_order :: "(byte list \<times> byte list) list \<Rightarrow> (c_time \<times> buffer \<times> buffer) list \<Rightarrow> bool" where
  "arrive_in_order = list_all2 (\<lambda>(s, plain) (now, src, dst). arrival_ok (now, src, dst) \<and> buf_content src = s \<and>
     length plain + 16 \<le> length (buf_tail dst))"

lemma wrap_update:
  assumes "sender_ok p" "0 < now" "now < 2 ^ 32" "packet_id_send_update now p True = (p', ok)"
  shows "sender_ok p'" "ok \<Longrightarrow> pid_less (ps_time p, unat (ps_id p)) (ps_time p', unat (ps_id p'))" "ok \<Longrightarrow> 0 < unat (ps_id p')"
    "\<not> pid_less (ps_time p', unat (ps_id p')) (ps_time p, unat (ps_id p))" "0 \<le> ps_time p'"
proof -
  have u: "send_ok p'" "if ok then pid_less (ps_time p, unat (ps_id p)) (ps_time p', unat (ps_id p')) \<and> 0 < unat (ps_id p')
      else \<not> pid_less (ps_time p', unat (ps_id p')) (ps_time p, unat (ps_id p))"
    using send_update_ok[of p now True, unfolded assms(4) fst_conv snd_conv] assms by (simp_all add: sender_ok_def)
  have "ps_time p' \<in> {ps_time p, now}"
    using assms(4) by (auto simp: packet_id_send_update_def Let_def split: if_splits)
  then show "sender_ok p'" using u(1) assms by (auto simp: sender_ok_def)
  show "ok \<Longrightarrow> pid_less (ps_time p, unat (ps_id p)) (ps_time p', unat (ps_id p'))" "ok \<Longrightarrow> 0 < unat (ps_id p')" using u(2) by simp_all
  show "\<not> pid_less (ps_time p', unat (ps_id p')) (ps_time p, unat (ps_id p))" using u(2) by (cases ok) (auto simp: pid_less_def)
  show "0 \<le> ps_time p'" using u(1) by (simp add: send_ok_def)
qed

lemma wrapped_pair:
  assumes "length hdr = 9" "sender_ok p" "0 \<le> ps_time p"
  shows "packet_pair (wrapped L n cipher hmac (hdr @ pid_bytes p) plain) = (ps_time p, unat (ps_id p))"
    "take 17 (wrapped L n cipher hmac (hdr @ pid_bytes p) plain) = hdr @ pid_bytes p"
proof -
  have i: "unat (ps_id p) < 2 ^ 32" using assms(2) by (simp add: sender_ok_def send_ok_def)
  then have u: "unat (ucast (ps_id p) :: u32) = unat (ps_id p)" by (simp add: unsigned_ucast_eq take_bit_nat_eq_self)
  show "packet_pair (wrapped L n cipher hmac (hdr @ pid_bytes p) plain) = (ps_time p, unat (ps_id p))"
    using assms u net_to_time_to_net[of "ps_time p"]
    by (simp add: packet_pair_def wrapped_def Let_def pid_bytes_def sender_ok_def)
  show "take 17 (wrapped L n cipher hmac (hdr @ pid_bytes p) plain) = hdr @ pid_bytes p"
    using assms(1) by (simp add: wrapped_def Let_def)
qed

lemma tls_crypt_delivers_inv:
  assumes "sender_keys B L cipher hmac opt" "peer_keys B L cipher hmac opt'" "wrap_rec w opt' S"
    and "sender_ok (pi_send (co_packet_id opt))"
    and "\<not> pid_less (ps_time (pi_send (co_packet_id opt)), unat (ps_id (pi_send (co_packet_id opt)))) (fst S, fst (snd S))"
    and "\<forall>x\<in>set xs. message_ok x" "tls_crypt_wrap_run B L xs opt = Some (opt1, out)" "arrive_in_order out ys"
  shows "\<exists>opt2. tls_crypt_run B L ys opt' = Some (opt2, out)"
  using assms
proof (induction xs arbitrary: opt opt' S out ys)
  case Nil
  then show ?case by (auto simp: arrive_in_order_def)
next
  case (Cons x xs)
  let ?n = "cb_iv_size B (fst cipher)"
  obtain now ps plain qs p hdr q where x: "x = (now, buf_of ps plain qs, buf_of p hdr q)" "0 < now" "now < 2 ^ 32" "buf_fits p hdr q"
    "length hdr = 9" "length plain + 56 \<le> length q"
    using Cons.prems(6) by (auto simp: message_ok_def)
  have sk: "wrap_laws L ?n cipher hmac" "kc_cipher (co_encrypt opt) = Some cipher" "kc_hmac (co_encrypt opt) = Some hmac"
    "packet_id_initialized (co_packet_id opt)" using Cons.prems(1) by (simp_all add: sender_keys_def)
  have pk: "wrap_laws L ?n cipher hmac" "kc_cipher (co_decrypt opt') = Some cipher" "kc_hmac (co_decrypt opt') = Some hmac"
    using Cons.prems(2) by (simp_all add: peer_keys_def)
  obtain send ok where upd: "packet_id_send_update now (pi_send (co_packet_id opt)) True = (send, ok)" by fastforce
  note wu = wrap_update[OF Cons.prems(4) x(2,3) upd]
  define opt0 where "opt0 = opt\<lparr>co_packet_id := (co_packet_id opt)\<lparr>pi_send := send\<rparr>\<rparr>"
  have keys0: "sender_keys B L cipher hmac opt0" using Cons.prems(1) by (simp add: sender_keys_def opt0_def packet_id_initialized_def)
  have send0: "pi_send (co_packet_id opt0) = send" by (simp add: opt0_def)
  have later: "\<not> pid_less (ps_time send, unat (ps_id send)) (fst S, fst (snd S))"
    using Cons.prems(5) wu(4) by (auto simp: pid_less_def)
  show ?case
  proof (cases ok)
    case False
    have "packet_id_write now (pi_send (co_packet_id opt)) (buf_of p hdr q) True False = Some (send, buf_of p hdr q, False)"
      using upd False by (simp add: packet_id_write_def)
    then have "tls_crypt_wrap B L now (buf_of ps plain qs) (buf_of p hdr q) opt = Some (opt0, (buf_of p hdr q)\<lparr>b_len := 0\<rparr>, False)"
      using sk wrap_lawsD(2)[OF sk(1)] by (simp add: tls_crypt_wrap_def opt0_def)
    then have "tls_crypt_wrap_run B L xs opt0 = Some (opt1, out)" using Cons.prems(7) by (simp add: x(1) bind_eq_Some_iff)
    then show ?thesis using Cons.IH[OF keys0 Cons.prems(2,3) _ _ _ _ Cons.prems(8)] wu(1) later Cons.prems(6) by (simp add: send0)
  next
    case True
    define s where "s = wrapped L ?n cipher hmac (hdr @ pid_bytes send) plain"
    have upd': "packet_id_send_update now (pi_send (co_packet_id opt)) True = (send, True)" using upd True by simp
    obtain q' where w: "tls_crypt_wrap B L now (buf_of ps plain qs) (buf_of p hdr q) opt = Some (opt0, buf_of p s q', True)"
      using tls_crypt_wrap_of[OF sk upd' x(4,6) refl, of ps qs] unfolding opt0_def s_def by blast
    obtain out' where o: "tls_crypt_wrap_run B L xs opt0 = Some (opt1, out')" "out = (s, plain) # out'"
      using Cons.prems(7) w by (auto simp: x(1) bind_eq_Some_iff split: prod.splits)
    obtain now' src' dst' ys' where ys: "ys = (now', src', dst') # ys'" "arrival_ok (now', src', dst')" "buf_content src' = s"
      "length plain + 16 \<le> length (buf_tail dst')" "arrive_in_order out' ys'"
      using Cons.prems(8) unfolding o(2) arrive_in_order_def by (auto simp: list_all2_Cons1)
    obtain pr qr pd qd where b: "src' = buf_of pr s qr" "buf_fits pr s qr" "dst' = buf_of pd [] qd" "buf_fits pd [] qd" "now' > 1"
      using ys(2,3) by (auto simp: arrival_ok_def)
    have pair: "packet_pair s = (ps_time send, unat (ps_id send))" "take 17 s = hdr @ pid_bytes send"
      using wrapped_pair[OF x(5) wu(1,5)] by (simp_all add: s_def)
    have ws: "s = wrapped L ?n cipher hmac (take 17 s) plain" unfolding pair(2) by (rule s_def)
    have nw: "newer S (packet_pair s)"
      unfolding pair newer_def using wu(2)[OF True] wu(3)[OF True] Cons.prems(5) by (auto simp: pid_less_def)
    have l17: "17 \<le> length s" using arg_cong[OF pair(2), of length] x(5) by simp
    have room: "length plain + 16 \<le> length qd" using ys(4) b(3) by simp
    obtain opt2 d okr S' where u: "tls_crypt_unwrap B L now' (buf_of pr s qr) (buf_of pd [] qd) opt' = Some (opt2, d, okr)" "wrap_rec w opt2 S'"
      "co_decrypt opt2 = co_decrypt opt'"
      "\<forall>plain. s = wrapped L ?n cipher hmac (take 17 s) plain \<and> 17 \<le> length s \<and> length plain + 16 \<le> length qd \<and>
         newer S (packet_pair s) \<longrightarrow> okr \<and> (\<exists>q'. d = buf_of pd plain q') \<and> (fst S', fst (snd S')) = packet_pair s"
      using tls_crypt_unwrap_step[OF pk Cons.prems(3) b(5,4,2)] by blast
    obtain q2 where d: okr "d = buf_of pd plain q2" "(fst S', fst (snd S')) = packet_pair s"
      using u(4)[rule_format, of plain] ws l17 room nw by blast
    have keys2: "peer_keys B L cipher hmac opt2" using pk u(3) by (simp add: peer_keys_def)
    have nl: "\<not> pid_less (ps_time send, unat (ps_id send)) (fst S', fst (snd S'))" unfolding d(3) pair(1) by (simp add: pid_less_def)
    obtain opt3 where "tls_crypt_run B L ys' opt2 = Some (opt3, out')"
      using Cons.IH[OF keys0 keys2 u(2) _ _ _ o(1) ys(5)] wu(1) nl Cons.prems(6) by (auto simp: send0)
    then show ?thesis using u(1) d(1,2) by (simp add: ys(1) b(1,3) o(2))
  qed
qed

section \<open>Properties\<close>

text \<open>A peer with the keys and a fresh replay window of width \<open>w\<close>.\<close>

definition tls_crypt_ready :: "crypto_backend \<Rightarrow> cipher_lib \<Rightarrow> lib_ctx \<Rightarrow> lib_ctx \<Rightarrow> nat \<Rightarrow> crypto_options \<Rightarrow> bool" where
  "tls_crypt_ready B L cipher hmac w opt \<longleftrightarrow> 0 < w \<and> w \<le> 65536 \<and> peer_keys B L cipher hmac opt \<and>
     co_flags opt AND CO_IGNORE_PACKET_ID = 0 \<and>
     (\<exists>tb name unit. 0 \<le> tb \<and> tb \<le> 600 \<and> packet_id_init (int w) tb name unit = Some (co_packet_id opt))"

lemma tls_crypt_ready_rec:
  assumes "tls_crypt_ready B L cipher hmac w opt"
  shows "wrap_rec w opt (0, 0, {})" "pi_send (co_packet_id opt) = clear_send"
proof -
  obtain tb name unit where t: "0 < w" "w \<le> 65536" "0 \<le> tb" "tb \<le> 600" "packet_id_init (int w) tb name unit = Some (co_packet_id opt)"
    "co_flags opt AND CO_IGNORE_PACKET_ID = 0"
    using assms by (auto simp: tls_crypt_ready_def)
  have r: "window_rel w (pi_rec (co_packet_id opt)) (0, 0, {})" "pr_time_backtrack (pi_rec (co_packet_id opt)) = tb" "pi_send (co_packet_id opt) = clear_send"
    using packet_id_init_rel[OF t(1-4), of name unit] t(5) by auto
  have "unat (pr_seq_backtrack (pi_rec (co_packet_id opt))) = w" using r(1) by (auto simp: window_rel_def rec_ok_def)
  then have "rec_params (pi_rec (co_packet_id opt))" using r(2) t by (simp add: rec_params_def word_le_nat_alt)
  then show "wrap_rec w opt (0, 0, {})" using r(1) t(6) by (simp add: wrap_rec_def)
  show "pi_send (co_packet_id opt) = clear_send" by (rule r(3))
qed

text \<open>C3: Control packets under tls-crypt are authentic and accepted once.  Whatever bytes arrive in whatever
  order, the receiver never aborts; every packet it accepts is byte for byte what wrapping the delivered
  plaintext under its header and packet id gives, and the ids are pairwise different; so if all arrivals
  of that form were sent, the accepted packets are a sub-multiset of the sent ones.\<close>

theorem tls_crypt_authentic_once:
  assumes "tls_crypt_ready B L cipher hmac w opt" "\<forall>x\<in>set xs. arrival_ok x"
  shows "\<exists>opt' out. tls_crypt_run B L xs opt = Some (opt', out) \<and> distinct (map (\<lambda>x. packet_pair (fst x)) out) \<and>
    (\<forall>(s, plain)\<in>set out. s = wrapped L (cb_iv_size B (fst cipher)) cipher hmac (take 17 s) plain) \<and>
    ((\<forall>(now, src, dst)\<in>set xs. \<forall>plain. buf_content src = wrapped L (cb_iv_size B (fst cipher)) cipher hmac (take 17 (buf_content src)) plain \<longrightarrow>
       (buf_content src, plain) \<in> set sent) \<longrightarrow> mset out \<subseteq># mset sent)"
proof -
  let ?w = "\<lambda>s plain. s = wrapped L (cb_iv_size B (fst cipher)) cipher hmac (take 17 s) plain"
  have pk: "peer_keys B L cipher hmac opt" using assms(1) by (simp add: tls_crypt_ready_def)
  obtain opt' out where r: "tls_crypt_run B L xs opt = Some (opt', out)" "distinct (map (\<lambda>x. packet_pair (fst x)) out)"
    "\<forall>(s, plain)\<in>set out. packet_pair s \<notin> {} \<and> ?w s plain \<and> (\<exists>(now, src, dst)\<in>set xs. s = buf_content src)"
    using tls_crypt_run_inv[OF pk tls_crypt_ready_rec(1)[OF assms(1)] assms(2), of "{}"] by blast
  have d: "distinct out" using r(2) by (simp add: distinct_map)
  have "mset out \<subseteq># mset sent"
    if a: "\<forall>(now, src, dst)\<in>set xs. \<forall>plain. ?w (buf_content src) plain \<longrightarrow> (buf_content src, plain) \<in> set sent"
  proof -
    have "set out \<subseteq> set sent"
    proof
      fix x assume x: "x \<in> set out"
      obtain s plain where sp: "x = (s, plain)" by (cases x)
      obtain now src dst where "(now, src, dst) \<in> set xs" "s = buf_content src" "?w s plain" using r(3) x sp by fastforce
      then show "x \<in> set sent" using a sp by blast
    qed
    then show ?thesis using d by (intro mset_subset_eqI) (auto simp: distinct_count_atmost_1 Suc_le_eq count_greater_zero_iff)
  qed
  then show ?thesis using r by blast
qed

text \<open>C4: Packets that a peer wraps are delivered: arriving in their order, all are accepted and give their
  plaintexts, across the end of the number space too.\<close>

theorem tls_crypt_delivers:
  assumes "sender_keys B L cipher hmac opta" "tls_crypt_ready B L cipher hmac wa opta" "tls_crypt_ready B L cipher hmac wb optb"
    and "\<forall>x\<in>set xs. message_ok x" "tls_crypt_wrap_run B L xs opta = Some (opta', sent)" "arrive_in_order sent ys"
  shows "\<exists>optb'. tls_crypt_run B L ys optb = Some (optb', sent)"
proof -
  have pk: "peer_keys B L cipher hmac optb" using assms(3) by (simp add: tls_crypt_ready_def)
  have s: "pi_send (co_packet_id opta) = clear_send" by (rule tls_crypt_ready_rec(2)[OF assms(2)])
  show ?thesis
    by (rule tls_crypt_delivers_inv[OF assms(1) pk tls_crypt_ready_rec(1)[OF assms(3)] _ _ assms(4-6)])
      (simp_all add: s sender_ok_def send_ok_def clear_send_def pid_less_def)
qed

text \<open>A library that keeps the text as it is.\<close>

definition toy_lib :: cipher_lib where
  "toy_lib = \<lparr>cl_cipher_valid = (\<lambda>_. True), cl_md_valid = (\<lambda>_. True), cl_block_size = (\<lambda>_. 16), cl_reset = (\<lambda>_ _. True), cl_encrypt = (\<lambda>_ _ _ d. Some d), cl_encrypt_final = (\<lambda>_ _ _. Some []),
     cl_decrypt = (\<lambda>_ _ d. Some d), cl_decrypt_final = (\<lambda>_ _ _. Some []), cl_hmac_size = (\<lambda>_. 32), cl_hmac = (\<lambda>_ _. replicate 32 0)\<rparr>"

definition toy_ctx :: lib_ctx where "toy_ctx = (''AES-256-CTR'', replicate 32 0)"

lemma toy_lib_laws: "wrap_laws toy_lib 12 cipher hmac"
  by (auto simp: wrap_laws_def toy_lib_def)

lemma toy_wrap_peer:
  "\<exists>opt. tls_crypt_ready toy_backend toy_lib toy_ctx toy_ctx 64 opt \<and> sender_keys toy_backend toy_lib toy_ctx toy_ctx opt"
proof -
  obtain p where p: "packet_id_init 64 15 None 0 = Some p" "window_rel 64 (pi_rec p) (0, 0, {})"
    using packet_id_init_rel[of 64 15 None 0] by auto
  let ?ctx = "clear_key_ctx\<lparr>kc_cipher := Some toy_ctx, kc_hmac := Some toy_ctx\<rparr>"
  let ?opt = "toy_options\<lparr>co_packet_id := p, co_encrypt := ?ctx, co_decrypt := ?ctx\<rparr>"
  have iv: "cb_iv_size toy_backend n = 12" for n by (simp add: toy_backend_def)
  have laws: "wrap_laws toy_lib (cb_iv_size toy_backend (fst toy_ctx)) toy_ctx toy_ctx" unfolding iv by (rule toy_lib_laws)
  have "packet_id_initialized p" using p(2) by (auto simp: packet_id_initialized_def window_rel_def rec_ok_def)
  moreover have "\<exists>tb name unit. 0 \<le> tb \<and> tb \<le> 600 \<and> packet_id_init (int 64) tb name unit = Some p"
    by (rule exI[of _ 15], rule exI[of _ None], rule exI[of _ 0]) (simp add: p(1))
  ultimately have "tls_crypt_ready toy_backend toy_lib toy_ctx toy_ctx 64 ?opt \<and> sender_keys toy_backend toy_lib toy_ctx toy_ctx ?opt"
    using laws by (simp add: tls_crypt_ready_def peer_keys_def sender_keys_def toy_options_def clear_key_ctx_def)
  then show ?thesis by blast
qed

theorem tls_crypt_authentic_once_witness:
  "\<exists>opt opt' out. tls_crypt_ready toy_backend toy_lib toy_ctx toy_ctx 64 opt \<and>
    tls_crypt_run toy_backend toy_lib
      [(100, buf_of [] (replicate 60 0) [], buf_of [] [] (replicate 60 0)), (101, buf_of [] [1, 2] [], buf_of [] [] [])] opt = Some (opt', out) \<and>
    distinct (map (\<lambda>x. packet_pair (fst x)) out)"
proof -
  obtain opt where o: "tls_crypt_ready toy_backend toy_lib toy_ctx toy_ctx 64 opt" using toy_wrap_peer by blast
  have f: "buf_fits [] (replicate 60 0) []" "buf_fits [] [] (replicate 60 0)" "buf_fits [] [1, 2] []" "buf_fits [] [] []"
    by (simp_all add: buf_fits_def BUF_SIZE_MAX_def)
  have "arrival_ok (100, buf_of [] (replicate 60 0) [], buf_of [] [] (replicate 60 0))"
    "arrival_ok (101, buf_of [] [1, 2] [], buf_of [] [] [])"
    unfolding arrival_ok_def using f by fastforce+
  then have a: "\<forall>x\<in>set [(100, buf_of [] (replicate 60 0) [], buf_of [] [] (replicate 60 0)), (101, buf_of [] [1, 2] [], buf_of [] [] [])]. arrival_ok x"
    by simp
  show ?thesis using tls_crypt_authentic_once[OF o a, of "[]"] o by blast
qed

theorem tls_crypt_delivers_witness:
  "\<exists>opta opta' optb optb' s. tls_crypt_wrap_run toy_backend toy_lib [(100, buf_of [] [1, 2, 3] [], buf_of [] (replicate 9 7) (replicate 90 0))] opta =
      Some (opta', [(s, [1, 2, 3])]) \<and>
    tls_crypt_run toy_backend toy_lib [(101, buf_of [] s [], buf_of [] [] (replicate 90 0))] optb = Some (optb', [(s, [1, 2, 3])])"
proof -
  obtain opt where o: "tls_crypt_ready toy_backend toy_lib toy_ctx toy_ctx 64 opt" "sender_keys toy_backend toy_lib toy_ctx toy_ctx opt"
    using toy_wrap_peer by blast
  have sk: "wrap_laws toy_lib (cb_iv_size toy_backend (fst toy_ctx)) toy_ctx toy_ctx" "kc_cipher (co_encrypt opt) = Some toy_ctx"
    "kc_hmac (co_encrypt opt) = Some toy_ctx" "packet_id_initialized (co_packet_id opt)" using o(2) by (simp_all add: sender_keys_def)
  have s0: "pi_send (co_packet_id opt) = clear_send" by (rule tls_crypt_ready_rec(2)[OF o(1)])
  have upd: "packet_id_send_update 100 (pi_send (co_packet_id opt)) True = (\<lparr>ps_id = 1, ps_time = 100\<rparr>, True)"
    unfolding s0 by (simp add: packet_id_send_update_def clear_send_def PACKET_ID_MAX_def)
  have f: "buf_fits [] (replicate 9 7) (replicate 90 0)" "buf_fits [] [] (replicate 90 0)" by (simp_all add: buf_fits_def BUF_SIZE_MAX_def)
  define s where "s = wrapped toy_lib (cb_iv_size toy_backend (fst toy_ctx)) toy_ctx toy_ctx (replicate 9 7 @ pid_bytes \<lparr>ps_id = 1, ps_time = 100\<rparr>) [1, 2, 3]"
  have ls: "length s = 52" by (simp add: s_def wrapped_def Let_def wrap_tag_def wrap_text_def toy_lib_def)
  obtain opta' q' where w: "tls_crypt_wrap toy_backend toy_lib 100 (buf_of [] [1, 2, 3] []) (buf_of [] (replicate 9 7) (replicate 90 0)) opt =
      Some (opta', buf_of [] s q', True)"
    using tls_crypt_wrap_of[OF sk upd f(1) _ refl, of "[1, 2, 3]" "[]" "[]"] unfolding s_def by auto
  have run: "tls_crypt_wrap_run toy_backend toy_lib [(100, buf_of [] [1, 2, 3] [], buf_of [] (replicate 9 7) (replicate 90 0))] opt = Some (opta', [(s, [1, 2, 3])])"
    using w by simp
  have m: "\<forall>x\<in>set [(100, buf_of [] [1, 2, 3] [], buf_of [] (replicate 9 7) (replicate 90 0))]. message_ok x"
    unfolding message_ok_def using f(1) by fastforce
  have "buf_fits [] s []" using ls by (simp add: buf_fits_def BUF_SIZE_MAX_def)
  then have a: "arrive_in_order [(s, [1, 2, 3])] [(101, buf_of [] s [], buf_of [] [] (replicate 90 0))]"
    unfolding arrive_in_order_def arrival_ok_def using f(2) by fastforce
  show ?thesis using tls_crypt_delivers[OF o(2,1,1) m run a] run by blast
qed

end
