(* ===== verification/Ovpn_Tls_Crypt_V2.thy ===== *)
theory Ovpn_Tls_Crypt_V2
  imports Ovpn_Tls_Crypt
begin

text \<open>
  The client keys of tls-crypt-v2 (\<open>tls_crypt.c\<close>): a server wraps the key of a client with metadata under its
  own key, the client appends the wrapped key to its first packet, and the server unwraps it, checks
  the metadata and loads the key.  Also the contexts made from two keys (\<open>crypto.c\<close>) and the dynamic
  keys of renegotiations.
\<close>

unbundle bit_operations_syntax

section \<open>Client keys of tls-crypt-v2\<close>

record ovpn_key =
  key_cipher :: "byte list"
  key_hmac :: "byte list"

record key2 =
  k2_n :: int
  k2_keys :: "ovpn_key list"

definition TLS_CRYPT_V2_MAX_WKC_LEN :: nat where "TLS_CRYPT_V2_MAX_WKC_LEN = 1024"
definition TLS_CRYPT_V2_CLIENT_KEY_LEN :: nat where "TLS_CRYPT_V2_CLIENT_KEY_LEN = 2048 div 8"
definition TLS_CRYPT_V2_MAX_METADATA_LEN :: nat where
  "TLS_CRYPT_V2_MAX_METADATA_LEN = TLS_CRYPT_V2_MAX_WKC_LEN - (TLS_CRYPT_V2_CLIENT_KEY_LEN + TLS_CRYPT_TAG_SIZE + 2)"

text \<open>The keys in memory.\<close>

definition key_image :: "ovpn_key \<Rightarrow> byte list" where
  "key_image k = key_cipher k @ key_hmac k"

definition keys_image :: "ovpn_key list \<Rightarrow> byte list" where
  "keys_image ks = concat (map key_image ks)"

definition image_key :: "byte list \<Rightarrow> ovpn_key" where
  "image_key bs = \<lparr>key_cipher = take MAX_CIPHER_KEY_LENGTH bs, key_hmac = take MAX_HMAC_KEY_LENGTH (drop MAX_CIPHER_KEY_LENGTH bs)\<rparr>"

definition image_keys :: "byte list \<Rightarrow> ovpn_key list" where
  "image_keys bs = [image_key bs, image_key (drop (MAX_CIPHER_KEY_LENGTH + MAX_HMAC_KEY_LENGTH) bs)]"

definition zero_key :: ovpn_key where
  "zero_key = \<lparr>key_cipher = replicate MAX_CIPHER_KEY_LENGTH 0, key_hmac = replicate MAX_HMAC_KEY_LENGTH 0\<rparr>"

definition zero_key2 :: key2 where
  "zero_key2 = \<lparr>k2_n = 0, k2_keys = [zero_key, zero_key]\<rparr>"

definition xor_key2 :: "key2 \<Rightarrow> key2 \<Rightarrow> key2 option" where
  "xor_key2 key other = do {
     cassert (k2_n key = 2 \<and> k2_n other = 2);
     Some (key\<lparr>k2_keys := map2 (\<lambda>a b. \<lparr>key_cipher = map2 (XOR) (key_cipher a) (key_cipher b),
                                   key_hmac = map2 (XOR) (key_hmac a) (key_hmac b)\<rparr>) (k2_keys key) (k2_keys other)\<rparr>) }"

definition tls_crypt_v2_wrap_client_key ::
  "crypto_backend \<Rightarrow> cipher_lib \<Rightarrow> buffer \<Rightarrow> key2 \<Rightarrow> buffer \<Rightarrow> key_ctx \<Rightarrow> (buffer \<times> bool) option" where
  "tls_crypt_v2_wrap_client_key B L wkc src_key src_metadata server_key = do {
     cipher \<leftarrow> kc_cipher server_key;
     work \<leftarrow> alloc_buf (TLS_CRYPT_V2_MAX_WKC_LEN + cl_block_size L (fst cipher));
     case buf_write_alloc work TLS_CRYPT_TAG_SIZE of
       (work, None) \<Rightarrow> Some (wkc, False)
     | (work, Some tag) \<Rightarrow> do {
         let data_len = buf_len src_metadata + int (length (keys_image (k2_keys src_key))) + 2;
         let tagged_len = data_len + int TLS_CRYPT_TAG_SIZE;
         let net_len = be16 (word_of_int tagged_len);
         hmac \<leftarrow> kc_hmac server_key;
         metadata \<leftarrow> buf_bytes src_metadata;
         let keys = keys_image (k2_keys src_key);
         work \<leftarrow> buf_store work tag (cl_hmac L hmac (net_len @ keys @ metadata));
         iv \<leftarrow> buf_load work tag (int (cb_iv_size B (fst cipher)));
         cassert (cl_reset L cipher iv);
         let padded_len = data_len + int (cl_block_size L (fst cipher));
         if buf_forward_capacity work < padded_len then Some (wkc, False)
         else do {
           out \<leftarrow> cl_encrypt L cipher iv [] keys;
           work \<leftarrow> buf_put_end work out;
           out \<leftarrow> cl_encrypt L cipher iv keys metadata;
           work \<leftarrow> buf_put_end work out;
           out \<leftarrow> cl_encrypt_final L cipher iv (keys @ metadata);
           work \<leftarrow> buf_put_end work out;
           (work, ok) \<leftarrow> buf_write work net_len;
           cassert ok;
           buf_copy wkc work } } }"

text \<open>The key and the metadata buffer after the call, and its result.\<close>

definition tls_crypt_v2_unwrap_client_key ::
  "crypto_backend \<Rightarrow> cipher_lib \<Rightarrow> key2 \<Rightarrow> buffer \<Rightarrow> buffer \<Rightarrow> key_ctx \<Rightarrow> (key2 \<times> buffer \<times> bool) option" where
  "tls_crypt_v2_unwrap_client_key B L client_key metadata wkc server_key =
     (let fail = Some (zero_key2, metadata, False) in
      if int TLS_CRYPT_V2_MAX_WKC_LEN < buf_len wkc then fail
      else if buf_len wkc < 2 then fail
      else do {
        tag \<leftarrow> buf_bptr wkc;
        e \<leftarrow> buf_bend wkc;
        net_len \<leftarrow> buf_load wkc (e - 2) 2;
        if uint (de16 net_len) \<noteq> buf_len wkc then fail
        else do {
          let (wkc, _) = buf_inc_len wkc (- 2);
          let (wkc, ok) = buf_advance wkc (int TLS_CRYPT_TAG_SIZE);
          if \<not> ok then fail
          else do {
            cipher \<leftarrow> kc_cipher server_key;
            hmac \<leftarrow> kc_hmac server_key;
            iv \<leftarrow> buf_load wkc tag (int (cb_iv_size B (fst cipher)));
            if \<not> cl_reset L cipher iv then fail
            else do {
              plaintext \<leftarrow> buf_set_write (Some (replicate TLS_CRYPT_V2_MAX_WKC_LEN 0)) (int TLS_CRYPT_V2_MAX_WKC_LEN);
              ct \<leftarrow> buf_bytes wkc;
              case cl_decrypt L cipher iv ct of
                None \<Rightarrow> fail
              | Some out \<Rightarrow> do {
                  plaintext \<leftarrow> buf_put_start plaintext out;
                  case cl_decrypt_final L cipher iv ct of
                    None \<Rightarrow> fail
                  | Some out \<Rightarrow> do {
                      plaintext \<leftarrow> buf_put_end plaintext out;
                      plain \<leftarrow> buf_bytes plaintext;
                      check \<leftarrow> buf_load wkc tag (int TLS_CRYPT_TAG_SIZE);
                      if check \<noteq> cl_hmac L hmac (net_len @ plain) then fail
                      else if buf_len plaintext < int TLS_CRYPT_V2_CLIENT_KEY_LEN then fail
                      else do {
                        let keys = image_keys plain;
                        let (plaintext, ok) = buf_advance plaintext (int TLS_CRYPT_V2_CLIENT_KEY_LEN);
                        cassert ok;
                        (metadata, ok) \<leftarrow> buf_copy metadata plaintext;
                        if \<not> ok then Some (zero_key2, metadata, False)
                        else Some (client_key\<lparr>k2_keys := keys, k2_n := 2\<rparr>, metadata, True) } } } } } } })"

text \<open>The image of a wrapped client key.\<close>

definition wkc_tag :: "cipher_lib \<Rightarrow> lib_ctx \<Rightarrow> byte list \<Rightarrow> byte list" where
  "wkc_tag L hmac plain = cl_hmac L hmac (be16 (word_of_nat (34 + length plain)) @ plain)"

definition wkc_image :: "cipher_lib \<Rightarrow> nat \<Rightarrow> lib_ctx \<Rightarrow> lib_ctx \<Rightarrow> byte list \<Rightarrow> byte list" where
  "wkc_image L n cipher hmac plain =
     (let tag = wkc_tag L hmac plain in tag @ wrap_text L n cipher tag plain @ be16 (word_of_nat (34 + length plain)))"

definition key2_ok :: "key2 \<Rightarrow> bool" where
  "key2_ok k \<longleftrightarrow> k2_n k = 2 \<and> length (k2_keys k) = 2 \<and> (\<forall>x\<in>set (k2_keys k). length (key_cipher x) = 64 \<and> length (key_hmac x) = 64)"

lemma keys_image_length: "key2_ok k \<Longrightarrow> length (keys_image (k2_keys k)) = 256"
  by (auto simp: key2_ok_def keys_image_def key_image_def length_Suc_conv numeral_2_eq_2)

lemma image_keys_image:
  assumes "key2_ok k"
  shows "image_keys (keys_image (k2_keys k) @ x) = k2_keys k"
proof -
  obtain a b where "k2_keys k = [a, b]" using assms by (auto simp: key2_ok_def numeral_2_eq_2 length_Suc_conv)
  then show ?thesis using assms
    by (simp add: key2_ok_def image_keys_def image_key_def keys_image_def key_image_def MAX_CIPHER_KEY_LENGTH_def MAX_HMAC_KEY_LENGTH_def)
qed

lemma keys_image_image: "256 \<le> length bs \<Longrightarrow> keys_image (image_keys bs) = take 256 bs"
proof -
  have "take 256 bs = take 64 bs @ take 64 (drop 64 bs) @ take 64 (drop 128 bs) @ take 64 (drop 192 bs)"
    using take_add[of 64 192 bs] take_add[of 64 128 "drop 64 bs"] take_add[of 64 64 "drop 128 bs"] by simp
  then show ?thesis
    by (simp add: image_keys_def image_key_def keys_image_def key_image_def MAX_CIPHER_KEY_LENGTH_def MAX_HMAC_KEY_LENGTH_def)
qed

text \<open>Exclusive or with the same key twice gives the key back.\<close>

lemma xor_key2_twice:
  assumes "key2_ok a" "key2_ok b"
  shows "\<exists>c. xor_key2 a b = Some c \<and> xor_key2 c b = Some a"
proof -
  have x: "map2 (XOR) (map2 (XOR) u v) v = u" if "length u = length v" for u v :: "byte list"
    using that by (induction u v rule: list_induct2) (simp_all add: xor.assoc)
  obtain a1 a2 where a: "k2_keys a = [a1, a2]" using assms(1) by (auto simp: key2_ok_def numeral_2_eq_2 length_Suc_conv)
  obtain b1 b2 where b: "k2_keys b = [b1, b2]" using assms(2) by (auto simp: key2_ok_def numeral_2_eq_2 length_Suc_conv)
  show ?thesis using assms a b by (simp add: xor_key2_def key2_ok_def x)
qed

definition stream_laws :: "cipher_lib \<Rightarrow> nat \<Rightarrow> lib_ctx \<Rightarrow> bool" where
  "stream_laws L n cipher \<longleftrightarrow> (\<forall>iv a b. length iv = n \<longrightarrow> (\<exists>x y. cl_encrypt L cipher iv [] a = Some x \<and>
     cl_encrypt L cipher iv a b = Some y \<and> cl_encrypt L cipher iv [] (a @ b) = Some (x @ y)))"

lemma wkc_tag_length: "wrap_laws L n cipher hmac \<Longrightarrow> length (wkc_tag L hmac plain) = 32"
  by (simp add: wkc_tag_def wrap_lawsD(3))

lemma wkc_image_length: "wrap_laws L n cipher hmac \<Longrightarrow> length (wkc_image L n cipher hmac plain) = 34 + length plain"
  using wrap_text_enc(2)[OF _ wkc_tag_length] by (simp add: wkc_image_def Let_def wkc_tag_length)

lemma be16_of_length: "length s \<le> 1024 \<Longrightarrow> length x = 2 \<Longrightarrow> uint (de16 x) = int (length s) \<longleftrightarrow> x = be16 (word_of_nat (length s))"
proof -
  assume l: "length s \<le> 1024" "length x = 2"
  have "uint (de16 x) = int (length s) \<longleftrightarrow> unat (de16 x) = length s" by (simp only: uint_nat of_nat_eq_iff)
  also have "\<dots> \<longleftrightarrow> de16 x = word_of_nat (length s)"
  proof -
    have "unat (word_of_nat (length s) :: u16) = length s" using l(1) by (simp add: unat_of_nat)
    then show ?thesis by (metis word_unat_eq_iff)
  qed
  also have "\<dots> \<longleftrightarrow> x = be16 (word_of_nat (length s))"
  proof -
    have "nat_be x < 2 ^ 16" using nat_be_bound[of x] l(2) by simp
    then have "be16 (de16 x) = x" using l(2) by (simp add: be16_def de16_def unat_of_nat be_nat_nat_be)
    then show ?thesis by (metis de16_be16)
  qed
  finally show ?thesis .
qed

text \<open>The tests of the receiver characterise the images.\<close>

lemma wkc_image_iff:
  assumes laws: "wrap_laws L n cipher hmac" and l: "34 \<le> length s" "length s \<le> 1024"
  defines "e \<equiv> drop (length s - 2) s" and "ct \<equiv> take (length s - 34) (drop 32 s)"
  shows "s = wkc_image L n cipher hmac plain \<longleftrightarrow>
    uint (de16 e) = int (length s) \<and> take 32 s = cl_hmac L hmac (e @ plain) \<and> cl_decrypt L cipher (take n s) ct = Some plain"
proof -
  have s: "s = take 32 s @ ct @ e"
  proof -
    have "drop 32 s = ct @ drop (length s - 34) (drop 32 s)" unfolding ct_def by (rule append_take_drop_id[symmetric])
    moreover have "drop (length s - 34) (drop 32 s) = e" using l(1) by (simp add: e_def)
    ultimately show ?thesis by (metis append_take_drop_id)
  qed
  have le: "length e = 2" "length (take 32 s) = 32" "length ct = length s - 34" using l by (simp_all add: e_def ct_def)
  have iv: "length (take n (take 32 s)) = n" "take n s = take n (take 32 s)" using l wrap_lawsD(1)[OF laws] by (simp_all add: min_def)
  have E: "uint (de16 e) = int (length s) \<longleftrightarrow> e = be16 (word_of_nat (length s))" by (rule be16_of_length[OF l(2) le(1)])
  note enc = wrap_text_enc[OF laws le(2)]
  show ?thesis
  proof
    assume i: "s = wkc_image L n cipher hmac plain"
    have lp: "length s = 34 + length plain" using arg_cong[OF i, of length] wkc_image_length[OF laws] by simp
    have "take 32 s @ ct @ e = wkc_tag L hmac plain @ wrap_text L n cipher (wkc_tag L hmac plain) plain @ be16 (word_of_nat (34 + length plain))"
      using i unfolding wkc_image_def Let_def by (subst s[symmetric])
    then have p: "take 32 s = wkc_tag L hmac plain" "ct = wrap_text L n cipher (wkc_tag L hmac plain) plain" "e = be16 (word_of_nat (length s))"
      using le wkc_tag_length[OF laws] wrap_text_enc(2)[OF laws wkc_tag_length[OF laws]] lp by auto
    have "cl_decrypt L cipher (take n s) ct = Some plain"
      unfolding iv(2) wrap_lawsD(6)[OF laws iv(1)] using enc(1)[of plain] p(1,2) by simp
    then show "uint (de16 e) = int (length s) \<and> take 32 s = cl_hmac L hmac (e @ plain) \<and> cl_decrypt L cipher (take n s) ct = Some plain"
      unfolding E using p lp by (simp add: wkc_tag_def)
  next
    assume a: "uint (de16 e) = int (length s) \<and> take 32 s = cl_hmac L hmac (e @ plain) \<and> cl_decrypt L cipher (take n s) ct = Some plain"
    have "cl_decrypt L cipher (take n (take 32 s)) ct = Some plain" using a iv(2) by metis
    then have d: "cl_encrypt L cipher (take n (take 32 s)) [] plain = Some ct" by (rule iffD1[OF wrap_lawsD(6)[OF laws iv(1)]])
    then have c: "wrap_text L n cipher (take 32 s) plain = ct" using enc(1)[of plain] by simp
    then have lp: "34 + length plain = length s" using enc(2)[of plain] le(3) l(1) by simp
    have e: "e = be16 (word_of_nat (34 + length plain))" using a E unfolding lp by simp
    have t: "wkc_tag L hmac plain = take 32 s" using a unfolding wkc_tag_def e[symmetric] by simp
    show "s = wkc_image L n cipher hmac plain" unfolding wkc_image_def Let_def t c e[symmetric] by (rule s)
  qed
qed

lemma tls_crypt_v2_wrap_of:
  assumes laws: "wrap_laws L (cb_iv_size B (fst cipher)) cipher hmac" "stream_laws L (cb_iv_size B (fst cipher)) cipher"
    and ctx: "kc_cipher server_key = Some cipher" "kc_hmac server_key = Some hmac"
    and k: "key2_ok k" and m: "length m \<le> 734" "int (length m) < BUF_SIZE_MAX" and bsz: "1024 + int (cl_block_size L (fst cipher)) < BUF_SIZE_MAX"
    and w: "buf_fits p c q" "324 + length m \<le> length q + 34"
  shows "tls_crypt_v2_wrap_client_key B L (buf_of p c q) k (buf_of pm m qm) server_key =
    Some (buf_of p (c @ wkc_image L (cb_iv_size B (fst cipher)) cipher hmac (keys_image (k2_keys k) @ m)) (drop (290 + length m) q), True)"
proof -
  let ?n = "cb_iv_size B (fst cipher)"
  define ks where "ks = keys_image (k2_keys k)"
  define bs where "bs = cl_block_size L (fst cipher)"
  define net where "net = be16 (word_of_nat (34 + length (ks @ m)) :: u16)"
  define tag where "tag = wkc_tag L hmac (ks @ m)"
  have lk: "length ks = 256" unfolding ks_def by (rule keys_image_length[OF k])
  have lt: "length tag = 32" unfolding tag_def by (rule wkc_tag_length[OF laws(1)])
  have iv: "length (take ?n tag) = ?n" using lt wrap_lawsD(1)[OF laws(1)] by simp
  obtain x y where xy: "cl_encrypt L cipher (take ?n tag) [] ks = Some x" "cl_encrypt L cipher (take ?n tag) ks m = Some y"
    "cl_encrypt L cipher (take ?n tag) [] (ks @ m) = Some (x @ y)" using laws(2) iv unfolding stream_laws_def by blast
  have lxy: "length x = 256" "length y = length m"
  proof -
    obtain e where "cl_encrypt L cipher (take ?n tag) [] ks = Some e" "length e = length ks" using wrap_lawsD(5)[OF laws(1) iv, of ks] by blast
    then show "length x = 256" using xy(1) lk by simp
    moreover have "length (x @ y) = length (ks @ m)" using wrap_lawsD(5)[OF laws(1) iv, of "ks @ m"] xy(3) by auto
    ultimately show "length y = length m" using lk by simp
  qed
  define z where "z = replicate (1024 + bs) (0 :: byte)"
  have lz: "length z = 1024 + bs" by (simp add: z_def)
  have f0: "buf_fits [] [] z" using bsz by (simp add: buf_fits_def lz bs_def)
  have al: "alloc_buf (TLS_CRYPT_V2_MAX_WKC_LEN + bs) = Some (buf_of [] [] z)"
    using alloc_buf_ok[of "1024 + bs"] bsz by (simp add: z_def bs_def TLS_CRYPT_V2_MAX_WKC_LEN_def)
  have wa: "buf_write_alloc (buf_of [] [] z) TLS_CRYPT_TAG_SIZE = (buf_of [] (take 32 z) (drop 32 z), Some 0)"
    using buf_write_alloc_of[OF f0, of 32] lz by (simp add: TLS_CRYPT_TAG_SIZE_def)
  have st: "buf_store (buf_of [] (take 32 z) (drop 32 z)) 0 tag = Some (buf_of [] tag (drop 32 z))"
    using buf_store_mid[of tag "take 32 z" "take 32 z" "[]" "[]" "[]" "drop 32 z"] lt lz by simp
  have ld: "buf_load (buf_of [] tag (drop 32 z)) 0 (int ?n) = Some (take ?n tag)"
    using buf_load_content[of 0 "int ?n" tag "[]" "drop 32 z"] lt wrap_lawsD(1)[OF laws(1)] by simp
  have f1: "buf_fits [] tag (drop 32 z)" using f0 lt lz by (auto elim!: buf_fits_split)
  have p1: "buf_put_end (buf_of [] tag (drop 32 z)) x = Some (buf_of [] (tag @ x) (drop 288 z))"
    using buf_put_end_of[OF f1, of x] lxy lz by simp
  have f2: "buf_fits [] (tag @ x) (drop 288 z)" using f0 lt lxy lz by (auto elim!: buf_fits_split)
  have p2: "buf_put_end (buf_of [] (tag @ x) (drop 288 z)) y = Some (buf_of [] (tag @ x @ y) (drop (288 + length m) z))"
    using buf_put_end_of[OF f2, of y] lxy lz m by (simp add: add.commute)
  have f3: "buf_fits [] (tag @ x @ y) (drop (288 + length m) z)" using f0 lt lxy lz m by (auto elim!: buf_fits_split)
  have p3: "buf_put_end (buf_of [] (tag @ x @ y) (drop (288 + length m) z)) [] = Some (buf_of [] (tag @ x @ y) (drop (288 + length m) z))"
    using buf_put_end_of[OF f3, of "[]"] by simp
  have p4: "buf_write (buf_of [] (tag @ x @ y) (drop (288 + length m) z)) net =
      Some (buf_of [] (tag @ x @ y @ net) (drop (290 + length m) z), True)"
    using buf_write_of[OF f3, of net] lz m by (simp add: net_def add.commute)
  have ok4: "buf_ok (buf_of [] (tag @ x @ y @ net) (drop (290 + length m) z))"
    using f3 lz m by (auto simp: net_def elim!: buf_fits_split)
  have img: "wkc_image L ?n cipher hmac (ks @ m) = tag @ x @ y @ net"
    using xy(3) by (simp add: wkc_image_def Let_def tag_def[symmetric] net_def wrap_text_def)
  have cp: "buf_copy (buf_of p c q) (buf_of [] (tag @ x @ y @ net) (drop (290 + length m) z)) =
      Some (buf_of p (c @ wkc_image L ?n cipher hmac (ks @ m)) (drop (290 + length m) q), True)"
    using buf_copy_of[OF ok4 w(1)] w(2) lt lxy by (simp add: img net_def)
  have net: "be16 (34 + (word_of_nat (length m) + word_of_nat (length ks))) = net"
    by (simp add: net_def add.commute add.left_commute)
  have r: "cl_reset L cipher (take ?n tag)" by (rule wrap_lawsD(4)[OF laws(1) iv])
  have cap: "\<not> buf_forward_capacity (buf_of [] tag (drop 32 z)) < int (length m) + int (length ks) + 2 + int bs"
    using lz lk m by simp
  have th: "cl_hmac L hmac (net @ ks @ m) = tag" by (simp add: tag_def wkc_tag_def net_def)
  show ?thesis
    unfolding tls_crypt_v2_wrap_client_key_def ks_def[symmetric]
    using ctx al wa st ld r cap xy p1 p2 p3 p4 cp wrap_lawsD(7)[OF laws(1)]
    by (simp add: bs_def[symmetric] TLS_CRYPT_TAG_SIZE_def Let_def net th buf_bytes_of)
qed

lemma tls_crypt_v2_unwrap_of:
  assumes laws: "wrap_laws L (cb_iv_size B (fst cipher)) cipher hmac"
    and ctx: "kc_cipher server_key = Some cipher" "kc_hmac server_key = Some hmac"
    and fits: "buf_fits p s q" "buf_fits pm cm qm"
  shows "\<exists>k' md ok. tls_crypt_v2_unwrap_client_key B L k (buf_of pm cm qm) (buf_of p s q) server_key = Some (k', md, ok) \<and>
    (\<forall>plain. length s \<le> 1024 \<and> s = wkc_image L (cb_iv_size B (fst cipher)) cipher hmac plain \<and> 256 \<le> length plain \<and> length plain \<le> length qm + 256 \<longrightarrow>
       ok \<and> k' = k\<lparr>k2_keys := image_keys plain, k2_n := 2\<rparr> \<and> md = buf_of pm (cm @ drop 256 plain) (drop (length plain - 256) qm)) \<and>
    (if ok then length s \<le> 1024 \<and> (\<exists>plain. s = wkc_image L (cb_iv_size B (fst cipher)) cipher hmac plain \<and> 256 \<le> length plain \<and> length plain \<le> length qm + 256)
     else k' = zero_key2 \<and> md = buf_of pm cm qm)"
proof -
  let ?n = "cb_iv_size B (fst cipher)" and ?md = "buf_of pm cm qm"
  let ?run = "tls_crypt_v2_unwrap_client_key B L k ?md (buf_of p s q) server_key"
  have fail: ?thesis if r: "?run = Some (zero_key2, ?md, False)"
    and no: "\<And>plain. length s \<le> 1024 \<Longrightarrow> s = wkc_image L ?n cipher hmac plain \<Longrightarrow> 256 \<le> length plain \<Longrightarrow> length plain \<le> length qm + 256 \<Longrightarrow> False"
    using r no by (intro exI[of _ zero_key2] exI[of _ ?md] exI[of _ False]) auto
  have long: "length s = 34 + length plain" if "s = wkc_image L ?n cipher hmac plain" for plain
    using arg_cong[OF that, of length] wkc_image_length[OF laws] by simp
  consider "1024 < length s" | "length s < 2" | "2 \<le> length s" "length s \<le> 1024" "length s < 34" | "34 \<le> length s" "length s \<le> 1024" by linarith
  then show ?thesis
  proof cases
    case 1
    then show ?thesis by (intro fail) (simp_all add: tls_crypt_v2_unwrap_client_key_def TLS_CRYPT_V2_MAX_WKC_LEN_def)
  next
    case 2
    then have "?run = Some (zero_key2, ?md, False)" by (simp add: tls_crypt_v2_unwrap_client_key_def TLS_CRYPT_V2_MAX_WKC_LEN_def)
    then show ?thesis using 2 long by (intro fail) auto
  next
    case 3
    have be: "buf_bend (buf_of p s q) = Some (int (length p) + int (length s))" by (simp add: buf_bend_def)
    have ld: "buf_load (buf_of p s q) (int (length p) + int (length s) - 2) 2 = Some (drop (length s - 2) s)"
      using buf_load_content[of "int (length s) - 2" 2 s p q] 3(1) by (simp add: nat_diff_distrib algebra_simps)
    have inc: "buf_inc_len (buf_of p s q) (- 2) = (buf_of p (take (length s - 2) s) (drop (length s - 2) s @ q), True)"
      using buf_inc_len_of[OF fits(1), of "- 2"] 3(1) by (simp add: nat_diff_distrib)
    have adv: "buf_advance (buf_of p (take (length s - 2) s) (drop (length s - 2) s @ q)) 32 =
        (buf_of p (take (length s - 2) s) (drop (length s - 2) s @ q), False)"
      using 3 by (simp add: buf_advance_of)
    have "?run = Some (zero_key2, ?md, False)"
      using 3 be ld inc adv by (simp add: tls_crypt_v2_unwrap_client_key_def TLS_CRYPT_V2_MAX_WKC_LEN_def TLS_CRYPT_TAG_SIZE_def Let_def buf_bytes_of)
    then show ?thesis using 3 long by (intro fail) auto
  next
    case 4
    define e where "e = drop (length s - 2) s"
    define ct where "ct = take (length s - 34) (drop 32 s)"
    define s1 where "s1 = take (length s - 2) s"
    have le: "length e = 2" "length ct = length s - 34" "length s1 = length s - 2" using 4 by (simp_all add: e_def ct_def s1_def)
    have be: "buf_bend (buf_of p s q) = Some (int (length p) + int (length s))" by (simp add: buf_bend_def)
    have ld: "buf_load (buf_of p s q) (int (length p) + int (length s) - 2) 2 = Some e"
      using buf_load_content[of "int (length s) - 2" 2 s p q] 4(1) by (simp add: nat_diff_distrib algebra_simps e_def)
    have inc: "buf_inc_len (buf_of p s q) (- 2) = (buf_of p s1 (e @ q), True)"
      using buf_inc_len_of[OF fits(1), of "- 2"] 4(1) by (simp add: nat_diff_distrib e_def s1_def)
    have h: "min 32 (length s - 2) = 32" using 4(1) by linarith
    have d32: "drop 32 s1 = ct" "take 32 s1 = take 32 s" using h by (simp_all add: s1_def ct_def drop_take)
    have adv: "buf_advance (buf_of p s1 (e @ q)) 32 = (buf_of (p @ take 32 s) ct (e @ q), True)"
    proof -
      have "32 \<le> length s1" unfolding le(3) using 4(1) by linarith
      then show ?thesis by (simp add: buf_advance_of d32)
    qed
    have s32: "take 32 s @ ct = s1" using d32 by (metis append_take_drop_id)
    have s32r: "take 32 s @ ct @ r = s1 @ r" for r using s32 by (metis append_assoc)
    have ldt: "buf_load (buf_of (p @ take 32 s) ct (e @ q)) (int (length p)) (int m) = Some (take m (take 32 s))" if "m \<le> 32" for m
    proof -
      have "buf_load (buf_of p s1 (e @ q)) (int (length p)) (int m) = Some (take m s1)"
        using buf_load_content[of 0 "int m" s1 p "e @ q"] that le 4(1) by simp
      moreover have "b_data (buf_of (p @ take 32 s) ct (e @ q)) = b_data (buf_of p s1 (e @ q))" by (simp add: buf_of_def s32r)
      moreover have "take m s1 = take m (take 32 s)" using that d32(2) by (metis min.absorb1 take_take)
      ultimately show ?thesis by (simp add: buf_load_def s32r)
    qed
    have iv: "length (take ?n s) = ?n" "take ?n (take 32 s) = take ?n s" using 4(1) wrap_lawsD(1)[OF laws] by (simp_all add: min_def)
    have r: "cl_reset L cipher (take ?n s)" by (rule wrap_lawsD(4)[OF laws iv(1)])
    define z where "z = replicate 1024 (0 :: byte)"
    have lz: "length z = 1024" by (simp add: z_def)
    have f0: "buf_fits [] [] z" by (simp add: buf_fits_def lz BUF_SIZE_MAX_def)
    have sw: "buf_set_write (Some (replicate TLS_CRYPT_V2_MAX_WKC_LEN 0)) (int TLS_CRYPT_V2_MAX_WKC_LEN) = Some (buf_of [] [] z)"
    proof -
      have "z = 0 # replicate 1023 0" using replicate_Suc[of 1023 "0 :: byte"] by (simp add: z_def)
      then show ?thesis by (simp add: buf_set_write_def buf_size_valid_def BUF_SIZE_MAX_def to_size_t_def TLS_CRYPT_V2_MAX_WKC_LEN_def buf_store_def
          mem_write_def buf_of_def lz z_def[symmetric])
    qed
    note steps = 4 be ld inc adv ctx r sw ldt[of ?n] ldt[of 32] iv(2) wrap_lawsD(1)[OF laws] wrap_lawsD(8)[OF laws]
    have iff: "s = wkc_image L ?n cipher hmac plain \<longleftrightarrow>
        uint (de16 e) = int (length s) \<and> take 32 s = cl_hmac L hmac (e @ plain) \<and> cl_decrypt L cipher (take ?n s) ct = Some plain" for plain
      using wkc_image_iff[OF laws 4, of plain] by (simp add: e_def ct_def)
    show ?thesis
    proof (cases "uint (de16 e) = int (length s)")
      case False
      then have "?run = Some (zero_key2, ?md, False)" unfolding tls_crypt_v2_unwrap_client_key_def using steps
        by (simp add: TLS_CRYPT_V2_MAX_WKC_LEN_def TLS_CRYPT_TAG_SIZE_def Let_def buf_bytes_of)
      then show ?thesis using False iff by (intro fail) auto
    next
      case len: True
      show ?thesis
      proof (cases "cl_decrypt L cipher (take ?n s) ct")
        case None
        have no: "s \<noteq> wkc_image L ?n cipher hmac plain" for plain unfolding iff None by simp
        have "?run = Some (zero_key2, ?md, False)" unfolding tls_crypt_v2_unwrap_client_key_def using steps len None
          by (simp add: TLS_CRYPT_V2_MAX_WKC_LEN_def TLS_CRYPT_TAG_SIZE_def Let_def buf_bytes_of)
        then show ?thesis by (rule fail) (use no in auto)
      next
        case (Some out)
        have lo: "length out = length ct"
        proof -
          have "cl_encrypt L cipher (take ?n s) [] out = Some ct" using Some unfolding wrap_lawsD(6)[OF laws iv(1)] .
          then show ?thesis using wrap_lawsD(5)[OF laws iv(1), of out] by auto
        qed
        have only: "plain = out" if "s = wkc_image L ?n cipher hmac plain" for plain using that Some unfolding iff by simp
        have room: "length out \<le> length z" using lo le(2) 4 lz by simp
        have f1: "buf_fits [] out (drop (length out) z)" using f0 room by (auto elim!: buf_fits_split)
        have p1: "buf_put_start (buf_of [] [] z) out = Some (buf_of [] out (drop (length out) z))"
          using buf_put_start_of[OF f0 room] by simp
        have p2: "buf_put_end (buf_of [] out (drop (length out) z)) [] = Some (buf_of [] out (drop (length out) z))"
          using buf_put_end_of[OF f1, of "[]"] by simp
        have adv2: "buf_advance (buf_of [] out (drop (length out) z)) 256 = (buf_of (take 256 out) (drop 256 out) (drop (length out) z), True)"
          if "256 \<le> length out" using that by (simp add: buf_advance_of)
        have okp: "buf_ok (buf_of (take 256 out) (drop 256 out) (drop (length out) z))" using f1 by (auto elim!: buf_fits_split)
        have cp: "buf_copy ?md (buf_of (take 256 out) (drop 256 out) (drop (length out) z)) =
            (if length out \<le> length qm + 256 then Some (buf_of pm (cm @ drop 256 out) (drop (length out - 256) qm), True) else Some (?md, False))"
          using buf_copy_of[OF okp fits(2)] by auto
        have run: "?run = (if take 32 s \<noteq> cl_hmac L hmac (e @ out) \<or> length out < 256 \<or> \<not> length out \<le> length qm + 256 then Some (zero_key2, ?md, False)
            else Some (k\<lparr>k2_keys := image_keys out, k2_n := 2\<rparr>, buf_of pm (cm @ drop 256 out) (drop (length out - 256) qm), True))"
        proof -
          have n: "(int (length out) < 256) = (length out < 256)" by linarith
          show ?thesis unfolding tls_crypt_v2_unwrap_client_key_def using steps len Some adv2
            by (simp add: TLS_CRYPT_V2_MAX_WKC_LEN_def TLS_CRYPT_TAG_SIZE_def TLS_CRYPT_V2_CLIENT_KEY_LEN_def Let_def p1 p2 buf_bytes_of cp n)
        qed
        have img: "s = wkc_image L ?n cipher hmac out \<longleftrightarrow> take 32 s = cl_hmac L hmac (e @ out)" unfolding iff using len Some by simp
        show ?thesis
        proof (cases "take 32 s \<noteq> cl_hmac L hmac (e @ out) \<or> length out < 256 \<or> \<not> length out \<le> length qm + 256")
          case True
          show ?thesis
          proof (rule fail)
            show "?run = Some (zero_key2, ?md, False)" using run True by simp
          next
            fix plain
            assume a: "s = wkc_image L ?n cipher hmac plain" "256 \<le> length plain" "length plain \<le> length qm + 256"
            then show False using only[OF a(1)] True img by simp
          qed
        next
          case ok: False
          then have w: "s = wkc_image L ?n cipher hmac out" using img by simp
          show ?thesis
          proof (intro exI conjI)
            show "?run = Some (k\<lparr>k2_keys := image_keys out, k2_n := 2\<rparr>, buf_of pm (cm @ drop 256 out) (drop (length out - 256) qm), True)"
              using run ok by simp
            show "if True then length s \<le> 1024 \<and> (\<exists>plain. s = wkc_image L ?n cipher hmac plain \<and> 256 \<le> length plain \<and> length plain \<le> length qm + 256)
              else k\<lparr>k2_keys := image_keys out, k2_n := 2\<rparr> = zero_key2 \<and> buf_of pm (cm @ drop 256 out) (drop (length out - 256) qm) = ?md"
              using w ok 4(2) by auto
          qed (use only in auto)
        qed
      qed
    qed
  qed
qed

section \<open>Keys of a session\<close>

definition KEY_DIRECTION_BIDIRECTIONAL :: int where "KEY_DIRECTION_BIDIRECTIONAL = 0"
definition KEY_DIRECTION_NORMAL :: int where "KEY_DIRECTION_NORMAL = 1"
definition KEY_DIRECTION_INVERSE :: int where "KEY_DIRECTION_INVERSE = 2"

record key_direction_state =
  kds_out_key :: nat
  kds_in_key :: nat
  kds_need_keys :: nat

definition key_direction_state_init :: "int \<Rightarrow> key_direction_state option" where
  "key_direction_state_init dir =
     (if dir = KEY_DIRECTION_NORMAL then Some \<lparr>kds_out_key = 0, kds_in_key = 1, kds_need_keys = 2\<rparr>
      else if dir = KEY_DIRECTION_INVERSE then Some \<lparr>kds_out_key = 1, kds_in_key = 0, kds_need_keys = 2\<rparr>
      else if dir = KEY_DIRECTION_BIDIRECTIONAL then Some \<lparr>kds_out_key = 0, kds_in_key = 0, kds_need_keys = 1\<rparr>
      else None)"

definition key_parameters_from_key :: "ovpn_key \<Rightarrow> key_parameters" where
  "key_parameters_from_key k = clear_key_parameters
     \<lparr>kp_cipher := key_cipher k, kp_cipher_size := MAX_CIPHER_KEY_LENGTH, kp_hmac := key_hmac k, kp_hmac_size := MAX_HMAC_KEY_LENGTH\<rparr>"

definition init_key_ctx_bi :: "crypto_backend \<Rightarrow> crypto_options \<Rightarrow> key2 \<Rightarrow> int \<Rightarrow> key_type \<Rightarrow> crypto_options option" where
  "init_key_ctx_bi B co key2 dir kt = do {
     kds \<leftarrow> key_direction_state_init dir;
     let send_key = key_parameters_from_key (k2_keys key2 ! kds_out_key kds);
     let recv_key = key_parameters_from_key (k2_keys key2 ! kds_in_key kds);
     send \<leftarrow> init_key_bi_ctx_send B send_key kt;
     recv \<leftarrow> init_key_bi_ctx_recv B recv_key kt;
     Some (co\<lparr>co_encrypt := send, co_decrypt := recv, co_initialized := True\<rparr>) }"

text \<open>\<open>None\<close> is the structure of null pointers.\<close>

definition create_kt :: "cipher_lib \<Rightarrow> string \<Rightarrow> string \<Rightarrow> key_type option" where
  "create_kt L cipher md =
     (if cipher_defined cipher \<and> \<not> cl_cipher_valid L cipher then None
      else if md_defined md \<and> \<not> cl_md_valid L md then None
      else Some \<lparr>kt_cipher = cipher, kt_digest = md\<rparr>)"

definition tls_crypt_kt :: "cipher_lib \<Rightarrow> key_type option" where
  "tls_crypt_kt L = create_kt L ''AES-256-CTR'' ''SHA256''"

definition tls_crypt_v2_load_client_key ::
  "crypto_backend \<Rightarrow> cipher_lib \<Rightarrow> crypto_options \<Rightarrow> key2 \<Rightarrow> bool \<Rightarrow> crypto_options option" where
  "tls_crypt_v2_load_client_key B L co key2 tls_server = do {
     let key_direction = (if tls_server then KEY_DIRECTION_NORMAL else KEY_DIRECTION_INVERSE);
     kt \<leftarrow> tls_crypt_kt L;
     init_key_ctx_bi B co key2 key_direction kt }"

text \<open>The state of the wrapping of a session, and the options a server can set for tls-crypt-v2; a script
  gets the type of the metadata and their bytes.\<close>

datatype tls_wrap_mode = TLS_WRAP_NONE | TLS_WRAP_AUTH | TLS_WRAP_CRYPT

record tls_wrap_ctx =
  tw_mode :: tls_wrap_mode
  tw_opt :: crypto_options
  tw_work :: buffer
  tw_tls_crypt_v2_server_key :: key_ctx
  tw_tls_crypt_v2_wkc :: "buffer option"
  tw_tls_crypt_v2_metadata :: buffer
  tw_cleanup_key_ctx :: bool
  tw_original_wrap_keydata :: key2

record tls_crypt_v2_options =
  to_tls_crypt_v2_max_age :: int
  to_tls_crypt_v2_verify_script :: "(byte \<Rightarrow> byte list \<Rightarrow> bool) option"

definition TLS_CRYPT_METADATA_TYPE_TIMESTAMP :: byte where "TLS_CRYPT_METADATA_TYPE_TIMESTAMP = 1"

text \<open>An overflow of the signed difference is undefined.\<close>

definition tls_crypt_v2_check_client_key_age :: "c_time \<Rightarrow> tls_wrap_ctx \<Rightarrow> int \<Rightarrow> bool option" where
  "tls_crypt_v2_check_client_key_age now ctx max_days =
     (if to_size_t (buf_len (tw_tls_crypt_v2_metadata ctx)) < 1 + 8 then Some False
      else do {
        t \<leftarrow> buf_load (tw_tls_crypt_v2_metadata ctx) 0 1;
        if t \<noteq> [TLS_CRYPT_METADATA_TYPE_TIMESTAMP] then Some False
        else do {
          bytes \<leftarrow> buf_load (tw_tls_crypt_v2_metadata ctx) 1 8;
          let timestamp = sint (de64 bytes);
          let max_age_in_seconds = max_days * 24 * 60 * 60;
          cassert (- (2 ^ 63) \<le> now - timestamp \<and> now - timestamp < 2 ^ 63);
          Some (\<not> max_age_in_seconds < now - timestamp) } })"

definition tls_crypt_v2_verify_metadata :: "(byte \<Rightarrow> byte list \<Rightarrow> bool) \<Rightarrow> tls_wrap_ctx \<Rightarrow> bool option" where
  "tls_crypt_v2_verify_metadata script ctx = do {
     (metadata, metadata_type) \<leftarrow> buf_read_u8 (tw_tls_crypt_v2_metadata ctx);
     if metadata_type < 0 then Some False
     else do {
       bytes \<leftarrow> buf_bytes metadata;
       Some (script (word_of_int metadata_type) bytes) } }"

text \<open>The buffer, the context and the result.\<close>

definition tls_crypt_v2_extract_client_key ::
  "crypto_backend \<Rightarrow> cipher_lib \<Rightarrow> c_time \<Rightarrow> buffer \<Rightarrow> tls_wrap_ctx \<Rightarrow> tls_crypt_v2_options option \<Rightarrow> bool \<Rightarrow>
   (buffer \<times> tls_wrap_ctx \<times> bool) option" where
  "tls_crypt_v2_extract_client_key B L now buf ctx opt initial_packet =
     (if kc_cipher (tw_tls_crypt_v2_server_key ctx) = None then Some (buf, ctx, False)
      else do {
        let (wkc, ok) = buf_advance buf 1;
        if \<not> ok \<or> to_size_t (buf_len wkc) < 1 + 2 then Some (buf, ctx, False)
        else do {
          e \<leftarrow> buf_bend wkc;
          net_len \<leftarrow> buf_load wkc (e - 2) 2;
          let wkc_len = uint (de16 net_len);
          let (wkc, ok) = buf_advance wkc (buf_len wkc - wkc_len);
          if \<not> ok then Some (buf, ctx, False)
          else if \<not> initial_packet then do {
            let (buf, ok) = buf_inc_len buf (- buf_len wkc);
            cassert ok;
            Some (buf, ctx, True) }
          else do {
            metadata \<leftarrow> alloc_buf TLS_CRYPT_V2_MAX_METADATA_LEN;
            (keydata, metadata, ok) \<leftarrow> tls_crypt_v2_unwrap_client_key B L (tw_original_wrap_keydata ctx) metadata wkc
              (tw_tls_crypt_v2_server_key ctx);
            let ctx = ctx\<lparr>tw_tls_crypt_v2_metadata := metadata, tw_original_wrap_keydata := keydata\<rparr>;
            if \<not> ok then Some (buf, ctx\<lparr>tw_original_wrap_keydata := zero_key2\<rparr>, False)
            else do {
              ok \<leftarrow> (case opt of
                  Some o' \<Rightarrow> if 0 < to_tls_crypt_v2_max_age o' then tls_crypt_v2_check_client_key_age now ctx (to_tls_crypt_v2_max_age o') else Some True
                | None \<Rightarrow> Some True);
              if \<not> ok then Some (buf, ctx\<lparr>tw_original_wrap_keydata := zero_key2\<rparr>, False)
              else do {
                ok \<leftarrow> (case opt of
                    Some o' \<Rightarrow> (case to_tls_crypt_v2_verify_script o' of Some script \<Rightarrow> tls_crypt_v2_verify_metadata script ctx | None \<Rightarrow> Some True)
                  | None \<Rightarrow> Some True);
                if \<not> ok then Some (buf, ctx\<lparr>tw_original_wrap_keydata := zero_key2\<rparr>, False)
                else do {
                  let ctx = ctx\<lparr>tw_mode := TLS_WRAP_CRYPT, tw_cleanup_key_ctx := True,
                    tw_opt := (tw_opt ctx)\<lparr>co_flags := co_flags (tw_opt ctx) OR CO_PACKET_ID_LONG_FORM,
                      co_encrypt := clear_key_ctx, co_decrypt := clear_key_ctx, co_initialized := False\<rparr>\<rparr>;
                  co \<leftarrow> tls_crypt_v2_load_client_key B L (tw_opt ctx) (tw_original_wrap_keydata ctx) True;
                  let (buf, ok) = buf_inc_len buf (- buf_len wkc);
                  cassert ok;
                  Some (buf, ctx\<lparr>tw_opt := co\<rparr>, True) } } } } } })"

text \<open>Contexts made for opposite directions meet.\<close>

lemma load_client_key_meets:
  assumes "tls_crypt_v2_load_client_key B L co k False = Some co'" "k2_keys k = k2_keys k'"
  shows "tls_crypt_v2_load_client_key B L co2 k' True =
    Some (co2\<lparr>co_encrypt := co_decrypt co', co_decrypt := co_encrypt co', co_initialized := True\<rparr>)"
  using assms by (auto simp: tls_crypt_v2_load_client_key_def init_key_ctx_bi_def key_direction_state_init_def KEY_DIRECTION_NORMAL_def
      KEY_DIRECTION_INVERSE_def init_key_bi_ctx_send_def init_key_bi_ctx_recv_def Let_def split: Option.bind_splits)

text \<open>What the options ask of the metadata.\<close>

definition v2_policy_accepts :: "c_time \<Rightarrow> tls_crypt_v2_options option \<Rightarrow> byte list \<Rightarrow> bool" where
  "v2_policy_accepts now opt m = (case opt of None \<Rightarrow> True
     | Some o' \<Rightarrow> (0 < to_tls_crypt_v2_max_age o' \<longrightarrow> 9 \<le> length m \<and> m ! 0 = 1 \<and>
           now - sint (de64 (take 8 (drop 1 m))) \<le> to_tls_crypt_v2_max_age o' * 86400) \<and>
         (case to_tls_crypt_v2_verify_script o' of None \<Rightarrow> True | Some f \<Rightarrow> m \<noteq> [] \<and> f (hd m) (tl m)))"

lemma check_client_key_age_of:
  assumes "tw_tls_crypt_v2_metadata ctx = buf_of [] m q" "int (length m) < BUF_SIZE_MAX"
    and "0 \<le> now" "now < 2 ^ 63" "0 \<le> sint (de64 (take 8 (drop 1 m)))"
  shows "tls_crypt_v2_check_client_key_age now ctx days =
    Some (9 \<le> length m \<and> m ! 0 = 1 \<and> now - sint (de64 (take 8 (drop 1 m))) \<le> days * 86400)"
proof (cases "9 \<le> length m")
  case False
  then show ?thesis using assms(1) by (simp add: tls_crypt_v2_check_client_key_age_def to_size_t_def)
next
  case True
  have t: "take (Suc 0) m = [m ! 0]" using True by (cases m) auto
  have l: "buf_load (buf_of [] m q) 0 1 = Some [m ! 0]" "buf_load (buf_of [] m q) 1 8 = Some (take 8 (drop 1 m))"
    using buf_load_content[of 0 1 m "[]" q] buf_load_content[of 1 8 m "[]" q] True t by simp_all
  have s: "to_size_t (buf_len (buf_of [] m q)) = length m" using True assms(2) by (simp add: to_size_t_def BUF_SIZE_MAX_def)
  have r: "- (2 ^ 63) \<le> now - sint (de64 (take 8 (drop 1 m)))" "now - sint (de64 (take 8 (drop 1 m))) < 2 ^ 63"
    using assms(3-5) sint_lt[of "de64 (take 8 (drop 1 m))"] by simp_all
  have d: "days * 24 * 60 * 60 = days * 86400" by simp
  show ?thesis unfolding tls_crypt_v2_check_client_key_age_def assms(1) s l using True r
    by (auto simp: TLS_CRYPT_METADATA_TYPE_TIMESTAMP_def Let_def)
qed

lemma verify_metadata_of:
  assumes "tw_tls_crypt_v2_metadata ctx = buf_of [] m q"
  shows "tls_crypt_v2_verify_metadata f ctx = Some (m \<noteq> [] \<and> f (hd m) (tl m))"
proof (cases m)
  case Nil
  then show ?thesis using assms by (simp add: tls_crypt_v2_verify_metadata_def buf_read_u8_of)
next
  case (Cons a r)
  then show ?thesis using assms by (simp add: tls_crypt_v2_verify_metadata_def buf_read_u8_of buf_bytes_of)
qed

lemma wkc_image_last:
  assumes "wrap_laws L n cipher hmac"
  obtains f where "wkc_image L n cipher hmac plain = f @ be16 (word_of_nat (length (wkc_image L n cipher hmac plain)))"
  using that unfolding wkc_image_length[OF assms] by (simp add: wkc_image_def Let_def)

text \<open>C5: The client key of tls-crypt-v2 reaches the server.  The key, wrapped under the server's key with its
  metadata, is appended to a first packet; if the options accept the metadata, the server takes the
  wrapped key off the packet and holds the contexts of the client with the directions exchanged and
  the metadata as they were; if not, it leaves the packet and keeps no key.\<close>

theorem tls_crypt_v2_key_reaches_server:
  assumes laws: "wrap_laws L (cb_iv_size B (fst cipher)) cipher hmac" "stream_laws L (cb_iv_size B (fst cipher)) cipher"
    and server: "kc_cipher server_key = Some cipher" "kc_hmac server_key = Some hmac" "tw_tls_crypt_v2_server_key ctx = server_key"
    and k: "key2_ok k" and m: "length m \<le> 734" and bsz: "1024 + int (cl_block_size L (fst cipher)) < BUF_SIZE_MAX"
    and w: "buf_fits [] [] qw" "290 + length m \<le> length qw"
    and client: "tls_crypt_v2_load_client_key B L copt k False = Some copt'"
    and packet: "buf_fits p (a # body @ replicate (290 + length m) 0) q"
    and clock: "0 \<le> now" "now < 2 ^ 63" "0 \<le> sint (de64 (take 8 (drop 1 m)))"
  shows "\<exists>w ctx'. tls_crypt_v2_wrap_client_key B L (buf_of [] [] qw) k (buf_of [] m []) server_key =
      Some (buf_of [] w (drop (290 + length m) qw), True) \<and>
    tls_crypt_v2_extract_client_key B L now (buf_of p (a # body @ w) q) ctx opt True =
      Some (if v2_policy_accepts now opt m then buf_of p (a # body) (w @ q) else buf_of p (a # body @ w) q, ctx', v2_policy_accepts now opt m) \<and>
    (if v2_policy_accepts now opt m
     then tw_mode ctx' = TLS_WRAP_CRYPT \<and> co_encrypt (tw_opt ctx') = co_decrypt copt' \<and> co_decrypt (tw_opt ctx') = co_encrypt copt' \<and>
       k2_keys (tw_original_wrap_keydata ctx') = k2_keys k \<and> buf_content (tw_tls_crypt_v2_metadata ctx') = m
     else tw_mode ctx' = tw_mode ctx \<and> tw_opt ctx' = tw_opt ctx \<and> tw_original_wrap_keydata ctx' = zero_key2)"
proof -
  let ?ks = "keys_image (k2_keys k)"
  define s where "s = wkc_image L (cb_iv_size B (fst cipher)) cipher hmac (?ks @ m)"
  have lm: "int (length m) < BUF_SIZE_MAX" using m by (simp add: BUF_SIZE_MAX_def)
  have lk: "length ?ks = 256" by (rule keys_image_length[OF k])
  have ls: "length s = 290 + length m" unfolding s_def wkc_image_length[OF laws(1)] by (simp add: lk)
  have wrap: "tls_crypt_v2_wrap_client_key B L (buf_of [] [] qw) k (buf_of [] m []) server_key =
      Some (buf_of [] s (drop (290 + length m) qw), True)"
    using tls_crypt_v2_wrap_of[OF laws server(1,2) k m lm bsz w(1), of "[]"] w(2) by (simp add: s_def)
  obtain f where f: "s = f @ be16 (word_of_nat (length s))" using wkc_image_last[OF laws(1), of "?ks @ m"] unfolding s_def by blast
  have lf: "length s = length f + 2" using arg_cong[OF f, of length] by simp
  have fits: "buf_fits p (a # body @ s) q" "buf_fits (p @ a # body) s q" "buf_fits p (a # body) (s @ q)"
    using packet ls by (auto elim!: buf_fits_split)
  define mem where "mem = replicate 734 (0 :: byte)"
  have fm: "buf_fits [] [] mem" by (simp add: buf_fits_def BUF_SIZE_MAX_def mem_def)
  have alloc: "alloc_buf TLS_CRYPT_V2_MAX_METADATA_LEN = Some (buf_of [] [] mem)"
    using alloc_buf_ok[of 734] by (simp add: TLS_CRYPT_V2_MAX_METADATA_LEN_def TLS_CRYPT_V2_MAX_WKC_LEN_def TLS_CRYPT_V2_CLIENT_KEY_LEN_def
        TLS_CRYPT_TAG_SIZE_def BUF_SIZE_MAX_def mem_def)
  have unwrap: "tls_crypt_v2_unwrap_client_key B L (tw_original_wrap_keydata ctx) (buf_of [] [] mem) (buf_of (p @ a # body) s q) server_key =
      Some ((tw_original_wrap_keydata ctx)\<lparr>k2_keys := k2_keys k, k2_n := 2\<rparr>, buf_of [] m (drop (length m) mem), True)"
  proof -
    obtain k' md ok where r: "tls_crypt_v2_unwrap_client_key B L (tw_original_wrap_keydata ctx) (buf_of [] [] mem) (buf_of (p @ a # body) s q) server_key = Some (k', md, ok)"
      and imp: "\<forall>plain. length s \<le> 1024 \<and> s = wkc_image L (cb_iv_size B (fst cipher)) cipher hmac plain \<and> 256 \<le> length plain \<and> length plain \<le> length mem + 256 \<longrightarrow>
        ok \<and> k' = (tw_original_wrap_keydata ctx)\<lparr>k2_keys := image_keys plain, k2_n := 2\<rparr> \<and>
        md = buf_of [] ([] @ drop 256 plain) (drop (length plain - 256) mem)"
      using tls_crypt_v2_unwrap_of[OF laws(1) server(1,2) fits(2) fm, of "tw_original_wrap_keydata ctx"] by blast
    have "ok \<and> k' = (tw_original_wrap_keydata ctx)\<lparr>k2_keys := image_keys (?ks @ m), k2_n := 2\<rparr> \<and>
        md = buf_of [] ([] @ drop 256 (?ks @ m)) (drop (length (?ks @ m) - 256) mem)"
      by (rule imp[rule_format, of "?ks @ m"]) (use ls lk m s_def in \<open>simp add: mem_def\<close>)
    then show ?thesis using r by (simp add: lk image_keys_image[OF k])
  qed
  define ctx1 where "ctx1 = ctx\<lparr>tw_tls_crypt_v2_metadata := buf_of [] m (drop (length m) mem),
    tw_original_wrap_keydata := (tw_original_wrap_keydata ctx)\<lparr>k2_keys := k2_keys k, k2_n := 2\<rparr>\<rparr>"
  have md: "tw_tls_crypt_v2_metadata ctx1 = buf_of [] m (drop (length m) mem)" by (simp add: ctx1_def)
  note age = check_client_key_age_of[OF md lm clock]
  note script = verify_metadata_of[OF md]
  have adv1: "buf_advance (buf_of p (a # body @ s) q) 1 = (buf_of (p @ [a]) (body @ s) q, True)"
    by (simp add: buf_advance_of)
  have len: "to_size_t (int (length body + length s)) = length body + length s"
    using fits(1) by (simp add: to_size_t_def buf_fits_def BUF_SIZE_MAX_def)
  have bend: "buf_bend (buf_of (p @ [a]) (body @ s) q) = Some (int (length (p @ [a])) + int (length body + length s))" by (simp add: buf_bend_def)
  have net: "buf_load (buf_of (p @ [a]) (body @ s) q) (int (length (p @ [a])) + int (length body + length s) - 2) 2 = Some (be16 (word_of_nat (length s)))"
  proof -
    have pos: "int (length (p @ [a])) + int (length body + length s) - 2 = int (length (p @ [a])) + int (length (body @ f))"
      unfolding lf by simp
    have d: "drop (nat (int (length (body @ f)))) (body @ s) = be16 (word_of_nat (length s))" unfolding nat_int by (subst f) simp
    have b: "int (length (body @ f)) + 2 \<le> int (length (body @ s))" unfolding length_append lf by simp
    have t: "take (nat 2) (be16 x) = be16 x" for x by simp
    show ?thesis
      unfolding pos buf_load_content[OF of_nat_0_le_iff zero_le_numeral b] d t by (rule refl)
  qed
  have uw: "uint (word_of_nat (length s) :: u16) = int (length s)"
  proof -
    have "unat (word_of_nat (length s) :: u16) = length s"
      unfolding unat_of_nat using ls m by (intro mod_less) simp
    then show ?thesis by (simp only: uint_nat)
  qed
  have adv2: "buf_advance (buf_of (p @ [a]) (body @ s) q) (int (length body)) = (buf_of (p @ a # body) s q, True)"
    by (simp add: buf_advance_of)
  have inc: "buf_inc_len (buf_of p (a # body @ s) q) (- int (length s)) = (buf_of p (a # body) (s @ q), True)"
    using buf_inc_len_of[OF fits(1), of "- int (length s)"] by (simp add: nat_add_distrib)
  have big: "\<not> to_size_t (int (length body) + int (length s)) < 3" unfolding len[unfolded of_nat_add] using ls by simp
  have load: "tls_crypt_v2_load_client_key B L co (tw_original_wrap_keydata ctx1) True =
      Some (co\<lparr>co_encrypt := co_decrypt copt', co_decrypt := co_encrypt copt', co_initialized := True\<rparr>)" for co
    by (rule load_client_key_meets[OF client]) (simp add: ctx1_def)
  define age_ok where "age_ok = (case opt of None \<Rightarrow> True | Some o' \<Rightarrow> 0 < to_tls_crypt_v2_max_age o' \<longrightarrow>
    9 \<le> length m \<and> m ! 0 = 1 \<and> now - sint (de64 (take 8 (drop 1 m))) \<le> to_tls_crypt_v2_max_age o' * 86400)"
  define script_ok where "script_ok = (case opt of None \<Rightarrow> True | Some o' \<Rightarrow>
    case to_tls_crypt_v2_verify_script o' of None \<Rightarrow> True | Some f \<Rightarrow> m \<noteq> [] \<and> f (hd m) (tl m))"
  have policy: "v2_policy_accepts now opt m \<longleftrightarrow> age_ok \<and> script_ok"
    by (auto simp: v2_policy_accepts_def age_ok_def script_ok_def split: option.split)
  have age_run: "(case opt of Some o' \<Rightarrow> if 0 < to_tls_crypt_v2_max_age o' then tls_crypt_v2_check_client_key_age now ctx1 (to_tls_crypt_v2_max_age o') else Some True
      | None \<Rightarrow> Some True) = Some age_ok"
    by (simp add: age age_ok_def split: option.split)
  have script_run: "(case opt of Some o' \<Rightarrow> (case to_tls_crypt_v2_verify_script o' of Some f \<Rightarrow> tls_crypt_v2_verify_metadata f ctx1 | None \<Rightarrow> Some True)
      | None \<Rightarrow> Some True) = Some script_ok"
    by (simp add: script script_ok_def split: option.split)
  define ctx2 where "ctx2 = (if v2_policy_accepts now opt m
    then ctx1\<lparr>tw_mode := TLS_WRAP_CRYPT, tw_cleanup_key_ctx := True,
      tw_opt := (tw_opt ctx)\<lparr>co_flags := co_flags (tw_opt ctx) OR CO_PACKET_ID_LONG_FORM,
        co_encrypt := co_decrypt copt', co_decrypt := co_encrypt copt', co_initialized := True\<rparr>\<rparr>
    else ctx1\<lparr>tw_original_wrap_keydata := zero_key2\<rparr>)"
  have opt1: "tw_opt ctx1 = tw_opt ctx" "tw_mode ctx1 = tw_mode ctx" by (simp_all add: ctx1_def)
  have run: "tls_crypt_v2_extract_client_key B L now (buf_of p (a # body @ s) q) ctx opt True =
      Some (if v2_policy_accepts now opt m then buf_of p (a # body) (s @ q) else buf_of p (a # body @ s) q, ctx2, v2_policy_accepts now opt m)"
    unfolding tls_crypt_v2_extract_client_key_def
    using adv1 big bend net adv2 inc alloc unwrap server load[unfolded ctx1_def] uw age_run[unfolded ctx1_def] script_run[unfolded ctx1_def]
    by (cases age_ok; cases script_ok) (simp_all add: Let_def policy ctx2_def ctx1_def)
  show ?thesis
    using wrap run by (intro exI[of _ s] exI[of _ ctx2]) (simp add: ctx2_def opt1 md, simp add: ctx1_def)
qed

text \<open>C6: Only wrapped keys are unwrapped.  Whatever bytes arrive, unwrapping a client key does not abort; it
  succeeds exactly for the images under the server's key that fit, gives the keys and the metadata of
  the image, and otherwise clears the key and leaves the metadata.\<close>

theorem tls_crypt_v2_unwrap_exact:
  assumes "wrap_laws L (cb_iv_size B (fst cipher)) cipher hmac"
    and "kc_cipher server_key = Some cipher" "kc_hmac server_key = Some hmac"
    and "buf_fits p s q" "buf_fits [] [] qm"
  shows "\<exists>k' md ok. tls_crypt_v2_unwrap_client_key B L k (buf_of [] [] qm) (buf_of p s q) server_key = Some (k', md, ok) \<and>
    (ok \<longleftrightarrow> length s \<le> 1024 \<and> (\<exists>plain. s = wkc_image L (cb_iv_size B (fst cipher)) cipher hmac plain \<and> 256 \<le> length plain \<and> length plain \<le> length qm + 256)) \<and>
    (if ok then k2_n k' = 2 \<and> s = wkc_image L (cb_iv_size B (fst cipher)) cipher hmac (keys_image (k2_keys k') @ buf_content md)
     else k' = zero_key2 \<and> md = buf_of [] [] qm)"
proof -
  let ?img = "wkc_image L (cb_iv_size B (fst cipher)) cipher hmac"
  obtain k' md ok where r: "tls_crypt_v2_unwrap_client_key B L k (buf_of [] [] qm) (buf_of p s q) server_key = Some (k', md, ok)"
    and imp: "\<And>plain. length s \<le> 1024 \<and> s = ?img plain \<and> 256 \<le> length plain \<and> length plain \<le> length qm + 256 \<Longrightarrow>
       ok \<and> k' = k\<lparr>k2_keys := image_keys plain, k2_n := 2\<rparr> \<and> md = buf_of [] ([] @ drop 256 plain) (drop (length plain - 256) qm)"
    and res: "if ok then length s \<le> 1024 \<and> (\<exists>plain. s = ?img plain \<and> 256 \<le> length plain \<and> length plain \<le> length qm + 256)
       else k' = zero_key2 \<and> md = buf_of [] [] qm"
    using tls_crypt_v2_unwrap_of[OF assms(1-4,5), of k] by blast
  have iff: "ok \<longleftrightarrow> length s \<le> 1024 \<and> (\<exists>plain. s = ?img plain \<and> 256 \<le> length plain \<and> length plain \<le> length qm + 256)"
    using imp res by (cases ok) (simp, blast)
  have val: "k2_n k' = 2 \<and> s = ?img (keys_image (k2_keys k') @ buf_content md)" if isok: ok
  proof -
    obtain plain where p: "length s \<le> 1024" "s = ?img plain" "256 \<le> length plain" "length plain \<le> length qm + 256" using isok iff by blast
    have v: "k' = k\<lparr>k2_keys := image_keys plain, k2_n := 2\<rparr>" "md = buf_of [] ([] @ drop 256 plain) (drop (length plain - 256) qm)"
      using imp[of plain] p by blast+
    have e: "keys_image (k2_keys k') @ buf_content md = plain" unfolding v using keys_image_image[OF p(3)] by simp
    show ?thesis
    proof
      show "k2_n k' = 2" by (simp add: v(1))
      show "s = ?img (keys_image (k2_keys k') @ buf_content md)" unfolding e by (rule p(2))
    qed
  qed
  have "if ok then k2_n k' = 2 \<and> s = ?img (keys_image (k2_keys k') @ buf_content md) else k' = zero_key2 \<and> md = buf_of [] [] qm"
    using val res unfolding if_bool_eq_conj by blast
  then show ?thesis using r iff by blast
qed

lemma toy_stream_laws: "stream_laws toy_lib 12 cipher"
  by (simp add: stream_laws_def toy_lib_def)

definition toy_server_key :: key_ctx where
  "toy_server_key = clear_key_ctx\<lparr>kc_cipher := Some toy_ctx, kc_hmac := Some toy_ctx\<rparr>"

theorem tls_crypt_v2_unwrap_exact_witness:
  "\<exists>k' md. tls_crypt_v2_unwrap_client_key toy_backend toy_lib zero_key2 (buf_of [] [] (replicate 9 0)) (buf_of [7] [0, 2] []) toy_server_key =
    Some (k', md, False) \<and> k' = zero_key2"
proof -
  have iv: "cb_iv_size toy_backend n = 12" for n by (simp add: toy_backend_def)
  have laws: "wrap_laws toy_lib (cb_iv_size toy_backend (fst toy_ctx)) toy_ctx toy_ctx" unfolding iv by (rule toy_lib_laws)
  have f: "buf_fits [7] [0, 2] []" "buf_fits [] [] (replicate 9 0)" by (simp_all add: buf_fits_def BUF_SIZE_MAX_def)
  have c: "kc_cipher toy_server_key = Some toy_ctx" "kc_hmac toy_server_key = Some toy_ctx" by (simp_all add: toy_server_key_def)
  have no: "[0, 2] \<noteq> wkc_image toy_lib (cb_iv_size toy_backend (fst toy_ctx)) toy_ctx toy_ctx plain" for plain
  proof
    assume "[0, 2] = wkc_image toy_lib (cb_iv_size toy_backend (fst toy_ctx)) toy_ctx toy_ctx plain"
    then have "length [0, 2 :: byte] = 34 + length plain" by (simp only: wkc_image_length[OF laws])
    then show False by simp
  qed
  show ?thesis using tls_crypt_v2_unwrap_exact[OF laws c f, of zero_key2] no by auto
qed

theorem tls_crypt_v2_key_reaches_server_witness:
  "\<exists>k w ctx ctx'. tls_crypt_v2_wrap_client_key toy_backend toy_lib (buf_of [] [] (replicate 300 0)) k (buf_of [] [5] []) toy_server_key =
      Some (buf_of [] w (drop 291 (replicate 300 0)), True) \<and>
    tls_crypt_v2_extract_client_key toy_backend toy_lib 100 (buf_of [] (80 # [1, 2] @ w) []) ctx None True = Some (buf_of [] [80, 1, 2] (w @ []), ctx', True) \<and>
    tw_mode ctx' = TLS_WRAP_CRYPT \<and> k2_keys (tw_original_wrap_keydata ctx') = k2_keys k"
proof -
  let ?k = "zero_key2\<lparr>k2_n := 2\<rparr>"
  let ?ctx = "\<lparr>tw_mode = TLS_WRAP_NONE, tw_opt = toy_options, tw_work = clear_buf, tw_tls_crypt_v2_server_key = toy_server_key,
    tw_tls_crypt_v2_wkc = None, tw_tls_crypt_v2_metadata = clear_buf, tw_cleanup_key_ctx = False, tw_original_wrap_keydata = zero_key2\<rparr>"
  have iv: "cb_iv_size toy_backend n = 12" for n by (simp add: toy_backend_def)
  have laws: "wrap_laws toy_lib (cb_iv_size toy_backend (fst toy_ctx)) toy_ctx toy_ctx"
    "stream_laws toy_lib (cb_iv_size toy_backend (fst toy_ctx)) toy_ctx" unfolding iv by (rule toy_lib_laws, rule toy_stream_laws)
  have c: "kc_cipher toy_server_key = Some toy_ctx" "kc_hmac toy_server_key = Some toy_ctx"
    "tw_tls_crypt_v2_server_key ?ctx = toy_server_key" by (simp_all add: toy_server_key_def)
  have k: "key2_ok ?k" by (simp add: key2_ok_def zero_key2_def zero_key_def MAX_CIPHER_KEY_LENGTH_def MAX_HMAC_KEY_LENGTH_def)
  have f: "buf_fits [] [] (replicate 300 0)" "buf_fits [] (80 # [1, 2] @ replicate (290 + length [5 :: byte]) 0) []"
    by (simp_all add: buf_fits_def BUF_SIZE_MAX_def)
  obtain copt' where load: "tls_crypt_v2_load_client_key toy_backend toy_lib toy_options ?k False = Some copt'"
    by (simp add: tls_crypt_v2_load_client_key_def tls_crypt_kt_def create_kt_def toy_lib_def init_key_ctx_bi_def key_direction_state_init_def
        KEY_DIRECTION_NORMAL_def KEY_DIRECTION_INVERSE_def init_key_bi_ctx_send_def init_key_bi_ctx_recv_def init_key_ctx_def
        key_ctx_update_implicit_iv_def Let_def zero_key2_def zero_key_def key_parameters_from_key_def toy_backend_def cipher_defined_def md_defined_def
        MAX_CIPHER_KEY_LENGTH_def MAX_HMAC_KEY_LENGTH_def clear_key_parameters_def mem_read_def cipher_ctx_mode_aead_def)
  have b: "1024 + int (cl_block_size toy_lib (fst toy_ctx)) < BUF_SIZE_MAX" by (simp add: toy_lib_def BUF_SIZE_MAX_def)
  have pol: "v2_policy_accepts 100 None [5]" by (simp add: v2_policy_accepts_def)
  have z: "0 \<le> sint (de64 (take 8 (drop 1 [5 :: byte])))" by (simp add: de64_def nat_be_def)
  show ?thesis
    using tls_crypt_v2_key_reaches_server[OF laws c k _ b f(1) _ load f(2) _ _ z, of 100 None] pol
    by (intro exI[of _ ?k]) auto
qed

section \<open>Dynamic keys\<close>

text \<open>The keying material the TLS session exports, the size of a buffer of the frame, the replay options and the
  key id of the session are arguments; the context for renegotiations after the call, and its result.\<close>

definition tls_session_generate_dynamic_tls_crypt_key ::
  "crypto_backend \<Rightarrow> cipher_lib \<Rightarrow> byte list option \<Rightarrow> nat \<Rightarrow> int \<Rightarrow> int \<Rightarrow> int \<Rightarrow> bool \<Rightarrow> tls_wrap_ctx \<Rightarrow> tls_wrap_ctx \<Rightarrow>
   (tls_wrap_ctx \<times> bool) option" where
  "tls_session_generate_dynamic_tls_crypt_key B L exported buf_size replay_window replay_time key_id server tls_wrap reneg =
     (case exported of
        None \<Rightarrow> Some (reneg, False)
      | Some bytes \<Rightarrow> do {
          let rengokeys = \<lparr>k2_n = 2, k2_keys = image_keys bytes\<rparr>;
          work \<leftarrow> alloc_buf buf_size;
          let reneg = reneg\<lparr>tw_opt := (tw_opt tls_wrap)\<lparr>co_pid_persist := None\<rparr>, tw_mode := TLS_WRAP_CRYPT,
            tw_cleanup_key_ctx := True, tw_work := work\<rparr>;
          pid \<leftarrow> packet_id_init replay_window replay_time (Some ''TLS_WRAP_RENEG'') key_id;
          rengokeys \<leftarrow> (if tw_mode tls_wrap = TLS_WRAP_CRYPT \<or> tw_mode tls_wrap = TLS_WRAP_AUTH
            then xor_key2 rengokeys (tw_original_wrap_keydata tls_wrap) else Some rengokeys);
          let key_direction = (if server then KEY_DIRECTION_NORMAL else KEY_DIRECTION_INVERSE);
          kt \<leftarrow> tls_crypt_kt L;
          co \<leftarrow> init_key_ctx_bi B ((tw_opt reneg)\<lparr>co_packet_id := pid\<rparr>) rengokeys key_direction kt;
          Some (reneg\<lparr>tw_opt := co\<rparr>, True) })"

lemma xor_key2_keys:
  assumes "k2_keys b = k2_keys c" "k2_n b = 2" "k2_n c = 2"
  shows "xor_key2 a b = xor_key2 a c"
  using assms by (simp add: xor_key2_def)

lemma init_ctx_bi_meets:
  assumes "init_key_ctx_bi B co k KEY_DIRECTION_INVERSE kt = Some co'"
  shows "init_key_ctx_bi B co2 k KEY_DIRECTION_NORMAL kt =
    Some (co2\<lparr>co_encrypt := co_decrypt co', co_decrypt := co_encrypt co', co_initialized := True\<rparr>)"
  using assms by (auto simp: init_key_ctx_bi_def key_direction_state_init_def KEY_DIRECTION_NORMAL_def
      KEY_DIRECTION_INVERSE_def init_key_bi_ctx_send_def init_key_bi_ctx_recv_def Let_def split: Option.bind_splits)

text \<open>C7: The keys for renegotiations meet.  Where client and server export the same keying material and hold
  the same original keys, and the client can make its contexts, the server makes the same ones with
  the directions exchanged, and starts with a fresh replay window of its own options.\<close>

theorem dynamic_keys_meet:
  assumes "tls_session_generate_dynamic_tls_crypt_key B L (Some bytes) n w t kid False cwrap creneg = Some (creneg', ok)"
    and "tw_mode swrap = tw_mode cwrap"
    and "k2_keys (tw_original_wrap_keydata swrap) = k2_keys (tw_original_wrap_keydata cwrap)"
    and "k2_n (tw_original_wrap_keydata swrap) = 2" "k2_n (tw_original_wrap_keydata cwrap) = 2"
    and "int n' < BUF_SIZE_MAX" "0 < w'" "w' \<le> 65536" "0 \<le> t'" "t' \<le> 600"
  shows "ok \<and> (\<exists>sreneg'. tls_session_generate_dynamic_tls_crypt_key B L (Some bytes) n' (int w') t' kid' True swrap sreneg = Some (sreneg', True) \<and>
    co_encrypt (tw_opt sreneg') = co_decrypt (tw_opt creneg') \<and> co_decrypt (tw_opt sreneg') = co_encrypt (tw_opt creneg') \<and>
    tw_mode sreneg' = TLS_WRAP_CRYPT \<and> window_rel w' (pi_rec (co_packet_id (tw_opt sreneg'))) (0, 0, {}) \<and>
    pi_send (co_packet_id (tw_opt sreneg')) = clear_send \<and> co_flags (tw_opt sreneg') = co_flags (tw_opt swrap))"
proof -
  let ?keys = "\<lparr>k2_n = 2, k2_keys = image_keys bytes\<rparr>"
  let ?mix = "\<lambda>m o'. if m = TLS_WRAP_CRYPT \<or> m = TLS_WRAP_AUTH then xor_key2 ?keys o' else Some ?keys"
  obtain keys kt co0 co where c: "?mix (tw_mode cwrap) (tw_original_wrap_keydata cwrap) = Some keys" "tls_crypt_kt L = Some kt"
    "init_key_ctx_bi B co0 keys KEY_DIRECTION_INVERSE kt = Some co" "tw_opt creneg' = co" ok
    using assms(1) unfolding tls_session_generate_dynamic_tls_crypt_key_def by (auto simp: Let_def split: Option.bind_splits)
  have mix: "?mix (tw_mode swrap) (tw_original_wrap_keydata swrap) = Some keys"
    using c(1) unfolding assms(2) xor_key2_keys[OF assms(3-5)] .
  obtain pid where pid: "packet_id_init (int w') t' (Some ''TLS_WRAP_RENEG'') kid' = Some pid" "window_rel w' (pi_rec pid) (0, 0, {})" "pi_send pid = clear_send"
    using packet_id_init_rel[OF assms(7-10)] by blast
  show ?thesis
    using c(2,4,5) mix pid alloc_buf_ok[OF assms(6)] init_ctx_bi_meets[OF c(3)]
    unfolding tls_session_generate_dynamic_tls_crypt_key_def by (simp add: Let_def split del: if_split)
qed

definition toy_wrap :: tls_wrap_ctx where
  "toy_wrap = \<lparr>tw_mode = TLS_WRAP_CRYPT, tw_opt = toy_options, tw_work = clear_buf, tw_tls_crypt_v2_server_key = toy_server_key,
    tw_tls_crypt_v2_wkc = None, tw_tls_crypt_v2_metadata = clear_buf, tw_cleanup_key_ctx = False, tw_original_wrap_keydata = zero_key2\<lparr>k2_n := 2\<rparr>\<rparr>"

theorem dynamic_keys_meet_witness:
  "\<exists>c s. tls_session_generate_dynamic_tls_crypt_key toy_backend toy_lib (Some (replicate 256 7)) 1600 64 15 0 False toy_wrap toy_wrap = Some (c, True) \<and>
    tls_session_generate_dynamic_tls_crypt_key toy_backend toy_lib (Some (replicate 256 7)) 1500 (int 128) 30 0 True toy_wrap toy_wrap = Some (s, True) \<and>
    co_encrypt (tw_opt s) = co_decrypt (tw_opt c) \<and> co_decrypt (tw_opt s) = co_encrypt (tw_opt c)"
proof -
  obtain pid where pid: "packet_id_init 64 15 (Some ''TLS_WRAP_RENEG'') 0 = Some pid"
    using packet_id_init_rel[of 64 15 "Some ''TLS_WRAP_RENEG''" 0] by auto
  have al: "alloc_buf 1600 = Some (buf_of [] [] (replicate 1600 0))" using alloc_buf_ok[of 1600] by (simp add: BUF_SIZE_MAX_def)
  have img: "image_keys (replicate 256 7) = [\<lparr>key_cipher = replicate 64 7, key_hmac = replicate 64 7\<rparr>, \<lparr>key_cipher = replicate 64 7, key_hmac = replicate 64 7\<rparr>]"
    by (simp add: image_keys_def image_key_def MAX_CIPHER_KEY_LENGTH_def MAX_HMAC_KEY_LENGTH_def)
  have mix: "xor_key2 \<lparr>k2_n = 2, k2_keys = image_keys (replicate 256 7)\<rparr> (tw_original_wrap_keydata toy_wrap) =
      Some \<lparr>k2_n = 2, k2_keys = image_keys (replicate 256 7)\<rparr>"
    unfolding img by (simp add: xor_key2_def toy_wrap_def zero_key2_def zero_key_def zip_replicate MAX_CIPHER_KEY_LENGTH_def MAX_HMAC_KEY_LENGTH_def)
  have ini: "\<exists>co. init_key_ctx_bi toy_backend co0 \<lparr>k2_n = 2, k2_keys = image_keys (replicate 256 7)\<rparr> KEY_DIRECTION_INVERSE
      \<lparr>kt_cipher = ''AES-256-CTR'', kt_digest = ''SHA256''\<rparr> = Some co" for co0
    unfolding img by (simp add: init_key_ctx_bi_def key_direction_state_init_def
        KEY_DIRECTION_NORMAL_def KEY_DIRECTION_INVERSE_def init_key_bi_ctx_send_def init_key_bi_ctx_recv_def init_key_ctx_def
        key_ctx_update_implicit_iv_def Let_def key_parameters_from_key_def toy_backend_def cipher_defined_def md_defined_def
        MAX_CIPHER_KEY_LENGTH_def MAX_HMAC_KEY_LENGTH_def clear_key_parameters_def mem_read_def cipher_ctx_mode_aead_def)
  obtain co where co: "init_key_ctx_bi toy_backend ((tw_opt toy_wrap)\<lparr>co_pid_persist := None, co_packet_id := pid\<rparr>)
      \<lparr>k2_n = 2, k2_keys = image_keys (replicate 256 7)\<rparr> KEY_DIRECTION_INVERSE \<lparr>kt_cipher = ''AES-256-CTR'', kt_digest = ''SHA256''\<rparr> = Some co"
    using ini by blast
  have "tls_crypt_kt toy_lib = Some \<lparr>kt_cipher = ''AES-256-CTR'', kt_digest = ''SHA256''\<rparr>"
    by (simp add: tls_crypt_kt_def create_kt_def toy_lib_def)
  moreover have "tw_mode toy_wrap = TLS_WRAP_CRYPT" by (simp add: toy_wrap_def)
  ultimately have "\<exists>c. tls_session_generate_dynamic_tls_crypt_key toy_backend toy_lib (Some (replicate 256 7)) 1600 64 15 0 False toy_wrap toy_wrap = Some (c, True)"
    unfolding tls_session_generate_dynamic_tls_crypt_key_def using al pid mix co by (simp add: Let_def)
  then obtain c where c: "tls_session_generate_dynamic_tls_crypt_key toy_backend toy_lib (Some (replicate 256 7)) 1600 64 15 0 False toy_wrap toy_wrap = Some (c, True)"
    by blast
  have n: "k2_n (tw_original_wrap_keydata toy_wrap) = 2" by (simp add: toy_wrap_def)
  have b: "int 1500 < BUF_SIZE_MAX" by (simp add: BUF_SIZE_MAX_def)
  show ?thesis using dynamic_keys_meet[OF c refl refl n n b, of 128 30 0 toy_wrap] c by auto
qed

end
