(* ===== verification/Ovpn_Pool.thy ===== *)
theory Ovpn_Pool
  imports Ovpn_Text
begin

text \<open>
  The pool of tunnel addresses of a server (\<open>pool.h\<close>, \<open>pool.c\<close>): clients acquire and release entries, an
  entry stands for an IPv4 address (or a subnet of four) and an IPv6 address, a client that returns gets
  its old entry if it is free.  Names and addresses are kept in a file.
\<close>

unbundle bit_operations_syntax

section \<open>State\<close>

datatype pool_type = IFCONFIG_POOL_30NET | IFCONFIG_POOL_INDIV

record ifconfig_pool_entry =
  pe_in_use :: bool
  pe_common_name :: "byte list option"
  pe_last_release :: c_time
  pe_fixed :: bool

definition clear_pool_entry :: ifconfig_pool_entry where
  "clear_pool_entry = \<lparr>pe_in_use = False, pe_common_name = None, pe_last_release = 0, pe_fixed = False\<rparr>"

record ifconfig_pool =
  po_duplicate_cn :: bool
  po_ipv4_enabled :: bool
  po_ipv4_type :: pool_type
  po_ipv4_base :: u32
  po_ipv6_enabled :: bool
  po_ipv6_base :: "byte list"
  po_size :: int
  po_list :: "ifconfig_pool_entry list"

type_synonym ifconfig_pool_handle = int

definition IFCONFIG_POOL_MAX :: u32 where "IFCONFIG_POOL_MAX = 65536"

section \<open>Addresses\<close>

text \<open>The loop over the bytes of an address, from byte \<open>i - 1\<close> down.\<close>

fun add_in6_loop :: "nat \<Rightarrow> byte list \<Rightarrow> u32 \<Rightarrow> byte list" where
  "add_in6_loop 0 base add = base"
| "add_in6_loop (Suc i) base add =
     (if \<not> 0 < add then base
      else (let h = ucast (base ! i) :: u32;
                base = base[i := ucast ((h + add) AND 0xFF)];
                carry = drop_bit 8 ((h AND 0xFF) + (add AND 0xFF));
                add = drop_bit 8 add + carry
            in add_in6_loop i base add))"

definition add_in6_addr :: "byte list \<Rightarrow> u32 \<Rightarrow> byte list" where
  "add_in6_addr base add = add_in6_loop 16 base add"

section \<open>Entries\<close>

definition ifconfig_pool_entry_free :: "c_time \<Rightarrow> ifconfig_pool_entry \<Rightarrow> bool \<Rightarrow> ifconfig_pool_entry" where
  "ifconfig_pool_entry_free now ipe hard =
     ipe\<lparr>pe_in_use := False, pe_common_name := (if hard then None else pe_common_name ipe),
         pe_last_release := (if hard then 0 else now)\<rparr>"

text \<open>The loop over the entries from index \<open>i\<close> on; the result is the earlier and the new place.\<close>

fun pool_find_loop ::
  "bool \<Rightarrow> byte list option \<Rightarrow> ifconfig_pool_entry list \<Rightarrow> int \<Rightarrow> c_time \<Rightarrow> int \<Rightarrow> int \<Rightarrow> int \<times> int" where
  "pool_find_loop dup cn [] i earliest_release previous_usage new_usage = (previous_usage, new_usage)"
| "pool_find_loop dup cn (ipe # rest) i earliest_release previous_usage new_usage =
     (if \<not> pe_in_use ipe
      then if dup then (previous_usage, i)
        else (let (earliest_release, new_usage) =
                (if (new_usage = -1 \<or> pe_last_release ipe < earliest_release) \<and> \<not> pe_fixed ipe
                 then (pe_last_release ipe, i) else (earliest_release, new_usage));
              previous_usage =
                (if previous_usage < 0 \<and> cn \<noteq> None \<and> pe_common_name ipe \<noteq> None \<and> cn = pe_common_name ipe then i else previous_usage)
            in pool_find_loop dup cn rest (i + 1) earliest_release previous_usage new_usage)
      else pool_find_loop dup cn rest (i + 1) earliest_release previous_usage new_usage)"

definition ifconfig_pool_find :: "ifconfig_pool \<Rightarrow> byte list option \<Rightarrow> int" where
  "ifconfig_pool_find pool common_name =
     (let (previous_usage, new_usage) = pool_find_loop (po_duplicate_cn pool) common_name (take (nat (po_size pool)) (po_list pool)) 0 0 (-1) (-1)
      in if previous_usage \<ge> 0 then previous_usage
         else if new_usage \<ge> 0 then new_usage
         else -1)"

definition ifconfig_pool_verify_range :: "u32 \<Rightarrow> u32 \<Rightarrow> bool" where
  "ifconfig_pool_verify_range start end' = (\<not> start > end' \<and> \<not> end' - start \<ge> IFCONFIG_POOL_MAX)"

section \<open>The pool\<close>

text \<open>A shift that C leaves undefined, an assertion and a fatal message are \<open>None\<close>.\<close>

definition pool_ipv4_init :: "pool_type \<Rightarrow> u32 \<Rightarrow> u32 \<Rightarrow> u32 \<times> int" where
  "pool_ipv4_init type start end' = (case type of
     IFCONFIG_POOL_30NET \<Rightarrow> (let base = start AND NOT 3 in (base, uint (drop_bit 2 (((end' OR 3) + 1) - base))))
   | IFCONFIG_POOL_INDIV \<Rightarrow> (start, uint (end' - start + 1)))"

definition pool_ipv6_init :: "byte list \<Rightarrow> int \<Rightarrow> (byte list \<times> int) option" where
  "pool_ipv6_init ipv6_base ipv6_netbits = do {
     let base = de32 (drop 12 ipv6_base);
     base \<leftarrow> (if 128 - ipv6_netbits < 32
       then do {
         cassert (0 \<le> 128 - ipv6_netbits \<and> 128 - ipv6_netbits < 31);
         let mask' = push_bit (nat (128 - ipv6_netbits)) 1 - 1;
         Some (base AND mask') }
       else Some base);
     let (base, addr) = (if base = 0 then (base + 1, ipv6_base[15 := ipv6_base ! 15 + 1]) else (base, ipv6_base));
     Some (addr, if ipv6_netbits \<ge> 112 then sint (push_bit (nat (128 - ipv6_netbits)) 1 - base) else uint IFCONFIG_POOL_MAX) }"

definition ifconfig_pool_init ::
  "bool \<Rightarrow> pool_type \<Rightarrow> u32 \<Rightarrow> u32 \<Rightarrow> bool \<Rightarrow> bool \<Rightarrow> byte list \<Rightarrow> int \<Rightarrow> ifconfig_pool option" where
  "ifconfig_pool_init ipv4_pool type start end' duplicate_cn ipv6_pool ipv6_base ipv6_netbits = do {
     cassert (start \<le> end' \<and> end' - start < IFCONFIG_POOL_MAX);
     let pool = \<lparr>po_duplicate_cn = duplicate_cn, po_ipv4_enabled = ipv4_pool, po_ipv4_type = IFCONFIG_POOL_30NET, po_ipv4_base = 0,
       po_ipv6_enabled = ipv6_pool, po_ipv6_base = replicate 16 0, po_size = 0, po_list = []\<rparr>;
     pool \<leftarrow> (if ipv4_pool
       then do {
         let (base, pool_ipv4_size) = pool_ipv4_init type start end';
         cassert (\<not> pool_ipv4_size < 2);
         Some (pool\<lparr>po_ipv4_type := type, po_ipv4_base := base, po_size := pool_ipv4_size\<rparr>) }
       else Some pool);
     pool \<leftarrow> (if ipv6_pool
       then do {
         (base, pool_ipv6_size) \<leftarrow> pool_ipv6_init ipv6_base ipv6_netbits;
         cassert (\<not> pool_ipv6_size < 2);
         Some (pool\<lparr>po_ipv6_base := base, po_size := (if po_size pool \<le> 0 \<or> pool_ipv6_size < po_size pool then pool_ipv6_size else po_size pool)\<rparr>) }
       else Some pool);
     cassert (po_size pool > 0);
     Some (pool\<lparr>po_list := replicate (nat (po_size pool)) clear_pool_entry\<rparr>) }"

definition ifconfig_pool_free :: "c_time \<Rightarrow> ifconfig_pool option \<Rightarrow> ifconfig_pool_entry list option" where
  "ifconfig_pool_free now pool = map_option (\<lambda>p. map (\<lambda>e. ifconfig_pool_entry_free now e True) (take (nat (po_size p)) (po_list p))) pool"

text \<open>The handle, and what is stored behind the pointers: the local and the remote IPv4 address, and the IPv6 address.\<close>

definition ifconfig_pool_acquire ::
  "c_time \<Rightarrow> ifconfig_pool \<Rightarrow> bool \<Rightarrow> bool \<Rightarrow> byte list option \<Rightarrow>
   (ifconfig_pool \<times> ifconfig_pool_handle \<times> (u32 \<times> u32) option \<times> byte list option) option" where
  "ifconfig_pool_acquire now pool ipv4 ipv6 common_name =
     (let i = ifconfig_pool_find pool common_name in
      if i \<ge> 0 then do {
        let ipe = po_list pool ! nat i;
        cassert (\<not> pe_in_use ipe);
        let ipe = ifconfig_pool_entry_free now ipe True;
        let ipe = ipe\<lparr>pe_in_use := True\<rparr>;
        let ipe = (case common_name of Some n \<Rightarrow> ipe\<lparr>pe_common_name := Some n\<rparr> | None \<Rightarrow> ipe);
        let addrs = (if po_ipv4_enabled pool \<and> ipv4
          then Some (case po_ipv4_type pool of
              IFCONFIG_POOL_30NET \<Rightarrow> (let b = po_ipv4_base pool + word_of_int (i * 4) in (b + 1, b + 2))
            | IFCONFIG_POOL_INDIV \<Rightarrow> (let b = po_ipv4_base pool + word_of_int i in (0, b)))
          else None);
        let addr6 = (if po_ipv6_enabled pool \<and> ipv6 then Some (add_in6_addr (po_ipv6_base pool) (word_of_int i)) else None);
        Some (pool\<lparr>po_list := (po_list pool)[nat i := ipe]\<rparr>, i, addrs, addr6) }
      else Some (pool, i, None, None))"

definition ifconfig_pool_release ::
  "c_time \<Rightarrow> ifconfig_pool option \<Rightarrow> ifconfig_pool_handle \<Rightarrow> bool \<Rightarrow> ifconfig_pool option \<times> bool" where
  "ifconfig_pool_release now pool hand hard = (case pool of
     Some p \<Rightarrow> if hand \<ge> 0 \<and> hand < po_size p
       then (Some (p\<lparr>po_list := (po_list p)[nat hand := ifconfig_pool_entry_free now (po_list p ! nat hand) hard]\<rparr>), True)
       else (Some p, False)
   | None \<Rightarrow> (None, False))"

section \<open>Handles and addresses\<close>

definition ifconfig_pool_ip_base_to_handle :: "ifconfig_pool \<Rightarrow> u32 \<Rightarrow> ifconfig_pool_handle" where
  "ifconfig_pool_ip_base_to_handle pool addr =
     (let ret = (case po_ipv4_type pool of
          IFCONFIG_POOL_30NET \<Rightarrow> sint (drop_bit 2 (addr - po_ipv4_base pool))
        | IFCONFIG_POOL_INDIV \<Rightarrow> sint (addr - po_ipv4_base pool))
      in if ret < 0 \<or> ret \<ge> po_size pool then -1 else ret)"

definition ifconfig_pool_ipv6_base_to_handle :: "ifconfig_pool \<Rightarrow> byte list \<Rightarrow> ifconfig_pool_handle" where
  "ifconfig_pool_ipv6_base_to_handle pool in_addr =
     (if \<not> (\<forall>i<12. po_ipv6_base pool ! i = in_addr ! i) then -1
      else (let base = de32 (drop 12 (po_ipv6_base pool)); addr = de32 (drop 12 in_addr); ret = sint (addr - base)
            in if ret < 0 \<or> ret \<ge> po_size pool then -1 else ret))"

definition ifconfig_pool_handle_to_ip_base :: "ifconfig_pool \<Rightarrow> ifconfig_pool_handle \<Rightarrow> u32" where
  "ifconfig_pool_handle_to_ip_base pool hand =
     (if po_ipv4_enabled pool \<and> hand \<ge> 0 \<and> hand < po_size pool
      then (case po_ipv4_type pool of
          IFCONFIG_POOL_30NET \<Rightarrow> po_ipv4_base pool + word_of_int (hand * 4)
        | IFCONFIG_POOL_INDIV \<Rightarrow> po_ipv4_base pool + word_of_int hand)
      else 0)"

definition ifconfig_pool_handle_to_ipv6_base :: "ifconfig_pool \<Rightarrow> ifconfig_pool_handle \<Rightarrow> byte list" where
  "ifconfig_pool_handle_to_ipv6_base pool hand =
     (if po_ipv6_enabled pool \<and> hand \<ge> 0 \<and> hand < po_size pool
      then add_in6_addr (po_ipv6_base pool) (word_of_int hand) else replicate 16 0)"

section \<open>The file\<close>

definition ifconfig_pool_set ::
  "c_time \<Rightarrow> ifconfig_pool \<Rightarrow> byte list \<Rightarrow> ifconfig_pool_handle \<Rightarrow> bool \<Rightarrow> ifconfig_pool option" where
  "ifconfig_pool_set now pool cn h fixed = do {
     cassert (0 \<le> h \<and> h < int (length (po_list pool)));
     let e = ifconfig_pool_entry_free now (po_list pool ! nat h) True;
     Some (pool\<lparr>po_list := (po_list pool)[nat h := e\<lparr>pe_in_use := False, pe_common_name := Some cn, pe_last_release := now, pe_fixed := fixed\<rparr>]\<rparr>) }"

text \<open>Printing and parsing of addresses are parameters.  \<open>status_printf\<close> cuts a line at its buffer and then
  stops writing for good.\<close>

record pool_text =
  pt_print4 :: "u32 \<Rightarrow> byte list"
  pt_print6 :: "byte list \<Rightarrow> byte list"
  pt_getaddr :: "byte list \<Rightarrow> u32 option"
  pt_get_ipv6_addr :: "byte list \<Rightarrow> byte list option"

definition STATUS_PRINTF_MAXLEN :: nat where "STATUS_PRINTF_MAXLEN = 512"

definition status_printf :: "byte list \<times> bool \<Rightarrow> byte list \<Rightarrow> byte list \<times> bool" where
  "status_printf so line =
     (let (out, errors) = so;
          errors = (errors \<or> length line \<ge> STATUS_PRINTF_MAXLEN)
      in if errors then (out, errors) else (out @ line @ [10], errors))"

definition pool_entry_line :: "pool_text \<Rightarrow> ifconfig_pool \<Rightarrow> int \<Rightarrow> byte list \<Rightarrow> byte list" where
  "pool_entry_line T pool i name =
     name @ [44] @ (if po_ipv4_enabled pool then pt_print4 T (ifconfig_pool_handle_to_ip_base pool i) else []) @
     [44] @ (if po_ipv6_enabled pool then pt_print6 T (ifconfig_pool_handle_to_ipv6_base pool i) else [])"

fun pool_list_loop :: "pool_text \<Rightarrow> ifconfig_pool \<Rightarrow> ifconfig_pool_entry list \<Rightarrow> int \<Rightarrow> byte list \<times> bool \<Rightarrow> byte list \<times> bool" where
  "pool_list_loop T pool [] i so = so"
| "pool_list_loop T pool (e # rest) i so =
     (case pe_common_name e of
        Some name \<Rightarrow> pool_list_loop T pool rest (i + 1) (status_printf so (pool_entry_line T pool i name))
      | None \<Rightarrow> pool_list_loop T pool rest (i + 1) so)"

text \<open>The file is rewritten from its start.\<close>

definition ifconfig_pool_list :: "pool_text \<Rightarrow> ifconfig_pool \<Rightarrow> byte list \<times> bool \<Rightarrow> byte list \<times> bool" where
  "ifconfig_pool_list T pool so = pool_list_loop T pool (take (nat (po_size pool)) (po_list pool)) 0 so"

definition ifconfig_pool_write :: "pool_text \<Rightarrow> ifconfig_pool \<Rightarrow> byte list \<times> bool" where
  "ifconfig_pool_write T pool = ifconfig_pool_list T pool ([], False)"

text \<open>\<open>status_read\<close> on the rest of the file: the line in the buffer and the rest after it.\<close>

fun status_read_loop :: "byte list \<Rightarrow> buffer \<Rightarrow> bool \<Rightarrow> (byte list \<times> buffer \<times> bool) option" where
  "status_read_loop [] buf ret = Some ([], buf, ret)"
| "status_read_loop (c # input) buf ret =
     (if c = 13 then status_read_loop input buf True
      else if c = 10 then Some (input, buf, True)
      else do { (buf, _) \<leftarrow> buf_write_u8 buf c; status_read_loop input buf True })"

definition status_read :: "byte list \<Rightarrow> buffer \<Rightarrow> (byte list \<times> buffer \<times> bool) option" where
  "status_read input buf = do {
     (input, buf, ret) \<leftarrow> status_read_loop input buf False;
     buf \<leftarrow> buf_null_terminate buf;
     Some (input, buf, ret) }"

text \<open>The body of the loop for one line.\<close>

definition pool_read_line :: "pool_text \<Rightarrow> c_time \<Rightarrow> bool \<Rightarrow> buffer \<Rightarrow> ifconfig_pool \<Rightarrow> ifconfig_pool option" where
  "pool_read_line T now fixed in' pool =
     (if buf_len in' = 0 then Some pool
      else do {
        c \<leftarrow> buf_peek_u8 in';
        if c = 35 \<or> c = 59 then Some pool
        else do {
          (in', cn_buf, ok) \<leftarrow> buf_parse in' 44 128;
          if \<not> ok then Some pool
          else do {
            (in', ip_buf, ok) \<leftarrow> buf_parse in' 44 128;
            if \<not> ok then Some pool
            else do {
              let h = (if 0 < length ip_buf
                then (case pt_getaddr T ip_buf of None \<Rightarrow> -1 | Some addr \<Rightarrow> ifconfig_pool_ip_base_to_handle pool addr) else -1);
              (in', ip6_buf, ok) \<leftarrow> buf_parse in' 44 128;
              let h = (if ok \<and> 0 < length ip6_buf
                then (case pt_get_ipv6_addr T ip6_buf of None \<Rightarrow> h
                      | Some addr6 \<Rightarrow> (let h6 = ifconfig_pool_ipv6_base_to_handle pool addr6 in if h < 0 then h6 else h))
                else h);
              if h \<ge> 0 then ifconfig_pool_set now pool cn_buf h fixed else Some pool } } } })"

function pool_read_loop :: "pool_text \<Rightarrow> c_time \<Rightarrow> bool \<Rightarrow> byte list \<Rightarrow> buffer \<Rightarrow> ifconfig_pool \<Rightarrow> ifconfig_pool option" where
  "pool_read_loop T now fixed input in' pool =
     (case buf_init in' 0 of (in', ok) \<Rightarrow>
        if \<not> ok then None
        else (case status_read input in' of
            None \<Rightarrow> None
          | Some (input', in', ret) \<Rightarrow>
              if \<not> ret then Some pool
              else (case pool_read_line T now fixed in' pool of
                  None \<Rightarrow> None
                | Some pool \<Rightarrow> pool_read_loop T now fixed input' in' pool)))"
  by pat_completeness auto

lemma status_read_loop_shorter:
  "status_read_loop input buf r = Some (input', buf', ret) \<Longrightarrow> length input' \<le> length input \<and> (ret \<longrightarrow> r \<or> length input' < length input)"
proof (induction input arbitrary: buf r)
  case (Cons c input)
  then show ?case by (fastforce split: if_splits Option.bind_splits)
qed simp

termination pool_read_loop
proof (relation "measure (\<lambda>(T, now, fixed, input, in', pool). length input)")
qed (auto simp: status_read_def split: Option.bind_splits dest: status_read_loop_shorter)

declare pool_read_loop.simps [simp del]

definition ifconfig_pool_read :: "(nat \<Rightarrow> byte) \<Rightarrow> pool_text \<Rightarrow> c_time \<Rightarrow> bool \<Rightarrow> byte list \<Rightarrow> ifconfig_pool \<Rightarrow> ifconfig_pool option" where
  "ifconfig_pool_read mem T now fixed input pool = do {
     in' \<leftarrow> alloc_buf_gc mem 256;
     pool_read_loop T now fixed input in' pool }"

section \<open>Facts about addresses\<close>

lemma unat_and_255: "unat (x AND 0xFF) = unat x mod 256" for x :: u32
proof -
  have "(0xFF :: u32) = mask 8" by (simp add: mask_eq_exp_minus_1)
  then have "x AND 0xFF = take_bit 8 x" by (simp only: take_bit_eq_mask)
  then have "unat (x AND 0xFF) = take_bit 8 (unat x)" by (simp only: unsigned_take_bit_eq)
  then show ?thesis by (simp add: take_bit_eq_mod)
qed

lemma add_in6_loop_be:
  "i \<le> length base \<Longrightarrow> add_in6_loop i base add = be_nat i (nat_be (take i base) + unat add) @ drop i base"
proof (induction i arbitrary: base add)
  case 0
  then show ?case by simp
next
  case (Suc i)
  have tk: "take (Suc i) base = take i base @ [base ! i]" using Suc.prems by (simp add: take_Suc_conv_app_nth)
  show ?case
  proof (cases "add = 0")
    case True
    have "be_nat (Suc i) (nat_be (take (Suc i) base)) = take (Suc i) base" using Suc.prems by (intro be_nat_nat_be) simp
    then show ?thesis using True by (simp del: be_nat.simps)
  next
    case False
    define h :: u32 where "h = ucast (base ! i)"
    have uh: "unat h = unat (base ! i)" "unat h < 256"
      using unat_less_2p[of "base ! i"] by (simp_all add: h_def unsigned_ucast_eq take_bit_eq_mod)
    have ua: "unat (h AND 0xFF) = unat h" "unat (add AND 0xFF) = unat add mod 256"
      using uh(2) unat_and_255[of h] unat_and_255[of add] by simp_all
    define b :: byte where "b = ucast ((h + add) AND 0xFF)"
    have ub: "unat b = (unat h + unat add) mod 256"
    proof -
      have "unat b = unat (h + add) mod 256" 
        using unat_and_255[of "h + add"] by (simp add: b_def unsigned_ucast_eq take_bit_eq_mod)
      also have "\<dots> = (unat h + unat add) mod 256" by (simp add: unat_word_ariths mod_mod_cancel)
      finally show ?thesis .
    qed
    define add' where "add' = drop_bit 8 add + drop_bit 8 ((h AND 0xFF) + (add AND 0xFF))"
    have uadd: "unat add' = (unat h + unat add) div 256"
    proof -
      have s: "unat ((h AND 0xFF) + (add AND 0xFF)) = unat h + unat add mod 256"
        using uh(2) by (subst unat_add_lem[THEN iffD1]) (simp_all add: ua)
      have l: "unat add div 256 + (unat h + unat add mod 256) div 256 < 2 ^ 32" using unat_less_2p[of add] uh(2) by simp
      have d: "unat (drop_bit 8 x) = unat x div 256" for x :: u32
      proof -
        have "unat (drop_bit 8 x) = drop_bit 8 (unat x)" by (simp only: unat_drop_bit_eq)
        then show ?thesis by (simp add: drop_bit_eq_div)
      qed
      have "unat add' = (unat (drop_bit 8 add) + unat (drop_bit 8 ((h AND 0xFF) + (add AND 0xFF)))) mod 2 ^ LENGTH(32)"
        unfolding add'_def by (rule unat_word_ariths(1))
      also have "\<dots> = (unat add div 256 + (unat h + unat add mod 256) div 256) mod 2 ^ 32" by (simp only: d s) simp
      also have "\<dots> = unat add div 256 + (unat h + unat add mod 256) div 256" by (rule mod_less[OF l])
      also have "\<dots> = (unat h + unat add) div 256"
      proof -
        have "unat h + unat add = (unat h + unat add mod 256) + unat add div 256 * 256" using mod_div_mult_eq[of "unat add" 256] by linarith
        moreover have "((unat h + unat add mod 256) + unat add div 256 * 256) div 256 = unat add div 256 + (unat h + unat add mod 256) div 256"
          by (rule div_mult_self1) simp
        ultimately show ?thesis by argo
      qed
      finally show ?thesis .
    qed
    have "add_in6_loop (Suc i) base add = add_in6_loop i (base[i := b]) add'"
      using False by (simp add: Let_def h_def[symmetric] b_def[symmetric] add'_def[symmetric] word_neq_0_conv[symmetric])
    also have "\<dots> = be_nat i (nat_be (take i base) + (unat h + unat add) div 256) @ b # drop (Suc i) base"
      using Suc.IH[of "base[i := b]" add'] Suc.prems uadd by (simp add: Cons_nth_drop_Suc[symmetric] drop_update_cancel)
    also have "\<dots> = be_nat (Suc i) (nat_be (take (Suc i) base) + unat add) @ drop (Suc i) base"
    proof -
      have e: "nat_be (take (Suc i) base) + unat add = 256 * nat_be (take i base) + (unat h + unat add)" by (simp add: tk uh(1))
      have "b = word_of_nat (nat_be (take (Suc i) base) + unat add)"
      proof (rule word_unat_eq_iff[THEN iffD2])
        have g: "unat (word_of_nat x :: byte) = x mod 256" for x by (subst unat_of_nat) simp
        show "unat b = unat (word_of_nat (nat_be (take (Suc i) base) + unat add) :: byte)" unfolding g e ub by simp
      qed
      moreover have "(nat_be (take (Suc i) base) + unat add) div 256 = nat_be (take i base) + (unat h + unat add) div 256"
        unfolding e by simp
      ultimately show ?thesis by simp
    qed
    finally show ?thesis .
  qed
qed

lemma add_in6_addr_nat:
  assumes "length base = 16"
  shows "length (add_in6_addr base a) = 16" "nat_be (add_in6_addr base a) = (nat_be base + unat a) mod 2 ^ 128"
  using add_in6_loop_be[of 16 base a] assms by (simp_all add: add_in6_addr_def nat_be_be_nat)

lemma unat_and_not3: "unat (x AND NOT 3) = unat x div 4 * 4" for x :: u32
proof -
  have m: "(3 :: u32) = mask 2" by (simp add: mask_eq_exp_minus_1)
  have "x AND NOT 3 = push_bit 2 (drop_bit 2 x)" 
  proof (rule bit_word_eqI)
    fix n
    have "\<not> n < 2 \<Longrightarrow> Suc (Suc (n - 2)) = n" by linarith
    then show "bit (x AND NOT 3) n = bit (push_bit 2 (drop_bit 2 x)) n" if "n < LENGTH(32)" unfolding m using that by (auto simp: bit_simps)
  qed
  moreover have "unat (push_bit 2 (drop_bit 2 x)) = take_bit 32 (push_bit 2 (drop_bit 2 (unat x)))"
    by (simp only: unsigned_push_bit_eq unat_drop_bit_eq) simp
  moreover have "push_bit 2 (drop_bit 2 (unat x)) = unat x div 4 * 4" by (simp add: push_bit_eq_mult drop_bit_eq_div)
  moreover have "unat x div 4 * 4 < 2 ^ 32" using unat_less_2p[of x] by (simp add: order_le_less_trans[OF div_times_less_eq_dividend])
  ultimately show ?thesis by (simp add: take_bit_nat_eq_self)
qed

lemma unat_or3: "unat (x OR 3) = unat x div 4 * 4 + 3" for x :: u32
proof -
  have "x OR 3 = (x AND NOT 3) OR 3" by (simp add: bit.disj_conj_distrib2)
  also have "\<dots> = (x AND NOT 3) + 3"
  proof (rule disjunctive_add[symmetric])
    have m: "(3 :: u32) = mask 2" by (simp add: mask_eq_exp_minus_1)
    show "\<not> bit (x AND NOT 3) n \<or> \<not> bit (3 :: u32) n" for n unfolding m by (auto simp: bit_simps)
  qed
  finally have e: "x OR 3 = (x AND NOT 3) + 3" .
  have "unat x div 4 \<le> 4294967295 div 4" using unat_less_2p[of x] by (intro div_le_mono) simp
  then have "unat (x AND NOT 3) + 3 < 2 ^ 32" unfolding unat_and_not3 by simp
  then show ?thesis unfolding e using unat_add_lem[of "x AND NOT 3" 3] unat_and_not3[of x] by simp
qed

lemma pool_ipv4_init_size:
  assumes "start \<le> end'" "end' - start < IFCONFIG_POOL_MAX" "pool_ipv4_init type start end' = (base, n)"
  shows "type = IFCONFIG_POOL_INDIV \<Longrightarrow> base = start \<and> n = int (unat end' - unat start + 1)"
    and "type = IFCONFIG_POOL_30NET \<Longrightarrow> unat base = unat start div 4 * 4 \<and> n = int (unat end' div 4 - unat start div 4 + 1)"
    and "0 < n" "n \<le> 65536"
proof -
  have le: "unat start \<le> unat end'" using assms(1) by (simp add: word_le_nat_alt)
  have d: "unat (end' - start) = unat end' - unat start" using assms(1) by (rule unat_sub)
  then have b: "unat end' - unat start < 65536" using assms(2) by (simp add: word_less_nat_alt IFCONFIG_POOL_MAX_def)
  have s: "unat (end' - start + 1) = unat end' - unat start + 1" using b d by (subst unat_add_lem[THEN iffD1]) simp_all
  have indiv: "base = start \<and> n = int (unat end' - unat start + 1)" if "type = IFCONFIG_POOL_INDIV"
  proof -
    have "base = start \<and> n = uint (end' - start + 1)" using assms(3) that by (auto simp: pool_ipv4_init_def)
    then show ?thesis using s by (simp only: uint_nat)
  qed
  have net: "unat base = unat start div 4 * 4 \<and> n = int (unat end' div 4 - unat start div 4 + 1)" if t: "type = IFCONFIG_POOL_30NET"
  proof -
    have bs: "base = start AND NOT 3" "n = uint (drop_bit 2 ((end' OR 3) + 1 - (start AND NOT 3)))"
      using assms(3) t by (auto simp: pool_ipv4_init_def Let_def)
    have k: "unat start div 4 \<le> unat end' div 4" using le by (rule div_le_mono)
    have "((end' OR 3) + 1 - (start AND NOT 3) :: u32) = word_of_nat (4 * (unat end' div 4 - unat start div 4 + 1))"
    proof -
      have "((end' OR 3) + 1 - (start AND NOT 3) :: u32) = word_of_nat (unat (end' OR 3)) + 1 - word_of_nat (unat (start AND NOT 3))" by simp
      also have "\<dots> = word_of_nat (unat end' div 4 * 4 + 3) + 1 - word_of_nat (unat start div 4 * 4)" by (simp only: unat_or3 unat_and_not3)
      also have "\<dots> = word_of_nat (unat end' div 4 * 4 + 4) - word_of_nat (unat start div 4 * 4)" by simp
      also have "\<dots> = word_of_nat (unat end' div 4 * 4 + 4 - unat start div 4 * 4)" 
        using k by (simp add: of_nat_diff)
      also have "unat end' div 4 * 4 + 4 - unat start div 4 * 4 = 4 * (unat end' div 4 - unat start div 4 + 1)" using k by simp
      finally show ?thesis .
    qed
    moreover have "4 * (unat end' div 4 - unat start div 4 + 1) < 2 ^ 32" using b by simp
    ultimately have "unat ((end' OR 3) + 1 - (start AND NOT 3)) = 4 * (unat end' div 4 - unat start div 4 + 1)"
      by (simp only: unat_of_nat) simp
    moreover have "unat (drop_bit 2 y) = unat y div 4" for y :: u32
      by (simp only: unat_drop_bit_eq) (simp add: drop_bit_eq_div)
    ultimately have "unat (drop_bit 2 ((end' OR 3) + 1 - (start AND NOT 3))) = unat end' div 4 - unat start div 4 + 1" by simp
    then show ?thesis unfolding bs by (simp only: uint_nat unat_and_not3 simp_thms)
  qed
  show "type = IFCONFIG_POOL_INDIV \<Longrightarrow> base = start \<and> n = int (unat end' - unat start + 1)" by (rule indiv)
  show "type = IFCONFIG_POOL_30NET \<Longrightarrow> unat base = unat start div 4 * 4 \<and> n = int (unat end' div 4 - unat start div 4 + 1)" by (rule net)
  show "0 < n" "n \<le> 65536" using indiv net b by (cases type; simp)+
qed

lemma sint_le_unat: "sint x \<le> int (unat x)" for x :: u32
proof -
  have "sint x = signed_take_bit 31 (uint x)" by (simp add: sint_uint)
  also have "\<dots> \<le> uint x" using uint_ge_0[of x] by (simp add: signed_take_bit_int_less_eq_self_iff order_trans[OF _ uint_ge_0])
  finally show ?thesis by (simp only: uint_nat)
qed

lemma sint_small: "unat x < 2 ^ 31 \<Longrightarrow> sint x = int (unat x)" for x :: u32
proof -
  assume "unat x < 2 ^ 31"
  then have "int (unat x) < int (2 ^ 31)" by (simp only: of_nat_less_iff)
  then have "uint x < 2 ^ 31" by (simp only: uint_nat of_nat_power of_nat_numeral)
  then have "signed_take_bit 31 (uint x) = uint x" using uint_ge_0[of x] by (intro signed_take_bit_int_eq_self) linarith+
  then show ?thesis by (simp only: sint_uint uint_nat) simp
qed

text \<open>The value of the last four bytes cut to the host part, from which the IPv6 pool counts.\<close>

definition pool_host :: "byte list \<Rightarrow> int \<Rightarrow> nat" where
  "pool_host base netbits = nat_be (drop 12 base) mod 2 ^ nat (min 32 (128 - netbits))"

lemma pool_ipv6_init_size:
  assumes "pool_ipv6_init v6 netbits = Some (base, n)" "length v6 = 16"
  shows "length base = 16" "n \<le> 65536"
proof -
  define m where "m = (if 128 - netbits < 32 then de32 (drop 12 v6) AND (push_bit (nat (128 - netbits)) 1 - 1) else de32 (drop 12 v6))"
  define b where "b = (if m = 0 then 1 else m)"
  have r: "base = (if m = 0 then v6[15 := v6 ! 15 + 1] else v6)"
    "n = (if netbits \<ge> 112 then sint (push_bit (nat (128 - netbits)) 1 - b) else uint IFCONFIG_POOL_MAX)"
    "128 - netbits < 32 \<Longrightarrow> 0 \<le> 128 - netbits \<and> 128 - netbits < 31"
    using assms(1) by (auto simp: pool_ipv6_init_def m_def b_def Let_def split: if_splits Option.bind_splits)
  show "length base = 16" using r(1) assms(2) by simp
  show "n \<le> 65536"
  proof (cases "netbits \<ge> 112")
    case False
    then show ?thesis using r(2) by (simp add: IFCONFIG_POOL_MAX_def)
  next
    case True
    define k where "k = nat (128 - netbits)"
    have k: "k \<le> 16" using True by (simp add: k_def)
    have p: "unat (push_bit k 1 :: u32) = 2 ^ k"
    proof -
      have "(2 :: nat) ^ k < 2 ^ 32" using k by (intro power_strict_increasing) simp_all
      with k show ?thesis by (simp only: unsigned_push_bit_eq) (simp add: push_bit_eq_mult take_bit_nat_eq_self order_le_less_trans[OF k])
    qed
    have t: "(push_bit k 1 - 1 :: u32) = mask k" by (simp add: mask_eq_exp_minus_1 push_bit_eq_mult)
    have "unat m < 2 ^ k"
    proof -
      have "128 - netbits < 32" using True by simp
      then have "m = take_bit k (de32 (drop 12 v6))" unfolding m_def k_def[symmetric] t by (simp only: take_bit_eq_mask if_True)
      then have "unat m = take_bit k (unat (de32 (drop 12 v6)))" by (simp only: unsigned_take_bit_eq)
      then show ?thesis by (simp add: take_bit_eq_mod)
    qed
    then have "unat b \<le> 2 ^ k" by (simp add: b_def)
    then have "unat (push_bit k 1 - b :: u32) = 2 ^ k - unat b" using p by (subst unat_sub) (simp_all add: word_le_nat_alt)
    then have "sint (push_bit k 1 - b :: u32) \<le> int (2 ^ k - unat b)" using sint_le_unat[of "push_bit k 1 - b"] by metis
    also have "\<dots> \<le> int (2 ^ k)" by (rule of_nat_mono) simp
    also have "\<dots> = 2 ^ k" by simp
    also have "(2 :: int) ^ k \<le> 2 ^ 16" using k by (intro power_increasing) simp_all
    finally show ?thesis using r(2) True by (simp add: k_def)
  qed
qed

definition pool_ok :: "ifconfig_pool \<Rightarrow> bool" where
  "pool_ok p \<longleftrightarrow> po_size p = int (length (po_list p)) \<and> 0 < po_size p \<and> po_size p \<le> 65536 \<and> length (po_ipv6_base p) = 16"

lemma ifconfig_pool_init_ok:
  assumes "ifconfig_pool_init v4 type start end' dup v6 base netbits = Some p" "length base = 16"
  shows "pool_ok p" "po_list p = replicate (length (po_list p)) clear_pool_entry"
    "po_duplicate_cn p = dup" "po_ipv4_enabled p = v4" "po_ipv6_enabled p = v6"
    "v4 \<Longrightarrow> po_ipv4_type p = type \<and> start \<le> end' \<and> end' - start < IFCONFIG_POOL_MAX \<and>
       (\<exists>n. pool_ipv4_init type start end' = (po_ipv4_base p, n) \<and> po_size p \<le> n)"
    "v6 \<Longrightarrow> \<exists>n. pool_ipv6_init base netbits = Some (po_ipv6_base p, n) \<and> po_size p \<le> n"
proof -
  have s: "start \<le> end'" "end' - start < IFCONFIG_POOL_MAX"
    using assms(1) by (auto simp: ifconfig_pool_init_def split: if_splits Option.bind_splits)
  obtain b4 n4 where i4: "pool_ipv4_init type start end' = (b4, n4)" by fastforce
  note four = pool_ipv4_init_size(3,4)[OF s i4]
  have six: "\<forall>a b. pool_ipv6_init base netbits = Some (a, b) \<longrightarrow> length a = 16 \<and> b \<le> 65536"
    using pool_ipv6_init_size[OF _ assms(2)] by blast
  show "pool_ok p" "po_list p = replicate (length (po_list p)) clear_pool_entry"
    "po_duplicate_cn p = dup" "po_ipv4_enabled p = v4" "po_ipv6_enabled p = v6"
    "v4 \<Longrightarrow> po_ipv4_type p = type \<and> start \<le> end' \<and> end' - start < IFCONFIG_POOL_MAX \<and>
       (\<exists>n. pool_ipv4_init type start end' = (po_ipv4_base p, n) \<and> po_size p \<le> n)"
    "v6 \<Longrightarrow> \<exists>n. pool_ipv6_init base netbits = Some (po_ipv6_base p, n) \<and> po_size p \<le> n"
    using assms(1) four six s by (auto simp: ifconfig_pool_init_def pool_ok_def Let_def i4 split: if_splits Option.bind_splits)
qed

section \<open>Finding an entry\<close>

text \<open>Entries a client may get back, and entries anyone may get.\<close>

definition pool_returning :: "ifconfig_pool \<Rightarrow> byte list option \<Rightarrow> nat \<Rightarrow> bool" where
  "pool_returning p cn j \<longleftrightarrow> \<not> po_duplicate_cn p \<and> j < length (po_list p) \<and> \<not> pe_in_use (po_list p ! j) \<and>
     cn \<noteq> None \<and> pe_common_name (po_list p ! j) = cn"

definition pool_assignable :: "ifconfig_pool \<Rightarrow> nat \<Rightarrow> bool" where
  "pool_assignable p j \<longleftrightarrow> j < length (po_list p) \<and> \<not> pe_in_use (po_list p ! j) \<and> (po_duplicate_cn p \<or> \<not> pe_fixed (po_list p ! j))"

text \<open>What the loop knows of the entries before it.\<close>

definition first_at :: "(ifconfig_pool_entry \<Rightarrow> bool) \<Rightarrow> ifconfig_pool_entry list \<Rightarrow> int \<Rightarrow> bool" where
  "first_at R pre r \<longleftrightarrow> (if \<exists>e\<in>set pre. R e
     then \<exists>k. r = int k \<and> k < length pre \<and> R (pre ! k) \<and> (\<forall>j<k. \<not> R (pre ! j)) else r = -1)"

definition oldest_at :: "(ifconfig_pool_entry \<Rightarrow> bool) \<Rightarrow> ifconfig_pool_entry list \<Rightarrow> int \<Rightarrow> c_time \<Rightarrow> bool" where
  "oldest_at A pre r t \<longleftrightarrow> (if \<exists>e\<in>set pre. A e
     then \<exists>k. r = int k \<and> k < length pre \<and> A (pre ! k) \<and> t = pe_last_release (pre ! k) \<and>
       (\<forall>j<length pre. A (pre ! j) \<longrightarrow> t \<le> pe_last_release (pre ! j)) \<and> (\<forall>j<k. A (pre ! j) \<longrightarrow> t < pe_last_release (pre ! j))
     else r = -1)"

lemma first_at_snoc:
  assumes "first_at R pre r"
  shows "first_at R (pre @ [e]) (if r < 0 \<and> R e then int (length pre) else r)"
proof (cases "\<exists>e\<in>set pre. R e")
  case True
  then obtain k where k: "r = int k" "k < length pre" "R (pre ! k)" "\<forall>j<k. \<not> R (pre ! j)" using assms by (auto simp: first_at_def)
  then show ?thesis using True by (auto simp: first_at_def nth_append intro!: exI[of _ k])
next
  case False
  then have "r = -1" using assms by (simp add: first_at_def)
  moreover have "\<not> R (pre ! j)" if "j < length pre" for j using False that nth_mem by blast
  ultimately show ?thesis using False by (auto simp: first_at_def nth_append intro!: exI[of _ "length pre"])
qed

lemma oldest_at_snoc:
  assumes "oldest_at A pre r t"
  shows "oldest_at A (pre @ [e]) (if (r = -1 \<or> pe_last_release e < t) \<and> A e then int (length pre) else r)
    (if (r = -1 \<or> pe_last_release e < t) \<and> A e then pe_last_release e else t)"
proof (cases "\<exists>e\<in>set pre. A e")
  case True
  then obtain k where k: "r = int k" "k < length pre" "A (pre ! k)" "t = pe_last_release (pre ! k)"
    "\<forall>j<length pre. A (pre ! j) \<longrightarrow> t \<le> pe_last_release (pre ! j)" "\<forall>j<k. A (pre ! j) \<longrightarrow> t < pe_last_release (pre ! j)"
    using assms by (auto simp: oldest_at_def)
  have r: "r \<noteq> -1" "\<exists>x\<in>set (pre @ [e]). A x" using k(1) True by auto
  show ?thesis
  proof (cases "pe_last_release e < t \<and> A e")
    case take: True
    have "\<forall>j<length (pre @ [e]). A ((pre @ [e]) ! j) \<longrightarrow> pe_last_release e \<le> pe_last_release ((pre @ [e]) ! j)"
      using take k(5) by (fastforce simp: nth_append less_Suc_eq)
    moreover have "\<forall>j<length pre. A ((pre @ [e]) ! j) \<longrightarrow> pe_last_release e < pe_last_release ((pre @ [e]) ! j)"
      using take k(5) by (fastforce simp: nth_append)
    moreover have "(pre @ [e]) ! length pre = e" by simp
    ultimately show ?thesis unfolding oldest_at_def if_P[OF r(2)] using take r(1) by (intro exI[of _ "length pre"]) simp
  next
    case keep: False
    have "\<forall>j<length (pre @ [e]). A ((pre @ [e]) ! j) \<longrightarrow> t \<le> pe_last_release ((pre @ [e]) ! j)"
      using keep k(5) by (fastforce simp: nth_append less_Suc_eq not_less)
    moreover have "\<forall>j<k. A ((pre @ [e]) ! j) \<longrightarrow> t < pe_last_release ((pre @ [e]) ! j)"
      using k(2,6) by (simp add: nth_append)
    moreover have "(pre @ [e]) ! k = pre ! k" using k(2) by (simp add: nth_append)
    moreover have "\<not> ((r = -1 \<or> pe_last_release e < t) \<and> A e)" using keep r(1) by simp
    ultimately show ?thesis unfolding oldest_at_def if_P[OF r(2)] using k by (intro exI[of _ k]) (simp add: if_not_P)
  qed
next
  case False
  then have "r = -1" using assms by (simp add: oldest_at_def)
  moreover have "\<not> A (pre ! j)" if "j < length pre" for j using False that nth_mem by blast
  ultimately show ?thesis using False by (auto simp: oldest_at_def nth_append less_Suc_eq intro!: exI[of _ "length pre"])
qed

lemma pool_find_loop_spec:
  fixes cn
  defines "R \<equiv> \<lambda>e. \<not> pe_in_use e \<and> cn \<noteq> None \<and> pe_common_name e = cn" and "A \<equiv> \<lambda>e. \<not> pe_in_use e \<and> \<not> pe_fixed e"
  assumes "first_at R pre prev" "oldest_at A pre new t" "pool_find_loop False cn rest (int (length pre)) t prev new = (p, n)"
  shows "first_at R (pre @ rest) p \<and> (\<exists>t'. oldest_at A (pre @ rest) n t')"
  using assms(3-5)
proof (induction rest arbitrary: pre prev new t)
  case Nil
  then show ?case by auto
next
  case (Cons e rest)
  define prev' where "prev' = (if prev < 0 \<and> R e then int (length pre) else prev)"
  define new' where "new' = (if (new = -1 \<or> pe_last_release e < t) \<and> A e then int (length pre) else new)"
  define t' where "t' = (if (new = -1 \<or> pe_last_release e < t) \<and> A e then pe_last_release e else t)"
  have "pool_find_loop False cn (e # rest) (int (length pre)) t prev new = pool_find_loop False cn rest (int (length (pre @ [e]))) t' prev' new'"
    by (auto simp: prev'_def new'_def t'_def R_def A_def Let_def add.commute)
  then show ?case
    using Cons.IH[of "pre @ [e]" prev' new' t'] first_at_snoc[OF Cons.prems(1), of e] oldest_at_snoc[OF Cons.prems(2), of e] Cons.prems(3)
    by (simp add: prev'_def new'_def t'_def)
qed

lemma pool_find_dup:
  "pool_find_loop True cn rest (int i) t (-1) (-1) = (p, n) \<Longrightarrow> p = -1 \<and>
    (if \<exists>e\<in>set rest. \<not> pe_in_use e then \<exists>k. n = int (i + k) \<and> k < length rest \<and> \<not> pe_in_use (rest ! k) \<and> (\<forall>j<k. pe_in_use (rest ! j)) else n = -1)"
proof (induction rest arbitrary: i)
  case (Cons e rest)
  show ?case
  proof (cases "pe_in_use e")
    case True
    have IH: "p = -1 \<and> (if \<exists>e\<in>set rest. \<not> pe_in_use e
        then \<exists>k. n = int (Suc i + k) \<and> k < length rest \<and> \<not> pe_in_use (rest ! k) \<and> (\<forall>j<k. pe_in_use (rest ! j)) else n = -1)"
    proof (rule Cons.IH)
      show "pool_find_loop True cn rest (int (Suc i)) t (-1) (-1) = (p, n)" using Cons.prems True by (simp add: add.commute)
    qed
    show ?thesis
    proof (cases "\<exists>e\<in>set rest. \<not> pe_in_use e")
      case r: True
      then obtain k where k: "n = int (Suc i + k)" "k < length rest" "\<not> pe_in_use (rest ! k)" "\<forall>j<k. pe_in_use (rest ! j)" using IH by auto
      have ex: "\<exists>x\<in>set (e # rest). \<not> pe_in_use x" using r by auto
      have "\<forall>j<Suc k. pe_in_use ((e # rest) ! j)" using k(4) True by (auto simp: less_Suc_eq_0_disj)
      then show ?thesis unfolding if_P[OF ex] using IH k by (intro conjI exI[of _ "Suc k"]) simp_all
    next
      case False
      then show ?thesis using IH True by simp
    qed
  next
    case False
    then show ?thesis using Cons.prems by auto
  qed
qed simp

text \<open>A returning client gets its entry back.  The search returns the first free entry with the client's
  name; without one, the assignable entry that was released longest ago (the first of them; with
  duplicate names allowed simply the first free one); and \<open>-1\<close> exactly if there is none of either kind.\<close>

lemma pool_find_spec:
  assumes "pool_ok pool"
  shows "(if \<exists>j. pool_returning pool cn j
      then \<exists>k. ifconfig_pool_find pool cn = int k \<and> pool_returning pool cn k \<and> (\<forall>j<k. \<not> pool_returning pool cn j)
    else if \<exists>j. pool_assignable pool j
      then \<exists>k. ifconfig_pool_find pool cn = int k \<and> pool_assignable pool k \<and>
        (\<forall>j. pool_assignable pool j \<longrightarrow> po_duplicate_cn pool \<or> pe_last_release (po_list pool ! k) \<le> pe_last_release (po_list pool ! j)) \<and>
        (\<forall>j<k. pool_assignable pool j \<longrightarrow> \<not> po_duplicate_cn pool \<and> pe_last_release (po_list pool ! k) < pe_last_release (po_list pool ! j))
    else ifconfig_pool_find pool cn = -1)"
proof -
  let ?es = "po_list pool"
  have tk: "take (nat (po_size pool)) ?es = ?es" using assms by (simp add: pool_ok_def)
  obtain p n where r: "pool_find_loop (po_duplicate_cn pool) cn ?es 0 0 (-1) (-1) = (p, n)" by fastforce
  have f: "ifconfig_pool_find pool cn = (if p \<ge> 0 then p else if n \<ge> 0 then n else -1)"
    by (simp add: ifconfig_pool_find_def tk r)
  show ?thesis
  proof (cases "po_duplicate_cn pool")
    case True
    have d: "p = -1" "if \<exists>e\<in>set ?es. \<not> pe_in_use e
        then \<exists>k. n = int k \<and> k < length ?es \<and> \<not> pe_in_use (?es ! k) \<and> (\<forall>j<k. pe_in_use (?es ! j)) else n = -1"
      using pool_find_dup[of cn ?es 0 0 p n] r True by (auto split: if_splits)
    have e: "(\<exists>j. pool_assignable pool j) \<longleftrightarrow> (\<exists>e\<in>set ?es. \<not> pe_in_use e)"
      using True by (auto simp: pool_assignable_def Bex_def in_set_conv_nth)
    show ?thesis
    proof (cases "\<exists>e\<in>set ?es. \<not> pe_in_use e")
      case free: True
      then obtain k where "n = int k" "k < length ?es" "\<not> pe_in_use (?es ! k)" "\<forall>j<k. pe_in_use (?es ! j)" using d(2) by auto
      then show ?thesis using True d(1) e free f by (auto simp: pool_returning_def pool_assignable_def)
    next
      case False
      then show ?thesis using True d e f by (simp add: pool_returning_def)
    qed
  next
    case False
    let ?R = "\<lambda>e. \<not> pe_in_use e \<and> cn \<noteq> None \<and> pe_common_name e = cn" and ?A = "\<lambda>e. \<not> pe_in_use e \<and> \<not> pe_fixed e"
    have i: "first_at ?R [] (-1)" "oldest_at ?A [] (-1) 0" by (simp_all add: first_at_def oldest_at_def)
    obtain t where s: "first_at ?R ?es p" "oldest_at ?A ?es n t"
      using pool_find_loop_spec[OF i, of ?es p n] r False by auto
    have e: "(\<exists>j. pool_returning pool cn j) \<longleftrightarrow> (\<exists>e\<in>set ?es. ?R e)" "(\<exists>j. pool_assignable pool j) \<longleftrightarrow> (\<exists>e\<in>set ?es. ?A e)"
      using False by (auto simp: pool_returning_def pool_assignable_def Bex_def in_set_conv_nth)
    show ?thesis
    proof (cases "\<exists>e\<in>set ?es. ?R e")
      case R: True
      then obtain k where "p = int k" "k < length ?es" "?R (?es ! k)" "\<forall>j<k. \<not> ?R (?es ! j)" using s(1) by (auto simp: first_at_def)
      then show ?thesis using False R e(1) f by (auto simp: pool_returning_def)
    next
      case noR: False
      then have p: "p = -1" using s(1) by (simp add: first_at_def)
      show ?thesis
      proof (cases "\<exists>e\<in>set ?es. ?A e")
        case A: True
        then obtain k where k: "n = int k" "k < length ?es" "?A (?es ! k)" "t = pe_last_release (?es ! k)"
          "\<forall>j<length ?es. ?A (?es ! j) \<longrightarrow> t \<le> pe_last_release (?es ! j)" "\<forall>j<k. ?A (?es ! j) \<longrightarrow> t < pe_last_release (?es ! j)"
          using s(2) by (auto simp: oldest_at_def)
        have "ifconfig_pool_find pool cn = int k" using f p k(1) by simp
        then show ?thesis using False noR A e k(2-6) by (auto simp: pool_assignable_def)
      next
        case noA: False
        then have "n = -1" using s(2) by (simp add: oldest_at_def)
        then show ?thesis using noR noA e f p by simp
      qed
    qed
  qed
qed

section \<open>Runs of a pool\<close>

definition same_config :: "ifconfig_pool \<Rightarrow> ifconfig_pool \<Rightarrow> bool" where
  "same_config p p' \<longleftrightarrow> p' = p\<lparr>po_list := po_list p'\<rparr> \<and> length (po_list p') = length (po_list p)"

lemma same_configI: "length es = length (po_list p) \<Longrightarrow> same_config p (p\<lparr>po_list := es\<rparr>)"
  by (simp add: same_config_def)

lemma same_config_refl: "same_config p p"
  by (simp add: same_config_def)

lemma same_config_trans: "same_config p q \<Longrightarrow> same_config q r \<Longrightarrow> same_config p r"
  unfolding same_config_def by (metis (no_types, lifting) ifconfig_pool.fold_congs(8) ifconfig_pool.surjective ifconfig_pool.update_convs(8))

lemma same_configD:
  assumes "same_config p p'"
  shows "po_duplicate_cn p' = po_duplicate_cn p" "po_ipv4_enabled p' = po_ipv4_enabled p" "po_ipv4_type p' = po_ipv4_type p"
    "po_ipv4_base p' = po_ipv4_base p" "po_ipv6_enabled p' = po_ipv6_enabled p" "po_ipv6_base p' = po_ipv6_base p"
    "po_size p' = po_size p" "length (po_list p') = length (po_list p)"
  using assms unfolding same_config_def by (metis ifconfig_pool.select_convs(1-7) ifconfig_pool.surjective ifconfig_pool.update_convs(8))+

lemma same_config_ok: "same_config p p' \<Longrightarrow> pool_ok p \<Longrightarrow> pool_ok p'"
  unfolding pool_ok_def using same_configD(6-8)[of p p'] by metis

text \<open>What a client gets with the handle \<open>h\<close>.\<close>

definition pool_grant4 :: "ifconfig_pool \<Rightarrow> int \<Rightarrow> (u32 \<times> u32) option" where
  "pool_grant4 p h = (if po_ipv4_enabled p
     then Some (case po_ipv4_type p of
         IFCONFIG_POOL_30NET \<Rightarrow> (po_ipv4_base p + word_of_int (h * 4) + 1, po_ipv4_base p + word_of_int (h * 4) + 2)
       | IFCONFIG_POOL_INDIV \<Rightarrow> (0, po_ipv4_base p + word_of_int h)) else None)"

definition pool_grant6 :: "ifconfig_pool \<Rightarrow> int \<Rightarrow> byte list option" where
  "pool_grant6 p h = (if po_ipv6_enabled p then Some (add_in6_addr (po_ipv6_base p) (word_of_int h)) else None)"

lemma pool_grant_config:
  "same_config p p' \<Longrightarrow> pool_grant4 p' h = pool_grant4 p h" "same_config p p' \<Longrightarrow> pool_grant6 p' h = pool_grant6 p h"
  by (simp_all add: pool_grant4_def pool_grant6_def same_configD split: pool_type.split)

lemma ifconfig_pool_find_range:
  assumes "pool_ok p"
  shows "ifconfig_pool_find p cn = -1 \<or> (\<exists>k. ifconfig_pool_find p cn = int k \<and> k < length (po_list p) \<and> \<not> pe_in_use (po_list p ! k))"
  using pool_find_spec[OF assms, of cn] by (auto simp: pool_returning_def pool_assignable_def split: if_splits)

lemma ifconfig_pool_acquire_of:
  assumes "pool_ok p"
  shows "ifconfig_pool_acquire now p True True cn = Some
    (if ifconfig_pool_find p cn < 0 then (p, -1, None, None)
     else (p\<lparr>po_list := (po_list p)[nat (ifconfig_pool_find p cn) :=
         \<lparr>pe_in_use = True, pe_common_name = cn, pe_last_release = 0, pe_fixed = pe_fixed (po_list p ! nat (ifconfig_pool_find p cn))\<rparr>]\<rparr>,
       ifconfig_pool_find p cn, pool_grant4 p (ifconfig_pool_find p cn), pool_grant6 p (ifconfig_pool_find p cn)))"
proof (cases "ifconfig_pool_find p cn = -1")
  case True
  then show ?thesis by (simp add: ifconfig_pool_acquire_def)
next
  case False
  then obtain k where k: "ifconfig_pool_find p cn = int k" "k < length (po_list p)" "\<not> pe_in_use (po_list p ! k)"
    using ifconfig_pool_find_range[OF assms, of cn] by auto
  have e: "(case cn of None \<Rightarrow> ifconfig_pool_entry_free now e True\<lparr>pe_in_use := True\<rparr>
      | Some n \<Rightarrow> ifconfig_pool_entry_free now e True\<lparr>pe_in_use := True, pe_common_name := Some n\<rparr>) =
      \<lparr>pe_in_use = True, pe_common_name = cn, pe_last_release = 0, pe_fixed = pe_fixed e\<rparr>" for e
    by (cases e; cases cn) (simp_all add: ifconfig_pool_entry_free_def)
  show ?thesis using k
    by (simp add: ifconfig_pool_acquire_def Let_def e pool_grant4_def pool_grant6_def split: pool_type.split)
qed

text \<open>A line of the file changes at most the list, and makes no entry used.\<close>

lemma handle_range:
  "pool_ok p \<Longrightarrow> ifconfig_pool_ip_base_to_handle p a = -1 \<or> 0 \<le> ifconfig_pool_ip_base_to_handle p a \<and> ifconfig_pool_ip_base_to_handle p a < po_size p"
  "pool_ok p \<Longrightarrow> ifconfig_pool_ipv6_base_to_handle p b = -1 \<or> 0 \<le> ifconfig_pool_ipv6_base_to_handle p b \<and> ifconfig_pool_ipv6_base_to_handle p b < po_size p"
  by (auto simp: ifconfig_pool_ip_base_to_handle_def ifconfig_pool_ipv6_base_to_handle_def Let_def)

lemma ifconfig_pool_set_keeps:
  "ifconfig_pool_set now p cn h fixed = Some p' \<Longrightarrow> same_config p p' \<and>
   (\<forall>j<length (po_list p). pe_in_use (po_list p' ! j) \<longrightarrow> pe_in_use (po_list p ! j))"
  by (auto simp: ifconfig_pool_set_def nth_list_update intro!: same_configI split: if_splits)

lemma pool_read_line_keeps:
  assumes "pool_read_line T now fixed b p = Some p'"
  shows "same_config p p' \<and> (\<forall>j<length (po_list p). pe_in_use (po_list p' ! j) \<longrightarrow> pe_in_use (po_list p ! j))"
proof -
  have "p' = p \<or> (\<exists>cn h. ifconfig_pool_set now p cn h fixed = Some p')"
    using assms unfolding pool_read_line_def by (auto simp: Let_def split: if_splits Option.bind_splits prod.splits)
  then show ?thesis using ifconfig_pool_set_keeps same_config_refl by blast
qed

lemma pool_read_loop_keeps:
  "pool_read_loop T now fixed input b p = Some p' \<Longrightarrow>
    same_config p p' \<and> (\<forall>j<length (po_list p). pe_in_use (po_list p' ! j) \<longrightarrow> pe_in_use (po_list p ! j))"
proof (induction T now fixed input b p rule: pool_read_loop.induct)
  case (1 T now fixed input b p)
  obtain b1 ok where i: "buf_init b 0 = (b1, ok)" by fastforce
  have ok: ok using "1.prems" i by (subst (asm) pool_read_loop.simps) (auto split: if_splits)
  obtain input' b2 ret where r: "status_read input b1 = Some (input', b2, ret)"
    using "1.prems" i ok by (subst (asm) pool_read_loop.simps) (auto split: option.splits)
  show ?case
  proof (cases ret)
    case False
    then show ?thesis using "1.prems" i ok r by (subst (asm) pool_read_loop.simps) (simp add: same_config_refl)
  next
    case True
    obtain p1 where p1: "pool_read_line T now fixed b2 p = Some p1"
      using "1.prems" i ok r True by (subst (asm) pool_read_loop.simps) (auto split: option.splits)
    have rest: "pool_read_loop T now fixed input' b2 p1 = Some p'"
      using "1.prems" i ok r True p1 by (subst (asm) pool_read_loop.simps) simp
    have "same_config p1 p' \<and> (\<forall>j<length (po_list p1). pe_in_use (po_list p' ! j) \<longrightarrow> pe_in_use (po_list p1 ! j))"
      using "1.IH"[OF i[symmetric] _ r _ _ _ p1 rest] ok True by simp
    then show ?thesis using pool_read_line_keeps[OF p1] same_config_trans same_configD(8) by metis
  qed
qed

text \<open>The states a server's pool can reach: the file is read before any client connects, then clients acquire and
  give back what they hold.\<close>

type_synonym pool_held = "ifconfig_pool_handle \<times> (u32 \<times> u32) option \<times> byte list option"

inductive pool_reach :: "ifconfig_pool \<Rightarrow> ifconfig_pool \<Rightarrow> pool_held list \<Rightarrow> bool" for p0 where
  start: "pool_reach p0 p0 []"
| read: "pool_reach p0 p [] \<Longrightarrow> ifconfig_pool_read mem T now fixed input p = Some p' \<Longrightarrow> pool_reach p0 p' []"
| acquire: "pool_reach p0 p held \<Longrightarrow> ifconfig_pool_acquire now p True True cn = Some (p', h, a4, a6) \<Longrightarrow>
    pool_reach p0 p' (if h \<ge> 0 then (h, a4, a6) # held else held)"
| release: "pool_reach p0 p held \<Longrightarrow> x \<in> set held \<Longrightarrow> ifconfig_pool_release now (Some p) (fst x) hard = (Some p', ok) \<Longrightarrow>
    pool_reach p0 p' (remove1 x held)"

definition pool_inv :: "ifconfig_pool \<Rightarrow> ifconfig_pool \<Rightarrow> pool_held list \<Rightarrow> bool" where
  "pool_inv p0 p held \<longleftrightarrow> same_config p0 p \<and> distinct (map fst held) \<and>
     (\<forall>x\<in>set held. 0 \<le> fst x \<and> fst x < po_size p0 \<and> snd x = (pool_grant4 p0 (fst x), pool_grant6 p0 (fst x))) \<and>
     (\<forall>j<length (po_list p). pe_in_use (po_list p ! j) \<longleftrightarrow> int j \<in> fst ` set held)"

lemma pool_reach_inv:
  assumes "pool_reach p0 p held" "pool_ok p0" "\<forall>e\<in>set (po_list p0). \<not> pe_in_use e"
  shows "pool_inv p0 p held"
  using assms(1)
proof induction
  case start
  then show ?case using assms(3) by (simp add: pool_inv_def same_config_refl)
next
  case (read p mem T now fixed input p')
  obtain b where "pool_read_loop T now fixed input b p = Some p'"
    using read.hyps(2) by (auto simp: ifconfig_pool_read_def split: Option.bind_splits)
  note k = pool_read_loop_keeps[OF this]
  have "same_config p0 p'" using read.IH k same_config_trans unfolding pool_inv_def by blast
  moreover have "\<not> pe_in_use (po_list p' ! j)" if "j < length (po_list p')" for j
    using read.IH k that same_configD(8)[of p p'] by (auto simp: pool_inv_def)
  ultimately show ?case by (simp add: pool_inv_def)
next
  case (acquire p held now cn p' h a4 a6)
  have ok: "pool_ok p" using acquire.IH assms(2) same_config_ok by (auto simp: pool_inv_def)
  have sc: "same_config p0 p" using acquire.IH by (simp add: pool_inv_def)
  show ?case
  proof (cases "ifconfig_pool_find p cn = -1")
    case True
    then show ?thesis using acquire.IH acquire.hyps(2) by (simp add: ifconfig_pool_acquire_of[OF ok])
  next
    case False
    then obtain k where k: "ifconfig_pool_find p cn = int k" "k < length (po_list p)" "\<not> pe_in_use (po_list p ! k)"
      using ifconfig_pool_find_range[OF ok, of cn] by auto
    have r: "p' = p\<lparr>po_list := (po_list p)[k := \<lparr>pe_in_use = True, pe_common_name = cn, pe_last_release = 0, pe_fixed = pe_fixed (po_list p ! k)\<rparr>]\<rparr>"
      "h = int k" "a4 = pool_grant4 p0 (int k)" "a6 = pool_grant6 p0 (int k)"
      using acquire.hyps(2) k(1) by (auto simp: ifconfig_pool_acquire_of[OF ok] pool_grant_config[OF sc])
    have s: "same_config p0 p'" unfolding r(1) by (rule same_config_trans[OF sc]) (rule same_configI, simp)
    have fresh: "int k \<notin> fst ` set held" using acquire.IH k(2,3) by (auto simp: pool_inv_def)
    have size: "int k < po_size p0" using k(2) ok same_configD(7)[OF sc] by (simp add: pool_ok_def)
    show ?thesis using acquire.IH s fresh size k(2) unfolding pool_inv_def r by (auto simp: nth_list_update)
  qed
next
  case (release p held x now hard p' ok)
  have sc: "same_config p0 p" using release.IH by (simp add: pool_inv_def)
  have x: "0 \<le> fst x" "fst x < po_size p" using release.IH release.hyps(2) same_configD(7)[OF sc] by (auto simp: pool_inv_def)
  have p': "p' = p\<lparr>po_list := (po_list p)[nat (fst x) := ifconfig_pool_entry_free now (po_list p ! nat (fst x)) hard]\<rparr>"
    using release.hyps(3) x by (simp add: ifconfig_pool_release_def)
  have s: "same_config p0 p'" unfolding p' by (rule same_config_trans[OF sc]) (rule same_configI, simp)
  have d: "distinct (map fst held)" using release.IH by (simp add: pool_inv_def)
  then have dh: "distinct held" by (simp add: distinct_map)
  have f: "fst ` set (remove1 x held) = fst ` set held - {fst x}"
    using d dh release.hyps(2) by (auto simp: distinct_map inj_on_def)
  have "distinct (map fst (remove1 x held))" using d dh by (auto simp: distinct_map intro: inj_on_diff)
  moreover have "0 \<le> fst y \<and> fst y < po_size p0 \<and> snd y = (pool_grant4 p0 (fst y), pool_grant6 p0 (fst y))" if "y \<in> set (remove1 x held)" for y
    using release.IH notin_set_remove1[of y held x] that unfolding pool_inv_def by blast
  moreover have "pe_in_use (po_list p' ! j) \<longleftrightarrow> int j \<in> fst ` set (remove1 x held)" if j: "j < length (po_list p')" for j
  proof (cases "j = nat (fst x)")
    case True
    then show ?thesis using f x(1) j unfolding p' by (simp add: ifconfig_pool_entry_free_def)
  next
    case False
    then have "int j \<noteq> fst x" by auto
    then show ?thesis using False f j release.IH unfolding p' pool_inv_def by simp
  qed
  ultimately show ?case using s unfolding pool_inv_def by blast
qed

section \<open>Granted addresses\<close>

definition grant4_set :: "(u32 \<times> u32) option \<Rightarrow> u32 set" where
  "grant4_set a = (case a of None \<Rightarrow> {} | Some (local, remote) \<Rightarrow> {remote} \<union> (if local = 0 then {} else {local}))"

lemma grant4_indiv:
  assumes "ifconfig_pool_init True IFCONFIG_POOL_INDIV start end' dup v6 base netbits = Some p" "length base = 16" "0 \<le> h" "h < po_size p"
  shows "\<exists>r. pool_grant4 p h = Some (0, r) \<and> unat r = unat start + nat h \<and> start \<le> r \<and> r \<le> end'"
proof -
  note i = ifconfig_pool_init_ok[OF assms(1,2)]
  obtain n where n: "pool_ipv4_init IFCONFIG_POOL_INDIV start end' = (po_ipv4_base p, n)" "po_size p \<le> n"
    "po_ipv4_type p = IFCONFIG_POOL_INDIV" "start \<le> end'" "end' - start < IFCONFIG_POOL_MAX" using i(6) by auto
  have b: "po_ipv4_base p = start" "n = int (unat end' - unat start + 1)" using pool_ipv4_init_size(1)[OF n(4,5,1)] by simp_all
  have "h < int (unat end' - unat start + 1)" using assms(4) n(2) b(2) by linarith
  then have "nat h < unat end' - unat start + 1" using assms(3) by (simp only: nat_less_iff)
  moreover have "unat start \<le> unat end'" using n(4) by (simp only: word_le_nat_alt)
  ultimately have le: "unat start + nat h \<le> unat end'" by linarith
  obtain k where k: "h = int k" using assms(3) by (metis nonneg_int_cases)
  have "unat (word_of_int h :: u32) = k"
  proof -
    have "k < 2 ^ 32" using le k unat_less_2p[of end'] by simp
    then show ?thesis unfolding k of_int_of_nat_eq by (subst unat_of_nat) simp
  qed
  then have "unat (start + word_of_int h) = unat start + nat h"
    using le k unat_less_2p[of end'] by (subst unat_add_lem[THEN iffD1]) simp_all
  then show ?thesis using le i(4) n(3) b(1) by (simp add: pool_grant4_def word_le_nat_alt)
qed

lemma grant4_net30:
  assumes "ifconfig_pool_init True IFCONFIG_POOL_30NET start end' dup v6 base netbits = Some p" "length base = 16" "0 \<le> h" "h < po_size p"
  shows "\<exists>l r. pool_grant4 p h = Some (l, r) \<and> unat l = 4 * (unat start div 4 + nat h) + 1 \<and> unat r = unat l + 1 \<and>
    unat start div 4 + nat h \<le> unat end' div 4"
proof -
  note i = ifconfig_pool_init_ok[OF assms(1,2)]
  obtain n where n: "pool_ipv4_init IFCONFIG_POOL_30NET start end' = (po_ipv4_base p, n)" "po_size p \<le> n"
    "po_ipv4_type p = IFCONFIG_POOL_30NET" "start \<le> end'" "end' - start < IFCONFIG_POOL_MAX" using i(6) by auto
  have b: "unat (po_ipv4_base p) = unat start div 4 * 4" "n = int (unat end' div 4 - unat start div 4 + 1)"
    using pool_ipv4_init_size(2)[OF n(4,5,1)] by simp_all
  have "unat start div 4 \<le> unat end' div 4" using n(4) by (intro div_le_mono) (simp add: word_le_nat_alt)
  then have le: "unat start div 4 + nat h \<le> unat end' div 4" using assms(3,4) n(2) b(2) by linarith
  have e: "unat end' div 4 \<le> 4294967295 div 4" using unat_less_2p[of end'] by (intro div_le_mono) simp
  obtain k where k: "h = int k" using assms(3) by (metis nonneg_int_cases)
  have kb: "4 * (unat start div 4 + k) + 2 < 2 ^ 32" using le e k by simp
  have w: "po_ipv4_base p + word_of_int (h * 4) + word_of_nat m = word_of_nat (4 * (unat start div 4 + k) + m)" for m
  proof -
    have "po_ipv4_base p = word_of_nat (unat start div 4 * 4)" unfolding b(1)[symmetric] by simp
    then show ?thesis by (simp add: k algebra_simps)
  qed
  have u: "unat (word_of_nat (4 * (unat start div 4 + k) + m) :: u32) = 4 * (unat start div 4 + k) + m" if "m \<le> 2" for m
    unfolding unat_of_nat using kb that by (intro mod_less) simp
  have "unat (po_ipv4_base p + word_of_int (h * 4) + 1) = 4 * (unat start div 4 + k) + 1"
    "unat (po_ipv4_base p + word_of_int (h * 4) + 2) = 4 * (unat start div 4 + k) + 2"
    using w[of 1] w[of 2] u[of 1] u[of 2] by (simp_all only: of_nat_1 of_nat_numeral)
  then show ?thesis using le i(4) n(3) k by (simp add: pool_grant4_def)
qed

lemma grant4_distinct:
  assumes "ifconfig_pool_init True type start end' dup v6 base netbits = Some p" "length base = 16"
    "0 \<le> h" "h < po_size p" "0 \<le> h'" "h' < po_size p" "h \<noteq> h'"
  shows "grant4_set (pool_grant4 p h) \<inter> grant4_set (pool_grant4 p h') = {}"
proof (cases type)
  case IFCONFIG_POOL_INDIV
  note a = assms(1)[unfolded IFCONFIG_POOL_INDIV]
  obtain r r' where "pool_grant4 p h = Some (0, r)" "unat r = unat start + nat h" "pool_grant4 p h' = Some (0, r')" "unat r' = unat start + nat h'"
    using grant4_indiv[OF a assms(2-4)] grant4_indiv[OF a assms(2,5,6)] by auto
  then show ?thesis using assms(3,5,7) by (auto simp: grant4_set_def)
next
  case IFCONFIG_POOL_30NET
  note a = assms(1)[unfolded IFCONFIG_POOL_30NET]
  obtain l r l' r' where g: "pool_grant4 p h = Some (l, r)" "unat l = 4 * (unat start div 4 + nat h) + 1" "unat r = unat l + 1"
    "pool_grant4 p h' = Some (l', r')" "unat l' = 4 * (unat start div 4 + nat h') + 1" "unat r' = unat l' + 1"
    using grant4_net30[OF a assms(2-4)] grant4_net30[OF a assms(2,5,6)] by auto
  have n: "nat h \<noteq> nat h'" using assms(3,5,7) by linarith
  have m: "(4 * x + 1) mod 4 = 1" "(4 * x + 1 + 1) mod 4 = 2" for x :: nat
  proof -
    have "4 * x + 1 + 1 = 2 + 4 * x" by simp
    then show "(4 * x + 1 + 1) mod 4 = 2" by (simp only: mod_mult_self2) simp
  qed simp
  have "unat l mod 4 = 1" "unat l' mod 4 = 1" "unat r mod 4 = 2" "unat r' mod 4 = 2" unfolding g(3,6) unfolding g(2,5) by (simp_all only: m)
  then have "unat l \<noteq> unat r'" "unat r \<noteq> unat l'" by auto
  moreover have "unat l \<noteq> unat l'" "unat r \<noteq> unat r'" unfolding g(3,6) unfolding g(2,5) using n by simp_all
  ultimately have "l \<noteq> l'" "l \<noteq> r'" "r \<noteq> l'" "r \<noteq> r'" by auto
  then show ?thesis using g(1,4) by (auto simp: grant4_set_def split: if_splits)
qed

lemma grant6_distinct:
  assumes "pool_ok p" "po_ipv6_enabled p" "0 \<le> h" "h < po_size p" "0 \<le> h'" "h' < po_size p" "h \<noteq> h'"
  shows "pool_grant6 p h \<noteq> pool_grant6 p h'"
proof
  assume e: "pool_grant6 p h = pool_grant6 p h'"
  have l: "length (po_ipv6_base p) = 16" "po_size p \<le> 65536" using assms(1) by (simp_all add: pool_ok_def)
  obtain k k' where k: "h = int k" "h' = int k'" using assms(3,5) by (metis nonneg_int_cases)
  have b: "k < 65536" "k' < 65536" using assms(4,6) l(2) k by simp_all
  have u: "unat (word_of_int (int m) :: u32) = m" if "m < 65536" for m
    unfolding of_int_of_nat_eq unat_of_nat using that by (intro mod_less) simp
  have "nat_be (add_in6_addr (po_ipv6_base p) (word_of_int h)) = nat_be (add_in6_addr (po_ipv6_base p) (word_of_int h'))"
    using e assms(2) by (simp add: pool_grant6_def)
  then have m: "(nat_be (po_ipv6_base p) + k) mod 2 ^ 128 = (nat_be (po_ipv6_base p) + k') mod 2 ^ 128"
    unfolding add_in6_addr_nat(2)[OF l(1)] k using u[OF b(1)] u[OF b(2)] by simp
  have "k = k'"
  proof -
    have "(int (nat_be (po_ipv6_base p)) + int k) mod 2 ^ 128 = (int (nat_be (po_ipv6_base p)) + int k') mod 2 ^ 128"
      using arg_cong[OF m, of int] by (simp add: of_nat_mod)
    then have "(int k - int k') mod 2 ^ 128 = 0" by (simp add: mod_eq_dvd_iff)
    then have "2 ^ 128 dvd int k - int k'" by (simp add: dvd_eq_mod_eq_0)
    then show ?thesis using b zdvd_imp_le[of "2 ^ 128" "int k - int k'"] zdvd_imp_le[of "2 ^ 128" "int k' - int k"]
      by (cases k k' rule: linorder_cases) (auto simp: dvd_diff_commute)
  qed
  then show False using assms(7) k by simp
qed

section \<open>The IPv6 subnet\<close>

lemma nat_be_split: "nat_be (a @ b) = nat_be a * 256 ^ length b + nat_be b"
proof (induction b rule: rev_induct)
  case (snoc x b)
  then show ?case using nat_be_snoc[of "a @ b" x] by (simp add: algebra_simps)
qed simp

text \<open>The number of the first address, seen as a 128-bit number.\<close>

definition pool_first6 :: "byte list \<Rightarrow> int \<Rightarrow> nat" where
  "pool_first6 base netbits = nat_be base + (if nat_be base mod 2 ^ nat (min 32 (128 - netbits)) = 0 then 1 else 0)"

lemma pool_ipv6_init_first:
  assumes "pool_ipv6_init v6 netbits = Some (base, n)" "length v6 = 16" "2 \<le> n"
  shows "nat_be base = pool_first6 v6 netbits"
    and "112 \<le> netbits \<Longrightarrow> nat_be v6 mod 2 ^ nat (128 - netbits) + (pool_first6 v6 netbits - nat_be v6) + nat n \<le> 2 ^ nat (128 - netbits)"
proof -
  define m where "m = (if 128 - netbits < 32 then de32 (drop 12 v6) AND (push_bit (nat (128 - netbits)) 1 - 1) else de32 (drop 12 v6))"
  define b where "b = (if m = 0 then 1 else m)"
  have r: "base = (if m = 0 then v6[15 := v6 ! 15 + 1] else v6)"
    "n = (if netbits \<ge> 112 then sint (push_bit (nat (128 - netbits)) 1 - b) else uint IFCONFIG_POOL_MAX)"
    "128 - netbits < 32 \<Longrightarrow> 0 \<le> 128 - netbits \<and> 128 - netbits < 31"
    using assms(1) by (auto simp: pool_ipv6_init_def m_def b_def Let_def split: if_splits Option.bind_splits)
  define k where "k = nat (min 32 (128 - netbits))"
  have um: "unat m = nat_be v6 mod 2 ^ k"
  proof -
    have "nat_be v6 = nat_be (take 12 v6) * 2 ^ 32 + nat_be (drop 12 v6)" using nat_be_split[of "take 12 v6" "drop 12 v6"] assms(2) by simp
    moreover have d: "nat_be (drop 12 v6) < 2 ^ 32" using nat_be_bound[of "drop 12 v6"] assms(2) by simp
    ultimately have low: "nat_be v6 mod 2 ^ 32 = nat_be (drop 12 v6)" by simp
    have ud: "unat (de32 (drop 12 v6)) = nat_be (drop 12 v6)" unfolding de32_def unat_of_nat using d by (intro mod_less) simp
    show ?thesis
    proof (cases "128 - netbits < 32")
      case True
      have "(push_bit (nat (128 - netbits)) 1 - 1 :: u32) = mask k" using True by (simp add: k_def mask_eq_exp_minus_1 push_bit_eq_mult)
      then have "m = take_bit k (de32 (drop 12 v6))" unfolding m_def if_P[OF True] by (simp only: take_bit_eq_mask)
      then have "unat m = take_bit k (unat (de32 (drop 12 v6)))" by (simp only: unsigned_take_bit_eq)
      also have "\<dots> = nat_be (drop 12 v6) mod 2 ^ k" unfolding ud by (rule take_bit_eq_mod)
      also have "\<dots> = nat_be v6 mod 2 ^ 32 mod 2 ^ k" by (simp only: low)
      also have "\<dots> = nat_be v6 mod 2 ^ k" by (intro mod_mod_cancel le_imp_power_dvd) (simp add: k_def)
      finally show ?thesis .
    next
      case False
      then have "k = 32" by (simp add: k_def)
      then show ?thesis using False ud low by (simp add: m_def)
    qed
  qed
  have z: "m = 0 \<longleftrightarrow> nat_be v6 mod 2 ^ k = 0" unfolding um[symmetric] by (simp add: unat_eq_0)
  have f: "pool_first6 v6 netbits = nat_be v6 + (if m = 0 then 1 else 0)" using z by (simp add: pool_first6_def k_def)
  have k0: "0 < k"
  proof (rule ccontr)
    assume "\<not> 0 < k"
    then have a: "128 - netbits \<le> 0" by (simp add: k_def)
    then have e: "128 - netbits = 0" using r(3) by linarith
    have "m = 0" using a e by (simp add: m_def)
    then have "n = 0" using r(2) e by (simp add: b_def)
    then show False using assms(3) by simp
  qed
  have l: "v6 = take 15 v6 @ [v6 ! 15]" using assms(2) take_Suc_conv_app_nth[of 15 v6] by simp
  show "nat_be base = pool_first6 v6 netbits"
  proof (cases "m = 0")
    case False
    then show ?thesis using r(1) f by simp
  next
    case True
    have "even (nat_be v6)"
    proof -
      have "2 ^ k dvd nat_be v6" using z True by (simp add: dvd_eq_mod_eq_0)
      moreover have "(2 :: nat) dvd 2 ^ k" using k0 by simp
      ultimately show ?thesis by (rule dvd_trans[rotated])
    qed
    moreover have nv: "nat_be v6 = 256 * nat_be (take 15 v6) + unat (v6 ! 15)" by (subst l) (simp only: nat_be_snoc)
    ultimately have "even (unat (v6 ! 15))" by simp
    then have "unat (v6 ! 15) \<noteq> 255" by auto
    then have "unat (v6 ! 15 + 1) = unat (v6 ! 15) + 1"
      using unat_less_2p[of "v6 ! 15"] by (subst unat_add_lem[THEN iffD1]) simp_all
    moreover have "v6[15 := v6 ! 15 + 1] = take 15 v6 @ [v6 ! 15 + 1]" using assms(2) by (simp add: upd_conv_take_nth_drop)
    ultimately have "nat_be (v6[15 := v6 ! 15 + 1]) = nat_be v6 + 1" unfolding nv by simp
    then show ?thesis using r(1) f True by simp
  qed
  show "nat_be v6 mod 2 ^ nat (128 - netbits) + (pool_first6 v6 netbits - nat_be v6) + nat n \<le> 2 ^ nat (128 - netbits)" if "112 \<le> netbits"
  proof -
    have k: "k = nat (128 - netbits)" "k \<le> 16" using that by (simp_all add: k_def)
    have p: "unat (push_bit k 1 :: u32) = 2 ^ k"
    proof -
      have "(2 :: nat) ^ k < 2 ^ 32" using k by (intro power_strict_increasing) simp_all
      with k show ?thesis by (simp only: unsigned_push_bit_eq) (simp add: push_bit_eq_mult take_bit_nat_eq_self)
    qed
    have ub: "unat b = unat m + (if m = 0 then 1 else 0)" by (simp add: b_def)
    have "unat m < 2 ^ k" unfolding um by simp
    then have le: "unat b \<le> 2 ^ k" using ub by auto
    then have "unat (push_bit k 1 - b :: u32) = 2 ^ k - unat b" using p by (subst unat_sub) (simp_all add: word_le_nat_alt)
    then have "sint (push_bit k 1 - b :: u32) \<le> int (2 ^ k - unat b)" using sint_le_unat[of "push_bit k 1 - b"] by metis
    then have "n \<le> int (2 ^ k - unat b)" using r(2) that by (simp add: k(1))
    then have "nat n + unat b \<le> 2 ^ k" using le by linarith
    then show ?thesis unfolding k(1)[symmetric] f um[symmetric] using ub by simp
  qed
qed

text \<open>Adding a small number to an address keeps the network part exactly if it fits the host part.\<close>

lemma subnet_iff:
  fixes x y k :: nat
  assumes "x < 2 ^ 128" "y \<le> 65536" "k \<le> 64"
  shows "(x + y) mod 2 ^ 128 div 2 ^ k = x div 2 ^ k \<longleftrightarrow> x mod 2 ^ k + y < 2 ^ k"
proof -
  have k: "(2 :: nat) ^ k \<le> 2 ^ 64" using assms(3) by (intro power_increasing) simp_all
  have big: "(2 :: nat) ^ 64 + 65536 \<le> 2 ^ 128" by simp
  have pos: "(0 :: nat) < 2 ^ k" by simp
  have x: "x div 2 ^ k * 2 ^ k + x mod 2 ^ k = x" by (rule div_mult_mod_eq)
  have more: "b div 2 ^ k \<noteq> a div 2 ^ k" if "a + 2 ^ k \<le> b" for a b :: nat
  proof -
    have "(a + 2 ^ k) div 2 ^ k \<le> b div 2 ^ k" using that by (rule div_le_mono)
    moreover have "(a + 2 ^ k) div 2 ^ k = Suc (a div 2 ^ k)" using div_add_self2[of "2 ^ k" a] by simp
    ultimately show ?thesis by linarith
  qed
  have top: "x div 2 ^ k * 2 ^ k + 2 ^ k \<le> 2 ^ 128"
  proof -
    have "(2 :: nat) ^ 128 = 2 ^ (128 - k) * 2 ^ k" using assms(3) by (simp flip: power_add)
    moreover have "x div 2 ^ k < 2 ^ (128 - k)" using assms(1) calculation by (simp add: less_mult_imp_div_less)
    then have "Suc (x div 2 ^ k) * 2 ^ k \<le> 2 ^ (128 - k) * 2 ^ k" by (intro mult_le_mono1 Suc_leI)
    ultimately show ?thesis by (simp add: add.commute)
  qed
  show ?thesis
  proof (cases "x mod 2 ^ k + y < 2 ^ k")
    case True
    have e: "x + y = x div 2 ^ k * 2 ^ k + (x mod 2 ^ k + y)" using x by linarith
    have "x + y < 2 ^ 128" using e top True by linarith
    then have "(x + y) mod 2 ^ 128 div 2 ^ k = (x div 2 ^ k * 2 ^ k + (x mod 2 ^ k + y)) div 2 ^ k" by (simp add: e[symmetric])
    also have "\<dots> = x div 2 ^ k" using True by simp
    finally show ?thesis using True by simp
  next
    case False
    have "(x + y) mod 2 ^ 128 div 2 ^ k \<noteq> x div 2 ^ k"
    proof (cases "x + y < 2 ^ 128")
      case small: True
      have "x div 2 ^ k * 2 ^ k + 2 ^ k \<le> x + y" using x False by linarith
      then have "(x + y) div 2 ^ k \<noteq> (x div 2 ^ k * 2 ^ k) div 2 ^ k" by (rule more)
      then show ?thesis using small by simp
    next
      case wrap: False
      have "(x + y) mod 2 ^ 128 = x + y - 2 ^ 128"
      proof -
        have "x + y - 2 ^ 128 < 2 ^ 128" using assms(1,2) big k by linarith
        then have "(x + y - 2 ^ 128) mod 2 ^ 128 = x + y - 2 ^ 128" by (rule mod_less)
        then show ?thesis using wrap le_mod_geq[of "2 ^ 128" "x + y"] by linarith
      qed
      moreover have "x + y - 2 ^ 128 + 2 ^ k \<le> x" using assms(1,2) big k wrap by linarith
      ultimately show ?thesis using more[of "x + y - 2 ^ 128" x] by simp
    qed
    then show ?thesis using False by simp
  qed
qed

text \<open>The IPv6 address of a handle is the first address of the pool plus the handle.\<close>

lemma grant6_nat:
  assumes "ifconfig_pool_init v4 type start end' dup True base netbits = Some p" "length base = 16"
    and "0 \<le> h" "h < po_size p" "pool_grant6 p h = Some a"
  shows "nat_be a = (pool_first6 base netbits + nat h) mod 2 ^ 128"
proof -
  note i = ifconfig_pool_init_ok[OF assms(1,2)]
  obtain n where n: "pool_ipv6_init base netbits = Some (po_ipv6_base p, n)" "po_size p \<le> n" using i(7) by auto
  have n2: "2 \<le> n" using assms(1) n(1) by (auto simp: ifconfig_pool_init_def Let_def split: if_splits Option.bind_splits)
  note f = pool_ipv6_init_first[OF n(1) assms(2) n2]
  have "po_size p \<le> 65536" using i(1) unfolding pool_ok_def by blast
  then have h: "nat h < 65536" using assms(3,4) by linarith
  have "unat (word_of_int h :: u32) = nat h"
  proof -
    obtain j where j: "h = int j" using assms(3) by (metis nonneg_int_cases)
    then show ?thesis unfolding j nat_int of_int_of_nat_eq unat_of_nat using h[unfolded j nat_int] by (intro mod_less) simp
  qed
  then show ?thesis
    using assms(5) i(1,5) add_in6_addr_nat(2)[of "po_ipv6_base p" "word_of_int h"] f(1) by (auto simp: pool_grant6_def pool_ok_def)
qed

section \<open>Properties\<close>

text \<open>C19: No two clients hold the same address.  Whatever sequence of clients comes and goes after the file
  was read, the handles that are held differ, and so do the IPv4 and the IPv6 addresses behind them.
  Every IPv4 address lies in the configured range (with net30, in the range widened to whole subnets
  of four); every IPv6 address is the first one of the pool plus the handle, which need not stay in
  the subnet.  The next client is served or refused but never aborts the server.\<close>

theorem pool_addresses_unique:
  assumes "ifconfig_pool_init v4 type start end' dup v6 base netbits = Some p0" "length base = 16" "pool_reach p0 p held"
  shows "distinct (map fst held) \<and>
    (\<forall>x\<in>set held. \<forall>y\<in>set held. fst x \<noteq> fst y \<longrightarrow>
       grant4_set (fst (snd x)) \<inter> grant4_set (fst (snd y)) = {} \<and> (v6 \<longrightarrow> snd (snd x) \<noteq> snd (snd y))) \<and>
    (\<forall>x\<in>set held. \<forall>a\<in>grant4_set (fst (snd x)). case type of
       IFCONFIG_POOL_INDIV \<Rightarrow> start \<le> a \<and> a \<le> end'
     | IFCONFIG_POOL_30NET \<Rightarrow> unat start div 4 * 4 < unat a \<and> unat a < unat end' div 4 * 4 + 3) \<and>
    (\<forall>x\<in>set held. \<forall>a. snd (snd x) = Some a \<longrightarrow> nat_be a = (pool_first6 base netbits + nat (fst x)) mod 2 ^ 128) \<and>
    ifconfig_pool_acquire now p True True cn \<noteq> None"
proof -
  note i = ifconfig_pool_init_ok[OF assms(1,2)]
  have fresh: "\<forall>e\<in>set (po_list p0). \<not> pe_in_use e"
    using i(2) by (metis clear_pool_entry_def ifconfig_pool_entry.select_convs(1) in_set_replicate)
  have inv: "pool_inv p0 p held" by (rule pool_reach_inv[OF assms(3) i(1) fresh])
  have g: "0 \<le> fst x \<and> fst x < po_size p0" "fst (snd x) = pool_grant4 p0 (fst x)" "snd (snd x) = pool_grant6 p0 (fst x)" if "x \<in> set held" for x
    using inv that by (auto simp: pool_inv_def)
  have four: "grant4_set (fst (snd x)) \<inter> grant4_set (fst (snd y)) = {}" if "x \<in> set held" "y \<in> set held" "fst x \<noteq> fst y" for x y
  proof (cases v4)
    case True
    then have "ifconfig_pool_init True type start end' dup v6 base netbits = Some p0" using assms(1) by simp
    then show ?thesis using grant4_distinct[OF _ assms(2)] g(1,2) that by simp
  next
    case False
    then show ?thesis using i(4) g(2) that by (simp add: pool_grant4_def grant4_set_def)
  qed
  have six: "snd (snd x) \<noteq> snd (snd y)" if "x \<in> set held" "y \<in> set held" "fst x \<noteq> fst y" v6 for x y
    using grant6_distinct[OF i(1)] i(5) g(1,3) that by simp
  have rng: "case type of IFCONFIG_POOL_INDIV \<Rightarrow> start \<le> a \<and> a \<le> end'
     | IFCONFIG_POOL_30NET \<Rightarrow> unat start div 4 * 4 < unat a \<and> unat a < unat end' div 4 * 4 + 3"
    if x: "x \<in> set held" "a \<in> grant4_set (fst (snd x))" for x a
  proof -
    have v: v4 using x i(4) g(2) by (auto simp: pool_grant4_def grant4_set_def split: if_splits)
    show ?thesis
    proof (cases type)
      case IFCONFIG_POOL_INDIV
      then show ?thesis using grant4_indiv[of start end' dup v6 base netbits p0 "fst x"] assms(1,2) v g(1,2)[OF x(1)] x(2) by (auto simp: grant4_set_def)
    next
      case IFCONFIG_POOL_30NET
      then obtain l r where "pool_grant4 p0 (fst x) = Some (l, r)" "unat l = 4 * (unat start div 4 + nat (fst x)) + 1" "unat r = unat l + 1"
        "unat start div 4 + nat (fst x) \<le> unat end' div 4"
        using grant4_net30[of start end' dup v6 base netbits p0 "fst x"] assms(1,2) v g(1)[OF x(1)] by auto
      moreover have "a = l \<or> a = r" using calculation(1) g(2)[OF x(1)] x(2) by (auto simp: grant4_set_def split: if_splits)
      ultimately show ?thesis using IFCONFIG_POOL_30NET by auto
    qed
  qed
  have ok: "pool_ok p" using inv i(1) same_config_ok by (auto simp: pool_inv_def)
  have "distinct (map fst held)" using inv by (simp add: pool_inv_def)
  moreover have "nat_be a = (pool_first6 base netbits + nat (fst x)) mod 2 ^ 128"
    if "x \<in> set held" "snd (snd x) = Some a" for x a
  proof -
    have "pool_grant6 p0 (fst x) = Some a" "v6" using that g(3) i(5) by (auto simp: pool_grant6_def split: if_splits)
    then show ?thesis using grant6_nat[of v4 type start end' dup base netbits p0 "fst x" a] assms(1,2) g(1)[OF that(1)] by simp
  qed
  ultimately show ?thesis using four six rng ifconfig_pool_acquire_of[OF ok, of now cn] by blast
qed

text \<open>C20: A returning client gets its entry back.  The search returns the first free entry with the client's
  name; without one, the assignable entry that was released longest ago (the first of them; with
  duplicate names allowed simply the first free one); and \<open>-1\<close> exactly if there is none of either kind.\<close>

theorem pool_find_exact:
  assumes "pool_ok pool"
  shows "(if \<exists>j. pool_returning pool cn j
      then \<exists>k. ifconfig_pool_find pool cn = int k \<and> pool_returning pool cn k \<and> (\<forall>j<k. \<not> pool_returning pool cn j)
    else if \<exists>j. pool_assignable pool j
      then \<exists>k. ifconfig_pool_find pool cn = int k \<and> pool_assignable pool k \<and>
        (\<forall>j. pool_assignable pool j \<longrightarrow> po_duplicate_cn pool \<or> pe_last_release (po_list pool ! k) \<le> pe_last_release (po_list pool ! j)) \<and>
        (\<forall>j<k. pool_assignable pool j \<longrightarrow> \<not> po_duplicate_cn pool \<and> pe_last_release (po_list pool ! k) < pe_last_release (po_list pool ! j))
    else ifconfig_pool_find pool cn = -1)"
  by (rule pool_find_spec[OF assms])

text \<open>C21: An IPv6 pool stays in its subnet exactly while its first address and the handle do not exceed the
  host part; for prefixes of 112 bits and more the size ensures this, for shorter ones the size is always
  65536 and a pool that starts near the end of its subnet hands out addresses of the next one.\<close>

theorem pool_ipv6_subnet:
  assumes "ifconfig_pool_init v4 type start end' dup True base netbits = Some p" "length base = 16"
    and "64 \<le> netbits" "0 \<le> h" "h < po_size p" "pool_grant6 p h = Some a"
  shows "(nat_be a div 2 ^ nat (128 - netbits) = nat_be base div 2 ^ nat (128 - netbits) \<longleftrightarrow>
      nat_be base mod 2 ^ nat (128 - netbits) + (pool_first6 base netbits - nat_be base) + nat h < 2 ^ nat (128 - netbits)) \<and>
    (112 \<le> netbits \<longrightarrow> nat_be a div 2 ^ nat (128 - netbits) = nat_be base div 2 ^ nat (128 - netbits))"
proof -
  note i = ifconfig_pool_init_ok[OF assms(1,2)]
  obtain n where n: "pool_ipv6_init base netbits = Some (po_ipv6_base p, n)" "po_size p \<le> n" using i(7) by auto
  have n2: "2 \<le> n" using assms(1) n(1) by (auto simp: ifconfig_pool_init_def Let_def split: if_splits Option.bind_splits)
  note f = pool_ipv6_init_first[OF n(1) assms(2) n2]
  define k where "k = nat (128 - netbits)"
  define x where "x = nat_be base"
  define y where "y = pool_first6 base netbits - x + nat h"
  have fx: "x \<le> pool_first6 base netbits" "pool_first6 base netbits - x \<le> 1" by (simp_all add: pool_first6_def x_def)
  have "po_size p \<le> 65536" using i(1) unfolding pool_ok_def by blast
  then have h: "nat h < 65536" using assms(4,5) by linarith
  have "nat_be a = (pool_first6 base netbits + nat h) mod 2 ^ 128" by (rule grant6_nat[OF assms(1,2,4-6)])
  then have a: "nat_be a = (x + y) mod 2 ^ 128" using fx(1) by (simp add: y_def)
  have xb: "x < 2 ^ 128" using nat_be_bound[of base] assms(2) by (simp add: x_def)
  have y: "y \<le> 65536" using fx(2) h by (simp add: y_def)
  have k: "k \<le> 64" using assms(3) by (simp add: k_def)
  have iff: "(x + y) mod 2 ^ 128 div 2 ^ k = x div 2 ^ k \<longleftrightarrow> x mod 2 ^ k + y < 2 ^ k"
    by (rule subnet_iff[OF xb y k])
  have "x mod 2 ^ k + y < 2 ^ k" if "112 \<le> netbits"
    using f(2)[OF that] assms(4,5) n(2) unfolding k_def[symmetric] x_def[symmetric] y_def by linarith
  then show ?thesis using iff unfolding a k_def[symmetric] x_def[symmetric] y_def by (simp add: add.assoc)
qed

section \<open>The hypotheses can hold\<close>

text \<open>A pool of IPv4 addresses 10.8.0.2 to 10.8.0.9 and of IPv6 addresses at the end of a subnet with 20 host bits.\<close>

definition example_base6 :: "byte list" where
  "example_base6 = [0x20, 0x01, 0x0D, 0xB8, 0, 0, 0, 0, 0, 0, 0, 0, 0, 0x0F, 0xFF, 0xF0]"

definition example_pool :: ifconfig_pool where
  "example_pool = \<lparr>po_duplicate_cn = False, po_ipv4_enabled = True, po_ipv4_type = IFCONFIG_POOL_INDIV, po_ipv4_base = 0x0A080002,
     po_ipv6_enabled = True, po_ipv6_base = example_base6, po_size = 8, po_list = replicate 8 clear_pool_entry\<rparr>"

lemma example_base6_nat:
  "nat_be example_base6 mod 2 ^ nat (min 32 (128 - 108)) = 0xFFFF0" "nat_be example_base6 mod 2 ^ nat (128 - 108) = 0xFFFF0"
  "de32 (drop 12 example_base6) = 0xFFFF0" "length example_base6 = 16"
  by (simp_all add: example_base6_def nat_be_def de32_def)

lemma example_pool_init:
  "ifconfig_pool_init True IFCONFIG_POOL_INDIV 0x0A080002 0x0A080009 False True example_base6 108 = Some example_pool"
  by (simp add: ifconfig_pool_init_def pool_ipv4_init_def pool_ipv6_init_def example_base6_nat IFCONFIG_POOL_MAX_def example_pool_def Let_def)

text \<open>IPv6 only, the pool is as large as it can be.\<close>

definition example_pool6 :: ifconfig_pool where
  "example_pool6 = \<lparr>po_duplicate_cn = False, po_ipv4_enabled = False, po_ipv4_type = IFCONFIG_POOL_30NET, po_ipv4_base = 0,
     po_ipv6_enabled = True, po_ipv6_base = example_base6, po_size = 65536, po_list = replicate 65536 clear_pool_entry\<rparr>"

lemma example_pool6_init:
  "ifconfig_pool_init False IFCONFIG_POOL_INDIV 0 0 False True example_base6 108 = Some example_pool6"
  by (simp add: ifconfig_pool_init_def pool_ipv6_init_def example_base6_nat IFCONFIG_POOL_MAX_def example_pool6_def Let_def)

theorem pool_addresses_unique_witness:
  "\<exists>p held. pool_reach example_pool p held \<and> length held = 2 \<and> distinct (map fst held) \<and>
    ifconfig_pool_acquire 7 p True True (Some [97]) \<noteq> None"
proof -
  have ok: "pool_ok example_pool" by (simp add: pool_ok_def example_pool_def example_base6_nat)
  obtain p1 a where a: "ifconfig_pool_acquire 5 example_pool True True (Some [97]) = Some (p1, 0, a)"
    by (simp add: ifconfig_pool_acquire_def ifconfig_pool_find_def example_pool_def clear_pool_entry_def numeral_eq_Suc ifconfig_pool_entry_free_def Let_def)
  obtain a4 a6 where aa: "a = (a4, a6)" by (cases a)
  have r1: "pool_reach example_pool p1 [(0, a4, a6)]" using pool_reach.acquire[OF pool_reach.start a[unfolded aa]] by simp
  have f: "\<forall>e\<in>set (po_list example_pool). \<not> pe_in_use e" by (simp add: example_pool_def clear_pool_entry_def)
  have inv: "pool_inv example_pool p1 [(0, a4, a6)]" by (rule pool_reach_inv[OF r1 ok f])
  have ok1: "pool_ok p1" using inv ok same_config_ok by (auto simp: pool_inv_def)
  have l1: "length (po_list p1) = 8" using inv same_configD(8)[of example_pool p1] by (simp add: pool_inv_def example_pool_def)
  have free: "pool_assignable p1 1"
  proof -
    have "po_list p1 ! 1 = po_list example_pool ! 1" using a by (auto simp: ifconfig_pool_acquire_of[OF ok] split: if_splits)
    then have "po_list p1 ! 1 = clear_pool_entry" by (simp add: example_pool_def)
    then show ?thesis using l1 by (simp add: pool_assignable_def clear_pool_entry_def)
  qed
  have "ifconfig_pool_find p1 (Some [98]) \<noteq> -1" using pool_find_spec[OF ok1, of "Some [98]"] free by (auto split: if_splits)
  then obtain p2 h b4 b6 where b: "ifconfig_pool_acquire 6 p1 True True (Some [98]) = Some (p2, h, b4, b6)" "0 \<le> h"
    using ifconfig_pool_find_range[OF ok1, of "Some [98]"] by (auto simp: ifconfig_pool_acquire_of[OF ok1])
  have r2: "pool_reach example_pool p2 [(h, b4, b6), (0, a4, a6)]" using pool_reach.acquire[OF r1 b(1)] b(2) by simp
  show ?thesis
    using pool_addresses_unique[OF example_pool_init example_base6_nat(4) r2, of 7 "Some [97]"] r2
    by (intro exI[of _ p2] exI[of _ "[(h, b4, b6), (0, a4, a6)]"]) simp
qed

theorem pool_find_exact_witness:
  "ifconfig_pool_find (example_pool\<lparr>po_list := (po_list example_pool)[3 := clear_pool_entry\<lparr>pe_common_name := Some [97]\<rparr>]\<rparr>) (Some [97]) = 3"
proof -
  let ?p = "example_pool\<lparr>po_list := (po_list example_pool)[3 := clear_pool_entry\<lparr>pe_common_name := Some [97]\<rparr>]\<rparr>"
  have ok: "pool_ok ?p" by (simp add: pool_ok_def example_pool_def example_base6_nat)
  have r: "pool_returning ?p (Some [97]) j \<longleftrightarrow> j = 3" for j
    by (auto simp: pool_returning_def example_pool_def clear_pool_entry_def nth_list_update)
  show ?thesis using pool_find_exact[OF ok, of "Some [97]"] unfolding r by auto
qed

theorem pool_ipv6_subnet_witness:
  "\<exists>a. pool_grant6 example_pool6 16 = Some a \<and> nat_be a div 2 ^ nat (128 - 108) \<noteq> nat_be example_base6 div 2 ^ nat (128 - 108)"
proof -
  obtain a where a: "pool_grant6 example_pool6 16 = Some a" by (simp add: pool_grant6_def example_pool6_def)
  have s: "16 < po_size example_pool6" by (simp add: example_pool6_def)
  have "pool_first6 example_base6 108 - nat_be example_base6 = 0" by (simp only: pool_first6_def example_base6_nat) simp
  then have "\<not> nat_be example_base6 mod 2 ^ nat (128 - 108) + (pool_first6 example_base6 108 - nat_be example_base6) + nat 16 < 2 ^ nat (128 - 108)"
    unfolding example_base6_nat(2) by simp
  then show ?thesis using pool_ipv6_subnet[OF example_pool6_init example_base6_nat(4) _ _ s a] a by simp
qed

end
