(* ===== verification/Ovpn_Pool_File.thy ===== *)
theory Ovpn_Pool_File
  imports Ovpn_Pool
begin

text \<open>
  The file of the address pool: what \<open>ifconfig_pool_write\<close> writes is what \<open>ifconfig_pool_read\<close> reads back,
  through the line buffer and the field parser of \<open>buffer.c\<close>; names with a comma are the exception.
\<close>

section \<open>The file is read back\<close>

lemma buf_parse_loop_nul:
  "uint d \<noteq> 0 \<Longrightarrow> d \<notin> set l \<Longrightarrow> 0 \<notin> set l \<Longrightarrow> int (length (acc @ l)) < sz - 1 \<Longrightarrow>
   buf_parse_loop (buf_of p (l @ 0 # rest) q) (uint d) sz acc = Some (buf_of (p @ l @ [0]) rest q, acc @ l, False)" for d :: byte
proof (induction l arbitrary: acc p)
  case Nil
  then show ?case by (subst buf_parse_loop.simps) (simp add: buf_peek_u8_of buf_advance_of)
next
  case (Cons x xs)
  have "uint x \<noteq> uint d" "uint x \<noteq> uint (0 :: byte)"
    using Cons.prems by (simp_all only: word_uint_eq_iff[symmetric]) auto
  moreover have "(word_of_int (uint x) :: byte) = x" by simp
  ultimately show ?case using Cons by (subst buf_parse_loop.simps) (simp add: buf_peek_u8_of buf_advance_of)
qed

lemma buf_parse_nul:
  assumes "44 \<notin> set l" "0 \<notin> set l" "length l < 127"
  shows "buf_parse (buf_of p (l @ 0 # rest) q) 44 128 = Some (buf_of (p @ l @ [0]) rest q, l, True)"
  using buf_parse_loop_nul[of 44 l "[]" 128 p rest q] assms by (simp add: buf_parse_def)

lemma buf_parse_comma:
  assumes "44 \<notin> set l" "0 \<notin> set l" "length l < 128"
  shows "buf_parse (buf_of p (l @ 44 # rest) q) 44 128 = Some (buf_of (p @ l @ [44]) rest q, l, True)"
  using buf_parse_line[of 44 l 128 p rest q] assms by simp

lemma status_read_line:
  assumes "buf_fits p c q" "length l < length q" "10 \<notin> set l" "13 \<notin> set l" "0 \<notin> set l" "c = []"
  shows "status_read (l @ 10 # rest) (buf_of p c q) = Some (rest, buf_of p (l @ [0]) (drop (length l + 1) q), True)"
proof -
  have loop: "status_read_loop (l @ 10 # rest) (buf_of p c q) r = Some (rest, buf_of p (c @ l) (drop (length l) q), True)"
    if "buf_fits p c q" "length l < length q" "10 \<notin> set l" "13 \<notin> set l" for l c q r
    using that
  proof (induction l arbitrary: c q r)
    case (Cons x l)
    obtain y q' where q: "q = y # q'" using Cons.prems(2) by (cases q) auto
    have w: "buf_write_u8 (buf_of p c q) x = Some (buf_of p (c @ [x]) q', True)"
      using Cons.prems(1) by (simp add: q buf_write_u8_def buf_write_of)
    have "buf_fits p (c @ [x]) q'" using Cons.prems(1) q by (auto elim!: buf_fits_split)
    then show ?case using Cons w q by auto
  qed simp
  have f: "buf_fits p l (drop (length l) q)" using assms(1,2,6) by (auto elim!: buf_fits_split)
  have t: "buf_null_terminate (buf_of p l (drop (length l) q)) = Some (buf_of p (l @ [0]) (drop (length l + 1) q))"
    using buf_null_terminate_of[OF f] assms(2,5) by (auto simp: drop_Suc tl_drop dest: last_in_set)
  show ?thesis using loop[OF assms(1-4), of False] t assms(6) by (simp add: status_read_def)
qed

text \<open>What printing and parsing of addresses must do.\<close>

definition pool_text_laws :: "pool_text \<Rightarrow> bool" where
  "pool_text_laws T \<longleftrightarrow>
     (\<forall>a. pt_getaddr T (pt_print4 T a) = Some a \<and> pt_print4 T a \<noteq> [] \<and> length (pt_print4 T a) < 16 \<and> set (pt_print4 T a) \<inter> {0, 10, 13, 44} = {}) \<and>
     (\<forall>b. length b = 16 \<longrightarrow> pt_get_ipv6_addr T (pt_print6 T b) = Some b \<and> pt_print6 T b \<noteq> [] \<and> length (pt_print6 T b) < 46 \<and>
        set (pt_print6 T b) \<inter> {0, 10, 13, 44} = {})"

definition pool_name_ok :: "byte list \<Rightarrow> bool" where
  "pool_name_ok n \<longleftrightarrow> length n < 128 \<and> set n \<inter> {0, 10, 13, 44} = {} \<and> (n = [] \<or> hd n \<notin> {35, 59})"

text \<open>The handle that a line gives.\<close>

definition pool_persistable :: "ifconfig_pool \<Rightarrow> bool" where
  "pool_persistable p \<longleftrightarrow> po_ipv4_enabled p \<or> po_ipv6_enabled p \<and> nat_be (drop 12 (po_ipv6_base p)) + nat (po_size p) \<le> 2 ^ 32"

lemma word_nat_small: "m < 65536 \<Longrightarrow> unat (word_of_nat m :: u32) = m"
  unfolding unat_of_nat by (intro mod_less) simp

lemma sint_nat_small: "m < 65536 \<Longrightarrow> sint (word_of_nat m :: u32) = int m"
  using sint_small[of "word_of_nat m"] word_nat_small[of m] by simp

lemma handle4_roundtrip:
  assumes "pool_ok p" "po_ipv4_enabled p" "k < length (po_list p)"
  shows "ifconfig_pool_ip_base_to_handle p (ifconfig_pool_handle_to_ip_base p (int k)) = int k"
proof -
  have k: "k < 65536" "int k < po_size p" using assms(1,3) by (auto simp: pool_ok_def)
  have d: "drop_bit 2 (word_of_nat (k * 4) :: u32) = word_of_nat k"
  proof (rule word_unat_eq_iff[THEN iffD2])
    have "unat (word_of_nat (k * 4) :: u32) = k * 4" unfolding unat_of_nat using k(1) by (intro mod_less) simp
    then have "unat (drop_bit 2 (word_of_nat (k * 4) :: u32)) = drop_bit 2 (k * 4)" by (simp only: unat_drop_bit_eq)
    then show "unat (drop_bit 2 (word_of_nat (k * 4) :: u32)) = unat (word_of_nat k :: u32)"
      using word_nat_small[OF k(1)] by (simp add: drop_bit_eq_div)
  qed
  show ?thesis
  proof (cases "po_ipv4_type p")
    case IFCONFIG_POOL_30NET
    have "drop_bit 2 (word_of_nat k * 4 :: u32) = word_of_nat k" using d by simp
    then show ?thesis using IFCONFIG_POOL_30NET assms(2) k(2) sint_nat_small[OF k(1)]
      by (simp add: ifconfig_pool_ip_base_to_handle_def ifconfig_pool_handle_to_ip_base_def Let_def)
  next
    case IFCONFIG_POOL_INDIV
    then show ?thesis using assms(2) k(2) sint_nat_small[OF k(1)]
      by (simp add: ifconfig_pool_ip_base_to_handle_def ifconfig_pool_handle_to_ip_base_def Let_def)
  qed
qed

lemma handle6_roundtrip:
  assumes "pool_ok p" "po_ipv6_enabled p" "nat_be (drop 12 (po_ipv6_base p)) + nat (po_size p) \<le> 2 ^ 32" "k < length (po_list p)"
  shows "ifconfig_pool_ipv6_base_to_handle p (ifconfig_pool_handle_to_ipv6_base p (int k)) = int k"
proof -
  let ?b = "po_ipv6_base p"
  have k: "k < 65536" "int k < po_size p" "length ?b = 16" using assms(1,4) by (auto simp: pool_ok_def)
  have u: "unat (word_of_int (int k) :: u32) = k" using word_nat_small[OF k(1)] by simp
  define x where "x = nat_be (drop 12 ?b)"
  have xk: "x + k < 2 ^ 32" using assms(3) k(2) by (simp add: x_def)
  have v: "add_in6_addr ?b (word_of_int (int k)) = take 12 ?b @ be_nat 4 (x + k)"
  proof -
    have l: "length (take 12 ?b @ be_nat 4 (x + k)) = 16" using k(3) by simp
    have "nat_be (take 12 ?b @ be_nat 4 (x + k)) = nat_be (take 12 ?b) * 2 ^ 32 + (x + k)"
      using xk by (simp add: nat_be_split nat_be_be_nat)
    also have "\<dots> = nat_be ?b + k" using nat_be_split[of "take 12 ?b" "drop 12 ?b"] k(3) by (simp add: x_def)
    also have "\<dots> = nat_be (add_in6_addr ?b (word_of_int (int k)))"
    proof -
      have "nat_be (take 12 ?b @ be_nat 4 (x + k)) < 2 ^ 128" using nat_be_bound[of "take 12 ?b @ be_nat 4 (x + k)"] unfolding l by simp
      then show ?thesis unfolding add_in6_addr_nat(2)[OF k(3)] u using calculation by simp
    qed
    finally show ?thesis using be_nat_nat_be[OF l] be_nat_nat_be[OF add_in6_addr_nat(1)[OF k(3), of "word_of_int (int k)"]] by simp
  qed
  have a: "\<forall>i<12. ?b ! i = (take 12 ?b @ be_nat 4 (x + k)) ! i" using k(3) by (simp add: nth_append)
  have dr: "drop 12 (take 12 ?b @ be_nat 4 (x + k)) = be_nat 4 (x + k)" using k(3) by simp
  have "de32 (be_nat 4 (x + k)) - de32 (drop 12 ?b) = (word_of_nat k :: u32)"
    using xk by (simp add: de32_def nat_be_be_nat x_def[symmetric])
  then show ?thesis
    unfolding ifconfig_pool_ipv6_base_to_handle_def ifconfig_pool_handle_to_ipv6_base_def
    using assms(2) k(2) sint_nat_small[OF k(1)] a dr v by (simp add: Let_def)
qed

definition restored_entry :: "c_time \<Rightarrow> bool \<Rightarrow> byte list \<Rightarrow> ifconfig_pool_entry" where
  "restored_entry now fixed n = \<lparr>pe_in_use = False, pe_common_name = Some n, pe_last_release = now, pe_fixed = fixed\<rparr>"

lemma pool_entry_line_length:
  assumes "pool_text_laws T" "pool_name_ok n" "pool_ok p"
  shows "length (pool_entry_line T p i n) < 200" "set (pool_entry_line T p i n) \<inter> {0, 10, 13} = {}"
proof -
  let ?a4 = "if po_ipv4_enabled p then pt_print4 T (ifconfig_pool_handle_to_ip_base p i) else []"
  let ?a6 = "if po_ipv6_enabled p then pt_print6 T (ifconfig_pool_handle_to_ipv6_base p i) else []"
  have l6: "length (ifconfig_pool_handle_to_ipv6_base p i) = 16"
    using assms(3) add_in6_addr_nat(1) by (simp add: ifconfig_pool_handle_to_ipv6_base_def pool_ok_def)
  have "length n < 128" "length ?a4 < 16" "length ?a6 < 46" "set n \<inter> {0, 10, 13, 44} = {}" "set ?a4 \<inter> {0, 10, 13, 44} = {}" "set ?a6 \<inter> {0, 10, 13, 44} = {}"
    using assms(1,2) l6 unfolding pool_text_laws_def pool_name_ok_def by auto
  then show "length (pool_entry_line T p i n) < 200" "set (pool_entry_line T p i n) \<inter> {0, 10, 13} = {}"
    unfolding pool_entry_line_def by (simp_all only: length_append list.size set_append list.set, auto)
qed

lemma pool_read_line_of:
  assumes "pool_text_laws T" "pool_name_ok n" "pool_ok p" "pool_persistable p" "same_config p s" "k < length (po_list p)"
  shows "pool_read_line T now fixed (buf_of [] (pool_entry_line T p (int k) n @ [0]) q) s =
    Some (s\<lparr>po_list := (po_list s)[k := restored_entry now fixed n]\<rparr>)"
proof -
  define a4 where "a4 = (if po_ipv4_enabled p then pt_print4 T (ifconfig_pool_handle_to_ip_base p (int k)) else [])"
  define a6 where "a6 = (if po_ipv6_enabled p then pt_print6 T (ifconfig_pool_handle_to_ipv6_base p (int k)) else [])"
  have l6: "length (ifconfig_pool_handle_to_ipv6_base p (int k)) = 16"
    using assms(3) add_in6_addr_nat(1) by (simp add: ifconfig_pool_handle_to_ipv6_base_def pool_ok_def)
  have sizes: "length a4 < 16" "length a6 < 46"
    using assms(1) l6 unfolding pool_text_laws_def a4_def a6_def by auto
  have chars: "44 \<notin> set n" "0 \<notin> set n" "length n < 128" "44 \<notin> set a4" "0 \<notin> set a4" "44 \<notin> set a6" "0 \<notin> set a6"
    using assms(1,2) l6 unfolding pool_text_laws_def pool_name_ok_def a4_def a6_def by auto
  have wide: "length a4 < 128" "length a6 < 127" using sizes by linarith+
  note sets = chars(1-5) wide(1) chars(6,7) wide(2)
  have line: "pool_entry_line T p (int k) n @ [0] = n @ 44 # a4 @ 44 # a6 @ [0]" by (simp add: pool_entry_line_def a4_def a6_def)
  have r1: "buf_parse (buf_of [] (n @ 44 # a4 @ 44 # a6 @ [0]) q) 44 128 = Some (buf_of (n @ [44]) (a4 @ 44 # a6 @ [0]) q, n, True)"
    using buf_parse_comma[OF sets(1-3), of "[]"] by simp
  have r2: "buf_parse (buf_of (n @ [44]) (a4 @ 44 # a6 @ [0]) q) 44 128 = Some (buf_of ((n @ [44]) @ a4 @ [44]) (a6 @ [0]) q, a4, True)"
    by (rule buf_parse_comma[OF sets(4-6)])
  have r3: "buf_parse (buf_of ((n @ [44]) @ a4 @ [44]) (a6 @ [0]) q) 44 128 = Some (buf_of (((n @ [44]) @ a4 @ [44]) @ a6 @ [0]) [] q, a6, True)"
    by (rule buf_parse_nul[OF sets(7-9)])
  obtain x :: byte where c: "buf_peek_u8 (buf_of [] (n @ 44 # a4 @ 44 # a6 @ [0]) q) = Some (uint x)" "x \<noteq> 35" "x \<noteq> 59"
  proof (cases n)
    case Nil
    then show ?thesis using that[of 44] by (simp add: buf_peek_u8_of)
  next
    case (Cons y ys)
    then show ?thesis using that[of y] assms(2) by (simp add: buf_peek_u8_of pool_name_ok_def)
  qed
  have c': "uint x \<noteq> 35 \<and> uint x \<noteq> 59"
    using c(2,3) word_uint_eq_iff[of x 35] word_uint_eq_iff[of x 59] by simp
  have cfg: "ifconfig_pool_ip_base_to_handle s = ifconfig_pool_ip_base_to_handle p" "ifconfig_pool_ipv6_base_to_handle s = ifconfig_pool_ipv6_base_to_handle p"
    using same_configD[OF assms(5)] by (auto simp: ifconfig_pool_ip_base_to_handle_def ifconfig_pool_ipv6_base_to_handle_def fun_eq_iff Let_def split: pool_type.split)
  define h4 where "h4 = (if 0 < length a4 then (case pt_getaddr T a4 of None \<Rightarrow> -1 | Some addr \<Rightarrow> ifconfig_pool_ip_base_to_handle s addr) else -1)"
  define h where "h = (if 0 < length a6 then (case pt_get_ipv6_addr T a6 of None \<Rightarrow> h4
      | Some addr6 \<Rightarrow> (let h6 = ifconfig_pool_ipv6_base_to_handle s addr6 in if h4 < 0 then h6 else h4)) else h4)"
  have h: "h = int k"
  proof (cases "po_ipv4_enabled p")
    case True
    have "h4 = int k" using True assms(1) handle4_roundtrip[OF assms(3) True assms(6)] unfolding h4_def a4_def cfg pool_text_laws_def by auto
    then show ?thesis by (simp add: h_def Let_def split: option.split)
  next
    case False
    then have v6: "po_ipv6_enabled p" "nat_be (drop 12 (po_ipv6_base p)) + nat (po_size p) \<le> 2 ^ 32"
      using assms(4) by (auto simp: pool_persistable_def)
    have "h4 = -1" using False by (simp add: h4_def a4_def)
    then show ?thesis using assms(1) l6 v6 handle6_roundtrip[OF assms(3) v6 assms(6)] unfolding h_def a6_def cfg pool_text_laws_def by auto
  qed
  have "k < length (po_list s)" using assms(6) same_configD(8)[OF assms(5)] by simp
  then have set: "ifconfig_pool_set now s n (int k) fixed = Some (s\<lparr>po_list := (po_list s)[k := restored_entry now fixed n]\<rparr>)"
    by (cases "po_list s ! k") (simp add: ifconfig_pool_set_def ifconfig_pool_entry_free_def restored_entry_def)
  have ne: "buf_len (buf_of [] (n @ 44 # a4 @ 44 # a6 @ [0]) q) \<noteq> 0" by simp
  show ?thesis unfolding line pool_read_line_def if_not_P[OF ne] c(1) Option.bind.simps(2)
    using c' by (simp add: r1 r2 r3 h4_def[symmetric] h_def[symmetric] h set del: length_greater_0_conv append.simps append_assoc)
qed

fun pool_lines :: "pool_text \<Rightarrow> ifconfig_pool \<Rightarrow> ifconfig_pool_entry list \<Rightarrow> nat \<Rightarrow> byte list" where
  "pool_lines T p [] i = []"
| "pool_lines T p (e # rest) i = (case pe_common_name e of
     Some n \<Rightarrow> pool_entry_line T p (int i) n @ [10] @ pool_lines T p rest (i + 1)
   | None \<Rightarrow> pool_lines T p rest (i + 1))"

definition names_ok :: "ifconfig_pool_entry list \<Rightarrow> bool" where
  "names_ok es \<longleftrightarrow> (\<forall>e\<in>set es. \<forall>n. pe_common_name e = Some n \<longrightarrow> pool_name_ok n)"

lemma pool_list_loop_of:
  assumes "pool_text_laws T" "pool_ok p" "names_ok es"
  shows "pool_list_loop T p es (int i) (out, False) = (out @ pool_lines T p es i, False)"
  using assms(3)
proof (induction es arbitrary: i out)
  case (Cons e es)
  have IH: "pool_list_loop T p es (int i + 1) (out', False) = (out' @ pool_lines T p es (i + 1), False)" for out'
    using Cons.IH[of "Suc i" out'] Cons.prems by (simp add: names_ok_def add.commute)
  show ?case
  proof (cases "pe_common_name e")
    case None
    then show ?thesis using IH by simp
  next
    case (Some n)
    then have "length (pool_entry_line T p (int i) n) < STATUS_PRINTF_MAXLEN"
      using pool_entry_line_length(1)[OF assms(1) _ assms(2), of n "int i"] Cons.prems by (auto simp: names_ok_def STATUS_PRINTF_MAXLEN_def)
    then show ?thesis using Some IH by (simp add: status_printf_def)
  qed
qed simp

lemma pool_read_loop_of:
  assumes "pool_text_laws T" "pool_ok p" "pool_persistable p"
  shows "names_ok es \<Longrightarrow> same_config p s \<Longrightarrow> i + length es = length (po_list p) \<Longrightarrow> buf_fits bp bc bq \<Longrightarrow>
    length (bp @ bc @ bq) = 256 \<Longrightarrow>
    pool_read_loop T now fixed (pool_lines T p es i) (buf_of bp bc bq) s =
      Some (s\<lparr>po_list := take i (po_list s) @ map2 (\<lambda>e old. case pe_common_name e of Some n \<Rightarrow> restored_entry now fixed n | None \<Rightarrow> old) es (drop i (po_list s))\<rparr>)"
proof (induction es arbitrary: s i bp bc bq)
  case Nil
  have "buf_null_terminate (buf_of [] [] (bp @ bc @ bq)) \<noteq> None"
    using buf_null_terminate_of[of "[]" "[]" "bp @ bc @ bq"] Nil.prems(4) by (simp add: buf_fits_def)
  moreover have "buf_init (buf_of bp bc bq) 0 = (buf_of [] [] (bp @ bc @ bq), True)" by (simp add: buf_init_of)
  moreover have "take i (po_list s) = po_list s" using Nil.prems(2,3) same_configD(8) by fastforce
  ultimately show ?case by (subst pool_read_loop.simps) (auto simp: status_read_def)
next
  case (Cons e es)
  have init: "buf_init (buf_of bp bc bq) 0 = (buf_of [] [] (bp @ bc @ bq), True)" by (simp add: buf_init_of)
  have len: "length (po_list s) = length (po_list p)" by (rule same_configD(8)[OF Cons.prems(2)])
  have d: "drop i (po_list s) = po_list s ! i # drop (Suc i) (po_list s)" using Cons.prems(3) len by (simp add: Cons_nth_drop_Suc)
  have tk: "take (Suc i) (po_list s) = take i (po_list s) @ [po_list s ! i]" using Cons.prems(3) len by (simp add: take_Suc_conv_app_nth)
  have nk: "names_ok es" using Cons.prems(1) by (simp add: names_ok_def)
  show ?case
  proof (cases "pe_common_name e")
    case None
    then show ?thesis using Cons.IH[OF nk Cons.prems(2) _ Cons.prems(4,5), of "Suc i"] Cons.prems(3) d tk by simp
  next
    case (Some n)
    have n: "pool_name_ok n" using Cons.prems(1) Some by (simp add: names_ok_def)
    let ?l = "pool_entry_line T p (int i) n" and ?z = "bp @ bc @ bq"
    note ll = pool_entry_line_length[OF assms(1) n assms(2), of "int i"]
    have f: "buf_fits [] [] ?z" using Cons.prems(4) by (auto elim!: buf_fits_split)
    have rd: "status_read (?l @ 10 # pool_lines T p es (i + 1)) (buf_of [] [] ?z) =
        Some (pool_lines T p es (i + 1), buf_of [] (?l @ [0]) (drop (length ?l + 1) ?z), True)"
      using status_read_line[OF f, of ?l "pool_lines T p es (i + 1)"] ll Cons.prems(5) by auto
    have line: "pool_read_line T now fixed (buf_of [] (?l @ [0]) (drop (length ?l + 1) ?z)) s =
        Some (s\<lparr>po_list := (po_list s)[i := restored_entry now fixed n]\<rparr>)"
      using pool_read_line_of[OF assms(1) n assms(2,3) Cons.prems(2), of i] Cons.prems(3) by simp
    let ?s = "s\<lparr>po_list := (po_list s)[i := restored_entry now fixed n]\<rparr>"
    have sc: "same_config p ?s" by (rule same_config_trans[OF Cons.prems(2)]) (rule same_configI, simp)
    have f2: "buf_fits [] (?l @ [0]) (drop (length ?l + 1) ?z)" using f ll(1) Cons.prems(5) by (auto elim!: buf_fits_split)
    have sz: "length ([] @ (?l @ [0]) @ drop (length ?l + 1) ?z) = 256"
    proof -
      have "length ?l + 1 \<le> 256" using ll(1) by linarith
      then show ?thesis unfolding length_append length_drop using Cons.prems(5) unfolding length_append by simp
    qed
    have step: "pool_read_loop T now fixed (pool_lines T p (e # es) i) (buf_of bp bc bq) s =
        pool_read_loop T now fixed (pool_lines T p es (i + 1)) (buf_of [] (?l @ [0]) (drop (length ?l + 1) ?z)) ?s"
      using rd line by (subst pool_read_loop.simps) (simp add: Some init)
    have up: "take (Suc i) (po_list ?s) = take i (po_list s) @ [restored_entry now fixed n]" "drop (Suc i) (po_list ?s) = drop (Suc i) (po_list s)"
      using Cons.prems(3) len by (simp_all add: take_Suc_conv_app_nth)
    show ?thesis
      unfolding step using Cons.IH[OF nk sc _ f2 sz, of "Suc i"] Cons.prems(3) Some d up by simp
  qed
qed

text \<open>A name with a comma is split: the part after the comma is read as the address.\<close>

lemma pool_name_with_comma:
  assumes "pool_text_laws T" "pool_name_ok n" "pool_ok p" "po_ipv4_enabled p" "same_config p s" "k < length (po_list p)" "j < length (po_list p)"
  shows "pool_read_line T now fixed (buf_of [] (pool_entry_line T p (int k) (n @ 44 # pt_print4 T (ifconfig_pool_handle_to_ip_base p (int j))) @ [0]) q) s =
    Some (s\<lparr>po_list := (po_list s)[j := restored_entry now fixed n]\<rparr>)"
proof -
  define a4 where "a4 = pt_print4 T (ifconfig_pool_handle_to_ip_base p (int j))"
  define b4 where "b4 = pt_print4 T (ifconfig_pool_handle_to_ip_base p (int k))"
  define a6 where "a6 = (if po_ipv6_enabled p then pt_print6 T (ifconfig_pool_handle_to_ipv6_base p (int k)) else [])"
  have sizes: "length a4 < 16" "length b4 < 16" using assms(1) unfolding pool_text_laws_def a4_def b4_def by auto
  have chars: "44 \<notin> set n" "0 \<notin> set n" "length n < 128" "44 \<notin> set a4" "0 \<notin> set a4" "44 \<notin> set b4" "0 \<notin> set b4" "a4 \<noteq> []"
    using assms(1,2) unfolding pool_text_laws_def pool_name_ok_def a4_def b4_def by auto
  have wide: "length a4 < 128" "length b4 < 128" using sizes by linarith+
  have line: "pool_entry_line T p (int k) (n @ 44 # a4) @ [0] = n @ 44 # a4 @ 44 # b4 @ 44 # a6 @ [0]"
    using assms(4) by (simp add: pool_entry_line_def b4_def a6_def)
  have r1: "buf_parse (buf_of [] (n @ 44 # a4 @ 44 # b4 @ 44 # a6 @ [0]) q) 44 128 = Some (buf_of (n @ [44]) (a4 @ 44 # b4 @ 44 # a6 @ [0]) q, n, True)"
    using buf_parse_comma[OF chars(1-3), of "[]"] by simp
  have r2: "buf_parse (buf_of (n @ [44]) (a4 @ 44 # b4 @ 44 # a6 @ [0]) q) 44 128 =
      Some (buf_of ((n @ [44]) @ a4 @ [44]) (b4 @ 44 # a6 @ [0]) q, a4, True)"
    by (rule buf_parse_comma[OF chars(4,5) wide(1)])
  have r3: "buf_parse (buf_of ((n @ [44]) @ a4 @ [44]) (b4 @ 44 # a6 @ [0]) q) 44 128 =
      Some (buf_of (((n @ [44]) @ a4 @ [44]) @ b4 @ [44]) (a6 @ [0]) q, b4, True)"
    by (rule buf_parse_comma[OF chars(6,7) wide(2)])
  obtain x :: byte where c: "buf_peek_u8 (buf_of [] (n @ 44 # a4 @ 44 # b4 @ 44 # a6 @ [0]) q) = Some (uint x)" "x \<noteq> 35" "x \<noteq> 59"
  proof (cases n)
    case Nil
    then show ?thesis using that[of 44] by (simp add: buf_peek_u8_of)
  next
    case (Cons y ys)
    then show ?thesis using that[of y] assms(2) by (simp add: buf_peek_u8_of pool_name_ok_def)
  qed
  have c': "uint x \<noteq> 35 \<and> uint x \<noteq> 59"
    using c(2,3) word_uint_eq_iff[of x 35] word_uint_eq_iff[of x 59] by simp
  have cfg: "ifconfig_pool_ip_base_to_handle s = ifconfig_pool_ip_base_to_handle p"
    using same_configD[OF assms(5)] by (auto simp: ifconfig_pool_ip_base_to_handle_def fun_eq_iff Let_def split: pool_type.split)
  define h4 where "h4 = (if 0 < length a4 then (case pt_getaddr T a4 of None \<Rightarrow> -1 | Some addr \<Rightarrow> ifconfig_pool_ip_base_to_handle s addr) else -1)"
  define h where "h = (if 0 < length b4 then (case pt_get_ipv6_addr T b4 of None \<Rightarrow> h4
      | Some addr6 \<Rightarrow> (let h6 = ifconfig_pool_ipv6_base_to_handle s addr6 in if h4 < 0 then h6 else h4)) else h4)"
  have "h4 = int j" using chars(8) assms(1) handle4_roundtrip[OF assms(3,4,7)] unfolding h4_def a4_def cfg pool_text_laws_def by auto
  then have h: "h = int j" by (simp add: h_def Let_def split: option.split)
  have "j < length (po_list s)" using assms(7) same_configD(8)[OF assms(5)] by simp
  then have set: "ifconfig_pool_set now s n (int j) fixed = Some (s\<lparr>po_list := (po_list s)[j := restored_entry now fixed n]\<rparr>)"
    by (cases "po_list s ! j") (simp add: ifconfig_pool_set_def ifconfig_pool_entry_free_def restored_entry_def)
  have ne: "buf_len (buf_of [] (n @ 44 # a4 @ 44 # b4 @ 44 # a6 @ [0]) q) \<noteq> 0" by simp
  show ?thesis unfolding a4_def[symmetric] line pool_read_line_def if_not_P[OF ne] c(1) Option.bind.simps(2)
    using c' by (simp add: r1 r2 r3 h4_def[symmetric] h_def[symmetric] h set del: length_greater_0_conv append.simps append_assoc)
qed

section \<open>The round trip\<close>


text \<open>Addresses written with two letters for each byte.\<close>

definition letters :: "byte list \<Rightarrow> byte list" where
  "letters bs = concat (map (\<lambda>b. [word_of_nat (65 + unat b div 16), word_of_nat (65 + unat b mod 16)]) bs)"

fun unletters :: "byte list \<Rightarrow> byte list" where
  "unletters (a # b # r) = word_of_nat ((unat a - 65) * 16 + (unat b - 65)) # unletters r"
| "unletters _ = []"

definition letter_text :: pool_text where
  "letter_text = \<lparr>pt_print4 = (\<lambda>a. letters (be32 a)), pt_print6 = letters,
     pt_getaddr = (\<lambda>s. if length s = 8 then Some (de32 (unletters s)) else None),
     pt_get_ipv6_addr = (\<lambda>s. if length s = 32 then Some (unletters s) else None)\<rparr>"

lemma letter_text_laws: "pool_text_laws letter_text"
proof -
  have n: "unat (word_of_nat (65 + m) :: byte) = 65 + m" if "m < 16" for m
    unfolding unat_of_nat using that by (intro mod_less) simp
  have d: "unat b div 16 < 16" for b :: byte using unat_less_2p[of b] by (intro less_mult_imp_div_less) simp
  have r: "unletters (letters bs) = bs" for bs
  proof (induction bs)
    case (Cons b bs)
    have "(65 + unat b div 16 - 65) * 16 + (65 + unat b mod 16 - 65) = unat b" using div_mult_mod_eq[of "unat b" 16] by linarith
    then have "unletters (letters (b # bs)) = word_of_nat (unat b) # unletters (letters bs)"
      unfolding letters_def list.map concat.simps append.simps unletters.simps using n[OF d[of b]] n[of "unat b mod 16"] by simp
    then show ?case using Cons.IH by simp
  qed (simp add: letters_def)
  have l: "length (letters bs) = 2 * length bs" for bs by (induction bs) (simp_all add: letters_def)
  have c: "65 \<le> unat x" if "x \<in> set (letters bs)" for x bs
    using that n d by (induction bs) (auto simp: letters_def)
  have ch: "set (letters bs) \<inter> {0, 10, 13, 44} = {}" for bs using c[of _ bs] by fastforce
  have "letters b \<noteq> []" if "length b = 16" for b using l[of b] that by auto
  moreover have "letters (be32 a) \<noteq> []" for a using l[of "be32 a"] by auto
  moreover have "be32 a \<noteq> []" for a using length_be(2)[of a] by (metis list.size(3) zero_neq_numeral)
  ultimately show ?thesis using r l ch unfolding pool_text_laws_def by (auto simp: letter_text_def)
qed


end
