(* ===== verification/Ovpn_Options.thy ===== *)
theory Ovpn_Options
  imports Ovpn_Text
begin

text \<open>
  Options as text (\<open>options_parse.c\<close>): the line parser with its quoting and escapes, and the command
  line.  Parameters are the lists of their bytes before the NUL.  What the parsed options do is not
  modelled here: the result of the readers is the list of the calls of \<open>add_option\<close>.
\<close>

section \<open>The line parser\<close>

definition OPTION_PARM_SIZE :: nat where "OPTION_PARM_SIZE = 256"
definition MAX_PARMS :: nat where "MAX_PARMS = 16"

definition bypass_doubledash :: "byte list \<Rightarrow> byte list" where
  "bypass_doubledash p = (if length p \<ge> 3 \<and> take 2 p = [45, 45] then drop 2 p else p)"

definition opt_space :: "byte \<Rightarrow> bool" where
  "opt_space c = (c = 0 \<or> c_isspace c)"

datatype parse_mode = STATE_INITIAL | STATE_READING_QUOTED_PARM | STATE_READING_UNQUOTED_PARM | STATE_DONE | STATE_READING_SQUOTED_PARM

record parse_state =
  ps_state :: parse_mode
  ps_backslash :: bool
  ps_parm :: "byte list"
  ps_p :: "byte list list"

text \<open>How a round of the loop ends: it goes on, the loop is left, or the function returns 0.\<close>

datatype parse_result = Parse_Next parse_state | Parse_Break parse_state | Parse_Fail parse_state

definition parse_store :: "nat \<Rightarrow> byte \<Rightarrow> parse_state \<Rightarrow> parse_result" where
  "parse_store n out s =
     (if out \<noteq> 0 \<and> length (ps_parm s) \<ge> OPTION_PARM_SIZE then Parse_Fail s
      else (let s = (if out \<noteq> 0 then s\<lparr>ps_parm := ps_parm s @ [out]\<rparr> else s)
            in if length (ps_p s) \<ge> n then Parse_Break s else Parse_Next s))"

definition parse_mode_step :: "parse_mode \<Rightarrow> bool \<Rightarrow> byte \<Rightarrow> byte \<times> parse_mode" where
  "parse_mode_step st backslash inp = (case st of
     STATE_INITIAL \<Rightarrow>
       if opt_space inp then (0, STATE_INITIAL)
       else if \<not> backslash \<and> inp = 34 then (0, STATE_READING_QUOTED_PARM)
       else if \<not> backslash \<and> inp = 39 then (0, STATE_READING_SQUOTED_PARM)
       else (inp, STATE_READING_UNQUOTED_PARM)
   | STATE_READING_UNQUOTED_PARM \<Rightarrow>
       if \<not> backslash \<and> opt_space inp then (0, STATE_DONE) else (inp, STATE_READING_UNQUOTED_PARM)
   | STATE_READING_QUOTED_PARM \<Rightarrow>
       if \<not> backslash \<and> inp = 34 then (0, STATE_DONE) else (inp, STATE_READING_QUOTED_PARM)
   | STATE_READING_SQUOTED_PARM \<Rightarrow>
       if inp = 39 then (0, STATE_DONE) else (inp, STATE_READING_SQUOTED_PARM)
   | STATE_DONE \<Rightarrow> (0, STATE_DONE))"

definition parse_char :: "nat \<Rightarrow> byte \<Rightarrow> parse_state \<Rightarrow> parse_result" where
  "parse_char n inp s =
     (if \<not> ps_backslash s \<and> inp = 92 \<and> ps_state s \<noteq> STATE_READING_SQUOTED_PARM
      then parse_store n 0 (s\<lparr>ps_backslash := True\<rparr>)
      else if ps_state s = STATE_INITIAL \<and> \<not> opt_space inp \<and> (inp = 59 \<or> inp = 35) then Parse_Break s
      else (let (out, st) = parse_mode_step (ps_state s) (ps_backslash s) inp;
                s' = (if st = STATE_DONE
                      then s\<lparr>ps_p := ps_p s @ [ps_parm s], ps_state := STATE_INITIAL, ps_parm := []\<rparr>
                      else s\<lparr>ps_state := st\<rparr>)
            in if ps_backslash s \<and> out \<noteq> 0 \<and> \<not> (out = 92 \<or> out = 34 \<or> opt_space out) then Parse_Fail s'
               else parse_store n out (s'\<lparr>ps_backslash := False\<rparr>)))"

text \<open>The loop over the characters up to the final NUL, which is one of them.\<close>

fun parse_line_loop :: "nat \<Rightarrow> byte list \<Rightarrow> parse_state \<Rightarrow> parse_result" where
  "parse_line_loop n [] s = Parse_Break s"
| "parse_line_loop n (c # cs) s = (case parse_char n c s of
     Parse_Next s \<Rightarrow> parse_line_loop n cs s
   | r \<Rightarrow> r)"

text \<open>The number of parameters, 0 after an error, and the pointers that were stored.\<close>

definition parse_line :: "nat \<Rightarrow> byte list \<Rightarrow> nat \<times> byte list list" where
  "parse_line n line =
     (case parse_line_loop n (line @ [0]) \<lparr>ps_state = STATE_INITIAL, ps_backslash = False, ps_parm = [], ps_p = []\<rparr> of
        Parse_Fail s \<Rightarrow> (0, ps_p s)
      | Parse_Break s \<Rightarrow> if ps_state s \<noteq> STATE_INITIAL then (0, ps_p s) else (length (ps_p s), ps_p s)
      | Parse_Next s \<Rightarrow> (0, ps_p s))"

section \<open>What the parser accepts\<close>

text \<open>Spellings of a parameter: a plain word in which spaces and backslashes are escaped, or a quoted string.\<close>

definition spell_word :: "byte list \<Rightarrow> byte list" where
  "spell_word a = concat (map (\<lambda>c. if c = 92 \<or> c_isspace c then [92, c] else [c]) a)"

definition word_ok :: "byte list \<Rightarrow> bool" where
  "word_ok a = (a \<noteq> [] \<and> \<not> c_isspace (hd a) \<and> hd a \<notin> {34, 39, 35, 59})"

definition spell_quoted :: "byte list \<Rightarrow> byte list" where
  "spell_quoted a = [34] @ concat (map (\<lambda>c. if c = 92 \<or> c = 34 then [92, c] else [c]) a) @ [34]"

inductive line_spells :: "byte list \<Rightarrow> byte list list \<Rightarrow> bool" where
  empty: "line_spells [] []"
| comment: "c = 35 \<or> c = 59 \<Longrightarrow> line_spells (c # rest) []"
| blank: "c_isspace c \<Longrightarrow> line_spells l as \<Longrightarrow> line_spells (c # l) as"
| word: "word_ok a \<Longrightarrow> line_spells l as \<Longrightarrow> l = [] \<or> c_isspace (hd l) \<Longrightarrow> line_spells (spell_word a @ l) (a # as)"
| quoted: "line_spells l as \<Longrightarrow> line_spells (spell_quoted a @ l) (a # as)"
| squoted: "39 \<notin> set a \<Longrightarrow> line_spells l as \<Longrightarrow> line_spells ([39] @ a @ [39] @ l) (a # as)"

definition params_ok :: "byte list list \<Rightarrow> bool" where
  "params_ok as \<longleftrightarrow> (\<forall>a\<in>set as. 0 \<notin> set a \<and> length a \<le> OPTION_PARM_SIZE)"

definition idle :: "byte list list \<Rightarrow> parse_state" where
  "idle p = \<lparr>ps_state = STATE_INITIAL, ps_backslash = False, ps_parm = [], ps_p = p\<rparr>"

definition reading :: "parse_mode \<Rightarrow> byte list \<Rightarrow> byte list list \<Rightarrow> parse_state" where
  "reading st parm p = \<lparr>ps_state = st, ps_backslash = False, ps_parm = parm, ps_p = p\<rparr>"

lemmas parse_defs = parse_char_def parse_store_def parse_mode_step_def idle_def reading_def opt_space_def

lemma not_space: "\<not> c_isspace 0" "\<not> c_isspace 34" "\<not> c_isspace 35" "\<not> c_isspace 39" "\<not> c_isspace 59" "\<not> c_isspace 92"
  by (simp_all add: c_isspace_def)

lemma read_word:
  "0 \<notin> set a \<Longrightarrow> length parm + length a \<le> OPTION_PARM_SIZE \<Longrightarrow> length p < n \<Longrightarrow>
   parse_line_loop n (spell_word a @ rest) (reading STATE_READING_UNQUOTED_PARM parm p) =
   parse_line_loop n rest (reading STATE_READING_UNQUOTED_PARM (parm @ a) p)"
proof (induction a arbitrary: parm)
  case Nil
  then show ?case by (simp add: spell_word_def)
next
  case (Cons c a)
  have IH: "parse_line_loop n (spell_word a @ rest) (reading STATE_READING_UNQUOTED_PARM (parm @ [c]) p) =
     parse_line_loop n rest (reading STATE_READING_UNQUOTED_PARM (parm @ c # a) p)"
    using Cons.IH[of "parm @ [c]"] Cons.prems by simp
  have c: "c \<noteq> 0" "length parm < OPTION_PARM_SIZE" using Cons.prems by auto
  show ?case
  proof (cases "c = 92 \<or> c_isspace c")
    case True
    then show ?thesis using IH c Cons.prems(3) by (auto simp: spell_word_def parse_defs not_space Let_def)
  next
    case False
    then show ?thesis using IH c Cons.prems(3) by (auto simp: spell_word_def parse_defs not_space Let_def)
  qed
qed

lemma read_quoted:
  "0 \<notin> set a \<Longrightarrow> length parm + length a \<le> OPTION_PARM_SIZE \<Longrightarrow> length p < n \<Longrightarrow>
   parse_line_loop n (concat (map (\<lambda>c. if c = 92 \<or> c = 34 then [92, c] else [c]) a) @ rest) (reading STATE_READING_QUOTED_PARM parm p) =
   parse_line_loop n rest (reading STATE_READING_QUOTED_PARM (parm @ a) p)"
proof (induction a arbitrary: parm)
  case (Cons c a)
  have IH: "parse_line_loop n (concat (map (\<lambda>c. if c = 92 \<or> c = 34 then [92, c] else [c]) a) @ rest) (reading STATE_READING_QUOTED_PARM (parm @ [c]) p) =
     parse_line_loop n rest (reading STATE_READING_QUOTED_PARM (parm @ c # a) p)"
    using Cons.IH[of "parm @ [c]"] Cons.prems by simp
  have c: "c \<noteq> 0" "length parm < OPTION_PARM_SIZE" using Cons.prems by auto
  then show ?case using IH Cons.prems(3) by (auto simp: parse_defs not_space Let_def)
qed simp

lemma read_squoted:
  "39 \<notin> set a \<Longrightarrow> 0 \<notin> set a \<Longrightarrow> length parm + length a \<le> OPTION_PARM_SIZE \<Longrightarrow> length p < n \<Longrightarrow>
   parse_line_loop n (a @ rest) (reading STATE_READING_SQUOTED_PARM parm p) =
   parse_line_loop n rest (reading STATE_READING_SQUOTED_PARM (parm @ a) p)"
proof (induction a arbitrary: parm)
  case (Cons c a)
  have c: "c \<noteq> 0" "c \<noteq> 39" "length parm < OPTION_PARM_SIZE" using Cons.prems by auto
  then show ?case using Cons by (auto simp: parse_defs Let_def)
qed simp

definition spelled :: "nat \<Rightarrow> byte list \<Rightarrow> byte list list \<Rightarrow> byte list list \<Rightarrow> bool" where
  "spelled n line p as \<longleftrightarrow> (\<exists>s. parse_line_loop n (line @ [0]) (idle p) = Parse_Break s \<and> ps_state s = STATE_INITIAL \<and> ps_p s = p @ as)"

text \<open>After a parameter the parser is idle again, or stops because it has as many as it may have.\<close>

lemma spelled_param:
  assumes "parse_line_loop n (w @ l @ [0]) (idle p) =
      (if length p + 1 \<ge> n then Parse_Break (idle (p @ [a])) else parse_line_loop n (l @ [0]) (idle (p @ [a])))"
    and "length p + 1 < n \<Longrightarrow> spelled n l (p @ [a]) as" "length p + length (a # as) \<le> n"
  shows "spelled n (w @ l) p (a # as)"
proof (cases "length p + 1 \<ge> n")
  case True
  then have "as = []" using assms(3) by (cases as) simp_all
  then show ?thesis using assms(1) True by (simp add: spelled_def idle_def)
next
  case False
  then show ?thesis using assms(1,2) by (simp add: spelled_def)
qed

lemma end_unquoted:
  assumes "opt_space c"
  shows "parse_char n c (reading STATE_READING_UNQUOTED_PARM a p) =
    (if length p + 1 \<ge> n then Parse_Break (idle (p @ [a])) else Parse_Next (idle (p @ [a])))"
  using assms by (auto simp: parse_defs not_space Let_def)

lemma end_quoted:
  "parse_char n 34 (reading STATE_READING_QUOTED_PARM a p) =
    (if length p + 1 \<ge> n then Parse_Break (idle (p @ [a])) else Parse_Next (idle (p @ [a])))"
  "parse_char n 39 (reading STATE_READING_SQUOTED_PARM a p) =
    (if length p + 1 \<ge> n then Parse_Break (idle (p @ [a])) else Parse_Next (idle (p @ [a])))"
  by (auto simp: parse_defs not_space Let_def)

lemma skip_space: "opt_space c \<Longrightarrow> length p < n \<Longrightarrow> parse_char n c (idle p) = Parse_Next (idle p)"
  by (auto simp: parse_defs not_space Let_def)

lemma start_quoted:
  "length p < n \<Longrightarrow> parse_char n 34 (idle p) = Parse_Next (reading STATE_READING_QUOTED_PARM [] p)"
  "length p < n \<Longrightarrow> parse_char n 39 (idle p) = Parse_Next (reading STATE_READING_SQUOTED_PARM [] p)"
  by (auto simp: parse_defs not_space Let_def)

lemma start_word:
  assumes "c \<noteq> 0" "\<not> c_isspace c" "c \<notin> {34, 39, 35, 59}" "length p < n"
  shows "parse_line_loop n (spell_word (c # a) @ rest) (idle p) = parse_line_loop n (spell_word a @ rest) (reading STATE_READING_UNQUOTED_PARM [c] p)"
  using assms by (auto simp: spell_word_def parse_defs not_space Let_def OPTION_PARM_SIZE_def)

lemma line_spells_spelled:
  "line_spells line as \<Longrightarrow> params_ok as \<Longrightarrow> length p < n \<Longrightarrow> length p + length as \<le> n \<Longrightarrow> spelled n line p as"
proof (induction arbitrary: p rule: line_spells.induct)
  case empty
  then show ?case using skip_space[of 0 p n] by (simp add: spelled_def) (simp add: idle_def opt_space_def)
next
  case (comment c rest)
  then show ?case by (auto simp: spelled_def parse_defs not_space)
next
  case (blank c l as)
  then show ?case using skip_space[of c p n] by (simp add: spelled_def opt_space_def)
next
  case (word a l as)
  obtain c b where a: "a = c # b" using word.hyps(1) by (cases a) (auto simp: word_ok_def)
  have ok: "0 \<notin> set a" "length a \<le> OPTION_PARM_SIZE" using word.prems(1) by (auto simp: params_ok_def)
  have "parse_line_loop n (spell_word a @ l @ [0]) (idle p) = parse_line_loop n (spell_word b @ l @ [0]) (reading STATE_READING_UNQUOTED_PARM [c] p)"
    unfolding a by (rule start_word) (use ok a word.hyps(1) word.prems(2) in \<open>auto simp: word_ok_def\<close>)
  also have "\<dots> = parse_line_loop n (l @ [0]) (reading STATE_READING_UNQUOTED_PARM a p)"
    using read_word[of b "[c]" p n "l @ [0]"] ok a word.prems(2) by simp
  also have "\<dots> = (if length p + 1 \<ge> n then Parse_Break (idle (p @ [a])) else parse_line_loop n (l @ [0]) (idle (p @ [a])))"
  proof (cases l)
    case Nil
    then show ?thesis using end_unquoted[of 0 n a p] skip_space[of 0 "p @ [a]" n] by (simp add: opt_space_def)
  next
    case (Cons d l')
    then have d: "opt_space d" using word.hyps(3) by (simp add: opt_space_def)
    show ?thesis using Cons end_unquoted[OF d, of n a p] skip_space[OF d, of "p @ [a]" n] by simp
  qed
  finally show ?case
    by (rule spelled_param) (use word.IH word.prems in \<open>simp_all add: params_ok_def\<close>)
next
  case (quoted l as a)
  have ok: "0 \<notin> set a" "length a \<le> OPTION_PARM_SIZE" using quoted.prems(1) by (auto simp: params_ok_def)
  have "parse_line_loop n (spell_quoted a @ l @ [0]) (idle p) =
      parse_line_loop n (34 # l @ [0]) (reading STATE_READING_QUOTED_PARM a p)"
    using start_quoted(1)[OF quoted.prems(2)] read_quoted[of a "[]" p n "34 # l @ [0]"] ok quoted.prems(2) by (simp add: spell_quoted_def)
  then have "parse_line_loop n (spell_quoted a @ l @ [0]) (idle p) =
      (if length p + 1 \<ge> n then Parse_Break (idle (p @ [a])) else parse_line_loop n (l @ [0]) (idle (p @ [a])))"
    using end_quoted(1)[of n a p] by simp
  then show ?case by (rule spelled_param) (use quoted.IH quoted.prems in \<open>simp_all add: params_ok_def\<close>)
next
  case (squoted a l as)
  have ok: "0 \<notin> set a" "length a \<le> OPTION_PARM_SIZE" using squoted.prems(1) by (auto simp: params_ok_def)
  have "parse_line_loop n (([39] @ a @ [39]) @ l @ [0]) (idle p) =
      parse_line_loop n (39 # l @ [0]) (reading STATE_READING_SQUOTED_PARM a p)"
    using start_quoted(2)[OF squoted.prems(2)] read_squoted[of a "[]" p n "39 # l @ [0]"] ok squoted.hyps(1) squoted.prems(2) by simp
  then have "parse_line_loop n (([39] @ a @ [39]) @ l @ [0]) (idle p) =
      (if length p + 1 \<ge> n then Parse_Break (idle (p @ [a])) else parse_line_loop n (l @ [0]) (idle (p @ [a])))"
    using end_quoted(2)[of n a p] by simp
  then have "spelled n (([39] @ a @ [39]) @ l) p (a # as)"
    by (rule spelled_param) (use squoted.IH squoted.prems in \<open>simp_all add: params_ok_def\<close>)
  then show ?case by simp
qed

text \<open>Whatever the line, the parser stays within its buffers.\<close>

definition parse_ok :: "nat \<Rightarrow> parse_state \<Rightarrow> bool" where
  "parse_ok n s \<longleftrightarrow> length (ps_p s) \<le> n \<and> length (ps_parm s) \<le> OPTION_PARM_SIZE \<and> 0 \<notin> set (ps_parm s) \<and>
     params_ok (ps_p s) \<and> ps_state s \<noteq> STATE_DONE"

fun result_state :: "parse_result \<Rightarrow> parse_state" where
  "result_state (Parse_Next s) = s"
| "result_state (Parse_Break s) = s"
| "result_state (Parse_Fail s) = s"

lemma parse_store_ok:
  assumes "parse_ok n s"
  shows "parse_ok n (result_state (parse_store n out s)) \<and> (\<forall>s'. parse_store n out s = Parse_Next s' \<longrightarrow> length (ps_p s') < n)"
  using assms by (auto simp: parse_store_def parse_ok_def Let_def)

lemma parse_char_ok:
  assumes "parse_ok n s" "length (ps_p s) < n"
  shows "parse_ok n (result_state (parse_char n c s)) \<and> (\<forall>s'. parse_char n c s = Parse_Next s' \<longrightarrow> length (ps_p s') < n)"
proof -
  obtain out st where m: "parse_mode_step (ps_state s) (ps_backslash s) c = (out, st)" by fastforce
  define s1 where "s1 = (if st = STATE_DONE then s\<lparr>ps_p := ps_p s @ [ps_parm s], ps_state := STATE_INITIAL, ps_parm := []\<rparr> else s\<lparr>ps_state := st\<rparr>)"
  have i: "parse_ok n s1" using assms by (auto simp: parse_ok_def params_ok_def s1_def)
  then have j: "parse_ok n (s1\<lparr>ps_backslash := False\<rparr>)" "parse_ok n (s\<lparr>ps_backslash := True\<rparr>)"
    using assms(1) by (simp_all add: parse_ok_def)
  have "parse_char n c s \<in> {parse_store n 0 (s\<lparr>ps_backslash := True\<rparr>), Parse_Break s, Parse_Fail s1, parse_store n out (s1\<lparr>ps_backslash := False\<rparr>)}"
    unfolding parse_char_def m Let_def split s1_def[symmetric] by simp
  then consider "parse_char n c s = parse_store n 0 (s\<lparr>ps_backslash := True\<rparr>)" | "parse_char n c s = Parse_Break s"
    | "parse_char n c s = Parse_Fail s1" | "parse_char n c s = parse_store n out (s1\<lparr>ps_backslash := False\<rparr>)" by blast
  then show ?thesis
    by cases (use assms(1) i parse_store_ok[OF j(1), of out] parse_store_ok[OF j(2), of 0] in simp_all)
qed

lemma parse_line_loop_ok:
  "parse_ok n s \<Longrightarrow> length (ps_p s) < n \<Longrightarrow> parse_ok n (result_state (parse_line_loop n cs s))"
proof (induction cs arbitrary: s)
  case (Cons c cs)
  then show ?case using parse_char_ok[OF Cons.prems, of c] by (cases "parse_char n c s") auto
qed simp

section \<open>Properties of the line parser\<close>

lemma parse_line_spelled_lines:
  assumes "line_spells line params" "params_ok params" "length params \<le> n" "0 < n"
  shows "parse_line n line = (length params, params)"
  using line_spells_spelled[OF assms(1,2), of "[]" n] assms(3,4) by (auto simp: spelled_def parse_line_def idle_def)

text \<open>C13: The parser reads what the manual says a line means: words in which spaces, quotes and backslashes are
  escaped, double quoted strings with escapes, single quoted strings, blanks between them and a
  comment at the end give exactly the parameters that are spelled.\<close>

theorem parse_line_spelled:
  assumes "line_spells line params" "params_ok params" "length params \<le> n" "0 < n"
  shows "parse_line n line = (length params, params)"
  using assms by (rule parse_line_spelled_lines)

text \<open>C14: Whatever the line, the parser stores at most \<open>n\<close> parameters of at most 256 bytes each, without a
  NUL byte, and it returns the number of the stored parameters or, after an error, 0.\<close>

theorem parse_line_bounds:
  assumes "parse_line n line = (r, p)" "0 < n"
  shows "length p \<le> n \<and> params_ok p \<and> (r = length p \<or> r = 0)"
proof -
  define s where "s = result_state (parse_line_loop n (line @ [0]) (idle []))"
  have "parse_ok n s" unfolding s_def using assms(2) by (intro parse_line_loop_ok) (simp_all add: parse_ok_def idle_def params_ok_def)
  moreover have "p = ps_p s \<and> (r = length p \<or> r = 0)"
    using assms(1) unfolding parse_line_def s_def idle_def
    by (cases "parse_line_loop n (line @ [0]) \<lparr>ps_state = STATE_INITIAL, ps_backslash = False, ps_parm = [], ps_p = []\<rparr>") (auto split: if_splits)
  ultimately show ?thesis by (auto simp: parse_ok_def)
qed

text \<open>An escaped blank at the start of a parameter is lost, although the manual promises a literal space.\<close>

theorem parse_line_escaped_blank:
  assumes "c_isspace c" "0 < n"
  shows "parse_line n ([92, c] @ line) = parse_line n line"
proof -
  have "parse_char n 92 (idle []) = Parse_Next ((idle [])\<lparr>ps_backslash := True\<rparr>)" using assms(2) by (simp add: parse_defs)
  moreover have "parse_char n c ((idle [])\<lparr>ps_backslash := True\<rparr>) = Parse_Next (idle [])"
    using assms by (auto simp: parse_defs not_space Let_def)
  ultimately have "parse_line_loop n (([92, c] @ line) @ [0]) (idle []) = parse_line_loop n (line @ [0]) (idle [])" by simp
  then show ?thesis unfolding parse_line_def idle_def by simp
qed

text \<open>The line \<open>a "b c"#x\<close>.\<close>

theorem parse_line_spelled_witness:
  "parse_line 16 [97, 32, 34, 98, 32, 99, 34, 35, 120] = (2, [[97], [98, 32, 99]])"
proof -
  have "line_spells [35, 120] []" by (rule line_spells.comment) simp
  then have "line_spells (spell_quoted [98, 32, 99] @ [35, 120]) [[98, 32, 99]]" by (rule line_spells.quoted)
  then have "line_spells (32 # spell_quoted [98, 32, 99] @ [35, 120]) [[98, 32, 99]]"
    by (rule line_spells.blank[rotated]) (simp add: c_isspace_def)
  then have "line_spells (spell_word [97] @ 32 # spell_quoted [98, 32, 99] @ [35, 120]) ([97] # [[98, 32, 99]])"
    by (rule line_spells.word[rotated]) (simp_all add: c_isspace_def word_ok_def)
  from parse_line_spelled[OF this, of 16] show ?thesis
    by (simp add: params_ok_def spell_word_def spell_quoted_def c_isspace_def OPTION_PARM_SIZE_def)
qed

theorem parse_line_bounds_witness:
  "length (snd (parse_line 1 [97, 32, 98])) \<le> 1 \<and> params_ok (snd (parse_line 1 [97, 32, 98]))"
  using parse_line_bounds[of 1 "[97, 32, 98]" "fst (parse_line 1 [97, 32, 98])" "snd (parse_line 1 [97, 32, 98])"] by simp

theorem parse_line_escaped_blank_witness: "parse_line 16 [92, 32, 97] = parse_line 16 [97]"
  using parse_line_escaped_blank[of 32 16 "[97]"] by (simp add: c_isspace_def)

section \<open>The command line\<close>

definition dashes :: "byte list \<Rightarrow> bool" where
  "dashes s = (take 2 s = [45, 45])"

text \<open>The inner loop: the parameters from \<open>argv[i + j]\<close> on, and the final \<open>j\<close>.\<close>

function argv_params :: "byte list list \<Rightarrow> nat \<Rightarrow> nat \<Rightarrow> byte list list \<times> nat" where
  "argv_params argv i j =
     (if j < MAX_PARMS
      then (if i + j < length argv
            then (let arg = argv ! (i + j)
                  in if \<not> dashes arg
                     then (let (ps, k) = argv_params argv i (j + 1) in (arg # ps, k))
                     else ([], j))
            else argv_params argv i (j + 1))
      else ([], j))"
  by pat_completeness auto
termination by (relation "measure (\<lambda>(argv, i, j). MAX_PARMS - j)") auto

declare argv_params.simps [simp del]

lemma argv_params_ge: "j \<le> MAX_PARMS \<Longrightarrow> j \<le> snd (argv_params argv i j)"
proof (induction argv i j rule: argv_params.induct)
  case (1 argv i j)
  show ?case
  proof (cases "j < MAX_PARMS \<and> (i + j < length argv \<longrightarrow> \<not> dashes (argv ! (i + j)))")
    case True
    then have "j + 1 \<le> snd (argv_params argv i (j + 1))" using 1 by (cases "i + j < length argv") auto
    then show ?thesis using True by (subst argv_params.simps) (auto simp: Let_def split: prod.splits)
  qed (subst argv_params.simps, auto simp: Let_def)
qed

lemma argv_params_pos: "1 \<le> snd (argv_params argv i 1)"
  using argv_params_ge[of 1 argv i] by (simp add: MAX_PARMS_def)

text \<open>
  The outer loop: the calls of \<open>add_option\<close>, or \<open>None\<close> when a word without dashes stands where an
  option must be and \<open>msglevel\<close> is fatal, as it is for the command line of the program.
\<close>

function argv_loop :: "bool \<Rightarrow> byte list list \<Rightarrow> nat \<Rightarrow> byte list list list option" where
  "argv_loop fatal argv i =
     (if i < length argv
      then (if \<not> dashes (argv ! i) \<and> fatal then None
            else (let p0 = (if \<not> dashes (argv ! i) then argv ! i else drop 2 (argv ! i));
                      r = argv_params argv i 1
                  in map_option ((#) (p0 # fst r)) (argv_loop fatal argv (i + (snd r - 1) + 1))))
      else Some [])"
  by pat_completeness auto
termination by (relation "measure (\<lambda>(f, argv, i). length argv - i)") auto

declare argv_loop.simps [simp del]

text \<open>\<open>usage\<close> ends the program.\<close>

definition parse_argv :: "bool \<Rightarrow> byte list list \<Rightarrow> byte list list list option" where
  "parse_argv fatal argv =
     (if length argv \<le> 1 then None
      else if length argv = 2 \<and> \<not> dashes (argv ! 1) then Some [[[99, 111, 110, 102, 105, 103], argv ! 1]]
      else argv_loop fatal argv 1)"

definition option_words :: "byte list list \<Rightarrow> byte list list" where
  "option_words p = ([45, 45] @ hd p) # tl p"

definition option_ok :: "byte list list \<Rightarrow> bool" where
  "option_ok p \<longleftrightarrow> p \<noteq> [] \<and> length p \<le> MAX_PARMS \<and> list_all (\<lambda>a. \<not> dashes a) (tl p)"

lemma argv_params_words:
  assumes "list_all (\<lambda>a. \<not> dashes a) ps" "rest = [] \<or> dashes (hd rest)" "length pre = i + j" "j + length ps \<le> MAX_PARMS"
  shows "fst (argv_params (pre @ ps @ rest) i j) = ps \<and>
    (rest \<noteq> [] \<longrightarrow> snd (argv_params (pre @ ps @ rest) i j) = j + length ps) \<and>
    j + length ps \<le> snd (argv_params (pre @ ps @ rest) i j)"
  using assms
proof (induction ps arbitrary: pre j)
  case Nil
  show ?case
  proof (cases rest)
    case Nil
    have "fst (argv_params pre i k) = []" if "length pre \<le> i + k" for k
      using that by (induction pre i k rule: argv_params.induct) (subst argv_params.simps, simp)
    then show ?thesis using Nil Nil.prems argv_params_ge[of j pre i] by simp
  next
    case (Cons r rs)
    then have "dashes r" using Nil.prems by simp
    then have "argv_params (pre @ r # rs) i j = ([], j)"
      using Nil.prems by (subst argv_params.simps) (simp add: nth_append Let_def)
    then show ?thesis using Cons by simp
  qed
next
  case (Cons a ps)
  let ?argv = "pre @ (a # ps) @ rest"
  have "argv_params ?argv i j = (a # fst (argv_params ?argv i (j + 1)), snd (argv_params ?argv i (j + 1)))"
    using Cons.prems by (subst argv_params.simps) (simp add: nth_append Let_def split_beta)
  moreover have "fst (argv_params ((pre @ [a]) @ ps @ rest) i (j + 1)) = ps \<and>
    (rest \<noteq> [] \<longrightarrow> snd (argv_params ((pre @ [a]) @ ps @ rest) i (j + 1)) = j + 1 + length ps) \<and>
    j + 1 + length ps \<le> snd (argv_params ((pre @ [a]) @ ps @ rest) i (j + 1))"
    using Cons.prems by (intro Cons.IH) auto
  ultimately show ?case by simp
qed

lemma argv_loop_end: "length argv \<le> i \<Longrightarrow> argv_loop fatal argv i = Some []"
  by (subst argv_loop.simps) simp

lemma argv_loop_words:
  "list_all option_ok ps \<Longrightarrow> argv_loop fatal (pre @ concat (map option_words ps)) (length pre) = Some ps"
proof (induction ps arbitrary: pre)
  case Nil
  then show ?case by (subst argv_loop.simps) simp
next
  case (Cons p ps)
  obtain n as where p: "p = n # as" using Cons.prems by (cases p) (auto simp: option_ok_def)
  let ?rest = "concat (map option_words ps)" and ?w = "[45, 45] @ n"
  let ?argv = "pre @ ?w # as @ ?rest"
  have ok: "list_all (\<lambda>a. \<not> dashes a) as" "1 + length as \<le> MAX_PARMS" using Cons.prems p by (auto simp: option_ok_def)
  have "?rest = [] \<or> dashes (hd ?rest)" by (cases ps) (simp_all add: option_words_def dashes_def)
  from argv_params_words[OF ok(1) this, of "pre @ [?w]" "length pre" 1] ok(2)
  have par: "fst (argv_params ?argv (length pre) 1) = as"
    and k: "?rest \<noteq> [] \<Longrightarrow> snd (argv_params ?argv (length pre) 1) = 1 + length as"
    and g: "1 + length as \<le> snd (argv_params ?argv (length pre) 1)" by auto
  have loop: "argv_loop fatal ?argv (length pre) = map_option ((#) p)
      (argv_loop fatal ?argv (length pre + (snd (argv_params ?argv (length pre) 1) - 1) + 1))"
    using par p by (subst argv_loop.simps) (simp add: dashes_def nth_append Let_def)
  show ?case
  proof (cases "?rest = []")
    case True
    then have "ps = []" by (cases ps) (auto simp: option_words_def)
    have "argv_loop fatal ?argv (length pre + (snd (argv_params ?argv (length pre) 1) - 1) + 1) = Some []"
      by (rule argv_loop_end) (use g \<open>ps = []\<close> in \<open>simp add: p\<close>)
    then show ?thesis using loop \<open>ps = []\<close> by (simp add: p option_words_def)
  next
    case False
    then have i: "length pre + (snd (argv_params ?argv (length pre) 1) - 1) + 1 = length (pre @ ?w # as)"
      using k by simp
    have "argv_loop fatal ((pre @ ?w # as) @ ?rest) (length (pre @ ?w # as)) = Some ps"
      using Cons by (intro Cons.IH) simp
    moreover have "option_words p = ?w # as" by (simp add: p option_words_def)
    ultimately show ?thesis using loop unfolding i by simp
  qed
qed

text \<open>C15: The command line is read as the options it is made of: every word with two dashes begins an
  option and the words up to the next one are its parameters.\<close>

theorem parse_argv_options:
  assumes "list_all option_ok ps" "ps \<noteq> []"
  shows "parse_argv fatal (prog # concat (map option_words ps)) = Some ps"
proof -
  obtain p ps' where "ps = p # ps'" using assms(2) by (cases ps) auto
  then have "length (prog # concat (map option_words ps)) > 1" "dashes ((prog # concat (map option_words ps)) ! 1)"
    by (auto simp: option_words_def dashes_def)
  then show ?thesis using argv_loop_words[OF assms(1), of fatal "[prog]"] by (simp add: parse_argv_def)
qed

theorem parse_argv_options_witness:
  "parse_argv True [[111], [45, 45, 104], [49], [50], [45, 45, 113]] = Some [[[104], [49], [50]], [[113]]]"
  using parse_argv_options[of "[[[104], [49], [50]], [[113]]]" True "[111]"]
  by (simp add: option_ok_def option_words_def dashes_def MAX_PARMS_def)

end
