(* ===== verification/Ovpn_Options_Util.thy ===== *)
theory Ovpn_Options_Util
  imports Ovpn_Text
begin

text \<open>
  Numbers as option parameters, the filter of pulled options and the flags of updates
  (\<open>options_util.c\<close>).
\<close>

unbundle bit_operations_syntax

section \<open>Numbers\<close>

text \<open>The library's \<open>strtoll\<close> in base 10: the value, cut to its range, and the text it stops at.\<close>

definition c_digits :: "byte list \<Rightarrow> int" where
  "c_digits ds = foldl (\<lambda>v d. v * 10 + (uint d - 48)) 0 ds"

definition LLONG_MAX :: int where "LLONG_MAX = 2 ^ 63 - 1"
definition LLONG_MIN :: int where "LLONG_MIN = - (2 ^ 63)"
definition INT_MAX :: int where "INT_MAX = 2 ^ 31 - 1"
definition INT_MIN :: int where "INT_MIN = - (2 ^ 31)"

definition c_strtoll :: "byte list \<Rightarrow> int \<times> byte list" where
  "c_strtoll str =
     (let s = dropWhile c_isspace str;
          neg = (s \<noteq> [] \<and> hd s = 45);
          s = (if s \<noteq> [] \<and> (hd s = 45 \<or> hd s = 43) then tl s else s);
          ds = takeWhile c_isdigit s;
          v = (if neg then - c_digits ds else c_digits ds)
      in if ds = [] then (0, str) else (max LLONG_MIN (min LLONG_MAX v), dropWhile c_isdigit s))"

definition valid_integer :: "byte list \<Rightarrow> bool \<Rightarrow> bool" where
  "valid_integer str positive =
     (let (i, rest) = c_strtoll str
      in if i < INT_MIN \<or> positive \<and> i < 0 \<or> rest \<noteq> [] \<or> i > INT_MAX then False else True)"

definition positive_atoi :: "byte list \<Rightarrow> int" where
  "positive_atoi str =
     (let (i, rest) = c_strtoll str
      in if i < 0 \<or> rest \<noteq> [] \<or> i > INT_MAX then 0 else i)"

definition positive_atoll :: "byte list \<Rightarrow> int \<Rightarrow> int \<times> bool" where
  "positive_atoll str value =
     (let (ll, rest) = c_strtoll str
      in if ll < 0 \<or> rest \<noteq> [] then (value, False) else (ll, True))"

definition atoi_warn :: "byte list \<Rightarrow> int" where
  "atoi_warn str =
     (let (i, rest) = c_strtoll str
      in if i < INT_MIN \<or> rest \<noteq> [] \<or> i > INT_MAX then 0 else i)"

text \<open>The new value and whether it was accepted; \<open>None\<close> is the failed assertion.\<close>

definition atoi_constrained :: "byte list \<Rightarrow> int \<Rightarrow> int \<Rightarrow> int \<Rightarrow> (int \<times> bool) option" where
  "atoi_constrained str value lo hi = do {
     cassert (lo < hi);
     let (i, rest) = c_strtoll str;
     if i < INT_MIN \<or> rest \<noteq> [] \<or> i > INT_MAX then Some (value, False)
     else if i < lo \<or> i > hi then Some (value, False)
     else Some (i, True) }"

text \<open>The decimal text of a number, as \<open>%d\<close> prints it.\<close>

function dec_nat :: "nat \<Rightarrow> byte list" where
  "dec_nat n = (if n < 10 then [word_of_nat (48 + n)] else dec_nat (n div 10) @ [word_of_nat (48 + n mod 10)])"
  by pat_completeness auto
termination by (relation "measure id") auto

declare dec_nat.simps [simp del]

definition dec_int :: "int \<Rightarrow> byte list" where
  "dec_int i = (if i < 0 then 45 # dec_nat (nat (- i)) else dec_nat (nat i))"

lemma digit_byte:
  assumes "n < 10"
  shows "c_isdigit (word_of_nat (48 + n))" "uint (word_of_nat (48 + n) :: byte) = 48 + int n"
proof -
  have n: "unat (word_of_nat (48 + n) :: byte) = 48 + n" using assms by (simp add: unat_of_nat del: of_nat_add)
  then show "uint (word_of_nat (48 + n) :: byte) = 48 + int n" by (simp only: uint_nat)
  show "c_isdigit (word_of_nat (48 + n))"
    using assms unfolding c_isdigit_def word_le_nat_alt n by simp
qed

lemma dec_nat_digits: "list_all c_isdigit (dec_nat n) \<and> dec_nat n \<noteq> [] \<and> c_digits (dec_nat n) = int n"
proof (induction n rule: dec_nat.induct)
  case (1 n)
  show ?case
  proof (cases "n < 10")
    case True
    then show ?thesis using digit_byte[of n] by (subst (1 2 3) dec_nat.simps) (simp add: c_digits_def)
  next
    case False
    have "int (n div 10) * 10 + int (n mod 10) = int n" by (metis mult.commute of_nat_add of_nat_mult of_nat_numeral mult_div_mod_eq)
    then show ?thesis using 1 False digit_byte[of "n mod 10"]
      by (subst (1 2 3) dec_nat.simps) (simp add: c_digits_def del: of_nat_add)
  qed
qed

lemma digit_not_space: "c_isdigit c \<Longrightarrow> \<not> c_isspace c \<and> c \<noteq> 45 \<and> c \<noteq> 43 \<and> c \<noteq> 44 \<and> c \<noteq> 0 \<and> c \<noteq> 92 \<and> c \<noteq> 34 \<and> c \<noteq> 39 \<and> c \<noteq> 35 \<and> c \<noteq> 59"
  by (auto simp: c_isdigit_def c_isspace_def word_le_nat_alt)

lemma strtoll_dec:
  assumes "LLONG_MIN \<le> i" "i \<le> LLONG_MAX"
  shows "c_strtoll (dec_int i) = (i, [])"
proof -
  define ds where "ds = dec_nat (nat \<bar>i\<bar>)"
  have ds: "list_all c_isdigit ds" "ds \<noteq> []" "c_digits ds = \<bar>i\<bar>" using dec_nat_digits[of "nat \<bar>i\<bar>"] by (simp_all add: ds_def)
  then obtain d r where dr: "ds = d # r" "c_isdigit d" by (cases ds) auto
  have tk: "takeWhile c_isdigit ds = ds" "dropWhile c_isdigit ds = []" using ds(1) by (simp_all add: list_all_iff)
  show ?thesis
  proof (cases "i < 0")
    case True
    then have "dec_int i = 45 # ds" by (simp add: dec_int_def ds_def)
    then show ?thesis using assms ds(2,3) True by (simp add: c_strtoll_def c_isspace_def Let_def tk)
  next
    case False
    then have "dec_int i = ds" by (simp add: dec_int_def ds_def)
    moreover have "dropWhile c_isspace ds = ds" "hd ds \<noteq> 45" "hd ds \<noteq> 43" using digit_not_space[OF dr(2)] dr(1) by simp_all
    ultimately show ?thesis using assms ds(2,3) False by (simp add: c_strtoll_def Let_def tk)
  qed
qed

text \<open>Printed numbers are read back: accepted exactly when they are in the range, and then as themselves.\<close>

theorem atoi_constrained_dec:
  assumes "lo < hi" "INT_MIN \<le> i" "i \<le> INT_MAX"
  shows "atoi_constrained (dec_int i) value lo hi = Some (if lo \<le> i \<and> i \<le> hi then (i, True) else (value, False))"
proof -
  have "c_strtoll (dec_int i) = (i, [])"
    by (rule strtoll_dec) (use assms in \<open>simp_all add: LLONG_MIN_def LLONG_MAX_def INT_MIN_def INT_MAX_def\<close>)
  then show ?thesis using assms by (auto simp: atoi_constrained_def)
qed

theorem integer_checks_dec:
  assumes "INT_MIN \<le> i" "i \<le> INT_MAX"
  shows "valid_integer (dec_int i) positive = (positive \<longrightarrow> 0 \<le> i)" "positive_atoi (dec_int i) = max 0 i"
    "positive_atoll (dec_int i) value = (if i < 0 then (value, False) else (i, True))" "atoi_warn (dec_int i) = i"
proof -
  have "c_strtoll (dec_int i) = (i, [])"
    by (rule strtoll_dec) (use assms in \<open>simp_all add: LLONG_MIN_def LLONG_MAX_def INT_MIN_def INT_MAX_def\<close>)
  then show "valid_integer (dec_int i) positive = (positive \<longrightarrow> 0 \<le> i)" "positive_atoi (dec_int i) = max 0 i"
    "positive_atoll (dec_int i) value = (if i < 0 then (value, False) else (i, True))" "atoi_warn (dec_int i) = i"
    using assms by (auto simp: valid_integer_def positive_atoi_def positive_atoll_def atoi_warn_def)
qed

text \<open>An empty text is taken for the number 0.\<close>

lemma empty_integer: "valid_integer [] positive" "positive_atoi [] = 0" "atoi_warn [] = 0"
  by (simp_all add: valid_integer_def positive_atoi_def atoi_warn_def c_strtoll_def INT_MIN_def INT_MAX_def)

section \<open>Updates of pushed options\<close>

definition PUSH_OPT_TO_REMOVE :: u64 where "PUSH_OPT_TO_REMOVE = push_bit 0 1"
definition PUSH_OPT_OPTIONAL :: u64 where "PUSH_OPT_OPTIONAL = push_bit 1 1"

definition ascii :: "string \<Rightarrow> byte list" where
  "ascii s = map (\<lambda>c. word_of_nat (of_char c)) s"

definition updatable_options :: "byte list list" where
  "updatable_options = map ascii
    [''block-ipv6'', ''block-outside-dns'', ''dhcp-option'', ''dns'', ''ifconfig'', ''ifconfig-ipv6'',
     ''push-continuation'', ''redirect-gateway'', ''redirect-private'', ''route'', ''route-gateway'', ''route-ipv6'',
     ''route-metric'', ''topology'', ''tun-mtu'', ''keepalive'']"

text \<open>The byte at an index of a string, which ends with a NUL.\<close>

definition str_at :: "byte list \<Rightarrow> nat \<Rightarrow> byte" where
  "str_at s i = (if i < length s then s ! i else 0)"

definition option_updatable :: "byte list \<Rightarrow> bool" where
  "option_updatable l = list_ex (\<lambda>opt. \<not> length l < length opt \<and> take (length opt) l = opt \<and>
     (str_at l (length opt) = 0 \<or> str_at l (length opt) = 32)) updatable_options"

text \<open>The result, the index of the option behind its flags and the flags.\<close>

definition check_push_update_option_flags :: "byte list \<Rightarrow> nat \<Rightarrow> bool \<times> nat \<times> u64" where
  "check_push_update_option_flags line i =
     (let (fail, i, flags) =
        (if str_at line i = 45
         then (if str_at line (i + 1) = 0 then (True, i, 0) else (False, i + 1, PUSH_OPT_TO_REMOVE))
         else (False, i, 0))
      in if fail then (False, i, flags)
         else (let (fail, i, flags) =
           (if str_at line i = 63
            then (if str_at line (i + 1) = 0 \<or> str_at line (i + 1) = 45 then (True, i, flags)
                  else (False, i + 1, flags OR PUSH_OPT_OPTIONAL))
            else (False, i, flags))
         in if fail then (False, i, flags)
            else if \<not> option_updatable (drop i line) \<and> flags AND PUSH_OPT_OPTIONAL = 0 then (False, i, flags)
            else (True, i, flags)))"

section \<open>The filter of pulled options\<close>

datatype pull_filter_type = PUF_TYPE_UNDEF | PUF_TYPE_ACCEPT | PUF_TYPE_IGNORE | PUF_TYPE_REJECT

record pull_filter =
  pf_type :: pull_filter_type
  pf_pattern :: "byte list"

text \<open>The result, and the line, which an ignoring filter empties.\<close>

fun apply_pull_filter :: "pull_filter list \<Rightarrow> byte list \<Rightarrow> bool \<times> byte list" where
  "apply_pull_filter [] line = (True, line)"
| "apply_pull_filter (f # fs) line =
     (let m = (take (length (pf_pattern f)) line = pf_pattern f)
      in if pf_type f = PUF_TYPE_ACCEPT \<and> m then (True, line)
         else if pf_type f = PUF_TYPE_IGNORE \<and> m then (True, [])
         else if pf_type f = PUF_TYPE_REJECT \<and> m then (False, line)
         else apply_pull_filter fs line)"

section \<open>Properties\<close>

text \<open>The first filter whose text the option begins with decides, and without one the option is kept.\<close>

definition filter_matches :: "byte list \<Rightarrow> pull_filter \<Rightarrow> bool" where
  "filter_matches line f = (pf_type f \<noteq> PUF_TYPE_UNDEF \<and> take (length (pf_pattern f)) line = pf_pattern f)"

theorem pull_filter_first_match:
  "apply_pull_filter fs line = (case find (filter_matches line) fs of
     None \<Rightarrow> (True, line)
   | Some f \<Rightarrow> (pf_type f \<noteq> PUF_TYPE_REJECT, if pf_type f = PUF_TYPE_IGNORE then [] else line))"
proof (induction fs)
  case (Cons f fs)
  then show ?case by (cases "pf_type f") (auto simp: filter_matches_def Let_def)
qed simp

end
