(* ===== verification/Ovpn_Push.thy ===== *)
theory Ovpn_Push
  imports Ovpn_Options_Util
begin

text \<open>
  The server's side of pushed options (\<open>push.c\<close>, \<open>pushlist.h\<close>): the list of options to push and
  its division into control channel messages; and the division of an update (\<open>push_util.c\<close>).  Sending
  a message is a parameter.
\<close>

unbundle bit_operations_syntax

section \<open>Formatted text in buffers\<close>

text \<open>\<open>buf_printf\<close> with the formatted text: it is cut at the capacity, and a NUL is put behind it and
  into the last byte.\<close>

definition buf_printf :: "buffer \<Rightarrow> byte list \<Rightarrow> (buffer \<times> bool) option" where
  "buf_printf b txt =
     (if buf_defined b
      then (let cap = buf_forward_capacity b
            in if cap > 0
               then do {
                 p \<leftarrow> buf_bend b;
                 b1 \<leftarrow> buf_store b p (take (nat cap - 1) txt @ [0]);
                 b2 \<leftarrow> buf_store b1 (b_capacity b1 - 1) [0];
                 bs \<leftarrow> buf_load b2 p cap;
                 Some (b2\<lparr>b_len := b_len b2 + int (length (c_str bs))\<rparr>, int (length txt) < cap) }
               else Some (b, False))
      else Some (b, False))"

text \<open>The C string at \<open>BSTR\<close>; \<open>None\<close> when there is no NUL to end it.\<close>

definition buf_str :: "buffer \<Rightarrow> byte list option" where
  "buf_str b = do {
     p \<leftarrow> buf_bptr b;
     d \<leftarrow> b_data b;
     cassert (0 \<in> set (drop (nat p) d));
     Some (c_str (drop (nat p) d)) }"

lemma buf_printf_of:
  assumes "0 \<notin> set txt" "length txt < length q"
  obtains q' where "buf_printf (buf_of p c q) txt = Some (buf_of p (c @ txt) (0 # q'), True)"
    "length txt + length (0 # q') = length q"
proof -
  obtain k where k: "length q = Suc (length txt + k)" using assms(2) less_iff_Suc_add by auto
  define q2 where "q2 = drop (Suc (length txt)) q"
  have q: "q = take (Suc (length txt)) q @ q2" "length (take (Suc (length txt)) q) = Suc (length txt)" "length q2 = k"
    using k by (simp_all add: q2_def)
  have st1: "buf_store (buf_of p c q) (int (length p + length c)) (txt @ [0]) = Some (buf_of p c (txt @ 0 # q2))"
    using mem_write_mid[of "take (Suc (length txt)) q" "txt @ [0]" "int (length p + length c)" "p @ c" q2] q k
    by (simp add: buf_store_def buf_of_def)
  define q3 where "q3 = butlast (0 # q2) @ [0]"
  have w: "txt @ 0 # q2 = butlast (txt @ 0 # q2) @ [last (0 # q2)]" by (metis append_butlast_last_id append_is_Nil_conv last_appendR list.distinct(1))
  have lw: "length (butlast (txt @ 0 # q2)) = length txt + k" using q(3) by simp
  have "buf_store (buf_of p c (txt @ 0 # q2)) (b_capacity (buf_of p c (txt @ 0 # q2)) - 1) [0] =
      Some (buf_of p c (butlast (txt @ 0 # q2) @ [0]))"
    using mem_write_mid[of "[last (0 # q2)]" "[0]" "b_capacity (buf_of p c (txt @ 0 # q2)) - 1" "p @ c @ butlast (txt @ 0 # q2)" "[]"] w lw q(3)
    by (simp add: buf_store_def buf_of_def)
  also have "butlast (txt @ 0 # q2) @ [0] = txt @ q3" by (simp add: q3_def butlast_append)
  finally have st2: "buf_store (buf_of p c (txt @ 0 # q2)) (b_capacity (buf_of p c (txt @ 0 # q2)) - 1) [0] = Some (buf_of p c (txt @ q3))" .
  have "hd q3 = 0" "q3 \<noteq> []" "length q3 = Suc k" using q(3) by (auto simp: q3_def hd_append)
  then obtain r where r: "q3 = 0 # r" "length r = k" by (cases q3) auto
  have ld: "buf_load (buf_of p c (txt @ q3)) (int (length p + length c)) (int (length q)) = Some (txt @ q3)"
    using mem_read_mid[of "int (length p + length c)" "p @ c" "int (length q)" "txt @ q3" "[]"] k r
    by (simp add: buf_load_def)
  have "buf_printf (buf_of p c q) txt = Some ((buf_of p c (txt @ q3))\<lparr>b_len := int (length c) + int (length txt)\<rparr>, True)"
    using assms k st1 st2 ld c_str_append[OF assms(1), of r] r by (simp add: buf_printf_def buf_bend_def Let_def)
  also have "(buf_of p c (txt @ q3))\<lparr>b_len := int (length c) + int (length txt)\<rparr> = buf_of p (c @ txt) (0 # r)"
    using r by (simp add: buf_of_def)
  finally show ?thesis using that[of r] k r by simp
qed

lemma buf_str_of: "0 \<notin> set c \<Longrightarrow> buf_str (buf_of p c (0 # q)) = Some c"
  using c_str_append[of c q] by (simp add: buf_str_def)

lemma buf_str_nul: "0 \<notin> set c \<Longrightarrow> buf_str (buf_of p (c @ [0]) q) = Some c"
  using c_str_append[of c q] by (simp add: buf_str_def)

section \<open>The list of options to push\<close>

definition CC_ANY :: u32 where "CC_ANY = push_bit 0 1"
definition CC_COMMA :: u32 where "CC_COMMA = push_bit 18 1"

record push_entry =
  pe_enable :: bool
  pe_option :: "byte list"

text \<open>An option with a comma is refused, which ends the program when \<open>msglevel\<close> is fatal.\<close>

definition push_option_ex :: "bool \<Rightarrow> push_entry list \<Rightarrow> byte list \<Rightarrow> push_entry list option" where
  "push_option_ex fatal pl opt =
     (if \<not> string_class opt CC_ANY CC_COMMA then (if fatal then None else Some pl)
      else Some (pl @ [\<lparr>pe_enable = True, pe_option = opt\<rparr>]))"

text \<open>\<open>push_option_fmt\<close> with the formatted text.\<close>

definition push_option_fmt :: "bool \<Rightarrow> push_entry list \<Rightarrow> byte list \<Rightarrow> (push_entry list \<times> bool) option" where
  "push_option_fmt fatal pl txt =
     (if length txt \<ge> 256 then Some (pl, False)
      else map_option (\<lambda>pl. (pl, True)) (push_option_ex fatal pl txt))"

record push_options =
  po_push_list :: "push_entry list"
  po_push_ifconfig_ipv4_blocked :: bool
  po_push_ifconfig_ipv6_blocked :: bool

definition push_option :: "bool \<Rightarrow> push_options \<Rightarrow> byte list \<Rightarrow> push_options option" where
  "push_option fatal po opt = map_option (\<lambda>pl. po\<lparr>po_push_list := pl\<rparr>) (push_option_ex fatal (po_push_list po) opt)"

definition push_reset :: "push_options \<Rightarrow> push_options" where
  "push_reset po = po\<lparr>po_push_list := []\<rparr>"

fun clone_entries :: "push_entry list \<Rightarrow> push_options \<Rightarrow> push_options option" where
  "clone_entries [] po = Some po"
| "clone_entries (e # es) po = do { po \<leftarrow> push_option True po (pe_option e); clone_entries es po }"

definition clone_push_list :: "push_options \<Rightarrow> push_options option" where
  "clone_push_list po =
     (if po_push_list po \<noteq> [] then clone_entries (po_push_list po) (push_reset po) else Some po)"

definition ifconfig_name :: "byte list" where
  "ifconfig_name = ascii ''ifconfig''"

definition ifconfig_ipv6_name :: "byte list" where
  "ifconfig_ipv6_name = ascii ''ifconfig-ipv6''"

fun remove_entries :: "byte list \<Rightarrow> push_entry list \<Rightarrow> push_entry list" where
  "remove_entries p [] = []"
| "remove_entries p (e # es) =
     (if pe_enable e \<and> take (length p) (pe_option e) = p then e\<lparr>pe_enable := False\<rparr> else e) # remove_entries p es"

definition push_remove_option :: "push_options \<Rightarrow> byte list \<Rightarrow> push_options" where
  "push_remove_option po p =
     (if p = ifconfig_name then po\<lparr>po_push_ifconfig_ipv4_blocked := True\<rparr>
      else if p = ifconfig_ipv6_name then po\<lparr>po_push_ifconfig_ipv6_blocked := True\<rparr>
      else po\<lparr>po_push_list := remove_entries p (po_push_list po)\<rparr>)"

definition enabled_options :: "push_entry list \<Rightarrow> byte list list" where
  "enabled_options pl = map pe_option (filter pe_enable pl)"

section \<open>Sending the options\<close>

definition PUSH_BUNDLE_SIZE :: nat where "PUSH_BUNDLE_SIZE = 1024"

definition push_reply_cmd :: "byte list" where "push_reply_cmd = ascii ''PUSH_REPLY''"
definition push_update_cmd :: "byte list" where "push_update_cmd = ascii ''PUSH_UPDATE''"
definition continuation_1 :: "byte list" where "continuation_1 = ascii '',push-continuation 1''"
definition continuation_2 :: "byte list" where "continuation_2 = ascii '',push-continuation 2''"

text \<open>\<open>send link str\<close> is \<open>send_control_channel_string\<close>: the new state of the channel and whether it took
  the string.\<close>

record 's push_run =
  pr_buf :: buffer
  pr_link :: 's
  pr_sent :: bool
  pr_multi :: bool

definition send_continuation :: "('s \<Rightarrow> byte list \<Rightarrow> 's \<times> bool) \<Rightarrow> 's push_run \<Rightarrow> ('s push_run \<times> bool) option" where
  "send_continuation send r = do {
     (b, _) \<leftarrow> buf_printf (pr_buf r) continuation_2;
     str \<leftarrow> buf_str b;
     let (link, status) = send (pr_link r) str;
     if \<not> status then Some (r\<lparr>pr_buf := b, pr_link := link\<rparr>, False)
     else do {
       (b, _) \<leftarrow> buf_printf (buf_reset_len b) push_reply_cmd;
       Some (r\<lparr>pr_buf := b, pr_link := link, pr_sent := True, pr_multi := True\<rparr>, True) } }"

fun send_push_options :: "('s \<Rightarrow> byte list \<Rightarrow> 's \<times> bool) \<Rightarrow> int \<Rightarrow> push_entry list \<Rightarrow> 's push_run \<Rightarrow> ('s push_run \<times> bool) option" where
  "send_push_options send safe_cap [] r = Some (r, True)"
| "send_push_options send safe_cap (e # es) r =
     (if pe_enable e
      then do {
        let l = int (length (pe_option e));
        (r, ok) \<leftarrow> (if buf_len (pr_buf r) + l \<ge> safe_cap then send_continuation send r else Some (r, True));
        if \<not> ok then Some (r, False)
        else if buf_len (pr_buf r) + l \<ge> safe_cap then Some (r, False)
        else do {
          (b, _) \<leftarrow> buf_printf (pr_buf r) ([44] @ pe_option e);
          send_push_options send safe_cap es (r\<lparr>pr_buf := b\<rparr>) } }
      else send_push_options send safe_cap es r)"

text \<open>The end of \<open>send_push_reply\<close>, after the options: the last bundle, or an empty reply when nothing was sent.\<close>

definition finish_push_reply :: "('s \<Rightarrow> byte list \<Rightarrow> 's \<times> bool) \<Rightarrow> 's push_run \<Rightarrow> ('s \<times> bool) option" where
  "finish_push_reply send r = do {
     b \<leftarrow> (if pr_multi r then map_option fst (buf_printf (pr_buf r) continuation_1) else Some (pr_buf r));
     (r, ok) \<leftarrow> (if buf_len b \<ge> int (length push_reply_cmd) + 1
        then do {
          str \<leftarrow> buf_str b;
          let (link, status) = send (pr_link r) str;
          Some (if \<not> status then (r\<lparr>pr_buf := b, pr_link := link\<rparr>, False)
                else (r\<lparr>pr_buf := b, pr_link := link, pr_sent := True\<rparr>, True)) }
        else Some (r\<lparr>pr_buf := b\<rparr>, True));
     if \<not> ok then Some (pr_link r, False)
     else if \<not> pr_sent r
     then do {
       (b, _) \<leftarrow> buf_printf (buf_reset_len b) push_reply_cmd;
       str \<leftarrow> buf_str b;
       Some (send (pr_link r) str) }
     else Some (pr_link r, True) }"

definition send_push_reply ::
  "('s \<Rightarrow> byte list \<Rightarrow> 's \<times> bool) \<Rightarrow> (nat \<Rightarrow> byte) \<Rightarrow> push_entry list \<Rightarrow> push_entry list \<Rightarrow> 's \<Rightarrow> ('s \<times> bool) option" where
  "send_push_reply send junk push_list per_client_push_list link = do {
     b \<leftarrow> alloc_buf_gc junk PUSH_BUNDLE_SIZE;
     let safe_cap = buf_forward_capacity b - 84;
     (b, _) \<leftarrow> buf_printf b push_reply_cmd;
     (r, ok) \<leftarrow> send_push_options send safe_cap push_list \<lparr>pr_buf = b, pr_link = link, pr_sent = False, pr_multi = False\<rparr>;
     if \<not> ok then Some (pr_link r, False)
     else do {
       (r, ok) \<leftarrow> send_push_options send safe_cap per_client_push_list r;
       if \<not> ok then Some (pr_link r, False)
       else finish_push_reply send r } }"

section \<open>What is sent\<close>

text \<open>A channel that takes every string.\<close>

definition take_all :: "byte list list \<Rightarrow> byte list \<Rightarrow> byte list list \<times> bool" where
  "take_all sent str = (sent @ [str], True)"

definition reply_text :: "byte list list \<Rightarrow> byte list" where
  "reply_text opts = push_reply_cmd @ concat (map (\<lambda>opt. [44] @ opt) opts)"

definition option_texts :: "byte list list \<Rightarrow> bool" where
  "option_texts opts \<longleftrightarrow> (\<forall>opt\<in>set opts. 0 \<notin> set opt)"

text \<open>The buffer holds the reply with the options \<open>cur\<close>.\<close>

definition reply_buf :: "buffer \<Rightarrow> byte list list \<Rightarrow> bool" where
  "reply_buf b cur \<longleftrightarrow> (\<exists>q. b = buf_of [] (reply_text cur) (0 # q) \<and> length (reply_text cur) + length (0 # q) = PUSH_BUNDLE_SIZE) \<and>
     option_texts cur \<and> length (reply_text cur) < 941"

lemma ascii_nul: "0 \<notin> set (ascii s) \<longleftrightarrow> (\<forall>c\<in>set s. (word_of_nat (of_char c) :: byte) \<noteq> 0)"
  by (force simp: ascii_def)

lemma push_texts:
  "0 \<notin> set push_reply_cmd" "0 \<notin> set continuation_1" "0 \<notin> set continuation_2"
  "length push_reply_cmd = 10" "length continuation_1 = 20" "length continuation_2 = 20"
  by (simp_all add: push_reply_cmd_def continuation_1_def continuation_2_def ascii_def)

lemma reply_text_nul: "option_texts opts \<Longrightarrow> 0 \<notin> set (reply_text opts)"
  by (auto simp: reply_text_def option_texts_def push_texts)

lemma reply_text_simps: "reply_text [] = push_reply_cmd" "reply_text (cur @ [opt]) = reply_text cur @ 44 # opt"
  by (simp_all add: reply_text_def)

lemma reply_printf:
  assumes "reply_buf b cur" "0 \<notin> set opt" "length (reply_text cur) + length opt < 940"
  obtains b' where "buf_printf b (44 # opt) = Some (b', True)" "reply_buf b' (cur @ [opt])"
proof -
  obtain q where b: "b = buf_of [] (reply_text cur) (0 # q)" and l: "length (reply_text cur) + length (0 # q) = PUSH_BUNDLE_SIZE"
    and ok: "option_texts cur" using assms(1) by (auto simp: reply_buf_def)
  have "0 \<notin> set (44 # opt)" using assms(2) by simp
  moreover have "length (44 # opt) < length (0 # q)" using assms(3) l by (simp add: PUSH_BUNDLE_SIZE_def)
  ultimately obtain q' where q': "buf_printf b (44 # opt) = Some (buf_of [] (reply_text cur @ 44 # opt) (0 # q'), True)"
      "length (44 # opt) + length (0 # q') = length (0 # q)"
    unfolding b by (rule buf_printf_of)
  have "reply_buf (buf_of [] (reply_text cur @ 44 # opt) (0 # q')) (cur @ [opt])"
    using q'(2) l ok assms(2,3) by (auto simp: reply_buf_def reply_text_simps option_texts_def)
  then show ?thesis using q'(1) by (rule that[rotated])
qed

lemma reply_close:
  assumes "reply_buf b cur" "k = continuation_1 \<or> k = continuation_2"
  obtains q where "buf_printf b k = Some (buf_of [] (reply_text cur @ k) (0 # q), True)" "buf_str (buf_of [] (reply_text cur @ k) (0 # q)) = Some (reply_text cur @ k)"
    "length (reply_text cur @ k) + length (0 # q) = PUSH_BUNDLE_SIZE"
proof -
  obtain q where b: "b = buf_of [] (reply_text cur) (0 # q)" and l: "length (reply_text cur) + length (0 # q) = PUSH_BUNDLE_SIZE"
    and ok: "option_texts cur" "length (reply_text cur) < 941" using assms(1) by (auto simp: reply_buf_def)
  have "0 \<notin> set k" "length k < length (0 # q)" using assms(2) push_texts l ok(2) by (auto simp: PUSH_BUNDLE_SIZE_def)
  then obtain q' where q': "buf_printf b k = Some (buf_of [] (reply_text cur @ k) (0 # q'), True)" "length k + length (0 # q') = length (0 # q)"
    unfolding b by (rule buf_printf_of)
  have "buf_str (buf_of [] (reply_text cur @ k) (0 # q')) = Some (reply_text cur @ k)"
    using \<open>0 \<notin> set k\<close> reply_text_nul[OF ok(1)] by (intro buf_str_of) simp
  then show ?thesis using that[OF q'(1)] q'(2) l by simp
qed

lemma reply_start:
  assumes "length q = PUSH_BUNDLE_SIZE"
  obtains b where "buf_printf (buf_of [] [] q) push_reply_cmd = Some (b, True)" "reply_buf b []"
proof -
  have "length push_reply_cmd < length q" using assms by (simp add: push_texts PUSH_BUNDLE_SIZE_def)
  with push_texts(1) obtain q' where q': "buf_printf (buf_of [] [] q) push_reply_cmd = Some (buf_of [] ([] @ push_reply_cmd) (0 # q'), True)"
      "length push_reply_cmd + length (0 # q') = length q" by (rule buf_printf_of)
  then have "reply_buf (buf_of [] push_reply_cmd (0 # q')) []"
    using assms unfolding reply_buf_def by (intro conjI exI[of _ q']) (simp_all add: reply_text_simps option_texts_def push_texts)
  then show ?thesis using q'(1) by (intro that) auto
qed

lemma buf_reset_of: "buf_reset_len (buf_of [] c q) = buf_of [] [] (c @ q)"
  by (simp add: buf_reset_len_def buf_of_def)

lemma send_continuation_ok:
  assumes "reply_buf (pr_buf r) cur"
  obtains r' where "send_continuation take_all r = Some (r', True)" "reply_buf (pr_buf r') []"
    "pr_link r' = pr_link r @ [reply_text cur @ continuation_2]" "pr_sent r'" "pr_multi r'"
proof -
  obtain q where q: "buf_printf (pr_buf r) continuation_2 = Some (buf_of [] (reply_text cur @ continuation_2) (0 # q), True)"
      "buf_str (buf_of [] (reply_text cur @ continuation_2) (0 # q)) = Some (reply_text cur @ continuation_2)"
      "length (reply_text cur @ continuation_2) + length (0 # q) = PUSH_BUNDLE_SIZE"
    by (rule reply_close[OF assms disjI2[OF refl]])
  obtain b where "buf_printf (buf_of [] [] ((reply_text cur @ continuation_2) @ 0 # q)) push_reply_cmd = Some (b, True)" "reply_buf b []"
    by (rule reply_start[of "(reply_text cur @ continuation_2) @ 0 # q"]) (use q(3) in simp_all)
  then show ?thesis using q by (intro that) (auto simp: send_continuation_def take_all_def buf_reset_of)
qed

text \<open>The run from \<open>r\<close> to \<open>r'\<close> sends the bundles \<open>bs\<close>, and leaves \<open>cur'\<close> in the buffer.\<close>

definition bundles_to :: "byte list list list \<Rightarrow> byte list list push_run \<Rightarrow> byte list list push_run \<Rightarrow> bool" where
  "bundles_to bs r r' \<longleftrightarrow> pr_link r' = pr_link r @ map (\<lambda>b. reply_text b @ continuation_2) bs \<and>
     pr_multi r' = (pr_multi r \<or> bs \<noteq> []) \<and> pr_sent r' = (pr_sent r \<or> bs \<noteq> []) \<and>
     (\<forall>b\<in>set bs. length (reply_text b) < 941)"

lemma bundles_trans: "bundles_to bs r r' \<Longrightarrow> bundles_to bs' r' r'' \<Longrightarrow> bundles_to (bs @ bs') r r''"
  by (auto simp: bundles_to_def)

definition short_options :: "push_entry list \<Rightarrow> bool" where
  "short_options pl \<longleftrightarrow> (\<forall>opt\<in>set (enabled_options pl). 0 \<notin> set opt \<and> length opt < 930)"

lemma short_options_simps:
  "short_options []"
  "short_options (e # es) \<longleftrightarrow> (pe_enable e \<longrightarrow> 0 \<notin> set (pe_option e) \<and> length (pe_option e) < 930) \<and> short_options es"
  by (auto simp: short_options_def enabled_options_def)

lemma enabled_simps:
  "enabled_options [] = []" "enabled_options (e # es) = (if pe_enable e then [pe_option e] else []) @ enabled_options es"
  "enabled_options (xs @ ys) = enabled_options xs @ enabled_options ys"
  by (simp_all add: enabled_options_def)

lemma push_step_ok:
  assumes "reply_buf (pr_buf r) cur" "pe_enable e" "0 \<notin> set (pe_option e)" "length (pe_option e) < 930"
  obtains bs cur1 r1 where "send_push_options take_all 940 (e # es) r = send_push_options take_all 940 es r1"
    "reply_buf (pr_buf r1) (cur1 @ [pe_option e])" "bundles_to bs r r1" "concat bs @ cur1 = cur"
proof -
  let ?o = "pe_option e"
  obtain r1 bs1 cur1 where r1: "(if buf_len (pr_buf r) + int (length ?o) \<ge> 940 then send_continuation take_all r else Some (r, True)) = Some (r1, True)"
      "reply_buf (pr_buf r1) cur1" "bundles_to bs1 r r1" "concat bs1 @ cur1 = cur" "length (reply_text cur1) + length ?o < 940"
  proof (cases "buf_len (pr_buf r) + int (length ?o) \<ge> 940")
    case True
    obtain r' where r': "send_continuation take_all r = Some (r', True)" "reply_buf (pr_buf r') []"
        "pr_link r' = pr_link r @ [reply_text cur @ continuation_2]" "pr_sent r'" "pr_multi r'"
      using assms(1) by (rule send_continuation_ok)
    have "bundles_to [cur] r r'" using r' assms(1) by (simp add: bundles_to_def reply_buf_def)
    then show ?thesis using that[of r' "[]" "[cur]"] True r' assms(4) by (simp add: reply_text_simps push_texts)
  next
    case False
    moreover have "buf_len (pr_buf r) = int (length (reply_text cur))" using assms(1) by (auto simp: reply_buf_def)
    ultimately show ?thesis using that[of r cur "[]"] assms(1) by (simp add: bundles_to_def)
  qed
  have "buf_len (pr_buf r1) = int (length (reply_text cur1))" using r1(2) by (auto simp: reply_buf_def)
  then have fits: "\<not> buf_len (pr_buf r1) + int (length ?o) \<ge> 940" using r1(5) by simp
  obtain b where b: "buf_printf (pr_buf r1) (44 # ?o) = Some (b, True)" "reply_buf b (cur1 @ [?o])"
    using r1(2) assms(3) r1(5) by (rule reply_printf)
  have "send_push_options take_all 940 (e # es) r = send_push_options take_all 940 es (r1\<lparr>pr_buf := b\<rparr>)"
    using assms(2) r1(1) fits b(1) by (simp add: Let_def)
  then show ?thesis using that[of "r1\<lparr>pr_buf := b\<rparr>" cur1 bs1] b(2) r1(3,4) by (simp add: bundles_to_def)
qed

lemma push_step_long:
  assumes "reply_buf (pr_buf r) cur" "pe_enable e" "930 \<le> length (pe_option e)"
  shows "\<exists>r'. send_push_options take_all 940 (e # es) r = Some (r', False)"
proof -
  have "buf_len (pr_buf r) = int (length (reply_text cur))" "10 \<le> length (reply_text cur)"
    using assms(1) by (auto simp: reply_buf_def reply_text_def push_texts)
  then have "buf_len (pr_buf r) + int (length (pe_option e)) \<ge> 940" using assms(3) by simp
  moreover obtain r' where r': "send_continuation take_all r = Some (r', True)" "reply_buf (pr_buf r') []"
    using assms(1) by (rule send_continuation_ok)
  moreover have "buf_len (pr_buf r') = 10" using r'(2) by (auto simp: reply_buf_def reply_text_simps push_texts)
  ultimately show ?thesis using assms(2,3) by (simp add: Let_def)
qed

lemma send_push_options_ok:
  "short_options es \<Longrightarrow> reply_buf (pr_buf r) cur \<Longrightarrow>
   \<exists>bs cur' r'. send_push_options take_all 940 es r = Some (r', True) \<and> reply_buf (pr_buf r') cur' \<and>
     bundles_to bs r r' \<and> concat bs @ cur' = cur @ enabled_options es \<and> (bs \<noteq> [] \<longrightarrow> cur' \<noteq> []) \<and> (cur \<noteq> [] \<longrightarrow> cur' \<noteq> [])"
proof (induction es arbitrary: r cur)
  case Nil
  then show ?case by (intro exI[of _ "[]"] exI[of _ cur] exI[of _ r]) (simp add: bundles_to_def enabled_simps)
next
  case (Cons e es)
  have es: "short_options es" using Cons.prems(1) by (simp add: short_options_simps)
  show ?case
  proof (cases "pe_enable e")
    case False
    then show ?thesis using Cons.IH[OF es Cons.prems(2)] by (simp add: enabled_simps)
  next
    case True
    let ?o = "pe_option e"
    obtain bs1 cur1 r1 where r1: "send_push_options take_all 940 (e # es) r = send_push_options take_all 940 es r1"
        "reply_buf (pr_buf r1) (cur1 @ [?o])" "bundles_to bs1 r r1" "concat bs1 @ cur1 = cur"
      by (rule push_step_ok[OF Cons.prems(2) True, where es = es]) (use Cons.prems(1) True in \<open>simp_all add: short_options_simps\<close>)
    obtain bs cur' r' where r': "send_push_options take_all 940 es r1 = Some (r', True)" "reply_buf (pr_buf r') cur'"
        "bundles_to bs r1 r'" "concat bs @ cur' = (cur1 @ [?o]) @ enabled_options es" "cur' \<noteq> []"
      using Cons.IH[OF es r1(2)] by auto
    then show ?thesis using r1(1,4) bundles_trans[OF r1(3) r'(3)] True
      by (intro exI[of _ "bs1 @ bs"] exI[of _ cur'] exI[of _ r']) (simp add: enabled_simps flip: r1(4))
  qed
qed

lemma send_push_options_long:
  "\<forall>opt\<in>set (enabled_options es). 0 \<notin> set opt \<Longrightarrow> \<not> short_options es \<Longrightarrow> reply_buf (pr_buf r) cur \<Longrightarrow>
   \<exists>r'. send_push_options take_all 940 es r = Some (r', False)"
proof (induction es arbitrary: r cur)
  case Nil
  then show ?case by (simp add: short_options_simps)
next
  case (Cons e es)
  consider "\<not> pe_enable e" | "pe_enable e" "930 \<le> length (pe_option e)" | "pe_enable e" "length (pe_option e) < 930" by linarith
  then show ?case
  proof cases
    case 1
    then show ?thesis using Cons by (simp add: short_options_simps enabled_simps)
  next
    case 2
    then show ?thesis using push_step_long[OF Cons.prems(3)] by blast
  next
    case 3
    then have nul: "0 \<notin> set (pe_option e)" using Cons.prems(1) by (simp add: enabled_simps)
    obtain bs1 cur1 r1 where r1: "send_push_options take_all 940 (e # es) r = send_push_options take_all 940 es r1"
        "reply_buf (pr_buf r1) (cur1 @ [pe_option e])"
      using Cons.prems(3) 3(1) nul 3(2) by (rule push_step_ok)
    then show ?thesis using Cons.IH[OF _ _ r1(2)] Cons.prems(1,2) 3 nul by (simp add: short_options_simps enabled_simps)
  qed
qed

text \<open>The messages of a reply: the bundles but the last announce another one, and when there are several the
  last one says that it is the last.\<close>

definition reply_messages :: "byte list list list \<Rightarrow> byte list list \<Rightarrow> byte list list" where
  "reply_messages bs cur = map (\<lambda>b. reply_text b @ continuation_2) bs @ [reply_text cur @ (if bs = [] then [] else continuation_1)]"

definition reply_run :: "buffer \<Rightarrow> push_entry list \<Rightarrow> push_entry list \<Rightarrow> byte list list \<Rightarrow> (byte list list \<times> bool) option" where
  "reply_run b g c link = do {
       (r, ok) \<leftarrow> send_push_options take_all 940 g \<lparr>pr_buf = b, pr_link = link, pr_sent = False, pr_multi = False\<rparr>;
       if \<not> ok then Some (pr_link r, False)
       else do {
         (r, ok) \<leftarrow> send_push_options take_all 940 c r;
         if \<not> ok then Some (pr_link r, False) else finish_push_reply take_all r } }"

lemma reply_alloc:
  obtains b where "reply_buf b []" "send_push_reply take_all junk g c link = reply_run b g c link"
proof -
  define d where "d = (map junk [0..<PUSH_BUNDLE_SIZE])[0 := 0]"
  have d: "alloc_buf_gc junk PUSH_BUNDLE_SIZE = Some (buf_of [] [] d)" "length d = PUSH_BUNDLE_SIZE"
    by (simp_all add: alloc_buf_gc_def buf_size_valid_def BUF_SIZE_MAX_def PUSH_BUNDLE_SIZE_def buf_of_def d_def Let_def cassert_def)
  obtain b where b: "buf_printf (buf_of [] [] d) push_reply_cmd = Some (b, True)" "reply_buf b []" using d(2) by (rule reply_start)
  moreover have "buf_forward_capacity (buf_of [] [] d) - 84 = 940" using d(2) by (simp add: PUSH_BUNDLE_SIZE_def)
  ultimately show ?thesis using d(1) by (intro that[OF b(2)]) (simp add: send_push_reply_def reply_run_def)
qed

lemma finish_reply:
  assumes "reply_buf (pr_buf r) cur" "pr_multi r = (bs \<noteq> [])" "pr_sent r = (bs \<noteq> [])"
  shows "finish_push_reply take_all r = Some (pr_link r @ [reply_text cur @ (if bs = [] then [] else continuation_1)], True)"
proof -
  obtain q where q: "pr_buf r = buf_of [] (reply_text cur) (0 # q)" "length (reply_text cur) + length (0 # q) = PUSH_BUNDLE_SIZE" and nul: "option_texts cur"
    using assms(1) by (auto simp: reply_buf_def)
  have ten: "10 \<le> length (reply_text cur)" by (simp add: reply_text_def push_texts)
  consider "bs \<noteq> []" | "bs = []" "cur \<noteq> []" | "bs = []" "cur = []" by blast
  then show ?thesis
  proof cases
    case 1
    obtain q1 where "buf_printf (pr_buf r) continuation_1 = Some (buf_of [] (reply_text cur @ continuation_1) (0 # q1), True)"
        "buf_str (buf_of [] (reply_text cur @ continuation_1) (0 # q1)) = Some (reply_text cur @ continuation_1)"
      by (rule reply_close[OF assms(1) disjI1[OF refl]])
    then show ?thesis using 1 assms ten by (simp add: finish_push_reply_def take_all_def push_texts)
  next
    case 2
    then have "length (reply_text cur) \<ge> 11" by (cases cur) (simp_all add: reply_text_def push_texts)
    then show ?thesis using 2 assms q(1) buf_str_of[OF reply_text_nul[OF nul], of "[]" q]
      by (simp add: finish_push_reply_def take_all_def push_texts)
  next
    case 3
    obtain b2 where b2: "buf_printf (buf_of [] [] (push_reply_cmd @ 0 # q)) push_reply_cmd = Some (b2, True)" "reply_buf b2 []"
      by (rule reply_start[of "push_reply_cmd @ 0 # q"]) (use q(2) 3 in \<open>simp_all add: reply_text_simps\<close>)
    then obtain q2 where "b2 = buf_of [] push_reply_cmd (0 # q2)" by (auto simp: reply_buf_def reply_text_simps)
    then have "buf_str b2 = Some push_reply_cmd" using buf_str_of[OF push_texts(1), of "[]" q2] by simp
    then show ?thesis using 3 assms q(1) b2(1)
      by (simp add: finish_push_reply_def take_all_def push_texts reply_text_simps buf_reset_of)
  qed
qed

lemma send_push_reply_messages:
  assumes "short_options (g @ c)"
  obtains bs cur where "send_push_reply take_all junk g c link = Some (link @ reply_messages bs cur, True)"
    "concat bs @ cur = enabled_options (g @ c)" "\<forall>b\<in>set (bs @ [cur]). length (reply_text b) < 941" "bs \<noteq> [] \<longrightarrow> cur \<noteq> []"
proof -
  have gc: "short_options g" "short_options c" using assms by (auto simp: short_options_def enabled_simps)
  obtain b where b: "reply_buf b []" and run: "send_push_reply take_all junk g c link = reply_run b g c link"
    by (rule reply_alloc)
  let ?r = "\<lparr>pr_buf = b, pr_link = link, pr_sent = False, pr_multi = False\<rparr>"
  obtain bs1 cur1 r1 where r1: "send_push_options take_all 940 g ?r = Some (r1, True)" "reply_buf (pr_buf r1) cur1" "bundles_to bs1 ?r r1"
      "concat bs1 @ cur1 = enabled_options g" "bs1 \<noteq> [] \<longrightarrow> cur1 \<noteq> []"
    using send_push_options_ok[OF gc(1), of ?r "[]"] b by auto
  obtain bs2 cur r2 where r2: "send_push_options take_all 940 c r1 = Some (r2, True)" "reply_buf (pr_buf r2) cur" "bundles_to bs2 r1 r2"
      "concat bs2 @ cur = cur1 @ enabled_options c" "bs2 \<noteq> [] \<longrightarrow> cur \<noteq> []" "cur1 \<noteq> [] \<longrightarrow> cur \<noteq> []"
    using send_push_options_ok[OF gc(2) r1(2)] by auto
  have b12: "bundles_to (bs1 @ bs2) ?r r2" using r1(3) r2(3) by (rule bundles_trans)
  show ?thesis
  proof (rule that)
    have "finish_push_reply take_all r2 = Some (pr_link r2 @ [reply_text cur @ (if bs1 @ bs2 = [] then [] else continuation_1)], True)"
      by (rule finish_reply[OF r2(2)]) (use b12 in \<open>auto simp: bundles_to_def\<close>)
    then show "send_push_reply take_all junk g c link = Some (link @ reply_messages (bs1 @ bs2) cur, True)"
      using r1(1) r2(1) b12 by (simp add: run reply_run_def reply_messages_def bundles_to_def)
    show "concat (bs1 @ bs2) @ cur = enabled_options (g @ c)"
      using r2(4) by (simp add: enabled_simps) (metis r1(4) append_assoc)
    show "\<forall>b\<in>set ((bs1 @ bs2) @ [cur]). length (reply_text b) < 941" using b12 r2(2) by (auto simp: bundles_to_def reply_buf_def)
    show "bs1 @ bs2 \<noteq> [] \<longrightarrow> cur \<noteq> []" using r1(5) r2(5,6) by auto
  qed
qed

lemma send_push_reply_long:
  assumes "\<forall>opt\<in>set (enabled_options (g @ c)). 0 \<notin> set opt" "\<not> short_options (g @ c)"
  shows "\<exists>link'. send_push_reply take_all junk g c link = Some (link', False)"
proof -
  obtain b where b: "reply_buf b []" and run: "send_push_reply take_all junk g c link = reply_run b g c link"
    by (rule reply_alloc)
  let ?r = "\<lparr>pr_buf = b, pr_link = link, pr_sent = False, pr_multi = False\<rparr>"
  show ?thesis
  proof (cases "short_options g")
    case False
    then show ?thesis using send_push_options_long[of g ?r "[]"] assms(1) b by (auto simp: enabled_simps run reply_run_def)
  next
    case True
    then have "\<not> short_options c" using assms(2) by (auto simp: short_options_def enabled_simps)
    moreover obtain r1 cur1 where "send_push_options take_all 940 g ?r = Some (r1, True)" "reply_buf (pr_buf r1) cur1"
      using send_push_options_ok[OF True, of ?r "[]"] b by auto
    ultimately show ?thesis using send_push_options_long[of c r1 cur1] assms(1) by (auto simp: enabled_simps run reply_run_def)
  qed
qed

section \<open>Dividing an update\<close>

fun find_first_comma_of_next_bundle :: "byte list \<Rightarrow> nat \<Rightarrow> nat" where
  "find_first_comma_of_next_bundle str 0 = 0"
| "find_first_comma_of_next_bundle str (Suc ix) =
     (if str_at str (Suc ix) = 44 then Suc ix else find_first_comma_of_next_bundle str ix)"

definition forge_msg :: "(nat \<Rightarrow> byte) \<Rightarrow> byte list \<Rightarrow> byte list \<Rightarrow> buffer option" where
  "forge_msg junk src continuation = do {
     b \<leftarrow> alloc_buf_gc junk (length src + (length push_update_cmd + 1) + length continuation + 2);
     map_option fst (buf_printf b (push_update_cmd @ [44] @ src @ continuation)) }"

text \<open>The loop of \<open>message_splitter\<close> with the list of the messages' strings.\<close>

function splitter_loop :: "(nat \<Rightarrow> byte) \<Rightarrow> nat \<Rightarrow> byte list \<Rightarrow> byte list list \<Rightarrow> (byte list list \<times> bool) option" where
  "splitter_loop junk safe_cap str msgs =
     (if str = [] then Some (msgs, True)
      else if length str > safe_cap
      then (let ci = find_first_comma_of_next_bundle str safe_cap
            in if ci = 0 then Some (msgs, False)
               else do {
                 tmp \<leftarrow> forge_msg junk (take ci str) continuation_2;
                 m \<leftarrow> buf_str tmp;
                 splitter_loop junk safe_cap (drop (ci + 1) str) (msgs @ [m]) })
      else do {
        tmp \<leftarrow> forge_msg junk str (if msgs \<noteq> [] then continuation_1 else []);
        m \<leftarrow> buf_str tmp;
        splitter_loop junk safe_cap [] (msgs @ [m]) })"
  by pat_completeness auto
termination by (relation "measure (\<lambda>(j, k, str, m). length str)") auto

declare splitter_loop.simps [simp del]

definition message_splitter :: "(nat \<Rightarrow> byte) \<Rightarrow> byte list \<Rightarrow> nat \<Rightarrow> (byte list list \<times> bool) option" where
  "message_splitter junk s safe_cap = (if s = [] then Some ([], False) else splitter_loop junk safe_cap s [])"

definition join_options :: "byte list list \<Rightarrow> byte list" where
  "join_options opts = concat (map (\<lambda>opt. [44] @ opt) opts)"

text \<open>The text of an update: the options with a comma between two of them.\<close>

definition update_text :: "byte list list \<Rightarrow> byte list" where
  "update_text opts = tl (join_options opts)"

lemma join_options_simps: "join_options [] = []" "join_options (o1 # opts) = 44 # o1 @ join_options opts"
  "join_options (xs @ ys) = join_options xs @ join_options ys"
  by (simp_all add: join_options_def)

lemma update_text_simps: "update_text [] = []" "update_text (o1 # opts) = o1 @ join_options opts"
  by (simp_all add: update_text_def join_options_simps)

lemma update_text_append: "g \<noteq> [] \<Longrightarrow> rest \<noteq> [] \<Longrightarrow> update_text (g @ rest) = update_text g @ 44 # update_text rest"
  by (cases g; cases rest) (simp_all add: update_text_simps join_options_simps)

lemma find_comma:
  "find_first_comma_of_next_bundle str ix \<le> ix"
  "find_first_comma_of_next_bundle str ix \<noteq> 0 \<Longrightarrow> str_at str (find_first_comma_of_next_bundle str ix) = 44"
  "0 < k \<Longrightarrow> k \<le> ix \<Longrightarrow> str_at str k = 44 \<Longrightarrow> k \<le> find_first_comma_of_next_bundle str ix"
  by (induction ix) (auto simp: le_Suc_eq)

lemma comma_boundary:
  assumes "\<forall>opt\<in>set opts. 44 \<notin> set opt" "opts \<noteq> []" "i < length (update_text opts)" "update_text opts ! i = 44"
  shows "\<exists>g rest. opts = g @ rest \<and> g \<noteq> [] \<and> rest \<noteq> [] \<and> length (update_text g) = i"
  using assms
proof (induction opts arbitrary: i)
  case (Cons o1 opts)
  have i: "length o1 \<le> i" using Cons.prems(1,4) by (auto simp: update_text_simps nth_append not_less[symmetric] dest: nth_mem split: if_splits)
  have ne: "opts \<noteq> []" using Cons.prems(3) i by (auto simp: update_text_simps join_options_simps)
  have t: "update_text (o1 # opts) = o1 @ 44 # update_text opts" using update_text_append[of "[o1]" opts] ne by (simp add: update_text_simps join_options_simps)
  show ?case
  proof (cases "i = length o1")
    case True
    then show ?thesis using ne by (intro exI[of _ "[o1]"] exI[of _ opts]) (simp add: update_text_simps join_options_simps)
  next
    case False
    define j where "j = i - length o1 - 1"
    have j: "i = length o1 + 1 + j" using i False by (simp add: j_def)
    have "j < length (update_text opts)" "update_text opts ! j = 44" using Cons.prems(3,4) by (simp_all add: t j nth_append)
    then obtain g rest where "opts = g @ rest" "g \<noteq> []" "rest \<noteq> []" "length (update_text g) = j"
      using Cons.IH[of j] Cons.prems(1) ne by auto
    then show ?thesis using j update_text_append[of "[o1]" g]
      by (intro exI[of _ "o1 # g"] exI[of _ rest]) (simp add: update_text_simps join_options_simps)
  qed
qed simp

definition update_options_ok :: "nat \<Rightarrow> byte list list \<Rightarrow> bool" where
  "update_options_ok cap opts \<longleftrightarrow> opts \<noteq> [] \<and> (\<forall>opt\<in>set opts. opt \<noteq> [] \<and> 44 \<notin> set opt \<and> 0 \<notin> set opt \<and> length opt \<le> cap)"

text \<open>A text that is too long is cut at the last comma it may be cut at.\<close>

lemma splitter_cut:
  assumes "update_options_ok cap opts" "cap < length (update_text opts)"
  obtains g rest where "opts = g @ rest" "g \<noteq> []" "rest \<noteq> []" "length (update_text g) \<le> cap"
    "find_first_comma_of_next_bundle (update_text opts) cap = length (update_text g)" "update_text g \<noteq> []"
proof -
  obtain o1 opts' where o: "opts = o1 # opts'" "o1 \<noteq> []" "length o1 \<le> cap" using assms(1) by (cases opts) (auto simp: update_options_ok_def)
  have ne: "opts' \<noteq> []" using assms(2) o by (auto simp: update_text_simps join_options_simps)
  have t: "update_text opts = o1 @ 44 # update_text opts'" using update_text_append[of "[o1]" opts'] ne o by (simp add: update_text_simps join_options_simps)
  let ?i = "find_first_comma_of_next_bundle (update_text opts) cap"
  have "str_at (update_text opts) (length o1) = 44" by (simp add: t str_at_def)
  then have "length o1 \<le> ?i" using o by (intro find_comma(3)) auto
  then have i: "0 < ?i" "?i \<le> cap" using o(2) find_comma(1)[of "update_text opts" cap] by (auto intro: less_le_trans)
  then have "str_at (update_text opts) ?i = 44" by (intro find_comma(2)) simp
  then have "update_text opts ! ?i = 44" "?i < length (update_text opts)" using i assms(2) by (auto simp: str_at_def)
  then obtain g rest where gr: "opts = g @ rest" "g \<noteq> []" "rest \<noteq> []" "length (update_text g) = ?i"
    using comma_boundary[of opts ?i] assms(1) by (auto simp: update_options_ok_def)
  moreover have "update_text g \<noteq> []" using gr(4) i(1) by auto
  ultimately show ?thesis using i by (intro that[OF gr(1,2,3)]) auto
qed

definition update_message :: "byte list list \<Rightarrow> byte list \<Rightarrow> byte list" where
  "update_message g continuation = push_update_cmd @ [44] @ update_text g @ continuation"

lemma update_cmd_text: "0 \<notin> set push_update_cmd" "length push_update_cmd = 11"
  by (simp_all add: push_update_cmd_def ascii_def)

lemma update_text_nul: "\<forall>opt\<in>set opts. 0 \<notin> set opt \<Longrightarrow> 0 \<notin> set (update_text opts)"
  by (cases opts) (auto simp: update_text_simps join_options_def)

lemma forge_msg_ok:
  assumes "\<forall>opt\<in>set g. 0 \<notin> set opt" "k \<in> {[], continuation_1, continuation_2}" "length (update_text g) \<le> 100000"
  obtains b where "forge_msg junk (update_text g) k = Some b" "buf_str b = Some (update_message g k)"
proof -
  let ?txt = "update_message g k"
  let ?n = "length (update_text g) + (length push_update_cmd + 1) + length k + 2"
  define d where "d = (map junk [0..<?n])[0 := 0]"
  have d: "alloc_buf_gc junk ?n = Some (buf_of [] [] d)" "length d = ?n"
    using assms(2,3) push_texts by (auto simp: alloc_buf_gc_def buf_size_valid_def BUF_SIZE_MAX_def buf_of_def d_def Let_def cassert_def update_cmd_text)
  have nul: "0 \<notin> set ?txt" using update_text_nul[OF assms(1)] assms(2) push_texts update_cmd_text by (auto simp: update_message_def)
  have "length ?txt < length d" using d(2) by (simp add: update_message_def)
  with nul obtain q where "buf_printf (buf_of [] [] d) ?txt = Some (buf_of [] ([] @ ?txt) (0 # q), True)" by (rule buf_printf_of)
  then show ?thesis using that[of "buf_of [] ?txt (0 # q)"] d(1) buf_str_of[OF nul] by (simp add: forge_msg_def update_message_def)
qed

text \<open>The messages of the groups of options.\<close>

definition update_messages :: "byte list list list \<Rightarrow> byte list list" where
  "update_messages gs = map (\<lambda>g. update_message g continuation_2) (butlast gs) @
     [update_message (last gs) (if length gs = 1 then [] else continuation_1)]"

lemma splitter_loop_groups:
  assumes "update_options_ok cap opts" "cap \<le> 100000"
  shows "\<exists>gs. splitter_loop junk cap (update_text opts) msgs = Some (msgs @ map (\<lambda>g. update_message g continuation_2) (butlast gs) @
       [update_message (last gs) (if msgs = [] \<and> length gs = 1 then [] else continuation_1)], True) \<and>
     gs \<noteq> [] \<and> concat gs = opts \<and> (\<forall>g\<in>set gs. g \<noteq> [] \<and> length (update_text g) \<le> cap)"
  using assms
proof (induction "length opts" arbitrary: opts msgs rule: less_induct)
  case less
  have ne: "update_text opts \<noteq> []" using less.prems(1) by (cases opts) (auto simp: update_options_ok_def update_text_simps)
  show ?case
  proof (cases "cap < length (update_text opts)")
    case False
    let ?k = "if msgs \<noteq> [] then continuation_1 else []"
    obtain b where b: "forge_msg junk (update_text opts) ?k = Some b" "buf_str b = Some (update_message opts ?k)"
      by (rule forge_msg_ok[of opts ?k]) (use less.prems False in \<open>auto simp: update_options_ok_def\<close>)
    have "splitter_loop junk cap (update_text opts) msgs = splitter_loop junk cap [] (msgs @ [update_message opts ?k])"
      using False ne b by (subst splitter_loop.simps) simp
    also have "\<dots> = Some (msgs @ [update_message opts ?k], True)" by (subst splitter_loop.simps) simp
    finally show ?thesis using False less.prems(1) by (intro exI[of _ "[opts]"]) (simp add: update_options_ok_def)
  next
    case True
    obtain g rest where g: "opts = g @ rest" "g \<noteq> []" "rest \<noteq> []" "length (update_text g) \<le> cap"
        "find_first_comma_of_next_bundle (update_text opts) cap = length (update_text g)" "update_text g \<noteq> []"
      using less.prems(1) True by (rule splitter_cut)
    obtain b where b: "forge_msg junk (update_text g) continuation_2 = Some b" "buf_str b = Some (update_message g continuation_2)"
      by (rule forge_msg_ok[of g continuation_2]) (use less.prems g(1,4) in \<open>auto simp: update_options_ok_def\<close>)
    have t: "update_text opts = update_text g @ 44 # update_text rest" using update_text_append[OF g(2,3)] g(1) by simp
    let ?m = "msgs @ [update_message g continuation_2]"
    have step: "splitter_loop junk cap (update_text opts) msgs = splitter_loop junk cap (update_text rest) ?m"
      using True ne b g(5,6) by (subst splitter_loop.simps) (simp add: Let_def t)
    have "update_options_ok cap rest" using less.prems(1) g(1,3) by (simp add: update_options_ok_def)
    then obtain gs where "splitter_loop junk cap (update_text rest) ?m = Some (?m @ map (\<lambda>g. update_message g continuation_2) (butlast gs) @
         [update_message (last gs) continuation_1], True)"
       "gs \<noteq> []" "concat gs = rest" "\<forall>g\<in>set gs. g \<noteq> [] \<and> length (update_text g) \<le> cap"
      using less.hyps[of rest ?m] less.prems(2) g(1,2) by auto
    then show ?thesis using step g by (intro exI[of _ "g # gs"]) simp
  qed
qed



text \<open>When a text that is cut ends with a comma at the cut, no message says that it is the last one: the
  only message announces another one, and the client waits for it.\<close>

theorem message_splitter_trailing_comma:
  assumes "opt \<noteq> []" "0 \<notin> set opt" "length opt \<le> 100000"
  shows "message_splitter junk (opt @ [44]) (length opt) = Some ([update_message [opt] continuation_2], True)"
proof -
  have "str_at (opt @ [44]) (length opt) = 44" by (simp add: str_at_def)
  then have f: "find_first_comma_of_next_bundle (opt @ [44]) (length opt) = length opt" using assms(1) by (cases "length opt") auto
  obtain b where b: "forge_msg junk (update_text [opt]) continuation_2 = Some b" "buf_str b = Some (update_message [opt] continuation_2)"
    by (rule forge_msg_ok[of "[opt]" continuation_2]) (use assms in \<open>simp_all add: update_text_simps join_options_simps\<close>)
  have t: "update_text [opt] = opt" by (simp add: update_text_simps join_options_simps)
  have "splitter_loop junk (length opt) (opt @ [44]) [] = splitter_loop junk (length opt) [] [update_message [opt] continuation_2]"
    using f b assms(1) unfolding t by (subst splitter_loop.simps) (simp add: Let_def)
  also have "\<dots> = Some ([update_message [opt] continuation_2], True)" by (subst splitter_loop.simps) simp
  finally show ?thesis by (simp add: message_splitter_def)
qed

theorem message_splitter_trailing_comma_witness:
  "message_splitter (\<lambda>_. 7) ([97, 98] @ [44]) (length [97, 98 :: byte]) = Some ([update_message [[97, 98]] continuation_2], True)"
  by (rule message_splitter_trailing_comma) simp_all

section \<open>Properties of the push list\<close>

text \<open>A removed option is not pushed any more; options are removed by what they begin with.\<close>

lemma remove_entries_enabled: "enabled_options (remove_entries p pl) = filter (\<lambda>opt. take (length p) opt \<noteq> p) (enabled_options pl)"
  by (induction pl) (auto simp: enabled_options_def)

theorem push_remove_option_enabled:
  assumes "p \<noteq> ifconfig_name" "p \<noteq> ifconfig_ipv6_name"
  shows "enabled_options (po_push_list (push_remove_option po p)) =
    filter (\<lambda>opt. take (length p) opt \<noteq> p) (enabled_options (po_push_list po))"
  using assms by (simp add: push_remove_option_def remove_entries_enabled)

lemma push_option_appends:
  assumes "44 \<notin> set opt"
  shows "push_option fatal po opt = Some (po\<lparr>po_push_list := po_push_list po @ [\<lparr>pe_enable = True, pe_option = opt\<rparr>]\<rparr>)"
proof -
  have "string_class opt CC_ANY CC_COMMA"
    using assms by (induction opt) (auto simp: char_inc_exc_def char_class_def cc_tests_def CC_ANY_def CC_COMMA_def)
  then show ?thesis by (simp add: push_option_def push_option_ex_def)
qed

text \<open>Cloning a list enables its removed options again.\<close>

lemma clone_entries_enabled:
  "\<forall>e\<in>set es. 44 \<notin> set (pe_option e) \<Longrightarrow>
   clone_entries es po = Some (po\<lparr>po_push_list := po_push_list po @ map (\<lambda>e. \<lparr>pe_enable = True, pe_option = pe_option e\<rparr>) es\<rparr>)"
  by (induction es arbitrary: po) (simp_all add: push_option_appends)

theorem clone_push_list_enables:
  assumes "\<forall>e\<in>set (po_push_list po). 44 \<notin> set (pe_option e)"
  shows "\<exists>po'. clone_push_list po = Some po' \<and> enabled_options (po_push_list po') = map pe_option (po_push_list po)"
  using clone_entries_enabled[OF assms, of "push_reset po"]
  by (cases "po_push_list po = []") (auto simp: clone_push_list_def push_reset_def enabled_options_def filter_map comp_def)

text \<open>C10: A reply is sent exactly when no option is longer than 929 bytes, and then no message of it is as long as
  the bundle size, so that none is cut.\<close>

theorem push_reply_bounded:
  assumes "list_all (\<lambda>opt. 0 \<notin> set opt) (enabled_options (g @ c))"
  shows "\<exists>ms ok. send_push_reply take_all junk g c [] = Some (ms, ok) \<and>
    ok = list_all (\<lambda>opt. length opt < 930) (enabled_options (g @ c)) \<and>
    (if ok then list_all (\<lambda>m. length m < PUSH_BUNDLE_SIZE) ms else True)"
proof (cases "short_options (g @ c)")
  case True
  obtain bs cur where r: "send_push_reply take_all junk g c [] = Some ([] @ reply_messages bs cur, True)"
    "\<forall>b\<in>set (bs @ [cur]). length (reply_text b) < 941" using True by (rule send_push_reply_messages)
  have "list_all (\<lambda>m. length m < PUSH_BUNDLE_SIZE) (reply_messages bs cur)"
    using r(2) push_texts by (auto simp: reply_messages_def list_all_iff PUSH_BUNDLE_SIZE_def)
  moreover have "list_all (\<lambda>opt. length opt < 930) (enabled_options (g @ c))" using True by (auto simp: short_options_def list_all_iff)
  ultimately show ?thesis using r(1) by auto
next
  case False
  then have "\<not> list_all (\<lambda>opt. length opt < 930) (enabled_options (g @ c))" using assms by (auto simp: short_options_def list_all_iff)
  moreover have "\<forall>opt\<in>set (enabled_options (g @ c)). 0 \<notin> set opt" using assms by (simp add: list_all_iff)
  ultimately show ?thesis using send_push_reply_long[OF _ False, of junk "[]"] by auto
qed

theorem push_reply_bounded_witness:
  "\<exists>ms. send_push_reply take_all (\<lambda>_. 1) [\<lparr>pe_enable = True, pe_option = [97]\<rparr>] [] [] = Some (ms, True) \<and>
    list_all (\<lambda>m. length m < PUSH_BUNDLE_SIZE) ms"
  using push_reply_bounded[of "[\<lparr>pe_enable = True, pe_option = [97]\<rparr>]" "[]" "\<lambda>_. 1"] by (auto simp: enabled_simps)

end
