(* ===== verification/Ovpn_Pull.thy ===== *)
theory Ovpn_Pull
  imports Ovpn_Options Ovpn_Push
begin

text \<open>
  The client's side of pushed options: commands on the control channel (\<open>forward.c\<close>, \<open>ssl_pkt.c\<close>),
  push replies and updates (\<open>push.c\<close>, \<open>push_util.c\<close>, \<open>options_parse.c\<close>).  Of \<open>add_option\<close>,
  \<open>remove_option\<close> and \<open>update_option\<close> the calls are recorded, and their effect on
  \<open>push_continuation\<close> is modelled.
\<close>

unbundle bit_operations_syntax

section \<open>Commands on the control channel\<close>

text \<open>The rest of the buffer and the first command in it.\<close>

definition extract_command_buffer :: "(nat \<Rightarrow> byte) \<Rightarrow> buffer \<Rightarrow> (buffer \<times> buffer) option" where
  "extract_command_buffer junk b = do {
     bs \<leftarrow> buf_bytes b;
     let cmdlen = length (c_str bs);
     if int cmdlen \<ge> buf_len b then Some (fst (buf_advance b (int cmdlen)), clear_buf)
     else do {
       let cmdlen = cmdlen + 1;
       cmd \<leftarrow> alloc_buf_gc junk cmdlen;
       (cmd, _) \<leftarrow> buf_write cmd (take cmdlen bs);
       cmd \<leftarrow> buf_chomp cmd;
       valid \<leftarrow> string_check_buf cmd (CC_PRINT OR CC_NULL) CC_CRLF;
       Some (fst (buf_advance b (int cmdlen)), if \<not> valid then cmd\<lparr>b_len := 0\<rparr> else cmd) } }"

datatype control_command = AUTH_FAILED | PUSH | RESTART | HALT | INFO_PRE | INFO | CR_RESPONSE | AUTH_PENDING | EXIT | UNKNOWN_COMMAND

definition control_commands :: "(byte list \<times> control_command) list" where
  "control_commands =
     [(ascii ''AUTH_FAILED'', AUTH_FAILED), (ascii ''PUSH_'', PUSH), (ascii ''RESTART'', RESTART), (ascii ''HALT'', HALT),
      (ascii ''INFO_PRE'', INFO_PRE), (ascii ''INFO'', INFO), (ascii ''CR_RESPONSE'', CR_RESPONSE),
      (ascii ''AUTH_PENDING'', AUTH_PENDING), (ascii ''EXIT'', EXIT)]"

fun find_command :: "(byte list \<times> control_command) list \<Rightarrow> buffer \<Rightarrow> control_command option" where
  "find_command [] b = Some UNKNOWN_COMMAND"
| "find_command ((name, k) # ks) b = do { m \<leftarrow> buf_string_match_head_str b name; if m then Some k else find_command ks b }"

section \<open>The client\<close>

datatype push_msg = PUSH_MSG_ERROR | PUSH_MSG_REQUEST | PUSH_MSG_REPLY | PUSH_MSG_REQUEST_DEFERRED | PUSH_MSG_AUTH_FAILURE
  | PUSH_MSG_CONTINUATION | PUSH_MSG_ALREADY_REPLIED | PUSH_MSG_UPDATE

datatype option_call = Add_option "byte list list" | Remove_option "byte list list" | Update_option "byte list list"

text \<open>The options and the part of the context the push messages use.  \<open>pc_log\<close> holds what \<open>incoming_push_message\<close>
  got for each message, and \<open>pc_other\<close> the commands that have other handlers.\<close>

record pull_client =
  pc_pull :: bool
  pc_route_nopull :: bool
  pc_dco :: bool
  pc_pull_filter_list :: "pull_filter list"
  pc_tun_mtu_defined :: bool
  pc_push_continuation :: int
  pc_pulled_options_state :: "byte list option"
  pc_pulled_options_digest :: "byte list"
  pc_calls :: "option_call list"
  pc_sigusr1 :: bool
  pc_push_request_received :: bool
  pc_log :: "push_msg list"
  pc_other :: "(control_command \<times> byte list) list"

definition OPT_P_PULL_MODE :: u64 where "OPT_P_PULL_MODE = push_bit 23 1"

text \<open>The bits of \<open>OPT_P_UP\<close>, \<open>OPT_P_ROUTE_EXTRAS\<close>, \<open>OPT_P_SOCKBUF\<close>, \<open>OPT_P_SOCKFLAGS\<close>, \<open>OPT_P_SETENV\<close>,
  \<open>OPT_P_SHAPER\<close>, \<open>OPT_P_TIMER\<close>, \<open>OPT_P_COMP\<close>, \<open>OPT_P_PERSIST\<close>, \<open>OPT_P_MESSAGES\<close>, \<open>OPT_P_EXPLICIT_NOTIFY\<close>,
  \<open>OPT_P_ECHO\<close>, \<open>OPT_P_PULL_MODE\<close>, \<open>OPT_P_PEER_ID\<close>, \<open>OPT_P_NCP\<close> and \<open>OPT_P_PUSH_MTU\<close>; then \<open>OPT_P_ROUTE\<close> and
  \<open>OPT_P_DHCPDNS\<close>.\<close>

definition pull_permission_mask :: "pull_client \<Rightarrow> u64" where
  "pull_permission_mask c =
     (let flags = foldr (\<lambda>k f. push_bit k 1 OR f) [1, 22, 25, 26, 5, 6, 7, 10, 8, 11, 19, 20, 23, 28, 12, 30] 0
      in if \<not> pc_route_nopull c then flags OR (push_bit 2 1 OR push_bit 3 1) else flags)"

definition push_continuation_name :: "byte list" where
  "push_continuation_name = ascii ''push-continuation''"

text \<open>The branches for \<open>push-continuation\<close> of \<open>add_option\<close> and \<open>remove_option\<close>.\<close>

definition set_push_continuation :: "u64 \<Rightarrow> byte list list \<Rightarrow> pull_client \<Rightarrow> pull_client option" where
  "set_push_continuation pm p c =
     (if length p = 2 \<and> hd p = push_continuation_name \<and> OPT_P_PULL_MODE AND pm \<noteq> 0
      then map_option (\<lambda>(v, _). c\<lparr>pc_push_continuation := v\<rparr>) (atoi_constrained (p ! 1) (pc_push_continuation c) 0 2)
      else Some c)"

definition add_option :: "u64 \<Rightarrow> byte list list \<Rightarrow> pull_client \<Rightarrow> pull_client option" where
  "add_option pm p c = set_push_continuation pm p (c\<lparr>pc_calls := pc_calls c @ [Add_option p]\<rparr>)"

definition remove_option :: "u64 \<Rightarrow> byte list list \<Rightarrow> pull_client \<Rightarrow> pull_client option" where
  "remove_option pm p c =
     (let c = c\<lparr>pc_calls := pc_calls c @ [Remove_option p]\<rparr>
      in if length p = 1 \<and> hd p = push_continuation_name \<and> OPT_P_PULL_MODE AND pm \<noteq> 0
         then Some (c\<lparr>pc_push_continuation := 0\<rparr>) else Some c)"

definition update_option :: "u64 \<Rightarrow> byte list list \<Rightarrow> pull_client \<Rightarrow> pull_client option" where
  "update_option pm p c = set_push_continuation pm p (c\<lparr>pc_calls := pc_calls c @ [Update_option p]\<rparr>)"

section \<open>Reading pushed options\<close>

text \<open>One line of \<open>apply_push_options\<close>: the new client, or \<open>None\<close> inside when the message is refused.\<close>

definition apply_push_line :: "bool \<Rightarrow> u64 \<Rightarrow> byte list \<Rightarrow> pull_client \<Rightarrow> pull_client option option" where
  "apply_push_line is_update pm line c =
     (let i = length (takeWhile c_isspace line);
          (valid, i, flags) = (if is_update then check_push_update_option_flags line i else (True, i, 0));
          (keep, line) = (if valid then apply_pull_filter (pc_pull_filter_list c) (drop i line) else (False, line))
      in if \<not> keep then Some (if flags AND PUSH_OPT_OPTIONAL \<noteq> 0 then Some c else None)
         else (let (r, p) = parse_line MAX_PARMS line
               in if r = 0 then Some (Some c)
                  else map_option Some
                    (if \<not> is_update then add_option pm p c
                     else if flags AND PUSH_OPT_TO_REMOVE \<noteq> 0 then remove_option pm p c
                     else update_option pm p c)))"

text \<open>The loop over the lines; its fuel is more than the bytes of the buffer.\<close>

fun apply_push_loop :: "nat \<Rightarrow> bool \<Rightarrow> u64 \<Rightarrow> buffer \<Rightarrow> pull_client \<Rightarrow> (pull_client \<times> bool) option" where
  "apply_push_loop 0 is_update pm b c = None"
| "apply_push_loop (Suc n) is_update pm b c =
     (case buf_parse b 44 (int OPTION_PARM_SIZE) of
        None \<Rightarrow> None
      | Some (b, line, False) \<Rightarrow> Some (c, True)
      | Some (b, line, True) \<Rightarrow>
          (case apply_push_line is_update pm line c of
             None \<Rightarrow> None
           | Some None \<Rightarrow> Some (c, False)
           | Some (Some c) \<Rightarrow> apply_push_loop n is_update pm b c))"

definition apply_push_options :: "bool \<Rightarrow> u64 \<Rightarrow> buffer \<Rightarrow> pull_client \<Rightarrow> (pull_client \<times> bool) option" where
  "apply_push_options is_update pm b c = apply_push_loop (nat (buf_len b) + 1) is_update pm b c"

definition undigested :: "byte list list" where
  "undigested = map ascii
    [''peer-id '', ''auth-token '', ''auth-token-user'', ''protocol-flags '', ''key-derivation '',
     ''explicit-exit-notify '', ''ping '', ''ping-restart '', ''ping-timer '']"

definition strprefix :: "byte list \<Rightarrow> byte list \<Rightarrow> bool" where
  "strprefix s pre = (take (length pre) s = pre)"

definition digested :: "bool \<Rightarrow> byte list \<Rightarrow> bool" where
  "digested tun_mtu_defined line =
     (\<not> list_ex (strprefix line) undigested \<and> \<not> (strprefix line (ascii ''cipher '') \<and> tun_mtu_defined))"

fun push_digest_loop :: "nat \<Rightarrow> bool \<Rightarrow> byte list \<Rightarrow> buffer \<Rightarrow> byte list option" where
  "push_digest_loop 0 tun_mtu_defined ctx b = None"
| "push_digest_loop (Suc n) tun_mtu_defined ctx b =
     (case buf_parse b 44 (int OPTION_PARM_SIZE) of
        None \<Rightarrow> None
      | Some (b, line, False) \<Rightarrow> Some ctx
      | Some (b, line, True) \<Rightarrow>
          push_digest_loop n tun_mtu_defined (if digested tun_mtu_defined line then ctx @ line @ [0] else ctx) b)"

text \<open>The state of the digest is the text it was given.\<close>

definition push_update_digest :: "bool \<Rightarrow> byte list \<Rightarrow> buffer \<Rightarrow> byte list option" where
  "push_update_digest tun_mtu_defined ctx b = push_digest_loop (nat (buf_len b) + 1) tun_mtu_defined ctx b"

section \<open>Push messages\<close>

text \<open>\<open>sha256\<close> is the digest of the library.\<close>

definition process_incoming_push_reply :: "(byte list \<Rightarrow> byte list) \<Rightarrow> u64 \<Rightarrow> buffer \<Rightarrow> pull_client \<Rightarrow> (pull_client \<times> push_msg) option" where
  "process_incoming_push_reply sha256 pm b c = do {
     (b, ch) \<leftarrow> buf_read_u8 b;
     if ch = 44
     then do {
       let c = (if pc_pulled_options_state c = None then c\<lparr>pc_pulled_options_state := Some []\<rparr> else c);
       (c, applied) \<leftarrow> apply_push_options False pm b c;
       if applied
       then do {
         ctx \<leftarrow> push_update_digest (pc_tun_mtu_defined c) (the (pc_pulled_options_state c)) b;
         let c = c\<lparr>pc_pulled_options_state := Some ctx\<rparr>;
         Some (if pc_push_continuation c = 0 \<or> pc_push_continuation c = 1
               then (c\<lparr>pc_pulled_options_state := None, pc_pulled_options_digest := sha256 ctx\<rparr>, PUSH_MSG_REPLY)
               else if pc_push_continuation c = 2 then (c, PUSH_MSG_CONTINUATION)
               else (c, PUSH_MSG_ERROR)) }
       else Some (c\<lparr>pc_sigusr1 := True\<rparr>, PUSH_MSG_ERROR) }
     else Some (c, if ch = 0 then PUSH_MSG_REPLY else PUSH_MSG_ERROR) }"

definition process_push_update :: "bool \<Rightarrow> u64 \<Rightarrow> buffer \<Rightarrow> pull_client \<Rightarrow> (pull_client \<times> push_msg) option" where
  "process_push_update msg_sender pm b c = do {
     (b, ch) \<leftarrow> buf_read_u8 b;
     if ch = 44
     then do {
       (c, applied) \<leftarrow> apply_push_options True pm b c;
       Some (if applied
             then (c, if pc_push_continuation c = 0 \<or> pc_push_continuation c = 1 then PUSH_MSG_UPDATE
                      else if pc_push_continuation c = 2 then PUSH_MSG_CONTINUATION else PUSH_MSG_ERROR)
             else (if \<not> msg_sender then c\<lparr>pc_sigusr1 := True\<rparr> else c, PUSH_MSG_ERROR)) }
     else Some (c, if ch = 0 then PUSH_MSG_UPDATE else PUSH_MSG_ERROR) }"

text \<open>\<open>request\<close> is the server's \<open>process_incoming_push_request\<close>.\<close>

definition process_incoming_push_msg ::
  "(byte list \<Rightarrow> byte list) \<Rightarrow> (pull_client \<Rightarrow> pull_client \<times> push_msg) \<Rightarrow> bool \<Rightarrow> u64 \<Rightarrow> buffer \<Rightarrow> pull_client \<Rightarrow> (pull_client \<times> push_msg) option" where
  "process_incoming_push_msg sha256 request honor pm b c = do {
     (b1, is_request) \<leftarrow> buf_string_compare_advance b (ascii ''PUSH_REQUEST'');
     if is_request then Some (request (c\<lparr>pc_push_request_received := True\<rparr>))
     else do {
       (b2, is_reply) \<leftarrow> (if honor then buf_string_compare_advance b1 push_reply_cmd else Some (b1, False));
       if is_reply then process_incoming_push_reply sha256 pm b2 c
       else do {
         (b3, is_update) \<leftarrow> (if honor then buf_string_compare_advance b2 push_update_cmd else Some (b2, False));
         if is_update
         then (if pc_dco c then Some (c, PUSH_MSG_ERROR) else process_push_update False pm b3 c)
         else Some (c, PUSH_MSG_ERROR) } } }"

text \<open>What \<open>incoming_push_message\<close> does with the status, bringing the tunnel up, is not modelled.\<close>

definition incoming_push_message ::
  "(byte list \<Rightarrow> byte list) \<Rightarrow> (pull_client \<Rightarrow> pull_client \<times> push_msg) \<Rightarrow> buffer \<Rightarrow> pull_client \<Rightarrow> pull_client option" where
  "incoming_push_message sha256 request b c = do {
     (c, status) \<leftarrow> process_incoming_push_msg sha256 request (pc_pull c) (pull_permission_mask c) b c;
     Some (c\<lparr>pc_log := pc_log c @ [status]\<rparr>) }"

definition parse_incoming_control_channel_command ::
  "(byte list \<Rightarrow> byte list) \<Rightarrow> (pull_client \<Rightarrow> pull_client \<times> push_msg) \<Rightarrow> buffer \<Rightarrow> pull_client \<Rightarrow> pull_client option" where
  "parse_incoming_control_channel_command sha256 request b c = do {
     k \<leftarrow> find_command control_commands b;
     if k = PUSH then incoming_push_message sha256 request b c
     else do { bs \<leftarrow> buf_bytes b; Some (c\<lparr>pc_other := pc_other c @ [(k, bs)]\<rparr>) } }"

text \<open>The loop over the commands in a payload of the control channel.\<close>

fun control_channel_loop ::
  "nat \<Rightarrow> (nat \<Rightarrow> byte) \<Rightarrow> (byte list \<Rightarrow> byte list) \<Rightarrow> (pull_client \<Rightarrow> pull_client \<times> push_msg) \<Rightarrow> buffer \<Rightarrow> pull_client \<Rightarrow> pull_client option" where
  "control_channel_loop 0 junk sha256 request b c = None"
| "control_channel_loop (Suc n) junk sha256 request b c =
     (if buf_len b > 1
      then do {
        (b, cmd) \<leftarrow> extract_command_buffer junk b;
        c \<leftarrow> (if b_len cmd > 0 then parse_incoming_control_channel_command sha256 request cmd c else Some c);
        control_channel_loop n junk sha256 request b c }
      else Some c)"

definition check_incoming_control_channel ::
  "(nat \<Rightarrow> byte) \<Rightarrow> (byte list \<Rightarrow> byte list) \<Rightarrow> (pull_client \<Rightarrow> pull_client \<times> push_msg) \<Rightarrow> byte list \<Rightarrow> pull_client \<Rightarrow> pull_client option" where
  "check_incoming_control_channel junk sha256 request payload c = do {
     cassert (length payload > 0);
     b \<leftarrow> alloc_buf_gc junk (length payload);
     (b, _) \<leftarrow> buf_write b payload;
     control_channel_loop (length payload) junk sha256 request b c }"

section \<open>Lines of a push message\<close>

definition line_ok :: "byte list \<Rightarrow> bool" where
  "line_ok l \<longleftrightarrow> 44 \<notin> set l \<and> 0 \<notin> set l \<and> length l < 255"

lemma buf_parse_last:
  "0 \<notin> set l \<Longrightarrow> d \<notin> set l \<Longrightarrow> d \<noteq> 0 \<Longrightarrow> int (length acc + length l) < sz - 1 \<Longrightarrow>
   buf_parse_loop (buf_of p (l @ [0]) q) (uint d) sz acc = Some (buf_of (p @ l @ [0]) [] q, acc @ l, False)"
proof (induction l arbitrary: p acc)
  case Nil
  have "uint d \<noteq> 0" using Nil.prems(3) by (simp add: uint_0_iff)
  then show ?case using Nil by (subst buf_parse_loop.simps) (simp add: buf_peek_u8_of buf_advance_of)
next
  case (Cons x xs)
  have "uint x \<noteq> uint d" "uint x \<noteq> uint (0 :: byte)"
    using Cons.prems by (simp_all only: word_uint_eq_iff[symmetric]) auto
  moreover have "(word_of_int (uint x) :: byte) = x" by simp
  ultimately show ?case
    using Cons by (subst buf_parse_loop.simps) (simp add: buf_peek_u8_of buf_advance_of)
qed

lemma comma_byte: "(44 :: int) = uint (44 :: byte)"
  by simp

lemma parse_comma:
  assumes "line_ok l"
  shows "buf_parse (buf_of p (l @ 44 # rest) q) 44 (int OPTION_PARM_SIZE) = Some (buf_of (p @ l @ [44]) rest q, l, True)"
    "buf_parse (buf_of p (l @ [0]) q) 44 (int OPTION_PARM_SIZE) = Some (buf_of (p @ l @ [0]) [] q, l, True)"
  using assms buf_parse_line[of 44 l "int OPTION_PARM_SIZE" p rest q] buf_parse_last[of l 44 "[]" "int OPTION_PARM_SIZE" p q]
  by (simp_all add: line_ok_def OPTION_PARM_SIZE_def buf_parse_def)

lemma parse_empty: "buf_parse (buf_of p [] q) 44 (int OPTION_PARM_SIZE) = Some (buf_of p [] q, [], False)"
  by (rule buf_parse_end) (simp add: OPTION_PARM_SIZE_def)

text \<open>An option of 256 bytes or more is read as more than one line.\<close>

lemma buf_parse_full:
  "0 \<notin> set l \<Longrightarrow> d \<notin> set l \<Longrightarrow> x \<noteq> d \<Longrightarrow> int (length acc + length l) = sz - 1 \<Longrightarrow>
   buf_parse_loop (buf_of p (l @ x # rest) q) (uint d) sz acc = Some (buf_of (p @ l) (x # rest) q, acc @ l, False)"
proof (induction l arbitrary: p acc)
  case Nil
  have "uint x \<noteq> uint d" using Nil.prems(3) by (simp only: word_uint_eq_iff[symmetric]) simp
  then show ?case using Nil by (subst buf_parse_loop.simps) (simp add: buf_peek_u8_of)
next
  case (Cons y ys)
  have "uint y \<noteq> uint d" "uint y \<noteq> uint (0 :: byte)"
    using Cons.prems by (simp_all only: word_uint_eq_iff[symmetric]) auto
  moreover have "(word_of_int (uint y) :: byte) = y" by simp
  ultimately show ?case
    using Cons by (subst buf_parse_loop.simps) (simp add: buf_peek_u8_of buf_advance_of)
qed

lemma long_option_split:
  assumes "0 \<notin> set l" "44 \<notin> set l" "length l = 255" "x \<noteq> 44"
  shows "buf_parse (buf_of p (l @ x # rest) q) 44 (int OPTION_PARM_SIZE) = Some (buf_of (p @ l) (x # rest) q, l, True)"
  using buf_parse_full[of l 44 x "[]" "int OPTION_PARM_SIZE" p rest q] assms
  by (simp add: buf_parse_def OPTION_PARM_SIZE_def)

fun apply_lines :: "bool \<Rightarrow> u64 \<Rightarrow> byte list list \<Rightarrow> pull_client \<Rightarrow> (pull_client \<times> bool) option" where
  "apply_lines is_update pm [] c = Some (c, True)"
| "apply_lines is_update pm (l # ls) c = (case apply_push_line is_update pm l c of
     None \<Rightarrow> None
   | Some None \<Rightarrow> Some (c, False)
   | Some (Some c) \<Rightarrow> apply_lines is_update pm ls c)"

lemma apply_push_loop_lines:
  "list_all line_ok ls \<Longrightarrow> ls \<noteq> [] \<Longrightarrow> length ls < n \<Longrightarrow>
   apply_push_loop n u pm (buf_of p (update_text ls @ [0]) q) c = apply_lines u pm ls c"
proof (induction ls arbitrary: n p c)
  case (Cons l ls)
  obtain m where n: "n = Suc m" "length ls < m" using Cons.prems(3) by (cases n) auto
  show ?case
  proof (cases "ls = []")
    case True
    obtain m' where "m = Suc m'" using n(2) by (cases m) auto
    then show ?thesis using True Cons.prems n parse_comma(2)[of l p q] parse_empty[of "p @ l @ [0]" q]
      by (simp add: update_text_simps join_options_simps split: option.split)
  next
    case False
    then have t: "update_text (l # ls) @ [0] = l @ 44 # update_text ls @ [0]" using update_text_append[of "[l]" ls]
      by (simp add: update_text_simps join_options_simps)
    show ?thesis using Cons.IH[OF _ False n(2)] Cons.prems n parse_comma(1)[of l p "update_text ls @ [0]" q]
      unfolding t by (simp split: option.split)
  qed
qed simp

lemma push_digest_loop_lines:
  "list_all line_ok ls \<Longrightarrow> ls \<noteq> [] \<Longrightarrow> length ls < n \<Longrightarrow>
   push_digest_loop n t ctx (buf_of p (update_text ls @ [0]) q) = Some (ctx @ concat (map (\<lambda>l. l @ [0]) (filter (digested t) ls)))"
proof (induction ls arbitrary: n p ctx)
  case (Cons l ls)
  obtain m where n: "n = Suc m" "length ls < m" using Cons.prems(3) by (cases n) auto
  show ?case
  proof (cases "ls = []")
    case True
    obtain m' where "m = Suc m'" using n(2) by (cases m) auto
    then show ?thesis using True Cons.prems n parse_comma(2)[of l p q] parse_empty[of "p @ l @ [0]" q]
      by (simp add: update_text_simps join_options_simps)
  next
    case False
    then have t: "update_text (l # ls) @ [0] = l @ 44 # update_text ls @ [0]" using update_text_append[of "[l]" ls]
      by (simp add: update_text_simps join_options_simps)
    show ?thesis using Cons.IH[OF _ False n(2)] Cons.prems n parse_comma(1)[of l p "update_text ls @ [0]" q]
      unfolding t by simp
  qed
qed simp

lemma lines_length: "length ls \<le> length (update_text ls @ [0])"
proof -
  have "length xs \<le> length (join_options xs)" for xs by (induction xs) (simp_all add: join_options_simps)
  from this[of ls] show ?thesis by (simp add: update_text_def)
qed

lemma apply_push_options_lines:
  assumes "list_all line_ok ls" "ls \<noteq> []"
  shows "apply_push_options u pm (buf_of p (update_text ls @ [0]) q) c = apply_lines u pm ls c"
    "push_update_digest t ctx (buf_of p (update_text ls @ [0]) q) = Some (ctx @ concat (map (\<lambda>l. l @ [0]) (filter (digested t) ls)))"
proof -
  have n: "length ls < nat (buf_len (buf_of p (update_text ls @ [0]) q)) + 1" using lines_length[of ls] by simp
  show "apply_push_options u pm (buf_of p (update_text ls @ [0]) q) c = apply_lines u pm ls c"
    unfolding apply_push_options_def by (rule apply_push_loop_lines[OF assms n])
  show "push_update_digest t ctx (buf_of p (update_text ls @ [0]) q) = Some (ctx @ concat (map (\<lambda>l. l @ [0]) (filter (digested t) ls)))"
    unfolding push_update_digest_def by (rule push_digest_loop_lines[OF assms n])
qed

section \<open>A push message\<close>

definition text_ok :: "byte list \<Rightarrow> bool" where
  "text_ok m \<longleftrightarrow> (\<forall>c\<in>set m. 32 \<le> c \<and> c \<noteq> 127)"

lemma print_class: "32 \<le> c \<and> c \<noteq> 127 \<or> c = 0 \<Longrightarrow> char_inc_exc c (CC_PRINT OR CC_NULL) CC_CRLF"
  by (auto simp: char_inc_exc_def char_class_def cc_tests_def CC_PRINT_def CC_NULL_def CC_CRLF_def CC_CR_def CC_NEWLINE_def)

lemma text_ok_nul: "text_ok m \<Longrightarrow> 0 \<notin> set m"
  by (auto simp: text_ok_def)

lemma text_ok_trim:
  assumes "text_ok m"
  shows "rm_trailing_chars (m @ [0]) [0, 10, 13] = m"
proof -
  have "m = [] \<or> last m \<notin> {0, 10, 13}" using assms last_in_set[of m] by (cases m) (auto simp: text_ok_def)
  then show ?thesis by (subst rm_trailing_chars.simps, subst rm_trailing_chars.simps) auto
qed

lemma extract_command:
  assumes "text_ok m" "length m < 100000"
  obtains q where "extract_command_buffer junk (buf_of p ((m @ [0]) @ rest) q0) = Some (buf_of (p @ m @ [0]) rest q0, buf_of [] (m @ [0]) q)"
proof -
  have s: "c_str ((m @ [0]) @ rest) = m" using c_str_append[OF text_ok_nul[OF assms(1)], of rest] by simp
  have s': "c_str (m @ 0 # rest) = m" using s by simp
  have nn: "nat (1 + int (length m)) = Suc (length m)" by simp
  define d where "d = (map junk [0..<length m + 1])[0 := 0]"
  have d: "alloc_buf_gc junk (length m + 1) = Some (buf_of [] [] d)" "length d = length m + 1"
    using assms(2) by (simp_all add: alloc_buf_gc_def buf_size_valid_def BUF_SIZE_MAX_def buf_of_def d_def Let_def cassert_def)
  have fits: "buf_fits [] (m @ [0]) []" using assms(2) by (simp add: buf_fits_def BUF_SIZE_MAX_def)
  have "buf_fits [] [] d" using assms(2) d(2) by (simp add: buf_fits_def BUF_SIZE_MAX_def)
  then have w: "buf_write (buf_of [] [] d) (m @ [0]) = Some (buf_of [] (m @ [0]) [], True)"
    using d(2) by (simp add: buf_write_of)
  obtain q where q: "buf_chomp (buf_of [] (m @ [0]) []) = Some (buf_of [] (m @ [0]) q)"
    using buf_chomp_of[OF fits] text_ok_trim[OF assms(1)] by auto
  have chk: "string_check_buf (buf_of [] (m @ [0]) q) (CC_PRINT OR CC_NULL) CC_CRLF = Some True"
    using assms(1) print_class by (auto simp: string_check_buf_def buf_bytes_of list_all_iff text_ok_def)
  have "take (Suc (length m)) ((m @ [0]) @ rest) = m @ [0]" by simp
  then have "extract_command_buffer junk (buf_of p ((m @ [0]) @ rest) q0) = Some (buf_of (p @ m @ [0]) rest q0, buf_of [] (m @ [0]) q)"
    using d(1) w q chk unfolding extract_command_buffer_def buf_bytes_of s
    by (simp add: s s' nn Let_def buf_advance_of)
  then show ?thesis by (rule that)
qed

lemma match_head_of: "buf_string_match_head_str (buf_of p c q) name = Some (take (length name) c = name)" if "length name < 100"
  using that by (auto simp: buf_string_match_head_str_def buf_size_valid_def BUF_SIZE_MAX_def buf_load_def mem_read_def dest: arg_cong[where f = length])

lemma join_update: "ls \<noteq> [] \<Longrightarrow> join_options ls = 44 # update_text ls"
  by (cases ls) (simp_all add: join_options_simps update_text_simps)

lemma reply_text_join: "reply_text ls = push_reply_cmd @ join_options ls"
  by (simp add: reply_text_def join_options_def)

lemma reply_is_push: "find_command control_commands (buf_of p (push_reply_cmd @ x) q) = Some PUSH"
  by (simp add: control_commands_def match_head_of ascii_def push_reply_cmd_def)

lemma compare_advance_of:
  assumes "length name < 100"
  shows "buf_string_compare_advance (buf_of p c q) name =
    Some (if take (length name) c = name then (buf_of (p @ name) (drop (length name) c) q, True) else (buf_of p c q, False))"
proof (cases "take (length name) c = name")
  case True
  then have "length name \<le> length c" by (metis length_take min.cobounded1)
  moreover have "c = name @ drop (length name) c" using True by (metis append_take_drop_id)
  ultimately show ?thesis using True assms by (simp add: buf_string_compare_advance_def match_head_of buf_advance_of)
next
  case False
  then show ?thesis using assms by (simp add: buf_string_compare_advance_def match_head_of)
qed

lemma reply_dispatch:
  "process_incoming_push_msg sha256 request True pm (buf_of [] (push_reply_cmd @ x) q) c =
   process_incoming_push_reply sha256 pm (buf_of push_reply_cmd x q) c"
proof -
  have "take (length (ascii ''PUSH_REQUEST'')) (push_reply_cmd @ x) \<noteq> ascii ''PUSH_REQUEST''" "length (ascii ''PUSH_REQUEST'') < 100"
    by (simp_all add: ascii_def push_reply_cmd_def)
  then have "buf_string_compare_advance (buf_of [] (push_reply_cmd @ x) q) (ascii ''PUSH_REQUEST'') =
      Some (buf_of [] (push_reply_cmd @ x) q, False)" by (simp add: compare_advance_of)
  moreover have "buf_string_compare_advance (buf_of [] (push_reply_cmd @ x) q) push_reply_cmd = Some (buf_of push_reply_cmd x q, True)"
    by (simp add: compare_advance_of push_texts)
  ultimately show ?thesis by (simp add: process_incoming_push_msg_def)
qed

text \<open>What a client makes of the lines of a reply.\<close>

definition finish_reply_lines :: "(byte list \<Rightarrow> byte list) \<Rightarrow> byte list list \<Rightarrow> pull_client \<Rightarrow> pull_client \<times> push_msg" where
  "finish_reply_lines sha256 ls c =
     (let ctx = the (pc_pulled_options_state c) @ concat (map (\<lambda>l. l @ [0]) (filter (digested (pc_tun_mtu_defined c)) ls));
          c = c\<lparr>pc_pulled_options_state := Some ctx\<rparr>
      in if pc_push_continuation c = 0 \<or> pc_push_continuation c = 1
         then (c\<lparr>pc_pulled_options_state := None, pc_pulled_options_digest := sha256 ctx\<rparr>, PUSH_MSG_REPLY)
         else if pc_push_continuation c = 2 then (c, PUSH_MSG_CONTINUATION) else (c, PUSH_MSG_ERROR))"

definition start_digest :: "pull_client \<Rightarrow> pull_client" where
  "start_digest c = (if pc_pulled_options_state c = None then c\<lparr>pc_pulled_options_state := Some []\<rparr> else c)"

lemma push_reply_lines:
  assumes "list_all line_ok ls" "ls \<noteq> []" "apply_lines False pm ls (start_digest c) = Some (c', True)"
  shows "process_incoming_push_reply sha256 pm (buf_of p (join_options ls @ [0]) q) c = Some (finish_reply_lines sha256 ls c')"
proof -
  have "buf_read_u8 (buf_of p (join_options ls @ [0]) q) = Some (buf_of (p @ [44]) (update_text ls @ [0]) q, 44)"
    using assms(2) by (simp add: join_update buf_read_u8_def buf_peek_u8_of buf_advance_of)
  then show ?thesis
    using apply_push_options_lines[OF assms(1,2)] assms(3)
    by (simp add: process_incoming_push_reply_def start_digest_def[symmetric] finish_reply_lines_def Let_def)
qed

lemma receive_reply_lines:
  assumes "list_all line_ok ls" "ls \<noteq> []" "pc_pull c" "apply_lines False (pull_permission_mask c) ls (start_digest c) = Some (c', True)"
    "finish_reply_lines sha256 ls c' = (c'', status)"
  shows "parse_incoming_control_channel_command sha256 request (buf_of [] (reply_text ls @ [0]) q) c = Some (c''\<lparr>pc_log := pc_log c'' @ [status]\<rparr>)"
  using push_reply_lines[OF assms(1,2,4)] assms(3,5)
  by (simp add: parse_incoming_control_channel_command_def reply_text_join reply_is_push incoming_push_message_def reply_dispatch)

lemma receive_empty_reply:
  assumes "pc_pull c"
  shows "parse_incoming_control_channel_command sha256 request (buf_of [] (reply_text [] @ [0]) q) c = Some (c\<lparr>pc_log := pc_log c @ [PUSH_MSG_REPLY]\<rparr>)"
  using assms
  by (simp add: parse_incoming_control_channel_command_def reply_text_join join_options_simps reply_is_push incoming_push_message_def
      reply_dispatch process_incoming_push_reply_def buf_read_u8_def buf_peek_u8_of buf_advance_of)

section \<open>The options of a message\<close>

definition option_params :: "pull_filter list \<Rightarrow> byte list \<Rightarrow> byte list list list" where
  "option_params fs l =
     (let (r, p) = parse_line MAX_PARMS (snd (apply_pull_filter fs (dropWhile c_isspace l))) in if r = 0 then [] else [p])"

definition accepted :: "pull_filter list \<Rightarrow> byte list \<Rightarrow> bool" where
  "accepted fs l = fst (apply_pull_filter fs (dropWhile c_isspace l))"

definition no_continuation :: "pull_filter list \<Rightarrow> byte list \<Rightarrow> bool" where
  "no_continuation fs l = list_all (\<lambda>p. p = [] \<or> hd p \<noteq> push_continuation_name) (option_params fs l)"

lemma apply_reply_line:
  assumes "accepted (pc_pull_filter_list c) l" "no_continuation (pc_pull_filter_list c) l"
  shows "apply_push_line False pm l c =
    Some (Some (c\<lparr>pc_calls := pc_calls c @ map Add_option (option_params (pc_pull_filter_list c) l)\<rparr>))"
proof -
  obtain line where f: "apply_pull_filter (pc_pull_filter_list c) (dropWhile c_isspace l) = (True, line)"
    using assms(1) by (cases "apply_pull_filter (pc_pull_filter_list c) (dropWhile c_isspace l)") (auto simp: accepted_def)
  obtain r p where p: "parse_line MAX_PARMS line = (r, p)" by fastforce
  have nc: "r \<noteq> 0 \<Longrightarrow> p = [] \<or> hd p \<noteq> push_continuation_name"
    using assms(2) f p by (simp add: no_continuation_def option_params_def)
  show ?thesis
    using f p nc by (cases "r = 0") (auto simp: apply_push_line_def option_params_def dropWhile_eq_drop[symmetric] add_option_def set_push_continuation_def)
qed

lemma apply_reply_lines:
  assumes "list_all (accepted fs) ls" "list_all (no_continuation fs) ls"
  shows "pc_pull_filter_list c = fs \<Longrightarrow> apply_lines False pm (ls @ rest) c =
    apply_lines False pm rest (c\<lparr>pc_calls := pc_calls c @ map Add_option (concat (map (option_params fs) ls))\<rparr>)"
  using assms
proof (induction ls arbitrary: c)
  case (Cons l ls)
  then show ?case using apply_reply_line[of c l pm] by simp
qed simp

text \<open>The lines that count the messages.\<close>

definition continuation_line :: "byte \<Rightarrow> byte list" where
  "continuation_line d = push_continuation_name @ [32, d]"

lemma continuation_lines: "continuation_1 = 44 # continuation_line 49" "continuation_2 = 44 # continuation_line 50"
  by (simp_all add: continuation_1_def continuation_2_def continuation_line_def push_continuation_name_def ascii_def)

lemma continuation_line_ok: "d = 49 \<or> d = 50 \<Longrightarrow> line_ok (continuation_line d)"
  by (auto simp: line_ok_def continuation_line_def push_continuation_name_def ascii_def)

lemma push_continuation_chars: "push_continuation_name = [112, 117, 115, 104, 45, 99, 111, 110, 116, 105, 110, 117, 97, 116, 105, 111, 110]"
  by (simp add: push_continuation_name_def ascii_def)

lemma parse_continuation_line:
  assumes "d = 49 \<or> d = 50"
  shows "parse_line MAX_PARMS (continuation_line d) = (2, [push_continuation_name, [d]])"
proof -
  let ?n = "push_continuation_name"
  have sp: "\<not> c_isspace d" "d \<noteq> 92" using assms by (auto simp: c_isspace_def)
  have w: "spell_word [d] = [d]" using sp by (simp add: spell_word_def)
  have "line_spells (spell_word [d] @ []) ([d] # [])"
    using assms sp by (intro line_spells.word line_spells.empty) (auto simp: word_ok_def)
  then have "line_spells (32 # [d]) [[d]]" unfolding w append_Nil2 by (rule line_spells.blank[rotated]) (simp add: c_isspace_def)
  then have "line_spells (spell_word ?n @ 32 # [d]) (?n # [[d]])"
    by (rule line_spells.word[rotated]) (simp_all add: c_isspace_def word_ok_def push_continuation_chars)
  moreover have "spell_word ?n = ?n" by (simp add: spell_word_def push_continuation_chars c_isspace_def)
  moreover have "params_ok [?n, [d]]" using assms by (auto simp: params_ok_def push_continuation_chars OPTION_PARM_SIZE_def)
  ultimately show ?thesis using parse_line_spelled_lines[of "?n @ [32, d]" "[?n, [d]]" MAX_PARMS]
    by (simp add: continuation_line_def MAX_PARMS_def)
qed

lemma apply_continuation_line:
  assumes "d = 49 \<or> d = 50" "apply_pull_filter (pc_pull_filter_list c) (continuation_line d) = (True, continuation_line d)"
    "OPT_P_PULL_MODE AND pm \<noteq> 0"
  shows "apply_push_line False pm (continuation_line d) c =
    Some (Some (c\<lparr>pc_calls := pc_calls c @ [Add_option [push_continuation_name, [d]]], pc_push_continuation := uint d - 48\<rparr>))"
proof -
  have sp: "takeWhile c_isspace (continuation_line d) = []"
    by (simp add: continuation_line_def push_continuation_chars c_isspace_def)
  have "atoi_constrained [d] v 0 2 = Some (uint d - 48, True)" for v
    using assms(1) by (auto simp: atoi_constrained_def c_strtoll_def c_isspace_def c_isdigit_def c_digits_def
        LLONG_MIN_def LLONG_MAX_def INT_MIN_def INT_MAX_def cassert_def Let_def)
  then show ?thesis using assms parse_continuation_line[OF assms(1)] sp
    by (simp add: apply_push_line_def add_option_def set_push_continuation_def)
qed

lemma pull_mask: "OPT_P_PULL_MODE AND pull_permission_mask c \<noteq> 0"
proof -
  have "bit (pull_permission_mask c) 23" by (simp add: pull_permission_mask_def bit_simps Let_def)
  then have "bit (OPT_P_PULL_MODE AND pull_permission_mask c) 23" by (simp add: OPT_P_PULL_MODE_def bit_simps)
  then show ?thesis by auto
qed

section \<open>A whole reply\<close>

text \<open>The lines of the messages of a reply.\<close>

definition reply_lines :: "byte list list list \<Rightarrow> byte list list \<Rightarrow> byte list list list" where
  "reply_lines bs cur = map (\<lambda>b. b @ [continuation_line 50]) bs @ [cur @ (if bs = [] then [] else [continuation_line 49])]"

lemma reply_messages_lines: "reply_messages bs cur = map reply_text (reply_lines bs cur)"
  by (simp add: reply_messages_def reply_lines_def continuation_lines reply_text_def)

text \<open>The payloads a client reads from the control channel: some messages each.\<close>

definition payload_of :: "byte list list \<Rightarrow> byte list" where
  "payload_of ms = concat (map (\<lambda>m. m @ [0]) ms)"

fun receive_payloads :: "(nat \<Rightarrow> byte) \<Rightarrow> (byte list \<Rightarrow> byte list) \<Rightarrow> (pull_client \<Rightarrow> pull_client \<times> push_msg) \<Rightarrow> byte list list \<Rightarrow> pull_client \<Rightarrow> pull_client option" where
  "receive_payloads junk sha256 request [] c = Some c"
| "receive_payloads junk sha256 request (p # ps) c = do {
     c \<leftarrow> check_incoming_control_channel junk sha256 request p c;
     receive_payloads junk sha256 request ps c }"

text \<open>The same for a list of messages.\<close>

fun receive_messages :: "(byte list \<Rightarrow> byte list) \<Rightarrow> (pull_client \<Rightarrow> pull_client \<times> push_msg) \<Rightarrow> byte list list \<Rightarrow> pull_client \<Rightarrow> pull_client option \<Rightarrow> bool" where
  "receive_messages sha256 request [] c r \<longleftrightarrow> r = Some c"
| "receive_messages sha256 request (m # ms) c r \<longleftrightarrow>
     (\<exists>c'. (\<forall>q. parse_incoming_control_channel_command sha256 request (buf_of [] (m @ [0]) q) c = Some c') \<and>
       receive_messages sha256 request ms c' r)"

lemma receive_messages_append:
  "receive_messages sha256 request (xs @ ys) c r \<longleftrightarrow> (\<exists>c'. receive_messages sha256 request xs c (Some c') \<and> receive_messages sha256 request ys c' r)"
  by (induction xs arbitrary: c) auto

definition message_ok :: "byte list \<Rightarrow> bool" where
  "message_ok m \<longleftrightarrow> text_ok m \<and> m \<noteq> [] \<and> length m < PUSH_BUNDLE_SIZE"

lemma control_channel_messages:
  "list_all message_ok ms \<Longrightarrow> receive_messages sha256 request ms c (Some c') \<Longrightarrow> length (payload_of ms) \<le> n \<Longrightarrow> 0 < n \<Longrightarrow>
   control_channel_loop n junk sha256 request (buf_of p (payload_of ms) q) c = Some c'"
proof (induction ms arbitrary: n p c)
  case Nil
  then obtain m where "n = Suc m" by (cases n) auto
  then show ?case using Nil by (simp add: payload_of_def)
next
  case (Cons m ms)
  have m: "text_ok m" "m \<noteq> []" "length m < 100000" using Cons.prems(1) by (simp_all add: message_ok_def PUSH_BUNDLE_SIZE_def)
  obtain k where n: "n = Suc k" "length (payload_of ms) < k" using Cons.prems(3,4) m(2) by (cases n) (auto simp: payload_of_def neq_Nil_conv)
  obtain c1 where c1: "\<And>q. parse_incoming_control_channel_command sha256 request (buf_of [] (m @ [0]) q) c = Some c1"
    "receive_messages sha256 request ms c1 (Some c')" using Cons.prems(2) by auto
  obtain q1 where "extract_command_buffer junk (buf_of p ((m @ [0]) @ payload_of ms) q) = Some (buf_of (p @ m @ [0]) (payload_of ms) q, buf_of [] (m @ [0]) q1)"
    using m(1,3) by (rule extract_command)
  moreover have "control_channel_loop k junk sha256 request (buf_of (p @ m @ [0]) (payload_of ms) q) c1 = Some c'"
    using Cons.prems(1) c1(2) n(2) by (intro Cons.IH) auto
  moreover have "payload_of (m # ms) = (m @ [0]) @ payload_of ms" by (simp add: payload_of_def)
  moreover have "0 < int (length m) + int (length (payload_of ms))" using m(2) by (cases m) auto
  ultimately show ?case using c1(1) by (simp add: n)
qed

lemma check_channel_messages:
  assumes "list_all message_ok ms" "ms \<noteq> []" "receive_messages sha256 request ms c (Some c')" "length (payload_of ms) < 1000000"
  shows "check_incoming_control_channel junk sha256 request (payload_of ms) c = Some c'"
proof -
  let ?n = "length (payload_of ms)"
  have n: "0 < ?n" using assms(2) by (cases ms) (simp_all add: payload_of_def)
  define d where "d = (map junk [0..<?n])[0 := 0]"
  have d: "alloc_buf_gc junk ?n = Some (buf_of [] [] d)" "length d = ?n"
    using n assms(4) by (simp_all add: alloc_buf_gc_def buf_size_valid_def BUF_SIZE_MAX_def buf_of_def d_def Let_def cassert_def)
  have "buf_fits [] [] d" using assms(4) d(2) by (simp add: buf_fits_def BUF_SIZE_MAX_def)
  then have "buf_write (buf_of [] [] d) (payload_of ms) = Some (buf_of [] (payload_of ms) [], True)"
    using d(2) by (simp add: buf_write_of)
  then show ?thesis using d n control_channel_messages[OF assms(1,3), of ?n junk "[]" "[]"]
    by (simp add: check_incoming_control_channel_def cassert_def)
qed

lemma receive_payloads_messages:
  assumes "list_all (list_all message_ok) chunks" "[] \<notin> set chunks" "list_all (\<lambda>ms. length (payload_of ms) < 1000000) chunks"
  shows "receive_messages sha256 request (concat chunks) c (Some c') \<Longrightarrow>
    receive_payloads junk sha256 request (map payload_of chunks) c = Some c'"
  using assms
proof (induction chunks arbitrary: c)
  case (Cons ms chunks)
  obtain c1 where c1: "receive_messages sha256 request ms c (Some c1)" "receive_messages sha256 request (concat chunks) c1 (Some c')"
    using Cons.prems(1) by (auto simp: receive_messages_append)
  have "check_incoming_control_channel junk sha256 request (payload_of ms) c = Some c1"
    using Cons.prems c1(1) by (intro check_channel_messages) auto
  then show ?case using Cons.IH[OF c1(2)] Cons.prems by simp
qed simp

text \<open>A client that waits for the messages of a reply, with the calls it has made without those that count the
  messages.\<close>

definition continuation_call :: "option_call \<Rightarrow> bool" where
  "continuation_call k \<longleftrightarrow> (\<exists>d\<in>{49, 50}. k = Add_option [push_continuation_name, [d]])"

definition other_calls :: "pull_client \<Rightarrow> option_call list" where
  "other_calls c = filter (\<lambda>k. \<not> continuation_call k) (pc_calls c)"

definition filters_pass :: "pull_filter list \<Rightarrow> byte list list \<Rightarrow> bool" where
  "filters_pass fs opts \<longleftrightarrow> list_all (accepted fs) opts \<and> list_all (no_continuation fs) opts \<and>
     list_all (\<lambda>l. apply_pull_filter fs l = (True, l)) [continuation_line 49, continuation_line 50]"

definition called :: "pull_filter list \<Rightarrow> byte list list \<Rightarrow> option_call list" where
  "called fs opts = map Add_option (concat (map (option_params fs) opts))"

lemma called_no_continuation:
  "list_all (no_continuation fs) opts \<Longrightarrow> filter (\<lambda>k. \<not> continuation_call k) (called fs opts) = called fs opts"
  by (rule filter_True) (fastforce simp: called_def continuation_call_def no_continuation_def list_all_iff)

lemma continuation_call_line: "d \<in> {49, 50} \<Longrightarrow> continuation_call (Add_option [push_continuation_name, [d]])"
  by (auto simp: continuation_call_def)

lemma finish_shape:
  obtains s dig where "finish_reply_lines sha256 ls c = (c\<lparr>pc_pulled_options_state := s, pc_pulled_options_digest := dig\<rparr>,
     if pc_push_continuation c = 0 \<or> pc_push_continuation c = 1 then PUSH_MSG_REPLY
     else if pc_push_continuation c = 2 then PUSH_MSG_CONTINUATION else PUSH_MSG_ERROR)"
proof (cases "pc_push_continuation c = 0 \<or> pc_push_continuation c = 1")
  case True
  then show ?thesis by (intro that) (simp add: finish_reply_lines_def Let_def)
next
  case False
  have "c\<lparr>pc_pulled_options_state := s\<rparr> = c\<lparr>pc_pulled_options_state := s, pc_pulled_options_digest := pc_pulled_options_digest c\<rparr>" for s
    by (cases c) simp
  with False show ?thesis by (intro that[where dig = "pc_pulled_options_digest c"]) (simp add: finish_reply_lines_def Let_def)
qed

text \<open>Receiving one message.\<close>

lemma receive_message:
  assumes "filters_pass (pc_pull_filter_list c) ls" "list_all line_ok ls" "pc_pull c"
    "d = 49 \<or> d = 50"
  obtains c' where
    "\<And>q. parse_incoming_control_channel_command sha256 request (buf_of [] (reply_text (ls @ [continuation_line d]) @ [0]) q) c = Some c'"
    "pc_pull c'" "pc_pull_filter_list c' = pc_pull_filter_list c" "pc_push_continuation c' = uint d - 48" "pc_sigusr1 c' = pc_sigusr1 c"
    "other_calls c' = other_calls c @ called (pc_pull_filter_list c) ls"
    "pc_log c' = pc_log c @ [if d = 50 then PUSH_MSG_CONTINUATION else PUSH_MSG_REPLY]"
proof -
  let ?fs = "pc_pull_filter_list c" and ?pm = "pull_permission_mask c"
  have p: "list_all (accepted ?fs) ls" "list_all (no_continuation ?fs) ls" "apply_pull_filter ?fs (continuation_line d) = (True, continuation_line d)"
    using assms(1,4) by (auto simp: filters_pass_def)
  have s: "pc_pull_filter_list (start_digest c) = ?fs" "pc_calls (start_digest c) = pc_calls c" by (simp_all add: start_digest_def)
  define c1 where "c1 = (start_digest c)\<lparr>pc_calls := pc_calls c @ called ?fs ls\<rparr>"
  define c2 where "c2 = c1\<lparr>pc_calls := pc_calls c1 @ [Add_option [push_continuation_name, [d]]], pc_push_continuation := uint d - 48\<rparr>"
  have "apply_lines False ?pm (ls @ [continuation_line d]) (start_digest c) = Some (c2, True)"
    using apply_reply_lines[OF p(1,2) s(1), of ?pm "[continuation_line d]"] apply_continuation_line[OF assms(4), of c1 ?pm] p(3) s pull_mask
    by (simp add: c1_def c2_def called_def)
  moreover obtain s' dig where "finish_reply_lines sha256 (ls @ [continuation_line d]) c2 = (c2\<lparr>pc_pulled_options_state := s', pc_pulled_options_digest := dig\<rparr>,
     if pc_push_continuation c2 = 0 \<or> pc_push_continuation c2 = 1 then PUSH_MSG_REPLY
     else if pc_push_continuation c2 = 2 then PUSH_MSG_CONTINUATION else PUSH_MSG_ERROR)" by (rule finish_shape)
  moreover define c3 where "c3 = c2\<lparr>pc_pulled_options_state := s', pc_pulled_options_digest := dig\<rparr>"
  moreover have "(if pc_push_continuation c2 = 0 \<or> pc_push_continuation c2 = 1 then PUSH_MSG_REPLY
     else if pc_push_continuation c2 = 2 then PUSH_MSG_CONTINUATION else PUSH_MSG_ERROR) = (if d = 50 then PUSH_MSG_CONTINUATION else PUSH_MSG_REPLY)"
    using assms(4) by (auto simp: c2_def)
  ultimately have r: "parse_incoming_control_channel_command sha256 request (buf_of [] (reply_text (ls @ [continuation_line d]) @ [0]) q) c =
      Some (c3\<lparr>pc_log := pc_log c3 @ [if d = 50 then PUSH_MSG_CONTINUATION else PUSH_MSG_REPLY]\<rparr>)" for q
    using assms(2,3) continuation_line_ok[OF assms(4)] by (intro receive_reply_lines) auto
  have sel: "pc_pull c3 = pc_pull c" "pc_pull_filter_list c3 = ?fs" "pc_push_continuation c3 = uint d - 48" "pc_sigusr1 c3 = pc_sigusr1 c"
      "pc_log c3 = pc_log c" "pc_calls c3 = pc_calls c @ called ?fs ls @ [Add_option [push_continuation_name, [d]]]"
    by (simp_all add: c3_def c2_def c1_def start_digest_def)
  then have "other_calls c3 = other_calls c @ called ?fs ls"
    using called_no_continuation[OF p(2)] continuation_call_line[of d] assms(4) by (auto simp: other_calls_def)
  then show ?thesis by (intro that[OF r]) (use sel assms(3) in \<open>simp_all add: other_calls_def\<close>)
qed

text \<open>A reply in one message has no line that counts.\<close>

lemma receive_single:
  assumes "filters_pass (pc_pull_filter_list c) ls" "list_all line_ok ls" "pc_pull c" "pc_push_continuation c = 0"
  obtains c' where "\<And>q. parse_incoming_control_channel_command sha256 request (buf_of [] (reply_text ls @ [0]) q) c = Some c'"
    "pc_sigusr1 c' = pc_sigusr1 c" "other_calls c' = other_calls c @ called (pc_pull_filter_list c) ls"
    "pc_log c' = pc_log c @ [PUSH_MSG_REPLY]"
proof (cases "ls = []")
  case True
  then show ?thesis using receive_empty_reply[OF assms(3), of sha256 request]
    by (intro that[of "c\<lparr>pc_log := pc_log c @ [PUSH_MSG_REPLY]\<rparr>"]) (simp_all add: other_calls_def called_def)
next
  case False
  let ?fs = "pc_pull_filter_list c" and ?pm = "pull_permission_mask c"
  have p: "list_all (accepted ?fs) ls" "list_all (no_continuation ?fs) ls" using assms(1) by (simp_all add: filters_pass_def)
  have s: "pc_pull_filter_list (start_digest c) = ?fs" "pc_calls (start_digest c) = pc_calls c" by (simp_all add: start_digest_def)
  define c1 where "c1 = (start_digest c)\<lparr>pc_calls := pc_calls c @ called ?fs ls\<rparr>"
  have "apply_lines False ?pm ls (start_digest c) = Some (c1, True)"
    using apply_reply_lines[OF p s(1), of ?pm "[]"] s by (simp add: c1_def called_def)
  moreover obtain s' dig where "finish_reply_lines sha256 ls c1 = (c1\<lparr>pc_pulled_options_state := s', pc_pulled_options_digest := dig\<rparr>,
     if pc_push_continuation c1 = 0 \<or> pc_push_continuation c1 = 1 then PUSH_MSG_REPLY
     else if pc_push_continuation c1 = 2 then PUSH_MSG_CONTINUATION else PUSH_MSG_ERROR)" by (rule finish_shape)
  moreover define c3 where "c3 = c1\<lparr>pc_pulled_options_state := s', pc_pulled_options_digest := dig\<rparr>"
  moreover have "pc_push_continuation c1 = 0" using assms(4) by (simp add: c1_def start_digest_def)
  ultimately have r: "parse_incoming_control_channel_command sha256 request (buf_of [] (reply_text ls @ [0]) q) c =
      Some (c3\<lparr>pc_log := pc_log c3 @ [PUSH_MSG_REPLY]\<rparr>)" for q
    using assms(2,3) False by (intro receive_reply_lines) auto
  have sel: "pc_sigusr1 c3 = pc_sigusr1 c" "pc_log c3 = pc_log c" "pc_calls c3 = pc_calls c @ called ?fs ls"
    by (simp_all add: c3_def c1_def start_digest_def)
  then have "other_calls c3 = other_calls c @ called ?fs ls"
    using called_no_continuation[OF p(2)] by (simp add: other_calls_def)
  then show ?thesis by (intro that[OF r]) (use sel in \<open>simp_all add: other_calls_def\<close>)
qed

lemma filters_pass_append: "filters_pass fs (xs @ ys) \<longleftrightarrow> filters_pass fs xs \<and> filters_pass fs ys"
  by (auto simp: filters_pass_def)

lemma receive_bundles:
  "pc_pull_filter_list c = fs \<Longrightarrow> list_all (filters_pass fs) bs \<Longrightarrow> list_all (list_all line_ok) bs \<Longrightarrow> pc_pull c \<Longrightarrow>
   \<exists>c'. receive_messages sha256 request (map (\<lambda>b. reply_text (b @ [continuation_line 50])) bs) c (Some c') \<and>
     pc_pull c' \<and> pc_pull_filter_list c' = fs \<and> pc_sigusr1 c' = pc_sigusr1 c \<and> (bs \<noteq> [] \<or> pc_push_continuation c' = pc_push_continuation c) \<and>
     other_calls c' = other_calls c @ called fs (concat bs) \<and>
     pc_log c' = pc_log c @ replicate (length bs) PUSH_MSG_CONTINUATION"
proof (induction bs arbitrary: c)
  case Nil
  then show ?case by (simp add: called_def)
next
  case (Cons b bs)
  have pass: "filters_pass (pc_pull_filter_list c) b" using Cons.prems(1,2) by simp
  obtain c1 where c1: "\<And>q. parse_incoming_control_channel_command sha256 request (buf_of [] (reply_text (b @ [continuation_line 50]) @ [0]) q) c = Some c1"
      "pc_pull c1" "pc_pull_filter_list c1 = pc_pull_filter_list c" "pc_sigusr1 c1 = pc_sigusr1 c"
      "other_calls c1 = other_calls c @ called (pc_pull_filter_list c) b" "pc_log c1 = pc_log c @ [if (50 :: byte) = 50 then PUSH_MSG_CONTINUATION else PUSH_MSG_REPLY]"
    by (rule receive_message[OF pass _ Cons.prems(4), where d = 50 and ?sha256.0 = sha256 and request = request]) (use Cons.prems(3) in simp_all)
  obtain c' where "receive_messages sha256 request (map (\<lambda>b. reply_text (b @ [continuation_line 50])) bs) c1 (Some c')"
      "pc_pull c'" "pc_pull_filter_list c' = fs" "pc_sigusr1 c' = pc_sigusr1 c1" "other_calls c' = other_calls c1 @ called fs (concat bs)"
      "pc_log c' = pc_log c1 @ replicate (length bs) PUSH_MSG_CONTINUATION"
    using Cons.IH[of c1] Cons.prems c1(2,3) by auto
  then show ?case using c1 Cons.prems(1) by (intro exI[of _ c']) (auto simp: called_def)
qed

lemma receive_reply_messages:
  assumes "pc_pull_filter_list c = fs" "filters_pass fs (concat bs @ cur)" "list_all line_ok (concat bs @ cur)" "pc_pull c" "pc_push_continuation c = 0"
  obtains c' where "receive_messages sha256 request (reply_messages bs cur) c (Some c')" "pc_sigusr1 c' = pc_sigusr1 c"
    "other_calls c' = other_calls c @ called fs (concat bs @ cur)"
    "pc_log c' = pc_log c @ replicate (length bs) PUSH_MSG_CONTINUATION @ [PUSH_MSG_REPLY]"
proof -
  have bs: "list_all (filters_pass fs) bs" "list_all (list_all line_ok) bs" and cur: "filters_pass fs cur" "list_all line_ok cur"
    using assms(2,3) by (auto simp: filters_pass_def list_all_iff)
  obtain c1 where c1: "receive_messages sha256 request (map (\<lambda>b. reply_text (b @ [continuation_line 50])) bs) c (Some c1)"
     "pc_pull c1" "pc_pull_filter_list c1 = fs" "pc_sigusr1 c1 = pc_sigusr1 c" "bs \<noteq> [] \<or> pc_push_continuation c1 = pc_push_continuation c"
     "other_calls c1 = other_calls c @ called fs (concat bs)" "pc_log c1 = pc_log c @ replicate (length bs) PUSH_MSG_CONTINUATION"
    using receive_bundles[OF assms(1) bs assms(4)] by blast
  have cur1: "filters_pass (pc_pull_filter_list c1) cur" using cur(1) c1(3) by simp
  obtain c' where c': "\<And>q. parse_incoming_control_channel_command sha256 request
        (buf_of [] (reply_text (cur @ (if bs = [] then [] else [continuation_line 49])) @ [0]) q) c1 = Some c'"
      "pc_sigusr1 c' = pc_sigusr1 c1" "other_calls c' = other_calls c1 @ called fs cur" "pc_log c' = pc_log c1 @ [PUSH_MSG_REPLY]"
  proof (cases "bs = []")
    case True
    then have "pc_push_continuation c1 = 0" using c1(5) assms(5) by simp
    obtain c2 where "\<And>q. parse_incoming_control_channel_command sha256 request (buf_of [] (reply_text cur @ [0]) q) c1 = Some c2"
        "pc_sigusr1 c2 = pc_sigusr1 c1" "other_calls c2 = other_calls c1 @ called (pc_pull_filter_list c1) cur" "pc_log c2 = pc_log c1 @ [PUSH_MSG_REPLY]"
      by (rule receive_single[OF cur1 cur(2) c1(2) \<open>pc_push_continuation c1 = 0\<close>, where ?sha256.0 = sha256 and request = request]) simp
    then show ?thesis using True c1(3) by (intro that[of c2]) simp_all
  next
    case False
    obtain c2 where "\<And>q. parse_incoming_control_channel_command sha256 request (buf_of [] (reply_text (cur @ [continuation_line 49]) @ [0]) q) c1 = Some c2"
        "pc_sigusr1 c2 = pc_sigusr1 c1" "other_calls c2 = other_calls c1 @ called (pc_pull_filter_list c1) cur"
        "pc_log c2 = pc_log c1 @ [if (49 :: byte) = 50 then PUSH_MSG_CONTINUATION else PUSH_MSG_REPLY]"
      by (rule receive_message[OF cur1 cur(2) c1(2), where d = 49 and ?sha256.0 = sha256 and request = request]) simp_all
    then show ?thesis using False c1(3) by (intro that[of c2]) simp_all
  qed
  show ?thesis
  proof (rule that[of c'])
    show "receive_messages sha256 request (reply_messages bs cur) c (Some c')"
      unfolding reply_messages_lines reply_lines_def using c1(1) c'(1) by (auto simp: receive_messages_append comp_def)
    show "other_calls c' = other_calls c @ called fs (concat bs @ cur)" using c'(3) c1(6) by (simp add: called_def)
  qed (use c' c1 in simp_all)
qed

lemma reply_messages_ok:
  assumes "list_all line_ok (concat bs @ cur)" "list_all text_ok (concat bs @ cur)" "\<forall>b\<in>set (bs @ [cur]). length (reply_text b) < 941"
  shows "list_all message_ok (reply_messages bs cur)"
proof -
  have t: "text_ok push_reply_cmd" "text_ok continuation_1" "text_ok continuation_2"
    by (simp_all add: text_ok_def push_reply_cmd_def continuation_1_def continuation_2_def ascii_def)
  have r: "text_ok (reply_text b)" if "list_all text_ok b" for b
    using that t(1) by (auto simp: reply_text_def text_ok_def list_all_iff)
  have "message_ok (reply_text b @ k)" if "b \<in> set (bs @ [cur])" "k \<in> {[], continuation_1, continuation_2}" for b k
  proof -
    have "list_all text_ok b" using that(1) assms(2) by (auto simp: list_all_iff)
    moreover have "reply_text b \<noteq> []" by (simp add: reply_text_def push_reply_cmd_def ascii_def)
    moreover have "length (reply_text b) < 941" using that(1) assms(3) by blast
    moreover have "text_ok k" "length k \<le> 20" using that(2) t push_texts by (auto simp: text_ok_def)
    ultimately show ?thesis using r[of b] by (auto simp: message_ok_def PUSH_BUNDLE_SIZE_def text_ok_def)
  qed
  then show ?thesis by (auto simp: reply_messages_def list_all_iff)
qed

section \<open>Properties of pushed options\<close>

text \<open>C8: The options that the server pushes reach the client, if each is printable, has no comma, is shorter
  than 255 bytes, passes the client's filters and is no \<open>push-continuation\<close> itself, and the client pulls
  and is not waiting for a continuation: however the options are divided into messages and the messages
  into payloads, the client adds the enabled options of the two lists, in their order and read as the
  lines of a configuration, every message but the last one is a continuation, and no restart is asked
  for.  Longer options are sent but split on arrival (\<open>long_option_split\<close>).\<close>

theorem push_reply_roundtrip:
  assumes "opts = enabled_options (g @ c)" "list_all line_ok opts" "list_all text_ok opts"
    "filters_pass (pc_pull_filter_list cl) opts" "pc_pull cl" "pc_push_continuation cl = 0"
    "send_push_reply take_all junk g c [] = Some (concat chunks, True)" "[] \<notin> set chunks"
    "list_all (\<lambda>ms. length (payload_of ms) < 1000000) chunks"
  shows "\<exists>cl'. receive_payloads junk' sha256 request (map payload_of chunks) cl = Some cl' \<and>
    other_calls cl' = other_calls cl @ called (pc_pull_filter_list cl) opts \<and>
    pc_log cl' = pc_log cl @ replicate (length (concat chunks) - 1) PUSH_MSG_CONTINUATION @ [PUSH_MSG_REPLY] \<and>
    pc_sigusr1 cl' = pc_sigusr1 cl"
proof -
  have short: "short_options (g @ c)" using assms(1,2) by (auto simp: short_options_def line_ok_def list_all_iff)
  obtain bs cur where r: "send_push_reply take_all junk g c [] = Some ([] @ reply_messages bs cur, True)"
    "concat bs @ cur = enabled_options (g @ c)" "\<forall>b\<in>set (bs @ [cur]). length (reply_text b) < 941"
    using short by (rule send_push_reply_messages)
  then have ms: "concat chunks = reply_messages bs cur" using assms(7) by simp
  have opts: "concat bs @ cur = opts" using r(2) assms(1) by simp
  obtain cl' where cl': "receive_messages sha256 request (reply_messages bs cur) cl (Some cl')" "pc_sigusr1 cl' = pc_sigusr1 cl"
     "other_calls cl' = other_calls cl @ called (pc_pull_filter_list cl) (concat bs @ cur)"
     "pc_log cl' = pc_log cl @ replicate (length bs) PUSH_MSG_CONTINUATION @ [PUSH_MSG_REPLY]"
    by (rule receive_reply_messages[OF refl _ _ assms(5,6), of bs cur]) (use assms(2,4) opts in simp_all)
  have ok: "list_all message_ok (concat chunks)" unfolding ms by (rule reply_messages_ok) (use assms(2,3) opts r(3) in simp_all)
  then have all: "list_all (list_all message_ok) chunks" by (auto simp: list_all_iff)
  have "receive_payloads junk' sha256 request (map payload_of chunks) cl = Some cl'"
    by (rule receive_payloads_messages) (use all assms(8,9) cl'(1) ms in simp_all)
  moreover have "length (concat chunks) - 1 = length bs" by (simp add: ms reply_messages_def)
  ultimately show ?thesis using cl' opts by auto
qed

definition example_client :: pull_client where
  "example_client = \<lparr>pc_pull = True, pc_route_nopull = False, pc_dco = False, pc_pull_filter_list = [], pc_tun_mtu_defined = False,
     pc_push_continuation = 0, pc_pulled_options_state = None, pc_pulled_options_digest = [], pc_calls = [], pc_sigusr1 = False,
     pc_push_request_received = False, pc_log = [], pc_other = []\<rparr>"

lemma parse_ab: "parse_line MAX_PARMS [97, 32, 98] = (2, [[97], [98]])"
  by (simp add: parse_line_def MAX_PARMS_def parse_defs c_isspace_def OPTION_PARM_SIZE_def)

theorem push_reply_roundtrip_witness:
  "\<exists>chunks cl'. send_push_reply take_all (\<lambda>_. 0) [\<lparr>pe_enable = True, pe_option = [97, 32, 98]\<rparr>] [] [] = Some (concat chunks, True) \<and>
    receive_payloads (\<lambda>_. 0) id (\<lambda>c. (c, PUSH_MSG_ERROR)) (map payload_of chunks) example_client = Some cl' \<and>
    other_calls cl' = [Add_option [[97], [98]]] \<and> pc_sigusr1 cl' = False"
proof -
  let ?g = "[\<lparr>pe_enable = True, pe_option = [97, 32, 98]\<rparr>]"
  have opts: "enabled_options (?g @ []) = [[97, 32, 98]]" by (simp add: enabled_simps)
  have "short_options (?g @ [])" by (simp add: short_options_simps)
  then obtain bs cur where r: "send_push_reply take_all (\<lambda>_. 0) ?g [] [] = Some ([] @ reply_messages bs cur, True)"
    "concat bs @ cur = enabled_options (?g @ [])" "\<forall>b\<in>set (bs @ [cur]). length (reply_text b) < 941"
    by (rule send_push_reply_messages)
  define chunks where "chunks = map (\<lambda>m. [m]) (reply_messages bs cur)"
  have c: "concat chunks = reply_messages bs cur" "[] \<notin> set chunks" by (auto simp: chunks_def)
  have "list_all message_ok (reply_messages bs cur)"
    by (rule reply_messages_ok) (use r(2,3) opts in \<open>simp_all add: line_ok_def text_ok_def\<close>)
  then have "list_all (\<lambda>ms. length (payload_of ms) < 1000000) chunks"
    by (auto simp: chunks_def list_all_iff message_ok_def payload_of_def PUSH_BUNDLE_SIZE_def)
  moreover have pass: "filters_pass [] [[97, 32, 98]]" and called: "called [] [[97, 32, 98]] = [Add_option [[97], [98]]]"
    by (simp_all add: filters_pass_def accepted_def no_continuation_def option_params_def called_def c_isspace_def parse_ab push_continuation_chars)
  ultimately have "\<exists>cl'. receive_payloads (\<lambda>_. 0) id (\<lambda>c. (c, PUSH_MSG_ERROR)) (map payload_of chunks) example_client = Some cl' \<and>
    other_calls cl' = other_calls example_client @ called (pc_pull_filter_list example_client) [[97, 32, 98]] \<and>
    pc_log cl' = pc_log example_client @ replicate (length (concat chunks) - 1) PUSH_MSG_CONTINUATION @ [PUSH_MSG_REPLY] \<and>
    pc_sigusr1 cl' = pc_sigusr1 example_client"
    by (intro push_reply_roundtrip[where g = ?g and c = "[]" and junk = "\<lambda>_. 0"])
      (use r(1) c opts in \<open>simp_all add: line_ok_def text_ok_def example_client_def\<close>)
  then obtain cl' where "receive_payloads (\<lambda>_. 0) id (\<lambda>c. (c, PUSH_MSG_ERROR)) (map payload_of chunks) example_client = Some cl'"
    "other_calls cl' = other_calls example_client @ called (pc_pull_filter_list example_client) [[97, 32, 98]]"
    "pc_sigusr1 cl' = pc_sigusr1 example_client" by blast
  then show ?thesis using r(1) c(1) called by (intro exI[of _ chunks] exI[of _ cl']) (simp add: example_client_def other_calls_def)
qed

text \<open>C11: An option that a filter rejects ends the message: the options before it are added, none after it,
  the message is bad and the client asks for a restart.\<close>

theorem push_reply_rejected:
  assumes "list_all (accepted fs) ls" "list_all (no_continuation fs) ls" "\<not> accepted fs l" "list_all line_ok (ls @ l # rest)"
    "pc_pull_filter_list c = fs" "pc_pull c"
  shows "\<exists>c'. parse_incoming_control_channel_command sha256 request (buf_of [] (reply_text (ls @ l # rest) @ [0]) q) c = Some c' \<and>
    pc_sigusr1 c' \<and> pc_calls c' = pc_calls c @ called fs ls \<and> pc_log c' = pc_log c @ [PUSH_MSG_ERROR]"
proof -
  let ?pm = "pull_permission_mask c" and ?ls = "ls @ l # rest"
  have s: "pc_pull_filter_list (start_digest c) = fs" using assms(5) by (simp add: start_digest_def)
  define c1 where "c1 = (start_digest c)\<lparr>pc_calls := pc_calls (start_digest c) @ called fs ls\<rparr>"
  have fs1: "pc_pull_filter_list c1 = fs" using s by (simp add: c1_def)
  have "fst (apply_pull_filter fs (dropWhile c_isspace l)) = False" using assms(3) by (simp add: accepted_def)
  then have "apply_push_line False ?pm l c1 = Some None"
    by (cases "apply_pull_filter fs (dropWhile c_isspace l)") (simp add: apply_push_line_def dropWhile_eq_drop[symmetric] fs1)
  then have run: "apply_lines False ?pm ?ls (start_digest c) = Some (c1, False)"
    using apply_reply_lines[OF assms(1,2) s, of ?pm "l # rest"] by (simp add: c1_def called_def)
  have "?ls \<noteq> []" by simp
  from apply_push_options_lines(1)[OF assms(4) this, of False ?pm "push_reply_cmd @ [44]" q "start_digest c"] run
  have "process_incoming_push_reply sha256 ?pm (buf_of push_reply_cmd (join_options ?ls @ [0]) q) c = Some (c1\<lparr>pc_sigusr1 := True\<rparr>, PUSH_MSG_ERROR)"
    by (simp add: process_incoming_push_reply_def start_digest_def[symmetric] join_update buf_read_u8_def buf_peek_u8_of buf_advance_of)
  then have "parse_incoming_control_channel_command sha256 request (buf_of [] (reply_text ?ls @ [0]) q) c =
      Some (c1\<lparr>pc_sigusr1 := True, pc_log := pc_log c1 @ [PUSH_MSG_ERROR]\<rparr>)"
    using assms(6) by (simp add: parse_incoming_control_channel_command_def reply_text_join reply_is_push incoming_push_message_def reply_dispatch)
  then show ?thesis by (simp add: c1_def start_digest_def)
qed

theorem push_reply_rejected_witness:
  "\<exists>c'. parse_incoming_control_channel_command id (\<lambda>c. (c, PUSH_MSG_ERROR)) (buf_of [] (reply_text [[97, 32, 98], [120, 121], [122]] @ [0]) [])
     (example_client\<lparr>pc_pull_filter_list := [\<lparr>pf_type = PUF_TYPE_REJECT, pf_pattern = [120]\<rparr>]\<rparr>) = Some c' \<and>
    pc_sigusr1 c' \<and> pc_calls c' = [Add_option [[97], [98]]]"
proof -
  let ?fs = "[\<lparr>pf_type = PUF_TYPE_REJECT, pf_pattern = [120]\<rparr>]"
  have "called ?fs [[97, 32, 98]] = [Add_option [[97], [98]]]"
    by (simp add: option_params_def called_def c_isspace_def parse_ab)
  moreover have "\<exists>c'. parse_incoming_control_channel_command id (\<lambda>c. (c, PUSH_MSG_ERROR)) (buf_of [] (reply_text ([[97, 32, 98]] @ [120, 121] # [[122]]) @ [0]) [])
      (example_client\<lparr>pc_pull_filter_list := ?fs\<rparr>) = Some c' \<and>
     pc_sigusr1 c' \<and> pc_calls c' = pc_calls (example_client\<lparr>pc_pull_filter_list := ?fs\<rparr>) @ called ?fs [[97, 32, 98]] \<and>
     pc_log c' = pc_log (example_client\<lparr>pc_pull_filter_list := ?fs\<rparr>) @ [PUSH_MSG_ERROR]"
    by (rule push_reply_rejected)
      (simp_all add: accepted_def no_continuation_def option_params_def c_isspace_def parse_ab push_continuation_chars line_ok_def example_client_def)
  moreover have "pc_calls (example_client\<lparr>pc_pull_filter_list := ?fs\<rparr>) = []" by (simp add: example_client_def)
  ultimately show ?thesis by auto
qed

text \<open>C12: An option that may not be updated is refused in an update, unless the server calls it optional: then
  it is not ignored, as the message in the log says, but updated.\<close>

theorem optional_update_applied:
  assumes "opt \<noteq> []" "hd opt \<notin> {0, 45, 63}" "\<not> c_isspace (hd opt)" "\<not> option_updatable opt"
    "pc_pull_filter_list c = []" "parse_line MAX_PARMS opt = (r, p)" "r \<noteq> 0"
  shows "apply_push_line True pm opt c = Some None \<and>
    apply_push_line True pm (63 # opt) c = map_option Some (update_option pm p c)"
proof (rule conjI)
  obtain a x where opt: "opt = a # x" using assms(1) by (cases opt) auto
  have a: "a \<noteq> 0" "a \<noteq> 45" "a \<noteq> 63" "\<not> c_isspace a" using assms(2,3) opt by auto
  have flags: "PUSH_OPT_OPTIONAL AND PUSH_OPT_OPTIONAL \<noteq> 0" "PUSH_OPT_OPTIONAL AND PUSH_OPT_TO_REMOVE = 0"
    by (simp_all add: PUSH_OPT_OPTIONAL_def PUSH_OPT_TO_REMOVE_def)
  have "check_push_update_option_flags opt 0 = (False, 0, 0)"
    using a assms(4) by (simp add: check_push_update_option_flags_def opt str_at_def)
  then show "apply_push_line True pm opt c = Some None"
    using a by (simp add: apply_push_line_def opt)
  have "check_push_update_option_flags (63 # opt) 0 = (True, 1, PUSH_OPT_OPTIONAL)"
    using a flags by (simp add: check_push_update_option_flags_def opt str_at_def)
  then show "apply_push_line True pm (63 # opt) c = map_option Some (update_option pm p c)"
    using flags assms(5,6,7) by (simp add: apply_push_line_def c_isspace_def)
qed

theorem optional_update_applied_witness:
  "apply_push_line True 0 [63, 97, 32, 98] example_client = Some (Some (example_client\<lparr>pc_calls := [Update_option [[97], [98]]]\<rparr>))"
proof -
  have "\<not> option_updatable [97, 32, 98]" by (simp add: option_updatable_def updatable_options_def ascii_def)
  then show ?thesis
    using optional_update_applied[of "[97, 32, 98]" example_client 2 "[[97], [98]]" 0] parse_ab
    by (simp add: c_isspace_def example_client_def update_option_def set_push_continuation_def)
qed

end
