(* ===== verification/Spec2Isabelle.thy ===== *)
theory Spec2Isabelle
  imports Ovpn_Text Ovpn_Buffer_List Ovpn_Mbuf Ovpn_Packet_Id Ovpn_Tls_Output Ovpn_Base64 Ovpn_Fragment Ovpn_Data_Channel Ovpn_Schedule Ovpn_Client_Nat Ovpn_Tls_Crypt_V2 Ovpn_Pool_File Ovpn_Pull
begin

text \<open>
  A development of the core of the OpenVPN engine in \<open>src/openvpn/src/main/cpp/openvpn/src/openvpn/\<close>,
  the C program that moves the application's traffic.  All file names below are relative to that
  directory.

  \<^bold>\<open>How the parts interact.\<close>  Packets live in \<open>struct buffer\<close>.  A datagram read from the tunnel
  may be cut into fragments (\<open>fragment.c\<close>), is sealed under the key of the current epoch with a packet
  id in its nonce (\<open>crypto.c\<close>, \<open>crypto_epoch.c\<close>, \<open>packet_id.c\<close>) and sent; a server queues packets for its
  clients (\<open>mbuf.c\<close>).  The receiver finds the key, opens the packet, refuses replays and reassembles
  fragments.  Keys are negotiated over the control channel, on which the TLS output is cut into
  packets that the reliability layer (\<open>reliable.c\<close>) numbers, acknowledges and retransmits.  Timers
  (\<open>interval.c\<close>, \<open>otime.c\<close>, \<open>shaper.c\<close>) drive retransmissions and limits.

  \<^bold>\<open>Conventions.\<close>  \<open>Ovpn_Prelude\<close>: a C function is a HOL function on records for its structs, with
  unsigned integers as words and signed ones as \<open>int\<close>; \<open>None\<close> is an abort (\<open>ASSERT\<close>, \<open>M_FATAL\<close>) or
  undefined behaviour (an access outside its block), so every equation with \<open>Some\<close> also says that
  neither happens.  A sum or product of the code's \<open>int\<close>s that can leave the range is checked by
  \<open>c_int_ok\<close>, so that overflow is \<open>None\<close> too.  Time, randomness, files and third-party libraries are
  arguments.

  \<^bold>\<open>Theories.\<close>
  \<^item> \<open>Ovpn_Integer\<close> (\<open>integer.h\<close>), \<open>Ovpn_Buffer\<close>, \<open>Ovpn_Text\<close>, \<open>Ovpn_Buffer_List\<close> (\<open>buffer.h\<close>, \<open>buffer.c\<close>): clamping and
    circular arithmetic; buffers as a block split into headroom, content and tailroom, with one equation
    per operation (\<open>buf_eqs\<close>); strings and hex; lists of buffers.  The operations keep the invariant
    (\<open>buf_total\<close>), \<open>buf_copy_range\<close> where its sums do not overflow; writing and reading is a FIFO of bytes
    (locale \<open>byte_fifo\<close>).
  \<^item> \<open>Ovpn_Fifo\<close>, \<open>Ovpn_Ring\<close>, \<open>Ovpn_Mbuf\<close> (\<open>mbuf.h\<close>, \<open>mbuf.c\<close>): the client queue as a ring with reference
    counts on a heap refines the locale \<open>fifo\<close>; no leak and no early free.
  \<^item> \<open>Ovpn_Circ_List\<close> (\<open>circ_list.h\<close>), \<open>Ovpn_Packet_Id\<close> (\<open>packet_id.h\<close>, \<open>packet_id.c\<close>): the replay window accepts
    what its specification accepts, a receiver that remembers the arrival of every number and refuses
    all below a floor, which the time limit raises; formats on the wire; persistence.
  \<^item> \<open>Ovpn_Ack\<close>, \<open>Ovpn_Reliable\<close> (\<open>reliable.h\<close>, \<open>reliable.c\<close>, \<open>session_id.h\<close>), \<open>Ovpn_Reliable_Link\<close> (the steps of
    \<open>ssl.c\<close> that use them, two peers, their clock and a network that loses, repeats and reorders as a step
    relation \<open>link_step\<close>, and \<open>link_abort\<close> for the states in which a step fails), \<open>Ovpn_Tls_Output\<close> (cutting
    the TLS output): in-order delivery, no failure but the overflow of a doubled timeout, progress by
    the timers alone, acknowledgments.
  \<^item> \<open>Ovpn_Fragment\<close> (\<open>fragment.h\<close>, \<open>fragment.c\<close>): fragments of a datagram reassemble to it in any order.
  \<^item> \<open>Ovpn_Hkdf\<close>, \<open>Ovpn_Epoch\<close> (\<open>crypto_epoch.c\<close>, key contexts of \<open>crypto.c\<close>): derivation equals HKDF of RFC 5869;
    over any run no nonce repeats and peers agree on keys.
  \<^item> \<open>Ovpn_Data_Channel\<close> (\<open>crypto.c\<close>): sealing and opening of packets with AEAD ciphers in both formats; what a
    cipher library promises is the hypothesis \<open>aead_laws\<close>.  Two peers that send and receive anything in any
    order deliver nothing twice and nothing that was not sent, and what arrives in order is delivered.
  \<^item> \<open>Ovpn_Tls_Crypt\<close>, \<open>Ovpn_Tls_Crypt_V2\<close> (\<open>tls_crypt.h\<close>, \<open>tls_crypt.c\<close>): protection of control packets, with the same
    two results as for the data channel; client keys wrapped for a server arrive there and nothing else
    is unwrapped; the keys for renegotiations agree.  The library's promises are \<open>wrap_laws\<close> and \<open>stream_laws\<close>.
  \<^item> \<open>Ovpn_Inet\<close> (\<open>proto.h\<close>, \<open>proto.c\<close>), \<open>Ovpn_Mss\<close> (\<open>mss.c\<close>), \<open>Ovpn_Client_Nat\<close> (\<open>clinat.c\<close>): the headers of tunnelled packets,
    ones' complement arithmetic, MSS clamping and address translation in place.  What they rewrite, and
    that checksums stay valid; an MSS option at an odd offset, a UDP checksum of zero, and for NAT packets
    with IP options and later fragments are the exceptions.
  \<^item> \<open>Ovpn_Pool\<close>, \<open>Ovpn_Pool_File\<close> (\<open>pool.h\<close>, \<open>pool.c\<close>): the server's pool of addresses.  In every reachable state
    clients hold different addresses, those of IPv4 in the range; a returning client gets its entry; the
    file is read back as it was written if the names allow it.  An IPv6 pool can leave its subnet, and
    names with commas are misread.
  \<^item> \<open>Ovpn_Options\<close> (\<open>options_parse.c\<close>), \<open>Ovpn_Options_Util\<close> (\<open>options_util.c\<close>), \<open>Ovpn_Push\<close> (\<open>push.c\<close>, \<open>push_util.c\<close>, \<open>pushlist.h\<close>),
    \<open>Ovpn_Pull\<close> (the client's side of \<open>push.c\<close>, \<open>forward.c\<close>, \<open>ssl_pkt.c\<close>): the line parser agrees with a grammar of
    lines and stays in its buffers; the options a server pushes reach the client whole and in order through
    messages of bounded size, if they fit the client's line of 256 bytes; what filters reject stops the client.  An update that ends with a comma can
    leave the client waiting, and optional options that may not be updated are updated.
  \<^item> \<open>Ovpn_Base64\<close> (\<open>base64.c\<close>), \<open>Ovpn_Time\<close> (\<open>otime.c\<close>, \<open>otime.h\<close>, \<open>interval.c\<close>, \<open>interval.h\<close>, \<open>shaper.c\<close>, \<open>shaper.h\<close>);
    \<open>Ovpn_Schedule\<close> (\<open>schedule.c\<close>): the treap of wakeup times, on a memory with parent pointers, refines the
    locale \<open>wakeup_queue\<close>.

  \<^bold>\<open>Bounds and fuel.\<close>  Only the loops over the lines and commands of a push
  message have fuel, more than the bytes of the buffer, of which every round takes one; the theorems show that
  it is enough.  Loops that count are structural or have a measure; loops whose
  end depends on machine arithmetic (\<open>hkdf_loop\<close>, \<open>send_catch_up\<close>, the fragment window) or on pointers (the
  treap) are \<open>partial_function (option)\<close> and proved to return.  Buffers are below the code's \<open>BUF_SIZE_MAX\<close>; the
  replay window is 1 to 65536 wide as the option parser admits; clock readings are above 1, the value
  the code reserves for expired entries.

  \<^bold>\<open>Not modelled.\<close>  Sockets, tun devices, routes, the management interface, what the options do and process
  control (input and output to the system); the TLS and cipher libraries (OpenSSL, mbed TLS), LZO, LZ4,
  asio, fmt (third party; parameters where used); the rest of \<open>ssl.c\<close>, \<open>multi.c\<close>, \<open>forward.c\<close>, \<open>init.c\<close>, which
  mostly connect the above with the system; strongSwan (\<open>src/strongswan\<close>); and the parts of the repository
  that are not C.
\<close>

end
